(* ===== verification/Pixels_Prelude.thy ===== *)
theory Pixels_Prelude
  imports Main "HOL-Library.Word" "HOL-Library.Multiset"
begin

text \<open>
  Shared vocabulary of the development: the machine integer types of the Go source, the
  collections of simplification facts the component theories fill, and generic lemmas on
  lists, maps and words that more than one component uses.
\<close>

unbundle bit_operations_syntax

text \<open>Unsigned and signed Go integers of a fixed width; signed ones are read with \<open>sint\<close>.\<close>

type_synonym u8 = "8 word"
type_synonym u16 = "16 word"
type_synonym u32 = "32 word"
type_synonym u64 = "64 word"
type_synonym i16 = "16 word"
type_synonym i32 = "32 word"
type_synonym bytes = "u8 list"

text \<open>Keys of the database records (Go \<open>int64\<close> ids) are mathematical integers here.\<close>

type_synonym ident = int

text \<open>Fact collections: encoders, steps of a state, and invariants.\<close>

named_theorems codec_simps
named_theorems step_simps
named_theorems inv_simps

lemma word16_of_int_uint:
  fixes i :: int
  assumes "0 \<le> i" and "i < 65536"
  shows "uint (word_of_int i :: u16) = i"
  using assms by (simp add: uint_word_of_int take_bit_int_eq_self)

lemma u16_uint_bounds [simp]: "uint (w :: u16) < 65536"
  using uint_lt2p [of w] by simp

lemma u16_uint_le [simp]: "uint (w :: u16) \<le> 65535"
  using u16_uint_bounds [of w] by linarith

lemma i16_sint_of_int:
  "- 32768 \<le> i \<Longrightarrow> i \<le> 32767 \<Longrightarrow> sint (word_of_int i :: i16) = i"
  by (simp add: sint_sbintrunc' signed_take_bit_int_eq_self)

lemma u16_unat_bounds: "unat (w :: u16) < 65536"
  using unsigned_less [of w, where ?'a = nat] by simp

lemma i16_sint_bounds: "- 32768 \<le> sint (h :: i16)" "sint (h :: i16) \<le> 32767"
  using sint_range_size [of h] by (simp_all add: word_size)

text \<open>Removing the first occurrence of an element, as the slice idiom of the source does.\<close>

lemma remove1_not_in: "distinct xs \<Longrightarrow> x \<notin> set (remove1 x xs)"
  by simp

lemma mset_list_swap:
  assumes "i < length xs" and "j < length xs"
  shows "mset (xs[i := xs ! j, j := xs ! i]) = mset xs"
  using assms mset_swap [of j xs i] by (simp add: list_update_swap)

text \<open>Decimal text of a natural number and of an integer, as \<^verbatim>\<open>strconv.Itoa\<close> writes it.\<close>

definition digit_char :: "nat \<Rightarrow> char" where
  "digit_char d = char_of (48 + d)"

fun nat_dec :: "nat \<Rightarrow> string" where
  "nat_dec n = (if n < 10 then [digit_char n] else nat_dec (n div 10) @ [digit_char (n mod 10)])"

declare nat_dec.simps [simp del]

definition int_dec :: "int \<Rightarrow> string" where
  "int_dec i = (if i < 0 then CHR ''-'' # nat_dec (nat (- i)) else nat_dec (nat i))"

fun dec_value :: "string \<Rightarrow> nat" where
  "dec_value [] = 0"
| "dec_value (c # cs) = (of_char c - 48) * 10 ^ length cs + dec_value cs"

lemma dec_value_append: "dec_value (xs @ ys) = dec_value xs * 10 ^ length ys + dec_value ys"
  by (induction xs) (simp_all add: algebra_simps power_add)

lemma of_char_digit: "d < 10 \<Longrightarrow> of_char (digit_char d) = 48 + d"
  by (simp add: digit_char_def)

lemma dec_value_nat_dec [simp]: "dec_value (nat_dec n) = n"
proof (induction n rule: nat_dec.induct)
  case (1 n)
  then show ?case
    by (subst nat_dec.simps) (simp add: dec_value_append of_char_digit)
qed

lemma nat_dec_inj: "nat_dec m = nat_dec n \<longleftrightarrow> m = n"
  by (metis dec_value_nat_dec)

lemma nat_dec_digits: "c \<in> set (nat_dec n) \<Longrightarrow> c \<in> digit_char ` {..<10}"
  by (induction n rule: nat_dec.induct) (subst (asm) nat_dec.simps, auto split: if_splits)

text \<open>Rows of one width, read by row and column.\<close>

lemma nth_concat_rows:
  assumes "\<forall>r\<in>set rows. length r = w" and "y < length rows" and "x < w"
  shows "concat rows ! (y * w + x) = rows ! y ! x"
  using assms
proof (induction rows arbitrary: y)
  case Nil
  then show ?case by simp
next
  case (Cons r rows)
  show ?case
  proof (cases y)
    case 0
    with Cons.prems show ?thesis by (simp add: nth_append)
  next
    case (Suc y')
    with Cons show ?thesis by (simp add: nth_append)
  qed
qed

lemma length_concat_rows:
  assumes "\<forall>r\<in>set rows. length r = w"
  shows "length (concat rows) = length rows * w"
  using assms by (induction rows) auto

lemma row_index_bound: "(y::nat) < h \<Longrightarrow> x < w \<Longrightarrow> y * w + x < h * w"
proof -
  assume "y < h" and "x < w"
  then have "y * w + x < Suc y * w" by simp
  also have "\<dots> \<le> h * w" using \<open>y < h\<close> by (intro mult_le_mono1) simp
  finally show ?thesis .
qed

text \<open>Writing rows with a separator between them.\<close>

fun join :: "'a \<Rightarrow> 'a list list \<Rightarrow> 'a list" where
  "join sep [] = []"
| "join sep [r] = r"
| "join sep (r # rs) = r @ sep # join sep rs"

lemma join_Cons: "rs \<noteq> [] \<Longrightarrow> join sep (r # rs) = r @ sep # join sep rs"
  by (cases rs) simp_all

lemma join_snoc: "rs \<noteq> [] \<Longrightarrow> join sep (rs @ [r]) = join sep rs @ sep # r"
  by (induction rs rule: join.induct) (auto simp: join_Cons)

lemma dropWhile_hd: "xs = [] \<or> \<not> P (hd xs) \<Longrightarrow> dropWhile P xs = xs"
  by (cases xs) auto

lemma length_filter_map_cong:
  "map P xs = map P ys \<Longrightarrow> length (filter P xs) = length (filter P ys)"
  by (induction xs ys rule: list_induct2') auto

end
