(* ===== verification/Codec.thy ===== *)
theory Codec
  imports Pixels_Prelude
begin

text \<open>
  The wire format of \<^verbatim>\<open>networking/codec\<close>: length-prefixed frames (\<^verbatim>\<open>frame.go\<close>), packets
  (\<^verbatim>\<open>packet.go\<close>) and typed payloads (\<^verbatim>\<open>payload.go\<close>, \<^verbatim>\<open>value.go\<close>). A Go function that returns
  data together with an error is a function to a tuple whose last part is the error option, so
  the data returned beside an error is modelled too. A \<^verbatim>\<open>float64\<close> is its 64-bit pattern:
  \<^verbatim>\<open>math.Float64bits\<close> and \<^verbatim>\<open>math.Float64frombits\<close> are inverse bijections on patterns.
\<close>

subsection \<open>Errors, kinds, fields and values\<close>

datatype codec_error =
    ErrFrameTooSmall
  | ErrInvalidField
  | ErrPayloadTooLarge
  | ErrStringTooLarge
  | ErrTruncatedPayload
  | ErrUnexpectedPayload
  | ErrUnexpectedHeader

text \<open>\<open>OtherKind\<close> stands for the numbers of the \<^verbatim>\<open>uint8\<close> type \<^verbatim>\<open>Kind\<close> that name no kind.\<close>

datatype kind =
    BooleanKind | Int32Kind | Uint16Kind | Uint32Kind | StringKind | ByteKind | DoubleKind
  | OtherKind u8

record field =
  field_name :: string
  field_kind :: kind
  field_optional :: bool

type_synonym payload_definition = "field list"

record val =
  val_boolean :: bool
  val_int32 :: i32
  val_uint16 :: u16
  val_uint32 :: u32
  val_string :: bytes
  val_byte :: u8
  val_double :: u64

definition zero_val :: val where
  "zero_val = \<lparr>val_boolean = False, val_int32 = 0, val_uint16 = 0, val_uint32 = 0,
     val_string = [], val_byte = 0, val_double = 0\<rparr>"

definition BoolVal :: "bool \<Rightarrow> val" where "BoolVal b = zero_val\<lparr>val_boolean := b\<rparr>"
definition Int32Val :: "i32 \<Rightarrow> val" where "Int32Val n = zero_val\<lparr>val_int32 := n\<rparr>"
definition Uint16Val :: "u16 \<Rightarrow> val" where "Uint16Val n = zero_val\<lparr>val_uint16 := n\<rparr>"
definition Uint32Val :: "u32 \<Rightarrow> val" where "Uint32Val n = zero_val\<lparr>val_uint32 := n\<rparr>"
definition StringVal :: "bytes \<Rightarrow> val" where "StringVal s = zero_val\<lparr>val_string := s\<rparr>"
definition ByteVal :: "u8 \<Rightarrow> val" where "ByteVal b = zero_val\<lparr>val_byte := b\<rparr>"
definition Float64Val :: "u64 \<Rightarrow> val" where "Float64Val d = zero_val\<lparr>val_double := d\<rparr>"

definition mk_field :: "kind \<Rightarrow> field" where
  "mk_field k = \<lparr>field_name = [], field_kind = k, field_optional = False\<rparr>"

definition Optional :: "field \<Rightarrow> field" where
  "Optional f = f\<lparr>field_optional := True\<rparr>"

definition Named :: "string \<Rightarrow> field \<Rightarrow> field" where
  "Named n f = f\<lparr>field_name := n\<rparr>"

subsection \<open>Big-endian integers\<close>

text \<open>The four \<^verbatim>\<open>encoding/binary\<close> routines the codec calls.\<close>

definition be16 :: "u16 \<Rightarrow> bytes" where
  "be16 v = [ucast (drop_bit 8 v), ucast v]"

definition be32 :: "u32 \<Rightarrow> bytes" where
  "be32 v = [ucast (drop_bit 24 v), ucast (drop_bit 16 v), ucast (drop_bit 8 v), ucast v]"

definition be64 :: "u64 \<Rightarrow> bytes" where
  "be64 v = [ucast (drop_bit 56 v), ucast (drop_bit 48 v), ucast (drop_bit 40 v),
     ucast (drop_bit 32 v), ucast (drop_bit 24 v), ucast (drop_bit 16 v),
     ucast (drop_bit 8 v), ucast v]"

fun be_fold :: "'a::len word \<Rightarrow> bytes \<Rightarrow> 'a word" where
  "be_fold acc [] = acc"
| "be_fold acc (b # bs) = be_fold (push_bit 8 acc OR ucast b) bs"

definition un16 :: "bytes \<Rightarrow> u16" where "un16 bs = be_fold 0 bs"
definition un32 :: "bytes \<Rightarrow> u32" where "un32 bs = be_fold 0 bs"
definition un64 :: "bytes \<Rightarrow> u64" where "un64 bs = be_fold 0 bs"

lemma length_be [simp]: "length (be16 v) = 2" "length (be32 w) = 4" "length (be64 d) = 8"
  by (simp_all add: be16_def be32_def be64_def)

text \<open>One step of the fold puts back the byte that was shifted out.\<close>

lemma push_byte:
  fixes v :: "'a::len word"
  shows "push_bit 8 (drop_bit (k + 8) v) OR ucast (ucast (drop_bit k v) :: u8) = drop_bit k v"
proof (rule bit_word_eqI)
  fix n
  assume "n < LENGTH('a)"
  show "bit (push_bit 8 (drop_bit (k + 8) v) OR ucast (ucast (drop_bit k v) :: u8)) n
      \<longleftrightarrow> bit (drop_bit k v) n"
  proof (cases "8 \<le> n")
    case True
    then have "8 + (n - 8) = n" by simp
    with True \<open>n < LENGTH('a)\<close> show ?thesis by (auto simp: bit_simps add.assoc)
  next
    case False
    with \<open>n < LENGTH('a)\<close> show ?thesis by (auto simp: bit_simps)
  qed
qed

lemma top_byte:
  fixes v :: "'a::len word"
  assumes "LENGTH('a) \<le> k + 8"
  shows "ucast (ucast (drop_bit k v) :: u8) = drop_bit k v"
  using assms by (intro bit_word_eqI) (auto simp: bit_simps dest: bit_imp_le_length)

lemma un16_be16 [simp]: "un16 (be16 v) = v"
  using push_byte [of 0 v] top_byte [of 8 v] by (simp add: un16_def be16_def)

lemma un32_be32 [simp]: "un32 (be32 v) = v"
  using push_byte [of 0 v] push_byte [of 8 v] push_byte [of 16 v] top_byte [of 24 v]
  by (simp add: un32_def be32_def)

lemma un64_be64 [simp]: "un64 (be64 v) = v"
  using push_byte [of 0 v] push_byte [of 8 v] push_byte [of 16 v] push_byte [of 24 v]
    push_byte [of 32 v] push_byte [of 40 v] push_byte [of 48 v] top_byte [of 56 v]
  by (simp add: un64_def be64_def)

subsection \<open>Payloads\<close>

definition appendString :: "bytes \<Rightarrow> bytes \<Rightarrow> bytes \<times> codec_error option" where
  "appendString dst s =
     (if length s > 65535 then (dst, Some ErrStringTooLarge)
      else (dst @ be16 (word_of_nat (length s)) @ s, None))"

definition decodeString :: "bytes \<Rightarrow> val \<times> bytes \<times> codec_error option" where
  "decodeString src =
     (if length src < 2 then (zero_val, src, Some ErrTruncatedPayload)
      else (let size = unat (un16 (take 2 src))
            in if length src < 2 + size then (zero_val, src, Some ErrTruncatedPayload)
               else (StringVal (take size (drop 2 src)), drop (2 + size) src, None)))"

fun appendValue :: "bytes \<Rightarrow> field \<Rightarrow> val \<Rightarrow> bytes \<times> codec_error option" where
  "appendValue dst f v = (case field_kind f of
     BooleanKind \<Rightarrow> (if val_boolean v then (dst @ [1], None) else (dst @ [0], None))
   | Int32Kind \<Rightarrow> (dst @ be32 (val_int32 v), None)
   | Uint16Kind \<Rightarrow> (dst @ be16 (val_uint16 v), None)
   | Uint32Kind \<Rightarrow> (dst @ be32 (val_uint32 v), None)
   | StringKind \<Rightarrow> appendString dst (val_string v)
   | ByteKind \<Rightarrow> (dst @ [val_byte v], None)
   | DoubleKind \<Rightarrow> (dst @ be64 (val_double v), None)
   | OtherKind _ \<Rightarrow> (dst, Some ErrInvalidField))"

text \<open>Reading a fixed number of bytes from the front, or reporting truncation.\<close>

definition need :: "nat \<Rightarrow> bytes \<Rightarrow> (bytes \<Rightarrow> val) \<Rightarrow> val \<times> bytes \<times> codec_error option" where
  "need n src f =
     (if length src < n then (zero_val, src, Some ErrTruncatedPayload)
      else (f (take n src), drop n src, None))"

fun decodeValue :: "field \<Rightarrow> bytes \<Rightarrow> val \<times> bytes \<times> codec_error option" where
  "decodeValue f src = (case field_kind f of
     BooleanKind \<Rightarrow> need 1 src (\<lambda>b. BoolVal (hd b \<noteq> 0))
   | Int32Kind \<Rightarrow> need 4 src (\<lambda>b. Int32Val (un32 b))
   | Uint16Kind \<Rightarrow> need 2 src (\<lambda>b. Uint16Val (un16 b))
   | Uint32Kind \<Rightarrow> need 4 src (\<lambda>b. Uint32Val (un32 b))
   | StringKind \<Rightarrow> decodeString src
   | ByteKind \<Rightarrow> need 1 src (\<lambda>b. ByteVal (hd b))
   | DoubleKind \<Rightarrow> need 8 src (\<lambda>b. Float64Val (un64 b))
   | OtherKind _ \<Rightarrow> (zero_val, src, Some ErrInvalidField))"

text \<open>The loop of \<^verbatim>\<open>AppendPayload\<close>: fields and values are walked together.\<close>

fun appendFields :: "bytes \<Rightarrow> payload_definition \<Rightarrow> val list \<Rightarrow> bytes \<times> codec_error option" where
  "appendFields dst [] vs = (dst, None)"
| "appendFields dst (f # fs) [] =
     (if field_optional f then appendFields dst fs [] else (dst, Some ErrInvalidField))"
| "appendFields dst (f # fs) (v # vs) = (case appendValue dst f v of
     (dst', Some e) \<Rightarrow> (dst', Some e)
   | (dst', None) \<Rightarrow> appendFields dst' fs vs)"

definition AppendPayload ::
  "bytes \<Rightarrow> payload_definition \<Rightarrow> val list \<Rightarrow> bytes \<times> codec_error option" where
  "AppendPayload dst def vs =
     (if length vs > length def then (dst, Some ErrInvalidField)
      else appendFields dst def vs)"

fun DecodePayload ::
  "val list \<Rightarrow> payload_definition \<Rightarrow> bytes \<Rightarrow> val list \<times> bytes \<times> codec_error option" where
  "DecodePayload dst [] src = (dst, src, None)"
| "DecodePayload dst (f # fs) src = (case decodeValue f src of
     (v, rest, Some e) \<Rightarrow>
       (if field_optional f \<and> e = ErrTruncatedPayload then (dst, src, None)
        else (dst, src, Some e))
   | (v, rest, None) \<Rightarrow> DecodePayload (dst @ [v]) fs rest)"

subsection \<open>Packets and frames\<close>

record packet =
  header :: u16
  payload :: bytes

definition HeaderSize :: nat where "HeaderSize = 2"
definition LengthSize :: nat where "LengthSize = 4"
definition FrameOverhead :: nat where "FrameOverhead = LengthSize + HeaderSize"

definition packet_size :: "packet \<Rightarrow> nat" where
  "packet_size p = HeaderSize + length (payload p)"

definition NewPacket ::
  "u16 \<Rightarrow> payload_definition \<Rightarrow> val list \<Rightarrow> packet \<times> codec_error option" where
  "NewPacket h def vs = (case AppendPayload [] def vs of
     (_, Some e) \<Rightarrow> (\<lparr>header = 0, payload = []\<rparr>, Some e)
   | (bs, None) \<Rightarrow> (\<lparr>header = h, payload = bs\<rparr>, None))"

definition DecodePacket ::
  "packet \<Rightarrow> payload_definition \<Rightarrow> val list \<times> bytes \<times> codec_error option" where
  "DecodePacket p def = DecodePayload [] def (payload p)"

definition DecodePacketExact ::
  "packet \<Rightarrow> payload_definition \<Rightarrow> codec_error + val list" where
  "DecodePacketExact p def = (case DecodePacket p def of
     (vs, rest, Some e) \<Rightarrow> Inl e
   | (vs, rest, None) \<Rightarrow> if length rest \<noteq> 0 then Inl ErrUnexpectedPayload else Inr vs)"

definition AppendFrame :: "bytes \<Rightarrow> packet \<Rightarrow> bytes \<times> codec_error option" where
  "AppendFrame dst p =
     (let size = packet_size p
      in if size > 4294967295 then (dst, Some ErrPayloadTooLarge)
         else (dst @ be32 (word_of_nat size) @ be16 (header p) @ payload p, None))"

function DecodeFrames ::
  "packet list \<Rightarrow> bytes \<Rightarrow> packet list \<times> bytes \<times> codec_error option" where
  "DecodeFrames dst src =
     (if length src \<ge> LengthSize then
        (let size = unat (un32 (take LengthSize src))
         in if size < HeaderSize then (dst, src, Some ErrFrameTooSmall)
            else (let stop = LengthSize + size
                  in if length src < stop then (dst, src, None)
                     else (let frame = take size (drop LengthSize src);
                               p = \<lparr>header = un16 (take HeaderSize frame),
                                    payload = drop HeaderSize frame\<rparr>
                           in DecodeFrames (dst @ [p]) (drop stop src))))
      else (dst, src, None))"
  by pat_completeness auto
termination
  by (relation "measure (\<lambda>(dst, src). length src)") (auto simp: LengthSize_def)

declare DecodeFrames.simps [simp del]
declare appendValue.simps [simp del] decodeValue.simps [simp del]

subsection \<open>What one field encodes to, and back\<close>

text \<open>The part of a value that the field's kind puts on the wire.\<close>

definition canon :: "field \<Rightarrow> val \<Rightarrow> val" where
  "canon f v = (case field_kind f of
     BooleanKind \<Rightarrow> BoolVal (val_boolean v) | Int32Kind \<Rightarrow> Int32Val (val_int32 v)
   | Uint16Kind \<Rightarrow> Uint16Val (val_uint16 v) | Uint32Kind \<Rightarrow> Uint32Val (val_uint32 v)
   | StringKind \<Rightarrow> StringVal (val_string v) | ByteKind \<Rightarrow> ByteVal (val_byte v)
   | DoubleKind \<Rightarrow> Float64Val (val_double v) | OtherKind _ \<Rightarrow> zero_val)"

definition known_kind :: "field \<Rightarrow> bool" where
  "known_kind f = (case field_kind f of OtherKind _ \<Rightarrow> False | _ \<Rightarrow> True)"

lemma need_append [codec_simps]:
  "length b = n \<Longrightarrow> need n (b @ rest) f = (f b, rest, None)"
  by (simp add: need_def)

lemma unat_length_u16: "length s \<le> 65535 \<Longrightarrow> unat (word_of_nat (length s) :: u16) = length s"
  by (simp add: unat_of_nat take_bit_nat_eq_self)

lemma decodeString_appendString:
  assumes "appendString dst s = (out, None)"
  shows "\<exists>e. out = dst @ e \<and> (\<forall>rest. decodeString (e @ rest) = (StringVal s, rest, None))"
proof -
  from assms have len: "length s \<le> 65535"
    and out: "out = dst @ be16 (word_of_nat (length s)) @ s"
    by (auto simp: appendString_def split: if_splits)
  have "decodeString ((be16 (word_of_nat (length s)) @ s) @ rest) = (StringVal s, rest, None)" for rest
    using len by (simp add: decodeString_def unat_length_u16)
  with out show ?thesis by blast
qed

lemma decodeValue_appendValue:
  assumes "appendValue dst f v = (out, None)"
  shows "\<exists>e. out = dst @ e \<and> (\<forall>rest. decodeValue f (e @ rest) = (canon f v, rest, None))"
proof (cases "field_kind f")
  case BooleanKind
  with assms have "out = dst @ [if val_boolean v then 1 else 0]"
    by (auto simp: appendValue.simps split: if_splits)
  then show ?thesis
    using BooleanKind by (auto simp: decodeValue.simps canon_def need_def)
next
  case StringKind
  with assms have "appendString dst (val_string v) = (out, None)"
    by (simp add: appendValue.simps)
  from decodeString_appendString [OF this] StringKind show ?thesis
    by (simp add: decodeValue.simps canon_def)
qed (use assms in \<open>auto simp: appendValue.simps decodeValue.simps canon_def codec_simps need_def\<close>)

lemma decodeValue_empty:
  assumes "known_kind f"
  shows "decodeValue f [] = (zero_val, [], Some ErrTruncatedPayload)"
  using assms by (simp add: known_kind_def decodeValue.simps need_def decodeString_def
      split: kind.splits)

lemma appendValue_dst:
  "appendValue dst f v = (dst @ fst (appendValue [] f v), snd (appendValue [] f v))"
  by (simp add: appendValue.simps appendString_def split: kind.splits)

lemma appendFields_Nil_vals:
  "appendFields dst fs [] = (out, None) \<longleftrightarrow> out = dst \<and> (\<forall>f\<in>set fs. field_optional f)"
  by (induction fs) auto

lemma DecodePayload_Nil_src:
  assumes "\<forall>f\<in>set fs. field_optional f \<and> known_kind f"
  shows "DecodePayload acc fs [] = (acc, [], None)"
  using assms by (cases fs) (simp_all add: decodeValue_empty)

lemma DecodePayload_appendFields:
  assumes "\<forall>f\<in>set fs. known_kind f"
    and "appendFields dst fs vs = (out, None)" and "length vs \<le> length fs"
  shows "\<exists>e. out = dst @ e \<and>
    (\<forall>acc. DecodePayload acc fs e = (acc @ map2 canon fs vs, [], None))"
  using assms
proof (induction dst fs vs rule: appendFields.induct)
  case (1 dst vs)
  then show ?case by simp
next
  case (2 dst f fs)
  then have "out = dst \<and> (\<forall>g\<in>set (f # fs). field_optional g)"
    using appendFields_Nil_vals [of dst "f # fs" out] by simp
  with 2 show ?case
    using DecodePayload_Nil_src [of "f # fs"] by (intro exI [of _ "[]"]) simp
next
  case (3 dst f fs v vs)
  from "3.prems" obtain mid where mid: "appendValue dst f v = (mid, None)"
    and tail: "appendFields mid fs vs = (out, None)"
    by (auto split: prod.splits option.splits)
  from decodeValue_appendValue [OF mid] obtain e where e: "mid = dst @ e"
    "\<And>rest. decodeValue f (e @ rest) = (canon f v, rest, None)" by blast
  from "3.IH" [OF mid [symmetric]] tail "3.prems" obtain e' where e': "out = mid @ e'"
    "\<And>acc. DecodePayload acc fs e' = (acc @ map2 canon fs vs, [], None)" by auto
  have "DecodePayload acc (f # fs) (e @ e') = (acc @ map2 canon (f # fs) (v # vs), [], None)" for acc
    using e e' by simp
  with e e' show ?case by (intro exI [of _ "e @ e'"]) simp
qed

subsection \<open>Frames\<close>

definition frame_of :: "packet \<Rightarrow> bytes" where
  "frame_of p = be32 (word_of_nat (packet_size p)) @ be16 (header p) @ payload p"

definition fits :: "packet \<Rightarrow> bool" where
  "fits p \<longleftrightarrow> packet_size p \<le> 4294967295"

lemma AppendFrame_fits [codec_simps]: "fits p \<Longrightarrow> AppendFrame dst p = (dst @ frame_of p, None)"
  by (simp add: AppendFrame_def fits_def frame_of_def Let_def)

lemma length_frame_of: "length (frame_of p) = FrameOverhead + length (payload p)"
  by (simp add: frame_of_def FrameOverhead_def LengthSize_def HeaderSize_def)

lemma un32_size: "fits p \<Longrightarrow> unat (word_of_nat (packet_size p) :: u32) = packet_size p"
  by (simp add: fits_def unat_of_nat take_bit_nat_eq_self)

text \<open>The three outcomes of looking at the front of the buffer.\<close>

abbreviation announced :: "bytes \<Rightarrow> nat" where
  "announced src \<equiv> unat (un32 (take LengthSize src))"

definition incomplete :: "bytes \<Rightarrow> bool" where
  "incomplete src \<longleftrightarrow> length src < LengthSize \<or>
     (HeaderSize \<le> announced src \<and> length src < LengthSize + announced src)"

definition complete :: "bytes \<Rightarrow> bool" where
  "complete src \<longleftrightarrow> LengthSize \<le> length src \<and> HeaderSize \<le> announced src \<and>
     LengthSize + announced src \<le> length src"

definition undersized :: "bytes \<Rightarrow> bool" where
  "undersized src \<longleftrightarrow> LengthSize \<le> length src \<and> announced src < HeaderSize"

definition head_packet :: "bytes \<Rightarrow> packet" where
  "head_packet src = (let frame = take (announced src) (drop LengthSize src)
     in \<lparr>header = un16 (take HeaderSize frame), payload = drop HeaderSize frame\<rparr>)"

lemma front_cases:
  obtains (incomplete) "incomplete src" | (undersized) "undersized src" | (complete) "complete src"
  unfolding incomplete_def undersized_def complete_def by linarith

lemma DecodeFrames_incomplete: "incomplete src \<Longrightarrow> DecodeFrames dst src = (dst, src, None)"
  by (subst DecodeFrames.simps) (auto simp: incomplete_def Let_def)

lemma DecodeFrames_undersized:
  "undersized src \<Longrightarrow> DecodeFrames dst src = (dst, src, Some ErrFrameTooSmall)"
  by (subst DecodeFrames.simps) (auto simp: undersized_def Let_def)

lemma DecodeFrames_complete:
  "complete src \<Longrightarrow> DecodeFrames dst src =
     DecodeFrames (dst @ [head_packet src]) (drop (LengthSize + announced src) src)"
  by (subst DecodeFrames.simps) (auto simp: complete_def head_packet_def Let_def)

lemma complete_shorter: "complete src \<Longrightarrow> length (drop (LengthSize + announced src) src) < length src"
  by (auto simp: complete_def LengthSize_def)

lemma complete_append:
  assumes "complete a"
  shows "complete (a @ b)" and "head_packet (a @ b) = head_packet a" and "announced (a @ b) = announced a"
  using assms by (auto simp: complete_def head_packet_def Let_def)

lemma undersized_append: "undersized a \<Longrightarrow> undersized (a @ b)"
  by (auto simp: undersized_def)

lemma frame_of_front:
  assumes "fits p"
  shows "announced (frame_of p @ rest) = packet_size p" and "complete (frame_of p @ rest)"
    and "head_packet (frame_of p @ rest) = p"
    and "drop (LengthSize + packet_size p) (frame_of p @ rest) = rest"
proof -
  show n: "announced (frame_of p @ rest) = packet_size p"
    using un32_size [OF assms] by (simp add: frame_of_def LengthSize_def)
  show "complete (frame_of p @ rest)"
    unfolding complete_def n by (simp add: frame_of_def LengthSize_def HeaderSize_def packet_size_def)
  show "head_packet (frame_of p @ rest) = p"
    unfolding head_packet_def n
    by (simp add: frame_of_def LengthSize_def HeaderSize_def packet_size_def Let_def)
  show "drop (LengthSize + packet_size p) (frame_of p @ rest) = rest"
    by (simp add: frame_of_def LengthSize_def HeaderSize_def packet_size_def)
qed

lemma DecodeFrames_frame [codec_simps]:
  "fits p \<Longrightarrow> DecodeFrames dst (frame_of p @ rest) = DecodeFrames (dst @ [p]) rest"
  by (simp only: DecodeFrames_complete frame_of_front)

lemma DecodeFrames_frames:
  assumes "\<forall>p\<in>set ps. fits p"
  shows "DecodeFrames dst (concat (map frame_of ps) @ rest) = DecodeFrames (dst @ ps) rest"
  using assms by (induction ps arbitrary: dst) (simp_all add: codec_simps)

text \<open>Decoding without error always stops at an incomplete buffer.\<close>

lemma DecodeFrames_rest_incomplete:
  "DecodeFrames dst src = (ps, rest, None) \<Longrightarrow> incomplete rest"
proof (induction "length src" arbitrary: dst src rule: less_induct)
  case less
  show ?case
  proof (cases rule: front_cases [of src])
    case incomplete
    with less.prems show ?thesis by (simp add: DecodeFrames_incomplete)
  next
    case undersized
    with less.prems show ?thesis by (simp add: DecodeFrames_undersized)
  next
    case complete
    with less.prems less.hyps [OF complete_shorter] show ?thesis
      by (simp add: DecodeFrames_complete)
  qed
qed

text \<open>The packets already decoded are only carried along.\<close>

lemma DecodeFrames_acc:
  "DecodeFrames dst src = (dst @ fst (DecodeFrames [] src), snd (DecodeFrames [] src))"
proof (induction "length src" arbitrary: dst src rule: less_induct)
  case less
  show ?case
  proof (cases rule: front_cases [of src])
    case complete
    let ?src = "drop (LengthSize + announced src) src"
    show ?thesis
      using less [OF complete_shorter [OF complete], of "dst @ [head_packet src]"]
        less [OF complete_shorter [OF complete], of "[head_packet src]"]
      by (simp add: DecodeFrames_complete [OF complete])
  qed (simp_all add: DecodeFrames_incomplete DecodeFrames_undersized)
qed

text \<open>Cutting the stream anywhere and resuming with the kept rest changes nothing.\<close>

lemma DecodeFrames_append:
  "DecodeFrames dst (a @ b) = (case DecodeFrames dst a of
     (ps, rest, Some e) \<Rightarrow> (ps, rest @ b, Some e)
   | (ps, rest, None) \<Rightarrow> DecodeFrames ps (rest @ b))"
proof (induction "length a" arbitrary: dst a rule: less_induct)
  case less
  show ?case
  proof (cases rule: front_cases [of a])
    case complete
    have "LengthSize + announced a \<le> length a" using complete by (simp add: complete_def)
    then show ?thesis
      using less [OF complete_shorter [OF complete], of "dst @ [head_packet a]"]
      by (simp add: DecodeFrames_complete [OF complete]
          DecodeFrames_complete [OF complete_append(1) [OF complete]] complete_append [OF complete])
  qed (simp_all add: DecodeFrames_incomplete DecodeFrames_undersized undersized_append)
qed

subsection \<open>Properties\<close>

text \<open>C12: A stream that is the concatenation of the frames \<^verbatim>\<open>AppendFrame\<close> writes, followed by an
  incomplete frame, is decoded by \<^verbatim>\<open>DecodeFrames\<close> into exactly the packets that were written,
  in order, with the incomplete tail kept for the next read and no error.\<close>

theorem frames_roundtrip:
  assumes "\<forall>p\<in>set ps. packet_size p \<le> 4294967295" and "incomplete rest"
  shows "DecodeFrames [] (fold (\<lambda>p dst. fst (AppendFrame dst p)) ps [] @ rest) = (ps, rest, None)"
proof -
  have fits: "\<forall>p\<in>set ps. fits p" using assms(1) by (simp add: fits_def)
  have "fold (\<lambda>p dst. fst (AppendFrame dst p)) ps dst = dst @ concat (map frame_of ps)" for dst
    using fits by (induction ps arbitrary: dst) (simp_all add: codec_simps)
  then show ?thesis
    using fits assms(2) by (simp add: DecodeFrames_frames DecodeFrames_incomplete)
qed

theorem frames_roundtrip_witness:
  "DecodeFrames [] (fold (\<lambda>p dst. fst (AppendFrame dst p))
      [\<lparr>header = 4000, payload = [7, 8]\<rparr>, \<lparr>header = 1, payload = []\<rparr>] [] @ [0, 0, 0])
   = ([\<lparr>header = 4000, payload = [7, 8]\<rparr>, \<lparr>header = 1, payload = []\<rparr>], [0, 0, 0], None)"
  by (rule frames_roundtrip)
    (simp_all add: packet_size_def HeaderSize_def incomplete_def LengthSize_def)

text \<open>C13: Decoding does not depend on how the transport cuts the byte stream: decoding \<open>a\<close>, and
  then the rest it kept together with the later bytes \<open>b\<close>, gives the same packets, rest and
  error as decoding \<open>a @ b\<close> at once; an error in \<open>a\<close> stays, with the later bytes untouched.\<close>

theorem frames_chunking:
  "DecodeFrames [] (a @ b) = (case DecodeFrames [] a of
     (ps, rest, Some e) \<Rightarrow> (ps, rest @ b, Some e)
   | (ps, rest, None) \<Rightarrow>
       (ps @ fst (DecodeFrames [] (rest @ b)), snd (DecodeFrames [] (rest @ b))))"
proof -
  obtain ps rest err where a: "DecodeFrames [] a = (ps, rest, err)" by (cases "DecodeFrames [] a")
  show ?thesis
    using DecodeFrames_append [of "[]" a b] DecodeFrames_acc [of ps "rest @ b"] a
    by (simp split: option.splits)
qed

text \<open>C14: Whatever values \<^verbatim>\<open>NewPacket\<close> accepts for a definition of known kinds,
  \<^verbatim>\<open>DecodePacketExact\<close> with the same definition returns: one value per value given, each
  holding what the field's kind carries, no byte left over, whether or not optional fields at
  the end were omitted.\<close>

theorem payload_roundtrip:
  assumes "\<forall>f\<in>set def. known_kind f" and "NewPacket h def vs = (p, None)"
  shows "DecodePacketExact p def = Inr (map2 canon def vs) \<and> header p = h \<and>
    length (map2 canon def vs) = length vs"
proof -
  from assms(2) obtain bs where bs: "AppendPayload [] def vs = (bs, None)"
    and p: "p = \<lparr>header = h, payload = bs\<rparr>"
    by (auto simp: NewPacket_def split: prod.splits option.splits)
  from bs have len: "length vs \<le> length def" and "appendFields [] def vs = (bs, None)"
    by (auto simp: AppendPayload_def split: if_splits)
  with DecodePayload_appendFields [OF assms(1)]
  have "DecodePayload [] def bs = (map2 canon def vs, [], None)" by fastforce
  with p len show ?thesis by (simp add: DecodePacketExact_def DecodePacket_def)
qed

theorem payload_roundtrip_witness:
  "DecodePacketExact (fst (NewPacket 2481
      [mk_field StringKind, mk_field Int32Kind, Optional (mk_field BooleanKind)]
      [StringVal [104, 105], Int32Val 5])) 
    [mk_field StringKind, mk_field Int32Kind, Optional (mk_field BooleanKind)]
   = Inr [StringVal [104, 105], Int32Val 5]"
proof -
  let ?def = "[mk_field StringKind, mk_field Int32Kind, Optional (mk_field BooleanKind)]"
  let ?vs = "[StringVal [104, 105], Int32Val 5]"
  have known: "\<forall>f\<in>set ?def. known_kind f"
    by (simp add: known_kind_def mk_field_def Optional_def)
  have ok: "NewPacket 2481 ?def ?vs = (fst (NewPacket 2481 ?def ?vs), None)"
    by (simp add: NewPacket_def AppendPayload_def appendValue.simps appendString_def mk_field_def
        Optional_def StringVal_def Int32Val_def)
  show ?thesis
    using payload_roundtrip [OF known ok]
    by (simp add: canon_def mk_field_def StringVal_def Int32Val_def zero_val_def)
qed

text \<open>A value has the type of a field when only the part that the kind of the field carries is set.\<close>

lemma decodeString_typed: "decodeString src = (v, rest, None) \<Longrightarrow> v = StringVal (val_string v) \<and> length rest < length src"
  by (auto simp: decodeString_def StringVal_def Let_def split: if_splits)

lemma decodeValue_typed:
  assumes "decodeValue f src = (v, rest, None)"
  shows "known_kind f \<and> canon f v = v \<and> length rest < length src"
  using assms decodeString_typed [of src v rest]
  by (auto simp: decodeValue.simps need_def canon_def known_kind_def zero_val_def BoolVal_def Int32Val_def Uint16Val_def Uint32Val_def
      ByteVal_def Float64Val_def split: kind.splits if_splits)

lemma DecodePayload_typed:
  assumes "DecodePayload acc fs src = (out, rest, None)"
  shows "\<exists>vs. out = acc @ vs \<and> list_all2 (\<lambda>f v. known_kind f \<and> canon f v = v) (take (length vs) fs) vs \<and> length vs \<le> length fs \<and>
    (length vs < length fs \<longrightarrow> field_optional (fs ! length vs)) \<and> length rest + length vs \<le> length src"
  using assms
proof (induction acc fs src arbitrary: out rest rule: DecodePayload.induct)
  case (2 acc f fs src)
  obtain v more err where d: "decodeValue f src = (v, more, err)" by (cases "decodeValue f src")
  show ?case
  proof (cases err)
    case None
    from 2(1) [OF d [unfolded None, symmetric] refl refl] 2(2) d None obtain vs where vs: "out = acc @ v # vs"
        "list_all2 (\<lambda>f v. known_kind f \<and> canon f v = v) (take (length vs) fs) vs" "length vs \<le> length fs"
        "length vs < length fs \<longrightarrow> field_optional (fs ! length vs)" "length rest + length vs \<le> length more"
      by auto
    with decodeValue_typed [OF d [unfolded None]] show ?thesis by (intro exI [of _ "v # vs"]) auto
  next
    case (Some e)
    with 2(2) d show ?thesis by (auto split: if_splits intro!: exI [of _ "[]"])
  qed
qed auto

text \<open>C39: Decoded values are typed. When a packet decodes exactly, its values belong to the fields from the front, one for each,
  and every field that has a value is of a known kind and its value of that kind, with nothing else set; if fields
  are left without a value, the first of them is optional (what follows it is not looked at when the payload has ended); and
  no more values than payload bytes come out.\<close>

theorem decoded_values_typed:
  assumes "DecodePacketExact p def = Inr vs"
  shows "list_all2 (\<lambda>f v. known_kind f \<and> canon f v = v) (take (length vs) def) vs \<and> length vs \<le> length def \<and>
    (length vs < length def \<longrightarrow> field_optional (def ! length vs)) \<and> length vs \<le> length (payload p)"
proof -
  have "DecodePayload [] def (payload p) = (vs, [], None)"
    using assms by (auto simp: DecodePacketExact_def DecodePacket_def split: prod.splits option.splits if_splits)
  from DecodePayload_typed [OF this] show ?thesis by simp
qed

theorem decoded_values_typed_witness:
  "let p = \<lparr>header = 1, payload = [0, 2, 104, 105, 0, 0, 0, 5]\<rparr>;
       def = [mk_field StringKind, mk_field Int32Kind, Optional (mk_field BooleanKind)]
   in \<exists>vs. DecodePacketExact p def = Inr vs \<and> length vs = 2 \<and> list_all2 (\<lambda>f v. canon f v = v) (take 2 def) vs"
proof -
  let ?p = "\<lparr>header = 1, payload = [0, 2, 104, 105, 0, 0, 0, 5]\<rparr>"
  let ?def = "[mk_field StringKind, mk_field Int32Kind, Optional (mk_field BooleanKind)]"
  have d: "DecodePacketExact ?p ?def = Inr [StringVal [104, 105], Int32Val 5]" by code_simp
  have "list_all2 (\<lambda>f v. canon f v = v) (take 2 ?def) [StringVal [104, 105], Int32Val 5]"
    using decoded_values_typed [OF d] by (simp add: numeral_2_eq_2)
  with d show ?thesis by (simp add: Let_def)
qed

end
