(* ===== verification/Diffie.thy ===== *)
theory Diffie
  imports Pixels_Prelude
begin

text \<open>
  The legacy cipher of \<^verbatim>\<open>networking/crypto/diffie\<close>: RC4 streams (\<^verbatim>\<open>rc4.go\<close>), the raw RSA operations with
  their padding (\<^verbatim>\<open>rsa.go\<close>), and the channel that negotiates a Diffie-Hellman key and then opens and seals
  bytes (\<^verbatim>\<open>channel.go\<close>, \<^verbatim>\<open>factory.go\<close>, \<^verbatim>\<open>config.go\<close>). A \<^verbatim>\<open>big.Int\<close> that is never negative is a natural
  number. Randomness is an argument: the primes that \<^verbatim>\<open>rand.Prime\<close> returns, \<open>None\<close> for a failing source.
\<close>

datatype diffie_error =
    ErrDiffieDisabled | ErrInvalidConfig | ErrInvalidSharedKey | ErrInvalidDiffieState
  | ErrInvalidParameters | ErrInvalidPublicKey | ErrRandom | ErrContext

subsection \<open>RC4\<close>

record rc4Cipher =
  rc_i :: u8
  rc_j :: u8
  rc_table :: "u8 list"

definition swap_table :: "u8 \<Rightarrow> u8 \<Rightarrow> u8 list \<Rightarrow> u8 list" where
  "swap_table a b t = t[unat a := t ! unat b, unat b := t ! unat a]"

fun rc4_schedule :: "bytes \<Rightarrow> nat list \<Rightarrow> u8 \<Rightarrow> u8 list \<Rightarrow> u8 list" where
  "rc4_schedule key [] j t = t"
| "rc4_schedule key (index # rest) j t =
     (let j' = j + t ! index + key ! (index mod length key)
      in rc4_schedule key rest j' (swap_table (word_of_nat index) j' t))"

definition newRC4Cipher :: "bytes \<Rightarrow> diffie_error + rc4Cipher" where
  "newRC4Cipher key =
     (if key = [] then Inl ErrInvalidSharedKey
      else Inr \<lparr>rc_i = 0, rc_j = 0, rc_table = rc4_schedule key [0..<256] 0 (map word_of_nat [0..<256])\<rparr>)"

definition rc4_next :: "rc4Cipher \<Rightarrow> u8 \<times> rc4Cipher" where
  "rc4_next c =
     (let i = rc_i c + 1; j = rc_j c + rc_table c ! unat i; t = swap_table i j (rc_table c);
          key = t ! unat (ucast ((ucast (t ! unat i) :: u16) + ucast (t ! unat j)) :: u8)
      in (key, \<lparr>rc_i = i, rc_j = j, rc_table = t\<rparr>))"

fun rc4_apply :: "bytes \<Rightarrow> rc4Cipher \<Rightarrow> bytes \<times> rc4Cipher" where
  "rc4_apply [] c = ([], c)"
| "rc4_apply (b # bs) c =
     (let (key, c') = rc4_next c; (rest, c'') = rc4_apply bs c' in ((b XOR key) # rest, c''))"

subsection \<open>Numbers and text\<close>

text \<open>\<^verbatim>\<open>SetBytes\<close>, \<^verbatim>\<open>Bytes\<close> and \<^verbatim>\<open>BitLen\<close> of \<^verbatim>\<open>math/big\<close>, big-endian.\<close>

definition SetBytes :: "bytes \<Rightarrow> nat" where
  "SetBytes b = foldl (\<lambda>n x. n * 256 + unat x) 0 b"

fun big_Bytes :: "nat \<Rightarrow> bytes" where
  "big_Bytes n = (if n = 0 then [] else big_Bytes (n div 256) @ [word_of_nat (n mod 256)])"

fun BitLen :: "nat \<Rightarrow> nat" where
  "BitLen n = (if n = 0 then 0 else Suc (BitLen (n div 2)))"

declare big_Bytes.simps [simp del] BitLen.simps [simp del]

definition Exp :: "nat \<Rightarrow> nat \<Rightarrow> nat \<Rightarrow> nat" where "Exp b e m = b ^ e mod m"

definition text_bytes :: "string \<Rightarrow> bytes" where "text_bytes s = map of_char s"
definition bytes_text :: "bytes \<Rightarrow> string" where "bytes_text b = map (\<lambda>x. char_of (unat x)) b"

definition digit_value :: "char \<Rightarrow> nat" where
  "digit_value c = (let v = of_char c :: nat in
     if 48 \<le> v \<and> v \<le> 57 then v - 48 else if 97 \<le> v \<and> v \<le> 122 then v - 87
     else if 65 \<le> v \<and> v \<le> 90 then v - 55 else 99)"

text \<open>\<^verbatim>\<open>SetString\<close> for a base up to 36: an optional sign and at least one digit.\<close>

definition parse_digits :: "nat \<Rightarrow> string \<Rightarrow> nat option" where
  "parse_digits base s =
     (if s = [] \<or> list_ex (\<lambda>c. digit_value c \<ge> base) s then None
      else Some (foldl (\<lambda>n c. n * base + digit_value c) 0 s))"

definition SetString :: "nat \<Rightarrow> string \<Rightarrow> int option" where
  "SetString base s = (case s of
     [] \<Rightarrow> None
   | c # cs \<Rightarrow> if c = CHR ''-'' then map_option (\<lambda>n. - int n) (parse_digits base cs)
       else if c = CHR ''+'' then map_option int (parse_digits base cs)
       else map_option int (parse_digits base s))"

definition hex_char :: "nat \<Rightarrow> char" where
  "hex_char n = (if n < 10 then char_of (48 + n) else char_of (87 + n))"

fun hex_Encode :: "bytes \<Rightarrow> string" where
  "hex_Encode [] = []"
| "hex_Encode (b # bs) = hex_char (unat b div 16) # hex_char (unat b mod 16) # hex_Encode bs"

fun hex_Decode :: "string \<Rightarrow> bytes option" where
  "hex_Decode [] = Some []"
| "hex_Decode [c] = None"
| "hex_Decode (c # c' # s) =
     (if digit_value c < 16 \<and> digit_value c' < 16
      then map_option (Cons (word_of_nat (digit_value c * 16 + digit_value c'))) (hex_Decode s) else None)"

subsection \<open>RSA\<close>

record rsaKey =
  rk_exponent :: nat
  rk_modulus :: nat
  rk_private :: nat
  rk_blockSize :: nat

text \<open>A buffer of the block size with the number at its end.\<close>

definition transform :: "rsaKey \<Rightarrow> bytes \<Rightarrow> nat \<Rightarrow> bytes" where
  "transform key block exponent =
     (let transformed = big_Bytes (Exp (SetBytes block) exponent (rk_modulus key))
      in replicate (rk_blockSize key - length transformed) 0 @ transformed)"

text \<open>\<open>source\<close> is what the random source delivers, byte by byte.\<close>

fun fillNonZero :: "bytes \<Rightarrow> nat \<Rightarrow> bytes option" where
  "fillNonZero source 0 = Some []"
| "fillNonZero [] (Suc n) = None"
| "fillNonZero (b # source) (Suc n) =
     (if b = 0 then fillNonZero source (Suc n) else map_option (Cons b) (fillNonZero source n))"

definition pad :: "rsaKey \<Rightarrow> bytes \<Rightarrow> bytes \<Rightarrow> u8 \<Rightarrow> diffie_error + bytes" where
  "pad key source data blockType =
     (if int (rk_blockSize key) - int (length data) - 3 < 8 then Inl ErrInvalidParameters
      else (let paddingLength = rk_blockSize key - length data - 3 in
        if blockType = 1 then Inr ([0, blockType] @ replicate paddingLength 255 @ [0] @ data)
        else (case fillNonZero source paddingLength of
            None \<Rightarrow> Inl ErrRandom
          | Some fill \<Rightarrow> Inr ([0, blockType] @ fill @ [0] @ data))))"

text \<open>The loop of \<^verbatim>\<open>unpad\<close>: \<open>None\<close> is its early return.\<close>

fun find_separator :: "u8 \<Rightarrow> bytes \<Rightarrow> nat \<Rightarrow> nat option" where
  "find_separator t [] separator = Some separator"
| "find_separator t (b # bs) separator =
     (if b = 0 then Some separator
      else if t = 1 \<and> b \<noteq> 255 then None else find_separator t bs (Suc separator))"

definition unpad :: "rsaKey \<Rightarrow> bytes \<Rightarrow> u8 \<Rightarrow> diffie_error + bytes" where
  "unpad key block blockType =
     (if length block \<noteq> rk_blockSize key \<or> block ! 0 \<noteq> 0 \<or> block ! 1 \<noteq> blockType then Inl ErrInvalidParameters
      else (case find_separator blockType (drop 2 block) 2 of
          None \<Rightarrow> Inl ErrInvalidParameters
        | Some separator \<Rightarrow>
            if separator < 10 \<or> separator \<ge> length block then Inl ErrInvalidParameters
            else Inr (drop (separator + 1) block)))"

definition rsa_sign :: "rsaKey \<Rightarrow> bytes \<Rightarrow> diffie_error + string" where
  "rsa_sign key data = (case pad key [] data 1 of
     Inl e \<Rightarrow> Inl e | Inr padded \<Rightarrow> Inr (hex_Encode (transform key padded (rk_private key))))"

definition rsa_decrypt :: "rsaKey \<Rightarrow> string \<Rightarrow> diffie_error + bytes" where
  "rsa_decrypt key encoded = (case hex_Decode encoded of
     None \<Rightarrow> Inl ErrInvalidPublicKey
   | Some block \<Rightarrow> if length block \<noteq> rk_blockSize key then Inl ErrInvalidPublicKey
       else unpad key (transform key block (rk_private key)) 2)"

definition rsa_verify :: "rsaKey \<Rightarrow> string \<Rightarrow> diffie_error + bytes" where
  "rsa_verify key encoded = (case hex_Decode encoded of
     None \<Rightarrow> Inl ErrInvalidParameters
   | Some block \<Rightarrow> if length block \<noteq> rk_blockSize key then Inl ErrInvalidParameters
       else unpad key (transform key block (rk_exponent key)) 1)"

definition validatePair :: "rsaKey \<Rightarrow> diffie_error option" where
  "validatePair key = (case rsa_sign key (text_bytes ''pixels'') of
     Inl e \<Rightarrow> Some e
   | Inr signature \<Rightarrow> (case rsa_verify key signature of
         Inl _ \<Rightarrow> Some ErrInvalidConfig
       | Inr verified \<Rightarrow> if bytes_text verified \<noteq> ''pixels'' then Some ErrInvalidConfig else None))"

definition TrimHex :: "string \<Rightarrow> string" where
  "TrimHex s = (if take 2 s = ''0x'' then drop 2 s else s)"

definition newRSAKey :: "string \<Rightarrow> string \<Rightarrow> string \<Rightarrow> diffie_error + rsaKey" where
  "newRSAKey exponentHex modulusHex privateHex = (case SetString 16 (TrimHex exponentHex) of
     None \<Rightarrow> Inl ErrInvalidConfig
   | Some e \<Rightarrow> if e \<le> 0 then Inl ErrInvalidConfig else (case SetString 16 (TrimHex modulusHex) of
         None \<Rightarrow> Inl ErrInvalidConfig
       | Some n \<Rightarrow> if n \<le> 0 then Inl ErrInvalidConfig else (case SetString 16 (TrimHex privateHex) of
             None \<Rightarrow> Inl ErrInvalidConfig
           | Some d \<Rightarrow> if d \<le> 0 then Inl ErrInvalidConfig
               else (let key = \<lparr>rk_exponent = nat e, rk_modulus = nat n, rk_private = nat d,
                                rk_blockSize = (BitLen (nat n) + 7) div 8\<rparr>
                     in if rk_blockSize key < 64 then Inl ErrInvalidConfig
                        else (case validatePair key of Some err \<Rightarrow> Inl err | None \<Rightarrow> Inr key)))))"

subsection \<open>The channel\<close>

datatype security_state = SecurityPlain | SecurityNegotiating | SecurityReady | SecurityFailed

record diffie_config =
  dc_Enabled :: bool
  dc_Required :: bool
  dc_RSAExponent :: string
  dc_RSAModulus :: string
  dc_RSAPrivateExponent :: string
  dc_PrimeBits :: int
  dc_PrivateBits :: int
  dc_ServerClientEncryption :: bool

record channel =
  ch_config :: diffie_config
  ch_rsa :: rsaKey
  ch_state :: security_state
  ch_prime :: nat
  ch_generator :: nat
  ch_privateKey :: nat
  ch_publicKey :: nat
  ch_parameters :: "string \<times> string"
  ch_inbound :: "rc4Cipher option"
  ch_outbound :: "rc4Cipher option"

definition newChannel :: "diffie_config \<Rightarrow> rsaKey \<Rightarrow> channel" where
  "newChannel config key = \<lparr>ch_config = config, ch_rsa = key, ch_state = SecurityPlain, ch_prime = 0, ch_generator = 0,
     ch_privateKey = 0, ch_publicKey = 0, ch_parameters = ([], []), ch_inbound = None, ch_outbound = None\<rparr>"

definition generateValues :: "nat option \<Rightarrow> nat option \<Rightarrow> nat option \<Rightarrow> diffie_error + nat \<times> nat \<times> nat" where
  "generateValues first second third = (case first of
     None \<Rightarrow> Inl ErrRandom
   | Some prime \<Rightarrow> (case second of
         None \<Rightarrow> Inl ErrRandom
       | Some generator \<Rightarrow> (case third of
             None \<Rightarrow> Inl ErrRandom
           | Some private \<Rightarrow> if generator \<ge> prime then Inr (generator, prime, private)
               else Inr (prime, generator, private))))"

definition validPublicKey :: "channel \<Rightarrow> int \<Rightarrow> bool" where
  "validPublicKey c v \<longleftrightarrow> v \<ge> 2 \<and> v \<le> int (ch_prime c) - 2"

definition fail_channel :: "diffie_error \<Rightarrow> channel \<Rightarrow> channel \<times> (diffie_error + 'a)" where
  "fail_channel e c = (c\<lparr>ch_state := SecurityFailed\<rparr>, Inl e)"

text \<open>\<open>cancelled\<close> says that the context is done.\<close>

definition Begin :: "bool \<Rightarrow> nat option \<Rightarrow> nat option \<Rightarrow> nat option \<Rightarrow> channel \<Rightarrow> channel \<times> (diffie_error + unit)" where
  "Begin cancelled first second third c =
     (if ch_state c \<noteq> SecurityPlain then (c, Inl ErrInvalidDiffieState)
      else if cancelled then (c, Inl ErrContext)
      else (case generateValues first second third of
          Inl e \<Rightarrow> fail_channel e c
        | Inr (prime, generator, private) \<Rightarrow> (case rsa_sign (ch_rsa c) (text_bytes (nat_dec prime)) of
              Inl e \<Rightarrow> fail_channel e c
            | Inr signedPrime \<Rightarrow> (case rsa_sign (ch_rsa c) (text_bytes (nat_dec generator)) of
                  Inl e \<Rightarrow> fail_channel e c
                | Inr signedGenerator \<Rightarrow>
                    (c\<lparr>ch_prime := prime, ch_generator := generator, ch_privateKey := private,
                       ch_publicKey := Exp generator private prime,
                       ch_parameters := (signedPrime, signedGenerator), ch_state := SecurityNegotiating\<rparr>, Inr ())))))"

definition channel_Parameters :: "channel \<Rightarrow> diffie_error + string \<times> string" where
  "channel_Parameters c =
     (if ch_state c \<noteq> SecurityNegotiating then Inl ErrInvalidDiffieState else Inr (ch_parameters c))"

definition Complete :: "bool \<Rightarrow> string \<Rightarrow> channel \<Rightarrow> channel \<times> (diffie_error + string \<times> bool)" where
  "Complete cancelled encrypted c =
     (if ch_state c \<noteq> SecurityNegotiating \<or> ch_inbound c \<noteq> None then (c, Inl ErrInvalidDiffieState)
      else if cancelled then (c, Inl ErrContext)
      else (case rsa_decrypt (ch_rsa c) encrypted of
          Inl e \<Rightarrow> fail_channel e c
        | Inr decrypted \<Rightarrow> (case SetString 10 (bytes_text decrypted) of
              None \<Rightarrow> fail_channel ErrInvalidPublicKey c
            | Some clientPublic \<Rightarrow>
                if \<not> validPublicKey c clientPublic then fail_channel ErrInvalidPublicKey c
                else (let sharedKey = big_Bytes (Exp (nat clientPublic) (ch_privateKey c) (ch_prime c)) in
                  if sharedKey = [] then fail_channel ErrInvalidSharedKey c
                  else (case newRC4Cipher sharedKey of
                      Inl e \<Rightarrow> fail_channel e c
                    | Inr inbound \<Rightarrow> (case rsa_sign (ch_rsa c) (text_bytes (nat_dec (ch_publicKey c))) of
                          Inl e \<Rightarrow> fail_channel e c
                        | Inr encryptedPublic \<Rightarrow>
                            (c\<lparr>ch_inbound := Some inbound,
                               ch_outbound := (if dc_ServerClientEncryption (ch_config c) then Some inbound else None)\<rparr>,
                             Inr (encryptedPublic, dc_ServerClientEncryption (ch_config c)))))))))"

definition Activate :: "channel \<Rightarrow> channel \<times> (diffie_error + unit)" where
  "Activate c =
     (if ch_state c \<noteq> SecurityNegotiating \<or> ch_inbound c = None then (c, Inl ErrInvalidDiffieState)
      else (c\<lparr>ch_state := SecurityReady\<rparr>, Inr ()))"

definition channel_Open :: "bytes \<Rightarrow> channel \<Rightarrow> channel \<times> (diffie_error + bytes)" where
  "channel_Open source c = (case ch_inbound c of
     None \<Rightarrow> (c, Inl ErrInvalidDiffieState)
   | Some inbound \<Rightarrow>
       if ch_state c \<noteq> SecurityReady then (c, Inl ErrInvalidDiffieState)
       else (case rc4_apply source inbound of (opened, inbound') \<Rightarrow> (c\<lparr>ch_inbound := Some inbound'\<rparr>, Inr opened)))"

definition channel_Seal :: "bytes \<Rightarrow> channel \<Rightarrow> channel \<times> (diffie_error + bytes)" where
  "channel_Seal source c =
     (if ch_state c \<noteq> SecurityReady then (c, Inl ErrInvalidDiffieState)
      else (case ch_outbound c of
          None \<Rightarrow> (c, Inr source)
        | Some outbound \<Rightarrow> (case rc4_apply source outbound of
              (sealed, outbound') \<Rightarrow> (c\<lparr>ch_outbound := Some outbound'\<rparr>, Inr sealed))))"

definition channel_Close :: "channel \<Rightarrow> channel" where
  "channel_Close c =
     c\<lparr>ch_privateKey := 0, ch_inbound := None, ch_outbound := None, ch_state := SecurityFailed\<rparr>"

subsection \<open>Configuration and the factory\<close>

definition diffie_Normalize :: "diffie_config \<Rightarrow> diffie_config" where
  "diffie_Normalize c = c\<lparr>dc_RSAExponent := (if dc_RSAExponent c = [] then ''3'' else dc_RSAExponent c),
     dc_PrimeBits := (if dc_PrimeBits c \<le> 0 then 128 else dc_PrimeBits c),
     dc_PrivateBits := (if dc_PrivateBits c \<le> 0 then 128 else dc_PrivateBits c)\<rparr>"

definition diffie_Validate :: "diffie_config \<Rightarrow> diffie_error option" where
  "diffie_Validate config = (let c = diffie_Normalize config in
     if dc_Required c \<and> \<not> dc_Enabled c then Some ErrInvalidConfig
     else if \<not> dc_Enabled c then None
     else if dc_RSAModulus c = [] \<or> dc_RSAPrivateExponent c = [] then Some ErrInvalidConfig
     else if dc_PrimeBits c < 128 \<or> dc_PrimeBits c > 512 then Some ErrInvalidConfig
     else if dc_PrivateBits c < 128 \<or> dc_PrivateBits c > 512 then Some ErrInvalidConfig
     else None)"

record factory =
  fc_config :: diffie_config
  fc_rsa :: "rsaKey option"

definition NewFactory :: "diffie_config \<Rightarrow> diffie_error + factory" where
  "NewFactory config0 = (let c = diffie_Normalize config0 in case diffie_Validate c of
     Some e \<Rightarrow> Inl e
   | None \<Rightarrow> if \<not> dc_Enabled c then Inr \<lparr>fc_config = c, fc_rsa = None\<rparr>
       else (case newRSAKey (dc_RSAExponent c) (dc_RSAModulus c) (dc_RSAPrivateExponent c) of
           Inl e \<Rightarrow> Inl e | Inr key \<Rightarrow> Inr \<lparr>fc_config = c, fc_rsa = Some key\<rparr>))"

definition factory_Enabled :: "factory option \<Rightarrow> bool" where
  "factory_Enabled f = (case f of None \<Rightarrow> False | Some fac \<Rightarrow> dc_Enabled (fc_config fac) \<and> fc_rsa fac \<noteq> None)"

definition factory_New :: "factory option \<Rightarrow> diffie_error + channel" where
  "factory_New f =
     (if \<not> factory_Enabled f then Inl ErrDiffieDisabled
      else Inr (newChannel (fc_config (the f)) (the (fc_rsa (the f)))))"

subsection \<open>Streams\<close>

lemma rc4_apply_append:
  "rc4_apply (xs @ ys) c = (case rc4_apply xs c of (a, c1) \<Rightarrow> case rc4_apply ys c1 of (b, c2) \<Rightarrow> (a @ b, c2))"
  by (induction xs arbitrary: c) (auto simp: Let_def split: prod.splits)

lemma rc4_apply_twice: "rc4_apply (fst (rc4_apply xs c)) c = (xs, snd (rc4_apply xs c))"
  by (induction xs arbitrary: c) (simp_all add: Let_def case_prod_beta xor.assoc)

lemma rc4_length [simp]: "length (fst (rc4_apply xs c)) = length xs"
  by (induction xs arbitrary: c) (simp_all add: Let_def case_prod_beta)

text \<open>The table stays a permutation of the bytes, so every index is in range.\<close>

definition rc4_ok :: "u8 list \<Rightarrow> bool" where
  "rc4_ok t \<longleftrightarrow> mset t = mset (map word_of_nat [0..<256])"

lemma rc4_ok_length: "rc4_ok t \<Longrightarrow> length t = 256"
  unfolding rc4_ok_def by (drule mset_eq_length) simp

lemma u8_unat_bound [simp]: "unat (b :: u8) < 256" "unat (b :: u8) \<le> 255"
  using unsigned_less [of b, where ?'a = nat] by simp_all

lemma swap_table_ok: "rc4_ok t \<Longrightarrow> rc4_ok (swap_table a b t)"
  using mset_list_swap [of "unat a" t "unat b"]
  by (simp add: rc4_ok_length) (simp add: rc4_ok_def swap_table_def)

lemma rc4_schedule_ok: "rc4_ok t \<Longrightarrow> rc4_ok (rc4_schedule key is j t)"
  by (induction "is" arbitrary: j t) (simp_all add: Let_def swap_table_ok)

lemma newRC4Cipher_ok: "newRC4Cipher key = Inr c \<Longrightarrow> rc4_ok (rc_table c)"
  using rc4_schedule_ok [of "map word_of_nat [0..<256]"] by (auto simp: newRC4Cipher_def rc4_ok_def split: if_splits)

lemma rc4_apply_ok: "rc4_ok (rc_table c) \<Longrightarrow> rc4_ok (rc_table (snd (rc4_apply xs c)))"
proof (induction xs arbitrary: c)
  case (Cons x xs)
  have "rc4_ok (rc_table (snd (rc4_next c)))" using Cons.prems by (simp add: rc4_next_def Let_def swap_table_ok)
  then show ?case using Cons.IH [of "snd (rc4_next c)"] by (simp add: Let_def case_prod_beta)
qed simp

subsection \<open>Numbers as bytes and text\<close>

lemma SetBytes_foldl: "foldl (\<lambda>n x. n * 256 + unat x) n b = n * 256 ^ length b + SetBytes b"
proof (induction b arbitrary: n)
  case (Cons x b)
  have "SetBytes (x # b) = unat x * 256 ^ length b + SetBytes b" using Cons [of "unat x"] by (simp add: SetBytes_def)
  then show ?case using Cons [of "n * 256 + unat x"] by (simp add: algebra_simps)
qed (simp add: SetBytes_def)

lemma SetBytes_append: "SetBytes (a @ b) = SetBytes a * 256 ^ length b + SetBytes b"
  using SetBytes_foldl [of "SetBytes a" b] by (simp add: SetBytes_def)

lemma SetBytes_simps [simp]: "SetBytes [] = 0" "SetBytes [x] = unat x"
  by (simp_all add: SetBytes_def)

lemma SetBytes_Cons: "SetBytes (x # b) = unat x * 256 ^ length b + SetBytes b"
  using SetBytes_append [of "[x]" b] by simp

lemma SetBytes_less: "SetBytes b < 256 ^ length b"
proof (induction b)
  case (Cons x b)
  have "unat x * 256 ^ length b + SetBytes b < (unat x + 1) * 256 ^ length b" using Cons by simp
  also have "\<dots> \<le> 256 * 256 ^ length b" using u8_unat_bound(1) [of x] by (intro mult_right_mono) simp_all
  finally show ?case by (simp add: SetBytes_Cons)
qed simp

lemma SetBytes_inj: "length a = length b \<Longrightarrow> SetBytes a = SetBytes b \<Longrightarrow> a = b"
proof (induction a b rule: list_induct2)
  case (Cons x a y b)
  have "unat x * 256 ^ length a + SetBytes a = unat y * 256 ^ length a + SetBytes b"
    using Cons by (simp add: SetBytes_Cons)
  then have "(unat x * 256 ^ length a + SetBytes a) div 256 ^ length a = (unat y * 256 ^ length a + SetBytes b) div 256 ^ length a"
    "(unat x * 256 ^ length a + SetBytes a) mod 256 ^ length a = (unat y * 256 ^ length a + SetBytes b) mod 256 ^ length a"
    by simp_all
  then have "unat x = unat y" "SetBytes a = SetBytes b"
    using SetBytes_less [of a] SetBytes_less [of b] Cons.hyps by simp_all
  then show ?case using Cons.IH by (simp add: word_unat_eq_iff)
qed simp

lemma SetBytes_zeros [simp]: "SetBytes (replicate n 0 @ b) = SetBytes b"
  by (induction n) (simp_all add: SetBytes_Cons)

lemma SetBytes_big_Bytes [simp]: "SetBytes (big_Bytes n) = n"
proof (induction n rule: big_Bytes.induct)
  case (1 n)
  then show ?case by (subst big_Bytes.simps) (simp add: SetBytes_append unat_of_nat)
qed

lemma big_Bytes_length: "n < 256 ^ k \<Longrightarrow> length (big_Bytes n) \<le> k"
proof (induction n arbitrary: k rule: big_Bytes.induct)
  case (1 n)
  show ?case
  proof (cases "n = 0")
    case False
    with "1.prems" obtain m where k: "k = Suc m" by (cases k) auto
    then have "n div 256 < 256 ^ m" using "1.prems" by (simp add: less_mult_imp_div_less mult.commute)
    then show ?thesis using "1.IH" [OF False, of m] False k by (subst big_Bytes.simps) simp
  qed (simp add: big_Bytes.simps)
qed

lemma big_Bytes_empty [simp]: "big_Bytes n = [] \<longleftrightarrow> n = 0"
  by (subst big_Bytes.simps) simp

lemma BitLen_bounds: "0 < n \<Longrightarrow> 2 ^ (BitLen n - 1) \<le> n \<and> n < 2 ^ BitLen n"
proof (induction n rule: BitLen.induct)
  case (1 n)
  show ?case
  proof (cases "n = 1")
    case True
    then show ?thesis by (simp add: BitLen.simps)
  next
    case False
    then have "0 < n div 2" using "1.prems" by (simp add: div_greater_zero_iff)
    moreover from this "1.prems" have "2 ^ (BitLen (n div 2) - 1) \<le> n div 2 \<and> n div 2 < 2 ^ BitLen (n div 2)" using "1.IH" by simp
    moreover have "BitLen (n div 2) \<noteq> 0" using \<open>0 < n div 2\<close> by (subst BitLen.simps) simp
    moreover have "BitLen n = Suc (BitLen (n div 2))" using "1.prems" by (subst BitLen.simps) simp
    ultimately show ?thesis by (cases "BitLen (n div 2)") auto
  qed
qed

lemma hex_digit: "n < 16 \<Longrightarrow> digit_value (hex_char n) = n"
  by (auto simp: digit_value_def hex_char_def Let_def)

lemma hex_Decode_Encode [simp]: "hex_Decode (hex_Encode b) = Some b"
proof (induction b)
  case (Cons x b)
  have "unat x div 16 < 16" using u8_unat_bound(1) [of x] by (intro less_mult_imp_div_less) simp
  then show ?case using Cons by (simp add: hex_digit)
qed simp

lemma bytes_text_id [simp]: "bytes_text (text_bytes s) = s"
proof (induction s)
  case (Cons c s)
  have "of_char c < (256 :: nat)" by simp
  then have "unat (word_of_nat (of_char c) :: u8) = of_char c" by (simp add: unat_of_nat)
  then have "unat (of_char c :: u8) = of_char c" by (simp only: of_nat_of_char)
  then show ?case using Cons by (simp add: bytes_text_def text_bytes_def)
qed (simp add: bytes_text_def text_bytes_def)

lemma digit_value_digit: "d < 10 \<Longrightarrow> digit_value (digit_char d) = d"
  by (simp add: digit_value_def digit_char_def Let_def)

lemma parse_nat_dec: "parse_digits 10 (nat_dec n) = Some n"
proof -
  have "nat_dec n \<noteq> [] \<and> \<not> list_ex (\<lambda>c. digit_value c \<ge> 10) (nat_dec n) \<and>
      foldl (\<lambda>n c. n * 10 + digit_value c) 0 (nat_dec n) = n"
  proof (induction n rule: nat_dec.induct)
    case (1 n)
    then show ?case by (subst (1 2 3) nat_dec.simps) (simp add: digit_value_digit not_le)
  qed
  then show ?thesis by (simp add: parse_digits_def)
qed

lemma SetString_nat_dec [simp]: "SetString 10 (nat_dec n) = Some (int n)"
proof -
  have ne: "nat_dec n \<noteq> []" by (subst nat_dec.simps) simp
  then obtain c cs where c: "nat_dec n = c # cs" by (cases "nat_dec n") auto
  then obtain d where "d < 10" "c = digit_char d" using nat_dec_digits [of c n] by auto
  then have "of_char c = 48 + d" by (simp add: of_char_digit)
  then have "c \<noteq> CHR ''-''" "c \<noteq> CHR ''+''" by auto
  then show ?thesis using parse_nat_dec [of n] by (simp add: SetString_def c)
qed

subsection \<open>RSA blocks\<close>

lemma find_separator_zero:
  "\<forall>b\<in>set fill. b \<noteq> 0 \<and> (t = 1 \<longrightarrow> b = 255) \<Longrightarrow> find_separator t (fill @ 0 # rest) n = Some (n + length fill)"
  by (induction fill arbitrary: n) auto

lemma fillNonZero_Some: "fillNonZero source n = Some fill \<Longrightarrow> length fill = n \<and> (\<forall>b\<in>set fill. b \<noteq> 0)"
  proof (induction source n arbitrary: fill rule: fillNonZero.induct)
  case (3 b source n)
  show ?case
  proof (cases "b = 0")
    case False
    then obtain f where "fillNonZero source n = Some f" "fill = b # f" using "3.prems" by auto
    with "3.IH"(2) [OF False this(1)] False show ?thesis by simp
  next
    case True
    then have "fillNonZero source (Suc n) = Some fill" using "3.prems" by simp
    from "3.IH"(1) [OF True this] show ?thesis .
  qed
qed simp_all

lemma pad_Inr:
  assumes "pad key source data t = Inr block"
  shows "length block = rk_blockSize key \<and> hd block = 0 \<and> block \<noteq> [] \<and> unpad key block t = Inr data"
proof -
  let ?n = "rk_blockSize key - length data - 3"
  have large: "\<not> int (rk_blockSize key) - int (length data) - 3 < 8"
  proof
    assume "int (rk_blockSize key) - int (length data) - 3 < 8"
    then show False using assms by (simp only: pad_def if_True sum.distinct)
  qed
  then have n: "8 \<le> ?n" by linarith
  have pad: "pad key source data t =
      (if t = 1 then Inr ([0, t] @ replicate ?n 255 @ [0] @ data)
       else (case fillNonZero source ?n of None \<Rightarrow> Inl ErrRandom | Some fill \<Rightarrow> Inr ([0, t] @ fill @ [0] @ data)))"
    by (simp only: pad_def large if_False Let_def)
  obtain fill where fill: "block = [0, t] @ fill @ [0] @ data" "length fill = ?n" "\<forall>b\<in>set fill. b \<noteq> 0 \<and> (t = 1 \<longrightarrow> b = 255)"
  proof (cases "t = 1")
    case True
    then show ?thesis using assms unfolding pad by (intro that [of "replicate ?n 255"]) simp_all
  next
    case False
    then obtain f where "fillNonZero source ?n = Some f" "block = [0, t] @ f @ [0] @ data"
      using assms unfolding pad by (auto split: option.splits)
    then show ?thesis using fillNonZero_Some False by (intro that [of f]) auto
  qed
  then have len: "length block = rk_blockSize key" using n by simp
  have "find_separator t (drop 2 block) 2 = Some (2 + length fill)"
    using find_separator_zero [OF fill(3), of data 2] fill(1) by simp
  then show ?thesis using len fill n by (simp add: unpad_def)
qed

definition rsa_ok :: "rsaKey \<Rightarrow> bool" where
  "rsa_ok key \<longleftrightarrow> 0 < rk_modulus key \<and> rk_blockSize key = (BitLen (rk_modulus key) + 7) div 8 \<and>
     (\<forall>m<rk_modulus key. Exp (Exp m (rk_private key) (rk_modulus key)) (rk_exponent key) (rk_modulus key) = m \<and>
        Exp (Exp m (rk_exponent key) (rk_modulus key)) (rk_private key) (rk_modulus key) = m)"

lemma transform_back:
  assumes ok: "0 < rk_modulus key" "rk_blockSize key = (BitLen (rk_modulus key) + 7) div 8"
    and inv: "\<forall>m<rk_modulus key. Exp (Exp m a (rk_modulus key)) b (rk_modulus key) = m"
    and block: "length block = rk_blockSize key" "hd block = 0" "block \<noteq> []"
  shows "transform key (transform key block a) b = block" and "length (transform key block a) = rk_blockSize key"
proof -
  let ?n = "rk_modulus key" and ?k = "rk_blockSize key"
  have bits: "2 ^ (BitLen ?n - 1) \<le> ?n" "?n < 2 ^ BitLen ?n" using BitLen_bounds [OF ok(1)] by auto
  have "(256 :: nat) ^ ?k = 2 ^ (8 * ?k)" by (simp add: power_mult)
  moreover have "BitLen ?n \<le> 8 * ?k" using ok(2) by simp
  ultimately have n_lt: "?n < 256 ^ ?k" using bits(2) by (metis order_less_le_trans one_le_numeral power_increasing)
  have fits: "length (big_Bytes (Exp v e ?n)) \<le> ?k" for v e
    using n_lt ok(1) by (intro big_Bytes_length) (simp add: Exp_def order_less_trans [OF mod_less_divisor])
  then have len: "length (transform key v e) = ?k" and val: "SetBytes (transform key v e) = Exp (SetBytes v) e ?n" for v e
    by (simp_all add: transform_def Let_def)
  obtain rest where rest: "block = 0 # rest" using block by (cases block) auto
  then have "length rest = ?k - 1" "SetBytes block = SetBytes rest" using block(1) by (auto simp: SetBytes_Cons)
  then have "SetBytes block < 256 ^ (?k - 1)" using SetBytes_less [of rest] by simp
  also have "(256 :: nat) ^ (?k - 1) = 2 ^ (8 * (?k - 1))" by (simp add: power_mult)
  also have "\<dots> \<le> 2 ^ (BitLen ?n - 1)" using ok(2) by (intro power_increasing) simp_all
  finally have "SetBytes block < ?n" using bits(1) by simp
  then have "SetBytes (transform key (transform key block a) b) = SetBytes block" by (simp add: val inv)
  then show "transform key (transform key block a) b = block" using len block(1) by (intro SetBytes_inj) simp_all
  show "length (transform key block a) = ?k" by (rule len)
qed

lemma verify_sign:
  assumes "rsa_ok key" and "rsa_sign key data = Inr s" shows "rsa_verify key s = Inr data"
proof -
  obtain block where b: "pad key [] data 1 = Inr block" "s = hex_Encode (transform key block (rk_private key))"
    using assms(2) by (auto simp: rsa_sign_def split: sum.splits)
  note P = pad_Inr [OF b(1)]
  have "transform key (transform key block (rk_private key)) (rk_exponent key) = block"
    "length (transform key block (rk_private key)) = rk_blockSize key"
    using assms(1) P transform_back [of key "rk_private key" "rk_exponent key" block] by (auto simp: rsa_ok_def)
  then show ?thesis using b P by (simp add: rsa_verify_def)
qed

text \<open>What a client that knows the public key sends: padding type 2 and the public exponent.\<close>

definition client_encrypt :: "rsaKey \<Rightarrow> bytes \<Rightarrow> bytes \<Rightarrow> diffie_error + string" where
  "client_encrypt key source data = (case pad key source data 2 of
     Inl e \<Rightarrow> Inl e | Inr padded \<Rightarrow> Inr (hex_Encode (transform key padded (rk_exponent key))))"

lemma decrypt_encrypt:
  assumes "rsa_ok key" and "client_encrypt key source data = Inr s" shows "rsa_decrypt key s = Inr data"
proof -
  obtain block where b: "pad key source data 2 = Inr block" "s = hex_Encode (transform key block (rk_exponent key))"
    using assms(2) by (auto simp: client_encrypt_def split: sum.splits)
  note P = pad_Inr [OF b(1)]
  have "transform key (transform key block (rk_exponent key)) (rk_private key) = block"
    "length (transform key block (rk_exponent key)) = rk_blockSize key"
    using assms(1) P transform_back [of key "rk_exponent key" "rk_private key" block] by (auto simp: rsa_ok_def)
  then show ?thesis using b P by (simp add: rsa_decrypt_def)
qed

subsection \<open>Key agreement\<close>

definition is_prime :: "nat \<Rightarrow> bool" where
  "is_prime p \<longleftrightarrow> 1 < p \<and> (\<forall>m. m dvd p \<longrightarrow> m = 1 \<or> m = p)"

lemma prime_dvd_times:
  assumes "is_prime p" and "p dvd x * y" shows "p dvd x \<or> p dvd y"
proof (rule disjCI)
  assume "\<not> p dvd y"
  then have "gcd p y \<noteq> p" by (metis gcd_dvd2)
  then have "coprime p y" using assms(1) by (metis is_prime_def coprime_iff_gcd_eq_1 gcd_dvd1)
  then show "p dvd x" using assms(2) by (simp add: coprime_dvd_mult_left_iff)
qed

lemma prime_power_mod: "is_prime p \<Longrightarrow> 0 < y \<Longrightarrow> y < p \<Longrightarrow> Exp y a p \<noteq> 0"
proof (induction a)
  case (Suc a)
  have "\<not> p dvd y" using Suc.prems by (simp add: nat_dvd_not_less)
  then have "\<not> p dvd y * y ^ a" using Suc prime_dvd_times by (auto simp: Exp_def mod_eq_0_iff_dvd)
  then show ?case by (simp add: Exp_def mod_eq_0_iff_dvd)
qed (simp add: Exp_def is_prime_def)

lemma Exp_commute: "Exp (Exp g b p) a p = Exp (Exp g a p) b p"
  by (simp add: Exp_def power_mod power_mult [symmetric] mult.commute)

lemma nat_dec_length_mono: "n \<le> m \<Longrightarrow> length (nat_dec n) \<le> length (nat_dec m)"
proof (induction m arbitrary: n rule: nat_dec.induct)
  case (1 m)
  show ?case
  proof (cases "n < 10")
    case True
    then have "length (nat_dec n) = 1" by (subst nat_dec.simps) simp
    then show ?thesis by (subst (2) nat_dec.simps) simp
  next
    case False
    then have "length (nat_dec (n div 10)) \<le> length (nat_dec (m div 10))"
      using "1.IH" [of "n div 10"] "1.prems" by (simp add: div_le_mono)
    then show ?thesis using False "1.prems" by (subst (1 2) nat_dec.simps) simp
  qed
qed

lemma rsa_sign_shorter:
  assumes "rsa_sign key data = Inr s" and "length data' \<le> length data" shows "\<exists>s'. rsa_sign key data' = Inr s'"
proof -
  have "\<not> int (rk_blockSize key) - int (length data) - 3 < 8"
    using assms(1) by (auto simp: rsa_sign_def pad_def split: if_splits)
  then have "\<not> int (rk_blockSize key) - int (length data') - 3 < 8" using assms(2) by linarith
  then show ?thesis by (simp add: rsa_sign_def pad_def Let_def)
qed

lemma length_text_bytes [simp]: "length (text_bytes s) = length s"
  by (simp add: text_bytes_def)

lemma Begin_Inr:
  assumes "Begin cancelled first second third c = (c1, Inr u)"
  shows "ch_state c = SecurityPlain \<and> ch_state c1 = SecurityNegotiating \<and> ch_rsa c1 = ch_rsa c \<and> ch_config c1 = ch_config c \<and>
    ch_inbound c1 = ch_inbound c \<and> ch_publicKey c1 = Exp (ch_generator c1) (ch_privateKey c1) (ch_prime c1) \<and>
    rsa_sign (ch_rsa c) (text_bytes (nat_dec (ch_prime c1))) = Inr (fst (ch_parameters c1)) \<and>
    rsa_sign (ch_rsa c) (text_bytes (nat_dec (ch_generator c1))) = Inr (snd (ch_parameters c1))"
  using assms by (auto simp: Begin_def fail_channel_def split: if_splits sum.splits prod.splits)

text \<open>The client of the protocol: it verifies the signed parameters and computes its own value.\<close>

definition client_parameters :: "rsaKey \<Rightarrow> string \<times> string \<Rightarrow> nat \<Rightarrow> (nat \<times> nat) option" where
  "client_parameters key params b = (case (rsa_verify key (fst params), rsa_verify key (snd params)) of
     (Inr pb, Inr gb) \<Rightarrow> (case (SetString 10 (bytes_text pb), SetString 10 (bytes_text gb)) of
         (Some p, Some g) \<Rightarrow> Some (nat p, Exp (nat g) b (nat p)) | _ \<Rightarrow> None)
   | _ \<Rightarrow> None)"

definition client_cipher :: "rsaKey \<Rightarrow> nat \<Rightarrow> nat \<Rightarrow> string \<Rightarrow> rc4Cipher option" where
  "client_cipher key p b reply = (case rsa_verify key reply of
     Inl _ \<Rightarrow> None
   | Inr public \<Rightarrow> (case SetString 10 (bytes_text public) of
         None \<Rightarrow> None
       | Some x \<Rightarrow> (case newRC4Cipher (big_Bytes (Exp (nat x) b p)) of Inl _ \<Rightarrow> None | Inr cipher \<Rightarrow> Some cipher)))"

fun open_all :: "bytes list \<Rightarrow> channel \<Rightarrow> diffie_error + bytes" where
  "open_all [] c = Inr []"
| "open_all (f # fs) c = (case channel_Open f c of
     (c', Inl e) \<Rightarrow> Inl e
   | (c', Inr opened) \<Rightarrow> (case open_all fs c' of Inl e \<Rightarrow> Inl e | Inr rest \<Rightarrow> Inr (opened @ rest)))"

fun seal_all :: "bytes list \<Rightarrow> channel \<Rightarrow> diffie_error + bytes" where
  "seal_all [] c = Inr []"
| "seal_all (m # ms) c = (case channel_Seal m c of
     (c', Inl e) \<Rightarrow> Inl e
   | (c', Inr sealed) \<Rightarrow> (case seal_all ms c' of Inl e \<Rightarrow> Inl e | Inr rest \<Rightarrow> Inr (sealed @ rest)))"

lemma open_all_ready:
  "ch_state c = SecurityReady \<Longrightarrow> ch_inbound c = Some cipher \<Longrightarrow> open_all fs c = Inr (fst (rc4_apply (concat fs) cipher))"
  by (induction fs arbitrary: c cipher)
    (simp_all add: channel_Open_def rc4_apply_append case_prod_beta)

lemma seal_all_ready:
  "ch_state c = SecurityReady \<Longrightarrow> ch_outbound c = Some cipher \<Longrightarrow> seal_all ms c = Inr (fst (rc4_apply (concat ms) cipher))"
  by (induction ms arbitrary: c cipher)
    (simp_all add: channel_Seal_def rc4_apply_append case_prod_beta)

lemma seal_all_plain: "ch_state c = SecurityReady \<Longrightarrow> ch_outbound c = None \<Longrightarrow> seal_all ms c = Inr (concat ms)"
  by (induction ms arbitrary: c) (simp_all add: channel_Seal_def)

lemma client_parameters_honest:
  assumes key: "rsa_ok key" and start: "Begin cancelled first second third (newChannel config key) = (c1, Inr u)"
  shows "client_parameters key (ch_parameters c1) b = Some (ch_prime c1, Exp (ch_generator c1) b (ch_prime c1))"
proof -
  have "rsa_verify key (fst (ch_parameters c1)) = Inr (text_bytes (nat_dec (ch_prime c1)))"
    "rsa_verify key (snd (ch_parameters c1)) = Inr (text_bytes (nat_dec (ch_generator c1)))"
    using Begin_Inr [OF start] by (auto intro!: verify_sign [OF key] simp: newChannel_def)
  then show ?thesis by (simp add: client_parameters_def)
qed

lemma agreement_keys:
  assumes key: "rsa_ok key"
    and start: "Begin cancelled first second third (newChannel config key) = (c1, Inr u)"
    and prime: "is_prime (ch_prime c1)"
    and client: "client_parameters key (ch_parameters c1) b = Some (p, y)" "2 \<le> y" "y \<le> p - 2"
    and enc: "client_encrypt key source (text_bytes (nat_dec y)) = Inr s"
  obtains c2 reply cipher where "Complete False s c1 = (c2, Inr (reply, dc_ServerClientEncryption config))"
    "client_cipher key p b reply = Some cipher" "ch_state c2 = SecurityNegotiating" "ch_inbound c2 = Some cipher"
    "ch_outbound c2 = (if dc_ServerClientEncryption config then Some cipher else None)"
proof -
  note B = Begin_Inr [OF start, simplified newChannel_def, simplified]
  have py: "p = ch_prime c1" "y = Exp (ch_generator c1) b (ch_prime c1)"
    using client(1) client_parameters_honest [OF key start, of b] by auto
  have p2: "1 < p" using prime py by (simp add: is_prime_def)
  have dec: "rsa_decrypt key s = Inr (text_bytes (nat_dec y))" by (rule decrypt_encrypt [OF key enc])
  let ?x = "ch_publicKey c1"
  have x: "?x = Exp (ch_generator c1) (ch_privateKey c1) p" using B py by simp
  have "?x < p" using p2 by (simp add: x Exp_def)
  then have "length (nat_dec ?x) \<le> length (nat_dec p)" by (intro nat_dec_length_mono) simp
  then obtain reply where reply: "rsa_sign key (text_bytes (nat_dec ?x)) = Inr reply"
    using B py rsa_sign_shorter by (metis length_text_bytes)
  let ?shared = "Exp y (ch_privateKey c1) p"
  have "?shared \<noteq> 0" using prime client(2,3) p2 py(1) by (intro prime_power_mod) auto
  moreover define cipher where "cipher = \<lparr>rc_i = 0, rc_j = 0, rc_table = rc4_schedule (big_Bytes ?shared) [0..<256] 0 (map word_of_nat [0..<256])\<rparr>"
  ultimately have cipher: "newRC4Cipher (big_Bytes ?shared) = Inr cipher" by (simp add: newRC4Cipher_def)
  have same: "Exp ?x b p = ?shared" unfolding x py(2) py(1) [symmetric] by (rule Exp_commute)
  have "client_cipher key p b reply = Some cipher"
    using verify_sign [OF key reply] cipher same by (simp add: client_cipher_def)
  moreover define c2 where "c2 = c1\<lparr>ch_inbound := Some cipher,
     ch_outbound := (if dc_ServerClientEncryption config then Some cipher else None)\<rparr>"
  have "validPublicKey c1 (int y)" using client(2,3) py(1) p2 unfolding validPublicKey_def by linarith
  then have "Complete False s c1 = (c2, Inr (reply, dc_ServerClientEncryption config))"
    using B dec reply cipher \<open>?shared \<noteq> 0\<close> py(1)
    by (simp add: Complete_def Let_def c2_def)
  ultimately show ?thesis using B by (intro that [of c2 reply cipher]) (simp_all add: c2_def)
qed

text \<open>C23: A completed handshake carries traffic. With an RSA pair whose exponents invert each other and a prime
  modulus, an honest client's value completes the channel, the client's cipher equals the server's, and
  from activation on whatever the client encrypts is opened to exactly its bytes, however the transport
  cuts the stream into fragments; in the other direction the client decrypts what was sealed, or reads it
  as it is when the configuration leaves that direction plain.\<close>

theorem handshake_carries_traffic:
  assumes "rsa_ok key"
    and "Begin cancelled first second third (newChannel config key) = (c1, Inr u)"
    and "is_prime (ch_prime c1)"
    and "client_parameters key (ch_parameters c1) b = Some (p, y)" and "2 \<le> y" and "y \<le> p - 2"
    and "client_encrypt key source (text_bytes (nat_dec y)) = Inr s"
  shows "\<exists>c2 reply cipher. Complete False s c1 = (c2, Inr (reply, dc_ServerClientEncryption config)) \<and>
    client_cipher key p b reply = Some cipher \<and>
    (\<forall>messages fragments. concat fragments = fst (rc4_apply (concat messages) cipher) \<longrightarrow>
       open_all fragments (fst (Activate c2)) = Inr (concat messages)) \<and>
    (\<forall>messages. \<exists>sealed. seal_all messages (fst (Activate c2)) = Inr sealed \<and>
       (if dc_ServerClientEncryption config then fst (rc4_apply sealed cipher) else sealed) = concat messages)"
proof -
  obtain c2 reply cipher where c: "Complete False s c1 = (c2, Inr (reply, dc_ServerClientEncryption config))"
    "client_cipher key p b reply = Some cipher" "ch_state c2 = SecurityNegotiating" "ch_inbound c2 = Some cipher"
    "ch_outbound c2 = (if dc_ServerClientEncryption config then Some cipher else None)"
    by (rule agreement_keys [OF assms])
  let ?c = "fst (Activate c2)"
  have ready: "ch_state ?c = SecurityReady" "ch_inbound ?c = Some cipher" "ch_outbound ?c = ch_outbound c2"
    using c(3,4) by (simp_all add: Activate_def)
  have "open_all fs ?c = Inr (concat ms)" if "concat fs = fst (rc4_apply (concat ms) cipher)" for fs ms
    using open_all_ready [OF ready(1,2), of fs] by (simp add: that rc4_apply_twice)
  moreover have "\<exists>sealed. seal_all ms ?c = Inr sealed \<and>
      (if dc_ServerClientEncryption config then fst (rc4_apply sealed cipher) else sealed) = concat ms" for ms
    using seal_all_ready [OF ready(1), of cipher ms] seal_all_plain [OF ready(1), of ms] ready(3) c(5)
    by (cases "dc_ServerClientEncryption config") (simp_all add: rc4_apply_twice)
  ultimately show ?thesis using c(1,2) by blast
qed

subsection \<open>The life of a channel\<close>

datatype channel_op =
    ChBegin bool "nat option" "nat option" "nat option" | ChComplete bool string | ChActivate
  | ChOpen bytes | ChSeal bytes | ChClose

definition channel_step :: "channel_op \<Rightarrow> channel \<Rightarrow> channel" where
  "channel_step op c = (case op of
     ChBegin cancelled first second third \<Rightarrow> fst (Begin cancelled first second third c)
   | ChComplete cancelled encrypted \<Rightarrow> fst (Complete cancelled encrypted c)
   | ChActivate \<Rightarrow> fst (Activate c)
   | ChOpen source \<Rightarrow> fst (channel_Open source c)
   | ChSeal source \<Rightarrow> fst (channel_Seal source c)
   | ChClose \<Rightarrow> channel_Close c)"

lemma failed_step: "ch_state c = SecurityFailed \<Longrightarrow> ch_state (channel_step op c) = SecurityFailed"
  by (auto simp: channel_step_def Begin_def Complete_def Activate_def channel_Open_def channel_Seal_def channel_Close_def
      split: channel_op.split option.split)

lemma failed_forever: "ch_state c = SecurityFailed \<Longrightarrow> ch_state (fold channel_step ops c) = SecurityFailed"
  by (induction ops arbitrary: c) (simp_all add: failed_step)

lemma inbound_step:
  assumes "ch_inbound (channel_step op c) \<noteq> None"
  shows "ch_inbound c \<noteq> None \<or> (\<exists>s r. op = ChComplete False s \<and> snd (Complete False s c) = Inr r)"
proof (cases op)
  case (ChComplete cancelled s)
  then show ?thesis
    using assms
    by (cases cancelled) (auto simp: channel_step_def Complete_def fail_channel_def Let_def split: if_splits sum.splits option.splits)
next
  case (ChBegin cancelled first second third)
  then show ?thesis
    using assms by (auto simp: channel_step_def Begin_def fail_channel_def split: if_splits sum.splits prod.splits)
next
  case (ChOpen s)
  then show ?thesis using assms by (auto simp: channel_step_def channel_Open_def split: option.splits)
next
  case (ChSeal s)
  then show ?thesis using assms by (auto simp: channel_step_def channel_Seal_def split: if_splits option.splits prod.splits)
qed (use assms in \<open>auto simp: channel_step_def Activate_def channel_Close_def split: if_splits\<close>)

definition channel_inv :: "channel \<Rightarrow> bool" where
  "channel_inv c \<longleftrightarrow> (ch_state c = SecurityReady \<longrightarrow> ch_inbound c \<noteq> None) \<and>
     (ch_state c = SecurityPlain \<longrightarrow> ch_inbound c = None) \<and>
     (ch_inbound c \<noteq> None \<longrightarrow> (ch_outbound c \<noteq> None \<longleftrightarrow> dc_ServerClientEncryption (ch_config c)))"

lemma channel_step_inv: "channel_inv c \<Longrightarrow> channel_inv (channel_step op c) \<and> ch_config (channel_step op c) = ch_config c"
proof (cases op)
  case (ChComplete cancelled s)
  assume "channel_inv c"
  then show ?thesis
    using ChComplete by (auto simp: channel_inv_def channel_step_def Complete_def fail_channel_def Let_def split: sum.split option.split)
next
  case (ChBegin cancelled first second third)
  assume "channel_inv c"
  then show ?thesis
    using ChBegin by (auto simp: channel_inv_def channel_step_def Begin_def fail_channel_def split: sum.split prod.split)
qed (auto simp: channel_inv_def channel_step_def Activate_def channel_Open_def channel_Seal_def channel_Close_def
    split: option.split prod.split)

lemma channel_run:
  "channel_inv (fold channel_step ops (newChannel config key)) \<and>
   ch_config (fold channel_step ops (newChannel config key)) = config"
proof (induction ops rule: rev_induct)
  case (snoc op ops)
  then show ?case using channel_step_inv by simp
qed (simp add: channel_inv_def newChannel_def)

lemma inbound_from_complete:
  "ch_inbound (fold channel_step ops (newChannel config key)) \<noteq> None \<Longrightarrow>
     \<exists>earlier s later r. ops = earlier @ ChComplete False s # later \<and>
       snd (Complete False s (fold channel_step earlier (newChannel config key))) = Inr r"
proof (induction ops rule: rev_induct)
  case (snoc op ops)
  let ?c = "fold channel_step ops (newChannel config key)"
  from snoc.prems have "ch_inbound (channel_step op ?c) \<noteq> None" by simp
  then consider "ch_inbound ?c \<noteq> None" | s r where "op = ChComplete False s" "snd (Complete False s ?c) = Inr r"
    using inbound_step by blast
  then show ?case
  proof cases
    case 1
    with snoc.IH obtain earlier s later r where "ops = earlier @ ChComplete False s # later"
      "snd (Complete False s (fold channel_step earlier (newChannel config key))) = Inr r" by blast
    then show ?thesis by (intro exI [of _ earlier] exI [of _ s] exI [of _ "later @ [op]"] exI [of _ r]) simp
  next
    case 2
    then show ?thesis by (intro exI [of _ ops] exI [of _ s] exI [of _ "[]"] exI [of _ r]) simp
  qed
qed (simp add: newChannel_def)

text \<open>C24: A channel fails closed. In any run of its operations, with any failing source of randomness and any input,
  bytes are opened or sealed exactly in the ready state; it is only reached after a client key was
  accepted, with both ciphers installed when both directions are encrypted, and no operation leaves the
  failed state.\<close>

theorem channel_fails_closed:
  fixes config key ops more
  defines "c \<equiv> fold channel_step ops (newChannel config key)"
  shows "((\<exists>b. snd (channel_Open source c) = Inr b) \<longleftrightarrow> ch_state c = SecurityReady) \<and>
    ((\<exists>b. snd (channel_Seal source c) = Inr b) \<longleftrightarrow> ch_state c = SecurityReady) \<and>
    (ch_state c = SecurityReady \<longrightarrow> (dc_ServerClientEncryption config \<longleftrightarrow> ch_outbound c \<noteq> None) \<and>
       (\<exists>earlier s later r. ops = earlier @ ChComplete False s # later \<and>
          snd (Complete False s (fold channel_step earlier (newChannel config key))) = Inr r)) \<and>
    (ch_state c = SecurityFailed \<longrightarrow> ch_state (fold channel_step more c) = SecurityFailed)"
proof -
  have inv: "channel_inv c" "ch_config c = config" using channel_run by (auto simp: c_def)
  have "(\<exists>b. snd (channel_Open source c) = Inr b) \<longleftrightarrow> ch_state c = SecurityReady"
    using inv(1) by (auto simp: channel_Open_def channel_inv_def split: option.split prod.split)
  moreover have "(\<exists>b. snd (channel_Seal source c) = Inr b) \<longleftrightarrow> ch_state c = SecurityReady"
    by (auto simp: channel_Seal_def split: option.split prod.split)
  moreover have "ch_state c = SecurityReady \<Longrightarrow> ch_inbound c \<noteq> None" using inv(1) by (simp add: channel_inv_def)
  ultimately show ?thesis
    using inv inbound_from_complete [of ops config key] failed_forever [of c more]
    by (auto simp: channel_inv_def c_def)
qed

subsection \<open>A sample negotiation\<close>

text \<open>A key pair with both exponents 1, the group of 23 with generator 5, private values 6 and 15.\<close>

definition sample_key :: rsaKey where
  "sample_key = \<lparr>rk_exponent = 1, rk_modulus = 2 ^ 511, rk_private = 1, rk_blockSize = 64\<rparr>"

definition sample_config :: diffie_config where
  "sample_config = \<lparr>dc_Enabled = True, dc_Required = True, dc_RSAExponent = ''3'', dc_RSAModulus = [],
     dc_RSAPrivateExponent = [], dc_PrimeBits = 128, dc_PrivateBits = 128, dc_ServerClientEncryption = True\<rparr>"

definition sample_channel :: channel where
  "sample_channel = fst (Begin False (Some 5) (Some 23) (Some 6) (newChannel sample_config sample_key))"

definition sample_request :: string where
  "sample_request = (case client_encrypt sample_key (replicate 64 7) (text_bytes (nat_dec 19)) of Inr s \<Rightarrow> s | Inl _ \<Rightarrow> [])"

lemma BitLen_power: "BitLen (2 ^ k) = Suc k"
  by (induction k) (subst BitLen.simps, simp add: BitLen.simps)+

lemma sample_key_ok: "rsa_ok sample_key"
  by (simp only: rsa_ok_def sample_key_def rsaKey.select_convs BitLen_power) (simp add: Exp_def)

lemma rsa_sign_total: "length data + 11 \<le> rk_blockSize key \<Longrightarrow> \<exists>s. rsa_sign key data = Inr s"
  by (simp add: rsa_sign_def pad_def Let_def)

lemma fillNonZero_replicate: "b \<noteq> 0 \<Longrightarrow> m \<le> n \<Longrightarrow> fillNonZero (replicate n b) m = Some (replicate m b)"
proof (induction m arbitrary: n)
  case (Suc m)
  then obtain k where "n = Suc k" by (cases n) auto
  then show ?case using Suc by simp
qed simp

lemma short_decimals: "nat_dec 23 = ''23''" "nat_dec 5 = ''5''" "nat_dec 19 = ''19''"
  by code_simp+

lemma sample_start:
  "Begin False (Some 5) (Some 23) (Some 6) (newChannel sample_config sample_key) = (sample_channel, Inr ())"
  "client_encrypt sample_key (replicate 64 7) (text_bytes (nat_dec 19)) = Inr sample_request"
  "ch_prime sample_channel = 23" "ch_generator sample_channel = 5"
proof -
  obtain s t where "rsa_sign sample_key (text_bytes (nat_dec 23)) = Inr s" "rsa_sign sample_key (text_bytes (nat_dec 5)) = Inr t"
    using rsa_sign_total [of "text_bytes (nat_dec 23)" sample_key] rsa_sign_total [of "text_bytes (nat_dec 5)" sample_key]
    by (auto simp: short_decimals sample_key_def)
  then have c: "Begin False (Some 5) (Some 23) (Some 6) (newChannel sample_config sample_key) =
      (newChannel sample_config sample_key\<lparr>ch_prime := 23, ch_generator := 5, ch_privateKey := 6, ch_publicKey := Exp 5 6 23,
        ch_parameters := (s, t), ch_state := SecurityNegotiating\<rparr>, Inr ())"
    by (simp add: Begin_def newChannel_def generateValues_def)
  then show "Begin False (Some 5) (Some 23) (Some 6) (newChannel sample_config sample_key) = (sample_channel, Inr ())"
    "ch_prime sample_channel = 23" "ch_generator sample_channel = 5"
    by (simp_all add: sample_channel_def)
  show "client_encrypt sample_key (replicate 64 7) (text_bytes (nat_dec 19)) = Inr sample_request"
    by (simp add: sample_request_def client_encrypt_def pad_def Let_def fillNonZero_replicate short_decimals sample_key_def)
qed

lemma is_prime_23: "is_prime 23"
proof -
  have all: "\<forall>m\<in>set [0..<24]. m dvd 23 \<longrightarrow> m = 1 \<or> m = (23 :: nat)" by code_simp
  have "m = 1 \<or> m = 23" if "m dvd 23" for m :: nat
  proof -
    have "m \<in> set [0..<24]" using dvd_imp_le [OF that] by simp
    from bspec [OF all this] that show ?thesis by (rule mp)
  qed
  then show ?thesis by (simp add: is_prime_def)
qed

theorem handshake_carries_traffic_witness:
  "\<exists>c2 reply cipher. Complete False sample_request sample_channel = (c2, Inr (reply, True)) \<and>
     client_cipher sample_key 23 15 reply = Some cipher \<and>
     open_all [take 2 (fst (rc4_apply [1, 2, 3] cipher)), drop 2 (fst (rc4_apply [1, 2, 3] cipher))]
       (fst (Activate c2)) = Inr [1, 2, 3]"
proof -
  have params: "client_parameters sample_key (ch_parameters sample_channel) 15 = Some (23, 19)"
    using client_parameters_honest [OF sample_key_ok sample_start(1), of 15] by (simp add: sample_start Exp_def)
  obtain c2 reply cipher where c: "Complete False sample_request sample_channel = (c2, Inr (reply, True))"
    "client_cipher sample_key 23 15 reply = Some cipher"
    "\<forall>messages fragments. concat fragments = fst (rc4_apply (concat messages) cipher) \<longrightarrow>
       open_all fragments (fst (Activate c2)) = Inr (concat messages)"
    using handshake_carries_traffic [OF sample_key_ok sample_start(1) _ params _ _ sample_start(2)] is_prime_23
    by (auto simp: sample_start sample_config_def)
  have "open_all [take 2 (fst (rc4_apply [1, 2, 3] cipher)), drop 2 (fst (rc4_apply [1, 2, 3] cipher))] (fst (Activate c2)) =
      Inr (concat [[1, 2, 3]])"
    by (rule c(3) [rule_format]) simp
  then show ?thesis using c(1,2) by auto
qed

theorem channel_fails_closed_witness:
  "ch_state (fold channel_step [ChBegin False (Some 5) (Some 23) (Some 6), ChComplete False sample_request, ChActivate]
      (newChannel sample_config sample_key)) = SecurityReady \<and>
   ch_outbound (fold channel_step [ChBegin False (Some 5) (Some 23) (Some 6), ChComplete False sample_request, ChActivate]
      (newChannel sample_config sample_key)) \<noteq> None"
proof -
  let ?ops = "[ChBegin False (Some 5) (Some 23) (Some 6), ChComplete False sample_request, ChActivate]"
  obtain c2 reply cipher where "Complete False sample_request sample_channel = (c2, Inr (reply, True))"
    "ch_state c2 = SecurityNegotiating" "ch_inbound c2 = Some cipher"
  proof (rule agreement_keys [OF sample_key_ok sample_start(1) _ _ _ _ sample_start(2), of 15 23])
    show "is_prime (ch_prime sample_channel)" by (simp add: sample_start is_prime_23)
    show "client_parameters sample_key (ch_parameters sample_channel) 15 = Some (23, 19)"
      using client_parameters_honest [OF sample_key_ok sample_start(1), of 15] by (simp add: sample_start Exp_def)
  qed (auto simp: sample_config_def)
  then have ready: "ch_state (fold channel_step ?ops (newChannel sample_config sample_key)) = SecurityReady"
    by (simp add: channel_step_def sample_start(1) Activate_def)
  then show ?thesis
    using channel_fails_closed [of _ ?ops sample_config sample_key "[]"] by (auto simp: sample_config_def)
qed

end
