(* ===== verification/Connection.thy ===== *)
theory Connection
  imports Codec Diffie "HOL-Library.Product_Lexorder" "HOL-Library.AList"
begin

text \<open>
  Protocol sessions (\<^verbatim>\<open>networking/connection\<close>): the lifecycle of a connection (\<^verbatim>\<open>state.go\<close>, \<^verbatim>\<open>session.go\<close>), its
  security (\<^verbatim>\<open>security.go\<close>), the routing of packets to handlers and interceptors (\<^verbatim>\<open>handler.go\<close>) and the
  registry of live connections (\<^verbatim>\<open>registry.go\<close>). A handler is a function on the state \<open>'w\<close> of the server
  around it. The secure channel of a session carries the identity of the Go pointer. A time is an
  integer, 0 the zero time; \<open>now\<close> is what the clock says.
\<close>

datatype conn_error =
    ErrConnectionExists | ErrConnectionNotFound | ErrDisposed | ErrHandlerExists | ErrHandlerNotFound
  | ErrHandlerPolicy | ErrInvalidConnection | ErrInvalidConnectionConfig | ErrInvalidHandler
  | ErrInvalidSecurity | ErrInvalidState | ErrInvalidTransition | ErrSecurityRequired
  | ErrQueueFull | ErrSecure diffie_error | ErrCodec codec_error | ErrApplication string

subsection \<open>The lifecycle\<close>

datatype conn_state =
    StateCreated | StateHandshaking | StateSecuring | StateAuthenticating | StateAuthenticated
  | StateConnected | StateClosing | StateClosed | StateError

datatype conn_event =
    EventPacketReceived | EventDiffieRequested | EventDiffieCompleted | EventAuthenticationStarted
  | EventAuthenticationAccepted | EventAuthenticationRejected | EventSessionReady
  | EventDisconnectRequested | EventDisconnectCompleted | EventProtocolFailed | EventTransportFailed

definition state_String :: "conn_state \<Rightarrow> string" where
  "state_String s = (case s of
     StateCreated \<Rightarrow> ''created'' | StateHandshaking \<Rightarrow> ''handshaking'' | StateSecuring \<Rightarrow> ''securing''
   | StateAuthenticating \<Rightarrow> ''authenticating'' | StateAuthenticated \<Rightarrow> ''authenticated''
   | StateConnected \<Rightarrow> ''connected'' | StateClosing \<Rightarrow> ''closing'' | StateClosed \<Rightarrow> ''closed'' | StateError \<Rightarrow> ''error'')"

definition transitionFrom :: "conn_state \<Rightarrow> conn_state \<Rightarrow> conn_state \<Rightarrow> conn_state option" where
  "transitionFrom s src dst = (if s \<noteq> src then None else Some dst)"

definition closeState :: "conn_state \<Rightarrow> conn_state option" where
  "closeState s = (if s \<in> {StateCreated, StateHandshaking, StateSecuring, StateAuthenticating, StateAuthenticated,
     StateConnected, StateError} then Some StateClosing else None)"

definition failState :: "conn_state \<Rightarrow> conn_state option" where
  "failState s = (if s \<in> {StateCreated, StateHandshaking, StateSecuring, StateAuthenticating, StateAuthenticated,
     StateConnected} then Some StateError else None)"

definition nextState :: "conn_state \<Rightarrow> conn_event \<Rightarrow> conn_state option" where
  "nextState s event = (case event of
     EventPacketReceived \<Rightarrow> transitionFrom s StateCreated StateHandshaking
   | EventDiffieRequested \<Rightarrow> transitionFrom s StateHandshaking StateSecuring
   | EventDiffieCompleted \<Rightarrow> transitionFrom s StateSecuring StateHandshaking
   | EventAuthenticationStarted \<Rightarrow> transitionFrom s StateHandshaking StateAuthenticating
   | EventAuthenticationAccepted \<Rightarrow> transitionFrom s StateAuthenticating StateAuthenticated
   | EventAuthenticationRejected \<Rightarrow> transitionFrom s StateAuthenticating StateError
   | EventSessionReady \<Rightarrow> transitionFrom s StateAuthenticated StateConnected
   | EventDisconnectRequested \<Rightarrow> closeState s
   | EventDisconnectCompleted \<Rightarrow> transitionFrom s StateClosing StateClosed
   | EventProtocolFailed \<Rightarrow> failState s
   | EventTransportFailed \<Rightarrow> failState s)"

definition canTransition :: "conn_state \<Rightarrow> conn_event \<Rightarrow> bool" where
  "canTransition s event \<longleftrightarrow> nextState s event \<noteq> None"

subsection \<open>Reasons\<close>

datatype disconnect_code =
    DisconnectUnknown | DisconnectLocalClose | DisconnectRemoteClose | DisconnectTransportError
  | DisconnectProtocolError | DisconnectAuthenticationFailed | DisconnectAuthenticationTimeout
  | DisconnectDuplicateSession | DisconnectIdleTimeout | DisconnectRateLimited
  | DisconnectPolicyViolation | DisconnectKicked | DisconnectBanned | DisconnectServerShutdown

record reason =
  rs_Code :: disconnect_code
  rs_Message :: string

definition UnknownReason :: reason where
  "UnknownReason = \<lparr>rs_Code = DisconnectUnknown, rs_Message = []\<rparr>"

definition code_String :: "disconnect_code \<Rightarrow> string" where
  "code_String c = (case c of
     DisconnectLocalClose \<Rightarrow> ''local_close'' | DisconnectRemoteClose \<Rightarrow> ''remote_close''
   | DisconnectTransportError \<Rightarrow> ''transport_error'' | DisconnectProtocolError \<Rightarrow> ''protocol_error''
   | DisconnectAuthenticationFailed \<Rightarrow> ''authentication_failed''
   | DisconnectAuthenticationTimeout \<Rightarrow> ''authentication_timeout''
   | DisconnectDuplicateSession \<Rightarrow> ''duplicate_session'' | DisconnectIdleTimeout \<Rightarrow> ''idle_timeout''
   | DisconnectRateLimited \<Rightarrow> ''rate_limited'' | DisconnectPolicyViolation \<Rightarrow> ''policy_violation''
   | DisconnectKicked \<Rightarrow> ''kicked'' | DisconnectBanned \<Rightarrow> ''banned''
   | DisconnectServerShutdown \<Rightarrow> ''server_shutdown'' | DisconnectUnknown \<Rightarrow> ''unknown'')"

subsection \<open>A session\<close>

datatype security_mode = SecurityOptional | SecurityRequired

text \<open>\<open>None\<close> is the zero mode of an unset policy.\<close>

definition DefaultSecurityPolicy :: security_mode where "DefaultSecurityPolicy = SecurityOptional"

definition normalizeSecurityPolicy :: "security_mode option \<Rightarrow> security_mode" where
  "normalizeSecurityPolicy p = (case p of None \<Rightarrow> DefaultSecurityPolicy | Some m \<Rightarrow> m)"

definition diffie_SecurityPolicy :: "diffie_config \<Rightarrow> security_mode" where
  "diffie_SecurityPolicy config = (if dc_Required config then SecurityRequired else DefaultSecurityPolicy)"

type_synonym channel_ref = "nat \<times> channel"

record conn_session =
  cs_id :: string
  cs_kind :: string
  cs_startedAt :: int
  cs_remoteAddr :: string
  cs_authenticatedAt :: int
  cs_lastPongAt :: int
  cs_lastActivityAt :: int
  cs_authenticated :: bool
  cs_disconnected :: bool
  cs_disconnectReason :: reason
  cs_state :: conn_state
  cs_trafficStarted :: bool
  cs_policy :: security_mode
  cs_security :: "channel_ref option"
  cs_done :: bool

record session_config =
  sc_ID :: string
  sc_Kind :: string
  sc_StartedAt :: int
  sc_RemoteAddr :: string
  sc_SecurityPolicy :: "security_mode option"
  sc_hasSender :: bool
  sc_hasDisposer :: bool

definition NewSession :: "int \<Rightarrow> session_config \<Rightarrow> conn_error + conn_session" where
  "NewSession now c =
     (if sc_ID c = [] \<or> sc_Kind c = [] \<or> \<not> sc_hasSender c \<or> \<not> sc_hasDisposer c then Inl ErrInvalidConnectionConfig
      else (let startedAt = (if sc_StartedAt c = 0 then now else sc_StartedAt c)
            in Inr \<lparr>cs_id = sc_ID c, cs_kind = sc_Kind c, cs_startedAt = startedAt, cs_remoteAddr = sc_RemoteAddr c,
                 cs_authenticatedAt = 0, cs_lastPongAt = startedAt, cs_lastActivityAt = startedAt,
                 cs_authenticated = False, cs_disconnected = False, cs_disconnectReason = UnknownReason,
                 cs_state = StateCreated, cs_trafficStarted = False,
                 cs_policy = normalizeSecurityPolicy (sc_SecurityPolicy c), cs_security = None, cs_done = False\<rparr>))"

definition session_Transition :: "conn_event \<Rightarrow> conn_session \<Rightarrow> conn_session \<times> conn_error option" where
  "session_Transition event s =
     (if cs_disconnected s \<and> event \<noteq> EventDisconnectCompleted then (s, Some ErrDisposed)
      else (case nextState (cs_state s) event of
          None \<Rightarrow> (s, Some ErrInvalidTransition) | Some next \<Rightarrow> (s\<lparr>cs_state := next\<rparr>, None)))"

text \<open>The empty event of the code is \<open>None\<close>.\<close>

definition markTraffic :: "conn_event option \<Rightarrow> conn_session \<Rightarrow> conn_session \<times> conn_error option" where
  "markTraffic event s =
     (if cs_disconnected s then (s, Some ErrDisposed)
      else (let s' = s\<lparr>cs_trafficStarted := True\<rparr> in case event of
          None \<Rightarrow> (s', None)
        | Some e \<Rightarrow>
            if cs_state s' \<noteq> StateCreated then (s', None)
            else (case nextState (cs_state s') e of
                None \<Rightarrow> (s', Some ErrInvalidTransition) | Some next \<Rightarrow> (s'\<lparr>cs_state := next\<rparr>, None))))"

definition markActivity :: "int \<Rightarrow> int \<Rightarrow> conn_session \<Rightarrow> conn_session" where
  "markActivity now at s = s\<lparr>cs_lastActivityAt := (if at = 0 then now else at)\<rparr>"

definition MarkPong :: "int \<Rightarrow> int \<Rightarrow> conn_session \<Rightarrow> conn_session \<times> conn_error option" where
  "MarkPong now at s =
     (if cs_disconnected s then (s, Some ErrDisposed)
      else (s\<lparr>cs_lastPongAt := (if at = 0 then now else at)\<rparr>, None))"

definition session_Authenticate :: "int \<Rightarrow> int \<Rightarrow> conn_session \<Rightarrow> conn_session \<times> conn_error option" where
  "session_Authenticate now at s =
     (if cs_disconnected s then (s, Some ErrDisposed)
      else if \<not> canTransition (cs_state s) EventAuthenticationAccepted then (s, Some ErrInvalidTransition)
      else (s\<lparr>cs_authenticatedAt := (if at = 0 then now else at), cs_authenticated := True,
              cs_state := StateAuthenticated\<rparr>, None))"

text \<open>\<open>Disconnect\<close> in its two locked sections; the disposer runs between them, then the channel is closed.\<close>

definition start_disconnect :: "reason \<Rightarrow> conn_session \<Rightarrow> conn_session \<times> conn_error option" where
  "start_disconnect r s =
     (if cs_disconnected s then (s, Some ErrDisposed)
      else (s\<lparr>cs_disconnected := True, cs_disconnectReason := r, cs_state := StateClosing, cs_done := True\<rparr>, None))"

definition close_security :: "conn_session \<Rightarrow> conn_session" where
  "close_security s = s\<lparr>cs_security := map_option (\<lambda>(a, c). (a, channel_Close c)) (cs_security s)\<rparr>"

definition finish_disconnect :: "conn_session \<Rightarrow> conn_session" where
  "finish_disconnect s = (close_security s)\<lparr>cs_state := StateClosed\<rparr>"

subsection \<open>Security of a session\<close>

definition SetSecurityPolicy :: "security_mode option \<Rightarrow> conn_session \<Rightarrow> conn_session \<times> conn_error option" where
  "SetSecurityPolicy p s =
     (if cs_trafficStarted s then (s, Some ErrInvalidState)
      else (s\<lparr>cs_policy := normalizeSecurityPolicy p\<rparr>, None))"

definition AttachSecurity :: "channel_ref option \<Rightarrow> conn_session \<Rightarrow> conn_session \<times> conn_error option" where
  "AttachSecurity channel s = (case channel of
     None \<Rightarrow> (s, Some ErrInvalidSecurity)
   | Some c \<Rightarrow>
       if cs_disconnected s then (s, Some ErrDisposed)
       else if cs_security s \<noteq> None then (s, Some ErrInvalidSecurity)
       else (s\<lparr>cs_security := Some c\<rparr>, None))"

text \<open>\<open>draws\<close> are the primes of the random source.\<close>

type_synonym draws = "nat option \<times> nat option \<times> nat option"

definition BeginSecurity :: "draws \<Rightarrow> channel_ref option \<Rightarrow> conn_session \<Rightarrow> conn_session \<times> conn_error option" where
  "BeginSecurity draws channel s = (case channel of
     None \<Rightarrow> (s, Some ErrInvalidSecurity)
   | Some (a, c) \<Rightarrow> (case Begin False (fst draws) (fst (snd draws)) (snd (snd draws)) c of
         (_, Inl e) \<Rightarrow> (s, Some (ErrSecure e))
       | (c', Inr _) \<Rightarrow> AttachSecurity (Some (a, c')) s))"

definition SecurityState :: "conn_session \<Rightarrow> security_state" where
  "SecurityState s = (case cs_security s of None \<Rightarrow> SecurityPlain | Some (_, c) \<Rightarrow> ch_state c)"

definition session_Open :: "bytes \<Rightarrow> conn_session \<Rightarrow> conn_session \<times> (conn_error + bytes)" where
  "session_Open src s = (case cs_security s of
     None \<Rightarrow> (s, Inr src)
   | Some (a, c) \<Rightarrow>
       if ch_state c \<noteq> SecurityReady then (s, Inr src)
       else (case channel_Open src c of
           (c', Inl e) \<Rightarrow> (s\<lparr>cs_security := Some (a, c')\<rparr>, Inl (ErrSecure e))
         | (c', Inr opened) \<Rightarrow> (s\<lparr>cs_security := Some (a, c')\<rparr>, Inr opened)))"

definition session_Seal :: "bytes \<Rightarrow> conn_session \<Rightarrow> conn_session \<times> (conn_error + bytes)" where
  "session_Seal src s = (case cs_security s of
     None \<Rightarrow> (s, Inr src)
   | Some (a, c) \<Rightarrow>
       if ch_state c \<noteq> SecurityReady then (s, Inr src)
       else (case channel_Seal src c of
           (c', Inl e) \<Rightarrow> (s\<lparr>cs_security := Some (a, c')\<rparr>, Inl (ErrSecure e))
         | (c', Inr sealed) \<Rightarrow> (s\<lparr>cs_security := Some (a, c')\<rparr>, Inr sealed)))"

text \<open>The argument is the identity of the channel; \<open>fresh\<close> is the channel itself, which is attached when the session has none.\<close>

definition ActivateSecurity :: "nat \<Rightarrow> channel \<Rightarrow> conn_session \<Rightarrow> conn_session \<times> conn_error option" where
  "ActivateSecurity a fresh s =
     (let activate = (\<lambda>s'. case cs_security s' of
            None \<Rightarrow> (s', Some ErrInvalidSecurity)
          | Some (b, c) \<Rightarrow> (case Activate c of
                (c', Inl e) \<Rightarrow> (s'\<lparr>cs_security := Some (b, c')\<rparr>, Some (ErrSecure e))
              | (c', Inr _) \<Rightarrow> (s'\<lparr>cs_security := Some (b, c')\<rparr>, None)))
      in case cs_security s of
          None \<Rightarrow> (case AttachSecurity (Some (a, fresh)) s of (s', Some e) \<Rightarrow> (s', Some e) | (s', None) \<Rightarrow> activate s')
        | Some (b, c) \<Rightarrow> if b \<noteq> a then (s, Some ErrInvalidSecurity) else activate s)"

subsection \<open>Handlers\<close>

record conn_context =
  cx_ConnectionID :: string
  cx_ConnectionKind :: string
  cx_State :: conn_state
  cx_RemoteAddr :: string
  cx_Authenticated :: bool
  cx_Disconnected :: bool

definition contextLocked :: "conn_session \<Rightarrow> conn_context" where
  "contextLocked s = \<lparr>cx_ConnectionID = cs_id s, cx_ConnectionKind = cs_kind s, cx_State = cs_state s,
     cx_RemoteAddr = cs_remoteAddr s, cx_Authenticated = cs_authenticated s, cx_Disconnected = cs_disconnected s\<rparr>"

record handler_policy =
  hp_AllowedStates :: "conn_state list"
  hp_RequiresAuthenticated :: bool
  hp_AllowsDisconnected :: bool

type_synonym handler_option = "handler_policy \<Rightarrow> handler_policy"

definition AllowStates :: "conn_state list \<Rightarrow> handler_option" where
  "AllowStates states p = p\<lparr>hp_AllowedStates := states\<rparr>"

definition AllowAnyActiveState :: handler_option where
  "AllowAnyActiveState = AllowStates [StateCreated, StateHandshaking, StateSecuring, StateAuthenticating,
     StateAuthenticated, StateConnected]"

definition AllowUnauthenticated :: handler_option where
  "AllowUnauthenticated p = p\<lparr>hp_RequiresAuthenticated := False\<rparr>"

definition AllowDisconnected :: handler_option where
  "AllowDisconnected p = p\<lparr>hp_AllowsDisconnected := True\<rparr>"

definition NewHandlerPolicy :: "handler_option list \<Rightarrow> handler_policy" where
  "NewHandlerPolicy opts = fold (\<lambda>opt. opt) opts
     \<lparr>hp_AllowedStates = [StateConnected], hp_RequiresAuthenticated = True, hp_AllowsDisconnected = False\<rparr>"

definition policy_Allows :: "handler_policy \<Rightarrow> conn_context \<Rightarrow> bool" where
  "policy_Allows p c =
     (if cx_Disconnected c \<and> \<not> hp_AllowsDisconnected p then False
      else if hp_RequiresAuthenticated p \<and> \<not> cx_Authenticated c then False
      else if cx_State c \<in> set (hp_AllowedStates p) then True
      else hp_AllowedStates p = [])"

type_synonym 'w native = "'w \<Rightarrow> 'w \<times> conn_error option"
type_synonym 'w handler = "conn_context \<Rightarrow> packet \<Rightarrow> 'w native"
type_synonym 'w interceptor = "conn_context \<Rightarrow> packet \<Rightarrow> 'w native \<Rightarrow> 'w native"

record 'w registration =
  hr_Handler :: "'w handler option"
  hr_Policy :: handler_policy

record 'w interceptor_registration =
  ir_interceptor :: "'w interceptor"
  ir_priority :: int
  ir_order :: nat

record 'w handler_registry =
  hg_handlers :: "u16 \<rightharpoonup> 'w registration"
  hg_fallback :: "'w registration"
  hg_hasFallback :: bool
  hg_interceptors :: "'w interceptor_registration list"
  hg_headerInterceptors :: "u16 \<Rightarrow> 'w interceptor_registration list"
  hg_interceptorOrder :: nat

definition NewHandlerRegistry :: "'w handler_registry" where
  "NewHandlerRegistry = \<lparr>hg_handlers = Map.empty, hg_fallback = \<lparr>hr_Handler = None, hr_Policy = NewHandlerPolicy []\<rparr>,
     hg_hasFallback = False, hg_interceptors = [], hg_headerInterceptors = (\<lambda>_. []), hg_interceptorOrder = 0\<rparr>"

definition handler_Register ::
  "u16 \<Rightarrow> 'w handler option \<Rightarrow> handler_option list \<Rightarrow> 'w handler_registry \<Rightarrow> 'w handler_registry \<times> conn_error option" where
  "handler_Register h handler opts g =
     (if handler = None then (g, Some ErrInvalidHandler)
      else if hg_handlers g h \<noteq> None then (g, Some ErrHandlerExists)
      else (g\<lparr>hg_handlers := (hg_handlers g)(h \<mapsto> \<lparr>hr_Handler = handler, hr_Policy = NewHandlerPolicy opts\<rparr>)\<rparr>, None))"

definition handler_Unregister :: "u16 \<Rightarrow> 'w handler_registry \<Rightarrow> 'w handler_registry \<times> bool" where
  "handler_Unregister h g =
     (if hg_handlers g h = None then (g, False) else (g\<lparr>hg_handlers := (hg_handlers g)(h := None)\<rparr>, True))"

definition SetFallback :: "'w handler option \<Rightarrow> handler_option list \<Rightarrow> 'w handler_registry \<Rightarrow> 'w handler_registry" where
  "SetFallback handler opts g = g\<lparr>hg_fallback := \<lparr>hr_Handler = handler, hr_Policy = NewHandlerPolicy opts\<rparr>,
     hg_hasFallback := (handler \<noteq> None)\<rparr>"

text \<open>The comparison of both sorts: larger priorities first, then the order of registration.\<close>

definition interceptor_key :: "'w interceptor_registration \<Rightarrow> int \<times> nat" where
  "interceptor_key r = (- ir_priority r, ir_order r)"

definition appendSortedInterceptor ::
  "'w interceptor_registration list \<Rightarrow> 'w interceptor_registration \<Rightarrow> 'w interceptor_registration list" where
  "appendSortedInterceptor entries r = sort_key interceptor_key (entries @ [r])"

definition mergeInterceptors ::
  "'w interceptor_registration list \<Rightarrow> 'w interceptor_registration list \<Rightarrow> 'w interceptor_registration list" where
  "mergeInterceptors global scoped =
     (if global = [] then scoped else if scoped = [] then global else sort_key interceptor_key (global @ scoped))"

definition Intercept ::
  "u16 option \<Rightarrow> int \<Rightarrow> 'w interceptor option \<Rightarrow> 'w handler_registry \<Rightarrow> 'w handler_registry \<times> conn_error option" where
  "Intercept h priority interceptor g = (case interceptor of
     None \<Rightarrow> (g, Some ErrInvalidHandler)
   | Some i \<Rightarrow>
       (let n = hg_interceptorOrder g + 1; r = \<lparr>ir_interceptor = i, ir_priority = priority, ir_order = n\<rparr>;
            g' = g\<lparr>hg_interceptorOrder := n\<rparr>
        in case h of
            None \<Rightarrow> (g'\<lparr>hg_interceptors := appendSortedInterceptor (hg_interceptors g') r\<rparr>, None)
          | Some k \<Rightarrow> (g'\<lparr>hg_headerInterceptors := (hg_headerInterceptors g')
                (k := appendSortedInterceptor (hg_headerInterceptors g' k) r)\<rparr>, None)))"

fun runInterceptorChain :: "'w interceptor_registration list \<Rightarrow> conn_context \<Rightarrow> packet \<Rightarrow> 'w native \<Rightarrow> 'w native" where
  "runInterceptorChain [] c p native = native"
| "runInterceptorChain (e # es) c p native = ir_interceptor e c p (runInterceptorChain es c p native)"

definition handler_Handle :: "'w handler_registry \<Rightarrow> conn_context \<Rightarrow> packet \<Rightarrow> 'w native" where
  "handler_Handle g c p =
     (let (registration, ok) = (case hg_handlers g (header p) of
            Some r \<Rightarrow> (r, True)
          | None \<Rightarrow> if hg_hasFallback g then (hg_fallback g, True) else (hg_fallback g, False));
          interceptors = mergeInterceptors (hg_interceptors g) (hg_headerInterceptors g (header p));
          native = (\<lambda>w. case hr_Handler registration of
            None \<Rightarrow> (w, Some ErrHandlerNotFound)
          | Some h \<Rightarrow> if ok then h c p w else (w, Some ErrHandlerNotFound))
      in if ok \<and> hr_Handler registration \<noteq> None \<and> \<not> policy_Allows (hr_Policy registration) c
         then (\<lambda>w. (w, Some ErrHandlerPolicy))
         else if interceptors = [] then native
         else runInterceptorChain interceptors c p native)"

subsection \<open>The registry of connections\<close>

text \<open>Buckets by kind, each a map of connections by id; an empty bucket is deleted.\<close>

type_synonym 'c conn_registry = "(string \<times> (string \<times> 'c) list) list"

definition bucket :: "string \<Rightarrow> 'c conn_registry \<Rightarrow> (string \<times> 'c) list" where
  "bucket k r = (case map_of r k of None \<Rightarrow> [] | Some b \<Rightarrow> b)"

definition conn_Register :: "string \<Rightarrow> string \<Rightarrow> 'c \<Rightarrow> 'c conn_registry \<Rightarrow> 'c conn_registry \<times> conn_error option" where
  "conn_Register k i c r =
     (if i = [] \<or> k = [] then (r, Some ErrInvalidConnection)
      else if map_of (bucket k r) i \<noteq> None then (AList.update k (bucket k r) r, Some ErrConnectionExists)
      else (AList.update k (AList.update i c (bucket k r)) r, None))"

definition conn_Remove :: "string \<Rightarrow> string \<Rightarrow> 'c conn_registry \<Rightarrow> 'c conn_registry \<times> 'c option" where
  "conn_Remove k i r = (case map_of (bucket k r) i of
     None \<Rightarrow> (r, None)
   | Some c \<Rightarrow> (let b = AList.delete i (bucket k r)
                in (if b = [] then AList.delete k r else AList.update k b r, Some c)))"

definition conn_Get :: "string \<Rightarrow> string \<Rightarrow> 'c conn_registry \<Rightarrow> 'c option" where
  "conn_Get k i r = map_of (bucket k r) i"

definition conn_List :: "string \<Rightarrow> 'c conn_registry \<Rightarrow> 'c list" where
  "conn_List k r = map snd (bucket k r)"

definition conn_ListAll :: "'c conn_registry \<Rightarrow> 'c list" where
  "conn_ListAll r = concat (map (\<lambda>(k, b). map snd b) r)"

definition conn_Count :: "string \<Rightarrow> 'c conn_registry \<Rightarrow> nat" where
  "conn_Count k r = length (bucket k r)"

definition conn_CountAll :: "'c conn_registry \<Rightarrow> nat" where
  "conn_CountAll r = sum_list (map (\<lambda>(k, b). length b) r)"

subsection \<open>What a session keeps\<close>

datatype session_op =
    STransition conn_event | STraffic "conn_event option" | SActivity int int | SPong int int
  | SAuthenticate int int | SPolicy "security_mode option" | SBegin draws channel_ref | SComplete bool string
  | SActivate nat channel | SOpen bytes | SSeal bytes | SDispose reason | SDisposed

text \<open>\<open>SDisposed\<close> is the last section of the one \<open>Disconnect\<close> call that was not refused.\<close>

definition complete_channel :: "bool \<Rightarrow> string \<Rightarrow> conn_session \<Rightarrow> conn_session \<times> (conn_error + string \<times> bool)" where
  "complete_channel cancelled encrypted s = (case cs_security s of
     None \<Rightarrow> (s, Inl ErrInvalidSecurity)
   | Some (a, c) \<Rightarrow> (case Complete cancelled encrypted c of
         (c', Inl e) \<Rightarrow> (s\<lparr>cs_security := Some (a, c')\<rparr>, Inl (ErrSecure e))
       | (c', Inr r) \<Rightarrow> (s\<lparr>cs_security := Some (a, c')\<rparr>, Inr r)))"

definition session_step :: "session_op \<Rightarrow> conn_session \<Rightarrow> conn_session" where
  "session_step op s = (case op of
     STransition event \<Rightarrow> fst (session_Transition event s)
   | STraffic event \<Rightarrow> fst (markTraffic event s)
   | SActivity now at \<Rightarrow> markActivity now at s
   | SPong now at \<Rightarrow> fst (MarkPong now at s)
   | SAuthenticate now at \<Rightarrow> fst (session_Authenticate now at s)
   | SPolicy p \<Rightarrow> fst (SetSecurityPolicy p s)
   | SBegin draws c \<Rightarrow> fst (BeginSecurity draws (Some c) s)
   | SComplete cancelled encrypted \<Rightarrow> fst (complete_channel cancelled encrypted s)
   | SActivate a c \<Rightarrow> fst (ActivateSecurity a c s)
   | SOpen b \<Rightarrow> fst (session_Open b s)
   | SSeal b \<Rightarrow> fst (session_Seal b s)
   | SDispose r \<Rightarrow> fst (start_disconnect r s)
   | SDisposed \<Rightarrow> if cs_disconnected s then finish_disconnect s else s)"

text \<open>What one operation may change: the relation is reflexive and transitive.\<close>

definition follows :: "conn_session \<Rightarrow> conn_session \<Rightarrow> bool" where
  "follows s s' \<longleftrightarrow> cs_id s' = cs_id s \<and> cs_kind s' = cs_kind s \<and>
     (cs_disconnected s \<longrightarrow> cs_disconnected s' \<and> cs_disconnectReason s' = cs_disconnectReason s \<and>
        cs_authenticated s' = cs_authenticated s \<and> (cs_state s = StateClosed \<longrightarrow> cs_state s' = StateClosed)) \<and>
     (cs_trafficStarted s \<longrightarrow> cs_trafficStarted s' \<and> cs_policy s' = cs_policy s) \<and>
     (cs_authenticated s \<longrightarrow> cs_authenticated s' \<and> cs_authenticatedAt s' = cs_authenticatedAt s) \<and>
     (\<forall>a c. cs_security s = Some (a, c) \<longrightarrow> (\<exists>c'. cs_security s' = Some (a, c')))"

definition session_ok :: "conn_session \<Rightarrow> bool" where
  "session_ok s \<longleftrightarrow> (cs_disconnected s \<longleftrightarrow> cs_done s) \<and>
     (cs_disconnected s \<longrightarrow> cs_state s \<in> {StateClosing, StateClosed}) \<and>
     (cs_authenticated s \<longrightarrow> cs_state s \<notin> {StateCreated, StateHandshaking, StateSecuring, StateAuthenticating})"

lemma follows_refl: "follows s s"
  by (auto simp: follows_def)

lemma follows_trans: "follows s s' \<Longrightarrow> follows s' s'' \<Longrightarrow> follows s s''"
  unfolding follows_def by (intro conjI impI allI; metis)

lemmas session_defs = session_step_def session_Transition_def markTraffic_def markActivity_def MarkPong_def
  session_Authenticate_def SetSecurityPolicy_def start_disconnect_def finish_disconnect_def close_security_def

lemma transition_forward:
  "nextState s e = Some s' \<Longrightarrow> s \<notin> {StateCreated, StateHandshaking, StateSecuring, StateAuthenticating} \<Longrightarrow>
     s' \<notin> {StateCreated, StateHandshaking, StateSecuring, StateAuthenticating}"
  by (cases e) (auto simp: nextState_def transitionFrom_def closeState_def failState_def split: if_splits)

lemma authenticating_only: "canTransition s EventAuthenticationAccepted \<longleftrightarrow> s = StateAuthenticating"
  by (auto simp: canTransition_def nextState_def transitionFrom_def)

lemma completed_only: "nextState s EventDisconnectCompleted = Some s' \<longleftrightarrow> s = StateClosing \<and> s' = StateClosed"
  by (auto simp: nextState_def transitionFrom_def)

text \<open>The operations that reach the channel change nothing else.\<close>

definition only_security :: "conn_session \<Rightarrow> conn_session \<Rightarrow> bool" where
  "only_security s s' \<longleftrightarrow> (\<exists>x. s' = s\<lparr>cs_security := x\<rparr> \<and> (\<forall>a c. cs_security s = Some (a, c) \<longrightarrow> (\<exists>c'. x = Some (a, c'))))"

lemma only_security_follows: "only_security s s' \<Longrightarrow> follows s s' \<and> (session_ok s \<longrightarrow> session_ok s')"
  by (auto simp: only_security_def follows_def session_ok_def)

lemma only_security_self [simp]: "only_security s s"
  unfolding only_security_def by (rule exI [of _ "cs_security s"]) simp

lemma security_ops:
  "only_security s (fst (BeginSecurity draws (Some c) s))" "only_security s (fst (complete_channel cancelled encrypted s))"
  "only_security s (fst (ActivateSecurity a fresh s))" "only_security s (fst (session_Open b s))"
  "only_security s (fst (session_Seal b s))"
proof -
  have attach: "only_security s (fst (AttachSecurity x s))" for x
  proof -
    have "only_security s (s\<lparr>cs_security := y\<rparr>)" if "cs_security s = None" for y
      using that by (auto simp: only_security_def)
    then show ?thesis by (cases "cs_security s") (auto simp: AttachSecurity_def split: option.split)
  qed
  have update: "only_security s (s\<lparr>cs_security := Some (a, c')\<rparr>)" if "cs_security s = Some (a, c)" for a c c'
    using that by (auto simp: only_security_def)
  show "only_security s (fst (BeginSecurity draws (Some c) s))"
    using attach by (auto simp: BeginSecurity_def split: prod.split sum.split)
  show "only_security s (fst (complete_channel cancelled encrypted s))"
    using update by (auto simp: complete_channel_def split: option.split prod.split sum.split)
  show "only_security s (fst (session_Open b s))"
    using update by (auto simp: session_Open_def split: option.split prod.split sum.split)
  show "only_security s (fst (session_Seal b s))"
    using update by (auto simp: session_Seal_def split: option.split prod.split sum.split)
  show "only_security s (fst (ActivateSecurity a fresh s))"
  proof (cases "cs_security s")
    case None
    then have "only_security s (s\<lparr>cs_security := y\<rparr>)" for y by (auto simp: only_security_def)
    with None show ?thesis
      by (auto simp: ActivateSecurity_def AttachSecurity_def Let_def split: prod.split sum.split)
  next
    case (Some bc)
    then show ?thesis
      using update by (cases bc) (auto simp: ActivateSecurity_def Let_def split: prod.split sum.split)
  qed
qed

lemma session_step_ok:
  assumes "session_ok s" shows "session_ok (session_step op s) \<and> follows s (session_step op s)"
proof (cases op)
  case (STransition e)
  show ?thesis
  proof (cases "nextState (cs_state s) e")
    case None
    then show ?thesis using assms STransition by (simp add: session_defs follows_refl)
  next
    case (Some t)
    then show ?thesis
      using assms STransition transition_forward [OF Some] completed_only [of "cs_state s" t]
      by (auto simp: session_defs follows_def session_ok_def)
  qed
next
  case (STraffic e)
  then show ?thesis
    using assms transition_forward
    by (auto simp: session_defs follows_def session_ok_def Let_def split: option.split)
next
  case (SBegin draws c)
  then show ?thesis using assms only_security_follows [OF security_ops(1)] by (simp add: session_step_def)
next
  case (SComplete cancelled encrypted)
  then show ?thesis using assms only_security_follows [OF security_ops(2)] by (simp add: session_step_def)
next
  case (SActivate a c)
  then show ?thesis using assms only_security_follows [OF security_ops(3)] by (simp add: session_step_def)
next
  case (SOpen b)
  then show ?thesis using assms only_security_follows [OF security_ops(4)] by (simp add: session_step_def)
next
  case (SSeal b)
  then show ?thesis using assms only_security_follows [OF security_ops(5)] by (simp add: session_step_def)
qed (use assms in \<open>auto simp: session_defs follows_def session_ok_def authenticating_only\<close>)

lemma session_run:
  "session_ok s \<Longrightarrow> session_ok (fold session_step ops s) \<and> follows s (fold session_step ops s)"
proof (induction ops arbitrary: s)
  case (Cons op ops)
  then show ?case using session_step_ok [of s op] follows_trans by force
qed (simp add: follows_refl)

lemma NewSession_ok: "NewSession now c = Inr s \<Longrightarrow> session_ok s"
  by (auto simp: NewSession_def Let_def session_ok_def split: if_splits)

text \<open>C25: The life of a session. In any interleaving of its operations: it is done exactly when a disconnect was
  accepted, from then on it is closing or closed, and nothing later changes the recorded reason or the
  authentication, or reopens it; authentication is never lost and never happens before the authenticating
  phase; once traffic has started the security policy is fixed, and an attached channel is never replaced.\<close>

theorem session_lifecycle:
  fixes ops later :: "session_op list"
  assumes "NewSession now config = Inr s0"
  defines "s \<equiv> fold session_step ops s0"
  defines "s' \<equiv> fold session_step later s"
  shows "(cs_done s \<longleftrightarrow> cs_disconnected s) \<and>
    (cs_disconnected s \<longrightarrow> cs_state s \<in> {StateClosing, StateClosed} \<and> cs_disconnected s' \<and>
       cs_disconnectReason s' = cs_disconnectReason s \<and> cs_authenticated s' = cs_authenticated s \<and>
       (cs_state s = StateClosed \<longrightarrow> cs_state s' = StateClosed)) \<and>
    (cs_authenticated s \<longrightarrow> cs_state s \<notin> {StateCreated, StateHandshaking, StateSecuring, StateAuthenticating} \<and>
       cs_authenticated s' \<and> cs_authenticatedAt s' = cs_authenticatedAt s) \<and>
    (cs_trafficStarted s \<longrightarrow> cs_policy s' = cs_policy s) \<and>
    (\<forall>a c. cs_security s = Some (a, c) \<longrightarrow> (\<exists>c'. cs_security s' = Some (a, c')))"
proof -
  have "session_ok s" using session_run [OF NewSession_ok [OF assms(1)]] by (simp add: s_def)
  moreover from this have "follows s s'" using session_run by (simp add: s'_def)
  ultimately show ?thesis unfolding session_ok_def follows_def by blast
qed

definition sample_session_config :: session_config where
  "sample_session_config = \<lparr>sc_ID = ''c1'', sc_Kind = ''websocket'', sc_StartedAt = 0, sc_RemoteAddr = ''::1'',
     sc_SecurityPolicy = None, sc_hasSender = True, sc_hasDisposer = True\<rparr>"

definition new_session :: "string \<Rightarrow> conn_session" where
  "new_session i = (case NewSession 5 (sample_session_config\<lparr>sc_ID := i\<rparr>) of Inr s \<Rightarrow> s | Inl _ \<Rightarrow> undefined)"

lemma new_session: "i \<noteq> [] \<Longrightarrow> NewSession 5 (sample_session_config\<lparr>sc_ID := i\<rparr>) = Inr (new_session i)"
  by (simp add: new_session_def NewSession_def sample_session_config_def Let_def)

definition kicked :: reason where "kicked = \<lparr>rs_Code = DisconnectKicked, rs_Message = []\<rparr>"

text \<open>A player logs in and is kicked; a second disconnect and a late transition are refused.\<close>

definition login_run :: "session_op list" where
  "login_run = [STraffic (Some EventPacketReceived), STransition EventAuthenticationStarted, SAuthenticate 9 0,
     STransition EventSessionReady, SDispose kicked]"

theorem session_lifecycle_witness:
  "cs_disconnectReason (fold session_step [SDispose UnknownReason, STransition EventProtocolFailed, SDisposed]
      (fold session_step login_run (new_session ''c1''))) = kicked \<and>
   cs_authenticated (fold session_step login_run (new_session ''c1''))"
proof -
  let ?s = "fold session_step login_run (new_session ''c1'')"
  have now: "cs_disconnected ?s" "cs_disconnectReason ?s = kicked" "cs_authenticated ?s" by code_simp+
  show ?thesis
    using session_lifecycle [OF new_session [of "''c1''"], where ops = login_run
      and later = "[SDispose UnknownReason, STransition EventProtocolFailed, SDisposed]"] now
    by auto
qed

subsection \<open>The order of interceptors\<close>

type_synonym 'w intercept_call = "u16 option \<times> int \<times> 'w interceptor"

fun numbered :: "nat \<Rightarrow> 'w intercept_call list \<Rightarrow> (u16 option \<times> 'w interceptor_registration) list" where
  "numbered n [] = []"
| "numbered n ((h, prio, i) # calls) =
     (h, \<lparr>ir_interceptor = i, ir_priority = prio, ir_order = Suc n\<rparr>) # numbered (Suc n) calls"

definition intercept_all :: "'w intercept_call list \<Rightarrow> 'w handler_registry \<Rightarrow> 'w handler_registry" where
  "intercept_all calls g = fold (\<lambda>(h, prio, i) g. fst (Intercept h prio (Some i) g)) calls g"

lemma numbered_snoc:
  "numbered n (calls @ [(h, prio, i)]) =
     numbered n calls @ [(h, \<lparr>ir_interceptor = i, ir_priority = prio, ir_order = Suc (n + length calls)\<rparr>)]"
  by (induction calls arbitrary: n) auto

lemma numbered_above: "x \<in> set (numbered n calls) \<Longrightarrow> n < ir_order (snd x)"
proof (induction calls arbitrary: n)
  case (Cons c calls)
  obtain h prio i where "c = (h, prio, i)" by (cases c)
  then show ?case using Cons.prems Cons.IH [of "Suc n"] by auto
qed simp

lemma key_inj: "inj_on interceptor_key (snd ` set (numbered n calls))"
proof -
  have "inj_on (\<lambda>x. ir_order (snd x)) (set (numbered n calls))" for n
  proof (induction calls arbitrary: n)
    case (Cons c calls)
    obtain h prio i where c: "c = (h, prio, i)" by (cases c)
    have "ir_order (snd x) \<noteq> Suc n" if "x \<in> set (numbered (Suc n) calls)" for x
      using numbered_above [OF that] by simp
    then show ?case using Cons [of "Suc n"] by (auto simp: c) (metis snd_conv)+
  qed simp
  then show ?thesis by (auto simp: inj_on_def interceptor_key_def)
qed

lemma sort_key_eqI:
  "mset xs = mset ys \<Longrightarrow> inj_on f (set xs) \<Longrightarrow> sort_key f xs = sort_key f (ys :: 'a list)"
  by (rule sort_key_inj_key_eq) simp_all

lemma sorted_sort_key_id: "sorted (map f xs) \<Longrightarrow> sort_key f xs = xs"
  by (induction xs) (simp_all add: insort_is_Cons)

lemma insort_agree:
  "(\<And>y. y \<in> set ys \<Longrightarrow> f x \<le> f y \<longleftrightarrow> g x \<le> g y) \<Longrightarrow> insort_key f x ys = insort_key g x ys"
  by (induction ys) auto

text \<open>On registrations in the order they were made, the two-part key sorts stably by priority.\<close>

lemma sort_by_priority:
  assumes "sorted_wrt (\<lambda>a b. ir_order a < ir_order b) rs"
  shows "sort_key interceptor_key rs = sort_key (\<lambda>r. - ir_priority r) rs"
  using assms
proof (induction rs)
  case (Cons r rs)
  have "insort_key interceptor_key r ys = insort_key (\<lambda>r. - ir_priority r) r ys" if "set ys = set rs" for ys
    using Cons.prems that by (intro insort_agree) (auto simp: interceptor_key_def)
  then show ?case using Cons by simp
qed simp

lemma numbered_sorted: "sorted_wrt (\<lambda>a b. ir_order (snd a) < ir_order (snd b)) (numbered n calls)"
proof (induction calls arbitrary: n)
  case (Cons c calls)
  obtain h prio i where c: "c = (h, prio, i)" by (cases c)
  show ?case using Cons [of "Suc n"] numbered_above by (fastforce simp: c)
qed simp

definition calls_for :: "u16 option list \<Rightarrow> nat \<Rightarrow> 'w intercept_call list \<Rightarrow> 'w interceptor_registration list" where
  "calls_for hs n calls = map snd (filter (\<lambda>(h, _). h \<in> set hs) (numbered n calls))"

lemma calls_for_inj: "inj_on interceptor_key (set (calls_for hs n calls))"
  by (rule inj_on_subset [OF key_inj [of n calls]]) (auto simp: calls_for_def)

lemma intercept_all_lists:
  assumes "hg_interceptors g = []" and "hg_headerInterceptors g = (\<lambda>_. [])"
  shows "hg_interceptorOrder (intercept_all calls g) = hg_interceptorOrder g + length calls \<and>
    hg_interceptors (intercept_all calls g) = sort_key interceptor_key (calls_for [None] (hg_interceptorOrder g) calls) \<and>
    (\<forall>h. hg_headerInterceptors (intercept_all calls g) h = sort_key interceptor_key (calls_for [Some h] (hg_interceptorOrder g) calls))"
proof (induction calls rule: rev_induct)
  case Nil
  then show ?case using assms by (simp add: intercept_all_def calls_for_def)
next
  case (snoc c calls)
  obtain h prio i where c: "c = (h, prio, i)" by (cases c)
  let ?n = "hg_interceptorOrder g" and ?g = "intercept_all calls g"
  let ?r = "\<lparr>ir_interceptor = i, ir_priority = prio, ir_order = Suc (?n + length calls)\<rparr>"
  have new: "calls_for hs ?n (calls @ [c]) = calls_for hs ?n calls @ (if h \<in> set hs then [?r] else [])" for hs
    by (simp add: calls_for_def c numbered_snoc)
  have append: "appendSortedInterceptor (sort_key interceptor_key (calls_for hs ?n calls)) ?r =
      sort_key interceptor_key (calls_for hs ?n (calls @ [c]))" if "h \<in> set hs" for hs
    unfolding appendSortedInterceptor_def
    by (rule sort_key_eqI) (use new that calls_for_inj [of hs ?n "calls @ [c]"] in auto)
  have step: "intercept_all (calls @ [c]) g = fst (Intercept h prio (Some i) ?g)" by (simp add: intercept_all_def c)
  show ?case
    using snoc append [of "[None]"] append [of "[Some k]" for k] new [of "[None]"] new [of "[Some k]" for k]
    by (auto simp: step Intercept_def Let_def split: option.splits)
qed

lemma interceptors_of_calls:
  "map (\<lambda>r. (ir_priority r, ir_interceptor r)) (calls_for hs n calls) = map snd (filter (\<lambda>(h, _). h \<in> set hs) calls)"
  by (induction calls arbitrary: n) (auto simp: calls_for_def)

lemma sort_priority_map:
  "map (\<lambda>r. (ir_priority r, ir_interceptor r)) (sort_key (\<lambda>r. - ir_priority r) rs) =
     sort_key (\<lambda>x. - fst x) (map (\<lambda>r. (ir_priority r, ir_interceptor r)) rs)"
proof (induction rs)
  case (Cons r rs)
  have "map (\<lambda>r. (ir_priority r, ir_interceptor r)) (insort_key (\<lambda>r. - ir_priority r) r ys) =
      insort_key (\<lambda>x. - fst x) (ir_priority r, ir_interceptor r) (map (\<lambda>r. (ir_priority r, ir_interceptor r)) ys)" for ys
    by (induction ys) auto
  then show ?case using Cons by simp
qed simp

text \<open>Interceptors run in the order of their priorities. After any sequence of registrations the chain for a
  packet is what a stable sort by priority makes of the calls that concern its header: every global and
  every matching interceptor once, larger priorities first, ties in the order of registration.\<close>

theorem interceptors_in_priority_order:
  fixes calls :: "'w intercept_call list"
  defines "g \<equiv> intercept_all calls NewHandlerRegistry"
  shows "map (\<lambda>r. (ir_priority r, ir_interceptor r)) (mergeInterceptors (hg_interceptors g) (hg_headerInterceptors g h)) =
    sort_key (\<lambda>x. - fst x) (map snd (filter (\<lambda>(k, _). k = None \<or> k = Some h) calls))"
proof -
  note L = intercept_all_lists [of "NewHandlerRegistry :: 'w handler_registry" calls, folded g_def]
  have lists: "hg_interceptors g = sort_key interceptor_key (calls_for [None] 0 calls)"
    "hg_headerInterceptors g h = sort_key interceptor_key (calls_for [Some h] 0 calls)"
    using L by (simp_all add: NewHandlerRegistry_def)
  have parts: "mset (calls_for [None] 0 calls) + mset (calls_for [Some h] 0 calls) = mset (calls_for [None, Some h] 0 calls)"
  proof -
    have "mset (map snd (filter (\<lambda>(k, _). k \<in> set [None]) xs)) + mset (map snd (filter (\<lambda>(k, _). k \<in> set [Some h]) xs)) =
        mset (map snd (filter (\<lambda>(k, _). k \<in> set [None, Some h]) xs))" for xs :: "(u16 option \<times> 'w interceptor_registration) list"
      by (induction xs) auto
    then show ?thesis by (simp only: calls_for_def)
  qed
  have "mergeInterceptors (hg_interceptors g) (hg_headerInterceptors g h) =
      sort_key interceptor_key (hg_interceptors g @ hg_headerInterceptors g h)"
    by (simp add: mergeInterceptors_def lists sorted_sort_key_id)
  also have "\<dots> = sort_key interceptor_key (calls_for [None, Some h] 0 calls)"
  proof (rule sort_key_eqI)
    show same: "mset (hg_interceptors g @ hg_headerInterceptors g h) = mset (calls_for [None, Some h] 0 calls)"
      using parts by (simp add: lists)
    show "inj_on interceptor_key (set (hg_interceptors g @ hg_headerInterceptors g h))"
      using calls_for_inj mset_eq_setD [OF same] by metis
  qed
  also have "\<dots> = sort_key (\<lambda>r. - ir_priority r) (calls_for [None, Some h] 0 calls)"
  proof (rule sort_by_priority)
    have "sorted_wrt (\<lambda>a b. ir_order (snd a) < ir_order (snd b)) (filter (\<lambda>(k, _). k \<in> set [None, Some h]) (numbered 0 calls))"
      by (rule sorted_wrt_filter [OF numbered_sorted])
    then show "sorted_wrt (\<lambda>a b. ir_order a < ir_order b) (calls_for [None, Some h] 0 calls)"
      by (simp add: calls_for_def sorted_wrt_map)
  qed
  finally show ?thesis by (simp add: sort_priority_map interceptors_of_calls)
qed

end
