(* ===== verification/Websocket.thy ===== *)
theory Websocket
  imports Connection
begin

text \<open>
  The WebSocket transport of a session (\<^verbatim>\<open>pkg/http/websocket\<close>): the reader that cuts the byte stream into
  packets (\<^verbatim>\<open>reader.go\<close>), the queue and the writer (\<^verbatim>\<open>writer.go\<close>, \<^verbatim>\<open>session.go\<close>), and their configuration. The
  reader's packets are views of one array, as the slices of the code are: a view is the header, the
  offset and the length of a payload.
\<close>

subsection \<open>Configuration\<close>

record ws_config =
  ws_QueueSize :: int
  ws_WriteTimeout :: int
  ws_ReadTimeout :: int
  ws_PingInterval :: int
  ws_PongTimeout :: int
  ws_CloseGrace :: int

definition ws_Normalize :: "ws_config \<Rightarrow> ws_config" where
  "ws_Normalize c = \<lparr>ws_QueueSize = (if ws_QueueSize c \<le> 0 then 256 else ws_QueueSize c),
     ws_WriteTimeout = (if ws_WriteTimeout c \<le> 0 then 5 else ws_WriteTimeout c),
     ws_ReadTimeout = (if ws_ReadTimeout c \<le> 0 then 75 else ws_ReadTimeout c),
     ws_PingInterval = (if ws_PingInterval c \<le> 0 then 30 else ws_PingInterval c),
     ws_PongTimeout = (if ws_PongTimeout c \<le> 0 then 60 else ws_PongTimeout c),
     ws_CloseGrace = (if ws_CloseGrace c \<le> 0 then 2 else ws_CloseGrace c)\<rparr>"

subsection \<open>The reader\<close>

type_synonym view = "u16 \<times> nat \<times> nat"

text \<open>\<open>DecodeFrames\<close> of the codec on the array \<open>arr\<close> from an offset on, with views for its payload slices.\<close>

function DecodeViews :: "view list \<Rightarrow> bytes \<Rightarrow> nat \<Rightarrow> view list \<times> nat \<times> codec_error option" where
  "DecodeViews dst arr off =
     (let src = drop off arr in
      if length src \<ge> LengthSize
      then (let size = unat (un32 (take LengthSize src))
            in if size < HeaderSize then (dst, off, Some ErrFrameTooSmall)
               else (let stop = LengthSize + size
                     in if length src < stop then (dst, off, None)
                        else DecodeViews
                          (dst @ [(un16 (take HeaderSize (drop LengthSize src)), off + FrameOverhead, size - HeaderSize)])
                          arr (off + stop)))
      else (dst, off, None))"
  by pat_completeness auto
termination
  by (relation "measure (\<lambda>(dst, arr, off). length arr - off)") (auto simp: LengthSize_def)

declare DecodeViews.simps [simp del]

definition read_view :: "bytes \<Rightarrow> view \<Rightarrow> packet" where
  "read_view arr v = (case v of (h, off, n) \<Rightarrow> \<lparr>header = h, payload = take n (drop off arr)\<rparr>)"

text \<open>
  One call of \<open>receive\<close> on opened bytes: the packets as \<open>dispatch\<close> reads them and the new buffer. The
  assignment of the rest to the buffer writes it to the front of the array that the packets view.
\<close>

definition receive_frames :: "bytes \<Rightarrow> bytes \<Rightarrow> codec_error + packet list \<times> bytes" where
  "receive_frames buffer opened =
     (let arr = buffer @ opened in case DecodeViews [] arr 0 of
        (views, off, Some e) \<Rightarrow> Inl e
      | (views, off, None) \<Rightarrow>
          (let rest = drop off arr; arr' = rest @ drop (length rest) arr
           in Inr (map (read_view arr') views, take (length rest) arr')))"

text \<open>What \<open>dispatch\<close> makes of the error of a handler; \<open>msg\<close> is \<^verbatim>\<open>Error()\<close>.\<close>

definition dispatch_reason :: "(conn_error \<Rightarrow> string) \<Rightarrow> conn_error option \<Rightarrow> reason option" where
  "dispatch_reason msg e = (case e of
     None \<Rightarrow> None
   | Some ErrDisposed \<Rightarrow> Some \<lparr>rs_Code = DisconnectLocalClose, rs_Message = msg ErrDisposed\<rparr>
   | Some err \<Rightarrow> Some \<lparr>rs_Code = DisconnectProtocolError, rs_Message = msg err\<rparr>)"

subsection \<open>The writer\<close>

datatype write_item = WritePacket packet | WriteActivate nat channel | WriteClose reason

record socket =
  so_session :: conn_session
  so_QueueSize :: nat
  so_queue :: "write_item list"
  so_closed :: bool
  so_finished :: bool
  so_wire :: "bytes list"
  so_closeFrame :: "(nat \<times> string) option"

definition socket_finish :: "socket \<Rightarrow> socket" where
  "socket_finish s = s\<lparr>so_finished := True\<rparr>"

text \<open>\<open>failed\<close> says that the deadline or the write of the connection failed.\<close>

definition writePacket :: "bool \<Rightarrow> packet \<Rightarrow> socket \<Rightarrow> socket \<times> bool" where
  "writePacket failed p s = (case AppendFrame [] p of
     (frame, Some e) \<Rightarrow> (socket_finish s, False)
   | (frame, None) \<Rightarrow> (case session_Seal frame (so_session s) of
         (sess, Inl e) \<Rightarrow> (socket_finish (s\<lparr>so_session := sess\<rparr>), False)
       | (sess, Inr sealed) \<Rightarrow>
           if failed then (socket_finish (s\<lparr>so_session := sess\<rparr>), False)
           else (s\<lparr>so_session := sess, so_wire := so_wire s @ [sealed]\<rparr>, True)))"

definition activateSecurity :: "nat \<Rightarrow> channel \<Rightarrow> socket \<Rightarrow> socket \<times> bool" where
  "activateSecurity a c s = (case ActivateSecurity a c (so_session s) of
     (sess, Some e) \<Rightarrow> (socket_finish (s\<lparr>so_session := sess\<rparr>), False)
   | (sess, None) \<Rightarrow> (s\<lparr>so_session := sess\<rparr>, True))"

definition websocketCloseCode :: "disconnect_code \<Rightarrow> nat" where
  "websocketCloseCode c =
     (if c \<in> {DisconnectLocalClose, DisconnectRemoteClose, DisconnectDuplicateSession, DisconnectKicked} then 1000
      else if c = DisconnectProtocolError then 1002
      else if c \<in> {DisconnectAuthenticationFailed, DisconnectAuthenticationTimeout} then 1008
      else if c = DisconnectIdleTimeout then 1001
      else if c \<in> {DisconnectRateLimited, DisconnectPolicyViolation, DisconnectBanned} then 1008
      else if c = DisconnectServerShutdown then 1012
      else 1011)"

text \<open>The numbers of the codes, in the order of their declaration.\<close>

definition code_number :: "disconnect_code \<Rightarrow> nat" where
  "code_number c = (case c of
     DisconnectUnknown \<Rightarrow> 0 | DisconnectLocalClose \<Rightarrow> 1 | DisconnectRemoteClose \<Rightarrow> 2 | DisconnectTransportError \<Rightarrow> 3
   | DisconnectProtocolError \<Rightarrow> 4 | DisconnectAuthenticationFailed \<Rightarrow> 5 | DisconnectAuthenticationTimeout \<Rightarrow> 6
   | DisconnectDuplicateSession \<Rightarrow> 7 | DisconnectIdleTimeout \<Rightarrow> 8 | DisconnectRateLimited \<Rightarrow> 9
   | DisconnectPolicyViolation \<Rightarrow> 10 | DisconnectKicked \<Rightarrow> 11 | DisconnectBanned \<Rightarrow> 12 | DisconnectServerShutdown \<Rightarrow> 13)"

definition socket_writeClose :: "reason \<Rightarrow> socket \<Rightarrow> socket" where
  "socket_writeClose r s =
     (let text0 = (if rs_Message r = [] then code_String (rs_Code r) else rs_Message r);
          msg = (if length text0 > 80 then take 80 text0 else text0)
      in s\<lparr>so_closeFrame := Some (websocketCloseCode (rs_Code r), nat_dec (code_number (rs_Code r)) @ '':'' @ msg)\<rparr>)"

definition handleWrite :: "bool \<Rightarrow> write_item \<Rightarrow> socket \<Rightarrow> socket \<times> bool" where
  "handleWrite failed item s = (case item of
     WritePacket p \<Rightarrow> writePacket failed p s
   | WriteActivate a c \<Rightarrow> activateSecurity a c s
   | WriteClose r \<Rightarrow> (socket_finish (socket_writeClose r s), False))"

text \<open>One turn of \<open>writeLoop\<close>; the flag says whether the loop goes on.\<close>

definition write_turn :: "bool \<Rightarrow> socket \<Rightarrow> socket \<times> bool" where
  "write_turn failed s =
     (if so_finished s then (s, False)
      else case so_queue s of
          [] \<Rightarrow> (s, True)
        | item # items \<Rightarrow> handleWrite failed item (s\<lparr>so_queue := items\<rparr>))"

fun write_turns :: "bool list \<Rightarrow> socket \<Rightarrow> socket" where
  "write_turns [] s = s"
| "write_turns (failed # rest) s = (case write_turn failed s of (s', True) \<Rightarrow> write_turns rest s' | (s', False) \<Rightarrow> s')"

text \<open>The context of every caller is the background one, which is never done.\<close>

definition enqueue :: "write_item \<Rightarrow> socket \<Rightarrow> socket \<times> conn_error option" where
  "enqueue item s =
     (if so_closed s then (s, Some ErrDisposed)
      else if length (so_queue s) < so_QueueSize s then (s\<lparr>so_queue := so_queue s @ [item]\<rparr>, None)
      else (s, Some ErrQueueFull))"

definition socket_send :: "packet \<Rightarrow> socket \<Rightarrow> socket \<times> conn_error option" where
  "socket_send p = enqueue (WritePacket p)"

definition socket_activate :: "nat \<Rightarrow> channel \<Rightarrow> socket \<Rightarrow> socket \<times> conn_error option" where
  "socket_activate a c = enqueue (WriteActivate a c)"

definition pixelErrorCode :: "disconnect_code \<Rightarrow> i32 option" where
  "pixelErrorCode c = (if c \<in> {DisconnectRemoteClose, DisconnectTransportError} then None else Some 0)"

definition pixelDisconnectCode :: "disconnect_code \<Rightarrow> i32 option" where
  "pixelDisconnectCode c =
     (if c \<in> {DisconnectRemoteClose, DisconnectTransportError} then None
      else if c = DisconnectBanned then Some 1
      else if c = DisconnectDuplicateSession then Some 2
      else Some 0)"

definition reason_Encode :: "i32 option \<Rightarrow> packet \<times> codec_error option" where
  "reason_Encode code = NewPacket 4000 [Optional (Named ''reason'' (mk_field Int32Kind))]
     (case code of None \<Rightarrow> [] | Some n \<Rightarrow> [Int32Val n])"

definition error_Encode :: "i32 \<Rightarrow> i32 \<Rightarrow> bytes \<Rightarrow> packet \<times> codec_error option" where
  "error_Encode messageID errorCode timestamp = NewPacket 1004
     [Named ''messageId'' (mk_field Int32Kind), Named ''errorCode'' (mk_field Int32Kind), Named ''timestamp'' (mk_field StringKind)]
     [Int32Val messageID, Int32Val errorCode, StringVal timestamp]"

definition disconnectPacket :: "reason \<Rightarrow> packet option" where
  "disconnectPacket r = (case pixelDisconnectCode (rs_Code r) of
     None \<Rightarrow> None | Some code \<Rightarrow> (case reason_Encode (Some code) of (p, None) \<Rightarrow> Some p | (p, Some e) \<Rightarrow> None))"

definition errorPacket :: "reason \<Rightarrow> packet option" where
  "errorPacket r = (case pixelErrorCode (rs_Code r) of
     None \<Rightarrow> None | Some code \<Rightarrow> (case error_Encode 0 code [] of (p, None) \<Rightarrow> Some p | (p, Some e) \<Rightarrow> None))"

text \<open>\<open>turns\<close> are the turns of the writer while the call waits for room in the queue.\<close>

definition enqueueBestEffort :: "bool list \<Rightarrow> write_item \<Rightarrow> socket \<Rightarrow> socket" where
  "enqueueBestEffort turns item s =
     (let s' = write_turns turns s
      in if length (so_queue s') < so_QueueSize s' then s'\<lparr>so_queue := so_queue s' @ [item]\<rparr> else socket_finish s')"

definition enqueueClose :: "bool list \<Rightarrow> bool list \<Rightarrow> bool list \<Rightarrow> reason \<Rightarrow> socket \<Rightarrow> socket" where
  "enqueueClose t1 t2 t3 r s =
     (let s1 = (case disconnectPacket r of None \<Rightarrow> s | Some p \<Rightarrow> enqueueBestEffort t1 (WritePacket p) s);
          s2 = (case errorPacket r of None \<Rightarrow> s1 | Some p \<Rightarrow> enqueueBestEffort t2 (WritePacket p) s1)
      in enqueueBestEffort t3 (WriteClose r) s2)"

text \<open>\<open>wait\<close> ends when the writer is done or after the grace period; either way the socket is finished.\<close>

definition socket_dispose :: "bool list \<Rightarrow> bool list \<Rightarrow> bool list \<Rightarrow> bool list \<Rightarrow> reason \<Rightarrow> socket \<Rightarrow> socket \<times> conn_error option" where
  "socket_dispose t1 t2 t3 t4 r s =
     (if so_closed s then (s, Some ErrDisposed)
      else (socket_finish (write_turns t4 (enqueueClose t1 t2 t3 r (s\<lparr>so_closed := True\<rparr>))), None))"

subsection \<open>What the reader dispatches\<close>

lemma DecodeViews_frames:
  "DecodeViews dst arr off = (vs, off', e) \<Longrightarrow>
     DecodeFrames (map (read_view arr) dst) (drop off arr) = (map (read_view arr) vs, drop off' arr, e) \<and>
     (off \<le> length arr \<longrightarrow> off' \<le> length arr) \<and> (\<forall>v\<in>set vs. v \<in> set dst \<or> off + FrameOverhead \<le> fst (snd v))"
proof (induction dst arr off arbitrary: vs off' e rule: DecodeViews.induct)
  case (1 dst arr off)
  let ?src = "drop off arr"
  let ?size = "unat (un32 (take LengthSize ?src))"
  let ?v = "(un16 (take HeaderSize (drop LengthSize ?src)), off + FrameOverhead, ?size - HeaderSize)"
  consider "\<not> length ?src \<ge> LengthSize" | "length ?src \<ge> LengthSize" "?size < HeaderSize"
    | "length ?src \<ge> LengthSize" "\<not> ?size < HeaderSize" "length ?src < LengthSize + ?size"
    | "length ?src \<ge> LengthSize" "\<not> ?size < HeaderSize" "\<not> length ?src < LengthSize + ?size" by blast
  then show ?case
  proof cases
    case 4
    have rec: "DecodeViews (dst @ [?v]) arr (off + (LengthSize + ?size)) = (vs, off', e)"
      using "1.prems" 4 by (subst (asm) DecodeViews.simps) (simp add: Let_def)
    have frame: "read_view arr ?v = \<lparr>header = un16 (take HeaderSize (take ?size (drop LengthSize ?src))),
        payload = drop HeaderSize (take ?size (drop LengthSize ?src))\<rparr>"
      using 4(2) by (simp add: read_view_def drop_take FrameOverhead_def min_def add.commute add.left_commute)
    have "DecodeFrames (map (read_view arr) dst) ?src =
        DecodeFrames (map (read_view arr) (dst @ [?v])) (drop (off + (LengthSize + ?size)) arr)"
      by (subst DecodeFrames.simps) (insert 4 frame, simp add: Let_def add.commute add.left_commute)
    moreover note IH = "1.IH" [OF refl 4(1) refl 4(2) refl 4(3) rec]
    moreover have "off + (LengthSize + ?size) \<le> length arr" if "off \<le> length arr" using 4(3) that by simp
    moreover have "off + FrameOverhead \<le> fst (snd v)" if "off + (LengthSize + ?size) + FrameOverhead \<le> fst (snd v)" for v :: view
      using that by simp
    ultimately show ?thesis by fastforce
  qed (use "1.prems" in \<open>subst (asm) DecodeViews.simps, subst DecodeFrames.simps, simp add: Let_def\<close>)+
qed

lemma read_view_untouched:
  "n \<le> fst (snd v) \<Longrightarrow> length rest = n \<Longrightarrow> read_view (rest @ drop n arr) v = read_view arr v"
  by (cases v) (simp add: read_view_def)

text \<open>The reader hands on what was sent, when little is left over. If at most six bytes of an unfinished frame
  remain - a message ends at a frame boundary, or inside the next frame's length and header - the packets
  that are dispatched are those the codec decodes from the buffered and the new bytes, and the rest is kept.\<close>

theorem reader_dispatches_decoded:
  assumes "DecodeFrames [] (buffer @ opened) = (packets, rest, None)" and "length rest \<le> FrameOverhead"
  shows "receive_frames buffer opened = Inr (packets, rest)"
proof -
  let ?arr = "buffer @ opened"
  obtain vs off e where v: "DecodeViews [] ?arr 0 = (vs, off, e)" by (metis surj_pair)
  note D = DecodeViews_frames [OF v]
  have eq: "packets = map (read_view ?arr) vs" "rest = drop off ?arr" "e = None"
    using D assms(1) by (auto simp del: drop_append)
  have "read_view (rest @ drop (length rest) ?arr) x = read_view ?arr x" if "x \<in> set vs" for x
    using D that assms(2) by (intro read_view_untouched) auto
  then have "map (read_view (rest @ drop (length rest) ?arr)) vs = packets" by (simp add: eq(1))
  moreover have "receive_frames buffer opened =
      Inr (map (read_view (rest @ drop (length rest) ?arr)) vs, take (length rest) (rest @ drop (length rest) ?arr))"
    unfolding receive_frames_def Let_def v eq(3) prod.case option.case eq(2) [symmetric] ..
  ultimately show ?thesis by simp
qed

theorem reader_dispatches_decoded_witness:
  "receive_frames [] [0, 0, 0, 3, 0, 1, 9, 0, 0] = Inr ([\<lparr>header = 1, payload = [9]\<rparr>], [0, 0])"
proof -
  have "DecodeFrames [] ([] @ [0, 0, 0, 3, 0, 1, 9, 0, 0]) = ([\<lparr>header = 1, payload = [9]\<rparr>], [0, 0], None)"
    by (simp add: DecodeFrames.simps LengthSize_def HeaderSize_def un32_def un16_def Let_def)
  then show ?thesis by (rule reader_dispatches_decoded) (simp add: FrameOverhead_def LengthSize_def HeaderSize_def)
qed

text \<open>A longer rest corrupts the packets before it. When one message carries a whole frame and at least as many
  bytes of the next one, the payload that is dispatched is not the one that was sent but the bytes that
  follow the header of the unfinished frame: the rest was written over it before the dispatch.\<close>

theorem partial_frame_corrupts:
  assumes "fits p" and "incomplete rest" and "length (frame_of p) \<le> length rest"
  shows "DecodeFrames [] (frame_of p @ rest) = ([p], rest, None) \<and>
    receive_frames [] (frame_of p @ rest) =
      Inr ([\<lparr>header = header p, payload = take (length (payload p)) (drop FrameOverhead rest)\<rparr>], rest)"
proof -
  let ?arr = "frame_of p @ rest"
  have dec: "DecodeFrames [] ?arr = ([p], rest, None)"
    using DecodeFrames_frame [OF assms(1), of "[]" rest] DecodeFrames_incomplete [OF assms(2)] by simp
  have "take LengthSize ?arr = be32 (word_of_nat (packet_size p))" by (simp add: frame_of_def LengthSize_def)
  then have size: "unat (un32 (take LengthSize ?arr)) = packet_size p" "packet_size p = HeaderSize + length (payload p)"
    using un32_size [OF assms(1)] by (simp_all add: packet_size_def)
  have "DecodeViews [] ?arr 0 = DecodeViews [(header p, FrameOverhead, length (payload p))] ?arr (length (frame_of p))"
    using size by (subst DecodeViews.simps) (simp add: Let_def length_frame_of FrameOverhead_def frame_of_def LengthSize_def HeaderSize_def)
  also have "\<dots> = ([(header p, FrameOverhead, length (payload p))], length (frame_of p), None)"
    using assms(2) by (subst DecodeViews.simps) (auto simp: Let_def incomplete_def)
  finally have v: "DecodeViews [] ?arr 0 = ([(header p, FrameOverhead, length (payload p))], length (frame_of p), None)" .
  have "take (length (payload p)) (drop FrameOverhead (rest @ drop (length rest) ?arr)) =
      take (length (payload p)) (drop FrameOverhead rest)"
    using assms(3) by (simp add: length_frame_of)
  then show ?thesis using dec v by (simp add: receive_frames_def read_view_def Let_def)
qed

theorem partial_frame_corrupts_witness:
  "DecodeFrames [] [0, 0, 0, 3, 0, 1, 9, 0, 0, 0, 20, 0, 2, 5] = ([\<lparr>header = 1, payload = [9]\<rparr>], [0, 0, 0, 20, 0, 2, 5], None) \<and>
   receive_frames [] [0, 0, 0, 3, 0, 1, 9, 0, 0, 0, 20, 0, 2, 5] =
     Inr ([\<lparr>header = 1, payload = [5]\<rparr>], [0, 0, 0, 20, 0, 2, 5])"
proof -
  let ?p = "\<lparr>header = 1, payload = [9]\<rparr>"
  have f: "frame_of ?p = [0, 0, 0, 3, 0, 1, 9]" by code_simp
  have "fits ?p" by (simp add: fits_def packet_size_def HeaderSize_def)
  moreover have "incomplete [0, 0, 0, 20, 0, 2, 5]"
    by (simp add: incomplete_def LengthSize_def HeaderSize_def un32_def)
  ultimately show ?thesis
    using partial_frame_corrupts [of ?p "[0, 0, 0, 20, 0, 2, 5]"] by (simp add: f FrameOverhead_def LengthSize_def HeaderSize_def)
qed

subsection \<open>The activation barrier\<close>

lemma write_plain:
  assumes "\<forall>p\<in>set ps. fits p" and "\<not> so_finished s" and "SecurityState (so_session s) \<noteq> SecurityReady"
    and "so_queue s = map WritePacket ps @ items"
  shows "write_turns (replicate (length ps) False @ turns) s =
    write_turns turns (s\<lparr>so_queue := items, so_wire := so_wire s @ map frame_of ps\<rparr>)"
  using assms
proof (induction ps arbitrary: s)
  case (Cons p ps)
  have "session_Seal b (so_session s) = (so_session s, Inr b)" for b
    using Cons.prems(3) by (auto simp: session_Seal_def SecurityState_def split: option.split)
  then have "write_turn False s = (s\<lparr>so_queue := map WritePacket ps @ items, so_wire := so_wire s @ [frame_of p]\<rparr>, True)"
    using Cons.prems by (simp add: write_turn_def handleWrite_def writePacket_def AppendFrame_fits)
  then show ?case
    using Cons.IH [of "s\<lparr>so_queue := map WritePacket ps @ items, so_wire := so_wire s @ [frame_of p]\<rparr>"] Cons.prems by simp
next
  case Nil
  then have "s\<lparr>so_queue := items, so_wire := so_wire s @ map frame_of []\<rparr> = s" by (cases s) simp
  then show ?case by (simp only: list.size replicate_0 append_Nil)
qed


lemma write_sealed:
  assumes "\<forall>p\<in>set ps. fits p" and "\<not> so_finished s"
    and "cs_security (so_session s) = Some (a, c)" and "ch_state c = SecurityReady" and "ch_outbound c = Some cipher"
    and "so_queue s = map WritePacket ps"
  shows "\<exists>sealed. so_wire (write_turns (replicate (length ps) False) s) = so_wire s @ sealed \<and>
    map length sealed = map (\<lambda>p. length (frame_of p)) ps \<and>
    concat sealed = fst (rc4_apply (concat (map frame_of ps)) cipher)"
  using assms
proof (induction ps arbitrary: s c cipher)
  case (Cons p ps)
  obtain b cipher' where b: "rc4_apply (frame_of p) cipher = (b, cipher')" by (metis surj_pair)
  let ?c = "c\<lparr>ch_outbound := Some cipher'\<rparr>"
  let ?s = "s\<lparr>so_queue := map WritePacket ps, so_session := (so_session s)\<lparr>cs_security := Some (a, ?c)\<rparr>, so_wire := so_wire s @ [b]\<rparr>"
  have "write_turn False s = (?s, True)"
    using Cons.prems b
    by (simp add: write_turn_def handleWrite_def writePacket_def AppendFrame_fits session_Seal_def channel_Seal_def)
  moreover obtain sealed where "so_wire (write_turns (replicate (length ps) False) ?s) = so_wire ?s @ sealed"
    "map length sealed = map (\<lambda>p. length (frame_of p)) ps" "concat sealed = fst (rc4_apply (concat (map frame_of ps)) cipher')"
    using Cons.IH [of ?s ?c cipher'] Cons.prems by auto
  moreover have "length b = length (frame_of p)" using b rc4_length [of "frame_of p" cipher] by simp
  ultimately show ?case
    by (intro exI [of _ "b # sealed"]) (simp add: rc4_apply_append b case_prod_beta)
qed simp

text \<open>With the direction to the client left in the clear, a ready channel passes frames on as they are.\<close>

lemma write_clear:
  assumes "\<forall>p\<in>set ps. fits p" and "\<not> so_finished s"
    and "cs_security (so_session s) = Some (a, c)" and "ch_state c = SecurityReady" and "ch_outbound c = None"
    and "so_queue s = map WritePacket ps"
  shows "so_wire (write_turns (replicate (length ps) False) s) = so_wire s @ map frame_of ps"
  using assms
proof (induction ps arbitrary: s)
  case (Cons p ps)
  let ?s = "s\<lparr>so_queue := map WritePacket ps, so_wire := so_wire s @ [frame_of p]\<rparr>"
  have "so_session s = (so_session s)\<lparr>cs_security := Some (a, c)\<rparr>" using Cons.prems(3) by simp
  then have "write_turn False s = (?s, True)"
    using Cons.prems by (simp add: write_turn_def handleWrite_def writePacket_def AppendFrame_fits session_Seal_def channel_Seal_def)
  then show ?case using Cons.IH [of ?s] Cons.prems by simp
qed simp

text \<open>A failing write ends the writer: what has left by then is a beginning of what would have left.\<close>

lemma write_turns_extend: "\<exists>rest. so_wire (write_turns turns s) = so_wire s @ rest"
proof (induction turns arbitrary: s)
  case (Cons failed turns)
  have "\<exists>rest. so_wire (fst (write_turn failed s)) = so_wire s @ rest"
    by (auto simp: write_turn_def handleWrite_def writePacket_def activateSecurity_def socket_finish_def socket_writeClose_def Let_def
        split: list.split write_item.split prod.split sum.split option.split)
  then show ?case using Cons.IH [of "fst (write_turn failed s)"] by (auto split: prod.split bool.split)
qed simp

lemma write_turns_idle: "so_queue s = [] \<Longrightarrow> write_turns turns s = s"
  by (induction turns) (simp_all add: write_turn_def)

lemma write_turns_cut:
  "\<exists>rest. so_wire (write_turns (replicate (length (so_queue s)) False) s) = so_wire (write_turns turns s) @ rest"
proof (induction turns arbitrary: s)
  case Nil
  then show ?case using write_turns_extend [of _ s] by simp
next
  case (Cons failed turns)
  show ?case
  proof (cases "so_finished s \<or> so_queue s = []")
    case True
    then show ?thesis by (cases "so_queue s") (auto simp: write_turn_def write_turns_idle)
  next
    case False
    then obtain item items where q: "so_queue s = item # items" by (cases "so_queue s") auto
    show ?thesis
    proof (cases "write_turn failed s = write_turn False s")
      case True
      obtain s' b where w: "write_turn False s = (s', b)" by force
      show ?thesis
      proof (cases b)
        case True
        with w have "so_queue s' = items" using False q
          by (auto simp: write_turn_def handleWrite_def writePacket_def activateSecurity_def
              split: write_item.splits prod.splits sum.splits option.splits)
        then show ?thesis using Cons.IH [of s'] True w \<open>write_turn failed s = write_turn False s\<close> by (simp add: q)
      qed (use w True in \<open>simp add: q\<close>)
    next
      case differs: False
      have "\<not> snd (write_turn failed s) \<and> so_wire (fst (write_turn failed s)) = so_wire s"
        using differs False q
        by (auto simp: write_turn_def handleWrite_def writePacket_def socket_finish_def
            split: write_item.splits prod.splits sum.splits option.splits if_splits)
      then have "so_wire (write_turns (failed # turns) s) = so_wire s" by (auto split: prod.split bool.split)
      then show ?thesis using write_turns_extend [of _ s] by metis
    qed
  qed
qed

text \<open>C26: Activation is a barrier in the outbound stream of a negotiated channel. What was queued before it leaves in
  plain frames, the completion packet included. When the direction to the client is encrypted, everything queued after it
  leaves sealed, one message for each packet, and the concatenation of these messages is the cipher's stream over
  the frames in their order; when that direction is left in the clear, it leaves in plain frames as well. This is what
  leaves as long as no write fails; the first failing write ends the writer, and then a beginning of this stream has left.\<close>

theorem activation_is_a_barrier:
  assumes "so_queue s = map WritePacket before @ WriteActivate a fresh # map WritePacket after"
    and "\<forall>p\<in>set before \<union> set after. fits p" and "\<not> so_finished s"
    and "cs_security (so_session s) = Some (a, c)" and "ch_state c = SecurityNegotiating"
    and "ch_inbound c = Some cipher'"
  shows "\<exists>later. so_wire (write_turns (replicate (length before + 1 + length after) False) s) =
      so_wire s @ map frame_of before @ later \<and>
    (case ch_outbound c of
       None \<Rightarrow> later = map frame_of after
     | Some cipher \<Rightarrow> map length later = map (\<lambda>p. length (frame_of p)) after \<and>
         concat later = fst (rc4_apply (concat (map frame_of after)) cipher)) \<and>
    (\<forall>turns. \<exists>rest. so_wire s @ map frame_of before @ later = so_wire (write_turns turns s) @ rest)"
proof -
  let ?s1 = "s\<lparr>so_queue := WriteActivate a fresh # map WritePacket after, so_wire := so_wire s @ map frame_of before\<rparr>"
  let ?c = "c\<lparr>ch_state := SecurityReady\<rparr>"
  let ?s2 = "?s1\<lparr>so_queue := map WritePacket after, so_session := (so_session s)\<lparr>cs_security := Some (a, ?c)\<rparr>\<rparr>"
  let ?full = "write_turns (replicate (length before + 1 + length after) False) s"
  have "?full = write_turns (replicate (length before) False @ replicate (1 + length after) False) s"
    by (simp only: add.assoc replicate_add)
  also have "\<dots> = write_turns (replicate (1 + length after) False) ?s1"
    using assms by (intro write_plain) (simp_all add: SecurityState_def)
  also have "\<dots> = write_turns (replicate (length after) False) ?s2"
    using assms by (simp add: write_turn_def handleWrite_def activateSecurity_def ActivateSecurity_def Activate_def Let_def)
  finally have run: "?full = write_turns (replicate (length after) False) ?s2" .
  have "\<exists>rest. so_wire ?full = so_wire (write_turns turns s) @ rest" for turns
    using write_turns_cut [of s turns] by (simp add: assms(1) add.assoc)
  moreover have "\<exists>later. so_wire ?full = so_wire s @ map frame_of before @ later \<and> (case ch_outbound c of
       None \<Rightarrow> later = map frame_of after
     | Some cipher \<Rightarrow> map length later = map (\<lambda>p. length (frame_of p)) after \<and>
         concat later = fst (rc4_apply (concat (map frame_of after)) cipher))"
  proof (cases "ch_outbound c")
    case None
    then show ?thesis unfolding run using assms write_clear [of after ?s2 a ?c] by simp
  next
    case (Some cipher)
    have "\<exists>sealed. so_wire (write_turns (replicate (length after) False) ?s2) = so_wire ?s2 @ sealed \<and>
        map length sealed = map (\<lambda>p. length (frame_of p)) after \<and> concat sealed = fst (rc4_apply (concat (map frame_of after)) cipher)"
      using assms Some by (intro write_sealed [of after ?s2 a ?c cipher]) simp_all
    then show ?thesis unfolding run by (simp add: Some)
  qed
  ultimately show ?thesis by metis
qed

text \<open>A negotiated channel, one packet before the activation and two after it.\<close>

definition plain_cipher :: rc4Cipher where
  "plain_cipher = \<lparr>rc_i = 0, rc_j = 0, rc_table = map word_of_nat [0..<256]\<rparr>"

definition negotiated :: channel where
  "negotiated = (newChannel sample_config sample_key)
     \<lparr>ch_state := SecurityNegotiating, ch_inbound := Some plain_cipher, ch_outbound := Some plain_cipher\<rparr>"

definition small_packet :: "u16 \<Rightarrow> packet" where "small_packet h = \<lparr>header = h, payload = []\<rparr>"

definition barrier_socket :: socket where
  "barrier_socket = \<lparr>so_session = (new_session ''c1'')\<lparr>cs_security := Some (3, negotiated)\<rparr>, so_QueueSize = 256,
     so_queue = map WritePacket [small_packet 7] @ WriteActivate 3 negotiated # map WritePacket [small_packet 8, small_packet 9],
     so_closed = False, so_finished = False, so_wire = [], so_closeFrame = None\<rparr>"

theorem activation_is_a_barrier_witness:
  "\<exists>sealed. so_wire (write_turns (replicate 4 False) barrier_socket) = frame_of (small_packet 7) # sealed \<and>
     map length sealed = [6, 6] \<and>
     concat sealed = fst (rc4_apply (frame_of (small_packet 8) @ frame_of (small_packet 9)) plain_cipher)"
proof -
  have out: "ch_outbound negotiated = Some plain_cipher" by (simp add: negotiated_def)
  have "\<exists>later. so_wire (write_turns (replicate (length [small_packet 7] + 1 + length [small_packet 8, small_packet 9]) False) barrier_socket) =
      so_wire barrier_socket @ map frame_of [small_packet 7] @ later \<and>
      (case ch_outbound negotiated of None \<Rightarrow> later = map frame_of [small_packet 8, small_packet 9]
       | Some cipher \<Rightarrow> map length later = map (\<lambda>p. length (frame_of p)) [small_packet 8, small_packet 9] \<and>
           concat later = fst (rc4_apply (concat (map frame_of [small_packet 8, small_packet 9])) cipher))"
  proof -
    have "so_queue barrier_socket = map WritePacket [small_packet 7] @ WriteActivate 3 negotiated # map WritePacket [small_packet 8, small_packet 9]"
      "\<forall>p \<in> set [small_packet 7] \<union> set [small_packet 8, small_packet 9]. fits p" "\<not> so_finished barrier_socket"
      "cs_security (so_session barrier_socket) = Some (3, negotiated)" "ch_state negotiated = SecurityNegotiating"
      "ch_inbound negotiated = Some plain_cipher"
      by (simp_all add: barrier_socket_def negotiated_def newChannel_def small_packet_def fits_def packet_size_def HeaderSize_def)
    from activation_is_a_barrier [OF this] show ?thesis by blast
  qed
  then show ?thesis unfolding out
    by (simp add: barrier_socket_def length_frame_of small_packet_def FrameOverhead_def LengthSize_def HeaderSize_def eval_nat_numeral)
qed

end
