(* ===== verification/Login.thy ===== *)
theory Login
  imports Websocket
begin

text \<open>
  How a connection becomes a player: one-time tickets (\<^verbatim>\<open>internal/auth/sso\<close>), the registry of live players
  (\<^verbatim>\<open>internal/realm/player/live\<close>), the bindings between players and connections
  (\<^verbatim>\<open>internal/realm/session/binding\<close>), the authentication handler (\<^verbatim>\<open>internal/realm/connection/handlers/security\<close>)
  and the end of a connection (\<^verbatim>\<open>Handlers.Disconnected\<close>, called by the websocket adapter). The goroutines of all
  connections interleave between any two critical sections; each has a program counter and the locals it needs.
\<close>

subsection \<open>Tickets\<close>

datatype login_error =
    ErrInvalidTicket | ErrTicketIPMismatch | ErrTicketNotFound | ErrPlayerNotFound | ErrPlayerIDInvalid
  | ErrInvalidPlayer | ErrInvalidPeer | ErrPlayerExists | ErrInvalidBinding | ErrBindingExists
  | ErrPlayerBanned | ErrBackend

record ticket_record =
  tk_PlayerID :: int
  tk_IP :: string

text \<open>\<^verbatim>\<open>strings.TrimSpace\<close> leaves nothing: the UTF-8 bytes are those of white space.\<close>

fun only_spaces :: "nat list \<Rightarrow> bool" where
  "only_spaces [] = True"
| "only_spaces (x # xs) = (if x \<in> {9, 10, 11, 12, 13, 32} then only_spaces xs
     else case xs of [] \<Rightarrow> False | y # ys \<Rightarrow>
       if x = 194 \<and> y \<in> {133, 160} then only_spaces ys
       else case ys of [] \<Rightarrow> False | z # zs \<Rightarrow>
         if [x, y, z] \<in> {[225, 154, 128], [226, 128, 168], [226, 128, 169], [226, 128, 175], [226, 129, 159], [227, 128, 128]}
            \<or> x = 226 \<and> y = 128 \<and> 128 \<le> z \<and> z \<le> 138
         then only_spaces zs else False)"

text \<open>\<open>key\<close> is the keyed digest of a ticket, \<open>drawn\<close> the random value, \<open>fault\<close> a failing Redis command.
  The lifetime is an argument of the command and shows as an expiry step of the store.\<close>

definition sso_Create ::
  "(string \<Rightarrow> string) \<Rightarrow> bool \<Rightarrow> string option \<Rightarrow> int \<Rightarrow> string \<Rightarrow> (string \<rightharpoonup> ticket_record) \<Rightarrow>
     (string \<rightharpoonup> ticket_record) \<times> (login_error + string)" where
  "sso_Create key fault drawn p ip m =
     (if p \<le> 0 then (m, Inl ErrInvalidTicket)
      else (case drawn of
          None \<Rightarrow> (m, Inl ErrBackend)
        | Some v \<Rightarrow> if fault then (m, Inl ErrBackend)
            else (m(key v \<mapsto> \<lparr>tk_PlayerID = p, tk_IP = ip\<rparr>), Inr v)))"

definition Consume ::
  "(string \<Rightarrow> string) \<Rightarrow> bool \<Rightarrow> string \<Rightarrow> string \<Rightarrow> (string \<rightharpoonup> ticket_record) \<Rightarrow>
     (string \<rightharpoonup> ticket_record) \<times> (login_error + ticket_record)" where
  "Consume key fault ticket ip m =
     (if only_spaces (map of_char ticket) then (m, Inl ErrInvalidTicket)
      else if fault then (m, Inl ErrBackend)
      else (case m (key ticket) of
          None \<Rightarrow> (m, Inl ErrTicketNotFound)
        | Some r \<Rightarrow> (m(key ticket := None),
            if tk_IP r \<noteq> [] \<and> tk_IP r \<noteq> ip then Inl ErrTicketIPMismatch else Inr r)))"

subsection \<open>Live players\<close>

record session_peer =
  sp_connectionID :: string
  sp_connectionKind :: string
  sp_authenticatedAt :: int

definition peer_Valid :: "session_peer \<Rightarrow> bool" where
  "peer_Valid p \<longleftrightarrow> sp_connectionID p \<noteq> [] \<and> sp_connectionKind p \<noteq> [] \<and> sp_authenticatedAt p \<noteq> 0"

definition NewSessionPeer :: "string \<Rightarrow> string \<Rightarrow> int \<Rightarrow> login_error + session_peer" where
  "NewSessionPeer i k at = (let p = \<lparr>sp_connectionID = i, sp_connectionKind = k, sp_authenticatedAt = at\<rparr>
     in if \<not> peer_Valid p then Inl ErrInvalidPeer else Inr p)"

text \<open>Of the snapshot of a player only the fields its validity depends on.\<close>

record player_row =
  pr_ID :: int
  pr_Username :: string

record live_player =
  lp_snapshot :: player_row
  lp_peer :: session_peer

definition snapshot_Valid :: "player_row \<Rightarrow> bool" where
  "snapshot_Valid r \<longleftrightarrow> pr_ID r > 0 \<and> pr_Username r \<noteq> []"

definition NewPlayer :: "player_row \<Rightarrow> session_peer \<Rightarrow> login_error + live_player" where
  "NewPlayer r p =
     (if \<not> snapshot_Valid r then Inl ErrInvalidPlayer
      else if \<not> peer_Valid p then Inl ErrInvalidPeer
      else Inr \<lparr>lp_snapshot = r, lp_peer = p\<rparr>)"

abbreviation player_ID :: "live_player \<Rightarrow> int" where "player_ID pl \<equiv> pr_ID (lp_snapshot pl)"

definition live_Add :: "live_player \<Rightarrow> (int \<rightharpoonup> live_player) \<Rightarrow> (int \<rightharpoonup> live_player) \<times> login_error option" where
  "live_Add pl m =
     (if player_ID pl \<le> 0 then (m, Some ErrInvalidPlayer)
      else if m (player_ID pl) \<noteq> None then (m, Some ErrPlayerExists)
      else (m(player_ID pl \<mapsto> pl), None))"

definition live_Find :: "int \<Rightarrow> (int \<rightharpoonup> live_player) \<Rightarrow> live_player option" where
  "live_Find p m = m p"

definition live_Remove :: "int \<Rightarrow> (int \<rightharpoonup> live_player) \<Rightarrow> (int \<rightharpoonup> live_player) \<times> live_player option" where
  "live_Remove p m = (case m p of None \<Rightarrow> (m, None) | Some pl \<Rightarrow> (m(p := None), Some pl))"

subsection \<open>Bindings\<close>

record binding =
  bd_PlayerID :: int
  bd_ConnectionID :: string
  bd_ConnectionKind :: string
  bd_BoundAt :: int

definition binding_Valid :: "binding \<Rightarrow> bool" where
  "binding_Valid b \<longleftrightarrow> bd_PlayerID b > 0 \<and> bd_ConnectionID b \<noteq> [] \<and> bd_ConnectionKind b \<noteq> []"

definition WithTime :: "int \<Rightarrow> binding \<Rightarrow> binding" where
  "WithTime now b = (if bd_BoundAt b = 0 then b\<lparr>bd_BoundAt := now\<rparr> else b)"

type_synonym connection_key = "string \<times> string"

record bindings =
  bg_byPlayer :: "int \<rightharpoonup> binding"
  bg_byConnection :: "connection_key \<rightharpoonup> int"

definition binding_key :: "binding \<Rightarrow> connection_key" where
  "binding_key b = (bd_ConnectionKind b, bd_ConnectionID b)"

definition no_bindings :: bindings where
  "no_bindings = \<lparr>bg_byPlayer = Map.empty, bg_byConnection = Map.empty\<rparr>"

definition binding_Add :: "int \<Rightarrow> binding \<Rightarrow> bindings \<Rightarrow> bindings \<times> login_error option" where
  "binding_Add now b g =
     (if \<not> binding_Valid b then (g, Some ErrInvalidBinding)
      else if bg_byPlayer g (bd_PlayerID b) \<noteq> None then (g, Some ErrBindingExists)
      else if bg_byConnection g (binding_key b) \<noteq> None then (g, Some ErrBindingExists)
      else (\<lparr>bg_byPlayer = (bg_byPlayer g)(bd_PlayerID b \<mapsto> WithTime now b),
             bg_byConnection = (bg_byConnection g)(binding_key b \<mapsto> bd_PlayerID b)\<rparr>, None))"

definition FindByPlayer :: "int \<Rightarrow> bindings \<Rightarrow> binding option" where
  "FindByPlayer p g = bg_byPlayer g p"

definition FindByConnection :: "connection_key \<Rightarrow> bindings \<Rightarrow> binding option" where
  "FindByConnection k g = (case bg_byConnection g k of None \<Rightarrow> None | Some p \<Rightarrow> bg_byPlayer g p)"

definition RemoveByPlayer :: "int \<Rightarrow> bindings \<Rightarrow> bindings \<times> binding option" where
  "RemoveByPlayer p g = (case bg_byPlayer g p of
     None \<Rightarrow> (g, None)
   | Some b \<Rightarrow> (\<lparr>bg_byPlayer = (bg_byPlayer g)(p := None),
                  bg_byConnection = (bg_byConnection g)(binding_key b := None)\<rparr>, Some b))"

text \<open>The zero binding of a missing player is a binding of player 0 in the code; the invariant excludes it.\<close>

definition zero_binding :: binding where
  "zero_binding = \<lparr>bd_PlayerID = 0, bd_ConnectionID = [], bd_ConnectionKind = [], bd_BoundAt = 0\<rparr>"

definition RemoveByConnection :: "connection_key \<Rightarrow> bindings \<Rightarrow> bindings \<times> binding option" where
  "RemoveByConnection k g = (case bg_byConnection g k of
     None \<Rightarrow> (g, None)
   | Some p \<Rightarrow> (\<lparr>bg_byPlayer = (bg_byPlayer g)(p := None), bg_byConnection = (bg_byConnection g)(k := None)\<rparr>,
       Some (case bg_byPlayer g p of None \<Rightarrow> zero_binding | Some b \<Rightarrow> b)))"

text \<open>The two maps are inverse to each other.\<close>

definition bindings_ok :: "bindings \<Rightarrow> bool" where
  "bindings_ok g \<longleftrightarrow>
     (\<forall>p b. bg_byPlayer g p = Some b \<longrightarrow> bd_PlayerID b = p \<and> bg_byConnection g (binding_key b) = Some p) \<and>
     (\<forall>k p. bg_byConnection g k = Some p \<longrightarrow> (\<exists>b. bg_byPlayer g p = Some b \<and> binding_key b = k))"

lemma WithTime_same [simp]:
  "bd_PlayerID (WithTime now b) = bd_PlayerID b" "binding_key (WithTime now b) = binding_key b"
  by (simp_all add: WithTime_def binding_key_def)

lemma no_bindings_ok [simp]: "bindings_ok no_bindings"
  by (simp add: bindings_ok_def no_bindings_def)

lemma bindings_okD:
  assumes "bindings_ok g"
  shows "bg_byPlayer g p = Some b \<Longrightarrow> bd_PlayerID b = p"
    and "bg_byPlayer g p = Some b \<Longrightarrow> bg_byConnection g (binding_key b) = Some p"
    and "bg_byConnection g k = Some p \<Longrightarrow> \<exists>b. bg_byPlayer g p = Some b \<and> binding_key b = k"
  using assms unfolding bindings_ok_def by blast+

lemma binding_Add_ok: assumes "bindings_ok g" shows "bindings_ok (fst (binding_Add now b g))"
proof -
  have "bindings_ok \<lparr>bg_byPlayer = (bg_byPlayer g)(bd_PlayerID b \<mapsto> WithTime now b),
      bg_byConnection = (bg_byConnection g)(binding_key b \<mapsto> bd_PlayerID b)\<rparr>"
    if new: "bg_byPlayer g (bd_PlayerID b) = None" "bg_byConnection g (binding_key b) = None"
  proof -
    have "binding_key c \<noteq> binding_key b" if "bg_byPlayer g p = Some c" for p c
      using bindings_okD(2) [OF assms that] new(2) by force
    moreover have "p \<noteq> bd_PlayerID b" if "bg_byConnection g k = Some p" for p k
      using bindings_okD(3) [OF assms that] new(1) by force
    ultimately show ?thesis
      using bindings_okD [OF assms] unfolding bindings_ok_def by (simp add: fun_upd_def)
  qed
  then show ?thesis using assms by (simp add: binding_Add_def)
qed

text \<open>Both removals delete one pair.\<close>

lemma bindings_delete_ok:
  assumes "bindings_ok g" "bg_byPlayer g p = Some b"
  shows "bindings_ok \<lparr>bg_byPlayer = (bg_byPlayer g)(p := None), bg_byConnection = (bg_byConnection g)(binding_key b := None)\<rparr>"
proof -
  have "binding_key c \<noteq> binding_key b" if "bg_byPlayer g q = Some c" "q \<noteq> p" for q c
    using bindings_okD(2) [OF assms(1) that(1)] bindings_okD(2) [OF assms] that(2) by force
  moreover have "q \<noteq> p" if "bg_byConnection g k = Some q" "k \<noteq> binding_key b" for q k
    using bindings_okD(3) [OF assms(1) that(1)] assms(2) that(2) by force
  ultimately show ?thesis
    using bindings_okD [OF assms(1)] unfolding bindings_ok_def by (simp add: fun_upd_def)
qed

lemma RemoveByPlayer_ok: "bindings_ok g \<Longrightarrow> bindings_ok (fst (RemoveByPlayer p g))"
  using bindings_delete_ok by (auto simp: RemoveByPlayer_def split: option.split)

lemma RemoveByConnection_ok: "bindings_ok g \<Longrightarrow> bindings_ok (fst (RemoveByConnection k g))"
  using bindings_delete_ok bindings_okD(3) by (fastforce simp: RemoveByConnection_def split: option.split)


subsection \<open>The server\<close>

text \<open>What \<open>authenticate\<close>, the read loop and the end of \<open>Handle\<close> have left to do. After a disconnect the goroutine
  goes on reading, leaves the read loop, or removes the connection.\<close>

datatype after = BackToReading | ToLeaving reason | ToRemoving

datatype progress =
    PAbsent | PReading | PReceived string | PAllowed string | PSecured string | PStarted string
  | PResolving int | PBanCheck player_row | PResolved player_row | PAuthenticated player_row int
  | PHosting live_player | PHosted live_player | PEvicting int login_error | PBooting int
  | PRejecting login_error | PDisconnecting reason after | PClosing after
  | PRemoving | PUnbinding | PUnhosting int | PGone

record server =
  sv_tickets :: "string \<rightharpoonup> ticket_record"
  sv_live :: "int \<rightharpoonup> live_player"
  sv_bindings :: bindings
  sv_registry :: "nat conn_registry"
  sv_sessions :: "nat \<rightharpoonup> conn_session"
  sv_pc :: "nat \<Rightarrow> progress"

definition empty_server :: server where
  "empty_server = \<lparr>sv_tickets = Map.empty, sv_live = Map.empty, sv_bindings = no_bindings, sv_registry = [],
     sv_sessions = Map.empty, sv_pc = (\<lambda>_. PAbsent)\<rparr>"

text \<open>The configuration and the code outside: \<open>le_key\<close> digests tickets, \<open>le_uuid n\<close> is the n-th identifier
  drawn, \<open>le_msg\<close> and \<open>le_text\<close> are the texts of errors; the gate, settings and respects are optional.\<close>

record login_env =
  le_key :: "string \<Rightarrow> string"
  le_uuid :: "nat \<Rightarrow> string"
  le_msg :: "conn_error \<Rightarrow> string"
  le_text :: "login_error \<Rightarrow> string"
  le_policy :: "security_mode option"
  le_sanctions :: bool
  le_settings :: bool
  le_respects :: bool

text \<open>What one step gets from outside: a failing call, the time, the row of the player and a ban.\<close>

record outcome =
  oc_fault :: bool
  oc_now :: int
  oc_username :: "string option"
  oc_banned :: bool

definition websocket_kind :: string where "websocket_kind = ''websocket''"

definition ticket_policy :: handler_policy where
  "ticket_policy = NewHandlerPolicy [AllowStates [StateHandshaking], AllowUnauthenticated]"

text \<open>\<open>newSocketSession\<close>: goroutine \<open>g\<close> starts only when the session is registered.\<close>

definition newSocketSession :: "login_env \<Rightarrow> int \<Rightarrow> string \<Rightarrow> nat \<Rightarrow> server \<Rightarrow> server" where
  "newSocketSession env now ip g v =
     (if sv_pc v g \<noteq> PAbsent then v
      else (case NewSession now \<lparr>sc_ID = le_uuid env g, sc_Kind = websocket_kind, sc_StartedAt = 0, sc_RemoteAddr = ip,
              sc_SecurityPolicy = le_policy env, sc_hasSender = True, sc_hasDisposer = True\<rparr> of
          Inl e \<Rightarrow> v
        | Inr s \<Rightarrow> (case conn_Register (cs_kind s) (cs_id s) g (sv_registry v) of
              (r, Some e) \<Rightarrow> v
            | (r, None) \<Rightarrow> v\<lparr>sv_registry := r, sv_sessions := (sv_sessions v)(g \<mapsto> s),
                             sv_pc := (sv_pc v)(g := PReading)\<rparr>)))"

definition go :: "nat \<Rightarrow> progress \<Rightarrow> server \<Rightarrow> server" where
  "go g pc v = v\<lparr>sv_pc := (sv_pc v)(g := pc)\<rparr>"

definition put_conn :: "nat \<Rightarrow> conn_session \<Rightarrow> server \<Rightarrow> server" where
  "put_conn g s v = v\<lparr>sv_sessions := (sv_sessions v)(g \<mapsto> s)\<rparr>"

text \<open>A handler that returns an error ends the read loop with the reason of \<open>dispatch\<close>.\<close>

definition leaving :: "login_env \<Rightarrow> conn_error \<Rightarrow> progress" where
  "leaving env e = (case dispatch_reason (le_msg env) (Some e) of
     None \<Rightarrow> PReading | Some r \<Rightarrow> PDisconnecting r ToRemoving)"

definition security_reason :: "login_env \<Rightarrow> reason" where
  "security_reason env = \<lparr>rs_Code = DisconnectProtocolError, rs_Message = le_msg env ErrSecurityRequired\<rparr>"

text \<open>The connection receives a ticket packet that decodes.\<close>

definition receive_ticket :: "login_env \<Rightarrow> int \<Rightarrow> nat \<Rightarrow> string \<Rightarrow> server \<Rightarrow> server" where
  "receive_ticket env now g ticket v = (case sv_sessions v g of
     None \<Rightarrow> v
   | Some s \<Rightarrow> if sv_pc v g \<noteq> PReading then v
       else (case markTraffic (Some EventPacketReceived) s of
           (s', Some e) \<Rightarrow> go g (leaving env e) (put_conn g s' v)
         | (s', None) \<Rightarrow> go g (PReceived ticket) (put_conn g (markActivity now now s') v)))"

text \<open>The first part of \<open>Bind\<close>: the peer, the player, its settings and respects.\<close>

definition host_player :: "login_env \<Rightarrow> outcome \<Rightarrow> conn_session \<Rightarrow> player_row \<Rightarrow> int \<Rightarrow> login_error + live_player" where
  "host_player env oc s r at = (case NewSessionPeer (cs_id s) (cs_kind s) at of
     Inl e \<Rightarrow> Inl e
   | Inr peer \<Rightarrow> (case NewPlayer r peer of
         Inl e \<Rightarrow> Inl e
       | Inr pl \<Rightarrow> if (le_settings env \<or> le_respects env) \<and> oc_fault oc then Inl ErrBackend else Inr pl))"

definition binding_of :: "live_player \<Rightarrow> conn_session \<Rightarrow> binding" where
  "binding_of pl s = \<lparr>bd_PlayerID = player_ID pl, bd_ConnectionID = cs_id s, bd_ConnectionKind = cs_kind s,
     bd_BoundAt = sp_authenticatedAt (lp_peer pl)\<rparr>"

text \<open>\<open>Disconnect\<close> called by the goroutine itself, and what follows the read loop in \<open>Handle\<close>.\<close>

definition after_refused :: "login_env \<Rightarrow> after \<Rightarrow> progress" where
  "after_refused env k = (case k of
     BackToReading \<Rightarrow> leaving env ErrDisposed | ToLeaving r \<Rightarrow> PDisconnecting r ToRemoving | ToRemoving \<Rightarrow> PRemoving)"

definition after_closed :: "after \<Rightarrow> progress" where
  "after_closed k = (case k of
     BackToReading \<Rightarrow> PReading | ToLeaving r \<Rightarrow> PDisconnecting r ToRemoving | ToRemoving \<Rightarrow> PRemoving)"

definition conclude :: "login_env \<Rightarrow> nat \<Rightarrow> conn_session \<Rightarrow> server \<Rightarrow> server" where
  "conclude env g s v = (case sv_pc v g of
     PDisconnecting r k \<Rightarrow> (case start_disconnect r s of
         (s', Some e) \<Rightarrow> go g (after_refused env k) (put_conn g s' v)
       | (s', None) \<Rightarrow> go g (PClosing k) (put_conn g s' v))
   | PClosing k \<Rightarrow> go g (after_closed k) (put_conn g (finish_disconnect s) v)
   | PRemoving \<Rightarrow> go g PUnbinding (v\<lparr>sv_registry := fst (conn_Remove (cs_kind s) (cs_id s) (sv_registry v))\<rparr>)
   | PUnbinding \<Rightarrow> (case RemoveByConnection (cs_kind s, cs_id s) (sv_bindings v) of
         (b, None) \<Rightarrow> go g PGone v
       | (b, Some bd) \<Rightarrow> go g (PUnhosting (bd_PlayerID bd)) (v\<lparr>sv_bindings := b\<rparr>))
   | PUnhosting p \<Rightarrow> go g PGone (v\<lparr>sv_live := fst (live_Remove p (sv_live v))\<rparr>)
   | _ \<Rightarrow> v)"

text \<open>The calls of \<open>authenticate\<close>, each a function of what it has left to do. \<open>Resolve\<close> takes the ticket, loads the
  player and asks the gate; \<open>Bind\<close> makes the player live, then binds it.\<close>

definition ValidateAuthenticationSecurity :: "login_env \<Rightarrow> nat \<Rightarrow> conn_session \<Rightarrow> string \<Rightarrow> server \<Rightarrow> server" where
  "ValidateAuthenticationSecurity env g s ticket v =
     (if cs_policy s \<noteq> SecurityRequired \<or> SecurityState s = SecurityReady then go g (PSecured ticket) v
      else go g (PDisconnecting (security_reason env) (ToLeaving (security_reason env)))
             (put_conn g (fst (session_Transition EventProtocolFailed s)) v))"

definition Resolve :: "login_env \<Rightarrow> outcome \<Rightarrow> nat \<Rightarrow> conn_session \<Rightarrow> server \<Rightarrow> server" where
  "Resolve env oc g s v = (case sv_pc v g of
     PStarted ticket \<Rightarrow> (case Consume (le_key env) (oc_fault oc) ticket (cs_remoteAddr s) (sv_tickets v) of
         (m, Inl e) \<Rightarrow> go g (PRejecting e) (v\<lparr>sv_tickets := m\<rparr>)
       | (m, Inr r) \<Rightarrow> go g (PResolving (tk_PlayerID r)) (v\<lparr>sv_tickets := m\<rparr>))
   | PResolving p \<Rightarrow>
       if p \<le> 0 then go g (PRejecting ErrPlayerIDInvalid) v
       else if oc_fault oc then go g (PRejecting ErrBackend) v
       else (case oc_username oc of
           None \<Rightarrow> go g (PRejecting ErrPlayerNotFound) v
         | Some name \<Rightarrow> go g (PBanCheck \<lparr>pr_ID = p, pr_Username = name\<rparr>) v)
   | PBanCheck r \<Rightarrow>
       if \<not> le_sanctions env then go g (PResolved r) v
       else if oc_fault oc then go g (PRejecting ErrBackend) v
       else if oc_banned oc then go g (PRejecting ErrPlayerBanned) v
       else go g (PResolved r) v
   | _ \<Rightarrow> v)"

definition Bind :: "login_env \<Rightarrow> outcome \<Rightarrow> nat \<Rightarrow> conn_session \<Rightarrow> server \<Rightarrow> server" where
  "Bind env oc g s v = (case sv_pc v g of
     PAuthenticated r at \<Rightarrow> (case host_player env oc s r at of
         Inl e \<Rightarrow> go g (PRejecting e) v
       | Inr pl \<Rightarrow> go g (PHosting pl) v)
   | PHosting pl \<Rightarrow> (case live_Add pl (sv_live v) of
         (m, Some e) \<Rightarrow> go g (PRejecting e) (v\<lparr>sv_live := m\<rparr>)
       | (m, None) \<Rightarrow> go g (PHosted pl) (v\<lparr>sv_live := m\<rparr>))
   | PHosted pl \<Rightarrow> (case binding_Add (oc_now oc) (binding_of pl s) (sv_bindings v) of
         (b, Some e) \<Rightarrow> go g (PEvicting (player_ID pl) e) (v\<lparr>sv_bindings := b\<rparr>)
       | (b, None) \<Rightarrow> go g (PBooting (player_ID pl)) (v\<lparr>sv_bindings := b\<rparr>))
   | PEvicting p e \<Rightarrow> go g (PRejecting e) (v\<lparr>sv_live := fst (live_Remove p (sv_live v))\<rparr>)
   | _ \<Rightarrow> v)"

definition sendBootstrap :: "login_env \<Rightarrow> outcome \<Rightarrow> nat \<Rightarrow> conn_session \<Rightarrow> int \<Rightarrow> server \<Rightarrow> server" where
  "sendBootstrap env oc g s p v =
     (if live_Find p (sv_live v) = None then go g (leaving env (ErrApplication (le_text env ErrPlayerNotFound))) v
      else if oc_fault oc then go g (leaving env ErrQueueFull) v
      else (case session_Transition EventSessionReady s of
          (s', Some e) \<Rightarrow> go g (leaving env e) (put_conn g s' v)
        | (s', None) \<Rightarrow> go g PReading (put_conn g s' v)))"

text \<open>\<open>authenticate\<close>, section by section, while the goroutine is in the ticket handler; otherwise
  the connection is being concluded.\<close>

definition authenticate :: "login_env \<Rightarrow> outcome \<Rightarrow> nat \<Rightarrow> conn_session \<Rightarrow> server \<Rightarrow> server" where
  "authenticate env oc g s v = (case sv_pc v g of
     PReceived ticket \<Rightarrow>
       if cs_disconnected s then go g (leaving env ErrDisposed) v
       else if policy_Allows ticket_policy (contextLocked s) then go g (PAllowed ticket) v
       else go g (leaving env ErrHandlerPolicy) v
   | PAllowed ticket \<Rightarrow> ValidateAuthenticationSecurity env g s ticket v
   | PSecured ticket \<Rightarrow> (case session_Transition EventAuthenticationStarted s of
         (s', Some e) \<Rightarrow> go g (leaving env e) (put_conn g s' v)
       | (s', None) \<Rightarrow> go g (PStarted ticket) (put_conn g s' v))
   | PStarted ticket \<Rightarrow> Resolve env oc g s v
   | PResolving p \<Rightarrow> Resolve env oc g s v
   | PBanCheck r \<Rightarrow> Resolve env oc g s v
   | PResolved r \<Rightarrow> (case session_Authenticate (oc_now oc) (oc_now oc) s of
         (s', Some e) \<Rightarrow> go g (leaving env e) (put_conn g s' v)
       | (s', None) \<Rightarrow> go g (PAuthenticated r (oc_now oc)) (put_conn g s' v))
   | PAuthenticated r at \<Rightarrow> Bind env oc g s v
   | PHosting pl \<Rightarrow> Bind env oc g s v
   | PHosted pl \<Rightarrow> Bind env oc g s v
   | PEvicting p e \<Rightarrow> Bind env oc g s v
   | PBooting p \<Rightarrow> sendBootstrap env oc g s p v
   | PRejecting e \<Rightarrow> go g (PDisconnecting \<lparr>rs_Code = DisconnectAuthenticationFailed, rs_Message = le_text env e\<rparr> BackToReading)
        (put_conn g (fst (session_Transition EventAuthenticationRejected s)) v)
   | _ \<Rightarrow> conclude env g s v)"

lemmas authenticate_defs = authenticate_def ValidateAuthenticationSecurity_def Resolve_def Bind_def sendBootstrap_def

text \<open>The steps: tickets are created and expire, connections arrive, other goroutines and other packets work on a
  session, and the goroutine of a connection advances. \<open>LHangup\<close> ends a read loop, for whatever reason.\<close>

datatype login_op =
    LCreate bool "string option" int string | LExpire string | LAccept int string nat
  | LOther nat session_op | LTicket int nat string | LHangup nat reason | LAdvance nat outcome

definition is_authenticate :: "session_op \<Rightarrow> bool" where
  "is_authenticate op = (case op of SAuthenticate _ _ \<Rightarrow> True | _ \<Rightarrow> False)"

definition login_step :: "login_env \<Rightarrow> login_op \<Rightarrow> server \<Rightarrow> server" where
  "login_step env op v = (case op of
     LCreate fault drawn p ip \<Rightarrow> v\<lparr>sv_tickets := fst (sso_Create (le_key env) fault drawn p ip (sv_tickets v))\<rparr>
   | LExpire k \<Rightarrow> v\<lparr>sv_tickets := (sv_tickets v)(k := None)\<rparr>
   | LAccept now ip g \<Rightarrow> newSocketSession env now ip g v
   | LOther g sop \<Rightarrow> (case sv_sessions v g of
         None \<Rightarrow> v | Some s \<Rightarrow> if is_authenticate sop then v else put_conn g (session_step sop s) v)
   | LTicket now g ticket \<Rightarrow> receive_ticket env now g ticket v
   | LHangup g r \<Rightarrow> if sv_pc v g = PReading then go g (PDisconnecting r ToRemoving) v else v
   | LAdvance g oc \<Rightarrow> (case sv_sessions v g of None \<Rightarrow> v | Some s \<Rightarrow> authenticate env oc g s v))"

subsection \<open>The invariant\<close>

definition secured :: "conn_session \<Rightarrow> bool" where
  "secured s \<longleftrightarrow> (\<exists>a c. cs_security s = Some (a, c) \<and> ch_state c \<in> {SecurityReady, SecurityFailed})"

fun admitting :: "progress \<Rightarrow> bool" where
  "admitting (PAllowed _) = True"
| "admitting (PSecured _) = True"
| "admitting (PStarted _) = True"
| "admitting (PResolving _) = True"
| "admitting (PBanCheck _) = True"
| "admitting (PResolved _) = True"
| "admitting _ = False"

fun admitted :: "progress \<Rightarrow> bool" where
  "admitted (PAuthenticated _ _) = True"
| "admitted (PHosting _) = True"
| "admitted (PHosted _) = True"
| "admitted (PEvicting _ _) = True"
| "admitted _ = False"

fun hosting :: "progress \<Rightarrow> int option" where
  "hosting (PHosted pl) = Some (player_ID pl)"
| "hosting (PEvicting p _) = Some p"
| "hosting (PUnhosting p) = Some p"
| "hosting _ = None"

fun over :: "progress \<Rightarrow> bool" where
  "over (PUnhosting _) = True"
| "over PGone = True"
| "over _ = False"

definition listed :: "progress \<Rightarrow> bool" where
  "listed pc \<longleftrightarrow> pc \<noteq> PAbsent \<and> pc \<noteq> PUnbinding \<and> \<not> over pc"

text \<open>What holds of one goroutine, its session and the player its connection is bound to.\<close>

definition conn_ok :: "login_env \<Rightarrow> nat \<Rightarrow> progress \<Rightarrow> conn_session \<Rightarrow> int option \<Rightarrow> bool" where
  "conn_ok env g pc s bound \<longleftrightarrow>
     cs_id s = le_uuid env g \<and> cs_kind s = websocket_kind \<and> session_ok s \<and> pc \<noteq> PAbsent \<and>
     (admitting pc \<longrightarrow> \<not> cs_authenticated s) \<and>
     (admitting pc \<or> (\<exists>t. pc = PReceived t) \<or> cs_authenticated s \<longrightarrow> cs_trafficStarted s) \<and>
     (admitted pc \<longrightarrow> cs_authenticated s) \<and>
     (admitted pc \<or> over pc \<longrightarrow> bound = None) \<and>
     (bound \<noteq> None \<longrightarrow> cs_authenticated s) \<and>
     (\<forall>p. pc = PBooting p \<longrightarrow> bound = Some p) \<and>
     (\<forall>pl. pc = PHosting pl \<or> pc = PHosted pl \<longrightarrow> player_ID pl > 0) \<and>
     (cs_policy s = SecurityRequired \<and> (cs_authenticated s \<or> admitting pc \<and> (\<nexists>t. pc = PAllowed t)) \<longrightarrow> secured s)"

abbreviation bound_player :: "login_env \<Rightarrow> server \<Rightarrow> nat \<Rightarrow> int option" where
  "bound_player env v g \<equiv> bg_byConnection (sv_bindings v) (websocket_kind, le_uuid env g)"

definition login_inv :: "login_env \<Rightarrow> server \<Rightarrow> bool" where
  "login_inv env v \<longleftrightarrow>
     (\<forall>g s. sv_sessions v g = Some s \<longrightarrow> conn_ok env g (sv_pc v g) s (bound_player env v g)) \<and>
     (\<forall>g. sv_sessions v g = None \<longrightarrow> sv_pc v g = PAbsent \<and> bound_player env v g = None) \<and>
     bindings_ok (sv_bindings v) \<and>
     (\<forall>k. bg_byConnection (sv_bindings v) k \<noteq> None \<longrightarrow> (\<exists>g. k = (websocket_kind, le_uuid env g))) \<and>
     (\<forall>p. sv_live v p \<noteq> None \<longleftrightarrow> bg_byPlayer (sv_bindings v) p \<noteq> None \<or> (\<exists>g. hosting (sv_pc v g) = Some p)) \<and>
     (\<forall>g p. hosting (sv_pc v g) = Some p \<longrightarrow> bg_byPlayer (sv_bindings v) p = None \<and>
        (\<forall>h. hosting (sv_pc v h) = Some p \<longrightarrow> h = g)) \<and>
     (\<forall>g. conn_Get websocket_kind (le_uuid env g) (sv_registry v) = (if listed (sv_pc v g) then Some g else None))"

lemmas login_views = listed_def

lemma login_inv_tickets [simp]: "login_inv env (v\<lparr>sv_tickets := m\<rparr>) = login_inv env v"
  by (simp add: login_inv_def)

lemma empty_server_inv: "login_inv env empty_server"
  by (auto simp: login_inv_def empty_server_def no_bindings_def bindings_ok_def login_views conn_Get_def bucket_def)

text \<open>A step of one goroutine that leaves the bindings, the live players and the registry alone.\<close>

lemma quiet_step:
  assumes "login_inv env v" "sv_sessions v g = Some s"
    and "conn_ok env g pc s' (bound_player env v g)"
    and "hosting pc = hosting (sv_pc v g)" "listed pc = listed (sv_pc v g)"
  shows "login_inv env (go g pc (put_conn g s' v))"
proof -
  have "hosting (((sv_pc v)(g := pc)) h) = hosting (sv_pc v h)" "listed (((sv_pc v)(g := pc)) h) = listed (sv_pc v h)" for h
    using assms(4,5) by simp_all
  with assms(1-3) show ?thesis
    unfolding login_inv_def go_def put_conn_def by (simp add: fun_upd_def)
qed

lemma quiet_go:
  assumes "login_inv env v" "sv_sessions v g = Some s" "conn_ok env g pc s (bound_player env v g)"
    and "hosting pc = hosting (sv_pc v g)" "listed pc = listed (sv_pc v g)"
  shows "login_inv env (go g pc v)"
proof -
  have "put_conn g s v = v" using assms(2) by (simp add: put_conn_def fun_upd_idem)
  then show ?thesis using quiet_step [OF assms] by simp
qed

lemma login_invD:
  assumes "login_inv env v"
  shows "sv_sessions v g = Some s \<Longrightarrow> conn_ok env g (sv_pc v g) s (bound_player env v g)"
    and "bindings_ok (sv_bindings v)"
    and "hosting (sv_pc v g) = Some p \<Longrightarrow> bg_byPlayer (sv_bindings v) p = None"
    and "hosting (sv_pc v g) = Some p \<Longrightarrow> hosting (sv_pc v h) = Some p \<Longrightarrow> h = g"
    and "sv_live v p \<noteq> None \<longleftrightarrow> bg_byPlayer (sv_bindings v) p \<noteq> None \<or> (\<exists>g. hosting (sv_pc v g) = Some p)"
    and "sv_sessions v g = None \<Longrightarrow> sv_pc v g = PAbsent \<and> bound_player env v g = None"
    and "conn_Get websocket_kind (le_uuid env g) (sv_registry v) = (if listed (sv_pc v g) then Some g else None)"
  using assms unfolding login_inv_def by blast+

lemma login_invD4: "login_inv env v \<Longrightarrow> bg_byConnection (sv_bindings v) k = Some p \<Longrightarrow> \<exists>g. k = (websocket_kind, le_uuid env g)"
  unfolding login_inv_def by blast

lemma login_invI:
  assumes "\<And>h s. sv_sessions v h = Some s \<Longrightarrow> conn_ok env h (sv_pc v h) s (bound_player env v h)"
    and "\<And>h. sv_sessions v h = None \<Longrightarrow> sv_pc v h = PAbsent \<and> bound_player env v h = None"
    and "bindings_ok (sv_bindings v)"
    and "\<And>k p. bg_byConnection (sv_bindings v) k = Some p \<Longrightarrow> \<exists>h. k = (websocket_kind, le_uuid env h)"
    and "\<And>p. sv_live v p \<noteq> None \<longleftrightarrow> bg_byPlayer (sv_bindings v) p \<noteq> None \<or> (\<exists>h. hosting (sv_pc v h) = Some p)"
    and "\<And>h p. hosting (sv_pc v h) = Some p \<Longrightarrow> bg_byPlayer (sv_bindings v) p = None"
    and "\<And>h h' p. hosting (sv_pc v h) = Some p \<Longrightarrow> hosting (sv_pc v h') = Some p \<Longrightarrow> h' = h"
    and "\<And>h. conn_Get websocket_kind (le_uuid env h) (sv_registry v) = (if listed (sv_pc v h) then Some h else None)"
  shows "login_inv env v"
  using assms unfolding login_inv_def by (intro conjI allI impI) (blast | simp)+

lemma hosting_moved:
  assumes "hosting (f g) \<noteq> Some p"
  shows "(\<exists>h. hosting ((f(g := pc)) h) = Some p) \<longleftrightarrow> hosting pc = Some p \<or> (\<exists>h. hosting (f h) = Some p)"
  using assms by (metis fun_upd_apply)

subsection \<open>What the operations of a session keep\<close>

lemma channel_keeps_secured:
  assumes "ch_state c \<in> {SecurityReady, SecurityFailed}"
  shows "ch_state (fst (Complete cancelled encrypted c)) \<in> {SecurityReady, SecurityFailed}"
    "ch_state (fst (Activate c)) \<in> {SecurityReady, SecurityFailed}"
    "ch_state (fst (channel_Open b c)) \<in> {SecurityReady, SecurityFailed}"
    "ch_state (fst (channel_Seal b c)) \<in> {SecurityReady, SecurityFailed}"
    "ch_state (channel_Close c) \<in> {SecurityReady, SecurityFailed}"
  using assms
  by (auto simp: Complete_def Activate_def channel_Open_def channel_Seal_def channel_Close_def split: option.split prod.split)

lemma secured_same: "cs_security s' = cs_security s \<Longrightarrow> secured s' = secured s"
  by (simp add: secured_def)

lemma secured_update: "secured s \<Longrightarrow> cs_security s = Some (a, c) \<Longrightarrow> ch_state c' \<in> {SecurityReady, SecurityFailed} \<Longrightarrow>
    secured (s\<lparr>cs_security := Some (a, c')\<rparr>)"
  by (simp add: secured_def)

lemma secured_step:
  assumes "secured s" shows "secured (session_step op s)"
proof -
  obtain a c where c: "cs_security s = Some (a, c)" "ch_state c \<in> {SecurityReady, SecurityFailed}"
    using assms by (auto simp: secured_def)
  note keeps = channel_keeps_secured [OF c(2)]
  show ?thesis
  proof (cases op)
    case (SBegin draws ref)
    then show ?thesis
      using assms c(1) by (auto simp: session_step_def BeginSecurity_def AttachSecurity_def split: prod.split sum.split)
  next
    case (SComplete cancelled encrypted)
    then show ?thesis
      using keeps(1) [of cancelled encrypted] c
      by (auto simp: session_step_def complete_channel_def secured_def split: prod.splits sum.splits)
  next
    case (SActivate b fresh)
    then show ?thesis
      using keeps(2) c by (auto simp: session_step_def ActivateSecurity_def Let_def secured_def split: prod.splits sum.splits)
  next
    case (SOpen b)
    then show ?thesis
      using keeps(3) [of b] c by (auto simp: session_step_def session_Open_def secured_def split: prod.splits sum.splits)
  next
    case (SSeal b)
    then show ?thesis
      using keeps(4) [of b] c by (auto simp: session_step_def session_Seal_def secured_def split: prod.splits sum.splits)
  next
    case SDisposed
    then show ?thesis
      using keeps(5) c by (auto simp: session_step_def finish_disconnect_def close_security_def secured_def)
  qed (use c in \<open>auto simp: session_defs secured_def Let_def split: option.splits\<close>)
qed

lemma others_never_authenticate:
  assumes "\<not> is_authenticate op" shows "cs_authenticated (session_step op s) = cs_authenticated s"
proof (cases op)
  case (SBegin draws c)
  then show ?thesis using security_ops(1) [of s draws c] by (auto simp: session_step_def only_security_def)
next
  case (SComplete cancelled encrypted)
  then show ?thesis using security_ops(2) [of s cancelled encrypted] by (auto simp: session_step_def only_security_def)
next
  case (SActivate b fresh)
  then show ?thesis using security_ops(3) [of s b fresh] by (auto simp: session_step_def only_security_def)
next
  case (SOpen b)
  then show ?thesis using security_ops(4) [of s b] by (auto simp: session_step_def only_security_def)
next
  case (SSeal b)
  then show ?thesis using security_ops(5) [of s b] by (auto simp: session_step_def only_security_def)
qed (use assms in \<open>auto simp: session_defs is_authenticate_def Let_def split: option.splits\<close>)

text \<open>An operation that does not authenticate keeps what is known of a goroutine.\<close>

definition carries_on :: "conn_session \<Rightarrow> conn_session \<Rightarrow> bool" where
  "carries_on s s' \<longleftrightarrow> (session_ok s \<longrightarrow> session_ok s') \<and> follows s s' \<and> cs_authenticated s' = cs_authenticated s \<and>
     (secured s \<longrightarrow> secured s')"

lemma carries_on_step: "session_ok s \<Longrightarrow> \<not> is_authenticate op \<Longrightarrow> carries_on s (session_step op s)"
  using session_step_ok secured_step others_never_authenticate by (auto simp: carries_on_def)

lemma carries_on_refl [simp]: "carries_on s s"
  by (simp add: carries_on_def follows_refl)

lemma carries_on_trans: "carries_on s s' \<Longrightarrow> carries_on s' s'' \<Longrightarrow> carries_on s s''"
  using follows_trans by (auto simp: carries_on_def)

lemma conn_ok_carries:
  assumes "conn_ok env g pc s bound" "carries_on s s'"
  shows "conn_ok env g pc s' bound"
proof -
  have same: "cs_id s' = cs_id s" "cs_kind s' = cs_kind s" "session_ok s'" "cs_authenticated s' = cs_authenticated s"
    using assms by (simp_all add: conn_ok_def carries_on_def follows_def)
  moreover have "cs_trafficStarted s \<Longrightarrow> cs_trafficStarted s' \<and> cs_policy s' = cs_policy s" "secured s \<Longrightarrow> secured s'"
    using assms(2) by (simp_all add: carries_on_def follows_def)
  ultimately show ?thesis using assms(1) unfolding conn_ok_def by metis
qed

lemma conn_session_ok: "conn_ok env g pc s bound \<Longrightarrow> session_ok s"
  by (simp add: conn_ok_def)

subsection \<open>Every step keeps the invariant\<close>

lemma leaving_cases: "\<exists>r. leaving env e = PDisconnecting r ToRemoving"
  by (cases e) (auto simp: leaving_def dispatch_reason_def)

lemma leaving_views [simp]:
  "\<not> admitting (leaving env e)" "\<not> admitted (leaving env e)" "\<not> over (leaving env e)" "listed (leaving env e)"
  "hosting (leaving env e) = None" "leaving env e \<noteq> PAbsent" "leaving env e \<noteq> PBooting p"
  "leaving env e \<noteq> PReceived t" "leaving env e \<noteq> PHosting pl" "leaving env e \<noteq> PHosted pl" "leaving env e \<noteq> PUnbinding"
  using leaving_cases [of env e] by (auto simp: login_views)

lemma carries_ops:
  assumes "session_ok s"
  shows "carries_on s (fst (session_Transition e s))" "carries_on s (fst (markTraffic ev s))"
    "carries_on s (markActivity now at s)" "carries_on s (fst (start_disconnect r s))"
    "carries_on s (finish_disconnect s)"
proof -
  have finish: "carries_on s (finish_disconnect s)"
    using assms by (auto simp: carries_on_def session_ok_def follows_def secured_def finish_disconnect_def close_security_def channel_Close_def)
  show "carries_on s (fst (session_Transition e s))" "carries_on s (fst (markTraffic ev s))"
    "carries_on s (markActivity now at s)" "carries_on s (fst (start_disconnect r s))" "carries_on s (finish_disconnect s)"
  using carries_on_step [OF assms, of "STransition e"] carries_on_step [OF assms, of "STraffic ev"]
    carries_on_step [OF assms, of "SActivity now at"] carries_on_step [OF assms, of "SDispose r"]
    finish
  by (simp_all add: session_step_def is_authenticate_def)
qed

lemma ticket_only_early:
  assumes "policy_Allows ticket_policy (contextLocked s)" "session_ok s"
  shows "\<not> cs_authenticated s"
  using assms
  by (auto simp: policy_Allows_def ticket_policy_def NewHandlerPolicy_def AllowStates_def AllowUnauthenticated_def
      contextLocked_def session_ok_def split: if_splits)

lemma conn_plain:
  assumes "conn_ok env g pc0 s bound" "\<not> admitting pc" "\<not> admitted pc" "\<not> over pc" "pc \<noteq> PAbsent"
    "\<And>t. pc = PReceived t \<Longrightarrow> cs_trafficStarted s" "\<And>p. pc = PBooting p \<Longrightarrow> bound = Some p"
    "\<And>pl. pc \<noteq> PHosting pl" "\<And>pl. pc \<noteq> PHosted pl"
  shows "conn_ok env g pc s bound"
  using assms unfolding conn_ok_def by blast

lemma quiet_plain:
  assumes "login_inv env v" "sv_sessions v g = Some s" "carries_on s s'"
    and "hosting (sv_pc v g) = None" "listed (sv_pc v g)"
    and "\<not> admitting pc" "\<not> admitted pc" "hosting pc = None" "listed pc"
    "\<And>t. pc = PReceived t \<Longrightarrow> cs_trafficStarted s'" "\<And>p. pc = PBooting p \<Longrightarrow> bound_player env v g = Some p"
  shows "login_inv env (go g pc (put_conn g s' v))"
proof (rule quiet_step [OF assms(1,2)])
  have c: "conn_ok env g (sv_pc v g) s' (bound_player env v g)"
    using conn_ok_carries [OF login_invD(1) [OF assms(1,2)] assms(3)] .
  show "conn_ok env g pc s' (bound_player env v g)"
    using conn_plain [OF c assms(6,7)] assms(7-11) by (cases pc) (auto simp: login_views)
qed (use assms in simp_all)

lemma quiet_plain_go:
  assumes "login_inv env v" "sv_sessions v g = Some s" "hosting (sv_pc v g) = None" "listed (sv_pc v g)"
    and "\<not> admitting pc" "\<not> admitted pc" "hosting pc = None" "listed pc"
    "\<And>t. pc = PReceived t \<Longrightarrow> cs_trafficStarted s" "\<And>p. pc = PBooting p \<Longrightarrow> bound_player env v g = Some p"
  shows "login_inv env (go g pc v)"
proof -
  have "put_conn g s v = v" using assms(2) by (simp add: put_conn_def fun_upd_idem)
  then show ?thesis using quiet_plain [OF assms(1,2) carries_on_refl] assms(3-) by simp
qed

text \<open>Going on with the admission: nothing is bound yet.\<close>

lemma quiet_admitting:
  assumes "login_inv env v" "sv_sessions v g = Some s" "carries_on s s'"
    and "admitting (sv_pc v g)" "admitting pc"
    and "cs_policy s = SecurityRequired \<Longrightarrow> (\<exists>t. sv_pc v g = PAllowed t) \<Longrightarrow> secured s'"
  shows "login_inv env (go g pc (put_conn g s' v))"
proof (rule quiet_step [OF assms(1,2)])
  have c: "conn_ok env g (sv_pc v g) s' (bound_player env v g)"
    using conn_ok_carries [OF login_invD(1) [OF assms(1,2)] assms(3)] .
  have "cs_policy s' = cs_policy s"
    using login_invD(1) [OF assms(1,2)] assms(3,4) by (auto simp: conn_ok_def carries_on_def follows_def)
  with c assms(4-6) show "conn_ok env g pc s' (bound_player env v g)"
    by (cases "sv_pc v g"; cases pc) (auto simp: conn_ok_def)
  show "hosting pc = hosting (sv_pc v g)" "listed pc = listed (sv_pc v g)"
    using assms(4,5) by (cases "sv_pc v g"; cases pc; simp add: login_views)+
qed

lemma put_conn_same: "sv_sessions v g = Some s \<Longrightarrow> put_conn g s v = v"
  by (simp add: put_conn_def fun_upd_idem)

lemma go_tickets: "go g pc (v\<lparr>sv_tickets := m\<rparr>) = (go g pc v)\<lparr>sv_tickets := m\<rparr>"
  by (simp add: go_def)

subsubsection \<open>Before the player is live\<close>

lemma received_step:
  assumes inv: "login_inv env v" "sv_sessions v g = Some s" and pc: "sv_pc v g = PReceived ticket"
  shows "login_inv env (authenticate env oc g s v)"
proof -
  have c: "conn_ok env g (PReceived ticket) s (bound_player env v g)" using login_invD(1) [OF inv] pc by simp
  have allowed: "login_inv env (go g (PAllowed ticket) v)" if "policy_Allows ticket_policy (contextLocked s)"
  proof (rule quiet_go [OF inv])
    show "conn_ok env g (PAllowed ticket) s (bound_player env v g)"
      using c ticket_only_early [OF that conn_session_ok [OF c]] by (auto simp: conn_ok_def login_views)
  qed (simp_all add: pc login_views)
  have "login_inv env (go g (leaving env e) v)" for e
    by (rule quiet_plain_go [OF inv]) (simp_all add: pc login_views)
  with allowed show ?thesis by (simp add: authenticate_defs pc)
qed

lemma admitting_step:
  assumes inv: "login_inv env v" "sv_sessions v g = Some s" and pc: "admitting (sv_pc v g)"
    and not_last: "\<And>r. sv_pc v g \<noteq> PResolved r"
  shows "login_inv env (authenticate env oc g s v)"
proof -
  have ok: "session_ok s" using conn_session_ok [OF login_invD(1) [OF inv]] .
  have view: "hosting (sv_pc v g) = None" "listed (sv_pc v g)" using pc by (cases "sv_pc v g"; simp add: login_views)+
  have leave: "login_inv env (go g pc' (put_conn g s' v))"
    if "carries_on s s'" "pc' = leaving env e \<or> (\<exists>r k. pc' = PDisconnecting r k) \<or> (\<exists>e. pc' = PRejecting e)" for s' pc' e
    using quiet_plain [OF inv that(1) view, of pc'] that(2) leaving_views(4) [of env e] by (auto simp: listed_def)
  have leave': "login_inv env (go g pc' v)" if "pc' = leaving env e \<or> (\<exists>e. pc' = PRejecting e)" for pc' e
    using leave [of s pc' e] that inv(2) by (auto simp: put_conn_same)
  have on: "login_inv env (go g pc' v)" if "admitting pc'" "\<And>t. sv_pc v g \<noteq> PAllowed t" for pc'
    using quiet_admitting [OF inv carries_on_refl pc that(1)] that(2) inv(2) by (simp add: put_conn_same)
  show ?thesis
  proof (cases "sv_pc v g")
    case (PAllowed t)
    have "secured s" if "SecurityState s = SecurityReady"
      using that by (auto simp: SecurityState_def secured_def split: option.splits prod.splits)
    then have "login_inv env (go g (PSecured t) v)" if "cs_policy s \<noteq> SecurityRequired \<or> SecurityState s = SecurityReady"
      using quiet_admitting [OF inv carries_on_refl pc, of "PSecured t"] that inv(2) by (auto simp: put_conn_same)
    with PAllowed leave [OF carries_ops(1) [OF ok]] show ?thesis by (auto simp: authenticate_defs)
  next
    case (PSecured t)
    have "login_inv env (go g (PStarted t) (put_conn g (fst (session_Transition EventAuthenticationStarted s)) v))"
      using quiet_admitting [OF inv carries_ops(1) [OF ok] pc, of "PStarted t"] PSecured by simp
    moreover have "login_inv env (go g (leaving env e) (put_conn g (fst (session_Transition EventAuthenticationStarted s)) v))" for e
      using leave [OF carries_ops(1) [OF ok]] by blast
    ultimately show ?thesis using PSecured
      by (cases "session_Transition EventAuthenticationStarted s") (auto simp: authenticate_defs split: option.split)
  next
    case (PStarted t)
    then show ?thesis
      using on leave' by (auto simp: authenticate_defs go_tickets split: prod.split sum.split)
  next
    case (PResolving p)
    then show ?thesis
      using on leave' by (auto simp: authenticate_defs split: option.split)
  next
    case (PBanCheck r)
    then show ?thesis
      using on leave' by (auto simp: authenticate_defs)
  qed (use pc not_last in simp_all)
qed

subsubsection \<open>The live player and its binding\<close>

lemma resolved_step:
  assumes inv: "login_inv env v" "sv_sessions v g = Some s" and pc: "sv_pc v g = PResolved r"
  shows "login_inv env (authenticate env oc g s v)"
proof -
  have c: "conn_ok env g (PResolved r) s (bound_player env v g)" using login_invD(1) [OF inv] pc by simp
  show ?thesis
  proof (cases "cs_disconnected s \<or> \<not> canTransition (cs_state s) EventAuthenticationAccepted")
    case True
    then obtain e where e: "session_Authenticate (oc_now oc) (oc_now oc) s = (s, Some e)"
      unfolding session_Authenticate_def by (cases "cs_disconnected s") simp_all
    have "login_inv env (go g (leaving env e) v)"
      by (rule quiet_plain_go [OF inv]) (simp_all add: pc login_views)
    then show ?thesis using e inv(2) by (simp add: authenticate_defs pc put_conn_same)
  next
    case False
    let ?s = "s\<lparr>cs_authenticatedAt := oc_now oc, cs_authenticated := True, cs_state := StateAuthenticated\<rparr>"
    have auth: "session_Authenticate (oc_now oc) (oc_now oc) s = (?s, None)"
      using False by (simp add: session_Authenticate_def)
    have "login_inv env (go g (PAuthenticated r (oc_now oc)) (put_conn g ?s v))"
    proof (rule quiet_step [OF inv])
      have "secured ?s = secured s" by (rule secured_same) simp
      then show "conn_ok env g (PAuthenticated r (oc_now oc)) ?s (bound_player env v g)"
        using c False by (auto simp: conn_ok_def session_ok_def)
    qed (simp_all add: pc login_views)
    then show ?thesis by (simp add: authenticate_defs pc auth)
  qed
qed

lemma authenticated_step:
  assumes inv: "login_inv env v" "sv_sessions v g = Some s" and pc: "sv_pc v g = PAuthenticated r at"
  shows "login_inv env (authenticate env oc g s v)"
proof -
  have c: "conn_ok env g (PAuthenticated r at) s (bound_player env v g)" using login_invD(1) [OF inv] pc by simp
  show ?thesis
  proof (cases "host_player env oc s r at")
    case (Inl e)
    have "login_inv env (go g (PRejecting e) v)"
      by (rule quiet_plain_go [OF inv]) (simp_all add: pc login_views)
    with Inl show ?thesis by (simp add: authenticate_defs pc)
  next
    case (Inr pl)
    then have "player_ID pl > 0"
      by (auto simp: host_player_def NewPlayer_def snapshot_Valid_def split: sum.splits if_splits)
    then have "conn_ok env g (PHosting pl) s (bound_player env v g)" using c by (simp add: conn_ok_def)
    then have "login_inv env (go g (PHosting pl) v)" by (rule quiet_go [OF inv]) (simp_all add: pc login_views)
    with Inr show ?thesis by (simp add: authenticate_defs pc)
  qed
qed

lemma hosting_step:
  assumes inv: "login_inv env v" "sv_sessions v g = Some s" and pc: "sv_pc v g = PHosting pl"
  shows "login_inv env (authenticate env oc g s v)"
proof -
  have c: "conn_ok env g (PHosting pl) s (bound_player env v g)" using login_invD(1) [OF inv] pc by simp
  then have id: "player_ID pl > 0" by (simp add: conn_ok_def)
  show ?thesis
  proof (cases "sv_live v (player_ID pl)")
    case (Some other)
    have "login_inv env (go g (PRejecting e) v)" for e
      by (rule quiet_plain_go [OF inv]) (simp_all add: pc login_views)
    with Some id show ?thesis by (simp add: authenticate_defs pc live_Add_def go_def)
  next
    case None
    let ?v = "go g (PHosted pl) (v\<lparr>sv_live := (sv_live v)(player_ID pl \<mapsto> pl)\<rparr>)"
    have free: "bg_byPlayer (sv_bindings v) (player_ID pl) = None" "\<And>h. hosting (sv_pc v h) \<noteq> Some (player_ID pl)"
      using login_invD(5) [OF inv(1), of "player_ID pl"] None by auto
    have "conn_ok env g (PHosted pl) s (bound_player env v g)" using c by (simp add: conn_ok_def)
    then have "login_inv env ?v"
    proof (intro login_invI, goal_cases)
      case (5 p)
      then show ?case
        using login_invD(5) [OF inv(1), of p] pc hosting_moved [of "sv_pc v" g p "PHosted pl"] unfolding go_def by auto
    next
      case (6 h p)
      then show ?case using free(1) login_invD(3) [OF inv(1), of h p] by (auto simp: go_def split: if_splits)
    next
      case (7 h h' p)
      then show ?case using free(2) login_invD(4) [OF inv(1), of h p h'] by (auto simp: go_def split: if_splits)
    next
      case (8 h)
      then show ?case using login_invD(7) [OF inv(1), of h] pc by (simp add: go_def listed_def)
    qed (use login_invD(1,2,6) [OF inv(1)] login_invD4 [OF inv(1)] inv(2) in \<open>auto simp: go_def split: if_splits\<close>)
    with None id show ?thesis by (simp add: authenticate_defs pc live_Add_def)
  qed
qed

lemma hosted_step:
  assumes inv: "login_inv env v" "sv_sessions v g = Some s" and pc: "sv_pc v g = PHosted pl"
    and uuid: "inj (le_uuid env)" "\<And>n. le_uuid env n \<noteq> []"
  shows "login_inv env (authenticate env oc g s v)" "\<exists>v'. authenticate env oc g s v = go g (PBooting (player_ID pl)) v'"
proof -
  let ?p = "player_ID pl" let ?b = "binding_of pl s"
  have c: "conn_ok env g (PHosted pl) s (bound_player env v g)" using login_invD(1) [OF inv] pc by simp
  have key: "binding_key ?b = (websocket_kind, le_uuid env g)" "bd_PlayerID ?b = ?p" "binding_Valid ?b"
    using c uuid(2) by (auto simp: conn_ok_def binding_of_def binding_key_def binding_Valid_def websocket_kind_def)
  have free: "bg_byPlayer (sv_bindings v) ?p = None" "bound_player env v g = None"
    using login_invD(3) [OF inv(1), of g ?p] pc c by (auto simp: conn_ok_def)
  let ?bs = "\<lparr>bg_byPlayer = (bg_byPlayer (sv_bindings v))(?p \<mapsto> WithTime (oc_now oc) ?b),
     bg_byConnection = (bg_byConnection (sv_bindings v))((websocket_kind, le_uuid env g) \<mapsto> ?p)\<rparr>"
  have add: "binding_Add (oc_now oc) ?b (sv_bindings v) = (?bs, None)"
    using key free by (simp add: binding_Add_def)
  have step: "authenticate env oc g s v = go g (PBooting ?p) (v\<lparr>sv_bindings := ?bs\<rparr>)"
    using add by (simp add: authenticate_defs pc)
  then show "\<exists>v'. authenticate env oc g s v = go g (PBooting ?p) v'" by blast
  have ok: "bindings_ok ?bs" using binding_Add_ok [OF login_invD(2) [OF inv(1)]] add by (metis fst_conv)
  have mine: "le_uuid env h = le_uuid env g \<longleftrightarrow> h = g" for h using uuid(1) by (auto dest: injD)
  have "conn_ok env g (PBooting ?p) s (Some ?p)" using c by (simp add: conn_ok_def)
  moreover have "h = g" if "hosting (sv_pc v h) = Some ?p" for h
    using login_invD(4) [OF inv(1), of g ?p h] that pc by simp
  ultimately have "login_inv env (go g (PBooting ?p) (v\<lparr>sv_bindings := ?bs\<rparr>))"
  proof (intro login_invI, goal_cases)
    case (5 p)
    show ?case
    proof (cases "p = ?p")
      case True
      have "hosting (sv_pc v g) = Some ?p" using pc by simp
      then show ?thesis using login_invD(5) [OF inv(1), of ?p] True by (auto simp: go_def)
    next
      case False
      then show ?thesis
        using login_invD(5) [OF inv(1), of p] pc hosting_moved [of "sv_pc v" g p "PBooting ?p"] unfolding go_def by auto
    qed
  next
    case (6 h p)
    then show ?case using login_invD(3) [OF inv(1), of h p] by (auto simp: go_def split: if_splits)
  next
    case (7 h h' p)
    then show ?case using login_invD(4) [OF inv(1), of h p h'] by (auto simp: go_def split: if_splits)
  next
    case (8 h)
    then show ?case using login_invD(7) [OF inv(1), of h] pc by (simp add: go_def listed_def)
  qed (use ok login_invD(1,2,6) [OF inv(1)] login_invD4 [OF inv(1)] inv(2) in \<open>auto simp: go_def mine split: if_splits\<close>)
  with step show "login_inv env (authenticate env oc g s v)" by simp
qed

text \<open>The live player leaves, after a binding that failed and at the end of a connection.\<close>

lemma release_step:
  assumes inv: "login_inv env v" "sv_sessions v g = Some s" and mine: "hosting (sv_pc v g) = Some p"
    and c: "conn_ok env g pc s (bound_player env v g)" and pc: "hosting pc = None" "listed pc = listed (sv_pc v g)"
  shows "login_inv env (go g pc (v\<lparr>sv_live := fst (live_Remove p (sv_live v))\<rparr>))"
proof -
  have removed: "fst (live_Remove p (sv_live v)) = (sv_live v)(p := None)"
    by (auto simp: live_Remove_def split: option.split)
  show ?thesis
  proof (intro login_invI, goal_cases)
    case (5 q)
    show ?case
    proof (cases "q = p")
      case True
      have "hosting (sv_pc v h) \<noteq> Some p" if "h \<noteq> g" for h
        using login_invD(4) [OF inv(1) mine] that by blast
      then show ?thesis
        using login_invD(3) [OF inv(1) mine] pc True by (auto simp: removed go_def)
    next
      case False
      then show ?thesis
        using login_invD(5) [OF inv(1), of q] mine pc hosting_moved [of "sv_pc v" g q pc] by (simp add: removed go_def)
    qed
  next
    case (6 h q)
    then show ?case using login_invD(3) [OF inv(1), of h q] pc(1) by (auto simp: go_def split: if_splits)
  next
    case (7 h h' q)
    then show ?case using login_invD(4) [OF inv(1), of h q h'] pc(1) by (auto simp: go_def split: if_splits)
  next
    case (8 h)
    then show ?case using login_invD(7) [OF inv(1), of h] pc by (simp add: go_def)
  qed (use c login_invD(1,2,6) [OF inv(1)] login_invD4 [OF inv(1)] inv(2) pc in \<open>auto simp: go_def split: if_splits\<close>)
qed

lemma evicting_step:
  assumes inv: "login_inv env v" "sv_sessions v g = Some s" and pc: "sv_pc v g = PEvicting p e"
  shows "login_inv env (authenticate env oc g s v)"
proof -
  have "login_inv env (go g (PRejecting e) (v\<lparr>sv_live := fst (live_Remove p (sv_live v))\<rparr>))"
    using conn_plain [OF login_invD(1) [OF inv], of "PRejecting e"] by (intro release_step [OF inv]) (simp_all add: pc login_views)
  then show ?thesis by (simp add: authenticate_defs pc)
qed

lemma unhosting_step:
  assumes inv: "login_inv env v" "sv_sessions v g = Some s" and pc: "sv_pc v g = PUnhosting p"
  shows "login_inv env (authenticate env oc g s v)"
proof -
  have "conn_ok env g PGone s (bound_player env v g)"
    using login_invD(1) [OF inv] pc by (simp add: conn_ok_def)
  then have "login_inv env (go g PGone (v\<lparr>sv_live := fst (live_Remove p (sv_live v))\<rparr>))"
    by (intro release_step [OF inv]) (simp_all add: pc login_views)
  then show ?thesis by (simp add: authenticate_defs conclude_def pc)
qed

lemma unbinding_step:
  assumes inv: "login_inv env v" "sv_sessions v g = Some s" and pc: "sv_pc v g = PUnbinding" and uuid: "inj (le_uuid env)"
  shows "login_inv env (authenticate env oc g s v)"
proof -
  have c: "conn_ok env g PUnbinding s (bound_player env v g)" using login_invD(1) [OF inv] pc by simp
  then have key: "(cs_kind s, cs_id s) = (websocket_kind, le_uuid env g)" by (simp add: conn_ok_def)
  have mine: "le_uuid env h = le_uuid env g \<longleftrightarrow> h = g" for h using uuid by (auto dest: injD)
  show ?thesis
  proof (cases "bound_player env v g")
    case None
    then have "conn_ok env g PGone s (bound_player env v g)" using c by (simp add: conn_ok_def)
    then have "login_inv env (go g PGone v)"
      by (rule quiet_go [OF inv]) (simp_all add: pc login_views)
    with None show ?thesis by (simp add: authenticate_defs conclude_def pc key RemoveByConnection_def)
  next
    case (Some p)
    then obtain b where b: "bg_byPlayer (sv_bindings v) p = Some b" "binding_key b = (websocket_kind, le_uuid env g)" "bd_PlayerID b = p"
      using bindings_okD [OF login_invD(2) [OF inv(1)]] by blast
    let ?bs = "\<lparr>bg_byPlayer = (bg_byPlayer (sv_bindings v))(p := None),
       bg_byConnection = (bg_byConnection (sv_bindings v))((websocket_kind, le_uuid env g) := None)\<rparr>"
    have ok: "bindings_ok ?bs" using bindings_delete_ok [OF login_invD(2) [OF inv(1)] b(1)] b(2) by simp
    have c': "conn_ok env g (PUnhosting p) s None" using c by (simp add: conn_ok_def)
    have nobody: "hosting (sv_pc v h) \<noteq> Some p" for h using login_invD(3) [OF inv(1), of h p] b(1) by auto
    have "login_inv env (go g (PUnhosting p) (v\<lparr>sv_bindings := ?bs\<rparr>))"
    proof (intro login_invI, goal_cases)
      case (5 q)
      then show ?case
        using login_invD(5) [OF inv(1), of q] b(1) pc hosting_moved [of "sv_pc v" g q "PUnhosting p"] unfolding go_def
        by (cases "q = p") auto
    next
      case (6 h q)
      then show ?case using login_invD(3) [OF inv(1), of h q] by (auto simp: go_def split: if_splits)
    next
      case (7 h h' q)
      then show ?case using nobody login_invD(4) [OF inv(1), of h q h'] by (auto simp: go_def split: if_splits)
    next
      case (8 h)
      then show ?case using login_invD(7) [OF inv(1), of h] pc by (simp add: go_def listed_def)
    qed (use ok c' login_invD(1,2,6) [OF inv(1)] login_invD4 [OF inv(1)] inv(2) in \<open>auto simp: go_def mine split: if_splits\<close>)
    then show ?thesis
      using Some b by (simp add: authenticate_defs conclude_def pc key RemoveByConnection_def)
  qed
qed

text \<open>Registering and removing a connection.\<close>

lemma conn_Get_Register:
  "conn_Register k i c r = (r', None) \<Longrightarrow> conn_Get k' j r' = (if k' = k \<and> j = i then Some c else conn_Get k' j r)"
  by (auto simp: conn_Register_def conn_Get_def bucket_def update_conv' split: if_splits option.splits)

lemma conn_Get_Remove:
  "conn_Get k' j (fst (conn_Remove k i r)) = (if k' = k \<and> j = i then None else conn_Get k' j r)"
proof (cases "map_of (bucket k r) i")
  case (Some c)
  have "map_of (bucket k r) j = None" if "AList.delete i (bucket k r) = []" "j \<noteq> i" for j
    using that map_of_delete [of j i "bucket k r"] by simp
  with Some show ?thesis
    by (auto simp: conn_Remove_def conn_Get_def bucket_def Let_def update_conv' map_of_delete delete_conv' split: option.splits)
qed (auto simp: conn_Remove_def conn_Get_def)

lemma removing_step:
  assumes inv: "login_inv env v" "sv_sessions v g = Some s" and pc: "sv_pc v g = PRemoving" and uuid: "inj (le_uuid env)"
  shows "login_inv env (authenticate env oc g s v)"
proof -
  have c: "conn_ok env g PRemoving s (bound_player env v g)" using login_invD(1) [OF inv] pc by simp
  then have key: "cs_kind s = websocket_kind" "cs_id s = le_uuid env g" by (simp_all add: conn_ok_def)
  have mine: "le_uuid env h = le_uuid env g \<longleftrightarrow> h = g" for h using uuid by (auto dest: injD)
  have c': "conn_ok env g PUnbinding s (bound_player env v g)" using c by (simp add: conn_ok_def)
  have "login_inv env (go g PUnbinding (v\<lparr>sv_registry := fst (conn_Remove websocket_kind (le_uuid env g) (sv_registry v))\<rparr>))"
  proof (intro login_invI, goal_cases)
    case (5 q)
    then show ?case
      using login_invD(5) [OF inv(1), of q] pc hosting_moved [of "sv_pc v" g q PUnbinding] unfolding go_def by auto
  next
    case (6 h q)
    then show ?case using login_invD(3) [OF inv(1), of h q] by (auto simp: go_def split: if_splits)
  next
    case (7 h h' q)
    then show ?case using login_invD(4) [OF inv(1), of h q h'] by (auto simp: go_def split: if_splits)
  next
    case (8 h)
    then show ?case using login_invD(7) [OF inv(1), of h] by (simp add: go_def listed_def conn_Get_Remove mine)
  qed (use c' login_invD(1,2,6) [OF inv(1)] login_invD4 [OF inv(1)] inv(2) in \<open>auto simp: go_def split: if_splits\<close>)
  then show ?thesis by (simp add: authenticate_defs conclude_def pc key)
qed

lemma ending_step:
  assumes inv: "login_inv env v" "sv_sessions v g = Some s"
    and pc: "(\<exists>r k. sv_pc v g = PDisconnecting r k) \<or> (\<exists>k. sv_pc v g = PClosing k) \<or> (\<exists>e. sv_pc v g = PRejecting e) \<or>
       (\<exists>p. sv_pc v g = PBooting p)"
  shows "login_inv env (authenticate env oc g s v)"
proof -
  have ok: "session_ok s" using conn_session_ok [OF login_invD(1) [OF inv]] .
  have view: "hosting (sv_pc v g) = None" "listed (sv_pc v g)" using pc by (auto simp: login_views)
  have plain: "login_inv env (go g pc' (put_conn g s' v))"
    if "carries_on s s'" "pc' = leaving env e \<or> pc' = PReading \<or> pc' = PRemoving \<or> (\<exists>k. pc' = PClosing k) \<or> (\<exists>r k. pc' = PDisconnecting r k)"
    for s' pc' e
  proof -
    have "\<not> admitting pc'" "\<not> admitted pc'" "hosting pc' = None" "listed pc'" "\<And>t. pc' \<noteq> PReceived t" "\<And>p. pc' \<noteq> PBooting p"
      using that(2) by (elim disjE exE; simp add: login_views)+
    then show ?thesis by (intro quiet_plain [OF inv that(1) view]) auto
  qed
  note same = plain [OF carries_on_refl, unfolded put_conn_same [OF inv(2)]]
  have refused: "login_inv env (go g (after_refused env k) (put_conn g s' v))" if "carries_on s s'" for s' k
    using plain [OF that] by (cases k) (auto simp: after_refused_def)
  have closed: "login_inv env (go g (after_closed k) (put_conn g s' v))" if "carries_on s s'" for s' k
    using plain [OF that] by (cases k) (auto simp: after_closed_def)
  consider (a) r k where "sv_pc v g = PDisconnecting r k" | (b) k where "sv_pc v g = PClosing k"
    | (c) e where "sv_pc v g = PRejecting e" | (d) p where "sv_pc v g = PBooting p" using pc by blast
  then show ?thesis
  proof cases
    case a
    then show ?thesis
      using refused [OF carries_ops(4) [OF ok], of k r] plain [OF carries_ops(4) [OF ok], of "PClosing k" _ r]
      by (cases "start_disconnect r s") (auto simp: authenticate_defs conclude_def split: option.split)
  next
    case b
    then show ?thesis
      using closed [OF carries_ops(5) [OF ok], of k] by (simp add: authenticate_defs conclude_def)
  next
    case c
    then show ?thesis
      using plain [OF carries_ops(1) [OF ok]] by (auto simp: authenticate_defs)
  next
    case d
    have "login_inv env (go g (leaving env e) (put_conn g (fst (session_Transition EventSessionReady s)) v))"
      "login_inv env (go g PReading (put_conn g (fst (session_Transition EventSessionReady s)) v))" for e
      using plain [OF carries_ops(1) [OF ok]] by blast+
    then show ?thesis
      using d same by (cases "session_Transition EventSessionReady s") (auto simp: authenticate_defs split: option.split)
  qed
qed

lemma absent_iff: "login_inv env v \<Longrightarrow> sv_pc v g = PAbsent \<longleftrightarrow> sv_sessions v g = None"
  using login_invD(1,6) [of env v g] by (cases "sv_sessions v g") (auto simp: conn_ok_def)

lemma advance_step:
  assumes inv: "login_inv env v" "sv_sessions v g = Some s" and uuid: "inj (le_uuid env)" "\<And>n. le_uuid env n \<noteq> []"
  shows "login_inv env (authenticate env oc g s v)"
proof (cases "sv_pc v g")
  case (PResolved r)
  then show ?thesis by (rule resolved_step [OF inv])
next
  case (PHosted pl)
  then show ?thesis by (rule hosted_step(1) [OF inv _ uuid])
next
  case (PEvicting p e)
  then show ?thesis by (rule evicting_step [OF inv])
qed (use inv received_step [OF inv] admitting_step [OF inv] authenticated_step [OF inv] hosting_step [OF inv]
      ending_step [OF inv] removing_step [OF inv _ uuid(1)] unbinding_step [OF inv _ uuid(1)] unhosting_step [OF inv]
    in \<open>simp_all add: authenticate_def [of _ _ _ _ v] conclude_def\<close>)

lemma accept_step:
  assumes inv: "login_inv env v" and uuid: "inj (le_uuid env)"
  shows "login_inv env (newSocketSession env now ip g v)"
proof (cases "newSocketSession env now ip g v = v")
  case False
  let ?config = "\<lparr>sc_ID = le_uuid env g, sc_Kind = websocket_kind, sc_StartedAt = 0, sc_RemoteAddr = ip,
    sc_SecurityPolicy = le_policy env, sc_hasSender = True, sc_hasDisposer = True\<rparr>"
  obtain s r where s: "NewSession now ?config = Inr s" and r: "conn_Register (cs_kind s) (cs_id s) g (sv_registry v) = (r, None)"
    and pc: "sv_pc v g = PAbsent"
    and step: "newSocketSession env now ip g v = v\<lparr>sv_registry := r, sv_sessions := (sv_sessions v)(g \<mapsto> s), sv_pc := (sv_pc v)(g := PReading)\<rparr>"
    using False by (auto simp: newSocketSession_def split: if_splits sum.splits prod.splits option.splits)
  have fresh: "cs_id s = le_uuid env g" "cs_kind s = websocket_kind" "\<not> cs_authenticated s"
    using s by (auto simp: NewSession_def Let_def split: if_splits)
  have none: "sv_sessions v g = None" using absent_iff [OF inv] pc by simp
  then have unbound: "bound_player env v g = None" using login_invD(6) [OF inv] by simp
  have c: "conn_ok env g PReading s (bound_player env v g)"
    using fresh NewSession_ok [OF s] unbound by (simp add: conn_ok_def)
  have mine: "le_uuid env h = le_uuid env g \<longleftrightarrow> h = g" for h using uuid by (auto dest: injD)
  have "login_inv env (v\<lparr>sv_registry := r, sv_sessions := (sv_sessions v)(g \<mapsto> s), sv_pc := (sv_pc v)(g := PReading)\<rparr>)"
  proof (intro login_invI, goal_cases)
    case (5 q)
    then show ?case
      using login_invD(5) [OF inv, of q] pc hosting_moved [of "sv_pc v" g q PReading] by simp
  next
    case (6 h q)
    then show ?case using login_invD(3) [OF inv, of h q] by (auto split: if_splits)
  next
    case (7 h h' q)
    then show ?case using login_invD(4) [OF inv, of h q h'] by (auto split: if_splits)
  next
    case (8 h)
    then show ?case
      using login_invD(7) [OF inv, of h] conn_Get_Register [OF r, of websocket_kind "le_uuid env h"] pc
      by (simp add: fresh mine listed_def)
  qed (use c login_invD(1,2,6) [OF inv] login_invD4 [OF inv] in \<open>auto split: if_splits\<close>)
  then show ?thesis by (simp add: step)
qed (use inv in simp)

lemma ticket_step:
  assumes inv: "login_inv env v" shows "login_inv env (receive_ticket env now g ticket v)"
proof (cases "sv_sessions v g")
  case (Some s)
  show ?thesis
  proof (cases "sv_pc v g = PReading")
    case True
    have ok: "session_ok s" using conn_session_ok [OF login_invD(1) [OF inv Some]] .
    obtain s' e where m: "markTraffic (Some EventPacketReceived) s = (s', e)" by force
    have s': "carries_on s s'" using carries_ops(2) [OF ok, of "Some EventPacketReceived"] m by simp
    then have "session_ok s'" using ok by (simp add: carries_on_def)
    then have s'': "carries_on s (markActivity now now s')" using carries_on_trans [OF s' carries_ops(3)] by simp
    show ?thesis
    proof (cases e)
      case None
      then have "cs_trafficStarted (markActivity now now s')"
        using m by (auto simp: markTraffic_def markActivity_def Let_def split: if_splits option.splits)
      then have "login_inv env (go g (PReceived ticket) (put_conn g (markActivity now now s') v))"
        by (intro quiet_plain [OF inv Some s'']) (simp_all add: True login_views)
      with None show ?thesis by (simp add: receive_ticket_def Some True m)
    next
      case (Some err)
      have "login_inv env (go g (leaving env err) (put_conn g s' v))"
        by (intro quiet_plain [OF inv \<open>sv_sessions v g = Some s\<close> s']) (simp_all add: True login_views)
      with Some show ?thesis by (simp add: receive_ticket_def \<open>sv_sessions v g = Some s\<close> True m)
    qed
  qed (use inv Some in \<open>simp add: receive_ticket_def\<close>)
qed (use inv in \<open>simp add: receive_ticket_def\<close>)

lemma login_step_inv:
  assumes inv: "login_inv env v" and uuid: "inj (le_uuid env)" "\<And>n. le_uuid env n \<noteq> []"
  shows "login_inv env (login_step env op v)"
proof (cases op)
  case (LAccept now ip g)
  then show ?thesis using accept_step [OF inv uuid(1)] by (simp add: login_step_def)
next
  case (LOther g sop)
  show ?thesis
  proof (cases "sv_sessions v g")
    case (Some s)
    have c: "conn_ok env g (sv_pc v g) s (bound_player env v g)" using login_invD(1) [OF inv Some] .
    have "login_inv env (go g (sv_pc v g) (put_conn g (session_step sop s) v))" if "\<not> is_authenticate sop"
      by (rule quiet_step [OF inv Some conn_ok_carries [OF c carries_on_step [OF conn_session_ok [OF c] that]]]) simp_all
    then show ?thesis using LOther Some inv by (simp add: login_step_def go_def put_conn_def)
  qed (use inv LOther in \<open>simp add: login_step_def\<close>)
next
  case (LTicket now g ticket)
  then show ?thesis using ticket_step [OF inv] by (simp add: login_step_def)
next
  case (LHangup g r)
  show ?thesis
  proof (cases "sv_pc v g = PReading")
    case True
    then obtain s where s: "sv_sessions v g = Some s" using absent_iff [OF inv, of g] by auto
    have "login_inv env (go g (PDisconnecting r ToRemoving) v)"
      by (rule quiet_plain_go [OF inv s]) (simp_all add: True login_views)
    then show ?thesis using LHangup True by (simp add: login_step_def)
  qed (use inv LHangup in \<open>simp add: login_step_def\<close>)
next
  case (LAdvance g oc)
  then show ?thesis using inv advance_step [OF inv _ uuid] by (auto simp: login_step_def split: option.split)
qed (use inv in \<open>simp_all add: login_step_def\<close>)

lemma login_run_inv:
  assumes "inj (le_uuid env)" "\<And>n. le_uuid env n \<noteq> []"
  shows "login_inv env (fold (login_step env) ops empty_server)"
proof (induction ops rule: rev_induct)
  case (snoc op ops)
  then show ?case using login_step_inv [OF snoc.IH assms] by simp
qed (simp add: empty_server_inv)

subsection \<open>What holds of every run\<close>

text \<open>C27: One login for each player. In every interleaving of arriving, authenticating, serving and leaving
  connections, players and connections are bound one to one, a bound connection is authenticated and
  has not run the end of its handler; a player is live exactly when it is bound or exactly one
  goroutine is between the two registries; and the registry of connections holds the running ones.\<close>

theorem one_login_per_player:
  fixes env ops
  assumes "inj (le_uuid env)" "\<And>n. le_uuid env n \<noteq> []"
  defines "v \<equiv> fold (login_step env) ops empty_server"
  shows "(\<forall>p b. FindByPlayer p (sv_bindings v) = Some b \<longrightarrow>
       bd_PlayerID b = p \<and> FindByConnection (binding_key b) (sv_bindings v) = Some b \<and>
       (\<exists>g s. sv_sessions v g = Some s \<and> binding_key b = (cs_kind s, cs_id s) \<and> cs_authenticated s \<and> \<not> over (sv_pc v g))) \<and>
    (\<forall>k b. FindByConnection k (sv_bindings v) = Some b \<longrightarrow>
       binding_key b = k \<and> FindByPlayer (bd_PlayerID b) (sv_bindings v) = Some b) \<and>
    (\<forall>p. live_Find p (sv_live v) \<noteq> None \<longleftrightarrow>
       FindByPlayer p (sv_bindings v) \<noteq> None \<or> (\<exists>!g. hosting (sv_pc v g) = Some p)) \<and>
    (\<forall>g. conn_Get websocket_kind (le_uuid env g) (sv_registry v) = (if listed (sv_pc v g) then Some g else None))"
proof -
  have inv: "login_inv env v" unfolding v_def by (rule login_run_inv [OF assms(1,2)])
  note bd = bindings_okD [OF login_invD(2) [OF inv]]
  have "\<exists>g s. sv_sessions v g = Some s \<and> binding_key b = (cs_kind s, cs_id s) \<and> cs_authenticated s \<and> \<not> over (sv_pc v g)"
    if b: "bg_byPlayer (sv_bindings v) p = Some b" for p b
  proof -
    obtain g where g: "binding_key b = (websocket_kind, le_uuid env g)" using login_invD4 [OF inv bd(2) [OF b]] by blast
    then have bound: "bound_player env v g = Some p" using bd(2) [OF b] by simp
    then obtain s where s: "sv_sessions v g = Some s" using login_invD(6) [OF inv, of g] by (cases "sv_sessions v g") auto
    then have "cs_id s = le_uuid env g" "cs_kind s = websocket_kind" "cs_authenticated s" "\<not> over (sv_pc v g)"
      using login_invD(1) [OF inv s] bound by (auto simp: conn_ok_def)
    with s g show ?thesis by (intro exI [of _ g] exI [of _ s]) simp
  qed
  moreover have "sv_live v p \<noteq> None \<longleftrightarrow> bg_byPlayer (sv_bindings v) p \<noteq> None \<or> (\<exists>!g. hosting (sv_pc v g) = Some p)" for p
    using login_invD(4,5) [OF inv] by blast
  ultimately show ?thesis
    using bd login_invD(7) [OF inv] unfolding FindByPlayer_def FindByConnection_def live_Find_def
    by (auto split: option.splits) fastforce+
qed

text \<open>What one section of a goroutine changes of the connections: its own session and what it has left to do.\<close>

definition moves :: "nat \<Rightarrow> conn_session \<Rightarrow> server \<Rightarrow> server \<Rightarrow> bool" where
  "moves g s v w \<longleftrightarrow> (\<exists>s' pc. sv_sessions w = (sv_sessions v)(g \<mapsto> s') \<and> sv_pc w = (sv_pc v)(g := pc) \<and> follows s s' \<and>
     (cs_authenticated s' \<longrightarrow> cs_authenticated s \<or> (\<exists>r. sv_pc v g = PResolved r)) \<and>
     (admitting pc \<longrightarrow> admitting (sv_pc v g) \<or> (\<exists>t. pc = PAllowed t)))"

lemma moves_put:
  assumes "carries_on s s'" "admitting pc \<Longrightarrow> admitting (sv_pc v g) \<or> (\<exists>t. pc = PAllowed t)"
  shows "moves g s v (go g pc (put_conn g s' v))"
  using assms unfolding moves_def carries_on_def go_def put_conn_def by (intro exI [of _ s'] exI [of _ pc]) simp

lemma moves_go:
  assumes "sv_sessions v g = Some s" "sv_sessions v' = sv_sessions v" "sv_pc v' = sv_pc v"
    and "admitting pc \<Longrightarrow> admitting (sv_pc v g) \<or> (\<exists>t. pc = PAllowed t)"
  shows "moves g s v (go g pc v')"
  using assms unfolding moves_def go_def by (intro exI [of _ s] exI [of _ pc]) (simp add: follows_refl fun_upd_idem)

lemma moves_refl: "sv_sessions v g = Some s \<Longrightarrow> moves g s v v"
  unfolding moves_def by (intro exI [of _ s] exI [of _ "sv_pc v g"]) (simp add: follows_refl fun_upd_idem)

lemma conclude_moves:
  assumes "session_ok s" "sv_sessions v g = Some s"
  shows "moves g s v (conclude env g s v)"
proof -
  have closed: "\<not> admitting (after_refused env k)" "\<not> admitting (after_closed k)" for k
    by (cases k; simp add: after_refused_def after_closed_def)+
  note put = moves_put [OF carries_ops(4) [OF assms(1)]] moves_put [OF carries_ops(5) [OF assms(1)]]
  show ?thesis
  proof (cases "sv_pc v g")
    case (PDisconnecting r k)
    then show ?thesis
      using put(1) [of "after_refused env k" v g r] put(1) [of "PClosing k" v g r] closed
      by (cases "start_disconnect r s") (auto simp: conclude_def split: option.split)
  next
    case (PClosing k)
    then show ?thesis using put(2) [of "after_closed k" v g] closed by (simp add: conclude_def)
  qed (auto simp: conclude_def moves_refl [OF assms(2)] split: prod.split option.split intro!: moves_go [OF assms(2)])
qed

lemma authenticate_moves:
  assumes "session_ok s" "sv_sessions v g = Some s"
  shows "moves g s v (authenticate env oc g s v)"
proof -
  note go = moves_go [OF assms(2)] and put = moves_put [OF carries_ops(1) [OF assms(1)]]
  show ?thesis
  proof (cases "sv_pc v g")
    case (PAllowed t)
    then show ?thesis by (auto simp: authenticate_defs intro!: go put)
  next
    case (PSecured t)
    have "moves g s v (go g pc (put_conn g (fst (session_Transition EventAuthenticationStarted s)) v))" for pc
      by (rule put) (simp add: PSecured)
    then show ?thesis using PSecured
      by (cases "session_Transition EventAuthenticationStarted s") (auto simp: authenticate_defs split: option.split)
  next
    case (PResolved r)
    have "follows s (fst (session_Authenticate (oc_now oc) (oc_now oc) s))"
      using session_step_ok [OF assms(1), of "SAuthenticate (oc_now oc) (oc_now oc)"] by (simp add: session_step_def)
    then have "moves g s v (go g pc (put_conn g (fst (session_Authenticate (oc_now oc) (oc_now oc) s)) v))" for pc
      unfolding moves_def go_def put_conn_def by (intro exI) (use PResolved in simp)
    then show ?thesis using PResolved
      by (cases "session_Authenticate (oc_now oc) (oc_now oc) s") (auto simp: authenticate_defs split: option.split)
  next
    case (PBooting p)
    have "moves g s v (go g pc (put_conn g (fst (session_Transition EventSessionReady s)) v))" if "\<not> admitting pc" for pc
      by (rule put) (use that in simp)
    then show ?thesis using PBooting
      by (cases "session_Transition EventSessionReady s") (auto simp: authenticate_defs split: option.split intro!: go)
  next
    case (PRejecting e)
    then show ?thesis by (auto simp: authenticate_defs intro!: put)
  qed (auto simp: authenticate_defs conclude_moves [OF assms, of env] split: prod.split option.split sum.split intro!: go)
qed

lemma ticket_moves:
  assumes "session_ok s" "sv_sessions v g = Some s"
  shows "moves g s v (receive_ticket env now g ticket v)"
proof -
  obtain s' e where m: "markTraffic (Some EventPacketReceived) s = (s', e)" by force
  have s': "carries_on s s'" using carries_ops(2) [OF assms(1), of "Some EventPacketReceived"] m by simp
  then have "session_ok s'" using assms(1) by (simp add: carries_on_def)
  then have "carries_on s (markActivity now now s')" using carries_on_trans [OF s' carries_ops(3)] by simp
  with s' show ?thesis
    by (auto simp: receive_ticket_def assms(2) m moves_refl [OF assms(2)] split: option.split intro!: moves_put)
qed

text \<open>A connection is cleared when its policy requires encryption and its goroutine is past the check of that policy.\<close>

definition cleared :: "server \<Rightarrow> nat \<Rightarrow> bool" where
  "cleared v g \<longleftrightarrow> (\<exists>s. sv_sessions v g = Some s \<and> cs_policy s = SecurityRequired \<and>
     (cs_authenticated s \<or> admitting (sv_pc v g) \<and> (\<nexists>t. sv_pc v g = PAllowed t)))"

text \<open>The step that clears a connection: the check of its policy finds the channel ready.\<close>

definition clears_ready :: "login_env \<Rightarrow> nat \<Rightarrow> login_op \<Rightarrow> server \<Rightarrow> bool" where
  "clears_ready env g op v \<longleftrightarrow> (\<exists>oc ticket s. op = LAdvance g oc \<and> sv_pc v g = PAllowed ticket \<and> sv_sessions v g = Some s \<and>
     SecurityState s = SecurityReady \<and> sv_pc (login_step env (LAdvance g oc) v) g = PSecured ticket)"

lemma started_policy:
  assumes "conn_ok env g pc s bound" "follows s s'" "admitting pc \<or> cs_authenticated s"
  shows "cs_policy s' = cs_policy s"
  using assms unfolding conn_ok_def follows_def by blast

lemma clearedI: "sv_sessions v g = Some s \<Longrightarrow> cs_policy s = SecurityRequired \<Longrightarrow> cs_authenticated s \<Longrightarrow> cleared v g"
  by (simp add: cleared_def)

lemma clearedE:
  assumes "cleared v g" "sv_sessions v g = Some s"
  shows "cs_policy s = SecurityRequired" "cs_authenticated s \<or> admitting (sv_pc v g) \<and> (\<nexists>t. sv_pc v g = PAllowed t)"
  using assms by (simp_all add: cleared_def)

lemma advance_cleared:
  assumes inv: "login_inv env v" "sv_sessions v g = Some s" and "cleared (authenticate env oc g s v) g"
  shows "cleared v g \<or> (\<exists>t. sv_pc v g = PAllowed t \<and> SecurityState s = SecurityReady \<and> sv_pc (authenticate env oc g s v) g = PSecured t)"
proof -
  let ?w = "authenticate env oc g s v"
  have c: "conn_ok env g (sv_pc v g) s (bound_player env v g)" using login_invD(1) [OF inv] .
  obtain s' where s': "sv_sessions ?w g = Some s'" "follows s s'" "cs_authenticated s' \<Longrightarrow> cs_authenticated s \<or> (\<exists>r. sv_pc v g = PResolved r)"
    "admitting (sv_pc ?w g) \<Longrightarrow> admitting (sv_pc v g) \<or> (\<exists>t. sv_pc ?w g = PAllowed t)"
    using authenticate_moves [OF conn_session_ok [OF c] inv(2), of env oc] by (auto simp: moves_def)
  have was: "cs_authenticated s \<or> admitting (sv_pc v g)" using clearedE(2) [OF assms(3) s'(1)] s'(3,4) admitting.simps(6) by metis
  then have policy: "cs_policy s = SecurityRequired"
    using started_policy [OF c s'(2)] clearedE(1) [OF assms(3) s'(1)] by auto
  show ?thesis
  proof (cases "\<exists>t. sv_pc v g = PAllowed t")
    case True
    then obtain t where t: "sv_pc v g = PAllowed t" by blast
    have "\<not> cs_authenticated s" using c t by (simp add: conn_ok_def)
    then have "\<not> cs_authenticated s'" using s'(3) t by auto
    then have passed: "admitting (sv_pc ?w g)" using clearedE(2) [OF assms(3) s'(1)] by blast
    show ?thesis
    proof (cases "SecurityState s = SecurityReady")
      case True
      then have "?w = go g (PSecured t) v" by (simp add: authenticate_def ValidateAuthenticationSecurity_def t)
      then show ?thesis using True t by (simp add: go_def)
    next
      case False
      then have "\<not> admitting (sv_pc ?w g)" by (simp add: authenticate_def ValidateAuthenticationSecurity_def t policy go_def)
      with passed show ?thesis by contradiction
    qed
  next
    case False
    then show ?thesis using was policy inv(2) by (auto simp: cleared_def)
  qed
qed

lemma step_cleared:
  assumes inv: "login_inv env v" and "cleared (login_step env op v) g"
  shows "cleared v g \<or> clears_ready env g op v"
proof (cases op)
  case (LAccept now ip h)
  have "cleared v g" if changed: "newSocketSession env now ip h v \<noteq> v"
  proof -
    let ?config = "\<lparr>sc_ID = le_uuid env h, sc_Kind = websocket_kind, sc_StartedAt = 0, sc_RemoteAddr = ip,
      sc_SecurityPolicy = le_policy env, sc_hasSender = True, sc_hasDisposer = True\<rparr>"
    obtain s r where new: "NewSession now ?config = Inr s" and "conn_Register (cs_kind s) (cs_id s) h (sv_registry v) = (r, None)"
        and "sv_pc v h = PAbsent" and
        w: "newSocketSession env now ip h v = v\<lparr>sv_registry := r, sv_sessions := (sv_sessions v)(h \<mapsto> s), sv_pc := (sv_pc v)(h := PReading)\<rparr>"
      using changed by (auto simp: newSocketSession_def split: if_splits sum.splits prod.splits option.splits)
    have s: "\<not> cs_authenticated s" using new by (auto simp: NewSession_def Let_def split: if_splits)
    from assms(2) LAccept have "cleared (newSocketSession env now ip h v) g" by (simp add: login_step_def)
    then show ?thesis unfolding w using s by (auto simp: cleared_def split: if_splits)
  qed
  then show ?thesis using assms(2) by (cases "newSocketSession env now ip h v = v") (simp_all add: LAccept login_step_def)
next
  case (LOther h sop)
  show ?thesis
  proof (cases "h = g \<and> \<not> is_authenticate sop")
    case True
    then obtain s where s: "sv_sessions v g = Some s" "cleared (put_conn g (session_step sop s) v) g"
      using assms(2) LOther by (cases "sv_sessions v g") (auto simp: login_step_def cleared_def)
    have c: "conn_ok env g (sv_pc v g) s (bound_player env v g)" using login_invD(1) [OF inv s(1)] .
    have k: "carries_on s (session_step sop s)" using carries_on_step [OF conn_session_ok [OF c]] True by simp
    have f: "follows s (session_step sop s)" "cs_authenticated (session_step sop s) = cs_authenticated s"
      using k by (simp_all add: carries_on_def)
    have "cs_policy (session_step sop s) = SecurityRequired" "cs_authenticated s \<or> admitting (sv_pc v g) \<and> (\<nexists>t. sv_pc v g = PAllowed t)"
      using clearedE [OF s(2)] f(2) by (simp_all add: put_conn_def)
    then have "cleared v g" using s(1) started_policy [OF c f(1)] by (auto simp: cleared_def)
    then show ?thesis ..
  next
    case False
    then show ?thesis using assms(2) LOther
      by (auto simp: login_step_def cleared_def put_conn_def split: option.splits if_splits)
  qed
next
  case (LTicket now h ticket)
  show ?thesis
  proof (cases "sv_sessions v h")
    case (Some s)
    have c: "conn_ok env h (sv_pc v h) s (bound_player env v h)" using login_invD(1) [OF inv Some] .
    have w: "login_step env op v = receive_ticket env now h ticket v" using LTicket by (simp add: login_step_def)
    have m: "moves h s v (receive_ticket env now h ticket v)" using ticket_moves [OF conn_session_ok [OF c] Some] .
    have "cleared v g"
    proof (cases "sv_pc v h = PReading \<and> h = g")
      case True
      obtain s' where s': "sv_sessions (login_step env op v) g = Some s'" "follows s s'" "cs_authenticated s' \<Longrightarrow> cs_authenticated s"
          "admitting (sv_pc (login_step env op v) g) \<Longrightarrow> \<exists>t. sv_pc (login_step env op v) g = PAllowed t"
        using m w True by (auto simp: moves_def)
      have auth: "cs_authenticated s" using clearedE(2) [OF assms(2) s'(1)] s'(3,4) by blast
      show ?thesis
        using clearedI [OF Some [unfolded True [THEN conjunct2]]] auth started_policy [OF c s'(2)] clearedE(1) [OF assms(2) s'(1)] by simp
    next
      case False
      then show ?thesis using m w assms(2) Some by (auto simp: moves_def cleared_def receive_ticket_def)
    qed
    then show ?thesis ..
  qed (use assms(2) LTicket in \<open>simp add: login_step_def receive_ticket_def\<close>)
next
  case (LHangup h r)
  then show ?thesis using assms(2) by (auto simp: login_step_def cleared_def go_def split: if_splits)
next
  case (LAdvance h oc)
  show ?thesis
  proof (cases "sv_sessions v h")
    case (Some s)
    have w: "login_step env op v = authenticate env oc h s v" using LAdvance Some by (simp add: login_step_def)
    show ?thesis
    proof (cases "h = g")
      case True
      then show ?thesis using advance_cleared [OF inv, of g s oc] assms(2) w Some LAdvance unfolding clears_ready_def by auto
    next
      case False
      have "moves h s v (authenticate env oc h s v)"
        using authenticate_moves [OF conn_session_ok [OF login_invD(1) [OF inv Some]] Some] .
      then show ?thesis using assms(2) False w by (auto simp: moves_def cleared_def)
    qed
  qed (use assms(2) LAdvance in \<open>simp add: login_step_def\<close>)
qed (use assms(2) in \<open>simp_all add: login_step_def cleared_def\<close>)

text \<open>The step that cleared a connection lies in the run.\<close>

lemma cleared_run:
  assumes "inj (le_uuid env)" "\<And>n. le_uuid env n \<noteq> []" and "cleared (fold (login_step env) ops empty_server) g"
  shows "\<exists>earlier op later. ops = earlier @ op # later \<and> clears_ready env g op (fold (login_step env) earlier empty_server)"
  using assms(3)
proof (induction ops rule: rev_induct)
  case (snoc op ops)
  let ?v = "fold (login_step env) ops empty_server"
  from step_cleared [OF login_run_inv [OF assms(1,2)], of op ops g] snoc.prems
  have "cleared ?v g \<or> clears_ready env g op ?v" by simp
  then show ?case
  proof
    assume "cleared ?v g"
    from snoc.IH [OF this] show ?thesis by (metis append.assoc append_Cons)
  qed blast
qed (simp add: cleared_def empty_server_def)

text \<open>C28: A connection that is authenticated went through its security policy. Where the policy requires encryption,
  an earlier step of the run checked the policy for a ticket of this connection and found its channel
  ready, and the channel that is attached now is ready or failed; and while a
  login is under way the connection is not authenticated and not bound. When every connection has ended,
  nothing of them is left in the bindings, among the live players or in the registry.\<close>

theorem admission_is_guarded:
  fixes env ops
  assumes "inj (le_uuid env)" "\<And>n. le_uuid env n \<noteq> []"
  defines "v \<equiv> fold (login_step env) ops empty_server"
  shows "(\<forall>g s. sv_sessions v g = Some s \<and> cs_authenticated s \<and> cs_policy s = SecurityRequired \<longrightarrow>
       (\<exists>a c. cs_security s = Some (a, c) \<and> ch_state c \<in> {SecurityReady, SecurityFailed}) \<and>
       (\<exists>earlier oc later ticket s0. ops = earlier @ LAdvance g oc # later \<and>
          (let w = fold (login_step env) earlier empty_server in
             sv_pc w g = PAllowed ticket \<and> sv_sessions w g = Some s0 \<and> SecurityState s0 = SecurityReady \<and>
             sv_pc (login_step env (LAdvance g oc) w) g = PSecured ticket))) \<and>
    (\<forall>g s. sv_sessions v g = Some s \<and> admitting (sv_pc v g) \<longrightarrow>
       \<not> cs_authenticated s \<and> FindByConnection (cs_kind s, cs_id s) (sv_bindings v) = None) \<and>
    ((\<forall>g. sv_pc v g = PAbsent \<or> sv_pc v g = PGone) \<longrightarrow>
       sv_bindings v = no_bindings \<and> sv_live v = Map.empty \<and>
       (\<forall>g. conn_Get websocket_kind (le_uuid env g) (sv_registry v) = None))"
proof -
  have inv: "login_inv env v" unfolding v_def by (rule login_run_inv [OF assms(1,2)])
  note bd = bindings_okD [OF login_invD(2) [OF inv]]
  have guarded: "secured s" if "sv_sessions v g = Some s" "cs_authenticated s" "cs_policy s = SecurityRequired" for g s
    using login_invD(1) [OF inv that(1)] that(2,3) by (simp add: conn_ok_def)
  have waiting: "\<not> cs_authenticated s \<and> FindByConnection (cs_kind s, cs_id s) (sv_bindings v) = None"
    if "sv_sessions v g = Some s" "admitting (sv_pc v g)" for g s
    using login_invD(1) [OF inv that(1)] that(2) by (auto simp: conn_ok_def FindByConnection_def)
  have left: "sv_bindings v = no_bindings" "sv_live v = Map.empty" "\<And>g. conn_Get websocket_kind (le_uuid env g) (sv_registry v) = None"
    if idle: "\<forall>g. sv_pc v g = PAbsent \<or> sv_pc v g = PGone"
  proof -
    have "bound_player env v g = None" for g
      using login_invD(1,6) [OF inv, of g] spec [OF idle, of g] by (cases "sv_sessions v g") (auto simp: conn_ok_def)
    then have conns: "bg_byConnection (sv_bindings v) = Map.empty" using login_invD4 [OF inv] by fastforce
    then have "bg_byPlayer (sv_bindings v) = Map.empty" using bd(2) by fastforce
    then show bs: "sv_bindings v = no_bindings" using conns by (simp add: no_bindings_def)
    have "hosting (sv_pc v g) = None" for g using spec [OF idle, of g] by auto
    then have "sv_live v p = None" for p using login_invD(5) [OF inv, of p] bs by (simp add: no_bindings_def)
    then show "sv_live v = Map.empty" by blast
    show "conn_Get websocket_kind (le_uuid env g) (sv_registry v) = None" for g
      using login_invD(7) [OF inv, of g] spec [OF idle, of g] by (auto simp: listed_def)
  qed
  have checked: "\<exists>earlier oc later ticket s0. ops = earlier @ LAdvance g oc # later \<and>
      (let w = fold (login_step env) earlier empty_server in
         sv_pc w g = PAllowed ticket \<and> sv_sessions w g = Some s0 \<and> SecurityState s0 = SecurityReady \<and>
         sv_pc (login_step env (LAdvance g oc) w) g = PSecured ticket)"
    if "sv_sessions v g = Some s" "cs_authenticated s" "cs_policy s = SecurityRequired" for g s
  proof -
    have "cleared v g" using that by (simp add: cleared_def)
    from cleared_run [OF assms(1,2) this [unfolded v_def]] show ?thesis unfolding clears_ready_def Let_def by blast
  qed
  show ?thesis
  proof (intro conjI allI impI)
    fix g s assume "sv_sessions v g = Some s \<and> cs_authenticated s \<and> cs_policy s = SecurityRequired"
    then show "\<exists>a c. cs_security s = Some (a, c) \<and> ch_state c \<in> {SecurityReady, SecurityFailed}"
      using guarded by (auto simp: secured_def)
  qed (use waiting left checked in blast)+
qed

subsection \<open>Logins are paid with tickets\<close>

fun carrying :: "progress \<Rightarrow> int option" where
  "carrying (PResolving p) = Some p"
| "carrying (PBanCheck r) = Some (pr_ID r)"
| "carrying (PResolved r) = Some (pr_ID r)"
| "carrying (PAuthenticated r _) = Some (pr_ID r)"
| "carrying (PHosting pl) = Some (player_ID pl)"
| "carrying (PHosted pl) = Some (player_ID pl)"
| "carrying _ = None"

definition issues :: "int \<Rightarrow> login_op \<Rightarrow> bool" where
  "issues p op = (case op of LCreate fault drawn q _ \<Rightarrow> \<not> fault \<and> drawn \<noteq> None \<and> q = p \<and> p > 0 | _ \<Rightarrow> False)"

text \<open>A step binds the player when a hosted player's goroutine starts the bootstrap.\<close>

definition binds :: "login_env \<Rightarrow> int \<Rightarrow> login_op \<Rightarrow> server \<Rightarrow> bool" where
  "binds env p op v = (case op of
     LAdvance g _ \<Rightarrow> sv_pc (login_step env op v) g = PBooting p \<and> sv_pc v g \<noteq> PBooting p | _ \<Rightarrow> False)"

fun logins :: "login_env \<Rightarrow> int \<Rightarrow> login_op list \<Rightarrow> server \<Rightarrow> nat" where
  "logins env p [] v = 0"
| "logins env p (op # ops) v = (if binds env p op v then 1 else 0) + logins env p ops (login_step env op v)"

definition issued :: "int \<Rightarrow> login_op list \<Rightarrow> nat" where
  "issued p ops = length (filter (issues p) ops)"

definition stored :: "int \<Rightarrow> server \<Rightarrow> string set" where
  "stored p v = {k. \<exists>r. sv_tickets v k = Some r \<and> tk_PlayerID r = p}"

definition carriers :: "int \<Rightarrow> server \<Rightarrow> nat set" where
  "carriers p v = {g. carrying (sv_pc v g) = Some p}"

definition finite_server :: "server \<Rightarrow> bool" where
  "finite_server v \<longleftrightarrow> finite (dom (sv_tickets v)) \<and> finite {g. sv_pc v g \<noteq> PAbsent}"

lemma carrying_leaving [simp]: "carrying (leaving env e) = None"
  using leaving_cases [of env e] by auto

lemma finite_parts: "finite_server v \<Longrightarrow> finite (stored p v)" "finite_server v \<Longrightarrow> finite (carriers p v)"
proof -
  have "stored p v \<subseteq> dom (sv_tickets v)" by (auto simp: stored_def)
  then show "finite_server v \<Longrightarrow> finite (stored p v)" unfolding finite_server_def by (blast intro: finite_subset)
  have "carriers p v \<subseteq> {g. sv_pc v g \<noteq> PAbsent}" by (auto simp: carriers_def)
  then show "finite_server v \<Longrightarrow> finite (carriers p v)" unfolding finite_server_def by (blast intro: finite_subset)
qed

text \<open>What a step of goroutine \<open>g\<close> does to the tickets and to what \<open>g\<close> carries.\<close>

definition pays :: "server \<Rightarrow> nat \<Rightarrow> server \<Rightarrow> bool" where
  "pays v g w \<longleftrightarrow> (\<exists>x. sv_pc w = (sv_pc v)(g := x) \<and>
     (sv_tickets w = sv_tickets v \<and> (carrying x = None \<or> carrying x = carrying (sv_pc v g)) \<or>
      carrying (sv_pc v g) = None \<and> (\<exists>k r. sv_tickets v k = Some r \<and> sv_tickets w = (sv_tickets v)(k := None) \<and>
         (carrying x = None \<or> carrying x = Some (tk_PlayerID r)))) \<and>
     (\<forall>p. x = PBooting p \<and> sv_pc v g \<noteq> x \<longrightarrow> carrying (sv_pc v g) = Some p))"

lemma pays_go:
  assumes "sv_pc w = sv_pc v" "sv_tickets w = sv_tickets v" "carrying x = None \<or> carrying x = carrying (sv_pc v g)"
    "\<And>p. x = PBooting p \<Longrightarrow> carrying (sv_pc v g) = Some p"
  shows "pays v g (go g x w)"
  unfolding pays_def using assms by (intro exI [of _ x]) (auto simp: go_def)

lemma pays_self: "pays v g v"
  unfolding pays_def by (intro exI [of _ "sv_pc v g"]) simp

lemma put_conn_fields [simp]: "sv_pc (put_conn g s v) = sv_pc v" "sv_tickets (put_conn g s v) = sv_tickets v"
  by (simp_all add: put_conn_def)

lemma not_booting [simp]: "leaving env e \<noteq> PBooting p" "after_refused env k \<noteq> PBooting p" "after_closed k \<noteq> PBooting p"
  "carrying (after_refused env k) = None" "carrying (after_closed k) = None"
  by (auto simp: after_refused_def after_closed_def split: after.split)

lemma conclude_pays: "pays v g (conclude env g s v)"
proof (cases "sv_pc v g")
  case (PDisconnecting r k)
  then show ?thesis by (auto simp: conclude_def intro!: pays_go split: prod.split option.split)
next
  case (PClosing k)
  then show ?thesis by (auto simp: conclude_def intro!: pays_go)
next
  case PRemoving
  then show ?thesis by (auto simp: conclude_def intro!: pays_go)
next
  case PUnbinding
  then show ?thesis by (auto simp: conclude_def intro!: pays_go split: prod.split option.split)
next
  case (PUnhosting p)
  then show ?thesis by (auto simp: conclude_def intro!: pays_go)
qed (simp_all add: conclude_def pays_self)

lemma consume_pays:
  assumes "sv_pc v g = PStarted t" shows "pays v g (authenticate env oc g s v)"
proof -
  have same: "pays v g (go g (PRejecting e) (v\<lparr>sv_tickets := sv_tickets v\<rparr>))" for e
    by (rule pays_go) simp_all
  have taken: "pays v g (go g x (v\<lparr>sv_tickets := (sv_tickets v)(k := None)\<rparr>))"
    if "sv_tickets v k = Some r" "x = PResolving (tk_PlayerID r) \<or> (\<exists>e. x = PRejecting e)" for k r x
  proof -
    have "\<exists>k' r'. sv_tickets v k' = Some r' \<and> sv_tickets (go g x (v\<lparr>sv_tickets := (sv_tickets v)(k := None)\<rparr>)) = (sv_tickets v)(k' := None) \<and>
        (carrying x = None \<or> carrying x = Some (tk_PlayerID r'))"
      using that by (intro exI [of _ k] exI [of _ r]) (auto simp: go_def)
    moreover have "sv_pc (go g x (v\<lparr>sv_tickets := (sv_tickets v)(k := None)\<rparr>)) = (sv_pc v)(g := x)" by (simp add: go_def)
    moreover have "\<And>p. x \<noteq> PBooting p" "carrying (sv_pc v g) = None" using that(2) assms by auto
    ultimately show ?thesis unfolding pays_def by blast
  qed
  show ?thesis
    using assms same taken by (auto simp: authenticate_defs Consume_def split: option.split)
qed

lemma authenticate_pays: "pays v g (authenticate env oc g s v)"
proof (cases "sv_pc v g")
  case (PReceived t)
  then show ?thesis by (auto simp: authenticate_defs intro!: pays_go)
next
  case (PAllowed t)
  then show ?thesis by (auto simp: authenticate_defs intro!: pays_go)
next
  case (PSecured t)
  then show ?thesis by (auto simp: authenticate_defs intro!: pays_go split: prod.split option.split)
next
  case (PStarted t)
  then show ?thesis by (rule consume_pays)
next
  case (PResolving p)
  then show ?thesis by (auto simp: authenticate_defs intro!: pays_go split: option.split)
next
  case (PBanCheck r)
  then show ?thesis by (auto simp: authenticate_defs intro!: pays_go)
next
  case (PResolved r)
  then show ?thesis by (auto simp: authenticate_defs intro!: pays_go split: prod.split option.split)
next
  case (PAuthenticated r at)
  have "lp_snapshot pl = r" if "host_player env oc s r at = Inr pl" for pl
    using that by (auto simp: host_player_def NewPlayer_def split: sum.splits if_splits)
  with PAuthenticated show ?thesis by (auto simp: authenticate_defs intro!: pays_go split: sum.split)
next
  case (PHosting pl)
  then show ?thesis by (auto simp: authenticate_defs intro!: pays_go split: prod.split option.split)
next
  case (PHosted pl)
  then show ?thesis by (auto simp: authenticate_defs intro!: pays_go split: prod.split option.split)
next
  case (PEvicting p e)
  then show ?thesis by (auto simp: authenticate_defs intro!: pays_go)
next
  case (PBooting p)
  then show ?thesis by (auto simp: authenticate_defs intro!: pays_go split: prod.split option.split)
next
  case (PRejecting e)
  then show ?thesis by (auto simp: authenticate_defs intro!: pays_go)
qed (simp_all add: authenticate_defs conclude_pays)

definition balance :: "int \<Rightarrow> server \<Rightarrow> nat" where
  "balance p v = card (stored p v) + card (carriers p v)"

lemma carriers_move: "sv_pc w = (sv_pc v)(g := x) \<Longrightarrow>
    carriers p w = (if carrying x = Some p then insert g (carriers p v) else carriers p v - {g})"
  by (auto simp: carriers_def split: if_splits)

text \<open>Tickets and carriers pay for each binding.\<close>

lemma pays_balance:
  assumes "pays v g w" "finite_server v"
  shows "finite_server w \<and> balance p w + (if sv_pc w g = PBooting p \<and> sv_pc v g \<noteq> PBooting p then 1 else 0) \<le> balance p v"
proof -
  obtain x where x: "sv_pc w = (sv_pc v)(g := x)" and boot: "\<And>p. x = PBooting p \<Longrightarrow> sv_pc v g \<noteq> x \<Longrightarrow> carrying (sv_pc v g) = Some p"
    and paid: "sv_tickets w = sv_tickets v \<and> (carrying x = None \<or> carrying x = carrying (sv_pc v g)) \<or>
      carrying (sv_pc v g) = None \<and> (\<exists>k r. sv_tickets v k = Some r \<and> sv_tickets w = (sv_tickets v)(k := None) \<and>
         (carrying x = None \<or> carrying x = Some (tk_PlayerID r)))"
    using assms(1) unfolding pays_def by blast
  note fin = finite_parts [OF assms(2), of p]
  have "{h. sv_pc w h \<noteq> PAbsent} \<subseteq> insert g {h. sv_pc v h \<noteq> PAbsent}" using x by auto
  then have finite_pc: "finite {h. sv_pc w h \<noteq> PAbsent}"
    using assms(2) by (auto simp: finite_server_def intro: finite_subset)
  have "dom (sv_tickets w) \<subseteq> dom (sv_tickets v)" using paid by (auto split: if_splits)
  then have finite_w: "finite_server w"
    using assms(2) finite_pc by (auto simp: finite_server_def intro: finite_subset)
  have move: "carriers p w = (if carrying x = Some p then insert g (carriers p v) else carriers p v - {g})"
    by (rule carriers_move [OF x])
  have at: "sv_pc w g = x" "g \<in> carriers p v \<longleftrightarrow> carrying (sv_pc v g) = Some p" using x by (simp_all add: carriers_def)
  have drop: "card (carriers p v - {g}) + 1 = card (carriers p v)" if "carrying (sv_pc v g) = Some p"
    using that at(2) fin(2) by (simp add: card_Diff_singleton card_gt_0_iff Suc_leI) (metis Suc_pred card_gt_0_iff empty_iff)
  have less: "card (carriers p v - {g}) \<le> card (carriers p v)" using fin(2) by (simp add: card_mono)
  show ?thesis
  proof (cases "sv_tickets w = sv_tickets v \<and> (carrying x = None \<or> carrying x = carrying (sv_pc v g))")
    case True
    then have "stored p w = stored p v" by (simp add: stored_def)
    moreover have "card (carriers p w) + (if x = PBooting p \<and> sv_pc v g \<noteq> PBooting p then 1 else 0) \<le> card (carriers p v)"
    proof (cases "carrying x = Some p")
      case c: True
      then have "carriers p w = carriers p v" using True at(2) move by (auto simp: insert_absorb)
      with c show ?thesis by auto
    next
      case False
      then show ?thesis using move drop less boot [of p] by auto
    qed
    ultimately show ?thesis using finite_w at(1) by (simp add: balance_def)
  next
    case False
    with paid obtain k r where kr: "carrying (sv_pc v g) = None" "sv_tickets v k = Some r" "sv_tickets w = (sv_tickets v)(k := None)"
      "carrying x = None \<or> carrying x = Some (tk_PlayerID r)" by blast
    then have not_boot: "x \<noteq> PBooting p \<or> sv_pc v g = PBooting p" using boot [of p] by auto
    have stored: "stored p w = stored p v - {k}" using kr(2,3) by (auto simp: stored_def split: if_splits)
    show ?thesis
    proof (cases "carrying x = Some p")
      case True
      then have "k \<in> stored p v" using kr by (auto simp: stored_def)
      then have "card (stored p v - {k}) + 1 = card (stored p v)" using fin(1)
        by (metis Suc_eq_plus1 card.remove)
      moreover have "card (carriers p w) \<le> card (carriers p v) + 1" using move True fin(2) by (simp add: card_insert_if)
      ultimately show ?thesis using finite_w at(1) not_boot stored by (auto simp: balance_def)
    next
      case False
      have "card (stored p v - {k}) \<le> card (stored p v)" using fin(1) by (simp add: card_mono)
      then show ?thesis using finite_w at(1) not_boot stored move False less by (auto simp: balance_def)
    qed
  qed
qed

lemma quiet_balance:
  assumes "sv_tickets w = sv_tickets v" "\<And>g. carrying (sv_pc w g) = carrying (sv_pc v g)"
    and "finite_server v" "finite {g. sv_pc w g \<noteq> PAbsent}"
  shows "finite_server w \<and> balance p w \<le> balance p v"
  using assms by (simp add: finite_server_def balance_def stored_def carriers_def)

lemma finite_others: "finite {h. f h \<noteq> PAbsent} \<Longrightarrow> finite {h. h \<noteq> g \<longrightarrow> f h \<noteq> PAbsent}"
  by (rule finite_subset [of _ "insert g {h. f h \<noteq> PAbsent}"]) auto

lemma step_balance:
  assumes fin: "finite_server v"
  shows "finite_server (login_step env op v) \<and>
    balance p (login_step env op v) + (if binds env p op v then 1 else 0) \<le> balance p v + (if issues p op then 1 else 0)"
proof (cases op)
  case (LCreate fault drawn q ip)
  let ?m = "fst (sso_Create (le_key env) fault drawn q ip (sv_tickets v))"
  have "card (stored p (v\<lparr>sv_tickets := ?m\<rparr>)) \<le> card (stored p v) + (if issues p op then 1 else 0)"
  proof (cases "issues p op")
    case True
    then obtain t where v: "fault = False" "drawn = Some t" "q = p" "p > 0" using LCreate by (auto simp: issues_def)
    have "stored p (v\<lparr>sv_tickets := ?m\<rparr>) = insert (le_key env t) (stored p v)"
      using v by (auto simp: stored_def sso_Create_def)
    then show ?thesis using True finite_parts(1) [OF fin] by (simp add: card_insert_if)
  next
    case False
    have "stored p (v\<lparr>sv_tickets := ?m\<rparr>) \<subseteq> stored p v"
      using False LCreate by (auto simp: stored_def sso_Create_def issues_def split: if_splits option.splits)
    then show ?thesis using False finite_parts(1) [OF fin] by (simp add: card_mono)
  qed
  moreover have "finite_server (v\<lparr>sv_tickets := ?m\<rparr>)"
    using fin by (auto simp: finite_server_def sso_Create_def split: option.split)
  moreover have "carriers p (v\<lparr>sv_tickets := ?m\<rparr>) = carriers p v" by (simp add: carriers_def)
  ultimately show ?thesis using LCreate by (simp add: login_step_def balance_def binds_def)
next
  case (LExpire k)
  have "stored p (v\<lparr>sv_tickets := (sv_tickets v)(k := None)\<rparr>) \<subseteq> stored p v" by (auto simp: stored_def split: if_splits)
  then have "card (stored p (v\<lparr>sv_tickets := (sv_tickets v)(k := None)\<rparr>)) \<le> card (stored p v)"
    using finite_parts(1) [OF fin] by (simp add: card_mono)
  then show ?thesis
    using fin LExpire by (auto simp: login_step_def balance_def carriers_def finite_server_def binds_def)
next
  case (LAccept now ip g)
  have "finite_server (newSocketSession env now ip g v) \<and> balance p (newSocketSession env now ip g v) \<le> balance p v"
    using fin by (intro quiet_balance)
      (auto simp: newSocketSession_def finite_server_def split: sum.split prod.split option.split intro: finite_others)

  then show ?thesis using LAccept by (simp add: login_step_def binds_def)
next
  case (LOther g sop)
  have "finite_server (login_step env op v) \<and> balance p (login_step env op v) \<le> balance p v"
    using fin LOther by (intro quiet_balance) (auto simp: login_step_def finite_server_def split: option.split)
  then show ?thesis using LOther by (simp add: binds_def)
next
  case (LTicket now g ticket)
  have "finite_server (receive_ticket env now g ticket v) \<and> balance p (receive_ticket env now g ticket v) \<le> balance p v"
    using fin by (intro quiet_balance)
      (auto simp: receive_ticket_def go_def finite_server_def split: option.split prod.split intro: finite_others)
  then show ?thesis using LTicket by (simp add: login_step_def binds_def)
next
  case (LHangup g r)
  have "finite_server (login_step env op v) \<and> balance p (login_step env op v) \<le> balance p v"
    using fin LHangup by (intro quiet_balance) (auto simp: login_step_def go_def finite_server_def intro: finite_others)
  then show ?thesis using LHangup by (simp add: binds_def)
next
  case (LAdvance g oc)
  show ?thesis
  proof (cases "sv_sessions v g")
    case (Some s)
    then have "login_step env op v = authenticate env oc g s v" using LAdvance by (simp add: login_step_def)
    then show ?thesis using pays_balance [OF authenticate_pays fin] LAdvance by (simp add: binds_def issues_def)
  qed (use fin LAdvance in \<open>simp add: login_step_def binds_def\<close>)
qed

lemma run_balance:
  "finite_server v \<Longrightarrow> balance p (fold (login_step env) ops v) + logins env p ops v \<le> balance p v + issued p ops"
proof (induction ops arbitrary: v)
  case (Cons op ops)
  have "finite_server (login_step env op v)" using step_balance [OF Cons.prems] by blast
  from Cons.IH [OF this] show ?case
    using step_balance [OF Cons.prems, of env op p] by (auto simp: issued_def split: if_splits)
qed (simp add: issued_def)

text \<open>C40: A ticket admits at most once. However connections interleave, replay and fail, the number of times a player is
  bound to a connection, plus the tickets still stored for the player, never exceeds the number of tickets
  issued for that player.\<close>

theorem logins_need_tickets:
  "logins env p ops empty_server + card (stored p (fold (login_step env) ops empty_server)) \<le> issued p ops"
proof -
  have "finite_server empty_server" "balance p empty_server = 0"
    by (simp_all add: finite_server_def empty_server_def balance_def stored_def carriers_def)
  then show ?thesis using run_balance [of empty_server p env ops] by (simp add: balance_def)
qed

subsection \<open>A sample run\<close>

definition sample_env :: login_env where
  "sample_env = \<lparr>le_key = (\<lambda>t. ''sso:'' @ t), le_uuid = (\<lambda>n. replicate (Suc n) (CHR ''u'')), le_msg = (\<lambda>_. []),
     le_text = (\<lambda>_. []), le_policy = None, le_sanctions = True, le_settings = True, le_respects = True\<rparr>"

definition fine :: outcome where
  "fine = \<lparr>oc_fault = False, oc_now = 9, oc_username = Some ''ann'', oc_banned = False\<rparr>"

text \<open>Ann logs in over one connection, a second connection replays the ticket, then the first one hangs up.\<close>

definition sample_login :: "login_op list" where
  "sample_login = [LCreate False (Some ''t'') 7 [], LAccept 1 ''::1'' 0, LAccept 1 ''::1'' 1, LTicket 2 0 ''t'', LTicket 2 1 ''t''] @
     replicate 4 (LAdvance 0 fine) @ replicate 4 (LAdvance 1 fine) @ replicate 7 (LAdvance 0 fine)"

lemma sample_uuid: "inj (le_uuid sample_env)" "le_uuid sample_env n \<noteq> []"
proof -
  have "m = n" if "replicate (Suc m) (CHR ''u'') = replicate (Suc n) (CHR ''u'')" for m n
    using arg_cong [OF that, of length] by simp
  then show "inj (le_uuid sample_env)" by (simp add: sample_env_def inj_def)
qed (simp add: sample_env_def)

theorem one_login_per_player_witness:
  "\<exists>b. FindByConnection (''websocket'', ''u'') (sv_bindings (fold (login_step sample_env) sample_login empty_server)) = Some b \<and>
     bd_PlayerID b = 7"
proof -
  let ?v = "fold (login_step sample_env) sample_login empty_server"
  have "map_option bd_ConnectionID (FindByPlayer 7 (sv_bindings ?v)) = Some ''u''"
    "map_option bd_ConnectionKind (FindByPlayer 7 (sv_bindings ?v)) = Some ''websocket''" by code_simp+
  then obtain b where b: "FindByPlayer 7 (sv_bindings ?v) = Some b" "binding_key b = (''websocket'', ''u'')"
    by (auto simp: binding_key_def)
  have "bd_PlayerID b = 7 \<and> FindByConnection (binding_key b) (sv_bindings ?v) = Some b"
    using one_login_per_player [OF sample_uuid, of sample_login] b(1) by blast
  then show ?thesis using b(2) by auto
qed

text \<open>Both connections hang up; the others were never there.\<close>

definition sample_end :: "login_op list" where
  "sample_end = replicate 3 (LAdvance 1 fine) @ [LHangup 0 kicked, LHangup 1 kicked] @
     replicate 6 (LAdvance 0 fine) @ replicate 6 (LAdvance 1 fine)"

fun subject :: "login_op \<Rightarrow> nat option" where
  "subject (LAccept _ _ g) = Some g"
| "subject (LOther g _) = Some g"
| "subject (LTicket _ g _) = Some g"
| "subject (LHangup g _) = Some g"
| "subject (LAdvance g _) = Some g"
| "subject _ = None"

lemma others_stay:
  assumes "subject op \<noteq> Some h" shows "sv_pc (login_step env op v) h = sv_pc v h"
proof (cases op)
  case (LAdvance g oc)
  have "sv_pc (authenticate env oc g s v) h = sv_pc v h" for s
    using authenticate_pays [of v g env oc s] assms LAdvance by (auto simp: pays_def)
  then show ?thesis using LAdvance by (simp add: login_step_def split: option.split)
qed (use assms in \<open>auto simp: login_step_def newSocketSession_def receive_ticket_def go_def split: option.split sum.split prod.split\<close>)

lemma run_others_stay:
  "list_all (\<lambda>op. subject op \<noteq> Some h) ops \<Longrightarrow> sv_pc (fold (login_step env) ops v) h = sv_pc v h"
  by (induction ops arbitrary: v) (simp_all add: others_stay)

theorem admission_is_guarded_witness:
  "sv_bindings (fold (login_step sample_env) (sample_login @ sample_end) empty_server) = no_bindings"
proof -
  let ?ops = "sample_login @ sample_end"
  let ?v = "fold (login_step sample_env) ?ops empty_server"
  have "sv_pc ?v g = PAbsent \<or> sv_pc ?v g = PGone" for g
  proof (cases "g = 0 \<or> g = 1")
    case True
    have "sv_pc ?v 0 = PGone" "sv_pc ?v 1 = PGone" by code_simp+
    then show ?thesis using True by blast
  next
    case False
    then have "list_all (\<lambda>op. subject op \<noteq> Some g) ?ops" by (simp add: sample_login_def sample_end_def numeral_eq_Suc)
    then show ?thesis using run_others_stay [of g ?ops] by (simp add: empty_server_def)
  qed
  then show ?thesis using admission_is_guarded [OF sample_uuid, of ?ops] by blast
qed

end
