(* ===== verification/Grid.thy ===== *)
theory Grid
  imports Pixels_Prelude
begin

text \<open>
  The room heightmap of \<^verbatim>\<open>internal/realm/room/world/grid\<close>: points, tiles, the compact grid, the
  heightmap parser and the encoder. A \<^verbatim>\<open>Height\<close> is a 16-bit word read with \<open>sint\<close>; a heightmap
  is the list of its code points (Go ranges over the runes of the string). The byte column of
  a \<^verbatim>\<open>ParseError\<close> is the number of runes before it, since every rune accepted before it is ASCII.
\<close>

subsection \<open>Heights and points\<close>

type_synonym height = i16
type_synonym rune = int

definition HeightScale :: height where "HeightScale = 4"
definition AvatarClearance :: height where "AvatarClearance = 8"

definition HeightFromInt :: "int \<Rightarrow> height" where
  "HeightFromInt v = word_of_int v * HeightScale"

text \<open>\<^verbatim>\<open>FormatFloat(height/4, 'f', -1, 64)\<close>: the quarter is exact, so the shortest text is too.\<close>

definition quarter_text :: "nat \<Rightarrow> string" where
  "quarter_text q = (if q = 0 then [] else if q = 1 then ''.25'' else if q = 2 then ''.5'' else ''.75'')"

definition height_String :: "height \<Rightarrow> string" where
  "height_String h =
     (let n = sint h; a = nat \<bar>n\<bar>
      in (if n < 0 then ''-'' else []) @ nat_dec (a div 4) @ quarter_text (a mod 4))"

datatype point = Point (px: u16) (py: u16)

text \<open>Points in row-major order, the order in which column versions are listed.\<close>

instantiation point :: linorder
begin

definition less_eq_point :: "point \<Rightarrow> point \<Rightarrow> bool" where
  "less_eq_point a b \<longleftrightarrow> (if py a = py b then px a \<le> px b else py a < py b)"

definition less_point :: "point \<Rightarrow> point \<Rightarrow> bool" where
  "less_point a b \<longleftrightarrow> (if py a = py b then px a < px b else py a < py b)"

instance
  by standard (auto simp: less_eq_point_def less_point_def point.expand split: if_splits)

end

definition NewPoint :: "int \<Rightarrow> int \<Rightarrow> point option" where
  "NewPoint x y =
     (if x < 0 \<or> y < 0 \<or> x > 65535 \<or> y > 65535 then None
      else Some (Point (word_of_int x) (word_of_int y)))"

definition directionOffset :: "u8 \<Rightarrow> int \<times> int" where
  "directionOffset rotation =
     (let r = unat rotation mod 8
      in if r = 0 then (0, - 1) else if r = 1 then (1, - 1) else if r = 2 then (1, 0)
         else if r = 3 then (1, 1) else if r = 4 then (0, 1) else if r = 5 then (- 1, 1)
         else if r = 6 then (- 1, 0) else (- 1, - 1))"

definition PointInFront :: "point \<Rightarrow> u8 \<Rightarrow> point option" where
  "PointInFront p rotation =
     (let (dx, dy) = directionOffset rotation in NewPoint (uint (px p) + dx) (uint (py p) + dy))"

definition absolute :: "int \<Rightarrow> int" where
  "absolute v = (if v < 0 then - v else v)"

definition Adjacent :: "point \<Rightarrow> point \<Rightarrow> bool" where
  "Adjacent a b =
     (let dx = absolute (uint (px a) - uint (px b)); dy = absolute (uint (py a) - uint (py b))
      in (dx \<noteq> 0 \<or> dy \<noteq> 0) \<and> dx \<le> 1 \<and> dy \<le> 1)"

subsection \<open>Tiles and grids\<close>

type_synonym tile_flag = u8

definition FlagInvalid :: tile_flag where "FlagInvalid = 1"
definition FlagDoor :: tile_flag where "FlagDoor = 2"

record tile =
  tile_point :: point
  tile_height :: height
  tile_flags :: tile_flag

definition tile_Valid :: "tile \<Rightarrow> bool" where
  "tile_Valid t \<longleftrightarrow> tile_flags t AND FlagInvalid = 0"

definition tile_Door :: "tile \<Rightarrow> bool" where
  "tile_Door t \<longleftrightarrow> tile_flags t AND FlagDoor \<noteq> 0"

record grid =
  g_width :: u16
  g_height :: u16
  g_heights :: "height list"
  g_flags :: "tile_flag list"
  g_door :: point
  g_hasDoor :: bool
  g_validCount :: nat

definition TileCount :: "grid \<Rightarrow> nat" where
  "TileCount g = unat (g_width g) * unat (g_height g)"

definition grid_Door :: "grid \<Rightarrow> point \<times> bool" where
  "grid_Door g = (g_door g, g_hasDoor g)"

definition InBounds :: "grid \<Rightarrow> point \<Rightarrow> bool" where
  "InBounds g p \<longleftrightarrow> px p < g_width g \<and> py p < g_height g"

definition grid_Index :: "grid \<Rightarrow> point \<Rightarrow> nat option" where
  "grid_Index g p =
     (if \<not> InBounds g p then None else Some (unat (py p) * unat (g_width g) + unat (px p)))"

definition grid_Tile :: "grid \<Rightarrow> point \<Rightarrow> tile option" where
  "grid_Tile g p = (case grid_Index g p of None \<Rightarrow> None
     | Some i \<Rightarrow> Some \<lparr>tile_point = p, tile_height = g_heights g ! i, tile_flags = g_flags g ! i\<rparr>)"

definition HeightAt :: "grid \<Rightarrow> point \<Rightarrow> height option" where
  "HeightAt g p = (case grid_Tile g p of None \<Rightarrow> None
     | Some t \<Rightarrow> if tile_Valid t then Some (tile_height t) else None)"

definition FlagsAt :: "grid \<Rightarrow> point \<Rightarrow> tile_flag option" where
  "FlagsAt g p = (case grid_Index g p of None \<Rightarrow> None | Some i \<Rightarrow> Some (g_flags g ! i))"

definition grid_Valid :: "grid \<Rightarrow> point \<Rightarrow> bool" where
  "grid_Valid g p = (case FlagsAt g p of None \<Rightarrow> False | Some f \<Rightarrow> f AND FlagInvalid = 0)"

subsection \<open>The heightmap parser\<close>

datatype grid_error =
    ErrEmptyHeightmap | ErrIrregularRows | ErrInvalidHeight | ErrOutOfBounds | ErrInvalidDoor
  | ParseError nat nat rune grid_error

record parse_options =
  opt_door :: point
  opt_hasDoor :: bool
  opt_validDoor :: bool

definition no_options :: parse_options where
  "no_options = \<lparr>opt_door = Point 0 0, opt_hasDoor = False, opt_validDoor = False\<rparr>"

definition WithDoor :: "int \<Rightarrow> int \<Rightarrow> parse_options \<Rightarrow> parse_options" where
  "WithDoor x y opts = (case NewPoint x y of
     None \<Rightarrow> opts\<lparr>opt_door := Point 0 0, opt_hasDoor := True, opt_validDoor := False\<rparr>
   | Some p \<Rightarrow> opts\<lparr>opt_door := p, opt_hasDoor := True, opt_validDoor := True\<rparr>)"

text \<open>\<^verbatim>\<open>unicode.IsSpace\<close>, which \<^verbatim>\<open>strings.TrimSpace\<close> uses.\<close>

definition is_space :: "rune \<Rightarrow> bool" where
  "is_space r \<longleftrightarrow> 9 \<le> r \<and> r \<le> 13 \<or> r = 32 \<or> r = 133 \<or> r = 160 \<or> r = 5760 \<or>
     8192 \<le> r \<and> r \<le> 8202 \<or> r = 8232 \<or> r = 8233 \<or> r = 8239 \<or> r = 8287 \<or> r = 12288"

definition trim :: "(rune \<Rightarrow> bool) \<Rightarrow> rune list \<Rightarrow> rune list" where
  "trim P s = rev (dropWhile P (rev (dropWhile P s)))"

text \<open>\<^verbatim>\<open>strings.TrimSpace\<close> on a string.\<close>

definition TrimSpace :: "string \<Rightarrow> string" where
  "TrimSpace s = rev (dropWhile (\<lambda>c. is_space (of_char c)) (rev (dropWhile (\<lambda>c. is_space (of_char c)) s)))"

text \<open>\<open>strings.ReplaceAll(s, "\r\n", "\r")\<close>.\<close>

fun replace_crlf :: "rune list \<Rightarrow> rune list" where
  "replace_crlf (a # b # s) =
     (if a = 13 \<and> b = 10 then 13 # replace_crlf s else a # replace_crlf (b # s))"
| "replace_crlf s = s"

text \<open>\<^verbatim>\<open>strings.Split\<close> at one separator rune.\<close>

fun split_at :: "'a \<Rightarrow> 'a list \<Rightarrow> 'a list list" where
  "split_at sep [] = [[]]"
| "split_at sep (r # s) =
     (if r = sep then [] # split_at sep s
      else (case split_at sep s of [] \<Rightarrow> [[r]] | row # rows \<Rightarrow> (r # row) # rows))"

definition normalizeRows :: "rune list \<Rightarrow> rune list list" where
  "normalizeRows s =
     (let t = trim is_space s;
          u = replace_crlf t;
          v = map (\<lambda>r. if r = 10 then 13 else r) u;
          n = trim (\<lambda>r. r = 13) v
      in if n = [] then [] else split_at 13 n)"

text \<open>The result of a tile rune: its height and whether the tile exists.\<close>

definition parseHeight :: "rune \<Rightarrow> grid_error + height \<times> bool" where
  "parseHeight v =
     (if v = 120 \<or> v = 88 then Inr (0, False)
      else if v \<ge> 48 \<and> v \<le> 57 then Inr (HeightFromInt (v - 48), True)
      else if v \<ge> 97 \<and> v \<le> 122 then Inr (HeightFromInt (v - 97 + 10), True)
      else if v \<ge> 65 \<and> v \<le> 90 then Inr (HeightFromInt (v - 65 + 10), True)
      else Inl ErrInvalidHeight)"

fun parseRow :: "grid \<Rightarrow> nat \<Rightarrow> nat \<Rightarrow> rune list \<Rightarrow> grid_error + grid" where
  "parseRow g row col [] = Inr g"
| "parseRow g row col (v # vs) = (case parseHeight v of
     Inl e \<Rightarrow> Inl (ParseError row col v e)
   | Inr (h, valid) \<Rightarrow>
       parseRow (g\<lparr>g_validCount := (if valid then Suc (g_validCount g) else g_validCount g),
                   g_heights := g_heights g @ [h],
                   g_flags := g_flags g @ [if valid then 0 else FlagInvalid]\<rparr>) row (Suc col) vs)"

fun parseRowLoop :: "grid \<Rightarrow> nat \<Rightarrow> nat \<Rightarrow> rune list list \<Rightarrow> grid_error + grid" where
  "parseRowLoop g width row [] = Inr g"
| "parseRowLoop g width row (r # rs) =
     (if length r \<noteq> width then Inl (ParseError row 0 0 ErrIrregularRows)
      else (case parseRow g row 0 r of
        Inl e \<Rightarrow> Inl e | Inr g' \<Rightarrow> parseRowLoop g' width (Suc row) rs))"

definition parseRows :: "rune list list \<Rightarrow> nat \<Rightarrow> grid_error + grid" where
  "parseRows rows width =
     (if width > 65535 \<or> length rows > 65535 then Inl ErrOutOfBounds
      else parseRowLoop \<lparr>g_width = word_of_nat width, g_height = word_of_nat (length rows),
             g_heights = [], g_flags = [], g_door = Point 0 0, g_hasDoor = False,
             g_validCount = 0\<rparr> width 0 rows)"

definition applyDoor :: "grid \<Rightarrow> parse_options \<Rightarrow> grid_error + grid" where
  "applyDoor g opts =
     (if \<not> opt_hasDoor opts then Inr g
      else if \<not> opt_validDoor opts then Inl ErrInvalidDoor
      else (case grid_Index g (opt_door opts) of
        None \<Rightarrow> Inl ErrInvalidDoor
      | Some i \<Rightarrow> if g_flags g ! i AND FlagInvalid \<noteq> 0 then Inl ErrInvalidDoor
          else Inr (g\<lparr>g_door := opt_door opts, g_hasDoor := True,
                      g_flags := (g_flags g)[i := g_flags g ! i OR FlagDoor]\<rparr>)))"

definition Parse :: "rune list \<Rightarrow> (parse_options \<Rightarrow> parse_options) list \<Rightarrow> grid_error + grid" where
  "Parse heightmap opts =
     (let settings = fold (\<lambda>opt s. opt s) opts no_options; rows = normalizeRows heightmap
      in if rows = [] then Inl ErrEmptyHeightmap
         else (let width = length (hd rows)
           in if width = 0 then Inl ErrEmptyHeightmap
              else (case parseRows rows width of Inl e \<Rightarrow> Inl e
                | Inr g \<Rightarrow> applyDoor g settings)))"

subsection \<open>The encoder\<close>

definition encodeHeight :: "height \<Rightarrow> grid_error + rune" where
  "encodeHeight h =
     (if sint h mod sint HeightScale \<noteq> 0 then Inl ErrInvalidHeight
      else (let u = sint h div sint HeightScale
        in if u \<ge> 0 \<and> u \<le> 9 then Inr (48 + u)
           else if u \<ge> 10 \<and> u \<le> 35 then Inr (97 + u - 10)
           else Inl ErrInvalidHeight))"

definition encodeTile :: "grid \<Rightarrow> point \<Rightarrow> grid_error + rune" where
  "encodeTile g p = (case grid_Tile g p of None \<Rightarrow> Inl ErrOutOfBounds
     | Some t \<Rightarrow> if \<not> tile_Valid t then Inr 120 else encodeHeight (tile_height t))"

fun encodeCells :: "grid \<Rightarrow> rune list \<Rightarrow> point list \<Rightarrow> grid_error + rune list" where
  "encodeCells g out [] = Inr out"
| "encodeCells g out (p # ps) = (case encodeTile g p of
     Inl e \<Rightarrow> Inl e | Inr v \<Rightarrow> encodeCells g (out @ [v]) ps)"

fun encodeRows :: "grid \<Rightarrow> rune list \<Rightarrow> nat list \<Rightarrow> grid_error + rune list" where
  "encodeRows g out [] = Inr out"
| "encodeRows g out (y # ys) =
     (case encodeCells g (if y > 0 then out @ [13] else out)
        (map (\<lambda>x. Point (word_of_nat x) (word_of_nat y)) [0..<unat (g_width g)]) of
      Inl e \<Rightarrow> Inl e | Inr out' \<Rightarrow> encodeRows g out' ys)"

definition Encode :: "grid \<Rightarrow> grid_error + rune list" where
  "Encode g = (if g_width g = 0 \<or> g_height g = 0 then Inl ErrEmptyHeightmap
     else encodeRows g [] [0..<unat (g_height g)])"

subsection \<open>Points\<close>

lemma NewPoint_Some:
  "NewPoint x y = Some p \<longleftrightarrow>
     0 \<le> x \<and> x \<le> 65535 \<and> 0 \<le> y \<and> y \<le> 65535 \<and> p = Point (word_of_int x) (word_of_int y)"
  by (auto simp: NewPoint_def)

lemma NewPoint_coords:
  "NewPoint x y = Some p \<Longrightarrow> uint (px p) = x \<and> uint (py p) = y"
  by (auto simp: NewPoint_Some word16_of_int_uint)

lemma NewPoint_uint [simp]: "NewPoint (uint (px p)) (uint (py p)) = Some p"
  using u16_uint_le [of "px p"] u16_uint_le [of "py p"]
  by (cases p) (auto simp: NewPoint_def simp del: u16_uint_le)

lemma absolute_abs [simp]: "absolute v = \<bar>v\<bar>"
  by (simp add: absolute_def)

subsection \<open>What one rune stands for\<close>

definition ok_rune :: "rune \<Rightarrow> bool" where
  "ok_rune v \<longleftrightarrow> \<not> isl (parseHeight v)"

definition rune_height :: "rune \<Rightarrow> height" where
  "rune_height v = fst (projr (parseHeight v))"

definition rune_exists :: "rune \<Rightarrow> bool" where
  "rune_exists v = snd (projr (parseHeight v))"

definition rune_flag :: "rune \<Rightarrow> tile_flag" where
  "rune_flag v = (if rune_exists v then 0 else FlagInvalid)"

text \<open>The rune the encoder writes for a tile that was read from \<open>v\<close>: lower case throughout.\<close>

definition canon_rune :: "rune \<Rightarrow> rune" where
  "canon_rune v = (if v \<ge> 65 \<and> v \<le> 90 then v + 32 else v)"

lemma ok_rune_ranges:
  "ok_rune v \<longleftrightarrow> 48 \<le> v \<and> v \<le> 57 \<or> 65 \<le> v \<and> v \<le> 90 \<or> 97 \<le> v \<and> v \<le> 122"
  by (auto simp: ok_rune_def parseHeight_def)

lemma parseHeight_ok: "ok_rune v \<Longrightarrow> parseHeight v = Inr (rune_height v, rune_exists v)"
  by (cases "parseHeight v") (simp_all add: ok_rune_def rune_height_def rune_exists_def)

lemma parseHeight_Inr_ok: "parseHeight v = Inr r \<Longrightarrow> ok_rune v"
  by (simp add: ok_rune_def)

lemma parseHeight_canon: "ok_rune v \<Longrightarrow> parseHeight (canon_rune v) = parseHeight v"
  by (auto simp: ok_rune_ranges canon_rune_def parseHeight_def)

lemma canon_rune_ok:
  assumes "ok_rune v"
  shows "ok_rune (canon_rune v)" and "\<not> is_space (canon_rune v)"
    and "canon_rune v \<noteq> 13" and "canon_rune v \<noteq> 10"
  using assms by (auto simp: ok_rune_ranges canon_rune_def is_space_def)

lemma canon_rune_same:
  assumes "ok_rune v"
  shows "rune_height (canon_rune v) = rune_height v" "rune_flag (canon_rune v) = rune_flag v"
    "rune_exists (canon_rune v) = rune_exists v"
  using parseHeight_canon [OF assms] by (simp_all add: rune_height_def rune_flag_def rune_exists_def)

lemma sint_HeightFromInt:
  assumes "0 \<le> k" and "k \<le> 35"
  shows "sint (HeightFromInt k) = 4 * k"
proof -
  have "HeightFromInt k = word_of_int (k * 4)"
    by (simp add: HeightFromInt_def HeightScale_def)
  then show ?thesis
    using assms by (simp add: i16_sint_of_int del: of_int_mult)
qed

lemma encodeHeight_rune:
  assumes "ok_rune v" and "rune_exists v"
  shows "encodeHeight (rune_height v) = Inr (canon_rune v)"
proof -
  from assms have "\<not> (v = 120 \<or> v = 88)"
    by (auto simp: rune_exists_def parseHeight_def)
  then obtain k where k: "0 \<le> k" "k \<le> 35" "rune_height v = HeightFromInt k"
    "canon_rune v = (if k \<le> 9 then 48 + k else 97 + k - 10)"
  proof -
    assume *: "\<And>k. 0 \<le> k \<Longrightarrow> k \<le> 35 \<Longrightarrow> rune_height v = HeightFromInt k \<Longrightarrow>
      canon_rune v = (if k \<le> 9 then 48 + k else 97 + k - 10) \<Longrightarrow> thesis"
    show thesis
      using assms(1) \<open>\<not> (v = 120 \<or> v = 88)\<close>
        * [of "if v \<le> 57 then v - 48 else if v \<le> 90 then v - 65 + 10 else v - 97 + 10"]
      by (auto simp: ok_rune_ranges rune_height_def parseHeight_def canon_rune_def split: if_splits)
  qed
  then show ?thesis
    by (auto simp: encodeHeight_def sint_HeightFromInt HeightScale_def Let_def)
qed

lemma rune_invisible: "ok_rune v \<Longrightarrow> \<not> rune_exists v \<Longrightarrow> canon_rune v = 120"
  by (auto simp: rune_exists_def parseHeight_def canon_rune_def ok_rune_ranges split: if_splits)

subsection \<open>What the parser builds\<close>

definition add_cells :: "grid \<Rightarrow> rune list \<Rightarrow> grid" where
  "add_cells g vs = g\<lparr>g_validCount := g_validCount g + length (filter rune_exists vs),
     g_heights := g_heights g @ map rune_height vs, g_flags := g_flags g @ map rune_flag vs\<rparr>"

lemma add_cells_append: "add_cells (add_cells g vs) ws = add_cells g (vs @ ws)"
  by (simp add: add_cells_def)

lemma parseRow_ok:
  "\<forall>v\<in>set vs. ok_rune v \<Longrightarrow> parseRow g row col vs = Inr (add_cells g vs)"
proof (induction vs arbitrary: g col)
  case Nil
  then show ?case by (simp add: add_cells_def)
next
  case (Cons v vs)
  then show ?case
    by (simp add: parseHeight_ok) (simp add: add_cells_def rune_flag_def)
qed

lemma parseRow_Inr: "parseRow g row col vs = Inr g' \<Longrightarrow> \<forall>v\<in>set vs. ok_rune v"
  by (induction g row col vs rule: parseRow.induct)
    (auto split: sum.splits dest: parseHeight_Inr_ok)

lemma parseRowLoop_ok:
  assumes "\<forall>r\<in>set rows. length r = width \<and> (\<forall>v\<in>set r. ok_rune v)"
  shows "parseRowLoop g width row rows = Inr (add_cells g (concat rows))"
  using assms
proof (induction rows arbitrary: g row)
  case Nil
  then show ?case by (simp add: add_cells_def)
next
  case (Cons r rows)
  then show ?case by (simp add: parseRow_ok add_cells_append)
qed

lemma parseRowLoop_Inr:
  "parseRowLoop g width row rows = Inr g' \<Longrightarrow>
     \<forall>r\<in>set rows. length r = width \<and> (\<forall>v\<in>set r. ok_rune v)"
  by (induction g width row rows rule: parseRowLoop.induct)
    (auto split: sum.splits if_splits dest: parseRow_Inr)

text \<open>The rows a parse accepts, and the grid they make before the door is placed.\<close>

definition good_rows :: "nat \<Rightarrow> rune list list \<Rightarrow> bool" where
  "good_rows width rows \<longleftrightarrow> width \<le> 65535 \<and> length rows \<le> 65535 \<and>
     (\<forall>r\<in>set rows. length r = width \<and> (\<forall>v\<in>set r. ok_rune v))"

definition grid_of :: "nat \<Rightarrow> rune list list \<Rightarrow> grid" where
  "grid_of width rows = \<lparr>g_width = word_of_nat width, g_height = word_of_nat (length rows),
     g_heights = map rune_height (concat rows), g_flags = map rune_flag (concat rows),
     g_door = Point 0 0, g_hasDoor = False,
     g_validCount = length (filter rune_exists (concat rows))\<rparr>"

lemma parseRows_Inr: "parseRows rows width = Inr g \<longleftrightarrow> good_rows width rows \<and> g = grid_of width rows"
proof
  assume *: "parseRows rows width = Inr g"
  then have "good_rows width rows"
    by (auto simp: parseRows_def good_rows_def split: if_splits dest: parseRowLoop_Inr)
  with * show "good_rows width rows \<and> g = grid_of width rows"
    by (simp add: parseRows_def good_rows_def parseRowLoop_ok add_cells_def grid_of_def)
next
  assume "good_rows width rows \<and> g = grid_of width rows"
  then show "parseRows rows width = Inr g"
    by (simp add: parseRows_def good_rows_def parseRowLoop_ok add_cells_def grid_of_def)
qed

lemma Parse_Inr:
  assumes "Parse s opts = Inr g"
  obtains rows width where "rows = normalizeRows s" "rows \<noteq> []" "width = length (hd rows)" "0 < width"
    "good_rows width rows" "applyDoor (grid_of width rows) (fold (\<lambda>opt s. opt s) opts no_options) = Inr g"
  using assms by (auto simp: Parse_def Let_def parseRows_Inr split: if_splits sum.splits)

subsection \<open>Normalized rows survive normalization\<close>

lemma trim_id: "s = [] \<or> \<not> P (hd s) \<and> \<not> P (last s) \<Longrightarrow> trim P s = s"
  by (auto simp: trim_def dropWhile_hd hd_rev)

lemma replace_crlf_id: "10 \<notin> set s \<Longrightarrow> replace_crlf s = s"
  by (induction s rule: replace_crlf.induct) auto

lemma split_at_append:
  "sep \<notin> set r \<Longrightarrow> split_at sep (r @ sep # s) = r # split_at sep s"
  by (induction r) auto

lemma split_at_id: "sep \<notin> set r \<Longrightarrow> split_at sep r = [r]"
  by (induction r) auto

lemma split_at_join:
  "rows \<noteq> [] \<Longrightarrow> \<forall>r\<in>set rows. sep \<notin> set r \<Longrightarrow> split_at sep (join sep rows) = rows"
  by (induction sep rows rule: join.induct) (simp_all add: split_at_append split_at_id)

lemma set_join: "set (join sep rows) \<subseteq> insert sep (\<Union>r\<in>set rows. set r)"
  by (induction sep rows rule: join.induct) auto

lemma hd_join: "rows \<noteq> [] \<Longrightarrow> hd rows \<noteq> [] \<Longrightarrow> join sep rows \<noteq> [] \<and> hd (join sep rows) = hd (hd rows)"
  by (induction sep rows rule: join.induct) auto

lemma last_join:
  "rows \<noteq> [] \<Longrightarrow> \<forall>r\<in>set rows. r \<noteq> [] \<Longrightarrow> join sep rows \<noteq> [] \<and> last (join sep rows) = last (last rows)"
  by (induction sep rows rule: join.induct) auto

lemma normalizeRows_join:
  assumes "rows \<noteq> []"
    and rows: "\<forall>r\<in>set rows. r \<noteq> [] \<and> (\<forall>v\<in>set r. \<not> is_space v \<and> v \<noteq> 10 \<and> v \<noteq> 13)"
  shows "normalizeRows (join 13 rows) = rows"
proof -
  let ?s = "join 13 rows"
  let ?ok = "\<lambda>v. \<not> is_space v \<and> v \<noteq> 10 \<and> v \<noteq> (13::rune)"
  have rs: "hd rows \<in> set rows" "last rows \<in> set rows" using assms(1) by auto
  then have "hd (hd rows) \<in> set (hd rows)" "last (last rows) \<in> set (last rows)"
    using rows by auto
  with rs rows have ok: "?ok (hd (hd rows))" "?ok (last (last rows))" by blast+
  have "hd rows \<noteq> []" "\<forall>r\<in>set rows. r \<noteq> []" using rs rows by auto
  then have ends: "?s \<noteq> []" "\<not> is_space (hd ?s)" "hd ?s \<noteq> 13" "\<not> is_space (last ?s)" "last ?s \<noteq> 13"
    using ok hd_join [of rows 13] last_join [of rows 13] assms(1) by auto
  have no10: "10 \<notin> set ?s"
  proof -
    have "10 \<notin> insert 13 (\<Union>r\<in>set rows. set r)" using rows by force
    then show ?thesis using set_join [of 13 rows] by blast
  qed
  then have same: "map (\<lambda>r. if r = 10 then 13 else r) ?s = ?s"
    by (intro map_idI) auto
  have "split_at 13 ?s = rows"
    using assms by (intro split_at_join) auto
  then show ?thesis
    using ends no10 by (simp add: normalizeRows_def Let_def trim_id replace_crlf_id same)
qed

subsection \<open>What the encoder writes\<close>

lemma unat_width: "w \<le> 65535 \<Longrightarrow> unat (word_of_nat w :: u16) = w"
  by (simp add: unat_of_nat take_bit_nat_eq_self)

lemma word16_less: "a < 65536 \<Longrightarrow> b < 65536 \<Longrightarrow> (word_of_nat a :: u16) < word_of_nat b \<longleftrightarrow> a < b"
  by (simp add: word_less_nat_alt unat_of_nat take_bit_nat_eq_self)

text \<open>Two grids that agree on what the encoder reads.\<close>

definition same_cells :: "grid \<Rightarrow> grid \<Rightarrow> bool" where
  "same_cells g h \<longleftrightarrow> g_width g = g_width h \<and> g_height g = g_height h \<and> g_heights g = g_heights h \<and>
     length (g_flags g) = length (g_flags h) \<and>
     (\<forall>i<length (g_flags g). g_flags g ! i AND FlagInvalid = g_flags h ! i AND FlagInvalid)"

lemma door_flag: "(f OR FlagDoor) AND FlagInvalid = f AND FlagInvalid"
proof -
  have "FlagDoor AND FlagInvalid = 0" by (simp add: FlagDoor_def FlagInvalid_def)
  then show ?thesis by (simp add: bit.conj_disj_distrib2)
qed

lemma applyDoor_same:
  assumes "applyDoor g opts = Inr g'"
  shows "same_cells g' g"
proof (cases "opt_hasDoor opts")
  case True
  with assms obtain i where "g_flags g' = (g_flags g)[i := g_flags g ! i OR FlagDoor]"
    "g_width g' = g_width g" "g_height g' = g_height g" "g_heights g' = g_heights g"
    by (auto simp: applyDoor_def split: if_splits option.splits)
  then have "g_flags g' ! k AND FlagInvalid = g_flags g ! k AND FlagInvalid"
    if "k < length (g_flags g)" for k
    using that by (cases "k = i") (simp_all add: door_flag)
  with \<open>g_flags g' = _\<close> \<open>g_width g' = _\<close> \<open>g_height g' = _\<close> \<open>g_heights g' = _\<close> show ?thesis
    by (simp add: same_cells_def)
next
  case False
  with assms show ?thesis by (simp add: applyDoor_def same_cells_def)
qed

lemma cell_of_rows:
  assumes "good_rows w rows" and "y < length rows" and "x < w" and "same_cells g (grid_of w rows)"
  shows "encodeTile g (Point (word_of_nat x) (word_of_nat y)) = Inr (canon_rune (rows ! y ! x))"
proof -
  let ?i = "y * w + x" and ?v = "rows ! y ! x"
  have bounds: "w \<le> 65535" "length rows \<le> 65535" "x < 65536" "y < 65536"
    and rows: "\<forall>r\<in>set rows. length r = w"
    using assms(1,2,3) by (auto simp: good_rows_def)
  have "rows ! y \<in> set rows" using assms(2) by simp
  then have ok: "ok_rune ?v"
    using assms(1,3) by (auto simp: good_rows_def)
  have len: "?i < length (concat rows)"
    using row_index_bound [OF assms(2,3)] by (simp add: length_concat_rows [OF rows])
  have idx: "grid_Index g (Point (word_of_nat x) (word_of_nat y)) = Some ?i"
    using assms bounds
    by (simp add: grid_Index_def InBounds_def same_cells_def grid_of_def word16_less unat_width)
  have nth: "concat rows ! ?i = ?v"
    by (rule nth_concat_rows [OF rows assms(2,3)])
  have h: "g_heights g ! ?i = rune_height ?v"
    using assms(4) len nth by (simp add: same_cells_def grid_of_def)
  have f: "g_flags g ! ?i AND FlagInvalid = rune_flag ?v AND FlagInvalid"
    using assms(4) len nth by (simp add: same_cells_def grid_of_def)
  show ?thesis
  proof (cases "rune_exists ?v")
    case True
    then show ?thesis
      using idx h f encodeHeight_rune [OF ok]
      by (simp add: encodeTile_def grid_Tile_def tile_Valid_def rune_flag_def)
  next
    case False
    then show ?thesis
      using idx f rune_invisible [OF ok]
      by (simp add: encodeTile_def grid_Tile_def tile_Valid_def rune_flag_def FlagInvalid_def)
  qed
qed

lemma encodeCells_map:
  assumes "\<forall>p\<in>set ps. encodeTile g p = Inr (f p)"
  shows "encodeCells g out ps = Inr (out @ map f ps)"
  using assms by (induction ps arbitrary: out) auto

lemma encodeCells_row:
  assumes "good_rows w rows" and "y < length rows" and "same_cells g (grid_of w rows)"
  shows "encodeCells g out (map (\<lambda>x. Point (word_of_nat x) (word_of_nat y)) [0..<w])
     = Inr (out @ map canon_rune (rows ! y))"
proof -
  let ?ps = "map (\<lambda>x. Point (word_of_nat x) (word_of_nat y)) [0..<w]"
  let ?f = "\<lambda>p. canon_rune (rows ! y ! unat (px p))"
  have w: "w \<le> 65535" and "length (rows ! y) = w"
    using assms(1,2) by (auto simp: good_rows_def)
  have "encodeTile g p = Inr (?f p)" if "p \<in> set ?ps" for p
    using that cell_of_rows [OF assms(1,2) _ assms(3)] w by (auto simp: unat_width)
  then have "encodeCells g out ?ps = Inr (out @ map ?f ?ps)"
    by (intro encodeCells_map) blast
  moreover have "map ?f ?ps = map canon_rune (rows ! y)"
    using w \<open>length (rows ! y) = w\<close> by (intro nth_equalityI) (auto simp: unat_width)
  ultimately show ?thesis by simp
qed

lemma encodeRows_upto:
  assumes "good_rows w rows" and "n \<le> length rows" and "same_cells g (grid_of w rows)"
  shows "encodeRows g [] [0..<n] = Inr (join 13 (map (map canon_rune) (take n rows)))"
proof -
  have snoc: "encodeRows g out (ys @ [y]) = (case encodeRows g out ys of Inl e \<Rightarrow> Inl e
      | Inr out' \<Rightarrow> encodeRows g out' [y])" for out ys y
    by (induction g out ys rule: encodeRows.induct) (auto split: sum.splits)
  have w: "unat (g_width g) = w"
    using assms(1,3) by (simp add: same_cells_def grid_of_def good_rows_def unat_width)
  show ?thesis
    using assms(2)
  proof (induction n)
    case 0
    then show ?case by simp
  next
    case (Suc n)
    then have n: "n < length rows" by simp
    then have "take (Suc n) rows = take n rows @ [rows ! n]"
      by (simp add: take_Suc_conv_app_nth)
    moreover have "rows \<noteq> []" using n by auto
    ultimately show ?case
      using Suc n encodeCells_row [OF assms(1) n assms(3)]
      by (cases "n = 0") (simp_all add: snoc w join_snoc)
  qed
qed

lemma Encode_rows:
  assumes "good_rows w rows" and "rows \<noteq> []" and "0 < w" and "same_cells g (grid_of w rows)"
  shows "Encode g = Inr (join 13 (map (map canon_rune) rows))"
proof -
  have dims: "unat (g_width g) = w" "unat (g_height g) = length rows"
    using assms(1,4) by (simp_all add: same_cells_def grid_of_def good_rows_def unat_width)
  then have "g_width g \<noteq> 0 \<and> g_height g \<noteq> 0"
    using assms(2,3) by (auto simp: unat_eq_0 [symmetric])
  with dims show ?thesis
    using encodeRows_upto [OF assms(1) order_refl assms(4)] by (simp add: Encode_def)
qed

subsection \<open>Well-formed grids\<close>

text \<open>The invariant of every grid the parser returns.\<close>

definition wf_grid :: "grid \<Rightarrow> bool" where
  "wf_grid g \<longleftrightarrow> 0 < g_width g \<and> 0 < g_height g \<and>
     length (g_heights g) = TileCount g \<and> length (g_flags g) = TileCount g \<and>
     g_validCount g = length (filter (\<lambda>f. f AND FlagInvalid = 0) (g_flags g)) \<and>
     (\<forall>h\<in>set (g_heights g). \<exists>k. 0 \<le> k \<and> k \<le> 35 \<and> sint h = 4 * k) \<and>
     (g_hasDoor g \<longrightarrow> grid_Valid g (g_door g))"

lemma rune_height_range:
  assumes "ok_rune v"
  shows "\<exists>k. 0 \<le> k \<and> k \<le> 35 \<and> sint (rune_height v) = 4 * k"
proof (cases "v = 120 \<or> v = 88")
  case True
  then show ?thesis by (intro exI [of _ 0]) (auto simp: rune_height_def parseHeight_def)
next
  case False
  let ?k = "if v \<le> 57 then v - 48 else if v \<le> 90 then v - 65 + 10 else v - 97 + 10"
  have "rune_height v = HeightFromInt ?k" "0 \<le> ?k" "?k \<le> 35"
    using assms False by (auto simp: ok_rune_ranges rune_height_def parseHeight_def)
  then show ?thesis by (intro exI [of _ ?k]) (simp only: sint_HeightFromInt simp_thms)
qed

lemma grid_of_wf:
  assumes "good_rows w rows" and "rows \<noteq> []" and "0 < w"
  shows "wf_grid (grid_of w rows)"
proof -
  have rows: "\<forall>r\<in>set rows. length r = w" and w: "w \<le> 65535" "length rows \<le> 65535"
    and ok: "\<forall>v\<in>set (concat rows). ok_rune v"
    using assms(1) by (auto simp: good_rows_def)
  have flag: "rune_flag v AND FlagInvalid = 0 \<longleftrightarrow> rune_exists v" for v
    by (simp add: rune_flag_def FlagInvalid_def)
  have "0 < (word_of_nat w :: u16)" "0 < (word_of_nat (length rows) :: u16)"
    using assms(2,3) w by (simp_all add: word_less_nat_alt unat_width)
  then show ?thesis
    using rune_height_range ok w
    by (simp add: wf_grid_def grid_of_def TileCount_def length_concat_rows [OF rows] unat_width
        mult.commute filter_map o_def flag)
qed

lemma grid_Index_bound: "grid_Index g p = Some i \<Longrightarrow> i < TileCount g"
  using row_index_bound [of "unat (py p)" "unat (g_height g)" "unat (px p)" "unat (g_width g)"]
  by (auto simp: grid_Index_def InBounds_def TileCount_def word_less_nat_alt mult.commute split: if_splits)

lemma door_only_sets_one: "(f OR FlagDoor) AND FlagInvalid = 0 \<longleftrightarrow> f AND FlagInvalid = 0"
  by (simp add: door_flag)

lemma applyDoor_wf:
  assumes "wf_grid g" and "\<not> g_hasDoor g" and "applyDoor g opts = Inr g'"
  shows "wf_grid g'"
proof (cases "opt_hasDoor opts")
  case False
  with assms show ?thesis by (simp add: applyDoor_def)
next
  case True
  with assms(3) obtain i where i: "grid_Index g (opt_door opts) = Some i"
    "g_flags g ! i AND FlagInvalid = 0"
    and g': "g' = g\<lparr>g_door := opt_door opts, g_hasDoor := True,
       g_flags := (g_flags g)[i := g_flags g ! i OR FlagDoor]\<rparr>"
    by (auto simp: applyDoor_def split: if_splits option.splits)
  let ?ok = "\<lambda>f. f AND FlagInvalid = 0" and ?fs = "g_flags g"
  have len: "i < length ?fs" using grid_Index_bound [OF i(1)] assms(1) by (simp add: wf_grid_def)
  have "map ?ok (?fs[i := ?fs ! i OR FlagDoor]) = map ?ok ?fs"
    using i(2) len by (simp add: map_update door_flag list_update_same_conv)
  then have count: "length (filter ?ok (?fs[i := ?fs ! i OR FlagDoor])) = length (filter ?ok ?fs)"
    by (rule length_filter_map_cong)
  have "grid_Valid g' (g_door g')"
    using i len by (simp add: g' grid_Valid_def FlagsAt_def grid_Index_def InBounds_def door_flag
        split: if_splits)
  with count assms(1) show ?thesis
    by (simp add: wf_grid_def g' TileCount_def)
qed

subsection \<open>Properties\<close>

text \<open>C15: A grid that \<^verbatim>\<open>Parse\<close> returns is encoded without error, and parsing the encoded heightmap
  with the same options gives the same grid back, whatever line endings, letter case and outer
  white space the original text had.\<close>

theorem heightmap_roundtrip:
  assumes "Parse s opts = Inr g"
  shows "\<exists>text. Encode g = Inr text \<and> Parse text opts = Inr g"
proof -
  from assms obtain rows w where rows: "rows \<noteq> []" "w = length (hd rows)" "0 < w" "good_rows w rows"
    and door: "applyDoor (grid_of w rows) (fold (\<lambda>opt s. opt s) opts no_options) = Inr g"
    by (rule Parse_Inr)
  let ?rows = "map (map canon_rune) rows"
  have ok: "\<forall>r\<in>set rows. length r = w \<and> (\<forall>v\<in>set r. ok_rune v)"
    using rows(4) by (simp add: good_rows_def)
  have enc: "Encode g = Inr (join 13 ?rows)"
    using Encode_rows [OF rows(4,1,3) applyDoor_same [OF door]] .
  have norm: "normalizeRows (join 13 ?rows) = ?rows"
    using ok rows(1,3) canon_rune_ok by (intro normalizeRows_join) auto
  have good: "good_rows w ?rows"
    using rows(4) canon_rune_ok(1) by (auto simp: good_rows_def)
  have "\<forall>v\<in>set (concat rows). ok_rune v" using ok by auto
  then have "map (\<lambda>v. rune_height (canon_rune v)) (concat rows) = map rune_height (concat rows)"
    "map (\<lambda>v. rune_flag (canon_rune v)) (concat rows) = map rune_flag (concat rows)"
    and "filter (\<lambda>v. rune_exists (canon_rune v)) (concat rows) = filter rune_exists (concat rows)"
    by (auto simp: canon_rune_same intro!: filter_cong)
  then have "grid_of w ?rows = grid_of w rows"
    by (simp add: grid_of_def map_concat [symmetric] filter_map o_def)
  moreover have "length (hd ?rows) = w"
    using rows(1,2) by (simp add: hd_map)
  ultimately have "Parse (join 13 ?rows) opts = Inr g"
    using norm good door rows(1,3) by (simp add: Parse_def Let_def parseRows_Inr [THEN iffD2])
  with enc show ?thesis by blast
qed

text \<open>The heightmap \<open>0Bx\<close> / \<open>a01\<close> with mixed line endings and the door at \<open>(1, 1)\<close>.\<close>

definition sample_map :: "rune list" where
  "sample_map = [32, 48, 66, 120, 13, 10, 97, 48, 49, 10]"

lemma Parse_sample: "Parse sample_map [WithDoor 1 1] = Inr
    \<lparr>g_width = 3, g_height = 2, g_heights = [0, 44, 0, 40, 0, 4], g_flags = [0, 0, 1, 0, 2, 0],
     g_door = Point 1 1, g_hasDoor = True, g_validCount = 5\<rparr>"
  by (simp add: sample_map_def Parse_def normalizeRows_def trim_def is_space_def Let_def
      WithDoor_def NewPoint_def no_options_def parseRows_def parseHeight_def HeightFromInt_def
      HeightScale_def FlagInvalid_def FlagDoor_def applyDoor_def grid_Index_def InBounds_def)

theorem heightmap_roundtrip_witness:
  "\<exists>g text. Parse sample_map [WithDoor 1 1] = Inr g \<and> Encode g = Inr text \<and>
     Parse text [WithDoor 1 1] = Inr g"
  using heightmap_roundtrip [OF Parse_sample] Parse_sample by blast

text \<open>Every grid \<^verbatim>\<open>Parse\<close> returns is well-formed: as many heights and flags as tiles, the
  valid count equal to the number of existing tiles, every height a whole number of units from
  0 to 35, and a door, if there is one, on an existing tile inside the grid.\<close>

theorem Parse_wf_grid:
  assumes "Parse s opts = Inr g"
  shows "wf_grid g"
proof -
  from assms obtain rows w where rows: "rows \<noteq> []" "0 < w" "good_rows w rows"
    and door: "applyDoor (grid_of w rows) (fold (\<lambda>opt s. opt s) opts no_options) = Inr g"
    by (rule Parse_Inr)
  have "\<not> g_hasDoor (grid_of w rows)" by (simp add: grid_of_def)
  with applyDoor_wf [OF grid_of_wf [OF rows(3,1,2)] _ door] show ?thesis by simp
qed

theorem Parse_wf_grid_witness:
  "\<exists>g. Parse sample_map [WithDoor 1 1] = Inr g \<and> wf_grid g \<and> g_hasDoor g \<and> g_validCount g = 5"
  using Parse_wf_grid [OF Parse_sample] Parse_sample by auto

end
