(* ===== verification/Surface.thy ===== *)
theory Surface
  imports Grid
begin

text \<open>
  Vertical columns of a room tile, after \<^verbatim>\<open>internal/realm/room/world/surface\<close>: sections
  (\<^verbatim>\<open>section.go\<close>), columns with their inline and overflow storage (\<^verbatim>\<open>column.go\<close>), fixtures
  (\<^verbatim>\<open>fixture.go\<close>) and the resolver that builds a column from the grid and the fixtures
  (\<^verbatim>\<open>resolver.go\<close>). Heights are compared as signed 16-bit words, and sums of heights wrap.
\<close>

subsection \<open>Sections\<close>

datatype state = StateInvalid | StateOpen | StateBlocked | StateSit | StateLay

definition state_Walkable :: "state \<Rightarrow> bool" where
  "state_Walkable st \<longleftrightarrow> st = StateOpen \<or> st = StateSit \<or> st = StateLay"

definition replacesTiedSection :: "state \<Rightarrow> bool" where
  "replacesTiedSection st \<longleftrightarrow> st = StateBlocked \<or> st = StateSit \<or> st = StateLay"

datatype source = SourceBase | SourceFixture | SourceStack | SourceGate

record tsection =
  sec_point :: point
  sec_z :: height
  sec_bottom :: height
  sec_top :: height
  sec_clearance :: height
  sec_state :: state
  sec_stacking :: bool
  sec_source :: source
  sec_sourceID :: ident

definition sec_Walkable :: "tsection \<Rightarrow> bool" where
  "sec_Walkable s \<longleftrightarrow> state_Walkable (sec_state s)"

definition zero_section :: tsection where
  "zero_section = \<lparr>sec_point = Point 0 0, sec_z = 0, sec_bottom = 0, sec_top = 0,
     sec_clearance = 0, sec_state = StateInvalid, sec_stacking = False,
     sec_source = SourceBase, sec_sourceID = 0\<rparr>"

definition sameSection :: "tsection \<Rightarrow> tsection \<Rightarrow> bool" where
  "sameSection a b \<longleftrightarrow> sec_source a = sec_source b \<and> sec_sourceID a = sec_sourceID b \<and>
     sec_z a = sec_z b \<and> sec_bottom a = sec_bottom b \<and> sec_top a = sec_top b"

subsection \<open>Columns\<close>

definition inlineSectionLimit :: nat where "inlineSectionLimit = 8"

text \<open>\<open>col_sections\<close> is the array of the struct: always eight places, \<open>col_count\<close> of them used.\<close>

record column =
  col_point :: point
  col_version :: u32
  col_count :: nat
  col_sections :: "tsection list"
  col_extra :: "tsection list"

definition NewColumn :: "point \<Rightarrow> u32 \<Rightarrow> column" where
  "NewColumn p v = \<lparr>col_point = p, col_version = v, col_count = 0,
     col_sections = replicate inlineSectionLimit zero_section, col_extra = []\<rparr>"

definition col_Len :: "column \<Rightarrow> nat" where
  "col_Len c = col_count c + length (col_extra c)"

definition Sections :: "column \<Rightarrow> tsection list" where
  "Sections c = (if col_extra c \<noteq> [] then col_extra c else take (col_count c) (col_sections c))"

definition col_Section :: "column \<Rightarrow> int \<Rightarrow> tsection option" where
  "col_Section c i =
     (if i < 0 \<or> i \<ge> int (col_Len c) then None
      else if col_extra c \<noteq> [] then Some (col_extra c ! nat i)
      else if i < int (col_count c) then Some (col_sections c ! nat i)
      else None)"

text \<open>The loops \<open>for index := 0; index < column.Len(); index++\<close> with the \<open>!ok\<close> test inside.\<close>

definition each_section :: "column \<Rightarrow> tsection list" where
  "each_section c = List.map_filter (\<lambda>i. col_Section c (int i)) [0..<col_Len c]"

definition Accepts :: "column \<Rightarrow> tsection \<Rightarrow> bool" where
  "Accepts c s =
     (if \<not> sec_Walkable s then False
      else (let requiredTop = sec_z s + sec_clearance s
        in list_all (\<lambda>other.
             if sameSection s other \<or> sint (sec_top other) \<le> sint (sec_z s) then True
             else \<not> sint (sec_bottom other) < sint requiredTop) (each_section c)))"

text \<open>\<^verbatim>\<open>SectionAt\<close> walks the inline part and then the overflow part.\<close>

definition SectionAt :: "column \<Rightarrow> height \<Rightarrow> tsection option" where
  "SectionAt c h = (case find (\<lambda>s. sec_z s = h) (take (col_count c) (col_sections c)) of
     Some s \<Rightarrow> Some s
   | None \<Rightarrow> find (\<lambda>s. sec_z s = h) (col_extra c))"

definition WalkableSectionAt :: "column \<Rightarrow> height \<Rightarrow> tsection option" where
  "WalkableSectionAt c h = (case SectionAt c h of None \<Rightarrow> None
     | Some s \<Rightarrow> if \<not> Accepts c s then None else Some s)"

fun nearestLoop ::
  "column \<Rightarrow> height \<Rightarrow> (tsection \<times> height) option \<Rightarrow> tsection list \<Rightarrow> (tsection \<times> height) option" where
  "nearestLoop c h best [] = best"
| "nearestLoop c h best (s # ss) =
     (if \<not> Accepts c s then nearestLoop c h best ss
      else (let d = sec_z s - h; dist = (if sint d < 0 then - d else d)
        in case best of
             None \<Rightarrow> nearestLoop c h (Some (s, dist)) ss
           | Some (_, b) \<Rightarrow>
               nearestLoop c h (if sint dist < sint b then Some (s, dist) else best) ss))"

definition NearestWalkableSection :: "column \<Rightarrow> height \<Rightarrow> tsection option" where
  "NearestWalkableSection c h = map_option fst (nearestLoop c h None (each_section c))"

definition TopSection :: "column \<Rightarrow> tsection option" where
  "TopSection c =
     (if col_Len c = 0 then None
      else if col_extra c \<noteq> [] then Some (col_extra c ! (length (col_extra c) - 1))
      else Some (col_sections c ! (col_count c - 1)))"

definition Dynamic :: "column \<Rightarrow> bool" where
  "Dynamic c \<longleftrightarrow> col_version c > 0"

subsection \<open>Adding a tsection to a column\<close>

definition replaceSections :: "column \<Rightarrow> tsection list \<Rightarrow> column" where
  "replaceSections c ss =
     (if length ss \<le> inlineSectionLimit
      then c\<lparr>col_count := length ss, col_extra := [],
             col_sections := ss @ drop (length ss) (col_sections c)\<rparr>
      else c\<lparr>col_count := 0, col_extra := ss\<rparr>)"

definition covered :: "tsection \<Rightarrow> tsection \<Rightarrow> bool" where
  "covered s current \<longleftrightarrow> sec_Walkable current \<and> sint (sec_z current) \<ge> sint (sec_bottom s) \<and>
     sint (sec_z current) < sint (sec_top s)"

definition removeCoveredWalkableSections :: "column \<Rightarrow> tsection \<Rightarrow> column" where
  "removeCoveredWalkableSections c s =
     (if sint (sec_top s) \<le> sint (sec_bottom s) then c
      else replaceSections c (filter (\<lambda>current. \<not> covered s current) (each_section c)))"

text \<open>Overwriting the first place whose section has the same height.\<close>

fun replaceFirst :: "tsection list \<Rightarrow> tsection \<Rightarrow> tsection list option" where
  "replaceFirst [] s = None"
| "replaceFirst (x # xs) s =
     (if sec_z x = sec_z s then Some (s # xs) else map_option ((#) x) (replaceFirst xs s))"

definition replaceTiedSection :: "column \<Rightarrow> tsection \<Rightarrow> column \<times> bool" where
  "replaceTiedSection c s =
     (if col_extra c \<noteq> [] then
        (case replaceFirst (col_extra c) s of
           Some xs \<Rightarrow> (c\<lparr>col_extra := xs\<rparr>, True) | None \<Rightarrow> (c, False))
      else
        (case replaceFirst (take (col_count c) (col_sections c)) s of
           Some xs \<Rightarrow> (c\<lparr>col_sections := xs @ drop (col_count c) (col_sections c)\<rparr>, True)
         | None \<Rightarrow> (c, False)))"

text \<open>The shifting loop of \<^verbatim>\<open>insertInline\<close>: from \<open>pos\<close> down while the place below is higher.\<close>

fun shiftInline :: "tsection list \<Rightarrow> nat \<Rightarrow> tsection \<Rightarrow> tsection list" where
  "shiftInline xs 0 s = xs[0 := s]"
| "shiftInline xs (Suc p) s =
     (if sint (sec_z (xs ! p)) > sint (sec_z s) then shiftInline (xs[Suc p := xs ! p]) p s
      else xs[Suc p := s])"

definition insertInline :: "column \<Rightarrow> tsection \<Rightarrow> column" where
  "insertInline c s = c\<lparr>col_sections := shiftInline (col_sections c) (col_count c) s,
     col_count := Suc (col_count c)\<rparr>"

definition promoteToExtra :: "column \<Rightarrow> column" where
  "promoteToExtra c = c\<lparr>col_extra := take (col_count c) (col_sections c), col_count := 0\<rparr>"

text \<open>The swapping loop of \<^verbatim>\<open>insertExtra\<close>: \<open>i\<close> is the place where the section stands.\<close>

fun bubbleExtra :: "tsection list \<Rightarrow> nat \<Rightarrow> tsection \<Rightarrow> tsection list" where
  "bubbleExtra xs 0 s = xs"
| "bubbleExtra xs (Suc i) s =
     (if sint (sec_z (xs ! i)) > sint (sec_z s)
      then bubbleExtra (xs[Suc i := xs ! i, i := s]) i s
      else xs)"

definition insertExtra :: "column \<Rightarrow> tsection \<Rightarrow> column" where
  "insertExtra c s =
     c\<lparr>col_extra := bubbleExtra (col_extra c @ [s]) (length (col_extra c)) s\<rparr>"

definition AddSection :: "column \<Rightarrow> tsection \<Rightarrow> column" where
  "AddSection c0 s =
     (let c = removeCoveredWalkableSections c0 s
      in if replacesTiedSection (sec_state s) \<and> snd (replaceTiedSection c s)
         then fst (replaceTiedSection c s)
         else if col_extra c \<noteq> [] then insertExtra c s
         else if col_count c < inlineSectionLimit then insertInline c s
         else insertExtra (promoteToExtra c) s)"

subsection \<open>Fixtures and the resolver\<close>

datatype surface_error = ErrInvalidFixture | ErrInvalidTile | ErrNoSection

record fixture =
  fx_point :: point
  fx_z :: height
  fx_bottom :: height
  fx_top :: height
  fx_clearance :: height
  fx_state :: state
  fx_stacking :: bool
  fx_source :: source
  fx_sourceID :: ident

record fixture_params =
  fp_point :: point
  fp_z :: height
  fp_bottom :: height
  fp_hasBottom :: bool
  fp_top :: height
  fp_clearance :: height
  fp_state :: state
  fp_stacking :: bool
  fp_source :: source
  fp_sourceID :: ident

definition NewFixture :: "fixture_params \<Rightarrow> surface_error + fixture" where
  "NewFixture p =
     (let bottom = (if \<not> fp_hasBottom p then fp_z p else fp_bottom p)
      in if sint bottom > sint (fp_z p) \<or> sint (fp_top p) < sint (fp_z p) \<or> fp_state p = StateInvalid
         then Inl ErrInvalidFixture
         else Inr \<lparr>fx_point = fp_point p, fx_z = fp_z p, fx_bottom = bottom, fx_top = fp_top p,
                fx_clearance = fp_clearance p, fx_state = fp_state p, fx_stacking = fp_stacking p,
                fx_source = (if fp_source p = SourceBase then SourceFixture else fp_source p),
                fx_sourceID = fp_sourceID p\<rparr>)"

definition fx_Section :: "fixture \<Rightarrow> tsection" where
  "fx_Section f = \<lparr>sec_point = fx_point f, sec_z = fx_z f, sec_bottom = fx_bottom f,
     sec_top = fx_top f, sec_clearance = fx_clearance f, sec_state = fx_state f,
     sec_stacking = fx_stacking f, sec_source = fx_source f, sec_sourceID = fx_sourceID f\<rparr>"

definition baseSection :: "tile \<Rightarrow> tsection" where
  "baseSection t = \<lparr>sec_point = tile_point t, sec_z = tile_height t, sec_bottom = tile_height t,
     sec_top = tile_height t, sec_clearance = AvatarClearance, sec_state = StateOpen,
     sec_stacking = True, sec_source = SourceBase, sec_sourceID = 0\<rparr>"

text \<open>The maps of the resolver are keyed by grid index; a missing key reads as no fixture and
  version 0, so both are total functions.\<close>

record resolver =
  rs_grid :: grid
  rs_fixtures :: "nat \<Rightarrow> fixture list"
  rs_versions :: "nat \<Rightarrow> u32"

definition AddFixture :: "resolver \<Rightarrow> fixture \<Rightarrow> resolver \<times> surface_error option" where
  "AddFixture r f = (case grid_Index (rs_grid r) (fx_point f) of
     None \<Rightarrow> (r, Some ErrInvalidTile)
   | Some i \<Rightarrow> if \<not> grid_Valid (rs_grid r) (fx_point f) then (r, Some ErrInvalidTile)
       else (r\<lparr>rs_fixtures := (rs_fixtures r)(i := rs_fixtures r i @ [f]),
               rs_versions := (rs_versions r)(i := rs_versions r i + 1)\<rparr>, None))"

fun addFixtures :: "resolver \<Rightarrow> fixture list \<Rightarrow> resolver \<times> surface_error option" where
  "addFixtures r [] = (r, None)"
| "addFixtures r (f # fs) = (case AddFixture r f of
     (r', Some e) \<Rightarrow> (r', Some e) | (r', None) \<Rightarrow> addFixtures r' fs)"

definition NewResolver :: "grid \<Rightarrow> fixture list \<Rightarrow> surface_error + resolver" where
  "NewResolver g fs =
     (case addFixtures \<lparr>rs_grid = g, rs_fixtures = (\<lambda>_. []), rs_versions = (\<lambda>_. 0)\<rparr> fs of
        (r, Some e) \<Rightarrow> Inl e | (r, None) \<Rightarrow> Inr r)"

definition withoutSource :: "fixture list \<Rightarrow> ident \<Rightarrow> fixture list \<times> nat" where
  "withoutSource fs sid =
     (filter (\<lambda>f. fx_sourceID f \<noteq> sid) fs, length (filter (\<lambda>f. fx_sourceID f = sid) fs))"

text \<open>The map iteration changes each index on its own, so its order does not matter; the keys of
  the map are indices of existing tiles.\<close>

definition RemoveFixtures :: "resolver \<Rightarrow> ident \<Rightarrow> resolver \<times> nat" where
  "RemoveFixtures r sid =
     (r\<lparr>rs_fixtures := (\<lambda>i. if snd (withoutSource (rs_fixtures r i) sid) = 0 then rs_fixtures r i
                          else fst (withoutSource (rs_fixtures r i) sid)),
        rs_versions := (\<lambda>i. if snd (withoutSource (rs_fixtures r i) sid) = 0 then rs_versions r i
                          else rs_versions r i + 1)\<rparr>,
      sum_list (map (\<lambda>i. snd (withoutSource (rs_fixtures r i) sid)) [0..<TileCount (rs_grid r)]))"

definition ReplaceFixtures ::
  "resolver \<Rightarrow> ident \<Rightarrow> fixture list \<Rightarrow> resolver \<times> surface_error option" where
  "ReplaceFixtures r sid fs =
     (if \<not> list_all (\<lambda>f. grid_Valid (rs_grid r) (fx_point f)) fs then (r, Some ErrInvalidTile)
      else addFixtures (fst (RemoveFixtures r sid)) fs)"

definition columnFor :: "tile \<Rightarrow> u32 \<Rightarrow> fixture list \<Rightarrow> column" where
  "columnFor t v fs =
     fold (\<lambda>f c. AddSection c (fx_Section f)) fs (AddSection (NewColumn (tile_point t) v) (baseSection t))"

definition resolver_Column :: "resolver \<Rightarrow> point \<Rightarrow> surface_error + column" where
  "resolver_Column r p = (case grid_Tile (rs_grid r) p of
     None \<Rightarrow> Inl ErrInvalidTile
   | Some t \<Rightarrow> if \<not> tile_Valid t then Inl ErrInvalidTile
       else (case grid_Index (rs_grid r) p of None \<Rightarrow> Inl ErrInvalidTile
         | Some i \<Rightarrow> Inr (columnFor t (rs_versions r i) (rs_fixtures r i))))"

definition resolver_SectionAt :: "resolver \<Rightarrow> point \<Rightarrow> height \<Rightarrow> surface_error + tsection" where
  "resolver_SectionAt r p h = (case resolver_Column r p of Inl e \<Rightarrow> Inl e
     | Inr c \<Rightarrow> (case SectionAt c h of None \<Rightarrow> Inl ErrNoSection | Some s \<Rightarrow> Inr s))"

definition resolver_TopSection :: "resolver \<Rightarrow> point \<Rightarrow> surface_error + tsection" where
  "resolver_TopSection r p = (case resolver_Column r p of Inl e \<Rightarrow> Inl e
     | Inr c \<Rightarrow> (case TopSection c of None \<Rightarrow> Inl ErrNoSection | Some s \<Rightarrow> Inr s))"

subsection \<open>The list a column stands for\<close>

definition col_inv :: "column \<Rightarrow> bool" where
  "col_inv c \<longleftrightarrow> length (col_sections c) = inlineSectionLimit \<and> col_count c \<le> inlineSectionLimit \<and>
     (col_extra c \<noteq> [] \<longrightarrow> col_count c = 0)"

abbreviation higher :: "tsection \<Rightarrow> tsection \<Rightarrow> bool" where
  "higher s x \<equiv> sint (sec_z x) > sint (sec_z s)"

text \<open>Insertion from the top end, below every section that is higher.\<close>

definition spec_insert :: "tsection list \<Rightarrow> tsection \<Rightarrow> tsection list" where
  "spec_insert xs s = rev (dropWhile (higher s) (rev xs)) @ [s] @ rev (takeWhile (higher s) (rev xs))"

definition uncovered :: "tsection list \<Rightarrow> tsection \<Rightarrow> tsection list" where
  "uncovered xs s =
     (if sint (sec_top s) \<le> sint (sec_bottom s) then xs else filter (\<lambda>x. \<not> covered s x) xs)"

definition spec_add :: "tsection list \<Rightarrow> tsection \<Rightarrow> tsection list" where
  "spec_add xs s =
     (case (if replacesTiedSection (sec_state s) then replaceFirst (uncovered xs s) s else None) of
        Some ys \<Rightarrow> ys | None \<Rightarrow> spec_insert (uncovered xs s) s)"

lemma map_filter_upt_nth:
  "List.map_filter (\<lambda>i. if i < length xs then Some (xs ! i) else None) [0..<length xs] = xs"
proof -
  have "List.map_filter (\<lambda>i. if i < length xs then Some (xs ! i) else None) [0..<length xs]
      = map (\<lambda>i. xs ! i) [0..<length xs]"
    by (simp add: List.map_filter_def filter_id_conv cong: map_cong)
  then show ?thesis by (simp add: map_nth)
qed

lemma col_Section_inv:
  assumes "col_inv c"
  shows "col_Section c (int i) = (if i < length (Sections c) then Some (Sections c ! i) else None)"
    and "col_Len c = length (Sections c)"
  using assms by (auto simp: col_Section_def col_Len_def Sections_def col_inv_def)

lemma each_section_inv [inv_simps]:
  assumes "col_inv c"
  shows "each_section c = Sections c"
  using map_filter_upt_nth [of "Sections c"]
  by (simp add: each_section_def col_Section_inv [OF assms])

lemma SectionAt_inv [inv_simps]:
  assumes "col_inv c"
  shows "SectionAt c h = find (\<lambda>s. sec_z s = h) (Sections c)"
  using assms by (cases "col_extra c") (auto simp: SectionAt_def Sections_def col_inv_def split: option.splits)

lemma TopSection_inv [inv_simps]:
  assumes "col_inv c"
  shows "TopSection c = (if Sections c = [] then None else Some (last (Sections c)))"
proof (cases "col_extra c = []")
  case True
  have "last (take n xs) = xs ! (n - 1)" if "0 < n" "n \<le> length xs" for n and xs :: "tsection list"
    using that by (subst last_conv_nth) auto
  with True assms show ?thesis
    by (auto simp: TopSection_def Sections_def col_Len_def col_inv_def inlineSectionLimit_def)
next
  case False
  then show ?thesis by (simp add: TopSection_def Sections_def col_Len_def last_conv_nth)
qed

lemma NewColumn_inv [simp]: "col_inv (NewColumn p v)" "Sections (NewColumn p v) = []"
  by (simp_all add: NewColumn_def col_inv_def Sections_def)

subsection \<open>Each storage operation against the list\<close>

lemma replaceSections_refines:
  assumes "col_inv c"
  shows "col_inv (replaceSections c ss)" and "Sections (replaceSections c ss) = ss"
  using assms
  by (auto simp: replaceSections_def col_inv_def Sections_def inlineSectionLimit_def)

lemma removeCovered_refines:
  assumes "col_inv c"
  shows "col_inv (removeCoveredWalkableSections c s)"
    and "Sections (removeCoveredWalkableSections c s) = uncovered (Sections c) s"
  using assms
  by (simp_all add: removeCoveredWalkableSections_def replaceSections_refines uncovered_def inv_simps)

lemma length_replaceFirst: "replaceFirst xs s = Some ys \<Longrightarrow> length ys = length xs"
  by (induction xs arbitrary: ys) (auto split: if_splits)

lemma replaceTied_refines:
  assumes "col_inv c"
  shows "case replaceFirst (Sections c) s of
      Some ys \<Rightarrow> snd (replaceTiedSection c s) \<and> col_inv (fst (replaceTiedSection c s)) \<and>
        Sections (fst (replaceTiedSection c s)) = ys
    | None \<Rightarrow> \<not> snd (replaceTiedSection c s)"
proof (cases "col_extra c = []")
  case True
  with assms show ?thesis
    by (auto simp: replaceTiedSection_def Sections_def col_inv_def inlineSectionLimit_def
        split: option.splits dest!: length_replaceFirst)
next
  case False
  with assms show ?thesis
    by (auto simp: replaceTiedSection_def Sections_def col_inv_def split: option.splits
        dest!: length_replaceFirst)
qed

lemma spec_insert_Nil: "spec_insert [] s = [s]"
  by (simp add: spec_insert_def)

lemma spec_insert_snoc:
  "spec_insert (xs @ [x]) s = (if higher s x then spec_insert xs s @ [x] else xs @ [x, s])"
  by (simp add: spec_insert_def)

lemma shiftInline_spec:
  "p < length xs \<Longrightarrow> length (shiftInline xs p s) = length xs \<and>
     take (Suc p) (shiftInline xs p s) = spec_insert (take p xs) s \<and>
     drop (Suc p) (shiftInline xs p s) = drop (Suc p) xs"
proof (induction p arbitrary: xs)
  case 0
  then show ?case by (cases xs) (simp_all add: spec_insert_Nil)
next
  case (Suc p)
  have snoc: "take (Suc p) xs = take p xs @ [xs ! p]"
    using Suc.prems by (simp add: take_Suc_conv_app_nth)
  show ?case
  proof (cases "higher s (xs ! p)")
    case True
    let ?ys = "xs[Suc p := xs ! p]" and ?r = "shiftInline (xs[Suc p := xs ! p]) p s"
    have IH: "length ?r = length xs" "take (Suc p) ?r = spec_insert (take p xs) s"
      "drop (Suc p) ?r = drop (Suc p) ?ys"
      using Suc.IH [of ?ys] Suc.prems by auto
    have "drop (Suc p) ?ys = xs ! p # drop (Suc (Suc p)) xs"
      using Suc.prems by (simp add: drop_update_swap Cons_nth_drop_Suc [symmetric])
    then have drop: "drop (Suc p) ?r = xs ! p # drop (Suc (Suc p)) xs" using IH by simp
    have "take (Suc (Suc p)) ?r = take (Suc p) ?r @ take 1 (drop (Suc p) ?r)"
      by (metis One_nat_def Suc_eq_plus1 add.commute plus_1_eq_Suc take_add)
    also have "\<dots> = spec_insert (take p xs) s @ [xs ! p]"
      by (simp only: IH(2) drop) simp
    finally have "take (Suc (Suc p)) ?r = spec_insert (take p xs) s @ [xs ! p]" .
    moreover have "drop (Suc (Suc p)) ?r = drop 1 (drop (Suc p) ?r)" by simp
    then have "drop (Suc (Suc p)) ?r = drop (Suc (Suc p)) xs" by (simp only: drop) simp
    ultimately show ?thesis
      using IH(1) True snoc by (simp add: spec_insert_snoc)
  next
    case False
    have "take (Suc (Suc p)) (xs[Suc p := s]) = take (Suc p) xs @ [s]"
      using Suc.prems by (simp add: take_Suc_conv_app_nth [of "Suc p"])
    with False snoc show ?thesis by (simp add: spec_insert_snoc)
  qed
qed

lemma bubbleExtra_spec:
  "i < length xs \<Longrightarrow> xs ! i = s \<Longrightarrow> length (bubbleExtra xs i s) = length xs \<and>
     take (Suc i) (bubbleExtra xs i s) = spec_insert (take i xs) s \<and>
     drop (Suc i) (bubbleExtra xs i s) = drop (Suc i) xs"
proof (induction i arbitrary: xs)
  case 0
  then show ?case by (cases xs) (simp_all add: spec_insert_Nil)
next
  case (Suc i)
  have snoc: "take (Suc i) xs = take i xs @ [xs ! i]"
    using Suc.prems by (simp add: take_Suc_conv_app_nth)
  show ?case
  proof (cases "higher s (xs ! i)")
    case True
    let ?ys = "xs[Suc i := xs ! i, i := s]"
    let ?r = "bubbleExtra ?ys i s"
    have IH: "length ?r = length xs" "take (Suc i) ?r = spec_insert (take i xs) s"
      "drop (Suc i) ?r = drop (Suc i) ?ys"
      using Suc.IH [of ?ys] Suc.prems by auto
    have "drop (Suc i) ?ys = xs ! i # drop (Suc (Suc i)) xs"
      using Suc.prems by (simp add: drop_update_swap Cons_nth_drop_Suc [symmetric])
    then have drop: "drop (Suc i) ?r = xs ! i # drop (Suc (Suc i)) xs" using IH by simp
    have "take (Suc (Suc i)) ?r = take (Suc i) ?r @ take 1 (drop (Suc i) ?r)"
      by (metis One_nat_def Suc_eq_plus1 add.commute plus_1_eq_Suc take_add)
    also have "\<dots> = spec_insert (take i xs) s @ [xs ! i]"
      by (simp only: IH(2) drop) simp
    finally have "take (Suc (Suc i)) ?r = spec_insert (take i xs) s @ [xs ! i]" .
    moreover have "drop (Suc (Suc i)) ?r = drop 1 (drop (Suc i) ?r)" by simp
    then have "drop (Suc (Suc i)) ?r = drop (Suc (Suc i)) xs" by (simp only: drop) simp
    ultimately show ?thesis
      using IH(1) True snoc by (simp add: spec_insert_snoc)
  next
    case False
    have "take (Suc (Suc i)) xs = take (Suc i) xs @ [s]"
      using Suc.prems by (simp add: take_Suc_conv_app_nth [of "Suc i"])
    with False snoc show ?thesis by (simp add: spec_insert_snoc)
  qed
qed

lemma insertInline_refines:
  assumes "col_inv c" and "col_extra c = []" and "col_count c < inlineSectionLimit"
  shows "col_inv (insertInline c s)" and "Sections (insertInline c s) = spec_insert (Sections c) s"
  using assms shiftInline_spec [of "col_count c" "col_sections c" s]
  by (auto simp: insertInline_def col_inv_def Sections_def)

lemma insertExtra_refines:
  assumes "col_count c = 0" and "length (col_sections c) = inlineSectionLimit"
  shows "col_inv (insertExtra c s)" and "Sections (insertExtra c s) = spec_insert (col_extra c) s"
proof -
  let ?xs = "col_extra c @ [s]"
  have *: "length (bubbleExtra ?xs (length (col_extra c)) s) = Suc (length (col_extra c))"
    "take (Suc (length (col_extra c))) (bubbleExtra ?xs (length (col_extra c)) s) = spec_insert (col_extra c) s"
    using bubbleExtra_spec [of "length (col_extra c)" ?xs s] by auto
  then have "bubbleExtra ?xs (length (col_extra c)) s = spec_insert (col_extra c) s" by simp
  with assms show "col_inv (insertExtra c s)" "Sections (insertExtra c s) = spec_insert (col_extra c) s"
    by (auto simp: insertExtra_def col_inv_def Sections_def spec_insert_def)
qed

lemma AddSection_refines_list:
  assumes "col_inv c"
  shows "col_inv (AddSection c s) \<and> Sections (AddSection c s) = spec_add (Sections c) s"
proof -
  let ?c = "removeCoveredWalkableSections c s"
  note r = removeCovered_refines [OF assms, of s]
  have tied: "replaceFirst (Sections ?c) s = Some ys \<Longrightarrow> ?thesis"
    if "replacesTiedSection (sec_state s)" for ys
    using replaceTied_refines [OF r(1), of s] that r(2)
    by (simp add: AddSection_def Let_def spec_add_def)
  have insert: "col_inv d \<and> Sections d = spec_insert (Sections ?c) s"
    if d: "d = (if col_extra ?c \<noteq> [] then insertExtra ?c s
        else if col_count ?c < inlineSectionLimit then insertInline ?c s
        else insertExtra (promoteToExtra ?c) s)" for d
    using r(1) d insertInline_refines [OF r(1), of s] insertExtra_refines [of ?c s]
      insertExtra_refines [of "promoteToExtra ?c" s]
    by (auto simp: promoteToExtra_def col_inv_def Sections_def)
  show ?thesis
  proof (cases "replacesTiedSection (sec_state s) \<and> replaceFirst (Sections ?c) s \<noteq> None")
    case True
    then show ?thesis using tied by blast
  next
    case False
    then have "\<not> (replacesTiedSection (sec_state s) \<and> snd (replaceTiedSection ?c s))"
      using replaceTied_refines [OF r(1), of s] by (auto split: option.splits)
    with False insert [OF refl] r(2) show ?thesis
      by (auto simp: AddSection_def Let_def spec_add_def)
  qed
qed

subsection \<open>Columns are sorted and never empty\<close>

abbreviation sec_height :: "tsection \<Rightarrow> int" where
  "sec_height s \<equiv> sint (sec_z s)"

abbreviation by_height :: "tsection list \<Rightarrow> bool" where
  "by_height xs \<equiv> sorted (map sec_height xs)"

lemma dropWhile_takeWhile_rev:
  "rev (dropWhile P (rev xs)) @ rev (takeWhile P (rev xs)) = xs"
  by (metis rev_append rev_rev_ident takeWhile_dropWhile_id)

lemma by_height_spec_insert:
  assumes "by_height xs" shows "by_height (spec_insert xs s)"
proof -
  let ?a = "rev (dropWhile (higher s) (rev xs))" and ?b = "rev (takeWhile (higher s) (rev xs))"
  have xs: "xs = ?a @ ?b" by (simp add: dropWhile_takeWhile_rev)
  have b: "\<forall>x\<in>set ?b. sec_height s < sec_height x" by (auto dest: set_takeWhileD)
  have sorted: "by_height ?a" "by_height ?b" "\<forall>x\<in>set ?a. \<forall>y\<in>set ?b. sec_height x \<le> sec_height y"
    using assms by (metis (no_types, lifting) xs map_append sorted_append image_eqI set_map)+
  have a: "\<forall>x\<in>set ?a. sec_height x \<le> sec_height s"
  proof (cases "dropWhile (higher s) (rev xs)")
    case (Cons y ys)
    then have y: "\<not> higher s y" by (metis hd_dropWhile list.discI list.sel(1))
    have "?a = rev ys @ [y]" using Cons by simp
    with sorted(1) have "\<forall>x\<in>set ?a. sec_height x \<le> sec_height y"
      by (simp add: sorted_append)
    with y show ?thesis by fastforce
  next
    case Nil
    then show ?thesis by (simp only: rev.simps list.set) simp
  qed
  show ?thesis
    using sorted a b by (auto simp: spec_insert_def sorted_append intro: less_imp_le)
qed

lemma by_height_filter: "by_height xs \<Longrightarrow> by_height (filter P xs)"
  by (simp add: sorted_map_same sorted_filter)

lemma replaceFirst_heights:
  "replaceFirst xs s = Some ys \<Longrightarrow> map sec_height ys = map sec_height xs"
  by (induction xs arbitrary: ys) (auto split: if_splits)

lemma replaceFirst_set: "replaceFirst xs s = Some ys \<Longrightarrow> s \<in> set ys \<and> set ys \<subseteq> insert s (set xs)"
  by (induction xs arbitrary: ys) (auto split: if_splits)

lemma spec_insert_set: "set (spec_insert xs s) = insert s (set xs)"
proof -
  have "set xs = set (rev (dropWhile (higher s) (rev xs))) \<union> set (rev (takeWhile (higher s) (rev xs)))"
    by (metis dropWhile_takeWhile_rev set_append)
  then show ?thesis by (simp add: spec_insert_def)
qed

lemma by_height_spec_add: "by_height xs \<Longrightarrow> by_height (spec_add xs s)"
  by (auto simp: spec_add_def uncovered_def by_height_spec_insert by_height_filter
      dest!: replaceFirst_heights split: option.splits if_splits)

lemma spec_add_set: "s \<in> set (spec_add xs s) \<and> set (spec_add xs s) \<subseteq> insert s (set xs)"
  using replaceFirst_set [of "uncovered xs s" s]
  by (auto simp: spec_add_def spec_insert_set uncovered_def split: option.splits if_splits)

text \<open>What a column over a fixture list is, as a list: the fold of the list-level insertion.\<close>

definition column_list :: "tile \<Rightarrow> fixture list \<Rightarrow> tsection list" where
  "column_list t fs = foldl spec_add [] (baseSection t # map fx_Section fs)"

lemma fold_AddSection:
  "col_inv c \<Longrightarrow> col_inv (fold (\<lambda>f c. AddSection c (fx_Section f)) fs c) \<and>
     Sections (fold (\<lambda>f c. AddSection c (fx_Section f)) fs c) =
       foldl spec_add (Sections c) (map fx_Section fs)"
  using AddSection_refines_list by (induction fs arbitrary: c) auto

lemma columnFor_list:
  "col_inv (columnFor t v fs) \<and> Sections (columnFor t v fs) = column_list t fs"
  using fold_AddSection [of "AddSection (NewColumn (tile_point t) v) (baseSection t)" fs]
    AddSection_refines_list [OF NewColumn_inv(1) [of "tile_point t" v], of "baseSection t"]
  by (simp add: columnFor_def column_list_def NewColumn_inv)

lemma foldl_spec_add_inv:
  "by_height xs \<Longrightarrow> by_height (foldl spec_add xs ss) \<and> set (foldl spec_add xs ss) \<subseteq> set xs \<union> set ss"
proof (induction ss arbitrary: xs)
  case (Cons s ss)
  from Cons.IH [OF by_height_spec_add [OF Cons.prems], of s] spec_add_set [of s xs]
  show ?case by auto
qed simp

lemma foldl_spec_add_nonempty: "xs \<noteq> [] \<or> ss \<noteq> [] \<Longrightarrow> foldl spec_add xs ss \<noteq> []"
proof (induction ss arbitrary: xs)
  case (Cons s ss)
  have "spec_add xs s \<noteq> []" using spec_add_set [of s xs] by auto
  with Cons.IH [of "spec_add xs s"] show ?case by simp
qed simp

lemma column_list_props:
  "by_height (column_list t fs)" "column_list t fs \<noteq> []"
  "set (column_list t fs) \<subseteq> insert (baseSection t) (fx_Section ` set fs)"
  using foldl_spec_add_inv [of "[]" "baseSection t # map fx_Section fs"]
    foldl_spec_add_nonempty [of "[]" "baseSection t # map fx_Section fs"]
  by (auto simp: column_list_def)

lemma resolver_Column_Inr:
  assumes "resolver_Column r p = Inr c"
  obtains t i where "grid_Tile (rs_grid r) p = Some t" "tile_Valid t"
    "grid_Index (rs_grid r) p = Some i" "c = columnFor t (rs_versions r i) (rs_fixtures r i)"
    "col_inv c" "Sections c = column_list t (rs_fixtures r i)"
  using assms columnFor_list by (auto simp: resolver_Column_def split: option.splits if_splits)

text \<open>The column the resolver builds for a tile holds its sections in order of height, never
  fewer than one, and \<open>TopSection\<close> returns one that no other section of the tile is above: what
  the client's "stack on top" placement and the slot rule of the path finder rely on.\<close>

theorem resolver_column_sorted:
  assumes "resolver_Column r p = Inr c"
  shows "sorted (map (\<lambda>s. sint (sec_z s)) (Sections c)) \<and>
    (\<exists>top\<in>set (Sections c). resolver_TopSection r p = Inr top \<and>
       (\<forall>s\<in>set (Sections c). sint (sec_z s) \<le> sint (sec_z top)))"
proof -
  from assms obtain t i where c: "col_inv c" "Sections c = column_list t (rs_fixtures r i)"
    by (rule resolver_Column_Inr)
  then have ne: "Sections c \<noteq> []" and srt: "by_height (Sections c)"
    by (simp_all add: column_list_props)
  then have split: "Sections c = butlast (Sections c) @ [last (Sections c)]" by simp
  have "\<forall>s\<in>set (Sections c). sec_height s \<le> sec_height (last (Sections c))"
    using srt by (subst (asm) split, subst split) (auto simp: sorted_append)
  moreover have "TopSection c = Some (last (Sections c))"
    using TopSection_inv [OF c(1)] ne by simp
  ultimately show ?thesis
    using assms ne srt by (auto simp: resolver_TopSection_def)
qed

definition flat_grid :: grid where
  "flat_grid = \<lparr>g_width = 3, g_height = 1, g_heights = [0, 0, 0], g_flags = [0, 0, 0],
     g_door = Point 0 0, g_hasDoor = False, g_validCount = 3\<rparr>"

definition chair_fixture :: fixture where
  "chair_fixture = \<lparr>fx_point = Point 1 0, fx_z = 4, fx_bottom = 0, fx_top = 4, fx_clearance = 8,
     fx_state = StateSit, fx_stacking = False, fx_source = SourceFixture, fx_sourceID = 7\<rparr>"

definition chair_resolver :: resolver where
  "chair_resolver = \<lparr>rs_grid = flat_grid, rs_fixtures = (\<lambda>i. if i = 1 then [chair_fixture] else []),
     rs_versions = (\<lambda>i. if i = 1 then 1 else 0)\<rparr>"

lemmas sample_world_defs = flat_grid_def chair_fixture_def chair_resolver_def

lemma chair_column:
  "\<exists>c. resolver_Column chair_resolver (Point 1 0) = Inr c"
  by (simp add: sample_world_defs resolver_Column_def grid_Tile_def grid_Index_def InBounds_def
      tile_Valid_def FlagInvalid_def)

theorem resolver_column_sorted_witness:
  "\<exists>c top. resolver_Column chair_resolver (Point 1 0) = Inr c \<and> top \<in> set (Sections c) \<and>
     resolver_TopSection chair_resolver (Point 1 0) = Inr top"
  using chair_column resolver_column_sorted [of chair_resolver "Point 1 0"] by blast

text \<open>C8: \<open>AddSection\<close>, over its two storages (eight inline places with a shifting loop, an
  overflow slice with a swapping loop, and the promotion between them), keeps the storage invariant
  and is the list operation \<open>spec_add\<close>: drop the walkable sections the new one covers, then
  overwrite the first section of the same height for a blocking or slot section, and insert below
  every higher section otherwise.\<close>

theorem AddSection_refines:
  assumes "col_inv c"
  shows "col_inv (AddSection c s) \<and> Sections (AddSection c s) = spec_add (Sections c) s"
  using assms by (rule AddSection_refines_list)

theorem AddSection_refines_witness:
  "Sections (AddSection (NewColumn (Point 1 0) 0) (fx_Section chair_fixture)) =
     spec_add [] (fx_Section chair_fixture)"
  using AddSection_refines [of "NewColumn (Point 1 0) 0" "fx_Section chair_fixture"] by simp

subsection \<open>Replacing fixtures, and versions\<close>

abbreviation at_index :: "grid \<Rightarrow> nat \<Rightarrow> fixture \<Rightarrow> bool" where
  "at_index g i f \<equiv> grid_Index g (fx_point f) = Some i"

lemma grid_Valid_Index: "grid_Valid g p \<Longrightarrow> \<exists>i. grid_Index g p = Some i"
  by (auto simp: grid_Valid_def FlagsAt_def grid_Tile_def split: option.splits)

lemma addFixtures_valid:
  "\<forall>f\<in>set fs. grid_Valid (rs_grid r) (fx_point f) \<Longrightarrow>
    \<exists>r'. addFixtures r fs = (r', None) \<and> rs_grid r' = rs_grid r \<and>
      (\<forall>i. rs_fixtures r' i = rs_fixtures r i @ filter (at_index (rs_grid r) i) fs \<and>
         rs_versions r' i = rs_versions r i + of_nat (length (filter (at_index (rs_grid r) i) fs)))"
proof (induction fs arbitrary: r)
  case (Cons f fs)
  then obtain i where i: "grid_Index (rs_grid r) (fx_point f) = Some i"
    using grid_Valid_Index by fastforce
  define r1 where "r1 = r\<lparr>rs_fixtures := (rs_fixtures r)(i := rs_fixtures r i @ [f]),
               rs_versions := (rs_versions r)(i := rs_versions r i + 1)\<rparr>"
  have add: "AddFixture r f = (r1, None)" using Cons.prems i by (simp add: AddFixture_def r1_def)
  have "\<forall>f\<in>set fs. grid_Valid (rs_grid r1) (fx_point f)" using Cons.prems by (simp add: r1_def)
  from Cons.IH [OF this] add i show ?case by (auto simp: r1_def)
qed simp

lemma RemoveFixtures_at:
  "rs_grid (fst (RemoveFixtures r sid)) = rs_grid r"
  "rs_fixtures (fst (RemoveFixtures r sid)) i = filter (\<lambda>f. fx_sourceID f \<noteq> sid) (rs_fixtures r i)"
  "rs_versions (fst (RemoveFixtures r sid)) i =
     rs_versions r i + (if \<exists>f\<in>set (rs_fixtures r i). fx_sourceID f = sid then 1 else 0)"
  by (auto simp: RemoveFixtures_def withoutSource_def filter_empty_conv filter_id_conv
      intro!: filter_True [symmetric])

text \<open>Moving an item's footprint is atomic. \<open>ReplaceFixtures\<close> either rejects a fixture on a
  missing tile and leaves the resolver as it was, or never fails half-way: on every tile the other
  items' fixtures stay in order, the item's old ones are gone and the new ones are appended.\<close>

theorem ReplaceFixtures_atomic:
  "case ReplaceFixtures r sid fs of
     (r', Some e) \<Rightarrow> e = ErrInvalidTile \<and> r' = r \<and> (\<exists>f\<in>set fs. \<not> grid_Valid (rs_grid r) (fx_point f))
   | (r', None) \<Rightarrow> rs_grid r' = rs_grid r \<and>
       (\<forall>i. rs_fixtures r' i = filter (\<lambda>f. fx_sourceID f \<noteq> sid) (rs_fixtures r i) @
              filter (\<lambda>f. grid_Index (rs_grid r) (fx_point f) = Some i) fs)"
proof (cases "list_all (\<lambda>f. grid_Valid (rs_grid r) (fx_point f)) fs")
  case True
  then show ?thesis
    using addFixtures_valid [of fs "fst (RemoveFixtures r sid)"]
    by (auto simp: ReplaceFixtures_def RemoveFixtures_at list_all_iff)
next
  case False
  then show ?thesis by (auto simp: ReplaceFixtures_def list_all_iff)
qed

lemma ReplaceFixtures_atomic_error: "ReplaceFixtures r sid fs = (r', Some e) \<Longrightarrow> r' = r"
  using addFixtures_valid [of fs "fst (RemoveFixtures r sid)"]
  by (auto simp: ReplaceFixtures_def RemoveFixtures_at list_all_iff split: if_splits)

datatype resolver_op = OpAdd fixture | OpRemove ident | OpReplace ident "fixture list"

fun apply_op :: "resolver_op \<Rightarrow> resolver \<Rightarrow> resolver" where
  "apply_op (OpAdd f) r = fst (AddFixture r f)"
| "apply_op (OpRemove sid) r = fst (RemoveFixtures r sid)"
| "apply_op (OpReplace sid fs) r = fst (ReplaceFixtures r sid fs)"

text \<open>A bound on how often one operation bumps the version of one tile.\<close>

fun op_bumps :: "resolver_op \<Rightarrow> nat" where
  "op_bumps (OpAdd f) = 1"
| "op_bumps (OpRemove sid) = 1"
| "op_bumps (OpReplace sid fs) = Suc (length fs)"

definition bumped :: "resolver \<Rightarrow> resolver \<Rightarrow> nat \<Rightarrow> nat \<Rightarrow> bool" where
  "bumped r r' i n \<longleftrightarrow> (\<exists>k\<le>n. rs_versions r' i = rs_versions r i + of_nat k \<and>
     (k = 0 \<longrightarrow> rs_fixtures r' i = rs_fixtures r i))"

lemma bumped_trans: "bumped r r' i n \<Longrightarrow> bumped r' r'' i m \<Longrightarrow> bumped r r'' i (n + m)"
  unfolding bumped_def
proof (elim exE conjE)
  fix k k' assume "k \<le> n" "rs_versions r' i = rs_versions r i + of_nat k"
    "k = 0 \<longrightarrow> rs_fixtures r' i = rs_fixtures r i" "k' \<le> m"
    "rs_versions r'' i = rs_versions r' i + of_nat k'"
    "k' = 0 \<longrightarrow> rs_fixtures r'' i = rs_fixtures r' i"
  then show "\<exists>k\<le>n + m. rs_versions r'' i = rs_versions r i + of_nat k \<and>
       (k = 0 \<longrightarrow> rs_fixtures r'' i = rs_fixtures r i)"
    by (intro exI [of _ "k + k'"]) auto
qed

lemma bumpedI:
  "k \<le> n \<Longrightarrow> rs_versions r' i = rs_versions r i + of_nat k \<Longrightarrow>
     (k = 0 \<Longrightarrow> rs_fixtures r' i = rs_fixtures r i) \<Longrightarrow> bumped r r' i n"
  by (auto simp: bumped_def)

lemma AddFixture_bumped:
  "rs_grid (fst (AddFixture r f)) = rs_grid r \<and> bumped r (fst (AddFixture r f)) i 1"
proof (cases "grid_Index (rs_grid r) (fx_point f) = Some i")
  case True
  then show ?thesis
    by (cases "grid_Valid (rs_grid r) (fx_point f)")
      (simp_all add: AddFixture_def bumpedI [of 0] bumpedI [of "Suc 0"])
next
  case False
  then show ?thesis
    by (auto simp: AddFixture_def split: option.splits intro: bumpedI [of 0])
qed

lemma RemoveFixtures_bumped: "bumped r (fst (RemoveFixtures r sid)) i 1"
proof (cases "\<exists>f\<in>set (rs_fixtures r i). fx_sourceID f = sid")
  case True
  then show ?thesis by (intro bumpedI [of "Suc 0"]) (auto simp: RemoveFixtures_at)
next
  case False
  then show ?thesis by (intro bumpedI [of 0]) (auto simp: RemoveFixtures_at intro: filter_True)
qed

lemma addFixtures_bumped:
  assumes "\<forall>f\<in>set fs. grid_Valid (rs_grid r) (fx_point f)"
  shows "rs_grid (fst (addFixtures r fs)) = rs_grid r \<and> bumped r (fst (addFixtures r fs)) i (length fs)"
  using addFixtures_valid [OF assms]
  by (auto simp: filter_empty_conv
      intro!: bumpedI [of "length (filter (at_index (rs_grid r) i) fs)"])

lemma apply_op_bumped:
  "rs_grid (apply_op op r) = rs_grid r \<and> bumped r (apply_op op r) i (op_bumps op)"
proof (cases op)
  case (OpReplace sid fs)
  show ?thesis
  proof (cases "list_all (\<lambda>f. grid_Valid (rs_grid r) (fx_point f)) fs")
    case True
    then have "rs_grid (apply_op op r) = rs_grid r \<and>
        bumped (fst (RemoveFixtures r sid)) (apply_op op r) i (length fs)"
      using addFixtures_bumped [of fs "fst (RemoveFixtures r sid)" i] OpReplace
      by (simp add: ReplaceFixtures_def RemoveFixtures_at list_all_iff)
    with bumped_trans [OF RemoveFixtures_bumped [of r sid i]] show ?thesis
      using OpReplace by simp
  next
    case False
    with OpReplace show ?thesis by (simp add: ReplaceFixtures_def bumpedI [of 0])
  qed
qed (use AddFixture_bumped RemoveFixtures_bumped in \<open>auto simp: RemoveFixtures_at\<close>)

lemma fold_apply_op_bumped:
  "rs_grid (fold apply_op ops r) = rs_grid r \<and>
     bumped r (fold apply_op ops r) i (sum_list (map op_bumps ops))"
proof (induction ops arbitrary: r)
  case (Cons op ops)
  then show ?case
    using bumped_trans [of r "apply_op op r" i "op_bumps op"] apply_op_bumped [of op r i] by auto
qed (simp add: bumpedI [of 0])

lemma col_version_columnFor: "col_version (columnFor t v fs) = v"
proof -
  have add: "col_version (AddSection c s) = col_version c" for c s
    by (simp add: AddSection_def Let_def removeCoveredWalkableSections_def replaceSections_def
        replaceTiedSection_def insertExtra_def insertInline_def promoteToExtra_def
        split: option.splits)
  have "col_version (fold (\<lambda>f c. AddSection c (fx_Section f)) fs c) = col_version c" for c
    by (induction fs arbitrary: c) (simp_all add: add)
  then show ?thesis by (simp add: columnFor_def add NewColumn_def)
qed

lemma same_version_same_column:
  assumes "sum_list (map op_bumps ops) < 2 ^ 32"
    and c: "resolver_Column r p = Inr c" and c': "resolver_Column (fold apply_op ops r) p = Inr c'"
    and eq: "col_version c = col_version c'"
  shows "c = c'"
proof -
  let ?r = "fold apply_op ops r"
  obtain t i where t: "grid_Tile (rs_grid r) p = Some t" "grid_Index (rs_grid r) p = Some i"
    "c = columnFor t (rs_versions r i) (rs_fixtures r i)"
    using c by (elim resolver_Column_Inr) blast
  have grid: "rs_grid ?r = rs_grid r" and b: "bumped r ?r i (sum_list (map op_bumps ops))"
    using fold_apply_op_bumped by blast+
  have t': "c' = columnFor t (rs_versions ?r i) (rs_fixtures ?r i)"
    using c' t grid by (auto simp: resolver_Column_def split: if_splits)
  obtain k where k: "k \<le> sum_list (map op_bumps ops)"
    "rs_versions ?r i = rs_versions r i + of_nat k" "k = 0 \<longrightarrow> rs_fixtures ?r i = rs_fixtures r i"
    using b by (auto simp: bumped_def)
  have "(of_nat k :: u32) = 0" using eq t t' k(2) by (simp add: col_version_columnFor)
  moreover have "k < 2 ^ 32" using assms(1) k(1) by simp
  ultimately have "k = 0" by (auto simp: word_of_nat_eq_0_iff dest: dvd_imp_le)
  with k t(3) t' show ?thesis by simp
qed

text \<open>A column's version stands for its content: after any sequence of fixture operations with
  fewer than 2^32 version bumps of one tile, a tile that shows the version seen before has the same
  column, section by section. The path validation before a walking step relies on it.\<close>

theorem column_version_determines:
  assumes "sum_list (map op_bumps ops) < 2 ^ 32"
    and "resolver_Column r p = Inr c" and "resolver_Column (fold apply_op ops r) p = Inr c'"
    and "col_version c = col_version c'"
  shows "c = c'"
  using assms by (rule same_version_same_column)

theorem column_version_determines_witness:
  "\<exists>c. resolver_Column chair_resolver (Point 1 0) = Inr c \<and>
     (\<forall>c'. resolver_Column (fold apply_op [OpRemove 3] chair_resolver) (Point 1 0) = Inr c' \<and>
        col_version c = col_version c' \<longrightarrow> c = c')"
  using chair_column column_version_determines [of "[OpRemove 3]" chair_resolver "Point 1 0"] by fastforce

end
