(* ===== verification/Path_Heap.thy ===== *)
theory Path_Heap
  imports Surface
begin

text \<open>
  The open set of the room path finder, after \<^verbatim>\<open>internal/realm/room/world/path/node.go\<close>: node
  keys, the array heap with its \<open>up\<close> and \<open>down\<close> loops, and the neighbour directions. The locale
  \<open>priority_queue\<close> states the contract the search relies on; it is interpreted on the heap.
\<close>

subsection \<open>Nodes and directions\<close>

record position =
  pos_point :: point
  pos_z :: height

record node_key =
  nk_x :: u16
  nk_y :: u16
  nk_z :: height

definition nodeFromPosition :: "position \<Rightarrow> node_key" where
  "nodeFromPosition p = \<lparr>nk_x = px (pos_point p), nk_y = py (pos_point p), nk_z = pos_z p\<rparr>"

definition key_point :: "node_key \<Rightarrow> point" where
  "key_point k = Point (nk_x k) (nk_y k)"

definition key_position :: "node_key \<Rightarrow> position" where
  "key_position k = \<lparr>pos_point = key_point k, pos_z = nk_z k\<rparr>"

record open_node =
  on_key :: node_key
  on_cost :: int
  on_priority :: int

record direction =
  dir_dx :: int
  dir_dy :: int
  dir_diagonal :: bool

definition directions :: "direction list" where
  "directions =
    [\<lparr>dir_dx = 0, dir_dy = -1, dir_diagonal = False\<rparr>, \<lparr>dir_dx = 1, dir_dy = 0, dir_diagonal = False\<rparr>,
     \<lparr>dir_dx = 0, dir_dy = 1, dir_diagonal = False\<rparr>, \<lparr>dir_dx = -1, dir_dy = 0, dir_diagonal = False\<rparr>,
     \<lparr>dir_dx = 1, dir_dy = -1, dir_diagonal = True\<rparr>, \<lparr>dir_dx = 1, dir_dy = 1, dir_diagonal = True\<rparr>,
     \<lparr>dir_dx = -1, dir_dy = 1, dir_diagonal = True\<rparr>, \<lparr>dir_dx = -1, dir_dy = -1, dir_diagonal = True\<rparr>]"

definition neighborPoint :: "node_key \<Rightarrow> direction \<Rightarrow> point option" where
  "neighborPoint k d = NewPoint (uint (nk_x k) + dir_dx d) (uint (nk_y k) + dir_dy d)"

subsection \<open>The heap\<close>

definition node_less :: "open_node \<Rightarrow> open_node \<Rightarrow> bool" where
  "node_less a b = (if on_priority a = on_priority b then on_cost a < on_cost b
                    else on_priority a < on_priority b)"

definition heap_swap :: "open_node list \<Rightarrow> nat \<Rightarrow> nat \<Rightarrow> open_node list" where
  "heap_swap xs i j = xs[i := xs ! j, j := xs ! i]"

lemma length_heap_swap [simp]: "length (heap_swap xs i j) = length xs"
  by (simp add: heap_swap_def)

fun heap_up :: "open_node list \<Rightarrow> nat \<Rightarrow> open_node list" where
  "heap_up xs i =
     (if i = 0 then xs
      else (let parent = (i - 1) div 2
        in if node_less (xs ! parent) (xs ! i) then xs
           else heap_up (heap_swap xs parent i) parent))"

definition smallest_child :: "open_node list \<Rightarrow> nat \<Rightarrow> nat" where
  "smallest_child xs i =
     (let left = i * 2 + 1; right = left + 1;
          smallest = (if left < length xs \<and> node_less (xs ! left) (xs ! i) then left else i)
      in if right < length xs \<and> node_less (xs ! right) (xs ! smallest) then right else smallest)"

lemma smallest_child_range:
  "smallest_child xs i \<noteq> i \<Longrightarrow> i < smallest_child xs i \<and> smallest_child xs i < length xs"
  by (auto simp: smallest_child_def Let_def split: if_splits)

function heap_down :: "open_node list \<Rightarrow> nat \<Rightarrow> open_node list" where
  "heap_down xs i =
     (let smallest = smallest_child xs i
      in if smallest = i then xs else heap_down (heap_swap xs i smallest) smallest)"
  by pat_completeness auto

termination
  by (relation "measure (\<lambda>(xs, i). length xs - i)")
    (auto dest: smallest_child_range intro: diff_less_mono2)

declare heap_up.simps [simp del] heap_down.simps [simp del]

definition heap_Push :: "open_node list \<Rightarrow> open_node \<Rightarrow> open_node list" where
  "heap_Push xs n = heap_up (xs @ [n]) (length (xs @ [n]) - 1)"

definition heap_Pop :: "open_node list \<Rightarrow> (open_node \<times> open_node list) option" where
  "heap_Pop xs =
     (if length xs = 0 then None
      else (let n = xs ! 0; l = xs ! (length xs - 1); ys = take (length xs - 1) xs
        in Some (n, if length ys > 0 then heap_down (ys[0 := l]) 0 else ys)))"

subsection \<open>Order and heap shape\<close>

definition node_le :: "open_node \<Rightarrow> open_node \<Rightarrow> bool" where
  "node_le a b \<longleftrightarrow> \<not> node_less b a"

lemma node_le_lex:
  "node_le a b \<longleftrightarrow> on_priority a < on_priority b \<or> on_priority a = on_priority b \<and> on_cost a \<le> on_cost b"
  by (auto simp: node_le_def node_less_def)

lemma node_le_trans: "node_le a b \<Longrightarrow> node_le b c \<Longrightarrow> node_le a c"
  by (auto simp: node_le_lex)

lemma node_le_refl [simp]: "node_le a a"
  by (simp add: node_le_lex)

lemma node_less_le: "node_less a b \<Longrightarrow> node_le a b" "\<not> node_less a b \<Longrightarrow> node_le b a"
  by (auto simp: node_le_lex node_less_def split: if_splits)

definition up_of :: "nat \<Rightarrow> nat" where "up_of i = (i - 1) div 2"

lemma up_of_less: "0 < i \<Longrightarrow> up_of i < i"
  by (simp add: up_of_def)

lemma up_of_children: "0 < i \<Longrightarrow> up_of i = j \<longleftrightarrow> i = 2 * j + 1 \<or> i = 2 * j + 2"
  by (auto simp: up_of_def)

definition heap_ordered :: "open_node list \<Rightarrow> bool" where
  "heap_ordered xs \<longleftrightarrow> (\<forall>i. 0 < i \<longrightarrow> i < length xs \<longrightarrow> node_le (xs ! up_of i) (xs ! i))"

text \<open>The shape while \<open>up\<close> runs: only the edge above place \<open>k\<close> may be wrong.\<close>

definition up_shape :: "open_node list \<Rightarrow> nat \<Rightarrow> bool" where
  "up_shape xs k \<longleftrightarrow> k < length xs \<and>
     (\<forall>i. 0 < i \<longrightarrow> i < length xs \<longrightarrow> i \<noteq> k \<longrightarrow> node_le (xs ! up_of i) (xs ! i)) \<and>
     (\<forall>i. 0 < i \<longrightarrow> i < length xs \<longrightarrow> up_of i = k \<longrightarrow> 0 < k \<longrightarrow> node_le (xs ! up_of k) (xs ! i))"

text \<open>The shape while \<open>down\<close> runs: only the edges below place \<open>k\<close> may be wrong.\<close>

definition down_shape :: "open_node list \<Rightarrow> nat \<Rightarrow> bool" where
  "down_shape xs k \<longleftrightarrow> k < length xs \<and>
     (\<forall>i. 0 < i \<longrightarrow> i < length xs \<longrightarrow> up_of i \<noteq> k \<longrightarrow> node_le (xs ! up_of i) (xs ! i)) \<and>
     (\<forall>i. 0 < i \<longrightarrow> i < length xs \<longrightarrow> up_of i = k \<longrightarrow> 0 < k \<longrightarrow> node_le (xs ! up_of k) (xs ! i))"

lemma mset_heap_swap: "i < length xs \<Longrightarrow> j < length xs \<Longrightarrow> mset (heap_swap xs i j) = mset xs"
  by (simp add: heap_swap_def mset_swap)

lemma heap_swap_nth:
  "i < length xs \<Longrightarrow> j < length xs \<Longrightarrow>
     heap_swap xs i j ! m = (if m = j then xs ! i else if m = i then xs ! j else xs ! m)"
  by (auto simp: heap_swap_def nth_list_update)

lemma up_shape_step:
  assumes "up_shape xs k" and "0 < k" and "\<not> node_less (xs ! up_of k) (xs ! k)"
  shows "up_shape (heap_swap xs (up_of k) k) (up_of k)"
proof -
  let ?p = "up_of k" and ?ys = "heap_swap xs (up_of k) k"
  have k: "k < length xs" "?p < k" using assms by (simp_all add: up_shape_def up_of_less)
  have le: "node_le (xs ! k) (xs ! ?p)" using assms(3) by (rule node_less_le)
  have edge: "node_le (xs ! up_of i) (xs ! i)" if "0 < i" "i < length xs" "i \<noteq> k" for i
    using assms(1) that by (simp add: up_shape_def)
  have below: "node_le (xs ! ?p) (xs ! i)" if "0 < i" "i < length xs" "up_of i = k" for i
    using assms(1,2) that by (simp add: up_shape_def)
  have nth: "?ys ! m = (if m = k then xs ! ?p else if m = ?p then xs ! k else xs ! m)" for m
    using k by (simp add: heap_swap_nth)
  have "node_le (?ys ! up_of i) (?ys ! i)" if "0 < i" "i < length xs" "i \<noteq> ?p" for i
  proof (cases "i = k")
    case True
    then show ?thesis using le k by (simp add: nth)
  next
    case False
    have "up_of i = k \<or> up_of i = ?p \<or> up_of i \<noteq> k \<and> up_of i \<noteq> ?p" by blast
    then show ?thesis
      using edge [OF that(1,2) False] below [OF that(1,2)] False that k
        node_le_trans [OF le] by (auto simp: nth)
  qed
  moreover have "node_le (?ys ! up_of ?p) (?ys ! i)"
    if "0 < i" "i < length xs" "up_of i = ?p" "0 < ?p" for i
  proof -
    have pp: "up_of ?p < ?p" using that(4) by (rule up_of_less)
    have "node_le (xs ! up_of ?p) (xs ! ?p)" using edge [OF that(4)] k by simp
    then show ?thesis
      using that pp k edge [OF that(1,2)] node_le_trans by (auto simp: nth)
  qed
  ultimately show ?thesis using k by (simp add: up_shape_def)
qed

lemma heap_up_props:
  "up_shape xs k \<Longrightarrow> heap_ordered (heap_up xs k) \<and> mset (heap_up xs k) = mset xs"
proof (induction xs k rule: heap_up.induct)
  case (1 xs i)
  show ?case
  proof (cases "i = 0 \<or> node_less (xs ! up_of i) (xs ! i)")
    case True
    have "heap_ordered xs"
      unfolding heap_ordered_def
    proof (intro allI impI)
      fix j assume "0 < j" "j < length xs"
      then show "node_le (xs ! up_of j) (xs ! j)"
        using 1(2) True node_less_le(1) by (cases "j = i") (auto simp: up_shape_def)
    qed
    moreover have "heap_up xs i = xs"
      using True by (subst heap_up.simps) (auto simp: Let_def up_of_def)
    ultimately show ?thesis by simp
  next
    case False
    have step: "up_shape (heap_swap xs (up_of i) i) (up_of i)"
      using up_shape_step [OF 1(2)] False by simp
    have "heap_up xs i = heap_up (heap_swap xs (up_of i) i) (up_of i)"
      using False by (subst heap_up.simps) (auto simp: Let_def up_of_def)
    moreover have "mset (heap_swap xs (up_of i) i) = mset xs"
      using 1(2) False up_of_less [of i] by (intro mset_heap_swap) (auto simp: up_shape_def)
    ultimately show ?thesis
      using 1(1) [OF _ refl] False step by (simp add: up_of_def)
  qed
qed

lemma smallest_child_spec:
  fixes xs :: "open_node list" and i :: nat
  defines "s \<equiv> smallest_child xs i"
  shows "s = i \<or> 0 < s \<and> s < length xs \<and> up_of s = i \<and> node_less (xs ! s) (xs ! i)"
    and "0 < j \<Longrightarrow> j < length xs \<Longrightarrow> up_of j = i \<Longrightarrow> node_le (xs ! s) (xs ! j)"
proof -
  show "s = i \<or> 0 < s \<and> s < length xs \<and> up_of s = i \<and> node_less (xs ! s) (xs ! i)"
    by (auto simp: s_def smallest_child_def Let_def up_of_def node_less_def split: if_splits)
  assume j: "0 < j" "j < length xs" "up_of j = i"
  then have "j = i * 2 + 1 \<or> j = i * 2 + 2" by (auto simp: up_of_children)
  with j(2) show "node_le (xs ! s) (xs ! j)"
    by (auto simp: s_def smallest_child_def Let_def node_le_lex node_less_def split: if_splits)
qed

lemma down_shape_step:
  assumes "down_shape xs k" and s: "smallest_child xs k = s" "s \<noteq> k"
  shows "down_shape (heap_swap xs k s) s"
proof -
  let ?ys = "heap_swap xs k s"
  have sk: "0 < s" "s < length xs" "up_of s = k" "node_less (xs ! s) (xs ! k)" "k < length xs" "k < s"
    using smallest_child_spec(1) [of xs k] s assms(1) up_of_less [of s] by (auto simp: down_shape_def)
  have le: "node_le (xs ! s) (xs ! k)" using sk(4) by (rule node_less_le)
  have least: "node_le (xs ! s) (xs ! j)" if "0 < j" "j < length xs" "up_of j = k" for j
    using smallest_child_spec(2) [OF that] s by simp
  have edge: "node_le (xs ! up_of i) (xs ! i)" if "0 < i" "i < length xs" "up_of i \<noteq> k" for i
    using assms(1) that by (simp add: down_shape_def)
  have above: "node_le (xs ! up_of k) (xs ! i)" if "0 < i" "i < length xs" "up_of i = k" "0 < k" for i
    using assms(1) that by (simp add: down_shape_def)
  have nth: "?ys ! m = (if m = s then xs ! k else if m = k then xs ! s else xs ! m)" for m
    using sk by (simp add: heap_swap_nth)
  have "node_le (?ys ! up_of i) (?ys ! i)" if i: "0 < i" "i < length xs" "up_of i \<noteq> s" for i
  proof (cases "up_of i = k")
    case True
    then have "i \<noteq> k" using up_of_less [OF i(1)] by auto
    with True i sk le least [OF i(1,2) True] show ?thesis by (auto simp: nth)
  next
    case False
    with i have "i \<noteq> s" using sk(3) by auto
    show ?thesis
    proof (cases "i = k")
      case True
      then show ?thesis
        using above [OF sk(1,2,3)] i sk False by (auto simp: nth)
    next
      case ik: False
      with i False edge [OF i(1,2) False] \<open>i \<noteq> s\<close> show ?thesis by (simp add: nth)
    qed
  qed
  moreover have "node_le (?ys ! up_of s) (?ys ! i)" if i: "0 < i" "i < length xs" "up_of i = s" for i
  proof -
    have "s < i" using up_of_less [OF i(1)] i(3) by simp
    then show ?thesis using edge [OF i(1,2)] i sk by (simp add: nth)
  qed
  ultimately show ?thesis using sk by (simp add: down_shape_def)
qed

lemma heap_down_props:
  "down_shape xs k \<Longrightarrow> heap_ordered (heap_down xs k) \<and> mset (heap_down xs k) = mset xs"
proof (induction xs k rule: heap_down.induct)
  case (1 xs i)
  show ?case
  proof (cases "smallest_child xs i = i")
    case True
    have "heap_ordered xs"
      unfolding heap_ordered_def
    proof (intro allI impI)
      fix j assume "0 < j" "j < length xs"
      then show "node_le (xs ! up_of j) (xs ! j)"
        using 1(2) smallest_child_spec(2) [of j xs i] True
        by (cases "up_of j = i") (auto simp: down_shape_def)
    qed
    moreover have "heap_down xs i = xs"
      using True by (subst heap_down.simps) (simp add: Let_def)
    ultimately show ?thesis by simp
  next
    case False
    have "mset (heap_swap xs i (smallest_child xs i)) = mset xs"
      using 1(2) smallest_child_range [OF False] by (intro mset_heap_swap) (auto simp: down_shape_def)
    then show ?thesis
      using 1(1) [OF refl False down_shape_step [OF 1(2) refl False]] False
      by (subst (1 2) heap_down.simps) (simp add: Let_def)
  qed
qed

lemma heap_root_least:
  assumes "heap_ordered xs" shows "i < length xs \<Longrightarrow> node_le (xs ! 0) (xs ! i)"
proof (induction i rule: less_induct)
  case (less i)
  show ?case
  proof (cases "i = 0")
    case False
    with less.prems have "up_of i < i" "up_of i < length xs" using up_of_less [of i] by auto
    moreover have "node_le (xs ! up_of i) (xs ! i)"
      using assms False less.prems by (simp add: heap_ordered_def)
    ultimately show ?thesis using less.IH node_le_trans by blast
  qed simp
qed

lemma heap_Push_props:
  assumes "heap_ordered xs"
  shows "heap_ordered (heap_Push xs n)" and "mset (heap_Push xs n) = add_mset n (mset xs)"
proof -
  have "up_shape (xs @ [n]) (length xs)"
    unfolding up_shape_def
  proof (intro conjI allI impI)
    fix i assume i: "0 < i" "i < length (xs @ [n])" "i \<noteq> length xs"
    then have "up_of i < length xs" using up_of_less [of i] by simp
    with i assms show "node_le ((xs @ [n]) ! up_of i) ((xs @ [n]) ! i)"
      by (auto simp: nth_append heap_ordered_def)
  next
    fix i assume "0 < i" "i < length (xs @ [n])" "up_of i = length xs"
    then show "node_le ((xs @ [n]) ! up_of (length xs)) ((xs @ [n]) ! i)"
      using up_of_less [of i] by simp
  qed simp
  from heap_up_props [OF this] show "heap_ordered (heap_Push xs n)"
    "mset (heap_Push xs n) = add_mset n (mset xs)" by (simp_all add: heap_Push_def)
qed

lemma heap_Pop_None [simp]: "heap_Pop xs = None \<longleftrightarrow> xs = []"
  by (simp add: heap_Pop_def Let_def)

lemma heap_Pop_props:
  assumes "heap_ordered xs" and "heap_Pop xs = Some (n, ys)"
  shows "heap_ordered ys" and "mset xs = add_mset n (mset ys)" and "\<forall>x\<in>set xs. node_le n x"
proof -
  from assms(2) have ne: "xs \<noteq> []" and n: "n = xs ! 0" by (auto simp: heap_Pop_def Let_def split: if_splits)
  show "\<forall>x\<in>set xs. node_le n x"
    using heap_root_least [OF assms(1)] n by (auto simp: in_set_conv_nth)
  have "heap_ordered ys \<and> mset xs = add_mset n (mset ys)"
  proof (cases "length xs = 1")
    case True
    then obtain x where "xs = [x]" by (auto simp: length_Suc_conv)
    with assms(2) show ?thesis by (auto simp: heap_Pop_def Let_def heap_ordered_def)
  next
    case False
    then obtain x zs l where xs: "xs = x # zs @ [l]"
      using ne by (metis append_butlast_last_id list.exhaust length_Cons list.size(3) One_nat_def)
    have ys: "ys = heap_down (l # zs) 0" and nx: "n = x"
      using assms(2) xs by (auto simp: heap_Pop_def Let_def)
    have "down_shape (l # zs) 0"
      unfolding down_shape_def
    proof (intro conjI allI impI)
      fix i assume i: "0 < i" "i < length (l # zs)" "up_of i \<noteq> 0"
      then have up: "up_of i < length (l # zs)" using up_of_less [of i] by simp
      have same: "(l # zs) ! m = xs ! m" if "m \<noteq> 0" "m < length (l # zs)" for m
        using that by (cases m) (auto simp: xs nth_append)
      have "i < length xs" using i xs by simp
      with assms(1) i(1) have "node_le (xs ! up_of i) (xs ! i)" unfolding heap_ordered_def by blast
      then show "node_le ((l # zs) ! up_of i) ((l # zs) ! i)"
        using same [OF i(3) up] same [of i] i by simp
    qed simp_all
    from heap_down_props [OF this] show ?thesis by (simp add: ys nx xs)
  qed
  then show "heap_ordered ys" "mset xs = add_mset n (mset ys)" by simp_all
qed

subsection \<open>The contract of the open set\<close>

locale priority_queue =
  fixes ok :: "'q \<Rightarrow> bool" and entries :: "'q \<Rightarrow> 'a multiset"
    and push :: "'q \<Rightarrow> 'a \<Rightarrow> 'q" and pop :: "'q \<Rightarrow> ('a \<times> 'q) option"
    and le :: "'a \<Rightarrow> 'a \<Rightarrow> bool"
  assumes push_ok: "ok q \<Longrightarrow> ok (push q x)"
    and push_entries: "ok q \<Longrightarrow> entries (push q x) = add_mset x (entries q)"
    and pop_None: "ok q \<Longrightarrow> pop q = None \<longleftrightarrow> entries q = {#}"
    and pop_ok: "ok q \<Longrightarrow> pop q = Some (x, q') \<Longrightarrow> ok q'"
    and pop_entries: "ok q \<Longrightarrow> pop q = Some (x, q') \<Longrightarrow> entries q = add_mset x (entries q')"
    and pop_least: "ok q \<Longrightarrow> pop q = Some (x, q') \<Longrightarrow> y \<in># entries q \<Longrightarrow> le x y"
begin

definition drains :: "'q \<Rightarrow> 'a list \<Rightarrow> bool" where
  "drains q xs \<longleftrightarrow> (\<exists>qs. length qs = Suc (length xs) \<and> qs ! 0 = q \<and> pop (qs ! length xs) = None \<and>
     (\<forall>i<length xs. pop (qs ! i) = Some (xs ! i, qs ! Suc i)))"

lemma drains_Nil: "drains q [] \<longleftrightarrow> pop q = None"
proof
  assume "pop q = None"
  then show "drains q []" unfolding drains_def by (intro exI [of _ "[q]"]) simp
qed (auto simp: drains_def)

lemma drains_Cons: "drains q (x # xs) \<longleftrightarrow> (\<exists>q'. pop q = Some (x, q') \<and> drains q' xs)"
proof
  assume "drains q (x # xs)"
  then obtain qs where qs: "length qs = Suc (Suc (length xs))" "qs ! 0 = q"
    "pop (qs ! Suc (length xs)) = None"
    "\<And>i. i < Suc (length xs) \<Longrightarrow> pop (qs ! i) = Some ((x # xs) ! i, qs ! Suc i)"
    by (auto simp: drains_def)
  have "drains (qs ! 1) xs"
    unfolding drains_def using qs(1,3) qs(4) [of "Suc _"] by (intro exI [of _ "tl qs"]) (auto simp: nth_tl)
  with qs(2) qs(4) [of 0] show "\<exists>q'. pop q = Some (x, q') \<and> drains q' xs" by auto
next
  assume "\<exists>q'. pop q = Some (x, q') \<and> drains q' xs"
  then obtain q' qs where "pop q = Some (x, q')" "length qs = Suc (length xs)" "qs ! 0 = q'"
    "pop (qs ! length xs) = None" "\<forall>i<length xs. pop (qs ! i) = Some (xs ! i, qs ! Suc i)"
    by (auto simp: drains_def)
  then show "drains q (x # xs)"
    unfolding drains_def by (intro exI [of _ "q # qs"]) (auto simp: nth_Cons split: nat.splits)
qed

text \<open>Popping until the queue is empty yields the entries, each once, least first.\<close>

lemma drains_sorted: "ok q \<Longrightarrow> drains q xs \<Longrightarrow> mset xs = entries q \<and> sorted_wrt le xs"
proof (induction xs arbitrary: q)
  case (Cons x xs)
  then obtain q' where q': "pop q = Some (x, q')" "drains q' xs" by (auto simp: drains_Cons)
  with Cons have IH: "mset xs = entries q'" "sorted_wrt le xs" using pop_ok by blast+
  have "le x y" if "y \<in> set xs" for y
    using that IH(1) pop_least [OF Cons.prems(1) q'(1)] pop_entries [OF Cons.prems(1) q'(1)]
    by (metis set_mset_mset union_single_eq_member add_mset_add_single in_multiset_in_set insert_iff set_mset_add_mset_insert)
  with IH q' Cons.prems show ?case by (auto simp: pop_entries)
qed (auto simp: drains_Nil pop_None)

end

interpretation open_heap: priority_queue heap_ordered mset heap_Push heap_Pop node_le
proof unfold_locales
  fix q :: "open_node list" and x q' y
  assume q: "heap_ordered q"
  show "heap_ordered (heap_Push q x)" using q by (rule heap_Push_props)
  show "mset (heap_Push q x) = add_mset x (mset q)" using q by (rule heap_Push_props)
  show "heap_Pop q = None \<longleftrightarrow> mset q = {#}" by simp
  assume pop: "heap_Pop q = Some (x, q')"
  show "heap_ordered q'" "mset q = add_mset x (mset q')" using heap_Pop_props [OF q pop] by simp_all
  show "y \<in># mset q \<Longrightarrow> node_le x y" using heap_Pop_props(3) [OF q pop] by (simp add: in_multiset_in_set)
qed

subsection \<open>Draining the open set\<close>

lemma length_heap_down: "length (heap_down xs i) = length xs"
  by (induction xs i rule: heap_down.induct) (subst heap_down.simps, simp add: Let_def)

lemma heap_Pop_length: "heap_Pop xs = Some (n, ys) \<Longrightarrow> length xs = Suc (length ys)"
  by (cases xs) (auto simp: heap_Pop_def Let_def length_heap_down split: if_splits)

function drain :: "open_node list \<Rightarrow> open_node list" where
  "drain xs = (case heap_Pop xs of None \<Rightarrow> [] | Some (n, ys) \<Rightarrow> n # drain ys)"
  by pat_completeness auto

termination
  by (relation "measure length") (auto dest: heap_Pop_length)

declare drain.simps [simp del]

lemma drains_drain: "open_heap.drains xs (drain xs)"
  by (induction xs rule: drain.induct)
    (subst drain.simps, auto simp: open_heap.drains_Nil open_heap.drains_Cons split: option.splits)

lemma foldl_heap_Push:
  "heap_ordered xs \<Longrightarrow> heap_ordered (foldl heap_Push xs ns) \<and>
     mset (foldl heap_Push xs ns) = mset xs + mset ns"
  by (induction ns arbitrary: xs) (auto simp: open_heap.push_ok open_heap.push_entries)

text \<open>The open set is a priority queue: whatever nodes are pushed, popping until it is empty
  returns exactly those nodes, in ascending order of priority and, at equal priority, of cost.\<close>

theorem open_heap_sorts:
  "mset (drain (foldl heap_Push [] ns)) = mset ns \<and> sorted_wrt node_le (drain (foldl heap_Push [] ns))"
proof -
  have "heap_ordered (foldl heap_Push [] ns)" "mset (foldl heap_Push [] ns) = mset ns"
    using foldl_heap_Push [of "[]" ns] by (simp_all add: heap_ordered_def)
  then show ?thesis using open_heap.drains_sorted drains_drain by metis
qed

end
