(* ===== verification/Path_Finder.thy ===== *)
theory Path_Finder
  imports Path_Heap "HOL-Library.AList"
begin

text \<open>
  The room path finder, after \<^verbatim>\<open>internal/realm/room/world/path\<close>: rules, occupancy, costs and
  paths (\<^verbatim>\<open>path.go\<close>, \<^verbatim>\<open>occupancy.go\<close>), the direction tests (\<^verbatim>\<open>neighbors.go\<close>) and the A* search
  (\<^verbatim>\<open>finder.go\<close>). The search state is threaded through every call, because resolving a column
  records the version that was observed. The second half compares the search with the graph of
  legal steps: soundness, completeness, optimality, termination.
\<close>

subsection \<open>Rules, occupancy and costs\<close>

datatype path_error = ErrInvalidStart | ErrInvalidGoal | ErrNoPath | ErrSearchLimit | ErrInvalidPath

definition CardinalCost :: int where "CardinalCost = 10"
definition DiagonalCost :: int where "DiagonalCost = 14"

type_synonym world = "point \<Rightarrow> surface_error + column"

record rules =
  ru_MaxStepUp :: height
  ru_MaxStepDown :: height
  ru_AllowFalling :: bool
  ru_DisableDiagonal :: bool
  ru_MaxVisited :: int

definition DefaultRules :: rules where
  "DefaultRules = \<lparr>ru_MaxStepUp = 6, ru_MaxStepDown = 6, ru_AllowFalling = False,
     ru_DisableDiagonal = False, ru_MaxVisited = 4096\<rparr>"

definition Normalize :: "rules \<Rightarrow> rules" where
  "Normalize r =
     (let r1 = (if ru_MaxStepUp r = 0 then r\<lparr>ru_MaxStepUp := ru_MaxStepUp DefaultRules\<rparr> else r);
          r2 = (if ru_MaxStepDown r1 = 0 then r1\<lparr>ru_MaxStepDown := ru_MaxStepDown DefaultRules\<rparr> else r1)
      in if ru_MaxVisited r2 \<le> 0 then r2\<lparr>ru_MaxVisited := ru_MaxVisited DefaultRules\<rparr> else r2)"

definition AllowsStep :: "rules \<Rightarrow> height \<Rightarrow> height \<Rightarrow> bool" where
  "AllowsStep r from to =
     (let delta = to - from
      in if sint delta > sint (ru_MaxStepUp r) then False
         else \<not> (sint delta < 0 \<and> \<not> ru_AllowFalling r \<and> sint (- delta) > sint (ru_MaxStepDown r)))"

definition AllowsSection :: "tsection \<Rightarrow> bool" where
  "AllowsSection s = sec_Walkable s"

definition isSlotState :: "state \<Rightarrow> bool" where
  "isSlotState st \<longleftrightarrow> st = StateSit \<or> st = StateLay"

type_synonym occupancy = "node_key set"

definition NewOccupancy :: "position list \<Rightarrow> occupancy" where
  "NewOccupancy ps = set (map nodeFromPosition ps)"

definition occ_Len :: "occupancy \<Rightarrow> nat" where
  "occ_Len oc = card oc"

definition blocks :: "occupancy \<Rightarrow> node_key \<Rightarrow> bool" where
  "blocks oc k \<longleftrightarrow> k \<in> oc"

definition Occupied :: "occupancy \<Rightarrow> position \<Rightarrow> bool" where
  "Occupied oc p = blocks oc (nodeFromPosition p)"

definition movementCost :: "node_key \<Rightarrow> node_key \<Rightarrow> bool \<Rightarrow> int" where
  "movementCost from to diagonal =
     (if diagonal then DiagonalCost else CardinalCost) +
     (if sint (nk_z to) > sint (nk_z from) then sint (nk_z to - nk_z from) else 0)"

definition absInt :: "int \<Rightarrow> int" where
  "absInt v = (if v < 0 then - v else v)"

definition heuristic :: "node_key \<Rightarrow> point \<Rightarrow> int" where
  "heuristic from goal =
     (let dx = absInt (uint (px goal) - uint (nk_x from));
          dy = absInt (uint (py goal) - uint (nk_y from));
          minimum = (if dx > dy then dy else dx);
          maximum = (if dx > dy then dx else dy)
      in DiagonalCost * minimum + CardinalCost * (maximum - minimum))"

subsection \<open>Paths\<close>

record step =
  st_position :: position
  st_diagonal :: bool

text \<open>The observed versions are an association list with distinct keys: the order in which the
  points were first observed stands for the iteration order of the map.\<close>

record room_path =
  path_steps :: "step list"
  path_versions :: "(point \<times> u32) list"

definition NewPath :: "step list \<Rightarrow> room_path" where
  "NewPath ss = \<lparr>path_steps = ss, path_versions = []\<rparr>"

definition path_Len :: "room_path \<Rightarrow> nat" where
  "path_Len p = length (path_steps p)"

definition ColumnVersions :: "room_path \<Rightarrow> (point \<times> u32) list" where
  "ColumnVersions p = sort_key fst (path_versions p)"

fun Validate_loop :: "world \<Rightarrow> (point \<times> u32) list \<Rightarrow> path_error option" where
  "Validate_loop W [] = None"
| "Validate_loop W ((p, v) # vs) = (case W p of
     Inl _ \<Rightarrow> Some ErrInvalidPath
   | Inr c \<Rightarrow> if col_version c \<noteq> v then Some ErrInvalidPath else Validate_loop W vs)"

definition Validate :: "room_path \<Rightarrow> world \<Rightarrow> path_error option" where
  "Validate p W = Validate_loop W (path_versions p)"

subsection \<open>The search state\<close>

record search =
  s_world :: world
  s_rules :: rules
  s_occupancy :: occupancy
  s_goal :: point
  s_open :: "open_node list"
  s_cameFrom :: "node_key \<rightharpoonup> node_key"
  s_gScore :: "node_key \<rightharpoonup> int"
  s_versions :: "(point \<times> u32) list"
  s_visited :: int

definition newSearch :: "world \<Rightarrow> rules \<Rightarrow> occupancy \<Rightarrow> point \<Rightarrow> search" where
  "newSearch W r oc goal = \<lparr>s_world = W, s_rules = r, s_occupancy = oc, s_goal = goal, s_open = [],
     s_cameFrom = Map.empty, s_gScore = Map.empty, s_versions = [], s_visited = 0\<rparr>"

definition search_column :: "search \<Rightarrow> point \<Rightarrow> search \<times> (surface_error + column)" where
  "search_column s p = (case s_world s p of
     Inl e \<Rightarrow> (s, Inl e)
   | Inr c \<Rightarrow> (s\<lparr>s_versions := AList.update p (col_version c) (s_versions s)\<rparr>, Inr c))"

definition section_key :: "tsection \<Rightarrow> node_key" where
  "section_key sec = \<lparr>nk_x = px (sec_point sec), nk_y = py (sec_point sec), nk_z = sec_z sec\<rparr>"

subsection \<open>Direction tests\<close>

definition hasReachableSection :: "search \<Rightarrow> node_key \<Rightarrow> point \<Rightarrow> search \<times> bool" where
  "hasReachableSection s u p = (case search_column s p of
     (s', Inl _) \<Rightarrow> (s', False)
   | (s', Inr c) \<Rightarrow> (s', list_ex (\<lambda>sec. AllowsSection sec \<and> Accepts c sec \<and>
        AllowsStep (s_rules s) (nk_z u) (sec_z sec) \<and> \<not> blocks (s_occupancy s) (section_key sec))
        (each_section c)))"

definition diagonalBlocked :: "search \<Rightarrow> node_key \<Rightarrow> direction \<Rightarrow> search \<times> bool" where
  "diagonalBlocked s u d =
     (case (neighborPoint u \<lparr>dir_dx = dir_dx d, dir_dy = 0, dir_diagonal = False\<rparr>,
            neighborPoint u \<lparr>dir_dx = 0, dir_dy = dir_dy d, dir_diagonal = False\<rparr>) of
        (Some horizontal, Some vertical) \<Rightarrow>
          (case hasReachableSection s u horizontal of
             (s', True) \<Rightarrow> (s', False)
           | (s', False) \<Rightarrow> (case hasReachableSection s' u vertical of (s'', b) \<Rightarrow> (s'', \<not> b)))
      | _ \<Rightarrow> (s, True))"

definition skipDirection :: "search \<Rightarrow> node_key \<Rightarrow> direction \<Rightarrow> search \<times> bool" where
  "skipDirection s u d =
     (if dir_diagonal d \<and> ru_DisableDiagonal (s_rules s) then (s, True)
      else if \<not> dir_diagonal d then (s, False)
      else diagonalBlocked s u d)"

subsection \<open>Expanding a node\<close>

definition columnAccepts :: "search \<Rightarrow> tsection \<Rightarrow> search \<times> bool" where
  "columnAccepts s sec = (case search_column s (sec_point sec) of
     (s', Inl _) \<Rightarrow> (s', False) | (s', Inr c) \<Rightarrow> (s', Accepts c sec))"

definition acceptsSection :: "search \<Rightarrow> open_node \<Rightarrow> tsection \<Rightarrow> search \<times> bool" where
  "acceptsSection s current sec =
     (if \<not> AllowsSection sec then (s, False)
      else (case columnAccepts s sec of (s', ok) \<Rightarrow>
        (s', ok \<and> AllowsStep (s_rules s) (nk_z (on_key current)) (sec_z sec) \<and>
             \<not> blocks (s_occupancy s) (section_key sec))))"

definition accept :: "search \<Rightarrow> open_node \<Rightarrow> tsection \<Rightarrow> bool \<Rightarrow> search" where
  "accept s current sec diagonal =
     (let k = section_key sec;
          cost = on_cost current + movementCost (on_key current) k diagonal
      in if (case s_gScore s k of None \<Rightarrow> False | Some best \<Rightarrow> cost \<ge> best) then s
         else s\<lparr>s_cameFrom := (s_cameFrom s)(k \<mapsto> on_key current),
                s_gScore := (s_gScore s)(k \<mapsto> cost),
                s_open := heap_Push (s_open s)
                  \<lparr>on_key = k, on_cost = cost, on_priority = cost + heuristic k (s_goal s)\<rparr>\<rparr>)"

fun visitSections :: "search \<Rightarrow> open_node \<Rightarrow> bool \<Rightarrow> tsection list \<Rightarrow> search" where
  "visitSections s current diagonal [] = s"
| "visitSections s current diagonal (sec # secs) =
     (if isSlotState (sec_state sec) then visitSections s current diagonal secs
      else (case acceptsSection s current sec of
          (s', ok) \<Rightarrow> visitSections (if ok then accept s' current sec diagonal else s') current diagonal secs))"

definition visitNeighbor :: "search \<Rightarrow> open_node \<Rightarrow> point \<Rightarrow> bool \<Rightarrow> search" where
  "visitNeighbor s current p diagonal = (case search_column s p of
     (s', Inl _) \<Rightarrow> s'
   | (s', Inr c) \<Rightarrow>
       (case (if p = s_goal s then TopSection c else None) of
          Some tops \<Rightarrow>
            if isSlotState (sec_state tops)
            then (case acceptsSection s' current tops of
                (s'', ok) \<Rightarrow> if ok then accept s'' current tops diagonal else s'')
            else visitSections s' current diagonal (each_section c)
        | None \<Rightarrow> visitSections s' current diagonal (each_section c)))"

definition visitDirection :: "open_node \<Rightarrow> direction \<Rightarrow> search \<Rightarrow> search" where
  "visitDirection current d s = (case skipDirection s (on_key current) d of
     (s', True) \<Rightarrow> s'
   | (s', False) \<Rightarrow> (case neighborPoint (on_key current) d of
        None \<Rightarrow> s' | Some p \<Rightarrow> visitNeighbor s' current p (dir_diagonal d)))"

definition visit :: "search \<Rightarrow> open_node \<Rightarrow> search \<times> path_error option" where
  "visit s current =
     (let s1 = s\<lparr>s_visited := s_visited s + 1\<rparr>
      in if s_visited s1 > ru_MaxVisited (s_rules s1) then (s1, Some ErrSearchLimit)
         else (fold (visitDirection current) directions s1, None))"

definition isStale :: "search \<Rightarrow> open_node \<Rightarrow> bool" where
  "isStale s n = (case s_gScore s (on_key n) of None \<Rightarrow> False | Some best \<Rightarrow> on_cost n > best)"

text \<open>\<open>None\<close> is the loop of \<^verbatim>\<open>pathTo\<close> not ending.\<close>

partial_function (option) chain_keys ::
  "(node_key \<rightharpoonup> node_key) \<Rightarrow> node_key \<Rightarrow> node_key list option" where
  "chain_keys from current = (case from current of
     None \<Rightarrow> Some [current]
   | Some previous \<Rightarrow> Option.bind (chain_keys from previous) (\<lambda>ks. Some (current # ks)))"

declare chain_keys.simps [code]

definition step_between :: "node_key \<Rightarrow> node_key \<Rightarrow> step" where
  "step_between previous current =
     \<lparr>st_position = key_position current,
      st_diagonal = (nk_x current \<noteq> nk_x previous \<and> nk_y current \<noteq> nk_y previous)\<rparr>"

definition steps_of :: "node_key list \<Rightarrow> step list" where
  "steps_of ks = rev (map (\<lambda>(current, previous). step_between previous current) (zip ks (tl ks)))"

definition pathTo :: "search \<Rightarrow> node_key \<Rightarrow> room_path option" where
  "pathTo s goal = map_option (\<lambda>ks. \<lparr>path_steps = steps_of ks, path_versions = s_versions s\<rparr>)
     (chain_keys (s_cameFrom s) goal)"

definition resolveStart :: "search \<Rightarrow> position \<Rightarrow> search \<times> (path_error + position)" where
  "resolveStart s start = (case search_column s (pos_point start) of
     (s', Inl _) \<Rightarrow> (s', Inl ErrInvalidStart)
   | (s', Inr c) \<Rightarrow> (case WalkableSectionAt c (pos_z start) of
        Some sec \<Rightarrow> (s', Inr (start\<lparr>pos_z := sec_z sec\<rparr>))
      | None \<Rightarrow> (case NearestWalkableSection c (pos_z start) of
          Some sec \<Rightarrow> (s', Inr (start\<lparr>pos_z := sec_z sec\<rparr>))
        | None \<Rightarrow> (s', Inr start))))"

subsection \<open>What one expansion leaves alone\<close>

definition same_env :: "search \<Rightarrow> search \<Rightarrow> bool" where
  "same_env s s' \<longleftrightarrow> s_world s' = s_world s \<and> s_rules s' = s_rules s \<and>
     s_occupancy s' = s_occupancy s \<and> s_goal s' = s_goal s \<and> s_visited s' = s_visited s"

lemma same_env_refl [simp]: "same_env s s"
  by (simp add: same_env_def)

lemma same_env_trans: "same_env a b \<Longrightarrow> same_env b c \<Longrightarrow> same_env a c"
  by (simp add: same_env_def)

text \<open>The part of the state the search proper works on.\<close>

type_synonym core = "open_node list \<times> (node_key \<rightharpoonup> int) \<times> (node_key \<rightharpoonup> node_key)"

definition core :: "search \<Rightarrow> core" where
  "core s = (s_open s, s_gScore s, s_cameFrom s)"

abbreviation seen :: "search \<Rightarrow> point set" where
  "seen s \<equiv> dom (map_of (s_versions s))"

text \<open>What is recorded is the version of each observed column.\<close>

definition observed :: "search \<Rightarrow> bool" where
  "observed s \<longleftrightarrow> distinct (map fst (s_versions s)) \<and>
     (\<forall>p v. map_of (s_versions s) p = Some v \<longrightarrow> (\<exists>c. s_world s p = Inr c \<and> col_version c = v))"

text \<open>Looking a column up changes nothing but the recorded versions.\<close>

definition looks :: "search \<Rightarrow> search \<Rightarrow> bool" where
  "looks s s' \<longleftrightarrow> same_env s s' \<and> core s' = core s \<and> seen s \<subseteq> seen s' \<and> (observed s \<longrightarrow> observed s')"

lemma looks_refl [simp]: "looks s s"
  by (simp add: looks_def)

lemma looks_trans: "looks a b \<Longrightarrow> looks b c \<Longrightarrow> looks a c"
  by (auto simp: looks_def intro: same_env_trans)

lemma search_column_looks: "looks s (fst (search_column s p))"
proof (cases "s_world s p")
  case (Inr c)
  have "observed (s\<lparr>s_versions := AList.update p (col_version c) (s_versions s)\<rparr>)" if "observed s"
    using that Inr unfolding observed_def
    by (simp add: distinct_update update_conv' del: map_of_eq_Some_iff)
  with Inr show ?thesis
    by (auto simp: search_column_def looks_def same_env_def core_def update_conv')
qed (simp add: search_column_def)

lemma search_column_snd [simp]: "snd (search_column s p) = s_world s p"
  by (simp add: search_column_def split: sum.splits)

lemma search_column_seen: "s_world s p = Inr c \<Longrightarrow> p \<in> seen (fst (search_column s p))"
  by (simp add: search_column_def update_conv')

subsection \<open>The graph of legal steps\<close>

definition reachable :: "world \<Rightarrow> rules \<Rightarrow> occupancy \<Rightarrow> node_key \<Rightarrow> point \<Rightarrow> bool" where
  "reachable W r oc u p = (case W p of Inl _ \<Rightarrow> False
     | Inr c \<Rightarrow> list_ex (\<lambda>sec. AllowsSection sec \<and> Accepts c sec \<and>
          AllowsStep r (nk_z u) (sec_z sec) \<and> \<not> blocks oc (section_key sec)) (each_section c))"

definition open_direction :: "world \<Rightarrow> rules \<Rightarrow> occupancy \<Rightarrow> node_key \<Rightarrow> direction \<Rightarrow> bool" where
  "open_direction W r oc u d \<longleftrightarrow> \<not> dir_diagonal d \<or> \<not> ru_DisableDiagonal r \<and>
     (case (neighborPoint u \<lparr>dir_dx = dir_dx d, dir_dy = 0, dir_diagonal = False\<rparr>,
            neighborPoint u \<lparr>dir_dx = 0, dir_dy = dir_dy d, dir_diagonal = False\<rparr>) of
        (Some h, Some v) \<Rightarrow> reachable W r oc u h \<or> reachable W r oc u v
      | _ \<Rightarrow> False)"

definition candidates :: "point \<Rightarrow> point \<Rightarrow> column \<Rightarrow> tsection list" where
  "candidates goal p c =
     (case (if p = goal then TopSection c else None) of
        Some tops \<Rightarrow> if isSlotState (sec_state tops) then [tops]
          else filter (\<lambda>sec. \<not> isSlotState (sec_state sec)) (each_section c)
      | None \<Rightarrow> filter (\<lambda>sec. \<not> isSlotState (sec_state sec)) (each_section c))"

definition enterable :: "world \<Rightarrow> rules \<Rightarrow> occupancy \<Rightarrow> node_key \<Rightarrow> tsection \<Rightarrow> bool" where
  "enterable W r oc u sec \<longleftrightarrow> AllowsSection sec \<and>
     (case W (sec_point sec) of Inl _ \<Rightarrow> False | Inr c \<Rightarrow> Accepts c sec) \<and>
     AllowsStep r (nk_z u) (sec_z sec) \<and> \<not> blocks oc (section_key sec)"

definition entered :: "world \<Rightarrow> rules \<Rightarrow> occupancy \<Rightarrow> point \<Rightarrow> node_key \<Rightarrow> direction \<Rightarrow> tsection list" where
  "entered W r oc goal u d =
     (if \<not> open_direction W r oc u d then []
      else (case neighborPoint u d of None \<Rightarrow> []
        | Some p \<Rightarrow> (case W p of Inl _ \<Rightarrow> []
            | Inr c \<Rightarrow> filter (enterable W r oc u) (candidates goal p c))))"

definition legal_step :: "world \<Rightarrow> rules \<Rightarrow> occupancy \<Rightarrow> point \<Rightarrow> node_key \<Rightarrow> node_key \<Rightarrow> bool" where
  "legal_step W r oc goal u v \<longleftrightarrow>
     list_ex (\<lambda>d. list_ex (\<lambda>sec. section_key sec = v) (entered W r oc goal u d)) directions"

text \<open>A walk is the list of the nodes after its first one.\<close>

fun legal_walk :: "world \<Rightarrow> rules \<Rightarrow> occupancy \<Rightarrow> point \<Rightarrow> node_key \<Rightarrow> node_key list \<Rightarrow> bool" where
  "legal_walk W r oc goal u [] \<longleftrightarrow> True"
| "legal_walk W r oc goal u (v # vs) \<longleftrightarrow> legal_step W r oc goal u v \<and> legal_walk W r oc goal v vs"

definition diagonal_step :: "node_key \<Rightarrow> node_key \<Rightarrow> bool" where
  "diagonal_step u v \<longleftrightarrow> nk_x v \<noteq> nk_x u \<and> nk_y v \<noteq> nk_y u"

fun walk_cost :: "node_key \<Rightarrow> node_key list \<Rightarrow> int" where
  "walk_cost u [] = 0"
| "walk_cost u (v # vs) = movementCost u v (diagonal_step u v) + walk_cost v vs"

subsection \<open>One expansion as a fold over the legal steps\<close>

definition accept_core :: "point \<Rightarrow> open_node \<Rightarrow> bool \<Rightarrow> node_key \<Rightarrow> core \<Rightarrow> core" where
  "accept_core goal current diagonal k t = (case t of (q, g, from) \<Rightarrow>
     (let cost = on_cost current + movementCost (on_key current) k diagonal
      in if (case g k of None \<Rightarrow> False | Some best \<Rightarrow> cost \<ge> best) then t
         else (heap_Push q \<lparr>on_key = k, on_cost = cost, on_priority = cost + heuristic k goal\<rparr>,
               g(k \<mapsto> cost), from(k \<mapsto> on_key current))))"

lemma accept_env: "same_env s (accept s cur sec b)" "s_versions (accept s cur sec b) = s_versions s"
  "observed (accept s cur sec b) = observed s"
  by (simp_all add: accept_def Let_def same_env_def observed_def)

lemma core_accept:
  "core (accept s cur sec b) = accept_core (s_goal s) cur b (section_key sec) (core s)"
  by (simp add: accept_def accept_core_def core_def Let_def)

text \<open>\<open>grows n s s'\<close>: from \<open>s\<close> to \<open>s'\<close> columns were looked up and the sections \<open>n\<close> accepted.\<close>

definition grows :: "open_node \<Rightarrow> bool \<Rightarrow> tsection list \<Rightarrow> search \<Rightarrow> search \<Rightarrow> bool" where
  "grows cur b secs s s' \<longleftrightarrow> same_env s s' \<and> seen s \<subseteq> seen s' \<and> (observed s \<longrightarrow> observed s') \<and>
     core s' = fold (\<lambda>sec. accept_core (s_goal s) cur b (section_key sec)) secs (core s)"

lemma grows_looks: "looks s s' \<Longrightarrow> grows cur b secs s' s'' \<Longrightarrow> grows cur b secs s s''"
  by (simp add: grows_def looks_def same_env_def) blast

lemma grows_Nil: "looks s s' \<Longrightarrow> grows cur b [] s s'"
  by (simp add: grows_def looks_def)

lemma grows_append: "grows cur b xs s s' \<Longrightarrow> grows cur b ys s' s'' \<Longrightarrow> grows cur b (xs @ ys) s s''"
  by (simp add: grows_def same_env_def) blast

lemma grows_accept: "grows cur b [sec] s (accept s cur sec b)"
  by (simp add: grows_def accept_env core_accept)

lemma search_column_cases:
  obtains (missing) e where "s_world s p = Inl e" "search_column s p = (s, Inl e)"
  | (found) c s' where "s_world s p = Inr c" "search_column s p = (s', Inr c)" "looks s s'" "p \<in> seen s'"
proof (cases "s_world s p")
  case (Inl e)
  then show ?thesis using missing by (simp add: search_column_def)
next
  case (Inr c)
  then show ?thesis
    using found [of c "fst (search_column s p)"] search_column_looks [of s p] search_column_seen [of s p c]
    by (simp add: prod_eq_iff)
qed

lemma hasReachable_spec:
  "looks s (fst (hasReachableSection s u p))"
  "snd (hasReachableSection s u p) = reachable (s_world s) (s_rules s) (s_occupancy s) u p"
  "snd (hasReachableSection s u p) \<Longrightarrow> p \<in> seen (fst (hasReachableSection s u p))"
proof -
  show "looks s (fst (hasReachableSection s u p))"
    by (cases rule: search_column_cases [of s p]) (simp_all add: hasReachableSection_def)
  show "snd (hasReachableSection s u p) = reachable (s_world s) (s_rules s) (s_occupancy s) u p"
    by (cases rule: search_column_cases [of s p]) (simp_all add: hasReachableSection_def reachable_def)
  show "snd (hasReachableSection s u p) \<Longrightarrow> p \<in> seen (fst (hasReachableSection s u p))"
    by (cases rule: search_column_cases [of s p]) (simp_all add: hasReachableSection_def)
qed

lemma acceptsSection_spec:
  "looks s (fst (acceptsSection s cur sec))"
  "snd (acceptsSection s cur sec) =
     enterable (s_world s) (s_rules s) (s_occupancy s) (on_key cur) sec"
  "snd (acceptsSection s cur sec) \<Longrightarrow> sec_point sec \<in> seen (fst (acceptsSection s cur sec))"
proof -
  show "looks s (fst (acceptsSection s cur sec))"
    by (cases rule: search_column_cases [of s "sec_point sec"])
      (simp_all add: acceptsSection_def columnAccepts_def)
  show "snd (acceptsSection s cur sec) =
     enterable (s_world s) (s_rules s) (s_occupancy s) (on_key cur) sec"
    by (cases rule: search_column_cases [of s "sec_point sec"])
      (simp_all add: acceptsSection_def columnAccepts_def enterable_def)
  show "snd (acceptsSection s cur sec) \<Longrightarrow> sec_point sec \<in> seen (fst (acceptsSection s cur sec))"
    by (cases rule: search_column_cases [of s "sec_point sec"])
      (simp_all add: acceptsSection_def columnAccepts_def split: if_splits)
qed

lemma visitSections_spec:
  fixes cur :: open_node
  assumes "s_world s = W" "s_rules s = r" "s_occupancy s = oc"
  defines "entersec \<equiv> \<lambda>sec. \<not> isSlotState (sec_state sec) \<and> enterable W r oc (on_key cur) sec"
  shows "grows cur b (filter entersec secs) s (visitSections s cur b secs) \<and>
     sec_point ` set (filter entersec secs) \<subseteq> seen (visitSections s cur b secs)"
  using assms(1-3)
proof (induction secs arbitrary: s)
  case (Cons sec secs)
  show ?case
  proof (cases "isSlotState (sec_state sec)")
    case True
    then show ?thesis using Cons by (simp add: entersec_def)
  next
    case False
    obtain s' ok where acc: "acceptsSection s cur sec = (s', ok)" by fastforce
    have s': "looks s s'" "ok = enterable W r oc (on_key cur) sec" "ok \<Longrightarrow> sec_point sec \<in> seen s'"
      using acceptsSection_spec [of s cur sec] acc Cons.prems by simp_all
    define t where "t = (if ok then accept s' cur sec b else s')"
    have t: "grows cur b (if ok then [sec] else []) s t"
      using s'(1) grows_looks grows_accept grows_Nil by (simp add: t_def)
    have "s_world t = W" "s_rules t = r" "s_occupancy t = oc" "ok \<Longrightarrow> sec_point sec \<in> seen t"
      using t Cons.prems s'(3) by (auto simp: grows_def same_env_def t_def accept_env)
    note IH = Cons.IH [OF this(1-3)] and seen_t = this(4)
    let ?v = "visitSections t cur b secs"
    have v: "visitSections s cur b (sec # secs) = ?v"
      using False acc by (simp add: t_def)
    have secs: "filter entersec (sec # secs) = (if ok then [sec] else []) @ filter entersec secs"
      using False s'(2) by (simp add: entersec_def)
    have "seen t \<subseteq> seen ?v" using IH by (simp add: grows_def)
    then have "ok \<Longrightarrow> sec_point sec \<in> seen ?v" using seen_t by blast
    with IH grows_append [OF t conjunct1 [OF IH]] show ?thesis
      unfolding v secs by (simp split: if_splits)
  qed
qed (simp add: grows_Nil)

lemma visitNeighbor_spec:
  fixes cur :: open_node and p :: point
  assumes env: "s_world s = W" "s_rules s = r" "s_occupancy s = oc" "s_goal s = goal"
  defines "secs \<equiv> \<lambda>c. filter (enterable W r oc (on_key cur)) (candidates goal p c)"
  shows "case W p of
     Inl _ \<Rightarrow> grows cur b [] s (visitNeighbor s cur p b)
   | Inr c \<Rightarrow> grows cur b (secs c) s (visitNeighbor s cur p b) \<and>
       insert p (sec_point ` set (secs c)) \<subseteq> seen (visitNeighbor s cur p b)"
proof (cases rule: search_column_cases [of s p])
  case (missing e)
  then show ?thesis using env by (simp add: visitNeighbor_def grows_Nil)
next
  case (found c s')
  have env': "s_world s' = W" "s_rules s' = r" "s_occupancy s' = oc" "s_goal s' = goal"
    using found(3) env by (simp_all add: looks_def same_env_def)
  have Wp: "W p = Inr c" using found(1) env by simp
  let ?t = "visitNeighbor s cur p b"
  have all: "grows cur b (secs c) s' ?t \<and> sec_point ` set (secs c) \<subseteq> seen ?t"
  proof (cases "\<exists>tops. p = goal \<and> TopSection c = Some tops \<and> isSlotState (sec_state tops)")
    case True
    then obtain tops where tops: "p = goal" "TopSection c = Some tops" "isSlotState (sec_state tops)"
      by blast
    obtain s'' ok where acc: "acceptsSection s' cur tops = (s'', ok)" by fastforce
    have s'': "looks s' s''" "ok = enterable W r oc (on_key cur) tops" "ok \<Longrightarrow> sec_point tops \<in> seen s''"
      using acceptsSection_spec [of s' cur tops] acc env' by simp_all
    have t: "?t = (if ok then accept s'' cur tops b else s'')"
      using tops found env acc by (simp add: visitNeighbor_def)
    show ?thesis
      using tops s'' grows_looks [OF s''(1) grows_accept] grows_Nil [OF s''(1)]
      unfolding t by (simp add: secs_def candidates_def accept_env)
  next
    case False
    then have cand: "candidates goal p c = filter (\<lambda>sec. \<not> isSlotState (sec_state sec)) (each_section c)"
      by (auto simp: candidates_def split: option.splits)
    have t: "?t = visitSections s' cur b (each_section c)"
      using False found env by (auto simp: visitNeighbor_def split: option.splits)
    show ?thesis
      using visitSections_spec [OF env'(1-3), of cur b "each_section c"]
      by (simp add: t secs_def cand conj_commute)
  qed
  have "seen s' \<subseteq> seen ?t" using all by (simp add: grows_def)
  then show ?thesis using all found(3,4) Wp by (auto intro: grows_looks)
qed

subsection \<open>Steps that depend on the observed columns only\<close>

definition extends :: "world \<Rightarrow> world \<Rightarrow> bool" where
  "extends W W' \<longleftrightarrow> (\<forall>p c. W p = Inr c \<longrightarrow> W' p = Inr c)"

definition within :: "world \<Rightarrow> point set \<Rightarrow> world" where
  "within W D p = (if p \<in> D then W p else Inl ErrInvalidTile)"

lemma extends_within: "D \<subseteq> D' \<Longrightarrow> extends (within W D) (within W D')"
  by (auto simp: extends_def within_def)

lemma reachable_mono: "extends W W' \<Longrightarrow> reachable W r oc u p \<Longrightarrow> reachable W' r oc u p"
  by (auto simp: extends_def reachable_def split: sum.splits)

lemma enterable_mono: "extends W W' \<Longrightarrow> enterable W r oc u sec \<Longrightarrow> enterable W' r oc u sec"
  by (fastforce simp: extends_def enterable_def split: sum.splits)

lemma open_direction_mono: "extends W W' \<Longrightarrow> open_direction W r oc u d \<Longrightarrow> open_direction W' r oc u d"
  by (auto simp: open_direction_def dest: reachable_mono split: option.splits)

lemma entered_mono:
  assumes "extends W W'" and "sec \<in> set (entered W r oc goal u d)"
  shows "sec \<in> set (entered W' r oc goal u d)"
proof -
  from assms(2) obtain p c where "open_direction W r oc u d" "neighborPoint u d = Some p"
    "W p = Inr c" "sec \<in> set (candidates goal p c)" "enterable W r oc u sec"
    by (auto simp: entered_def dest!: sym [of "Some _"] sym [of "Inr _"]
        split: if_splits option.splits sum.splits)
  with assms(1) open_direction_mono enterable_mono show ?thesis
    by (auto simp: entered_def extends_def)
qed

lemma legal_step_mono: "extends W W' \<Longrightarrow> legal_step W r oc goal u v \<Longrightarrow> legal_step W' r oc goal u v"
  by (auto simp: legal_step_def list_ex_iff dest: entered_mono)

lemma legal_walk_mono: "extends W W' \<Longrightarrow> legal_walk W r oc goal u vs \<Longrightarrow> legal_walk W' r oc goal u vs"
  by (induction vs arbitrary: u) (auto dest: legal_step_mono)

lemma reachable_within: "p \<in> D \<Longrightarrow> reachable (within W D) r oc u p = reachable W r oc u p"
  by (simp add: reachable_def within_def)

lemma skipDirection_spec:
  assumes env: "s_world s = W" "s_rules s = r" "s_occupancy s = oc"
    and skip: "skipDirection s u d = (s', blocked)"
  shows "looks s s' \<and> blocked = (\<not> open_direction W r oc u d) \<and>
     (\<not> blocked \<longrightarrow> open_direction (within W (seen s')) r oc u d)"
proof (cases "dir_diagonal d \<and> \<not> ru_DisableDiagonal r")
  case False
  then show ?thesis using skip env by (auto simp: skipDirection_def open_direction_def split: if_splits)
next
  case True
  then have skip': "diagonalBlocked s u d = (s', blocked)" using skip env by (simp add: skipDirection_def)
  show ?thesis
  proof (cases "neighborPoint u \<lparr>dir_dx = dir_dx d, dir_dy = 0, dir_diagonal = False\<rparr>")
    case None
    then show ?thesis using skip' True by (simp add: diagonalBlocked_def open_direction_def)
  next
    case (Some h)
    note h = Some
    show ?thesis
    proof (cases "neighborPoint u \<lparr>dir_dx = 0, dir_dy = dir_dy d, dir_diagonal = False\<rparr>")
      case None
      then show ?thesis using skip' True h by (simp add: diagonalBlocked_def open_direction_def)
    next
      case (Some v)
      obtain t b where t: "hasReachableSection s u h = (t, b)" by fastforce
      note ht = hasReachable_spec [of s u h, unfolded t fst_conv snd_conv]
      have envt: "s_world t = W" "s_rules t = r" "s_occupancy t = oc"
        using ht(1) env by (simp_all add: looks_def same_env_def)
      show ?thesis
      proof (cases b)
        case True
        with skip' h Some t have "s' = t" "\<not> blocked" by (simp_all add: diagonalBlocked_def)
        with True ht env h Some \<open>dir_diagonal d \<and> _\<close> show ?thesis
          by (simp add: open_direction_def reachable_within)
      next
        case False
        note vt = hasReachable_spec [of t u v]
        have s': "s' = fst (hasReachableSection t u v)" "blocked = (\<not> snd (hasReachableSection t u v))"
          using skip' h Some t False by (auto simp: diagonalBlocked_def split: prod.splits)
        have "looks s s'" using looks_trans [OF ht(1) vt(1)] s' by simp
        moreover have "blocked \<longleftrightarrow> \<not> reachable W r oc u v" using s' vt(2) envt by simp
        moreover have "\<not> reachable W r oc u h" using ht(2) False env by simp
        moreover have "\<not> blocked \<longrightarrow> v \<in> seen s'" using s' vt(3) by simp
        ultimately show ?thesis
          using \<open>dir_diagonal d \<and> _\<close> h Some by (auto simp: open_direction_def reachable_within)
      qed
    qed
  qed
qed

lemma visitDirection_spec:
  fixes cur :: open_node and d :: direction
  assumes env: "s_world s = W" "s_rules s = r" "s_occupancy s = oc" "s_goal s = goal"
  defines "secs \<equiv> entered W r oc goal (on_key cur) d"
  shows "grows cur (dir_diagonal d) secs s (visitDirection cur d s) \<and>
     set secs \<subseteq> set (entered (within W (seen (visitDirection cur d s))) r oc goal (on_key cur) d)"
proof -
  obtain s' blocked where skip: "skipDirection s (on_key cur) d = (s', blocked)" by fastforce
  note sp = skipDirection_spec [OF env(1-3) skip]
  have env': "s_world s' = W" "s_rules s' = r" "s_occupancy s' = oc" "s_goal s' = goal"
    using sp env by (simp_all add: looks_def same_env_def)
  show ?thesis
  proof (cases "blocked \<or> neighborPoint (on_key cur) d = None")
    case True
    then have "secs = []" "visitDirection cur d s = s'"
      using sp skip by (auto simp: secs_def entered_def visitDirection_def split: bool.splits)
    with sp show ?thesis by (simp add: grows_Nil)
  next
    case False
    then obtain p where p: "neighborPoint (on_key cur) d = Some p" and nb: "\<not> blocked" by auto
    let ?t = "visitNeighbor s' cur p (dir_diagonal d)"
    have t: "visitDirection cur d s = ?t" using p nb skip by (simp add: visitDirection_def)
    have opn: "open_direction W r oc (on_key cur) d"
      "open_direction (within W (seen s')) r oc (on_key cur) d" using sp nb by auto
    show ?thesis
    proof (cases "W p")
      case (Inl e)
      then have "secs = []" using p opn by (simp add: secs_def entered_def)
      then show ?thesis
        using visitNeighbor_spec [OF env', where p = p and cur = cur and b = "dir_diagonal d"] Inl sp t
        by (auto intro: grows_looks)
    next
      case (Inr c)
      then have secs: "secs = filter (enterable W r oc (on_key cur)) (candidates goal p c)"
        using p opn by (simp add: secs_def entered_def)
      have vn: "grows cur (dir_diagonal d) secs s' ?t" "p \<in> seen ?t" "sec_point ` set secs \<subseteq> seen ?t"
        using visitNeighbor_spec [OF env', where p = p and cur = cur and b = "dir_diagonal d"] Inr by (simp_all add: secs)
      have "extends (within W (seen s')) (within W (seen ?t))"
        using vn(1) by (intro extends_within) (simp add: grows_def)
      then have "open_direction (within W (seen ?t)) r oc (on_key cur) d"
        using opn(2) by (rule open_direction_mono)
      moreover have "enterable (within W (seen ?t)) r oc (on_key cur) sec" if "sec \<in> set secs" for sec
      proof -
        have "sec_point sec \<in> seen ?t" using vn(3) that by blast
        then show ?thesis using that secs by (simp add: enterable_def within_def)
      qed
      ultimately have "set secs \<subseteq> set (entered (within W (seen ?t)) r oc goal (on_key cur) d)"
        using p Inr vn(2) secs by (auto simp: entered_def within_def)
      with vn(1) sp show ?thesis unfolding t by (blast intro: grows_looks)
    qed
  qed
qed

text \<open>All steps out of a node, in the order in which the directions are tried.\<close>

definition successors ::
  "world \<Rightarrow> rules \<Rightarrow> occupancy \<Rightarrow> point \<Rightarrow> node_key \<Rightarrow> direction list \<Rightarrow> (bool \<times> node_key) list" where
  "successors W r oc goal u ds =
     concat (map (\<lambda>d. map (\<lambda>sec. (dir_diagonal d, section_key sec)) (entered W r oc goal u d)) ds)"

abbreviation accept_all :: "point \<Rightarrow> open_node \<Rightarrow> (bool \<times> node_key) list \<Rightarrow> core \<Rightarrow> core" where
  "accept_all goal cur ks \<equiv> fold (\<lambda>(b, k). accept_core goal cur b k) ks"

lemma visit_fold_spec:
  fixes cur :: open_node and ds :: "direction list" and s :: search
  assumes env: "s_world s = W" "s_rules s = r" "s_occupancy s = oc" "s_goal s = goal"
  defines "t \<equiv> fold (visitDirection cur) ds s"
  shows "same_env s t \<and> seen s \<subseteq> seen t \<and> (observed s \<longrightarrow> observed t) \<and>
     core t = accept_all goal cur (successors W r oc goal (on_key cur) ds) (core s) \<and>
     (\<forall>d\<in>set ds. set (entered W r oc goal (on_key cur) d) \<subseteq>
        set (entered (within W (seen t)) r oc goal (on_key cur) d))"
  using env unfolding t_def
proof (induction ds arbitrary: s)
  case (Cons d ds)
  let ?s = "visitDirection cur d s" and ?t = "fold (visitDirection cur) ds (visitDirection cur d s)"
  note vd = visitDirection_spec [OF Cons.prems, of cur d]
  have env': "s_world ?s = W" "s_rules ?s = r" "s_occupancy ?s = oc" "s_goal ?s = goal"
    using vd Cons.prems by (simp_all add: grows_def same_env_def)
  note IH = Cons.IH [OF env']
  have "set (entered W r oc goal (on_key cur) d) \<subseteq>
      set (entered (within W (seen ?t)) r oc goal (on_key cur) d)"
    using vd IH entered_mono [OF extends_within [of "seen ?s" "seen ?t" W]] by blast
  moreover have "core ?t =
      accept_all goal cur (successors W r oc goal (on_key cur) (d # ds)) (core s)"
    using vd IH Cons.prems by (simp add: grows_def successors_def fold_map comp_def)
  moreover have "same_env s ?t" using vd IH same_env_trans [of s ?s ?t] by (simp add: grows_def)
  moreover have "seen s \<subseteq> seen ?t" using vd IH unfolding grows_def by blast
  moreover have "observed s \<longrightarrow> observed ?t" using vd IH unfolding grows_def by blast
  ultimately show ?case using IH by simp
qed (simp add: successors_def)

lemma successors_legal:
  "legal_step W r oc goal u v \<longleftrightarrow> v \<in> snd ` set (successors W r oc goal u directions)"
  by (force simp: legal_step_def successors_def list_ex_iff)

lemma neighbor_diagonal:
  assumes "d \<in> set directions" and "neighborPoint u d = Some p"
  shows "dir_diagonal d \<longleftrightarrow> px p \<noteq> nk_x u \<and> py p \<noteq> nk_y u"
    and "uint (px p) = uint (nk_x u) + dir_dx d" and "uint (py p) = uint (nk_y u) + dir_dy d"
proof -
  show x: "uint (px p) = uint (nk_x u) + dir_dx d" and y: "uint (py p) = uint (nk_y u) + dir_dy d"
    using assms(2) NewPoint_coords by (simp_all add: neighborPoint_def)
  have "px p \<noteq> nk_x u \<longleftrightarrow> dir_dx d \<noteq> 0" "py p \<noteq> nk_y u \<longleftrightarrow> dir_dy d \<noteq> 0"
    using x y by (auto simp: word_uint_eq_iff)
  with assms(1) show "dir_diagonal d \<longleftrightarrow> px p \<noteq> nk_x u \<and> py p \<noteq> nk_y u"
    by (auto simp: directions_def)
qed

subsection \<open>Running the search\<close>

definition visit_result :: "search \<Rightarrow> open_node \<Rightarrow> search" where
  "visit_result s cur = fold (visitDirection cur) directions (s\<lparr>s_visited := s_visited s + 1\<rparr>)"

lemma visit_cases:
  "visit s cur = (if s_visited s + 1 > ru_MaxVisited (s_rules s)
     then (s\<lparr>s_visited := s_visited s + 1\<rparr>, Some ErrSearchLimit) else (visit_result s cur, None))"
  by (simp add: visit_def visit_result_def Let_def)

lemma visit_result_env:
  "s_world (visit_result s cur) = s_world s" "s_rules (visit_result s cur) = s_rules s"
  "s_occupancy (visit_result s cur) = s_occupancy s" "s_goal (visit_result s cur) = s_goal s"
  "s_visited (visit_result s cur) = s_visited s + 1"
  using visit_fold_spec [of "s\<lparr>s_visited := s_visited s + 1\<rparr>" "s_world s" "s_rules s" "s_occupancy s" "s_goal s" cur directions]
  by (simp_all add: visit_result_def same_env_def)

lemma visit_result_spec:
  assumes "s_world s = W" "s_rules s = r" "s_occupancy s = oc" "s_goal s = goal"
  shows "seen s \<subseteq> seen (visit_result s cur)" "observed s \<Longrightarrow> observed (visit_result s cur)"
    "core (visit_result s cur) = accept_all goal cur (successors W r oc goal (on_key cur) directions) (core s)"
    "legal_step W r oc goal (on_key cur) v \<Longrightarrow>
       legal_step (within W (seen (visit_result s cur))) r oc goal (on_key cur) v"
proof -
  note vf = visit_fold_spec [of "s\<lparr>s_visited := s_visited s + 1\<rparr>" W r oc goal cur directions]
  show "seen s \<subseteq> seen (visit_result s cur)" "observed s \<Longrightarrow> observed (visit_result s cur)"
    "core (visit_result s cur) = accept_all goal cur (successors W r oc goal (on_key cur) directions) (core s)"
    using vf assms by (simp_all add: visit_result_def core_def observed_def)
  assume "legal_step W r oc goal (on_key cur) v"
  then show "legal_step (within W (seen (visit_result s cur))) r oc goal (on_key cur) v"
    using vf assms unfolding visit_result_def legal_step_def list_ex_iff by fastforce
qed

function run :: "search \<Rightarrow> (path_error + room_path) option" where
  "run s = (case heap_Pop (s_open s) of
     None \<Rightarrow> Some (Inl ErrNoPath)
   | Some (current, rest) \<Rightarrow>
       (let s1 = s\<lparr>s_open := rest\<rparr>
        in if isStale s1 current then run s1
           else if key_point (on_key current) = s_goal s1 then map_option Inr (pathTo s1 (on_key current))
           else (case visit s1 current of
               (s2, Some e) \<Rightarrow> Some (Inl e)
             | (s2, None) \<Rightarrow> run s2)))"
  by pat_completeness auto

termination
proof (relation "measures [\<lambda>s. nat (ru_MaxVisited (s_rules s) + 1 - s_visited s), \<lambda>s. length (s_open s)]",
    goal_cases)
  case 2
  then show ?case by (auto dest: heap_Pop_length)
next
  case 3
  then show ?case by (auto simp: visit_cases visit_result_env split: if_splits)
qed simp

declare run.simps [simp del]

definition Find_from :: "search \<Rightarrow> node_key \<Rightarrow> (path_error + room_path) option" where
  "Find_from s start =
     run (s\<lparr>s_gScore := (s_gScore s)(start \<mapsto> 0),
            s_open := heap_Push (s_open s)
              \<lparr>on_key = start, on_cost = 0, on_priority = heuristic start (s_goal s)\<rparr>\<rparr>)"

record finder =
  fd_world :: world
  fd_rules :: rules
  fd_occupancy :: occupancy

definition NewFinder :: "world \<Rightarrow> rules \<Rightarrow> finder" where
  "NewFinder W r = \<lparr>fd_world = W, fd_rules = Normalize r, fd_occupancy = {}\<rparr>"

definition NewFinderWithOccupancy :: "world \<Rightarrow> rules \<Rightarrow> occupancy \<Rightarrow> finder" where
  "NewFinderWithOccupancy W r oc = \<lparr>fd_world = W, fd_rules = Normalize r, fd_occupancy = oc\<rparr>"

definition Find :: "finder \<Rightarrow> position \<Rightarrow> point \<Rightarrow> (path_error + room_path) option" where
  "Find f start goal =
     (case resolveStart (newSearch (fd_world f) (fd_rules f) (fd_occupancy f) goal) start of
        (s, Inl e) \<Rightarrow> Some (Inl e)
      | (s, Inr resolved) \<Rightarrow>
          (case search_column s goal of
             (s', Inl _) \<Rightarrow> Some (Inl ErrInvalidGoal)
           | (s', Inr _) \<Rightarrow> Find_from s' (nodeFromPosition resolved)))"

end
