(* ===== verification/Room_Unit.thy ===== *)
theory Room_Unit
  imports Path_Finder "HOL-Library.List_Lexorder" "HOL-Library.Char_ord"
begin

text \<open>
  One avatar of a room, after \<^verbatim>\<open>internal/realm/room/world/unit\<close>: rotations (\<^verbatim>\<open>rotation.go\<close>), the
  status table (\<^verbatim>\<open>status.go\<close>, \<^verbatim>\<open>status_control.go\<close>), the movement state machine (\<^verbatim>\<open>movement.go\<close>)
  and the unit itself (\<^verbatim>\<open>unit.go\<close>, \<^verbatim>\<open>projection.go\<close>). The status map is an association list with
  distinct keys; the zero \<^verbatim>\<open>time.Time\<close> is 0.
\<close>

subsection \<open>Rotations\<close>

type_synonym rotation = u8

definition compareUint16 :: "u16 \<Rightarrow> u16 \<Rightarrow> int" where
  "compareUint16 l r = (if l > r then 1 else if l < r then - 1 else 0)"

definition RotationBetween :: "u16 \<Rightarrow> u16 \<Rightarrow> u16 \<Rightarrow> u16 \<Rightarrow> rotation" where
  "RotationBetween fromX fromY toX toY =
     (let dx = compareUint16 toX fromX; dy = compareUint16 toY fromY
      in if dx = 0 \<and> dy < 0 then 0
         else if dx > 0 \<and> dy < 0 then 1
         else if dx > 0 \<and> dy = 0 then 2
         else if dx > 0 \<and> dy > 0 then 3
         else if dx = 0 \<and> dy > 0 then 4
         else if dx < 0 \<and> dy > 0 then 5
         else if dx < 0 \<and> dy = 0 then 6
         else if dx < 0 \<and> dy < 0 then 7
         else 4)"

subsection \<open>Statuses\<close>

definition StatusMove :: string where "StatusMove = ''mv''"
definition StatusSit :: string where "StatusSit = ''sit''"
definition StatusLay :: string where "StatusLay = ''lay''"
definition StatusDance :: string where "StatusDance = ''dance''"

lemmas status_keys = StatusMove_def StatusSit_def StatusLay_def StatusDance_def

type_synonym statuses = "(string \<times> string) list"

definition statuses_set :: "string \<Rightarrow> string \<Rightarrow> statuses \<Rightarrow> statuses" where
  "statuses_set k v ss = AList.update k v ss"

definition statuses_clear :: "string \<Rightarrow> statuses \<Rightarrow> statuses" where
  "statuses_clear k ss = AList.delete k ss"

definition statuses_has :: "string \<Rightarrow> statuses \<Rightarrow> bool" where
  "statuses_has k ss \<longleftrightarrow> map_of ss k \<noteq> None"

definition statuses_snapshot :: "statuses \<Rightarrow> (string \<times> string) list" where
  "statuses_snapshot ss = sort_key fst ss"

subsection \<open>The unit\<close>

type_synonym unit_kind = u8
type_synonym control = u8

definition KindPlayer :: unit_kind where "KindPlayer = 1"
definition KindBot :: unit_kind where "KindBot = 2"
definition KindPet :: unit_kind where "KindPet = 3"

definition ControlNone :: control where "ControlNone = 0"
definition ControlExitingRoom :: control where "ControlExitingRoom = 1"
definition ControlTeleporting :: control where "ControlTeleporting = 2"
definition ControlFurnitureInteraction :: control where "ControlFurnitureInteraction = 3"
definition ControlFrozen :: control where "ControlFrozen = 4"

definition RidingHeightOffset :: height where "RidingHeightOffset = HeightScale"

record room_unit =
  u_id :: int
  u_ownerID :: int
  u_kind :: unit_kind
  u_position :: position
  u_previous :: position
  u_body :: rotation
  u_head :: rotation
  u_goal :: position
  u_hasGoal :: bool
  u_settling :: bool
  u_control :: control
  u_activePath :: room_path
  u_steps :: "step list"
  u_statuses :: statuses
  u_handItem :: i32
  u_idle :: bool
  u_idleSince :: int
  u_manualIdle :: bool
  u_activeEffectID :: i32
  u_renderOffset :: height

definition zero_position :: position where
  "zero_position = \<lparr>pos_point = Point 0 0, pos_z = 0\<rparr>"

definition zero_path :: room_path where
  "zero_path = \<lparr>path_steps = [], path_versions = []\<rparr>"

definition zero_step :: step where
  "zero_step = \<lparr>st_position = zero_position, st_diagonal = False\<rparr>"

record unit_params =
  up_id :: int
  up_ownerID :: int
  up_kind :: unit_kind
  up_position :: position
  up_body :: rotation
  up_head :: rotation

datatype unit_error = ErrInvalidUnit

definition unit_New :: "unit_params \<Rightarrow> unit_error + room_unit" where
  "unit_New p =
     (if up_id p \<le> 0 \<or> up_kind p = 0 then Inl ErrInvalidUnit
      else Inr \<lparr>u_id = up_id p, u_ownerID = up_ownerID p, u_kind = up_kind p,
        u_position = up_position p, u_previous = up_position p, u_body = up_body p, u_head = up_head p,
        u_goal = zero_position, u_hasGoal = False, u_settling = False, u_control = ControlNone,
        u_activePath = zero_path, u_steps = [], u_statuses = [], u_handItem = 0, u_idle = False,
        u_idleSince = 0, u_manualIdle = False, u_activeEffectID = 0, u_renderOffset = 0\<rparr>)"

subsection \<open>Status operations\<close>

definition SetStatus :: "string \<Rightarrow> string \<Rightarrow> room_unit \<Rightarrow> room_unit" where
  "SetStatus k v u = u\<lparr>u_statuses := statuses_set k v (u_statuses u)\<rparr>"

definition ClearStatus :: "string \<Rightarrow> room_unit \<Rightarrow> room_unit" where
  "ClearStatus k u = u\<lparr>u_statuses := statuses_clear k (u_statuses u)\<rparr>"

definition HasStatus :: "string \<Rightarrow> room_unit \<Rightarrow> bool" where
  "HasStatus k u = statuses_has k (u_statuses u)"

definition Settled :: "room_unit \<Rightarrow> bool" where
  "Settled u \<longleftrightarrow> HasStatus StatusSit u \<or> HasStatus StatusLay u"

definition StandUp :: "room_unit \<Rightarrow> room_unit" where
  "StandUp u = ClearStatus StatusLay (ClearStatus StatusSit u)"

definition SetFloorPosture :: "bool \<Rightarrow> room_unit \<Rightarrow> room_unit" where
  "SetFloorPosture sitting u =
     (let u1 = ClearStatus StatusDance (ClearStatus StatusLay u)
      in if sitting then SetStatus StatusSit ''0.0'' u1 else ClearStatus StatusSit u1)"

definition setIdleAt :: "bool \<Rightarrow> bool \<Rightarrow> int \<Rightarrow> room_unit \<Rightarrow> room_unit" where
  "setIdleAt idle manual at u =
     (let u1 = u\<lparr>u_idle := idle, u_idleSince := 0, u_manualIdle := False\<rparr>
      in if idle then u1\<lparr>u_idleSince := at, u_manualIdle := manual\<rparr> else u1)"

definition SetIdleAt :: "bool \<Rightarrow> int \<Rightarrow> room_unit \<Rightarrow> room_unit" where
  "SetIdleAt idle at u = setIdleAt idle False at u"

definition SetManualIdleAt :: "bool \<Rightarrow> int \<Rightarrow> room_unit \<Rightarrow> room_unit" where
  "SetManualIdleAt idle at u = setIdleAt idle idle at u"

definition SetActiveEffect :: "i32 \<Rightarrow> room_unit \<Rightarrow> room_unit" where
  "SetActiveEffect e u = u\<lparr>u_activeEffectID := e\<rparr>"

definition SetHeight :: "height \<Rightarrow> room_unit \<Rightarrow> room_unit" where
  "SetHeight z u = u\<lparr>u_position := (u_position u)\<lparr>pos_z := z\<rparr>\<rparr>"

definition Statuses :: "room_unit \<Rightarrow> (string \<times> string) list" where
  "Statuses u = statuses_snapshot (u_statuses u)"

definition SetHandItem :: "i32 \<Rightarrow> room_unit \<Rightarrow> room_unit" where
  "SetHandItem i u = u\<lparr>u_handItem := i\<rparr>"

definition SetRenderOffset :: "height \<Rightarrow> room_unit \<Rightarrow> room_unit" where
  "SetRenderOffset h u = u\<lparr>u_renderOffset := h\<rparr>"

subsection \<open>Movement\<close>

definition move_value :: "position \<Rightarrow> string" where
  "move_value p = int_dec (uint (px (pos_point p))) @ '','' @ int_dec (uint (py (pos_point p))) @ '','' @
     height_String (pos_z p)"

definition setMoveStatus :: "position \<Rightarrow> room_unit \<Rightarrow> room_unit" where
  "setMoveStatus p u = SetStatus StatusMove (move_value p) u"

definition rotateToward :: "position \<Rightarrow> room_unit \<Rightarrow> room_unit" where
  "rotateToward p u =
     (let r = RotationBetween (px (pos_point (u_previous u))) (py (pos_point (u_previous u)))
          (px (pos_point p)) (py (pos_point p))
      in u\<lparr>u_body := r, u_head := r\<rparr>)"

definition FaceToward :: "point \<Rightarrow> room_unit \<Rightarrow> room_unit" where
  "FaceToward p u =
     (let r = RotationBetween (px (pos_point (u_position u))) (py (pos_point (u_position u))) (px p) (py p)
      in u\<lparr>u_body := r, u_head := r\<rparr>)"

definition SetPath :: "room_path \<Rightarrow> room_unit \<Rightarrow> room_unit" where
  "SetPath p u =
     (let ss = path_steps p;
          u1 = ClearStatus StatusDance (ClearStatus StatusLay (ClearStatus StatusSit
                 (u\<lparr>u_activePath := p, u_steps := ss, u_hasGoal := length ss > 0, u_settling := False\<rparr>)))
      in if u_hasGoal u1
         then setMoveStatus (st_position (ss ! 0)) (u1\<lparr>u_goal := st_position (ss ! (length ss - 1))\<rparr>)
         else u1)"

definition ClearPath :: "room_unit \<Rightarrow> room_unit" where
  "ClearPath u = ClearStatus StatusMove
     (u\<lparr>u_activePath := zero_path, u_steps := [], u_hasGoal := False, u_settling := False\<rparr>)"

definition Moving :: "room_unit \<Rightarrow> bool" where
  "Moving u \<longleftrightarrow> length (u_steps u) > 0"

definition InMotion :: "room_unit \<Rightarrow> bool" where
  "InMotion u \<longleftrightarrow> length (u_steps u) > 0 \<or> u_settling u"

definition StopMovement :: "room_unit \<Rightarrow> room_unit \<times> bool" where
  "StopMovement u =
     (if \<not> InMotion u then (u, False)
      else (u\<lparr>u_activePath := zero_path, u_steps := [], u_hasGoal := False, u_settling := True\<rparr>, True))"

definition ValidatePath :: "world \<Rightarrow> room_unit \<Rightarrow> path_error option" where
  "ValidatePath W u =
     (if length (u_steps u) = 0 \<and> \<not> u_settling u then None else Validate (u_activePath u) W)"

definition Settle :: "string \<Rightarrow> string \<Rightarrow> rotation \<Rightarrow> rotation \<Rightarrow> room_unit \<Rightarrow> room_unit" where
  "Settle status v body head u =
     (SetStatus status v (ClearStatus StatusMove u))\<lparr>u_body := body, u_head := head\<rparr>"

definition Goal :: "room_unit \<Rightarrow> position option" where
  "Goal u = (if u_hasGoal u then Some (u_goal u) else None)"

definition PendingSteps :: "room_unit \<Rightarrow> nat" where
  "PendingSteps u = length (u_steps u)"

definition SetControl :: "control \<Rightarrow> room_unit \<Rightarrow> room_unit" where
  "SetControl c u = u\<lparr>u_control := c\<rparr>"

definition MarkExiting :: "room_unit \<Rightarrow> room_unit" where
  "MarkExiting u = SetControl ControlExitingRoom u"

definition Exiting :: "room_unit \<Rightarrow> bool" where
  "Exiting u \<longleftrightarrow> u_control u = ControlExitingRoom"

definition Reposition :: "position \<Rightarrow> rotation \<Rightarrow> room_unit \<Rightarrow> room_unit" where
  "Reposition p r u = ClearStatus StatusDance (ClearStatus StatusLay (ClearStatus StatusSit
     (ClearPath (u\<lparr>u_previous := u_position u, u_position := p, u_body := r, u_head := r\<rparr>))))"

text \<open>\<open>Advance\<close> returns the step, whether the unit moved and whether it settled.\<close>

definition Advance :: "room_unit \<Rightarrow> room_unit \<times> step \<times> bool \<times> bool" where
  "Advance u =
     (if length (u_steps u) = 0 then
        (if \<not> u_settling u then (u, zero_step, False, False)
         else (ClearStatus StatusMove (u\<lparr>u_settling := False\<rparr>), zero_step, False, True))
      else
        (let s = u_steps u ! 0;
             u1 = u\<lparr>u_steps := drop 1 (u_steps u), u_previous := u_position u, u_position := st_position s\<rparr>;
             u2 = setMoveStatus (st_position s) (rotateToward (st_position s) u1);
             u3 = (if length (u_steps u2) = 0 then u2\<lparr>u_hasGoal := False, u_settling := True\<rparr> else u2)
         in (u3, s, True, False)))"

subsection \<open>Statuses as a finite map\<close>

lemma statuses_lookup [simp]:
  "map_of (statuses_set k v ss) = (map_of ss)(k \<mapsto> v)"
  "map_of (statuses_clear k ss) = (map_of ss)(k := None)"
  by (simp_all add: statuses_set_def statuses_clear_def update_conv' delete_conv')

lemma statuses_distinct [simp]:
  "distinct (map fst ss) \<Longrightarrow> distinct (map fst (statuses_set k v ss))"
  "distinct (map fst ss) \<Longrightarrow> distinct (map fst (statuses_clear k ss))"
  by (simp_all add: statuses_set_def statuses_clear_def distinct_update distinct_delete)

lemma map_of_sort_key:
  assumes "distinct (map fst xs)" shows "map_of (sort_key fst xs) = map_of xs"
proof -
  have "distinct (map fst (sort_key fst xs))"
    using assms by (metis distinct_map distinct_sort set_sort)
  then show ?thesis using assms by (intro map_of_inject_set [THEN iffD2]) simp_all
qed

lemmas unit_ops = SetStatus_def ClearStatus_def StandUp_def SetFloorPosture_def setIdleAt_def
  SetIdleAt_def SetManualIdleAt_def SetActiveEffect_def SetHeight_def SetHandItem_def
  SetRenderOffset_def setMoveStatus_def rotateToward_def FaceToward_def SetPath_def ClearPath_def
  StopMovement_def Settle_def SetControl_def MarkExiting_def Reposition_def Advance_def Let_def

subsection \<open>The invariant of a unit\<close>

definition unit_inv :: "room_unit \<Rightarrow> bool" where
  "unit_inv u \<longleftrightarrow> distinct (map fst (u_statuses u)) \<and> (u_hasGoal u \<longleftrightarrow> u_steps u \<noteq> []) \<and>
     (u_hasGoal u \<longrightarrow> u_goal u = st_position (last (u_steps u)) \<and> \<not> u_settling u) \<and>
     (u_manualIdle u \<longrightarrow> u_idle u)"

datatype unit_op =
    OpSetPath room_path | OpClearPath | OpStopMovement | OpAdvance | OpSettle string string rotation rotation
  | OpReposition position rotation | OpSetStatus string string | OpClearStatus string | OpStandUp
  | OpFloorPosture bool | OpIdle bool int | OpManualIdle bool int | OpEffect i32 | OpHeight height
  | OpHandItem i32 | OpRenderOffset height | OpControl control | OpMarkExiting | OpFace point

fun unit_op_run :: "unit_op \<Rightarrow> room_unit \<Rightarrow> room_unit" where
  "unit_op_run (OpSetPath p) u = SetPath p u"
| "unit_op_run OpClearPath u = ClearPath u"
| "unit_op_run OpStopMovement u = fst (StopMovement u)"
| "unit_op_run OpAdvance u = fst (Advance u)"
| "unit_op_run (OpSettle k v b h) u = Settle k v b h u"
| "unit_op_run (OpReposition p r) u = Reposition p r u"
| "unit_op_run (OpSetStatus k v) u = SetStatus k v u"
| "unit_op_run (OpClearStatus k) u = ClearStatus k u"
| "unit_op_run OpStandUp u = StandUp u"
| "unit_op_run (OpFloorPosture b) u = SetFloorPosture b u"
| "unit_op_run (OpIdle b t) u = SetIdleAt b t u"
| "unit_op_run (OpManualIdle b t) u = SetManualIdleAt b t u"
| "unit_op_run (OpEffect e) u = SetActiveEffect e u"
| "unit_op_run (OpHeight z) u = SetHeight z u"
| "unit_op_run (OpHandItem i) u = SetHandItem i u"
| "unit_op_run (OpRenderOffset h) u = SetRenderOffset h u"
| "unit_op_run (OpControl c) u = SetControl c u"
| "unit_op_run OpMarkExiting u = MarkExiting u"
| "unit_op_run (OpFace p) u = FaceToward p u"

lemma unit_New_inv: "unit_New p = Inr u \<Longrightarrow> unit_inv u"
  by (auto simp: unit_New_def unit_inv_def split: if_splits)

lemma Advance_inv: assumes "unit_inv u" shows "unit_inv (fst (Advance u))"
proof (cases "u_steps u")
  case Nil
  then show ?thesis using assms by (auto simp: unit_inv_def unit_ops)
next
  case (Cons s ss)
  then show ?thesis using assms by (cases ss) (auto simp: unit_inv_def unit_ops)
qed

lemma SetPath_inv: assumes "unit_inv u" shows "unit_inv (SetPath p u)"
  using assms by (auto simp: unit_inv_def unit_ops last_conv_nth)

lemma unit_op_inv: assumes "unit_inv u" shows "unit_inv (unit_op_run op u)"
proof (cases op)
  case OpAdvance
  then show ?thesis using Advance_inv [OF assms] by simp
next
  case (OpSetPath p)
  then show ?thesis using SetPath_inv [OF assms] by simp
qed (use assms in \<open>auto simp: unit_inv_def unit_ops InMotion_def\<close>)

text \<open>Whatever sequence of operations a unit goes through after its creation, its state stays
  consistent: it has a goal exactly while steps are pending, the goal is where the last pending step
  ends, it is not settling meanwhile, manual idling implies idling, and no status key occurs twice.\<close>

theorem unit_stays_consistent:
  assumes "unit_New params = Inr u"
  shows "unit_inv (fold unit_op_run ops u)"
proof -
  have "unit_inv v \<Longrightarrow> unit_inv (fold unit_op_run ops v)" for v
    by (induction ops arbitrary: v) (auto simp: unit_op_inv)
  then show ?thesis using unit_New_inv [OF assms] by blast
qed

definition guest_params :: unit_params where
  "guest_params = \<lparr>up_id = 1, up_ownerID = 7, up_kind = KindPlayer,
     up_position = \<lparr>pos_point = Point 0 0, pos_z = 0\<rparr>, up_body = 2, up_head = 2\<rparr>"

theorem unit_stays_consistent_witness:
  "\<exists>u. unit_New guest_params = Inr u \<and> unit_inv (fold unit_op_run [OpFloorPosture True, OpAdvance] u)"
proof -
  obtain u where u: "unit_New guest_params = Inr u"
    by (simp add: unit_New_def guest_params_def KindPlayer_def)
  from unit_stays_consistent [OF u] u show ?thesis by blast
qed

subsection \<open>Walking a path\<close>

fun advance_trace :: "nat \<Rightarrow> room_unit \<Rightarrow> (step \<times> bool \<times> bool) list \<times> room_unit" where
  "advance_trace 0 u = ([], u)"
| "advance_trace (Suc n) u = (case Advance u of (u', r) \<Rightarrow>
     (case advance_trace n u' of (rs, u'') \<Rightarrow> (r # rs, u'')))"

lemma Advance_settling:
  assumes "u_steps u = []" "u_settling u"
  shows "Advance u = (ClearStatus StatusMove (u\<lparr>u_settling := False\<rparr>), zero_step, False, True)"
  using assms by (simp add: Advance_def)

lemma Advance_step:
  assumes "u_steps u = s # ss" "\<not> u_settling u"
  obtains u' where "Advance u = (u', s, True, False)" "u_steps u' = ss" "u_position u' = st_position s"
    "u_settling u' = (ss = [])" "u_previous u' = u_position u"
    "map_of (u_statuses u') StatusMove = Some (move_value (st_position s))"
  using assms by (simp add: Advance_def Let_def setMoveStatus_def rotateToward_def SetStatus_def)

lemma advance_trace_steps:
  "u_steps u = ss \<Longrightarrow> ss \<noteq> [] \<Longrightarrow> \<not> u_settling u \<Longrightarrow>
     \<exists>u'. advance_trace (Suc (length ss)) u =
        (map (\<lambda>s. (s, True, False)) ss @ [(zero_step, False, True)], u') \<and>
       u_position u' = st_position (last ss) \<and> \<not> InMotion u' \<and> \<not> HasStatus StatusMove u'"
proof (induction ss arbitrary: u)
  case (Cons s ss)
  obtain u1 where u1: "Advance u = (u1, s, True, False)" "u_steps u1 = ss"
    "u_position u1 = st_position s" "u_settling u1 = (ss = [])"
    using Advance_step [OF Cons.prems(1,3)] by metis
  show ?case
  proof (cases ss)
    case Nil
    then show ?thesis
      using u1 Advance_settling [of u1]
      by (simp add: ClearStatus_def InMotion_def HasStatus_def statuses_has_def)
  next
    case (Cons s' ss')
    then obtain u' where u': "advance_trace (Suc (length ss)) u1 =
        (map (\<lambda>s. (s, True, False)) ss @ [(zero_step, False, True)], u')"
       "u_position u' = st_position (last ss)" "\<not> InMotion u'" "\<not> HasStatus StatusMove u'"
      using Cons.IH [OF u1(2)] u1(4) by auto
    have "advance_trace (Suc (length (s # ss))) u =
        ((s, True, False) # fst (advance_trace (Suc (length ss)) u1), snd (advance_trace (Suc (length ss)) u1))"
      by (simp add: u1(1) split: prod.splits)
    with u' Cons show ?thesis by simp
  qed
qed simp

text \<open>A unit walks an accepted path completely: from \<open>SetPath\<close> on, one \<open>Advance\<close> per step
  yields the steps of the path in order, one more yields the settled projection, and then the unit
  stands on the last step, is no longer in motion and shows no movement status.\<close>

theorem unit_walks_path:
  assumes "path_steps p \<noteq> []"
  shows "\<exists>u'. advance_trace (Suc (length (path_steps p))) (SetPath p u) =
      (map (\<lambda>s. (s, True, False)) (path_steps p) @ [(zero_step, False, True)], u') \<and>
     u_position u' = st_position (last (path_steps p)) \<and> \<not> InMotion u' \<and> \<not> HasStatus StatusMove u' \<and>
     snd (snd (snd (Advance u'))) = False \<and> fst (snd (snd (Advance u'))) = False"
proof -
  have "u_steps (SetPath p u) = path_steps p" "\<not> u_settling (SetPath p u)"
    by (simp_all add: SetPath_def Let_def ClearStatus_def setMoveStatus_def SetStatus_def)
  from advance_trace_steps [OF this(1) assms this(2)] obtain u' where
    u': "advance_trace (Suc (length (path_steps p))) (SetPath p u) =
      (map (\<lambda>s. (s, True, False)) (path_steps p) @ [(zero_step, False, True)], u')"
     "u_position u' = st_position (last (path_steps p))" "\<not> InMotion u'" "\<not> HasStatus StatusMove u'"
    by blast
  moreover have "Advance u' = (u', zero_step, False, False)"
    using u'(3) by (simp add: InMotion_def Advance_def)
  ultimately show ?thesis by auto
qed

definition short_path :: room_path where
  "short_path = \<lparr>path_steps = [\<lparr>st_position = \<lparr>pos_point = Point 1 0, pos_z = 0\<rparr>, st_diagonal = False\<rparr>],
     path_versions = []\<rparr>"

theorem unit_walks_path_witness:
  "\<exists>u u'. unit_New guest_params = Inr u \<and>
     snd (advance_trace 2 (SetPath short_path u)) = u' \<and> pos_point (u_position u') = Point 1 0"
proof -
  obtain u where u: "unit_New guest_params = Inr u"
    by (simp add: unit_New_def guest_params_def KindPlayer_def)
  from unit_walks_path [of short_path u] show ?thesis
    using u by (auto simp: short_path_def numeral_2_eq_2)
qed

subsection \<open>Facing\<close>

lemma compareUint16_adjacent:
  assumes "\<bar>uint b - uint a\<bar> \<le> 1" shows "compareUint16 b a = uint b - uint (a :: u16)"
  using assms by (auto simp: compareUint16_def word_less_def)

text \<open>Rotations and neighbours agree: the rotation a unit takes towards an adjacent tile is the
  one whose \<open>PointInFront\<close> is that tile.\<close>

theorem rotation_faces_neighbour:
  assumes "Adjacent p q"
  shows "PointInFront p (RotationBetween (px p) (py p) (px q) (py q)) = Some q"
proof -
  let ?dx = "uint (px q) - uint (px p)" and ?dy = "uint (py q) - uint (py p)"
  have d: "\<bar>?dx\<bar> \<le> 1" "\<bar>?dy\<bar> \<le> 1" "?dx \<noteq> 0 \<or> ?dy \<noteq> 0"
    using assms by (auto simp: Adjacent_def Let_def abs_minus_commute)
  then have cmp: "compareUint16 (px q) (px p) = ?dx" "compareUint16 (py q) (py p) = ?dy"
    by (simp_all add: compareUint16_adjacent)
  have "?dx = - 1 \<or> ?dx = 0 \<or> ?dx = 1" "?dy = - 1 \<or> ?dy = 0 \<or> ?dy = 1" using d by linarith+
  then have "directionOffset (RotationBetween (px p) (py p) (px q) (py q)) = (?dx, ?dy)"
    using d(3) unfolding RotationBetween_def cmp Let_def
    by (elim disjE) (simp_all add: directionOffset_def)
  then show ?thesis by (simp add: PointInFront_def)
qed

theorem rotation_faces_neighbour_witness:
  "PointInFront (Point 4 4) (RotationBetween 4 4 5 3) = Some (Point 5 3)"
  using rotation_faces_neighbour [of "Point 4 4" "Point 5 3"] by (simp add: Adjacent_def)

end
