(* ===== verification/Furniture.thy ===== *)
theory Furniture
  imports Room_Unit
begin

text \<open>
  Placed furniture, after \<^verbatim>\<open>internal/realm/room/world/furniture\<close>: definitions and multi-height
  states (\<^verbatim>\<open>definition.go\<close>), footprints (\<^verbatim>\<open>footprint.go\<close>), sit and lay slots (\<^verbatim>\<open>slot.go\<close>) and the
  fixtures an item puts into the surface resolver (\<^verbatim>\<open>fixture.go\<close>, \<^verbatim>\<open>item.go\<close>), and the lookup tables of
  \<^verbatim>\<open>world/runtime/furnitureindex\<close>. The decimal float parser of Go's standard library, applied to one
  multi-height entry and rounded to quarter units, is the parameter \<open>units\<close>.
\<close>

subsection \<open>Text and integer helpers of the language\<close>

definition is_digit :: "char \<Rightarrow> bool" where
  "is_digit c \<longleftrightarrow> 48 \<le> (of_char c :: nat) \<and> (of_char c :: nat) \<le> 57"

text \<open>\<^verbatim>\<open>strconv.Atoi\<close> on a 64-bit platform.\<close>

definition Atoi :: "string \<Rightarrow> int option" where
  "Atoi s =
     (let neg = (s \<noteq> [] \<and> hd s = CHR ''-''); pos = (s \<noteq> [] \<and> hd s = CHR ''+'');
          ds = (if neg \<or> pos then tl s else s)
      in if ds = [] \<or> \<not> list_all is_digit ds then None
         else (let v = (if neg then - int (dec_value ds) else int (dec_value ds))
           in if - (2 ^ 63) \<le> v \<and> v < 2 ^ 63 then Some v else None))"

text \<open>Integer division of Go truncates towards zero.\<close>

definition go_div :: "int \<Rightarrow> int \<Rightarrow> int" where
  "go_div a b = sgn a * sgn b * (\<bar>a\<bar> div \<bar>b\<bar>)"

definition has_prefix :: "string \<Rightarrow> string \<Rightarrow> bool" where
  "has_prefix s pre \<longleftrightarrow> take (length pre) s = pre"

subsection \<open>Definitions and items\<close>

definition SlotStatusSit :: string where "SlotStatusSit = ''sit''"
definition SlotStatusLay :: string where "SlotStatusLay = ''lay''"

record slot_definition =
  sd_dx :: int
  sd_dy :: int
  sd_status :: string
  sd_body :: rotation

record furniture_definition =
  fd_SpriteID :: int
  fd_InteractionType :: string
  fd_InteractionModesCount :: int
  fd_Multiheight :: string
  fd_CustomParams :: string
  fd_EffectPool :: "i32 list"
  fd_EffectMale :: "i32 option"
  fd_EffectFemale :: "i32 option"
  fd_Width :: int
  fd_Length :: int
  fd_StackHeight :: height
  fd_AllowStack :: bool
  fd_AllowWalk :: bool
  fd_AllowSit :: bool
  fd_AllowLay :: bool
  fd_Slots :: "slot_definition list"

record item =
  it_ID :: ident
  it_OwnerPlayerID :: ident
  it_Definition :: furniture_definition
  it_Point :: point
  it_Z :: height
  it_Rotation :: rotation
  it_ExtraData :: string

definition item_Top :: "item \<Rightarrow> height" where
  "item_Top i = it_Z i + fd_StackHeight (it_Definition i)"

definition HeightAtState :: "(string \<Rightarrow> height option) \<Rightarrow> furniture_definition \<Rightarrow> string \<Rightarrow> height" where
  "HeightAtState units d st =
     (if fd_InteractionType d \<noteq> ''multiheight'' \<or> fd_Multiheight d = '''' then fd_StackHeight d
      else (let index = (case Atoi st of None \<Rightarrow> 0 | Some i \<Rightarrow> if i < 0 then 0 else i);
                heights = split_at (CHR '';'') (fd_Multiheight d);
                index' = (if index \<ge> int (length heights) then 0 else index)
        in case units (heights ! nat index') of None \<Rightarrow> fd_StackHeight d | Some h \<Rightarrow> h))"

definition EmitsWalkEvents :: "furniture_definition \<Rightarrow> bool" where
  "EmitsWalkEvents d \<longleftrightarrow>
     fd_InteractionType d = ''gate'' \<or> fd_InteractionType d = ''toggle'' \<or>
     (fd_InteractionType d = ''default'' \<and> fd_InteractionModesCount d > 1) \<or>
     has_prefix (fd_InteractionType d) ''battlebanzai_'' \<or>
     has_prefix (fd_InteractionType d) ''freeze_'' \<or>
     has_prefix (fd_InteractionType d) ''icetag_'' \<or>
     has_prefix (fd_InteractionType d) ''rollerskate_'' \<or>
     has_prefix (fd_InteractionType d) ''bunnyrun_'' \<or>
     fd_InteractionType d = ''football_gate''"

subsection \<open>Footprints\<close>

definition Dimensions :: "int \<Rightarrow> int \<Rightarrow> rotation \<Rightarrow> int \<times> int" where
  "Dimensions w l r = (if r = 2 \<or> r = 6 then (l, w) else (w, l))"

definition Footprint :: "point \<Rightarrow> int \<Rightarrow> int \<Rightarrow> rotation \<Rightarrow> point list" where
  "Footprint origin w l r =
     (let (ew, el) = Dimensions w l r
      in concat (map (\<lambda>dy. List.map_filter
            (\<lambda>dx. NewPoint (uint (px origin) + int dx) (uint (py origin) + int dy)) [0..<nat ew])
          [0..<nat el]))"

definition item_Footprint :: "item \<Rightarrow> point list" where
  "item_Footprint i =
     Footprint (it_Point i) (fd_Width (it_Definition i)) (fd_Length (it_Definition i)) (it_Rotation i)"

subsection \<open>Slots\<close>

record slot =
  sl_Point :: point
  sl_Z :: height
  sl_Body :: rotation
  sl_Status :: string

definition rotateOffset :: "int \<Rightarrow> int \<Rightarrow> rotation \<Rightarrow> int \<times> int" where
  "rotateOffset dx dy r = (if r = 2 \<or> r = 6 then (dy, dx) else (dx, dy))"

definition rotateBody :: "rotation \<Rightarrow> rotation \<Rightarrow> rotation" where
  "rotateBody declared r = word_of_int ((uint declared + uint r) mod 8)"

definition Slots :: "item \<Rightarrow> slot list" where
  "Slots i = List.map_filter (\<lambda>d.
     (let (dx, dy) = rotateOffset (sd_dx d) (sd_dy d) (it_Rotation i)
      in map_option (\<lambda>p. \<lparr>sl_Point = p, sl_Z = item_Top i,
           sl_Body = rotateBody (sd_body d) (it_Rotation i), sl_Status = sd_status d\<rparr>)
         (NewPoint (uint (px (it_Point i)) + dx) (uint (py (it_Point i)) + dy))))
     (fd_Slots (it_Definition i))"

subsection \<open>Fixtures\<close>

definition gateOpen :: "item \<Rightarrow> bool" where
  "gateOpen i =
     (if fd_InteractionType (it_Definition i) \<noteq> ''gate'' then False
      else if fd_CustomParams (it_Definition i) = ''open_state=0'' then it_ExtraData i = ''0''
      else it_ExtraData i = ''1'')"

definition freezeBlockOpen :: "item \<Rightarrow> bool" where
  "freezeBlockOpen i =
     (if fd_InteractionType (it_Definition i) \<noteq> ''freeze_block'' then False
      else (case Atoi (it_ExtraData i) of None \<Rightarrow> False
        | Some st \<Rightarrow> (let visual = go_div st 1000
            in visual \<ge> 1 \<and> visual \<le> 7 \<or> visual \<ge> 12 \<and> visual \<le> 17)))"

definition slotState :: "string \<Rightarrow> state" where
  "slotState st = (if st = SlotStatusLay then StateLay else StateSit)"

definition indexSlotsByPoint :: "slot list \<Rightarrow> point \<rightharpoonup> slot" where
  "indexSlotsByPoint ss = fold (\<lambda>s m. m(sl_Point s \<mapsto> s)) ss Map.empty"

definition tileFixture :: "item \<Rightarrow> point \<Rightarrow> height \<Rightarrow> (point \<rightharpoonup> slot) \<Rightarrow> surface_error + fixture" where
  "tileFixture i p tops byPoint =
     (let base = \<lparr>fp_point = p, fp_z = it_Z i, fp_bottom = it_Z i, fp_hasBottom = True, fp_top = tops,
            fp_clearance = AvatarClearance, fp_state = StateOpen,
            fp_stacking = fd_AllowStack (it_Definition i), fp_source = SourceBase, fp_sourceID = it_ID i\<rparr>
      in case byPoint p of
           Some s \<Rightarrow> NewFixture (base\<lparr>fp_state := slotState (sl_Status s)\<rparr>)
         | None \<Rightarrow>
             if gateOpen i then NewFixture base
             else if freezeBlockOpen i then NewFixture base
             else if fd_AllowWalk (it_Definition i) then NewFixture (base\<lparr>fp_z := tops\<rparr>)
             else NewFixture (base\<lparr>fp_clearance := 0, fp_state := StateBlocked\<rparr>))"

fun tileFixtures :: "item \<Rightarrow> height \<Rightarrow> (point \<rightharpoonup> slot) \<Rightarrow> point list \<Rightarrow> surface_error + fixture list" where
  "tileFixtures i tops byPoint [] = Inr []"
| "tileFixtures i tops byPoint (p # ps) = (case tileFixture i p tops byPoint of
     Inl e \<Rightarrow> Inl e
   | Inr f \<Rightarrow> (case tileFixtures i tops byPoint ps of Inl e \<Rightarrow> Inl e | Inr fs \<Rightarrow> Inr (f # fs)))"

definition Fixtures :: "item \<Rightarrow> surface_error + fixture list" where
  "Fixtures i = tileFixtures i (item_Top i) (indexSlotsByPoint (Slots i)) (item_Footprint i)"

subsection \<open>Lookup tables\<close>

definition interactive :: "item \<Rightarrow> bool" where
  "interactive i \<longleftrightarrow> fd_InteractionType (it_Definition i) \<noteq> '''' \<and>
     (fd_InteractionType (it_Definition i) \<noteq> ''default'' \<or> fd_InteractionModesCount (it_Definition i) > 1)"

text \<open>The items map is an association list with distinct ids; the order stands for the iteration
  order of the Go map.\<close>

record index_snapshot =
  ix_Fixtures :: "fixture list"
  ix_Items :: "(ident \<times> item) list"
  ix_Tiles :: "point \<Rightarrow> ident list"
  ix_Types :: "string \<Rightarrow> ident list"
  ix_Interactions :: "point \<rightharpoonup> ident"

definition add_tiles :: "ident \<Rightarrow> point list \<Rightarrow> (point \<Rightarrow> ident list) \<Rightarrow> point \<Rightarrow> ident list" where
  "add_tiles i ps m = fold (\<lambda>p m. m(p := m p @ [i])) ps m"

definition add_interactions :: "ident \<Rightarrow> point list \<Rightarrow> (point \<rightharpoonup> ident) \<Rightarrow> point \<rightharpoonup> ident" where
  "add_interactions i ps m = fold (\<lambda>p m. m(p \<mapsto> i)) ps m"

definition index_item :: "item \<Rightarrow> fixture list \<Rightarrow> index_snapshot \<Rightarrow> index_snapshot" where
  "index_item i fs ix =
     \<lparr>ix_Fixtures = ix_Fixtures ix @ fs,
      ix_Items = AList.update (it_ID i) i (ix_Items ix),
      ix_Tiles = add_tiles (it_ID i) (item_Footprint i) (ix_Tiles ix),
      ix_Types = (let t = fd_InteractionType (it_Definition i)
        in if t \<noteq> '''' then (ix_Types ix)(t := ix_Types ix t @ [it_ID i]) else ix_Types ix),
      ix_Interactions = (if interactive i
        then add_interactions (it_ID i) (item_Footprint i) (ix_Interactions ix) else ix_Interactions ix)\<rparr>"

definition empty_index :: index_snapshot where
  "empty_index = \<lparr>ix_Fixtures = [], ix_Items = [], ix_Tiles = (\<lambda>_. []), ix_Types = (\<lambda>_. []),
     ix_Interactions = Map.empty\<rparr>"

fun Build_loop :: "index_snapshot \<Rightarrow> item list \<Rightarrow> surface_error + index_snapshot" where
  "Build_loop ix [] = Inr ix"
| "Build_loop ix (i # is) = (case Fixtures i of
     Inl e \<Rightarrow> Inl e | Inr fs \<Rightarrow> Build_loop (index_item i fs ix) is)"

definition Build :: "item list \<Rightarrow> surface_error + index_snapshot" where
  "Build is = Build_loop empty_index is"

definition item_contains :: "item \<Rightarrow> point \<Rightarrow> bool" where
  "item_contains i p = list_ex (\<lambda>q. q = p) (item_Footprint i)"

fun ResolveSlotGoal :: "(ident \<times> item) list \<Rightarrow> point \<Rightarrow> point" where
  "ResolveSlotGoal [] goal = goal"
| "ResolveSlotGoal ((_, i) # is) goal =
     (let ss = Slots i
      in if ss = [] \<or> \<not> item_contains i goal then ResolveSlotGoal is goal
         else if list_ex (\<lambda>s. sl_Point s = goal) ss then goal
         else (case find (\<lambda>s. px (sl_Point s) = px goal \<or> py (sl_Point s) = py goal) ss of
             Some s \<Rightarrow> sl_Point s
           | None \<Rightarrow> sl_Point (ss ! 0)))"

definition ByInteraction :: "ident list \<Rightarrow> (ident \<times> item) list \<Rightarrow> item list" where
  "ByInteraction ids items = List.map_filter (map_of items) ids"

definition manhattan :: "point \<Rightarrow> point \<Rightarrow> int" where
  "manhattan a b = absolute (uint (px a) - uint (px b)) + absolute (uint (py a) - uint (py b))"

fun Nearest_loop ::
  "(ident \<times> item) list \<Rightarrow> point \<Rightarrow> int \<Rightarrow> (item \<times> int) option \<Rightarrow> ident list \<Rightarrow> (item \<times> int) option" where
  "Nearest_loop items origin radius best [] = best"
| "Nearest_loop items origin radius best (i # is) = (case map_of items i of
     None \<Rightarrow> Nearest_loop items origin radius best is
   | Some it \<Rightarrow>
       (let d = manhattan origin (it_Point it)
        in if radius \<ge> 0 \<and> d > radius then Nearest_loop items origin radius best is
           else (case best of
               None \<Rightarrow> Nearest_loop items origin radius (Some (it, d)) is
             | Some (b, bd) \<Rightarrow> Nearest_loop items origin radius
                 (if d < bd \<or> d = bd \<and> it_ID it < it_ID b then Some (it, d) else best) is)))"

definition Nearest :: "ident list \<Rightarrow> (ident \<times> item) list \<Rightarrow> point \<Rightarrow> int \<Rightarrow> item option" where
  "Nearest ids items origin radius = map_option fst (Nearest_loop items origin radius None ids)"

subsection \<open>Footprints and slots\<close>

lemma map_filter_Some_length:
  "\<forall>x\<in>set xs. f x \<noteq> None \<Longrightarrow> length (List.map_filter f xs) = length xs"
  by (induction xs) (auto simp: List.map_filter_simps)

lemma map_filter_set: "y \<in> set (List.map_filter f xs) \<longleftrightarrow> (\<exists>x\<in>set xs. f x = Some y)"
  by (induction xs) (auto simp: List.map_filter_simps split: option.splits)

lemma Footprint_set:
  "p \<in> set (Footprint origin w l r) \<longleftrightarrow>
     (\<exists>dx dy. 0 \<le> dx \<and> dx < fst (Dimensions w l r) \<and> 0 \<le> dy \<and> dy < snd (Dimensions w l r) \<and>
        NewPoint (uint (px origin) + dx) (uint (py origin) + dy) = Some p)"
proof -
  obtain ew el where d: "Dimensions w l r = (ew, el)" by fastforce
  have "p \<in> set (Footprint origin w l r) \<longleftrightarrow>
      (\<exists>dy\<in>{0..<nat el}. \<exists>dx\<in>{0..<nat ew}. NewPoint (uint (px origin) + int dx) (uint (py origin) + int dy) = Some p)"
    by (simp add: Footprint_def d map_filter_set)
  also have "\<dots> \<longleftrightarrow> (\<exists>dx dy. 0 \<le> dx \<and> dx < ew \<and> 0 \<le> dy \<and> dy < el \<and>
        NewPoint (uint (px origin) + dx) (uint (py origin) + dy) = Some p)"
  proof
    assume "\<exists>dy\<in>{0..<nat el}. \<exists>dx\<in>{0..<nat ew}. NewPoint (uint (px origin) + int dx) (uint (py origin) + int dy) = Some p"
    then obtain dy dx where "dy < nat el" "dx < nat ew"
      "NewPoint (uint (px origin) + int dx) (uint (py origin) + int dy) = Some p" by auto
    then show "\<exists>dx dy. 0 \<le> dx \<and> dx < ew \<and> 0 \<le> dy \<and> dy < el \<and>
        NewPoint (uint (px origin) + dx) (uint (py origin) + dy) = Some p"
      by (intro exI [of _ "int dx"] exI [of _ "int dy"]) auto
  next
    assume "\<exists>dx dy. 0 \<le> dx \<and> dx < ew \<and> 0 \<le> dy \<and> dy < el \<and>
        NewPoint (uint (px origin) + dx) (uint (py origin) + dy) = Some p"
    then obtain dx dy where "0 \<le> dx" "dx < ew" "0 \<le> dy" "dy < el"
        "NewPoint (uint (px origin) + dx) (uint (py origin) + dy) = Some p" by blast
    then show "\<exists>dy\<in>{0..<nat el}. \<exists>dx\<in>{0..<nat ew}. NewPoint (uint (px origin) + int dx) (uint (py origin) + int dy) = Some p"
      by (intro bexI [of _ "nat dy"] bexI [of _ "nat dx"]) auto
  qed
  finally show ?thesis by (simp add: d)
qed

lemma Slots_cases:
  assumes "s \<in> set (Slots i)"
  obtains d dx dy where "d \<in> set (fd_Slots (it_Definition i))"
    "rotateOffset (sd_dx d) (sd_dy d) (it_Rotation i) = (dx, dy)"
    "NewPoint (uint (px (it_Point i)) + dx) (uint (py (it_Point i)) + dy) = Some (sl_Point s)"
    "sl_Z s = item_Top i" "sl_Status s = sd_status d"
proof -
  obtain d where d: "d \<in> set (fd_Slots (it_Definition i))"
    and s: "(let (dx, dy) = rotateOffset (sd_dx d) (sd_dy d) (it_Rotation i)
      in map_option (\<lambda>p. \<lparr>sl_Point = p, sl_Z = item_Top i,
           sl_Body = rotateBody (sd_body d) (it_Rotation i), sl_Status = sd_status d\<rparr>)
         (NewPoint (uint (px (it_Point i)) + dx) (uint (py (it_Point i)) + dy))) = Some s"
    using assms by (auto simp: Slots_def map_filter_set)
  obtain dx dy where r: "rotateOffset (sd_dx d) (sd_dy d) (it_Rotation i) = (dx, dy)" by fastforce
  show thesis using that [OF d r] s r by auto
qed

text \<open>Slots stay on their furniture: if a definition declares its sit and lay slots inside its
  width and length, then in every rotation each resolved slot of a placed item lies on a tile of the
  item's footprint and rests at the item's top.\<close>

theorem slots_inside_footprint:
  assumes "\<And>d. d \<in> set (fd_Slots (it_Definition i)) \<Longrightarrow>
      0 \<le> sd_dx d \<and> sd_dx d < fd_Width (it_Definition i) \<and> 0 \<le> sd_dy d \<and> sd_dy d < fd_Length (it_Definition i)"
    and "s \<in> set (Slots i)"
  shows "sl_Point s \<in> set (item_Footprint i) \<and> sl_Z s = item_Top i"
proof -
  from assms(2) obtain d dx dy where d: "d \<in> set (fd_Slots (it_Definition i))"
    "rotateOffset (sd_dx d) (sd_dy d) (it_Rotation i) = (dx, dy)"
    "NewPoint (uint (px (it_Point i)) + dx) (uint (py (it_Point i)) + dy) = Some (sl_Point s)"
    "sl_Z s = item_Top i" by (rule Slots_cases)
  have "0 \<le> dx" "dx < fst (Dimensions (fd_Width (it_Definition i)) (fd_Length (it_Definition i)) (it_Rotation i))"
    "0 \<le> dy" "dy < snd (Dimensions (fd_Width (it_Definition i)) (fd_Length (it_Definition i)) (it_Rotation i))"
    using assms(1) [OF d(1)] d(2) by (auto simp: rotateOffset_def Dimensions_def split: if_splits)
  then have "sl_Point s \<in> set (item_Footprint i)"
    unfolding item_Footprint_def Footprint_set using d(3) by blast
  with d(4) show ?thesis by simp
qed

definition sofa_definition :: furniture_definition where
  "sofa_definition = \<lparr>fd_SpriteID = 3, fd_InteractionType = ''default'', fd_InteractionModesCount = 1,
     fd_Multiheight = '''', fd_CustomParams = '''', fd_EffectPool = [], fd_EffectMale = None,
     fd_EffectFemale = None, fd_Width = 2, fd_Length = 1, fd_StackHeight = 4, fd_AllowStack = False,
     fd_AllowWalk = False, fd_AllowSit = True, fd_AllowLay = False,
     fd_Slots = [\<lparr>sd_dx = 0, sd_dy = 0, sd_status = ''sit'', sd_body = 4\<rparr>,
       \<lparr>sd_dx = 1, sd_dy = 0, sd_status = ''sit'', sd_body = 4\<rparr>]\<rparr>"

definition sofa :: item where
  "sofa = \<lparr>it_ID = 7, it_OwnerPlayerID = 1, it_Definition = sofa_definition, it_Point = Point 1 0,
     it_Z = 0, it_Rotation = 2, it_ExtraData = ''''\<rparr>"

lemma sofa_slots: "map sl_Point (Slots sofa) = [Point 1 0, Point 1 1]"
  by (simp add: Slots_def sofa_def sofa_definition_def rotateOffset_def NewPoint_def List.map_filter_simps)

theorem slots_inside_footprint_witness:
  "\<exists>s\<in>set (Slots sofa). sl_Point s \<in> set (item_Footprint sofa) \<and> sl_Z s = 4"
proof -
  obtain s where s: "s \<in> set (Slots sofa)" using sofa_slots by (cases "Slots sofa") auto
  have "sl_Point s \<in> set (item_Footprint sofa) \<and> sl_Z s = item_Top sofa"
    using s by (intro slots_inside_footprint) (auto simp: sofa_def sofa_definition_def)
  with s show ?thesis by (auto simp: item_Top_def sofa_def sofa_definition_def)
qed

subsection \<open>Fixtures of an item\<close>

lemma NewFixture_Inr:
  "NewFixture p = Inr f \<longleftrightarrow>
     \<not> (sint (if \<not> fp_hasBottom p then fp_z p else fp_bottom p) > sint (fp_z p) \<or>
        sint (fp_top p) < sint (fp_z p) \<or> fp_state p = StateInvalid) \<and>
     f = \<lparr>fx_point = fp_point p, fx_z = fp_z p,
       fx_bottom = (if \<not> fp_hasBottom p then fp_z p else fp_bottom p), fx_top = fp_top p,
       fx_clearance = fp_clearance p, fx_state = fp_state p, fx_stacking = fp_stacking p,
       fx_source = (if fp_source p = SourceBase then SourceFixture else fp_source p),
       fx_sourceID = fp_sourceID p\<rparr>"
  by (auto simp: NewFixture_def Let_def)

lemma slotState_valid [simp]: "slotState st \<noteq> StateInvalid"
  by (simp add: slotState_def)

lemma tileFixture_spec:
  "case tileFixture i p tops byPoint of
     Inl _ \<Rightarrow> sint tops < sint (it_Z i)
   | Inr f \<Rightarrow> \<not> sint tops < sint (it_Z i) \<and> fx_point f = p \<and> fx_sourceID f = it_ID i \<and>
       fx_source f = SourceFixture \<and> fx_bottom f = it_Z i \<and> fx_top f = tops \<and>
       sint (it_Z i) \<le> sint (fx_z f) \<and> sint (fx_z f) \<le> sint tops"
  by (auto simp: tileFixture_def NewFixture_def Let_def split: option.splits)

lemma tileFixtures_spec:
  "case tileFixtures i tops byPoint ps of
     Inl _ \<Rightarrow> ps \<noteq> [] \<and> sint tops < sint (it_Z i)
   | Inr fs \<Rightarrow> (ps = [] \<or> \<not> sint tops < sint (it_Z i)) \<and> map fx_point fs = ps \<and>
       (\<forall>f\<in>set fs. fx_sourceID f = it_ID i \<and> fx_source f = SourceFixture \<and>
         fx_bottom f = it_Z i \<and> fx_top f = tops \<and>
         sint (it_Z i) \<le> sint (fx_z f) \<and> sint (fx_z f) \<le> sint tops)"
proof (induction ps)
  case (Cons p ps)
  then show ?case
    using tileFixture_spec [where i = i and p = p and tops = tops and byPoint = byPoint] by (auto split: sum.splits)
qed simp

text \<open>\<open>Fixtures\<close> either projects an item onto exactly the tiles of its footprint, in order, each
  fixture owned by the item, spanning from its base to its top and standing in between, or fails, and
  it fails only for a non-empty footprint whose top is below its base.\<close>

theorem Fixtures_cover_footprint:
  "case Fixtures i of
     Inl _ \<Rightarrow> item_Footprint i \<noteq> [] \<and> sint (item_Top i) < sint (it_Z i)
   | Inr fs \<Rightarrow> map fx_point fs = item_Footprint i \<and>
       (\<forall>f\<in>set fs. fx_sourceID f = it_ID i \<and> fx_source f = SourceFixture \<and>
         fx_bottom f = it_Z i \<and> fx_top f = item_Top i \<and>
         sint (it_Z i) \<le> sint (fx_z f) \<and> sint (fx_z f) \<le> sint (item_Top i))"
  using tileFixtures_spec [where i = i and tops = "item_Top i" and byPoint = "indexSlotsByPoint (Slots i)"
      and ps = "item_Footprint i"]
  by (simp add: Fixtures_def split: sum.splits)

theorem Fixtures_cover_footprint_witness:
  "\<exists>f g. Fixtures sofa = Inr [f, g] \<and> fx_point f = Point 1 0 \<and> fx_point g = Point 1 1 \<and>
     fx_sourceID f = 7 \<and> fx_top g = 4"
proof -
  have i: "\<not> isl (Fixtures sofa)" "item_Footprint sofa = [Point 1 0, Point 1 1]" "item_Top sofa = 4" "it_ID sofa = 7"
    by code_simp+
  then obtain fs where fs: "Fixtures sofa = Inr fs" by (cases "Fixtures sofa") auto
  with Fixtures_cover_footprint [of sofa] i
  have "map fx_point fs = [Point 1 0, Point 1 1]" "\<forall>f\<in>set fs. fx_sourceID f = 7 \<and> fx_top f = 4" by auto
  with fs show ?thesis by auto
qed

end
