(* ===== verification/Room_World.thy ===== *)
theory Room_World
  imports Furniture
begin

text \<open>
  The mutable world of an active room, after \<^verbatim>\<open>internal/realm/room/world/runtime\<close>: units, mounts
  (\<^verbatim>\<open>mount/state.go\<close>), slots and furniture with their indexes, and every operation of \<^verbatim>\<open>world.go\<close>,
  \<^verbatim>\<open>movement.go\<close>, \<^verbatim>\<open>model.go\<close>, \<^verbatim>\<open>interaction.go\<close>, \<^verbatim>\<open>furniture.go\<close>, \<^verbatim>\<open>snapshot.go\<close> and
  \<^verbatim>\<open>occupancy.go\<close>. The maps of units and of furniture are association lists with distinct keys whose
  order stands for Go's iteration order; every unit is reached through its own key, so an update of a
  \<^verbatim>\<open>*Unit\<close> is an update of the list at that key. The other maps are functions.
\<close>

subsection \<open>Mounts\<close>

record mount_state =
  ms_mounts :: "ident \<rightharpoonup> ident"
  ms_riders :: "ident \<rightharpoonup> ident"

type_synonym units = "(ident \<times> room_unit) list"

datatype mount_error = ErrInvalid

definition mount_New :: mount_state where
  "mount_New = \<lparr>ms_mounts = Map.empty, ms_riders = Map.empty\<rparr>"

definition mutate :: "ident \<Rightarrow> (room_unit \<Rightarrow> room_unit) \<Rightarrow> units \<Rightarrow> units" where
  "mutate k f us = (case map_of us k of None \<Rightarrow> us | Some u \<Rightarrow> AList.update k (f u) us)"

definition mount_Linked :: "mount_state \<Rightarrow> ident \<Rightarrow> ident option" where
  "mount_Linked ms k = (case ms_mounts ms k of Some m \<Rightarrow> Some m | None \<Rightarrow> ms_riders ms k)"

definition mount_keys :: "mount_state \<Rightarrow> ident \<Rightarrow> (ident \<times> ident) option" where
  "mount_keys ms k = (case ms_mounts ms k of Some m \<Rightarrow> Some (k, m)
     | None \<Rightarrow> (case ms_riders ms k of Some r \<Rightarrow> Some (r, k) | None \<Rightarrow> None))"

definition mount_Unlink :: "mount_state \<Rightarrow> units \<Rightarrow> ident \<Rightarrow> mount_state \<times> units" where
  "mount_Unlink ms us k = (case mount_keys ms k of
     None \<Rightarrow> (ms, us)
   | Some (rider, mnt) \<Rightarrow>
       (\<lparr>ms_mounts = (ms_mounts ms)(rider := None), ms_riders = (ms_riders ms)(mnt := None)\<rparr>,
        mutate mnt (\<lambda>u. SetControl ControlNone (fst (StopMovement u)))
          (mutate rider (\<lambda>u. SetControl ControlNone (SetRenderOffset 0 (fst (StopMovement u)))) us)))"

text \<open>The result says whether both units exist; \<open>Inr False\<close> is the return of two nil units.\<close>

definition mount_Set ::
  "mount_state \<Rightarrow> units \<Rightarrow> ident \<Rightarrow> ident \<Rightarrow> bool \<Rightarrow> (mount_state \<times> units) \<times> (mount_error + bool)" where
  "mount_Set ms us riderKey mountKey mounted =
     (case (map_of us riderKey, map_of us mountKey) of
        (Some rider, Some mnt) \<Rightarrow>
          if u_kind rider \<noteq> KindPlayer \<or> u_kind mnt \<noteq> KindPet then ((ms, us), Inl ErrInvalid)
          else if \<not> mounted then
            (if (case ms_mounts ms riderKey of None \<Rightarrow> 0 | Some m \<Rightarrow> m) = mountKey
             then (mount_Unlink ms us riderKey, Inr True) else ((ms, us), Inr True))
          else if (case ms_mounts ms riderKey of None \<Rightarrow> False | Some m \<Rightarrow> m \<noteq> mountKey) then ((ms, us), Inl ErrInvalid)
          else if (case ms_riders ms mountKey of None \<Rightarrow> False | Some r \<Rightarrow> r \<noteq> riderKey) then ((ms, us), Inl ErrInvalid)
          else
            ((\<lparr>ms_mounts = (ms_mounts ms)(riderKey \<mapsto> mountKey), ms_riders = (ms_riders ms)(mountKey \<mapsto> riderKey)\<rparr>,
              mutate riderKey (\<lambda>u. SetRenderOffset RidingHeightOffset (SetControl ControlNone
                  (Reposition (u_position mnt) (u_body mnt) u)))
                (mutate mountKey (\<lambda>u. SetControl ControlNone (Reposition (u_position mnt) (u_body mnt) u)) us)),
             Inr True)
      | _ \<Rightarrow> ((ms, us), Inr False))"

subsection \<open>The world\<close>

record world_state =
  w_grid :: grid
  w_resolver :: resolver
  w_furniture :: "(ident \<times> item) list"
  w_furnitureTiles :: "point \<Rightarrow> ident list"
  w_interactionTypes :: "string \<Rightarrow> ident list"
  w_interactions :: "point \<rightharpoonup> ident"
  w_door :: position
  w_body :: rotation
  w_head :: rotation
  w_rules :: rules
  w_units :: units
  w_unitKeys :: "int \<rightharpoonup> ident"
  w_nextUnitID :: int
  w_unitSlots :: "ident \<rightharpoonup> point"
  w_slotOccupants :: "point \<rightharpoonup> ident"
  w_mounts :: mount_state

datatype world_error =
    ErrInvalidMount | ErrInvalidWorld | ErrUnitNotFound | ErrUnitExiting | ErrInvalidPlacement
  | ErrTileOccupied | ErrCannotStack | ErrFurnitureNotFound
  | PathError path_error | SurfaceError surface_error | UnitError unit_error

record unit_snapshot =
  us_EntityKey :: ident
  us_PlayerID :: ident
  us_OwnerID :: int
  us_Kind :: unit_kind
  us_UnitID :: int
  us_Position :: position
  us_Previous :: position
  us_BodyRotation :: rotation
  us_HeadRotation :: rotation
  us_Moving :: bool
  us_Statuses :: "(string \<times> string) list"
  us_HandItem :: i32
  us_Idle :: bool
  us_IdleSince :: int
  us_ManualIdle :: bool
  us_ActiveEffectID :: i32
  us_RenderOffset :: height

definition unitSnapshot :: "ident \<Rightarrow> room_unit \<Rightarrow> unit_snapshot" where
  "unitSnapshot k u = \<lparr>us_EntityKey = k, us_PlayerID = (if u_kind u \<noteq> KindPlayer then 0 else k),
     us_OwnerID = u_ownerID u, us_Kind = u_kind u, us_UnitID = u_id u, us_Position = u_position u,
     us_Previous = u_previous u, us_BodyRotation = u_body u, us_HeadRotation = u_head u,
     us_Moving = InMotion u, us_Statuses = Statuses u, us_HandItem = u_handItem u, us_Idle = u_idle u,
     us_IdleSince = u_idleSince u, us_ManualIdle = u_manualIdle u,
     us_ActiveEffectID = u_activeEffectID u, us_RenderOffset = u_renderOffset u\<rparr>"

definition unit_of :: "world_state \<Rightarrow> ident \<Rightarrow> room_unit option" where
  "unit_of w k = map_of (w_units w) k"

definition change :: "ident \<Rightarrow> (room_unit \<Rightarrow> room_unit) \<Rightarrow> world_state \<Rightarrow> world_state" where
  "change k f w = w\<lparr>w_units := mutate k f (w_units w)\<rparr>"

definition snapshot_of :: "world_state \<Rightarrow> ident \<Rightarrow> unit_snapshot option" where
  "snapshot_of w k = map_option (unitSnapshot k) (unit_of w k)"

definition linkedKey :: "world_state \<Rightarrow> ident \<Rightarrow> ident option" where
  "linkedKey w k = mount_Linked (w_mounts w) k"

record config =
  cf_Grid :: grid
  cf_Fixtures :: "fixture list"
  cf_Furniture :: "item list"
  cf_Door :: position
  cf_Body :: rotation
  cf_Head :: rotation
  cf_Rules :: rules

definition world_New :: "config \<Rightarrow> world_error + world_state" where
  "world_New c = (case Build (cf_Furniture c) of
     Inl e \<Rightarrow> Inl (SurfaceError e)
   | Inr ix \<Rightarrow> (case NewResolver (cf_Grid c) (ix_Fixtures ix @ cf_Fixtures c) of
       Inl e \<Rightarrow> Inl (SurfaceError e)
     | Inr r \<Rightarrow> (case resolver_SectionAt r (pos_point (cf_Door c)) (pos_z (cf_Door c)) of
         Inl _ \<Rightarrow> Inl ErrInvalidWorld
       | Inr _ \<Rightarrow> Inr \<lparr>w_grid = cf_Grid c, w_resolver = r, w_furniture = ix_Items ix,
           w_furnitureTiles = ix_Tiles ix, w_interactionTypes = ix_Types ix,
           w_interactions = ix_Interactions ix, w_door = cf_Door c, w_body = cf_Body c,
           w_head = cf_Head c, w_rules = Normalize (cf_Rules c), w_units = [], w_unitKeys = Map.empty,
           w_nextUnitID = 1, w_unitSlots = Map.empty, w_slotOccupants = Map.empty,
           w_mounts = mount_New\<rparr>)))"

subsection \<open>Slots and units\<close>

definition releaseSlot :: "ident \<Rightarrow> world_state \<Rightarrow> world_state" where
  "releaseSlot k w = (case w_unitSlots w k of None \<Rightarrow> w
     | Some p \<Rightarrow> w\<lparr>w_unitSlots := (w_unitSlots w)(k := None),
                  w_slotOccupants := (w_slotOccupants w)(p := None)\<rparr>)"

definition occupySlot :: "ident \<Rightarrow> point \<Rightarrow> world_state \<Rightarrow> world_state" where
  "occupySlot k p w = (let w1 = releaseSlot k w
     in w1\<lparr>w_unitSlots := (w_unitSlots w1)(k \<mapsto> p), w_slotOccupants := (w_slotOccupants w1)(p \<mapsto> k)\<rparr>)"

definition unlinkMount :: "ident \<Rightarrow> world_state \<Rightarrow> world_state" where
  "unlinkMount k w = (case mount_Unlink (w_mounts w) (w_units w) k of
     (ms, us) \<Rightarrow> w\<lparr>w_mounts := ms, w_units := us\<rparr>)"

definition add_unit :: "ident \<Rightarrow> room_unit \<Rightarrow> world_state \<Rightarrow> world_state" where
  "add_unit k u w = w\<lparr>w_units := AList.update k u (w_units w),
     w_unitKeys := (w_unitKeys w)(u_id u \<mapsto> k), w_nextUnitID := w_nextUnitID w + 1\<rparr>"

definition AddUnit :: "ident \<Rightarrow> world_state \<Rightarrow> world_state" where
  "AddUnit k w = (case unit_of w k of
     Some _ \<Rightarrow> w
   | None \<Rightarrow> (case unit_New \<lparr>up_id = w_nextUnitID w, up_ownerID = k, up_kind = KindPlayer,
         up_position = w_door w, up_body = w_body w, up_head = w_head w\<rparr> of
       Inl _ \<Rightarrow> w | Inr u \<Rightarrow> add_unit k u w))"

definition AddEntity ::
  "ident \<Rightarrow> int \<Rightarrow> unit_kind \<Rightarrow> position \<Rightarrow> rotation \<Rightarrow> world_state \<Rightarrow> world_state \<times> (world_error + unit_snapshot)" where
  "AddEntity k owner kind p r w =
     (if k = 0 \<or> owner \<le> 0 \<or> kind = KindPlayer then (w, Inl ErrInvalidWorld)
      else (case unit_of w k of
        Some u \<Rightarrow> (w, Inr (unitSnapshot k u))
      | None \<Rightarrow> (case resolver_TopSection (w_resolver w) (pos_point p) of
          Inl _ \<Rightarrow> (w, Inl (PathError ErrInvalidGoal))
        | Inr sec \<Rightarrow>
            if \<not> AllowsSection sec then (w, Inl (PathError ErrInvalidGoal))
            else if list_ex (\<lambda>(_, u). pos_point (u_position u) = pos_point p) (w_units w)
            then (w, Inl ErrTileOccupied)
            else (case unit_New \<lparr>up_id = w_nextUnitID w, up_ownerID = owner, up_kind = kind,
                up_position = p\<lparr>pos_z := sec_z sec\<rparr>, up_body = r, up_head = r\<rparr> of
              Inl e \<Rightarrow> (w, Inl (UnitError e))
            | Inr u \<Rightarrow> (add_unit k u w, Inr (unitSnapshot k u))))))"

definition RemoveEntity :: "ident \<Rightarrow> world_state \<Rightarrow> world_state \<times> unit_snapshot option" where
  "RemoveEntity k w = (case unit_of w k of
     None \<Rightarrow> (w, None)
   | Some u \<Rightarrow>
       (let w1 = releaseSlot k (unlinkMount k w)
        in (w1\<lparr>w_unitKeys := (w_unitKeys w1)(u_id u := None), w_units := AList.delete k (w_units w1)\<rparr>,
            Some (unitSnapshot k u))))"

definition RemoveUnit :: "ident \<Rightarrow> world_state \<Rightarrow> world_state" where
  "RemoveUnit k w =
     (let w1 = releaseSlot k (unlinkMount k w);
          w2 = (case unit_of w1 k of None \<Rightarrow> w1
            | Some u \<Rightarrow> w1\<lparr>w_unitKeys := (w_unitKeys w1)(u_id u := None)\<rparr>)
      in w2\<lparr>w_units := AList.delete k (w_units w2)\<rparr>)"

definition ClearUnits :: "world_state \<Rightarrow> world_state" where
  "ClearUnits w = w\<lparr>w_units := [], w_unitKeys := Map.empty, w_unitSlots := Map.empty,
     w_slotOccupants := Map.empty, w_mounts := mount_New\<rparr>"

definition SetMount ::
  "ident \<Rightarrow> ident \<Rightarrow> bool \<Rightarrow> world_state \<Rightarrow> world_state \<times> (world_error + unit_snapshot option \<times> unit_snapshot option)" where
  "SetMount riderKey mountKey mounted w =
     (case mount_Set (w_mounts w) (w_units w) riderKey mountKey mounted of
        ((ms, us), Inl _) \<Rightarrow> (w\<lparr>w_mounts := ms, w_units := us\<rparr>, Inl ErrInvalidMount)
      | ((ms, us), Inr False) \<Rightarrow> (w\<lparr>w_mounts := ms, w_units := us\<rparr>, Inl ErrUnitNotFound)
      | ((ms, us), Inr True) \<Rightarrow>
          (let w1 = releaseSlot mountKey (releaseSlot riderKey (w\<lparr>w_mounts := ms, w_units := us\<rparr>))
           in (w1, Inr (snapshot_of w1 riderKey, snapshot_of w1 mountKey))))"

subsection \<open>Movement\<close>

record movement_plan =
  mp_Start :: position
  mp_Goal :: point
  mp_Occupancy :: occupancy

definition occupancyExcept :: "world_state \<Rightarrow> ident \<Rightarrow> occupancy" where
  "occupancyExcept w k =
     NewOccupancy (concat (map (\<lambda>(o', u).
       if o' = k \<or> linkedKey w k = Some o' then []
       else u_position u # (case Goal u of None \<Rightarrow> [] | Some g \<Rightarrow> [g])) (w_units w)))"

definition resolveSlotGoal :: "world_state \<Rightarrow> point \<Rightarrow> point" where
  "resolveSlotGoal w goal = ResolveSlotGoal (w_furniture w) goal"

definition PlanMovement :: "ident \<Rightarrow> point \<Rightarrow> world_state \<Rightarrow> world_error + movement_plan" where
  "PlanMovement k goal w = (case unit_of w k of
     None \<Rightarrow> Inl ErrUnitNotFound
   | Some u \<Rightarrow> Inr \<lparr>mp_Start = u_position u, mp_Goal = resolveSlotGoal w goal,
       mp_Occupancy = occupancyExcept w k\<rparr>)"

definition FindPath :: "world_state \<Rightarrow> movement_plan \<Rightarrow> (path_error + room_path) option" where
  "FindPath w plan =
     Find (NewFinderWithOccupancy (resolver_Column (w_resolver w)) (w_rules w) (mp_Occupancy plan))
       (mp_Start plan) (mp_Goal plan)"

definition give_path :: "ident \<Rightarrow> room_path \<Rightarrow> control \<Rightarrow> world_state \<Rightarrow> world_state" where
  "give_path k p c w = change k (\<lambda>u. if c \<noteq> ControlNone then SetControl c (SetPath p u) else SetPath p u)
     (releaseSlot k w)"

definition assignLinkedPath :: "ident \<Rightarrow> room_path \<Rightarrow> control \<Rightarrow> world_state \<Rightarrow> world_state" where
  "assignLinkedPath k p c w =
     (let w1 = give_path k p c w
      in case linkedKey w1 k of
           None \<Rightarrow> w1
         | Some l \<Rightarrow> (case unit_of w1 l of None \<Rightarrow> unlinkMount k w1 | Some _ \<Rightarrow> give_path l p c w1))"

definition ApplyControlledMovement ::
  "ident \<Rightarrow> room_path \<Rightarrow> control \<Rightarrow> world_state \<Rightarrow> world_state \<times> world_error option" where
  "ApplyControlledMovement k p c w = (case unit_of w k of
     None \<Rightarrow> (w, Some ErrUnitNotFound)
   | Some u \<Rightarrow>
       if u_control u \<noteq> ControlNone \<and> c = ControlNone then (w, Some ErrUnitExiting)
       else (case Validate p (resolver_Column (w_resolver w)) of
           Some e \<Rightarrow> (w, Some (PathError e))
         | None \<Rightarrow> (assignLinkedPath k p c w, None)))"

definition ApplyMovement :: "ident \<Rightarrow> room_path \<Rightarrow> bool \<Rightarrow> world_state \<Rightarrow> world_state \<times> world_error option" where
  "ApplyMovement k p exiting w =
     ApplyControlledMovement k p (if exiting then ControlExitingRoom else ControlNone) w"

definition repositioned :: "position \<Rightarrow> rotation \<Rightarrow> bool \<Rightarrow> room_unit \<Rightarrow> room_unit" where
  "repositioned p r controlled u =
     SetControl (if controlled then ControlTeleporting else ControlNone) (Reposition p r u)"

definition repositionUnit ::
  "ident \<Rightarrow> point \<Rightarrow> height \<Rightarrow> rotation \<Rightarrow> bool \<Rightarrow> world_state \<Rightarrow> world_state" where
  "repositionUnit k pt z r controlled w =
     (let p = \<lparr>pos_point = pt, pos_z = z\<rparr>;
          w1 = change k (repositioned p r controlled) (releaseSlot k w)
      in case linkedKey w1 k of
           None \<Rightarrow> w1
         | Some l \<Rightarrow> (case unit_of w1 l of None \<Rightarrow> w1
             | Some _ \<Rightarrow> change l (repositioned p r controlled) (releaseSlot l w1)))"

definition pointOccupied :: "world_state \<Rightarrow> ident \<Rightarrow> point \<Rightarrow> bool" where
  "pointOccupied w k p = list_ex (\<lambda>(k', u).
     k' \<noteq> k \<and> linkedKey w k \<noteq> Some k' \<and> pos_point (u_position u) = p) (w_units w)"

definition near_candidates :: "point \<Rightarrow> point list" where
  "near_candidates p = p # List.map_filter (\<lambda>d. PointInFront p (word_of_nat d)) [0..<8]"

datatype teleport_policy = TeleportDirect | TeleportNear

fun teleportNear ::
  "ident \<Rightarrow> rotation \<Rightarrow> bool \<Rightarrow> point list \<Rightarrow> world_state \<Rightarrow> world_state \<times> (world_error + unit_snapshot option)" where
  "teleportNear k r controlled [] w = (w, Inl (PathError ErrInvalidGoal))"
| "teleportNear k r controlled (p # ps) w =
     (case resolver_TopSection (w_resolver w) p of
        Inl _ \<Rightarrow> teleportNear k r controlled ps w
      | Inr sec \<Rightarrow>
          if AllowsSection sec \<and> \<not> pointOccupied w k p
          then (let w1 = repositionUnit k p (sec_z sec) r controlled w in (w1, Inr (snapshot_of w1 k)))
          else teleportNear k r controlled ps w)"

definition TeleportUnit ::
  "ident \<Rightarrow> point \<Rightarrow> rotation \<Rightarrow> bool \<Rightarrow> teleport_policy list \<Rightarrow> world_state \<Rightarrow> world_state \<times> (world_error + unit_snapshot option)" where
  "TeleportUnit k p r controlled policies w = (case unit_of w k of
     None \<Rightarrow> (w, Inl ErrUnitNotFound)
   | Some u \<Rightarrow>
       if policies \<noteq> [] \<and> hd policies = TeleportNear
       then teleportNear k r controlled (near_candidates p) w
       else (case resolver_TopSection (w_resolver w) p of
           Inl e \<Rightarrow> (w, Inl (SurfaceError e))
         | Inr sec \<Rightarrow> (let w1 = repositionUnit k p (sec_z sec) r controlled w in (w1, Inr (snapshot_of w1 k)))))"

definition one_step_path :: "point \<Rightarrow> height \<Rightarrow> room_path" where
  "one_step_path p z =
     NewPath [\<lparr>st_position = \<lparr>pos_point = p, pos_z = z\<rparr>, st_diagonal = False\<rparr>]"

definition ApplyControlledStep :: "ident \<Rightarrow> point \<Rightarrow> control \<Rightarrow> world_state \<Rightarrow> world_state \<times> world_error option" where
  "ApplyControlledStep k p c w = (case unit_of w k of
     None \<Rightarrow> (w, Some ErrUnitNotFound)
   | Some _ \<Rightarrow> (case resolver_TopSection (w_resolver w) p of
       Inl _ \<Rightarrow> (w, Some (PathError ErrInvalidGoal))
     | Inr sec \<Rightarrow> if \<not> AllowsSection sec then (w, Some (PathError ErrInvalidGoal))
         else ApplyControlledMovement k (one_step_path p (sec_z sec)) c w))"

definition with_linked :: "ident \<Rightarrow> (room_unit \<Rightarrow> room_unit) \<Rightarrow> world_state \<Rightarrow> world_state" where
  "with_linked k f w = (let w1 = change k f w in
     case linkedKey w1 k of None \<Rightarrow> w1 | Some l \<Rightarrow> change l f w1)"

definition FaceTo :: "ident \<Rightarrow> point \<Rightarrow> world_state \<Rightarrow> world_state \<times> (world_error + unit_snapshot option)" where
  "FaceTo k target w = (case unit_of w k of
     None \<Rightarrow> (w, Inl ErrUnitNotFound)
   | Some u \<Rightarrow>
       if Exiting u \<or> Settled u then (w, Inr (Some (unitSnapshot k u)))
       else (let w1 = with_linked k (\<lambda>u. FaceToward target (ClearPath u)) w in (w1, Inr (snapshot_of w1 k))))"

subsection \<open>The tick\<close>

record movement =
  mv_PlayerID :: ident
  mv_Unit :: "unit_snapshot option"
  mv_Step :: step
  mv_Moved :: bool
  mv_Settled :: bool
  mv_Exited :: bool
  mv_ForcedExit :: bool

definition sortedPlayerIDs :: "world_state \<Rightarrow> ident list" where
  "sortedPlayerIDs w = sort (map fst (w_units w))"

definition nearestWalkableSection :: "world_state \<Rightarrow> position \<Rightarrow> world_error + tsection" where
  "nearestWalkableSection w p = (case resolver_Column (w_resolver w) (pos_point p) of
     Inl e \<Rightarrow> Inl (SurfaceError e)
   | Inr c \<Rightarrow> (case NearestWalkableSection c (pos_z p) of
       None \<Rightarrow> Inl (PathError ErrInvalidStart) | Some sec \<Rightarrow> Inr sec))"

fun find_slot :: "(ident \<times> item) list \<Rightarrow> point \<Rightarrow> string \<Rightarrow> slot option" where
  "find_slot [] p st = None"
| "find_slot ((_, i) # is) p st =
     (case find (\<lambda>s. sl_Point s = p \<and> sl_Status s = st) (Slots i) of
        Some s \<Rightarrow> Some s | None \<Rightarrow> find_slot is p st)"

definition slotAt :: "world_state \<Rightarrow> point \<Rightarrow> string \<Rightarrow> slot option" where
  "slotAt w p st = find_slot (w_furniture w) p st"

definition settleOnSection ::
  "ident \<Rightarrow> point \<Rightarrow> string \<Rightarrow> string \<Rightarrow> tsection \<Rightarrow> world_state \<Rightarrow> world_state" where
  "settleOnSection k p slotStatus unitStatus sec w = (case slotAt w p slotStatus of
     Some s \<Rightarrow> change k (Settle unitStatus (height_String (sl_Z s - sec_z sec)) (sl_Body s) (sl_Body s))
         (occupySlot k p w)
   | None \<Rightarrow> change k (\<lambda>u. Settle unitStatus (height_String (sec_z sec)) (u_body u) (u_head u) u) w)"

definition settleUnit :: "ident \<Rightarrow> room_unit \<Rightarrow> world_state \<Rightarrow> world_state" where
  "settleUnit k u w =
     (let p = u_position u
      in case resolver_Column (w_resolver w) (pos_point p) of
           Inl _ \<Rightarrow> w
         | Inr c \<Rightarrow> (case SectionAt c (pos_z p) of
             None \<Rightarrow> w
           | Some sec \<Rightarrow>
               if sec_state sec = StateSit
               then settleOnSection k (pos_point p) SlotStatusSit StatusSit sec w
               else if sec_state sec = StateLay
               then settleOnSection k (pos_point p) SlotStatusLay StatusLay sec w
               else w))"

definition tick_unit :: "ident \<Rightarrow> world_state \<Rightarrow> world_state \<times> movement list" where
  "tick_unit k w = (case unit_of w k of
     None \<Rightarrow> (w, [])
   | Some u \<Rightarrow>
       if Moving u \<and> ValidatePath (resolver_Column (w_resolver w)) u \<noteq> None
       then
         (let exited = Exiting u;
              w1 = change k ClearPath w;
              w2 = (case nearestWalkableSection w1 (u_position u) of
                  Inl _ \<Rightarrow> w1 | Inr sec \<Rightarrow> change k (SetHeight (sec_z sec)) w1)
          in (w2, [\<lparr>mv_PlayerID = k, mv_Unit = snapshot_of w2 k, mv_Step = zero_step, mv_Moved = False,
                    mv_Settled = True, mv_Exited = exited, mv_ForcedExit = exited\<rparr>]))
       else
         (case Advance u of (u1, s, moved, settled) \<Rightarrow>
           (let w1 = change k (\<lambda>_. u1) w
            in if \<not> moved \<and> \<not> settled then (w1, [])
               else
                 (let w2 = (if settled then settleUnit k u1 w1 else w1);
                      exited = (settled \<and> u_kind u1 = KindPlayer \<and>
                        pos_point (u_position u1) = pos_point (w_door w))
                  in (w2, [\<lparr>mv_PlayerID = k, mv_Unit = snapshot_of w2 k, mv_Step = s, mv_Moved = moved,
                            mv_Settled = settled, mv_Exited = exited,
                            mv_ForcedExit = (exited \<and> Exiting u1)\<rparr>])))))"

fun tick_units :: "ident list \<Rightarrow> world_state \<Rightarrow> world_state \<times> movement list" where
  "tick_units [] w = (w, [])"
| "tick_units (k # ks) w = (case tick_unit k w of
     (w1, ms) \<Rightarrow> (case tick_units ks w1 of (w2, ms') \<Rightarrow> (w2, ms @ ms')))"

definition Tick :: "world_state \<Rightarrow> world_state \<times> movement list" where
  "Tick w = tick_units (sortedPlayerIDs w) w"

subsection \<open>Interactions and unit commands\<close>

definition RollUnit :: "ident \<Rightarrow> position \<Rightarrow> world_state \<Rightarrow> world_state \<times> (world_error + unit_snapshot option)" where
  "RollUnit k p w = (case unit_of w k of
     None \<Rightarrow> (w, Inl ErrUnitNotFound)
   | Some u \<Rightarrow>
       if InMotion u then (w, Inl ErrUnitExiting)
       else (let w1 = with_linked k (Reposition p (u_body u)) w in (w1, Inr (snapshot_of w1 k))))"

definition ApplyControlledInteractionStep ::
  "ident \<Rightarrow> point \<Rightarrow> control \<Rightarrow> world_state \<Rightarrow> world_state \<times> world_error option" where
  "ApplyControlledInteractionStep k p c w = (case unit_of w k of
     None \<Rightarrow> (w, Some ErrUnitNotFound)
   | Some u \<Rightarrow>
       if \<not> Adjacent (pos_point (u_position u)) p then (w, Some (PathError ErrInvalidGoal))
       else (case resolver_TopSection (w_resolver w) p of
           Inl e \<Rightarrow> (w, Some (SurfaceError e))
         | Inr sec \<Rightarrow> (assignLinkedPath k (one_step_path p (sec_z sec)) c w, None)))"

definition on_unit :: "ident \<Rightarrow> (room_unit \<Rightarrow> room_unit) \<Rightarrow> world_state \<Rightarrow> world_state \<times> unit_snapshot option" where
  "on_unit k f w = (case unit_of w k of None \<Rightarrow> (w, None)
     | Some _ \<Rightarrow> (let w1 = change k f w in (w1, snapshot_of w1 k)))"

definition setUnitIdleAt :: "ident \<Rightarrow> bool \<Rightarrow> bool \<Rightarrow> int \<Rightarrow> world_state \<Rightarrow> world_state \<times> unit_snapshot option" where
  "setUnitIdleAt k idle manual at w = on_unit k (\<lambda>u.
     (let u1 = (if manual then SetManualIdleAt idle at u else SetIdleAt idle at u)
      in if idle then ClearStatus StatusDance u1 else u1)) w"

definition SetUnitIdleAt :: "ident \<Rightarrow> bool \<Rightarrow> int \<Rightarrow> world_state \<Rightarrow> world_state \<times> unit_snapshot option" where
  "SetUnitIdleAt k idle at w = setUnitIdleAt k idle False at w"

definition SetUnitManualIdleAt :: "ident \<Rightarrow> bool \<Rightarrow> int \<Rightarrow> world_state \<Rightarrow> world_state \<times> unit_snapshot option" where
  "SetUnitManualIdleAt k idle at w = setUnitIdleAt k idle idle at w"

definition SetUnitPosture :: "ident \<Rightarrow> bool \<Rightarrow> world_state \<Rightarrow> world_state \<times> unit_snapshot option" where
  "SetUnitPosture k sitting w = (case unit_of w k of
     None \<Rightarrow> (w, None)
   | Some u \<Rightarrow> if Moving u then (w, None) else on_unit k (SetFloorPosture sitting) (releaseSlot k w))"

definition SetUnitDance :: "ident \<Rightarrow> i32 \<Rightarrow> world_state \<Rightarrow> world_state \<times> unit_snapshot option" where
  "SetUnitDance k dance w = (case unit_of w k of
     None \<Rightarrow> (w, None)
   | Some _ \<Rightarrow> on_unit k (\<lambda>u.
       (let u1 = ClearStatus StatusDance (StandUp u)
        in if sint dance > 0 then SetStatus StatusDance (int_dec (sint dance)) u1 else u1)) (releaseSlot k w))"

definition SetUnitEffect :: "ident \<Rightarrow> i32 \<Rightarrow> world_state \<Rightarrow> world_state \<times> unit_snapshot option" where
  "SetUnitEffect k e w = on_unit k (SetActiveEffect e) w"

definition world_SetHandItem :: "ident \<Rightarrow> i32 \<Rightarrow> world_state \<Rightarrow> world_state \<times> (world_error + unit_snapshot option)" where
  "world_SetHandItem k i w = (case unit_of w k of None \<Rightarrow> (w, Inl ErrUnitNotFound)
     | Some _ \<Rightarrow> (let w1 = change k (SetHandItem i) w in (w1, Inr (snapshot_of w1 k))))"

definition world_StopMovement :: "ident \<Rightarrow> world_state \<Rightarrow> world_state \<times> (world_error + bool)" where
  "world_StopMovement k w = (case unit_of w k of
     None \<Rightarrow> (w, Inl ErrUnitNotFound)
   | Some u \<Rightarrow>
       (let w1 = change k (\<lambda>u. fst (StopMovement u)) w; stopped = snd (StopMovement u)
        in case linkedKey w1 k of
             None \<Rightarrow> (w1, Inr stopped)
           | Some l \<Rightarrow> (case unit_of w1 l of
               None \<Rightarrow> (w1, Inr stopped)
             | Some v \<Rightarrow> (change l (\<lambda>u. fst (StopMovement u)) w1, Inr (snd (StopMovement v) \<or> stopped)))))"

definition SetUnitControl ::
  "ident \<Rightarrow> control \<Rightarrow> world_state \<Rightarrow> world_state \<times> (world_error + unit_snapshot option)" where
  "SetUnitControl k c w = (case unit_of w k of None \<Rightarrow> (w, Inl ErrUnitNotFound)
     | Some _ \<Rightarrow> (let w1 = with_linked k (\<lambda>u. SetControl c (ClearPath u)) w in (w1, Inr (snapshot_of w1 k))))"

definition ReleaseControl :: "ident \<Rightarrow> world_state \<Rightarrow> world_state \<times> (world_error + unit_snapshot option)" where
  "ReleaseControl k w = SetUnitControl k ControlNone w"

definition SetUnitStatus :: "ident \<Rightarrow> string \<Rightarrow> string \<Rightarrow> world_state \<Rightarrow> world_state \<times> bool" where
  "SetUnitStatus k key v w = (case unit_of w k of None \<Rightarrow> (w, False)
     | Some _ \<Rightarrow> (change k (SetStatus key v) w, True))"

definition ClearUnitStatus :: "ident \<Rightarrow> string \<Rightarrow> world_state \<Rightarrow> world_state \<times> bool" where
  "ClearUnitStatus k key w = (case unit_of w k of None \<Rightarrow> (w, False)
     | Some _ \<Rightarrow> (change k (ClearStatus key) w, True))"

definition PulseUnitStatus :: "ident \<Rightarrow> string \<Rightarrow> string \<Rightarrow> world_state \<Rightarrow> world_state \<times> unit_snapshot option" where
  "PulseUnitStatus k key v w = (case unit_of w k of None \<Rightarrow> (w, None)
     | Some _ \<Rightarrow> (let w1 = change k (SetStatus key v) w
         in (change k (ClearStatus key) w1, snapshot_of w1 k)))"

subsection \<open>Furniture\<close>

definition furniture_of :: "world_state \<Rightarrow> ident \<Rightarrow> item option" where
  "furniture_of w i = map_of (w_furniture w) i"

definition addInteraction :: "item \<Rightarrow> world_state \<Rightarrow> world_state" where
  "addInteraction i w =
     (if \<not> interactive i then w
      else w\<lparr>w_interactions := add_interactions (it_ID i) (item_Footprint i) (w_interactions w)\<rparr>)"

definition removeInteraction :: "item \<Rightarrow> world_state \<Rightarrow> world_state" where
  "removeInteraction i w =
     w\<lparr>w_interactions := fold (\<lambda>p m. if (case m p of None \<Rightarrow> 0 | Some j \<Rightarrow> j) = it_ID i then m(p := None) else m)
       (item_Footprint i) (w_interactions w)\<rparr>"

definition addFurnitureIndexes :: "item \<Rightarrow> world_state \<Rightarrow> world_state" where
  "addFurnitureIndexes i w =
     (let w1 = w\<lparr>w_furnitureTiles := add_tiles (it_ID i) (item_Footprint i) (w_furnitureTiles w)\<rparr>;
          t = fd_InteractionType (it_Definition i)
      in if t = '''' then w1
         else w1\<lparr>w_interactionTypes := (w_interactionTypes w1)(t := w_interactionTypes w1 t @ [it_ID i])\<rparr>)"

definition removeFurnitureIndexes :: "item \<Rightarrow> world_state \<Rightarrow> world_state" where
  "removeFurnitureIndexes i w =
     (let t = fd_InteractionType (it_Definition i)
      in w\<lparr>w_furnitureTiles := fold (\<lambda>p m. m(p := remove1 (it_ID i) (m p))) (item_Footprint i) (w_furnitureTiles w),
           w_interactionTypes := (w_interactionTypes w)(t := remove1 (it_ID i) (w_interactionTypes w t))\<rparr>)"

definition unitStatusFor :: "string \<Rightarrow> string" where
  "unitStatusFor st = (if st = SlotStatusLay then StatusLay else StatusSit)"

definition reconcile_slot ::
  "slot list \<Rightarrow> item option \<Rightarrow> slot \<Rightarrow> world_state \<times> unit_snapshot option list \<Rightarrow> world_state \<times> unit_snapshot option list" where
  "reconcile_slot updated i prev a = (case a of (w, affected) \<Rightarrow>
     (case w_slotOccupants w (sl_Point prev) of
        None \<Rightarrow> (w, affected)
      | Some k \<Rightarrow> (case unit_of w k of
          None \<Rightarrow> (w, affected)
        | Some u \<Rightarrow> (case (find (\<lambda>s. sl_Point s = sl_Point prev) updated, i) of
            (Some s, Some it) \<Rightarrow>
              (let w1 = change k (Settle (unitStatusFor (sl_Status s)) (height_String (sl_Z s - it_Z it))
                     (sl_Body s) (sl_Body s)) w
               in (w1, affected @ [snapshot_of w1 k]))
          | _ \<Rightarrow>
              (let w1 = change k StandUp (releaseSlot k w);
                   w2 = (case resolver_TopSection (w_resolver w1) (sl_Point prev) of
                       Inl _ \<Rightarrow> w1 | Inr sec \<Rightarrow> change k (SetHeight (sec_z sec)) w1)
               in (w2, affected @ [snapshot_of w2 k]))))))"

definition reconcileSlotOccupants ::
  "slot list \<Rightarrow> item option \<Rightarrow> world_state \<Rightarrow> world_state \<times> unit_snapshot option list" where
  "reconcileSlotOccupants previous i w =
     (let updated = (case i of None \<Rightarrow> [] | Some it \<Rightarrow> Slots it)
      in fold (reconcile_slot updated i) previous (w, []))"

definition ReloadFixtures :: "ident \<Rightarrow> fixture list \<Rightarrow> world_state \<Rightarrow> world_state \<times> surface_error option" where
  "ReloadFixtures sid fs w = (case ReplaceFixtures (w_resolver w) sid fs of
     (r, e) \<Rightarrow> (w\<lparr>w_resolver := r\<rparr>, e))"

definition ReloadFurniture ::
  "ident \<Rightarrow> item option \<Rightarrow> world_state \<Rightarrow> world_state \<times> (surface_error + unit_snapshot option list)" where
  "ReloadFurniture sid i w =
     (case (case i of None \<Rightarrow> Inr [] | Some it \<Rightarrow> Fixtures it) of
        Inl e \<Rightarrow> (w, Inl e)
      | Inr fs \<Rightarrow> (case ReplaceFixtures (w_resolver w) sid fs of
          (r, Some e) \<Rightarrow> (w\<lparr>w_resolver := r\<rparr>, Inl e)
        | (r, None) \<Rightarrow>
            (let w1 = w\<lparr>w_resolver := r,
                   w_furniture := (case i of Some it \<Rightarrow> AList.update sid it (w_furniture w)
                     | None \<Rightarrow> AList.delete sid (w_furniture w))\<rparr>;
                 w2 = (case furniture_of w sid of None \<Rightarrow> w1
                     | Some prev \<Rightarrow> removeFurnitureIndexes prev (removeInteraction prev w1));
                 w3 = (case i of None \<Rightarrow> w2 | Some it \<Rightarrow> addFurnitureIndexes it (addInteraction it w2))
             in case furniture_of w sid of
                  None \<Rightarrow> (w3, Inr [])
                | Some prev \<Rightarrow> (case reconcileSlotOccupants (Slots prev) i w3 of (w4, us) \<Rightarrow> (w4, Inr us)))))"

definition topExcludingSource :: "column \<Rightarrow> ident \<Rightarrow> tsection option" where
  "topExcludingSource c sid = find (\<lambda>s. sec_sourceID s \<noteq> sid) (rev (Sections c))"

definition unitPositionsExcludingSource :: "world_state \<Rightarrow> ident \<Rightarrow> point list" where
  "unitPositionsExcludingSource w sid =
     (let own = (case furniture_of w sid of None \<Rightarrow> [] | Some i \<Rightarrow> map sl_Point (Slots i))
      in map (\<lambda>(k, u). pos_point (u_position u)) (filter (\<lambda>(k, u).
           \<not> (pos_point (u_position u) \<in> set own \<and>
              w_slotOccupants w (pos_point (u_position u)) = Some k)) (w_units w)))"

fun placement_loop :: "world_state \<Rightarrow> ident \<Rightarrow> point list \<Rightarrow> height \<Rightarrow> point list \<Rightarrow> world_error + height" where
  "placement_loop w sid occupied h [] = Inr h"
| "placement_loop w sid occupied h (p # ps) =
     (if p \<in> set occupied then Inl ErrTileOccupied
      else (case HeightAt (w_grid w) p of
        None \<Rightarrow> Inl ErrInvalidPlacement
      | Some base \<Rightarrow> (case resolver_Column (w_resolver w) p of
          Inl _ \<Rightarrow> Inl ErrInvalidPlacement
        | Inr c \<Rightarrow> (case topExcludingSource c sid of
            None \<Rightarrow> placement_loop w sid occupied (if sint base > sint h then base else h) ps
          | Some s \<Rightarrow>
              if \<not> sec_stacking s then Inl ErrCannotStack
              else placement_loop w sid occupied (if sint (sec_top s) > sint h then sec_top s else h) ps))))"

definition ResolveFurniturePlacement :: "world_state \<Rightarrow> ident \<Rightarrow> point list \<Rightarrow> world_error + height" where
  "ResolveFurniturePlacement w sid footprint =
     placement_loop w sid (unitPositionsExcludingSource w sid) 0 footprint"

definition footprintsOverlap :: "item \<Rightarrow> item \<Rightarrow> bool" where
  "footprintsOverlap a b =
     (let (aw, al) = Dimensions (fd_Width (it_Definition a)) (fd_Length (it_Definition a)) (it_Rotation a);
          (bw, bl) = Dimensions (fd_Width (it_Definition b)) (fd_Length (it_Definition b)) (it_Rotation b);
          ax = uint (px (it_Point a)); ay = uint (py (it_Point a));
          bx = uint (px (it_Point b)); by' = uint (py (it_Point b))
      in ax < bx + bw \<and> ax + aw > bx \<and> ay < by' + bl \<and> ay + al > by')"

definition CanChangeFurnitureHeight :: "world_state \<Rightarrow> ident \<Rightarrow> bool" where
  "CanChangeFurnitureHeight w i = (case furniture_of w i of
     None \<Rightarrow> False
   | Some it \<Rightarrow> \<not> list_ex (\<lambda>(j, other). j \<noteq> i \<and> \<not> sint (it_Z other) < sint (item_Top it) \<and>
       footprintsOverlap it other) (w_furniture w))"

definition in_footprint :: "item \<Rightarrow> point \<Rightarrow> bool" where
  "in_footprint i p =
     (let (wd, len) = Dimensions (fd_Width (it_Definition i)) (fd_Length (it_Definition i)) (it_Rotation i);
          minX = uint (px (it_Point i)); minY = uint (py (it_Point i)); x = uint (px p); y = uint (py p)
      in \<not> (x < minX \<or> x \<ge> minX + wd \<or> y < minY \<or> y \<ge> minY + len))"

definition resettle_unit ::
  "item \<Rightarrow> ident \<Rightarrow> world_state \<times> unit_snapshot option list \<Rightarrow> world_state \<times> unit_snapshot option list" where
  "resettle_unit i k a = (case a of (w, ss) \<Rightarrow> (case unit_of w k of
     None \<Rightarrow> (w, ss)
   | Some u \<Rightarrow>
       if \<not> in_footprint i (pos_point (u_position u)) then (w, ss)
       else (case resolver_TopSection (w_resolver w) (pos_point (u_position u)) of
           Inl _ \<Rightarrow> (w, ss)
         | Inr sec \<Rightarrow> (let w1 = change k (SetHeight (sec_z sec)) w in (w1, ss @ [snapshot_of w1 k])))))"

definition ResettleFurnitureUnits :: "ident \<Rightarrow> world_state \<Rightarrow> world_state \<times> unit_snapshot option list" where
  "ResettleFurnitureUnits i w = (case furniture_of w i of
     None \<Rightarrow> (w, [])
   | Some it \<Rightarrow> fold (resettle_unit it) (map fst (w_units w)) (w, []))"

definition SetFurnitureExtraData ::
  "(string \<Rightarrow> height option) \<Rightarrow> ident \<Rightarrow> string \<Rightarrow> world_state \<Rightarrow> world_state \<times> item option" where
  "SetFurnitureExtraData units i v w = (case furniture_of w i of
     None \<Rightarrow> (w, None)
   | Some it \<Rightarrow>
       (let it1 = it\<lparr>it_ExtraData := v, it_Definition := (it_Definition it)
              \<lparr>fd_StackHeight := HeightAtState units (it_Definition it) v\<rparr>\<rparr>
        in (w\<lparr>w_furniture := AList.update i it1 (w_furniture w)\<rparr>, Some it1)))"

definition UpdateFurnitureState ::
  "(string \<Rightarrow> height option) \<Rightarrow> ident \<Rightarrow> string \<Rightarrow> bool \<Rightarrow> world_state \<Rightarrow> world_state \<times> (world_error + item)" where
  "UpdateFurnitureState units i v rebuild w = (case furniture_of w i of
     None \<Rightarrow> (w, Inl ErrFurnitureNotFound)
   | Some it \<Rightarrow>
       (let it1 = it\<lparr>it_ExtraData := v, it_Definition := (it_Definition it)
              \<lparr>fd_StackHeight := HeightAtState units (it_Definition it) v\<rparr>\<rparr>
        in if \<not> rebuild then (w\<lparr>w_furniture := AList.update i it1 (w_furniture w)\<rparr>, Inr it1)
           else (case Fixtures it1 of
               Inl e \<Rightarrow> (w, Inl (SurfaceError e))
             | Inr fs \<Rightarrow> (case ReplaceFixtures (w_resolver w) i fs of
                 (r, Some e) \<Rightarrow> (w\<lparr>w_resolver := r\<rparr>, Inl (SurfaceError e))
               | (r, None) \<Rightarrow> (w\<lparr>w_resolver := r, w_furniture := AList.update i it1 (w_furniture w)\<rparr>, Inr it1)))))"

subsection \<open>Queries\<close>

definition Units :: "world_state \<Rightarrow> unit_snapshot option list" where
  "Units w = map (snapshot_of w) (sortedPlayerIDs w)"

definition UnitByID :: "world_state \<Rightarrow> int \<Rightarrow> unit_snapshot option" where
  "UnitByID w uid = (case w_unitKeys w uid of None \<Rightarrow> None | Some k \<Rightarrow> snapshot_of w k)"

definition HasUnitAt :: "world_state \<Rightarrow> point \<Rightarrow> bool" where
  "HasUnitAt w p = list_ex (\<lambda>(_, u). pos_point (u_position u) = p) (w_units w)"

definition FurnitureIDsAt :: "world_state \<Rightarrow> point \<Rightarrow> ident list \<Rightarrow> ident list" where
  "FurnitureIDsAt w p dst = dst @ filter (\<lambda>i. furniture_of w i \<noteq> None) (w_furnitureTiles w p)"

definition FurnitureAt :: "world_state \<Rightarrow> point \<Rightarrow> item list" where
  "FurnitureAt w p = List.map_filter (furniture_of w) (w_furnitureTiles w p)"

definition FurnitureItems :: "world_state \<Rightarrow> item list" where
  "FurnitureItems w = List.map_filter (furniture_of w) (sort (map fst (w_furniture w)))"

definition InteractionAt :: "world_state \<Rightarrow> point \<Rightarrow> item option" where
  "InteractionAt w p = (case w_interactions w p of None \<Rightarrow> None | Some i \<Rightarrow> furniture_of w i)"

definition OtherInteractionAt :: "world_state \<Rightarrow> point \<Rightarrow> ident \<Rightarrow> item option" where
  "OtherInteractionAt w p excluded = map_option snd (find (\<lambda>(i, it). i \<noteq> excluded \<and> it_Point it = p \<and>
     fd_InteractionType (it_Definition it) \<noteq> '''' \<and> fd_InteractionType (it_Definition it) \<noteq> ''default'')
     (w_furniture w))"

definition FurnitureByInteraction :: "world_state \<Rightarrow> string \<Rightarrow> item list" where
  "FurnitureByInteraction w t = sort_key it_ID (ByInteraction (w_interactionTypes w t) (w_furniture w))"

definition NearestFurnitureByInteraction :: "world_state \<Rightarrow> string \<Rightarrow> point \<Rightarrow> int \<Rightarrow> item option" where
  "NearestFurnitureByInteraction w t origin radius =
     Nearest (w_interactionTypes w t) (w_furniture w) origin radius"

definition UnitInFurnitureFootprint :: "world_state \<Rightarrow> item \<Rightarrow> unit_snapshot option" where
  "UnitInFurnitureFootprint w i =
     (case fold (\<lambda>(k, u) best.
        if in_footprint i (pos_point (u_position u)) \<and> (case best of None \<Rightarrow> True | Some b \<Rightarrow> k < b)
        then Some k else best) (w_units w) None of
      None \<Rightarrow> None | Some k \<Rightarrow> snapshot_of w k)"

record tile_height =
  th_Valid :: bool
  th_Height :: height
  th_StackingBlocked :: bool

definition SurfaceHeights :: "world_state \<Rightarrow> u16 \<times> u16 \<times> tile_height list" where
  "SurfaceHeights w = (g_width (w_grid w), g_height (w_grid w),
     concat (map (\<lambda>y. map (\<lambda>x.
       (case resolver_TopSection (w_resolver w) (Point (word_of_nat x) (word_of_nat y)) of
          Inl _ \<Rightarrow> \<lparr>th_Valid = False, th_Height = 0, th_StackingBlocked = False\<rparr>
        | Inr s \<Rightarrow> \<lparr>th_Valid = True, th_Height = sec_z s, th_StackingBlocked = (\<not> sec_stacking s)\<rparr>))
       [0..<unat (g_width (w_grid w))]) [0..<unat (g_height (w_grid w))]))"

definition SlotOccupant :: "world_state \<Rightarrow> ident \<Rightarrow> ident option" where
  "SlotOccupant w i = (case furniture_of w i of
     None \<Rightarrow> None
   | Some it \<Rightarrow> (case find (\<lambda>s. w_slotOccupants w (sl_Point s) \<noteq> None) (Slots it) of
       None \<Rightarrow> None | Some s \<Rightarrow> w_slotOccupants w (sl_Point s)))"

definition UnitMotion :: "world_state \<Rightarrow> ident \<Rightarrow> unit_snapshot option" where
  "UnitMotion w k = map_option (\<lambda>u. (unitSnapshot k u)\<lparr>us_Statuses := [], us_Idle := False,
     us_IdleSince := 0, us_ManualIdle := False\<rparr>) (unit_of w k)"

definition boundedRange :: "int \<Rightarrow> int \<Rightarrow> int \<Rightarrow> int \<times> int" where
  "boundedRange origin radius limit =
     (let mn = origin - radius; mx = origin + radius + 1
      in (if mn < 0 then 0 else mn, if mx > limit then limit else mx))"

text \<open>The reservoir state is the selected tile, the count and the random word.\<close>

definition sample_point ::
  "world_state \<Rightarrow> ident \<Rightarrow> point \<Rightarrow> point \<Rightarrow> point \<times> u64 \<times> u64 \<Rightarrow> point \<times> u64 \<times> u64" where
  "sample_point w k origin p a = (case a of (selected, n, random) \<Rightarrow>
     (if p = origin \<or> pointOccupied w k p then a
      else (case resolver_TopSection (w_resolver w) p of
          Inl _ \<Rightarrow> a
        | Inr sec \<Rightarrow>
            if \<not> AllowsSection sec then a
            else (let n' = n + 1
              in (if random mod n' = 0 then p else selected, n',
                  random * 6364136223846793005 + 1442695040888963407)))))"

definition RandomWalkablePoint :: "world_state \<Rightarrow> ident \<Rightarrow> int \<Rightarrow> u64 \<Rightarrow> point option" where
  "RandomWalkablePoint w k radius random = (case unit_of w k of
     None \<Rightarrow> None
   | Some u \<Rightarrow>
       if radius \<le> 0 then None
       else (let origin = pos_point (u_position u);
                 (minX, maxX) = boundedRange (uint (px origin)) radius (uint (g_width (w_grid w)));
                 (minY, maxY) = boundedRange (uint (py origin)) radius (uint (g_height (w_grid w)));
                 points = concat (map (\<lambda>y. map (\<lambda>x. Point (word_of_int x) (word_of_int y)) [minX..maxX - 1])
                   [minY..maxY - 1])
             in case fold (sample_point w k origin) points (Point 0 0, 0, random) of
                  (selected, n, _) \<Rightarrow> if n > 0 then Some selected else None))"

end
