(* ===== verification/World_Invariant.thy ===== *)
theory World_Invariant
  imports Room_World
begin

text \<open>
  The invariant of the room world and its preservation by every operation of \<^verbatim>\<open>world/runtime\<close>:
  unit identities, slots and mounts stay consistent with the units of the room. The locale
  \<open>link_registry\<close> states what the world needs of \<^verbatim>\<open>mount.State\<close>; it is interpreted on the model.
\<close>

subsection \<open>Mount links\<close>

locale link_registry =
  fixes ok :: "'s \<Rightarrow> bool" and linked :: "'s \<Rightarrow> ident \<Rightarrow> ident option"
    and unlink :: "'s \<Rightarrow> ident \<Rightarrow> 's"
  assumes linked_sym: "ok s \<Longrightarrow> linked s a = Some b \<Longrightarrow> linked s b = Some a"
    and unlink_ok: "ok s \<Longrightarrow> ok (unlink s a)"
    and unlink_linked: "ok s \<Longrightarrow> linked (unlink s a) c =
          (if c = a \<or> linked s a = Some c then None else linked s c)"
begin

lemma linked_unique: "ok s \<Longrightarrow> linked s a = Some c \<Longrightarrow> linked s b = Some c \<Longrightarrow> a = b"
  by (metis linked_sym option.inject)

text \<open>Once unlinked, no unit follows the removed one any more, whichever side it was on.\<close>

lemma unlink_isolates: "ok s \<Longrightarrow> linked (unlink s a) c \<noteq> Some a"
proof
  assume ok: "ok s" and l: "linked (unlink s a) c = Some a"
  from linked_sym [OF unlink_ok [OF ok] l] have "linked (unlink s a) a = Some c" .
  then show False using unlink_linked [OF ok] by simp
qed

lemma unlink_idem: "ok s \<Longrightarrow> linked (unlink (unlink s a) a) c = linked (unlink s a) c"
  by (simp add: unlink_linked unlink_ok)

end

definition mount_ok :: "mount_state \<Rightarrow> bool" where
  "mount_ok ms \<longleftrightarrow> (\<forall>r m. ms_mounts ms r = Some m \<longleftrightarrow> ms_riders ms m = Some r) \<and>
     dom (ms_mounts ms) \<inter> dom (ms_riders ms) = {}"

definition unlink_keys :: "mount_state \<Rightarrow> ident \<Rightarrow> mount_state" where
  "unlink_keys ms k = (case mount_keys ms k of None \<Rightarrow> ms
     | Some (r, m) \<Rightarrow> \<lparr>ms_mounts = (ms_mounts ms)(r := None), ms_riders = (ms_riders ms)(m := None)\<rparr>)"

lemma mount_Unlink_keys: "fst (mount_Unlink ms us k) = unlink_keys ms k"
  by (auto simp: mount_Unlink_def unlink_keys_def split: option.splits)

lemma mount_ok_links:
  assumes "mount_ok ms"
  shows "ms_mounts ms r = Some m \<longleftrightarrow> ms_riders ms m = Some r"
    and "ms_mounts ms r = Some m \<Longrightarrow> ms_riders ms r = None \<and> ms_mounts ms m = None"
  using assms by (auto simp: mount_ok_def)

lemma mount_keys_Some:
  assumes "mount_ok ms" "mount_keys ms k = Some (r, m)"
  shows "ms_mounts ms r = Some m" "ms_riders ms m = Some r" "k = r \<or> k = m" "r \<noteq> m"
    "ms_mounts ms m = None" "ms_riders ms r = None"
proof -
  have "ms_mounts ms r = Some m \<and> (k = r \<or> k = m)"
  proof (cases "ms_mounts ms k")
    case None
    then have "ms_riders ms m = Some r \<and> k = m" using assms(2) by (auto simp: mount_keys_def split: option.splits)
    then show ?thesis using mount_ok_links(1) [OF assms(1)] by blast
  qed (use assms(2) in \<open>auto simp: mount_keys_def\<close>)
  then show "ms_mounts ms r = Some m" "ms_riders ms m = Some r" "k = r \<or> k = m" "r \<noteq> m"
    "ms_mounts ms m = None" "ms_riders ms r = None"
    using mount_ok_links [OF assms(1)] by fastforce+
qed

lemma mount_keys_None: "mount_keys ms k = None \<longleftrightarrow> ms_mounts ms k = None \<and> ms_riders ms k = None"
  by (simp add: mount_keys_def split: option.splits)

lemma unlink_keys_ok: assumes "mount_ok ms" shows "mount_ok (unlink_keys ms k)"
proof (cases "mount_keys ms k")
  case (Some a)
  then obtain r m where rm: "mount_keys ms k = Some (r, m)" by (cases a) simp
  note facts = mount_keys_Some [OF assms rm]
  have "(((ms_mounts ms)(r := None)) r' = Some m') = (((ms_riders ms)(m := None)) m' = Some r')" for r' m'
    using facts mount_ok_links(1) [OF assms, of r' m'] mount_ok_links(1) [OF assms, of r m']
      mount_ok_links(1) [OF assms, of r' m] by auto
  moreover have "dom ((ms_mounts ms)(r := None)) \<inter> dom ((ms_riders ms)(m := None)) = {}"
    using assms by (auto simp: mount_ok_def)
  ultimately show ?thesis by (simp add: mount_ok_def unlink_keys_def rm)
qed (use assms in \<open>simp add: unlink_keys_def\<close>)

lemma Linked_iff:
  "mount_Linked ms a = Some c \<longleftrightarrow>
     ms_mounts ms a = Some c \<or> ms_mounts ms a = None \<and> ms_riders ms a = Some c"
  by (simp add: mount_Linked_def split: option.splits)

lemma Linked_sym: assumes "mount_ok ms" "mount_Linked ms a = Some b" shows "mount_Linked ms b = Some a"
  using assms mount_ok_links [OF assms(1)] unfolding Linked_iff by blast

lemma Linked_unlink:
  assumes ok: "mount_ok ms"
  shows "mount_Linked (unlink_keys ms a) c =
    (if c = a \<or> mount_Linked ms a = Some c then None else mount_Linked ms c)"
proof (cases "mount_keys ms a")
  case None
  then have "mount_Linked ms a = None" by (simp add: mount_Linked_def mount_keys_None)
  with None show ?thesis by (auto simp: unlink_keys_def)
next
  case (Some x)
  then obtain r m where rm: "mount_keys ms a = Some (r, m)" by (cases x) simp
  note facts = mount_keys_Some [OF ok rm]
  have partner: "c = a \<or> mount_Linked ms a = Some c \<longleftrightarrow> c = r \<or> c = m"
    using facts by (auto simp: mount_Linked_def)
  show ?thesis
    unfolding partner using facts by (auto simp: unlink_keys_def rm mount_Linked_def split: option.split)
qed

interpretation mount_links: link_registry mount_ok mount_Linked unlink_keys
  by unfold_locales (auto intro: Linked_sym unlink_keys_ok simp: Linked_unlink)

subsection \<open>The invariant\<close>

definition ids_inv :: "units \<Rightarrow> (int \<rightharpoonup> ident) \<Rightarrow> int \<Rightarrow> bool" where
  "ids_inv us keys nxt \<longleftrightarrow> distinct (map fst us) \<and> 0 < nxt \<and>
     (\<forall>uid k. keys uid = Some k \<longleftrightarrow> (\<exists>u. map_of us k = Some u \<and> u_id u = uid)) \<and>
     (\<forall>k u. map_of us k = Some u \<longrightarrow> 0 < u_id u \<and> u_id u < nxt \<and> unit_inv u)"

definition slots_inv :: "units \<Rightarrow> (ident \<rightharpoonup> point) \<Rightarrow> (point \<rightharpoonup> ident) \<Rightarrow> bool" where
  "slots_inv us slots occ \<longleftrightarrow> (\<forall>p k. occ p = Some k \<longrightarrow> slots k = Some p) \<and>
     (\<forall>k p. slots k = Some p \<longrightarrow> map_of us k \<noteq> None)"

definition mounts_inv :: "units \<Rightarrow> mount_state \<Rightarrow> bool" where
  "mounts_inv us ms \<longleftrightarrow> mount_ok ms \<and> (\<forall>r m. ms_mounts ms r = Some m \<longrightarrow>
     (\<exists>u v. map_of us r = Some u \<and> map_of us m = Some v \<and> u_kind u = KindPlayer \<and> u_kind v = KindPet))"

definition world_inv :: "world_state \<Rightarrow> bool" where
  "world_inv w \<longleftrightarrow> ids_inv (w_units w) (w_unitKeys w) (w_nextUnitID w) \<and>
     slots_inv (w_units w) (w_unitSlots w) (w_slotOccupants w) \<and> mounts_inv (w_units w) (w_mounts w)"

text \<open>What an operation may do to one unit: everything but its identity and its kind.\<close>

definition keeps :: "room_unit \<Rightarrow> room_unit \<Rightarrow> bool" where
  "keeps u u' \<longleftrightarrow> u_id u' = u_id u \<and> u_kind u' = u_kind u \<and> (unit_inv u \<longrightarrow> unit_inv u')"

lemma keeps_refl [simp]: "keeps u u"
  by (simp add: keeps_def)

lemma keeps_trans: "keeps u v \<Longrightarrow> keeps v x \<Longrightarrow> keeps u x"
  by (simp add: keeps_def)

lemma keeps_op: "keeps u (unit_op_run op u)"
proof -
  have "u_id (unit_op_run op u) = u_id u \<and> u_kind (unit_op_run op u) = u_kind u"
    by (cases op) (auto simp: unit_ops InMotion_def)
  then show ?thesis using unit_op_inv by (simp add: keeps_def)
qed

lemmas keeps_ops = keeps_op [of _ "OpSetPath p" for p, simplified] keeps_op [of _ OpClearPath, simplified]
  keeps_op [of _ OpStopMovement, simplified] keeps_op [of _ OpAdvance, simplified]
  keeps_op [of _ "OpSettle k v b h" for k v b h, simplified]
  keeps_op [of _ "OpReposition p r" for p r, simplified]
  keeps_op [of _ "OpSetStatus k v" for k v, simplified] keeps_op [of _ "OpClearStatus k" for k, simplified]
  keeps_op [of _ OpStandUp, simplified] keeps_op [of _ "OpFloorPosture b" for b, simplified]
  keeps_op [of _ "OpIdle b t" for b t, simplified] keeps_op [of _ "OpManualIdle b t" for b t, simplified]
  keeps_op [of _ "OpEffect e" for e, simplified] keeps_op [of _ "OpHeight z" for z, simplified]
  keeps_op [of _ "OpHandItem i" for i, simplified] keeps_op [of _ "OpRenderOffset h" for h, simplified]
  keeps_op [of _ "OpControl c" for c, simplified] keeps_op [of _ "OpFace p" for p, simplified]

lemma map_of_mutate:
  "map_of (mutate k f us) j = (if j = k then map_option f (map_of us k) else map_of us j)"
  by (auto simp: mutate_def update_conv' split: option.splits)

lemma distinct_mutate: "distinct (map fst us) \<Longrightarrow> distinct (map fst (mutate k f us))"
  by (simp add: mutate_def distinct_update split: option.splits)

lemma mutate_id: "map_of us k = None \<Longrightarrow> mutate k f us = us"
  by (simp add: mutate_def)

lemma mutate_inv:
  assumes "\<And>u. map_of us k = Some u \<Longrightarrow> keeps u (f u)"
  shows "ids_inv us keys nxt \<Longrightarrow> ids_inv (mutate k f us) keys nxt"
    and "slots_inv us slots occ \<Longrightarrow> slots_inv (mutate k f us) slots occ"
    and "mounts_inv us ms \<Longrightarrow> mounts_inv (mutate k f us) ms"
proof -
  show "ids_inv us keys nxt \<Longrightarrow> ids_inv (mutate k f us) keys nxt"
  proof -
    assume inv: "ids_inv us keys nxt"
    show ?thesis
    proof (cases "map_of us k")
      case None
      with inv show ?thesis by (simp add: mutate_id)
    next
      case (Some u)
      with inv assms [OF Some] show ?thesis
        by (auto simp: ids_inv_def map_of_mutate distinct_mutate keeps_def simp del: map_of_eq_Some_iff)
    qed
  qed
  show "slots_inv us slots occ \<Longrightarrow> slots_inv (mutate k f us) slots occ"
    by (auto simp: slots_inv_def map_of_mutate)
  show "mounts_inv us ms \<Longrightarrow> mounts_inv (mutate k f us) ms"
    using assms by (fastforce simp: mounts_inv_def map_of_mutate keeps_def)
qed

lemma change_inv:
  assumes "world_inv w" and "\<And>u. unit_of w k = Some u \<Longrightarrow> keeps u (f u)"
  shows "world_inv (change k f w)"
  using assms mutate_inv [of "w_units w" k f] by (simp add: world_inv_def change_def unit_of_def)

lemma unit_of_change: "unit_of (change k f w) j = (if j = k then map_option f (unit_of w k) else unit_of w j)"
  by (simp add: unit_of_def change_def map_of_mutate)

lemma releaseSlot_inv: "world_inv w \<Longrightarrow> world_inv (releaseSlot k w)"
  by (auto simp: world_inv_def releaseSlot_def slots_inv_def split: option.splits) 

lemma unit_of_releaseSlot [simp]: "unit_of (releaseSlot k w) j = unit_of w j"
  by (simp add: releaseSlot_def unit_of_def split: option.splits)

lemma occupySlot_inv:
  assumes "world_inv w" "unit_of w k \<noteq> None" shows "world_inv (occupySlot k p w)"
proof -
  let ?w = "releaseSlot k w"
  have inv: "world_inv ?w" using assms(1) by (rule releaseSlot_inv)
  have none: "w_unitSlots ?w k = None" by (simp add: releaseSlot_def split: option.splits)
  have "map_of (w_units ?w) k \<noteq> None" using assms(2) unit_of_releaseSlot [of k w k] by (simp add: unit_of_def)
  with inv none show ?thesis
    by (auto simp: world_inv_def occupySlot_def Let_def slots_inv_def)
qed

lemma mutate_world_inv:
  assumes "world_inv w" and "\<And>u. map_of (w_units w) k = Some u \<Longrightarrow> keeps u (f u)"
  shows "world_inv (w\<lparr>w_units := mutate k f (w_units w)\<rparr>)"
  using change_inv [of w k f] assms by (simp add: change_def unit_of_def)

lemma unlinkMount_cases:
  "unlinkMount k w = (case mount_keys (w_mounts w) k of None \<Rightarrow> w
     | Some (r, m) \<Rightarrow> (change m (\<lambda>u. SetControl ControlNone (fst (StopMovement u)))
         (change r (\<lambda>u. SetControl ControlNone (SetRenderOffset 0 (fst (StopMovement u)))) w))
         \<lparr>w_mounts := unlink_keys (w_mounts w) k\<rparr>)"
  by (auto simp: unlinkMount_def mount_Unlink_def unlink_keys_def change_def split: option.splits prod.splits)

lemma keeps_comp: "keeps u v \<Longrightarrow> keeps v (f v) \<Longrightarrow> keeps u (f v)"
  by (rule keeps_trans)

lemma mounts_unlink_inv: "mounts_inv us ms \<Longrightarrow> mounts_inv us (unlink_keys ms k)"
  using unlink_keys_ok [of ms k]
  by (auto simp: mounts_inv_def unlink_keys_def split: option.splits prod.splits if_splits)

lemma set_mounts_inv:
  "world_inv w \<Longrightarrow> mounts_inv (w_units w) ms \<Longrightarrow> world_inv (w\<lparr>w_mounts := ms\<rparr>)"
  by (simp add: world_inv_def)

lemma unlinkMount_inv: assumes "world_inv w" shows "world_inv (unlinkMount k w)"
proof (cases "mount_keys (w_mounts w) k")
  case None
  then show ?thesis using assms by (simp add: unlinkMount_cases)
next
  case (Some a)
  then obtain r m where rm: "mount_keys (w_mounts w) k = Some (r, m)" by (cases a) simp
  let ?w1 = "change r (\<lambda>u. SetControl ControlNone (SetRenderOffset 0 (fst (StopMovement u)))) w"
  let ?w2 = "change m (\<lambda>u. SetControl ControlNone (fst (StopMovement u))) ?w1"
  have keep: "keeps u (SetControl ControlNone (SetRenderOffset 0 (fst (StopMovement u))))"
    "keeps u (SetControl ControlNone (fst (StopMovement u)))" for u
    by (meson keeps_ops keeps_trans)+
  have "world_inv ?w2" using assms keep by (intro change_inv)
  moreover have "w_mounts ?w2 = w_mounts w" by (simp add: change_def)
  ultimately show ?thesis
    by (auto simp: unlinkMount_cases rm world_inv_def intro: mounts_unlink_inv)
qed

lemma unlinkMount_frame:
  "w_mounts (unlinkMount k w) = unlink_keys (w_mounts w) k"
  "w_unitKeys (unlinkMount k w) = w_unitKeys w"
  "w_unitSlots (unlinkMount k w) = w_unitSlots w"
  "map_option u_id (unit_of (unlinkMount k w) j) = map_option u_id (unit_of w j)"
proof -
  have id: "u_id (SetControl c (SetRenderOffset h (fst (StopMovement u)))) = u_id u"
    "u_id (SetControl c (fst (StopMovement u))) = u_id u" for c h u
    by (simp_all add: SetControl_def SetRenderOffset_def StopMovement_def)
  show "w_mounts (unlinkMount k w) = unlink_keys (w_mounts w) k"
    "w_unitKeys (unlinkMount k w) = w_unitKeys w"
    "w_unitSlots (unlinkMount k w) = w_unitSlots w"
    by (auto simp: unlinkMount_cases unlink_keys_def change_def split: option.splits)
  show "map_option u_id (unit_of (unlinkMount k w) j) = map_option u_id (unit_of w j)"
    by (auto simp: unlinkMount_cases unit_of_def change_def map_of_mutate option.map_comp comp_def id
        split: option.splits)
qed

lemma releaseSlot_frame [simp]:
  "w_mounts (releaseSlot k w) = w_mounts w" "w_unitKeys (releaseSlot k w) = w_unitKeys w"
  "w_units (releaseSlot k w) = w_units w" "w_unitSlots (releaseSlot k w) k = None"
  by (auto simp: releaseSlot_def split: option.splits)

text \<open>Adding and removing a unit.\<close>

lemma unit_New_fields:
  "unit_New p = Inr u \<Longrightarrow> u_id u = up_id p \<and> u_kind u = up_kind p \<and> 0 < u_id u \<and> unit_inv u"
  using unit_New_inv by (fastforce simp: unit_New_def split: if_splits)

lemma add_unit_inv:
  assumes inv: "world_inv w" and new: "unit_of w k = None"
    and u: "u_id u = w_nextUnitID w" "0 < u_id u" "unit_inv u"
  shows "world_inv (add_unit k u w)"
proof -
  let ?us = "AList.update k u (w_units w)"
  have lookup: "map_of ?us = (map_of (w_units w))(k \<mapsto> u)" by (simp add: update_conv')
  have none: "map_of (w_units w) k = None" using new by (simp add: unit_of_def)
  have fresh: "u_id v \<noteq> w_nextUnitID w" if "map_of (w_units w) j = Some v" for j v
    using inv that unfolding world_inv_def ids_inv_def by (metis less_irrefl)
  have "ids_inv ?us ((w_unitKeys w)(u_id u \<mapsto> k)) (w_nextUnitID w + 1)"
    unfolding ids_inv_def
  proof (intro conjI allI impI)
    show "distinct (map fst ?us)" using inv by (simp add: world_inv_def ids_inv_def distinct_update)
    show "0 < w_nextUnitID w + 1" using inv by (simp add: world_inv_def ids_inv_def)
    show "(((w_unitKeys w)(u_id u \<mapsto> k)) uid = Some j) = (\<exists>v. map_of ?us j = Some v \<and> u_id v = uid)" for uid j
      unfolding lookup using inv none u(1) fresh
      by (auto simp: world_inv_def ids_inv_def simp del: map_of_eq_Some_iff)
    show "0 < u_id v" "u_id v < w_nextUnitID w + 1" "unit_inv v" if "map_of ?us j = Some v" for j v
      using inv that u unfolding lookup
      by (force simp: world_inv_def ids_inv_def simp del: map_of_eq_Some_iff split: if_splits)+
  qed
  moreover have "slots_inv ?us (w_unitSlots w) (w_slotOccupants w)"
    using inv by (auto simp: world_inv_def slots_inv_def lookup)
  moreover have "mounts_inv ?us (w_mounts w)"
    using inv none by (fastforce simp: world_inv_def mounts_inv_def lookup)
  ultimately show ?thesis by (simp add: world_inv_def add_unit_def)
qed

lemma delete_unit_inv:
  assumes inv: "world_inv w" and u: "unit_of w k = Some u"
    and slot: "w_unitSlots w k = None" and link: "mount_Linked (w_mounts w) k = None"
  shows "world_inv (w\<lparr>w_unitKeys := (w_unitKeys w)(u_id u := None), w_units := AList.delete k (w_units w)\<rparr>)"
proof -
  let ?us = "AList.delete k (w_units w)"
  have lookup: "map_of ?us = (map_of (w_units w))(k := None)" by (simp add: delete_conv')
  have uk: "map_of (w_units w) k = Some u" using u by (simp add: unit_of_def)
  have keys: "w_unitKeys w uid = Some j \<longleftrightarrow> (\<exists>v. map_of (w_units w) j = Some v \<and> u_id v = uid)" for uid j
    using inv by (simp add: world_inv_def ids_inv_def)
  have uniq: "j = k" if "map_of (w_units w) j = Some v" "u_id v = u_id u" for j v
    using that keys uk by (metis option.inject)
  have keys': "(((w_unitKeys w)(u_id u := None)) uid = Some j) = (\<exists>v. map_of ?us j = Some v \<and> u_id v = uid)" for uid j
  proof (cases "uid = u_id u")
    case True
    then show ?thesis unfolding lookup using uniq by (auto simp del: map_of_eq_Some_iff)
  next
    case False
    then show ?thesis unfolding lookup using keys [of uid j] uk by (auto simp del: map_of_eq_Some_iff)
  qed
  have "ids_inv ?us ((w_unitKeys w)(u_id u := None)) (w_nextUnitID w)"
    unfolding ids_inv_def using inv keys'
    by (auto simp: world_inv_def ids_inv_def distinct_delete lookup simp del: map_of_eq_Some_iff split: if_splits)
  moreover have "slots_inv ?us (w_unitSlots w) (w_slotOccupants w)"
    using inv slot by (auto simp: world_inv_def slots_inv_def lookup)
  moreover have "ms_mounts (w_mounts w) r = Some m \<Longrightarrow> r \<noteq> k \<and> m \<noteq> k" for r m
    using inv link mount_links.linked_sym [of "w_mounts w" r m]
    by (auto simp: world_inv_def mounts_inv_def Linked_iff mount_Linked_def split: option.splits)
  then have "mounts_inv ?us (w_mounts w)"
    using inv by (fastforce simp: world_inv_def mounts_inv_def lookup)
  ultimately show ?thesis by (simp add: world_inv_def)
qed

lemma RemoveUnit_inv: assumes "world_inv w" shows "world_inv (RemoveUnit k w)"
proof -
  let ?w = "releaseSlot k (unlinkMount k w)"
  have inv: "world_inv ?w" using assms by (intro releaseSlot_inv unlinkMount_inv)
  have ok: "mount_ok (w_mounts w)" using assms by (simp add: world_inv_def mounts_inv_def)
  have link: "mount_Linked (w_mounts ?w) k = None"
    using mount_links.unlink_linked [OF ok] by (simp add: unlinkMount_frame)
  show ?thesis
  proof (cases "unit_of ?w k")
    case None
    then have "AList.delete k (w_units ?w) = w_units ?w"
      by (simp add: unit_of_def delete_id map_of_eq_None_iff)
    then have "RemoveUnit k w = ?w\<lparr>w_units := w_units ?w\<rparr>"
      using None unfolding RemoveUnit_def Let_def by simp
    then show ?thesis using inv by (simp add: world_inv_def)
  next
    case (Some u)
    then have "RemoveUnit k w =
        ?w\<lparr>w_unitKeys := (w_unitKeys ?w)(u_id u := None), w_units := AList.delete k (w_units ?w)\<rparr>"
      unfolding RemoveUnit_def Let_def by simp
    with delete_unit_inv [OF inv Some _ link] show ?thesis by simp
  qed
qed

lemma RemoveEntity_RemoveUnit:
  "fst (RemoveEntity k w) = (case unit_of w k of None \<Rightarrow> w | Some _ \<Rightarrow> RemoveUnit k w)"
proof (cases "unit_of w k")
  case (Some u)
  have "map_option u_id (unit_of (releaseSlot k (unlinkMount k w)) k) = Some (u_id u)"
    using unlinkMount_frame(4) [of k w k] Some by simp
  then show ?thesis using Some by (auto simp: RemoveEntity_def RemoveUnit_def Let_def)
qed (simp add: RemoveEntity_def)

subsection \<open>Preservation, operation by operation\<close>

lemma world_inv_frame:
  assumes "world_inv w" "w_units w' = w_units w" "w_unitKeys w' = w_unitKeys w"
    "w_nextUnitID w' = w_nextUnitID w" "w_unitSlots w' = w_unitSlots w"
    "w_slotOccupants w' = w_slotOccupants w" "w_mounts w' = w_mounts w"
  shows "world_inv w'"
  using assms by (simp add: world_inv_def)

lemma AddUnit_inv: "world_inv w \<Longrightarrow> world_inv (AddUnit k w)"
  using add_unit_inv unit_New_fields
  by (fastforce simp: AddUnit_def split: option.splits sum.splits)

lemma AddEntity_inv: "world_inv w \<Longrightarrow> world_inv (fst (AddEntity k own kind p r w))"
  using add_unit_inv unit_New_fields
  by (fastforce simp: AddEntity_def split: option.splits sum.splits)

lemma RemoveEntity_inv: "world_inv w \<Longrightarrow> world_inv (fst (RemoveEntity k w))"
  by (simp add: RemoveEntity_RemoveUnit RemoveUnit_inv split: option.splits)

lemma ClearUnits_inv: "world_inv w \<Longrightarrow> world_inv (ClearUnits w)"
  by (auto simp: world_inv_def ClearUnits_def ids_inv_def slots_inv_def mounts_inv_def mount_ok_def mount_New_def)

lemma KindPlayer_not_Pet: "KindPlayer \<noteq> KindPet"
  by (simp add: KindPlayer_def KindPet_def)

lemma mount_link_inv:
  assumes inv: "mounts_inv us ms" and u: "map_of us r = Some u" "u_kind u = KindPlayer"
    and v: "map_of us m = Some v" "u_kind v = KindPet"
    and free: "ms_mounts ms r \<in> {None, Some m}" "ms_riders ms m \<in> {None, Some r}"
  shows "mounts_inv us \<lparr>ms_mounts = (ms_mounts ms)(r \<mapsto> m), ms_riders = (ms_riders ms)(m \<mapsto> r)\<rparr>"
proof -
  have ok: "mount_ok ms" using inv by (simp add: mounts_inv_def)
  have kinds: "\<exists>a b. map_of us x = Some a \<and> map_of us y = Some b \<and> u_kind a = KindPlayer \<and> u_kind b = KindPet"
    if "ms_mounts ms x = Some y" for x y using inv that by (simp add: mounts_inv_def)
  have r: "ms_riders ms r = None"
  proof (rule ccontr)
    assume "ms_riders ms r \<noteq> None"
    then obtain x where "ms_mounts ms x = Some r" using mount_ok_links(1) [OF ok] by auto
    with kinds u KindPlayer_not_Pet show False by fastforce
  qed
  have m: "ms_mounts ms m = None"
  proof (rule ccontr)
    assume "ms_mounts ms m \<noteq> None"
    with kinds v KindPlayer_not_Pet show False by fastforce
  qed
  have rm: "r \<noteq> m" using u v KindPlayer_not_Pet by auto
  have links: "(((ms_mounts ms)(r \<mapsto> m)) x = Some y) = (((ms_riders ms)(m \<mapsto> r)) y = Some x)" for x y
    using free mount_ok_links(1) [OF ok, of x y] mount_ok_links(1) [OF ok, of r y] mount_ok_links(1) [OF ok, of x m]
    by auto
  have "dom ((ms_mounts ms)(r \<mapsto> m)) \<inter> dom ((ms_riders ms)(m \<mapsto> r)) = {}"
    using ok r m rm by (auto simp: mount_ok_def)
  then have "mount_ok \<lparr>ms_mounts = (ms_mounts ms)(r \<mapsto> m), ms_riders = (ms_riders ms)(m \<mapsto> r)\<rparr>"
    unfolding mount_ok_def mount_state.simps using links by blast
  moreover have "\<exists>a b. map_of us x = Some a \<and> map_of us y = Some b \<and> u_kind a = KindPlayer \<and> u_kind b = KindPet"
    if "((ms_mounts ms)(r \<mapsto> m)) x = Some y" for x y
    using that kinds u v by (cases "x = r") auto
  ultimately show ?thesis by (simp add: mounts_inv_def)
qed

lemma SetMount_inv: assumes inv: "world_inv w" shows "world_inv (fst (SetMount r m mounted w))"
proof -
  obtain ms us res where set: "mount_Set (w_mounts w) (w_units w) r m mounted = ((ms, us), res)"
    by (metis surj_pair)
  have "world_inv (w\<lparr>w_mounts := ms, w_units := us\<rparr>)"
  proof (cases "(ms, us) = (w_mounts w, w_units w)")
    case True
    then show ?thesis using inv by (simp add: world_inv_def)
  next
    case changed: False
    then obtain u v where u: "map_of (w_units w) r = Some u" "u_kind u = KindPlayer"
      and v: "map_of (w_units w) m = Some v" "u_kind v = KindPet"
      using set by (auto simp: mount_Set_def split: option.splits if_splits)
    show ?thesis
    proof (cases mounted)
      case False
      then have "mount_Unlink (w_mounts w) (w_units w) r = (ms, us)"
        using set changed u v by (auto simp: mount_Set_def split: if_splits)
      then have "w\<lparr>w_mounts := ms, w_units := us\<rparr> = unlinkMount r w"
        by (simp add: unlinkMount_def split: prod.splits)
      with unlinkMount_inv [OF inv] show ?thesis by simp
    next
      case True
      let ?f = "\<lambda>x. SetControl ControlNone (Reposition (u_position v) (u_body v) x)"
      let ?g = "\<lambda>x. SetRenderOffset RidingHeightOffset (?f x)"
      have res: "ms = \<lparr>ms_mounts = (ms_mounts (w_mounts w))(r \<mapsto> m), ms_riders = (ms_riders (w_mounts w))(m \<mapsto> r)\<rparr>"
        "us = mutate r ?g (mutate m ?f (w_units w))"
        and free: "ms_mounts (w_mounts w) r \<in> {None, Some m}" "ms_riders (w_mounts w) m \<in> {None, Some r}"
        using set changed u v True by (auto simp: mount_Set_def split: option.splits if_splits)
      have keep: "keeps x (?f x)" "keeps x (?g x)" for x by (meson keeps_ops keeps_trans)+
      have "mounts_inv (w_units w) ms"
        unfolding res(1) using mount_link_inv inv u v free by (simp add: world_inv_def)
      then have "world_inv (w\<lparr>w_mounts := ms\<rparr>)" using inv by (rule set_mounts_inv [rotated])
      then have "world_inv (change r ?g (change m ?f (w\<lparr>w_mounts := ms\<rparr>)))"
        using keep by (intro change_inv)
      then show ?thesis by (simp add: change_def res(2))
    qed
  qed
  then show ?thesis
    using set by (auto simp: SetMount_def Let_def releaseSlot_inv split: sum.splits bool.splits)
qed

lemma with_linked_inv: "world_inv w \<Longrightarrow> (\<And>u. keeps u (f u)) \<Longrightarrow> world_inv (with_linked k f w)"
  by (auto simp: with_linked_def Let_def intro!: change_inv split: option.splits)

lemma give_path_inv: "world_inv w \<Longrightarrow> world_inv (give_path k p c w)"
  unfolding give_path_def using keeps_ops keeps_trans
  by (intro change_inv releaseSlot_inv) (auto, meson keeps_ops keeps_trans)

lemma assignLinkedPath_inv: "world_inv w \<Longrightarrow> world_inv (assignLinkedPath k p c w)"
  by (auto simp: assignLinkedPath_def Let_def give_path_inv unlinkMount_inv split: option.splits)

lemma ApplyControlledMovement_inv: "world_inv w \<Longrightarrow> world_inv (fst (ApplyControlledMovement k p c w))"
  by (simp add: ApplyControlledMovement_def assignLinkedPath_inv split: option.splits)

lemma repositioned_keeps: "keeps u (repositioned p r c u)"
  unfolding repositioned_def by (meson keeps_ops keeps_trans)

lemma repositionUnit_inv: "world_inv w \<Longrightarrow> world_inv (repositionUnit k pt z r c w)"
  by (auto simp: repositionUnit_def Let_def repositioned_keeps intro!: change_inv releaseSlot_inv
      split: option.splits)

lemma teleportNear_inv: "world_inv w \<Longrightarrow> world_inv (fst (teleportNear k r c ps w))"
  by (induction ps) (simp_all add: repositionUnit_inv Let_def split: sum.splits)

lemma TeleportUnit_inv: "world_inv w \<Longrightarrow> world_inv (fst (TeleportUnit k p r c pol w))"
  by (simp add: TeleportUnit_def Let_def teleportNear_inv repositionUnit_inv split: option.splits sum.splits)

lemma ApplyControlledStep_inv: "world_inv w \<Longrightarrow> world_inv (fst (ApplyControlledStep k p c w))"
  by (simp add: ApplyControlledStep_def ApplyControlledMovement_inv split: option.splits sum.splits)

lemma InteractionStep_inv: "world_inv w \<Longrightarrow> world_inv (fst (ApplyControlledInteractionStep k p c w))"
  by (simp add: ApplyControlledInteractionStep_def assignLinkedPath_inv split: option.splits sum.splits)

lemma FaceTo_inv: "world_inv w \<Longrightarrow> world_inv (fst (FaceTo k p w))"
  by (simp add: FaceTo_def Let_def split: option.splits)
    (auto intro!: with_linked_inv, meson keeps_ops keeps_trans)

lemma settleOnSection_inv:
  assumes "world_inv w" "unit_of w k \<noteq> None"
  shows "world_inv (settleOnSection k p a b sec w)"
  using assms keeps_ops
  by (auto simp: settleOnSection_def intro!: change_inv occupySlot_inv split: option.splits)

lemma settleUnit_inv: "world_inv w \<Longrightarrow> unit_of w k \<noteq> None \<Longrightarrow> world_inv (settleUnit k u w)"
  by (auto simp: settleUnit_def Let_def intro!: settleOnSection_inv split: sum.splits option.splits)

lemma tick_unit_inv: assumes inv: "world_inv w" shows "world_inv (fst (tick_unit k w))"
proof (cases "unit_of w k")
  case (Some u)
  obtain u1 s moved settled where adv: "Advance u = (u1, s, moved, settled)" by (metis surj_pair)
  have "keeps u u1" using keeps_op [of u OpAdvance] adv by simp
  then have inv1: "world_inv (change k (\<lambda>_. u1) w)" using inv Some by (intro change_inv) auto
  have "unit_of (change k (\<lambda>_. u1) w) k \<noteq> None" using Some by (simp add: unit_of_change)
  then show ?thesis
    using Some inv inv1 adv keeps_ops
    by (auto simp: tick_unit_def Let_def intro!: settleUnit_inv change_inv split: sum.splits)
qed (simp add: tick_unit_def inv)

lemma tick_units_inv: "world_inv w \<Longrightarrow> world_inv (fst (tick_units ks w))"
proof (induction ks arbitrary: w)
  case (Cons k ks)
  from Cons.IH [OF tick_unit_inv [OF Cons.prems, of k]] show ?case by (auto split: prod.splits)
qed simp

lemma on_unit_inv: "world_inv w \<Longrightarrow> (\<And>u. keeps u (f u)) \<Longrightarrow> world_inv (fst (on_unit k f w))"
  by (auto simp: on_unit_def Let_def intro!: change_inv split: option.splits)

lemma setUnitIdleAt_inv: "world_inv w \<Longrightarrow> world_inv (fst (setUnitIdleAt k idle manual at w))"
  unfolding setUnitIdleAt_def Let_def
  by (rule on_unit_inv) (auto, (meson keeps_ops keeps_trans)+)

lemma SetUnitPosture_inv: "world_inv w \<Longrightarrow> world_inv (fst (SetUnitPosture k b w))"
  using keeps_ops by (auto simp: SetUnitPosture_def intro!: on_unit_inv releaseSlot_inv split: option.splits)

lemma SetUnitDance_inv: "world_inv w \<Longrightarrow> world_inv (fst (SetUnitDance k d w))"
  unfolding SetUnitDance_def Let_def
  by (auto intro!: on_unit_inv releaseSlot_inv split: option.splits) (meson keeps_ops keeps_trans)+

lemma change_keeps_inv: "world_inv w \<Longrightarrow> (\<And>u. keeps u (f u)) \<Longrightarrow> world_inv (change k f w)"
  by (simp add: change_inv)

lemma StopMovement_inv: "world_inv w \<Longrightarrow> world_inv (fst (world_StopMovement k w))"
  using keeps_ops
  by (auto simp: world_StopMovement_def Let_def intro!: change_keeps_inv split: option.splits)

lemma SetUnitControl_inv: "world_inv w \<Longrightarrow> world_inv (fst (SetUnitControl k c w))"
  by (auto simp: SetUnitControl_def Let_def intro!: with_linked_inv split: option.splits)
    (meson keeps_ops keeps_trans)

lemma RollUnit_inv: "world_inv w \<Longrightarrow> world_inv (fst (RollUnit k p w))"
  using keeps_ops by (auto simp: RollUnit_def Let_def intro!: with_linked_inv split: option.splits)

lemma unit_status_inv:
  "world_inv w \<Longrightarrow> world_inv (fst (SetUnitStatus k key v w))"
  "world_inv w \<Longrightarrow> world_inv (fst (ClearUnitStatus k key w))"
  "world_inv w \<Longrightarrow> world_inv (fst (PulseUnitStatus k key v w))"
  using keeps_ops
  by (auto simp: SetUnitStatus_def ClearUnitStatus_def PulseUnitStatus_def Let_def
      intro!: change_keeps_inv split: option.splits)

lemma reconcile_slot_inv: "world_inv (fst a) \<Longrightarrow> world_inv (fst (reconcile_slot upd i s a))"
  using keeps_ops
  by (auto simp: reconcile_slot_def Let_def intro!: change_keeps_inv releaseSlot_inv
      split: prod.splits option.splits sum.splits)

lemma fold_inv: "P a \<Longrightarrow> (\<And>x a. P a \<Longrightarrow> P (f x a)) \<Longrightarrow> P (fold f xs a)"
  by (induction xs arbitrary: a) auto

lemma reconcile_inv: "world_inv w \<Longrightarrow> world_inv (fst (reconcileSlotOccupants prev i w))"
  unfolding reconcileSlotOccupants_def Let_def
  by (rule fold_inv [of "\<lambda>a. world_inv (fst a)"]) (simp_all add: reconcile_slot_inv)

definition furniture_frame :: "world_state \<Rightarrow> world_state \<Rightarrow> bool" where
  "furniture_frame w w' \<longleftrightarrow> w_units w' = w_units w \<and> w_unitKeys w' = w_unitKeys w \<and>
     w_nextUnitID w' = w_nextUnitID w \<and> w_unitSlots w' = w_unitSlots w \<and>
     w_slotOccupants w' = w_slotOccupants w \<and> w_mounts w' = w_mounts w"

lemma furniture_frame_ops:
  "furniture_frame w (addInteraction i w')  = furniture_frame w w'"
  "furniture_frame w (removeInteraction i w') = furniture_frame w w'"
  "furniture_frame w (addFurnitureIndexes i w') = furniture_frame w w'"
  "furniture_frame w (removeFurnitureIndexes i w') = furniture_frame w w'"
  by (simp_all add: furniture_frame_def addInteraction_def removeInteraction_def
      addFurnitureIndexes_def removeFurnitureIndexes_def Let_def)

lemma furniture_frame_inv: "world_inv w \<Longrightarrow> furniture_frame w w' \<Longrightarrow> world_inv w'"
  by (rule world_inv_frame) (simp_all add: furniture_frame_def)

lemma ReloadFurniture_inv: assumes inv: "world_inv w" shows "world_inv (fst (ReloadFurniture sid i w))"
proof -
  have frame: "furniture_frame w (w\<lparr>w_resolver := r, w_furniture := fs\<rparr>)"
    "furniture_frame w (w\<lparr>w_resolver := r\<rparr>)" for r fs
    by (simp_all add: furniture_frame_def)
  then show ?thesis
    unfolding ReloadFurniture_def Let_def
    using inv furniture_frame_inv [OF inv] reconcile_inv [OF furniture_frame_inv [OF inv]]
    by (auto simp: furniture_frame_ops split: sum.splits prod.splits option.splits)
      (metis fst_conv furniture_frame_ops)+
qed

lemma ReloadFixtures_inv: "world_inv w \<Longrightarrow> world_inv (fst (ReloadFixtures sid fs w))"
  by (simp add: ReloadFixtures_def world_inv_def split: prod.splits)

lemma resettle_inv: "world_inv (fst a) \<Longrightarrow> world_inv (fst (resettle_unit i k a))"
  using keeps_ops
  by (auto simp: resettle_unit_def Let_def intro!: change_keeps_inv
      split: prod.splits option.splits sum.splits)

lemma ResettleFurnitureUnits_inv: "world_inv w \<Longrightarrow> world_inv (fst (ResettleFurnitureUnits i w))"
  by (auto simp: ResettleFurnitureUnits_def intro!: fold_inv [of "\<lambda>a. world_inv (fst a)"] resettle_inv
      split: option.splits)

lemma furniture_state_inv:
  "world_inv w \<Longrightarrow> world_inv (fst (SetFurnitureExtraData units i v w))"
  "world_inv w \<Longrightarrow> world_inv (fst (UpdateFurnitureState units i v rebuild w))"
  by (simp_all add: SetFurnitureExtraData_def UpdateFurnitureState_def Let_def world_inv_def
      split: option.splits sum.splits prod.splits)

subsection \<open>Reachable worlds\<close>

datatype world_op =
    WAddUnit ident | WAddEntity ident int unit_kind position rotation | WRemoveEntity ident
  | WRemoveUnit ident | WClearUnits | WSetMount ident ident bool | WApply ident room_path control
  | WTeleport ident point rotation bool "teleport_policy list" | WStep ident point control
  | WInteractionStep ident point control | WFace ident point | WTick | WRoll ident position
  | WIdle ident bool bool int | WPosture ident bool | WDance ident i32 | WEffect ident i32
  | WHandItem ident i32 | WStop ident | WControl ident control | WSetStatus ident string string
  | WClearStatus ident string | WPulse ident string string | WReloadFixtures ident "fixture list"
  | WReloadFurniture ident "item option" | WResettle ident | WExtraData ident string
  | WState ident string bool

fun world_step :: "(string \<Rightarrow> height option) \<Rightarrow> world_op \<Rightarrow> world_state \<Rightarrow> world_state" where
  "world_step units (WAddUnit k) w = AddUnit k w"
| "world_step units (WAddEntity k own kind p r) w = fst (AddEntity k own kind p r w)"
| "world_step units (WRemoveEntity k) w = fst (RemoveEntity k w)"
| "world_step units (WRemoveUnit k) w = RemoveUnit k w"
| "world_step units WClearUnits w = ClearUnits w"
| "world_step units (WSetMount r m b) w = fst (SetMount r m b w)"
| "world_step units (WApply k p c) w = fst (ApplyControlledMovement k p c w)"
| "world_step units (WTeleport k p r c pol) w = fst (TeleportUnit k p r c pol w)"
| "world_step units (WStep k p c) w = fst (ApplyControlledStep k p c w)"
| "world_step units (WInteractionStep k p c) w = fst (ApplyControlledInteractionStep k p c w)"
| "world_step units (WFace k p) w = fst (FaceTo k p w)"
| "world_step units WTick w = fst (Tick w)"
| "world_step units (WRoll k p) w = fst (RollUnit k p w)"
| "world_step units (WIdle k b m t) w = fst (setUnitIdleAt k b m t w)"
| "world_step units (WPosture k b) w = fst (SetUnitPosture k b w)"
| "world_step units (WDance k d) w = fst (SetUnitDance k d w)"
| "world_step units (WEffect k e) w = fst (SetUnitEffect k e w)"
| "world_step units (WHandItem k i) w = fst (world_SetHandItem k i w)"
| "world_step units (WStop k) w = fst (world_StopMovement k w)"
| "world_step units (WControl k c) w = fst (SetUnitControl k c w)"
| "world_step units (WSetStatus k key v) w = fst (SetUnitStatus k key v w)"
| "world_step units (WClearStatus k key) w = fst (ClearUnitStatus k key w)"
| "world_step units (WPulse k key v) w = fst (PulseUnitStatus k key v w)"
| "world_step units (WReloadFixtures sid fs) w = fst (ReloadFixtures sid fs w)"
| "world_step units (WReloadFurniture sid i) w = fst (ReloadFurniture sid i w)"
| "world_step units (WResettle i) w = fst (ResettleFurnitureUnits i w)"
| "world_step units (WExtraData i v) w = fst (SetFurnitureExtraData units i v w)"
| "world_step units (WState i v b) w = fst (UpdateFurnitureState units i v b w)"

lemmas world_op_inv = AddUnit_inv AddEntity_inv RemoveEntity_inv RemoveUnit_inv ClearUnits_inv
  SetMount_inv ApplyControlledMovement_inv TeleportUnit_inv ApplyControlledStep_inv
  InteractionStep_inv FaceTo_inv tick_units_inv RollUnit_inv setUnitIdleAt_inv SetUnitPosture_inv
  SetUnitDance_inv StopMovement_inv SetUnitControl_inv unit_status_inv ReloadFixtures_inv
  ReloadFurniture_inv ResettleFurnitureUnits_inv furniture_state_inv

lemma world_step_inv: assumes "world_inv w" shows "world_inv (world_step units op w)"
proof (cases op)
  case (WEffect k e)
  then show ?thesis using assms keeps_ops by (auto simp: SetUnitEffect_def intro!: on_unit_inv)
next
  case (WHandItem k i)
  then show ?thesis
    using assms keeps_ops
    by (auto simp: world_SetHandItem_def Let_def intro!: change_keeps_inv split: option.splits)
qed (use assms in \<open>simp_all add: world_op_inv Tick_def\<close>)

lemma world_New_inv: "world_New c = Inr w \<Longrightarrow> world_inv w"
  by (auto simp: world_New_def world_inv_def ids_inv_def slots_inv_def mounts_inv_def mount_ok_def
      mount_New_def split: sum.splits)

lemma reachable_world_inv: "world_New c = Inr w \<Longrightarrow> world_inv (fold (world_step units) ops w)"
  using fold_inv [of world_inv w "world_step units" ops] world_New_inv world_step_inv by blast

end
