(* ===== verification/Path_Correct.thy ===== *)
theory Path_Correct
  imports Path_Finder
begin

text \<open>
  What the path finder of \<^verbatim>\<open>Path_Finder\<close> computes, compared with the graph of legal steps: the
  invariant of the A* loop, and from it that a search over sections placed on their own tiles at
  heights not below the ground always returns, that the path it returns is a legal walk of least
  cost to the goal, and that \<open>ErrNoPath\<close> means that there is no legal walk. The locales state what
  the finder needs of the Go interface \<^verbatim>\<open>path.World\<close>; they are interpreted on the surface resolver.
\<close>

subsection \<open>What the finder needs of a world\<close>

definition in_column :: "tsection \<Rightarrow> column \<Rightarrow> bool" where
  "in_column sec c \<longleftrightarrow> sec \<in> set (each_section c) \<or> TopSection c = Some sec"

definition placed :: "world \<Rightarrow> bool" where
  "placed W \<longleftrightarrow> (\<forall>p c sec. W p = Inr c \<longrightarrow> in_column sec c \<longrightarrow> sec_point sec = p)"

definition level :: "world \<Rightarrow> bool" where
  "level W \<longleftrightarrow> (\<forall>p c sec. W p = Inr c \<longrightarrow> in_column sec c \<longrightarrow> 0 \<le> sint (sec_z sec))"

lemma candidates_in_column: "sec \<in> set (candidates goal p c) \<Longrightarrow> in_column sec c"
  by (auto simp: candidates_def in_column_def split: option.splits if_splits)

lemma entered_cases:
  assumes "sec \<in> set (entered W r oc goal u d)"
  obtains p c where "neighborPoint u d = Some p" "W p = Inr c" "in_column sec c"
    "sec \<in> set (candidates goal p c)" "enterable W r oc u sec" "open_direction W r oc u d"
  using assms candidates_in_column
  by (auto simp: entered_def dest!: sym [of "Some _"] sym [of "Inr _"]
      split: if_splits option.splits sum.splits)

lemma successors_cases:
  assumes "placed W" "level W" and "(b, v) \<in> set (successors W r oc goal u directions)"
  obtains d where "d \<in> set directions" "neighborPoint u d = Some (key_point v)"
    "b = diagonal_step u v" "0 \<le> sint (nk_z v)" "legal_step W r oc goal u v"
proof -
  from assms(3) obtain d sec where d: "d \<in> set directions" "b = dir_diagonal d"
    and sec: "sec \<in> set (entered W r oc goal u d)" "v = section_key sec"
    by (auto simp: successors_def)
  from sec(1) obtain p c where p: "neighborPoint u d = Some p" "W p = Inr c" "in_column sec c"
    by (rule entered_cases)
  then have pt: "sec_point sec = p" "0 \<le> sint (sec_z sec)"
    using assms(1,2) by (auto simp: placed_def level_def)
  then have v: "key_point v = p" "0 \<le> sint (nk_z v)"
    using sec(2) by (auto simp: section_key_def key_point_def)
  have "b = diagonal_step u v"
    using neighbor_diagonal(1) [OF d(1) p(1)] d(2) v(1)
    by (auto simp: diagonal_step_def key_point_def)
  moreover have "legal_step W r oc goal u v"
    using assms(3) by (force simp: successors_legal)
  ultimately show thesis using that d(1) p(1) v by simp
qed

lemma legal_step_cases:
  assumes "placed W" "level W" "legal_step W r oc goal u v"
  obtains d where "d \<in> set directions" "neighborPoint u d = Some (key_point v)"
    "dir_diagonal d = diagonal_step u v" "0 \<le> sint (nk_z v)"
proof -
  from assms(3) obtain b where b: "(b, v) \<in> set (successors W r oc goal u directions)"
    by (auto simp: successors_legal)
  obtain d where "d \<in> set directions" "neighborPoint u d = Some (key_point v)"
    "b = diagonal_step u v" "0 \<le> sint (nk_z v)"
    using successors_cases [OF assms(1,2) b] by blast
  with that neighbor_diagonal(1) [of d u "key_point v"] show thesis
    by (auto simp: diagonal_step_def key_point_def)
qed

subsection \<open>Costs and the heuristic\<close>

abbreviation step_cost :: "node_key \<Rightarrow> node_key \<Rightarrow> int" where
  "step_cost u v \<equiv> movementCost u v (diagonal_step u v)"

lemma height_diff:
  assumes "0 \<le> sint a" "0 \<le> sint b" shows "sint (b - a :: height) = sint b - sint a"
proof -
  have "sint a \<le> 32767" "sint b \<le> 32767" using i16_sint_bounds by simp_all
  with assms show ?thesis
    by (simp add: sint_word_ariths signed_take_bit_int_eq_self)
qed

lemma step_cost_base:
  assumes "0 \<le> sint (nk_z u)" "0 \<le> sint (nk_z v)"
  shows "(if diagonal_step u v then 14 else 10) \<le> step_cost u v"
  using assms by (simp add: movementCost_def DiagonalCost_def CardinalCost_def height_diff)

definition octile :: "int \<Rightarrow> int \<Rightarrow> int" where
  "octile dx dy = 14 * min \<bar>dx\<bar> \<bar>dy\<bar> + 10 * (max \<bar>dx\<bar> \<bar>dy\<bar> - min \<bar>dx\<bar> \<bar>dy\<bar>)"

lemma heuristic_octile:
  "heuristic u goal = octile (uint (px goal) - uint (nk_x u)) (uint (py goal) - uint (nk_y u))"
  by (simp add: heuristic_def octile_def absInt_def DiagonalCost_def CardinalCost_def Let_def
      min_def max_def abs_if)

lemma octile_step:
  assumes "\<bar>ex\<bar> \<le> 1" "\<bar>ey\<bar> \<le> 1"
  shows "octile dx dy \<le> octile (dx - ex) (dy - ey) + (if ex \<noteq> 0 \<and> ey \<noteq> 0 then 14 else 10)"
  using assms unfolding octile_def min_def max_def abs_if by (simp split: if_splits)

lemma heuristic_at_goal: "key_point u = goal \<Longrightarrow> heuristic u goal = 0"
  by (auto simp: heuristic_octile octile_def key_point_def)

lemma heuristic_consistent:
  assumes d: "d \<in> set directions" "neighborPoint u d = Some (key_point v)"
    and z: "0 \<le> sint (nk_z u)" "0 \<le> sint (nk_z v)"
  shows "heuristic u goal \<le> step_cost u v + heuristic v goal"
proof -
  have x: "uint (nk_x v) = uint (nk_x u) + dir_dx d" and y: "uint (nk_y v) = uint (nk_y u) + dir_dy d"
    using neighbor_diagonal(2,3) [OF d] by (simp_all add: key_point_def)
  have e: "\<bar>dir_dx d\<bar> \<le> 1" "\<bar>dir_dy d\<bar> \<le> 1" using d(1) by (auto simp: directions_def)
  have diag: "diagonal_step u v \<longleftrightarrow> dir_dx d \<noteq> 0 \<and> dir_dy d \<noteq> 0"
    using x y by (auto simp: diagonal_step_def word_uint_eq_iff)
  have "heuristic u goal \<le> heuristic v goal + (if diagonal_step u v then 14 else 10)"
    using octile_step [OF e, of "uint (px goal) - uint (nk_x u)" "uint (py goal) - uint (nk_y u)"]
    by (simp add: heuristic_octile x y diag algebra_simps)
  with step_cost_base [OF z] show ?thesis by linarith
qed

lemma legal_walk_heuristic:
  assumes "placed W" "level W"
  shows "legal_walk W r oc goal u vs \<Longrightarrow> 0 \<le> sint (nk_z u) \<Longrightarrow> key_point (last (u # vs)) = goal \<Longrightarrow>
    heuristic u goal \<le> walk_cost u vs"
proof (induction vs arbitrary: u)
  case Nil
  then show ?case by (simp add: heuristic_at_goal)
next
  case (Cons v vs)
  then have "legal_step W r oc goal u v" by simp
  then obtain d where "d \<in> set directions" "neighborPoint u d = Some (key_point v)" "0 \<le> sint (nk_z v)"
    using legal_step_cases [OF assms] by blast
  with heuristic_consistent [of d u v goal] Cons show ?case by fastforce
qed

subsection \<open>The invariant of the search\<close>

definition settled ::
  "(node_key \<Rightarrow> node_key \<Rightarrow> bool) \<Rightarrow> point \<Rightarrow> (node_key \<rightharpoonup> int) \<Rightarrow> node_key \<Rightarrow> int \<Rightarrow> bool" where
  "settled E goal g u y \<longleftrightarrow> key_point u \<noteq> goal \<and>
     (\<forall>v. E u v \<longrightarrow> (\<exists>x. g v = Some x \<and> x \<le> y + step_cost u v))"

definition pending :: "open_node list \<Rightarrow> node_key \<Rightarrow> int \<Rightarrow> bool" where
  "pending q u y \<longleftrightarrow> (\<exists>e\<in>set q. on_key e = u \<and> on_cost e = y)"

definition scored :: "node_key \<Rightarrow> (node_key \<rightharpoonup> int) \<Rightarrow> (node_key \<rightharpoonup> node_key) \<Rightarrow> bool" where
  "scored st g from \<longleftrightarrow> g st = Some 0 \<and> from st = None \<and>
     (\<forall>v x. g v = Some x \<longrightarrow> 0 \<le> x \<and> 0 \<le> sint (nk_z v) \<and> (v = st \<or> from v \<noteq> None)) \<and>
     (\<forall>u v. from v = Some u \<longrightarrow>
        (\<exists>x y. g v = Some x \<and> g u = Some y \<and> y + step_cost u v \<le> x))"

definition queued :: "point \<Rightarrow> (node_key \<rightharpoonup> int) \<Rightarrow> open_node list \<Rightarrow> bool" where
  "queued goal g q \<longleftrightarrow> heap_ordered q \<and>
     (\<forall>e\<in>set q. on_priority e = on_cost e + heuristic (on_key e) goal \<and>
        (\<exists>y. g (on_key e) = Some y \<and> y \<le> on_cost e))"

definition score_inv ::
  "(node_key \<Rightarrow> node_key \<Rightarrow> bool) \<Rightarrow> point \<Rightarrow> node_key \<Rightarrow> node_key set \<Rightarrow> core \<Rightarrow> bool" where
  "score_inv E goal st X t \<longleftrightarrow> (case t of (q, g, from) \<Rightarrow> scored st g from \<and> queued goal g q \<and>
     (\<forall>u y. g u = Some y \<longrightarrow> u \<in> X \<or> pending q u y \<or> settled E goal g u y))"

definition improves :: "(node_key \<rightharpoonup> int) \<Rightarrow> (node_key \<rightharpoonup> int) \<Rightarrow> bool" where
  "improves g g' \<longleftrightarrow> (\<forall>v x. g v = Some x \<longrightarrow> (\<exists>x'\<le>x. g' v = Some x'))"

lemma improves_refl [simp]: "improves g g"
  by (auto simp: improves_def)

lemma improves_trans: "improves g g' \<Longrightarrow> improves g' g'' \<Longrightarrow> improves g g''"
  unfolding improves_def by (meson order_trans)

lemma settled_improves: "settled E goal g u y \<Longrightarrow> improves g g' \<Longrightarrow> settled E goal g' u y"
  unfolding settled_def improves_def by (meson order_trans)

lemma step_cost_pos: "0 \<le> sint (nk_z u) \<Longrightarrow> 0 \<le> sint (nk_z v) \<Longrightarrow> 0 < step_cost u v"
  using step_cost_base [of u v] by (simp split: if_splits)

lemma set_heap_Push: "heap_ordered q \<Longrightarrow> set (heap_Push q n) = insert n (set q)"
  by (metis open_heap.push_entries set_mset_add_mset_insert set_mset_mset)

lemma accept_core_inv:
  assumes inv: "score_inv E goal st {u} (q, g, from)" and cur: "on_key cur = u" "g u = Some (on_cost cur)"
    and z: "0 \<le> sint (nk_z k)" and b: "b = diagonal_step u k"
    and t: "accept_core goal cur b k (q, g, from) = (q', g', from')"
  shows "score_inv E goal st {u} (q', g', from') \<and> g' u = Some (on_cost cur) \<and> improves g g' \<and>
     (\<exists>x. g' k = Some x \<and> x \<le> on_cost cur + step_cost u k)"
proof -
  let ?cost = "on_cost cur + step_cost u k"
  have sc: "scored st g from" and qu: "queued goal g q"
    and rest: "\<And>u' y. g u' = Some y \<Longrightarrow> u' \<in> {u} \<or> pending q u' y \<or> settled E goal g u' y"
    using inv by (simp_all add: score_inv_def)
  have u: "0 \<le> on_cost cur" "0 \<le> sint (nk_z u)" using sc cur by (auto simp: scored_def)
  then have pos: "on_cost cur < ?cost" using step_cost_pos z by simp
  show ?thesis
  proof (cases "\<exists>best. g k = Some best \<and> best \<le> ?cost")
    case True
    then have "q' = q" "g' = g" "from' = from" using t cur b by (auto simp: accept_core_def Let_def)
    with inv cur True show ?thesis by auto
  next
    case False
    define n where "n = \<lparr>on_key = k, on_cost = ?cost, on_priority = ?cost + heuristic k goal\<rparr>"
    have new: "q' = heap_Push q n" "g' = g(k \<mapsto> ?cost)" "from' = from(k \<mapsto> u)"
      using t cur b False by (auto simp: accept_core_def Let_def n_def split: option.splits if_splits)
    have k: "k \<noteq> u" "k \<noteq> st" using False cur sc u pos by (force simp: scored_def)+
    have imp: "improves g g'" using False by (fastforce simp: improves_def new)
    have q': "heap_ordered q'" "set q' = insert n (set q)"
      using qu by (simp_all add: queued_def new open_heap.push_ok set_heap_Push)
    have "scored st g' from'"
      using sc k z u pos cur False unfolding scored_def new
      by (auto split: if_splits) fastforce+
    moreover have "queued goal g' q'"
      using qu q' False unfolding queued_def by (fastforce simp: n_def new)
    moreover have "u' \<in> {u} \<or> pending q' u' y \<or> settled E goal g' u' y" if "g' u' = Some y" for u' y
    proof (cases "u' = k")
      case True
      then show ?thesis using that q' by (auto simp: pending_def n_def new)
    next
      case False
      then have "g u' = Some y" using that new by simp
      from rest [OF this] show ?thesis
        using q' settled_improves imp by (auto simp: pending_def)
    qed
    ultimately show ?thesis using k cur imp by (auto simp: score_inv_def new)
  qed
qed

lemma accept_all_inv:
  assumes "on_key cur = u"
  shows "score_inv E goal st {u} (q, g, from) \<Longrightarrow> g u = Some (on_cost cur) \<Longrightarrow>
    \<forall>(b, k)\<in>set ks. b = diagonal_step u k \<and> 0 \<le> sint (nk_z k) \<Longrightarrow>
    accept_all goal cur ks (q, g, from) = (q', g', from') \<Longrightarrow>
    score_inv E goal st {u} (q', g', from') \<and> g' u = Some (on_cost cur) \<and> improves g g' \<and>
     (\<forall>(b, k)\<in>set ks. \<exists>x. g' k = Some x \<and> x \<le> on_cost cur + step_cost u k)"
proof (induction ks arbitrary: q g "from")
  case (Cons a ks)
  obtain b k where a: "a = (b, k)" by fastforce
  obtain q1 g1 from1 where t1: "accept_core goal cur b k (q, g, from) = (q1, g1, from1)"
    using prod_cases3 by blast
  have one: "score_inv E goal st {u} (q1, g1, from1) \<and> g1 u = Some (on_cost cur) \<and> improves g g1 \<and>
     (\<exists>x. g1 k = Some x \<and> x \<le> on_cost cur + step_cost u k)"
    using accept_core_inv [OF Cons.prems(1) assms Cons.prems(2) _ _ t1] Cons.prems(3) a by auto
  have IH: "score_inv E goal st {u} (q', g', from') \<and> g' u = Some (on_cost cur) \<and> improves g1 g' \<and>
     (\<forall>(b, k)\<in>set ks. \<exists>x. g' k = Some x \<and> x \<le> on_cost cur + step_cost u k)"
    using Cons.IH [of q1 g1 from1] one Cons.prems(3,4) a t1 by auto
  then have "\<exists>x. g' k = Some x \<and> x \<le> on_cost cur + step_cost u k"
    using one unfolding improves_def by (meson order_trans)
  with one IH a improves_trans show ?case by auto
qed simp

text \<open>Expanding the node \<open>u\<close> re-establishes the invariant with no exception.\<close>

lemma expand_inv:
  assumes W: "placed W" "level W" and cur: "on_key cur = u" "g u = Some (on_cost cur)"
    and ng: "key_point u \<noteq> goal"
    and inv: "score_inv (legal_step W r oc goal) goal st {u} (q, g, from)"
  shows "score_inv (legal_step W r oc goal) goal st {}
    (accept_all goal cur (successors W r oc goal u directions) (q, g, from))"
proof -
  let ?ks = "successors W r oc goal u directions"
  obtain q' g' from' where t: "accept_all goal cur ?ks (q, g, from) = (q', g', from')"
    using prod_cases3 by blast
  have "\<forall>(b, k)\<in>set ?ks. b = diagonal_step u k \<and> 0 \<le> sint (nk_z k)"
    using successors_cases [OF W] by blast
  note all = accept_all_inv [OF cur(1) inv cur(2) this t]
  have "settled (legal_step W r oc goal) goal g' u (on_cost cur)"
    using all ng by (fastforce simp: settled_def successors_legal)
  with all show ?thesis by (simp add: t score_inv_def) (metis option.inject)
qed

lemma pop_inv:
  assumes inv: "score_inv E goal st {} (q, g, from)" and pop: "heap_Pop q = Some (e, q')"
  obtains (stale) y where "g (on_key e) = Some y" "y < on_cost e" "score_inv E goal st {} (q', g, from)"
  | (fresh) "g (on_key e) = Some (on_cost e)" "score_inv E goal st {on_key e} (q', g, from)"
proof -
  have sc: "scored st g from" and qu: "queued goal g q"
    and rest: "\<And>u y. g u = Some y \<Longrightarrow> pending q u y \<or> settled E goal g u y"
    using inv by (simp_all add: score_inv_def)
  have heap: "heap_ordered q" using qu by (simp add: queued_def)
  have q: "set q = insert e (set q')"
    using open_heap.pop_entries [OF heap pop] by (metis set_mset_add_mset_insert set_mset_mset)
  then have qu': "queued goal g q'"
    using qu open_heap.pop_ok [OF heap pop] by (simp add: queued_def)
  have pend: "pending q u y \<longleftrightarrow> pending q' u y \<or> on_key e = u \<and> on_cost e = y" for u y
    by (auto simp: pending_def q)
  obtain y where y: "g (on_key e) = Some y" "y \<le> on_cost e" using qu q by (auto simp: queued_def)
  show thesis
  proof (cases "y < on_cost e")
    case True
    have "score_inv E goal st {} (q', g, from)"
      using sc qu' rest pend True y(1) unfolding score_inv_def by fastforce
    with stale y True show thesis by blast
  next
    case False
    have "score_inv E goal st {on_key e} (q', g, from)"
      using sc qu' rest pend by (auto simp: score_inv_def)
    with fresh y False show thesis by simp
  qed
qed

text \<open>On every legal walk to the goal from a scored node some open entry is at most the walk's cost.\<close>

lemma frontier:
  assumes W: "placed W" "level W"
    and inv: "score_inv (legal_step W r oc goal) goal st {} (q, g, from)"
  shows "g u = Some y \<Longrightarrow> legal_walk W r oc goal u vs \<Longrightarrow> key_point (last (u # vs)) = goal \<Longrightarrow>
    \<exists>e\<in>set q. on_priority e \<le> y + walk_cost u vs"
proof (induction vs arbitrary: u y)
  case Nil
  then have "\<not> settled (legal_step W r oc goal) goal g u y" by (simp add: settled_def)
  then obtain e where e: "e \<in> set q" "on_key e = u" "on_cost e = y"
    using inv Nil.prems(1) by (auto simp: score_inv_def pending_def)
  then have "on_priority e = y + heuristic u goal" using inv by (auto simp: score_inv_def queued_def)
  with e(1) Nil.prems show ?case by (auto simp: heuristic_at_goal)
next
  case (Cons v vs)
  have z: "0 \<le> sint (nk_z u)" using inv Cons.prems(1) by (auto simp: score_inv_def scored_def)
  have "pending q u y \<or> settled (legal_step W r oc goal) goal g u y"
    using inv Cons.prems(1) by (auto simp: score_inv_def)
  then show ?case
  proof
    assume "pending q u y"
    then obtain e where e: "e \<in> set q" "on_key e = u" "on_cost e = y" by (auto simp: pending_def)
    have "on_priority e = y + heuristic u goal" using inv e by (auto simp: score_inv_def queued_def)
    with legal_walk_heuristic [OF W Cons.prems(2) z Cons.prems(3)] e(1) show ?thesis
      by (intro bexI [of _ e]) simp_all
  next
    assume "settled (legal_step W r oc goal) goal g u y"
    then obtain x where x: "g v = Some x" "x \<le> y + step_cost u v"
      using Cons.prems(2) by (auto simp: settled_def)
    then obtain e where "e \<in> set q" "on_priority e \<le> x + walk_cost v vs"
      using Cons.IH [OF x(1)] Cons.prems(2,3) by auto
    with x(2) show ?thesis by force
  qed
qed

subsection \<open>The walk back from the goal\<close>

fun walk_steps :: "node_key \<Rightarrow> node_key list \<Rightarrow> step list" where
  "walk_steps u [] = []"
| "walk_steps u (v # vs) = step_between u v # walk_steps v vs"

lemma legal_walk_snoc:
  "legal_walk W r oc goal u (vs @ [k]) \<longleftrightarrow>
     legal_walk W r oc goal u vs \<and> legal_step W r oc goal (last (u # vs)) k"
  by (induction vs arbitrary: u) auto

lemma walk_cost_snoc: "walk_cost u (vs @ [k]) = walk_cost u vs + step_cost (last (u # vs)) k"
  by (induction vs arbitrary: u) auto

lemma walk_steps_snoc: "walk_steps u (vs @ [k]) = walk_steps u vs @ [step_between (last (u # vs)) k]"
  by (induction vs arbitrary: u) auto

lemma steps_of_walk: "steps_of (rev (u # vs)) = walk_steps u vs"
proof (induction vs rule: rev_induct)
  case (snoc k vs)
  obtain x xs where x: "rev (u # vs) = x # xs" by (cases "rev (u # vs)") auto
  then have "last (u # vs) = x" by (metis last_rev list.sel(1) rev_rev_ident hd_rev list.distinct(1))
  moreover have "steps_of (rev (u # vs @ [k])) = steps_of (rev (u # vs)) @ [step_between x k]"
    using x by (simp add: steps_of_def)
  ultimately show ?case using snoc by (simp add: walk_steps_snoc)
qed (simp add: steps_of_def)

lemma chain_walk:
  assumes sc: "scored st g from"
    and traced: "\<And>u v. from v = Some u \<Longrightarrow> legal_step W r oc goal u v"
  shows "g k = Some x \<Longrightarrow> \<exists>vs. chain_keys from k = Some (rev (st # vs)) \<and> last (st # vs) = k \<and>
    legal_walk W r oc goal st vs \<and> walk_cost st vs \<le> x"
proof (induction "nat x" arbitrary: k x rule: less_induct)
  case less
  show ?case
  proof (cases "from k")
    case None
    then have "k = st" "0 \<le> x" using sc less.prems unfolding scored_def by blast+
    with None show ?thesis by (intro exI [of _ "[]"]) (simp add: chain_keys.simps)
  next
    case (Some u)
    then obtain y where y: "g u = Some y" "y + step_cost u k \<le> x"
      using sc less.prems unfolding scored_def by force
    have "0 \<le> y" "0 \<le> sint (nk_z u)" "0 \<le> sint (nk_z k)"
      using sc y(1) less.prems by (auto simp: scored_def)
    then have "nat y < nat x" using y(2) step_cost_pos [of u k] by simp
    from less.hyps [OF this y(1)] obtain vs where vs: "chain_keys from u = Some (rev (st # vs))"
      "last (st # vs) = u" "legal_walk W r oc goal st vs" "walk_cost st vs \<le> y" by blast
    have "chain_keys from k = Some (rev (st # vs @ [k]))"
      using Some vs(1) by (subst chain_keys.simps) simp
    moreover have "legal_walk W r oc goal st (vs @ [k])"
      using vs(2,3) traced [OF Some] by (simp add: legal_walk_snoc)
    moreover have "walk_cost st (vs @ [k]) \<le> x"
      using vs(2,4) y(2) by (simp add: walk_cost_snoc)
    ultimately show ?thesis by (intro exI [of _ "vs @ [k]"]) simp
  qed
qed

subsection \<open>The search as a whole\<close>

definition search_inv :: "world \<Rightarrow> rules \<Rightarrow> occupancy \<Rightarrow> point \<Rightarrow> node_key \<Rightarrow> search \<Rightarrow> bool" where
  "search_inv W r oc goal st s \<longleftrightarrow> s_world s = W \<and> s_rules s = r \<and> s_occupancy s = oc \<and>
     s_goal s = goal \<and> observed s \<and>
     (\<forall>u v. s_cameFrom s v = Some u \<longrightarrow> legal_step (within W (seen s)) r oc goal u v) \<and>
     score_inv (legal_step W r oc goal) goal st {} (core s)"

lemma extends_within_all: "extends (within W D) W"
  by (auto simp: extends_def within_def)

text \<open>What a path returned for a start node \<open>st\<close> is: the steps of a least legal walk to the goal,
  legal already when only the observed columns are known, with the versions of those columns.\<close>

definition found_path ::
  "world \<Rightarrow> rules \<Rightarrow> occupancy \<Rightarrow> point \<Rightarrow> node_key \<Rightarrow> room_path \<Rightarrow> node_key list \<Rightarrow> bool" where
  "found_path W r oc goal st p vs \<longleftrightarrow> path_steps p = walk_steps st vs \<and>
     key_point (last (st # vs)) = goal \<and>
     legal_walk (within W (dom (map_of (path_versions p)))) r oc goal st vs \<and>
     (\<forall>vs'. legal_walk W r oc goal st vs' \<longrightarrow> key_point (last (st # vs')) = goal \<longrightarrow>
        walk_cost st vs \<le> walk_cost st vs') \<and>
     distinct (map fst (path_versions p)) \<and>
     (\<forall>q v. map_of (path_versions p) q = Some v \<longrightarrow> (\<exists>c. W q = Inr c \<and> col_version c = v))"

definition good_result ::
  "world \<Rightarrow> rules \<Rightarrow> occupancy \<Rightarrow> point \<Rightarrow> node_key \<Rightarrow> (path_error + room_path) option \<Rightarrow> bool" where
  "good_result W r oc goal st res \<longleftrightarrow>
     (case res of None \<Rightarrow> False
      | Some (Inr p) \<Rightarrow> \<exists>vs. found_path W r oc goal st p vs
      | Some (Inl e) \<Rightarrow> e = ErrSearchLimit \<or>
          e = ErrNoPath \<and> (\<forall>vs. legal_walk W r oc goal st vs \<longrightarrow> key_point (last (st # vs)) \<noteq> goal))"

lemma accept_core_from:
  "accept_core goal cur b k (q, g, from) = (q', g', from') \<Longrightarrow> from' v = Some u \<Longrightarrow>
     from v = Some u \<or> u = on_key cur \<and> v = k"
  by (auto simp: accept_core_def Let_def split: option.splits if_splits)

lemma accept_all_from:
  "accept_all goal cur ks (q, g, from) = (q', g', from') \<Longrightarrow> from' v = Some u \<Longrightarrow>
     from v = Some u \<or> u = on_key cur \<and> v \<in> snd ` set ks"
proof (induction ks arbitrary: q g "from")
  case (Cons a ks)
  obtain q1 g1 from1 where
    t1: "accept_core goal cur (fst a) (snd a) (q, g, from) = (q1, g1, from1)"
    using prod_cases3 by blast
  have "accept_all goal cur ks (q1, g1, from1) = (q', g', from')"
    using Cons.prems(1) t1 by (cases a) simp
  from Cons.IH [OF this Cons.prems(2)] accept_core_from [OF t1] show ?case by fastforce
qed simp

lemma visit_keeps_inv:
  assumes W: "placed W" "level W"
    and env: "s_world s = W" "s_rules s = r" "s_occupancy s = oc" "s_goal s = goal" "observed s"
    and traced: "\<And>u v. s_cameFrom s v = Some u \<Longrightarrow> legal_step (within W (seen s)) r oc goal u v"
    and inv: "score_inv (legal_step W r oc goal) goal st {on_key cur} (core s)"
    and cur: "s_gScore s (on_key cur) = Some (on_cost cur)" "key_point (on_key cur) \<noteq> goal"
  shows "search_inv W r oc goal st (visit_result s cur)"
proof -
  let ?s = "visit_result s cur"
  note vr = visit_result_spec [OF env(1-4), of cur]
  have "score_inv (legal_step W r oc goal) goal st {} (core ?s)"
    using expand_inv [OF W refl cur inv [unfolded core_def]] vr(3) by (simp add: core_def)
  moreover have "legal_step (within W (seen ?s)) r oc goal u v" if "s_cameFrom ?s v = Some u" for u v
  proof -
    have "s_cameFrom s v = Some u \<or> u = on_key cur \<and> v \<in> snd ` set (successors W r oc goal (on_key cur) directions)"
      using accept_all_from [OF vr(3) [unfolded core_def, symmetric] that] .
    then show ?thesis
    proof
      assume "s_cameFrom s v = Some u"
      then show ?thesis using legal_step_mono [OF extends_within [OF vr(1)]] traced by blast
    next
      assume "u = on_key cur \<and> v \<in> snd ` set (successors W r oc goal (on_key cur) directions)"
      then show ?thesis using vr(4) successors_legal by blast
    qed
  qed
  ultimately show ?thesis using env vr(2) by (simp add: search_inv_def visit_result_env)
qed

lemma run_good:
  assumes W: "placed W" "level W"
  shows "search_inv W r oc goal st s \<Longrightarrow> good_result W r oc goal st (run s)"
proof (induction s rule: run.induct)
  case (1 s)
  let ?E = "legal_step W r oc goal"
  have env: "s_world s = W" "s_rules s = r" "s_occupancy s = oc" "s_goal s = goal" "observed s"
    and traced: "\<And>u v. s_cameFrom s v = Some u \<Longrightarrow> legal_step (within W (seen s)) r oc goal u v"
    and inv: "score_inv ?E goal st {} (s_open s, s_gScore s, s_cameFrom s)"
    using "1.prems" by (simp_all add: search_inv_def core_def)
  have st: "s_gScore s st = Some 0" and heap: "heap_ordered (s_open s)"
    and sc: "scored st (s_gScore s) (s_cameFrom s)"
    using inv by (simp_all add: score_inv_def scored_def queued_def)
  show ?case
  proof (cases "heap_Pop (s_open s)")
    case None
    have "\<not> (legal_walk W r oc goal st vs \<and> key_point (last (st # vs)) = goal)" for vs
      using frontier [OF W inv st, of vs] None by auto
    then show ?thesis by (subst run.simps) (simp add: None good_result_def)
  next
    case (Some a)
    obtain e q' where pop: "heap_Pop (s_open s) = Some (e, q')" using Some by (cases a) simp
    let ?s = "s\<lparr>s_open := q'\<rparr>"
    show ?thesis
    proof (cases rule: pop_inv [OF inv pop])
      case (1 y)
      then have stale: "isStale ?s e" by (simp add: isStale_def)
      have "search_inv W r oc goal st ?s"
        using 1(3) env traced by (simp add: search_inv_def core_def observed_def)
      from "1.IH"(1) [OF pop refl refl stale this] show ?thesis
        by (subst run.simps) (simp add: pop stale Let_def)
    next
      case 2
      then have fresh: "\<not> isStale ?s e" by (simp add: isStale_def)
      show ?thesis
      proof (cases "key_point (on_key e) = goal")
        case True
        obtain vs where vs: "chain_keys (s_cameFrom s) (on_key e) = Some (rev (st # vs))"
          "last (st # vs) = on_key e" "legal_walk (within W (seen s)) r oc goal st vs"
          "walk_cost st vs \<le> on_cost e"
          using chain_walk [where W = "within W (seen s)" and r = r and oc = oc and goal = goal,
              OF sc traced 2(1)] by blast
        have least: "walk_cost st vs \<le> walk_cost st vs'"
          if vs': "legal_walk W r oc goal st vs'" "key_point (last (st # vs')) = goal" for vs'
        proof -
          obtain e' where e': "e' \<in> set (s_open s)" "on_priority e' \<le> 0 + walk_cost st vs'"
            using frontier [OF W inv st vs'] by blast
          have "e \<in> set (s_open s)"
            using open_heap.pop_entries [OF heap pop] by (metis set_mset_mset union_single_eq_member add_mset_add_single union_commute)
          then have "on_priority e = on_cost e"
            using inv True by (auto simp: score_inv_def queued_def heuristic_at_goal)
          moreover have "node_le e e'" using open_heap.pop_least [OF heap pop] e'(1) by simp
          ultimately show ?thesis using e'(2) vs(4) by (auto simp: node_le_lex)
        qed
        have "run s = Some (Inr \<lparr>path_steps = walk_steps st vs, path_versions = s_versions s\<rparr>)"
          using pop fresh True env vs(1) steps_of_walk [of st vs]
          by (subst run.simps) (simp add: Let_def pathTo_def)
        moreover have "found_path W r oc goal st \<lparr>path_steps = walk_steps st vs, path_versions = s_versions s\<rparr> vs"
          using vs(2,3) True least env(1,5) by (simp add: found_path_def observed_def)
        ultimately show ?thesis by (auto simp: good_result_def)
      next
        case False
        show ?thesis
        proof (cases "visit ?s e")
          case (Pair s2 err)
          show ?thesis
          proof (cases err)
            case None
            then have s2: "s2 = visit_result ?s e" using Pair by (simp add: visit_cases split: if_splits)
            have "search_inv W r oc goal st s2"
              unfolding s2 using visit_keeps_inv [OF W, of ?s r oc goal st e] env traced 2 False
              by (simp add: core_def observed_def)
            then show ?thesis
              using "1.IH"(2) [OF pop refl refl fresh] False env Pair None
              by (subst run.simps) (simp add: Let_def pop fresh)
          next
            case (Some er)
            then have "er = ErrSearchLimit" using Pair by (simp add: visit_cases split: if_splits)
            then show ?thesis
              using pop fresh False env Pair Some
              by (subst run.simps) (simp add: Let_def good_result_def)
          qed
        qed
      qed
    qed
  qed
qed

lemma nearestLoop_mem:
  "nearestLoop c h best secs = Some (s, d) \<Longrightarrow> s \<in> set secs \<or> (\<exists>d'. best = Some (s, d'))"
proof (induction c h best secs rule: nearestLoop.induct)
  case (2 c h best s' ss)
  then show ?case
    by (auto simp: Let_def split: if_splits option.splits prod.splits) (metis (no_types) option.inject prod.inject)+
qed simp

lemma resolveStart_level:
  assumes W: "level (s_world s)" and z: "0 \<le> sint (pos_z start)"
    and res: "resolveStart s start = (s', Inr p)"
  shows "0 \<le> sint (pos_z p)" and "looks s s'"
proof -
  from res obtain c where c: "s_world s (pos_point start) = Inr c"
    "search_column s (pos_point start) = (s', Inr c)" "looks s s'"
    by (cases rule: search_column_cases [of s "pos_point start"])
      (auto simp: resolveStart_def split: option.splits)
  then show "looks s s'" by simp
  consider (at) sec where "WalkableSectionAt c (pos_z start) = Some sec" "p = start\<lparr>pos_z := sec_z sec\<rparr>"
    | (near) sec where "NearestWalkableSection c (pos_z start) = Some sec" "p = start\<lparr>pos_z := sec_z sec\<rparr>"
    | (kept) "p = start"
    using res c(2) by (auto simp: resolveStart_def split: option.splits)
  then show "0 \<le> sint (pos_z p)"
  proof cases
    case at
    then have "sec_z sec = pos_z start"
      by (auto simp: WalkableSectionAt_def SectionAt_def find_Some_iff split: option.splits if_splits)
    with at z show ?thesis by simp
  next
    case near
    then have "in_column sec c"
      using nearestLoop_mem by (fastforce simp: NearestWalkableSection_def in_column_def)
    with W c(1) near show ?thesis by (simp add: level_def)
  qed (use z in simp)
qed

lemma start_inv:
  assumes env: "s_world s = W" "s_rules s = r" "s_occupancy s = oc" "s_goal s = goal" "observed s"
    and empty: "core s = ([], Map.empty, Map.empty)" and z: "0 \<le> sint (nk_z st)"
  shows "search_inv W r oc goal st
    (s\<lparr>s_gScore := (s_gScore s)(st \<mapsto> 0),
       s_open := heap_Push (s_open s) \<lparr>on_key = st, on_cost = 0, on_priority = heuristic st (s_goal s)\<rparr>\<rparr>)"
proof -
  let ?n = "\<lparr>on_key = st, on_cost = 0, on_priority = heuristic st goal\<rparr>"
  have push: "heap_Push [] ?n = [?n]" by (simp add: heap_Push_def heap_up.simps)
  have "score_inv E goal st {} ([?n], [st \<mapsto> 0], Map.empty)" for E
    using z by (auto simp: score_inv_def scored_def queued_def pending_def heap_ordered_def)
  with env empty push show ?thesis
    by (simp add: search_inv_def core_def observed_def)
qed

subsection \<open>The interface \<^verbatim>\<open>path.World\<close>\<close>

locale tile_world =
  fixes column_at :: "'w \<Rightarrow> world" and ok :: "'w \<Rightarrow> bool"
  assumes sections_placed:
    "ok w \<Longrightarrow> column_at w p = Inr c \<Longrightarrow> in_column sec c \<Longrightarrow> sec_point sec = p"

locale level_world = tile_world +
  assumes sections_level:
    "ok w \<Longrightarrow> column_at w p = Inr c \<Longrightarrow> in_column sec c \<Longrightarrow> 0 \<le> sint (sec_z sec)"
begin

lemma Find_good:
  assumes w: "ok w" "fd_world f = column_at w" and z: "0 \<le> sint (pos_z start)"
  shows "case (column_at w (pos_point start), column_at w goal) of
     (Inl _, _) \<Rightarrow> Find f start goal = Some (Inl ErrInvalidStart)
   | (Inr _, Inl _) \<Rightarrow> Find f start goal = Some (Inl ErrInvalidGoal)
   | (Inr _, Inr _) \<Rightarrow> \<exists>p. snd (resolveStart (newSearch (fd_world f) (fd_rules f) (fd_occupancy f) goal) start) = Inr p \<and>
        good_result (column_at w) (fd_rules f) (fd_occupancy f) goal (nodeFromPosition p) (Find f start goal)"
proof -
  let ?s = "newSearch (fd_world f) (fd_rules f) (fd_occupancy f) goal"
  have W: "placed (column_at w)" "level (column_at w)"
    using sections_placed [OF w(1)] sections_level [OF w(1)] by (auto simp: placed_def level_def)
  have s: "s_world ?s = column_at w" "s_goal ?s = goal" "s_rules ?s = fd_rules f"
    "s_occupancy ?s = fd_occupancy f" "core ?s = ([], Map.empty, Map.empty)" "observed ?s"
    by (simp_all add: newSearch_def w(2) core_def observed_def)
  show ?thesis
  proof (cases "column_at w (pos_point start)")
    case (Inl e)
    then have "Find f start goal = Some (Inl ErrInvalidStart)"
      by (simp add: Find_def resolveStart_def search_column_def s)
    with Inl show ?thesis by simp
  next
    case (Inr c)
    note c = Inr
    obtain s1 res where r1: "resolveStart ?s start = (s1, res)" by fastforce
    obtain p where p: "res = Inr p"
      using r1 c by (auto simp: resolveStart_def search_column_def s split: option.splits)
    have z1: "0 \<le> sint (pos_z p)" and l1: "looks ?s s1"
      using resolveStart_level [of ?s start s1 p] W(2) z r1 p by (simp_all add: s)
    have env1: "s_world s1 = column_at w" using l1 s by (simp add: looks_def same_env_def)
    show ?thesis
    proof (cases rule: search_column_cases [of s1 goal])
      case (missing e)
      then have "Find f start goal = Some (Inl ErrInvalidGoal)" by (simp add: Find_def r1 p)
      with missing env1 c show ?thesis by simp
    next
      case (found cg s2)
      have l2: "looks ?s s2" using looks_trans [OF l1 found(3)] .
      have "search_inv (column_at w) (fd_rules f) (fd_occupancy f) goal (nodeFromPosition p)
        (s2\<lparr>s_gScore := (s_gScore s2)(nodeFromPosition p \<mapsto> 0),
            s_open := heap_Push (s_open s2) \<lparr>on_key = nodeFromPosition p, on_cost = 0,
              on_priority = heuristic (nodeFromPosition p) (s_goal s2)\<rparr>\<rparr>)"
        using l2 s z1 by (intro start_inv) (simp_all add: looks_def same_env_def nodeFromPosition_def)
      from run_good [OF W this]
      have "good_result (column_at w) (fd_rules f) (fd_occupancy f) goal (nodeFromPosition p) (Find f start goal)"
        by (simp add: Find_def r1 p found(2) Find_from_def)
      then show ?thesis using r1 p c found(1) env1 by simp
    qed
  qed
qed

lemma Find_returns:
  assumes "ok w" "fd_world f = column_at w" "0 \<le> sint (pos_z start)"
  shows "\<exists>res. Find f start goal = Some res"
  using Find_good [OF assms, of goal]
  by (auto simp: good_result_def split: sum.splits option.splits)

lemma Find_found:
  assumes "ok w" "fd_world f = column_at w" "0 \<le> sint (pos_z start)" "Find f start goal = Some (Inr path)"
  obtains p vs where
    "snd (resolveStart (newSearch (fd_world f) (fd_rules f) (fd_occupancy f) goal) start) = Inr p"
    "found_path (column_at w) (fd_rules f) (fd_occupancy f) goal (nodeFromPosition p) path vs"
  using Find_good [OF assms(1-3), of goal] assms(4)
  by (auto simp: good_result_def split: sum.splits option.splits)

lemma Find_no_path:
  assumes "ok w" "fd_world f = column_at w" "0 \<le> sint (pos_z start)" "Find f start goal = Some (Inl ErrNoPath)"
  obtains p where
    "snd (resolveStart (newSearch (fd_world f) (fd_rules f) (fd_occupancy f) goal) start) = Inr p"
    "\<And>vs. legal_walk (column_at w) (fd_rules f) (fd_occupancy f) goal (nodeFromPosition p) vs \<Longrightarrow>
       key_point (last (nodeFromPosition p # vs)) \<noteq> goal"
  using Find_good [OF assms(1-3), of goal] assms(4)
  by (auto simp: good_result_def split: sum.splits option.splits)

end

text \<open>A world that changes between two states, where a version stands for a column's content.\<close>

locale versioned_world = level_world +
  fixes evolves :: "'a \<Rightarrow> 'a \<Rightarrow> bool"
  assumes same_version: "evolves w w' \<Longrightarrow> column_at w p = Inr c \<Longrightarrow> column_at w' p = Inr c' \<Longrightarrow>
    col_version c = col_version c' \<Longrightarrow> c = c'"
begin

lemma Validate_None:
  "Validate path W = None \<longleftrightarrow> (\<forall>(p, v)\<in>set (path_versions path). \<exists>c. W p = Inr c \<and> col_version c = v)"
proof -
  have "Validate_loop W vs = None \<longleftrightarrow> (\<forall>(p, v)\<in>set vs. \<exists>c. W p = Inr c \<and> col_version c = v)" for vs
    by (induction vs) (auto split: sum.splits if_splits)
  then show ?thesis by (simp add: Validate_def)
qed

lemma Validate_keeps_walk:
  assumes found: "found_path (column_at w) r oc goal st path vs"
    and ev: "evolves w w'" and valid: "Validate path (column_at w') = None"
  shows "legal_walk (column_at w') r oc goal st vs"
proof -
  let ?D = "dom (map_of (path_versions path))"
  have "extends (within (column_at w) ?D) (column_at w')"
    unfolding extends_def
  proof (intro allI impI)
    fix p c assume "within (column_at w) ?D p = Inr c"
    then have p: "p \<in> ?D" "column_at w p = Inr c" by (auto simp: within_def split: if_splits)
    then obtain v where v: "map_of (path_versions path) p = Some v" by blast
    then have "col_version c = v" using found p(2) by (fastforce simp: found_path_def)
    moreover obtain c' where "column_at w' p = Inr c'" "col_version c' = v"
      using valid map_of_SomeD [OF v] by (auto simp: Validate_None)
    ultimately show "column_at w' p = Inr c" using same_version [OF ev p(2)] by auto
  qed
  with found show ?thesis using legal_walk_mono by (auto simp: found_path_def)
qed

end

subsection \<open>The resolver is such a world\<close>

definition resolver_ok :: "resolver \<Rightarrow> bool" where
  "resolver_ok r \<longleftrightarrow> length (g_heights (rs_grid r)) = TileCount (rs_grid r) \<and>
     (\<forall>h\<in>set (g_heights (rs_grid r)). 0 \<le> sint h) \<and>
     (\<forall>i. \<forall>f\<in>set (rs_fixtures r i). grid_Index (rs_grid r) (fx_point f) = Some i \<and> 0 \<le> sint (fx_z f))"

lemma row_major_inj:
  fixes x x' y y' w :: nat
  assumes "x < w" "x' < w" "y * w + x = y' * w + x'" shows "x = x' \<and> y = y'"
proof -
  have "(y * w + x) div w = y" "(y' * w + x') div w = y'" using assms(1,2) by auto
  then have "y = y'" using assms(3) by simp
  with assms(3) show ?thesis by simp
qed

lemma grid_Index_inj:
  assumes "grid_Index g p = Some i" "grid_Index g p' = Some i" shows "p = p'"
proof -
  have "unat (px p) = unat (px p') \<and> unat (py p) = unat (py p')"
    using assms row_major_inj [of "unat (px p)" "unat (g_width g)" "unat (px p')" "unat (py p)" "unat (py p')"]
    by (auto simp: grid_Index_def InBounds_def word_less_nat_alt split: if_splits)
  then show ?thesis by (auto simp: word_unat_eq_iff intro: point.expand)
qed

lemma in_column_list: "col_inv c \<Longrightarrow> in_column sec c \<Longrightarrow> sec \<in> set (Sections c)"
  by (auto simp: in_column_def inv_simps split: if_splits)

lemma resolver_section_cases:
  assumes "resolver_Column r p = Inr c" "in_column sec c"
  obtains (base) t where "grid_Tile (rs_grid r) p = Some t" "sec = baseSection t"
  | (fixture) i f where "grid_Index (rs_grid r) p = Some i" "f \<in> set (rs_fixtures r i)" "sec = fx_Section f"
  using assms(1)
proof (rule resolver_Column_Inr)
  fix t i
  assume t: "grid_Tile (rs_grid r) p = Some t" "grid_Index (rs_grid r) p = Some i"
    and c: "col_inv c" "Sections c = column_list t (rs_fixtures r i)"
  have "sec \<in> set (column_list t (rs_fixtures r i))" using in_column_list [OF c(1) assms(2)] c(2) by simp
  then have "sec = baseSection t \<or> sec \<in> fx_Section ` set (rs_fixtures r i)"
    using column_list_props(3) by blast
  with t base fixture show thesis by blast
qed

definition resolver_evolves :: "resolver \<Rightarrow> resolver \<Rightarrow> bool" where
  "resolver_evolves r r' \<longleftrightarrow> (\<exists>ops. sum_list (map op_bumps ops) < 2 ^ 32 \<and> r' = fold apply_op ops r)"

lemma grid_Tile_point: "grid_Tile g p = Some t \<Longrightarrow> tile_point t = p"
  by (auto simp: grid_Tile_def split: option.splits)

lemma grid_Tile_height:
  assumes "grid_Tile g p = Some t" "length (g_heights g) = TileCount g"
  shows "tile_height t \<in> set (g_heights g)"
  using assms grid_Index_bound by (auto simp: grid_Tile_def split: option.splits)

interpretation resolver_world: versioned_world resolver_Column resolver_ok resolver_evolves
proof unfold_locales
  fix w p c sec
  assume w: "resolver_ok w" and c: "resolver_Column w p = Inr c" "in_column sec c"
  from c show "sec_point sec = p"
  proof (cases rule: resolver_section_cases)
    case (fixture i f)
    then have "grid_Index (rs_grid w) (fx_point f) = Some i" using w by (auto simp: resolver_ok_def)
    with fixture grid_Index_inj show ?thesis by (fastforce simp: fx_Section_def)
  qed (simp add: baseSection_def grid_Tile_point)
  from c show "0 \<le> sint (sec_z sec)"
  proof (cases rule: resolver_section_cases)
    case (base t)
    then show ?thesis using w grid_Tile_height by (auto simp: resolver_ok_def baseSection_def)
  qed (use w in \<open>auto simp: resolver_ok_def fx_Section_def\<close>)
next
  fix w w' p c c'
  assume "resolver_evolves w w'" "resolver_Column w p = Inr c" "resolver_Column w' p = Inr c'"
    "col_version c = col_version c'"
  then show "c = c'" using same_version_same_column by (auto simp: resolver_evolves_def)
qed

fun op_level :: "resolver_op \<Rightarrow> bool" where
  "op_level (OpAdd f) \<longleftrightarrow> 0 \<le> sint (fx_z f)"
| "op_level (OpRemove sid) \<longleftrightarrow> True"
| "op_level (OpReplace sid fs) \<longleftrightarrow> list_all (\<lambda>f. 0 \<le> sint (fx_z f)) fs"

lemma AddFixture_ok: "resolver_ok r \<Longrightarrow> 0 \<le> sint (fx_z f) \<Longrightarrow> resolver_ok (fst (AddFixture r f))"
  by (auto simp: AddFixture_def resolver_ok_def split: option.splits)

lemma addFixtures_ok:
  "resolver_ok r \<Longrightarrow> \<forall>f\<in>set fs. 0 \<le> sint (fx_z f) \<Longrightarrow> resolver_ok (fst (addFixtures r fs))"
proof (induction fs arbitrary: r)
  case (Cons f fs)
  then show ?case using AddFixture_ok [of r f] by (auto split: prod.splits option.splits)
qed simp

lemma RemoveFixtures_ok: "resolver_ok r \<Longrightarrow> resolver_ok (fst (RemoveFixtures r sid))"
  by (auto simp: resolver_ok_def RemoveFixtures_at)

lemma apply_op_ok: "resolver_ok r \<Longrightarrow> op_level op \<Longrightarrow> resolver_ok (apply_op op r)"
  by (cases op) (auto simp: AddFixture_ok RemoveFixtures_ok addFixtures_ok ReplaceFixtures_def list_all_iff)

lemma NewResolver_ok:
  assumes "NewResolver g fs = Inr r" "wf_grid g" "\<forall>f\<in>set fs. 0 \<le> sint (fx_z f)"
  shows "resolver_ok r"
proof -
  let ?r = "\<lparr>rs_grid = g, rs_fixtures = (\<lambda>_. []), rs_versions = (\<lambda>_. 0)\<rparr>"
  have "resolver_ok ?r" using assms(2) by (fastforce simp: resolver_ok_def wf_grid_def)
  then show ?thesis
    using addFixtures_ok [of ?r fs] assms(1,3)
    by (auto simp: NewResolver_def split: prod.splits option.splits)
qed

text \<open>The resolver is a well-formed path world from the start and stays one: over a parsed grid
  and after any fixture operations (all at heights not below 0), every section of a tile's column
  stands on that tile and not below the ground.\<close>

theorem resolver_stays_ok:
  assumes "wf_grid g" and "list_all (\<lambda>f. 0 \<le> sint (fx_z f)) fs" and "NewResolver g fs = Inr r"
    and "list_all op_level ops"
    and "resolver_Column (fold apply_op ops r) p = Inr c" and "s \<in> set (Sections c)"
  shows "sec_point s = p \<and> 0 \<le> sint (sec_z s)"
proof -
  have "resolver_ok r" using NewResolver_ok assms by (auto simp: list_all_iff)
  then have ok: "resolver_ok (fold apply_op ops r)"
    using assms(4) by (induction ops arbitrary: r) (auto simp: apply_op_ok)
  have "col_inv c" using assms(5) by (auto elim: resolver_Column_Inr)
  then have "in_column s c" using assms(6) by (simp add: in_column_def inv_simps)
  with ok assms(5) resolver_world.sections_placed resolver_world.sections_level show ?thesis by blast
qed

definition flat_finder :: finder where
  "flat_finder = NewFinder (resolver_Column chair_resolver) DefaultRules"

definition flat_start :: position where
  "flat_start = \<lparr>pos_point = Point 0 0, pos_z = 0\<rparr>"

lemma chair_resolver_ok: "resolver_ok chair_resolver"
  by (auto simp: resolver_ok_def sample_world_defs TileCount_def grid_Index_def InBounds_def)

subsection \<open>What the finder promises\<close>

text \<open>The node the search starts from: the given position moved to a usable section of its column.\<close>

definition start_node :: "finder \<Rightarrow> position \<Rightarrow> point \<Rightarrow> node_key option" where
  "start_node f start goal =
     (case snd (resolveStart (newSearch (fd_world f) (fd_rules f) (fd_occupancy f) goal) start) of
        Inl _ \<Rightarrow> None | Inr p \<Rightarrow> Some (nodeFromPosition p))"

text \<open>C3: The search always returns: for a start position not below the ground \<open>Find\<close> yields a
  path or an error, whatever the rules, the occupancy and the goal. Neither the loop over the open
  set nor the walk back over \<open>cameFrom\<close> can run forever.\<close>

theorem Find_always_returns:
  assumes "resolver_ok r" and "0 \<le> sint (pos_z start)"
  shows "\<exists>res. Find (NewFinderWithOccupancy (resolver_Column r) rules oc) start goal = Some res"
  using assms by (intro resolver_world.Find_returns) (simp_all add: NewFinderWithOccupancy_def)

text \<open>C1: A path that \<open>Find\<close> returns consists of legal steps, one after the other, from the resolved
  start to the goal tile, and no legal walk from that start to the goal costs less: the search is
  sound and optimal although its heap holds stale entries and nodes are reopened.\<close>

theorem Find_sound_and_optimal:
  assumes "resolver_ok r" and "0 \<le> sint (pos_z start)" and "fd_world f = resolver_Column r"
    and "Find f start goal = Some (Inr path)"
  shows "\<exists>st vs. start_node f start goal = Some st \<and> path_steps path = walk_steps st vs \<and>
     key_point (last (st # vs)) = goal \<and>
     legal_walk (resolver_Column r) (fd_rules f) (fd_occupancy f) goal st vs \<and>
     (\<forall>vs'. legal_walk (resolver_Column r) (fd_rules f) (fd_occupancy f) goal st vs' \<longrightarrow>
        key_point (last (st # vs')) = goal \<longrightarrow> walk_cost st vs \<le> walk_cost st vs')"
proof -
  obtain p vs where p: "snd (resolveStart (newSearch (fd_world f) (fd_rules f) (fd_occupancy f) goal) start) = Inr p"
    and found: "found_path (resolver_Column r) (fd_rules f) (fd_occupancy f) goal (nodeFromPosition p) path vs"
    using resolver_world.Find_found [OF assms(1,3,2,4)] by blast
  have "legal_walk (resolver_Column r) (fd_rules f) (fd_occupancy f) goal (nodeFromPosition p) vs"
    using found legal_walk_mono [OF extends_within_all] unfolding found_path_def by blast
  moreover have "start_node f start goal = Some (nodeFromPosition p)" using p by (simp add: start_node_def)
  ultimately show ?thesis using found unfolding found_path_def by blast
qed

text \<open>C2: \<open>ErrNoPath\<close> is final: when the search says that there is no path, no sequence of legal
  steps leads from the resolved start to the goal tile.\<close>

theorem Find_complete:
  assumes "resolver_ok r" and "0 \<le> sint (pos_z start)" and "fd_world f = resolver_Column r"
    and "Find f start goal = Some (Inl ErrNoPath)"
  shows "\<exists>st. start_node f start goal = Some st \<and>
     (\<forall>vs. legal_walk (resolver_Column r) (fd_rules f) (fd_occupancy f) goal st vs \<longrightarrow>
        key_point (last (st # vs)) \<noteq> goal)"
proof -
  obtain p where p: "snd (resolveStart (newSearch (fd_world f) (fd_rules f) (fd_occupancy f) goal) start) = Inr p"
    "\<And>vs. legal_walk (resolver_Column r) (fd_rules f) (fd_occupancy f) goal (nodeFromPosition p) vs \<Longrightarrow>
       key_point (last (nodeFromPosition p # vs)) \<noteq> goal"
    using resolver_world.Find_no_path [OF assms(1,3,2,4)] by blast
  moreover have "start_node f start goal = Some (nodeFromPosition p)" using p(1) by (simp add: start_node_def)
  ultimately show ?thesis by blast
qed

text \<open>A validated path can still be walked: if fixtures were added, removed and moved after the
  search (fewer than 2^32 version bumps) and \<open>Validate\<close> accepts the path against the changed
  room, then every step of the path is still legal in the changed room.\<close>

theorem Validate_keeps_path_legal:
  assumes "resolver_ok r" and "0 \<le> sint (pos_z start)" and "fd_world f = resolver_Column r"
    and "Find f start goal = Some (Inr path)"
    and "sum_list (map op_bumps ops) < 2 ^ 32"
    and "Validate path (resolver_Column (fold apply_op ops r)) = None"
  shows "\<exists>st vs. start_node f start goal = Some st \<and> path_steps path = walk_steps st vs \<and>
     legal_walk (resolver_Column (fold apply_op ops r)) (fd_rules f) (fd_occupancy f) goal st vs"
proof -
  obtain p vs where p: "snd (resolveStart (newSearch (fd_world f) (fd_rules f) (fd_occupancy f) goal) start) = Inr p"
    and found: "found_path (resolver_Column r) (fd_rules f) (fd_occupancy f) goal (nodeFromPosition p) path vs"
    using resolver_world.Find_found [OF assms(1,3,2,4)] by blast
  have "resolver_evolves r (fold apply_op ops r)" using assms(5) by (auto simp: resolver_evolves_def)
  from resolver_world.Validate_keeps_walk [OF found this assms(6)]
  have "legal_walk (resolver_Column (fold apply_op ops r)) (fd_rules f) (fd_occupancy f) goal (nodeFromPosition p) vs" .
  moreover have "start_node f start goal = Some (nodeFromPosition p)" using p by (simp add: start_node_def)
  ultimately show ?thesis using found unfolding found_path_def by blast
qed

text \<open>What a legal step is, in the room's terms: from a node to an adjacent tile that exists,
  onto a walkable section of that tile's column, clear for an avatar, not taken by another unit, at
  most \<open>MaxStepUp\<close> higher and, unless falling is allowed, at most \<open>MaxStepDown\<close> lower.\<close>

theorem legal_step_meaning:
  assumes "resolver_ok r" and "0 \<le> sint (nk_z u)"
    and "legal_step (resolver_Column r) rules oc goal u v"
  shows "Adjacent (key_point u) (key_point v) \<and> v \<notin> oc \<and>
    (\<exists>c s. resolver_Column r (key_point v) = Inr c \<and> s \<in> set (Sections c) \<and> sec_z s = nk_z v \<and>
       sec_Walkable s \<and> Accepts c s) \<and>
    sint (nk_z v) - sint (nk_z u) \<le> sint (ru_MaxStepUp rules) \<and>
    (ru_AllowFalling rules \<or> sint (nk_z u) - sint (nk_z v) \<le> sint (ru_MaxStepDown rules) \<or>
       sint (nk_z u) \<le> sint (nk_z v))"
proof -
  obtain d sec where d: "d \<in> set directions" and sec: "v = section_key sec"
      "sec \<in> set (entered (resolver_Column r) rules oc goal u d)"
    using assms(3) by (auto simp: legal_step_def list_ex_iff)
  from sec(2) obtain p c where p: "neighborPoint u d = Some p" "resolver_Column r p = Inr c"
    "in_column sec c" "enterable (resolver_Column r) rules oc u sec"
    by (rule entered_cases)
  have at: "sec_point sec = p" "0 \<le> sint (sec_z sec)"
    using resolver_world.sections_placed resolver_world.sections_level assms(1) p by blast+
  have v: "key_point v = p" "nk_z v = sec_z sec"
    using at(1) sec(1) by (auto simp: section_key_def key_point_def)
  have "Adjacent (key_point u) p"
    using neighbor_diagonal(2,3) [OF d p(1)] d
    by (auto simp: Adjacent_def key_point_def directions_def)
  moreover have "col_inv c" using p(2) by (rule resolver_Column_Inr)
  then have "sec \<in> set (Sections c)" using p(3) by (rule in_column_list)
  moreover have "sint (- (sec_z sec - nk_z u)) = sint (nk_z u) - sint (sec_z sec)"
    using height_diff [OF at(2) assms(2)] by simp
  ultimately show ?thesis
    using p at v assms(2) height_diff [OF assms(2) at(2)] sec(1)
    by (auto simp: enterable_def AllowsSection_def AllowsStep_def blocks_def Let_def split: if_splits)
qed

subsection \<open>Concrete searches\<close>

lemma flat_finder_world: "fd_world flat_finder = resolver_Column chair_resolver"
  by (simp add: flat_finder_def NewFinder_def)

lemma flat_start_level: "0 \<le> sint (pos_z flat_start)"
  by (simp add: flat_start_def)

lemma flat_find_chair: "\<exists>path. Find flat_finder flat_start (Point 1 0) = Some (Inr path) \<and>
    path_Len path = 1 \<and> Validate path (resolver_Column (fold apply_op [OpRemove 9] chair_resolver)) = None"
proof -
  have "case Find flat_finder flat_start (Point 1 0) of Some (Inr path) \<Rightarrow> path_Len path = 1 \<and>
      Validate path (\<lambda>p. resolver_Column (fold apply_op [OpRemove 9] chair_resolver) p) = None | _ \<Rightarrow> False"
    by code_simp
  then show ?thesis by (simp split: option.splits sum.splits)
qed

lemma flat_find_none: "Find flat_finder flat_start (Point 2 0) = Some (Inl ErrNoPath)"
proof -
  have "case Find flat_finder flat_start (Point 2 0) of
      Some (Inl e) \<Rightarrow> (case e of ErrNoPath \<Rightarrow> True | _ \<Rightarrow> False) | _ \<Rightarrow> False"
    by code_simp
  then show ?thesis by (simp split: option.splits sum.splits path_error.splits)
qed

theorem Find_always_returns_witness:
  "\<exists>res. Find (NewFinderWithOccupancy (resolver_Column chair_resolver) DefaultRules {}) flat_start (Point 2 0) = Some res"
  by (rule Find_always_returns [OF chair_resolver_ok flat_start_level])

theorem Find_sound_and_optimal_witness:
  "\<exists>path st v. Find flat_finder flat_start (Point 1 0) = Some (Inr path) \<and>
     start_node flat_finder flat_start (Point 1 0) = Some st \<and> path_steps path = [step_between st v] \<and>
     key_point v = Point 1 0"
proof -
  obtain path where path: "Find flat_finder flat_start (Point 1 0) = Some (Inr path)" "path_Len path = 1"
    using flat_find_chair by blast
  obtain st vs where "start_node flat_finder flat_start (Point 1 0) = Some st"
    "path_steps path = walk_steps st vs" "key_point (last (st # vs)) = Point 1 0"
    using Find_sound_and_optimal [OF chair_resolver_ok flat_start_level flat_finder_world path(1)] by blast
  with path show ?thesis by (cases vs; cases "tl vs") (auto simp: path_Len_def)
qed

theorem Find_complete_witness:
  "\<exists>st. start_node flat_finder flat_start (Point 2 0) = Some st \<and>
     (\<forall>vs. legal_walk (resolver_Column chair_resolver) (fd_rules flat_finder) (fd_occupancy flat_finder)
        (Point 2 0) st vs \<longrightarrow> key_point (last (st # vs)) \<noteq> Point 2 0)"
  by (rule Find_complete [OF chair_resolver_ok flat_start_level flat_finder_world flat_find_none])

theorem Validate_keeps_path_legal_witness:
  "\<exists>path st vs. Find flat_finder flat_start (Point 1 0) = Some (Inr path) \<and>
     path_steps path = walk_steps st vs \<and>
     legal_walk (resolver_Column (fold apply_op [OpRemove 9] chair_resolver))
       (fd_rules flat_finder) (fd_occupancy flat_finder) (Point 1 0) st vs"
proof -
  obtain path where path: "Find flat_finder flat_start (Point 1 0) = Some (Inr path)"
    "Validate path (resolver_Column (fold apply_op [OpRemove 9] chair_resolver)) = None"
    using flat_find_chair by blast
  show ?thesis
    using Validate_keeps_path_legal [OF chair_resolver_ok flat_start_level flat_finder_world path(1) _ path(2)]
      path(1) by auto
qed

definition far_left :: node_key where "far_left = \<lparr>nk_x = 0, nk_y = 0, nk_z = 0\<rparr>"
definition on_chair :: node_key where "on_chair = \<lparr>nk_x = 1, nk_y = 0, nk_z = 4\<rparr>"

lemma step_to_chair: "legal_step (resolver_Column chair_resolver) DefaultRules {} (Point 1 0) far_left on_chair"
  by code_simp

theorem legal_step_meaning_witness:
  "Adjacent (key_point far_left) (key_point on_chair) \<and>
   (\<exists>c s. resolver_Column chair_resolver (key_point on_chair) = Inr c \<and> s \<in> set (Sections c) \<and>
      sec_z s = nk_z on_chair)"
  using legal_step_meaning [OF chair_resolver_ok _ step_to_chair] by (auto simp: far_left_def)

theorem resolver_stays_ok_witness:
  "\<exists>r c. NewResolver flat_grid [chair_fixture] = Inr r \<and>
     resolver_Column (fold apply_op [OpRemove 7] r) (Point 1 0) = Inr c \<and> Sections c \<noteq> [] \<and>
     (\<forall>s. s \<in> set (Sections c) \<longrightarrow> sec_point s = Point 1 0)"
proof -
  have wf: "wf_grid flat_grid"
    by (simp add: wf_grid_def flat_grid_def TileCount_def FlagInvalid_def)
  have lev: "list_all (\<lambda>f. 0 \<le> sint (fx_z f)) [chair_fixture]" by (simp add: chair_fixture_def)
  have "\<exists>r c. NewResolver flat_grid [chair_fixture] = Inr r \<and>
     resolver_Column (fold apply_op [OpRemove 7] r) (Point 1 0) = Inr c"
    by (simp add: sample_world_defs NewResolver_def AddFixture_def grid_Index_def InBounds_def
        grid_Valid_def FlagsAt_def grid_Tile_def FlagInvalid_def RemoveFixtures_def resolver_Column_def
        tile_Valid_def)
  then obtain r c where r: "NewResolver flat_grid [chair_fixture] = Inr r"
    and c: "resolver_Column (fold apply_op [OpRemove 7] r) (Point 1 0) = Inr c" by blast
  have "Sections c \<noteq> []" using c column_list_props(2) by (elim resolver_Column_Inr) metis
  with r c resolver_stays_ok [OF wf lev r, of "[OpRemove 7]" "Point 1 0" c] show ?thesis by auto
qed

end
