(* ===== verification/World_Correct.thy ===== *)
theory World_Correct
  imports World_Invariant Path_Correct
begin

text \<open>
  Properties of the room world: what holds in every reachable world, what one tick does, what a
  planned path avoids, when furniture may be placed, and that the furniture index is exact.
\<close>

subsection \<open>Reachable worlds\<close>

text \<open>Unit identities are sound in every reachable world: two units never share a room-local id,
  and looking a unit up by its id yields the snapshot of exactly that unit.\<close>

theorem unit_ids_sound:
  assumes "world_New c = Inr w0" and "w = fold (world_step units) ops w0"
    and "unit_of w k = Some u"
  shows "UnitByID w (u_id u) = Some (unitSnapshot k u) \<and>
    (\<forall>j v. unit_of w j = Some v \<longrightarrow> u_id v = u_id u \<longrightarrow> j = k)"
proof -
  have inv: "world_inv w" using reachable_world_inv assms(1,2) by simp
  have keys: "w_unitKeys w uid = Some j \<longleftrightarrow> (\<exists>v. unit_of w j = Some v \<and> u_id v = uid)" for uid j
    using inv by (simp add: world_inv_def ids_inv_def unit_of_def)
  then have "w_unitKeys w (u_id u) = Some k" using assms(3) by blast
  moreover from this have "UnitByID w (u_id u) = Some (unitSnapshot k u)"
    using assms(3) by (simp add: UnitByID_def snapshot_of_def)
  moreover have "j = k" if "unit_of w j = Some v" "u_id v = u_id u" for j v
    using that keys [of "u_id u" j] calculation(1) by auto
  ultimately show ?thesis by blast
qed

text \<open>C5: Slot reservations are sound in every reachable world: the player recorded on a slot tile
  is a unit of the room and has that very tile as its slot, so no unit is recorded on two slots, and
  releasing its slot frees the tile.\<close>

theorem slots_sound:
  assumes "world_New c = Inr w0" and "w = fold (world_step units) ops w0"
    and "w_slotOccupants w p = Some k"
  shows "unit_of w k \<noteq> None \<and> w_unitSlots w k = Some p \<and>
    (\<forall>q. w_slotOccupants w q = Some k \<longrightarrow> q = p) \<and> w_slotOccupants (releaseSlot k w) p = None"
proof -
  have "slots_inv (w_units w) (w_unitSlots w) (w_slotOccupants w)"
    using reachable_world_inv [OF assms(1), of units ops] assms(2) by (simp add: world_inv_def)
  then have slot: "w_unitSlots w j = Some q" "unit_of w j \<noteq> None" if "w_slotOccupants w q = Some j" for q j
    using that unfolding slots_inv_def unit_of_def by blast+
  note k = slot [OF assms(3)]
  moreover have "w_slotOccupants (releaseSlot k w) p = None" using k(1) by (simp add: releaseSlot_def)
  moreover have "q = p" if "w_slotOccupants w q = Some k" for q using slot(1) [OF that] k(1) by simp
  ultimately show ?thesis by blast
qed

text \<open>C6: Riding links are sound in every reachable world: a link is mutual and exclusive, joins a
  player and a pet that are both in the room, and is gone from both sides once either is removed.\<close>

theorem mount_links_sound:
  assumes "world_New c = Inr w0" and "w = fold (world_step units) ops w0" and "linkedKey w a = Some b"
  shows "linkedKey w b = Some a \<and> (\<forall>x. linkedKey w x = Some b \<longrightarrow> x = a) \<and>
    (\<exists>u v. unit_of w a = Some u \<and> unit_of w b = Some v \<and> {u_kind u, u_kind v} = {KindPlayer, KindPet}) \<and>
    linkedKey (RemoveUnit a w) b = None"
proof -
  have inv: "mounts_inv (w_units w) (w_mounts w)"
    using reachable_world_inv [OF assms(1), of units ops] assms(2) by (simp add: world_inv_def)
  then have ok: "mount_ok (w_mounts w)" by (simp add: mounts_inv_def)
  have ab: "mount_Linked (w_mounts w) a = Some b" using assms(3) by (simp add: linkedKey_def)
  note ba = mount_links.linked_sym [OF ok ab]
  have "\<exists>u v. unit_of w a = Some u \<and> unit_of w b = Some v \<and> {u_kind u, u_kind v} = {KindPlayer, KindPet}"
  proof (cases "ms_mounts (w_mounts w) a = Some b")
    case True
    then show ?thesis using inv by (fastforce simp: mounts_inv_def unit_of_def)
  next
    case False
    then have "ms_mounts (w_mounts w) b = Some a"
      using ab mount_ok_links(1) [OF ok, of b a] by (auto simp: Linked_iff)
    then show ?thesis using inv by (fastforce simp: mounts_inv_def unit_of_def)
  qed
  moreover have "w_mounts (RemoveUnit a w) = unlink_keys (w_mounts w) a"
    by (simp add: RemoveUnit_def Let_def unlinkMount_frame split: option.splits)
  then have "linkedKey (RemoveUnit a w) b = None"
    using mount_links.unlink_linked [OF ok, of a b] ab by (simp add: linkedKey_def)
  moreover have "x = a" if "linkedKey w x = Some b" for x
    using mount_links.linked_unique [OF ok, of x b a] ab that by (simp add: linkedKey_def)
  ultimately show ?thesis using ba by (simp add: linkedKey_def)
qed

subsection \<open>One tick\<close>

lemma settle_frame:
  "w_resolver (settleUnit k u w) = w_resolver w"
  "j \<noteq> k \<Longrightarrow> unit_of (settleUnit k u w) j = unit_of w j"
  "map_option u_position (unit_of (settleUnit k u w) j) = map_option u_position (unit_of w j)"
proof -
  have pos: "u_position (Settle s v b h x) = u_position x" for s v b h x
    by (simp add: Settle_def SetStatus_def ClearStatus_def)
  have occ: "unit_of (occupySlot k p w) j = unit_of w j" "w_resolver (occupySlot k p w) = w_resolver w" for p j
    by (simp_all add: occupySlot_def Let_def releaseSlot_def unit_of_def split: option.splits)
  have change: "w_resolver (change k f v) = w_resolver v" for f v by (simp add: change_def)
  show "w_resolver (settleUnit k u w) = w_resolver w"
    "j \<noteq> k \<Longrightarrow> unit_of (settleUnit k u w) j = unit_of w j"
    "map_option u_position (unit_of (settleUnit k u w) j) = map_option u_position (unit_of w j)"
    by (simp_all add: settleUnit_def Let_def settleOnSection_def change unit_of_change occ pos
        option.map_comp comp_def split: sum.splits option.splits)
qed

lemma change_resolver [simp]: "w_resolver (change k f w) = w_resolver w"
  by (simp add: change_def)

lemma tick_unit_frame:
  "w_resolver (fst (tick_unit k w)) = w_resolver w"
  "j \<noteq> k \<Longrightarrow> unit_of (fst (tick_unit k w)) j = unit_of w j"
  by (auto simp: tick_unit_def Let_def settle_frame unit_of_change
      split: option.splits prod.splits sum.splits)

text \<open>What the movement of one unit says about the unit before and after.\<close>

lemma tick_unit_moved:
  assumes "m \<in> set (snd (tick_unit k w))"
  shows "mv_PlayerID m = k \<and> (mv_Moved m \<longrightarrow> (\<exists>u rest. unit_of w k = Some u \<and>
      u_steps u = mv_Step m # rest \<and> Validate (u_activePath u) (resolver_Column (w_resolver w)) = None \<and>
      map_option u_position (unit_of (fst (tick_unit k w)) k) = Some (st_position (mv_Step m))))"
proof (cases "unit_of w k")
  case None
  with assms show ?thesis by (simp add: tick_unit_def)
next
  case (Some u)
  show ?thesis
  proof (cases "Moving u \<and> ValidatePath (resolver_Column (w_resolver w)) u \<noteq> None")
    case True
    with assms Some show ?thesis by (simp add: tick_unit_def Let_def)
  next
    case False
    obtain u1 s moved settled where adv: "Advance u = (u1, s, moved, settled)" by (metis surj_pair)
    note eq = False Some adv
    show ?thesis
    proof (cases "u_steps u")
      case Nil
      then have "\<not> moved" using adv by (auto simp: Advance_def split: if_splits)
      then show ?thesis
        using assms Some False adv by (auto simp: tick_unit_def Let_def split: if_splits)
    next
      case (Cons s' rest)
      then have st: "s = s'" "moved" "\<not> settled" "u_position u1 = st_position s"
        using adv by (auto simp: Advance_def Let_def setMoveStatus_def rotateToward_def SetStatus_def)
      have ok: "ValidatePath (resolver_Column (w_resolver w)) u = None"
        using False Cons by (simp add: Moving_def)
      then have "Validate (u_activePath u) (resolver_Column (w_resolver w)) = None"
        using Cons by (simp add: ValidatePath_def)
      moreover have "tick_unit k w = (change k (\<lambda>_. u1) w, snd (tick_unit k w))"
        using Some ok adv st by (simp add: tick_unit_def Let_def)
      then have "unit_of (fst (tick_unit k w)) k = Some u1"
        using Some by (metis fst_conv option.simps(9) unit_of_change)
      ultimately show ?thesis
        using assms Some ok adv st Cons by (auto simp: tick_unit_def Let_def)
    qed
  qed
qed

lemma tick_unit_one: "length (snd (tick_unit k w)) \<le> 1"
  by (simp add: tick_unit_def Let_def split: option.splits prod.splits)

lemma tick_units_Cons:
  "tick_units (k # ks) w = (fst (tick_units ks (fst (tick_unit k w))),
     snd (tick_unit k w) @ snd (tick_units ks (fst (tick_unit k w))))"
  by (simp split: prod.splits)

declare tick_units.simps(2) [simp del] tick_units_Cons [simp]

lemma tick_units_frame:
  "w_resolver (fst (tick_units ks w)) = w_resolver w"
  "j \<notin> set ks \<Longrightarrow> unit_of (fst (tick_units ks w)) j = unit_of w j"
proof (induction ks arbitrary: w)
  case (Cons k ks)
  {
    case 1
    then show ?case
      using Cons.IH(1) [of "fst (tick_unit k w)"] tick_unit_frame(1) [of k w] by simp
  next
    case 2
    then show ?case
      using Cons.IH(2) [of "fst (tick_unit k w)"] tick_unit_frame(2) [of j k w] by simp
  }
qed simp_all

lemma tick_units_moved:
  "distinct ks \<Longrightarrow> m \<in> set (snd (tick_units ks w)) \<Longrightarrow> mv_Moved m \<Longrightarrow>
    \<exists>u rest. unit_of w (mv_PlayerID m) = Some u \<and> u_steps u = mv_Step m # rest \<and>
      Validate (u_activePath u) (resolver_Column (w_resolver w)) = None \<and>
      map_option u_position (unit_of (fst (tick_units ks w)) (mv_PlayerID m)) = Some (st_position (mv_Step m))"
proof (induction ks arbitrary: w)
  case (Cons k ks)
  let ?w = "fst (tick_unit k w)"
  note split = tick_units_Cons [of k ks w]
  show ?case
  proof (cases "m \<in> set (snd (tick_unit k w))")
    case True
    from tick_unit_moved [OF this] Cons.prems(3) obtain u rest where
      k: "mv_PlayerID m = k" and u: "unit_of w k = Some u" "u_steps u = mv_Step m # rest"
      "Validate (u_activePath u) (resolver_Column (w_resolver w)) = None"
      "map_option u_position (unit_of ?w k) = Some (st_position (mv_Step m))" by blast
    have "unit_of (fst (tick_units ks ?w)) k = unit_of ?w k"
      using tick_units_frame(2) Cons.prems(1) by simp
    with k u show ?thesis unfolding split by simp
  next
    case False
    then have m: "m \<in> set (snd (tick_units ks ?w))" using Cons.prems(2) unfolding split by simp
    have other: "mv_PlayerID x \<in> set js" if "x \<in> set (snd (tick_units js v))" for x js v
      using that
    proof (induction js arbitrary: v)
      case (Cons j js)
      then show ?case using tick_unit_moved [of x j v] by auto
    qed simp
    have "mv_PlayerID m \<noteq> k" using other [OF m] Cons.prems(1) by auto
    then show ?thesis
      using Cons.IH [OF _ m Cons.prems(3)] Cons.prems(1) unfolding split
      by (simp add: tick_unit_frame)
  qed
qed simp

lemma tick_units_order:
  "sorted ks \<Longrightarrow> distinct ks \<Longrightarrow> sorted_wrt (<) (map mv_PlayerID (snd (tick_units ks w))) \<and>
     mv_PlayerID ` set (snd (tick_units ks w)) \<subseteq> set ks"
proof (induction ks arbitrary: w)
  case (Cons k ks)
  let ?w = "fst (tick_unit k w)"
  have split: "snd (tick_units (k # ks) w) = snd (tick_unit k w) @ snd (tick_units ks ?w)" by simp
  have IH: "sorted_wrt (<) (map mv_PlayerID (snd (tick_units ks ?w)))"
    "mv_PlayerID ` set (snd (tick_units ks ?w)) \<subseteq> set ks" using Cons by simp_all
  have k: "snd (tick_unit k w) = [] \<or> (\<exists>m. snd (tick_unit k w) = [m] \<and> mv_PlayerID m = k)"
    using tick_unit_one [of k w] tick_unit_moved [of _ k w]
    by (cases "snd (tick_unit k w)") auto
  have "k < x" if "x \<in> set ks" for x using Cons.prems that by (auto simp: order.strict_iff_order)
  with IH k show ?case unfolding split by fastforce
qed simp

text \<open>C4: A tick moves units safely: a unit that the tick reports as moved had a path that was valid
  against the current room, it took exactly the next pending step of that path and stands there
  after the whole tick; every unit is reported at most once, in ascending order of keys.\<close>

theorem Tick_moves_validated_steps:
  assumes "world_inv w"
  shows "sorted_wrt (<) (map mv_PlayerID (snd (Tick w))) \<and>
    (\<forall>m\<in>set (snd (Tick w)). mv_Moved m \<longrightarrow>
      (\<exists>u rest. unit_of w (mv_PlayerID m) = Some u \<and> u_steps u = mv_Step m # rest \<and>
        Validate (u_activePath u) (resolver_Column (w_resolver w)) = None \<and>
        map_option u_position (unit_of (fst (Tick w)) (mv_PlayerID m)) = Some (st_position (mv_Step m))))"
proof -
  have d: "distinct (sortedPlayerIDs w)" "sorted (sortedPlayerIDs w)"
    using assms by (simp_all add: world_inv_def ids_inv_def sortedPlayerIDs_def)
  show ?thesis
    using tick_units_order [OF d(2,1)] tick_units_moved [OF d(1)] by (simp add: Tick_def)
qed

subsection \<open>Planned paths avoid other units\<close>

lemma walk_steps_nodes:
  "s \<in> set (walk_steps u vs) \<Longrightarrow> nodeFromPosition (st_position s) \<in> set vs"
  by (induction vs arbitrary: u)
    (auto simp: step_between_def nodeFromPosition_def key_position_def key_point_def)

lemma legal_walk_unblocked: "legal_walk W r oc goal u vs \<Longrightarrow> v \<in> set vs \<Longrightarrow> v \<notin> oc"
proof (induction vs arbitrary: u)
  case (Cons x xs)
  have "x \<notin> oc" if "legal_step W r oc goal u x"
    using that by (auto simp: legal_step_def list_ex_iff elim!: entered_cases simp: enterable_def blocks_def)
  with Cons show ?case by auto
qed simp

text \<open>No collisions: a path that the world plans for a unit never has a step at the position or at
  the movement goal of another unit of the room (its own mount or rider excepted).\<close>

theorem planned_path_avoids_units:
  assumes "world_inv w" and "resolver_ok (w_resolver w)"
    and "PlanMovement k goal w = Inr plan" and "0 \<le> sint (pos_z (mp_Start plan))"
    and "FindPath w plan = Some (Inr path)" and "s \<in> set (path_steps path)"
    and "unit_of w j = Some v" and "j \<noteq> k" and "linkedKey w k \<noteq> Some j"
  shows "st_position s \<noteq> u_position v \<and> Goal v \<noteq> Some (st_position s)"
proof -
  let ?f = "NewFinderWithOccupancy (resolver_Column (w_resolver w)) (w_rules w) (mp_Occupancy plan)"
  have f: "fd_world ?f = resolver_Column (w_resolver w)" "fd_occupancy ?f = mp_Occupancy plan"
    by (simp_all add: NewFinderWithOccupancy_def)
  obtain p vs where
    "found_path (resolver_Column (w_resolver w)) (fd_rules ?f) (mp_Occupancy plan) (mp_Goal plan) (nodeFromPosition p) path vs"
    using resolver_world.Find_found [OF assms(2) f(1) assms(4) assms(5) [unfolded FindPath_def]]
    unfolding f(2) by blast
  then have "nodeFromPosition (st_position s) \<notin> mp_Occupancy plan"
    using legal_walk_unblocked walk_steps_nodes assms(6) unfolding found_path_def by metis
  moreover have "mp_Occupancy plan = occupancyExcept w k"
    using assms(3) by (auto simp: PlanMovement_def split: option.splits)
  moreover have "(j, v) \<in> set (w_units w)" using assms(7) by (simp add: unit_of_def map_of_SomeD)
  then have "nodeFromPosition (u_position v) \<in> occupancyExcept w k \<and>
      (\<forall>g. Goal v = Some g \<longrightarrow> nodeFromPosition g \<in> occupancyExcept w k)"
    using assms(8,9) by (force simp: occupancyExcept_def NewOccupancy_def)
  ultimately show ?thesis by metis
qed

subsection \<open>Placing furniture\<close>

lemma placement_loop_ok:
  "placement_loop w sid occupied h ps = Inr h' \<Longrightarrow> sint h \<le> sint h' \<and>
    (\<forall>p\<in>set ps. p \<notin> set occupied \<and> (\<exists>base c. HeightAt (w_grid w) p = Some base \<and>
       resolver_Column (w_resolver w) p = Inr c \<and>
       (case topExcludingSource c sid of None \<Rightarrow> sint base \<le> sint h'
        | Some s \<Rightarrow> sec_stacking s \<and> sint (sec_top s) \<le> sint h')))"
proof (induction ps arbitrary: h)
  case (Cons p ps)
  from Cons.prems obtain base c where p: "p \<notin> set occupied" "HeightAt (w_grid w) p = Some base"
    "resolver_Column (w_resolver w) p = Inr c"
    by (auto split: if_splits option.splits sum.splits)
  show ?case
  proof (cases "topExcludingSource c sid")
    case None
    then have "placement_loop w sid occupied (if sint base > sint h then base else h) ps = Inr h'"
      using Cons.prems p by simp
    from Cons.IH [OF this] p None show ?thesis by (auto split: if_splits)
  next
    case (Some s)
    then have "sec_stacking s"
      and "placement_loop w sid occupied (if sint (sec_top s) > sint h then sec_top s else h) ps = Inr h'"
      using Cons.prems p by (auto split: if_splits)
    with Cons.IH [OF this(2)] p Some show ?thesis by (auto split: if_splits)
  qed
qed simp

text \<open>Furniture is placed only where it may stand: if a footprint is accepted, every tile of it
  exists, no unit stands there but one seated on the item that is being moved, what is on top (apart
  from the item itself) allows stacking, and the returned height is not below any of these tops.\<close>

theorem placement_is_safe:
  assumes "ResolveFurniturePlacement w sid footprint = Inr h" and "p \<in> set footprint"
  shows "(\<exists>base c. HeightAt (w_grid w) p = Some base \<and> resolver_Column (w_resolver w) p = Inr c \<and>
      (case topExcludingSource c sid of None \<Rightarrow> sint base \<le> sint h
       | Some s \<Rightarrow> sec_stacking s \<and> sint (sec_top s) \<le> sint h)) \<and>
    (\<forall>k u. unit_of w k = Some u \<longrightarrow> pos_point (u_position u) = p \<longrightarrow>
       w_slotOccupants w p = Some k \<and>
       (\<exists>i s. furniture_of w sid = Some i \<and> s \<in> set (Slots i) \<and> sl_Point s = p))"
proof -
  have loop: "p \<notin> set (unitPositionsExcludingSource w sid)"
    "\<exists>base c. HeightAt (w_grid w) p = Some base \<and> resolver_Column (w_resolver w) p = Inr c \<and>
      (case topExcludingSource c sid of None \<Rightarrow> sint base \<le> sint h
       | Some s \<Rightarrow> sec_stacking s \<and> sint (sec_top s) \<le> sint h)"
    using placement_loop_ok [of w sid _ 0 footprint h] assms by (auto simp: ResolveFurniturePlacement_def)
  have "w_slotOccupants w p = Some k \<and> (\<exists>i s. furniture_of w sid = Some i \<and> s \<in> set (Slots i) \<and> sl_Point s = p)"
    if "unit_of w k = Some u" "pos_point (u_position u) = p" for k u
  proof -
    have "(k, u) \<in> set (w_units w)" using that(1) by (simp add: unit_of_def map_of_SomeD)
    moreover define own where "own = (case furniture_of w sid of None \<Rightarrow> [] | Some i \<Rightarrow> map sl_Point (Slots i))"
    ultimately have "p \<in> set own \<and> w_slotOccupants w p = Some k"
      using loop(1) that(2) unfolding unitPositionsExcludingSource_def Let_def own_def by force
    then show ?thesis by (cases "furniture_of w sid") (auto simp: own_def)
  qed
  with loop(2) show ?thesis by blast
qed

subsection \<open>The furniture index\<close>

definition furn :: "world_state \<Rightarrow> (ident \<times> item) list \<times> (point \<Rightarrow> ident list)" where
  "furn w = (w_furniture w, w_furnitureTiles w)"

lemma furn_base [simp]:
  "furn (change k f w) = furn w" "furn (releaseSlot k w) = furn w" "furn (occupySlot k p w) = furn w"
  "furn (w\<lparr>w_mounts := ms, w_units := us\<rparr>) = furn w" "furn (w\<lparr>w_mounts := ms\<rparr>) = furn w"
  "furn (w\<lparr>w_units := us\<rparr>) = furn w"
  "furn (w\<lparr>w_unitKeys := ks\<rparr>) = furn w" "furn (w\<lparr>w_unitKeys := ks, w_units := us\<rparr>) = furn w"
  "furn (w\<lparr>w_resolver := r\<rparr>) = furn w" "furn (add_unit k u w) = furn w"
  "furn (ClearUnits w) = furn w" "furn (addInteraction i w) = furn w" "furn (removeInteraction i w) = furn w"
  by (simp_all add: furn_def change_def releaseSlot_def occupySlot_def add_unit_def ClearUnits_def
      addInteraction_def removeInteraction_def Let_def split: option.splits)

lemma furn_unlink [simp]: "furn (unlinkMount k w) = furn w"
  by (simp add: unlinkMount_def split: prod.splits)

lemma furn_linked [simp]: "furn (with_linked k f w) = furn w"
  "furn (give_path k p c w) = furn w" "furn (assignLinkedPath k p c w) = furn w"
  "furn (repositionUnit k pt z r b w) = furn w"
  by (simp_all add: with_linked_def give_path_def assignLinkedPath_def repositionUnit_def Let_def
      split: option.splits)

lemma furn_units [simp]:
  "furn (AddUnit k w) = furn w" "furn (fst (AddEntity k own kd p r w)) = furn w"
  "furn (RemoveUnit k w) = furn w" "furn (fst (RemoveEntity k w)) = furn w"
  "furn (fst (SetMount a b m w)) = furn w"
  by (simp_all add: AddUnit_def AddEntity_def RemoveUnit_def RemoveEntity_def SetMount_def Let_def
      split: option.splits sum.splits prod.splits bool.splits)

lemma furn_teleportNear [simp]: "furn (fst (teleportNear k r c ps w)) = furn w"
  by (induction ps) (simp_all add: Let_def split: sum.splits)

lemma furn_moves [simp]:
  "furn (fst (ApplyControlledMovement k p c w)) = furn w" "furn (fst (TeleportUnit k pt r b pol w)) = furn w"
  "furn (fst (ApplyControlledStep k pt c w)) = furn w"
  "furn (fst (ApplyControlledInteractionStep k pt c w)) = furn w" "furn (fst (FaceTo k pt w)) = furn w"
  "furn (fst (RollUnit k pos w)) = furn w"
  by (simp_all add: ApplyControlledMovement_def TeleportUnit_def ApplyControlledStep_def
      ApplyControlledInteractionStep_def FaceTo_def RollUnit_def Let_def
      split: option.splits sum.splits)

lemma furn_on_unit [simp]: "furn (fst (on_unit k f w)) = furn w"
  by (simp add: on_unit_def Let_def split: option.splits)

lemma furn_commands [simp]:
  "furn (fst (setUnitIdleAt k b m t w)) = furn w" "furn (fst (SetUnitPosture k b w)) = furn w"
  "furn (fst (SetUnitDance k d w)) = furn w" "furn (fst (SetUnitEffect k e w)) = furn w"
  "furn (fst (world_SetHandItem k i w)) = furn w" "furn (fst (world_StopMovement k w)) = furn w"
  "furn (fst (SetUnitControl k c w)) = furn w" "furn (fst (SetUnitStatus k key v w)) = furn w"
  "furn (fst (ClearUnitStatus k key w)) = furn w" "furn (fst (PulseUnitStatus k key v w)) = furn w"
  "furn (fst (ReloadFixtures sid fs w)) = furn w"
  by (simp_all add: setUnitIdleAt_def SetUnitPosture_def SetUnitDance_def SetUnitEffect_def
      world_SetHandItem_def world_StopMovement_def SetUnitControl_def SetUnitStatus_def
      ClearUnitStatus_def PulseUnitStatus_def ReloadFixtures_def Let_def
      split: option.splits prod.splits)

lemma furn_tick [simp]: "furn (fst (tick_units ks w)) = furn w"
proof -
  have settle: "furn (settleUnit k u w) = furn w" for k u w
    by (simp add: settleUnit_def settleOnSection_def Let_def split: sum.splits option.splits)
  have "furn (fst (tick_unit k w)) = furn w" for k w
    by (simp add: tick_unit_def Let_def settle split: option.splits prod.splits sum.splits)
  then show ?thesis by (induction ks arbitrary: w) simp_all
qed

lemma furn_reconcile [simp]: "furn (fst (reconcileSlotOccupants prev i w)) = furn w"
proof -
  have "furn (fst (reconcile_slot upd i s a)) = furn (fst a)" for upd s a
    by (simp add: reconcile_slot_def Let_def split: prod.splits option.splits sum.splits)
  then have "furn (fst (fold (reconcile_slot upd i) prev a)) = furn (fst a)" for upd a
    by (induction prev arbitrary: a) simp_all
  then show ?thesis by (simp add: reconcileSlotOccupants_def Let_def)
qed

lemma furn_resettle [simp]: "furn (fst (ResettleFurnitureUnits i w)) = furn w"
proof -
  have "furn (fst (resettle_unit it k a)) = furn (fst a)" for it k a
    by (simp add: resettle_unit_def Let_def split: prod.splits option.splits sum.splits)
  then have "furn (fst (fold (resettle_unit it) ks a)) = furn (fst a)" for it ks a
    by (induction ks arbitrary: a) simp_all
  then show ?thesis by (simp add: ResettleFurnitureUnits_def split: option.splits)
qed

lemma furn_indexes [simp]:
  "furn (addFurnitureIndexes i w) = (fst (furn w), add_tiles (it_ID i) (item_Footprint i) (snd (furn w)))"
  "furn (removeFurnitureIndexes i w) =
     (fst (furn w), fold (\<lambda>p m. m(p := remove1 (it_ID i) (m p))) (item_Footprint i) (snd (furn w)))"
  "furn (w\<lparr>w_resolver := r, w_furniture := fs\<rparr>) = (fs, snd (furn w))"
  by (simp_all add: furn_def addFurnitureIndexes_def removeFurnitureIndexes_def Let_def)

text \<open>The index counts, for every tile and item, how often the item's footprint covers the tile.\<close>

definition index_exact :: "(ident \<times> item) list \<times> (point \<Rightarrow> ident list) \<Rightarrow> bool" where
  "index_exact a \<longleftrightarrow> (case a of (fs, tiles) \<Rightarrow> (\<forall>i it. map_of fs i = Some it \<longrightarrow> it_ID it = i) \<and>
     (\<forall>p i. count_list (tiles p) i = (case map_of fs i of None \<Rightarrow> 0 | Some it \<Rightarrow> count_list (item_Footprint it) p)))"

lemma count_add_tiles:
  "count_list (add_tiles i ps m p) j = count_list (m p) j + (if j = i then count_list ps p else 0)"
  unfolding add_tiles_def by (induction ps arbitrary: m) (auto simp: count_list_append)

lemma count_remove1: "count_list (remove1 i xs) j = count_list xs j - (if j = i then 1 else 0)"
  by (induction xs) auto

lemma count_remove_tiles:
  "count_list (fold (\<lambda>p m. m(p := remove1 i (m p))) ps m p) j =
     count_list (m p) j - (if j = i then count_list ps p else 0)"
  by (induction ps arbitrary: m) (auto simp: count_remove1)

definition same_places :: "item \<Rightarrow> item \<Rightarrow> bool" where
  "same_places a b \<longleftrightarrow> it_ID a = it_ID b \<and> item_Footprint a = item_Footprint b"

lemma index_exact_update_same:
  assumes "index_exact (fs, tiles)" "map_of fs i = Some it" "same_places it it'"
  shows "index_exact (AList.update i it' fs, tiles)"
  using assms by (auto simp: index_exact_def update_conv' same_places_def)

lemma furn_state_exact:
  assumes "index_exact (furn w)"
  shows "index_exact (furn (fst (SetFurnitureExtraData units i v w)))"
    and "index_exact (furn (fst (UpdateFurnitureState units i v rb w)))"
proof -
  have same: "same_places it (it\<lparr>it_ExtraData := v, it_Definition := (it_Definition it)\<lparr>fd_StackHeight := h\<rparr>\<rparr>)" for it h
    by (simp add: same_places_def item_Footprint_def)
  show "index_exact (furn (fst (SetFurnitureExtraData units i v w)))"
    "index_exact (furn (fst (UpdateFurnitureState units i v rb w)))"
    using assms index_exact_update_same [OF _ _ same]
    by (simp_all add: SetFurnitureExtraData_def UpdateFurnitureState_def furn_def Let_def furniture_of_def
        split: option.splits sum.splits prod.splits)
qed

lemma furn_reload_exact:
  assumes ix: "index_exact (furn w)" and id: "\<And>it. i = Some it \<Longrightarrow> it_ID it = sid"
  shows "index_exact (furn (fst (ReloadFurniture sid i w)))"
proof -
  define fs where "fs = (case i of Some it \<Rightarrow> AList.update sid it (w_furniture w)
                     | None \<Rightarrow> AList.delete sid (w_furniture w))"
  define t1 where "t1 = (case furniture_of w sid of None \<Rightarrow> w_furnitureTiles w
    | Some prev \<Rightarrow> fold (\<lambda>p m. m(p := remove1 (it_ID prev) (m p))) (item_Footprint prev) (w_furnitureTiles w))"
  define t2 where "t2 = (case i of None \<Rightarrow> t1 | Some it \<Rightarrow> add_tiles (it_ID it) (item_Footprint it) t1)"
  have idp: "it_ID prev = sid" if "furniture_of w sid = Some prev" for prev
    using ix that by (simp add: index_exact_def furn_def furniture_of_def)
  have cnt: "count_list (w_furnitureTiles w p) j =
      (case furniture_of w j of None \<Rightarrow> 0 | Some it \<Rightarrow> count_list (item_Footprint it) p)" for p j
    using ix by (simp add: index_exact_def furn_def furniture_of_def)
  have t1: "count_list (t1 p) j = (if j = sid then 0 else count_list (w_furnitureTiles w p) j)" for p j
    using cnt [of p sid] idp by (auto simp: t1_def count_remove_tiles split: option.splits)
  have t2: "count_list (t2 p) j = count_list (t1 p) j + (if j = sid then
      (case i of None \<Rightarrow> 0 | Some it \<Rightarrow> count_list (item_Footprint it) p) else 0)" for p j
    using id by (auto simp: t2_def count_add_tiles split: option.splits)
  have fs: "map_of fs j = (if j = sid then i else furniture_of w j)" for j
    by (cases i) (simp_all add: fs_def update_conv' delete_conv' furniture_of_def)
  have "index_exact (fs, t2)"
    using ix id cnt unfolding index_exact_def
    by (auto simp: fs t1 t2 furn_def furniture_of_def split: option.splits if_splits)
  moreover have "furn (fst (ReloadFurniture sid i w)) \<in> {furn w, (fs, t2)}"
  proof (cases "case i of None \<Rightarrow> Inr [] | Some it \<Rightarrow> Fixtures it")
    case (Inl e)
    then show ?thesis by (simp add: ReloadFurniture_def)
  next
    case (Inr fx)
    obtain r e where rep: "ReplaceFixtures (w_resolver w) sid fx = (r, e)" by fastforce
    show ?thesis
    proof (cases e)
      case None
      have tiles: "snd (furn w) = w_furnitureTiles w" by (simp add: furn_def)
      have "furn (fst (ReloadFurniture sid i w)) = (fs, t2)"
        unfolding ReloadFurniture_def Inr rep None Let_def
        by (cases "furniture_of w sid"; cases i)
          (simp_all add: fs_def t1_def t2_def tiles split_beta rep None)
      then show ?thesis by simp
    qed (simp add: ReloadFurniture_def Inr rep)
  qed
  ultimately show ?thesis using ix by auto
qed

text \<open>What callers guarantee: an item is reloaded under its own id.\<close>

fun own_id :: "world_op \<Rightarrow> bool" where
  "own_id (WReloadFurniture sid (Some it)) \<longleftrightarrow> it_ID it = sid"
| "own_id _ \<longleftrightarrow> True"

lemma world_step_exact:
  assumes "index_exact (furn w)" "own_id op" shows "index_exact (furn (world_step units op w))"
proof (cases op)
  case (WReloadFurniture sid i)
  then show ?thesis using assms furn_reload_exact [of w i sid] by (cases i) auto
qed (use assms in \<open>simp_all add: furn_state_exact Tick_def\<close>)

lemma Build_loop_exact:
  "Build_loop ix is = Inr ix' \<Longrightarrow> index_exact (ix_Items ix, ix_Tiles ix) \<Longrightarrow>
     distinct (map it_ID is) \<Longrightarrow> (\<forall>i\<in>set is. map_of (ix_Items ix) (it_ID i) = None) \<Longrightarrow>
     index_exact (ix_Items ix', ix_Tiles ix')"
proof (induction "is" arbitrary: ix)
  case (Cons i "is")
  then obtain fx where fx: "Fixtures i = Inr fx" "Build_loop (index_item i fx ix) is = Inr ix'"
    by (auto split: sum.splits)
  have "index_exact (ix_Items (index_item i fx ix), ix_Tiles (index_item i fx ix))"
    using Cons.prems(2,4)
    by (auto simp: index_exact_def index_item_def update_conv' count_add_tiles split: option.splits)
  moreover have "\<forall>j\<in>set is. map_of (ix_Items (index_item i fx ix)) (it_ID j) = None"
  proof
    fix j assume j: "j \<in> set is"
    then have "it_ID j \<noteq> it_ID i" using Cons.prems(3) by (metis distinct.simps(2) image_eqI list.set_map list.simps(9))
    then show "map_of (ix_Items (index_item i fx ix)) (it_ID j) = None"
      using Cons.prems(4) j by (simp add: index_item_def update_conv')
  qed
  ultimately show ?case using Cons.IH [OF fx(2)] Cons.prems(3) by simp
qed simp

lemma reachable_index_exact:
  assumes "world_New c = Inr w0" "distinct (map it_ID (cf_Furniture c))" "list_all own_id ops"
  shows "index_exact (furn (fold (world_step units) ops w0))"
proof -
  from assms(1) obtain ix where ix: "Build (cf_Furniture c) = Inr ix" "furn w0 = (ix_Items ix, ix_Tiles ix)"
    by (auto simp: world_New_def furn_def split: sum.splits)
  have "index_exact (ix_Items empty_index, ix_Tiles empty_index)"
    by (simp add: index_exact_def empty_index_def)
  then have "index_exact (furn w0)"
    using Build_loop_exact [OF ix(1) [unfolded Build_def] _ assms(2)] ix(2) by (simp add: empty_index_def)
  then show ?thesis
    using assms(3) by (induction ops arbitrary: w0) (auto simp: world_step_exact)
qed

text \<open>C7: The furniture index is exact in every reachable world: the ids listed for a tile are those
  of the room's items whose footprint covers the tile, whatever was placed, moved, picked up or
  changed state before, so \<open>FurnitureAt\<close> returns precisely the items on the tile.\<close>

theorem furniture_index_exact:
  assumes "world_New c = Inr w0" and "distinct (map it_ID (cf_Furniture c))"
    and "list_all own_id ops" and "w = fold (world_step units) ops w0"
  shows "it \<in> set (FurnitureAt w p) \<longleftrightarrow> furniture_of w (it_ID it) = Some it \<and> p \<in> set (item_Footprint it)"
proof -
  have ix: "index_exact (w_furniture w, w_furnitureTiles w)"
    using reachable_index_exact [OF assms(1-3)] assms(4) by (simp add: furn_def)
  have mem: "i \<in> set (w_furnitureTiles w p) \<longleftrightarrow> (\<exists>x. furniture_of w i = Some x \<and> p \<in> set (item_Footprint x))" for i
  proof -
    have c: "count_list (w_furnitureTiles w p) i =
        (case furniture_of w i of None \<Rightarrow> 0 | Some x \<Rightarrow> count_list (item_Footprint x) p)"
      using ix by (simp add: index_exact_def furniture_of_def)
    show ?thesis
    proof (cases "furniture_of w i")
      case None
      then show ?thesis using c count_list_0_iff [of "w_furnitureTiles w p" i] by simp
    next
      case (Some x)
      then show ?thesis
        using c count_list_0_iff [of "w_furnitureTiles w p" i] count_list_0_iff [of "item_Footprint x" p] by simp
    qed
  qed
  have id: "it_ID x = i" if "furniture_of w i = Some x" for i x
    using ix that by (simp add: index_exact_def furniture_of_def)
  show ?thesis
    using mem id by (auto simp: FurnitureAt_def map_filter_set)
qed

text \<open>A failed reload changes nothing: when \<open>ReloadFurniture\<close> reports an error, the world is the one
  before the call, and when it succeeds the item map differs only at the item's id, where it holds the
  new snapshot (or nothing, when the item was picked up).\<close>

theorem ReloadFurniture_atomic:
  "case ReloadFurniture sid i w of
     (w', Inl e) \<Rightarrow> w' = w
   | (w', Inr _) \<Rightarrow> furniture_of w' = (furniture_of w)(sid := i)"
proof (cases "case i of None \<Rightarrow> Inr [] | Some it \<Rightarrow> Fixtures it")
  case (Inl e)
  then show ?thesis by (simp add: ReloadFurniture_def)
next
  case (Inr fx)
  obtain r e where rep: "ReplaceFixtures (w_resolver w) sid fx = (r, e)" by fastforce
  show ?thesis
  proof (cases e)
    case None
    have eq: "w_furniture w' = fst (furn w')" for w' by (simp add: furn_def)
    define w' where "w' = fst (ReloadFurniture sid i w)"
    have "fst (furn w') = (case i of Some it \<Rightarrow> AList.update sid it (w_furniture w)
        | None \<Rightarrow> AList.delete sid (w_furniture w)) \<and> isl (snd (ReloadFurniture sid i w)) = False"
      unfolding w'_def ReloadFurniture_def Inr rep None Let_def
      by (cases "furniture_of w sid"; cases i) (simp_all add: split_beta rep None furn_def [of w])
    then have "w_furniture w' = (case i of Some it \<Rightarrow> AList.update sid it (w_furniture w)
        | None \<Rightarrow> AList.delete sid (w_furniture w))" "\<not> isl (snd (ReloadFurniture sid i w))"
      by (simp_all add: eq)
    then show ?thesis
      by (cases i; cases "ReloadFurniture sid i w"; cases "snd (ReloadFurniture sid i w)")
        (auto simp: w'_def furniture_of_def update_conv' delete_conv' fun_eq_iff)
  next
    case (Some er)
    have "r = w_resolver w"
      using ReplaceFixtures_atomic_error [OF rep [unfolded Some]] .
    then show ?thesis by (simp add: ReloadFurniture_def Inr rep Some)
  qed
qed

subsection \<open>A small lobby\<close>

text \<open>Three flat tiles in a row, the door on the first and a stool on the second.\<close>

definition stool :: item where
  "stool = \<lparr>it_ID = 20, it_OwnerPlayerID = 1, it_Definition = sofa_definition
     \<lparr>fd_Width := 1, fd_Slots := [\<lparr>sd_dx = 0, sd_dy = 0, sd_status = ''sit'', sd_body = 4\<rparr>]\<rparr>,
     it_Point = Point 1 0, it_Z = 0, it_Rotation = 0, it_ExtraData = ''''\<rparr>"

definition lobby_config :: config where
  "lobby_config = \<lparr>cf_Grid = flat_grid, cf_Fixtures = [], cf_Furniture = [stool],
     cf_Door = \<lparr>pos_point = Point 0 0, pos_z = 0\<rparr>, cf_Body = 2, cf_Head = 2, cf_Rules = DefaultRules\<rparr>"

definition lobby :: world_state where
  "lobby = (case world_New lobby_config of Inr w \<Rightarrow> w | Inl _ \<Rightarrow> undefined)"

definition lobby_after :: "world_op list \<Rightarrow> world_state" where
  "lobby_after ops = fold (world_step (\<lambda>_. None)) ops lobby"

lemma lobby_New: "world_New lobby_config = Inr lobby"
proof -
  have "isl (world_New lobby_config) = False" by code_simp
  then show ?thesis by (cases "world_New lobby_config") (simp_all add: lobby_def)
qed

lemma lobby_reachable: "world_inv (lobby_after ops)"
  unfolding lobby_after_def by (rule reachable_world_inv [OF lobby_New])

definition seated_ops :: "world_op list" where
  "seated_ops = [WAddUnit 7, WStep 7 (Point 1 0) ControlNone, WTick, WTick]"

definition riding_ops :: "world_op list" where
  "riding_ops = [WAddUnit 7, WAddEntity (-50) 7 KindPet \<lparr>pos_point = Point 2 0, pos_z = 0\<rparr> 2, WSetMount 7 (-50) True]"

theorem unit_ids_sound_witness:
  "\<exists>u. unit_of (lobby_after [WAddUnit 7]) 7 = Some u \<and>
     UnitByID (lobby_after [WAddUnit 7]) 1 = Some (unitSnapshot 7 u)"
proof -
  have "map_option u_id (unit_of (lobby_after [WAddUnit 7]) 7) = Some 1" by code_simp
  then obtain u where u: "unit_of (lobby_after [WAddUnit 7]) 7 = Some u" "u_id u = 1" by auto
  then show ?thesis using unit_ids_sound [OF lobby_New lobby_after_def, of "[WAddUnit 7]" 7 u] by auto
qed

theorem slots_sound_witness:
  "w_slotOccupants (lobby_after seated_ops) (Point 1 0) = Some 7 \<and>
     w_slotOccupants (releaseSlot 7 (lobby_after seated_ops)) (Point 1 0) = None"
proof -
  have s: "w_slotOccupants (lobby_after seated_ops) (Point 1 0) = Some 7" by code_simp
  then show ?thesis using slots_sound [OF lobby_New lobby_after_def s] by blast
qed

theorem mount_links_sound_witness:
  "linkedKey (lobby_after riding_ops) 7 = Some (-50) \<and> linkedKey (lobby_after riding_ops) (-50) = Some 7 \<and>
     linkedKey (RemoveUnit 7 (lobby_after riding_ops)) (-50) = None"
proof -
  have l: "linkedKey (lobby_after riding_ops) 7 = Some (-50)" by code_simp
  then show ?thesis using mount_links_sound [OF lobby_New lobby_after_def l] by blast
qed

theorem Tick_moves_validated_steps_witness:
  "\<exists>m\<in>set (snd (Tick (lobby_after (take 2 seated_ops)))). mv_Moved m \<and>
     map_option u_position (unit_of (fst (Tick (lobby_after (take 2 seated_ops)))) (mv_PlayerID m)) =
       Some (st_position (mv_Step m))"
proof -
  have "list_ex mv_Moved (snd (Tick (lobby_after (take 2 seated_ops))))" by code_simp
  then show ?thesis
    using Tick_moves_validated_steps [OF lobby_reachable [of "take 2 seated_ops"]] by (auto simp: list_ex_iff)
qed

theorem furniture_index_exact_witness:
  "\<exists>it. it \<in> set (FurnitureAt (lobby_after seated_ops) (Point 1 0)) \<and> it_ID it = 20 \<and>
     furniture_of (lobby_after seated_ops) 20 = Some it \<and> Point 1 0 \<in> set (item_Footprint it)"
proof -
  have d: "distinct (map it_ID (cf_Furniture lobby_config))" "list_all own_id seated_ops"
    by (simp_all add: lobby_config_def seated_ops_def)
  have "list_ex (\<lambda>it. it_ID it = 20) (FurnitureAt (lobby_after seated_ops) (Point 1 0))" by code_simp
  then obtain it where it: "it \<in> set (FurnitureAt (lobby_after seated_ops) (Point 1 0))" "it_ID it = 20"
    by (auto simp: list_ex_iff)
  then show ?thesis using furniture_index_exact [OF lobby_New d lobby_after_def, of it "Point 1 0"] by auto
qed

theorem placement_is_safe_witness:
  "\<exists>h base c. ResolveFurniturePlacement (lobby_after [WAddUnit 7]) 30 [Point 2 0] = Inr h \<and>
     HeightAt (w_grid (lobby_after [WAddUnit 7])) (Point 2 0) = Some base \<and>
     resolver_Column (w_resolver (lobby_after [WAddUnit 7])) (Point 2 0) = Inr c"
proof -
  have "\<not> isl (ResolveFurniturePlacement (lobby_after [WAddUnit 7]) 30 [Point 2 0])" by code_simp
  then obtain h where h: "ResolveFurniturePlacement (lobby_after [WAddUnit 7]) 30 [Point 2 0] = Inr h"
    by (cases "ResolveFurniturePlacement (lobby_after [WAddUnit 7]) 30 [Point 2 0]") auto
  then show ?thesis using placement_is_safe [OF h, of "Point 2 0"] by auto
qed

text \<open>The player 7 stands at the door, its pet -50 on the last tile.\<close>

definition pet_ops :: "world_op list" where
  "pet_ops = take 2 riding_ops"

lemma world_New_resolver:
  assumes "world_New c = Inr w"
  obtains ix where "Build (cf_Furniture c) = Inr ix"
    "NewResolver (cf_Grid c) (ix_Fixtures ix @ cf_Fixtures c) = Inr (w_resolver w)"
  using assms by (auto simp: world_New_def split: sum.splits)

lemma lobby_resolver_ok: "resolver_ok (w_resolver lobby)"
proof -
  have "case Build [stool] of Inr ix \<Rightarrow> list_all (\<lambda>f. 0 \<le> sint (fx_z f)) (ix_Fixtures ix) | Inl _ \<Rightarrow> False"
    by code_simp
  moreover have "wf_grid flat_grid"
    by (simp add: wf_grid_def flat_grid_def TileCount_def FlagInvalid_def)
  moreover obtain ix where "Build [stool] = Inr ix"
    "NewResolver flat_grid (ix_Fixtures ix) = Inr (w_resolver lobby)"
    using world_New_resolver [OF lobby_New] by (auto simp: lobby_config_def)
  ultimately show ?thesis by (auto simp: list_all_iff intro: NewResolver_ok)
qed

lemma pet_ops_resolver: "w_resolver (lobby_after pet_ops) = w_resolver lobby"
  by (simp add: lobby_after_def pet_ops_def riding_ops_def AddUnit_def AddEntity_def add_unit_def
      split: option.splits sum.splits)

theorem planned_path_avoids_units_witness:
  "\<exists>plan path v. PlanMovement 7 (Point 1 0) (lobby_after pet_ops) = Inr plan \<and>
     FindPath (lobby_after pet_ops) plan = Some (Inr path) \<and>
     path_steps path \<noteq> [] \<and> unit_of (lobby_after pet_ops) (-50) = Some v \<and>
     (\<forall>s\<in>set (path_steps path). st_position s \<noteq> u_position v)"
proof -
  have "(case PlanMovement 7 (Point 1 0) (lobby_after pet_ops) of Inr plan \<Rightarrow> 0 \<le> sint (pos_z (mp_Start plan)) \<and>
      (case FindPath (lobby_after pet_ops) plan of Some (Inr path) \<Rightarrow> path_steps path \<noteq> [] | _ \<Rightarrow> False) | _ \<Rightarrow> False) \<and>
      unit_of (lobby_after pet_ops) (-50) \<noteq> None \<and> linkedKey (lobby_after pet_ops) 7 \<noteq> Some (-50)"
    by code_simp
  then obtain plan path v where h: "PlanMovement 7 (Point 1 0) (lobby_after pet_ops) = Inr plan"
    "0 \<le> sint (pos_z (mp_Start plan))" "FindPath (lobby_after pet_ops) plan = Some (Inr path)"
    "path_steps path \<noteq> []" "unit_of (lobby_after pet_ops) (-50) = Some v"
    "linkedKey (lobby_after pet_ops) 7 \<noteq> Some (-50)"
    by (auto split: sum.splits option.splits)
  have "st_position s \<noteq> u_position v" if "s \<in> set (path_steps path)" for s
    using planned_path_avoids_units [OF lobby_reachable [of pet_ops] _ h(1,2,3) that h(5) _ h(6)]
      lobby_resolver_ok pet_ops_resolver by simp
  with h show ?thesis by blast
qed

subsection \<open>The interaction index\<close>

definition switch :: "ident \<Rightarrow> item" where
  "switch i = stool\<lparr>it_ID := i, it_Point := Point 2 0, it_Definition := sofa_definition
     \<lparr>fd_Width := 1, fd_InteractionType := ''switch'', fd_AllowStack := True, fd_AllowSit := False, fd_Slots := []\<rparr>\<rparr>"

definition switch_ops :: "world_op list" where
  "switch_ops = [WReloadFurniture 30 (Some (switch 30)), WReloadFurniture 31 (Some (switch 31)), WReloadFurniture 31 None]"

text \<open>The interaction index is not exact: of two interactive items on a tile it records the last
  one, and when that one is removed the tile's entry goes although the first item is still there, so
  \<open>InteractionAt\<close> finds nothing while \<open>FurnitureAt\<close> lists an interactive item.\<close>

theorem interaction_index_forgets:
  "map_option it_ID (InteractionAt (lobby_after (take 1 switch_ops)) (Point 2 0)) = Some 30 \<and>
   map it_ID (FurnitureAt (lobby_after switch_ops) (Point 2 0)) = [30] \<and>
   list_all interactive (FurnitureAt (lobby_after switch_ops) (Point 2 0)) \<and>
   InteractionAt (lobby_after switch_ops) (Point 2 0) = None"
  by code_simp

end
