(* ===== verification/Room_Live.thy ===== *)
theory Room_Live
  imports World_Correct
begin

text \<open>
  Active rooms (\<^verbatim>\<open>internal/realm/room/runtime/live\<close>) around the world of \<^verbatim>\<open>Room_World\<close>: occupants and spectators,
  capacity, build rights, mutes, doorbell requests (\<^verbatim>\<open>internal/realm/room/access/doorbell\<close>), delayed tasks, and the
  registry that keeps each player in one room. A room is a pointer that may outlive its registration, so the
  registry holds rooms in a heap. Its calls take the lock of the registry and that of a room by turns; a run here
  takes one call after the other.
\<close>

subsection \<open>Doorbell requests\<close>

datatype expire_reason = ExpiredTimeout | ExpiredNoRightsHolder | ExpiredRoomClosed

record doorbell_entry =
  de_PlayerID :: ident
  de_Username :: string
  de_ConnectionID :: string
  de_ConnectionKind :: string
  de_RequestedAt :: int

definition entry_Valid :: "doorbell_entry \<Rightarrow> bool" where
  "entry_Valid e \<longleftrightarrow> de_PlayerID e > 0 \<and> de_Username e \<noteq> [] \<and> de_ConnectionID e \<noteq> [] \<and> de_ConnectionKind e \<noteq> [] \<and>
     de_RequestedAt e \<noteq> 0"

text \<open>Requests by player id; the order of the list is the order of one iteration of the map.\<close>

type_synonym doorbell_queue = "(ident \<times> doorbell_entry) list"

text \<open>\<^verbatim>\<open>strings.EqualFold\<close> against a name of ASCII letters, digits and marks, which is all that a username may
  contain: besides the two cases of a letter, the Kelvin sign folds to k and the long s to s.\<close>

definition lower_code :: "nat \<Rightarrow> nat" where
  "lower_code c = (if 65 \<le> c \<and> c \<le> 90 then c + 32 else c)"

fun fold_codes :: "nat list \<Rightarrow> nat list" where
  "fold_codes (a # b # c # cs) =
     (if a = 226 \<and> b = 132 \<and> c = 170 then 107 # fold_codes cs
      else if a = 197 \<and> b = 191 then 115 # fold_codes (c # cs)
      else lower_code a # fold_codes (b # c # cs))"
| "fold_codes [a, b] = (if a = 197 \<and> b = 191 then [115] else [lower_code a, lower_code b])"
| "fold_codes [a] = [lower_code a]"
| "fold_codes [] = []"

definition EqualFold :: "string \<Rightarrow> string \<Rightarrow> bool" where
  "EqualFold s t \<longleftrightarrow> fold_codes (map of_char s) = fold_codes (map of_char t)"

definition queue_Request :: "doorbell_entry \<Rightarrow> doorbell_queue \<Rightarrow> doorbell_queue \<times> bool" where
  "queue_Request e q = (if \<not> entry_Valid e then (q, False) else (AList.update (de_PlayerID e) e q, True))"

definition queue_Resolve :: "string \<Rightarrow> doorbell_queue \<Rightarrow> doorbell_queue \<times> doorbell_entry option" where
  "queue_Resolve name q = (case find (\<lambda>(k, e). EqualFold (de_Username e) name) q of
     None \<Rightarrow> (q, None) | Some (k, e) \<Rightarrow> (AList.delete k q, Some e))"

definition queue_Sweep :: "int \<Rightarrow> int \<Rightarrow> doorbell_queue \<Rightarrow> doorbell_queue \<times> (doorbell_entry \<times> expire_reason) list" where
  "queue_Sweep now timeout q =
     (if timeout \<le> 0 then (q, [])
      else (filter (\<lambda>(k, e). de_RequestedAt e + timeout > now) q,
            map (\<lambda>(k, e). (e, ExpiredTimeout)) (filter (\<lambda>(k, e). \<not> de_RequestedAt e + timeout > now) q)))"

definition queue_Drain :: "expire_reason \<Rightarrow> doorbell_queue \<Rightarrow> doorbell_queue \<times> (doorbell_entry \<times> expire_reason) list" where
  "queue_Drain r q = ([], map (\<lambda>(k, e). (e, r)) q)"

definition queue_Len :: "doorbell_queue \<Rightarrow> nat" where
  "queue_Len q = length q"

subsection \<open>Build rights\<close>

record rights_state =
  ri_ownerID :: ident
  ri_holders :: "ident list"

definition rights_New :: "ident \<Rightarrow> rights_state" where
  "rights_New owner = \<lparr>ri_ownerID = owner, ri_holders = []\<rparr>"

definition ReplaceRights :: "ident list \<Rightarrow> rights_state \<Rightarrow> rights_state" where
  "ReplaceRights ids s = s\<lparr>ri_holders := remdups (filter (\<lambda>p. p > 0) ids)\<rparr>"

definition GrantRights :: "ident \<Rightarrow> rights_state \<Rightarrow> rights_state" where
  "GrantRights p s = (if p \<le> 0 then s else s\<lparr>ri_holders := List.insert p (ri_holders s)\<rparr>)"

definition RevokeRights :: "ident \<Rightarrow> rights_state \<Rightarrow> rights_state" where
  "RevokeRights p s = s\<lparr>ri_holders := filter (\<lambda>h. h \<noteq> p) (ri_holders s)\<rparr>"

definition HasRights :: "ident \<Rightarrow> rights_state \<Rightarrow> bool" where
  "HasRights p s = (if p \<le> 0 then False else ri_ownerID s = p \<or> p \<in> set (ri_holders s))"

definition rights_Clear :: "rights_state \<Rightarrow> rights_state" where
  "rights_Clear s = s\<lparr>ri_holders := []\<rparr>"

subsection \<open>Delayed tasks\<close>

text \<open>A task is named by a number instead of its closure.\<close>

record task_entry =
  te_key :: u64
  te_deadline :: int
  te_run :: nat

type_synonym task_queue = "task_entry list"

definition task_schedule :: "u64 \<Rightarrow> int \<Rightarrow> nat option \<Rightarrow> bool \<Rightarrow> task_queue \<Rightarrow> task_queue" where
  "task_schedule key deadline job replace q = (case job of
     None \<Rightarrow> q
   | Some f \<Rightarrow>
       (let new = \<lparr>te_key = key, te_deadline = deadline, te_run = f\<rparr>;
            (before, rest) = (takeWhile (\<lambda>t. te_key t \<noteq> key) q, dropWhile (\<lambda>t. te_key t \<noteq> key) q)
        in if replace \<and> key \<noteq> 0 \<and> rest \<noteq> [] then before @ new # tl rest else q @ [new]))"

definition task_Schedule :: "int \<Rightarrow> nat option \<Rightarrow> task_queue \<Rightarrow> task_queue" where
  "task_Schedule deadline job = task_schedule 0 deadline job False"

definition task_Replace :: "u64 \<Rightarrow> int \<Rightarrow> nat option \<Rightarrow> task_queue \<Rightarrow> task_queue" where
  "task_Replace key deadline job = task_schedule key deadline job True"

definition task_Due :: "int \<Rightarrow> task_queue \<Rightarrow> task_queue \<times> nat list" where
  "task_Due now q = (filter (\<lambda>t. te_deadline t > now) q, map te_run (filter (\<lambda>t. \<not> te_deadline t > now) q))"

subsection \<open>A room\<close>

datatype room_error =
    ErrInvalidRoom | ErrRoomClosed | ErrRoomNotFound | ErrInvalidOccupant | ErrRoomFull
  | ErrWorldNotLoaded | ErrInvalidPath | ErrPublish | ErrService | WorldError world_error

record room_snapshot =
  rm_ID :: ident
  rm_OwnerPlayerID :: ident
  rm_CategoryID :: "ident option"
  rm_MaxUsers :: int
  rm_TradeMode :: i16
  rm_RollerSpeed :: int
  rm_ChatDistance :: i16
  rm_ChatProtection :: i16
  rm_AllowPets :: bool
  rm_AllowPetsEat :: bool

record occupant =
  ro_PlayerID :: ident
  ro_Username :: string
  ro_Motto :: string
  ro_Figure :: string
  ro_Gender :: string
  ro_ActiveEffectID :: i32
  ro_AchievementScore :: i32
  ro_GroupID :: int
  ro_GroupStatus :: i32
  ro_GroupName :: string
  ro_ConnectionID :: string
  ro_ConnectionKind :: string
  ro_JoinedAt :: int
  ro_Spectator :: bool

record occupancy_info =
  ox_RoomID :: ident
  ox_CategoryID :: "ident option"
  ox_Count :: nat
  ox_MaxUsers :: int
  ox_PlayerIDs :: "ident list"

record room =
  lr_snapshot :: room_snapshot
  lr_occupants :: "(ident \<times> occupant) list"
  lr_rights :: rights_state
  lr_muted :: "ident \<rightharpoonup> int"
  lr_doorbell :: "doorbell_queue option"
  lr_muteAll :: bool
  lr_world :: "world_state option"
  lr_worldRef :: nat
  lr_loadedAt :: int
  lr_idleSince :: "int option"
  lr_closed :: bool
  lr_tasks :: task_queue
  lr_interactionLocks :: "ident \<rightharpoonup> int"
  lr_rollerCycle :: int

definition snapshot_ok :: "room_snapshot \<Rightarrow> bool" where
  "snapshot_ok s \<longleftrightarrow> rm_ID s > 0 \<and> rm_MaxUsers s > 0"

definition occupant_Valid :: "occupant \<Rightarrow> bool" where
  "occupant_Valid c \<longleftrightarrow> ro_PlayerID c > 0 \<and> ro_ConnectionID c \<noteq> [] \<and> ro_ConnectionKind c \<noteq> []"

definition WithJoinTime :: "int \<Rightarrow> occupant \<Rightarrow> occupant" where
  "WithJoinTime now c = (if ro_JoinedAt c = 0 then c\<lparr>ro_JoinedAt := now\<rparr> else c)"

definition NewRoom :: "int \<Rightarrow> room_snapshot \<Rightarrow> room_error + room" where
  "NewRoom now s =
     (if \<not> snapshot_ok s then Inl ErrInvalidRoom
      else Inr \<lparr>lr_snapshot = s, lr_occupants = [], lr_rights = rights_New (rm_OwnerPlayerID s), lr_muted = Map.empty,
        lr_doorbell = None, lr_muteAll = False, lr_world = None, lr_worldRef = 0, lr_loadedAt = now, lr_idleSince = None, lr_closed = False,
        lr_tasks = [], lr_interactionLocks = Map.empty, lr_rollerCycle = 0\<rparr>)"

definition occupancyLocked :: "room \<Rightarrow> occupancy_info" where
  "occupancyLocked r = \<lparr>ox_RoomID = rm_ID (lr_snapshot r), ox_CategoryID = rm_CategoryID (lr_snapshot r),
     ox_Count = length (filter (\<lambda>(p, c). \<not> ro_Spectator c) (lr_occupants r)),
     ox_MaxUsers = rm_MaxUsers (lr_snapshot r), ox_PlayerIDs = map fst (lr_occupants r)\<rparr>"

definition room_Occupant :: "ident \<Rightarrow> room \<Rightarrow> occupant option" where
  "room_Occupant p r = map_of (lr_occupants r) p"

definition room_JoinWithCapacity :: "int \<Rightarrow> occupant \<Rightarrow> bool \<Rightarrow> room \<Rightarrow> room \<times> (room_error + occupancy_info)" where
  "room_JoinWithCapacity now c bypass r =
     (if \<not> occupant_Valid c then (r, Inl ErrInvalidOccupant)
      else if lr_closed r then (r, Inl ErrRoomClosed)
      else if room_Occupant (ro_PlayerID c) r = None \<and> int (ox_Count (occupancyLocked r)) \<ge> rm_MaxUsers (lr_snapshot r) \<and> \<not> bypass
      then (r, Inl ErrRoomFull)
      else (let r1 = r\<lparr>lr_occupants := AList.update (ro_PlayerID c) (WithJoinTime now c) (lr_occupants r)\<rparr>;
                r2 = (case lr_world r1 of
                    None \<Rightarrow> r1
                  | Some w \<Rightarrow> if ro_Spectator c then r1
                      else r1\<lparr>lr_world := Some (fst (SetUnitEffect (ro_PlayerID c) (ro_ActiveEffectID c) (AddUnit (ro_PlayerID c) w)))\<rparr>);
                r3 = r2\<lparr>lr_idleSince := None\<rparr>
            in (r3, Inr (occupancyLocked r3))))"

definition room_JoinSpectator :: "int \<Rightarrow> occupant \<Rightarrow> room \<Rightarrow> room \<times> (room_error + occupancy_info)" where
  "room_JoinSpectator now c r = room_JoinWithCapacity now (c\<lparr>ro_Spectator := True\<rparr>) True r"

definition room_Leave :: "int \<Rightarrow> ident \<Rightarrow> room \<Rightarrow> room \<times> occupancy_info option" where
  "room_Leave now p r = (case room_Occupant p r of
     None \<Rightarrow> (r, None)
   | Some c \<Rightarrow>
       (let r1 = r\<lparr>lr_occupants := AList.delete p (lr_occupants r)\<rparr>;
            r2 = (case lr_world r1 of None \<Rightarrow> r1
              | Some w \<Rightarrow> if ro_Spectator c then r1 else r1\<lparr>lr_world := Some (RemoveUnit p w)\<rparr>);
            r3 = (if lr_occupants r2 = [] then r2\<lparr>lr_idleSince := Some now\<rparr> else r2)
        in (r3, Some (occupancyLocked r3))))"

definition CloseWithDoorbell :: "int \<Rightarrow> room \<Rightarrow> room \<times> occupancy_info \<times> (doorbell_entry \<times> expire_reason) list" where
  "CloseWithDoorbell now r =
     (let r1 = r\<lparr>lr_closed := True, lr_tasks := [], lr_occupants := [], lr_rights := rights_Clear (lr_rights r),
                 lr_muted := Map.empty, lr_interactionLocks := Map.empty, lr_world := map_option ClearUnits (lr_world r),
                 lr_idleSince := Some now, lr_doorbell := None\<rparr>
      in (r1, occupancyLocked r1, case lr_doorbell r of None \<Rightarrow> [] | Some q \<Rightarrow> snd (queue_Drain ExpiredRoomClosed q)))"

text \<open>A new world starts without units and gets one for each occupant. \<open>lr_worldRef\<close> stands for the pointer to it.\<close>

definition LoadWorld :: "config \<Rightarrow> room \<Rightarrow> room \<times> room_error option" where
  "LoadWorld c r = (case world_New c of
     Inl e \<Rightarrow> (r, Some (WorldError e))
   | Inr w \<Rightarrow> (r\<lparr>lr_world := Some (fold AddUnit (map fst (lr_occupants r)) w), lr_worldRef := Suc (lr_worldRef r)\<rparr>, None))"

definition UnloadWorld :: "room \<Rightarrow> room" where
  "UnloadWorld r = r\<lparr>lr_world := None, lr_interactionLocks := Map.empty, lr_tasks := []\<rparr>"

definition WorldLoaded :: "room \<Rightarrow> bool" where
  "WorldLoaded r \<longleftrightarrow> lr_world r \<noteq> None"

subsubsection \<open>Doorbell, owner and idleness\<close>

definition RequestDoorbell :: "doorbell_entry \<Rightarrow> bool \<Rightarrow> room \<Rightarrow> room \<times> bool" where
  "RequestDoorbell e approver r =
     (if lr_closed r \<or> \<not> approver then (r, False)
      else (case queue_Request e (case lr_doorbell r of None \<Rightarrow> [] | Some q \<Rightarrow> q) of
          (q, ok) \<Rightarrow> (r\<lparr>lr_doorbell := Some q\<rparr>, ok)))"

definition ResolveDoorbell :: "string \<Rightarrow> room \<Rightarrow> room \<times> doorbell_entry option" where
  "ResolveDoorbell name r = (case lr_doorbell r of
     None \<Rightarrow> (r, None)
   | Some q \<Rightarrow> (case queue_Resolve name q of (q', e) \<Rightarrow> (r\<lparr>lr_doorbell := Some q'\<rparr>, e)))"

definition SweepDoorbell :: "int \<Rightarrow> int \<Rightarrow> room \<Rightarrow> room \<times> (doorbell_entry \<times> expire_reason) list" where
  "SweepDoorbell now timeout r = (case lr_doorbell r of
     None \<Rightarrow> (r, [])
   | Some q \<Rightarrow> (case queue_Sweep now timeout q of
         (q', expired) \<Rightarrow> (r\<lparr>lr_doorbell := (if queue_Len q' = 0 then None else Some q')\<rparr>, expired)))"

definition DrainDoorbellWithoutApprover :: "bool \<Rightarrow> room \<Rightarrow> room \<times> (doorbell_entry \<times> expire_reason) list" where
  "DrainDoorbellWithoutApprover approver r = (case lr_doorbell r of
     None \<Rightarrow> (r, [])
   | Some q \<Rightarrow> if approver then (r, [])
       else (r\<lparr>lr_doorbell := None\<rparr>, snd (queue_Drain ExpiredNoRightsHolder q)))"

definition DoorbellLen :: "room \<Rightarrow> nat" where
  "DoorbellLen r = (case lr_doorbell r of None \<Rightarrow> 0 | Some q \<Rightarrow> queue_Len q)"

definition OwnerPresent :: "room \<Rightarrow> bool" where
  "OwnerPresent r \<longleftrightarrow> room_Occupant (rm_OwnerPlayerID (lr_snapshot r)) r \<noteq> None"

subsubsection \<open>Settings, mutes, rollers and locks\<close>

definition UpdateSettings :: "ident option \<Rightarrow> int \<Rightarrow> i16 \<Rightarrow> i16 \<Rightarrow> room \<Rightarrow> room" where
  "UpdateSettings category maxUsers distance protection r =
     r\<lparr>lr_snapshot := (lr_snapshot r)\<lparr>rm_CategoryID := category, rm_MaxUsers := maxUsers, rm_ChatDistance := distance,
        rm_ChatProtection := protection\<rparr>\<rparr>"

definition ReplaceMutes :: "(ident \<rightharpoonup> int) \<Rightarrow> room \<Rightarrow> room" where
  "ReplaceMutes mutes r = r\<lparr>lr_muted := mutes\<rparr>"

definition SetMuted :: "ident \<Rightarrow> int \<Rightarrow> room \<Rightarrow> room" where
  "SetMuted p endsAt r = r\<lparr>lr_muted := (if endsAt = 0 then (lr_muted r)(p := None) else (lr_muted r)(p \<mapsto> endsAt))\<rparr>"

definition RemainingMute :: "ident \<Rightarrow> int \<Rightarrow> room \<Rightarrow> int \<times> bool" where
  "RemainingMute p now r = (case lr_muted r p of
     None \<Rightarrow> (0, False) | Some endsAt \<Rightarrow> if endsAt > now then (endsAt - now, True) else (0, False))"

definition AdvanceRollerCycle :: "bool \<Rightarrow> room \<Rightarrow> room \<times> bool" where
  "AdvanceRollerCycle hasRollers r =
     (let speed = rm_RollerSpeed (lr_snapshot r) in
      if \<not> hasRollers \<or> speed < 0 then (r\<lparr>lr_rollerCycle := 0\<rparr>, False)
      else if speed = 0 then (r, True)
      else (let r1 = r\<lparr>lr_rollerCycle := lr_rollerCycle r + 1\<rparr>
            in if lr_rollerCycle r1 < speed then (r1, False) else (r1\<lparr>lr_rollerCycle := 0\<rparr>, True)))"

definition UpdateRollerSpeed :: "int \<Rightarrow> room \<Rightarrow> room" where
  "UpdateRollerSpeed speed r = r\<lparr>lr_snapshot := (lr_snapshot r)\<lparr>rm_RollerSpeed := speed\<rparr>, lr_rollerCycle := 0\<rparr>"

definition TryLockInteraction :: "int \<Rightarrow> ident \<Rightarrow> int \<Rightarrow> room \<Rightarrow> room \<times> bool" where
  "TryLockInteraction now item until r = (case lr_interactionLocks r item of
     Some deadline \<Rightarrow> if deadline > now then (r, False)
       else (r\<lparr>lr_interactionLocks := (lr_interactionLocks r)(item \<mapsto> until)\<rparr>, True)
   | None \<Rightarrow> (r\<lparr>lr_interactionLocks := (lr_interactionLocks r)(item \<mapsto> until)\<rparr>, True))"

definition UnlockInteraction :: "ident \<Rightarrow> room \<Rightarrow> room" where
  "UnlockInteraction item r = r\<lparr>lr_interactionLocks := (lr_interactionLocks r)(item := None)\<rparr>"

definition CanManageFurniture :: "(ident \<Rightarrow> ident \<Rightarrow> bool) option \<Rightarrow> ident \<Rightarrow> room \<Rightarrow> bool" where
  "CanManageFurniture policy p r \<longleftrightarrow>
     HasRights p (lr_rights r) \<or> (case policy of None \<Rightarrow> False | Some f \<Rightarrow> f (rm_ID (lr_snapshot r)) p)"

subsubsection \<open>The world of the room\<close>

text \<open>Every wrapper does nothing without a world.\<close>

definition on_world :: "(world_state \<Rightarrow> world_state \<times> 'a) \<Rightarrow> 'a \<Rightarrow> room \<Rightarrow> room \<times> 'a" where
  "on_world f missing r = (case lr_world r of
     None \<Rightarrow> (r, missing) | Some w \<Rightarrow> (case f w of (w', x) \<Rightarrow> (r\<lparr>lr_world := Some w'\<rparr>, x)))"

definition room_AddEntity :: "ident \<Rightarrow> int \<Rightarrow> unit_kind \<Rightarrow> position \<Rightarrow> rotation \<Rightarrow> room \<Rightarrow> room \<times> (room_error + unit_snapshot)" where
  "room_AddEntity k owner kind p rot =
     on_world (\<lambda>w. case AddEntity k owner kind p rot w of
       (w', Inl e) \<Rightarrow> (w', Inl (WorldError e)) | (w', Inr u) \<Rightarrow> (w', Inr u)) (Inl ErrWorldNotLoaded)"

definition room_RemoveEntity :: "ident \<Rightarrow> room \<Rightarrow> room \<times> unit_snapshot option" where
  "room_RemoveEntity k = on_world (RemoveEntity k) None"

definition room_ReloadFurniture :: "ident \<Rightarrow> item option \<Rightarrow> room \<Rightarrow> room \<times> (room_error + unit_snapshot option list)" where
  "room_ReloadFurniture source i =
     on_world (\<lambda>w. case ReloadFurniture source i w of
       (w', Inl e) \<Rightarrow> (w', Inl (WorldError (SurfaceError e))) | (w', Inr us) \<Rightarrow> (w', Inr us)) (Inl ErrWorldNotLoaded)"

definition room_Tick :: "int \<Rightarrow> room \<Rightarrow> room \<times> movement list \<times> nat list" where
  "room_Tick now r = (case on_world Tick [] r of
     (r', moves) \<Rightarrow> (case task_Due now (lr_tasks r') of (q, due) \<Rightarrow> (r'\<lparr>lr_tasks := q\<rparr>, moves, due)))"

definition Presences :: "room \<Rightarrow> (occupant \<times> unit_snapshot) list" where
  "Presences r = (case lr_world r of
     None \<Rightarrow> []
   | Some w \<Rightarrow> concat (map (\<lambda>(p, c). case snapshot_of w p of None \<Rightarrow> [] | Some u \<Rightarrow> [(c, u)]) (lr_occupants r)))"

text \<open>\<open>moveTo\<close> plans under the read lock, searches without a lock and applies the path under the write lock.
  \<open>between\<close> is what others do to the room between planning and applying.\<close>

definition moveTo :: "(room \<Rightarrow> room) \<Rightarrow> ident \<Rightarrow> point \<Rightarrow> control \<Rightarrow> room \<Rightarrow> room \<times> (room_error + room_path) option" where
  "moveTo between p goal control r = (case lr_world r of
     None \<Rightarrow> (between r, Some (Inl ErrWorldNotLoaded))
   | Some w \<Rightarrow> (case PlanMovement p goal w of
         Inl e \<Rightarrow> (between r, Some (Inl (WorldError e)))
       | Inr plan \<Rightarrow> (case FindPath w plan of
              None \<Rightarrow> (between r, None)
            | Some (Inl e) \<Rightarrow> (between r, Some (Inl (WorldError (PathError e))))
            | Some (Inr path) \<Rightarrow> (let r' = between r in
                if path_Len path = 0 then (r', Some (Inr path))
                else (case lr_world r' of
                    None \<Rightarrow> (r', Some (Inl ErrInvalidPath))
                  | Some w1 \<Rightarrow> if lr_worldRef r' \<noteq> lr_worldRef r then (r', Some (Inl ErrInvalidPath))
                      else (case ApplyControlledMovement p path control w1 of
                          (w', Some e) \<Rightarrow> (r'\<lparr>lr_world := Some w'\<rparr>, Some (Inl (WorldError e)))
                        | (w', None) \<Rightarrow> (r'\<lparr>lr_world := Some w'\<rparr>, Some (Inr path))))))))"

definition MoveTo :: "(room \<Rightarrow> room) \<Rightarrow> ident \<Rightarrow> point \<Rightarrow> room \<Rightarrow> room \<times> (room_error + room_path) option" where
  "MoveTo between p goal = moveTo between p goal ControlNone"

definition MoveControlled ::
  "(room \<Rightarrow> room) \<Rightarrow> ident \<Rightarrow> point \<Rightarrow> control \<Rightarrow> room \<Rightarrow> room \<times> (room_error + room_path) option" where
  "MoveControlled = moveTo"

definition ExitToDoor :: "(room \<Rightarrow> room) \<Rightarrow> ident \<Rightarrow> room \<Rightarrow> room \<times> (room_error + bool) option" where
  "ExitToDoor between p r = (case lr_world r of
     None \<Rightarrow> (r, Some (Inl ErrWorldNotLoaded))
   | Some w \<Rightarrow> (case moveTo between p (pos_point (w_door w)) ControlExitingRoom r of
         (r', None) \<Rightarrow> (r', None)
       | (r', Some (Inl e)) \<Rightarrow> (r', Some (Inl e))
       | (r', Some (Inr path)) \<Rightarrow> (r', Some (Inr (path_Len path > 0)))))"

subsubsection \<open>Reading and changing the world\<close>

definition view_world :: "(world_state \<Rightarrow> 'a) \<Rightarrow> 'a \<Rightarrow> room \<Rightarrow> 'a" where
  "view_world f missing r = (case lr_world r of None \<Rightarrow> missing | Some w \<Rightarrow> f w)"

text \<open>An operation of the world with an error of its own.\<close>

definition try_world :: "(world_state \<Rightarrow> world_state \<times> (world_error + 'a)) \<Rightarrow> room \<Rightarrow> room \<times> (room_error + 'a)" where
  "try_world f = on_world (\<lambda>w. case f w of (w', Inl e) \<Rightarrow> (w', Inl (WorldError e)) | (w', Inr x) \<Rightarrow> (w', Inr x))
     (Inl ErrWorldNotLoaded)"

definition run_world :: "(world_state \<Rightarrow> world_state \<times> world_error option) \<Rightarrow> room \<Rightarrow> room \<times> room_error option" where
  "run_world f = on_world (\<lambda>w. case f w of (w', e) \<Rightarrow> (w', map_option WorldError e)) (Some ErrWorldNotLoaded)"

definition room_Units :: "room \<Rightarrow> unit_snapshot option list" where
  "room_Units = view_world Units []"

definition room_Unit :: "ident \<Rightarrow> room \<Rightarrow> unit_snapshot option" where
  "room_Unit k = view_world (\<lambda>w. snapshot_of w k) None"

definition room_UnitByID :: "int \<Rightarrow> room \<Rightarrow> unit_snapshot option" where
  "room_UnitByID i = view_world (\<lambda>w. UnitByID w i) None"

definition room_UnitMotion :: "ident \<Rightarrow> room \<Rightarrow> unit_snapshot option" where
  "room_UnitMotion k = view_world (\<lambda>w. UnitMotion w k) None"

definition room_HasUnitAt :: "point \<Rightarrow> room \<Rightarrow> bool" where
  "room_HasUnitAt p = view_world (\<lambda>w. HasUnitAt w p) False"

definition room_RandomWalkablePoint ::
  "ident \<Rightarrow> int \<Rightarrow> u64 \<Rightarrow> room \<Rightarrow> point option" where
  "room_RandomWalkablePoint k radius random = view_world (\<lambda>w. RandomWalkablePoint w k radius random) None"

definition room_FurnitureItems :: "room \<Rightarrow> item list" where
  "room_FurnitureItems = view_world FurnitureItems []"

definition room_FurnitureItem :: "ident \<Rightarrow> room \<Rightarrow> item option" where
  "room_FurnitureItem i = view_world (\<lambda>w. furniture_of w i) None"

definition room_FurnitureByInteraction :: "string \<Rightarrow> room \<Rightarrow> item list" where
  "room_FurnitureByInteraction t = view_world (\<lambda>w. FurnitureByInteraction w t) []"

definition room_NearestFurnitureByInteraction ::
  "string \<Rightarrow> point \<Rightarrow> int \<Rightarrow> room \<Rightarrow> item option" where
  "room_NearestFurnitureByInteraction t origin radius = view_world (\<lambda>w. NearestFurnitureByInteraction w t origin radius) None"

definition room_FurnitureAt :: "point \<Rightarrow> room \<Rightarrow> item list" where
  "room_FurnitureAt p = view_world (\<lambda>w. FurnitureAt w p) []"

definition room_FurnitureIDsAt :: "point \<Rightarrow> ident list \<Rightarrow> room \<Rightarrow> ident list" where
  "room_FurnitureIDsAt p dst = view_world (\<lambda>w. FurnitureIDsAt w p dst) dst"

definition room_InteractionAt :: "point \<Rightarrow> room \<Rightarrow> item option" where
  "room_InteractionAt p = view_world (\<lambda>w. InteractionAt w p) None"

definition room_OtherInteractionAt :: "point \<Rightarrow> ident \<Rightarrow> room \<Rightarrow> item option" where
  "room_OtherInteractionAt p excluded = view_world (\<lambda>w. OtherInteractionAt w p excluded) None"

definition room_UnitInFurnitureFootprint :: "item \<Rightarrow> room \<Rightarrow> unit_snapshot option" where
  "room_UnitInFurnitureFootprint i = view_world (\<lambda>w. UnitInFurnitureFootprint w i) None"

definition room_SlotOccupant :: "ident \<Rightarrow> room \<Rightarrow> ident option" where
  "room_SlotOccupant i = view_world (\<lambda>w. SlotOccupant w i) None"

definition room_SurfaceHeights :: "room \<Rightarrow> u16 \<times> u16 \<times> tile_height list" where
  "room_SurfaceHeights = view_world SurfaceHeights (0, 0, [])"

definition room_CanChangeFurnitureHeight :: "ident \<Rightarrow> room \<Rightarrow> bool" where
  "room_CanChangeFurnitureHeight i = view_world (\<lambda>w. CanChangeFurnitureHeight w i) False"

definition room_ResolveFurniturePlacement ::
  "ident \<Rightarrow> point list \<Rightarrow> room \<Rightarrow> room_error + height" where
  "room_ResolveFurniturePlacement sid fp = view_world (\<lambda>w. case ResolveFurniturePlacement w sid fp of Inl e \<Rightarrow> Inl (WorldError e) | Inr h \<Rightarrow> Inr h)
     (Inl ErrWorldNotLoaded)"

definition HasUnitInFurnitureFootprint :: "item \<Rightarrow> room \<Rightarrow> bool" where
  "HasUnitInFurnitureFootprint i r \<longleftrightarrow> room_UnitInFurnitureFootprint i r \<noteq> None"

definition room_SetUnitStatus ::
  "ident \<Rightarrow> string \<Rightarrow> string \<Rightarrow> room \<Rightarrow> room \<times> bool" where
  "room_SetUnitStatus k key v = on_world (SetUnitStatus k key v) False"

definition room_ClearUnitStatus :: "ident \<Rightarrow> string \<Rightarrow> room \<Rightarrow> room \<times> bool" where
  "room_ClearUnitStatus k key = on_world (ClearUnitStatus k key) False"

definition room_PulseUnitStatus ::
  "ident \<Rightarrow> string \<Rightarrow> string \<Rightarrow> room \<Rightarrow> room \<times> unit_snapshot option" where
  "room_PulseUnitStatus k key v = on_world (PulseUnitStatus k key v) None"

definition room_SetUnitIdleAt ::
  "ident \<Rightarrow> bool \<Rightarrow> int \<Rightarrow> room \<Rightarrow> room \<times> unit_snapshot option" where
  "room_SetUnitIdleAt k idle at = on_world (SetUnitIdleAt k idle at) None"

definition room_SetUnitManualIdleAt ::
  "ident \<Rightarrow> bool \<Rightarrow> int \<Rightarrow> room \<Rightarrow> room \<times> unit_snapshot option" where
  "room_SetUnitManualIdleAt k idle at = on_world (SetUnitManualIdleAt k idle at) None"

definition room_SetUnitPosture ::
  "ident \<Rightarrow> bool \<Rightarrow> room \<Rightarrow> room \<times> unit_snapshot option" where
  "room_SetUnitPosture k sitting = on_world (SetUnitPosture k sitting) None"

definition room_SetUnitDance ::
  "ident \<Rightarrow> i32 \<Rightarrow> room \<Rightarrow> room \<times> unit_snapshot option" where
  "room_SetUnitDance k d = on_world (SetUnitDance k d) None"

definition room_SetUnitEffect ::
  "ident \<Rightarrow> i32 \<Rightarrow> room \<Rightarrow> room \<times> unit_snapshot option" where
  "room_SetUnitEffect k e = on_world (SetUnitEffect k e) None"

definition room_SetFurnitureExtraData ::
  "(string \<Rightarrow> height option) \<Rightarrow> ident \<Rightarrow> string \<Rightarrow> room \<Rightarrow> room \<times> item option" where
  "room_SetFurnitureExtraData units i v = on_world (SetFurnitureExtraData units i v) None"

definition room_ResettleFurnitureUnits ::
  "ident \<Rightarrow> room \<Rightarrow> room \<times> unit_snapshot option list" where
  "room_ResettleFurnitureUnits i = on_world (ResettleFurnitureUnits i) []"

definition room_SetUnitIdle :: "int \<Rightarrow> ident \<Rightarrow> bool \<Rightarrow> room \<Rightarrow> room \<times> unit_snapshot option" where
  "room_SetUnitIdle now k idle = room_SetUnitIdleAt k idle now"

definition room_UpdateFurnitureState ::
  "(string \<Rightarrow> height option) \<Rightarrow> ident \<Rightarrow> string \<Rightarrow> bool \<Rightarrow> room \<Rightarrow> room \<times> (room_error + item)" where
  "room_UpdateFurnitureState units i v rebuild = try_world (UpdateFurnitureState units i v rebuild)"

definition room_TeleportUnit ::
  "ident \<Rightarrow> point \<Rightarrow> rotation \<Rightarrow> bool \<Rightarrow> teleport_policy list \<Rightarrow> room \<Rightarrow> room \<times> (room_error + unit_snapshot option)" where
  "room_TeleportUnit k p rot controlled policies = try_world (TeleportUnit k p rot controlled policies)"

definition room_RollUnit ::
  "ident \<Rightarrow> position \<Rightarrow> room \<Rightarrow> room \<times> (room_error + unit_snapshot option)" where
  "room_RollUnit k pos = try_world (RollUnit k pos)"

definition room_StopMovement :: "ident \<Rightarrow> room \<Rightarrow> room \<times> (room_error + bool)" where
  "room_StopMovement k = try_world (world_StopMovement k)"

definition room_FaceTo ::
  "ident \<Rightarrow> point \<Rightarrow> room \<Rightarrow> room \<times> (room_error + unit_snapshot option)" where
  "room_FaceTo k target = try_world (FaceTo k target)"

definition room_SetHandItem ::
  "ident \<Rightarrow> i32 \<Rightarrow> room \<Rightarrow> room \<times> (room_error + unit_snapshot option)" where
  "room_SetHandItem k i = try_world (world_SetHandItem k i)"

definition room_SetUnitControl ::
  "ident \<Rightarrow> control \<Rightarrow> room \<Rightarrow> room \<times> (room_error + unit_snapshot option)" where
  "room_SetUnitControl k c = try_world (SetUnitControl k c)"

definition room_ReleaseUnitControl ::
  "ident \<Rightarrow> room \<Rightarrow> room \<times> (room_error + unit_snapshot option)" where
  "room_ReleaseUnitControl k = try_world (ReleaseControl k)"

definition room_SetMount ::
  "ident \<Rightarrow> ident \<Rightarrow> bool \<Rightarrow> room \<Rightarrow> room \<times> (room_error + unit_snapshot option \<times> unit_snapshot option)" where
  "room_SetMount rider mnt mounted = try_world (SetMount rider mnt mounted)"

definition room_StepControlled ::
  "ident \<Rightarrow> point \<Rightarrow> control \<Rightarrow> room \<Rightarrow> room \<times> room_error option" where
  "room_StepControlled k goal c = run_world (ApplyControlledStep k goal c)"

definition room_StepControlledOntoInteraction ::
  "ident \<Rightarrow> point \<Rightarrow> control \<Rightarrow> room \<Rightarrow> room \<times> room_error option" where
  "room_StepControlledOntoInteraction k goal c = run_world (ApplyControlledInteractionStep k goal c)"

definition room_StepControlledFromInteraction ::
  "ident \<Rightarrow> point \<Rightarrow> control \<Rightarrow> room \<Rightarrow> room \<times> room_error option" where
  "room_StepControlledFromInteraction k goal c = run_world (ApplyControlledInteractionStep k goal c)"

definition room_ReloadFixtures ::
  "ident \<Rightarrow> fixture list \<Rightarrow> room \<Rightarrow> room \<times> room_error option" where
  "room_ReloadFixtures sid fs = run_world (\<lambda>w. case ReloadFixtures sid fs w of (w', e) \<Rightarrow> (w', map_option SurfaceError e))"


subsubsection \<open>Occupants and settings\<close>

definition update_occupant :: "ident \<Rightarrow> (occupant \<Rightarrow> occupant) \<Rightarrow> room \<Rightarrow> room \<times> bool" where
  "update_occupant p f r = (case room_Occupant p r of
     None \<Rightarrow> (r, False) | Some c \<Rightarrow> (r\<lparr>lr_occupants := AList.update p (f c) (lr_occupants r)\<rparr>, True))"

definition UpdateOccupantProfile :: "ident \<Rightarrow> string \<Rightarrow> string \<Rightarrow> string \<Rightarrow> room \<Rightarrow> room \<times> bool" where
  "UpdateOccupantProfile p figure gender motto =
     update_occupant p (\<lambda>c. c\<lparr>ro_Figure := figure, ro_Gender := gender, ro_Motto := motto\<rparr>)"

definition UpdateOccupantName :: "ident \<Rightarrow> string \<Rightarrow> room \<Rightarrow> room \<times> bool" where
  "UpdateOccupantName p name = update_occupant p (\<lambda>c. c\<lparr>ro_Username := name\<rparr>)"

definition UpdateOccupantGroup :: "ident \<Rightarrow> int \<Rightarrow> i32 \<Rightarrow> string \<Rightarrow> room \<Rightarrow> room \<times> bool" where
  "UpdateOccupantGroup p gid status name =
     update_occupant p (\<lambda>c. c\<lparr>ro_GroupID := gid, ro_GroupStatus := status, ro_GroupName := name\<rparr>)"

definition UpdateOccupantAchievementScore :: "ident \<Rightarrow> i32 \<Rightarrow> room \<Rightarrow> room \<times> bool" where
  "UpdateOccupantAchievementScore p score = update_occupant p (\<lambda>c. c\<lparr>ro_AchievementScore := score\<rparr>)"

definition UpdatePetSettings :: "bool \<Rightarrow> bool \<Rightarrow> room \<Rightarrow> room" where
  "UpdatePetSettings pets eat r = r\<lparr>lr_snapshot := (lr_snapshot r)\<lparr>rm_AllowPets := pets, rm_AllowPetsEat := eat\<rparr>\<rparr>"

definition UpdateCategoryAndTrade :: "ident option \<Rightarrow> i16 \<Rightarrow> room \<Rightarrow> room" where
  "UpdateCategoryAndTrade category mode r =
     r\<lparr>lr_snapshot := (lr_snapshot r)\<lparr>rm_CategoryID := category, rm_TradeMode := mode\<rparr>\<rparr>"

definition SetMuteAll :: "bool \<Rightarrow> room \<Rightarrow> room" where
  "SetMuteAll muted r = r\<lparr>lr_muteAll := muted\<rparr>"

definition room_Schedule :: "int \<Rightarrow> int \<Rightarrow> nat option \<Rightarrow> room \<Rightarrow> room" where
  "room_Schedule now after job r = r\<lparr>lr_tasks := task_Schedule (now + after) job (lr_tasks r)\<rparr>"

definition ScheduleReplacing :: "int \<Rightarrow> u64 \<Rightarrow> int \<Rightarrow> nat option \<Rightarrow> room \<Rightarrow> room" where
  "ScheduleReplacing now key after job r = r\<lparr>lr_tasks := task_Replace key (now + after) job (lr_tasks r)\<rparr>"

definition RunScheduled :: "int \<Rightarrow> room \<Rightarrow> room \<times> nat list" where
  "RunScheduled now r = (case task_Due now (lr_tasks r) of (q, due) \<Rightarrow> (r\<lparr>lr_tasks := q\<rparr>, due))"

end
