(* ===== verification/Room_Registry.thy ===== *)
theory Room_Registry
  imports Room_Live
begin

text \<open>
  The registry of active rooms (\<^verbatim>\<open>internal/realm/room/runtime/live/registry.go\<close>) and the entry of a player
  (\<^verbatim>\<open>internal/realm/room/access/commands/enter\<close>), with the invariant that ties the index of players, the
  occupants of rooms and the units of their worlds together.
\<close>

subsection \<open>The registry\<close>

text \<open>Whether publishing the occupancy of a room fails, who answers for doorbell requests, and the clock.\<close>

record registry_env =
  re_publish :: "ident \<Rightarrow> bool"
  re_approver :: "(room \<Rightarrow> bool option) option"
  re_now :: int

record room_registry =
  rg_heap :: "nat \<rightharpoonup> room"
  rg_rooms :: "(ident \<times> nat) list"
  rg_byPlayer :: "ident \<rightharpoonup> ident"
  rg_next :: nat

definition NewRegistry :: room_registry where
  "NewRegistry = \<lparr>rg_heap = Map.empty, rg_rooms = [], rg_byPlayer = Map.empty, rg_next = 0\<rparr>"

definition put_room :: "nat \<Rightarrow> room \<Rightarrow> room_registry \<Rightarrow> room_registry" where
  "put_room n r g = g\<lparr>rg_heap := (rg_heap g)(n \<mapsto> r)\<rparr>"

definition Activate :: "int \<Rightarrow> room_snapshot \<Rightarrow> room_registry \<Rightarrow> room_registry \<times> (room_error + nat)" where
  "Activate now s g = (case NewRoom now s of
     Inl e \<Rightarrow> (g, Inl e)
   | Inr r \<Rightarrow> (case map_of (rg_rooms g) (rm_ID s) of
         Some n \<Rightarrow> (g, Inr n)
       | None \<Rightarrow> (g\<lparr>rg_heap := (rg_heap g)(rg_next g \<mapsto> r), rg_rooms := rg_rooms g @ [(rm_ID s, rg_next g)],
                    rg_next := Suc (rg_next g)\<rparr>, Inr (rg_next g))))"

definition registry_Find :: "ident \<Rightarrow> room_registry \<Rightarrow> nat option" where
  "registry_Find rid g = map_of (rg_rooms g) rid"

definition registry_FindByPlayer :: "ident \<Rightarrow> room_registry \<Rightarrow> nat option" where
  "registry_FindByPlayer p g = (case rg_byPlayer g p of None \<Rightarrow> None | Some rid \<Rightarrow> map_of (rg_rooms g) rid)"

definition indexedRoom :: "ident \<Rightarrow> room_registry \<Rightarrow> ident option" where
  "indexedRoom p g = rg_byPlayer g p"

definition approver_present :: "registry_env \<Rightarrow> room \<Rightarrow> bool" where
  "approver_present env r =
     (if DoorbellLen r > 0
      then (case re_approver env of None \<Rightarrow> OwnerPresent r
        | Some f \<Rightarrow> (case f r of None \<Rightarrow> OwnerPresent r | Some resolved \<Rightarrow> resolved))
      else OwnerPresent r)"

text \<open>The result: the occupancy that is left with the error of publishing it, and the requests that expired.\<close>

definition registry_Leave ::
  "registry_env \<Rightarrow> ident \<Rightarrow> room_registry \<Rightarrow> room_registry \<times> (occupancy_info \<times> bool) option \<times> (doorbell_entry \<times> expire_reason) list" where
  "registry_Leave env p g = (case registry_FindByPlayer p g of
     None \<Rightarrow> (g, None, [])
   | Some n \<Rightarrow> (case rg_heap g n of
         None \<Rightarrow> (g, None, [])
       | Some r \<Rightarrow> (case room_Leave (re_now env) p r of
             (r', None) \<Rightarrow> (g, None, [])
           | (r', Some left) \<Rightarrow> (case DrainDoorbellWithoutApprover (approver_present env r') r' of
                 (r'', expired) \<Rightarrow> ((put_room n r'' g)\<lparr>rg_byPlayer := (rg_byPlayer g)(p := None)\<rparr>,
                                   Some (left, re_publish env (ox_RoomID left)), expired)))))"

definition removeIndexedPlayer :: "registry_env \<Rightarrow> ident \<Rightarrow> room_registry \<Rightarrow> room_registry" where
  "removeIndexedPlayer env p g = (if p \<le> 0 then g else fst (registry_Leave env p g))"

text \<open>The sections of a join: the player leaves another room, joins this one and is indexed.\<close>

definition leave_other :: "registry_env \<Rightarrow> ident \<Rightarrow> ident \<Rightarrow> room_registry \<Rightarrow> room_registry" where
  "leave_other env rid p g = (case indexedRoom p g of
     None \<Rightarrow> g | Some previous \<Rightarrow> if previous \<noteq> rid then removeIndexedPlayer env p g else g)"

definition join_room ::
  "(room \<Rightarrow> room \<times> (room_error + occupancy_info)) \<Rightarrow> registry_env \<Rightarrow> ident \<Rightarrow> occupant \<Rightarrow> room_registry \<Rightarrow>
     room_registry \<times> (room_error + occupancy_info)" where
  "join_room enter env rid c g =
     (if \<not> occupant_Valid c then (g, Inl ErrInvalidOccupant)
      else (case registry_Find rid g of
          None \<Rightarrow> (g, Inl ErrRoomNotFound)
        | Some n \<Rightarrow> (let g1 = leave_other env rid (ro_PlayerID c) g in
            case rg_heap g1 n of
              None \<Rightarrow> (g1, Inl ErrRoomNotFound)
            | Some r \<Rightarrow> (case enter r of
                (r', Inl e) \<Rightarrow> (put_room n r' g1, Inl e)
              | (r', Inr ox) \<Rightarrow> ((put_room n r' g1)\<lparr>rg_byPlayer := (rg_byPlayer g1)(ro_PlayerID c \<mapsto> rid)\<rparr>,
                    if re_publish env (ox_RoomID ox) then Inl ErrPublish else Inr ox)))))"

definition JoinWithCapacity ::
  "registry_env \<Rightarrow> ident \<Rightarrow> occupant \<Rightarrow> bool \<Rightarrow> room_registry \<Rightarrow> room_registry \<times> (room_error + occupancy_info)" where
  "JoinWithCapacity env rid c bypass = join_room (room_JoinWithCapacity (re_now env) c bypass) env rid c"

definition registry_Join ::
  "registry_env \<Rightarrow> ident \<Rightarrow> occupant \<Rightarrow> room_registry \<Rightarrow> room_registry \<times> (room_error + occupancy_info)" where
  "registry_Join env rid c = JoinWithCapacity env rid c False"

definition JoinSpectator ::
  "registry_env \<Rightarrow> ident \<Rightarrow> occupant \<Rightarrow> room_registry \<Rightarrow> room_registry \<times> (room_error + occupancy_info)" where
  "JoinSpectator env rid c = join_room (room_JoinSpectator (re_now env) c) env rid c"

definition close_room ::
  "registry_env \<Rightarrow> ident \<Rightarrow> room_registry \<Rightarrow> room_registry \<times> (occupancy_info \<times> bool) option \<times> (doorbell_entry \<times> expire_reason) list" where
  "close_room env rid g = (case registry_Find rid g of
     None \<Rightarrow> (g, None, [])
   | Some n \<Rightarrow> (case rg_heap g n of
         None \<Rightarrow> (g, None, [])
       | Some r \<Rightarrow> (case CloseWithDoorbell (re_now env) r of
             (r', ox, expired) \<Rightarrow>
               ((put_room n r' g)\<lparr>rg_rooms := AList.delete rid (rg_rooms g),
                   rg_byPlayer := (\<lambda>p. if rg_byPlayer g p = Some rid then None else rg_byPlayer g p)\<rparr>,
                Some (ox, re_publish env (ox_RoomID ox)), expired))))"

definition idle_rooms :: "int \<Rightarrow> int \<Rightarrow> room_registry \<Rightarrow> ident list" where
  "idle_rooms idleFor now g = map fst (filter (\<lambda>(rid, n). case rg_heap g n of
     None \<Rightarrow> False
   | Some r \<Rightarrow> (case lr_idleSince r of None \<Rightarrow> False | Some since \<Rightarrow> \<not> since + idleFor > now)) (rg_rooms g))"

fun close_rooms :: "registry_env \<Rightarrow> ident list \<Rightarrow> room_registry \<Rightarrow> room_registry \<times> occupancy_info list \<times> bool" where
  "close_rooms env [] g = (g, [], False)"
| "close_rooms env (rid # rids) g = (case close_room env rid g of
     (g1, None, _) \<Rightarrow> close_rooms env rids g1
   | (g1, Some (ox, failed), _) \<Rightarrow> if failed then (g1, [], True)
       else (case close_rooms env rids g1 of (g2, oxs, b) \<Rightarrow> (g2, ox # oxs, b)))"

definition UnloadIdle :: "registry_env \<Rightarrow> int \<Rightarrow> int \<Rightarrow> room_registry \<Rightarrow> room_registry \<times> occupancy_info list \<times> bool" where
  "UnloadIdle env idleFor now g = close_rooms env (idle_rooms idleFor now g) g"

definition registry_Count :: "room_registry \<Rightarrow> nat" where
  "registry_Count g = length (rg_rooms g)"

subsection \<open>Entering a room\<close>

text \<open>What the enter command gets: the room that the player thinks to be in, the row of the room, the lists of
  rights and mutes and the layout (\<open>None\<close> when loading them fails), the occupant, and what the entry
  service answers to whether the player may enter a full room (\<open>None\<close> without the service).\<close>

record entrance =
  en_previous :: "ident option"
  en_room :: room_snapshot
  en_rights :: "ident list option"
  en_mutes :: "(ident \<rightharpoonup> int) option"
  en_config :: "config option"
  en_occupant :: occupant
  en_entry :: "bool option option"
  en_spectators :: bool

definition load_room :: "entrance \<Rightarrow> room \<Rightarrow> room \<times> room_error option" where
  "load_room en r =
     (if WorldLoaded r then (r, None)
      else (case en_rights en of
          None \<Rightarrow> (r, Some ErrService)
        | Some holders \<Rightarrow> (let r1 = r\<lparr>lr_rights := ReplaceRights holders (lr_rights r)\<rparr> in
            case en_mutes en of
              None \<Rightarrow> (r1, Some ErrService)
            | Some mutes \<Rightarrow> (let r2 = ReplaceMutes mutes r1 in
                case en_config en of
                  None \<Rightarrow> (r2, Some ErrService)
                | Some c \<Rightarrow> LoadWorld c r2))))"

definition leave_previous :: "registry_env \<Rightarrow> entrance \<Rightarrow> room_registry \<Rightarrow> room_registry \<times> bool" where
  "leave_previous env en g = (case en_previous en of
     None \<Rightarrow> (g, False)
   | Some previous \<Rightarrow> if previous = rm_ID (en_room en) then (g, False)
       else (case registry_Leave env (ro_PlayerID (en_occupant en)) g of
           (g1, None, _) \<Rightarrow> (g1, False) | (g1, Some (_, failed), _) \<Rightarrow> (g1, failed)))"

definition admit :: "registry_env \<Rightarrow> entrance \<Rightarrow> room_registry \<Rightarrow> room_registry \<times> room_error option" where
  "admit env en g = (let rid = rm_ID (en_room en); c = en_occupant en in
     case registry_Join env rid c g of
       (g1, Inr _) \<Rightarrow> (g1, None)
     | (g1, Inl e) \<Rightarrow>
         if e \<noteq> ErrRoomFull then (g1, Some e)
         else (case en_entry en of
             None \<Rightarrow> (g1, Some e)
           | Some None \<Rightarrow> (g1, Some ErrService)
           | Some (Some allowed) \<Rightarrow>
               if allowed then (case JoinWithCapacity env rid c True g1 of
                   (g2, Inl e2) \<Rightarrow> (g2, Some e2) | (g2, Inr _) \<Rightarrow> (g2, None))
               else if en_spectators en then (case JoinSpectator env rid c g1 of
                   (g2, Inl e2) \<Rightarrow> (g2, Some e2) | (g2, Inr _) \<Rightarrow> (g2, None))
               else (g1, Some e)))"

definition enter_join :: "registry_env \<Rightarrow> entrance \<Rightarrow> room_registry \<Rightarrow> room_registry \<times> (room_error + nat)" where
  "enter_join env en g = (case leave_previous env en g of
     (g1, True) \<Rightarrow> (g1, Inl ErrPublish)
   | (g1, False) \<Rightarrow> (case Activate (re_now env) (en_room en) g1 of
         (g2, Inl e) \<Rightarrow> (g2, Inl e)
       | (g2, Inr n) \<Rightarrow> (case rg_heap g2 n of
             None \<Rightarrow> (g2, Inl ErrRoomNotFound)
           | Some r \<Rightarrow> (case load_room en r of
                 (r', Some e) \<Rightarrow> (put_room n r' g2, Inl e)
               | (r', None) \<Rightarrow> (case admit env en (put_room n r' g2) of
                     (g3, Some e) \<Rightarrow> (g3, Inl e) | (g3, None) \<Rightarrow> (g3, Inr n))))))"

subsection \<open>The units of a world\<close>

text \<open>Only adding, removing and clearing changes which units there are.\<close>

definition unit_keys :: "world_state \<Rightarrow> ident list" where
  "unit_keys w = map fst (w_units w)"

lemma unit_keys_change [simp]: "unit_keys (change k f w) = unit_keys w"
proof -
  have "map fst (AList.update k x us) = map fst us" if "map_of us k = Some u" for us :: units and x u
    using that by (induction us) auto
  then show ?thesis by (simp add: unit_keys_def change_def mutate_def split: option.splits)
qed

lemma unit_keys_units: "unit_keys (w\<lparr>w_units := us\<rparr>) = map fst us"
  "unit_keys (w\<lparr>w_mounts := ms, w_units := us\<rparr>) = map fst us"
  "unit_keys (w\<lparr>w_unitKeys := ks, w_units := us\<rparr>) = map fst us"
  by (simp_all add: unit_keys_def)

lemma unit_keys_mutate [simp]: "map fst (mutate k f us) = map fst us"
  using unit_keys_change [of k f "undefined\<lparr>w_units := us\<rparr>"] by (simp add: unit_keys_def change_def)

lemma unit_keys_base [simp]:
  "unit_keys (releaseSlot k w) = unit_keys w" "unit_keys (occupySlot k p w) = unit_keys w"
  "unit_keys (w\<lparr>w_mounts := ms\<rparr>) = unit_keys w" "unit_keys (w\<lparr>w_unitKeys := ks\<rparr>) = unit_keys w"
  "unit_keys (w\<lparr>w_resolver := r\<rparr>) = unit_keys w" "unit_keys (w\<lparr>w_furniture := fs\<rparr>) = unit_keys w"
  "unit_keys (w\<lparr>w_resolver := r, w_furniture := fs\<rparr>) = unit_keys w"
  "unit_keys (ClearUnits w) = []"
  "unit_keys (addInteraction i w) = unit_keys w" "unit_keys (removeInteraction i w) = unit_keys w"
  "unit_keys (addFurnitureIndexes i w) = unit_keys w" "unit_keys (removeFurnitureIndexes i w) = unit_keys w"
  by (simp_all add: unit_keys_def releaseSlot_def occupySlot_def ClearUnits_def
      addInteraction_def removeInteraction_def addFurnitureIndexes_def removeFurnitureIndexes_def
      Let_def split: option.splits)

lemma unit_keys_unlink [simp]: "unit_keys (unlinkMount k w) = unit_keys w"
  by (auto simp: unlinkMount_def mount_Unlink_def unit_keys_def split: prod.splits option.splits)

lemma unit_keys_linked [simp]:
  "unit_keys (with_linked k f w) = unit_keys w"
  "unit_keys (give_path k p c w) = unit_keys w" "unit_keys (assignLinkedPath k p c w) = unit_keys w"
  "unit_keys (repositionUnit k pt z r b w) = unit_keys w"
  by (simp_all add: with_linked_def give_path_def assignLinkedPath_def repositionUnit_def Let_def
      split: option.splits)

lemma unit_keys_mount [simp]: "unit_keys (fst (SetMount a b m w)) = unit_keys w"
  by (auto simp: SetMount_def mount_Set_def mount_Unlink_def unit_keys_units unit_keys_def Let_def
      split: prod.splits sum.splits bool.splits option.splits if_splits)

lemma unit_keys_teleportNear [simp]: "unit_keys (fst (teleportNear k r c ps w)) = unit_keys w"
  by (induction ps) (simp_all add: Let_def split: sum.splits)

lemma unit_keys_moves [simp]:
  "unit_keys (fst (ApplyControlledMovement k p c w)) = unit_keys w"
  "unit_keys (fst (TeleportUnit k pt r b pol w)) = unit_keys w"
  "unit_keys (fst (ApplyControlledStep k pt c w)) = unit_keys w"
  "unit_keys (fst (ApplyControlledInteractionStep k pt c w)) = unit_keys w"
  "unit_keys (fst (FaceTo k pt w)) = unit_keys w" "unit_keys (fst (RollUnit k pos w)) = unit_keys w"
  by (simp_all add: ApplyControlledMovement_def TeleportUnit_def ApplyControlledStep_def
      ApplyControlledInteractionStep_def FaceTo_def RollUnit_def Let_def
      split: option.splits sum.splits)

lemma unit_keys_on_unit [simp]: "unit_keys (fst (on_unit k f w)) = unit_keys w"
  by (simp add: on_unit_def Let_def split: option.splits)

lemma unit_keys_commands [simp]:
  "unit_keys (fst (setUnitIdleAt k b m t w)) = unit_keys w" "unit_keys (fst (SetUnitPosture k b w)) = unit_keys w"
  "unit_keys (fst (SetUnitDance k d w)) = unit_keys w" "unit_keys (fst (SetUnitEffect k e w)) = unit_keys w"
  "unit_keys (fst (world_SetHandItem k i w)) = unit_keys w" "unit_keys (fst (world_StopMovement k w)) = unit_keys w"
  "unit_keys (fst (SetUnitControl k c w)) = unit_keys w" "unit_keys (fst (SetUnitStatus k key v w)) = unit_keys w"
  "unit_keys (fst (ClearUnitStatus k key w)) = unit_keys w" "unit_keys (fst (PulseUnitStatus k key v w)) = unit_keys w"
  "unit_keys (fst (ReloadFixtures sid fs w)) = unit_keys w"
  "unit_keys (fst (SetFurnitureExtraData units item v w)) = unit_keys w"
  "unit_keys (fst (UpdateFurnitureState units item v rb w)) = unit_keys w"
  by (simp_all add: setUnitIdleAt_def SetUnitPosture_def SetUnitDance_def SetUnitEffect_def
      world_SetHandItem_def world_StopMovement_def SetUnitControl_def SetUnitStatus_def
      ClearUnitStatus_def PulseUnitStatus_def ReloadFixtures_def SetFurnitureExtraData_def UpdateFurnitureState_def
      Let_def split: option.splits prod.splits sum.splits)

lemma unit_keys_tick [simp]: "unit_keys (fst (tick_units ks w)) = unit_keys w"
proof -
  have settle: "unit_keys (settleUnit k u w) = unit_keys w" for k u w
    by (simp add: settleUnit_def settleOnSection_def Let_def split: sum.splits option.splits)
  have "unit_keys (fst (tick_unit k w)) = unit_keys w" for k w
    by (simp add: tick_unit_def Let_def settle split: option.splits prod.splits sum.splits)
  then show ?thesis by (induction ks arbitrary: w) simp_all
qed

lemma unit_keys_reconcile [simp]: "unit_keys (fst (reconcileSlotOccupants prev i w)) = unit_keys w"
proof -
  have "unit_keys (fst (reconcile_slot upd i s a)) = unit_keys (fst a)" for upd s a
    by (simp add: reconcile_slot_def Let_def split: prod.splits option.splits sum.splits)
  then have "unit_keys (fst (fold (reconcile_slot upd i) prev a)) = unit_keys (fst a)" for upd a
    by (induction prev arbitrary: a) simp_all
  then show ?thesis by (simp add: reconcileSlotOccupants_def Let_def)
qed

lemma unit_keys_resettle [simp]: "unit_keys (fst (ResettleFurnitureUnits i w)) = unit_keys w"
proof -
  have "unit_keys (fst (resettle_unit it k a)) = unit_keys (fst a)" for it k a
    by (simp add: resettle_unit_def Let_def split: prod.splits option.splits sum.splits)
  then have "unit_keys (fst (fold (resettle_unit it) ks a)) = unit_keys (fst a)" for it ks a
    by (induction ks arbitrary: a) simp_all
  then show ?thesis by (simp add: ResettleFurnitureUnits_def split: option.splits)
qed

lemma unit_keys_reload [simp]: "unit_keys (fst (ReloadFurniture sid i w)) = unit_keys w"
  by (cases i; cases "furniture_of w sid")
     (simp_all add: ReloadFurniture_def Let_def case_prod_beta split: sum.splits option.splits)

lemma set_unit_keys [simp]: "p \<in> set (unit_keys w) \<longleftrightarrow> unit_of w p \<noteq> None"
  by (simp add: unit_keys_def unit_of_def map_of_eq_None_iff)

lemma keys_update: "fst ` set (AList.update k x us) = insert k (fst ` set us)"
  by (induction us) auto

lemma keys_delete: "fst ` set (AList.delete k us) = fst ` set us - {k}"
  by (induction us) auto

lemma unit_keys_delete: "set (unit_keys (w\<lparr>w_units := AList.delete k (w_units w')\<rparr>)) = set (unit_keys w') - {k}"
  "set (unit_keys (w\<lparr>w_unitKeys := m, w_units := AList.delete k (w_units w')\<rparr>)) = set (unit_keys w') - {k}"
  by (simp_all add: unit_keys_def keys_delete del: set_unit_keys)

lemma unit_keys_add: "set (unit_keys (add_unit k u w)) = insert k (set (unit_keys w))"
  by (simp add: unit_keys_def add_unit_def keys_update del: set_unit_keys)

lemma unit_keys_AddUnit:
  assumes "world_inv w" shows "set (unit_keys (AddUnit k w)) = insert k (set (unit_keys w))"
proof (cases "unit_of w k")
  case None
  have "w_nextUnitID w > 0" using assms by (auto simp: world_inv_def ids_inv_def)
  then show ?thesis
    by (simp add: AddUnit_def None unit_New_def KindPlayer_def unit_keys_add del: set_unit_keys)
next
  case (Some u)
  then have "k \<in> set (unit_keys w)" by simp
  then show ?thesis using Some by (auto simp: AddUnit_def simp del: set_unit_keys)
qed

lemma unit_keys_RemoveUnit: "set (unit_keys (RemoveUnit k w)) = set (unit_keys w) - {k}"
  by (simp add: RemoveUnit_def Let_def unit_keys_delete del: set_unit_keys split: option.splits)

lemma unit_keys_RemoveEntity: "set (unit_keys (fst (RemoveEntity k w))) = set (unit_keys w) - {k}"
proof (cases "unit_of w k")
  case None
  then have "k \<notin> set (unit_keys w)" by simp
  with None show ?thesis by (simp add: RemoveEntity_def del: set_unit_keys)
qed (simp add: RemoveEntity_def Let_def unit_keys_delete del: set_unit_keys)

lemma unit_keys_AddEntity:
  "set (unit_keys (fst (AddEntity k own kd p r w))) \<subseteq> insert k (set (unit_keys w))"
  "set (unit_keys w) \<subseteq> set (unit_keys (fst (AddEntity k own kd p r w)))"
  by (auto simp add: AddEntity_def unit_keys_add simp del: set_unit_keys split: option.splits sum.splits)

subsection \<open>Steps\<close>

text \<open>What the rest of the server does with a room it holds a pointer to. Keys of pets and bots are negative,
  and units of players come and go with their occupants only.\<close>

definition foreign_op :: "world_op \<Rightarrow> bool" where
  "foreign_op op = (case op of
     WAddUnit k \<Rightarrow> False | WRemoveUnit k \<Rightarrow> False | WClearUnits \<Rightarrow> False
   | WAddEntity k own kind p rot \<Rightarrow> k < 0 | WRemoveEntity k \<Rightarrow> k < 0 | _ \<Rightarrow> True)"

datatype room_op =
    OWorld "string \<Rightarrow> height option" world_op | OLoad config | OUnload | OTick int
  | ORights "ident list" | OGrant ident | ORevoke ident
  | ORequest doorbell_entry bool | OResolve string | OSweep int int
  | OSettings "ident option" int i16 i16 | OPets bool bool | OCategory "ident option" i16 | OSpeed int
  | ORollers bool | OMuteAll bool | OMutes "ident \<rightharpoonup> int" | OMute ident int | OLock int ident int | OUnlock ident
  | OProfile ident string string string | OName ident string | OGroup ident int i32 string | OScore ident i32
  | OSchedule int int "nat option" | OReplace int u64 int "nat option"

fun room_step :: "room_op \<Rightarrow> room \<Rightarrow> room" where
  "room_step (OWorld units op) r =
     (if foreign_op op then fst (on_world (\<lambda>w. (world_step units op w, ())) () r) else r)"
| "room_step (OLoad c) r = fst (LoadWorld c r)"
| "room_step OUnload r = UnloadWorld r"
| "room_step (OTick now) r = fst (room_Tick now r)"
| "room_step (ORights ids) r = r\<lparr>lr_rights := ReplaceRights ids (lr_rights r)\<rparr>"
| "room_step (OGrant p) r = r\<lparr>lr_rights := GrantRights p (lr_rights r)\<rparr>"
| "room_step (ORevoke p) r = r\<lparr>lr_rights := RevokeRights p (lr_rights r)\<rparr>"
| "room_step (ORequest e approver) r = fst (RequestDoorbell e approver r)"
| "room_step (OResolve name) r = fst (ResolveDoorbell name r)"
| "room_step (OSweep now timeout) r = fst (SweepDoorbell now timeout r)"
| "room_step (OSettings cat users dist prot) r = UpdateSettings cat users dist prot r"
| "room_step (OPets pets eat) r = UpdatePetSettings pets eat r"
| "room_step (OCategory cat trade) r = UpdateCategoryAndTrade cat trade r"
| "room_step (OSpeed speed) r = UpdateRollerSpeed speed r"
| "room_step (ORollers b) r = fst (AdvanceRollerCycle b r)"
| "room_step (OMuteAll b) r = SetMuteAll b r"
| "room_step (OMutes m) r = ReplaceMutes m r"
| "room_step (OMute p endsAt) r = SetMuted p endsAt r"
| "room_step (OLock now item until) r = fst (TryLockInteraction now item until r)"
| "room_step (OUnlock item) r = UnlockInteraction item r"
| "room_step (OProfile p figure gender motto) r = fst (UpdateOccupantProfile p figure gender motto r)"
| "room_step (OName p name) r = fst (UpdateOccupantName p name r)"
| "room_step (OGroup p gid status name) r = fst (UpdateOccupantGroup p gid status name r)"
| "room_step (OScore p score) r = fst (UpdateOccupantAchievementScore p score r)"
| "room_step (OSchedule now after job) r = room_Schedule now after job r"
| "room_step (OReplace now key after job) r = ScheduleReplacing now key after job r"

datatype registry_op =
    GEnter registry_env entrance | GLeave registry_env ident | GClose registry_env ident
  | GUnloadIdle registry_env int int | GRoom nat room_op

fun registry_step :: "registry_op \<Rightarrow> room_registry \<Rightarrow> room_registry" where
  "registry_step (GEnter env en) g = fst (enter_join env en g)"
| "registry_step (GLeave env p) g = fst (registry_Leave env p g)"
| "registry_step (GClose env rid) g = fst (close_room env rid g)"
| "registry_step (GUnloadIdle env idleFor now) g = fst (UnloadIdle env idleFor now g)"
| "registry_step (GRoom n op) g = (case rg_heap g n of None \<Rightarrow> g | Some r \<Rightarrow> put_room n (room_step op r) g)"

subsection \<open>The invariant of a room\<close>

abbreviation occupant_keys :: "room \<Rightarrow> ident set" where
  "occupant_keys r \<equiv> fst ` set (lr_occupants r)"

definition visible :: "room \<Rightarrow> ident set" where
  "visible r = {p. \<exists>c. room_Occupant p r = Some c \<and> \<not> ro_Spectator c}"

definition room_ok :: "room \<Rightarrow> bool" where
  "room_ok r \<longleftrightarrow> distinct (map fst (lr_occupants r)) \<and>
     (\<forall>p c. room_Occupant p r = Some c \<longrightarrow> ro_PlayerID c = p \<and> p > 0) \<and>
     (lr_occupants r \<noteq> [] \<longrightarrow> lr_idleSince r = None \<and> \<not> lr_closed r) \<and>
     (lr_closed r \<longrightarrow> lr_doorbell r = None) \<and>
     (\<forall>w. lr_world r = Some w \<longrightarrow> world_inv w \<and> visible r \<subseteq> set (unit_keys w))"

text \<open>What an operation on a room leaves alone.\<close>

definition same_room :: "room \<Rightarrow> room \<Rightarrow> bool" where
  "same_room r r' \<longleftrightarrow> rm_ID (lr_snapshot r') = rm_ID (lr_snapshot r) \<and> lr_closed r' = lr_closed r \<and>
     occupant_keys r' = occupant_keys r"

lemma occupant_in_keys: "room_Occupant p r = Some c \<Longrightarrow> p \<in> occupant_keys r"
  unfolding room_Occupant_def by (metis fst_conv image_eqI map_of_SomeD)

lemma keys_occupant: "p \<in> occupant_keys r \<longleftrightarrow> room_Occupant p r \<noteq> None"
  by (simp add: room_Occupant_def map_of_eq_None_iff)

lemma foreign_keys:
  assumes "foreign_op op" "p > 0"
  shows "p \<in> set (unit_keys (world_step units op w)) \<longleftrightarrow> p \<in> set (unit_keys w)"
proof (cases op)
  case (WAddEntity k own kind pos rot)
  with assms show ?thesis using unit_keys_AddEntity [where k = k and own = own and kd = kind and p = pos and r = rot and w = w]
    by (auto simp add: foreign_op_def simp del: set_unit_keys)
next
  case (WRemoveEntity k)
  with assms show ?thesis
    by (auto simp add: foreign_op_def unit_keys_RemoveEntity simp del: set_unit_keys)
qed (use assms in \<open>simp_all add: foreign_op_def Tick_def del: set_unit_keys\<close>)

lemma visible_world [simp]: "visible (r\<lparr>lr_world := w\<rparr>) = visible r"
  by (simp add: visible_def room_Occupant_def)

lemma visible_keys: "visible r \<subseteq> occupant_keys r"
  by (auto simp: visible_def dest: occupant_in_keys)

lemma visible_pos: "room_ok r \<Longrightarrow> p \<in> visible r \<Longrightarrow> p > 0"
  by (auto simp: room_ok_def visible_def)

lemma room_okD:
  assumes "room_ok r"
  shows "distinct (map fst (lr_occupants r))" "room_Occupant p r = Some c \<Longrightarrow> ro_PlayerID c = p \<and> p > 0"
    "lr_occupants r \<noteq> [] \<Longrightarrow> lr_idleSince r = None" "lr_occupants r \<noteq> [] \<Longrightarrow> \<not> lr_closed r"
    "lr_closed r \<Longrightarrow> lr_doorbell r = None" "lr_world r = Some w \<Longrightarrow> world_inv w"
    "lr_world r = Some w \<Longrightarrow> visible r \<subseteq> set (unit_keys w)"
  using assms unfolding room_ok_def by blast+

lemma room_ok_world:
  assumes "room_ok r" "\<And>w. w' = Some w \<Longrightarrow> world_inv w \<and> visible r \<subseteq> set (unit_keys w)"
  shows "room_ok (r\<lparr>lr_world := w'\<rparr>)"
  using assms unfolding room_ok_def by (auto simp: room_Occupant_def)

lemma room_ok_other:
  assumes "room_ok r" "lr_occupants r' = lr_occupants r" "lr_idleSince r' = lr_idleSince r" "lr_closed r' = lr_closed r"
    "lr_world r' = lr_world r" "lr_closed r' \<Longrightarrow> lr_doorbell r' = None"
  shows "room_ok r'"
proof -
  have "visible r' = visible r" "\<And>p. room_Occupant p r' = room_Occupant p r"
    using assms(2) by (simp_all add: visible_def room_Occupant_def)
  with assms show ?thesis by (simp add: room_ok_def)
qed

lemma load_units: "world_inv w \<Longrightarrow> world_inv (fold AddUnit ps w) \<and> set (unit_keys (fold AddUnit ps w)) = set ps \<union> set (unit_keys w)"
proof (induction ps arbitrary: w)
  case (Cons p ps)
  then show ?case using Cons.IH [of "AddUnit p w"] AddUnit_inv [of w p] unit_keys_AddUnit [of w p] by (simp del: set_unit_keys)
qed simp

lemma LoadWorld_ok: "room_ok r \<Longrightarrow> room_ok (fst (LoadWorld c r)) \<and> same_room r (fst (LoadWorld c r))"
proof (cases "world_New c")
  case (Inr w)
  assume r: "room_ok r"
  let ?w = "fold AddUnit (map fst (lr_occupants r)) w"
  have "room_ok (r\<lparr>lr_world := Some ?w\<rparr>)"
    using load_units [OF world_New_inv [OF Inr], of "map fst (lr_occupants r)"] visible_keys [of r]
    by (intro room_ok_world r) auto
  then have "room_ok (r\<lparr>lr_world := Some ?w, lr_worldRef := Suc (lr_worldRef r)\<rparr>)"
    by (rule room_ok_other) (simp_all add: room_okD(5) [OF r])
  then show ?thesis by (simp add: LoadWorld_def Inr same_room_def)
qed (simp add: LoadWorld_def same_room_def)

lemma update_occupant_ok:
  assumes "room_ok r" "\<And>c. ro_PlayerID (f c) = ro_PlayerID c \<and> ro_Spectator (f c) = ro_Spectator c"
  shows "room_ok (fst (update_occupant p f r)) \<and> same_room r (fst (update_occupant p f r))"
proof (cases "room_Occupant p r")
  case (Some c)
  let ?r = "r\<lparr>lr_occupants := AList.update p (f c) (lr_occupants r)\<rparr>"
  have occ: "room_Occupant q ?r = (if q = p then Some (f c) else room_Occupant q r)" for q
    by (simp add: room_Occupant_def update_conv')
  have "visible ?r = visible r" using Some assms(2) [of c] by (auto simp: visible_def occ)
  moreover have "distinct (map fst (lr_occupants ?r))"
    using room_okD(1) [OF assms(1)] by (simp add: distinct_update)
  moreover have "lr_occupants r \<noteq> []" using Some by (auto simp: room_Occupant_def)
  moreover have "p \<in> occupant_keys r" using Some by (rule occupant_in_keys)
  ultimately show ?thesis
    using assms Some unfolding room_ok_def same_room_def update_occupant_def
    by (auto simp: occ keys_update)
qed (simp add: update_occupant_def same_room_def assms(1))

lemma on_world_ok:
  assumes "room_ok r" "foreign_op op"
  shows "room_ok (fst (on_world (\<lambda>w. (world_step units op w, ())) () r)) \<and>
    same_room r (fst (on_world (\<lambda>w. (world_step units op w, ())) () r))"
proof (cases "lr_world r")
  case (Some w)
  have "world_inv (world_step units op w)" using world_step_inv [of w units op] room_okD(6) [OF assms(1) Some] .
  moreover have "visible r \<subseteq> set (unit_keys (world_step units op w))"
  proof
    fix p assume "p \<in> visible r"
    then show "p \<in> set (unit_keys (world_step units op w))"
      using room_okD(7) [OF assms(1) Some] foreign_keys [OF assms(2), of p units w] visible_pos [OF assms(1)] by blast
  qed
  ultimately have "room_ok (r\<lparr>lr_world := Some (world_step units op w)\<rparr>)"
    by (intro room_ok_world assms(1)) simp
  then show ?thesis by (simp add: on_world_def Some same_room_def)
qed (simp add: on_world_def same_room_def assms(1))

lemma room_Tick_ok: "room_ok r \<Longrightarrow> room_ok (fst (room_Tick now r)) \<and> same_room r (fst (room_Tick now r))"
proof (cases "lr_world r")
  case None
  assume r: "room_ok r"
  have "room_ok (r\<lparr>lr_tasks := q\<rparr>)" for q by (rule room_ok_other [OF r]) (simp_all add: room_okD(5) [OF r])
  then show ?thesis by (simp add: room_Tick_def on_world_def None task_Due_def same_room_def)
next
  case (Some w)
  assume r: "room_ok r"
  have "room_ok (r\<lparr>lr_world := Some (fst (Tick w))\<rparr>)"
    using on_world_ok [OF r, of WTick] by (simp add: on_world_def Some foreign_op_def)
  then have "room_ok (r\<lparr>lr_world := Some (fst (Tick w)), lr_tasks := q\<rparr>)" for q
    by (rule room_ok_other) (simp_all add: room_okD(5) [OF r])
  then show ?thesis by (simp add: room_Tick_def on_world_def Some task_Due_def same_room_def case_prod_beta)
qed

lemmas room_step_defs = UnloadWorld_def RequestDoorbell_def ResolveDoorbell_def SweepDoorbell_def UpdateSettings_def
  UpdatePetSettings_def UpdateCategoryAndTrade_def UpdateRollerSpeed_def AdvanceRollerCycle_def SetMuteAll_def
  ReplaceMutes_def SetMuted_def TryLockInteraction_def UnlockInteraction_def room_Schedule_def ScheduleReplacing_def

text \<open>The operations that leave occupants and world alone.\<close>

definition quiet :: "room \<Rightarrow> room \<Rightarrow> bool" where
  "quiet r r' \<longleftrightarrow> lr_occupants r' = lr_occupants r \<and> lr_idleSince r' = lr_idleSince r \<and> lr_closed r' = lr_closed r \<and>
     lr_world r' = lr_world r \<and> (lr_closed r' \<longrightarrow> lr_doorbell r' = None) \<and> rm_ID (lr_snapshot r') = rm_ID (lr_snapshot r)"

fun loud :: "room_op \<Rightarrow> bool" where
  "loud (OWorld units op) = True"
| "loud (OLoad c) = True"
| "loud OUnload = True"
| "loud (OTick now) = True"
| "loud (OProfile p figure gender motto) = True"
| "loud (OName p name) = True"
| "loud (OGroup p gid status name) = True"
| "loud (OScore p score) = True"
| "loud _ = False"

lemma quiet_room_step:
  assumes "room_ok r" "\<not> loud op"
  shows "quiet r (room_step op r)"
proof (cases op)
  case (ORollers b)
  then show ?thesis by (simp add: quiet_def AdvanceRollerCycle_def Let_def room_okD(5) [OF assms(1)])
next
  case (OLock now item until)
  then show ?thesis
    by (cases "lr_interactionLocks r item") (simp_all add: quiet_def TryLockInteraction_def room_okD(5) [OF assms(1)])
next
  case (ORequest e approver)
  then show ?thesis by (simp add: quiet_def RequestDoorbell_def room_okD(5) [OF assms(1)] case_prod_beta)
next
  case (OResolve name)
  then show ?thesis
    by (cases "lr_doorbell r") (use room_okD(5) [OF assms(1)] in \<open>auto simp: quiet_def ResolveDoorbell_def case_prod_beta\<close>)
next
  case (OSweep now timeout)
  then show ?thesis
    by (cases "lr_doorbell r") (use room_okD(5) [OF assms(1)] in \<open>auto simp: quiet_def SweepDoorbell_def case_prod_beta\<close>)
qed (use assms in \<open>simp_all add: quiet_def room_step_defs room_okD(5) [OF assms(1)]\<close>)

lemma quiet_ok: "room_ok r \<Longrightarrow> quiet r r' \<Longrightarrow> room_ok r' \<and> same_room r r'"
  using room_ok_other [of r r'] by (auto simp: quiet_def same_room_def)

lemma room_step_ok:
  assumes "room_ok r"
  shows "room_ok (room_step op r) \<and> same_room r (room_step op r)"
proof (cases "loud op")
  case True
  then show ?thesis
  proof (cases op)
    case (OWorld units wop)
    then show ?thesis using on_world_ok [OF assms] assms by (simp add: same_room_def)
  next
    case OUnload
    have "room_ok (r\<lparr>lr_world := None\<rparr>)" by (rule room_ok_world [OF assms]) simp
    then have "room_ok (UnloadWorld r)" by (rule room_ok_other) (auto simp: UnloadWorld_def room_okD [OF assms])
    with OUnload show ?thesis by (simp add: same_room_def UnloadWorld_def)
  qed (use assms LoadWorld_ok room_Tick_ok in \<open>auto simp: UpdateOccupantProfile_def UpdateOccupantName_def
      UpdateOccupantGroup_def UpdateOccupantAchievementScore_def update_occupant_ok\<close>)
qed (use quiet_ok [OF assms quiet_room_step [OF assms]] in simp)

subsection \<open>The invariant of the registry\<close>

definition keys_at :: "room_registry \<Rightarrow> nat \<Rightarrow> ident set" where
  "keys_at g n = (case rg_heap g n of None \<Rightarrow> {} | Some r \<Rightarrow> occupant_keys r)"

definition registry_inv :: "room_registry \<Rightarrow> bool" where
  "registry_inv g \<longleftrightarrow> distinct (map fst (rg_rooms g)) \<and> distinct (map snd (rg_rooms g)) \<and>
     (\<forall>rid n. (rid, n) \<in> set (rg_rooms g) \<longrightarrow>
        (\<exists>r. rg_heap g n = Some r \<and> rm_ID (lr_snapshot r) = rid \<and> \<not> lr_closed r)) \<and>
     (\<forall>n r. rg_heap g n = Some r \<longrightarrow> room_ok r \<and> n < rg_next g \<and> (n \<notin> snd ` set (rg_rooms g) \<longrightarrow> lr_closed r)) \<and>
     (\<forall>p rid. rg_byPlayer g p = Some rid \<longleftrightarrow> (\<exists>n. (rid, n) \<in> set (rg_rooms g) \<and> p \<in> keys_at g n))"

lemma registry_invD:
  assumes "registry_inv g"
  shows "distinct (map fst (rg_rooms g))" "distinct (map snd (rg_rooms g))"
    "(rid, n) \<in> set (rg_rooms g) \<Longrightarrow> \<exists>r. rg_heap g n = Some r \<and> rm_ID (lr_snapshot r) = rid \<and> \<not> lr_closed r"
    "rg_heap g n = Some r \<Longrightarrow> room_ok r" "rg_heap g n = Some r \<Longrightarrow> n < rg_next g"
    "rg_heap g n = Some r \<Longrightarrow> n \<notin> snd ` set (rg_rooms g) \<Longrightarrow> lr_closed r"
    "rg_byPlayer g p = Some rid \<longleftrightarrow> (\<exists>n. (rid, n) \<in> set (rg_rooms g) \<and> p \<in> keys_at g n)"
  using assms unfolding registry_inv_def by blast+

lemma registered_unique:
  assumes "registry_inv g"
  shows "(rid, n) \<in> set (rg_rooms g) \<Longrightarrow> (rid, m) \<in> set (rg_rooms g) \<Longrightarrow> n = m"
    and "(rid, n) \<in> set (rg_rooms g) \<Longrightarrow> (rid', n) \<in> set (rg_rooms g) \<Longrightarrow> rid = rid'"
  using registry_invD(1,2) [OF assms]
  by (auto dest: eq_key_imp_eq_value) (metis distinct_map inj_onD prod.inject snd_conv)

lemma closed_empty: "room_ok r \<Longrightarrow> lr_closed r \<Longrightarrow> lr_occupants r = []"
  by (auto simp: room_ok_def)

lemma occupied_registered:
  assumes "registry_inv g" "p \<in> keys_at g n"
  shows "\<exists>rid. (rid, n) \<in> set (rg_rooms g) \<and> rg_byPlayer g p = Some rid"
proof -
  obtain r where r: "rg_heap g n = Some r" "p \<in> occupant_keys r"
    using assms(2) by (auto simp: keys_at_def split: option.splits)
  then have "\<not> lr_closed r" using closed_empty [OF registry_invD(4) [OF assms(1) r(1)]] by auto
  then have "n \<in> snd ` set (rg_rooms g)" using registry_invD(6) [OF assms(1) r(1)] by blast
  then obtain rid where "(rid, n) \<in> set (rg_rooms g)" by auto
  with assms registry_invD(7) [OF assms(1)] show ?thesis by blast
qed

lemma registry_Find_in: "registry_inv g \<Longrightarrow> registry_Find rid g = Some n \<longleftrightarrow> (rid, n) \<in> set (rg_rooms g)"
  using registry_invD(1) [of g] by (simp add: registry_Find_def)

text \<open>Three ways to replace a room: with the same occupants, with one more, with one less.\<close>

lemma replace_inv:
  assumes "registry_inv g" "rg_heap g n = Some r" "room_ok r'" "rm_ID (lr_snapshot r') = rm_ID (lr_snapshot r)"
    "lr_closed r' = lr_closed r"
    "\<And>p rid. b p = Some rid \<longleftrightarrow>
       (\<exists>m. (rid, m) \<in> set (rg_rooms g) \<and> p \<in> (if m = n then occupant_keys r' else keys_at g m))"
  shows "registry_inv ((put_room n r' g)\<lparr>rg_byPlayer := b\<rparr>)" (is "registry_inv ?g")
proof -
  have heap: "rg_heap (put_room n r' g) m = (if m = n then Some r' else rg_heap g m)" for m by (simp add: put_room_def)
  have same: "rg_rooms ?g = rg_rooms g" "rg_byPlayer ?g = b" "rg_next ?g = rg_next g" by (simp_all add: put_room_def)
  have keys: "keys_at ?g m = (if m = n then occupant_keys r' else keys_at g m)" for m
    by (simp add: keys_at_def put_room_def)
  note D = registry_invD [OF assms(1)]
  have "\<exists>x. rg_heap ?g m = Some x \<and> rm_ID (lr_snapshot x) = rid \<and> \<not> lr_closed x"
    if "(rid, m) \<in> set (rg_rooms g)" for rid m
    using D(3) [OF that] assms(2,4,5) by (auto simp: heap)
  moreover have "room_ok x \<and> m < rg_next g \<and> (m \<notin> snd ` set (rg_rooms g) \<longrightarrow> lr_closed x)"
    if "rg_heap ?g m = Some x" for m x
  proof (cases "m = n")
    case True
    then have "x = r'" using that by (simp add: heap)
    then show ?thesis using True assms(3,5) D(5,6) [OF assms(2)] by metis
  next
    case False
    then have "rg_heap g m = Some x" using that by (simp add: heap)
    then show ?thesis using D(4,5,6) [of m x] by metis
  qed
  ultimately show ?thesis using D(1,2) assms(6) unfolding registry_inv_def same keys by blast
qed

lemma put_room_inv:
  assumes "registry_inv g" "rg_heap g n = Some r" "room_ok r'" "same_room r r'"
  shows "registry_inv (put_room n r' g)"
proof -
  have "(if m = n then occupant_keys r' else keys_at g m) = keys_at g m" for m
    using assms(2,4) by (simp add: keys_at_def same_room_def)
  then have "registry_inv ((put_room n r' g)\<lparr>rg_byPlayer := rg_byPlayer g\<rparr>)"
    using assms registry_invD(7) [OF assms(1)] by (intro replace_inv) (simp_all add: same_room_def)
  moreover have "(put_room n r' g)\<lparr>rg_byPlayer := rg_byPlayer g\<rparr> = put_room n r' g" by (simp add: put_room_def)
  ultimately show ?thesis by simp
qed

lemma join_inv:
  assumes "registry_inv g" "(rid, n) \<in> set (rg_rooms g)" "rg_heap g n = Some r" "room_ok r'"
    "rm_ID (lr_snapshot r') = rm_ID (lr_snapshot r)" "lr_closed r' = lr_closed r"
    "occupant_keys r' = insert p (occupant_keys r)" "rg_byPlayer g p = None \<or> rg_byPlayer g p = Some rid"
  shows "registry_inv ((put_room n r' g)\<lparr>rg_byPlayer := (rg_byPlayer g)(p \<mapsto> rid)\<rparr>)"
proof (rule replace_inv [OF assms(1,3-6)])
  note D = registry_invD(7) [OF assms(1)] and uniq = registered_unique [OF assms(1)]
  have n: "keys_at g n = occupant_keys r" using assms(3) by (simp add: keys_at_def)
  have elsewhere: "m = n" if "p \<in> keys_at g m" for m
    using occupied_registered [OF assms(1) that] assms(2,8) uniq(1) by auto
  fix q rid'
  show "((rg_byPlayer g)(p \<mapsto> rid)) q = Some rid' \<longleftrightarrow>
    (\<exists>m. (rid', m) \<in> set (rg_rooms g) \<and> q \<in> (if m = n then occupant_keys r' else keys_at g m))"
  proof (cases "q = p")
    case True
    have "(\<exists>m. (rid', m) \<in> set (rg_rooms g) \<and> p \<in> (if m = n then occupant_keys r' else keys_at g m)) \<longleftrightarrow>
      (rid', n) \<in> set (rg_rooms g)"
      using elsewhere assms(7) by auto
    then show ?thesis using True assms(2) uniq(2) by auto
  next
    case False
    then have "q \<in> (if m = n then occupant_keys r' else keys_at g m) \<longleftrightarrow> q \<in> keys_at g m" for m
      using assms(7) n by simp
    then show ?thesis using False D by simp
  qed
qed

lemma part_inv:
  assumes "registry_inv g" "(rid, n) \<in> set (rg_rooms g)" "rg_heap g n = Some r" "room_ok r'"
    "rm_ID (lr_snapshot r') = rm_ID (lr_snapshot r)" "lr_closed r' = lr_closed r"
    "occupant_keys r' = occupant_keys r - {p}" "p \<in> occupant_keys r"
  shows "registry_inv ((put_room n r' g)\<lparr>rg_byPlayer := (rg_byPlayer g)(p := None)\<rparr>)"
proof (rule replace_inv [OF assms(1,3-6)])
  note D = registry_invD(7) [OF assms(1)] and uniq = registered_unique [OF assms(1)]
  have n: "keys_at g n = occupant_keys r" using assms(3) by (simp add: keys_at_def)
  have here: "rg_byPlayer g p = Some rid" using D [of p rid] assms(2,8) n by blast
  have elsewhere: "m = n" if "p \<in> keys_at g m" for m
    using occupied_registered [OF assms(1) that] here assms(2) uniq(1) by auto
  fix q rid'
  show "((rg_byPlayer g)(p := None)) q = Some rid' \<longleftrightarrow>
    (\<exists>m. (rid', m) \<in> set (rg_rooms g) \<and> q \<in> (if m = n then occupant_keys r' else keys_at g m))"
  proof (cases "q = p")
    case True
    then show ?thesis using elsewhere assms(7) by auto
  next
    case False
    then have "q \<in> (if m = n then occupant_keys r' else keys_at g m) \<longleftrightarrow> q \<in> keys_at g m" for m
      using assms(7) n by simp
    then show ?thesis using False D by simp
  qed
qed

subsection \<open>The operations of a room that change its occupants\<close>

lemma room_Join_ok:
  assumes "room_ok r" "room_JoinWithCapacity now c bypass r = (r', Inr ox)"
  shows "room_ok r' \<and> rm_ID (lr_snapshot r') = rm_ID (lr_snapshot r) \<and> \<not> lr_closed r' \<and> \<not> lr_closed r \<and>
    occupant_keys r' = insert (ro_PlayerID c) (occupant_keys r)"
proof -
  let ?p = "ro_PlayerID c"
  let ?r1 = "r\<lparr>lr_occupants := AList.update ?p (WithJoinTime now c) (lr_occupants r)\<rparr>"
  have valid: "?p > 0" and opened: "\<not> lr_closed r"
    using assms(2) by (auto simp: room_JoinWithCapacity_def occupant_Valid_def split: if_splits)
  have j: "ro_PlayerID (WithJoinTime now c) = ?p" "ro_Spectator (WithJoinTime now c) = ro_Spectator c"
    by (simp_all add: WithJoinTime_def)
  have occ: "room_Occupant q ?r1 = (if q = ?p then Some (WithJoinTime now c) else room_Occupant q r)" for q
    by (simp add: room_Occupant_def update_conv')
  have vis: "visible ?r1 = (if ro_Spectator c then visible r - {?p} else insert ?p (visible r))"
    by (auto simp: visible_def occ j)
  define w' where "w' = (case lr_world r of None \<Rightarrow> None | Some w \<Rightarrow>
    if ro_Spectator c then Some w else Some (fst (SetUnitEffect ?p (ro_ActiveEffectID c) (AddUnit ?p w))))"
  have r': "r' = ?r1\<lparr>lr_world := w', lr_idleSince := None\<rparr>"
    using assms(2) opened by (auto simp: room_JoinWithCapacity_def Let_def w'_def split: if_splits option.splits)
  have world: "world_inv w \<and> visible ?r1 \<subseteq> set (unit_keys w)" if w: "w' = Some w" for w
  proof -
    obtain w0 where w0: "lr_world r = Some w0" using w by (auto simp: w'_def split: option.splits)
    note k = room_okD(6,7) [OF assms(1) w0]
    show ?thesis
    proof (cases "ro_Spectator c")
      case True
      then have "w = w0" using w w0 by (simp add: w'_def)
      with True k show ?thesis unfolding vis by (simp del: set_unit_keys) blast
    next
      case False
      then have eq: "w = fst (SetUnitEffect ?p (ro_ActiveEffectID c) (AddUnit ?p w0))" using w w0 by (simp add: w'_def)
      have "world_inv w"
        using world_step_inv [OF AddUnit_inv [OF k(1)], of undefined "WEffect ?p (ro_ActiveEffectID c)" ?p] by (simp add: eq)
      moreover have "set (unit_keys w) = insert ?p (set (unit_keys w0))"
        unfolding eq unit_keys_commands by (rule unit_keys_AddUnit [OF k(1)])
      ultimately show ?thesis using k(2) False unfolding vis by (simp del: set_unit_keys) blast
    qed
  qed
  have same: "visible r' = visible ?r1" "\<And>q. room_Occupant q r' = room_Occupant q ?r1" "lr_occupants r' = lr_occupants ?r1"
    by (simp_all add: r' visible_def room_Occupant_def)
  have "room_ok r'"
    unfolding room_ok_def same using room_okD(1,2) [OF assms(1)] opened valid world
    by (auto simp: r' occ j distinct_update split: if_splits)
  then show ?thesis using opened by (simp add: r' keys_update)
qed

lemma room_Join_fails: "room_JoinWithCapacity now c bypass r = (r', Inl e) \<Longrightarrow> r' = r"
  by (auto simp: room_JoinWithCapacity_def Let_def split: if_splits)

lemma room_Leave_ok:
  assumes "room_ok r" "room_Leave now p r = (r', Some ox)"
  shows "room_ok r' \<and> rm_ID (lr_snapshot r') = rm_ID (lr_snapshot r) \<and> \<not> lr_closed r' \<and> \<not> lr_closed r \<and>
    occupant_keys r' = occupant_keys r - {p} \<and> p \<in> occupant_keys r"
proof -
  obtain c where c: "room_Occupant p r = Some c" using assms(2) by (auto simp: room_Leave_def split: option.splits)
  have p: "p \<in> occupant_keys r" using c by (rule occupant_in_keys)
  then have opened: "\<not> lr_closed r" using closed_empty [OF assms(1)] by auto
  let ?r1 = "r\<lparr>lr_occupants := AList.delete p (lr_occupants r)\<rparr>"
  have occ: "room_Occupant q ?r1 = (if q = p then None else room_Occupant q r)" for q
    by (simp add: room_Occupant_def delete_conv')
  have vis: "visible ?r1 = visible r - {p}" by (auto simp: visible_def occ)
  have novis: "ro_Spectator c \<Longrightarrow> p \<notin> visible r" using c by (auto simp: visible_def)
  define w' where "w' = (case lr_world r of None \<Rightarrow> None | Some w \<Rightarrow>
    if ro_Spectator c then Some w else Some (RemoveUnit p w))"
  define i' where "i' = (if AList.delete p (lr_occupants r) = [] then Some now else lr_idleSince r)"
  have r': "r' = ?r1\<lparr>lr_world := w', lr_idleSince := i'\<rparr>"
    using assms(2) c by (auto simp: room_Leave_def Let_def w'_def i'_def split: if_splits option.splits)
  have world: "world_inv w \<and> visible ?r1 \<subseteq> set (unit_keys w)" if w: "w' = Some w" for w
  proof -
    obtain w0 where w0: "lr_world r = Some w0" using w by (auto simp: w'_def split: option.splits)
    note k = room_okD(6,7) [OF assms(1) w0]
    show ?thesis using w w0 k vis novis RemoveUnit_inv [of w0 p]
      by (auto simp add: w'_def unit_keys_RemoveUnit simp del: set_unit_keys split: if_splits)
  qed
  have same: "visible r' = visible ?r1" "\<And>q. room_Occupant q r' = room_Occupant q ?r1" "lr_occupants r' = lr_occupants ?r1"
    by (simp_all add: r' visible_def room_Occupant_def)
  have "lr_occupants r \<noteq> []" using p by auto
  then have "room_ok r'"
    unfolding room_ok_def same using room_okD(1-3) [OF assms(1)] opened world
    by (auto simp: r' i'_def occ distinct_delete split: if_splits)
  then show ?thesis using opened p by (simp add: r' keys_delete)
qed

subsection \<open>Every operation of the registry keeps the invariant\<close>

lemma DrainDoorbell_ok:
  "room_ok r \<Longrightarrow> room_ok (fst (DrainDoorbellWithoutApprover b r)) \<and> same_room r (fst (DrainDoorbellWithoutApprover b r))"
  by (rule quiet_ok) (auto simp: quiet_def DrainDoorbellWithoutApprover_def dest: room_okD(5) split: option.splits)

lemma empty_registry_inv: "registry_inv NewRegistry"
  by (simp add: registry_inv_def NewRegistry_def keys_at_def)

lemma same_roomD: "same_room r r' \<Longrightarrow> rm_ID (lr_snapshot r') = rm_ID (lr_snapshot r)"
  "same_room r r' \<Longrightarrow> lr_closed r' = lr_closed r" "same_room r r' \<Longrightarrow> occupant_keys r' = occupant_keys r"
  by (simp_all add: same_room_def)

lemma FindByPlayer_room:
  assumes "registry_inv g" "registry_FindByPlayer p g = Some n" "rg_heap g n = Some r"
  shows "\<exists>rid. rg_byPlayer g p = Some rid \<and> (rid, n) \<in> set (rg_rooms g) \<and> p \<in> occupant_keys r"
proof -
  obtain rid where rid: "rg_byPlayer g p = Some rid" "(rid, n) \<in> set (rg_rooms g)"
    using assms(2) by (auto simp: registry_FindByPlayer_def dest: map_of_SomeD split: option.splits)
  then obtain m where m: "(rid, m) \<in> set (rg_rooms g)" "p \<in> keys_at g m"
    using registry_invD(7) [OF assms(1)] by blast
  then have "m = n" using registered_unique(1) [OF assms(1)] rid(2) by blast
  with m rid assms(3) show ?thesis by (auto simp: keys_at_def)
qed

lemma indexed_room:
  assumes "registry_inv g" "rg_byPlayer g p = Some rid"
  shows "\<exists>n r. registry_FindByPlayer p g = Some n \<and> rg_heap g n = Some r \<and> p \<in> occupant_keys r"
proof -
  obtain n where n: "(rid, n) \<in> set (rg_rooms g)" "p \<in> keys_at g n"
    using registry_invD(7) [OF assms(1)] assms(2) by blast
  then have "registry_FindByPlayer p g = Some n"
    using assms(2) registry_invD(1) [OF assms(1)] by (simp add: registry_FindByPlayer_def)
  with n(2) show ?thesis by (auto simp: keys_at_def split: option.splits)
qed

lemma registry_Leave_inv:
  assumes "registry_inv g"
  shows "registry_inv (fst (registry_Leave env p g)) \<and> rg_byPlayer (fst (registry_Leave env p g)) p = None \<and>
    rg_rooms (fst (registry_Leave env p g)) = rg_rooms g"
proof (cases "registry_FindByPlayer p g")
  case None
  then have "rg_byPlayer g p = None" using indexed_room [OF assms, of p] by (cases "rg_byPlayer g p") force+
  with None show ?thesis by (simp add: registry_Leave_def assms)
next
  case (Some n)
  then obtain rid where "rg_byPlayer g p = Some rid" by (auto simp: registry_FindByPlayer_def split: option.splits)
  from indexed_room [OF assms this] Some obtain r where r: "rg_heap g n = Some r" "p \<in> occupant_keys r" by auto
  obtain rid where rid: "rg_byPlayer g p = Some rid" "(rid, n) \<in> set (rg_rooms g)"
    using FindByPlayer_room [OF assms Some r(1)] by blast
  obtain r1 ox where leave: "room_Leave (re_now env) p r = (r1, Some ox)"
    using r(2) unfolding keys_occupant by (auto simp: room_Leave_def Let_def split: option.splits)
  define r2 where "r2 = fst (DrainDoorbellWithoutApprover (approver_present env r1) r1)"
  have eq: "fst (registry_Leave env p g) = (put_room n r2 g)\<lparr>rg_byPlayer := (rg_byPlayer g)(p := None)\<rparr>"
    by (simp add: registry_Leave_def Some r(1) leave r2_def case_prod_beta)
  note l = room_Leave_ok [OF registry_invD(4) [OF assms r(1)] leave]
  have d: "room_ok r2" "same_room r1 r2" unfolding r2_def using DrainDoorbell_ok l by blast+
  show ?thesis unfolding eq using part_inv [OF assms rid(2) r(1) d(1), of p] l same_roomD [OF d(2)] r(2)
    by (simp add: put_room_def)
qed

lemma leave_other_inv:
  assumes "registry_inv g" "p > 0"
  shows "registry_inv (leave_other env rid p g) \<and> rg_rooms (leave_other env rid p g) = rg_rooms g \<and>
    (rg_byPlayer (leave_other env rid p g) p = None \<or> rg_byPlayer (leave_other env rid p g) p = Some rid)"
  using registry_Leave_inv [OF assms(1), of env p] assms
  by (auto simp: leave_other_def indexedRoom_def removeIndexedPlayer_def split: option.splits)

lemma join_room_inv:
  assumes "registry_inv g"
    "\<And>r r' ox. room_ok r \<Longrightarrow> enter r = (r', Inr ox) \<Longrightarrow>
       room_ok r' \<and> rm_ID (lr_snapshot r') = rm_ID (lr_snapshot r) \<and> lr_closed r' = lr_closed r \<and>
       occupant_keys r' = insert (ro_PlayerID c) (occupant_keys r)"
    "\<And>r r' e. enter r = (r', Inl e) \<Longrightarrow> r' = r"
  shows "registry_inv (fst (join_room enter env rid c g)) \<and> rg_rooms (fst (join_room enter env rid c g)) = rg_rooms g"
proof (cases "occupant_Valid c \<and> registry_Find rid g \<noteq> None")
  case True
  then obtain n where n: "(rid, n) \<in> set (rg_rooms g)" "registry_Find rid g = Some n"
    using registry_Find_in [OF assms(1)] by auto
  have p: "ro_PlayerID c > 0" using True by (simp add: occupant_Valid_def)
  define g1 where "g1 = leave_other env rid (ro_PlayerID c) g"
  note g1 = leave_other_inv [OF assms(1) p, of env rid, folded g1_def]
  then have n1: "(rid, n) \<in> set (rg_rooms g1)" using n(1) by simp
  then obtain r where r: "rg_heap g1 n = Some r" using registry_invD(3) g1 by blast
  have ok: "room_ok r" using registry_invD(4) g1 r by blast
  obtain r' res where e: "enter r = (r', res)" by fastforce
  show ?thesis
  proof (cases res)
    case (Inl err)
    then have "r' = r" using assms(3) e by blast
    then have "put_room n r' g1 = g1" using r by (simp add: put_room_def fun_upd_idem)
    then show ?thesis using True n(2) r e Inl g1 by (simp add: join_room_def Let_def g1_def)
  next
    case (Inr ox)
    note j = assms(2) [OF ok e [unfolded Inr]]
    have "registry_inv ((put_room n r' g1)\<lparr>rg_byPlayer := (rg_byPlayer g1)(ro_PlayerID c \<mapsto> rid)\<rparr>)"
      using join_inv [of g1 rid n r r' "ro_PlayerID c"] g1 n1 r j by blast
    then show ?thesis using True n(2) r e Inr g1 by (simp add: join_room_def Let_def g1_def put_room_def)
  qed
qed (auto simp: join_room_def assms(1))

lemma JoinWithCapacity_inv:
  assumes "registry_inv g"
  shows "registry_inv (fst (JoinWithCapacity env rid c b g)) \<and> rg_rooms (fst (JoinWithCapacity env rid c b g)) = rg_rooms g"
  unfolding JoinWithCapacity_def
  by (rule join_room_inv [OF assms]) (use room_Join_ok in blast, use room_Join_fails in blast)

lemma JoinSpectator_inv:
  assumes "registry_inv g"
  shows "registry_inv (fst (JoinSpectator env rid c g)) \<and> rg_rooms (fst (JoinSpectator env rid c g)) = rg_rooms g"
  unfolding JoinSpectator_def room_JoinSpectator_def
proof (rule join_room_inv [OF assms], goal_cases)
  case (1 r r' ox)
  from room_Join_ok [OF this] show ?case by simp
qed (use room_Join_fails in blast)

lemma close_room_inv:
  assumes "registry_inv g"
  shows "registry_inv (fst (close_room env rid g))"
proof (cases "registry_Find rid g")
  case (Some n)
  then have n: "(rid, n) \<in> set (rg_rooms g)" using registry_Find_in [OF assms] by simp
  note D = registry_invD [OF assms] and uniq = registered_unique [OF assms]
  obtain r where r: "rg_heap g n = Some r" "rm_ID (lr_snapshot r) = rid" using D(3) [OF n] by blast
  define r' where "r' = fst (CloseWithDoorbell (re_now env) r)"
  have r'_ok: "room_ok r' \<and> lr_closed r' \<and> lr_occupants r' = []"
    using world_step_inv [of _ undefined WClearUnits] room_okD(6) [OF D(4) [OF r(1)]]
    by (auto simp: r'_def CloseWithDoorbell_def Let_def room_ok_def room_Occupant_def visible_def)
  let ?b = "\<lambda>p. if rg_byPlayer g p = Some rid then None else rg_byPlayer g p"
  let ?g = "(put_room n r' g)\<lparr>rg_rooms := AList.delete rid (rg_rooms g), rg_byPlayer := ?b\<rparr>"
  have eq: "fst (close_room env rid g) = ?g"
    by (simp add: close_room_def Some r(1) r'_def case_prod_beta)
  have heap: "rg_heap (put_room n r' g) m = (if m = n then Some r' else rg_heap g m)" for m by (simp add: put_room_def)
  have keys: "keys_at ?g m = (if m = n then {} else keys_at g m)" for m
    using r'_ok by (simp add: keys_at_def put_room_def)
  have rooms: "(rid', m) \<in> set (AList.delete rid (rg_rooms g)) \<longleftrightarrow> rid' \<noteq> rid \<and> (rid', m) \<in> set (rg_rooms g)" for rid' m
    by (auto simp: AList.delete_eq)
  have other: "m \<noteq> n" if "(rid', m) \<in> set (rg_rooms g)" "rid' \<noteq> rid" for rid' m using uniq(2) n that by blast
  have same: "rg_rooms ?g = AList.delete rid (rg_rooms g)" "rg_next ?g = rg_next g" "rg_byPlayer ?g = ?b"
    by (simp_all add: put_room_def)
  have "rg_byPlayer ?g p = Some rid' \<longleftrightarrow> (\<exists>m. (rid', m) \<in> set (rg_rooms ?g) \<and> p \<in> keys_at ?g m)" for p rid'
    unfolding same rooms keys using D(7) [of p rid'] other by auto
  moreover have "\<exists>x. rg_heap ?g m = Some x \<and> rm_ID (lr_snapshot x) = rid' \<and> \<not> lr_closed x"
    if "(rid', m) \<in> set (rg_rooms ?g)" for rid' m
    using that D(3) [of rid' m] other [of rid' m] unfolding same rooms by (auto simp: heap)
  moreover have "room_ok x \<and> m < rg_next ?g \<and> (m \<notin> snd ` set (rg_rooms ?g) \<longrightarrow> lr_closed x)"
    if "rg_heap ?g m = Some x" for m x
  proof (cases "m = n")
    case True
    then show ?thesis using that r'_ok D(5) [OF r(1)] unfolding same by (auto simp: heap)
  next
    case False
    then have x: "rg_heap g m = Some x" using that by (simp add: heap)
    have "m \<in> snd ` set (AList.delete rid (rg_rooms g))" if reg: "m \<in> snd ` set (rg_rooms g)"
    proof -
      obtain rid' where "(rid', m) \<in> set (rg_rooms g)" using reg by auto
      moreover from this have "rid' \<noteq> rid" using False uniq(1) n by blast
      ultimately show ?thesis using rooms by (metis image_eqI snd_conv)
    qed
    then show ?thesis using D(4,5,6) [OF x] unfolding same by blast
  qed
  moreover have "distinct (map fst (rg_rooms ?g))" "distinct (map snd (rg_rooms ?g))"
    using D(1,2) unfolding same by (auto simp: AList.delete_eq distinct_map_filter)
  ultimately show ?thesis unfolding eq registry_inv_def by blast
qed (simp add: close_room_def assms)

lemma close_rooms_inv: "registry_inv g \<Longrightarrow> registry_inv (fst (close_rooms env rids g))"
proof (induction rids arbitrary: g)
  case (Cons rid rids)
  have "registry_inv (fst (close_room env rid g))" by (rule close_room_inv [OF Cons.prems])
  then show ?case using Cons.IH
    by (cases "close_room env rid g"; cases "fst (snd (close_room env rid g))") (auto simp: case_prod_beta)
qed simp

lemma Activate_inv:
  assumes "registry_inv g" "Activate now s g = (g', res)"
  shows "registry_inv g' \<and> (\<forall>n. res = Inr n \<longrightarrow> (rm_ID s, n) \<in> set (rg_rooms g'))"
proof (cases "NewRoom now s")
  case (Inr r)
  show ?thesis
  proof (cases "map_of (rg_rooms g) (rm_ID s)")
    case None
    let ?n = "rg_next g"
    have g': "g' = g\<lparr>rg_heap := (rg_heap g)(?n \<mapsto> r), rg_rooms := rg_rooms g @ [(rm_ID s, ?n)], rg_next := Suc ?n\<rparr>"
      "res = Inr ?n" using assms(2) Inr None by (auto simp: Activate_def)
    have r: "room_ok r" "rm_ID (lr_snapshot r) = rm_ID s" "\<not> lr_closed r" "lr_occupants r = []"
      using Inr by (auto simp: NewRoom_def room_ok_def room_Occupant_def split: if_splits)
    note D = registry_invD [OF assms(1)]
    have fresh: "rg_heap g ?n = None" using D(5) [of ?n] by (cases "rg_heap g ?n") auto
    have fresh': "(rid, ?n) \<notin> set (rg_rooms g)" for rid using D(3) [of rid ?n] fresh by auto
    have same: "rg_rooms g' = rg_rooms g @ [(rm_ID s, ?n)]" "rg_byPlayer g' = rg_byPlayer g" "rg_next g' = Suc ?n"
      "\<And>m. rg_heap g' m = (if m = ?n then Some r else rg_heap g m)" by (simp_all add: g'(1))
    have keys: "keys_at g' m = keys_at g m" for m using fresh r(4) by (simp add: keys_at_def g'(1))
    have none: "keys_at g ?n = {}" using fresh by (simp add: keys_at_def)
    have "rm_ID s \<notin> fst ` set (rg_rooms g)" using None by (simp add: map_of_eq_None_iff)
    then have "distinct (map fst (rg_rooms g'))" "distinct (map snd (rg_rooms g'))"
      using D(1,2) fresh' unfolding same by auto
    moreover have "\<exists>x. rg_heap g' m = Some x \<and> rm_ID (lr_snapshot x) = rid \<and> \<not> lr_closed x"
      if "(rid, m) \<in> set (rg_rooms g')" for rid m
      using that D(3) [of rid m] fresh' [of rid] r(2,3) unfolding same by auto
    moreover have "room_ok x \<and> m < rg_next g' \<and> (m \<notin> snd ` set (rg_rooms g') \<longrightarrow> lr_closed x)"
      if "rg_heap g' m = Some x" for m x
      using that D(4,5,6) [of m x] r(1) unfolding same by (auto split: if_splits)
    moreover have "rg_byPlayer g' p = Some rid \<longleftrightarrow> (\<exists>m. (rid, m) \<in> set (rg_rooms g') \<and> p \<in> keys_at g' m)" for p rid
      using D(7) [of p rid] none unfolding same keys by auto
    ultimately show ?thesis unfolding registry_inv_def using g'(2) same(1) by auto
  qed (use assms Inr in \<open>auto simp: Activate_def dest: map_of_SomeD\<close>)
qed (use assms in \<open>auto simp: Activate_def\<close>)

lemma load_room_ok: "room_ok r \<Longrightarrow> room_ok (fst (load_room en r)) \<and> same_room r (fst (load_room en r))"
proof -
  assume r: "room_ok r"
  have rights: "quiet r (r\<lparr>lr_rights := a\<rparr>)" and mutes: "quiet r (r\<lparr>lr_rights := a, lr_muted := m\<rparr>)" for a m
    using room_okD(5) [OF r] by (simp_all add: quiet_def)
  note ok = quiet_ok [OF r rights] quiet_ok [OF r mutes]
  have "room_ok (fst (LoadWorld c x)) \<and> same_room r (fst (LoadWorld c x))" if "room_ok x" "same_room r x" for c x
    using LoadWorld_ok [OF that(1), of c] that(2) by (auto simp: same_room_def)
  then show ?thesis using r ok
    by (auto simp: load_room_def ReplaceMutes_def same_room_def Let_def split: option.splits)
qed

lemma admit_inv: "registry_inv g \<Longrightarrow> registry_inv (fst (admit env en g))"
  using JoinWithCapacity_inv [of g env] JoinWithCapacity_inv JoinSpectator_inv
  by (auto simp: admit_def registry_Join_def Let_def split: prod.splits sum.splits option.splits) (metis fst_conv)+

lemma enter_join_inv:
  assumes "registry_inv g"
  shows "registry_inv (fst (enter_join env en g))"
proof -
  obtain g1 failed where l: "leave_previous env en g = (g1, failed)" by fastforce
  have g1: "registry_inv g1"
    using l assms registry_Leave_inv [OF assms, of env "ro_PlayerID (en_occupant en)"]
    by (auto simp: leave_previous_def split: option.splits if_splits prod.splits)
  obtain g2 res where a: "Activate (re_now env) (en_room en) g1 = (g2, res)" by fastforce
  note g2 = Activate_inv [OF g1 a]
  show ?thesis
  proof (cases "failed \<or> (\<exists>e. res = Inl e)")
    case False
    then obtain n where res: "res = Inr n" by (cases res) auto
    with g2 registry_invD(3) obtain r where r: "rg_heap g2 n = Some r" by blast
    obtain r' err where lo: "load_room en r = (r', err)" by fastforce
    have "registry_inv (put_room n r' g2)"
      using put_room_inv [of g2 n r r'] load_room_ok [OF registry_invD(4) [OF _ r], of en] g2 r lo by simp
    then show ?thesis using False admit_inv [of "put_room n r' g2" env en]
      by (auto simp: enter_join_def l a res r lo split: option.splits prod.splits)
  qed (use g1 g2 in \<open>auto simp: enter_join_def l a split: bool.splits sum.splits\<close>)
qed

lemma registry_step_inv:
  assumes "registry_inv g" shows "registry_inv (registry_step op g)"
proof (cases op)
  case (GRoom n rop)
  then show ?thesis
    using assms put_room_inv [OF assms] room_step_ok [OF registry_invD(4) [OF assms]] by (auto split: option.splits)
qed (use assms enter_join_inv registry_Leave_inv close_room_inv close_rooms_inv in \<open>auto simp: UnloadIdle_def\<close>)

lemma registry_run_inv: "registry_inv g \<Longrightarrow> registry_inv (fold registry_step ops g)"
  by (induction ops arbitrary: g) (simp_all add: registry_step_inv)

lemmas registry_reachable_inv = registry_run_inv [OF empty_registry_inv]

section \<open>Properties\<close>

text \<open>C9: A player is in one room. After any sequence of entries, departures, closings and idle sweeps, with
  any operations on rooms that are or were active in between, the index of players names a
  room exactly when that room lists the player, so no player is listed twice; a visible occupant has a unit in
  the world of the room once it is loaded; and a room that is closed or idle lists nobody.\<close>

theorem player_in_one_room:
  fixes ops
  defines "g \<equiv> fold registry_step ops NewRegistry"
  shows "(\<forall>p n r. rg_heap g n = Some r \<longrightarrow> (registry_FindByPlayer p g = Some n \<longleftrightarrow> room_Occupant p r \<noteq> None)) \<and>
    (\<forall>rid n. registry_Find rid g = Some n \<longrightarrow> (\<exists>r. rg_heap g n = Some r \<and> rm_ID (lr_snapshot r) = rid \<and> \<not> lr_closed r)) \<and>
    (\<forall>n r p c w. rg_heap g n = Some r \<longrightarrow> lr_world r = Some w \<longrightarrow> room_Occupant p r = Some c \<longrightarrow>
       \<not> ro_Spectator c \<longrightarrow> unit_of w p \<noteq> None) \<and>
    (\<forall>n r. rg_heap g n = Some r \<longrightarrow> lr_closed r \<or> lr_idleSince r \<noteq> None \<longrightarrow> lr_occupants r = [])"
proof -
  have inv: "registry_inv g" unfolding g_def by (rule registry_reachable_inv)
  note D = registry_invD [OF inv]
  have "registry_FindByPlayer p g = Some n \<longleftrightarrow> room_Occupant p r \<noteq> None" if r: "rg_heap g n = Some r" for p n r
  proof
    assume "registry_FindByPlayer p g = Some n"
    then show "room_Occupant p r \<noteq> None" using FindByPlayer_room [OF inv _ r] keys_occupant by blast
  next
    assume "room_Occupant p r \<noteq> None"
    then have "p \<in> keys_at g n" using r keys_occupant by (simp add: keys_at_def)
    then obtain rid where "(rid, n) \<in> set (rg_rooms g)" "rg_byPlayer g p = Some rid"
      using occupied_registered [OF inv] by blast
    then show "registry_FindByPlayer p g = Some n" using D(1) by (simp add: registry_FindByPlayer_def)
  qed
  moreover have "unit_of w p \<noteq> None"
    if "rg_heap g n = Some r" "lr_world r = Some w" "room_Occupant p r = Some c" "\<not> ro_Spectator c" for n r p c w
    using room_okD(7) [OF D(4) [OF that(1)] that(2)] that(3,4) set_unit_keys by (auto simp: visible_def)
  moreover have "lr_occupants r = []" if "rg_heap g n = Some r" "lr_closed r \<or> lr_idleSince r \<noteq> None" for n r
    using room_okD(3,4) [OF D(4) [OF that(1)]] that(2) by (cases "lr_occupants r = []") auto
  moreover have "\<exists>r. rg_heap g n = Some r \<and> rm_ID (lr_snapshot r) = rid \<and> \<not> lr_closed r"
    if "registry_Find rid g = Some n" for rid n
    using D(3) registry_Find_in [OF inv] that by blast
  ultimately show ?thesis by blast
qed

subsection \<open>Closed rooms\<close>

definition keeps_closed :: "room_registry \<Rightarrow> room_registry \<Rightarrow> bool" where
  "keeps_closed g g' \<longleftrightarrow> (\<forall>n r. rg_heap g n = Some r \<longrightarrow> lr_closed r \<longrightarrow> (\<exists>r'. rg_heap g' n = Some r' \<and> lr_closed r'))"

lemma keeps_closed_refl: "keeps_closed g g"
  by (simp add: keeps_closed_def)

lemma keeps_closed_trans: "keeps_closed g h \<Longrightarrow> keeps_closed h k \<Longrightarrow> keeps_closed g k"
  unfolding keeps_closed_def by meson

lemma keeps_closed_put:
  "rg_heap g n = Some r \<Longrightarrow> (lr_closed r \<Longrightarrow> lr_closed r') \<Longrightarrow> rg_heap h = rg_heap (put_room n r' g) \<Longrightarrow> keeps_closed g h"
  by (auto simp: keeps_closed_def put_room_def)

lemma room_ops_closed:
  "lr_closed (fst (room_Leave now p r)) = lr_closed r"
  "lr_closed (fst (room_JoinWithCapacity now c b r)) = lr_closed r"
  "lr_closed (fst (DrainDoorbellWithoutApprover b r)) = lr_closed r"
  "lr_closed (fst (load_room en r)) = lr_closed r"
  by (simp_all add: room_Leave_def room_JoinWithCapacity_def DrainDoorbellWithoutApprover_def load_room_def
      LoadWorld_def ReplaceMutes_def Let_def split: option.splits sum.splits)

lemma Leave_keeps_closed: "keeps_closed g (fst (registry_Leave env p g))"
proof (cases "registry_FindByPlayer p g")
  case (Some n)
  show ?thesis
  proof (cases "rg_heap g n")
    case r: (Some r)
    obtain r1 ox where l: "room_Leave (re_now env) p r = (r1, ox)" by fastforce
    show ?thesis
    proof (cases ox)
      case o: (Some occ)
      have "lr_closed (fst (DrainDoorbellWithoutApprover b r1)) = lr_closed r" for b
        using room_ops_closed(1) [of "re_now env" p r] by (simp add: l room_ops_closed(3))
      then show ?thesis
        by (intro keeps_closed_put [OF r, of "fst (DrainDoorbellWithoutApprover (approver_present env r1) r1)"])
           (simp_all add: registry_Leave_def Some r l o put_room_def case_prod_beta)
    qed (simp add: registry_Leave_def Some r l keeps_closed_refl)
  qed (simp add: registry_Leave_def Some keeps_closed_refl)
qed (simp add: registry_Leave_def keeps_closed_refl)

lemma join_keeps_closed:
  assumes "\<And>r. lr_closed (fst (enter r)) = lr_closed r"
  shows "keeps_closed g (fst (join_room enter env rid c g))"
proof (cases "occupant_Valid c \<and> registry_Find rid g \<noteq> None")
  case True
  then obtain n where n: "registry_Find rid g = Some n" by auto
  define g1 where "g1 = leave_other env rid (ro_PlayerID c) g"
  have g1: "keeps_closed g g1"
    by (auto simp: g1_def leave_other_def removeIndexedPlayer_def keeps_closed_refl Leave_keeps_closed split: option.splits)
  show ?thesis
  proof (cases "rg_heap g1 n")
    case (Some r)
    obtain r' res where e: "enter r = (r', res)" by fastforce
    have "keeps_closed g1 (fst (join_room enter env rid c g))"
      using assms [of r] True
      by (intro keeps_closed_put [OF Some, of r'])
         (auto simp: e join_room_def n g1_def [symmetric] Some Let_def put_room_def split: sum.splits)
    with g1 show ?thesis by (rule keeps_closed_trans)
  qed (use True n g1 in \<open>simp add: join_room_def g1_def Let_def\<close>)
qed (auto simp: join_room_def keeps_closed_refl)

lemma joins_keep_closed: "keeps_closed g (fst (JoinWithCapacity env rid c b g))" "keeps_closed g (fst (JoinSpectator env rid c g))"
  unfolding JoinWithCapacity_def JoinSpectator_def room_JoinSpectator_def
  by (rule join_keeps_closed, simp add: room_ops_closed)+

lemma admit_keeps_closed: "keeps_closed g (fst (admit env en g))"
proof -
  have join: "keeps_closed g g1" if "JoinWithCapacity env rid c b g = (g1, res)" for rid c b g1 res g
    using joins_keep_closed(1) [of g env rid c b] that by simp
  have spec: "keeps_closed g g1" if "JoinSpectator env rid c g = (g1, res)" for rid c g1 res g
    using joins_keep_closed(2) [of g env rid c] that by simp
  show ?thesis
    by (auto simp: admit_def registry_Join_def Let_def split: prod.splits sum.splits option.splits
        dest!: join spec elim: keeps_closed_trans)
qed

lemma Activate_keeps_closed: "registry_inv g \<Longrightarrow> keeps_closed g (fst (Activate now s g))"
  using registry_invD(5) [of g "rg_next g"]
  by (auto simp: Activate_def keeps_closed_def split: sum.splits option.splits)

lemma enter_keeps_closed:
  assumes "registry_inv g" shows "keeps_closed g (fst (enter_join env en g))"
proof -
  obtain g1 failed where l: "leave_previous env en g = (g1, failed)" by fastforce
  have g1: "registry_inv g1" "keeps_closed g g1"
    using l assms registry_Leave_inv [OF assms, of env "ro_PlayerID (en_occupant en)"]
      Leave_keeps_closed [of g env "ro_PlayerID (en_occupant en)"] keeps_closed_refl [of g]
    by (auto simp: leave_previous_def split: option.splits if_splits prod.splits)
  obtain g2 res where a: "Activate (re_now env) (en_room en) g1 = (g2, res)" by fastforce
  have g2: "keeps_closed g g2"
    using Activate_keeps_closed [OF g1(1), of "re_now env" "en_room en"] a g1(2) keeps_closed_trans by simp
  show ?thesis
  proof (cases "failed \<or> (\<exists>e. res = Inl e)")
    case False
    then obtain n where res: "res = Inr n" by (cases res) auto
    show ?thesis
    proof (cases "rg_heap g2 n")
      case (Some r)
      obtain r' err where lo: "load_room en r = (r', err)" by fastforce
      have "keeps_closed g2 (put_room n r' g2)"
        using room_ops_closed(4) [of en r] by (intro keeps_closed_put [OF Some, of r']) (simp_all add: lo)
      then have k: "keeps_closed g (put_room n r' g2)" by (rule keeps_closed_trans [OF g2])
      show ?thesis using False k keeps_closed_trans [OF k admit_keeps_closed [of "put_room n r' g2" env en]]
        by (auto simp: enter_join_def l a res Some lo split: option.splits prod.splits)
    qed (use False g2 in \<open>simp add: enter_join_def l a res\<close>)
  qed (use g1 g2 in \<open>auto simp: enter_join_def l a split: bool.splits sum.splits\<close>)
qed

lemma close_keeps_closed: "keeps_closed g (fst (close_room env rid g))"
proof (cases "registry_Find rid g")
  case (Some n)
  show ?thesis
  proof (cases "rg_heap g n")
    case r: (Some r)
    show ?thesis
      by (rule keeps_closed_put [OF r, of "fst (CloseWithDoorbell (re_now env) r)"])
         (simp_all add: close_room_def Some r CloseWithDoorbell_def Let_def put_room_def)
  qed (simp add: close_room_def Some keeps_closed_refl)
qed (simp add: close_room_def keeps_closed_refl)

lemma closes_keep_closed: "keeps_closed g (fst (close_rooms env rids g))"
proof (induction rids arbitrary: g)
  case (Cons rid rids)
  then show ?case
    using close_keeps_closed [of g env rid] keeps_closed_trans [OF close_keeps_closed [of g env rid] Cons.IH]
    by (cases "close_room env rid g"; cases "fst (snd (close_room env rid g))") (auto simp: case_prod_beta)
qed (simp add: keeps_closed_refl)

lemma step_keeps_closed: "registry_inv g \<Longrightarrow> keeps_closed g (registry_step op g)"
proof (cases op)
  case (GRoom n rop)
  assume inv: "registry_inv g"
  show ?thesis
  proof (cases "rg_heap g n")
    case (Some r)
    then show ?thesis
      using GRoom room_step_ok [OF registry_invD(4) [OF inv Some], of rop]
      by (intro keeps_closed_put [OF Some, of "room_step rop r"]) (simp_all add: same_room_def)
  qed (simp add: GRoom keeps_closed_refl)
qed (simp_all add: enter_keeps_closed Leave_keeps_closed close_keeps_closed closes_keep_closed UnloadIdle_def)

lemma run_keeps_closed: "registry_inv g \<Longrightarrow> keeps_closed g (fold registry_step ops g)"
proof (induction ops arbitrary: g)
  case (Cons op ops)
  then show ?case using step_keeps_closed [of g op] registry_step_inv [of g op] keeps_closed_trans by simp
qed (simp add: keeps_closed_refl)

text \<open>C10: Closing a room is final. Whatever happened before, closing an active room gives back exactly its pending
  doorbell requests, each as expired because the room closed; and whatever happens afterwards, also through
  pointers to the room that are still around, it stays closed, lists no occupant, keeps no request
  and is reached neither by its id nor by a player.\<close>

theorem closing_is_final:
  fixes before later env rid n
  defines "g \<equiv> fold registry_step before NewRegistry"
  assumes "registry_Find rid g = Some n"
  defines "h \<equiv> fold registry_step later (fst (close_room env rid g))"
  shows "(\<exists>r. rg_heap g n = Some r \<and> snd (snd (close_room env rid g)) =
       (case lr_doorbell r of None \<Rightarrow> [] | Some q \<Rightarrow> map (\<lambda>(p, e). (e, ExpiredRoomClosed)) q)) \<and>
    (\<exists>r. rg_heap h n = Some r \<and> lr_closed r \<and> lr_occupants r = [] \<and> lr_doorbell r = None) \<and>
    (\<forall>rid'. registry_Find rid' h \<noteq> Some n) \<and> (\<forall>p. registry_FindByPlayer p h \<noteq> Some n)"
proof -
  have inv: "registry_inv g" unfolding g_def by (rule registry_reachable_inv)
  then obtain r where r: "rg_heap g n = Some r"
    using registry_invD(3) [OF inv] registry_Find_in [OF inv] assms(2) by blast
  let ?g1 = "fst (close_room env rid g)"
  have inv1: "registry_inv ?g1" by (rule close_room_inv [OF inv])
  have "\<exists>r1. rg_heap ?g1 n = Some r1 \<and> lr_closed r1"
    by (simp add: close_room_def assms(2) r CloseWithDoorbell_def Let_def put_room_def)
  then obtain x where x: "rg_heap h n = Some x" "lr_closed x"
    using run_keeps_closed [OF inv1, of later] unfolding h_def keeps_closed_def by blast
  have invh: "registry_inv h" unfolding h_def by (rule registry_run_inv [OF inv1])
  have gone: "(rid', n) \<notin> set (rg_rooms h)" for rid' using registry_invD(3) [OF invh, of rid' n] x by auto
  have "registry_FindByPlayer p h \<noteq> Some n" for p using FindByPlayer_room [OF invh _ x(1)] gone by blast
  moreover have "registry_Find rid' h \<noteq> Some n" for rid' using registry_Find_in [OF invh] gone by blast
  moreover have "snd (snd (close_room env rid g)) =
      (case lr_doorbell r of None \<Rightarrow> [] | Some q \<Rightarrow> map (\<lambda>(p, e). (e, ExpiredRoomClosed)) q)"
    by (simp add: close_room_def assms(2) r CloseWithDoorbell_def queue_Drain_def Let_def split: option.splits)
  ultimately show ?thesis
    using r x room_okD(5) [OF registry_invD(4) [OF invh x(1)] x(2)] closed_empty [OF registry_invD(4) [OF invh x(1)] x(2)]
    by blast
qed

subsection \<open>Full rooms\<close>

abbreviation room_count :: "room \<Rightarrow> nat" where
  "room_count r \<equiv> ox_Count (occupancyLocked r)"

lemma Leave_frame:
  assumes "registry_inv g" "rg_heap g n = Some r" "room_Occupant p r = None"
  shows "rg_heap (fst (registry_Leave env p g)) n = Some r"
proof (cases "registry_FindByPlayer p g")
  case (Some m)
  have "m \<noteq> n" using FindByPlayer_room [OF assms(1) Some, of r] assms(2,3) keys_occupant by auto
  then show ?thesis using assms(2)
    by (simp add: registry_Leave_def Some put_room_def case_prod_beta split: option.splits prod.splits)
qed (simp add: registry_Leave_def assms(2))

lemma leave_other_frame:
  assumes "registry_inv g" "rg_heap g n = Some r" "room_Occupant p r = None"
  shows "rg_heap (leave_other env rid p g) n = Some r"
  using Leave_frame [OF assms] assms(2) by (simp add: leave_other_def removeIndexedPlayer_def split: option.splits)

lemma update_fresh: "map_of xs p = None \<Longrightarrow> AList.update p c xs = xs @ [(p, c)]"
  by (induction xs) (auto split: if_splits)

text \<open>A join of a player who is not in the room yet.\<close>

lemma join_full:
  assumes "registry_inv g" "registry_Find rid g = Some n" "rg_heap g n = Some r"
    "rm_MaxUsers (lr_snapshot r) \<le> int (room_count r)" "room_Occupant (ro_PlayerID c) r = None"
  shows "\<exists>e g1. JoinWithCapacity env rid c False g = (g1, Inl e) \<and> rg_heap g1 n = Some r \<and> registry_inv g1 \<and>
    registry_Find rid g1 = Some n"
proof (cases "occupant_Valid c")
  case True
  then have p: "ro_PlayerID c > 0" by (simp add: occupant_Valid_def)
  let ?g1 = "leave_other env rid (ro_PlayerID c) g"
  note g1 = leave_other_inv [OF assms(1) p, of env rid] and h = leave_other_frame [OF assms(1,3,5), of env rid]
  have "room_JoinWithCapacity (re_now env) c False r = (r, Inl (if lr_closed r then ErrRoomClosed else ErrRoomFull))"
    using assms(4,5) True by (simp add: room_JoinWithCapacity_def)
  moreover have "put_room n r ?g1 = ?g1" using h by (simp add: put_room_def fun_upd_idem)
  ultimately show ?thesis using True assms(2) g1 h
    by (simp add: JoinWithCapacity_def join_room_def Let_def registry_Find_def)
qed (use assms in \<open>simp add: JoinWithCapacity_def join_room_def\<close>)

lemma spectate:
  assumes "registry_inv g" "registry_Find rid g = Some n" "rg_heap g n = Some r" "room_Occupant (ro_PlayerID c) r = None"
  shows "\<exists>r' g1 res. JoinSpectator env rid c g = (g1, res) \<and> rg_heap g1 n = Some r' \<and> room_count r' = room_count r \<and>
    (\<forall>ox. res = Inr ox \<longrightarrow> (\<exists>c'. room_Occupant (ro_PlayerID c) r' = Some c' \<and> ro_Spectator c'))"
proof (cases "occupant_Valid c")
  case True
  then have p: "ro_PlayerID c > 0" by (simp add: occupant_Valid_def)
  let ?g1 = "leave_other env rid (ro_PlayerID c) g"
  let ?c = "WithJoinTime (re_now env) (c\<lparr>ro_Spectator := True\<rparr>)"
  note h = leave_other_frame [OF assms(1,3,4), of env rid]
  have new: "AList.update (ro_PlayerID c) ?c (lr_occupants r) = lr_occupants r @ [(ro_PlayerID c, ?c)]"
    using assms(4) by (simp add: update_fresh room_Occupant_def)
  have "map_of (lr_occupants r) (ro_PlayerID c) = None" using assms(4) by (simp add: room_Occupant_def)
  then have "\<exists>r' res. room_JoinSpectator (re_now env) c r = (r', res) \<and> room_count r' = room_count r \<and>
      (\<forall>ox. res = Inr ox \<longrightarrow> (\<exists>c'. room_Occupant (ro_PlayerID c) r' = Some c' \<and> ro_Spectator c'))"
    using True new
    by (auto simp: room_JoinSpectator_def room_JoinWithCapacity_def occupant_Valid_def Let_def occupancyLocked_def
        room_Occupant_def WithJoinTime_def map_add_def split: option.splits)
  then show ?thesis using True assms(2) h
    by (auto simp: JoinSpectator_def join_room_def Let_def put_room_def split: sum.splits prod.splits)
qed (use assms(3) in \<open>simp add: JoinSpectator_def join_room_def\<close>)

text \<open>C11: Capacity. When a room is full and the player is not in it and may not pass the limit, entering
  does not raise the number of visible occupants of the room; if it succeeds, it is the
  room with that id and the player is a spectator there.\<close>

theorem full_room_keeps_its_count:
  fixes ops env en n r
  defines "g \<equiv> fold registry_step ops NewRegistry"
  assumes "registry_Find (rm_ID (en_room en)) g = Some n" "rg_heap g n = Some r"
    "rm_MaxUsers (lr_snapshot r) \<le> int (room_count r)" "room_Occupant (ro_PlayerID (en_occupant en)) r = None"
    "en_entry en \<noteq> Some (Some True)"
  shows "\<exists>r'. rg_heap (fst (enter_join env en g)) n = Some r' \<and> room_count r' = room_count r \<and>
    (\<forall>m. snd (enter_join env en g) = Inr m \<longrightarrow> m = n \<and> en_spectators en \<and>
       (\<exists>c. room_Occupant (ro_PlayerID (en_occupant en)) r' = Some c \<and> ro_Spectator c))"
proof -
  let ?p = "ro_PlayerID (en_occupant en)" and ?rid = "rm_ID (en_room en)"
  have inv: "registry_inv g" unfolding g_def by (rule registry_reachable_inv)
  obtain g1 failed where l: "leave_previous env en g = (g1, failed)" by fastforce
  have g1: "registry_inv g1" "rg_rooms g1 = rg_rooms g" "rg_heap g1 n = Some r"
    using l inv registry_Leave_inv [OF inv, of env ?p] Leave_frame [OF inv assms(3,5), of env] assms(3)
    by (auto simp: leave_previous_def split: option.splits if_splits prod.splits)
  show ?thesis
  proof (cases "failed \<or> (\<exists>e. NewRoom (re_now env) (en_room en) = Inl e)")
    case True
    then show ?thesis using g1(3) by (auto simp: enter_join_def l Activate_def split: bool.splits)
  next
    case False
    then have a: "Activate (re_now env) (en_room en) g1 = (g1, Inr n)"
      using assms(2) g1(2) by (auto simp: Activate_def registry_Find_def split: sum.splits)
    obtain r1 err where lo: "load_room en r = (r1, err)" by fastforce
    define g2 where "g2 = put_room n r1 g1"
    note r1 = load_room_ok [OF registry_invD(4) [OF g1(1,3)], of en]
    have occ: "lr_occupants r1 = lr_occupants r" "rm_MaxUsers (lr_snapshot r1) = rm_MaxUsers (lr_snapshot r)"
      using lo by (auto simp: load_room_def LoadWorld_def ReplaceMutes_def Let_def split: option.splits sum.splits if_splits)
    then have same: "room_count r1 = room_count r" "room_Occupant ?p r1 = None"
      using assms(5) by (simp_all add: occupancyLocked_def room_Occupant_def)
    have g2: "registry_inv g2" "registry_Find ?rid g2 = Some n" "rg_heap g2 n = Some r1"
      using put_room_inv [OF g1(1,3)] r1 lo assms(2) g1(2) by (simp_all add: g2_def put_room_def registry_Find_def)
    obtain e g3 where j: "JoinWithCapacity env ?rid (en_occupant en) False g2 = (g3, Inl e)" "rg_heap g3 n = Some r1"
      "registry_inv g3" "registry_Find ?rid g3 = Some n"
      using join_full [OF g2, of "en_occupant en" env] assms(4) occ(2) same by auto
    obtain r' g4 res where s: "JoinSpectator env ?rid (en_occupant en) g3 = (g4, res)" "rg_heap g4 n = Some r'"
      "room_count r' = room_count r" "\<And>ox. res = Inr ox \<Longrightarrow> \<exists>c'. room_Occupant ?p r' = Some c' \<and> ro_Spectator c'"
      using spectate [OF j(3,4,2) same(2), of env] same(1) by auto
    obtain g5 err2 where ad: "admit env en g2 = (g5, err2)" by fastforce
    have cases: "g5 = g3 \<and> err2 \<noteq> None \<or> g5 = g4 \<and> en_spectators en \<and> (err2 = None \<longrightarrow> (\<exists>ox. res = Inr ox))"
      using ad assms(6) j(1) s(1)
      by (auto simp: admit_def registry_Join_def Let_def split: option.splits if_splits sum.splits)
    show ?thesis
    proof (cases err)
      case None
      have "enter_join env en g = (case err2 of Some e \<Rightarrow> (g5, Inl e) | None \<Rightarrow> (g5, Inr n))"
        using False by (simp add: enter_join_def l a g1(3) lo None g2_def [symmetric] ad)
      then show ?thesis using cases j(2) s same(1) by (cases err2) auto
    next
      case (Some x)
      have "enter_join env en g = (g2, Inl x)"
        using False by (simp add: enter_join_def l a g1(3) lo Some g2_def [symmetric])
      then show ?thesis using g2(3) same(1) by auto
    qed
  qed
qed

subsection \<open>Spectators\<close>

lemma filter_update_length:
  assumes "distinct (map fst xs)" "map_of xs p = Some s" "\<not> P s" "P c"
  shows "length (filter (\<lambda>(k, x). P x) (AList.update p c xs)) = Suc (length (filter (\<lambda>(k, x). P x) xs))"
  using assms by (induction xs) (auto simp: map_of_eq_None_iff image_iff split: if_splits)

text \<open>A spectator passes the limit by entering again. The capacity check of \<open>JoinWithCapacity\<close> is skipped for players
  that the room lists already: when a spectator of a room, however full, enters it again without the
  permission, the join succeeds and the room has one more visible occupant.\<close>

theorem spectator_passes_limit:
  assumes "room_ok r" "\<not> lr_closed r" "room_Occupant (ro_PlayerID c) r = Some s" "ro_Spectator s"
    "occupant_Valid c" "\<not> ro_Spectator c"
  shows "\<exists>r' ox. room_JoinWithCapacity now c False r = (r', Inr ox) \<and> room_count r' = Suc (room_count r) \<and>
    rm_MaxUsers (lr_snapshot r') = rm_MaxUsers (lr_snapshot r)"
proof -
  have "length (filter (\<lambda>(k, x). \<not> ro_Spectator x) (AList.update (ro_PlayerID c) (WithJoinTime now c) (lr_occupants r))) =
      Suc (length (filter (\<lambda>(k, x). \<not> ro_Spectator x) (lr_occupants r)))"
    using assms(3,4,6) by (intro filter_update_length [OF room_okD(1) [OF assms(1)], where P = "\<lambda>x. \<not> ro_Spectator x"])
      (simp_all add: room_Occupant_def WithJoinTime_def)
  then show ?thesis
    using assms(2,3,5,6) by (auto simp: room_JoinWithCapacity_def Let_def occupancyLocked_def split: option.splits)
qed

text \<open>A spectator leaves a ghost behind. Loading a world, as saving the floor plan of an active room does, gives every
  occupant a unit, also the spectators; leaving the room removes the unit of visible occupants only, so
  a spectator who leaves after that is no occupant any more and still stands in the room.\<close>

theorem spectator_leaves_ghost:
  assumes "room_ok r" "room_Occupant p r = Some s" "ro_Spectator s" "LoadWorld cfg r = (r1, None)"
    "room_Leave now p r1 = (r2, left)"
  shows "left \<noteq> None \<and> room_Occupant p r2 = None \<and> (\<exists>w. lr_world r2 = Some w \<and> unit_of w p \<noteq> None)"
proof -
  obtain w where w: "world_New cfg = Inr w" using assms(4) by (auto simp: LoadWorld_def split: sum.splits)
  let ?w = "fold AddUnit (map fst (lr_occupants r)) w"
  have r1: "lr_world r1 = Some ?w" "lr_occupants r1 = lr_occupants r" using assms(4) w by (auto simp: LoadWorld_def)
  have "p \<in> set (unit_keys ?w)"
    using load_units [OF world_New_inv [OF w], of "map fst (lr_occupants r)"] occupant_in_keys [OF assms(2)] by auto
  then have "unit_of ?w p \<noteq> None" by simp
  then show ?thesis using assms(2,3,5) r1
    by (auto simp: room_Leave_def room_Occupant_def Let_def delete_conv' split: if_splits)
qed

subsection \<open>A sample room\<close>

definition calm_env :: registry_env where
  "calm_env = \<lparr>re_publish = (\<lambda>_. False), re_approver = None, re_now = 100\<rparr>"

definition guest :: "ident \<Rightarrow> occupant" where
  "guest p = \<lparr>ro_PlayerID = p, ro_Username = ''guest'', ro_Motto = '''', ro_Figure = '''', ro_Gender = ''F'', ro_ActiveEffectID = 0,
     ro_AchievementScore = 0, ro_GroupID = -1, ro_GroupStatus = -1, ro_GroupName = '''', ro_ConnectionID = ''c'',
     ro_ConnectionKind = ''websocket'', ro_JoinedAt = 0, ro_Spectator = False\<rparr>"

definition small_room :: room_snapshot where
  "small_room = \<lparr>rm_ID = 5, rm_OwnerPlayerID = 1, rm_CategoryID = None, rm_MaxUsers = 1, rm_TradeMode = 0, rm_RollerSpeed = 4,
     rm_ChatDistance = 14, rm_ChatProtection = 1, rm_AllowPets = True, rm_AllowPetsEat = False\<rparr>"

definition visit :: "ident \<Rightarrow> entrance" where
  "visit p = \<lparr>en_previous = None, en_room = small_room, en_rights = Some [], en_mutes = Some Map.empty,
     en_config = Some lobby_config, en_occupant = guest p, en_entry = Some (Some False), en_spectators = True\<rparr>"

text \<open>The owner fills the room, a second player is a spectator, a third waits at the door.\<close>

definition full_house :: "registry_op list" where
  "full_house = [GEnter calm_env (visit 1), GEnter calm_env (visit 2),
     GRoom 0 (ORequest \<lparr>de_PlayerID = 3, de_Username = ''bell'', de_ConnectionID = ''d'', de_ConnectionKind = ''websocket'',
       de_RequestedAt = 90\<rparr> True)]"

definition house_room :: room where
  "house_room = (case rg_heap (fold registry_step full_house NewRegistry) 0 of Some r \<Rightarrow> r | None \<Rightarrow> undefined)"

lemma house: "rg_heap (fold registry_step full_house NewRegistry) 0 = Some house_room"
  "registry_Find 5 (fold registry_step full_house NewRegistry) = Some 0"
proof -
  have "rg_heap (fold registry_step full_house NewRegistry) 0 \<noteq> None" by code_simp
  then show "rg_heap (fold registry_step full_house NewRegistry) 0 = Some house_room" by (auto simp: house_room_def)
  show "registry_Find 5 (fold registry_step full_house NewRegistry) = Some 0" by code_simp
qed

lemma house_facts: "room_count house_room = 1" "rm_MaxUsers (lr_snapshot house_room) = 1"
  "map_option ro_Spectator (room_Occupant 2 house_room) = Some True" "room_Occupant 3 house_room = None"
  "\<not> lr_closed house_room" "DoorbellLen house_room = 1"
  by code_simp+

theorem player_in_one_room_witness:
  "registry_FindByPlayer 2 (fold registry_step full_house NewRegistry) = Some 0 \<and>
   registry_FindByPlayer 3 (fold registry_step full_house NewRegistry) = None"
proof -
  have "room_Occupant 2 house_room \<noteq> None" using house_facts(3) by auto
  then have "registry_FindByPlayer 2 (fold registry_step full_house NewRegistry) = Some 0"
    using player_in_one_room [where ops = full_house] house(1) by blast
  moreover have "registry_FindByPlayer 3 (fold registry_step full_house NewRegistry) = None" by code_simp
  ultimately show ?thesis by blast
qed

theorem closing_is_final_witness:
  "\<exists>e. snd (snd (close_room calm_env 5 (fold registry_step full_house NewRegistry))) = [(e, ExpiredRoomClosed)] \<and>
     de_PlayerID e = 3 \<and>
     registry_FindByPlayer 1 (fold registry_step [GRoom 0 (OLoad lobby_config)]
       (fst (close_room calm_env 5 (fold registry_step full_house NewRegistry)))) \<noteq> Some 0"
proof -
  have "map_option (map (de_PlayerID \<circ> snd)) (lr_doorbell house_room) = Some [3]" by code_simp
  then obtain p e where "lr_doorbell house_room = Some [(p, e)]" "de_PlayerID e = 3" by auto
  then show ?thesis
    using closing_is_final [OF house(2), of calm_env "[GRoom 0 (OLoad lobby_config)]"] house(1) by auto
qed

theorem full_room_keeps_its_count_witness:
  "\<exists>r. rg_heap (fst (enter_join calm_env (visit 3) (fold registry_step full_house NewRegistry))) 0 = Some r \<and> room_count r = 1"
proof -
  have "registry_Find (rm_ID (en_room (visit 3))) (fold registry_step full_house NewRegistry) = Some 0"
    "room_Occupant (ro_PlayerID (en_occupant (visit 3))) house_room = None" "en_entry (visit 3) \<noteq> Some (Some True)"
    using house(2) house_facts(4) by (simp_all add: visit_def small_room_def guest_def)
  from full_room_keeps_its_count [OF this(1) house(1) _ this(2,3), of calm_env] house_facts(1,2) show ?thesis by auto
qed

lemma house_ok: "room_ok house_room"
  using registry_invD(4) [OF registry_reachable_inv house(1)] .

theorem spectator_passes_limit_witness:
  "\<exists>r. (\<exists>ox. room_JoinWithCapacity 200 (guest 2) False house_room = (r, Inr ox)) \<and> room_count r = 2 \<and>
     rm_MaxUsers (lr_snapshot r) = 1"
proof -
  obtain s where s: "room_Occupant 2 house_room = Some s" "ro_Spectator s" using house_facts(3) by auto
  then have "room_Occupant (ro_PlayerID (guest 2)) house_room = Some s" by (simp add: guest_def)
  from spectator_passes_limit [OF house_ok house_facts(5) this s(2), of 200] house_facts(1,2) show ?thesis
    by (auto simp: guest_def occupant_Valid_def)
qed

theorem spectator_leaves_ghost_witness:
  "\<exists>r1 r2 left w. LoadWorld lobby_config house_room = (r1, None) \<and> room_Leave 200 2 r1 = (r2, left) \<and>
     room_Occupant 2 r2 = None \<and> lr_world r2 = Some w \<and> unit_of w 2 \<noteq> None"
proof -
  obtain s where s: "room_Occupant 2 house_room = Some s" "ro_Spectator s" using house_facts(3) by auto
  obtain r1 where r1: "LoadWorld lobby_config house_room = (r1, None)" by (simp add: LoadWorld_def lobby_New)
  obtain r2 left where "room_Leave 200 2 r1 = (r2, left)" by fastforce
  with spectator_leaves_ghost [OF house_ok s r1 this] r1 show ?thesis by blast
qed

end
