(* ===== verification/Economy.thy ===== *)
theory Economy
  imports Pixels_Prelude "HOL-Library.AList"
begin

text \<open>
  The durable store that money and furniture move in: the furniture rows with the guarded updates of
  \<^verbatim>\<open>internal/realm/furniture\<close> (\<^verbatim>\<open>repository/item.go\<close>, \<^verbatim>\<open>service/trading.go\<close>), the balances and the ledger of
  \<^verbatim>\<open>internal/realm/inventory/currency\<close>, and the tables of the marketplace. A statement is a function on the
  store with the \<^verbatim>\<open>where\<close> clause and the assignments of its SQL text; soft-deleted rows are absent, since
  every statement here filters them. A transaction is a function from the store to an error or a
  result and the new store; an error means that the transaction is rolled back. Any statement may fail:
  \<open>fault n\<close> says that the \<open>n\<close>th one does.
\<close>

subsection \<open>The store and its transactions\<close>

datatype economy_error =
    StoreError | ErrInvalidPlayerID | ErrInvalidCurrencyType | ErrInsufficientBalance | ErrBalanceOverflow
  | ErrInvalidAmount | ErrInvalidActor | ErrInvalidItemID | ErrInvalidDefinitionID | ErrItemUnavailable
  | ErrUnavailable | ErrMaximumItems | ErrAccepted | ErrNotAccepted | ErrDisabled | ErrInvalidPrice
  | ErrNoToken | ErrListingUnavailable | ErrOwnListing | ErrThrottled | ErrActorNotAllowed
  | ErrTargetNotAllowed | ErrRoomPolicy | ErrIgnored

record furniture_row =
  fr_ID :: ident
  fr_DefinitionID :: ident
  fr_Owner :: ident
  fr_RoomID :: "ident option"
  fr_Reserved :: bool

record furniture_kind =
  fk_ID :: ident
  fk_AllowTrade :: bool
  fk_AllowMarketplaceSale :: bool
  fk_RedeemableCredits :: int

datatype listing_state = StateOpen | StateSold | StateClosed

record listing =
  ls_ID :: ident
  ls_Seller :: ident
  ls_Buyer :: "ident option"
  ls_Item :: ident
  ls_Definition :: ident
  ls_RawPrice :: int
  ls_State :: listing_state
  ls_ExpiresAt :: int
  ls_SoldAt :: "int option"
  ls_RedeemedAt :: "int option"

record ledger_entry =
  le_Player :: ident
  le_Type :: int
  le_Delta :: int
  le_BalanceAfter :: int
  le_Reason :: string
  le_Actor :: string

record trade_audit =
  ta_RoomID :: ident
  ta_FirstPlayerID :: ident
  ta_SecondPlayerID :: ident
  ta_FirstIP :: string
  ta_SecondIP :: string
  ta_FirstItemIDs :: "ident list"
  ta_SecondItemIDs :: "ident list"
  ta_FirstCredits :: int
  ta_SecondCredits :: int

type_synonym balances = "((ident \<times> int) \<times> int) list"

record db =
  db_calls :: nat
  db_items :: "ident \<rightharpoonup> furniture_row"
  db_kinds :: "ident \<rightharpoonup> furniture_kind"
  db_balances :: balances
  db_ledger :: "ledger_entry list"
  db_tokens :: "ident \<rightharpoonup> int"
  db_listings :: "listing list"
  db_nextListing :: ident
  db_stats :: "ident \<times> int \<rightharpoonup> int \<times> int"
  db_audits :: "trade_audit list"

type_synonym 'a tx = "db \<Rightarrow> economy_error + ('a \<times> db)"

definition ret :: "'a \<Rightarrow> 'a tx" where "ret x d = Inr (x, d)"
definition fail :: "economy_error \<Rightarrow> 'a tx" where "fail e d = Inl e"

definition and_then :: "'a tx \<Rightarrow> ('a \<Rightarrow> 'b tx) \<Rightarrow> 'b tx" where
  "and_then f g d = (case f d of Inl e \<Rightarrow> Inl e | Inr (x, d') \<Rightarrow> g x d')"

definition statement :: "(nat \<Rightarrow> bool) \<Rightarrow> (db \<Rightarrow> 'a \<times> db) \<Rightarrow> 'a tx" where
  "statement fault f d =
     (if fault (db_calls d) then Inl StoreError else Inr (f (d\<lparr>db_calls := Suc (db_calls d)\<rparr>)))"

definition WithinTransaction :: "'a tx \<Rightarrow> db \<Rightarrow> db \<times> (economy_error + 'a)" where
  "WithinTransaction work d = (case work d of Inl e \<Rightarrow> (d, Inl e) | Inr (x, d') \<Rightarrow> (d', Inr x))"

lemma tx_Inr [simp]:
  "ret x d = Inr (y, d') \<longleftrightarrow> y = x \<and> d' = d"
  "fail e d = Inr z \<longleftrightarrow> False"
  "and_then f g d = Inr z \<longleftrightarrow> (\<exists>x d1. f d = Inr (x, d1) \<and> g x d1 = Inr z)"
  "statement fault h d = Inr z \<longleftrightarrow> \<not> fault (db_calls d) \<and> z = h (d\<lparr>db_calls := Suc (db_calls d)\<rparr>)"
  by (auto simp: ret_def fail_def and_then_def statement_def split: sum.splits prod.splits)

subsection \<open>Furniture\<close>

definition FindItemByID :: "(nat \<Rightarrow> bool) \<Rightarrow> ident \<Rightarrow> furniture_row option tx" where
  "FindItemByID fault i =
     (if i \<le> 0 then fail ErrInvalidItemID else statement fault (\<lambda>d. (db_items d i, d)))"

definition FindDefinitionByID :: "(nat \<Rightarrow> bool) \<Rightarrow> ident \<Rightarrow> furniture_kind option tx" where
  "FindDefinitionByID fault i =
     (if i \<le> 0 then fail ErrInvalidDefinitionID else statement fault (\<lambda>d. (db_kinds d i, d)))"

text \<open>An update of one row by its id: the \<^verbatim>\<open>where\<close> clause, then the new row or its deletion.\<close>

definition execGuard ::
  "(nat \<Rightarrow> bool) \<Rightarrow> (furniture_row \<Rightarrow> bool) \<Rightarrow> (furniture_row \<Rightarrow> furniture_row option) \<Rightarrow> ident \<Rightarrow> bool tx" where
  "execGuard fault cond upd i = statement fault (\<lambda>d. (case db_items d i of
     None \<Rightarrow> (False, d)
   | Some r \<Rightarrow> if cond r then (True, d\<lparr>db_items := (db_items d)(i := upd r)\<rparr>) else (False, d)))"

definition runTradingGuard :: "bool tx \<Rightarrow> unit tx" where
  "runTradingGuard action =
     and_then action (\<lambda>updated. if \<not> updated then fail ErrItemUnavailable else ret ())"

definition available :: "ident \<Rightarrow> furniture_row \<Rightarrow> bool" where
  "available owner r \<longleftrightarrow> fr_Owner r = owner \<and> fr_RoomID r = None \<and> \<not> fr_Reserved r"

definition held_for :: "ident \<Rightarrow> furniture_row \<Rightarrow> bool" where
  "held_for owner r \<longleftrightarrow> fr_Owner r = owner \<and> fr_Reserved r"

definition TransferInventoryItem :: "(nat \<Rightarrow> bool) \<Rightarrow> ident \<Rightarrow> ident \<Rightarrow> ident \<Rightarrow> unit tx" where
  "TransferInventoryItem fault i src dst =
     runTradingGuard (execGuard fault (available src) (\<lambda>r. Some (r\<lparr>fr_Owner := dst\<rparr>)) i)"

definition DeleteInventoryItem :: "(nat \<Rightarrow> bool) \<Rightarrow> ident \<Rightarrow> ident \<Rightarrow> unit tx" where
  "DeleteInventoryItem fault i owner = runTradingGuard (execGuard fault (available owner) (\<lambda>_. None) i)"

definition ReleaseFromMarketplace :: "(nat \<Rightarrow> bool) \<Rightarrow> ident \<Rightarrow> ident \<Rightarrow> unit tx" where
  "ReleaseFromMarketplace fault i owner =
     runTradingGuard (execGuard fault (held_for owner) (\<lambda>r. Some (r\<lparr>fr_Reserved := False\<rparr>)) i)"

definition TransferFromMarketplace :: "(nat \<Rightarrow> bool) \<Rightarrow> ident \<Rightarrow> ident \<Rightarrow> ident \<Rightarrow> unit tx" where
  "TransferFromMarketplace fault i seller buyer =
     runTradingGuard (execGuard fault (held_for seller)
       (\<lambda>r. Some (r\<lparr>fr_Owner := buyer, fr_Reserved := False\<rparr>)) i)"

text \<open>\<open>staged\<close> is the trade registry's \<open>Contains\<close>. Every error becomes \<^verbatim>\<open>ErrItemUnavailable\<close>.\<close>

definition unavailable :: "'a tx \<Rightarrow> 'a tx" where
  "unavailable f d = (case f d of Inl _ \<Rightarrow> Inl ErrItemUnavailable | Inr z \<Rightarrow> Inr z)"

definition store_FindItemByID :: "(nat \<Rightarrow> bool) \<Rightarrow> ident \<Rightarrow> furniture_row option tx" where
  "store_FindItemByID fault i = statement fault (\<lambda>d. (db_items d i, d))"

definition store_FindDefinitionByID :: "(nat \<Rightarrow> bool) \<Rightarrow> ident \<Rightarrow> furniture_kind option tx" where
  "store_FindDefinitionByID fault i = statement fault (\<lambda>d. (db_kinds d i, d))"

definition ReserveForMarketplace ::
  "(nat \<Rightarrow> bool) \<Rightarrow> (ident \<Rightarrow> bool) \<Rightarrow> ident \<Rightarrow> ident \<Rightarrow> (furniture_row \<times> furniture_kind) tx" where
  "ReserveForMarketplace fault staged i p =
     unavailable (and_then (store_FindItemByID fault i) (\<lambda>found.
       case found of None \<Rightarrow> fail ErrItemUnavailable
       | Some r \<Rightarrow>
           if fr_Owner r \<noteq> p \<or> fr_RoomID r \<noteq> None \<or> fr_Reserved r \<or> staged i then fail ErrItemUnavailable
           else and_then (store_FindDefinitionByID fault (fr_DefinitionID r)) (\<lambda>kind.
             case kind of None \<Rightarrow> fail ErrItemUnavailable
             | Some k \<Rightarrow>
                 if \<not> fk_AllowMarketplaceSale k then fail ErrItemUnavailable
                 else and_then (runTradingGuard (execGuard fault (available p)
                        (\<lambda>r. Some (r\<lparr>fr_Reserved := True\<rparr>)) i)) (\<lambda>_. ret (r, k)))))"

subsection \<open>Currencies\<close>

definition MaxInt64 :: int where "MaxInt64 = 2 ^ 63 - 1"

definition balance_of :: "db \<Rightarrow> ident \<Rightarrow> int \<Rightarrow> int" where
  "balance_of d p t = (case map_of (db_balances d) (p, t) of None \<Rightarrow> 0 | Some a \<Rightarrow> a)"

record mutation =
  mu_Player :: ident
  mu_Type :: int
  mu_Amount :: int
  mu_Ledger :: bool
  mu_Reason :: string
  mu_Actor :: string

definition lockBalance :: "(nat \<Rightarrow> bool) \<Rightarrow> unit tx" where
  "lockBalance fault = statement fault (\<lambda>d. ((), d))"

definition findBalance :: "(nat \<Rightarrow> bool) \<Rightarrow> ident \<Rightarrow> int \<Rightarrow> int option tx" where
  "findBalance fault p t = statement fault (\<lambda>d. (map_of (db_balances d) (p, t), d))"

definition upsertBalance :: "(nat \<Rightarrow> bool) \<Rightarrow> ident \<Rightarrow> int \<Rightarrow> int \<Rightarrow> int tx" where
  "upsertBalance fault p t amount =
     statement fault (\<lambda>d. (amount, d\<lparr>db_balances := AList.update (p, t) amount (db_balances d)\<rparr>))"

definition ledgerEntry :: "mutation \<Rightarrow> int \<Rightarrow> int \<Rightarrow> ledger_entry" where
  "ledgerEntry m delta balance = \<lparr>le_Player = mu_Player m, le_Type = mu_Type m, le_Delta = delta,
     le_BalanceAfter = balance, le_Reason = mu_Reason m, le_Actor = mu_Actor m\<rparr>"

definition insertLedger :: "(nat \<Rightarrow> bool) \<Rightarrow> ledger_entry \<Rightarrow> unit tx" where
  "insertLedger fault e = statement fault (\<lambda>d. ((), d\<lparr>db_ledger := db_ledger d @ [e]\<rparr>))"

definition mutate_balance :: "(nat \<Rightarrow> bool) \<Rightarrow> mutation \<Rightarrow> bool \<Rightarrow> (int \<times> int) tx" where
  "mutate_balance fault m absolute =
     and_then (lockBalance fault) (\<lambda>_.
     and_then (findBalance fault (mu_Player m) (mu_Type m)) (\<lambda>current.
       (let previous = (case current of None \<Rightarrow> 0 | Some a \<Rightarrow> a) in
        if \<not> absolute \<and> mu_Amount m > 0 \<and> previous > MaxInt64 - mu_Amount m then fail ErrBalanceOverflow
        else (let next = (if absolute then mu_Amount m else previous + mu_Amount m) in
          if next < 0 then fail ErrInsufficientBalance
          else and_then (upsertBalance fault (mu_Player m) (mu_Type m) next) (\<lambda>balance.
            if mu_Ledger m
            then and_then (insertLedger fault (ledgerEntry m (next - previous) next)) (\<lambda>_. ret (balance, next - previous))
            else ret (balance, next - previous))))))"

definition ActorSystem :: string where "ActorSystem = ''system''"
definition ActorAdmin :: string where "ActorAdmin = ''admin''"
definition ActorPlayer :: string where "ActorPlayer = ''player''"

text \<open>The currency catalog maps a configured type to whether it has a ledger. \<open>infinite\<close> is the answer of
  the permission check of an infinite balance, \<open>None\<close> when no checker is configured.\<close>

type_synonym catalog = "int \<rightharpoonup> bool"
type_synonym checker = "ident \<Rightarrow> economy_error + bool"

definition validateIdentity :: "catalog \<Rightarrow> ident \<Rightarrow> int \<Rightarrow> economy_error option" where
  "validateIdentity types p t =
     (if p \<le> 0 then Some ErrInvalidPlayerID else if types t = None then Some ErrInvalidCurrencyType else None)"

definition validateMutation ::
  "catalog \<Rightarrow> ident \<Rightarrow> int \<Rightarrow> int \<Rightarrow> string \<Rightarrow> bool \<Rightarrow> economy_error + bool" where
  "validateMutation types p t amount actor absolute =
     (case validateIdentity types p t of
        Some e \<Rightarrow> Inl e
      | None \<Rightarrow>
          if (\<not> absolute \<and> amount = 0) \<or> (absolute \<and> amount < 0) then Inl ErrInvalidAmount
          else if actor \<noteq> ActorSystem \<and> actor \<noteq> ActorAdmin \<and> actor \<noteq> ActorPlayer then Inl ErrInvalidActor
          else Inr (the (types t)))"

definition infiniteBalance :: "checker option \<Rightarrow> ident \<Rightarrow> int \<Rightarrow> string \<Rightarrow> economy_error + bool" where
  "infiniteBalance permissions p amount actor =
     (case permissions of None \<Rightarrow> Inr False
      | Some has \<Rightarrow> if actor \<noteq> ActorPlayer \<or> amount \<ge> 0 then Inr False else has p)"

definition Grant_error :: "'a tx \<Rightarrow> 'a tx" where
  "Grant_error f d = (case f d of Inl ErrBalanceOverflow \<Rightarrow> Inl ErrInvalidAmount | r \<Rightarrow> r)"

definition Grant ::
  "(nat \<Rightarrow> bool) \<Rightarrow> catalog \<Rightarrow> checker option \<Rightarrow> ident \<Rightarrow> int \<Rightarrow> int \<Rightarrow> string \<Rightarrow> string \<Rightarrow> int tx" where
  "Grant fault types permissions p t amount reason actor =
     (case validateMutation types p t amount actor False of
        Inl e \<Rightarrow> fail e
      | Inr ledger \<Rightarrow> (case infiniteBalance permissions p amount actor of
          Inl e \<Rightarrow> fail e
        | Inr True \<Rightarrow> and_then (findBalance fault p t) (\<lambda>b. ret (case b of None \<Rightarrow> 0 | Some a \<Rightarrow> a))
        | Inr False \<Rightarrow>
            Grant_error (and_then (mutate_balance fault \<lparr>mu_Player = p, mu_Type = t, mu_Amount = amount,
              mu_Ledger = ledger, mu_Reason = reason, mu_Actor = actor\<rparr> False) (\<lambda>(b, _). ret b))))"

definition currency_Set ::
  "(nat \<Rightarrow> bool) \<Rightarrow> catalog \<Rightarrow> ident \<Rightarrow> int \<Rightarrow> int \<Rightarrow> string \<Rightarrow> string \<Rightarrow> int tx" where
  "currency_Set fault types p t amount reason actor =
     (case validateMutation types p t amount actor True of
        Inl e \<Rightarrow> fail e
      | Inr ledger \<Rightarrow> and_then (mutate_balance fault \<lparr>mu_Player = p, mu_Type = t, mu_Amount = amount,
          mu_Ledger = ledger, mu_Reason = reason, mu_Actor = actor\<rparr> True) (\<lambda>(b, _). ret b))"

subsection \<open>What the statements do\<close>

text \<open>The parts of the store other than the statement counter, the balances and the ledger.\<close>

definition same_goods :: "db \<Rightarrow> db \<Rightarrow> bool" where
  "same_goods d d' \<longleftrightarrow> db_items d' = db_items d \<and> db_kinds d' = db_kinds d \<and> db_tokens d' = db_tokens d \<and>
     db_listings d' = db_listings d \<and> db_nextListing d' = db_nextListing d \<and>
     db_stats d' = db_stats d \<and> db_audits d' = db_audits d"

text \<open>The parts other than the counter and the items.\<close>

definition same_money :: "db \<Rightarrow> db \<Rightarrow> bool" where
  "same_money d d' \<longleftrightarrow> db_balances d' = db_balances d \<and> db_ledger d' = db_ledger d \<and> db_kinds d' = db_kinds d \<and>
     db_tokens d' = db_tokens d \<and> db_listings d' = db_listings d \<and> db_nextListing d' = db_nextListing d \<and>
     db_stats d' = db_stats d \<and> db_audits d' = db_audits d"

lemma balance_of_frame [simp]:
  "balance_of (d\<lparr>db_calls := n\<rparr>) p t = balance_of d p t"
  "balance_of (d\<lparr>db_items := m\<rparr>) p t = balance_of d p t"
  "balance_of (d\<lparr>db_ledger := l\<rparr>) p t = balance_of d p t"
  "balance_of (d\<lparr>db_tokens := tk\<rparr>) p t = balance_of d p t"
  "balance_of (d\<lparr>db_listings := ls\<rparr>) p t = balance_of d p t"
  "balance_of (d\<lparr>db_nextListing := k\<rparr>) p t = balance_of d p t"
  "balance_of (d\<lparr>db_audits := as\<rparr>) p t = balance_of d p t"
  "balance_of (d\<lparr>db_stats := st\<rparr>) p t = balance_of d p t"
  "balance_of (d\<lparr>db_balances := AList.update (q, s) a bs\<rparr>) p t =
     (if p = q \<and> t = s then a else balance_of (d\<lparr>db_balances := bs\<rparr>) p t)"
  "balance_of (d\<lparr>db_balances := db_balances d\<rparr>) p t = balance_of d p t"
  by (simp_all add: balance_of_def update_conv')

lemma update_Inr:
  "runTradingGuard (execGuard fault cond upd i) d = Inr ((), d') \<longleftrightarrow>
     \<not> fault (db_calls d) \<and> (\<exists>r. db_items d i = Some r \<and> cond r \<and>
       d' = d\<lparr>db_calls := Suc (db_calls d), db_items := (db_items d)(i := upd r)\<rparr>)"
  by (auto simp: runTradingGuard_def execGuard_def split: option.splits)

lemma ReserveForMarketplace_Inr:
  "ReserveForMarketplace fault staged i p d = Inr ((r, k), d') \<Longrightarrow>
     db_items d i = Some r \<and> available p r \<and> \<not> staged i \<and> db_kinds d (fr_DefinitionID r) = Some k \<and>
     fk_AllowMarketplaceSale k \<and> same_money d d' \<and> db_items d' = (db_items d)(i \<mapsto> r\<lparr>fr_Reserved := True\<rparr>)"
  unfolding ReserveForMarketplace_def unavailable_def
  by (auto simp: store_FindItemByID_def store_FindDefinitionByID_def update_Inr same_money_def available_def
      split: sum.splits option.splits if_splits)

text \<open>How much a committed mutation changes the balance, and what it writes.\<close>

lemma mutate_balance_Inr:
  assumes "mutate_balance fault m absolute d = Inr ((b, delta), d')"
  shows "same_goods d d' \<and> b = balance_of d (mu_Player m) (mu_Type m) + delta \<and> 0 \<le> b \<and>
    (if absolute then b = mu_Amount m else delta = mu_Amount m) \<and>
    db_balances d' = AList.update (mu_Player m, mu_Type m) b (db_balances d) \<and>
    db_ledger d' = db_ledger d @ (if mu_Ledger m then [ledgerEntry m delta b] else [])"
  using assms
  by (auto simp: mutate_balance_def Let_def lockBalance_def findBalance_def upsertBalance_def insertLedger_def
      balance_of_def same_goods_def split: if_splits option.splits)

definition granted :: "checker option \<Rightarrow> ident \<Rightarrow> int \<Rightarrow> string \<Rightarrow> int" where
  "granted permissions p amount actor =
     (if infiniteBalance permissions p amount actor = Inr True then 0 else amount)"

lemma Grant_Inr:
  assumes "Grant fault types permissions p t amount reason actor d = Inr (b, d')"
  shows "0 < p \<and> types t \<noteq> None \<and> amount \<noteq> 0 \<and> same_goods d d' \<and>
    (\<forall>q s. balance_of d' q s = balance_of d q s +
       (if q = p \<and> s = t then granted permissions p amount actor else 0))"
proof -
  obtain ledger where valid: "validateMutation types p t amount actor False = Inr ledger"
    using assms by (auto simp: Grant_def split: sum.splits)
  then have ok: "0 < p \<and> types t \<noteq> None \<and> amount \<noteq> 0"
    by (auto simp: validateMutation_def validateIdentity_def split: if_splits)
  obtain inf where inf: "infiniteBalance permissions p amount actor = Inr inf"
    using assms valid by (auto simp: Grant_def split: sum.splits)
  show ?thesis
  proof (cases inf)
    case True
    then show ?thesis
      using assms valid inf ok
      by (auto simp: Grant_def findBalance_def granted_def same_goods_def)
  next
    case False
    let ?m = "\<lparr>mu_Player = p, mu_Type = t, mu_Amount = amount, mu_Ledger = ledger, mu_Reason = reason, mu_Actor = actor\<rparr>"
    from assms valid inf False obtain delta where m: "mutate_balance fault ?m False d = Inr ((b, delta), d')"
      by (auto simp: Grant_def Grant_error_def split: sum.splits economy_error.splits prod.splits)
    from mutate_balance_Inr [OF m] have "balance_of d' q s = (if q = p \<and> s = t then b else balance_of d q s)" for q s
      by (auto simp: balance_of_def update_conv')
    with mutate_balance_Inr [OF m] ok inf False show ?thesis by (simp add: granted_def)
  qed
qed

subsection \<open>Balances and the ledger\<close>

text \<open>Currency operations as they are committed, each in its own transaction.\<close>

datatype currency_op =
    CGrant "nat \<Rightarrow> bool" ident int int string string
  | CSet "nat \<Rightarrow> bool" ident int int string string

definition currency_step :: "catalog \<Rightarrow> checker option \<Rightarrow> currency_op \<Rightarrow> db \<Rightarrow> db" where
  "currency_step types permissions op d = (case op of
     CGrant fault p t amount reason actor \<Rightarrow>
       fst (WithinTransaction (Grant fault types permissions p t amount reason actor) d)
   | CSet fault p t amount reason actor \<Rightarrow>
       fst (WithinTransaction (currency_Set fault types p t amount reason actor) d))"

definition ledger_sum :: "db \<Rightarrow> ident \<Rightarrow> int \<Rightarrow> int" where
  "ledger_sum d p t =
     sum_list (map le_Delta (filter (\<lambda>e. le_Player e = p \<and> le_Type e = t) (db_ledger d)))"

definition ledger_inv :: "catalog \<Rightarrow> db \<Rightarrow> bool" where
  "ledger_inv types d \<longleftrightarrow> (\<forall>p t. 0 \<le> balance_of d p t \<and>
     (types t = Some True \<longrightarrow> balance_of d p t = ledger_sum d p t))"

lemma mutate_ledger_inv:
  assumes "mutate_balance fault m absolute d = Inr ((b, delta), d')" and "ledger_inv types d"
    and "mu_Ledger m = the (types (mu_Type m))"
  shows "ledger_inv types d'"
proof -
  have new: "balance_of d' p t = (if p = mu_Player m \<and> t = mu_Type m then b else balance_of d p t)" for p t
    using mutate_balance_Inr [OF assms(1)] by (auto simp: balance_of_def update_conv')
  have sum: "ledger_sum d' p t = ledger_sum d p t +
      (if p = mu_Player m \<and> t = mu_Type m \<and> mu_Ledger m then delta else 0)" for p t
    using mutate_balance_Inr [OF assms(1)] by (auto simp: ledger_sum_def ledgerEntry_def)
  show ?thesis
    using assms(2,3) mutate_balance_Inr [OF assms(1)] by (auto simp: ledger_inv_def new sum)
qed

lemma currency_step_inv:
  assumes "ledger_inv types d" shows "ledger_inv types (currency_step types permissions op d)"
proof -
  have grant: "ledger_inv types d'" if g: "Grant fault types permissions p t amount reason actor d = Inr (b, d')"
    for fault p t amount reason actor b d'
  proof -
    obtain ledger inf where v: "validateMutation types p t amount actor False = Inr ledger"
      "infiniteBalance permissions p amount actor = Inr inf"
      using g by (auto simp: Grant_def split: sum.splits)
    have l: "ledger = the (types t)" using v(1) by (auto simp: validateMutation_def split: option.splits if_splits)
    show ?thesis
    proof (cases inf)
      case True
      then show ?thesis
        using assms g v by (auto simp: Grant_def findBalance_def ledger_inv_def ledger_sum_def)
    next
      case False
      with g v obtain delta where "mutate_balance fault \<lparr>mu_Player = p, mu_Type = t, mu_Amount = amount,
          mu_Ledger = ledger, mu_Reason = reason, mu_Actor = actor\<rparr> False d = Inr ((b, delta), d')"
        by (auto simp: Grant_def Grant_error_def split: sum.splits economy_error.splits prod.splits)
      from mutate_ledger_inv [OF this assms] show ?thesis using l by simp
    qed
  qed
  have set: "ledger_inv types d'" if g: "currency_Set fault types p t amount reason actor d = Inr (b, d')"
    for fault p t amount reason actor b d'
  proof -
    obtain ledger where v: "validateMutation types p t amount actor True = Inr ledger"
      using g by (auto simp: currency_Set_def split: sum.splits)
    have l: "ledger = the (types t)" using v by (auto simp: validateMutation_def split: option.splits if_splits)
    from g v obtain delta where "mutate_balance fault \<lparr>mu_Player = p, mu_Type = t, mu_Amount = amount,
        mu_Ledger = ledger, mu_Reason = reason, mu_Actor = actor\<rparr> True d = Inr ((b, delta), d')"
      by (auto simp: currency_Set_def split: prod.splits)
    from mutate_ledger_inv [OF this assms] show ?thesis using l by simp
  qed
  show ?thesis
    using assms grant set
    by (auto simp: currency_step_def WithinTransaction_def split: currency_op.splits sum.splits)
qed

text \<open>C19: The ledger explains the balances: whatever sequence of grants and corrections is committed or
  rolled back, with whatever failures of the store, no balance is negative and every balance of a
  ledgered currency is the sum of the deltas the ledger records for it.\<close>

theorem ledger_explains_balances:
  assumes "db_balances d = []" and "db_ledger d = []"
  shows "let d' = fold (currency_step types permissions) ops d in
    0 \<le> balance_of d' p t \<and> (types t = Some True \<longrightarrow> balance_of d' p t = ledger_sum d' p t)"
proof -
  have "ledger_inv types d" using assms by (simp add: ledger_inv_def balance_of_def ledger_sum_def)
  then have "ledger_inv types (fold (currency_step types permissions) ops d)"
    by (induction ops arbitrary: d) (simp_all add: currency_step_inv)
  then show ?thesis by (simp add: ledger_inv_def Let_def)
qed

definition empty_db :: db where
  "empty_db = \<lparr>db_calls = 0, db_items = Map.empty, db_kinds = Map.empty, db_balances = [], db_ledger = [],
     db_tokens = Map.empty, db_listings = [], db_nextListing = 1, db_stats = Map.empty, db_audits = []\<rparr>"

text \<open>Two grants and one that fails between its statements.\<close>

definition credit_ops :: "currency_op list" where
  "credit_ops = [CGrant (\<lambda>_. False) 1 (-1) 50 ''gift'' ''system'', CGrant (\<lambda>n. n = 7) 1 (-1) 9 ''gift'' ''system'',
     CGrant (\<lambda>_. False) 1 (-1) (-20) ''shop'' ''player'', CGrant (\<lambda>_. False) 1 (-1) (-40) ''shop'' ''player'']"

theorem ledger_explains_balances_witness:
  "balance_of (fold (currency_step [-1 \<mapsto> True] None) credit_ops empty_db) 1 (-1) = 30 \<and>
   ledger_sum (fold (currency_step [-1 \<mapsto> True] None) credit_ops empty_db) 1 (-1) = 30"
proof -
  have "balance_of (fold (currency_step [-1 \<mapsto> True] None) credit_ops empty_db) 1 (-1) = 30" by code_simp
  then show ?thesis
    using ledger_explains_balances [of empty_db "[-1 \<mapsto> True]" None credit_ops 1 "-1"]
    by (simp add: empty_db_def Let_def)
qed

end
