(* ===== verification/Catalog.thy ===== *)
theory Catalog
  imports Grid Economy "HOL-Library.Option_ord" "HOL-Library.Product_Lexorder"
begin

text \<open>
  What the catalog shows (\<^verbatim>\<open>internal/realm/catalog\<close>: \<^verbatim>\<open>model\<close>, \<^verbatim>\<open>service/cache.go\<close>,
  \<^verbatim>\<open>service/service.go\<close>): offers and pages, the cache of one generation and its selections, access to a page
  through its chain of parents, and the rules for quantities and discounts. Quantities are 32 bit
  words, as in the code; prices are integers.
\<close>

subsection \<open>Offers and pages\<close>

definition CreditsType :: int where "CreditsType = -1"
definition RewardFurniture :: string where "RewardFurniture = ''furniture''"
definition RewardPet :: string where "RewardPet = ''pet''"
definition RewardService :: string where "RewardService = ''service''"

record offer =
  of_ID :: ident
  of_PageID :: ident
  of_DefinitionID :: ident
  of_RewardKind :: string
  of_PetTypeID :: "i32 option"
  of_PetProductCode :: string
  of_RoomBundleTemplateRoomID :: "ident option"
  of_GrantsEffectID :: "i32 option"
  of_GrantsEffectDurationSeconds :: i32
  of_Name :: string
  of_CostCredits :: int
  of_CostPoints :: int
  of_PointsType :: int
  of_Amount :: i32
  of_LimitedStack :: i32
  of_LimitedSells :: i32
  of_BundleDiscountEnabled :: bool
  of_Giftable :: bool
  of_ClubOnly :: bool
  of_OrderNum :: i32
  of_Enabled :: bool
  of_ExtraData :: string
  of_ScheduledAt :: "int option"
  of_Version :: nat
  of_Deleted :: bool

record product =
  pd_CatalogItemID :: ident
  pd_DefinitionID :: ident
  pd_Quantity :: i32

record page =
  pg_ID :: ident
  pg_ParentID :: "ident option"
  pg_Name :: string
  pg_Layout :: string
  pg_IconColor :: i32
  pg_IconImage :: i32
  pg_RequiredNode :: "string option"
  pg_OrderNum :: i32
  pg_Visible :: bool
  pg_Enabled :: bool
  pg_ClubOnly :: bool
  pg_NewAdditions :: bool
  pg_ExpiresAt :: "int option"
  pg_ExcludedFromKickback :: bool
  pg_Version :: nat
  pg_Deleted :: bool

definition IsLimited :: "offer \<Rightarrow> bool" where "IsLimited i \<longleftrightarrow> sint (of_LimitedStack i) > 0"
definition IsCredits :: "offer \<Rightarrow> bool" where "IsCredits i \<longleftrightarrow> of_PointsType i = CreditsType"
definition IsRoomBundle :: "offer \<Rightarrow> bool" where "IsRoomBundle i \<longleftrightarrow> of_RoomBundleTemplateRoomID i \<noteq> None"
definition IsPet :: "offer \<Rightarrow> bool" where "IsPet i \<longleftrightarrow> of_RewardKind i = RewardPet"
definition IsService :: "offer \<Rightarrow> bool" where "IsService i \<longleftrightarrow> of_RewardKind i = RewardService"

definition BulkDiscountEligible :: "bool \<Rightarrow> offer \<Rightarrow> bool" where
  "BulkDiscountEligible hasProducts i \<longleftrightarrow>
     of_BundleDiscountEnabled i \<and> \<not> IsLimited i \<and> of_Amount i = 1 \<and> \<not> hasProducts"

definition Accessible :: "bool \<Rightarrow> page \<Rightarrow> bool" where
  "Accessible hasClub p \<longleftrightarrow> pg_Visible p \<and> pg_Enabled p \<and> (\<not> pg_ClubOnly p \<or> hasClub)"

subsection \<open>The cache\<close>

text \<open>Of a furniture definition the catalog reads the interaction type. Maps that the code only looks up are functions;
  the offers, which it also iterates over, are a list.\<close>

record cache_snapshot =
  cc_pages :: "(ident \<times> page) list"
  cc_pageOrder :: "page list"
  cc_items :: "(ident \<times> offer) list"
  cc_itemsByPage :: "ident \<Rightarrow> offer list"
  cc_definitions :: "ident \<rightharpoonup> string"
  cc_products :: "ident \<Rightarrow> product list"

definition cache_replace :: "page list \<Rightarrow> offer list \<Rightarrow> (ident \<times> string) list \<Rightarrow> product list \<Rightarrow> cache_snapshot" where
  "cache_replace pages items definitions products =
     \<lparr>cc_pages = fold (\<lambda>p. AList.update (pg_ID p) p) pages [], cc_pageOrder = pages,
      cc_items = fold (\<lambda>i. AList.update (of_ID i) i) items [],
      cc_itemsByPage = (\<lambda>key. filter (\<lambda>i. of_PageID i = key) items),
      cc_definitions = map_of (rev definitions),
      cc_products = (\<lambda>key. filter (\<lambda>p. pd_CatalogItemID p = key) products)\<rparr>"

definition newCache :: cache_snapshot where
  "newCache = cache_replace [] [] [] []"

definition cache_item :: "ident \<Rightarrow> cache_snapshot \<Rightarrow> offer option" where
  "cache_item key c = map_of (cc_items c) key"

definition cache_page :: "ident \<Rightarrow> cache_snapshot \<Rightarrow> page option" where
  "cache_page key c = map_of (cc_pages c) key"

definition cache_definition :: "ident \<Rightarrow> cache_snapshot \<Rightarrow> string option" where
  "cache_definition key c = cc_definitions c key"

definition cache_products :: "ident \<Rightarrow> cache_snapshot \<Rightarrow> product list" where
  "cache_products key c = cc_products c key"

definition secondsUntil :: "int \<Rightarrow> int \<Rightarrow> int" where
  "secondsUntil deadline now =
     (let seconds = (if deadline \<ge> now then (deadline - now) div 1000000000 else - ((now - deadline) div 1000000000))
      in if seconds \<le> 0 then 0 else if seconds > 2147483647 then 2147483647 else seconds)"

definition PageExpiration :: "ident \<Rightarrow> int \<Rightarrow> cache_snapshot \<Rightarrow> (page \<times> int) option" where
  "PageExpiration key now c = (case cache_page key c of
     None \<Rightarrow> None
   | Some p \<Rightarrow> (case pg_ExpiresAt p of None \<Rightarrow> None | Some t \<Rightarrow> Some (p, secondsUntil t now)))"

text \<open>The first of the earliest values, as the loop that keeps one selection finds it.\<close>

fun earliest :: "('a \<Rightarrow> int option) \<Rightarrow> 'a list \<Rightarrow> ('a \<times> int) option \<Rightarrow> ('a \<times> int) option" where
  "earliest at [] selected = selected"
| "earliest at (x # xs) selected = (case at x of
     None \<Rightarrow> earliest at xs selected
   | Some t \<Rightarrow> (case selected of
         Some (y, s) \<Rightarrow> if \<not> t < s then earliest at xs selected else earliest at xs (Some (x, t))
       | None \<Rightarrow> earliest at xs (Some (x, t))))"

definition EarliestExpiration :: "page list \<Rightarrow> int \<Rightarrow> (page \<times> int) option" where
  "EarliestExpiration pages now =
     map_option (\<lambda>(p, t). (p, secondsUntil t now)) (earliest pg_ExpiresAt pages None)"

definition NextLimited :: "int \<Rightarrow> cache_snapshot \<Rightarrow> (offer \<times> int) option" where
  "NextLimited now c = map_option (\<lambda>(i, t). (i, secondsUntil t now))
     (earliest (\<lambda>i. if \<not> IsLimited i then None
        else (case of_ScheduledAt i of None \<Rightarrow> None | Some t \<Rightarrow> if t > now then Some t else None))
      (map snd (cc_items c)) None)"

subsection \<open>Access to pages\<close>

datatype catalog_error =
    ErrCommerceUnavailable | ErrInvalidAmount | ErrOfferNotGiftable | ErrGiftReceiverNotFound | ErrVoucherInvalid
  | ErrVoucherAlreadyUsed | ErrVoucherExhausted | ErrInvalidPlayerID | ErrInvalidOfferID | ErrPageNotFound
  | ErrOfferNotFound | ErrOfferNotVisible | ErrOfferDisabled | ErrLimitedSoldOut | ErrLimitedCompletion
  | ErrTeleportPairing | ErrGroupSelection | ErrInvalidQuantity | ErrInvalidDefinitionID | ErrDefinitionNotFound
  | ErrBackend
  | ErrInvalidPage | ErrInvalidItem | ErrItemNotFound | ErrConflict | ErrLimitedBelowSales
  | ErrBundleTemplateNotFound | ErrBundleTemplateEmpty | ErrBundleHasProducts
  | CurrencyError economy_error

text \<open>What the checker of permissions answers, when there is one.\<close>

type_synonym permission_checker = "(ident \<Rightarrow> string \<Rightarrow> catalog_error + bool) option"

function page_walk ::
  "permission_checker \<Rightarrow> (ident \<times> page) list \<Rightarrow> ident \<Rightarrow> bool \<Rightarrow> ident list \<Rightarrow> page \<Rightarrow> catalog_error + bool" where
  "page_walk permissions pages player hasClub visited p =
     (if pg_ID p \<in> set visited then Inr False
      else if \<not> Accessible hasClub p then Inr False
      else (case (case pg_RequiredNode p of None \<Rightarrow> Inr True
              | Some node \<Rightarrow> (case permissions of None \<Rightarrow> Inr False | Some has \<Rightarrow> has player node)) of
          Inl e \<Rightarrow> Inl e
        | Inr False \<Rightarrow> Inr False
        | Inr True \<Rightarrow> (case pg_ParentID p of
              None \<Rightarrow> Inr True
            | Some q \<Rightarrow> (case map_of pages q of
                  None \<Rightarrow> Inr False
                | Some parent \<Rightarrow> page_walk permissions pages player hasClub (pg_ID p # visited) parent))))"
  by pat_completeness auto
termination
proof (relation "measure (\<lambda>(_, pages, _, _, visited, p). card (insert (pg_ID p) (pg_ID ` snd ` set pages) - set visited))",
    goal_cases)
  case (2 permissions pages player hasClub visited p b q parent)
  then have "(q, parent) \<in> set pages" by (simp add: map_of_SomeD)
  then have "insert (pg_ID parent) (pg_ID ` snd ` set pages) = pg_ID ` snd ` set pages" by force
  then show ?case using 2(1) by (auto intro!: psubset_card_mono)
qed simp

definition pageAccessible ::
  "permission_checker \<Rightarrow> cache_snapshot \<Rightarrow> page \<Rightarrow> ident \<Rightarrow> bool \<Rightarrow> catalog_error + bool" where
  "pageAccessible permissions c p player hasClub = page_walk permissions (cc_pages c) player hasClub [] p"

fun visible_pages :: "permission_checker \<Rightarrow> cache_snapshot \<Rightarrow> ident \<Rightarrow> bool \<Rightarrow> page list \<Rightarrow> catalog_error + page list" where
  "visible_pages permissions c player hasClub [] = Inr []"
| "visible_pages permissions c player hasClub (p # ps) = (case pageAccessible permissions c p player hasClub of
     Inl e \<Rightarrow> Inl e
   | Inr ok \<Rightarrow> (case visible_pages permissions c player hasClub ps of
         Inl e \<Rightarrow> Inl e | Inr rest \<Rightarrow> Inr (if ok then p # rest else rest)))"

definition Pages :: "permission_checker \<Rightarrow> cache_snapshot \<Rightarrow> ident \<Rightarrow> bool \<Rightarrow> catalog_error + page list" where
  "Pages permissions c player hasClub = visible_pages permissions c player hasClub (cc_pageOrder c)"

definition catalog_Page ::
  "permission_checker \<Rightarrow> cache_snapshot \<Rightarrow> ident \<Rightarrow> ident \<Rightarrow> bool \<Rightarrow> catalog_error + (page \<times> offer list)" where
  "catalog_Page permissions c key player hasClub = (case cache_page key c of
     None \<Rightarrow> Inl ErrPageNotFound
   | Some p \<Rightarrow> (case pageAccessible permissions c p player hasClub of
         Inl e \<Rightarrow> Inl e
       | Inr ok \<Rightarrow> if \<not> ok then Inl ErrOfferNotVisible
           else Inr (p, filter (\<lambda>i. of_Enabled i \<and> (\<not> of_ClubOnly i \<or> hasClub)) (cc_itemsByPage c key))))"

subsection \<open>Quantities and discounts\<close>

definition MaxPurchaseUnits :: int where "MaxPurchaseUnits = 100"
definition DiscountBatchSize :: int where "DiscountBatchSize = 6"
definition AdditionalDiscountThresholds :: "int list" where "AdditionalDiscountThresholds = [40, 99]"

text \<open>Go truncates divisions toward zero; the amount of a purchase that comes here is positive.\<close>

definition DiscountedUnits :: "int \<Rightarrow> int" where
  "DiscountedUnits amount =
     (let basic = amount div DiscountBatchSize;
          bonus = (if basic \<ge> 1 then (if amount mod DiscountBatchSize = DiscountBatchSize - 1 then 1 else 0) + (basic - 1) else 0);
          additional = int (length (filter (\<lambda>t. amount \<ge> t) AdditionalDiscountThresholds));
          discounted = basic + bonus + additional
      in if discounted > amount then amount else discounted)"

definition validateAmount :: "offer \<Rightarrow> product list \<Rightarrow> i32 \<Rightarrow> bool \<Rightarrow> catalog_error option" where
  "validateAmount i products amount overrideQuantity =
     (if IsPet i then (if amount \<noteq> 1 \<or> products \<noteq> [] then Some ErrInvalidAmount else None)
      else if IsRoomBundle i \<and> amount \<noteq> 1 then Some ErrInvalidAmount
      else if IsRoomBundle i then None
      else if sint amount \<le> 0 \<or> IsLimited i \<and> amount \<noteq> 1 then Some ErrInvalidAmount
      else if sint amount > 1 \<and> \<not> overrideQuantity \<and> \<not> BulkDiscountEligible (products \<noteq> []) i then Some ErrInvalidAmount
      else (let units = (if products \<noteq> [] then sum_list (map pd_Quantity products) else of_Amount i)
            in if sint units * sint amount > MaxPurchaseUnits then Some ErrInvalidAmount else None))"

declare page_walk.simps [simp del]

subsection \<open>What the rules mean\<close>

text \<open>A page is open to a player when it and all its ancestors are, up to a page without a parent: the least
  relation with these rules, so that a cycle of parents opens nothing.\<close>

definition page_allowed :: "permission_checker \<Rightarrow> ident \<Rightarrow> bool \<Rightarrow> page \<Rightarrow> bool" where
  "page_allowed permissions player hasClub p \<longleftrightarrow> Accessible hasClub p \<and>
     (case pg_RequiredNode p of None \<Rightarrow> True
      | Some node \<Rightarrow> (case permissions of None \<Rightarrow> False | Some has \<Rightarrow> has player node = Inr True))"

inductive open_page :: "permission_checker \<Rightarrow> (ident \<times> page) list \<Rightarrow> ident \<Rightarrow> bool \<Rightarrow> nat \<Rightarrow> page \<Rightarrow> bool"
  for permissions pages player hasClub where
  root: "page_allowed permissions player hasClub p \<Longrightarrow> pg_ParentID p = None \<Longrightarrow>
    open_page permissions pages player hasClub 0 p"
| child: "page_allowed permissions player hasClub p \<Longrightarrow> pg_ParentID p = Some q \<Longrightarrow> map_of pages q = Some parent \<Longrightarrow>
    open_page permissions pages player hasClub n parent \<Longrightarrow> open_page permissions pages player hasClub (Suc n) p"

inductive_cases open_rootE: "open_page permissions pages player hasClub 0 p"
inductive_cases open_childE: "open_page permissions pages player hasClub (Suc n) p"

lemma open_page_depth:
  "open_page permissions pages player hasClub n p \<Longrightarrow> open_page permissions pages player hasClub m p \<Longrightarrow> m = n"
proof (induction arbitrary: m rule: open_page.induct)
  case (root p)
  then show ?case by (auto elim: open_page.cases)
next
  case (child p q parent n)
  from child.prems child.hyps(2,3) obtain k where "m = Suc k" "open_page permissions pages player hasClub k parent"
    by (cases rule: open_page.cases) auto
  with child.IH show ?case by simp
qed

lemma page_walk_open:
  assumes "\<And>q x. map_of pages q = Some x \<Longrightarrow> pg_ID x = q"
    and "open_page permissions pages player hasClub n p" "map_of pages (pg_ID p) = Some p"
    and "\<And>v x. v \<in> set visited \<Longrightarrow> map_of pages v = Some x \<Longrightarrow> \<exists>m > n. open_page permissions pages player hasClub m x"
  shows "page_walk permissions pages player hasClub visited p = Inr True"
  using assms(2,3,4)
proof (induction arbitrary: visited rule: open_page.induct)
  case (root p)
  have "pg_ID p \<notin> set visited" using root(3,4) open_page_depth [OF open_page.root [OF root(1,2)]] by blast
  with root(1,2) show ?case
    by (subst page_walk.simps) (simp add: page_allowed_def split: option.splits)
next
  case (child p q parent n)
  let ?o = "open_page permissions pages player hasClub"
  have p: "?o (Suc n) p" by (rule open_page.child [OF child(1-4)])
  then have "pg_ID p \<notin> set visited" using child.prems open_page_depth [OF p] by blast
  moreover have "map_of pages (pg_ID parent) = Some parent" using child.hyps(3) assms(1) by fastforce
  moreover have "\<exists>m > n. ?o m x" if "v \<in> set (pg_ID p # visited)" "map_of pages v = Some x" for v x
  proof (cases "v = pg_ID p")
    case True
    then show ?thesis using that(2) child.prems(1) p by auto
  next
    case False
    then have "v \<in> set visited" using that(1) by simp
    from child.prems(2) [OF this that(2)] show ?thesis using Suc_lessD by blast
  qed
  ultimately have "page_walk permissions pages player hasClub (pg_ID p # visited) parent = Inr True"
    using child.IH by blast
  then show ?case using child.hyps(1-3) \<open>pg_ID p \<notin> set visited\<close>
    by (subst page_walk.simps) (auto simp: page_allowed_def split: option.splits)
qed

lemma page_walk_closed:
  assumes "page_walk permissions pages player hasClub visited p = Inr True"
  shows "\<exists>n. open_page permissions pages player hasClub n p"
  using assms
proof (induction permissions pages player hasClub visited p rule: page_walk.induct)
  case (1 permissions pages player hasClub visited p)
  note unfolded = 1(2) [unfolded page_walk.simps [of permissions pages player hasClub visited p]]
  have ok: "page_allowed permissions player hasClub p" "pg_ID p \<notin> set visited"
    using unfolded by (auto simp: page_allowed_def split: if_splits option.splits sum.splits bool.splits)
  show ?case
  proof (cases "pg_ParentID p")
    case None
    with ok(1) show ?thesis by (blast intro: open_page.root)
  next
    case (Some q)
    obtain parent where parent: "map_of pages q = Some parent"
        "page_walk permissions pages player hasClub (pg_ID p # visited) parent = Inr True"
      using unfolded Some by (auto split: if_splits option.splits sum.splits bool.splits)
    have "(case pg_RequiredNode p of None \<Rightarrow> Inr True
        | Some node \<Rightarrow> (case permissions of None \<Rightarrow> Inr False | Some has \<Rightarrow> has player node)) = Inr True"
      using ok(1) by (auto simp: page_allowed_def split: option.splits)
    then have "\<exists>n. open_page permissions pages player hasClub n parent"
      using 1(1) ok Some parent by (auto simp: page_allowed_def)
    with ok(1) Some parent(1) show ?thesis by (blast intro: open_page.child)
  qed
qed

lemma page_walk_total:
  assumes "\<And>has node e. permissions = Some has \<Longrightarrow> has player node \<noteq> Inl e"
  shows "page_walk permissions pages player hasClub visited p \<noteq> Inl e"
  using assms
proof (induction permissions pages player hasClub visited p rule: page_walk.induct)
  case (1 permissions pages player hasClub visited p)
  show ?case
  proof (cases "pg_ID p \<notin> set visited \<and> Accessible hasClub p \<and>
      (case pg_RequiredNode p of None \<Rightarrow> Inr True
       | Some node \<Rightarrow> (case permissions of None \<Rightarrow> Inr False | Some has \<Rightarrow> has player node)) = Inr True")
    case True
    then show ?thesis using 1
      by (subst page_walk.simps) (simp split: option.splits)
  next
    case False
    then show ?thesis using 1(2)
      by (subst page_walk.simps) (auto split: option.splits sum.splits bool.splits)
  qed
qed

lemma cached_pages_id:
  "map_of (fold (\<lambda>p. AList.update (pg_ID p) p) pages xs) q = Some x \<Longrightarrow> (\<And>q x. map_of xs q = Some x \<Longrightarrow> pg_ID x = q) \<Longrightarrow>
    pg_ID x = q"
proof (induction pages arbitrary: xs)
  case (Cons p ps)
  have "pg_ID y = k" if "map_of (AList.update (pg_ID p) p xs) k = Some y" for k y
    using that Cons.prems(2) by (auto simp: update_conv' split: if_splits)
  moreover have "map_of (fold (\<lambda>p. AList.update (pg_ID p) p) ps (AList.update (pg_ID p) p xs)) q = Some x"
    using Cons.prems(1) by simp
  ultimately show ?case by (rule Cons.IH [rotated])
qed simp

lemma cached_page_id:
  "map_of (cc_pages (cache_replace pages items definitions products)) q = Some x \<Longrightarrow> pg_ID x = q"
  by (auto simp: cache_replace_def elim: cached_pages_id)

text \<open>C32: Access to a catalog page. Over any cache that was built from lists of pages and offers, the walk of
  \<^verbatim>\<open>pageAccessible\<close> ends and answers whether the page and all its ancestors up to a page without a parent are
  visible, enabled, open to the player's club status and permissions; a cycle of parents or a
  missing parent closes the page, and only a failing permission check is an error.\<close>

theorem pageAccessible_reference:
  assumes "c = cache_replace pages items definitions products" "cache_page (pg_ID p) c = Some p"
    and "\<And>has node e. permissions = Some has \<Longrightarrow> has player node \<noteq> Inl e"
  shows "pageAccessible permissions c p player hasClub = Inr (\<exists>n. open_page permissions (cc_pages c) player hasClub n p)"
proof -
  have ids: "\<And>q x. map_of (cc_pages c) q = Some x \<Longrightarrow> pg_ID x = q" using assms(1) cached_page_id by simp
  have p: "map_of (cc_pages c) (pg_ID p) = Some p" using assms(2) by (simp add: cache_page_def)
  obtain b where b: "pageAccessible permissions c p player hasClub = Inr b"
    using page_walk_total [of permissions player "cc_pages c" hasClub "[]" p] assms(3)
    unfolding pageAccessible_def by (cases "page_walk permissions (cc_pages c) player hasClub [] p") auto
  have "b = (\<exists>n. open_page permissions (cc_pages c) player hasClub n p)"
  proof
    assume b
    then show "\<exists>n. open_page permissions (cc_pages c) player hasClub n p"
      using b page_walk_closed unfolding pageAccessible_def by fastforce
  next
    assume "\<exists>n. open_page permissions (cc_pages c) player hasClub n p"
    then obtain n where "open_page permissions (cc_pages c) player hasClub n p" by blast
    from page_walk_open [OF ids this p, of "[]"] b show b by (simp add: pageAccessible_def)
  qed
  with b show ?thesis by simp
qed

lemma discount_small: "list_all (\<lambda>n. 0 \<le> DiscountedUnits n \<and> DiscountedUnits n < n \<and>
    n - DiscountedUnits n \<le> (n + 1) - DiscountedUnits (n + 1)) [1..99]"
  by code_simp

lemma discount_large:
  assumes "n \<ge> 100"
  shows "DiscountedUnits n = 2 * (n div 6) + 1 + (if n mod 6 = 5 then 1 else 0)"
proof -
  have "6 * (n div 6) + n mod 6 = n" by simp
  then have "n div 6 \<ge> 16" "2 * (n div 6) + 2 \<le> n" using assms pos_mod_bound [of 6 n] by linarith+
  then show ?thesis using assms
    by (simp add: DiscountedUnits_def Let_def DiscountBatchSize_def AdditionalDiscountThresholds_def)
qed

lemma discount_any:
  assumes "n \<ge> 1"
  shows "0 \<le> DiscountedUnits n \<and> DiscountedUnits n < n \<and> n - DiscountedUnits n \<le> (n + 1) - DiscountedUnits (n + 1)"
proof (cases "n < 100")
  case True
  then have "n \<in> set [1..99]" using assms by simp
  then show ?thesis using discount_small unfolding list_all_iff by blast
next
  case False
  define a b where "a = n div 6" and "b = n mod 6"
  then have ab: "n = 6 * a + b" "0 \<le> b" "b < 6" by simp_all
  have suc: "n + 1 = 6 * a + (b + 1)" "b + 1 < 6" if "b \<noteq> 5" using ab that by simp_all
  have less: "(n + 1) div 6 = a" "(n + 1) mod 6 = b + 1" if "b \<noteq> 5"
    using suc(2) [OF that] ab(2) unfolding suc(1) [OF that]
    by (simp_all only: div_mult_self4 mod_mult_self4 div_pos_pos_trivial mod_pos_pos_trivial)
  have "n + 1 = 6 * (a + 1)" if "b = 5" using ab(1) that by simp
  then have five: "(n + 1) div 6 = a + 1" "(n + 1) mod 6 = 0" if "b = 5" using that by simp_all
  have "DiscountedUnits n = 2 * a + 1 + (if b = 5 then 1 else 0)"
    "DiscountedUnits (n + 1) = (if b = 5 then 2 * (a + 1) + 1 else 2 * a + 1 + (if b = 4 then 1 else 0))"
    using False discount_large [of n] discount_large [of "n + 1"] five less by (simp_all add: a_def b_def)
  then show ?thesis using ab False by (auto split: if_splits)
qed

text \<open>Bulk discounts. For every amount of at least one, some unit is paid and no more than the amount, one more
  unit never costs less in total, and the 32 bit arithmetic of an accepted quantity is exact: an accepted amount
  of a plain offer lies between 1 and 100.\<close>

theorem discount_is_fair:
  assumes "n \<ge> 1"
  shows "0 \<le> DiscountedUnits n \<and> DiscountedUnits n < n \<and>
    n - DiscountedUnits n \<le> (n + 1) - DiscountedUnits (n + 1) \<and>
    (\<not> IsPet i \<and> \<not> IsRoomBundle i \<and> sint (of_Amount i) > 0 \<and> validateAmount i [] amount override = None \<longrightarrow>
       1 \<le> sint amount \<and> sint amount \<le> MaxPurchaseUnits)"
proof -
  have "sint amount \<le> 100" if "sint (of_Amount i) * sint amount \<le> 100" "sint (of_Amount i) > 0" "sint amount > 0"
    using that mult_right_mono [of 1 "sint (of_Amount i)" "sint amount"] by linarith
  then have "\<not> IsPet i \<and> \<not> IsRoomBundle i \<and> sint (of_Amount i) > 0 \<and> validateAmount i [] amount override = None \<longrightarrow>
       1 \<le> sint amount \<and> sint amount \<le> MaxPurchaseUnits"
    by (auto simp: validateAmount_def MaxPurchaseUnits_def Let_def split: if_splits)
  with discount_any [OF assms] show ?thesis by blast
qed

subsection \<open>A sample catalog\<close>

definition sample_page :: "ident \<Rightarrow> ident option \<Rightarrow> string option \<Rightarrow> page" where
  "sample_page key parent node = \<lparr>pg_ID = key, pg_ParentID = parent, pg_Name = ''page'', pg_Layout = ''default_3x3'',
     pg_IconColor = 1, pg_IconImage = 1, pg_RequiredNode = node, pg_OrderNum = 0, pg_Visible = True, pg_Enabled = True,
     pg_ClubOnly = False, pg_NewAdditions = False, pg_ExpiresAt = None, pg_ExcludedFromKickback = False, pg_Version = 1, pg_Deleted = False\<rparr>"

text \<open>A root, a page below it that needs a permission, and two pages that are each other's parent.\<close>

definition sample_pages :: "page list" where
  "sample_pages = [sample_page 1 None None, sample_page 2 (Some 1) (Some ''staff''), sample_page 3 (Some 4) None,
     sample_page 4 (Some 3) None]"

definition sample_offer :: offer where
  "sample_offer = \<lparr>of_ID = 10, of_PageID = 1, of_DefinitionID = 7, of_RewardKind = ''furniture'', of_PetTypeID = None,
     of_PetProductCode = '''', of_RoomBundleTemplateRoomID = None, of_GrantsEffectID = None,
     of_GrantsEffectDurationSeconds = 0, of_Name = ''chair'', of_CostCredits = 3, of_CostPoints = 0, of_PointsType = -1,
     of_Amount = 1, of_LimitedStack = 0, of_LimitedSells = 0, of_BundleDiscountEnabled = True, of_Giftable = True,
     of_ClubOnly = False, of_OrderNum = 0, of_Enabled = True, of_ExtraData = ''0'', of_ScheduledAt = None, of_Version = 1,
     of_Deleted = False\<rparr>"

theorem pageAccessible_reference_witness:
  "pageAccessible (Some (\<lambda>p node. Inr (p = 1))) (cache_replace sample_pages [] [] []) (sample_page 2 (Some 1) (Some ''staff'')) 1 False
     = Inr True \<and>
   \<not> (\<exists>n. open_page (Some (\<lambda>p node. Inr (p = 1))) (cc_pages (cache_replace sample_pages [] [] [])) 1 False n
       (sample_page 3 (Some 4) None))"
proof -
  let ?has = "Some (\<lambda>p node. Inr (p = 1)) :: permission_checker" and ?c = "cache_replace sample_pages [] [] []"
  have "pageAccessible ?has ?c (sample_page 2 (Some 1) (Some ''staff'')) 1 False = Inr True" by code_simp
  moreover have "cache_page 3 ?c = Some (sample_page 3 (Some 4) None)"
    by (simp add: cache_page_def cache_replace_def sample_pages_def sample_page_def)
  then have "pageAccessible ?has ?c (sample_page 3 (Some 4) None) 1 False =
      Inr (\<exists>n. open_page ?has (cc_pages ?c) 1 False n (sample_page 3 (Some 4) None))"
    by (intro pageAccessible_reference [OF refl]) (auto simp: sample_page_def)
  moreover have "pageAccessible ?has ?c (sample_page 3 (Some 4) None) 1 False = Inr False" by code_simp
  ultimately show ?thesis by simp
qed

theorem discount_is_fair_witness:
  "validateAmount sample_offer [] 12 False = None \<and> DiscountedUnits 12 = 3 \<and> 12 - DiscountedUnits 12 \<le> 13 - DiscountedUnits 13 \<and>
   sint (12 :: i32) \<le> MaxPurchaseUnits"
proof -
  have "validateAmount sample_offer [] 12 False = None" "DiscountedUnits 12 = 3" "\<not> IsPet sample_offer"
    "\<not> IsRoomBundle sample_offer" "sint (of_Amount sample_offer) > 0"
    by code_simp+
  then show ?thesis using discount_is_fair [of 12 sample_offer 12 False] by simp
qed

end
