(* ===== verification/Catalog_Purchase.thy ===== *)
theory Catalog_Purchase
  imports Catalog
begin

text \<open>
  Buying from the catalog (\<^verbatim>\<open>internal/realm/catalog\<close>: \<^verbatim>\<open>service/purchase.go\<close>, \<^verbatim>\<open>service/reward.go\<close>, \<^verbatim>\<open>repository\<close>,
  \<^verbatim>\<open>admin\<close>): the tables of the catalog around the store of \<^verbatim>\<open>Economy\<close>, the transaction of a purchase with its
  limited editions, gifts, vouchers, and the administration of offers, pages and vouchers. Pets, room bundles,
  groups, effects, teleport pairs, trophies and the player directory answer a request or
  refuse it; what they write in tables of their own is left out. What one goroutine reads before it opens its
  transaction (the offer to be edited, the voucher to be redeemed) is part of the state, so that others can step between.
\<close>

subsection \<open>The tables of the catalog\<close>

text \<open>A furniture row of \<^verbatim>\<open>Economy\<close> gets the columns that the catalog writes.\<close>

record gift_metadata =
  gm_SpriteID :: i32
  gm_BoxID :: i32
  gm_RibbonID :: i32
  gm_SenderPlayerID :: "ident option"
  gm_Message :: string

record item_columns =
  ic_ExtraData :: string
  ic_LimitedEditionNumber :: "i32 option"
  ic_Gift :: "gift_metadata option"

record limited_unit =
  lu_CatalogItemID :: ident
  lu_UnitNumber :: i32
  lu_OwnerPlayerID :: "ident option"
  lu_FurnitureItemID :: "ident option"

record voucher =
  vc_ID :: ident
  vc_Code :: string
  vc_CostCredits :: int
  vc_CostPoints :: int
  vc_PointsType :: int
  vc_CatalogItemID :: "ident option"
  vc_RedemptionCap :: "i32 option"
  vc_PerPlayerCap :: i32
  vc_Enabled :: bool
  vc_ExpiresAt :: "int option"

record purchase_row =
  pl_Player :: ident
  pl_CatalogItemID :: ident
  pl_Quantity :: i32
  pl_CostCredits :: int
  pl_CostPoints :: int
  pl_PointsType :: int
  pl_Items :: "ident list"

record catalog_store =
  cs_db :: db
  cs_columns :: "ident \<rightharpoonup> item_columns"
  cs_nextItem :: ident
  cs_units :: "limited_unit list"
  cs_offers :: "offer list"
  cs_nextOffer :: ident
  cs_pages :: "page list"
  cs_nextPage :: ident
  cs_definitions :: "(ident \<times> string) list"
  cs_products :: "product list"
  cs_vouchers :: "voucher list"
  cs_nextVoucher :: ident
  cs_redemptions :: "(ident \<times> ident) list"
  cs_log :: "purchase_row list"

type_synonym 'a cx = "catalog_store \<Rightarrow> catalog_error + ('a \<times> catalog_store)"

definition yield :: "'a \<Rightarrow> 'a cx" where "yield x s = Inr (x, s)"
definition stop :: "catalog_error \<Rightarrow> 'a cx" where "stop e s = Inl e"

definition seq :: "'a cx \<Rightarrow> ('a \<Rightarrow> 'b cx) \<Rightarrow> 'b cx" where
  "seq f g s = (case f s of Inl e \<Rightarrow> Inl e | Inr (x, s') \<Rightarrow> g x s')"

text \<open>A statement of the catalog counts with those of the economy, and may fail like them.\<close>

definition sql :: "(nat \<Rightarrow> bool) \<Rightarrow> (catalog_store \<Rightarrow> 'a \<times> catalog_store) \<Rightarrow> 'a cx" where
  "sql fault f s = (let d = cs_db s in
     if fault (db_calls d) then Inl ErrBackend else Inr (f (s\<lparr>cs_db := d\<lparr>db_calls := Suc (db_calls d)\<rparr>\<rparr>)))"

definition in_economy :: "'a tx \<Rightarrow> 'a cx" where
  "in_economy f s = (case f (cs_db s) of
     Inl e \<Rightarrow> Inl (CurrencyError e) | Inr (x, d) \<Rightarrow> Inr (x, s\<lparr>cs_db := d\<rparr>))"

definition atomically :: "'a cx \<Rightarrow> catalog_store \<Rightarrow> catalog_store \<times> (catalog_error + 'a)" where
  "atomically work s = (case work s of Inl e \<Rightarrow> (s, Inl e) | Inr (x, s') \<Rightarrow> (s', Inr x))"

definition ask :: "catalog_error + 'a \<Rightarrow> 'a cx" where
  "ask r = (case r of Inl e \<Rightarrow> stop e | Inr x \<Rightarrow> yield x)"

text \<open>The first free unit in the order of its number is claimed.\<close>

definition free_unit :: "ident \<Rightarrow> limited_unit \<Rightarrow> bool" where
  "free_unit i u \<longleftrightarrow> lu_CatalogItemID u = i \<and> lu_OwnerPlayerID u = None"

definition lowest_free :: "ident \<Rightarrow> limited_unit list \<Rightarrow> i32 option" where
  "lowest_free i us = (case filter (free_unit i) us of
     [] \<Rightarrow> None | u # fs \<Rightarrow> Some (word_of_int (Min (set (map (sint \<circ> lu_UnitNumber) (u # fs))))))"

definition claim :: "ident \<Rightarrow> i32 \<Rightarrow> ident \<Rightarrow> limited_unit \<Rightarrow> limited_unit" where
  "claim i n p u = (if free_unit i u \<and> lu_UnitNumber u = n then u\<lparr>lu_OwnerPlayerID := Some p\<rparr> else u)"

definition ReserveLimitedUnit :: "(nat \<Rightarrow> bool) \<Rightarrow> ident \<Rightarrow> ident \<Rightarrow> i32 option cx" where
  "ReserveLimitedUnit fault i p = sql fault (\<lambda>s. (case lowest_free i (cs_units s) of
     None \<Rightarrow> (None, s)
   | Some n \<Rightarrow> (Some n, s\<lparr>cs_units := map (claim i n p) (cs_units s)\<rparr>)))"

text \<open>The unit is completed and, in the same statement, the offer advanced; the result says whether the offer was.\<close>

definition completes :: "ident \<Rightarrow> i32 \<Rightarrow> ident \<Rightarrow> limited_unit \<Rightarrow> bool" where
  "completes i n p u \<longleftrightarrow> lu_CatalogItemID u = i \<and> lu_UnitNumber u = n \<and> lu_OwnerPlayerID u = Some p \<and>
     lu_FurnitureItemID u = None"

definition advances :: "ident \<Rightarrow> offer \<Rightarrow> bool" where
  "advances i x \<longleftrightarrow> of_ID x = i \<and> sint (of_LimitedStack x) > sint (of_LimitedSells x)"

definition CompleteLimitedUnit :: "(nat \<Rightarrow> bool) \<Rightarrow> ident \<Rightarrow> i32 \<Rightarrow> ident \<Rightarrow> ident \<Rightarrow> bool cx" where
  "CompleteLimitedUnit fault i n p item = sql fault (\<lambda>s.
     let hit = list_ex (completes i n p) (cs_units s) in
     (hit \<and> list_ex (advances i) (cs_offers s),
      s\<lparr>cs_units := map (\<lambda>u. if completes i n p u then u\<lparr>lu_FurnitureItemID := Some item\<rparr> else u) (cs_units s),
        cs_offers := map (\<lambda>x. if hit \<and> advances i x
          then x\<lparr>of_LimitedSells := of_LimitedSells x + 1,
                 of_Enabled := sint (of_LimitedSells x) + 1 < sint (of_LimitedStack x), of_Version := Suc (of_Version x)\<rparr>
          else x) (cs_offers s)\<rparr>))"

text \<open>New inventory rows with consecutive ids.\<close>

definition create_rows :: "ident \<Rightarrow> ident \<Rightarrow> nat \<Rightarrow> item_columns \<Rightarrow> catalog_store \<Rightarrow> furniture_row list \<times> catalog_store" where
  "create_rows defn owner n cols s =
     (let rows = map (\<lambda>k. \<lparr>fr_ID = cs_nextItem s + int k, fr_DefinitionID = defn, fr_Owner = owner, fr_RoomID = None,
                     fr_Reserved = False\<rparr>) [0..<n]
      in (rows, s\<lparr>cs_db := (cs_db s)\<lparr>db_items := fold (\<lambda>r m. m(fr_ID r \<mapsto> r)) rows (db_items (cs_db s))\<rparr>,
                  cs_columns := fold (\<lambda>r m. m(fr_ID r \<mapsto> cols)) rows (cs_columns s),
                  cs_nextItem := cs_nextItem s + int n\<rparr>))"

record grant_params =
  gp_DefinitionID :: ident
  gp_OwnerPlayerID :: ident
  gp_Quantity :: i32
  gp_ExtraData :: string
  gp_LimitedEditionNumber :: "i32 option"

definition find_definition :: "(nat \<Rightarrow> bool) \<Rightarrow> ident \<Rightarrow> bool cx" where
  "find_definition fault i = sql fault (\<lambda>s. (db_kinds (cs_db s) i \<noteq> None, s))"

definition furniture_Grant :: "(nat \<Rightarrow> bool) \<Rightarrow> grant_params \<Rightarrow> furniture_row list cx" where
  "furniture_Grant fault g =
     (if gp_DefinitionID g \<le> 0 then stop ErrInvalidDefinitionID
      else if gp_OwnerPlayerID g \<le> 0 then stop ErrInvalidPlayerID
      else if sint (gp_Quantity g) \<le> 0 then stop ErrInvalidQuantity
      else seq (find_definition fault (gp_DefinitionID g)) (\<lambda>found.
        if \<not> found then stop ErrDefinitionNotFound
        else sql fault (create_rows (gp_DefinitionID g) (gp_OwnerPlayerID g) (nat (sint (gp_Quantity g)))
          \<lparr>ic_ExtraData = gp_ExtraData g, ic_LimitedEditionNumber = gp_LimitedEditionNumber g, ic_Gift = None\<rparr>)))"

text \<open>The statement for wrapped items has no column for the number of a limited edition.\<close>

definition GrantGift :: "(nat \<Rightarrow> bool) \<Rightarrow> grant_params \<Rightarrow> gift_metadata \<Rightarrow> furniture_row list cx" where
  "GrantGift fault g gift =
     (if gp_DefinitionID g \<le> 0 then stop ErrInvalidDefinitionID
      else if gp_OwnerPlayerID g \<le> 0 then stop ErrInvalidPlayerID
      else if sint (gp_Quantity g) \<le> 0 \<or> sint (gm_SpriteID gift) \<le> 0 \<or> length (gm_Message gift) > 255 then stop ErrInvalidQuantity
      else seq (find_definition fault (gp_DefinitionID g)) (\<lambda>found.
        if \<not> found then stop ErrDefinitionNotFound
        else sql fault (create_rows (gp_DefinitionID g) (gp_OwnerPlayerID g) (nat (sint (gp_Quantity g)))
          \<lparr>ic_ExtraData = gp_ExtraData g, ic_LimitedEditionNumber = None, ic_Gift = Some gift\<rparr>)))"

definition LogPurchase :: "(nat \<Rightarrow> bool) \<Rightarrow> purchase_row \<Rightarrow> unit cx" where
  "LogPurchase fault row = seq (sql fault (\<lambda>s. ((), s\<lparr>cs_log := cs_log s @ [row\<lparr>pl_Items := []\<rparr>]\<rparr>)))
     (\<lambda>_. if pl_Items row = [] then yield ()
       else sql fault (\<lambda>s. ((), s\<lparr>cs_log := butlast (cs_log s) @ [row]\<rparr>)))"

text \<open>The primary key of the table refuses a second redemption of the same player; the caller maps every error.\<close>

definition InsertVoucherRedemption :: "(nat \<Rightarrow> bool) \<Rightarrow> ident \<Rightarrow> ident \<Rightarrow> unit cx" where
  "InsertVoucherRedemption fault v p s =
     (if fault (db_calls (cs_db s)) \<or> (v, p) \<in> set (cs_redemptions s) then Inl ErrVoucherAlreadyUsed
      else sql fault (\<lambda>s. ((), s\<lparr>cs_redemptions := cs_redemptions s @ [(v, p)]\<rparr>)) s)"

subsection \<open>A purchase\<close>

record purchase_params =
  pp_PlayerID :: ident
  pp_CatalogItemID :: ident
  pp_HasClub :: bool
  pp_Amount :: i32
  pp_ExtraData :: string
  pp_OperationKey :: string
  pp_RecipientPlayerID :: ident
  pp_Free :: bool
  pp_Gift :: "gift_metadata option"
  pp_OverrideCredits :: "int option"
  pp_OverridePoints :: "int option"
  pp_OverridePointsType :: "int option"

record purchase_result =
  px_Item :: "offer option"
  px_RecipientPlayerID :: ident
  px_GrantedItems :: "furniture_row list"
  px_GrantedEffectID :: "i32 option"
  px_GrantedPet :: "ident option"
  px_Products :: "product list"
  px_CreatedRoomID :: "ident option"
  px_LimitedUnitNumber :: "i32 option"
  px_NewCreditsBalance :: int
  px_NewPointsBalance :: int
  px_ChargedCredits :: int
  px_ChargedPoints :: int

text \<open>The other services; \<open>None\<close> when one is not configured.\<close>

record collaborators =
  co_commerce :: bool
  co_permissions :: permission_checker
  co_players :: "(ident \<Rightarrow> catalog_error + string option) option"
  co_directory :: "string \<Rightarrow> catalog_error + ident option"
  co_pets :: "(purchase_params \<Rightarrow> offer \<Rightarrow> catalog_error + ident) option"
  co_preview :: "ident \<Rightarrow> catalog_error + product list"
  co_clone :: "(ident \<Rightarrow> ident \<Rightarrow> string \<Rightarrow> catalog_error + ident) option"
  co_effects :: "(ident \<Rightarrow> i32 \<Rightarrow> i32 \<Rightarrow> catalog_error option) option"
  co_trophies :: "(string \<Rightarrow> string \<Rightarrow> string) option"
  co_validateGroup :: "ident \<Rightarrow> ident \<Rightarrow> bool \<Rightarrow> bool"
  co_commitGroup :: "(ident \<Rightarrow> ident \<Rightarrow> bool \<Rightarrow> ident list \<Rightarrow> bool) option"
  co_pairTeleports :: "(ident \<Rightarrow> ident \<Rightarrow> ident \<Rightarrow> bool) option"
  co_giftGranter :: bool
  co_types :: catalog
  co_infinite :: "checker option"
  co_parseID :: "string \<Rightarrow> ident option"
  co_operationKey :: "string option"
  co_findTemplate :: "ident \<Rightarrow> catalog_error + bool"
  co_nodeOK :: "string \<Rightarrow> bool"
  co_upper :: "string \<Rightarrow> string"

definition zero_result :: purchase_result where
  "zero_result = \<lparr>px_Item = None, px_RecipientPlayerID = 0, px_GrantedItems = [], px_GrantedEffectID = None,
     px_GrantedPet = None, px_Products = [], px_CreatedRoomID = None, px_LimitedUnitNumber = None, px_NewCreditsBalance = 0,
     px_NewPointsBalance = 0, px_ChargedCredits = 0, px_ChargedPoints = 0\<rparr>"

definition purchaseOffer :: "collaborators \<Rightarrow> cache_snapshot \<Rightarrow> purchase_params \<Rightarrow> catalog_error + offer" where
  "purchaseOffer co c pp =
     (if pp_PlayerID pp \<le> 0 then Inl ErrInvalidPlayerID
      else if pp_CatalogItemID pp \<le> 0 then Inl ErrInvalidOfferID
      else (case cache_item (pp_CatalogItemID pp) c of
          None \<Rightarrow> Inl ErrOfferNotFound
        | Some i \<Rightarrow>
            if \<not> of_Enabled i then Inl ErrOfferDisabled
            else (case cache_page (of_PageID i) c of
                None \<Rightarrow> Inl ErrPageNotFound
              | Some p \<Rightarrow> (case pageAccessible (co_permissions co) c p (pp_PlayerID pp) (pp_HasClub pp) of
                    Inl e \<Rightarrow> Inl e
                  | Inr accessible \<Rightarrow> if \<not> accessible \<or> (of_ClubOnly i \<and> \<not> pp_HasClub pp) then Inl ErrOfferNotVisible
                      else Inr i))))"

text \<open>The group of a group product: its id, whether it is a forum, and whether the offer is a group product at all.\<close>

definition groupSelection :: "collaborators \<Rightarrow> cache_snapshot \<Rightarrow> purchase_params \<Rightarrow> offer \<Rightarrow> catalog_error + (ident \<times> bool \<times> bool)" where
  "groupSelection co c pp i = (case cache_definition (of_DefinitionID i) c of
     None \<Rightarrow> Inr (0, False, False)
   | Some kind \<Rightarrow>
       if kind \<noteq> ''group_furniture'' \<and> kind \<noteq> ''group_forum'' then Inr (0, False, False)
       else if co_commitGroup co = None then Inl ErrCommerceUnavailable
       else (case co_parseID co (pp_ExtraData pp) of
           None \<Rightarrow> Inl ErrGroupSelection
         | Some g \<Rightarrow> if g \<le> 0 then Inl ErrGroupSelection else Inr (g, kind = ''group_forum'', True)))"

definition charge ::
  "(nat \<Rightarrow> bool) \<Rightarrow> collaborators \<Rightarrow> ident \<Rightarrow> offer \<Rightarrow> purchase_params \<Rightarrow> (int \<times> int \<times> int) cx" where
  "charge fault co player i pp =
     (let (t0, c0) = (if IsCredits i then (CreditsType, of_CostCredits i) else (of_PointsType i, of_CostPoints i));
          (t1, c1) = (case pp_OverrideCredits pp of None \<Rightarrow> (t0, c0) | Some c \<Rightarrow> (CreditsType, c));
          (t, c) = (case pp_OverridePoints pp of None \<Rightarrow> (t1, c1)
             | Some c \<Rightarrow> (case pp_OverridePointsType pp of None \<Rightarrow> t1 | Some t \<Rightarrow> t, c))
      in if c = 0 \<or> pp_Free pp then yield (0, 0, 0)
         else (let payable = (if sint (pp_Amount pp) > 1 \<and> pp_OverrideCredits pp = None \<and> pp_OverridePoints pp = None
                     then sint (pp_Amount pp) - DiscountedUnits (sint (pp_Amount pp)) else sint (pp_Amount pp));
                   cost = c * payable
               in seq (in_economy (Grant fault (co_types co) (co_infinite co) player t (- cost) ''catalog_purchase'' ActorPlayer))
                    (\<lambda>balance. if t = CreditsType then yield (balance, cost, 0) else yield (balance, 0, cost))))"

definition logPurchase ::
  "(nat \<Rightarrow> bool) \<Rightarrow> collaborators \<Rightarrow> purchase_params \<Rightarrow> offer \<Rightarrow> purchase_result \<Rightarrow> int \<Rightarrow> int \<Rightarrow> unit cx" where
  "logPurchase fault co pp i r credits points =
     (if pp_Free pp \<or> \<not> co_commerce co then yield ()
      else LogPurchase fault \<lparr>pl_Player = pp_PlayerID pp, pl_CatalogItemID = of_ID i, pl_Quantity = pp_Amount pp,
        pl_CostCredits = credits, pl_CostPoints = points, pl_PointsType = of_PointsType i,
        pl_Items = map fr_ID (px_GrantedItems r)\<rparr>)"

definition purchaseExtraData ::
  "collaborators \<Rightarrow> cache_snapshot \<Rightarrow> purchase_params \<Rightarrow> offer \<Rightarrow> ident \<Rightarrow> catalog_error + string" where
  "purchaseExtraData co c pp i defn =
     (if cache_definition defn c \<noteq> Some ''trophy'' then Inr (of_ExtraData i)
      else (case (co_players co, co_trophies co) of
          (Some lookup, Some fmt) \<Rightarrow> (case lookup (pp_PlayerID pp) of
              Inl e \<Rightarrow> Inl e
            | Inr None \<Rightarrow> Inl ErrInvalidPlayerID
            | Inr (Some name) \<Rightarrow> Inr (fmt name (pp_ExtraData pp)))
        | _ \<Rightarrow> Inl ErrCommerceUnavailable))"

fun pair_all :: "(ident \<Rightarrow> ident \<Rightarrow> ident \<Rightarrow> bool) \<Rightarrow> ident \<Rightarrow> furniture_row list \<Rightarrow> bool" where
  "pair_all pair player (a # b # rows) \<longleftrightarrow> pair player (fr_ID a) (fr_ID b) \<and> pair_all pair player rows"
| "pair_all pair player _ \<longleftrightarrow> True"

definition pairGrantedTeleports ::
  "collaborators \<Rightarrow> cache_snapshot \<Rightarrow> ident \<Rightarrow> offer \<Rightarrow> furniture_row list \<Rightarrow> catalog_error option" where
  "pairGrantedTeleports co c player i rows =
     (case cache_definition (of_DefinitionID i) c of
        None \<Rightarrow> None
      | Some kind \<Rightarrow>
          if kind \<noteq> ''teleport'' \<and> kind \<noteq> ''teleport_tile'' then None
          else (case co_pairTeleports co of
              None \<Rightarrow> Some ErrTeleportPairing
            | Some pair \<Rightarrow> if rows = [] \<or> odd (length rows) then Some ErrTeleportPairing
                else if pair_all pair player rows then None else Some ErrTeleportPairing))"

definition finishRewards ::
  "collaborators \<Rightarrow> cache_snapshot \<Rightarrow> ident \<Rightarrow> offer \<Rightarrow> purchase_result \<Rightarrow> catalog_error + purchase_result" where
  "finishRewards co c player i r = (case pairGrantedTeleports co c player i (px_GrantedItems r) of
     Some e \<Rightarrow> Inl e
   | None \<Rightarrow> (case of_GrantsEffectID i of
         None \<Rightarrow> Inr r
       | Some effect \<Rightarrow> (case co_effects co of
             None \<Rightarrow> Inl ErrCommerceUnavailable
           | Some enable \<Rightarrow> (case enable player effect (of_GrantsEffectDurationSeconds i) of
                 Some e \<Rightarrow> Inl e | None \<Rightarrow> Inr (r\<lparr>px_GrantedEffectID := Some effect\<rparr>)))))"

text \<open>The products of an offer are granted one after the other.\<close>

fun grant_products ::
  "(nat \<Rightarrow> bool) \<Rightarrow> collaborators \<Rightarrow> cache_snapshot \<Rightarrow> purchase_params \<Rightarrow> offer \<Rightarrow> ident \<Rightarrow> product list \<Rightarrow>
     purchase_result \<Rightarrow> purchase_result cx" where
  "grant_products fault co c pp i recipient [] r = yield r"
| "grant_products fault co c pp i recipient (p # ps) r =
     seq (ask (purchaseExtraData co c pp i (pd_DefinitionID p))) (\<lambda>extra.
       let g = \<lparr>gp_DefinitionID = pd_DefinitionID p, gp_OwnerPlayerID = recipient, gp_Quantity = pd_Quantity p * pp_Amount pp,
             gp_ExtraData = extra, gp_LimitedEditionNumber = px_LimitedUnitNumber r\<rparr>
       in seq (case pp_Gift pp of
             None \<Rightarrow> furniture_Grant fault g
           | Some gift \<Rightarrow> if co_giftGranter co then GrantGift fault g gift else stop ErrOfferNotGiftable)
           (\<lambda>rows. grant_products fault co c pp i recipient ps (r\<lparr>px_GrantedItems := px_GrantedItems r @ rows\<rparr>)))"

definition reserve_unit :: "(nat \<Rightarrow> bool) \<Rightarrow> ident \<Rightarrow> offer \<Rightarrow> purchase_result \<Rightarrow> purchase_result cx" where
  "reserve_unit fault player i r =
     (if \<not> IsLimited i then yield r
      else seq (ReserveLimitedUnit fault (of_ID i) player) (\<lambda>n. case n of
          None \<Rightarrow> stop ErrLimitedSoldOut | Some n \<Rightarrow> yield (r\<lparr>px_LimitedUnitNumber := Some n\<rparr>)))"

definition complete_unit :: "(nat \<Rightarrow> bool) \<Rightarrow> ident \<Rightarrow> offer \<Rightarrow> purchase_result \<Rightarrow> unit cx" where
  "complete_unit fault player i r = (case px_LimitedUnitNumber r of
     None \<Rightarrow> yield ()
   | Some n \<Rightarrow> (case px_GrantedItems r of
         [] \<Rightarrow> stop ErrLimitedCompletion
       | item # _ \<Rightarrow> seq (CompleteLimitedUnit fault (of_ID i) n player (fr_ID item))
           (\<lambda>completed. if completed then yield () else stop ErrLimitedCompletion)))"

definition clone_bundle :: "collaborators \<Rightarrow> purchase_params \<Rightarrow> offer \<Rightarrow> purchase_result \<Rightarrow> catalog_error + purchase_result" where
  "clone_bundle co pp i r = (case of_RoomBundleTemplateRoomID i of
     None \<Rightarrow> Inr r
   | Some template \<Rightarrow> (case (co_clone co, co_players co) of
         (Some clone, Some lookup) \<Rightarrow>
           if pp_Gift pp \<noteq> None \<or> pp_RecipientPlayerID pp \<noteq> 0 then Inl ErrOfferNotGiftable
           else (case lookup (pp_PlayerID pp) of
               Inl e \<Rightarrow> Inl e
             | Inr None \<Rightarrow> Inl ErrInvalidPlayerID
             | Inr (Some name) \<Rightarrow> (case clone template (pp_PlayerID pp) name of
                   Inl e \<Rightarrow> Inl e | Inr room \<Rightarrow> Inr (r\<lparr>px_CreatedRoomID := Some room\<rparr>)))
       | _ \<Rightarrow> Inl ErrOfferNotGiftable))"

definition granted_products :: "offer \<Rightarrow> product list \<Rightarrow> product list" where
  "granted_products i products = (if products = [] \<and> of_DefinitionID i > 0
     then [\<lparr>pd_CatalogItemID = 0, pd_DefinitionID = of_DefinitionID i, pd_Quantity = of_Amount i\<rparr>] else products)"

definition deliver ::
  "(nat \<Rightarrow> bool) \<Rightarrow> collaborators \<Rightarrow> cache_snapshot \<Rightarrow> purchase_params \<Rightarrow> offer \<Rightarrow> product list \<Rightarrow> ident \<times> bool \<times> bool \<Rightarrow>
     purchase_result \<Rightarrow> purchase_result cx" where
  "deliver fault co c pp i products selected r =
     (let recipient = (if pp_RecipientPlayerID pp = 0 then pp_PlayerID pp else pp_RecipientPlayerID pp) in
      seq (grant_products fault co c pp i recipient (granted_products i products) r) (\<lambda>r1.
        if snd (snd selected) \<and> \<not> the (co_commitGroup co) (pp_PlayerID pp) (fst selected) (fst (snd selected)) (map fr_ID (px_GrantedItems r1))
        then stop ErrGroupSelection
        else seq (ask (finishRewards co c (pp_PlayerID pp) i r1)) (\<lambda>r2.
          seq (complete_unit fault (pp_PlayerID pp) i r2) (\<lambda>_. yield r2))))"

text \<open>A pet offer gets here without the service of pets only by a voucher, which skips the checks of \<open>prepare_purchase\<close>. The code
  then calls a method of a nil interface and panics, so that nothing is committed; here it is an error that rolls back.\<close>

definition commitPurchase ::
  "(nat \<Rightarrow> bool) \<Rightarrow> collaborators \<Rightarrow> cache_snapshot \<Rightarrow> purchase_params \<Rightarrow> offer \<Rightarrow> product list \<Rightarrow> purchase_result \<Rightarrow>
     purchase_result cx" where
  "commitPurchase fault co c pp i products r =
     seq (ask (groupSelection co c pp i)) (\<lambda>(g, forum, product).
       if product \<and> \<not> co_validateGroup co (pp_PlayerID pp) g forum then stop ErrGroupSelection
       else seq (reserve_unit fault (pp_PlayerID pp) i r) (\<lambda>r1.
         seq (ask (clone_bundle co pp i r1)) (\<lambda>r2.
           seq (charge fault co (pp_PlayerID pp) i pp) (\<lambda>(balance, credits, points).
             let r3 = r2\<lparr>px_ChargedCredits := credits, px_ChargedPoints := points\<rparr>;
                 r4 = (if IsCredits i then r3\<lparr>px_NewCreditsBalance := balance\<rparr> else r3\<lparr>px_NewPointsBalance := balance\<rparr>)
             in if IsRoomBundle i \<or> IsService i then seq (logPurchase fault co pp i r4 credits points) (\<lambda>_. yield r4)
                else if IsPet i then (case of_PetTypeID i of
                    None \<Rightarrow> stop ErrOfferDisabled
                  | Some _ \<Rightarrow> seq (ask (case co_pets co of None \<Rightarrow> Inl ErrCommerceUnavailable | Some grant \<Rightarrow> grant pp i))
                      (\<lambda>pet. seq (logPurchase fault co pp i (r4\<lparr>px_GrantedPet := Some pet\<rparr>) credits points)
                        (\<lambda>_. yield (r4\<lparr>px_GrantedPet := Some pet\<rparr>))))
                else seq (deliver fault co c pp i products (g, forum, product) r4) (\<lambda>r5.
                  seq (logPurchase fault co pp i r5 credits points) (\<lambda>_. yield r5))))))"

text \<open>What a purchase checks before its transaction.\<close>

definition prepare_purchase ::
  "collaborators \<Rightarrow> cache_snapshot \<Rightarrow> purchase_params \<Rightarrow> catalog_error + (purchase_params \<times> offer \<times> product list)" where
  "prepare_purchase co c pp0 =
     (let pp1 = (if pp_Amount pp0 = 0 then pp0\<lparr>pp_Amount := 1\<rparr> else pp0) in
      case purchaseOffer co c pp1 of
        Inl e \<Rightarrow> Inl e
      | Inr i \<Rightarrow>
        if IsPet i \<and> co_pets co = None then Inl ErrCommerceUnavailable
        else if IsPet i \<and> (pp_Gift pp1 \<noteq> None \<or> pp_RecipientPlayerID pp1 \<noteq> 0) then Inl ErrOfferNotGiftable
        else if IsPet i \<and> pp_OperationKey pp1 = [] \<and> co_operationKey co = None then Inl ErrBackend
        else (let pp = (if IsPet i \<and> pp_OperationKey pp1 = [] then pp1\<lparr>pp_OperationKey := the (co_operationKey co)\<rparr> else pp1) in
          case groupSelection co c pp i of
            Inl e \<Rightarrow> Inl e
          | Inr (g, forum, product) \<Rightarrow>
            if product \<and> (pp_Gift pp \<noteq> None \<or> pp_RecipientPlayerID pp \<noteq> 0 \<or> pp_Amount pp \<noteq> 1) then Inl ErrOfferNotGiftable
            else (case (case of_RoomBundleTemplateRoomID i of
                  None \<Rightarrow> Inr (cache_products (of_ID i) c)
                | Some template \<Rightarrow>
                    if co_clone co = None then Inl ErrCommerceUnavailable
                    else (case co_preview co template of
                        Inl e \<Rightarrow> Inl e | Inr [] \<Rightarrow> Inl ErrOfferDisabled | Inr ps \<Rightarrow> Inr ps)) of
                Inl e \<Rightarrow> Inl e
              | Inr products \<Rightarrow>
                if of_GrantsEffectID i \<noteq> None \<and> (pp_Gift pp \<noteq> None \<or> pp_RecipientPlayerID pp \<noteq> 0) then Inl ErrOfferNotGiftable
                else (case validateAmount i products (pp_Amount pp) (pp_OverrideCredits pp \<noteq> None \<or> pp_OverridePoints pp \<noteq> None) of
                    Some e \<Rightarrow> Inl e
                  | None \<Rightarrow> Inr (pp, i, products)))))"

text \<open>\<^verbatim>\<open>PurchaseWithin\<close> runs inside a transaction of its caller; \<^verbatim>\<open>Purchase\<close> opens one of its own, and
  \<^verbatim>\<open>PurchaseAndMutate\<close> one that it shares with the mutation. The result says whether the cache is refreshed afterwards.\<close>

definition PurchaseWithin ::
  "(nat \<Rightarrow> bool) \<Rightarrow> collaborators \<Rightarrow> cache_snapshot \<Rightarrow> purchase_params \<Rightarrow> purchase_result cx" where
  "PurchaseWithin fault co c pp0 = seq (ask (prepare_purchase co c pp0)) (\<lambda>(pp, i, products).
     commitPurchase fault co c pp i products (zero_result\<lparr>px_Item := Some i, px_Products := products\<rparr>))"

definition Purchase ::
  "(nat \<Rightarrow> bool) \<Rightarrow> collaborators \<Rightarrow> cache_snapshot \<Rightarrow> purchase_params \<Rightarrow> catalog_store \<Rightarrow>
     catalog_store \<times> (catalog_error + purchase_result)" where
  "Purchase fault co c pp = atomically (PurchaseWithin fault co c pp)"

definition PurchaseAndMutate ::
  "(nat \<Rightarrow> bool) \<Rightarrow> collaborators \<Rightarrow> cache_snapshot \<Rightarrow> purchase_params \<Rightarrow> (purchase_result \<Rightarrow> unit cx) \<Rightarrow> catalog_store \<Rightarrow>
     catalog_store \<times> (catalog_error + purchase_result)" where
  "PurchaseAndMutate fault co c pp mutate = atomically (seq (PurchaseWithin fault co c pp) (\<lambda>r. seq (mutate r) (\<lambda>_. yield r)))"

subsection \<open>Gifts and vouchers\<close>

record gift_params =
  gf_BuyerID :: ident
  gf_HasClub :: bool
  gf_CatalogItemID :: ident
  gf_ExtraData :: string
  gf_ReceiverName :: string
  gf_Message :: string
  gf_SpriteID :: i32
  gf_BoxID :: i32
  gf_RibbonID :: i32
  gf_ShowMyFace :: bool

definition prepare_gift :: "collaborators \<Rightarrow> cache_snapshot \<Rightarrow> gift_params \<Rightarrow> catalog_error + purchase_params" where
  "prepare_gift co c g =
     (if co_players co = None \<or> length (gf_Message g) > 255 then Inl ErrGiftReceiverNotFound
      else (case co_directory co (TrimSpace (gf_ReceiverName g)) of
          Inl e \<Rightarrow> Inl e
        | Inr None \<Rightarrow> Inl ErrGiftReceiverNotFound
        | Inr (Some receiver) \<Rightarrow> (case cache_item (gf_CatalogItemID g) c of
              None \<Rightarrow> Inl ErrOfferNotGiftable
            | Some i \<Rightarrow> if \<not> of_Giftable i \<or> IsRoomBundle i then Inl ErrOfferNotGiftable
                else Inr \<lparr>pp_PlayerID = gf_BuyerID g, pp_CatalogItemID = gf_CatalogItemID g, pp_HasClub = gf_HasClub g,
                  pp_Amount = 1, pp_ExtraData = gf_ExtraData g, pp_OperationKey = [], pp_RecipientPlayerID = receiver,
                  pp_Free = False, pp_Gift = Some \<lparr>gm_SpriteID = gf_SpriteID g, gm_BoxID = gf_BoxID g,
                    gm_RibbonID = gf_RibbonID g, gm_SenderPlayerID = (if gf_ShowMyFace g then Some (gf_BuyerID g) else None),
                    gm_Message = gf_Message g\<rparr>,
                  pp_OverrideCredits = None, pp_OverridePoints = None, pp_OverridePointsType = None\<rparr>)))"

definition PurchaseGift ::
  "(nat \<Rightarrow> bool) \<Rightarrow> collaborators \<Rightarrow> cache_snapshot \<Rightarrow> gift_params \<Rightarrow> catalog_store \<Rightarrow>
     catalog_store \<times> (catalog_error + purchase_result)" where
  "PurchaseGift fault co c g s = (case prepare_gift co c g of
     Inl e \<Rightarrow> (s, Inl e)
   | Inr pp \<Rightarrow> (case Purchase fault co c pp s of
         (s', Inl e) \<Rightarrow> (s', Inl e)
       | (s', Inr r) \<Rightarrow> (s', Inr (r\<lparr>px_RecipientPlayerID := pp_RecipientPlayerID pp\<rparr>))))"

definition FindVoucherByCode :: "(nat \<Rightarrow> bool) \<Rightarrow> collaborators \<Rightarrow> string \<Rightarrow> voucher option cx" where
  "FindVoucherByCode fault co code = sql fault (\<lambda>s.
     (case filter (\<lambda>v. co_upper co (vc_Code v) = co_upper co (TrimSpace code)) (cs_vouchers s) of [] \<Rightarrow> None | v # _ \<Rightarrow> Some v, s))"

definition CountVoucherRedemptions :: "(nat \<Rightarrow> bool) \<Rightarrow> ident \<Rightarrow> i32 cx" where
  "CountVoucherRedemptions fault v = sql fault (\<lambda>s. (word_of_nat (length (filter (\<lambda>(w, p). w = v) (cs_redemptions s))), s))"

text \<open>What a redemption checks before its transaction.\<close>

definition find_voucher :: "(nat \<Rightarrow> bool) \<Rightarrow> collaborators \<Rightarrow> int \<Rightarrow> string \<Rightarrow> voucher cx" where
  "find_voucher fault co now code =
     (if \<not> co_commerce co then stop ErrCommerceUnavailable
      else seq (FindVoucherByCode fault co (TrimSpace code)) (\<lambda>found. case found of
          None \<Rightarrow> stop ErrVoucherInvalid
        | Some v \<Rightarrow>
            if \<not> vc_Enabled v \<or> (case vc_ExpiresAt v of None \<Rightarrow> False | Some t \<Rightarrow> \<not> now < t) then stop ErrVoucherInvalid
            else seq (CountVoucherRedemptions fault (vc_ID v)) (\<lambda>count.
              case vc_RedemptionCap v of
                None \<Rightarrow> yield v
              | Some cap \<Rightarrow> if sint count \<ge> sint cap then stop ErrVoucherExhausted else yield v)))"

definition voucher_grant :: "(nat \<Rightarrow> bool) \<Rightarrow> collaborators \<Rightarrow> ident \<Rightarrow> int \<Rightarrow> int \<Rightarrow> unit cx" where
  "voucher_grant fault co player t amount =
     (if amount = 0 then yield ()
      else seq (in_economy (Grant fault (co_types co) (co_infinite co) player t amount ''catalog_voucher'' ActorSystem)) (\<lambda>_. yield ()))"

definition redeem_voucher ::
  "(nat \<Rightarrow> bool) \<Rightarrow> collaborators \<Rightarrow> cache_snapshot \<Rightarrow> ident \<Rightarrow> voucher \<Rightarrow> furniture_row list cx" where
  "redeem_voucher fault co c player v =
     seq (InsertVoucherRedemption fault (vc_ID v) player) (\<lambda>_.
     seq (voucher_grant fault co player CreditsType (vc_CostCredits v)) (\<lambda>_.
     seq (voucher_grant fault co player (vc_PointsType v) (vc_CostPoints v)) (\<lambda>_.
     (case vc_CatalogItemID v of
        None \<Rightarrow> yield []
      | Some key \<Rightarrow> (case cache_item key c of
            None \<Rightarrow> stop ErrOfferNotFound
          | Some i \<Rightarrow> if \<not> of_Enabled i then stop ErrOfferNotFound
              else seq (commitPurchase fault co c
                  \<lparr>pp_PlayerID = player, pp_CatalogItemID = of_ID i, pp_HasClub = True, pp_Amount = 1, pp_ExtraData = [],
                   pp_OperationKey = [], pp_RecipientPlayerID = 0, pp_Free = True, pp_Gift = None,
                   pp_OverrideCredits = None, pp_OverridePoints = None, pp_OverridePointsType = None\<rparr>
                  i (cache_products (of_ID i) c) (zero_result\<lparr>px_Item := Some i\<rparr>))
                (\<lambda>r. yield (px_GrantedItems r)))))))"

definition RedeemVoucher ::
  "(nat \<Rightarrow> bool) \<Rightarrow> (nat \<Rightarrow> bool) \<Rightarrow> collaborators \<Rightarrow> cache_snapshot \<Rightarrow> int \<Rightarrow> ident \<Rightarrow> string \<Rightarrow> catalog_store \<Rightarrow>
     catalog_store \<times> (catalog_error + furniture_row list)" where
  "RedeemVoucher fault1 fault2 co c now player code s = (case find_voucher fault1 co now code s of
     Inl e \<Rightarrow> (s, Inl e) | Inr (v, s1) \<Rightarrow> atomically (redeem_voucher fault2 co c player v) s1)"

subsection \<open>Administration of offers\<close>

definition ListPages :: "(nat \<Rightarrow> bool) \<Rightarrow> page list cx" where
  "ListPages fault = sql fault (\<lambda>s. (sort_key (\<lambda>p. (pg_ParentID p, sint (pg_OrderNum p), pg_ID p)) (filter (\<lambda>p. \<not> pg_Deleted p) (cs_pages s)), s))"

definition ListItems :: "(nat \<Rightarrow> bool) \<Rightarrow> offer list cx" where
  "ListItems fault = sql fault (\<lambda>s. (sort_key (\<lambda>i. (of_PageID i, sint (of_OrderNum i), of_ID i)) (filter (\<lambda>i. \<not> of_Deleted i) (cs_offers s)), s))"

definition FindPageByID :: "(nat \<Rightarrow> bool) \<Rightarrow> ident \<Rightarrow> page option cx" where
  "FindPageByID fault key = sql fault (\<lambda>s. (List.find (\<lambda>p. pg_ID p = key \<and> \<not> pg_Deleted p) (cs_pages s), s))"

definition catalog_FindItemByID :: "(nat \<Rightarrow> bool) \<Rightarrow> ident \<Rightarrow> offer option cx" where
  "catalog_FindItemByID fault key = sql fault (\<lambda>s. (List.find (\<lambda>i. of_ID i = key \<and> \<not> of_Deleted i) (cs_offers s), s))"

text \<open>The cache is replaced only when every list was read.\<close>

definition Refresh :: "(nat \<Rightarrow> bool) \<Rightarrow> collaborators \<Rightarrow> cache_snapshot cx" where
  "Refresh fault co =
     seq (ListPages fault) (\<lambda>pages. seq (ListItems fault) (\<lambda>items.
     seq (sql fault (\<lambda>s. (cs_definitions s, s))) (\<lambda>definitions.
     seq (if co_commerce co then sql fault (\<lambda>s. (cs_products s, s)) else yield []) (\<lambda>products.
       yield (cache_replace pages items definitions products)))))"

definition itemValues :: "offer \<Rightarrow> offer" where
  "itemValues i = i\<lparr>of_DefinitionID := (if IsRoomBundle i \<or> IsPet i then 0 else of_DefinitionID i),
     of_RewardKind := (if of_RewardKind i = [] then RewardFurniture else of_RewardKind i)\<rparr>"

text \<open>The row that an insert returns; the database gives the id, the first version and the other columns their values.\<close>

definition catalog_CreateItem :: "(nat \<Rightarrow> bool) \<Rightarrow> offer \<Rightarrow> offer cx" where
  "catalog_CreateItem fault i = sql fault (\<lambda>s.
     let row = (itemValues i)\<lparr>of_ID := cs_nextOffer s, of_Version := 1, of_Deleted := False\<rparr>
     in (row, s\<lparr>cs_offers := cs_offers s @ [row], cs_nextOffer := cs_nextOffer s + 1\<rparr>))"

definition same_version :: "offer \<Rightarrow> offer \<Rightarrow> bool" where
  "same_version i x \<longleftrightarrow> of_ID x = of_ID i \<and> of_Version x = of_Version i \<and> \<not> of_Deleted x"

definition catalog_UpdateItem :: "(nat \<Rightarrow> bool) \<Rightarrow> offer \<Rightarrow> offer option cx" where
  "catalog_UpdateItem fault i = sql fault (\<lambda>s.
     let row = (itemValues i)\<lparr>of_Version := Suc (of_Version i), of_Deleted := False\<rparr>
     in if list_ex (same_version i) (cs_offers s)
        then (Some row, s\<lparr>cs_offers := map (\<lambda>x. if same_version i x then row else x) (cs_offers s)\<rparr>)
        else (None, s))"

definition SoftDeleteItem :: "(nat \<Rightarrow> bool) \<Rightarrow> ident \<Rightarrow> nat \<Rightarrow> bool cx" where
  "SoftDeleteItem fault key version = sql fault (\<lambda>s.
     let hit = (\<lambda>x. of_ID x = key \<and> of_Version x = version \<and> \<not> of_Deleted x)
     in (list_ex hit (cs_offers s),
         s\<lparr>cs_offers := map (\<lambda>x. if hit x then x\<lparr>of_Deleted := True, of_Version := Suc (of_Version x)\<rparr> else x) (cs_offers s)\<rparr>))"

definition new_unit :: "ident \<Rightarrow> i32 \<Rightarrow> limited_unit" where
  "new_unit key n = \<lparr>lu_CatalogItemID = key, lu_UnitNumber = n, lu_OwnerPlayerID = None, lu_FurnitureItemID = None\<rparr>"

definition series :: "i32 \<Rightarrow> i32 list" where
  "series quantity = map word_of_int [1..sint quantity]"

text \<open>A numbered series; the unique key over offer and number refuses a number that exists already.\<close>

definition CreateLimitedUnits :: "(nat \<Rightarrow> bool) \<Rightarrow> ident \<Rightarrow> i32 \<Rightarrow> unit cx" where
  "CreateLimitedUnits fault key quantity s =
     (if list_ex (\<lambda>u. lu_CatalogItemID u = key \<and> lu_UnitNumber u \<in> set (series quantity)) (cs_units s) then Inl ErrBackend
      else sql fault (\<lambda>s. ((), s\<lparr>cs_units := cs_units s @ map (new_unit key) (series quantity)\<rparr>)) s)"

text \<open>One statement: both parts see the table as it was before.\<close>

definition SyncLimitedUnits :: "(nat \<Rightarrow> bool) \<Rightarrow> ident \<Rightarrow> i32 \<Rightarrow> unit cx" where
  "SyncLimitedUnits fault key quantity = sql fault (\<lambda>s.
     ((), s\<lparr>cs_units := filter (\<lambda>u. \<not> (free_unit key u \<and> sint (lu_UnitNumber u) > sint quantity)) (cs_units s) @
        map (new_unit key) (filter (\<lambda>n. \<not> list_ex (\<lambda>u. lu_CatalogItemID u = key \<and> lu_UnitNumber u = n) (cs_units s)) (series quantity))\<rparr>))"

definition validateItem :: "(nat \<Rightarrow> bool) \<Rightarrow> collaborators \<Rightarrow> offer \<Rightarrow> unit cx" where
  "validateItem fault co i0 =
     (let i = (if of_RewardKind i0 = [] then i0\<lparr>of_RewardKind := RewardFurniture\<rparr> else i0) in
      if of_PageID i \<le> 0 \<or> of_Name i = [] \<or> sint (of_LimitedStack i) < 0 \<or> sint (of_GrantsEffectDurationSeconds i) < 0 \<or>
         (case of_GrantsEffectID i of None \<Rightarrow> False | Some e \<Rightarrow> sint e \<le> 0) \<or> of_CostCredits i < 0 \<or> of_CostPoints i < 0 \<or>
         of_CostCredits i > 2147483647 \<or> of_CostPoints i > 2147483647 then stop ErrInvalidItem
      else if of_PointsType i = CreditsType \<and> of_CostPoints i \<noteq> 0 then stop ErrInvalidItem
      else if of_PointsType i \<noteq> CreditsType \<and> of_CostCredits i \<noteq> 0 then stop ErrInvalidItem
      else seq (FindPageByID fault (of_PageID i)) (\<lambda>found.
        if found = None then stop ErrPageNotFound
        else (case of_RoomBundleTemplateRoomID i of
            Some template \<Rightarrow>
              if of_DefinitionID i \<noteq> 0 \<or> of_GrantsEffectID i \<noteq> None \<or> of_Amount i \<noteq> 0 \<or> of_LimitedStack i \<noteq> 0 \<or>
                 of_LimitedSells i \<noteq> 0 \<or> of_Giftable i \<or> of_BundleDiscountEnabled i \<or> co_clone co = None then stop ErrInvalidItem
              else seq (ask (co_findTemplate co template)) (\<lambda>known.
                if \<not> known then stop ErrBundleTemplateNotFound
                else seq (ask (co_preview co template)) (\<lambda>products.
                  if products = [] then stop ErrBundleTemplateEmpty
                  else if co_commerce co \<and> of_ID i > 0
                  then seq (sql fault (\<lambda>s. (filter (\<lambda>p. pd_CatalogItemID p = of_ID i) (cs_products s), s))) (\<lambda>own.
                    if own \<noteq> [] then stop ErrBundleHasProducts else yield ())
                  else yield ()))
          | None \<Rightarrow>
              if IsPet i then
                (if (case of_PetTypeID i of None \<Rightarrow> True | Some t \<Rightarrow> sint t < 0 \<or> sint t > 35) \<or> TrimSpace (of_PetProductCode i) = [] \<or>
                    of_DefinitionID i \<noteq> 0 \<or> of_GrantsEffectID i \<noteq> None \<or> of_Amount i \<noteq> 1 \<or> of_LimitedStack i \<noteq> 0 \<or>
                    of_LimitedSells i \<noteq> 0 \<or> of_Giftable i \<or> of_BundleDiscountEnabled i
                 then stop ErrInvalidItem else yield ())
              else if of_RewardKind i \<noteq> RewardFurniture \<or> of_PetTypeID i \<noteq> None \<or> of_PetProductCode i \<noteq> [] then stop ErrInvalidItem
              else if sint (of_Amount i) < 0 \<or> of_DefinitionID i \<le> 0 \<and> of_GrantsEffectID i = None \<or>
                of_DefinitionID i > 0 \<and> sint (of_Amount i) \<le> 0 \<or> of_GrantsEffectID i \<noteq> None \<and> of_Giftable i then stop ErrInvalidItem
              else if of_DefinitionID i > 0
              then seq (find_definition fault (of_DefinitionID i)) (\<lambda>known. if known then yield () else stop ErrDefinitionNotFound)
              else yield ())))"

record item_patch =
  ip_PageID :: "ident option"
  ip_DefinitionID :: "ident option"
  ip_RewardKind :: "string option"
  ip_PetTypeID :: "i32 option option"
  ip_PetProductCode :: "string option"
  ip_RoomBundleTemplateRoomID :: "ident option option"
  ip_GrantsEffectID :: "i32 option option"
  ip_GrantsEffectDurationSeconds :: "i32 option"
  ip_Name :: "string option"
  ip_CostCredits :: "int option"
  ip_CostPoints :: "int option"
  ip_PointsType :: "int option"
  ip_Amount :: "i32 option"
  ip_LimitedStack :: "i32 option"
  ip_BundleDiscountEnabled :: "bool option"
  ip_Giftable :: "bool option"
  ip_ClubOnly :: "bool option"
  ip_OrderNum :: "i32 option"
  ip_Enabled :: "bool option"
  ip_ExtraData :: "string option"

definition patched :: "'a option \<Rightarrow> ('a \<Rightarrow> 'b \<Rightarrow> 'b) \<Rightarrow> 'b \<Rightarrow> 'b" where
  "patched field upd x = (case field of None \<Rightarrow> x | Some v \<Rightarrow> upd v x)"

text \<open>An offer that becomes a room bundle loses what belongs to furniture.\<close>

definition bundle_fields :: "ident option \<Rightarrow> offer \<Rightarrow> offer" where
  "bundle_fields v i0 = (let i = i0\<lparr>of_RoomBundleTemplateRoomID := v\<rparr> in
     if v = None then i
     else i\<lparr>of_DefinitionID := 0, of_GrantsEffectID := None, of_GrantsEffectDurationSeconds := 0, of_Amount := 0,
            of_LimitedStack := 0, of_LimitedSells := 0, of_BundleDiscountEnabled := False, of_Giftable := False\<rparr>)"

definition applyItemPatch :: "item_patch \<Rightarrow> offer \<Rightarrow> offer" where
  "applyItemPatch ip i0 =
     (let i1 = patched (ip_PageID ip) (\<lambda>v i. i\<lparr>of_PageID := v\<rparr>) i0;
          i2 = patched (ip_DefinitionID ip) (\<lambda>v i. i\<lparr>of_DefinitionID := v\<rparr>) i1;
          i3 = patched (ip_RewardKind ip) (\<lambda>v i. i\<lparr>of_RewardKind := v\<rparr>) i2;
          i4 = patched (ip_PetTypeID ip) (\<lambda>v i. i\<lparr>of_PetTypeID := v\<rparr>) i3;
          i5 = patched (ip_PetProductCode ip) (\<lambda>v i. i\<lparr>of_PetProductCode := TrimSpace v\<rparr>) i4;
          i6 = patched (ip_RoomBundleTemplateRoomID ip) bundle_fields i5;
          i7 = patched (ip_GrantsEffectID ip) (\<lambda>v i. i\<lparr>of_GrantsEffectID := v\<rparr>) i6;
          i8 = patched (ip_GrantsEffectDurationSeconds ip) (\<lambda>v i. i\<lparr>of_GrantsEffectDurationSeconds := v\<rparr>) i7;
          i9 = patched (ip_Name ip) (\<lambda>v i. i\<lparr>of_Name := TrimSpace v\<rparr>) i8;
          i10 = patched (ip_CostCredits ip) (\<lambda>v i. i\<lparr>of_CostCredits := v\<rparr>) i9;
          i11 = patched (ip_CostPoints ip) (\<lambda>v i. i\<lparr>of_CostPoints := v\<rparr>) i10;
          i12 = patched (ip_PointsType ip) (\<lambda>v i. i\<lparr>of_PointsType := v\<rparr>) i11;
          i13 = patched (ip_Amount ip) (\<lambda>v i. i\<lparr>of_Amount := v\<rparr>) i12;
          i14 = patched (ip_LimitedStack ip) (\<lambda>v i. i\<lparr>of_LimitedStack := v\<rparr>) i13;
          i15 = patched (ip_BundleDiscountEnabled ip) (\<lambda>v i. i\<lparr>of_BundleDiscountEnabled := v\<rparr>) i14;
          i16 = patched (ip_Giftable ip) (\<lambda>v i. i\<lparr>of_Giftable := v\<rparr>) i15;
          i17 = patched (ip_ClubOnly ip) (\<lambda>v i. i\<lparr>of_ClubOnly := v\<rparr>) i16;
          i18 = patched (ip_OrderNum ip) (\<lambda>v i. i\<lparr>of_OrderNum := v\<rparr>) i17;
          i19 = patched (ip_Enabled ip) (\<lambda>v i. i\<lparr>of_Enabled := v\<rparr>) i18
      in patched (ip_ExtraData ip) (\<lambda>v i. i\<lparr>of_ExtraData := v\<rparr>) i19)"

text \<open>The input of a new offer has the fields of an offer, without those that are set here.\<close>

definition CreateItem :: "(nat \<Rightarrow> bool) \<Rightarrow> collaborators \<Rightarrow> offer \<Rightarrow> offer cx" where
  "CreateItem fault co input =
     (let i = input\<lparr>of_ID := 0, of_PetProductCode := TrimSpace (of_PetProductCode input), of_Name := TrimSpace (of_Name input),
            of_LimitedSells := 0, of_ScheduledAt := None\<rparr>
      in seq (validateItem fault co i) (\<lambda>_. seq (catalog_CreateItem fault i) (\<lambda>row.
           if of_LimitedStack row = 0 then yield row
           else seq (CreateLimitedUnits fault (of_ID row) (of_LimitedStack row)) (\<lambda>_. yield row))))"

text \<open>The update of an offer from the row that was read.\<close>

definition read_item :: "(nat \<Rightarrow> bool) \<Rightarrow> ident \<Rightarrow> offer cx" where
  "read_item fault key = (if key \<le> 0 then stop ErrInvalidItem
     else seq (catalog_FindItemByID fault key) (\<lambda>found. case found of None \<Rightarrow> stop ErrItemNotFound | Some i \<Rightarrow> yield i))"

definition update_item :: "(nat \<Rightarrow> bool) \<Rightarrow> collaborators \<Rightarrow> item_patch \<Rightarrow> offer \<Rightarrow> offer cx" where
  "update_item fault co ip i =
     (let j = applyItemPatch ip i in
      if sint (of_LimitedStack j) < sint (of_LimitedSells j) \<or>
         (sint (of_LimitedSells j) > 0 \<and> sint (of_LimitedStack j) < sint (of_LimitedStack i)) then stop ErrLimitedBelowSales
      else seq (validateItem fault co j) (\<lambda>_. seq (catalog_UpdateItem fault j) (\<lambda>updated. case updated of
          None \<Rightarrow> stop ErrConflict
        | Some row \<Rightarrow> seq (SyncLimitedUnits fault (of_ID row) (of_LimitedStack row)) (\<lambda>_. yield row))))"

definition UpdateItem :: "(nat \<Rightarrow> bool) \<Rightarrow> collaborators \<Rightarrow> ident \<Rightarrow> item_patch \<Rightarrow> offer cx" where
  "UpdateItem fault co key ip = seq (read_item fault key) (update_item fault co ip)"

definition delete_item :: "(nat \<Rightarrow> bool) \<Rightarrow> offer \<Rightarrow> unit cx" where
  "delete_item fault i = seq (SoftDeleteItem fault (of_ID i) (of_Version i)) (\<lambda>deleted.
     if deleted then yield () else stop ErrConflict)"

definition DeleteItem :: "(nat \<Rightarrow> bool) \<Rightarrow> ident \<Rightarrow> unit cx" where
  "DeleteItem fault key = seq (read_item fault key) (delete_item fault)"

subsection \<open>Administration of pages and vouchers\<close>

record page_patch =
  qp_ParentID :: "ident option option"
  qp_Name :: "string option"
  qp_Layout :: "string option"
  qp_IconColor :: "i32 option"
  qp_IconImage :: "i32 option"
  qp_RequiredNode :: "string option option"
  qp_OrderNum :: "i32 option"
  qp_Visible :: "bool option"
  qp_Enabled :: "bool option"
  qp_ClubOnly :: "bool option"

definition applyPagePatch :: "page_patch \<Rightarrow> page \<Rightarrow> page" where
  "applyPagePatch qp p0 =
     (let p1 = patched (qp_ParentID qp) (\<lambda>v p. p\<lparr>pg_ParentID := v\<rparr>) p0;
          p2 = patched (qp_Name qp) (\<lambda>v p. p\<lparr>pg_Name := TrimSpace v\<rparr>) p1;
          p3 = patched (qp_Layout qp) (\<lambda>v p. p\<lparr>pg_Layout := TrimSpace v\<rparr>) p2;
          p4 = patched (qp_IconColor qp) (\<lambda>v p. p\<lparr>pg_IconColor := v\<rparr>) p3;
          p5 = patched (qp_IconImage qp) (\<lambda>v p. p\<lparr>pg_IconImage := v\<rparr>) p4;
          p6 = patched (qp_RequiredNode qp) (\<lambda>v p. p\<lparr>pg_RequiredNode := v\<rparr>) p5;
          p7 = patched (qp_OrderNum qp) (\<lambda>v p. p\<lparr>pg_OrderNum := v\<rparr>) p6;
          p8 = patched (qp_Visible qp) (\<lambda>v p. p\<lparr>pg_Visible := v\<rparr>) p7;
          p9 = patched (qp_Enabled qp) (\<lambda>v p. p\<lparr>pg_Enabled := v\<rparr>) p8
      in patched (qp_ClubOnly qp) (\<lambda>v p. p\<lparr>pg_ClubOnly := v\<rparr>) p9)"

text \<open>\<open>co_nodeOK\<close> says whether a permission node is concrete and registered.\<close>

definition validatePage :: "(nat \<Rightarrow> bool) \<Rightarrow> collaborators \<Rightarrow> page \<Rightarrow> unit cx" where
  "validatePage fault co p =
     (if pg_Name p = [] \<or> pg_Layout p = [] \<or> sint (pg_IconColor p) < 0 \<or> sint (pg_IconImage p) < 0 then stop ErrInvalidPage
      else if (case pg_RequiredNode p of None \<Rightarrow> False | Some node \<Rightarrow> \<not> co_nodeOK co node) then stop ErrInvalidPage
      else (case pg_ParentID p of
          None \<Rightarrow> yield ()
        | Some parent \<Rightarrow> if parent \<le> 0 then stop ErrInvalidPage
            else seq (FindPageByID fault parent) (\<lambda>found. if found = None then stop ErrInvalidPage else yield ())))"

text \<open>The input of a new page has the fields of a page that a client sets.\<close>

definition CreatePage :: "(nat \<Rightarrow> bool) \<Rightarrow> collaborators \<Rightarrow> page \<Rightarrow> page cx" where
  "CreatePage fault co input =
     (let p = input\<lparr>pg_Name := TrimSpace (pg_Name input), pg_Layout := TrimSpace (pg_Layout input), pg_NewAdditions := False,
           pg_ExpiresAt := None, pg_ExcludedFromKickback := False\<rparr>
      in seq (validatePage fault co p) (\<lambda>_. sql fault (\<lambda>s.
           let row = p\<lparr>pg_ID := cs_nextPage s, pg_Version := 1, pg_Deleted := False\<rparr>
           in (row, s\<lparr>cs_pages := cs_pages s @ [row], cs_nextPage := cs_nextPage s + 1\<rparr>))))"

definition catalog_UpdatePage :: "(nat \<Rightarrow> bool) \<Rightarrow> page \<Rightarrow> page option cx" where
  "catalog_UpdatePage fault p = sql fault (\<lambda>s.
     let row = p\<lparr>pg_Version := Suc (pg_Version p)\<rparr>;
         hit = (\<lambda>x. pg_ID x = pg_ID p \<and> pg_Version x = pg_Version p \<and> \<not> pg_Deleted x)
     in if list_ex hit (cs_pages s)
        then (Some row, s\<lparr>cs_pages := map (\<lambda>x. if hit x then row else x) (cs_pages s)\<rparr>) else (None, s))"

definition UpdatePage :: "(nat \<Rightarrow> bool) \<Rightarrow> collaborators \<Rightarrow> ident \<Rightarrow> page_patch \<Rightarrow> page cx" where
  "UpdatePage fault co key qp =
     (if key \<le> 0 then stop ErrInvalidPage
      else seq (FindPageByID fault key) (\<lambda>found. case found of
          None \<Rightarrow> stop ErrPageNotFound
        | Some p0 \<Rightarrow> (let p = applyPagePatch qp p0 in
            if pg_ParentID p = Some (pg_ID p) then stop ErrInvalidPage
            else seq (validatePage fault co p) (\<lambda>_. seq (catalog_UpdatePage fault p) (\<lambda>updated. case updated of
                None \<Rightarrow> stop ErrConflict | Some row \<Rightarrow> yield row)))))"

text \<open>The code column is unique.\<close>

definition UpsertVoucher :: "(nat \<Rightarrow> bool) \<Rightarrow> collaborators \<Rightarrow> voucher \<Rightarrow> voucher cx" where
  "UpsertVoucher fault co v0 s =
     (let v = v0\<lparr>vc_Code := co_upper co (vc_Code v0)\<rparr> in
      if list_ex (\<lambda>w. vc_ID w \<noteq> vc_ID v \<and> co_upper co (vc_Code w) = co_upper co (vc_Code v)) (cs_vouchers s) then Inl ErrBackend
      else if vc_ID v = 0
      then sql fault (\<lambda>s. let row = v\<lparr>vc_ID := cs_nextVoucher s\<rparr>
             in (row, s\<lparr>cs_vouchers := cs_vouchers s @ [row], cs_nextVoucher := cs_nextVoucher s + 1\<rparr>)) s
      else if \<not> list_ex (\<lambda>w. vc_ID w = vc_ID v) (cs_vouchers s) then Inl ErrBackend
      else sql fault (\<lambda>s. (v, s\<lparr>cs_vouchers := map (\<lambda>w. if vc_ID w = vc_ID v then v else w) (cs_vouchers s)\<rparr>)) s)"

definition SaveVoucher :: "(nat \<Rightarrow> bool) \<Rightarrow> collaborators \<Rightarrow> voucher \<Rightarrow> voucher cx" where
  "SaveVoucher fault co v0 =
     (let v = v0\<lparr>vc_Code := co_upper co (TrimSpace (vc_Code v0))\<rparr> in
      if \<not> co_commerce co \<or> length (vc_Code v) < 4 \<or> length (vc_Code v) > 32 \<or> vc_CostCredits v < 0 \<or> vc_CostPoints v < 0 \<or>
         sint (vc_PerPlayerCap v) \<le> 0 \<or> (case vc_RedemptionCap v of None \<Rightarrow> False | Some cap \<Rightarrow> sint cap \<le> 0) then stop ErrInvalidItem
      else UpsertVoucher fault co v)"

subsection \<open>The catalog service\<close>

text \<open>The tables, the cache, and what goroutines have read before their transactions.\<close>

record catalog_service =
  ct_store :: catalog_store
  ct_cache :: cache_snapshot
  ct_reads :: "nat \<rightharpoonup> offer"
  ct_redeeming :: "nat \<rightharpoonup> ident \<times> voucher"

definition service_Refresh :: "(nat \<Rightarrow> bool) \<Rightarrow> collaborators \<Rightarrow> catalog_service \<Rightarrow> catalog_service" where
  "service_Refresh fault co y = (case Refresh fault co (ct_store y) of
     Inl e \<Rightarrow> y | Inr (c, s) \<Rightarrow> y\<lparr>ct_store := s, ct_cache := c\<rparr>)"

definition refreshAfterLimited :: "(nat \<Rightarrow> bool) \<Rightarrow> collaborators \<Rightarrow> purchase_result \<Rightarrow> catalog_service \<Rightarrow> catalog_service" where
  "refreshAfterLimited fault co r y = (case px_Item r of
     None \<Rightarrow> y | Some i \<Rightarrow> if IsLimited i then service_Refresh fault co y else y)"

datatype catalog_op =
    CPurchase "nat \<Rightarrow> bool" "nat \<Rightarrow> bool" collaborators purchase_params
  | CPurchaseGift "nat \<Rightarrow> bool" "nat \<Rightarrow> bool" collaborators gift_params
  | CFindVoucher "nat \<Rightarrow> bool" collaborators nat int ident string
  | CRedeem "nat \<Rightarrow> bool" collaborators nat
  | CReadItem "nat \<Rightarrow> bool" nat ident
  | CUpdateItem "nat \<Rightarrow> bool" "nat \<Rightarrow> bool" collaborators nat item_patch
  | CDeleteItem "nat \<Rightarrow> bool" "nat \<Rightarrow> bool" collaborators nat
  | CCreateItem "nat \<Rightarrow> bool" "nat \<Rightarrow> bool" collaborators offer
  | CCreatePage "nat \<Rightarrow> bool" "nat \<Rightarrow> bool" collaborators page
  | CUpdatePage "nat \<Rightarrow> bool" "nat \<Rightarrow> bool" collaborators ident page_patch
  | CSaveVoucher "nat \<Rightarrow> bool" collaborators voucher
  | CRefresh "nat \<Rightarrow> bool" collaborators

text \<open>A transaction on the store of the service, followed by work that depends on what it committed.\<close>

definition committed :: "'a cx \<Rightarrow> ('a \<Rightarrow> catalog_service \<Rightarrow> catalog_service) \<Rightarrow> catalog_service \<Rightarrow> catalog_service" where
  "committed work after y = (case work (ct_store y) of
     Inl e \<Rightarrow> y | Inr (x, s) \<Rightarrow> after x (y\<lparr>ct_store := s\<rparr>))"

fun catalog_step :: "catalog_op \<Rightarrow> catalog_service \<Rightarrow> catalog_service" where
  "catalog_step (CPurchase fault fault' co pp) y =
     committed (PurchaseWithin fault co (ct_cache y) pp) (refreshAfterLimited fault' co) y"
| "catalog_step (CPurchaseGift fault fault' co g) y = (case prepare_gift co (ct_cache y) g of
     Inl e \<Rightarrow> y | Inr pp \<Rightarrow> committed (PurchaseWithin fault co (ct_cache y) pp) (refreshAfterLimited fault' co) y)"
| "catalog_step (CFindVoucher fault co k now player code) y =
     committed (find_voucher fault co now code) (\<lambda>v y. y\<lparr>ct_redeeming := (ct_redeeming y)(k \<mapsto> (player, v))\<rparr>) y"
| "catalog_step (CRedeem fault co k) y = (case ct_redeeming y k of
     None \<Rightarrow> y
   | Some (player, v) \<Rightarrow> committed (redeem_voucher fault co (ct_cache y) player v) (\<lambda>_ y. y)
       (y\<lparr>ct_redeeming := (ct_redeeming y)(k := None)\<rparr>))"
| "catalog_step (CReadItem fault k key) y =
     committed (read_item fault key) (\<lambda>i y. y\<lparr>ct_reads := (ct_reads y)(k \<mapsto> i)\<rparr>) y"
| "catalog_step (CUpdateItem fault fault' co k ip) y = (case ct_reads y k of
     None \<Rightarrow> y
   | Some i \<Rightarrow> committed (update_item fault co ip i) (\<lambda>_. service_Refresh fault' co) (y\<lparr>ct_reads := (ct_reads y)(k := None)\<rparr>))"
| "catalog_step (CDeleteItem fault fault' co k) y = (case ct_reads y k of
     None \<Rightarrow> y
   | Some i \<Rightarrow> committed (delete_item fault i) (\<lambda>_. service_Refresh fault' co) (y\<lparr>ct_reads := (ct_reads y)(k := None)\<rparr>))"
| "catalog_step (CCreateItem fault fault' co i) y = committed (CreateItem fault co i) (\<lambda>_. service_Refresh fault' co) y"
| "catalog_step (CCreatePage fault fault' co p) y = committed (CreatePage fault co p) (\<lambda>_. service_Refresh fault' co) y"
| "catalog_step (CUpdatePage fault fault' co key qp) y = committed (UpdatePage fault co key qp) (\<lambda>_. service_Refresh fault' co) y"
| "catalog_step (CSaveVoucher fault co v) y = committed (SaveVoucher fault co v) (\<lambda>_ y. y) y"
| "catalog_step (CRefresh fault co) y = service_Refresh fault co y"

text \<open>Tables and cache before anything happened.\<close>

definition no_store :: catalog_store where
  "no_store = \<lparr>cs_db = empty_db, cs_columns = Map.empty, cs_nextItem = 1, cs_units = [], cs_offers = [], cs_nextOffer = 1,
     cs_pages = [], cs_nextPage = 1, cs_definitions = [], cs_products = [], cs_vouchers = [], cs_nextVoucher = 1,
     cs_redemptions = [], cs_log = []\<rparr>"

definition catalog_New :: "catalog_store \<Rightarrow> catalog_service" where
  "catalog_New s = \<lparr>ct_store = s, ct_cache = newCache, ct_reads = Map.empty, ct_redeeming = Map.empty\<rparr>"

subsection \<open>What the statements do\<close>

lemma cx_Inr [simp]:
  "yield x s = Inr (y, s') \<longleftrightarrow> y = x \<and> s' = s"
  "stop e s = Inr z \<longleftrightarrow> False"
  "seq f g s = Inr z \<longleftrightarrow> (\<exists>x s1. f s = Inr (x, s1) \<and> g x s1 = Inr z)"
  "sql fault h s = Inr z \<longleftrightarrow> \<not> fault (db_calls (cs_db s)) \<and> z = h (s\<lparr>cs_db := (cs_db s)\<lparr>db_calls := Suc (db_calls (cs_db s))\<rparr>\<rparr>)"
  "ask q s = Inr (x, s') \<longleftrightarrow> q = Inr x \<and> s' = s"
  by (auto simp: yield_def stop_def seq_def sql_def ask_def Let_def split: sum.splits prod.splits)

lemma in_economy_Inr: "in_economy f s = Inr (x, s') \<longleftrightarrow> (\<exists>d. f (cs_db s) = Inr (x, d) \<and> s' = s\<lparr>cs_db := d\<rparr>)"
  by (auto simp: in_economy_def split: sum.splits prod.splits)

lemma cx_case_Inr:
  "(if b then f else g) s = Inr z \<longleftrightarrow> (if b then f s = Inr z else g s = Inr z)"
  "(case ox of None \<Rightarrow> f | Some x \<Rightarrow> h x) s = Inr z \<longleftrightarrow> (case ox of None \<Rightarrow> f s = Inr z | Some x \<Rightarrow> h x s = Inr z)"
  by (auto split: option.splits)

text \<open>New rows of one owner, with the number and the wrapping that all of them get; nothing else moves.\<close>

definition adds :: "ident \<Rightarrow> i32 option \<Rightarrow> gift_metadata option \<Rightarrow> furniture_row list \<Rightarrow> catalog_store \<Rightarrow> catalog_store \<Rightarrow> bool" where
  "adds owner edition gift rows s s' \<longleftrightarrow>
     s' = s\<lparr>cs_db := (cs_db s)\<lparr>db_calls := db_calls (cs_db s'), db_items := db_items (cs_db s')\<rparr>,
            cs_columns := cs_columns s', cs_nextItem := cs_nextItem s'\<rparr> \<and>
     map fr_ID rows = map (\<lambda>k. cs_nextItem s + int k) [0..<length rows] \<and> cs_nextItem s' = cs_nextItem s + int (length rows) \<and>
     (\<forall>r \<in> set rows. db_items (cs_db s') (fr_ID r) = Some r \<and> fr_Owner r = owner \<and> fr_RoomID r = None \<and> \<not> fr_Reserved r \<and>
        (\<exists>cols. cs_columns s' (fr_ID r) = Some cols \<and> ic_LimitedEditionNumber cols = edition \<and> ic_Gift cols = gift)) \<and>
     (\<forall>k. k \<notin> fr_ID ` set rows \<longrightarrow> db_items (cs_db s') k = db_items (cs_db s) k \<and> cs_columns s' k = cs_columns s k)"

lemma addsD:
  assumes "adds owner edition gift rows s s'"
  shows "s' = s\<lparr>cs_db := (cs_db s)\<lparr>db_calls := db_calls (cs_db s'), db_items := db_items (cs_db s')\<rparr>,
      cs_columns := cs_columns s', cs_nextItem := cs_nextItem s'\<rparr>"
    "map fr_ID rows = map (\<lambda>k. cs_nextItem s + int k) [0..<length rows]" "cs_nextItem s' = cs_nextItem s + int (length rows)"
    "r \<in> set rows \<Longrightarrow> db_items (cs_db s') (fr_ID r) = Some r \<and> fr_Owner r = owner \<and> fr_RoomID r = None \<and> \<not> fr_Reserved r \<and>
        (\<exists>cols. cs_columns s' (fr_ID r) = Some cols \<and> ic_LimitedEditionNumber cols = edition \<and> ic_Gift cols = gift)"
    "k \<notin> fr_ID ` set rows \<Longrightarrow> db_items (cs_db s') k = db_items (cs_db s) k \<and> cs_columns s' k = cs_columns s k"
  using assms unfolding adds_def by blast+

lemma adds_ids:
  assumes "adds owner edition gift rows s s'"
  shows "fr_ID ` set rows = {cs_nextItem s..<cs_nextItem s'}"
proof -
  have "fr_ID ` set rows = (\<lambda>k. cs_nextItem s + int k) ` {0..<length rows}"
    using arg_cong [OF addsD(2) [OF assms], of set] by simp
  also have "\<dots> = {cs_nextItem s..<cs_nextItem s + int (length rows)}"
  proof -
    have "x \<in> (\<lambda>k. cs_nextItem s + int k) ` {0..<length rows}" if "cs_nextItem s \<le> x" "x < cs_nextItem s + int (length rows)" for x
      using that by (intro image_eqI [of _ _ "nat (x - cs_nextItem s)"]) auto
    then show ?thesis by auto
  qed
  finally show ?thesis using addsD(3) [OF assms] by simp
qed

lemma adds_same:
  assumes "adds owner edition gift rows s s'"
  shows "cs_units s' = cs_units s" "cs_offers s' = cs_offers s" "cs_nextOffer s' = cs_nextOffer s" "cs_pages s' = cs_pages s"
    "cs_vouchers s' = cs_vouchers s" "cs_redemptions s' = cs_redemptions s" "cs_log s' = cs_log s"
    "db_balances (cs_db s') = db_balances (cs_db s)" "db_ledger (cs_db s') = db_ledger (cs_db s)"
    "balance_of (cs_db s') p t = balance_of (cs_db s) p t" "cs_nextItem s \<le> cs_nextItem s'"
  using addsD(3) [OF assms] by (subst addsD(1) [OF assms]; simp)+

lemma adds_nil: "adds owner edition gift [] s s"
  by (simp add: adds_def)

lemma adds_append:
  assumes "adds owner edition gift xs s s1" "adds owner edition gift ys s1 s2"
  shows "adds owner edition gift (xs @ ys) s s2"
proof -
  have shape: "s2 = s\<lparr>cs_db := (cs_db s)\<lparr>db_calls := db_calls (cs_db s2), db_items := db_items (cs_db s2)\<rparr>,
      cs_columns := cs_columns s2, cs_nextItem := cs_nextItem s2\<rparr>"
  proof -
    obtain n1 i1 c1 k1 where s1: "s1 = s\<lparr>cs_db := (cs_db s)\<lparr>db_calls := n1, db_items := i1\<rparr>, cs_columns := c1, cs_nextItem := k1\<rparr>"
      using addsD(1) [OF assms(1)] by blast
    show ?thesis by (subst addsD(1) [OF assms(2)]) (simp add: s1)
  qed
  have up: "[0..<length xs + length ys] = [0..<length xs] @ map (\<lambda>k. k + length xs) [0..<length ys]"
    by (simp only: upt_add_eq_append [OF le0] map_add_upt add.commute [of "length ys"])
  have ids: "map fr_ID (xs @ ys) = map (\<lambda>k. cs_nextItem s + int k) [0..<length (xs @ ys)]"
    unfolding map_append length_append up addsD(2) [OF assms(1)] addsD(2) [OF assms(2)] addsD(3) [OF assms(1)]
    by simp
  have disjoint: "fr_ID r \<notin> fr_ID ` set ys" if "r \<in> set xs" for r
    using adds_ids [OF assms(1)] adds_ids [OF assms(2)] that by (metis atLeastLessThan_iff imageI leD)
  show ?thesis unfolding adds_def
  proof (intro conjI ballI allI impI)
    fix r assume r: "r \<in> set (xs @ ys)"
    show "db_items (cs_db s2) (fr_ID r) = Some r" "fr_Owner r = owner" "fr_RoomID r = None" "\<not> fr_Reserved r"
      "\<exists>cols. cs_columns s2 (fr_ID r) = Some cols \<and> ic_LimitedEditionNumber cols = edition \<and> ic_Gift cols = gift"
      using r addsD(4) [OF assms(1), of r] addsD(4) [OF assms(2), of r] addsD(5) [OF assms(2), of "fr_ID r"] disjoint [of r]
      by auto
  next
    fix k assume k: "k \<notin> fr_ID ` set (xs @ ys)"
    then have "k \<notin> fr_ID ` set xs" "k \<notin> fr_ID ` set ys" by (simp_all add: image_Un)
    then show "db_items (cs_db s2) k = db_items (cs_db s) k" "cs_columns s2 k = cs_columns s k"
      using addsD(5) [OF assms(1), of k] addsD(5) [OF assms(2), of k] by simp_all
  qed (use shape ids addsD(3) [OF assms(1)] addsD(3) [OF assms(2)] in auto)
qed

lemma fold_rows:
  assumes "distinct (map fr_ID rows)"
  shows "fold (\<lambda>r m. m(fr_ID r \<mapsto> f r)) rows m k = (case List.find (\<lambda>r. fr_ID r = k) rows of None \<Rightarrow> m k | Some r \<Rightarrow> Some (f r))"
  using assms
proof (induction rows arbitrary: m)
  case (Cons r rows)
  have "List.find (\<lambda>x. fr_ID x = fr_ID r) rows = None" using Cons.prems
    unfolding find_None_iff by (metis distinct.simps(2) image_eqI list.set_map list.simps(9))
  then show ?case using Cons by (cases "fr_ID r = k") (auto split: option.splits)
qed simp

lemma create_rows_adds:
  assumes "create_rows defn owner n cols s = (rows, s')"
  shows "adds owner (ic_LimitedEditionNumber cols) (ic_Gift cols) rows s s'" "map fr_DefinitionID rows = replicate n defn"
proof -
  have rows: "rows = map (\<lambda>k. \<lparr>fr_ID = cs_nextItem s + int k, fr_DefinitionID = defn, fr_Owner = owner, fr_RoomID = None,
      fr_Reserved = False\<rparr>) [0..<n]"
    and s': "s' = s\<lparr>cs_db := (cs_db s)\<lparr>db_items := fold (\<lambda>r m. m(fr_ID r \<mapsto> r)) rows (db_items (cs_db s))\<rparr>,
                  cs_columns := fold (\<lambda>r m. m(fr_ID r \<mapsto> cols)) rows (cs_columns s),
                  cs_nextItem := cs_nextItem s + int n\<rparr>"
    using assms by (auto simp: create_rows_def Let_def)
  have ids: "map fr_ID rows = map (\<lambda>k. cs_nextItem s + int k) [0..<length rows]" by (simp add: rows comp_def)
  then have d: "distinct (map fr_ID rows)" by (simp add: distinct_map inj_on_def)
  have found: "List.find (\<lambda>x. fr_ID x = fr_ID r) rows = Some r" if "r \<in> set rows" for r
    using that d by (induction rows) (auto simp: image_iff)
  have missing: "List.find (\<lambda>x. fr_ID x = k) rows = None" if "k \<notin> fr_ID ` set rows" for k
    using that by (auto simp: find_None_iff)
  have len: "length rows = n" by (simp add: rows)
  have each: "fr_Owner r = owner \<and> fr_RoomID r = None \<and> \<not> fr_Reserved r" if "r \<in> set rows" for r
    using that by (auto simp: rows)
  show "adds owner (ic_LimitedEditionNumber cols) (ic_Gift cols) rows s s'"
    unfolding adds_def by (simp add: s' fold_rows [OF d] found missing ids len each)
  show "map fr_DefinitionID rows = replicate n defn" by (simp add: rows comp_def map_replicate_const)
qed

lemma adds_counted:
  assumes "adds owner edition gift rows (s\<lparr>cs_db := (cs_db s)\<lparr>db_calls := n\<rparr>\<rparr>) s'"
  shows "adds owner edition gift rows s s'"
proof -
  have "s' = s\<lparr>cs_db := (cs_db s)\<lparr>db_calls := db_calls (cs_db s'), db_items := db_items (cs_db s')\<rparr>,
      cs_columns := cs_columns s', cs_nextItem := cs_nextItem s'\<rparr>"
    by (subst addsD(1) [OF assms]) simp
  with assms show ?thesis unfolding adds_def by simp
qed

lemma create_rows_counted:
  assumes "create_rows defn owner n cols (s\<lparr>cs_db := (cs_db s)\<lparr>db_calls := k\<rparr>\<rparr>) = (rows, s')"
  shows "adds owner (ic_LimitedEditionNumber cols) (ic_Gift cols) rows s s' \<and> map fr_DefinitionID rows = replicate n defn"
  using create_rows_adds [OF assms] adds_counted by blast

lemma furniture_Grant_adds:
  assumes "furniture_Grant fault g s = Inr (rows, s')"
  shows "adds (gp_OwnerPlayerID g) (gp_LimitedEditionNumber g) None rows s s' \<and>
    map fr_DefinitionID rows = replicate (nat (sint (gp_Quantity g))) (gp_DefinitionID g)"
  using assms
  by (auto simp: furniture_Grant_def find_definition_def cx_case_Inr split: if_splits
      dest!: create_rows_counted [OF sym])

lemma GrantGift_adds:
  assumes "GrantGift fault g gift s = Inr (rows, s')"
  shows "adds (gp_OwnerPlayerID g) None (Some gift) rows s s' \<and>
    map fr_DefinitionID rows = replicate (nat (sint (gp_Quantity g))) (gp_DefinitionID g)"
  using assms
  by (auto simp: GrantGift_def find_definition_def cx_case_Inr split: if_splits
      dest!: create_rows_counted [OF sym])

text \<open>The definitions of the units that a list of products stands for.\<close>

definition ordered_units :: "product list \<Rightarrow> i32 \<Rightarrow> ident list" where
  "ordered_units products amount =
     concat (map (\<lambda>p. replicate (nat (sint (pd_Quantity p * amount))) (pd_DefinitionID p)) products)"

abbreviation edition_of :: "purchase_params \<Rightarrow> purchase_result \<Rightarrow> i32 option" where
  "edition_of pp r \<equiv> (if pp_Gift pp = None then px_LimitedUnitNumber r else None)"

lemma grant_products_adds:
  assumes "grant_products fault co c pp i recipient ps r s = Inr (r', s')"
  shows "\<exists>rows. r' = r\<lparr>px_GrantedItems := px_GrantedItems r @ rows\<rparr> \<and>
    adds recipient (edition_of pp r) (pp_Gift pp) rows s s' \<and>
    map fr_DefinitionID rows = ordered_units ps (pp_Amount pp)"
  using assms
proof (induction ps arbitrary: r s)
  case Nil
  then show ?case by (simp add: adds_nil ordered_units_def)
next
  case (Cons p ps)
  obtain rows s1 where rows: "adds recipient (edition_of pp r) (pp_Gift pp) rows s s1"
      "map fr_DefinitionID rows = replicate (nat (sint (pd_Quantity p * pp_Amount pp))) (pd_DefinitionID p)"
      "grant_products fault co c pp i recipient ps (r\<lparr>px_GrantedItems := px_GrantedItems r @ rows\<rparr>) s1 = Inr (r', s')"
    using Cons.prems by (fastforce simp: Let_def cx_case_Inr split: option.splits if_splits dest: furniture_Grant_adds GrantGift_adds)
  have "edition_of pp (r\<lparr>px_GrantedItems := px_GrantedItems r @ rows\<rparr>) = edition_of pp r" by simp
  with Cons.IH [OF rows(3)] obtain more where more: "r' = r\<lparr>px_GrantedItems := px_GrantedItems r @ (rows @ more)\<rparr>"
      "adds recipient (edition_of pp r) (pp_Gift pp) more s1 s'" "map fr_DefinitionID more = ordered_units ps (pp_Amount pp)"
    by (simp del: map_eq_conv) blast
  show ?case
    by (rule exI [of _ "rows @ more"]) (use more adds_append [OF rows(1) more(2)] rows(2) in \<open>simp add: ordered_units_def\<close>)
qed



text \<open>The charge changes balances of the buyer only.\<close>

definition pays :: "collaborators \<Rightarrow> ident \<Rightarrow> catalog_store \<Rightarrow> catalog_store \<Rightarrow> bool" where
  "pays co player s s' \<longleftrightarrow> s' = s\<lparr>cs_db := cs_db s'\<rparr> \<and> same_goods (cs_db s) (cs_db s') \<and>
     (\<forall>q t. q \<noteq> player \<longrightarrow> balance_of (cs_db s') q t = balance_of (cs_db s) q t)"

lemma pays_refl: "pays co player s s" by (simp add: pays_def same_goods_def)

lemma pays_trans: "pays co player s s1 \<Longrightarrow> pays co player s1 s2 \<Longrightarrow> pays co player s s2"
proof -
  assume a: "pays co player s s1" "pays co player s1 s2"
  obtain d1 where d1: "s1 = s\<lparr>cs_db := d1\<rparr>" using a(1) by (auto simp: pays_def)
  have "s2 = s1\<lparr>cs_db := cs_db s2\<rparr>" using a(2) by (simp add: pays_def)
  then have "s2 = s\<lparr>cs_db := cs_db s2\<rparr>" by (simp add: d1)
  then show ?thesis using a by (simp add: pays_def same_goods_def)
qed

lemma Grant_pays:
  assumes "in_economy (Grant fault types permissions p t amount reason actor) s = Inr (b, s')"
  shows "pays co p s s'" "\<forall>q u. balance_of (cs_db s') q u = balance_of (cs_db s) q u +
      (if q = p \<and> u = t then granted permissions p amount actor else 0)"
proof -
  obtain d where d: "Grant fault types permissions p t amount reason actor (cs_db s) = Inr (b, d)" "s' = s\<lparr>cs_db := d\<rparr>"
    using assms by (auto simp: in_economy_Inr)
  from Grant_Inr [OF d(1)] d(2) show "pays co p s s'" "\<forall>q u. balance_of (cs_db s') q u = balance_of (cs_db s) q u +
      (if q = p \<and> u = t then granted permissions p amount actor else 0)"
    by (auto simp: pays_def)
qed

lemma charge_pays:
  assumes "charge fault co player i pp s = Inr ((b, credits, points), s')"
  shows "pays co player s s'"
  using assms by (auto simp: charge_def Let_def cx_case_Inr pays_refl split: if_splits prod.splits option.splits dest: Grant_pays(1))


text \<open>The stages that change the tables of limited editions, and the log.\<close>

definition reserves :: "ident \<Rightarrow> ident \<Rightarrow> i32 option \<Rightarrow> catalog_store \<Rightarrow> catalog_store \<Rightarrow> bool" where
  "reserves key player n s s' \<longleftrightarrow> (case n of
     None \<Rightarrow> s' = s
   | Some k \<Rightarrow> lowest_free key (cs_units s) = Some k \<and>
       s' = s\<lparr>cs_db := (cs_db s)\<lparr>db_calls := db_calls (cs_db s')\<rparr>, cs_units := map (claim key k player) (cs_units s)\<rparr>)"

definition linked :: "ident \<Rightarrow> i32 \<Rightarrow> ident \<Rightarrow> ident \<Rightarrow> limited_unit \<Rightarrow> limited_unit" where
  "linked key n player item u = (if completes key n player u then u\<lparr>lu_FurnitureItemID := Some item\<rparr> else u)"

definition advanced :: "ident \<Rightarrow> offer \<Rightarrow> offer" where
  "advanced key x = (if advances key x
     then x\<lparr>of_LimitedSells := of_LimitedSells x + 1, of_Enabled := sint (of_LimitedSells x) + 1 < sint (of_LimitedStack x),
            of_Version := Suc (of_Version x)\<rparr> else x)"

definition completes_sale :: "ident \<Rightarrow> ident \<Rightarrow> i32 option \<Rightarrow> furniture_row list \<Rightarrow> catalog_store \<Rightarrow> catalog_store \<Rightarrow> bool" where
  "completes_sale key player n rows s s' \<longleftrightarrow> (case n of
     None \<Rightarrow> s' = s
   | Some k \<Rightarrow> rows \<noteq> [] \<and> list_ex (completes key k player) (cs_units s) \<and> list_ex (advances key) (cs_offers s) \<and>
       s' = s\<lparr>cs_db := (cs_db s)\<lparr>db_calls := db_calls (cs_db s')\<rparr>,
              cs_units := map (linked key k player (fr_ID (hd rows))) (cs_units s),
              cs_offers := map (advanced key) (cs_offers s)\<rparr>)"

definition logs :: "catalog_store \<Rightarrow> catalog_store \<Rightarrow> bool" where
  "logs s s' \<longleftrightarrow> s' = s\<lparr>cs_db := (cs_db s)\<lparr>db_calls := db_calls (cs_db s')\<rparr>, cs_log := cs_log s'\<rparr>"

lemma logPurchase_logs: "logPurchase fault co pp i r credits points s = Inr (u, s') \<Longrightarrow> logs s s'"
  by (auto simp: logPurchase_def LogPurchase_def logs_def cx_case_Inr split: if_splits)

lemma reserve_unit_reserves:
  assumes "reserve_unit fault player i r s = Inr (r', s')" "px_LimitedUnitNumber r = None"
  shows "\<exists>n. reserves (of_ID i) player n s s' \<and> r' = r\<lparr>px_LimitedUnitNumber := n\<rparr> \<and> (n = None \<longleftrightarrow> \<not> IsLimited i)"
  using assms
  by (auto simp: reserve_unit_def ReserveLimitedUnit_def reserves_def cx_case_Inr split: if_splits option.splits)

lemma complete_unit_sale:
  assumes "complete_unit fault player i r s = Inr (u, s')"
  shows "completes_sale (of_ID i) player (px_LimitedUnitNumber r) (px_GrantedItems r) s s'"
  using assms unfolding complete_unit_def
  by (auto simp: CompleteLimitedUnit_def completes_sale_def linked_def advanced_def Let_def cx_case_Inr
      split: option.splits list.splits if_splits)

subsection \<open>The transaction of a purchase\<close>

abbreviation recipient_of :: "purchase_params \<Rightarrow> ident" where
  "recipient_of pp \<equiv> (if pp_RecipientPlayerID pp = 0 then pp_PlayerID pp else pp_RecipientPlayerID pp)"

definition plain_reward :: "offer \<Rightarrow> bool" where
  "plain_reward i \<longleftrightarrow> \<not> IsRoomBundle i \<and> \<not> IsService i \<and> \<not> IsPet i"

lemma finishRewards_same:
  "finishRewards co c player i r = Inr r' \<Longrightarrow> px_GrantedItems r' = px_GrantedItems r \<and> px_LimitedUnitNumber r' = px_LimitedUnitNumber r \<and>
     px_ChargedCredits r' = px_ChargedCredits r \<and> px_ChargedPoints r' = px_ChargedPoints r \<and> px_Item r' = px_Item r"
  by (auto simp: finishRewards_def split: option.splits)

lemma deliver_stages:
  assumes "deliver fault co c pp i products selected r s = Inr (r', s')" "px_GrantedItems r = []"
  shows "\<exists>s1. adds (recipient_of pp) (edition_of pp r) (pp_Gift pp) (px_GrantedItems r') s s1 \<and>
    completes_sale (of_ID i) (pp_PlayerID pp) (px_LimitedUnitNumber r) (px_GrantedItems r') s1 s' \<and>
    map fr_DefinitionID (px_GrantedItems r') = ordered_units (granted_products i products) (pp_Amount pp) \<and>
    px_LimitedUnitNumber r' = px_LimitedUnitNumber r \<and> px_ChargedCredits r' = px_ChargedCredits r \<and>
    px_ChargedPoints r' = px_ChargedPoints r \<and> px_Item r' = px_Item r"
proof -
  obtain r1 s1 where g: "grant_products fault co c pp i (recipient_of pp) (granted_products i products) r s = Inr (r1, s1)"
      and f: "finishRewards co c (pp_PlayerID pp) i r1 = Inr r'" and l: "complete_unit fault (pp_PlayerID pp) i r' s1 = Inr ((), s')"
    using assms(1) by (auto simp: deliver_def Let_def cx_case_Inr split: if_splits)
  obtain rows where rows: "r1 = r\<lparr>px_GrantedItems := px_GrantedItems r @ rows\<rparr>"
      "adds (recipient_of pp) (edition_of pp r) (pp_Gift pp) rows s s1"
      "map fr_DefinitionID rows = ordered_units (granted_products i products) (pp_Amount pp)"
    using grant_products_adds [OF g] by blast
  have "px_GrantedItems r1 = rows" by (simp add: rows(1) assms(2))
  with rows finishRewards_same [OF f] complete_unit_sale [OF l] show ?thesis by auto
qed

text \<open>The stages of a purchase that commits: reserving an edition, charging, delivering, completing the sale and logging.\<close>

definition purchase_stages ::
  "collaborators \<Rightarrow> purchase_params \<Rightarrow> offer \<Rightarrow> product list \<Rightarrow> purchase_result \<Rightarrow> catalog_store \<Rightarrow> catalog_store \<Rightarrow> catalog_store \<Rightarrow>
     catalog_store \<Rightarrow> catalog_store \<Rightarrow> catalog_store \<Rightarrow> bool" where
  "purchase_stages co pp i products r s s1 s2 s3 s4 s' \<longleftrightarrow>
     reserves (of_ID i) (pp_PlayerID pp) (px_LimitedUnitNumber r) s s1 \<and> (px_LimitedUnitNumber r = None \<longleftrightarrow> \<not> IsLimited i) \<and>
     pays co (pp_PlayerID pp) s1 s2 \<and>
     adds (recipient_of pp) (edition_of pp r) (pp_Gift pp) (px_GrantedItems r) s2 s3 \<and>
     (if plain_reward i
      then map fr_DefinitionID (px_GrantedItems r) = ordered_units (granted_products i products) (pp_Amount pp) \<and>
        completes_sale (of_ID i) (pp_PlayerID pp) (px_LimitedUnitNumber r) (px_GrantedItems r) s3 s4
      else px_GrantedItems r = [] \<and> s4 = s3) \<and>
     logs s4 s'"

lemma commitPurchase_stages:
  assumes "commitPurchase fault co c pp i products r0 s = Inr (r, s')" "px_GrantedItems r0 = []" "px_LimitedUnitNumber r0 = None"
  shows "\<exists>s1 s2 s3 s4 b. purchase_stages co pp i products r s s1 s2 s3 s4 s' \<and>
    charge fault co (pp_PlayerID pp) i pp s1 = Inr ((b, px_ChargedCredits r, px_ChargedPoints r), s2) \<and> px_Item r = px_Item r0"
proof -
  obtain g forum product where group: "groupSelection co c pp i = Inr (g, forum, product)"
    using assms(1) by (auto simp: commitPurchase_def)
  obtain r1 s1 where r1: "reserve_unit fault (pp_PlayerID pp) i r0 s = Inr (r1, s1)"
    using assms(1) group by (auto simp: commitPurchase_def cx_case_Inr split: if_splits)
  obtain n where n: "reserves (of_ID i) (pp_PlayerID pp) n s s1" "r1 = r0\<lparr>px_LimitedUnitNumber := n\<rparr>" "n = None \<longleftrightarrow> \<not> IsLimited i"
    using reserve_unit_reserves [OF r1 assms(3)] by blast
  obtain r2 where r2: "clone_bundle co pp i r1 = Inr r2"
    using assms(1) group r1 by (auto simp: commitPurchase_def cx_case_Inr split: if_splits)
  have same2: "px_LimitedUnitNumber r2 = n" "px_GrantedItems r2 = []" "px_Item r2 = px_Item r0"
    using r2 n(2) assms(2) by (auto simp: clone_bundle_def split: option.splits if_splits sum.splits)
  obtain b credits points s2 where ch: "charge fault co (pp_PlayerID pp) i pp s1 = Inr ((b, credits, points), s2)"
    using assms(1) group r1 r2 by (auto simp: commitPurchase_def cx_case_Inr split: if_splits)
  define r3 where "r3 = r2\<lparr>px_ChargedCredits := credits, px_ChargedPoints := points\<rparr>"
  define r4 where "r4 = (if IsCredits i then r3\<lparr>px_NewCreditsBalance := b\<rparr> else r3\<lparr>px_NewPointsBalance := b\<rparr>)"
  have same4: "px_LimitedUnitNumber r4 = n" "px_GrantedItems r4 = []" "px_ChargedCredits r4 = credits" "px_ChargedPoints r4 = points"
      "px_Item r4 = px_Item r0"
    by (simp_all add: r4_def r3_def same2)
  have pays: "pays co (pp_PlayerID pp) s1 s2" by (rule charge_pays [OF ch])
  have rest: "(if IsRoomBundle i \<or> IsService i then seq (logPurchase fault co pp i r4 credits points) (\<lambda>_. yield r4)
      else if IsPet i then (case of_PetTypeID i of None \<Rightarrow> stop ErrOfferDisabled
        | Some _ \<Rightarrow> seq (ask (case co_pets co of None \<Rightarrow> Inl ErrCommerceUnavailable | Some grant \<Rightarrow> grant pp i))
            (\<lambda>pet. seq (logPurchase fault co pp i (r4\<lparr>px_GrantedPet := Some pet\<rparr>) credits points) (\<lambda>_. yield (r4\<lparr>px_GrantedPet := Some pet\<rparr>))))
      else seq (deliver fault co c pp i products (g, forum, product) r4) (\<lambda>r5.
        seq (logPurchase fault co pp i r5 credits points) (\<lambda>_. yield r5))) s2 = Inr (r, s')"
    using assms(1) group r1 r2 ch unfolding r4_def r3_def
    by (auto simp: commitPurchase_def cx_case_Inr Let_def split: if_splits)
  show ?thesis
  proof (cases "plain_reward i")
    case False
    then have "logs s2 s'" "px_LimitedUnitNumber r = n" "px_GrantedItems r = []" "px_ChargedCredits r = credits" "px_ChargedPoints r = points"
        "px_Item r = px_Item r0"
      using rest same4 by (auto simp: plain_reward_def cx_case_Inr dest: logPurchase_logs split: if_splits option.splits)
    then have "purchase_stages co pp i products r s s1 s2 s2 s2 s'"
      using False n pays by (simp add: purchase_stages_def adds_nil)
    with ch \<open>px_ChargedCredits r = credits\<close> \<open>px_ChargedPoints r = points\<close> \<open>px_Item r = px_Item r0\<close> show ?thesis by blast
  next
    case True
    then obtain s4 where d: "deliver fault co c pp i products (g, forum, product) r4 s2 = Inr (r, s4)" and l: "logs s4 s'"
      using rest by (auto simp: plain_reward_def cx_case_Inr dest: logPurchase_logs split: if_splits)
    from deliver_stages [OF d same4(2)] obtain s3 where s3:
        "adds (recipient_of pp) (edition_of pp r4) (pp_Gift pp) (px_GrantedItems r) s2 s3"
        "completes_sale (of_ID i) (pp_PlayerID pp) (px_LimitedUnitNumber r4) (px_GrantedItems r) s3 s4"
        "map fr_DefinitionID (px_GrantedItems r) = ordered_units (granted_products i products) (pp_Amount pp)"
        "px_LimitedUnitNumber r = px_LimitedUnitNumber r4" "px_ChargedCredits r = px_ChargedCredits r4"
        "px_ChargedPoints r = px_ChargedPoints r4" "px_Item r = px_Item r4"
      by blast
    have "adds (recipient_of pp) (edition_of pp r) (pp_Gift pp) (px_GrantedItems r) s2 s3"
      using s3(1) by (simp only: s3(4))
    then have "purchase_stages co pp i products r s s1 s2 s3 s4 s'"
      unfolding purchase_stages_def using True n(1,3) pays l s3(2,3,4) same4(1) by (simp only: if_True simp_thms)
    with ch s3 same4 show ?thesis by auto
  qed
qed

lemma prepare_purchase_Inr:
  assumes "prepare_purchase co c pp0 = Inr (pp, i, products)"
  shows "cache_item (pp_CatalogItemID pp0) c = Some i \<and> of_Enabled i \<and> 0 < pp_PlayerID pp0 \<and>
    pp_PlayerID pp = pp_PlayerID pp0 \<and> pp_Amount pp = (if pp_Amount pp0 = 0 then 1 else pp_Amount pp0) \<and>
    pp_RecipientPlayerID pp = pp_RecipientPlayerID pp0 \<and> pp_Gift pp = pp_Gift pp0 \<and> pp_Free pp = pp_Free pp0 \<and>
    pp_OverrideCredits pp = pp_OverrideCredits pp0 \<and> pp_OverridePoints pp = pp_OverridePoints pp0 \<and>
    (\<not> IsRoomBundle i \<longrightarrow> products = cache_products (of_ID i) c) \<and>
    validateAmount i products (pp_Amount pp) (pp_OverrideCredits pp \<noteq> None \<or> pp_OverridePoints pp \<noteq> None) = None"
proof -
  define pp1 where "pp1 = (if pp_Amount pp0 = 0 then pp0\<lparr>pp_Amount := 1\<rparr> else pp0)"
  obtain j where j: "purchaseOffer co c pp1 = Inr j"
    using assms by (auto simp: prepare_purchase_def Let_def pp1_def [symmetric] split: sum.splits)
  have offer: "cache_item (pp_CatalogItemID pp0) c = Some j \<and> of_Enabled j \<and> 0 < pp_PlayerID pp0"
    using j by (auto simp: purchaseOffer_def pp1_def split: if_splits option.splits sum.splits)
  define pp2 where "pp2 = (if IsPet j \<and> pp_OperationKey pp1 = [] then pp1\<lparr>pp_OperationKey := the (co_operationKey co)\<rparr> else pp1)"
  have "pp = pp2 \<and> i = j \<and> (\<not> IsRoomBundle j \<longrightarrow> products = cache_products (of_ID j) c) \<and>
      validateAmount j products (pp_Amount pp2) (pp_OverrideCredits pp2 \<noteq> None \<or> pp_OverridePoints pp2 \<noteq> None) = None"
    using assms j
    by (auto simp: prepare_purchase_def Let_def pp1_def [symmetric] pp2_def [symmetric] IsRoomBundle_def
        split: sum.splits if_splits option.splits list.splits prod.splits)
  with offer show ?thesis by (auto simp: pp2_def pp1_def)
qed

lemma PurchaseWithin_stages:
  assumes "PurchaseWithin fault co c pp0 s = Inr (r, s')"
  shows "\<exists>pp i products s1 s2 s3 s4 b. prepare_purchase co c pp0 = Inr (pp, i, products) \<and> px_Item r = Some i \<and>
    purchase_stages co pp i products r s s1 s2 s3 s4 s' \<and>
    charge fault co (pp_PlayerID pp) i pp s1 = Inr ((b, px_ChargedCredits r, px_ChargedPoints r), s2)"
proof -
  obtain pp i products where p: "prepare_purchase co c pp0 = Inr (pp, i, products)"
      "commitPurchase fault co c pp i products (zero_result\<lparr>px_Item := Some i, px_Products := products\<rparr>) s = Inr (r, s')"
    using assms by (auto simp: PurchaseWithin_def)
  from commitPurchase_stages [OF p(2)] p(1) show ?thesis by (fastforce simp: zero_result_def)
qed

lemma stage_frames:
  assumes "purchase_stages co pp i products r s s1 s2 s3 s4 s'"
  shows "db_items (cs_db s1) = db_items (cs_db s)" "cs_nextItem s1 = cs_nextItem s" "balance_of (cs_db s1) q t = balance_of (cs_db s) q t"
    "db_items (cs_db s2) = db_items (cs_db s1)" "cs_nextItem s2 = cs_nextItem s1"
    "balance_of (cs_db s3) q t = balance_of (cs_db s2) q t"
    "db_items (cs_db s') = db_items (cs_db s3)" "cs_nextItem s' = cs_nextItem s3" "balance_of (cs_db s') q t = balance_of (cs_db s3) q t"
    "cs_columns s' = cs_columns s3"
proof -
  note S = assms [unfolded purchase_stages_def]
  have frame: "db_items d1 = db_items d \<and> balance_of d1 q t = balance_of d q t" if "d1 = d\<lparr>db_calls := m\<rparr>" for d d1 m q t
    using that by (simp only: balance_of_frame db.simps) simp
  have r: "(cs_db s1 = (cs_db s)\<lparr>db_calls := db_calls (cs_db s1)\<rparr>) \<and> cs_nextItem s1 = cs_nextItem s"
  proof (cases "px_LimitedUnitNumber r")
    case (Some k)
    then have "s1 = s\<lparr>cs_db := (cs_db s)\<lparr>db_calls := db_calls (cs_db s1)\<rparr>, cs_units := map (claim (of_ID i) k (pp_PlayerID pp)) (cs_units s)\<rparr>"
      using S by (simp add: reserves_def)
    then obtain m us where "s1 = s\<lparr>cs_db := (cs_db s)\<lparr>db_calls := m\<rparr>, cs_units := us\<rparr>" by blast
    then show ?thesis by simp
  next
    case None
    have "reserves (of_ID i) (pp_PlayerID pp) (px_LimitedUnitNumber r) s s1" using S by blast
    then have "s1 = s" by (simp only: None reserves_def option.case)
    then show ?thesis by simp
  qed
  show "db_items (cs_db s1) = db_items (cs_db s)" "cs_nextItem s1 = cs_nextItem s" "balance_of (cs_db s1) q t = balance_of (cs_db s) q t"
    using r frame by blast+
  have p: "s2 = s1\<lparr>cs_db := cs_db s2\<rparr>" "same_goods (cs_db s1) (cs_db s2)" using S by (simp_all add: pays_def)
  show "db_items (cs_db s2) = db_items (cs_db s1)" using p(2) by (simp add: same_goods_def)
  show "cs_nextItem s2 = cs_nextItem s1" by (subst p(1)) simp
  show "balance_of (cs_db s3) q t = balance_of (cs_db s2) q t" using S adds_same(10) by blast
  have l: "s' = s4\<lparr>cs_db := (cs_db s4)\<lparr>db_calls := db_calls (cs_db s')\<rparr>, cs_log := cs_log s'\<rparr>" using S by (simp add: logs_def)
  have c: "(cs_db s4 = (cs_db s3)\<lparr>db_calls := db_calls (cs_db s4)\<rparr>) \<and> cs_nextItem s4 = cs_nextItem s3 \<and> cs_columns s4 = cs_columns s3"
  proof (cases "plain_reward i \<and> px_LimitedUnitNumber r \<noteq> None")
    case True
    then obtain k where "px_LimitedUnitNumber r = Some k" "plain_reward i" by auto
    then have "s4 = s3\<lparr>cs_db := (cs_db s3)\<lparr>db_calls := db_calls (cs_db s4)\<rparr>,
        cs_units := map (linked (of_ID i) k (pp_PlayerID pp) (fr_ID (hd (px_GrantedItems r)))) (cs_units s3),
        cs_offers := map (advanced (of_ID i)) (cs_offers s3)\<rparr>"
      using S by (simp add: completes_sale_def)
    then obtain m us os where "s4 = s3\<lparr>cs_db := (cs_db s3)\<lparr>db_calls := m\<rparr>, cs_units := us, cs_offers := os\<rparr>" by blast
    then show ?thesis by simp
  qed (use S in \<open>auto simp: completes_sale_def split: if_splits\<close>)
  have l2: "(cs_db s' = (cs_db s4)\<lparr>db_calls := db_calls (cs_db s')\<rparr>) \<and> cs_nextItem s' = cs_nextItem s4 \<and> cs_columns s' = cs_columns s4"
  proof -
    obtain m lg where "s' = s4\<lparr>cs_db := (cs_db s4)\<lparr>db_calls := m\<rparr>, cs_log := lg\<rparr>" using l by blast
    then show ?thesis by simp
  qed
  show "db_items (cs_db s') = db_items (cs_db s3)" "cs_nextItem s' = cs_nextItem s3" "balance_of (cs_db s') q t = balance_of (cs_db s3) q t"
    "cs_columns s' = cs_columns s3"
    using c l2 frame by metis+
qed



subsection \<open>Limited editions\<close>

text \<open>A relation that transactions keep step by step.\<close>

definition within :: "(catalog_store \<Rightarrow> catalog_store \<Rightarrow> bool) \<Rightarrow> 'a cx \<Rightarrow> bool" where
  "within R f \<longleftrightarrow> (\<forall>s x s'. f s = Inr (x, s') \<longrightarrow> R s s')"

locale store_relation =
  fixes R :: "catalog_store \<Rightarrow> catalog_store \<Rightarrow> bool"
  assumes refl: "R s s" and trans: "R s s1 \<Longrightarrow> R s1 s2 \<Longrightarrow> R s s2"
begin

lemma yield: "within R (yield x)" by (simp add: within_def refl)
lemma stop: "within R (stop e)" by (simp add: within_def)
lemma ask: "within R (ask q)" by (simp add: within_def refl)

lemma seq: "within R f \<Longrightarrow> (\<And>x. within R (g x)) \<Longrightarrow> within R (seq f g)"
  unfolding within_def by auto (blast intro: trans)

lemma branch: "within R f \<Longrightarrow> within R g \<Longrightarrow> within R (if b then f else g)"
  by simp

lemma cases: "within R f \<Longrightarrow> (\<And>x. within R (g x)) \<Longrightarrow> within R (case ox of None \<Rightarrow> f | Some x \<Rightarrow> g x)"
  by (cases ox) simp_all

lemma statement: "(\<And>s. R s (snd (h (s\<lparr>cs_db := (cs_db s)\<lparr>db_calls := Suc (db_calls (cs_db s))\<rparr>\<rparr>)))) \<Longrightarrow> within R (sql fault h)"
  by (auto simp: within_def) (metis snd_conv)

lemma run: "within R f \<Longrightarrow> f s = Inr (x, s') \<Longrightarrow> R s s'"
  by (auto simp: within_def)

lemmas rules = yield stop ask seq branch cases

end

definition unit_key :: "limited_unit \<Rightarrow> ident \<times> i32" where
  "unit_key u = (lu_CatalogItemID u, lu_UnitNumber u)"

definition sold_units :: "ident \<Rightarrow> limited_unit list \<Rightarrow> nat" where
  "sold_units key us = length (filter (\<lambda>u. lu_CatalogItemID u = key \<and> lu_FurnitureItemID u \<noteq> None) us)"

definition offer_ok :: "limited_unit list \<Rightarrow> offer \<Rightarrow> bool" where
  "offer_ok us x \<longleftrightarrow> 0 \<le> sint (of_LimitedSells x) \<and> sint (of_LimitedSells x) \<le> sint (of_LimitedStack x) \<and>
     sint (of_LimitedSells x) \<le> int (sold_units (of_ID x) us)"

definition store_ok :: "catalog_store \<Rightarrow> bool" where
  "store_ok s \<longleftrightarrow> distinct (map unit_key (cs_units s)) \<and>
     (\<forall>u \<in> set (cs_units s). \<forall>f. lu_FurnitureItemID u = Some f \<longrightarrow> lu_OwnerPlayerID u \<noteq> None \<and> f < cs_nextItem s) \<and>
     (\<forall>u \<in> set (cs_units s). \<forall>v \<in> set (cs_units s). lu_FurnitureItemID u \<noteq> None \<longrightarrow> lu_FurnitureItemID u = lu_FurnitureItemID v \<longrightarrow> u = v) \<and>
     (\<forall>u \<in> set (cs_units s). lu_CatalogItemID u < cs_nextOffer s) \<and>
     distinct (map of_ID (cs_offers s)) \<and>
     (\<forall>x \<in> set (cs_offers s). of_ID x < cs_nextOffer s \<and> offer_ok (cs_units s) x)"

lemma store_okD:
  assumes "store_ok s"
  shows "distinct (map unit_key (cs_units s))"
    "u \<in> set (cs_units s) \<Longrightarrow> lu_FurnitureItemID u = Some f \<Longrightarrow> lu_OwnerPlayerID u \<noteq> None \<and> f < cs_nextItem s"
    "u \<in> set (cs_units s) \<Longrightarrow> v \<in> set (cs_units s) \<Longrightarrow> lu_FurnitureItemID u = Some f \<Longrightarrow> lu_FurnitureItemID v = Some f \<Longrightarrow> u = v"
    "u \<in> set (cs_units s) \<Longrightarrow> lu_CatalogItemID u < cs_nextOffer s"
    "x \<in> set (cs_offers s) \<Longrightarrow> of_ID x < cs_nextOffer s \<and> offer_ok (cs_units s) x"
    "distinct (map of_ID (cs_offers s))"
  using assms unfolding store_ok_def by (blast, blast, (metis option.distinct(1)), blast, blast, blast)

text \<open>A row that somebody has read: nobody else has the same version of it with other contents.\<close>

definition read_ok :: "offer \<Rightarrow> catalog_store \<Rightarrow> bool" where
  "read_ok i s \<longleftrightarrow> of_ID i < cs_nextOffer s \<and>
     (\<forall>x \<in> set (cs_offers s). of_ID x = of_ID i \<longrightarrow> of_Version i \<le> of_Version x \<and> (of_Version x = of_Version i \<longrightarrow> x = i))"

text \<open>What happens to the tables: those of limited editions stay well-formed, sold units stay as they are, read rows stay
  known, and no player redeems a voucher twice.\<close>

definition evolves :: "catalog_store \<Rightarrow> catalog_store \<Rightarrow> bool" where
  "evolves s s' \<longleftrightarrow> (distinct (cs_redemptions s) \<longrightarrow> distinct (cs_redemptions s')) \<and> (store_ok s \<longrightarrow> store_ok s' \<and>
     (\<forall>u \<in> set (cs_units s). lu_FurnitureItemID u \<noteq> None \<longrightarrow> u \<in> set (cs_units s')) \<and> (\<forall>i. read_ok i s \<longrightarrow> read_ok i s'))"

interpretation ev: store_relation evolves
  by unfold_locales (auto simp: evolves_def)

lemma evolves_frame:
  assumes "cs_units s' = cs_units s" "cs_offers s' = cs_offers s" "cs_nextOffer s' = cs_nextOffer s" "cs_nextItem s \<le> cs_nextItem s'"
    "distinct (cs_redemptions s) \<Longrightarrow> distinct (cs_redemptions s')"
  shows "evolves s s'"
  using assms unfolding evolves_def store_ok_def read_ok_def by (auto dest: order.strict_trans2)

lemma statement_frame:
  assumes "\<And>s. cs_units (snd (h s)) = cs_units s \<and> cs_offers (snd (h s)) = cs_offers s \<and> cs_nextOffer (snd (h s)) = cs_nextOffer s \<and>
    cs_nextItem s \<le> cs_nextItem (snd (h s)) \<and> cs_redemptions (snd (h s)) = cs_redemptions s"
  shows "within evolves (sql fault h)"
proof (rule ev.statement)
  fix s :: catalog_store
  let ?s = "s\<lparr>cs_db := (cs_db s)\<lparr>db_calls := Suc (db_calls (cs_db s))\<rparr>\<rparr>"
  show "evolves s (snd (h ?s))" by (rule evolves_frame) (use assms [of ?s] in simp_all)
qed

subsubsection \<open>Selling a unit\<close>

lemma sint_Suc:
  fixes a b :: i32
  assumes "sint a < sint b" shows "sint (a + 1) = sint a + 1"
proof -
  have "sint b < 2 ^ 31" "- (2 ^ 31) \<le> sint a" using sint_range_size [of b] sint_range_size [of a] by (simp_all add: word_size)
  then show ?thesis using assms by (simp add: sint_word_ariths(1) signed_take_bit_int_eq_self)
qed

lemma lowest_free_unit:
  assumes "lowest_free key us = Some k" shows "\<exists>u \<in> set us. free_unit key u \<and> lu_UnitNumber u = k"
proof -
  obtain v fs where f: "filter (free_unit key) us = v # fs" "k = word_of_int (Min (set (map (sint \<circ> lu_UnitNumber) (v # fs))))"
    using assms by (auto simp: lowest_free_def split: list.splits)
  have "Min (set (map (sint \<circ> lu_UnitNumber) (v # fs))) \<in> set (map (sint \<circ> lu_UnitNumber) (v # fs))" by (rule Min_in) simp_all
  then obtain u where u: "u \<in> set (v # fs)" "Min (set (map (sint \<circ> lu_UnitNumber) (v # fs))) = sint (lu_UnitNumber u)" by auto
  from u(1) have "u \<in> set (filter (free_unit key) us)" unfolding f(1) .
  then have "u \<in> set us \<and> free_unit key u" by simp
  with u(2) f(2) show ?thesis by auto
qed

lemma map_units_ok:
  assumes "\<And>u. u \<in> set us \<Longrightarrow> unit_key (h u) = unit_key u"
  shows "map unit_key (map h us) = map unit_key us"
  using assms by simp

lemma claim_fields [simp]:
  "unit_key (claim key n p u) = unit_key u" "lu_FurnitureItemID (claim key n p u) = lu_FurnitureItemID u"
  "lu_CatalogItemID (claim key n p u) = lu_CatalogItemID u"
  by (simp_all add: claim_def unit_key_def)

lemma sold_units_map:
  assumes "\<And>u. u \<in> set us \<Longrightarrow> lu_CatalogItemID (h u) = lu_CatalogItemID u"
    "\<And>u. u \<in> set us \<Longrightarrow> lu_FurnitureItemID u \<noteq> None \<Longrightarrow> lu_FurnitureItemID (h u) \<noteq> None"
  shows "sold_units key us \<le> sold_units key (map h us)"
  using assms
proof (induction us)
  case (Cons u us)
  then have "sold_units key us \<le> sold_units key (map h us)" by simp
  then show ?case using Cons.prems(1,2) [of u] by (auto simp: sold_units_def)
qed simp

lemma sold_units_less:
  assumes "\<And>u. u \<in> set us \<Longrightarrow> lu_CatalogItemID (h u) = lu_CatalogItemID u"
    "\<And>u. u \<in> set us \<Longrightarrow> lu_FurnitureItemID u \<noteq> None \<Longrightarrow> lu_FurnitureItemID (h u) \<noteq> None"
    "v \<in> set us" "lu_CatalogItemID v = key" "lu_FurnitureItemID v = None" "lu_FurnitureItemID (h v) \<noteq> None"
  shows "sold_units key us < sold_units key (map h us)"
  using assms
proof (induction us)
  case (Cons u us)
  have le: "sold_units key us \<le> sold_units key (map h us)" using Cons.prems by (intro sold_units_map) auto
  show ?case
  proof (cases "v \<in> set us")
    case True
    then have "sold_units key us < sold_units key (map h us)" using Cons by auto
    then show ?thesis using Cons.prems(1,2) [of u] by (auto simp: sold_units_def)
  next
    case False
    then have "u = v" using Cons.prems(3) by simp
    then show ?thesis using Cons.prems(1) [of v] Cons.prems(4-6) le by (simp add: sold_units_def)
  qed
qed simp

lemma reserves_evolves:
  assumes "reserves key player n s s'" shows "evolves s s'"
proof (cases n)
  case None
  then show ?thesis using assms ev.refl by (simp add: reserves_def)
next
  case (Some k)
  then obtain m where s': "s' = s\<lparr>cs_db := (cs_db s)\<lparr>db_calls := m\<rparr>, cs_units := map (claim key k player) (cs_units s)\<rparr>"
    using assms by (auto simp: reserves_def)
  have sold: "claim key k player u = u" if "store_ok s" "u \<in> set (cs_units s)" "lu_FurnitureItemID u \<noteq> None" for u
    using store_okD(2) [OF that(1,2)] that(3) by (auto simp: claim_def free_unit_def)
  show ?thesis unfolding evolves_def
  proof (intro impI conjI allI ballI)
    show "distinct (cs_redemptions s')" if "distinct (cs_redemptions s)" using that by (simp add: s')
  next
    assume ok: "store_ok s"
    have d: "distinct (map unit_key (cs_units s'))" using store_okD(1) [OF ok] by (simp add: s' comp_def)
    have "sold_units i (cs_units s) \<le> sold_units i (cs_units s')" for i
      unfolding s' by (simp add: sold_units_map)
    then have offers: "offer_ok (cs_units s') x" if "x \<in> set (cs_offers s)" for x
      using store_okD(5) [OF ok that] unfolding offer_ok_def by (meson of_nat_mono order_trans)
    have own: "lu_OwnerPlayerID (claim key k player u) \<noteq> None" if "u \<in> set (cs_units s)" "lu_FurnitureItemID u = Some f" for u f
      using store_okD(2) [OF ok that] sold [OF ok that(1)] that(2) by simp
    show "store_ok s'" unfolding store_ok_def
      using d offers own store_okD(2,4,5,6) [OF ok] store_okD(3) [OF ok] sold [OF ok]
      by (auto simp: s')
    show "u \<in> set (cs_units s')" if "u \<in> set (cs_units s)" "lu_FurnitureItemID u \<noteq> None" for u
      using sold [OF ok that] that(1) by (auto simp: s' intro: image_eqI [of _ _ u])
    show "read_ok i s'" if "read_ok i s" for i using that by (simp add: read_ok_def s')
  qed
qed

lemma linked_fields [simp]:
  "unit_key (linked key n p f u) = unit_key u" "lu_CatalogItemID (linked key n p f u) = lu_CatalogItemID u"
  "lu_OwnerPlayerID (linked key n p f u) = lu_OwnerPlayerID u"
  by (simp_all add: linked_def unit_key_def)

lemma sale_evolves:
  assumes "completes_sale key player n rows s s'"
    and "rows \<noteq> [] \<Longrightarrow> fr_ID (hd rows) < cs_nextItem s \<and> (\<forall>u \<in> set (cs_units s). lu_FurnitureItemID u \<noteq> Some (fr_ID (hd rows)))"
  shows "evolves s s'"
proof (cases n)
  case None
  then show ?thesis using assms ev.refl by (simp add: completes_sale_def)
next
  case (Some k)
  let ?l = "linked key k player (fr_ID (hd rows))"
  from assms(1) Some obtain m where s': "s' = s\<lparr>cs_db := (cs_db s)\<lparr>db_calls := m\<rparr>, cs_units := map ?l (cs_units s),
      cs_offers := map (advanced key) (cs_offers s)\<rparr>" and rows: "rows \<noteq> []" and hit: "list_ex (completes key k player) (cs_units s)"
    by (auto simp: completes_sale_def)
  have fresh: "fr_ID (hd rows) < cs_nextItem s" "lu_FurnitureItemID u \<noteq> Some (fr_ID (hd rows))" if "u \<in> set (cs_units s)" for u
    using assms(2) [OF rows] that by auto
  have sold: "?l u = u" if "lu_FurnitureItemID u \<noteq> None" for u using that by (auto simp: linked_def completes_def)
  show ?thesis unfolding evolves_def
  proof (intro impI conjI allI ballI)
    show "distinct (cs_redemptions s')" if "distinct (cs_redemptions s)" using that by (simp add: s')
  next
    assume ok: "store_ok s"
    obtain v where v: "v \<in> set (cs_units s)" "completes key k player v" using hit by (auto simp: list_ex_iff)
    have only: "u = v" if "u \<in> set (cs_units s)" "completes key k player u" for u
    proof -
      have "unit_key u = unit_key v" using that v by (simp add: unit_key_def completes_def)
      then show ?thesis using store_okD(1) [OF ok] that(1) v(1) by (auto simp: distinct_map inj_on_def)
    qed
    have more: "sold_units key (cs_units s) < sold_units key (map ?l (cs_units s))"
      using v by (intro sold_units_less [of _ _ v]) (auto simp: sold linked_def completes_def)
    have least: "sold_units i (cs_units s) \<le> sold_units i (map ?l (cs_units s))" for i
      by (intro sold_units_map) (auto simp: sold)
    have offers: "of_ID (advanced key x) < cs_nextOffer s \<and> offer_ok (map ?l (cs_units s)) (advanced key x)" if x: "x \<in> set (cs_offers s)" for x
    proof (cases "advances key x")
      case True
      then have "sint (of_LimitedSells x + 1) = sint (of_LimitedSells x) + 1" "of_ID x = key"
        "sint (of_LimitedSells x) < sint (of_LimitedStack x)"
        using sint_Suc by (auto simp: advances_def)
      then show ?thesis using store_okD(5) [OF ok x] more True by (simp add: advanced_def offer_ok_def)
    next
      case False
      then show ?thesis using store_okD(5) [OF ok x] least [of "of_ID x"] by (simp add: advanced_def offer_ok_def)
    qed
    have item: "lu_FurnitureItemID (?l u) = (if u = v then Some (fr_ID (hd rows)) else lu_FurnitureItemID u)" if "u \<in> set (cs_units s)" for u
    proof (cases "u = v")
      case True
      then show ?thesis using v(2) by (simp add: linked_def)
    next
      case False
      then have "\<not> completes key k player u" using only [OF that] by blast
      then show ?thesis using False by (simp add: linked_def)
    qed
    have owner: "lu_OwnerPlayerID v \<noteq> None" using v(2) by (simp add: completes_def)
    show "store_ok s'" unfolding store_ok_def
    proof (intro conjI ballI allI impI)
      show "distinct (map unit_key (cs_units s'))" using store_okD(1) [OF ok] by (simp add: s' comp_def)
      show "distinct (map of_ID (cs_offers s'))" using store_okD(6) [OF ok] by (simp add: s' comp_def advanced_def if_distrib cong: if_cong)
    next
      fix u f assume "u \<in> set (cs_units s')" "lu_FurnitureItemID u = Some f"
      then obtain w where "w \<in> set (cs_units s)" "u = ?l w" "lu_FurnitureItemID (?l w) = Some f" by (auto simp: s')
      then show "lu_OwnerPlayerID u \<noteq> None" "f < cs_nextItem s'"
        using item [of w] store_okD(2) [OF ok, of w f] fresh(1) [of w] owner by (auto simp: s' split: if_splits)
    next
      fix a b assume "a \<in> set (cs_units s')" "b \<in> set (cs_units s')" and some: "lu_FurnitureItemID a \<noteq> None"
        and same: "lu_FurnitureItemID a = lu_FurnitureItemID b"
      then obtain w z where wz: "w \<in> set (cs_units s)" "a = ?l w" "z \<in> set (cs_units s)" "b = ?l z" by (auto simp: s')
      show "a = b"
      proof (cases "w = v \<or> z = v")
        case True
        then have "w = z" using wz item [of w] item [of z] same fresh(2) [of w] fresh(2) [of z] by (auto split: if_splits)
        with wz show ?thesis by simp
      next
        case False
        then have "w = z" using wz item [of w] item [of z] same some store_okD(3) [OF ok, of w z] by auto
        with wz show ?thesis by simp
      qed
    next
      fix u assume "u \<in> set (cs_units s')"
      then show "lu_CatalogItemID u < cs_nextOffer s'" using store_okD(4) [OF ok] by (auto simp: s')
    next
      fix x assume "x \<in> set (cs_offers s')"
      then show "of_ID x < cs_nextOffer s'" "offer_ok (cs_units s') x" using offers by (auto simp: s')
    qed
    show "u \<in> set (cs_units s')" if "u \<in> set (cs_units s)" "lu_FurnitureItemID u \<noteq> None" for u
      using sold [OF that(2)] that(1) by (auto simp: s' intro: image_eqI [of _ _ u])
    have adv: "of_ID (advanced key x) = of_ID x" "advanced key x = x \<or> of_Version (advanced key x) = Suc (of_Version x)" for x
      by (simp_all add: advanced_def)
    show "read_ok i s'" if i: "read_ok i s" for i unfolding read_ok_def
    proof (intro conjI ballI impI)
      show "of_ID i < cs_nextOffer s'" using i by (simp add: read_ok_def s')
    next
      fix y assume "y \<in> set (cs_offers s')" "of_ID y = of_ID i"
      then obtain x where x: "x \<in> set (cs_offers s)" "y = advanced key x" "of_ID x = of_ID i" using adv(1) by (auto simp: s')
      then have v: "of_Version i \<le> of_Version x" "of_Version x = of_Version i \<longrightarrow> x = i" using i by (auto simp: read_ok_def)
      show "of_Version i \<le> of_Version y" using v adv(2) [of x] x(2) by auto
      show "y = i" if "of_Version y = of_Version i" using that v adv(2) [of x] x(2) by auto
    qed
  qed
qed

lemma sale_redemptions:
  assumes "completes_sale key player n rows s s'" shows "cs_redemptions s' = cs_redemptions s"
proof (cases n)
  case (Some k)
  with assms obtain m us os where "s' = s\<lparr>cs_db := (cs_db s)\<lparr>db_calls := m\<rparr>, cs_units := us, cs_offers := os\<rparr>"
    unfolding completes_sale_def by (simp only: option.case) blast
  then show ?thesis by simp
qed (use assms in \<open>simp add: completes_sale_def\<close>)

lemma purchase_evolves:
  assumes "purchase_stages co pp i products r s s1 s2 s3 s4 s'" shows "evolves s s'"
proof -
  note S = assms [unfolded purchase_stages_def] and F = stage_frames [OF assms]
  have r: "reserves (of_ID i) (pp_PlayerID pp) (px_LimitedUnitNumber r) s s1" and p: "pays co (pp_PlayerID pp) s1 s2" and
    a: "adds (recipient_of pp) (edition_of pp r) (pp_Gift pp) (px_GrantedItems r) s2 s3" and l: "logs s4 s'"
    using S by blast+
  have 1: "evolves s s1" by (rule reserves_evolves [OF r])
  obtain d where d: "s2 = s1\<lparr>cs_db := d\<rparr>" using p by (auto simp: pays_def)
  have 2: "evolves s1 s2" by (rule evolves_frame) (simp_all add: d)
  have 3: "evolves s2 s3" by (rule evolves_frame) (use adds_same [OF a] in simp_all)
  have 4: "evolves s3 s4" if ok: "store_ok s"
  proof (cases "plain_reward i")
    case True
    have ok2: "store_ok s2" using 1 2 ok by (simp add: evolves_def)
    have "fr_ID (hd (px_GrantedItems r)) \<in> {cs_nextItem s2..<cs_nextItem s3}" if "px_GrantedItems r \<noteq> []"
      using adds_ids [OF a] that by (metis imageI list.set_sel(1))
    moreover have "f < cs_nextItem s2" if "u \<in> set (cs_units s3)" "lu_FurnitureItemID u = Some f" for u f
      using store_okD(2) [OF ok2] that adds_same(1) [OF a] by metis
    ultimately have "px_GrantedItems r \<noteq> [] \<Longrightarrow> fr_ID (hd (px_GrantedItems r)) < cs_nextItem s3 \<and>
        (\<forall>u \<in> set (cs_units s3). lu_FurnitureItemID u \<noteq> Some (fr_ID (hd (px_GrantedItems r))))"
      by (fastforce)
    then show ?thesis using sale_evolves True S by metis
  next
    case False
    then show ?thesis using S ev.refl by simp
  qed
  obtain m lg where "s' = s4\<lparr>cs_db := (cs_db s4)\<lparr>db_calls := m\<rparr>, cs_log := lg\<rparr>" using l by (auto simp: logs_def)
  then have 5: "evolves s4 s'" by (intro evolves_frame) simp_all
  show ?thesis
  proof (cases "store_ok s")
    case True
    from ev.trans [OF ev.trans [OF ev.trans [OF ev.trans [OF 1 2] 3] 4 [OF True]] 5] show ?thesis .
  next
    case False
    have "cs_redemptions s4 = cs_redemptions s3"
    proof (cases "plain_reward i")
      case True
      then have "completes_sale (of_ID i) (pp_PlayerID pp) (px_LimitedUnitNumber r) (px_GrantedItems r) s3 s4" using S by simp
      then show ?thesis by (rule sale_redemptions)
    next
      case False
      then show ?thesis using S by simp
    qed
    then show ?thesis using False ev.trans [OF ev.trans [OF 1 2] 3] 5 by (simp add: evolves_def)
  qed
qed

subsubsection \<open>Administration\<close>

lemmas cx_defs = FindPageByID_def catalog_FindItemByID_def find_definition_def ListPages_def ListItems_def

lemma reads_evolve:
  "within evolves (FindPageByID fault key)" "within evolves (catalog_FindItemByID fault key)"
  "within evolves (find_definition fault key)" "within evolves (ListPages fault)" "within evolves (ListItems fault)"
  "within evolves (sql fault (\<lambda>s. (f s, s)))"
  unfolding cx_defs by (rule statement_frame; simp)+

lemma validateItem_evolves: "within evolves (validateItem fault co i)"
  unfolding validateItem_def Let_def by (intro ev.rules reads_evolve)

lemma validatePage_evolves: "within evolves (validatePage fault co p)"
  unfolding validatePage_def by (intro ev.rules reads_evolve)

lemma read_item_evolves: "within evolves (read_item fault key)"
  unfolding read_item_def by (intro ev.rules reads_evolve)

lemma Refresh_evolves: "within evolves (Refresh fault co)"
  unfolding Refresh_def by (intro ev.rules reads_evolve)

lemma pages_evolve: "within evolves (CreatePage fault co p)" "within evolves (UpdatePage fault co key qp)"
  unfolding CreatePage_def UpdatePage_def catalog_UpdatePage_def Let_def
  by (intro ev.rules reads_evolve validatePage_evolves statement_frame; simp split: if_splits)+

lemma SaveVoucher_evolves: "within evolves (SaveVoucher fault co v)"
proof -
  have "within evolves (UpsertVoucher fault co w)" for w
    unfolding within_def by (auto simp: UpsertVoucher_def Let_def split: if_splits intro!: evolves_frame)
  then show ?thesis unfolding SaveVoucher_def Let_def by (intro ev.rules)
qed

lemma find_voucher_evolves: "within evolves (find_voucher fault co now code)"
  unfolding find_voucher_def FindVoucherByCode_def CountVoucherRedemptions_def by (intro ev.rules reads_evolve)

lemma validateItem_same:
  "validateItem fault co i s = Inr (u, s') \<Longrightarrow> s' = s\<lparr>cs_db := (cs_db s)\<lparr>db_calls := db_calls (cs_db s')\<rparr>\<rparr> \<and> 0 \<le> sint (of_LimitedStack i)"
  by (auto simp: validateItem_def Let_def cx_defs cx_case_Inr split: if_splits option.splits)

lemma read_item_ok:
  assumes "read_item fault key s = Inr (i, s')" "store_ok s"
  shows "read_ok i s'"
proof -
  have i: "List.find (\<lambda>i. of_ID i = key \<and> \<not> of_Deleted i) (cs_offers s) = Some i" and s': "cs_offers s' = cs_offers s" "cs_nextOffer s' = cs_nextOffer s"
    using assms(1) by (auto simp: read_item_def catalog_FindItemByID_def cx_case_Inr split: if_splits option.splits)
  then have "i \<in> set (cs_offers s)" by (auto simp: find_Some_iff)
  then show ?thesis using store_okD(5,6) [OF assms(2)] by (auto simp: read_ok_def s' distinct_map inj_on_def)
qed

text \<open>A patch keeps the identity and the version of an offer; the sales stay or, for a room bundle, start again at zero.\<close>

lemma patched_field: "(\<And>v y. f (upd v y) = f y) \<Longrightarrow> f (patched field upd x) = f x"
  by (simp add: patched_def split: option.splits)

lemma patched_either: "(\<And>v y. f (upd v y) = f y \<or> f (upd v y) = z) \<Longrightarrow> f (patched field upd x) = f x \<or> f (patched field upd x) = z"
  by (simp add: patched_def split: option.splits)

lemma bundle_fields_simps [simp]:
  "of_ID (bundle_fields v i) = of_ID i" "of_Version (bundle_fields v i) = of_Version i"
  "of_LimitedSells (bundle_fields v i) = of_LimitedSells i \<or> of_LimitedSells (bundle_fields v i) = 0"
  by (simp_all add: bundle_fields_def Let_def)

lemma applyItemPatch_fields:
  "of_ID (applyItemPatch ip i) = of_ID i" "of_Version (applyItemPatch ip i) = of_Version i"
  "of_LimitedSells (applyItemPatch ip i) = of_LimitedSells i \<or> of_LimitedSells (applyItemPatch ip i) = 0"
proof -
  show "of_ID (applyItemPatch ip i) = of_ID i" "of_Version (applyItemPatch ip i) = of_Version i"
    unfolding applyItemPatch_def Let_def by (simp_all add: patched_field [of of_ID] patched_field [of of_Version])
  have "of_LimitedSells (patched field bundle_fields x) = of_LimitedSells x \<or> of_LimitedSells (patched field bundle_fields x) = 0" for field x
    by (rule patched_either) simp
  note resets = this [of "ip_RoomBundleTemplateRoomID ip"]
  define j where "j = patched (ip_PetProductCode ip) (\<lambda>v i. i\<lparr>of_PetProductCode := TrimSpace v\<rparr>)
    (patched (ip_PetTypeID ip) (\<lambda>v i. i\<lparr>of_PetTypeID := v\<rparr>) (patched (ip_RewardKind ip) (\<lambda>v i. i\<lparr>of_RewardKind := v\<rparr>)
    (patched (ip_DefinitionID ip) (\<lambda>v i. i\<lparr>of_DefinitionID := v\<rparr>) (patched (ip_PageID ip) (\<lambda>v i. i\<lparr>of_PageID := v\<rparr>) i))))"
  have "of_LimitedSells j = of_LimitedSells i" unfolding j_def by (simp add: patched_field [of of_LimitedSells])
  moreover have "of_LimitedSells (applyItemPatch ip i) = of_LimitedSells (patched (ip_RoomBundleTemplateRoomID ip) bundle_fields j)"
    unfolding applyItemPatch_def Let_def j_def by (simp add: patched_field [of of_LimitedSells])
  ultimately show "of_LimitedSells (applyItemPatch ip i) = of_LimitedSells i \<or> of_LimitedSells (applyItemPatch ip i) = 0"
    using resets [of j] by simp
qed

lemma itemValues_fields [simp]:
  "of_ID (itemValues i) = of_ID i" "of_LimitedSells (itemValues i) = of_LimitedSells i" "of_LimitedStack (itemValues i) = of_LimitedStack i"
  by (simp_all add: itemValues_def)

lemma series_distinct: "distinct (series q)"
proof -
  have "sint (word_of_int k :: i32) = k" if "1 \<le> k" "k \<le> sint q" for k
  proof -
    have "sint q < 2 ^ 31" using sint_range_size [of q] by (simp add: word_size)
    then show ?thesis using that by (simp add: sint_sbintrunc' signed_take_bit_int_eq_self)
  qed
  then have "inj_on (word_of_int :: int \<Rightarrow> i32) (set [1..sint q])" by (intro inj_onI) (metis atLeastAtMost_iff set_upto)
  then show ?thesis by (simp add: series_def distinct_map)
qed

text \<open>New units do not disturb the others.\<close>

lemma new_units_evolve:
  assumes s': "s' = s\<lparr>cs_db := d, cs_units := filter keep (cs_units s) @ map (new_unit key) ns\<rparr>"
    and "\<And>u. u \<in> set (cs_units s) \<Longrightarrow> lu_OwnerPlayerID u \<noteq> None \<Longrightarrow> keep u" "distinct ns"
    and "\<And>u. u \<in> set (cs_units s) \<Longrightarrow> lu_CatalogItemID u = key \<Longrightarrow> lu_UnitNumber u \<notin> set ns" "key < cs_nextOffer s"
  shows "evolves s s'"
  unfolding evolves_def
proof (intro impI conjI allI ballI)
  show "distinct (cs_redemptions s')" if "distinct (cs_redemptions s)" using that by (simp add: s')
next
  assume ok: "store_ok s"
  have kept: "keep u" if "u \<in> set (cs_units s)" "lu_FurnitureItemID u \<noteq> None" for u
    using assms(2) [OF that(1)] store_okD(2) [OF ok that(1)] that(2) by auto
  have new [simp]: "lu_FurnitureItemID (new_unit key n) = None" "unit_key (new_unit key n) = (key, n)" "lu_CatalogItemID (new_unit key n) = key" for n
    by (simp_all add: new_unit_def unit_key_def)
  have "sold_units i (cs_units s') = sold_units i (cs_units s)" for i
    using kept by (auto simp: s' sold_units_def filter_map comp_def intro!: arg_cong [of _ _ length] filter_cong)
  then have offers: "offer_ok (cs_units s') x" if "x \<in> set (cs_offers s)" for x
    using store_okD(5) [OF ok that] by (simp add: offer_ok_def)
  have inj: "inj_on (Pair key) (set ns)" by (simp add: inj_on_def)
  have "distinct (map unit_key (filter keep (cs_units s)))" by (rule distinct_map_filter [OF store_okD(1) [OF ok]])
  moreover have "unit_key ` {x \<in> set (cs_units s). keep x} \<inter> Pair key ` set ns = {}"
    using assms(4) by (auto simp: unit_key_def)
  ultimately have d: "distinct (map unit_key (cs_units s'))"
    using assms(3) inj by (simp add: s' comp_def distinct_map)
  show "store_ok s'" unfolding store_ok_def
    using d offers store_okD(2,4,5,6) [OF ok] store_okD(3) [OF ok] assms(5)
    by (auto simp: s')
  show "u \<in> set (cs_units s')" if "u \<in> set (cs_units s)" "lu_FurnitureItemID u \<noteq> None" for u
    using kept that by (simp add: s')
  show "read_ok i s'" if "read_ok i s" for i using that by (simp add: read_ok_def s')
qed

text \<open>An update of offers that counts their versions.\<close>

lemma offers_map_evolve:
  assumes s': "s' = s\<lparr>cs_db := d, cs_offers := map h (cs_offers s)\<rparr>"
    and ID: "\<And>x. of_ID (h x) = of_ID x" and version: "\<And>x. h x = x \<or> of_Version (h x) = Suc (of_Version x)"
    and ok: "\<And>x. store_ok s \<Longrightarrow> x \<in> set (cs_offers s) \<Longrightarrow> offer_ok (cs_units s) (h x)"
  shows "evolves s s'"
  unfolding evolves_def
proof (intro impI conjI allI ballI)
  show "distinct (cs_redemptions s')" if "distinct (cs_redemptions s)" using that by (simp add: s')
next
  assume s: "store_ok s"
  have "distinct (map of_ID (cs_offers s'))" using store_okD(6) [OF s] by (simp add: s' comp_def ID)
  moreover have "of_ID x < cs_nextOffer s' \<and> offer_ok (cs_units s') x" if "x \<in> set (cs_offers s')" for x
    using that ok [OF s] store_okD(5) [OF s] by (auto simp: s' ID)
  ultimately show "store_ok s'" using store_okD(1-4) [OF s] unfolding store_ok_def
    by (auto simp: s' dest: store_okD(3) [OF s])
  show "u \<in> set (cs_units s')" if "u \<in> set (cs_units s)" for u using that by (simp add: s')
  show "read_ok k s'" if k: "read_ok k s" for k
  proof -
    have "of_Version k \<le> of_Version (h x) \<and> (of_Version (h x) = of_Version k \<longrightarrow> h x = k)" if "x \<in> set (cs_offers s)" "of_ID (h x) = of_ID k" for x
    proof -
      have "of_Version k \<le> of_Version x" "of_Version x = of_Version k \<longrightarrow> x = k" using k that ID by (auto simp: read_ok_def)
      then show ?thesis using version [of x] by auto
    qed
    then show ?thesis using k by (auto simp: read_ok_def s')
  qed
qed

lemma CreateItem_evolves: "within evolves (CreateItem fault co input)"
  unfolding within_def
proof (intro allI impI)
  fix s x s'
  assume run: "CreateItem fault co input s = Inr (x, s')"
  define i where "i = input\<lparr>of_ID := 0, of_PetProductCode := TrimSpace (of_PetProductCode input), of_Name := TrimSpace (of_Name input),
            of_LimitedSells := 0, of_ScheduledAt := None\<rparr>"
  obtain s1 s2 row where v: "validateItem fault co i s = Inr ((), s1)" and c: "catalog_CreateItem fault i s1 = Inr (row, s2)"
    and u: "of_LimitedStack row = 0 \<and> s' = s2 \<or> CreateLimitedUnits fault (of_ID row) (of_LimitedStack row) s2 = Inr ((), s')"
    using run by (auto simp: CreateItem_def Let_def i_def [symmetric] cx_case_Inr split: if_splits)
  have s1: "evolves s s1" by (rule ev.run [OF validateItem_evolves v])
  have stack: "0 \<le> sint (of_LimitedStack i)" using validateItem_same [OF v] by simp
  obtain m where s2: "s2 = s1\<lparr>cs_db := (cs_db s1)\<lparr>db_calls := m\<rparr>, cs_offers := cs_offers s1 @ [row], cs_nextOffer := cs_nextOffer s1 + 1\<rparr>"
    and row: "row = (itemValues i)\<lparr>of_ID := cs_nextOffer s1, of_Version := 1, of_Deleted := False\<rparr>"
    using c by (auto simp: catalog_CreateItem_def Let_def)
  have "evolves s1 s2" unfolding evolves_def
  proof (intro impI conjI allI ballI)
    show "distinct (cs_redemptions s2)" if "distinct (cs_redemptions s1)" using that by (simp add: s2)
  next
    assume ok: "store_ok s1"
    have "offer_ok (cs_units s1) row" using stack by (simp add: offer_ok_def row i_def)
    moreover have "cs_nextOffer s1 \<notin> of_ID ` set (cs_offers s1)" using store_okD(5) [OF ok] by fastforce
    ultimately show "store_ok s2" using store_okD(1-6) [OF ok] unfolding store_ok_def
      by (auto simp: s2 row intro: less_trans [of _ "cs_nextOffer s1"] dest: store_okD(4) [OF ok] store_okD(5) [OF ok])
    show "u \<in> set (cs_units s2)" if "u \<in> set (cs_units s1)" for u using that by (simp add: s2)
    show "read_ok i s2" if "read_ok i s1" for i using that by (auto simp: read_ok_def s2 row)
  qed
  moreover have "evolves s2 s'"
    using u
  proof
    assume "CreateLimitedUnits fault (of_ID row) (of_LimitedStack row) s2 = Inr ((), s')"
    then obtain m where none: "\<not> list_ex (\<lambda>u. lu_CatalogItemID u = of_ID row \<and> lu_UnitNumber u \<in> set (series (of_LimitedStack row))) (cs_units s2)"
      and s': "s' = s2\<lparr>cs_db := (cs_db s2)\<lparr>db_calls := m\<rparr>, cs_units := cs_units s2 @ map (new_unit (of_ID row)) (series (of_LimitedStack row))\<rparr>"
      by (auto simp: CreateLimitedUnits_def split: if_splits)
    show ?thesis
      by (rule new_units_evolve [where keep = "\<lambda>_. True" and key = "of_ID row" and ns = "series (of_LimitedStack row)"])
         (use none in \<open>auto simp: s' series_distinct list_ex_iff s2 row\<close>)
  qed (simp add: ev.refl)
  ultimately show "evolves s s'" using s1 ev.trans by blast
qed

lemma update_item_evolves:
  assumes "update_item fault co ip i s = Inr (x, s')" "read_ok i s"
  shows "evolves s s'"
proof -
  define j where "j = applyItemPatch ip i"
  obtain s1 s2 row where v: "validateItem fault co j s = Inr ((), s1)" and c: "catalog_UpdateItem fault j s1 = Inr (Some row, s2)"
    and u: "SyncLimitedUnits fault (of_ID row) (of_LimitedStack row) s2 = Inr ((), s')"
    and le: "\<not> sint (of_LimitedStack j) < sint (of_LimitedSells j)"
    using assms(1) by (auto simp: update_item_def Let_def j_def [symmetric] cx_case_Inr split: if_splits option.splits)
  have s1: "evolves s s1" "cs_offers s1 = cs_offers s" "cs_nextOffer s1 = cs_nextOffer s"
    using ev.run [OF validateItem_evolves v] validateItem_same [OF v] by (simp_all, (metis catalog_store.ext_inject catalog_store.surjective catalog_store.update_convs(1))+)
  have read: "read_ok i s1" using assms(2) by (simp add: read_ok_def s1)
  note J = applyItemPatch_fields [of ip i, folded j_def]
  obtain m where hit: "list_ex (same_version j) (cs_offers s1)"
    and row: "row = (itemValues j)\<lparr>of_Version := Suc (of_Version j), of_Deleted := False\<rparr>"
    and s2: "s2 = s1\<lparr>cs_db := (cs_db s1)\<lparr>db_calls := m\<rparr>, cs_offers := map (\<lambda>x. if same_version j x then row else x) (cs_offers s1)\<rparr>"
    using c by (auto simp: catalog_UpdateItem_def Let_def split: if_splits)
  have old: "x = i" if "x \<in> set (cs_offers s1)" "same_version j x" for x
    using that read J by (auto simp: read_ok_def same_version_def)
  have "evolves s1 s2"
  proof (rule offers_map_evolve [OF s2])
    fix x
    show "of_ID (if same_version j x then row else x) = of_ID x" by (simp add: row same_version_def)
    show "(if same_version j x then row else x) = x \<or> of_Version (if same_version j x then row else x) = Suc (of_Version x)"
      by (simp add: row same_version_def)
    assume "store_ok s1" "x \<in> set (cs_offers s1)"
    then show "offer_ok (cs_units s1) (if same_version j x then row else x)"
      using store_okD(5) [of s1 x] old [of x] J le by (auto simp: offer_ok_def row)
  qed
  moreover have "evolves s2 s'"
  proof -
    obtain m where s': "s' = s2\<lparr>cs_db := (cs_db s2)\<lparr>db_calls := m\<rparr>,
        cs_units := filter (\<lambda>u. \<not> (free_unit (of_ID row) u \<and> sint (lu_UnitNumber u) > sint (of_LimitedStack row))) (cs_units s2) @
          map (new_unit (of_ID row)) (filter (\<lambda>n. \<not> list_ex (\<lambda>u. lu_CatalogItemID u = of_ID row \<and> lu_UnitNumber u = n) (cs_units s2))
            (series (of_LimitedStack row)))\<rparr>"
      using u by (auto simp: SyncLimitedUnits_def)
    have "of_ID row < cs_nextOffer s2" using read J(1) by (simp add: read_ok_def row s2)
    then show ?thesis
      by (intro new_units_evolve [OF s']) (auto simp: series_distinct list_ex_iff free_unit_def)
  qed
  ultimately show ?thesis using s1 ev.trans by blast
qed

lemma delete_item_evolves: "within evolves (delete_item fault i)"
proof -
  have "within evolves (SoftDeleteItem fault key version)" for key version
    unfolding SoftDeleteItem_def Let_def
  proof (rule ev.statement)
    fix s :: catalog_store
    let ?h = "\<lambda>x. if of_ID x = key \<and> of_Version x = version \<and> \<not> of_Deleted x then x\<lparr>of_Deleted := True, of_Version := Suc (of_Version x)\<rparr> else x"
    have "offer_ok us (?h x) = offer_ok us x" for us x by (simp add: offer_ok_def)
    then have "evolves s (s\<lparr>cs_db := d, cs_offers := map ?h (cs_offers s)\<rparr>)" for d
      by (intro offers_map_evolve [OF HOL.refl]) (auto dest: store_okD(5) simp: offer_ok_def)
    then show "evolves s (snd ((list_ex (\<lambda>x. of_ID x = key \<and> of_Version x = version \<and> \<not> of_Deleted x)
        (cs_offers (s\<lparr>cs_db := (cs_db s)\<lparr>db_calls := Suc (db_calls (cs_db s))\<rparr>\<rparr>)),
      (s\<lparr>cs_db := (cs_db s)\<lparr>db_calls := Suc (db_calls (cs_db s))\<rparr>\<rparr>)
        \<lparr>cs_offers := map ?h (cs_offers (s\<lparr>cs_db := (cs_db s)\<lparr>db_calls := Suc (db_calls (cs_db s))\<rparr>\<rparr>))\<rparr>)))"
      by simp
  qed
  then show ?thesis unfolding delete_item_def by (intro ev.rules)
qed

subsubsection \<open>Purchases, vouchers and the service\<close>

lemma PurchaseWithin_evolves: "within evolves (PurchaseWithin fault co c pp)"
  unfolding within_def by (blast dest: PurchaseWithin_stages intro: purchase_evolves)

lemma voucher_grant_evolves: "within evolves (voucher_grant fault co player t amount)"
  unfolding within_def
  by (auto simp: voucher_grant_def cx_case_Inr in_economy_Inr intro: evolves_frame split: if_splits)

lemma InsertVoucherRedemption_evolves: "within evolves (InsertVoucherRedemption fault v p)"
  unfolding within_def
  by (auto simp: InsertVoucherRedemption_def intro!: evolves_frame split: if_splits)

lemma redeem_voucher_evolves: "within evolves (redeem_voucher fault co c player v)"
proof -
  have "within evolves (commitPurchase fault co c pp i products (zero_result\<lparr>px_Item := Some i\<rparr>))" for pp i products
    unfolding within_def
  proof (intro allI impI)
    fix s r s' assume "commitPurchase fault co c pp i products (zero_result\<lparr>px_Item := Some i\<rparr>) s = Inr (r, s')"
    from commitPurchase_stages [OF this] show "evolves s s'" by (auto simp: zero_result_def dest: purchase_evolves)
  qed
  then show ?thesis
    unfolding redeem_voucher_def by (intro ev.rules InsertVoucherRedemption_evolves voucher_grant_evolves)
qed

definition service_ok :: "catalog_service \<Rightarrow> bool" where
  "service_ok y \<longleftrightarrow> store_ok (ct_store y) \<and> (\<forall>k i. ct_reads y k = Some i \<longrightarrow> read_ok i (ct_store y))"

definition service_evolves :: "catalog_service \<Rightarrow> catalog_service \<Rightarrow> bool" where
  "service_evolves y y' \<longleftrightarrow> (service_ok y \<longrightarrow> service_ok y' \<and> evolves (ct_store y) (ct_store y'))"

lemma service_evolves_refl: "service_evolves y y"
  by (simp add: service_evolves_def ev.refl)

lemma service_evolves_trans: "service_evolves x y \<Longrightarrow> service_evolves y z \<Longrightarrow> service_evolves x z"
  unfolding service_evolves_def using ev.trans by blast

lemma service_store:
  assumes "evolves (ct_store y) s" shows "service_evolves y (y\<lparr>ct_store := s\<rparr>)"
  using assms by (auto simp: service_evolves_def service_ok_def evolves_def)

lemma service_fields:
  "service_evolves y (y\<lparr>ct_cache := c\<rparr>)" "service_evolves y (y\<lparr>ct_reads := (ct_reads y)(k := None)\<rparr>)"
  "service_evolves y (y\<lparr>ct_redeeming := m\<rparr>)"
  by (auto simp: service_evolves_def service_ok_def ev.refl split: if_splits)

lemma service_Refresh_evolves: "service_evolves y (service_Refresh fault co y)"
proof (cases "Refresh fault co (ct_store y)")
  case (Inr z)
  then obtain c s where z: "Refresh fault co (ct_store y) = Inr (c, s)" by (cases z) auto
  have "service_evolves y (y\<lparr>ct_store := s\<rparr>)" by (rule service_store [OF ev.run [OF Refresh_evolves z]])
  from service_evolves_trans [OF this service_fields(1)] show ?thesis by (simp add: service_Refresh_def z)
qed (simp add: service_Refresh_def service_evolves_refl)

lemma committed_evolves:
  assumes "\<And>x s'. work (ct_store y) = Inr (x, s') \<Longrightarrow> evolves (ct_store y) s'"
    and "\<And>x z. service_evolves z (after x z)"
  shows "service_evolves y (committed work after y)"
proof (cases "work (ct_store y)")
  case (Inr z)
  then obtain x s where z: "work (ct_store y) = Inr (x, s)" by (cases z) auto
  from service_evolves_trans [OF service_store [OF assms(1) [OF z]] assms(2)] show ?thesis by (simp add: committed_def z)
qed (simp add: committed_def service_evolves_refl)

lemma limited_evolves: "service_evolves z (refreshAfterLimited fault co r z)"
  by (simp add: refreshAfterLimited_def service_evolves_refl service_Refresh_evolves split: option.splits)

lemma catalog_step_evolves: "service_evolves y (catalog_step op y)"
proof (cases op)
  case (CPurchase fault fault' co pp)
  then show ?thesis by (auto intro: committed_evolves limited_evolves ev.run [OF PurchaseWithin_evolves])
next
  case (CPurchaseGift fault fault' co g)
  then show ?thesis
    by (auto simp: service_evolves_refl intro: committed_evolves limited_evolves ev.run [OF PurchaseWithin_evolves] split: sum.splits)
next
  case (CFindVoucher fault co k now player code)
  then show ?thesis by (auto intro: committed_evolves service_fields ev.run [OF find_voucher_evolves])
next
  case (CRedeem fault co k)
  show ?thesis
  proof (cases "ct_redeeming y k")
    case (Some pv)
    have "service_evolves (y\<lparr>ct_redeeming := (ct_redeeming y)(k := None)\<rparr>) (catalog_step op y)"
      using CRedeem Some by (auto intro: committed_evolves service_evolves_refl ev.run [OF redeem_voucher_evolves] split: prod.splits)
    from service_evolves_trans [OF service_fields(3) this] show ?thesis .
  qed (simp add: CRedeem service_evolves_refl)
next
  case (CReadItem fault k key)
  show ?thesis
  proof (cases "read_item fault key (ct_store y)")
    case (Inr z)
    then obtain i s where z: "read_item fault key (ct_store y) = Inr (i, s)" by (cases z) auto
    have "evolves (ct_store y) s" by (rule ev.run [OF read_item_evolves z])
    then show ?thesis using CReadItem z read_item_ok [OF z]
      by (auto simp: committed_def service_evolves_def service_ok_def evolves_def)
  qed (simp add: CReadItem committed_def service_evolves_refl)
next
  case (CUpdateItem fault fault' co k ip)
  show ?thesis
  proof (cases "ct_reads y k")
    case (Some i)
    let ?y = "y\<lparr>ct_reads := (ct_reads y)(k := None)\<rparr>"
    show ?thesis unfolding service_evolves_def
    proof
      assume ok: "service_ok y"
      then have read: "read_ok i (ct_store y)" using Some by (simp add: service_ok_def)
      have "service_evolves ?y (catalog_step op y)"
        using CUpdateItem Some
        by (auto intro!: committed_evolves service_Refresh_evolves update_item_evolves [OF _ read])
      with service_fields(2) have "service_evolves y (catalog_step op y)" by (rule service_evolves_trans)
      then show "service_ok (catalog_step op y) \<and> evolves (ct_store y) (ct_store (catalog_step op y))"
        using ok by (simp add: service_evolves_def)
    qed
  qed (simp add: CUpdateItem service_evolves_refl)
next
  case (CDeleteItem fault fault' co k)
  show ?thesis
  proof (cases "ct_reads y k")
    case (Some i)
    have "service_evolves (y\<lparr>ct_reads := (ct_reads y)(k := None)\<rparr>) (catalog_step op y)"
      using CDeleteItem Some by (auto intro: committed_evolves service_Refresh_evolves ev.run [OF delete_item_evolves])
    from service_evolves_trans [OF service_fields(2) this] show ?thesis .
  qed (simp add: CDeleteItem service_evolves_refl)
next
  case (CCreateItem fault fault' co i)
  then show ?thesis by (auto intro: committed_evolves service_Refresh_evolves ev.run [OF CreateItem_evolves])
next
  case (CCreatePage fault fault' co p)
  then show ?thesis by (auto intro: committed_evolves service_Refresh_evolves ev.run [OF pages_evolve(1)])
next
  case (CUpdatePage fault fault' co key qp)
  then show ?thesis by (auto intro: committed_evolves service_Refresh_evolves ev.run [OF pages_evolve(2)])
next
  case (CSaveVoucher fault co v)
  then show ?thesis by (auto intro: committed_evolves service_evolves_refl ev.run [OF SaveVoucher_evolves])
next
  case (CRefresh fault co)
  then show ?thesis by (simp add: service_Refresh_evolves)
qed

lemma catalog_run_evolves: "service_evolves y (fold catalog_step ops y)"
proof (induction ops arbitrary: y)
  case (Cons op ops)
  from service_evolves_trans [OF catalog_step_evolves Cons.IH] show ?case by simp
qed (simp add: service_evolves_refl)

text \<open>C34: Limited editions are never oversold. Start with empty tables of offers and units and let customers and
  administrators do anything, in any interleaving of the administrators' reads and writes: an edition that is sold
  keeps its owner and its item for ever, no two units share a number of an offer or an item, a sold
  unit has an owner, and the sales of an offer exceed neither its stack nor the number of its sold units.\<close>

theorem limited_never_oversold:
  fixes before later
  assumes "cs_units s = []" "cs_offers s = []"
  defines "y \<equiv> fold catalog_step before (catalog_New s)"
  defines "z \<equiv> fold catalog_step later y"
  shows "(\<forall>u \<in> set (cs_units (ct_store y)). lu_FurnitureItemID u \<noteq> None \<longrightarrow> u \<in> set (cs_units (ct_store z))) \<and>
    distinct (map unit_key (cs_units (ct_store z))) \<and>
    (\<forall>u \<in> set (cs_units (ct_store z)). \<forall>v \<in> set (cs_units (ct_store z)).
       lu_FurnitureItemID u \<noteq> None \<longrightarrow> lu_OwnerPlayerID u \<noteq> None \<and> (lu_FurnitureItemID u = lu_FurnitureItemID v \<longrightarrow> u = v)) \<and>
    (\<forall>x \<in> set (cs_offers (ct_store z)). sint (of_LimitedSells x) \<le> sint (of_LimitedStack x) \<and>
       sint (of_LimitedSells x) \<le> int (sold_units (of_ID x) (cs_units (ct_store z))))"
proof -
  have "service_ok (catalog_New s)" by (simp add: service_ok_def catalog_New_def store_ok_def assms(1,2))
  then have y: "service_ok y" using catalog_run_evolves by (simp add: y_def service_evolves_def)
  then have z: "service_ok z" "evolves (ct_store y) (ct_store z)" using catalog_run_evolves by (simp_all add: z_def service_evolves_def)
  then have ok: "store_ok (ct_store z)" by (simp add: service_ok_def)
  have kept: "\<forall>u \<in> set (cs_units (ct_store y)). lu_FurnitureItemID u \<noteq> None \<longrightarrow> u \<in> set (cs_units (ct_store z))"
    using y z(2) by (simp add: service_ok_def evolves_def)
  have units: "lu_OwnerPlayerID u \<noteq> None \<and> (lu_FurnitureItemID u = lu_FurnitureItemID v \<longrightarrow> u = v)"
    if "u \<in> set (cs_units (ct_store z))" "v \<in> set (cs_units (ct_store z))" "lu_FurnitureItemID u \<noteq> None" for u v
    using store_okD(2,3) [OF ok] that by (metis not_None_eq)
  show ?thesis using kept units store_okD(1) [OF ok] store_okD(5) [OF ok] unfolding offer_ok_def by blast
qed

text \<open>A voucher is redeemed at most once by each player, whatever else happens and however the redemptions of
  several players, each a check and then a transaction, interleave.\<close>

theorem voucher_once_per_player:
  assumes "cs_units s = []" "cs_offers s = []" "cs_redemptions s = []"
  shows "distinct (cs_redemptions (ct_store (fold catalog_step ops (catalog_New s))))"
proof -
  have "service_ok (catalog_New s)" by (simp add: service_ok_def catalog_New_def store_ok_def assms(1,2))
  then have "evolves s (ct_store (fold catalog_step ops (catalog_New s)))"
    using catalog_run_evolves [of "catalog_New s" ops] by (simp add: service_evolves_def catalog_New_def)
  then show ?thesis using assms(3) by (simp add: evolves_def)
qed

subsubsection \<open>The number of an edition\<close>

text \<open>When a limited furniture offer is bought, the unit with the number that is reported was free and is now
  the buyer's, linked to a new item of the recipient. The new items carry that number in their own
  row only when the purchase is not a gift: the statement that creates wrapped items has no column for it,
  so the recipient of a gift gets an unnumbered item.\<close>

theorem edition_is_numbered_unless_gift:
  assumes "Purchase fault co c pp s = (s', Inr r)" "cache_item (pp_CatalogItemID pp) c = Some i" "IsLimited i" "plain_reward i"
  shows "\<exists>n u v row. px_LimitedUnitNumber r = Some n \<and> v \<in> set (cs_units s) \<and> unit_key v = (of_ID i, n) \<and> lu_OwnerPlayerID v = None \<and>
    u \<in> set (cs_units s') \<and> unit_key u = (of_ID i, n) \<and> lu_OwnerPlayerID u = Some (pp_PlayerID pp) \<and>
    row \<in> set (px_GrantedItems r) \<and> lu_FurnitureItemID u = Some (fr_ID row) \<and>
    (\<forall>row \<in> set (px_GrantedItems r). fr_Owner row = recipient_of pp \<and> (\<exists>cols. cs_columns s' (fr_ID row) = Some cols \<and>
       ic_LimitedEditionNumber cols = (if pp_Gift pp = None then Some n else None) \<and> ic_Gift cols = pp_Gift pp))"
proof -
  have "PurchaseWithin fault co c pp s = Inr (r, s')"
    using assms(1) by (auto simp: Purchase_def atomically_def split: sum.splits prod.splits)
  from PurchaseWithin_stages [OF this] obtain pq j products s1 s2 s3 s4 b where
    prep: "prepare_purchase co c pp = Inr (pq, j, products)" and st: "purchase_stages co pq j products r s s1 s2 s3 s4 s'"
    by blast
  note P = prepare_purchase_Inr [OF prep] and S = st [unfolded purchase_stages_def] and F = stage_frames [OF st]
  have j: "j = i" using P assms(2) by simp
  obtain n where n: "px_LimitedUnitNumber r = Some n" using S assms(3) j by (metis not_None_eq)
  have "reserves (of_ID i) (pp_PlayerID pq) (Some n) s s1" and
    a: "adds (recipient_of pq) (edition_of pq r) (pp_Gift pq) (px_GrantedItems r) s2 s3" and
    c: "completes_sale (of_ID i) (pp_PlayerID pq) (Some n) (px_GrantedItems r) s3 s4" and l: "logs s4 s'"
    using S j n assms(4) by simp_all
  then obtain v where v: "v \<in> set (cs_units s)" "free_unit (of_ID i) v" "lu_UnitNumber v = n"
    using lowest_free_unit by (fastforce simp: reserves_def)
  obtain m where rows: "px_GrantedItems r \<noteq> []" "list_ex (completes (of_ID i) n (pp_PlayerID pq)) (cs_units s3)" and
    s4: "s4 = s3\<lparr>cs_db := (cs_db s3)\<lparr>db_calls := m\<rparr>, cs_units := map (linked (of_ID i) n (pp_PlayerID pq) (fr_ID (hd (px_GrantedItems r)))) (cs_units s3),
      cs_offers := map (advanced (of_ID i)) (cs_offers s3)\<rparr>"
    using c unfolding completes_sale_def option.case by blast
  obtain w where w: "w \<in> set (cs_units s3)" "completes (of_ID i) n (pp_PlayerID pq) w" using rows(2) by (auto simp: list_ex_iff)
  let ?u = "linked (of_ID i) n (pp_PlayerID pq) (fr_ID (hd (px_GrantedItems r))) w"
  obtain k lg where s': "s' = s4\<lparr>cs_db := (cs_db s4)\<lparr>db_calls := k\<rparr>, cs_log := lg\<rparr>" using l by (auto simp: logs_def)
  have u: "?u \<in> set (cs_units s')" "unit_key ?u = (of_ID i, n)" "lu_OwnerPlayerID ?u = Some (pp_PlayerID pp)"
    "lu_FurnitureItemID ?u = Some (fr_ID (hd (px_GrantedItems r)))"
    using w P by (auto simp: s' s4 completes_def unit_key_def linked_def)
  have ed: "edition_of pq r = (if pp_Gift pp = None then Some n else None)" "pp_Gift pp = pp_Gift pq" "recipient_of pp = recipient_of pq"
    using P n by simp_all
  have each: "fr_Owner row = recipient_of pp \<and> (\<exists>cols. cs_columns s' (fr_ID row) = Some cols \<and>
       ic_LimitedEditionNumber cols = (if pp_Gift pp = None then Some n else None) \<and> ic_Gift cols = pp_Gift pp)"
    if "row \<in> set (px_GrantedItems r)" for row
    using addsD(4) [OF a that] by (simp only: ed(2) ed(3) F(10) n)
  have "hd (px_GrantedItems r) \<in> set (px_GrantedItems r)" using rows(1) by simp
  moreover have "unit_key v = (of_ID i, n)" "lu_OwnerPlayerID v = None" using v by (simp_all add: free_unit_def unit_key_def)
  moreover from each have "\<forall>row \<in> set (px_GrantedItems r). fr_Owner row = recipient_of pp \<and> (\<exists>cols. cs_columns s' (fr_ID row) = Some cols \<and>
       ic_LimitedEditionNumber cols = (if pp_Gift pp = None then Some n else None) \<and> ic_Gift cols = pp_Gift pp)"
    by (intro ballI)
  ultimately show ?thesis using n v(1) u
    by - (rule exI [of _ n], rule exI [of _ ?u], rule exI [of _ v], rule exI [of _ "hd (px_GrantedItems r)"], intro conjI; assumption)
qed

subsection \<open>A sample shop\<close>

definition shop_services :: collaborators where
  "shop_services = \<lparr>co_commerce = True, co_permissions = None, co_players = Some (\<lambda>_. Inr (Some ''ann'')),
     co_directory = (\<lambda>name. Inr (if name = ''bob'' then Some 2 else None)), co_pets = None, co_preview = (\<lambda>_. Inr []), co_clone = None,
     co_effects = None, co_trophies = None, co_validateGroup = (\<lambda>_ _ _. True), co_commitGroup = None, co_pairTeleports = None,
     co_giftGranter = True, co_types = [-1 \<mapsto> True], co_infinite = None, co_parseID = (\<lambda>_. None), co_operationKey = None,
     co_findTemplate = (\<lambda>_. Inr False), co_nodeOK = (\<lambda>_. True), co_upper = (\<lambda>s. s)\<rparr>"

definition shop_store :: catalog_store where
  "shop_store = no_store\<lparr>cs_pages := [sample_page 1 None None], cs_nextPage := 2, cs_definitions := [(7, ''chair'')],
     cs_db := empty_db\<lparr>db_kinds := [7 \<mapsto> \<lparr>fk_ID = 7, fk_AllowTrade = True, fk_AllowMarketplaceSale = True, fk_RedeemableCredits = 0\<rparr>],
       db_balances := [((1, -1), 100), ((2, -1), 50)]\<rparr>\<rparr>"

definition throne :: offer where
  "throne = sample_offer\<lparr>of_Name := ''throne'', of_LimitedStack := 2\<rparr>"

definition order_by :: "ident \<Rightarrow> ident \<Rightarrow> i32 \<Rightarrow> purchase_params" where
  "order_by player key amount = \<lparr>pp_PlayerID = player, pp_CatalogItemID = key, pp_HasClub = False, pp_Amount = amount, pp_ExtraData = [],
     pp_OperationKey = [], pp_RecipientPlayerID = 0, pp_Free = False, pp_Gift = None, pp_OverrideCredits = None,
     pp_OverridePoints = None, pp_OverridePointsType = None\<rparr>"

abbreviation calm :: "nat \<Rightarrow> bool" where "calm \<equiv> \<lambda>_. False"

text \<open>An administrator opens a series of two, one is sold; later the series is enlarged while another is bought.\<close>

definition no_patch :: item_patch where
  "no_patch = \<lparr>ip_PageID = None, ip_DefinitionID = None, ip_RewardKind = None, ip_PetTypeID = None, ip_PetProductCode = None,
     ip_RoomBundleTemplateRoomID = None, ip_GrantsEffectID = None, ip_GrantsEffectDurationSeconds = None, ip_Name = None,
     ip_CostCredits = None, ip_CostPoints = None, ip_PointsType = None, ip_Amount = None, ip_LimitedStack = None,
     ip_BundleDiscountEnabled = None, ip_Giftable = None, ip_ClubOnly = None, ip_OrderNum = None, ip_Enabled = None, ip_ExtraData = None\<rparr>"

definition first_sale :: "catalog_op list" where
  "first_sale = [CCreateItem calm calm shop_services throne, CPurchase calm calm shop_services (order_by 1 1 1)]"

definition enlarging :: "catalog_op list" where
  "enlarging = [CReadItem calm 0 1, CReadItem calm 1 1, CUpdateItem calm calm shop_services 0 (no_patch\<lparr>ip_LimitedStack := Some 3\<rparr>),
     CPurchase calm calm shop_services (order_by 2 1 1), CUpdateItem calm calm shop_services 1 (no_patch\<lparr>ip_LimitedStack := Some 9\<rparr>)]"

lemma first_sale_sells: "map (\<lambda>u. (lu_UnitNumber u, lu_OwnerPlayerID u, lu_FurnitureItemID u))
    (cs_units (ct_store (fold catalog_step first_sale (catalog_New shop_store)))) = [(1, Some 1, Some 1), (2, None, None)]"
  by code_simp

lemma enlarging_sells: "map (\<lambda>u. (lu_UnitNumber u, lu_OwnerPlayerID u, lu_FurnitureItemID u))
    (cs_units (ct_store (fold catalog_step enlarging (fold catalog_step first_sale (catalog_New shop_store))))) =
    [(1, Some 1, Some 1), (2, Some 2, Some 2), (3, None, None)]"
  by code_simp

theorem limited_never_oversold_witness:
  "\<exists>u \<in> set (cs_units (ct_store (fold catalog_step enlarging (fold catalog_step first_sale (catalog_New shop_store))))).
     unit_key u = (1, 1) \<and> lu_OwnerPlayerID u = Some 1 \<and> lu_FurnitureItemID u = Some 1"
proof -
  let ?y = "fold catalog_step first_sale (catalog_New shop_store)"
  have "list_ex (\<lambda>u. unit_key u = (1, 1) \<and> lu_OwnerPlayerID u = Some 1 \<and> lu_FurnitureItemID u = Some 1) (cs_units (ct_store ?y))"
    by code_simp
  then obtain u where "u \<in> set (cs_units (ct_store ?y))" "unit_key u = (1, 1) \<and> lu_OwnerPlayerID u = Some 1 \<and> lu_FurnitureItemID u = Some 1"
    by (auto simp: list_ex_iff)
  moreover have "cs_units shop_store = []" "cs_offers shop_store = []" by (simp_all add: shop_store_def no_store_def)
  ultimately show ?thesis using limited_never_oversold [of shop_store first_sale enlarging] by auto
qed

text \<open>Two players redeem a voucher for one: both look it up before either of them redeems.\<close>

definition gift_code :: voucher where
  "gift_code = \<lparr>vc_ID = 0, vc_Code = ''GOLD'', vc_CostCredits = 50, vc_CostPoints = 0, vc_PointsType = -1, vc_CatalogItemID = None,
     vc_RedemptionCap = Some 1, vc_PerPlayerCap = 1, vc_Enabled = True, vc_ExpiresAt = None\<rparr>"

definition redemption_race :: "catalog_op list" where
  "redemption_race = [CSaveVoucher calm shop_services gift_code, CFindVoucher calm shop_services 0 10 1 ''GOLD'',
     CFindVoucher calm shop_services 1 10 2 ''GOLD'', CRedeem calm shop_services 0, CRedeem calm shop_services 1]"

theorem voucher_once_per_player_witness:
  "distinct (cs_redemptions (ct_store (fold catalog_step (redemption_race @ [CRedeem calm shop_services 0,
     CFindVoucher calm shop_services 0 10 1 ''GOLD'']) (catalog_New shop_store))))"
  by (rule voucher_once_per_player) (simp_all add: shop_store_def no_store_def)

text \<open>The cap of a voucher does not hold under concurrency. The redemptions are counted before the transaction, not in it:
  from a shop without vouchers, a voucher for one redemption is redeemed by two players who checked it at the same
  time, and both of them are paid.\<close>

theorem voucher_cap_overrun:
  "\<exists>ops. let s = ct_store (fold catalog_step ops (catalog_New shop_store)) in
     \<exists>v \<in> set (cs_vouchers s). vc_RedemptionCap v = Some 1 \<and> length (filter (\<lambda>(w, p). w = vc_ID v) (cs_redemptions s)) = 2 \<and>
       balance_of (cs_db s) 1 (-1) = 100 + vc_CostCredits v \<and> balance_of (cs_db s) 2 (-1) = 50 + vc_CostCredits v"
proof -
  have "let s = ct_store (fold catalog_step redemption_race (catalog_New shop_store)) in
     list_ex (\<lambda>v. vc_RedemptionCap v = Some 1 \<and> length (filter (\<lambda>(w, p). w = vc_ID v) (cs_redemptions s)) = 2 \<and>
       balance_of (cs_db s) 1 (-1) = 100 + vc_CostCredits v \<and> balance_of (cs_db s) 2 (-1) = 50 + vc_CostCredits v) (cs_vouchers s)"
    by code_simp
  then show ?thesis unfolding Let_def list_ex_iff by blast
qed

definition opened_shop :: catalog_service where
  "opened_shop = fold catalog_step [CCreateItem calm calm shop_services throne, CCreateItem calm calm shop_services sample_offer] (catalog_New shop_store)"


definition gift_to_bob :: purchase_params where
  "gift_to_bob = (order_by 1 1 1)\<lparr>pp_RecipientPlayerID := 2, pp_Gift := Some \<lparr>gm_SpriteID = 3, gm_BoxID = 0, gm_RibbonID = 0,
     gm_SenderPlayerID = None, gm_Message = ''hello''\<rparr>\<rparr>"

theorem edition_is_numbered_unless_gift_witness:
  "case Purchase calm shop_services (ct_cache opened_shop) gift_to_bob (ct_store opened_shop) of
     (s, Inl e) \<Rightarrow> False
   | (s, Inr r) \<Rightarrow> \<exists>row \<in> set (px_GrantedItems r). fr_Owner row = 2 \<and>
       map_option ic_LimitedEditionNumber (cs_columns s (fr_ID row)) = Some None \<and> px_LimitedUnitNumber r \<noteq> None"
proof -
  let ?c = "ct_cache opened_shop" and ?s = "ct_store opened_shop"
  have offer: "cache_item 1 ?c = Some (throne\<lparr>of_ID := 1\<rparr>)" "IsLimited (throne\<lparr>of_ID := 1\<rparr>)" "plain_reward (throne\<lparr>of_ID := 1\<rparr>)"
    "case Purchase calm shop_services ?c gift_to_bob ?s of (s, Inl e) \<Rightarrow> False | (s, Inr r) \<Rightarrow> True"
    by code_simp+
  then obtain s r where p: "Purchase calm shop_services ?c gift_to_bob ?s = (s, Inr r)" by (auto split: prod.splits sum.splits)
  have "pp_CatalogItemID gift_to_bob = 1" "pp_RecipientPlayerID gift_to_bob = 2" "pp_Gift gift_to_bob \<noteq> None"
    by (simp_all add: gift_to_bob_def order_by_def)
  with edition_is_numbered_unless_gift [OF p _ offer(2,3)] offer(1) show ?thesis by (fastforce simp: p)
qed

end
