(* ===== verification/Subscription.thy ===== *)
theory Subscription
  imports Catalog_Purchase "HOL-Library.Signed_Division"
begin

text \<open>
  Club membership (\<^verbatim>\<open>internal/realm/subscription\<close>: \<^verbatim>\<open>record\<close>, \<^verbatim>\<open>core\<close>, \<^verbatim>\<open>database\<close>, \<^verbatim>\<open>admin\<close>, and the calculations of
  \<^verbatim>\<open>commands/club\<close>): memberships with their accrual of active time, the cycle that records paydays and expires
  tiers, the delivery of paydays, club gifts, targeted offers and the calendar, around the store of \<^verbatim>\<open>Catalog_Purchase\<close>.
  A time is a number of nanoseconds and so is a duration; spans stay below the 292 years where Go's durations
  saturate. What the percentage of the kickback makes of an amount is a function, since the code computes it in floating point.
  The cache of the catalog and the current time are arguments; the database is taken to have the clock of the service.
\<close>

subsection \<open>Records\<close>

abbreviation second :: int where "second \<equiv> 1000000000"
abbreviation a_day :: int where "a_day \<equiv> 86400000000000"

definition ClubGiftPeriodSeconds :: int where "ClubGiftPeriodSeconds = 2678400"

definition LevelNone :: int where "LevelNone = 0"
definition LevelHC :: int where "LevelHC = 1"
definition LevelVIP :: int where "LevelVIP = 2"

record membership =
  mb_PlayerID :: ident
  mb_Level :: int
  mb_StartedAt :: "int option"
  mb_StreakStartedAt :: "int option"
  mb_ExpiresAt :: "int option"
  mb_LastPaydayAt :: "int option"
  mb_LastAccruedAt :: "int option"
  mb_LifetimeActiveSeconds :: int
  mb_LifetimeVIPSeconds :: int
  mb_GiftsEarned :: i32
  mb_GiftsClaimed :: i32
  mb_Version :: nat

definition zero_membership :: membership where
  "zero_membership = \<lparr>mb_PlayerID = 0, mb_Level = LevelNone, mb_StartedAt = None, mb_StreakStartedAt = None, mb_ExpiresAt = None,
     mb_LastPaydayAt = None, mb_LastAccruedAt = None, mb_LifetimeActiveSeconds = 0, mb_LifetimeVIPSeconds = 0,
     mb_GiftsEarned = 0, mb_GiftsClaimed = 0, mb_Version = 0\<rparr>"

record club_offer =
  cl_ID :: ident
  cl_Name :: string
  cl_DayCount :: i32
  cl_PriceCredits :: int
  cl_PricePoints :: int
  cl_PointsType :: int
  cl_VIP :: bool
  cl_Deal :: bool
  cl_Enabled :: bool
  cl_OrderNum :: i32

record payday =
  py_ID :: ident
  py_PlayerID :: ident
  py_OccurredAt :: int
  py_StreakDays :: i32
  py_CreditsSpent :: int
  py_StreakBonus :: int
  py_MonthlyBonus :: int
  py_TotalAwarded :: int
  py_CurrencyType :: int
  py_Claimed :: bool

record targeted_offer =
  tg_ID :: ident
  tg_CatalogItemID :: ident
  tg_PriceCredits :: int
  tg_PricePoints :: int
  tg_PointsType :: int
  tg_PurchaseLimit :: i32
  tg_TitleKey :: string
  tg_DescriptionKey :: string
  tg_ImageURL :: string
  tg_IconURL :: string
  tg_ExpiresAt :: "int option"
  tg_OrderNum :: i32
  tg_Enabled :: bool
  tg_PurchasesCount :: i32
  tg_Dismissed :: bool

record campaign =
  cm_ID :: ident
  cm_Name :: string
  cm_Image :: string
  cm_StartDate :: int
  cm_DayCount :: i32
  cm_Enabled :: bool

record campaign_day =
  cd_CampaignID :: ident
  cd_DayNumber :: i32
  cd_ProductDefinitionID :: "ident option"
  cd_CustomImage :: string
  cd_CreditsReward :: int
  cd_PointsReward :: int
  cd_PointsType :: int

record seasonal_offer =
  se_Date :: int
  se_CatalogPageID :: ident
  se_CatalogItemID :: ident

record club =
  cb_Level :: int
  cb_ExpiresAt :: "int option"

record offer_progress =
  op_PurchasesCount :: i32
  op_Dismissed :: bool

text \<open>\<open>ss_stamps\<close> is the column of the purchase log with the time of each row. \<open>ss_clubs\<close> are the
  club columns of the player rows, \<open>ss_live\<close> those of the online players.\<close>

record subscription_store =
  ss_catalog :: catalog_store
  ss_stamps :: "int list"
  ss_memberships :: "(ident \<times> membership) list"
  ss_clubs :: "ident \<rightharpoonup> club"
  ss_paydays :: "payday list"
  ss_nextPayday :: ident
  ss_giftClaims :: "(ident \<times> int \<times> ident) list"
  ss_offers :: "club_offer list"
  ss_nextOffer :: ident
  ss_targeted :: "targeted_offer list"
  ss_nextTargeted :: ident
  ss_progress :: "ident \<times> ident \<rightharpoonup> offer_progress"
  ss_campaigns :: "campaign list"
  ss_nextCampaign :: ident
  ss_days :: "campaign_day list"
  ss_doors :: "(ident \<times> ident \<times> i32) list"
  ss_seasonal :: "seasonal_offer list"
  ss_live :: "ident \<rightharpoonup> club"

record subscription_options =
  sop_PaydayInterval :: int
  sop_Kickback :: "int \<Rightarrow> int"
  sop_PaydayCurrencyType :: int
  sop_BonusRareCurrencyType :: int
  sop_BonusRareThreshold :: int
  sop_BonusRareProductID :: i32

text \<open>Of the percentage the configuration has what it makes of an amount, and whether it lies between 0 and 1.\<close>

record subscription_config =
  scf_TickInterval :: int
  scf_PercentageInRange :: bool
  scf_Options :: subscription_options

definition Normalize :: "(int \<Rightarrow> int) \<Rightarrow> subscription_config \<Rightarrow> subscription_config" where
  "Normalize tenth cfg =
     (let op = scf_Options cfg
      in \<lparr>scf_TickInterval = (if scf_TickInterval cfg \<le> 0 then 60 * second else scf_TickInterval cfg),
          scf_PercentageInRange = True,
          scf_Options = op\<lparr>sop_PaydayInterval := (if sop_PaydayInterval op \<le> 0 then 31 * a_day else sop_PaydayInterval op),
            sop_Kickback := (if scf_PercentageInRange cfg then sop_Kickback op else tenth),
            sop_BonusRareThreshold := (if sop_BonusRareThreshold op \<le> 0 then 120 else sop_BonusRareThreshold op),
            sop_BonusRareProductID := (if sint (sop_BonusRareProductID op) < 0 then 0 else sop_BonusRareProductID op)\<rparr>\<rparr>)"

subsection \<open>Transactions\<close>

datatype subscription_error =
    ErrMembershipNotFound | ErrClubOfferNotFound | ErrInvalidClubAmount | ErrTargetedOfferUnavailable
  | ErrCalendarDoorUnavailable | ErrInvalidSubscriptionInput | ErrSubscriptionStore | ErrClubPlayer | CatalogError catalog_error

type_synonym 'a sx = "subscription_store \<Rightarrow> subscription_error + ('a \<times> subscription_store)"

definition give :: "'a \<Rightarrow> 'a sx" where "give x s = Inr (x, s)"
definition refuse :: "subscription_error \<Rightarrow> 'a sx" where "refuse e s = Inl e"

definition chain :: "'a sx \<Rightarrow> ('a \<Rightarrow> 'b sx) \<Rightarrow> 'b sx" where
  "chain f g s = (case f s of Inl e \<Rightarrow> Inl e | Inr (x, s') \<Rightarrow> g x s')"

text \<open>Statements of a transaction are counted together with those of the catalog and the economy.\<close>

definition calls :: "subscription_store \<Rightarrow> nat" where "calls s = db_calls (cs_db (ss_catalog s))"

definition count_call :: "subscription_store \<Rightarrow> subscription_store" where
  "count_call s = s\<lparr>ss_catalog := (ss_catalog s)\<lparr>cs_db := (cs_db (ss_catalog s))\<lparr>db_calls := Suc (calls s)\<rparr>\<rparr>\<rparr>"

definition query :: "(nat \<Rightarrow> bool) \<Rightarrow> (subscription_store \<Rightarrow> 'a \<times> subscription_store) \<Rightarrow> 'a sx" where
  "query fault f s = (if fault (calls s) then Inl ErrSubscriptionStore else Inr (f (count_call s)))"

text \<open>Work of the catalog in the transaction; a new row of the purchase log gets the time of the transaction.\<close>

definition in_catalog :: "int \<Rightarrow> 'a cx \<Rightarrow> 'a sx" where
  "in_catalog now f s = (case f (ss_catalog s) of
     Inl e \<Rightarrow> Inl (CatalogError e)
   | Inr (x, c) \<Rightarrow> Inr (x, s\<lparr>ss_catalog := c,
       ss_stamps := ss_stamps s @ replicate (length (cs_log c) - length (ss_stamps s)) now\<rparr>))"

definition transact :: "'a sx \<Rightarrow> subscription_store \<Rightarrow> subscription_store \<times> (subscription_error + 'a)" where
  "transact work s = (case work s of Inl e \<Rightarrow> (s, Inl e) | Inr (x, s') \<Rightarrow> (s', Inr x))"

definition club_Grant :: "(nat \<Rightarrow> bool) \<Rightarrow> collaborators \<Rightarrow> int \<Rightarrow> ident \<Rightarrow> int \<Rightarrow> int \<Rightarrow> string \<Rightarrow> string \<Rightarrow> int sx" where
  "club_Grant fault co now p t amount reason actor =
     in_catalog now (in_economy (Grant fault (co_types co) (co_infinite co) p t amount reason actor))"

subsection \<open>Rows\<close>

definition FindMembership :: "(nat \<Rightarrow> bool) \<Rightarrow> ident \<Rightarrow> membership option sx" where
  "FindMembership fault p = query fault (\<lambda>s. (map_of (ss_memberships s) p, s))"

text \<open>A membership that exists keeps its first start, and counts its versions itself.\<close>

definition merged :: "membership option \<Rightarrow> membership \<Rightarrow> membership" where
  "merged stored m = (case stored of
     None \<Rightarrow> m\<lparr>mb_Version := 1\<rparr>
   | Some x \<Rightarrow> m\<lparr>mb_StartedAt := (case mb_StartedAt x of None \<Rightarrow> mb_StartedAt m | Some t \<Rightarrow> Some t), mb_Version := Suc (mb_Version x)\<rparr>)"

definition UpsertMembership :: "(nat \<Rightarrow> bool) \<Rightarrow> membership \<Rightarrow> unit sx" where
  "UpsertMembership fault m =
     (if mb_Level m < 0 \<or> mb_Level m > 2 then refuse ErrSubscriptionStore
      else query fault (\<lambda>s. ((), s\<lparr>ss_memberships :=
        AList.update (mb_PlayerID m) (merged (map_of (ss_memberships s) (mb_PlayerID m)) m) (ss_memberships s)\<rparr>)))"

definition SetClub :: "(nat \<Rightarrow> bool) \<Rightarrow> ident \<Rightarrow> club \<Rightarrow> unit sx" where
  "SetClub fault p cb =
     (if p \<le> 0 then refuse ErrClubPlayer
      else query fault (\<lambda>s. ((), case ss_clubs s p of None \<Rightarrow> s | Some _ \<Rightarrow> s\<lparr>ss_clubs := (ss_clubs s)(p \<mapsto> cb)\<rparr>)))"

text \<open>The query rounds the seconds since the last accrual to the nearest integer.\<close>

definition is_due :: "int \<Rightarrow> int \<Rightarrow> membership \<Rightarrow> bool" where
  "is_due now interval m \<longleftrightarrow> mb_Level m > 0 \<and> (case mb_ExpiresAt m of
     None \<Rightarrow> True
   | Some e \<Rightarrow> e \<le> now \<or>
       (case mb_LastPaydayAt m of None \<Rightarrow> True | Some t \<Rightarrow> t + interval div second * second \<le> min now e) \<or>
       (case mb_LastAccruedAt m of None \<Rightarrow> True
        | Some t \<Rightarrow> mb_LifetimeActiveSeconds m + max 0 ((2 * (min now e - t) + second) div (2 * second)) \<ge>
            (sint (mb_GiftsEarned m) + 1) * ClubGiftPeriodSeconds))"

definition ListDueMemberships :: "(nat \<Rightarrow> bool) \<Rightarrow> int \<Rightarrow> int \<Rightarrow> membership list sx" where
  "ListDueMemberships fault now interval = query fault (\<lambda>s.
     (sort_key mb_PlayerID (filter (is_due now interval) (map snd (ss_memberships s))), s))"

definition InsertPayday :: "(nat \<Rightarrow> bool) \<Rightarrow> payday \<Rightarrow> payday sx" where
  "InsertPayday fault y s =
     (if list_ex (\<lambda>x. py_PlayerID x = py_PlayerID y \<and> py_OccurredAt x = py_OccurredAt y) (ss_paydays s) then Inl ErrSubscriptionStore
      else query fault (\<lambda>s. let row = y\<lparr>py_ID := ss_nextPayday s\<rparr>
             in (row, s\<lparr>ss_paydays := ss_paydays s @ [row], ss_nextPayday := ss_nextPayday s + 1\<rparr>)) s)"

definition unclaimed :: "ident \<Rightarrow> payday \<Rightarrow> bool" where
  "unclaimed p y \<longleftrightarrow> py_PlayerID y = p \<and> \<not> py_Claimed y"

definition ListUnclaimedPaydays :: "(nat \<Rightarrow> bool) \<Rightarrow> ident \<Rightarrow> payday list sx" where
  "ListUnclaimedPaydays fault p = query fault (\<lambda>s. (sort_key py_ID (filter (unclaimed p) (ss_paydays s)), s))"

definition MarkPaydayClaimed :: "(nat \<Rightarrow> bool) \<Rightarrow> ident \<Rightarrow> unit sx" where
  "MarkPaydayClaimed fault key = query fault (\<lambda>s.
     ((), s\<lparr>ss_paydays := map (\<lambda>y. if py_ID y = key \<and> \<not> py_Claimed y then y\<lparr>py_Claimed := True\<rparr> else y) (ss_paydays s)\<rparr>))"

definition InsertGiftClaim :: "(nat \<Rightarrow> bool) \<Rightarrow> ident \<Rightarrow> int \<Rightarrow> ident \<Rightarrow> unit sx" where
  "InsertGiftClaim fault p start item s =
     (if list_ex (\<lambda>(q, t, i). q = p \<and> t = start) (ss_giftClaims s) then Inl ErrSubscriptionStore
      else query fault (\<lambda>s. ((), s\<lparr>ss_giftClaims := ss_giftClaims s @ [(p, start, item)]\<rparr>)) s)"

text \<open>Purchases count unless the page of their offer is excluded.\<close>

definition kickback_row :: "catalog_store \<Rightarrow> ident \<Rightarrow> purchase_row \<Rightarrow> bool" where
  "kickback_row c p row \<longleftrightarrow> pl_Player row = p \<and>
     list_ex (\<lambda>i. of_ID i = pl_CatalogItemID row \<and>
       list_ex (\<lambda>g. pg_ID g = of_PageID i \<and> \<not> pg_ExcludedFromKickback g) (cs_pages c)) (cs_offers c)"

definition spent :: "subscription_store \<Rightarrow> ident \<Rightarrow> (int \<Rightarrow> bool) \<Rightarrow> int" where
  "spent s p at = sum_list (map (\<lambda>(row, t). if kickback_row (ss_catalog s) p row \<and> at t then pl_CostCredits row else 0)
     (zip (cs_log (ss_catalog s)) (ss_stamps s)))"

definition CreditsSpentSince :: "(nat \<Rightarrow> bool) \<Rightarrow> ident \<Rightarrow> int \<Rightarrow> int sx" where
  "CreditsSpentSince fault p since = query fault (\<lambda>s. (spent s p (\<lambda>t. t > since), s))"

definition CreditsSpentBetween :: "(nat \<Rightarrow> bool) \<Rightarrow> ident \<Rightarrow> int \<Rightarrow> int \<Rightarrow> int sx" where
  "CreditsSpentBetween fault p after through = query fault (\<lambda>s. (spent s p (\<lambda>t. t > after \<and> t \<le> through), s))"

subsection \<open>Memberships\<close>

definition activeMembership :: "int \<Rightarrow> membership \<Rightarrow> bool" where
  "activeMembership now m \<longleftrightarrow> mb_Level m > LevelNone \<and> (case mb_ExpiresAt m of None \<Rightarrow> False | Some e \<Rightarrow> now < e)"

definition accrual_end :: "int \<Rightarrow> membership \<Rightarrow> int" where
  "accrual_end now m = (case mb_ExpiresAt m of None \<Rightarrow> now | Some e \<Rightarrow> if e < now then e else now)"

definition accrual_start :: "membership \<Rightarrow> int option" where
  "accrual_start m = (case mb_LastAccruedAt m of Some t \<Rightarrow> Some t
     | None \<Rightarrow> (case mb_StreakStartedAt m of Some t \<Rightarrow> Some t | None \<Rightarrow> mb_StartedAt m))"

definition accrueMembership :: "int \<Rightarrow> membership \<Rightarrow> membership" where
  "accrueMembership now m =
     (let until = accrual_end now m;
          seconds = (case accrual_start m of None \<Rightarrow> 0 | Some t \<Rightarrow> if t < until then (until - t) sdiv second else 0);
          life = mb_LifetimeActiveSeconds m + seconds
      in m\<lparr>mb_LifetimeActiveSeconds := life,
           mb_LifetimeVIPSeconds := mb_LifetimeVIPSeconds m + (if mb_Level m = LevelVIP then seconds else 0),
           mb_LastAccruedAt := Some until,
           mb_GiftsEarned := word_of_int (life sdiv ClubGiftPeriodSeconds)\<rparr>)"

definition Membership :: "(nat \<Rightarrow> bool) \<Rightarrow> int \<Rightarrow> ident \<Rightarrow> membership option sx" where
  "Membership fault now p = chain (FindMembership fault p) (\<lambda>found.
     give (map_option (\<lambda>m. if activeMembership now m then accrueMembership now m else m) found))"

text \<open>The membership that a purchase leaves, and whether it is created.\<close>

definition renewed :: "int \<Rightarrow> ident \<Rightarrow> int \<Rightarrow> int \<Rightarrow> membership option \<Rightarrow> membership \<times> bool" where
  "renewed now p level duration found =
     (let m0 = (case found of None \<Rightarrow> zero_membership | Some m \<Rightarrow> m);
          active = (found \<noteq> None \<and> activeMembership now m0);
          m1 = (if active then accrueMembership now m0 else m0);
          anchor = (if active then the (mb_ExpiresAt m1) else now);
          created = (found = None \<or> mb_StartedAt m1 = None);
          m2 = (if created then zero_membership\<lparr>mb_PlayerID := p, mb_StartedAt := Some now\<rparr> else m1);
          m3 = (if \<not> active then m2\<lparr>mb_Level := level, mb_StreakStartedAt := Some now, mb_LastAccruedAt := Some now, mb_LastPaydayAt := Some now\<rparr>
                else if level > mb_Level m2 then m2\<lparr>mb_Level := level\<rparr> else m2);
          m4 = m3\<lparr>mb_ExpiresAt := Some (anchor + duration)\<rparr>
      in (case mb_LastPaydayAt m4 of None \<Rightarrow> m4\<lparr>mb_LastPaydayAt := Some now\<rparr> | Some _ \<Rightarrow> m4, created))"

definition applySubscription :: "(nat \<Rightarrow> bool) \<Rightarrow> int \<Rightarrow> ident \<Rightarrow> int \<Rightarrow> int \<Rightarrow> (membership \<times> bool) sx" where
  "applySubscription fault now p level duration = chain (FindMembership fault p) (\<lambda>found.
     let (m, created) = renewed now p level duration found
     in chain (UpsertMembership fault m) (\<lambda>_.
        chain (SetClub fault p \<lparr>cb_Level = mb_Level m, cb_ExpiresAt = mb_ExpiresAt m\<rparr>) (\<lambda>_. give (m, created))))"

definition projectLive :: "membership \<Rightarrow> subscription_store \<Rightarrow> subscription_store" where
  "projectLive m s = (case ss_live s (mb_PlayerID m) of
     None \<Rightarrow> s
   | Some _ \<Rightarrow> s\<lparr>ss_live := (ss_live s)(mb_PlayerID m \<mapsto> \<lparr>cb_Level = mb_Level m, cb_ExpiresAt = mb_ExpiresAt m\<rparr>)\<rparr>)"

text \<open>A committed membership is projected to the online player.\<close>

definition projected :: "(membership \<times> bool) sx \<Rightarrow> subscription_store \<Rightarrow> subscription_store \<times> (subscription_error + membership)" where
  "projected work s = (case work s of Inl e \<Rightarrow> (s, Inl e) | Inr ((m, created), s') \<Rightarrow> (projectLive m s', Inr m))"

definition Subscribe ::
  "(nat \<Rightarrow> bool) \<Rightarrow> int \<Rightarrow> ident \<Rightarrow> int \<Rightarrow> int \<Rightarrow> subscription_store \<Rightarrow> subscription_store \<times> (subscription_error + membership)" where
  "Subscribe fault now p level duration s =
     (if p \<le> 0 \<or> level \<le> LevelNone \<or> level > LevelVIP \<or> duration \<le> 0 then (s, Inl ErrClubOfferNotFound)
      else projected (applySubscription fault now p level duration) s)"

definition purchasePrices :: "club_offer \<Rightarrow> i32 \<Rightarrow> subscription_error + (int \<times> int)" where
  "purchasePrices x amount =
     (let k = sint amount in
      if cl_PriceCredits x > MaxInt64 sdiv k \<or> cl_PricePoints x > MaxInt64 sdiv k then Inl ErrInvalidClubAmount
      else Inr (cl_PriceCredits x * k, cl_PricePoints x * k))"

text \<open>What the purchase of a club offer checks of the offer that was read before the transaction, and the transaction.\<close>

definition club_amount_ok :: "club_offer \<Rightarrow> i32 \<Rightarrow> bool" where
  "club_amount_ok x amount \<longleftrightarrow> sint (cl_DayCount x) > 0 \<and> sint (cl_DayCount x) \<le> (MaxInt64 sdiv a_day) sdiv sint amount"

definition buy_membership ::
  "(nat \<Rightarrow> bool) \<Rightarrow> collaborators \<Rightarrow> int \<Rightarrow> ident \<Rightarrow> ident \<Rightarrow> club_offer \<Rightarrow> i32 \<Rightarrow> (membership \<times> bool) sx" where
  "buy_membership fault co now buyer recipient x amount = (case purchasePrices x amount of
     Inl e \<Rightarrow> refuse e
   | Inr (credits, points) \<Rightarrow>
       chain (if credits > 0 then club_Grant fault co now buyer CreditsType (- credits) ''club_subscription'' ActorPlayer else give 0) (\<lambda>_.
       chain (if points > 0 then club_Grant fault co now buyer (cl_PointsType x) (- points) ''club_subscription'' ActorPlayer else give 0) (\<lambda>_.
         applySubscription fault now (if recipient = 0 then buyer else recipient) (if cl_VIP x then LevelVIP else LevelHC)
           (sint (cl_DayCount x) * sint amount * a_day))))"

definition FindOffer :: "(nat \<Rightarrow> bool) \<Rightarrow> ident \<Rightarrow> club_offer option sx" where
  "FindOffer fault key = query fault (\<lambda>s. (List.find (\<lambda>x. cl_ID x = key \<and> cl_Enabled x) (ss_offers s), s))"

definition ListOffers :: "(nat \<Rightarrow> bool) \<Rightarrow> bool \<Rightarrow> club_offer list sx" where
  "ListOffers fault deals = query fault (\<lambda>s.
     (sort_key (\<lambda>x. (sint (cl_OrderNum x), cl_ID x)) (filter (\<lambda>x. cl_Enabled x \<and> cl_Deal x = deals) (ss_offers s)), s))"

definition PurchaseOfferAmount ::
  "(nat \<Rightarrow> bool) \<Rightarrow> (nat \<Rightarrow> bool) \<Rightarrow> collaborators \<Rightarrow> int \<Rightarrow> ident \<Rightarrow> ident \<Rightarrow> ident \<Rightarrow> i32 \<Rightarrow> subscription_store \<Rightarrow>
     subscription_store \<times> (subscription_error + membership)" where
  "PurchaseOfferAmount fault1 fault2 co now buyer recipient key amount s =
     (if sint amount \<le> 0 \<or> sint amount > 100 then (s, Inl ErrInvalidClubAmount)
      else (case FindOffer fault1 key s of
          Inl e \<Rightarrow> (s, Inl e)
        | Inr (None, s1) \<Rightarrow> (s1, Inl ErrClubOfferNotFound)
        | Inr (Some x, s1) \<Rightarrow> if \<not> club_amount_ok x amount then (s1, Inl ErrInvalidClubAmount)
            else projected (buy_membership fault2 co now buyer recipient x amount) s1))"

definition PurchaseExtensionOffer ::
  "(nat \<Rightarrow> bool) \<Rightarrow> (nat \<Rightarrow> bool) \<Rightarrow> (nat \<Rightarrow> bool) \<Rightarrow> collaborators \<Rightarrow> int \<Rightarrow> ident \<Rightarrow> ident \<Rightarrow> bool \<Rightarrow> subscription_store \<Rightarrow>
     subscription_store \<times> (subscription_error + membership)" where
  "PurchaseExtensionOffer fault0 fault1 fault2 co now p key vip s = (case FindOffer fault0 key s of
     Inl e \<Rightarrow> (s, Inl e)
   | Inr (None, s1) \<Rightarrow> (s1, Inl ErrClubOfferNotFound)
   | Inr (Some x, s1) \<Rightarrow> if \<not> cl_Deal x \<or> cl_VIP x \<noteq> vip then (s1, Inl ErrClubOfferNotFound)
       else PurchaseOfferAmount fault1 fault2 co now p p key 1 s1)"

text \<open>The first offer of a tier, among the deals before the others.\<close>

definition PurchaseDefaultOffer ::
  "(nat \<Rightarrow> bool) \<Rightarrow> (nat \<Rightarrow> bool) \<Rightarrow> (nat \<Rightarrow> bool) \<Rightarrow> collaborators \<Rightarrow> int \<Rightarrow> ident \<Rightarrow> bool \<Rightarrow> subscription_store \<Rightarrow>
     subscription_store \<times> (subscription_error + membership)" where
  "PurchaseDefaultOffer fault0 fault1 fault2 co now p vip s = (case ListOffers fault0 True s of
     Inl e \<Rightarrow> (s, Inl e)
   | Inr (deals, s1) \<Rightarrow> (case List.find (\<lambda>x. cl_VIP x = vip) deals of
         Some x \<Rightarrow> PurchaseOfferAmount fault1 fault2 co now p p (cl_ID x) 1 s1
       | None \<Rightarrow> (case ListOffers fault0 False s1 of
             Inl e \<Rightarrow> (s1, Inl e)
           | Inr (others, s2) \<Rightarrow> (case List.find (\<lambda>x. cl_VIP x = vip) others of
                 Some x \<Rightarrow> PurchaseOfferAmount fault1 fault2 co now p p (cl_ID x) 1 s2
               | None \<Rightarrow> (s2, Inl ErrClubOfferNotFound)))))"

definition revoke_membership :: "(nat \<Rightarrow> bool) \<Rightarrow> int \<Rightarrow> ident \<Rightarrow> membership sx" where
  "revoke_membership fault now p = chain (FindMembership fault p) (\<lambda>found. case found of
     None \<Rightarrow> give zero_membership
   | Some m0 \<Rightarrow> (let m = (accrueMembership now m0)\<lparr>mb_Level := LevelNone, mb_ExpiresAt := None, mb_StreakStartedAt := None\<rparr>
       in chain (UpsertMembership fault m) (\<lambda>_.
          chain (SetClub fault p \<lparr>cb_Level = LevelNone, cb_ExpiresAt = None\<rparr>) (\<lambda>_. give m))))"

definition Revoke ::
  "(nat \<Rightarrow> bool) \<Rightarrow> int \<Rightarrow> ident \<Rightarrow> subscription_store \<Rightarrow> subscription_store \<times> subscription_error option" where
  "Revoke fault now p s = (case revoke_membership fault now p s of Inl e \<Rightarrow> (s, Some e) | Inr (m, s') \<Rightarrow> (projectLive m s', None))"

subsection \<open>Paydays\<close>

definition StreakBonuses :: "(i32 \<times> int) list" where
  "StreakBonuses = [(7, 5), (30, 10), (60, 15), (90, 20), (180, 25), (365, 30)]"

fun streak_bonus :: "i32 \<Rightarrow> (i32 \<times> int) list \<Rightarrow> int \<Rightarrow> int" where
  "streak_bonus days [] streak = streak"
| "streak_bonus days ((least, bonus) # ts) streak = streak_bonus days ts (if sint days \<ge> sint least then bonus else streak)"

definition CalculatePayday :: "i32 \<Rightarrow> int \<Rightarrow> (int \<Rightarrow> int) \<Rightarrow> int \<times> int" where
  "CalculatePayday days creditsSpent kickback = (streak_bonus days StreakBonuses 0, kickback creditsSpent)"

definition streakDays :: "membership \<Rightarrow> int \<Rightarrow> i32" where
  "streakDays m boundary = (case mb_StreakStartedAt m of
     None \<Rightarrow> 0 | Some t \<Rightarrow> if boundary < t then 0 else word_of_int ((boundary - t) sdiv a_day))"

definition RemainingClubGifts :: "membership \<Rightarrow> i32" where
  "RemainingClubGifts m = word_of_int (mb_LifetimeActiveSeconds m sdiv ClubGiftPeriodSeconds) - mb_GiftsClaimed m"

record payday_info =
  pi_Membership :: membership
  pi_CreditsSpent :: int
  pi_StreakDays :: i32
  pi_StreakBonus :: int
  pi_MonthlyBonus :: int
  pi_MinutesUntilPayday :: i32

definition zero_info :: payday_info where
  "zero_info = \<lparr>pi_Membership = zero_membership, pi_CreditsSpent = 0, pi_StreakDays = 0, pi_StreakBonus = 0,
     pi_MonthlyBonus = 0, pi_MinutesUntilPayday = 0\<rparr>"

definition CurrentPaydayInfo :: "(nat \<Rightarrow> bool) \<Rightarrow> subscription_options \<Rightarrow> int \<Rightarrow> ident \<Rightarrow> payday_info sx" where
  "CurrentPaydayInfo fault op now p = chain (Membership fault now p) (\<lambda>found. case found of
     None \<Rightarrow> give zero_info
   | Some m \<Rightarrow> (case mb_LastPaydayAt m of
         None \<Rightarrow> give zero_info
       | Some prior \<Rightarrow> chain (CreditsSpentSince fault p prior) (\<lambda>spent.
           let days = (case mb_StreakStartedAt m of None \<Rightarrow> 0 | Some t \<Rightarrow> word_of_int ((now - t) sdiv a_day));
               (streak, monthly) = CalculatePayday days spent (sop_Kickback op);
               left = sop_PaydayInterval op - (now - prior);
               remaining = (if left < 0 then 0 else left)
           in give \<lparr>pi_Membership = m, pi_CreditsSpent = spent, pi_StreakDays = days, pi_StreakBonus = streak,
                pi_MonthlyBonus = monthly, pi_MinutesUntilPayday = word_of_int ((remaining + 60 * second - 1) sdiv (60 * second))\<rparr>)))"

text \<open>One cycle that has ended at \<open>boundary\<close>: its spending is summed up and its reward recorded.\<close>

definition record_payday :: "(nat \<Rightarrow> bool) \<Rightarrow> subscription_options \<Rightarrow> membership \<Rightarrow> int \<Rightarrow> int \<Rightarrow> payday sx" where
  "record_payday fault op m prior boundary = chain (CreditsSpentBetween fault (mb_PlayerID m) prior boundary) (\<lambda>spent.
     let days = streakDays m boundary; (streak, monthly) = CalculatePayday days spent (sop_Kickback op)
     in InsertPayday fault \<lparr>py_ID = 0, py_PlayerID = mb_PlayerID m, py_OccurredAt = boundary, py_StreakDays = days, py_CreditsSpent = spent,
       py_StreakBonus = streak, py_MonthlyBonus = monthly, py_TotalAwarded = streak + monthly,
       py_CurrencyType = sop_PaydayCurrencyType op, py_Claimed = False\<rparr>)"

text \<open>The loop moves the last payday from boundary to boundary; \<open>None\<close> is a loop that never ends, as it would
  with an interval that is not positive.\<close>

partial_function (option) payday_loop ::
  "(nat \<Rightarrow> bool) \<Rightarrow> subscription_options \<Rightarrow> membership \<Rightarrow> int \<Rightarrow> int \<Rightarrow> bool \<Rightarrow> subscription_store \<Rightarrow>
     (subscription_error + ((int \<times> bool) \<times> subscription_store)) option" where
  "payday_loop fault op m through prior created s =
     (let boundary = prior + sop_PaydayInterval op in
      if boundary > through then Some (Inr ((prior, created), s))
      else (case record_payday fault op m prior boundary s of
          Inl e \<Rightarrow> Some (Inl e)
        | Inr (_, s') \<Rightarrow> payday_loop fault op m through boundary True s'))"

definition recordDuePaydays ::
  "(nat \<Rightarrow> bool) \<Rightarrow> subscription_options \<Rightarrow> int \<Rightarrow> membership \<Rightarrow> subscription_store \<Rightarrow>
     (subscription_error + ((membership \<times> bool) \<times> subscription_store)) option" where
  "recordDuePaydays fault op now m s = (case mb_LastPaydayAt m of
     None \<Rightarrow> Some (Inr ((m\<lparr>mb_LastPaydayAt := Some now\<rparr>, False), s))
   | Some prior \<Rightarrow> map_option (map_sum id (\<lambda>((prior', created), s'). ((m\<lparr>mb_LastPaydayAt := Some prior'\<rparr>, created), s')))
       (payday_loop fault op m (accrual_end now m) prior False s))"

text \<open>The transaction of one membership: accrual, paydays, expiry. The result is the committed membership, whether it
  expired and whether a payday was recorded; nothing when there is no active row.\<close>

definition expire_tier :: "(nat \<Rightarrow> bool) \<Rightarrow> int \<Rightarrow> membership \<Rightarrow> (membership \<times> bool) sx" where
  "expire_tier fault now m = (case mb_ExpiresAt m of
     None \<Rightarrow> give (m, False)
   | Some e \<Rightarrow> if now < e then give (m, False)
       else chain (SetClub fault (mb_PlayerID m) \<lparr>cb_Level = LevelNone, cb_ExpiresAt = None\<rparr>)
         (\<lambda>_. give (m\<lparr>mb_Level := LevelNone\<rparr>, True)))"

definition advance_membership ::
  "(nat \<Rightarrow> bool) \<Rightarrow> subscription_options \<Rightarrow> int \<Rightarrow> ident \<Rightarrow> subscription_store \<Rightarrow>
     (subscription_error + ((membership \<times> bool \<times> bool) option \<times> subscription_store)) option" where
  "advance_membership fault op now p s = (case FindMembership fault p s of
     Inl e \<Rightarrow> Some (Inl e)
   | Inr (found, s1) \<Rightarrow>
       (case (case found of None \<Rightarrow> None | Some m \<Rightarrow> if mb_Level m = LevelNone \<or> mb_ExpiresAt m = None then None else Some m) of
          None \<Rightarrow> Some (Inr (None, s1))
        | Some m \<Rightarrow> (case recordDuePaydays fault op now (accrueMembership now m) s1 of
              None \<Rightarrow> None
            | Some (Inl e) \<Rightarrow> Some (Inl e)
            | Some (Inr ((m1, created), s2)) \<Rightarrow>
                Some (chain (expire_tier fault now m1) (\<lambda>(m2, expired).
                  chain (UpsertMembership fault m2) (\<lambda>_. give (Some (m2, expired, created)))) s2))))"

text \<open>Pending rewards are delivered in one transaction.\<close>

fun claim_all :: "(nat \<Rightarrow> bool) \<Rightarrow> collaborators \<Rightarrow> int \<Rightarrow> ident \<Rightarrow> payday list \<Rightarrow> unit sx" where
  "claim_all fault co now p [] = give ()"
| "claim_all fault co now p (y # ys) =
     chain (if py_TotalAwarded y > 0 then club_Grant fault co now p (py_CurrencyType y) (py_TotalAwarded y) ''hc_payday'' ActorSystem else give 0)
       (\<lambda>_. chain (MarkPaydayClaimed fault (py_ID y)) (\<lambda>_. claim_all fault co now p ys))"

definition claim_paydays :: "(nat \<Rightarrow> bool) \<Rightarrow> collaborators \<Rightarrow> int \<Rightarrow> ident \<Rightarrow> payday list sx" where
  "claim_paydays fault co now p = chain (ListUnclaimedPaydays fault p) (\<lambda>ys. chain (claim_all fault co now p ys) (\<lambda>_. give ys))"

definition ClaimPaydays ::
  "(nat \<Rightarrow> bool) \<Rightarrow> collaborators \<Rightarrow> int \<Rightarrow> ident \<Rightarrow> subscription_store \<Rightarrow> subscription_store \<times> (subscription_error + payday list)" where
  "ClaimPaydays fault co now p = transact (claim_paydays fault co now p)"

definition processMembership ::
  "(nat \<Rightarrow> bool) \<Rightarrow> (nat \<Rightarrow> bool) \<Rightarrow> collaborators \<Rightarrow> subscription_options \<Rightarrow> int \<Rightarrow> ident \<Rightarrow> subscription_store \<Rightarrow>
     (subscription_store \<times> subscription_error option) option" where
  "processMembership fault1 fault2 co op now p s = (case advance_membership fault1 op now p s of
     None \<Rightarrow> None
   | Some (Inl e) \<Rightarrow> Some (s, Some e)
   | Some (Inr (None, s1)) \<Rightarrow> Some (s1, None)
   | Some (Inr (Some (m, expired, created), s1)) \<Rightarrow>
       (let s2 = (if expired then projectLive m s1 else s1) in
        if created \<and> ss_live s2 p \<noteq> None
        then (case ClaimPaydays fault2 co now p s2 of (s3, Inl e) \<Rightarrow> Some (s3, Some e) | (s3, Inr _) \<Rightarrow> Some (s3, None))
        else Some (s2, None)))"

fun process_all ::
  "(nat \<Rightarrow> nat \<Rightarrow> bool) \<Rightarrow> (nat \<Rightarrow> nat \<Rightarrow> bool) \<Rightarrow> collaborators \<Rightarrow> subscription_options \<Rightarrow> int \<Rightarrow> ident list \<Rightarrow> subscription_store \<Rightarrow>
     (subscription_store \<times> subscription_error option) option" where
  "process_all faults1 faults2 co op now [] s = Some (s, None)"
| "process_all faults1 faults2 co op now (p # ps) s = (case processMembership (faults1 (length ps)) (faults2 (length ps)) co op now p s of
     None \<Rightarrow> None
   | Some (s1, Some e) \<Rightarrow> Some (s1, Some e)
   | Some (s1, None) \<Rightarrow> process_all faults1 faults2 co op now ps s1)"

definition RunCycle ::
  "(nat \<Rightarrow> bool) \<Rightarrow> (nat \<Rightarrow> nat \<Rightarrow> bool) \<Rightarrow> (nat \<Rightarrow> nat \<Rightarrow> bool) \<Rightarrow> collaborators \<Rightarrow> subscription_options \<Rightarrow> int \<Rightarrow> subscription_store \<Rightarrow>
     (subscription_store \<times> subscription_error option) option" where
  "RunCycle fault faults1 faults2 co op now s = (case ListDueMemberships fault now (sop_PaydayInterval op) s of
     Inl e \<Rightarrow> Some (s, Some e)
   | Inr (ms, s1) \<Rightarrow> process_all faults1 faults2 co op now (map mb_PlayerID ms) s1)"

subsection \<open>Club gifts and targeted offers\<close>

text \<open>Decimal numbers as \<^verbatim>\<open>strconv.ParseInt\<close> accepts them in base 10 for 32 bits.\<close>

definition digits_value :: "string \<Rightarrow> int option" where
  "digits_value ds = (if ds = [] \<or> \<not> list_all (\<lambda>c. 48 \<le> (of_char c :: int) \<and> (of_char c :: int) \<le> 57) ds then None
     else Some (foldl (\<lambda>n c. 10 * n + (of_char c - 48)) 0 ds))"

definition ParseInt32 :: "string \<Rightarrow> int option" where
  "ParseInt32 text =
     (let (negative, ds) = (case text of [] \<Rightarrow> (False, [])
          | c # cs \<Rightarrow> if c = CHR ''-'' then (True, cs) else if c = CHR ''+'' then (False, cs) else (False, text))
      in case digits_value ds of
           None \<Rightarrow> None
         | Some n \<Rightarrow> if negative then (if n > 2147483648 then None else Some (- n)) else if n \<ge> 2147483648 then None else Some n)"

text \<open>The offer among those of the gift pages that the player may open.\<close>

fun gift_offer ::
  "collaborators \<Rightarrow> cache_snapshot \<Rightarrow> ident \<Rightarrow> ident \<Rightarrow> page list \<Rightarrow> subscription_error + offer option" where
  "gift_offer co c p key [] = Inr None"
| "gift_offer co c p key (g # gs) =
     (if pg_Layout g \<noteq> ''club_gifts'' then gift_offer co c p key gs
      else (case catalog_Page (co_permissions co) c (pg_ID g) p True of
          Inl e \<Rightarrow> Inl (CatalogError e)
        | Inr (_, items) \<Rightarrow> (case List.find (\<lambda>i. of_ID i = key) items of
              Some i \<Rightarrow> Inr (Some i) | None \<Rightarrow> gift_offer co c p key gs)))"

definition validateClubGift ::
  "collaborators \<Rightarrow> cache_snapshot \<Rightarrow> ident \<Rightarrow> ident \<Rightarrow> membership \<Rightarrow> subscription_error option" where
  "validateClubGift co c p key m = (case Pages (co_permissions co) c p True of
     Inl e \<Rightarrow> Some (CatalogError e)
   | Inr pages \<Rightarrow> (case gift_offer co c p key pages of
         Inl e \<Rightarrow> Some e
       | Inr None \<Rightarrow> Some ErrClubOfferNotFound
       | Inr (Some i) \<Rightarrow> (case ParseInt32 (of_ExtraData i) of
             None \<Rightarrow> Some ErrClubOfferNotFound
           | Some required \<Rightarrow> if mb_LifetimeActiveSeconds m sdiv 86400 < required then Some ErrClubOfferNotFound else None)))"

definition gift_order :: "ident \<Rightarrow> ident \<Rightarrow> purchase_params" where
  "gift_order p key = \<lparr>pp_PlayerID = p, pp_CatalogItemID = key, pp_HasClub = True, pp_Amount = 1, pp_ExtraData = [],
     pp_OperationKey = [], pp_RecipientPlayerID = 0, pp_Free = True, pp_Gift = None, pp_OverrideCredits = None,
     pp_OverridePoints = None, pp_OverridePointsType = None\<rparr>"

text \<open>The code multiplies in 64 bit nanoseconds, which is this product up to 3443 claimed periods, the first 292 years of a
  membership.\<close>

definition gift_period :: "membership \<Rightarrow> int \<Rightarrow> int" where
  "gift_period m start = start + sint (mb_GiftsClaimed m) * ClubGiftPeriodSeconds * second"

definition claim_gift ::
  "(nat \<Rightarrow> bool) \<Rightarrow> collaborators \<Rightarrow> cache_snapshot \<Rightarrow> int \<Rightarrow> ident \<Rightarrow> ident \<Rightarrow> purchase_result sx" where
  "claim_gift fault co c now p key = chain (FindMembership fault p) (\<lambda>found. case found of
     None \<Rightarrow> refuse ErrMembershipNotFound
   | Some m \<Rightarrow> (case mb_StartedAt m of
         None \<Rightarrow> refuse ErrMembershipNotFound
       | Some start \<Rightarrow>
           if \<not> activeMembership now m \<or> sint (RemainingClubGifts m) \<le> 0 then refuse ErrMembershipNotFound
           else (case validateClubGift co c p key m of
               Some e \<Rightarrow> refuse e
             | None \<Rightarrow>
                 chain (InsertGiftClaim fault p (gift_period m start) key) (\<lambda>_.
                 chain (in_catalog now (PurchaseWithin fault co c (gift_order p key))) (\<lambda>r.
                 chain (UpsertMembership fault (m\<lparr>mb_GiftsClaimed := mb_GiftsClaimed m + 1\<rparr>)) (\<lambda>_. give r))))))"

definition ClaimClubGift ::
  "(nat \<Rightarrow> bool) \<Rightarrow> collaborators \<Rightarrow> cache_snapshot \<Rightarrow> int \<Rightarrow> ident \<Rightarrow> ident \<Rightarrow> subscription_store \<Rightarrow>
     subscription_store \<times> (subscription_error + purchase_result)" where
  "ClaimClubGift fault co c now p key = transact (claim_gift fault co c now p key)"

text \<open>The offer with the progress of one player, if it can be shown to the player.\<close>

definition offer_open :: "int \<Rightarrow> targeted_offer \<Rightarrow> bool" where
  "offer_open now x \<longleftrightarrow> tg_Enabled x \<and> (case tg_ExpiresAt x of None \<Rightarrow> False | Some t \<Rightarrow> t > now) \<and> tg_ImageURL x \<noteq> [] \<and> tg_IconURL x \<noteq> []"

definition with_progress :: "subscription_store \<Rightarrow> ident \<Rightarrow> targeted_offer \<Rightarrow> targeted_offer" where
  "with_progress s p x = (case ss_progress s (p, tg_ID x) of
     None \<Rightarrow> x\<lparr>tg_PurchasesCount := 0, tg_Dismissed := False\<rparr>
   | Some q \<Rightarrow> x\<lparr>tg_PurchasesCount := op_PurchasesCount q, tg_Dismissed := op_Dismissed q\<rparr>)"

definition eligible_offers :: "subscription_store \<Rightarrow> int \<Rightarrow> ident \<Rightarrow> targeted_offer list" where
  "eligible_offers s now p = filter (\<lambda>x. \<not> tg_Dismissed x \<and> sint (tg_PurchasesCount x) < sint (tg_PurchaseLimit x))
     (map (with_progress s p) (filter (offer_open now) (ss_targeted s)))"

definition FindTargetedOffer :: "(nat \<Rightarrow> bool) \<Rightarrow> int \<Rightarrow> ident \<Rightarrow> ident \<Rightarrow> targeted_offer option sx" where
  "FindTargetedOffer fault now p after = query fault (\<lambda>s.
     (List.find (\<lambda>_. True) (sort_key (\<lambda>x. (sint (tg_OrderNum x), tg_ID x)) (filter (\<lambda>x. tg_ID x \<noteq> after) (eligible_offers s now p))), s))"

definition FindTargetedOfferByID :: "(nat \<Rightarrow> bool) \<Rightarrow> int \<Rightarrow> ident \<Rightarrow> ident \<Rightarrow> targeted_offer option sx" where
  "FindTargetedOfferByID fault now p key = query fault (\<lambda>s. (List.find (\<lambda>x. tg_ID x = key) (eligible_offers s now p), s))"

definition UpdateTargetedState :: "(nat \<Rightarrow> bool) \<Rightarrow> ident \<Rightarrow> ident \<Rightarrow> bool \<Rightarrow> unit sx" where
  "UpdateTargetedState fault p key dismissed = query fault (\<lambda>s. ((), s\<lparr>ss_progress := (ss_progress s)((p, key) \<mapsto>
     (case ss_progress s (p, key) of None \<Rightarrow> \<lparr>op_PurchasesCount = 0, op_Dismissed = dismissed\<rparr>
      | Some q \<Rightarrow> q\<lparr>op_Dismissed := dismissed\<rparr>))\<rparr>))"

text \<open>The insert needs an open offer; when the row exists the update checks the limit of an offer that is enabled and not expired.\<close>

definition IncrementTargetedPurchase :: "(nat \<Rightarrow> bool) \<Rightarrow> int \<Rightarrow> ident \<Rightarrow> ident \<Rightarrow> i32 \<Rightarrow> bool sx" where
  "IncrementTargetedPurchase fault now p key quantity s =
     (case List.find (\<lambda>x. tg_ID x = key \<and> offer_open now x \<and> sint quantity > 0 \<and> sint quantity \<le> sint (tg_PurchaseLimit x)) (ss_targeted s) of
        None \<Rightarrow> query fault (\<lambda>s. (False, s)) s
      | Some x \<Rightarrow> (case ss_progress s (p, key) of
            None \<Rightarrow> query fault (\<lambda>s. (True, s\<lparr>ss_progress := (ss_progress s)((p, key) \<mapsto> \<lparr>op_PurchasesCount = quantity, op_Dismissed = False\<rparr>)\<rparr>)) s
          | Some q \<Rightarrow>
              if sint (op_PurchasesCount q) + sint quantity > 2147483647 then Inl ErrSubscriptionStore
              else if sint (op_PurchasesCount q) + sint quantity \<le> sint (tg_PurchaseLimit x)
              then query fault (\<lambda>s. (True, s\<lparr>ss_progress := (ss_progress s)((p, key) \<mapsto> q\<lparr>op_PurchasesCount := op_PurchasesCount q + quantity\<rparr>)\<rparr>)) s
              else query fault (\<lambda>s. (False, s)) s))"

definition targeted_order :: "ident \<Rightarrow> targeted_offer \<Rightarrow> i32 \<Rightarrow> purchase_params" where
  "targeted_order p x quantity = \<lparr>pp_PlayerID = p, pp_CatalogItemID = tg_CatalogItemID x, pp_HasClub = True, pp_Amount = quantity,
     pp_ExtraData = [], pp_OperationKey = [], pp_RecipientPlayerID = 0, pp_Free = False, pp_Gift = None,
     pp_OverrideCredits = Some (tg_PriceCredits x), pp_OverridePoints = Some (tg_PricePoints x),
     pp_OverridePointsType = Some (tg_PointsType x)\<rparr>"

definition buy_targeted ::
  "(nat \<Rightarrow> bool) \<Rightarrow> collaborators \<Rightarrow> cache_snapshot \<Rightarrow> int \<Rightarrow> ident \<Rightarrow> targeted_offer \<Rightarrow> i32 \<Rightarrow> purchase_result sx" where
  "buy_targeted fault co c now p x quantity = chain (IncrementTargetedPurchase fault now p (tg_ID x) quantity) (\<lambda>updated.
     if \<not> updated then refuse ErrTargetedOfferUnavailable
     else in_catalog now (PurchaseWithin fault co c (targeted_order p x quantity)))"

definition PurchaseTargetedOffer ::
  "(nat \<Rightarrow> bool) \<Rightarrow> (nat \<Rightarrow> bool) \<Rightarrow> collaborators \<Rightarrow> cache_snapshot \<Rightarrow> int \<Rightarrow> ident \<Rightarrow> ident \<Rightarrow> i32 \<Rightarrow> subscription_store \<Rightarrow>
     subscription_store \<times> (subscription_error + purchase_result)" where
  "PurchaseTargetedOffer fault1 fault2 co c now p key quantity s = (case FindTargetedOfferByID fault1 now p key s of
     Inl e \<Rightarrow> (s, Inl e)
   | Inr (None, s1) \<Rightarrow> (s1, Inl ErrTargetedOfferUnavailable)
   | Inr (Some x, s1) \<Rightarrow>
       if tg_ID x \<noteq> key \<or> sint quantity \<le> 0 \<or> sint quantity > sint (tg_PurchaseLimit x - tg_PurchasesCount x)
       then (s1, Inl ErrTargetedOfferUnavailable)
       else transact (buy_targeted fault2 co c now p x quantity) s1)"

subsection \<open>The calendar\<close>

definition FindCampaign :: "(nat \<Rightarrow> bool) \<Rightarrow> string \<Rightarrow> campaign option sx" where
  "FindCampaign fault name = query fault (\<lambda>s. (List.find (\<lambda>x. cm_Name x = name \<and> cm_Enabled x) (ss_campaigns s), s))"

text \<open>Dates are compared by the day: a campaign is active from its first day on, for as many days as it has doors.\<close>

definition FindActiveCampaign :: "(nat \<Rightarrow> bool) \<Rightarrow> int \<Rightarrow> campaign option sx" where
  "FindActiveCampaign fault now = query fault (\<lambda>s.
     (List.find (\<lambda>_. True) (sort_key (\<lambda>x. (- cm_StartDate x, cm_ID x))
        (filter (\<lambda>x. cm_Enabled x \<and> cm_StartDate x div a_day \<le> now div a_day \<and>
           cm_StartDate x div a_day + sint (cm_DayCount x) > now div a_day) (ss_campaigns s))), s))"

definition FindCampaignDay :: "(nat \<Rightarrow> bool) \<Rightarrow> ident \<Rightarrow> i32 \<Rightarrow> campaign_day option sx" where
  "FindCampaignDay fault key n = query fault (\<lambda>s. (List.find (\<lambda>d. cd_CampaignID d = key \<and> cd_DayNumber d = n) (ss_days s), s))"

definition ListCampaignDays :: "(nat \<Rightarrow> bool) \<Rightarrow> ident \<Rightarrow> campaign_day list sx" where
  "ListCampaignDays fault key = query fault (\<lambda>s.
     (sort_key (\<lambda>d. sint (cd_DayNumber d)) (filter (\<lambda>d. cd_CampaignID d = key) (ss_days s)), s))"

definition ListOpenedDays :: "(nat \<Rightarrow> bool) \<Rightarrow> ident \<Rightarrow> ident \<Rightarrow> i32 list sx" where
  "ListOpenedDays fault key p = query fault (\<lambda>s.
     (sort_key sint (map (\<lambda>(k, q, n). n) (filter (\<lambda>(k, q, n). k = key \<and> q = p) (ss_doors s))), s))"

definition InsertDoorClaim :: "(nat \<Rightarrow> bool) \<Rightarrow> ident \<Rightarrow> ident \<Rightarrow> i32 \<Rightarrow> unit sx" where
  "InsertDoorClaim fault key p n s =
     (if (key, p, n) \<in> set (ss_doors s) then Inl ErrSubscriptionStore
      else query fault (\<lambda>s. ((), s\<lparr>ss_doors := ss_doors s @ [(key, p, n)]\<rparr>)) s)"

text \<open>Go truncates the quotient of the durations toward zero.\<close>

definition currentDay :: "int \<Rightarrow> campaign \<Rightarrow> i32" where
  "currentDay now x = word_of_int ((now - cm_StartDate x) sdiv a_day)"

definition door_open :: "int \<Rightarrow> campaign \<Rightarrow> i32 \<Rightarrow> bool \<Rightarrow> bool" where
  "door_open now x n staff \<longleftrightarrow> \<not> (sint n < 0 \<or> sint n \<ge> sint (cm_DayCount x) \<or> \<not> staff \<and> sint n > sint (currentDay now x))"

definition door_furniture :: "ident \<Rightarrow> ident \<Rightarrow> grant_params" where
  "door_furniture p defn = \<lparr>gp_DefinitionID = defn, gp_OwnerPlayerID = p, gp_Quantity = 1, gp_ExtraData = ''0'', gp_LimitedEditionNumber = None\<rparr>"

definition claim_door :: "(nat \<Rightarrow> bool) \<Rightarrow> collaborators \<Rightarrow> int \<Rightarrow> ident \<Rightarrow> ident \<Rightarrow> i32 \<Rightarrow> campaign_day \<Rightarrow> unit sx" where
  "claim_door fault co now p key n d =
     chain (\<lambda>s. case InsertDoorClaim fault key p n s of Inl e \<Rightarrow> Inl ErrCalendarDoorUnavailable | Inr z \<Rightarrow> Inr z) (\<lambda>_.
     chain (if cd_CreditsReward d > 0 then club_Grant fault co now p CreditsType (cd_CreditsReward d) ''calendar_door'' ActorSystem else give 0) (\<lambda>_.
     chain (if cd_PointsReward d > 0 then club_Grant fault co now p (cd_PointsType d) (cd_PointsReward d) ''calendar_door'' ActorSystem else give 0) (\<lambda>_.
     (case cd_ProductDefinitionID d of
        None \<Rightarrow> give ()
      | Some defn \<Rightarrow> chain (in_catalog now (furniture_Grant fault (door_furniture p defn))) (\<lambda>_. give ())))))"

definition OpenCalendarDoor ::
  "(nat \<Rightarrow> bool) \<Rightarrow> (nat \<Rightarrow> bool) \<Rightarrow> (nat \<Rightarrow> bool) \<Rightarrow> collaborators \<Rightarrow> int \<Rightarrow> ident \<Rightarrow> string \<Rightarrow> i32 \<Rightarrow> bool \<Rightarrow> subscription_store \<Rightarrow>
     subscription_store \<times> (subscription_error + campaign_day)" where
  "OpenCalendarDoor fault0 fault1 fault2 co now p name n staff s = (case FindCampaign fault0 name s of
     Inl e \<Rightarrow> (s, Inl ErrCalendarDoorUnavailable)
   | Inr (None, s1) \<Rightarrow> (s1, Inl ErrCalendarDoorUnavailable)
   | Inr (Some x, s1) \<Rightarrow>
       if \<not> door_open now x n staff then (s1, Inl ErrCalendarDoorUnavailable)
       else (case FindCampaignDay fault1 (cm_ID x) n s1 of
           Inl e \<Rightarrow> (s1, Inl ErrCalendarDoorUnavailable)
         | Inr (None, s2) \<Rightarrow> (s2, Inl ErrCalendarDoorUnavailable)
         | Inr (Some d, s2) \<Rightarrow> (case transact (claim_door fault2 co now p (cm_ID x) n d) s2 of
               (s3, Inl e) \<Rightarrow> (s3, Inl e) | (s3, Inr _) \<Rightarrow> (s3, Inr d))))"

definition CalendarData :: "(nat \<Rightarrow> bool) \<Rightarrow> ident \<Rightarrow> string \<Rightarrow> (campaign \<times> campaign_day list \<times> i32 list) sx" where
  "CalendarData fault p name s = (case FindCampaign fault name s of
     Inl e \<Rightarrow> Inl ErrCalendarDoorUnavailable
   | Inr (None, s1) \<Rightarrow> Inl ErrCalendarDoorUnavailable
   | Inr (Some x, s1) \<Rightarrow> chain (ListCampaignDays fault (cm_ID x)) (\<lambda>ds.
       chain (ListOpenedDays fault (cm_ID x) p) (\<lambda>ns. give (x, ds, ns))) s1)"

definition ActiveCalendarData :: "(nat \<Rightarrow> bool) \<Rightarrow> int \<Rightarrow> ident \<Rightarrow> (campaign \<times> i32 list) option sx" where
  "ActiveCalendarData fault now p = chain (FindActiveCampaign fault now) (\<lambda>found. case found of
     None \<Rightarrow> give None
   | Some x \<Rightarrow> chain (ListOpenedDays fault (cm_ID x) p) (\<lambda>ns. give (Some (x, ns))))"

definition FindSeasonalOffer :: "(nat \<Rightarrow> bool) \<Rightarrow> int \<Rightarrow> seasonal_offer option sx" where
  "FindSeasonalOffer fault date = query fault (\<lambda>s. (List.find (\<lambda>x. se_Date x div a_day = date div a_day) (ss_seasonal s), s))"

subsection \<open>The bonus rare and the projections of a membership\<close>

record bonus_rare =
  br_ProductType :: string
  br_ProductClassID :: i32
  br_Threshold :: i32
  br_Remaining :: i32

definition clampProtocolInt :: "int \<Rightarrow> i32" where
  "clampProtocolInt v = (if v \<le> 0 then 0 else if v > 2147483647 then 2147483647 else word_of_int v)"

definition clampInt32 :: "int \<Rightarrow> i32" where
  "clampInt32 v = (if v > 2147483647 then 2147483647 else if v < -2147483648 then -2147483648 else word_of_int v)"

text \<open>\<open>balance\<close> and \<open>definition_of\<close> are what the currencies and the furniture answer; a definition has a public name, a name and a sprite.\<close>

definition BonusRareInfo ::
  "subscription_options \<Rightarrow> subscription_error + int \<Rightarrow> (ident \<Rightarrow> subscription_error + (string \<times> string \<times> int) option) \<Rightarrow>
     bonus_rare \<times> subscription_error option" where
  "BonusRareInfo op balance definition_of = (case balance of
     Inl e \<Rightarrow> (\<lparr>br_ProductType = [], br_ProductClassID = 0, br_Threshold = 0, br_Remaining = 0\<rparr>, Some e)
   | Inr b \<Rightarrow>
       (let left = sop_BonusRareThreshold op - b; remaining = (if left < 0 then 0 else left);
            result = \<lparr>br_ProductType = [], br_ProductClassID = 0, br_Threshold = clampProtocolInt (sop_BonusRareThreshold op),
              br_Remaining = clampProtocolInt remaining\<rparr>
        in if sop_BonusRareProductID op = 0 then (result, None)
           else (case definition_of (sint (sop_BonusRareProductID op)) of
               Inl e \<Rightarrow> (result, Some e)
             | Inr None \<Rightarrow> (result, None)
             | Inr (Some (public, name, sprite)) \<Rightarrow>
                 (result\<lparr>br_ProductType := (if public = [] then name else public), br_ProductClassID := word_of_int sprite\<rparr>, None))))"

text \<open>Whole or begun days and minutes that the club window shows.\<close>

definition membershipDaysLeft :: "membership \<Rightarrow> int \<Rightarrow> i32" where
  "membershipDaysLeft m now = (case mb_ExpiresAt m of
     None \<Rightarrow> 0 | Some e \<Rightarrow> if \<not> e > now then 0 else word_of_int ((e - now + a_day - 1) sdiv a_day))"

definition offer_expires :: "club_offer \<Rightarrow> membership \<Rightarrow> int \<Rightarrow> int" where
  "offer_expires x m now =
     (let anchor = (case mb_ExpiresAt m of None \<Rightarrow> now | Some e \<Rightarrow> if e > now then e else now)
      in anchor + sint (cl_DayCount x) * a_day)"

definition daysLeftAfterPurchase :: "club_offer \<Rightarrow> membership \<Rightarrow> int \<Rightarrow> i32" where
  "daysLeftAfterPurchase x m now = word_of_int ((offer_expires x m now - now + a_day - 1) sdiv a_day)"

definition giftSummary :: "membership option \<Rightarrow> i32 \<times> i32" where
  "giftSummary found = (case found of
     None \<Rightarrow> (0, 0)
   | Some m \<Rightarrow> if mb_Level m = LevelNone then (0, 0)
       else (if sint (RemainingClubGifts m) > 0 then 0
             else word_of_int ((ClubGiftPeriodSeconds - mb_LifetimeActiveSeconds m smod ClubGiftPeriodSeconds + 86399) div 86400),
             RemainingClubGifts m))"

subsection \<open>Administration\<close>

definition ListPaydays :: "(nat \<Rightarrow> bool) \<Rightarrow> ident \<Rightarrow> payday list sx" where
  "ListPaydays fault p = query fault (\<lambda>s. (rev (sort_key py_ID (filter (\<lambda>y. py_PlayerID y = p) (ss_paydays s))), s))"

definition admin_Membership ::
  "(nat \<Rightarrow> bool) \<Rightarrow> subscription_options \<Rightarrow> int \<Rightarrow> ident \<Rightarrow> (membership \<times> payday_info \<times> payday list) option sx" where
  "admin_Membership fault op now p = chain (Membership fault now p) (\<lambda>found. case found of
     None \<Rightarrow> give None
   | Some m \<Rightarrow> chain (ListPaydays fault p) (\<lambda>ys. chain (CurrentPaydayInfo fault op now p) (\<lambda>info. give (Some (m, info, ys)))))"

definition admin_Grant ::
  "(nat \<Rightarrow> bool) \<Rightarrow> int \<Rightarrow> ident \<Rightarrow> int \<Rightarrow> int \<Rightarrow> subscription_store \<Rightarrow> subscription_store \<times> (subscription_error + membership)" where
  "admin_Grant fault now p level duration s =
     (if p \<le> 0 \<or> duration \<le> 0 then (s, Inl ErrInvalidSubscriptionInput) else Subscribe fault now p level duration s)"

definition admin_Revoke ::
  "(nat \<Rightarrow> bool) \<Rightarrow> int \<Rightarrow> ident \<Rightarrow> subscription_store \<Rightarrow> subscription_store \<times> subscription_error option" where
  "admin_Revoke fault now p s = (if p \<le> 0 then (s, Some ErrInvalidSubscriptionInput) else Revoke fault now p s)"

text \<open>Inserts and updates by id; a duplicate of a unique name and an update of a missing row fail.\<close>

definition SaveClubOffer :: "(nat \<Rightarrow> bool) \<Rightarrow> club_offer \<Rightarrow> club_offer sx" where
  "SaveClubOffer fault x s =
     (if cl_Name x = [] \<or> sint (cl_DayCount x) \<le> 0 \<or> cl_PriceCredits x < 0 \<or> cl_PricePoints x < 0 then Inl ErrInvalidSubscriptionInput
      else if list_ex (\<lambda>y. cl_ID y \<noteq> cl_ID x \<and> cl_Name y = cl_Name x) (ss_offers s) then Inl ErrSubscriptionStore
      else if cl_ID x = 0 then query fault (\<lambda>s. let row = x\<lparr>cl_ID := ss_nextOffer s\<rparr>
          in (row, s\<lparr>ss_offers := ss_offers s @ [row], ss_nextOffer := ss_nextOffer s + 1\<rparr>)) s
      else if \<not> list_ex (\<lambda>y. cl_ID y = cl_ID x) (ss_offers s) then Inl ErrSubscriptionStore
      else query fault (\<lambda>s. (x, s\<lparr>ss_offers := map (\<lambda>y. if cl_ID y = cl_ID x then x else y) (ss_offers s)\<rparr>)) s)"

definition SaveTargetedOffer :: "(nat \<Rightarrow> bool) \<Rightarrow> int \<Rightarrow> targeted_offer \<Rightarrow> targeted_offer sx" where
  "SaveTargetedOffer fault now x s =
     (if tg_CatalogItemID x \<le> 0 \<or> sint (tg_PurchaseLimit x) \<le> 0 \<or> tg_PriceCredits x < 0 \<or> tg_PricePoints x < 0 \<or>
         TrimSpace (tg_TitleKey x) = [] \<or> TrimSpace (tg_DescriptionKey x) = [] \<or> TrimSpace (tg_ImageURL x) = [] \<or>
         TrimSpace (tg_IconURL x) = [] \<or> (case tg_ExpiresAt x of None \<Rightarrow> True | Some t \<Rightarrow> \<not> t > now) then Inl ErrInvalidSubscriptionInput
      else if \<not> list_ex (\<lambda>i. of_ID i = tg_CatalogItemID x) (cs_offers (ss_catalog s)) then Inl ErrSubscriptionStore
      else if tg_ID x = 0 then query fault (\<lambda>s. let row = x\<lparr>tg_ID := ss_nextTargeted s\<rparr>
          in (row, s\<lparr>ss_targeted := ss_targeted s @ [row], ss_nextTargeted := ss_nextTargeted s + 1\<rparr>)) s
      else if \<not> list_ex (\<lambda>y. tg_ID y = tg_ID x) (ss_targeted s) then Inl ErrSubscriptionStore
      else query fault (\<lambda>s. (x, s\<lparr>ss_targeted := map (\<lambda>y. if tg_ID y = tg_ID x then x else y) (ss_targeted s)\<rparr>)) s)"

definition UpsertCampaign :: "(nat \<Rightarrow> bool) \<Rightarrow> campaign \<Rightarrow> campaign sx" where
  "UpsertCampaign fault x s =
     (if sint (cm_DayCount x) < 1 \<or> sint (cm_DayCount x) > 31 \<or> list_ex (\<lambda>y. cm_ID y \<noteq> cm_ID x \<and> cm_Name y = cm_Name x) (ss_campaigns s)
      then Inl ErrSubscriptionStore
      else if cm_ID x = 0 then query fault (\<lambda>s. let row = x\<lparr>cm_ID := ss_nextCampaign s\<rparr>
          in (row, s\<lparr>ss_campaigns := ss_campaigns s @ [row], ss_nextCampaign := ss_nextCampaign s + 1\<rparr>)) s
      else if \<not> list_ex (\<lambda>y. cm_ID y = cm_ID x) (ss_campaigns s) then Inl ErrSubscriptionStore
      else query fault (\<lambda>s. (x, s\<lparr>ss_campaigns := map (\<lambda>y. if cm_ID y = cm_ID x then x else y) (ss_campaigns s)\<rparr>)) s)"

definition same_door :: "campaign_day \<Rightarrow> campaign_day \<Rightarrow> bool" where
  "same_door d e \<longleftrightarrow> cd_CampaignID e = cd_CampaignID d \<and> cd_DayNumber e = cd_DayNumber d"

definition UpsertCampaignDay :: "(nat \<Rightarrow> bool) \<Rightarrow> campaign_day \<Rightarrow> unit sx" where
  "UpsertCampaignDay fault d = query fault (\<lambda>s. ((),
     if list_ex (same_door d) (ss_days s) then s\<lparr>ss_days := map (\<lambda>e. if same_door d e then d else e) (ss_days s)\<rparr>
     else s\<lparr>ss_days := ss_days s @ [d]\<rparr>))"

text \<open>The campaign and its days are saved one by one, without a transaction around them: what was saved before an error stays.\<close>

fun save_days :: "(nat \<Rightarrow> bool) \<Rightarrow> campaign \<Rightarrow> campaign_day list \<Rightarrow> subscription_store \<Rightarrow> subscription_store \<times> (subscription_error + campaign)" where
  "save_days fault x [] s = (s, Inr x)"
| "save_days fault x (d # ds) s =
     (if sint (cd_DayNumber d) < 0 \<or> sint (cd_DayNumber d) \<ge> sint (cm_DayCount x) then (s, Inl ErrInvalidSubscriptionInput)
      else (case UpsertCampaignDay fault (d\<lparr>cd_CampaignID := cm_ID x\<rparr>) s of
          Inl e \<Rightarrow> (s, Inl e) | Inr (_, s1) \<Rightarrow> save_days fault x ds s1))"

definition SaveCampaign ::
  "(nat \<Rightarrow> bool) \<Rightarrow> campaign \<Rightarrow> campaign_day list \<Rightarrow> subscription_store \<Rightarrow> subscription_store \<times> (subscription_error + campaign)" where
  "SaveCampaign fault x ds s =
     (if cm_Name x = [] \<or> cm_StartDate x = 0 \<or> sint (cm_DayCount x) \<le> 0 then (s, Inl ErrInvalidSubscriptionInput)
      else (case UpsertCampaign fault x s of Inl e \<Rightarrow> (s, Inl e) | Inr (saved, s1) \<Rightarrow> save_days fault saved ds s1))"

subsection \<open>The service\<close>

text \<open>What goroutines commit, in any order. The offer of a purchase and the reward of a door were read
  before the transaction and are arguments; so is the time, which the cycle reads once for all members that it processes.\<close>

datatype subscription_op =
    SSubscribe "nat \<Rightarrow> bool" int ident int int
  | SBuy "nat \<Rightarrow> bool" collaborators int ident ident club_offer i32
  | SRevoke "nat \<Rightarrow> bool" int ident
  | SProcess "nat \<Rightarrow> bool" "nat \<Rightarrow> bool" collaborators subscription_options int ident
  | SClaimPaydays "nat \<Rightarrow> bool" collaborators int ident
  | SClaimGift "nat \<Rightarrow> bool" collaborators cache_snapshot int ident ident
  | STargetedState "nat \<Rightarrow> bool" ident ident bool
  | SBuyTargeted "nat \<Rightarrow> bool" collaborators cache_snapshot int ident targeted_offer i32
  | SOpenDoor "nat \<Rightarrow> bool" collaborators int ident ident i32 campaign_day
  | SPurchase "nat \<Rightarrow> bool" collaborators cache_snapshot int purchase_params
  | SSaveClubOffer "nat \<Rightarrow> bool" club_offer
  | SSaveTargetedOffer "nat \<Rightarrow> bool" int targeted_offer
  | SSaveCampaign "nat \<Rightarrow> bool" campaign "campaign_day list"

fun subscription_step :: "subscription_op \<Rightarrow> subscription_store \<Rightarrow> subscription_store option" where
  "subscription_step (SSubscribe fault now p level duration) s = Some (fst (Subscribe fault now p level duration s))"
| "subscription_step (SBuy fault co now buyer recipient x amount) s =
     Some (if sint amount \<le> 0 \<or> sint amount > 100 \<or> \<not> club_amount_ok x amount then s
       else fst (projected (buy_membership fault co now buyer recipient x amount) s))"
| "subscription_step (SRevoke fault now p) s = Some (fst (Revoke fault now p s))"
| "subscription_step (SProcess fault1 fault2 co op now p) s = map_option fst (processMembership fault1 fault2 co op now p s)"
| "subscription_step (SClaimPaydays fault co now p) s = Some (fst (ClaimPaydays fault co now p s))"
| "subscription_step (SClaimGift fault co c now p key) s = Some (fst (ClaimClubGift fault co c now p key s))"
| "subscription_step (STargetedState fault p key dismissed) s = Some (fst (transact (UpdateTargetedState fault p key dismissed) s))"
| "subscription_step (SBuyTargeted fault co c now p x quantity) s =
     Some (if sint quantity \<le> 0 \<or> sint quantity > sint (tg_PurchaseLimit x - tg_PurchasesCount x) then s
       else fst (transact (buy_targeted fault co c now p x quantity) s))"
| "subscription_step (SOpenDoor fault co now p key n d) s = Some (fst (transact (claim_door fault co now p key n d) s))"
| "subscription_step (SPurchase fault co c now pp) s = Some (fst (transact (in_catalog now (PurchaseWithin fault co c pp)) s))"
| "subscription_step (SSaveClubOffer fault x) s = Some (fst (transact (SaveClubOffer fault x) s))"
| "subscription_step (SSaveTargetedOffer fault now x) s = Some (fst (transact (SaveTargetedOffer fault now x) s))"
| "subscription_step (SSaveCampaign fault x ds) s = Some (fst (SaveCampaign fault x ds s))"

fun subscription_run :: "subscription_op list \<Rightarrow> subscription_store \<Rightarrow> subscription_store option" where
  "subscription_run [] s = Some s"
| "subscription_run (x # xs) s = (case subscription_step x s of None \<Rightarrow> None | Some s' \<Rightarrow> subscription_run xs s')"

definition no_members :: "catalog_store \<Rightarrow> subscription_store" where
  "no_members c = \<lparr>ss_catalog = c, ss_stamps = [], ss_memberships = [], ss_clubs = Map.empty, ss_paydays = [], ss_nextPayday = 1,
     ss_giftClaims = [], ss_offers = [], ss_nextOffer = 1, ss_targeted = [], ss_nextTargeted = 1, ss_progress = Map.empty,
     ss_campaigns = [], ss_nextCampaign = 1, ss_days = [], ss_doors = [], ss_seasonal = [], ss_live = Map.empty\<rparr>"

subsection \<open>What the statements do\<close>

lemma sx_Inr [simp]:
  "give x s = Inr (y, s') \<longleftrightarrow> y = x \<and> s' = s"
  "refuse e s = Inr z \<longleftrightarrow> False"
  "chain f g s = Inr z \<longleftrightarrow> (\<exists>x s1. f s = Inr (x, s1) \<and> g x s1 = Inr z)"
  "query fault h s = Inr z \<longleftrightarrow> \<not> fault (calls s) \<and> z = h (count_call s)"
  by (auto simp: give_def refuse_def chain_def query_def split: sum.splits prod.splits)

lemma sx_case_Inr:
  "(if b then f else g) s = Inr z \<longleftrightarrow> (if b then f s = Inr z else g s = Inr z)"
  "(case ox of None \<Rightarrow> f | Some x \<Rightarrow> h x) s = Inr z \<longleftrightarrow> (case ox of None \<Rightarrow> f s = Inr z | Some x \<Rightarrow> h x s = Inr z)"
  by (auto split: option.splits)

lemma count_call_fields [simp]:
  "ss_memberships (count_call s) = ss_memberships s" "ss_giftClaims (count_call s) = ss_giftClaims s"
  "ss_paydays (count_call s) = ss_paydays s" "ss_nextPayday (count_call s) = ss_nextPayday s" "ss_stamps (count_call s) = ss_stamps s"
  "ss_clubs (count_call s) = ss_clubs s" "ss_live (count_call s) = ss_live s" "ss_progress (count_call s) = ss_progress s"
  "ss_targeted (count_call s) = ss_targeted s" "ss_doors (count_call s) = ss_doors s"
  "cs_log (ss_catalog (count_call s)) = cs_log (ss_catalog s)" "cs_pages (ss_catalog (count_call s)) = cs_pages (ss_catalog s)"
  "cs_offers (ss_catalog (count_call s)) = cs_offers (ss_catalog s)"
  "db_ledger (cs_db (ss_catalog (count_call s))) = db_ledger (cs_db (ss_catalog s))"
  "balance_of (cs_db (ss_catalog (count_call s))) p t = balance_of (cs_db (ss_catalog s)) p t"
  by (simp_all add: count_call_def)

lemma in_catalog_Inr:
  "in_catalog now f s = Inr (x, s') \<longleftrightarrow> (\<exists>c. f (ss_catalog s) = Inr (x, c) \<and>
     s' = s\<lparr>ss_catalog := c, ss_stamps := ss_stamps s @ replicate (length (cs_log c) - length (ss_stamps s)) now\<rparr>)"
  by (auto simp: in_catalog_def split: sum.splits prod.splits)

lemma club_Grant_Inr:
  assumes "club_Grant fault co now p t amount reason actor s = Inr (b, s')"
  shows "balance_of (cs_db (ss_catalog s')) q u = balance_of (cs_db (ss_catalog s)) q u +
      (if q = p \<and> u = t then granted (co_infinite co) p amount actor else 0)"
    "ss_memberships s' = ss_memberships s" "ss_giftClaims s' = ss_giftClaims s" "ss_paydays s' = ss_paydays s"
  using assms Grant_pays(2) [of fault "co_types co" "co_infinite co" p t amount reason actor "ss_catalog s" b "ss_catalog s'"]
  by (auto simp: club_Grant_def in_catalog_Inr)

subsection \<open>Targeted offers\<close>

text \<open>With both overrides, only the points are charged.\<close>

lemma charge_overridden:
  assumes "charge fault co player i pp s = Inr ((b, credits, points), s')" "pp_OverrideCredits pp = Some k" "pp_OverridePoints pp = Some c"
    "pp_OverridePointsType pp = Some t" "\<not> pp_Free pp"
  shows "credits + points = c * sint (pp_Amount pp) \<and>
    balance_of (cs_db s') q u = balance_of (cs_db s) q u +
      (if q = player \<and> u = t then granted (co_infinite co) player (- (c * sint (pp_Amount pp))) ActorPlayer else 0)"
proof -
  have ch: "charge fault co player i pp = (if c = 0 then yield (0, 0, 0)
     else seq (in_economy (Grant fault (co_types co) (co_infinite co) player t (- (c * sint (pp_Amount pp))) ''catalog_purchase'' ActorPlayer))
       (\<lambda>balance. if t = CreditsType then yield (balance, c * sint (pp_Amount pp), 0) else yield (balance, 0, c * sint (pp_Amount pp))))"
    unfolding charge_def by (simp add: assms(2-5) Let_def split: if_splits)
  show ?thesis
  proof (cases "c = 0")
    case True
    then show ?thesis using assms(1) by (auto simp: ch granted_def)
  next
    case False
    then obtain s1 where "in_economy (Grant fault (co_types co) (co_infinite co) player t (- (c * sint (pp_Amount pp)))
        ''catalog_purchase'' ActorPlayer) s = Inr (b, s1)" "s1 = s'" "credits + points = c * sint (pp_Amount pp)"
      using assms(1) by (auto simp: ch cx_case_Inr split: if_splits)
    with Grant_pays(2) show ?thesis by blast
  qed
qed

lemma purchase_overridden:
  assumes "PurchaseWithin fault co c pp s = Inr (r, s')" "pp_OverrideCredits pp = Some k" "pp_OverridePoints pp = Some a"
    "pp_OverridePointsType pp = Some t" "\<not> pp_Free pp" "pp_Amount pp \<noteq> 0"
  shows "px_ChargedCredits r + px_ChargedPoints r = a * sint (pp_Amount pp) \<and>
    balance_of (cs_db s') q u = balance_of (cs_db s) q u +
      (if q = pp_PlayerID pp \<and> u = t then granted (co_infinite co) q (- (a * sint (pp_Amount pp))) ActorPlayer else 0)"
proof -
  from PurchaseWithin_stages [OF assms(1)] obtain pq i products s1 s2 s3 s4 b where
    prep: "prepare_purchase co c pp = Inr (pq, i, products)" and st: "purchase_stages co pq i products r s s1 s2 s3 s4 s'" and
    ch: "charge fault co (pp_PlayerID pq) i pq s1 = Inr ((b, px_ChargedCredits r, px_ChargedPoints r), s2)"
    by blast
  note P = prepare_purchase_Inr [OF prep] and F = stage_frames [OF st]
  have "pp_OverridePointsType pq = pp_OverridePointsType pp" using prep
    by (auto simp: prepare_purchase_def Let_def split: sum.splits if_splits prod.splits option.splits)
  with P assms(2-6) charge_overridden [OF ch, of k a t q u] F(3,6,9) show ?thesis by simp
qed

lemma IncrementTargetedPurchase_Inr:
  assumes "IncrementTargetedPurchase fault now p key quantity s = Inr (True, s')"
  shows "\<exists>x \<in> set (ss_targeted s). tg_ID x = key \<and> offer_open now x \<and> sint quantity > 0 \<and>
    (let before = (case ss_progress s (p, key) of None \<Rightarrow> 0 | Some q \<Rightarrow> op_PurchasesCount q) in
      \<exists>q. s' = (count_call s)\<lparr>ss_progress := (ss_progress s)((p, key) \<mapsto> q)\<rparr> \<and>
        sint (op_PurchasesCount q) = sint before + sint quantity \<and> sint (op_PurchasesCount q) \<le> sint (tg_PurchaseLimit x))"
proof -
  have sum: "sint (a + quantity) = sint a + sint quantity" if "sint a + sint quantity \<le> 2147483647" "0 < sint quantity" for a :: i32
  proof -
    have "- (2 ^ 31) \<le> sint a + sint quantity" "sint a + sint quantity < 2 ^ 31" using that sint_ge [of a] by simp_all
    then show ?thesis
      by (simp add: sint_word_ariths signed_take_bit_int_eq_self)
  qed
  obtain x where x: "List.find (\<lambda>x. tg_ID x = key \<and> offer_open now x \<and> sint quantity > 0 \<and> sint quantity \<le> sint (tg_PurchaseLimit x)) (ss_targeted s) = Some x"
    using assms by (auto simp: IncrementTargetedPurchase_def split: option.splits)
  then have X: "x \<in> set (ss_targeted s)" "tg_ID x = key" "offer_open now x" "sint quantity > 0" "sint quantity \<le> sint (tg_PurchaseLimit x)"
    by (auto simp: find_Some_iff)
  show ?thesis
  proof (cases "ss_progress s (p, key)")
    case None
    then have "s' = (count_call s)\<lparr>ss_progress := (ss_progress s)((p, key) \<mapsto> \<lparr>op_PurchasesCount = quantity, op_Dismissed = False\<rparr>)\<rparr>"
      using assms x by (simp add: IncrementTargetedPurchase_def)
    with X None show ?thesis
      by (intro bexI [of _ x]) (auto simp: Let_def)
  next
    case (Some q)
    then have "s' = (count_call s)\<lparr>ss_progress := (ss_progress s)((p, key) \<mapsto> q\<lparr>op_PurchasesCount := op_PurchasesCount q + quantity\<rparr>)\<rparr>"
        "sint (op_PurchasesCount q) + sint quantity \<le> 2147483647" "sint (op_PurchasesCount q) + sint quantity \<le> sint (tg_PurchaseLimit x)"
      using assms x by (auto simp: IncrementTargetedPurchase_def split: if_splits)
    with X Some sum [of "op_PurchasesCount q"] show ?thesis
      by (intro bexI [of _ x]) (auto simp: Let_def)
  qed
qed

text \<open>A purchase of a targeted offer that commits charges the price in points for every unit and nothing else: the price in credits
  takes no part, so an offer with a price in credits only is free. The player's count of purchases grows by the quantity and
  stays within the limit of an open offer. A purchase that fails changes at most the statement counter.\<close>

theorem targeted_offer_charges_points_only:
  "case PurchaseTargetedOffer fault1 fault2 co c now p key quantity s of
     (s', Inl e) \<Rightarrow> s' = s \<or> s' = count_call s
   | (s', Inr r) \<Rightarrow> \<exists>x \<in> set (ss_targeted s). tg_ID x = key \<and> offer_open now x \<and>
       (let due = tg_PricePoints x * sint quantity in
         px_ChargedCredits r + px_ChargedPoints r = due \<and>
         (\<forall>q t. balance_of (cs_db (ss_catalog s')) q t = balance_of (cs_db (ss_catalog s)) q t +
            (if q = p \<and> t = tg_PointsType x then granted (co_infinite co) q (- due) ActorPlayer else 0))) \<and>
       (\<exists>y \<in> set (ss_targeted s). \<exists>q. tg_ID y = key \<and> ss_progress s' (p, key) = Some q \<and>
         sint (op_PurchasesCount q) = sint quantity + (case ss_progress s (p, key) of None \<Rightarrow> 0 | Some q \<Rightarrow> sint (op_PurchasesCount q)) \<and>
         sint (op_PurchasesCount q) \<le> sint (tg_PurchaseLimit y))"
proof (cases "PurchaseTargetedOffer fault1 fault2 co c now p key quantity s")
  case (Pair s' res)
  show ?thesis
  proof (cases res)
    case (Inl e)
    then show ?thesis using Pair
      by (auto simp: PurchaseTargetedOffer_def FindTargetedOfferByID_def transact_def query_def count_call_def
          split: sum.splits option.splits if_splits prod.splits)
  next
    case (Inr r)
    obtain x s1 where x: "FindTargetedOfferByID fault1 now p key s = Inr (Some x, s1)" "sint quantity > 0"
        "buy_targeted fault2 co c now p x quantity s1 = Inr (r, s')"
      using Pair Inr by (auto simp: PurchaseTargetedOffer_def transact_def split: sum.splits option.splits if_splits)
    have s1: "s1 = count_call s" and f: "List.find (\<lambda>x. tg_ID x = key) (eligible_offers (count_call s) now p) = Some x"
      using x(1) by (auto simp: FindTargetedOfferByID_def)
    have e: "x \<in> set (eligible_offers (count_call s) now p)" "tg_ID x = key"
      using f by (auto simp: find_Some_iff)
    from e obtain z where z: "z \<in> set (ss_targeted s)" "offer_open now z" "x = with_progress (count_call s) p z"
      by (auto simp: eligible_offers_def)
    have fields: "tg_ID z = key" "tg_PricePoints z = tg_PricePoints x" "tg_PointsType z = tg_PointsType x"
      using z(3) e(2) by (auto simp: with_progress_def split: option.splits)
    obtain s2 where s2: "IncrementTargetedPurchase fault2 now p key quantity s1 = Inr (True, s2)"
        "in_catalog now (PurchaseWithin fault2 co c (targeted_order p x quantity)) s2 = Inr (r, s')"
      using x(3) e(2) by (auto simp: buy_targeted_def sx_case_Inr split: if_splits)
    obtain d where d: "PurchaseWithin fault2 co c (targeted_order p x quantity) (ss_catalog s2) = Inr (r, d)" "ss_catalog s' = d"
        "ss_progress s' = ss_progress s2"
      using s2(2) by (auto simp: in_catalog_Inr)
    have "quantity \<noteq> 0" using x(2) by auto
    with purchase_overridden [OF d(1)] have money: "px_ChargedCredits r + px_ChargedPoints r = tg_PricePoints x * sint quantity \<and>
        balance_of (cs_db d) q t = balance_of (cs_db (ss_catalog s2)) q t +
          (if q = p \<and> t = tg_PointsType x then granted (co_infinite co) q (- (tg_PricePoints x * sint quantity)) ActorPlayer else 0)" for q t
      by (simp add: targeted_order_def)
    from IncrementTargetedPurchase_Inr [OF s2(1)] obtain y q where y: "y \<in> set (ss_targeted s)" "tg_ID y = key"
        "s2 = (count_call s1)\<lparr>ss_progress := (ss_progress s)((p, key) \<mapsto> q)\<rparr>"
        "sint (op_PurchasesCount q) = (case ss_progress s (p, key) of None \<Rightarrow> 0 | Some q \<Rightarrow> sint (op_PurchasesCount q)) + sint quantity"
        "sint (op_PurchasesCount q) \<le> sint (tg_PurchaseLimit y)"
      by (auto simp: s1 Let_def split: option.splits)
    have same: "balance_of (cs_db (ss_catalog s2)) q t = balance_of (cs_db (ss_catalog s)) q t" for q t
      by (simp add: y(3) s1)
    have "px_ChargedCredits r + px_ChargedPoints r = tg_PricePoints z * sint quantity \<and>
        (\<forall>q t. balance_of (cs_db (ss_catalog s')) q t = balance_of (cs_db (ss_catalog s)) q t +
          (if q = p \<and> t = tg_PointsType z then granted (co_infinite co) q (- (tg_PricePoints z * sint quantity)) ActorPlayer else 0))"
      using money same d(2) fields by simp
    moreover have "\<exists>y \<in> set (ss_targeted s). \<exists>q. tg_ID y = key \<and> ss_progress s' (p, key) = Some q \<and>
         sint (op_PurchasesCount q) = sint quantity + (case ss_progress s (p, key) of None \<Rightarrow> 0 | Some q \<Rightarrow> sint (op_PurchasesCount q)) \<and>
         sint (op_PurchasesCount q) \<le> sint (tg_PurchaseLimit y)"
      using y d(3) by (intro bexI [of _ y] exI [of _ q]) auto
    ultimately show ?thesis using z(1,2) fields(1) Pair Inr by (auto simp: Let_def)
  qed
qed

subsection \<open>Paydays are exact\<close>

text \<open>The row of the cycle number \<open>k\<close> after \<open>prior\<close>.\<close>

definition due_row :: "subscription_options \<Rightarrow> membership \<Rightarrow> subscription_store \<Rightarrow> int \<Rightarrow> nat \<Rightarrow> payday" where
  "due_row op m s prior k =
     (let from = prior + int k * sop_PaydayInterval op; boundary = prior + int (Suc k) * sop_PaydayInterval op;
          total = spent s (mb_PlayerID m) (\<lambda>t. t > from \<and> t \<le> boundary); days = streakDays m boundary;
          (streak, monthly) = CalculatePayday days total (sop_Kickback op)
      in \<lparr>py_ID = ss_nextPayday s + int k, py_PlayerID = mb_PlayerID m, py_OccurredAt = boundary, py_StreakDays = days, py_CreditsSpent = total,
          py_StreakBonus = streak, py_MonthlyBonus = monthly, py_TotalAwarded = streak + monthly,
          py_CurrencyType = sop_PaydayCurrencyType op, py_Claimed = False\<rparr>)"

lemma spent_frame:
  assumes "kickback_row (ss_catalog s') p = kickback_row (ss_catalog s) p" "cs_log (ss_catalog s') = cs_log (ss_catalog s)" "ss_stamps s' = ss_stamps s"
  shows "spent s' p at = spent s p at"
  using assms by (simp add: spent_def)

lemma spent_counted [simp]: "spent (count_call s) p at = spent s p at"
  by (rule spent_frame) (auto simp: kickback_row_def count_call_def)

text \<open>Only the counter and the table of paydays change.\<close>

definition recorded :: "payday list \<Rightarrow> subscription_store \<Rightarrow> subscription_store \<Rightarrow> bool" where
  "recorded rows s s' \<longleftrightarrow> (\<exists>d. s' = s\<lparr>ss_catalog := (ss_catalog s)\<lparr>cs_db := (cs_db (ss_catalog s))\<lparr>db_calls := d\<rparr>\<rparr>,
     ss_paydays := ss_paydays s @ rows, ss_nextPayday := ss_nextPayday s + int (length rows)\<rparr>)"

lemma recorded_trans: "recorded xs s s1 \<Longrightarrow> recorded ys s1 s2 \<Longrightarrow> recorded (xs @ ys) s s2"
  by (auto simp: recorded_def algebra_simps)

lemma recorded_spent: "recorded rows s s' \<Longrightarrow> spent s' p at = spent s p at"
  by (intro spent_frame) (auto simp: recorded_def kickback_row_def fun_eq_iff)

lemma record_payday_Inr:
  assumes "record_payday fault op m prior (prior + sop_PaydayInterval op) s = Inr (y, s')"
  shows "recorded [due_row op m s prior 0] s s'"
proof -
  have "s' = (count_call (count_call s))\<lparr>ss_paydays := ss_paydays s @ [due_row op m s prior 0], ss_nextPayday := ss_nextPayday s + 1\<rparr>"
    using assms
    by (auto simp: record_payday_def CreditsSpentBetween_def InsertPayday_def due_row_def Let_def split: if_splits prod.splits)
  then show ?thesis by (auto simp: recorded_def count_call_def)
qed

lemma due_row_Suc:
  assumes "recorded [y] s s1"
  shows "due_row op m s prior (Suc k) = due_row op m s1 (prior + sop_PaydayInterval op) k"
proof -
  have next1: "ss_nextPayday s1 = ss_nextPayday s + 1" using assms by (auto simp: recorded_def)
  have shift: "prior + sop_PaydayInterval op + int n * sop_PaydayInterval op = prior + int (Suc n) * sop_PaydayInterval op" for n
    by (simp add: algebra_simps)
  show ?thesis unfolding due_row_def shift recorded_spent [OF assms] next1 by (simp add: Let_def add.assoc)
qed

lemma payday_loop_exact:
  assumes "0 < sop_PaydayInterval op"
  shows "n = nat ((through - prior) div sop_PaydayInterval op) \<Longrightarrow>
    \<exists>res. payday_loop fault op m through prior created s = Some res \<and> (\<forall>prior' created' s'. res = Inr ((prior', created'), s') \<longrightarrow>
      prior' = prior + int n * sop_PaydayInterval op \<and> created' = (created \<or> 0 < n) \<and>
      recorded (map (due_row op m s prior) [0..<n]) s s')"
proof (induction n arbitrary: prior created s)
  case 0
  then have "(through - prior) div sop_PaydayInterval op < 1" by linarith
  then have "prior + sop_PaydayInterval op > through"
    using assms zdiv_mono1 [of "sop_PaydayInterval op" "through - prior" "sop_PaydayInterval op"] by fastforce
  then show ?case by (subst payday_loop.simps) (auto simp: recorded_def Let_def intro!: exI [of _ "calls s"] simp: calls_def)
next
  case (Suc n)
  let ?I = "sop_PaydayInterval op"
  have shift: "(through - (prior + ?I)) div ?I = (through - prior) div ?I - 1"
    using assms div_mult_self2 [of ?I "through - prior - ?I" 1] by (simp add: algebra_simps)
  have n: "n = nat ((through - (prior + ?I)) div ?I)" using Suc.prems unfolding shift by linarith
  have "1 \<le> (through - prior) div ?I" using Suc.prems by linarith
  then have "?I \<le> through - prior" using assms by (simp add: pos_imp_zdiv_pos_iff int_one_le_iff_zero_less)
  then have within: "\<not> prior + ?I > through" by simp
  show ?case
  proof (cases "record_payday fault op m prior (prior + ?I) s")
    case (Inl e)
    then show ?thesis using within by (subst payday_loop.simps) (simp add: Let_def)
  next
    case (Inr z)
    then obtain y s1 where z: "record_payday fault op m prior (prior + ?I) s = Inr (y, s1)" by (cases z) auto
    note r = record_payday_Inr [OF z]
    have rows: "map (due_row op m s prior) [0..<Suc n] = due_row op m s prior 0 # map (due_row op m s1 (prior + ?I)) [0..<n]"
      by (simp only: upt_conv_Cons [OF zero_less_Suc] map_Suc_upt [symmetric] list.map map_map comp_def due_row_Suc [OF r])
    have step: "payday_loop fault op m through prior created s = payday_loop fault op m through (prior + ?I) True s1"
      using within z by (subst payday_loop.simps) (simp add: Let_def)
    from Suc.IH [OF n, of True s1] obtain res where res: "payday_loop fault op m through (prior + ?I) True s1 = Some res"
        "\<And>prior' created' s'. res = Inr ((prior', created'), s') \<Longrightarrow> prior' = prior + ?I + int n * ?I \<and> created' \<and>
          recorded (map (due_row op m s1 (prior + ?I)) [0..<n]) s1 s'"
      by auto
    have "prior' = prior + int (Suc n) * ?I \<and> created' = (created \<or> 0 < Suc n) \<and> recorded (map (due_row op m s prior) [0..<Suc n]) s s'"
      if "res = Inr ((prior', created'), s')" for prior' created' s'
      using res(2) [OF that] recorded_trans [OF r] unfolding rows by (auto simp: algebra_simps)
    then show ?thesis using step res(1) by auto
  qed
qed

text \<open>Windows that meet split the spending between them.\<close>

lemma spent_split:
  assumes "a \<le> b" "b \<le> c"
  shows "spent s p (\<lambda>t. t > a \<and> t \<le> b) + spent s p (\<lambda>t. t > b \<and> t \<le> c) = spent s p (\<lambda>t. t > a \<and> t \<le> c)"
  unfolding spent_def sum_list_addf [symmetric] using assms
  by (intro arg_cong [of _ _ sum_list] map_cong) (auto split: prod.splits)

lemma spent_empty: "spent s p (\<lambda>t. t > a \<and> t \<le> a) = 0"
proof -
  have "(\<lambda>(row, t). if kickback_row (ss_catalog s) p row \<and> t > a \<and> t \<le> a then pl_CostCredits row else 0) = (\<lambda>_. 0)" by auto
  then show ?thesis unfolding spent_def by (simp only:) simp
qed

lemma spent_windows:
  assumes "0 < sop_PaydayInterval op"
  shows "sum_list (map py_CreditsSpent (map (due_row op m s prior) [0..<n])) =
    spent s (mb_PlayerID m) (\<lambda>t. t > prior \<and> t \<le> prior + int n * sop_PaydayInterval op)"
proof (induction n)
  case 0
  then show ?case by (simp add: spent_empty)
next
  case (Suc n)
  let ?I = "sop_PaydayInterval op"
  have "py_CreditsSpent (due_row op m s prior n) = spent s (mb_PlayerID m) (\<lambda>t. t > prior + int n * ?I \<and> t \<le> prior + int (Suc n) * ?I)"
    by (simp add: due_row_def Let_def split: prod.splits)
  with Suc spent_split [of prior "prior + int n * ?I" "prior + int (Suc n) * ?I" s "mb_PlayerID m"] assms show ?case
    by (simp add: algebra_simps)
qed

text \<open>C35: Recording the due paydays always returns for a positive interval. When it commits, it has written one row for every complete
  cycle between the last payday and the earlier of now and the expiry, at the boundaries of the cycles and in their order; each
  row holds the spending in its own cycle, so that together they hold the spending since the last payday
  exactly once, and the reward that follows from it; the last payday is the last boundary. Nothing else changes.\<close>

theorem paydays_exact:
  assumes "0 < sop_PaydayInterval op" "mb_LastPaydayAt m = Some prior"
  shows "\<exists>res. recordDuePaydays fault op now m s = Some res \<and> (\<forall>m' created s'. res = Inr ((m', created), s') \<longrightarrow>
    (let width = sop_PaydayInterval op; n = nat ((accrual_end now m - prior) div width) in
       m' = m\<lparr>mb_LastPaydayAt := Some (prior + int n * width)\<rparr> \<and> created = (0 < n) \<and>
       (\<exists>rows. recorded rows s s' \<and>
          map py_OccurredAt rows = map (\<lambda>k. prior + int (Suc k) * width) [0..<n] \<and>
          (\<forall>y \<in> set rows. py_PlayerID y = mb_PlayerID m \<and> \<not> py_Claimed y \<and>
             py_CreditsSpent y = spent s (mb_PlayerID m) (\<lambda>t. t > py_OccurredAt y - width \<and> t \<le> py_OccurredAt y) \<and>
             py_TotalAwarded y = streak_bonus (streakDays m (py_OccurredAt y)) StreakBonuses 0 + sop_Kickback op (py_CreditsSpent y)) \<and>
          sum_list (map py_CreditsSpent rows) = spent s (mb_PlayerID m) (\<lambda>t. t > prior \<and> t \<le> prior + int n * width))))"
proof -
  define n where "n = nat ((accrual_end now m - prior) div sop_PaydayInterval op)"
  let ?rows = "map (due_row op m s prior) [0..<n]"
  from payday_loop_exact [OF assms(1) n_def, of fault m False s] obtain res where
    res: "payday_loop fault op m (accrual_end now m) prior False s = Some res"
      "\<And>prior' created s'. res = Inr ((prior', created), s') \<Longrightarrow> prior' = prior + int n * sop_PaydayInterval op \<and> created = (0 < n) \<and>
        recorded ?rows s s'"
    by auto
  have times: "map py_OccurredAt ?rows = map (\<lambda>k. prior + int (Suc k) * sop_PaydayInterval op) [0..<n]"
    by (simp add: due_row_def Let_def split: prod.splits)
  have each: "py_PlayerID y = mb_PlayerID m \<and> \<not> py_Claimed y \<and>
      py_CreditsSpent y = spent s (mb_PlayerID m) (\<lambda>t. t > py_OccurredAt y - sop_PaydayInterval op \<and> t \<le> py_OccurredAt y) \<and>
      py_TotalAwarded y = streak_bonus (streakDays m (py_OccurredAt y)) StreakBonuses 0 + sop_Kickback op (py_CreditsSpent y)"
    if "y \<in> set ?rows" for y
    using that by (auto simp: due_row_def Let_def CalculatePayday_def algebra_simps)
  show ?thesis
    using res times each spent_windows [OF assms(1), of m s prior n] unfolding n_def [symmetric] Let_def
    by (cases res) (auto simp: recordDuePaydays_def assms(2) n_def [symmetric] intro!: exI [of _ ?rows])
qed

text \<open>With a normalised configuration every pass of the cycle returns.\<close>

lemma recordDuePaydays_returns:
  assumes "0 < sop_PaydayInterval op"
  shows "recordDuePaydays fault op now m s \<noteq> None"
proof (cases "mb_LastPaydayAt m")
  case (Some prior)
  from payday_loop_exact [OF assms refl, of fault m "accrual_end now m" prior False s] Some show ?thesis
    by (auto simp: recordDuePaydays_def)
qed (simp add: recordDuePaydays_def)

lemma processMembership_returns:
  assumes "0 < sop_PaydayInterval op"
  shows "processMembership fault1 fault2 co op now p s \<noteq> None"
proof -
  have "advance_membership fault1 op now p s \<noteq> None"
    unfolding advance_membership_def by (auto simp: recordDuePaydays_returns [OF assms] split: sum.splits option.splits)
  then show ?thesis unfolding processMembership_def by (auto simp: Let_def split: option.splits sum.splits prod.splits)
qed

lemma process_all_returns:
  assumes "0 < sop_PaydayInterval op"
  shows "process_all faults1 faults2 co op now ps s \<noteq> None"
proof (induction ps arbitrary: s)
  case (Cons p ps)
  with processMembership_returns [OF assms, of "faults1 (length ps)" "faults2 (length ps)" co now p s] show ?case
    by (auto split: option.splits)
qed simp

lemma cycle_always_returns:
  "RunCycle fault faults1 faults2 co (scf_Options (Normalize tenth cfg)) now s \<noteq> None"
proof -
  have "0 < sop_PaydayInterval (scf_Options (Normalize tenth cfg))" by (simp add: Normalize_def Let_def)
  from process_all_returns [OF this] show ?thesis by (simp add: RunCycle_def split: sum.splits prod.splits)
qed

subsection \<open>What transactions keep\<close>

text \<open>A relation between stores that work in the catalog cannot break is kept by a transaction when its statements keep it.\<close>

definition keeps :: "(subscription_store \<Rightarrow> subscription_store \<Rightarrow> bool) \<Rightarrow> 'a sx \<Rightarrow> bool" where
  "keeps R f \<longleftrightarrow> (\<forall>s x s'. f s = Inr (x, s') \<longrightarrow> R s s')"

locale club_relation =
  fixes R :: "subscription_store \<Rightarrow> subscription_store \<Rightarrow> bool"
  assumes refl: "R s s"
    and trans: "R s s1 \<Longrightarrow> R s1 s2 \<Longrightarrow> R s s2"
    and catalog: "R s (s\<lparr>ss_catalog := c, ss_stamps := ts\<rparr>)"
begin

lemma counted: "R s (count_call s)"
  using catalog [of s "ss_stamps s" "ss_catalog (count_call s)"] by (simp add: count_call_def)

lemma give: "keeps R (give x)" by (simp add: keeps_def refl)
lemma refuse: "keeps R (refuse e)" by (simp add: keeps_def)

lemma chain: "keeps R f \<Longrightarrow> (\<And>x. keeps R (g x)) \<Longrightarrow> keeps R (chain f g)"
  by (fastforce simp: keeps_def intro: trans)

lemma branch: "keeps R f \<Longrightarrow> keeps R g \<Longrightarrow> keeps R (if b then f else g)" by simp

lemma cases: "keeps R f \<Longrightarrow> (\<And>x. keeps R (g x)) \<Longrightarrow> keeps R (case ox of None \<Rightarrow> f | Some x \<Rightarrow> g x)"
  by (cases ox) simp_all

lemma query: "(\<And>s. R s (snd (h s))) \<Longrightarrow> keeps R (query fault h)"
  unfolding keeps_def by (metis counted trans snd_conv sx_Inr(4))

lemma in_catalog: "keeps R (in_catalog now f)"
  by (auto simp: keeps_def in_catalog_Inr intro: catalog)

lemma club_Grant: "keeps R (club_Grant fault co now p t amount reason actor)"
  unfolding club_Grant_def by (rule in_catalog)

lemma transacted: "keeps R f \<Longrightarrow> R s (fst (transact f s))"
  by (auto simp: keeps_def transact_def refl split: sum.splits)

lemma run: "keeps R f \<Longrightarrow> f s = Inr (x, s') \<Longrightarrow> R s s'"
  by (auto simp: keeps_def)

lemmas rules = give refuse chain branch cases in_catalog club_Grant

text \<open>Whatever one cycle keeps, the loop keeps, also where it might not end.\<close>

lemma loop:
  assumes one: "\<And>fault op m prior boundary. keeps R (record_payday fault op m prior boundary)"
    and "payday_loop fault op m through prior created s = Some y"
  shows "\<forall>z s'. y = Inr (z, s') \<longrightarrow> R s s'"
proof (rule payday_loop.raw_induct [where P = "\<lambda>fault op m through prior created s y. \<forall>z s'. y = Inr (z, s') \<longrightarrow> R s s'", OF _ assms(2)],
    goal_cases)
  case (1 loop fault op m through prior created s y)
  show ?case
  proof (cases "through < prior + sop_PaydayInterval op")
    case False
    show ?thesis
    proof (cases "record_payday fault op m prior (prior + sop_PaydayInterval op) s")
      case (Inr w)
      then obtain u s1 where w: "record_payday fault op m prior (prior + sop_PaydayInterval op) s = Inr (u, s1)" by (cases w) auto
      then have "R s s1" using one by (auto simp: keeps_def)
      then show ?thesis using 1 False w by (fastforce simp: Let_def intro: trans)
    qed (use 1(2) False in \<open>auto simp: Let_def\<close>)
  qed (use 1(2) in \<open>auto simp: Let_def refl\<close>)
qed

lemma paydays:
  assumes "\<And>fault op m prior boundary. keeps R (record_payday fault op m prior boundary)"
    and "recordDuePaydays fault op now m s = Some (Inr (z, s'))"
  shows "R s s'"
proof (cases "mb_LastPaydayAt m")
  case None
  then show ?thesis using assms(2) by (simp add: recordDuePaydays_def refl)
next
  case (Some prior)
  then obtain y where "payday_loop fault op m (accrual_end now m) prior False s = Some y"
      "map_sum id (\<lambda>((prior', created), s'). ((m\<lparr>mb_LastPaydayAt := Some prior'\<rparr>, created), s')) y = Inr (z, s')"
    using assms(2) by (auto simp: recordDuePaydays_def)
  with loop [OF assms(1), of fault op m "accrual_end now m" prior False s y] show ?thesis
    by (cases y) (auto split: prod.splits)
qed

lemma claims: "(\<And>key. keeps R (MarkPaydayClaimed fault key)) \<Longrightarrow> keeps R (claim_all fault co now p ys)"
  by (induction ys) (simp_all add: rules)

end

definition same_members :: "subscription_store \<Rightarrow> subscription_store \<Rightarrow> bool" where
  "same_members s s' \<longleftrightarrow> ss_memberships s' = ss_memberships s \<and> ss_giftClaims s' = ss_giftClaims s"

definition same_paydays :: "subscription_store \<Rightarrow> subscription_store \<Rightarrow> bool" where
  "same_paydays s s' \<longleftrightarrow> ss_paydays s' = ss_paydays s \<and> ss_nextPayday s' = ss_nextPayday s"

interpretation mem: club_relation same_members
  by unfold_locales (auto simp: same_members_def)

interpretation pay: club_relation same_paydays
  by unfold_locales (auto simp: same_paydays_def)

text \<open>Rows of memberships and claims of gifts.\<close>

lemma reads_keep:
  "keeps same_members (FindMembership fault p)" "keeps same_paydays (FindMembership fault p)"
  "keeps same_members (SetClub fault p cb)" "keeps same_paydays (SetClub fault p cb)"
  unfolding FindMembership_def SetClub_def
  by (intro mem.query pay.query mem.branch pay.branch mem.refuse pay.refuse; simp add: same_members_def same_paydays_def split: option.splits)+

lemma increment_keeps:
  "keeps same_members (IncrementTargetedPurchase fault now p key quantity)" "keeps same_paydays (IncrementTargetedPurchase fault now p key quantity)"
  by (auto simp: keeps_def IncrementTargetedPurchase_def same_members_def same_paydays_def split: option.splits if_splits)

lemma door_keeps:
  "keeps same_members (claim_door fault co now p key n d)" "keeps same_paydays (claim_door fault co now p key n d)"
proof -
  have one: "keeps same_members (\<lambda>s. case InsertDoorClaim fault key p n s of Inl e \<Rightarrow> Inl ErrCalendarDoorUnavailable | Inr z \<Rightarrow> Inr z)"
    "keeps same_paydays (\<lambda>s. case InsertDoorClaim fault key p n s of Inl e \<Rightarrow> Inl ErrCalendarDoorUnavailable | Inr z \<Rightarrow> Inr z)"
    by (auto simp: keeps_def InsertDoorClaim_def same_members_def same_paydays_def split: sum.splits if_splits)
  show "keeps same_members (claim_door fault co now p key n d)" "keeps same_paydays (claim_door fault co now p key n d)"
    unfolding claim_door_def by (intro one mem.rules pay.rules)+
qed

lemma targeted_keeps:
  "keeps same_members (buy_targeted fault co c now p x quantity)" "keeps same_paydays (buy_targeted fault co c now p x quantity)"
  unfolding buy_targeted_def by (intro increment_keeps mem.rules pay.rules)+

lemma saves_keep:
  "keeps same_members (SaveClubOffer fault x)" "keeps same_paydays (SaveClubOffer fault x)"
  "keeps same_members (SaveTargetedOffer fault now z)" "keeps same_paydays (SaveTargetedOffer fault now z)"
  "keeps same_members (UpdateTargetedState fault p key b)" "keeps same_paydays (UpdateTargetedState fault p key b)"
  "keeps same_members (UpsertCampaign fault y)" "keeps same_paydays (UpsertCampaign fault y)"
  "keeps same_members (UpsertCampaignDay fault d)" "keeps same_paydays (UpsertCampaignDay fault d)"
  by (auto simp: keeps_def SaveClubOffer_def SaveTargetedOffer_def UpdateTargetedState_def UpsertCampaign_def UpsertCampaignDay_def
      same_members_def same_paydays_def Let_def split: if_splits)

lemma save_days_keep: "same_members s (fst (save_days fault x ds s)) \<and> same_paydays s (fst (save_days fault x ds s))"
proof (induction ds arbitrary: s)
  case (Cons d ds)
  show ?case
  proof (cases "UpsertCampaignDay fault (d\<lparr>cd_CampaignID := cm_ID x\<rparr>) s")
    case (Inr z)
    then obtain s1 where s1: "UpsertCampaignDay fault (d\<lparr>cd_CampaignID := cm_ID x\<rparr>) s = Inr ((), s1)" by (cases z) auto
    show ?thesis
      using s1 mem.trans [OF mem.run [OF saves_keep(9) s1]] pay.trans [OF pay.run [OF saves_keep(10) s1]] Cons [of s1]
      by (simp add: mem.refl pay.refl)
  qed (simp add: mem.refl pay.refl)
qed (simp add: mem.refl pay.refl)

lemma SaveCampaign_keeps: "same_members s (fst (SaveCampaign fault x ds s)) \<and> same_paydays s (fst (SaveCampaign fault x ds s))"
proof (cases "cm_Name x = [] \<or> cm_StartDate x = 0 \<or> sint (cm_DayCount x) \<le> 0")
  case False
  show ?thesis
  proof (cases "UpsertCampaign fault x s")
    case (Inr z)
    then obtain y s1 where s1: "UpsertCampaign fault x s = Inr (y, s1)" by (cases z) auto
    show ?thesis
      using s1 False mem.trans [OF mem.run [OF saves_keep(7) s1]] pay.trans [OF pay.run [OF saves_keep(8) s1]]
        save_days_keep [of s1 fault y ds]
      by (simp add: SaveCampaign_def)
  qed (use False in \<open>simp add: SaveCampaign_def mem.refl pay.refl\<close>)
qed (simp add: SaveCampaign_def mem.refl pay.refl)

lemma live_keeps [simp]:
  "ss_memberships (projectLive m s) = ss_memberships s" "ss_giftClaims (projectLive m s) = ss_giftClaims s"
  "ss_paydays (projectLive m s) = ss_paydays s" "ss_nextPayday (projectLive m s) = ss_nextPayday s"
  "ss_catalog (projectLive m s) = ss_catalog s" "ss_stamps (projectLive m s) = ss_stamps s"
  by (simp_all add: projectLive_def split: option.splits)

lemma upsert_keeps: "keeps same_paydays (UpsertMembership fault m)"
  unfolding UpsertMembership_def by (intro pay.query pay.branch pay.refuse) (simp add: same_paydays_def)

lemma subscription_keeps_paydays:
  "keeps same_paydays (applySubscription fault now p level duration)" "keeps same_paydays (revoke_membership fault now p)"
  "keeps same_paydays (buy_membership fault co now buyer recipient x amount)" "keeps same_paydays (expire_tier fault now m)"
  "keeps same_paydays (claim_gift fault co c now p key)"
proof -
  show a: "keeps same_paydays (applySubscription fault now p level duration)" for p level duration
    unfolding applySubscription_def Let_def by (auto intro!: reads_keep upsert_keeps pay.rules split: prod.splits)
  show "keeps same_paydays (revoke_membership fault now p)"
    unfolding revoke_membership_def Let_def by (intro reads_keep upsert_keeps pay.rules)
  show "keeps same_paydays (buy_membership fault co now buyer recipient x amount)"
    unfolding buy_membership_def
    by (cases "purchasePrices x amount") (auto intro!: a pay.rules split: prod.splits)
  show "keeps same_paydays (expire_tier fault now m)"
    unfolding expire_tier_def by (intro reads_keep pay.rules)
  have i: "keeps same_paydays (InsertGiftClaim fault p start key)" for start
    by (auto simp: keeps_def InsertGiftClaim_def same_paydays_def split: if_splits)
  show "keeps same_paydays (claim_gift fault co c now p key)"
    unfolding claim_gift_def by (intro reads_keep upsert_keeps i pay.rules)
qed

subsection \<open>The table of paydays\<close>

definition paydays_ok :: "subscription_store \<Rightarrow> bool" where
  "paydays_ok s \<longleftrightarrow> distinct (map py_ID (ss_paydays s)) \<and> (\<forall>y \<in> set (ss_paydays s). py_ID y < ss_nextPayday s) \<and>
     distinct (map (\<lambda>y. (py_PlayerID y, py_OccurredAt y)) (ss_paydays s))"

definition paydays_keep :: "subscription_store \<Rightarrow> subscription_store \<Rightarrow> bool" where
  "paydays_keep s s' \<longleftrightarrow> (paydays_ok s \<longrightarrow> paydays_ok s')"

interpretation pok: club_relation paydays_keep
  by unfold_locales (auto simp: paydays_keep_def paydays_ok_def)

lemma paydays_keep_same: "same_paydays s s' \<Longrightarrow> paydays_keep s s'"
  by (simp add: same_paydays_def paydays_keep_def paydays_ok_def)

lemma keeps_same_paydays: "keeps same_paydays f \<Longrightarrow> keeps paydays_keep f"
  by (auto simp: keeps_def intro: paydays_keep_same)

lemma spending_keeps: "keeps same_paydays (CreditsSpentBetween fault p a b)" "keeps same_members (CreditsSpentBetween fault p a b)"
  unfolding CreditsSpentBetween_def by (intro pay.query mem.query; simp add: same_paydays_def same_members_def)+

lemma InsertPayday_keeps: "keeps paydays_keep (InsertPayday fault y)" "keeps same_members (InsertPayday fault y)"
  by (auto simp: keeps_def InsertPayday_def paydays_keep_def paydays_ok_def same_members_def Let_def list_ex_iff split: if_splits)

lemma record_payday_keeps: "keeps paydays_keep (record_payday fault op m prior boundary)" "keeps same_members (record_payday fault op m prior boundary)"
  unfolding record_payday_def Let_def
  by (auto intro!: pok.chain [OF keeps_same_paydays [OF spending_keeps(1)]] mem.chain [OF spending_keeps(2)] InsertPayday_keeps
      split: prod.splits)

lemma marked_fields:
  "map py_ID (map (\<lambda>y. if py_ID y = key \<and> \<not> py_Claimed y then y\<lparr>py_Claimed := True\<rparr> else y) ys) = map py_ID ys"
  "map (\<lambda>y. (py_PlayerID y, py_OccurredAt y)) (map (\<lambda>y. if py_ID y = key \<and> \<not> py_Claimed y then y\<lparr>py_Claimed := True\<rparr> else y) ys) =
     map (\<lambda>y. (py_PlayerID y, py_OccurredAt y)) ys"
  by (induction ys) auto

lemma MarkPaydayClaimed_keeps: "keeps paydays_keep (MarkPaydayClaimed fault key)" "keeps same_members (MarkPaydayClaimed fault key)"
  unfolding MarkPaydayClaimed_def
  by (intro pok.query mem.query; auto simp: paydays_keep_def paydays_ok_def same_members_def marked_fields simp del: map_map)+

lemma claim_paydays_keeps: "keeps paydays_keep (claim_paydays fault co now p)" "keeps same_members (claim_paydays fault co now p)"
proof -
  have l: "keeps same_paydays (ListUnclaimedPaydays fault p)" "keeps same_members (ListUnclaimedPaydays fault p)"
    unfolding ListUnclaimedPaydays_def by (intro pay.query mem.query; simp add: same_paydays_def same_members_def)+
  show "keeps paydays_keep (claim_paydays fault co now p)" "keeps same_members (claim_paydays fault co now p)"
    unfolding claim_paydays_def
    by (intro pok.chain mem.chain keeps_same_paydays l pok.claims mem.claims MarkPaydayClaimed_keeps pok.give mem.give)+
qed

lemma advance_paydays:
  assumes "advance_membership fault op now p s = Some (Inr (z, s'))"
  shows "paydays_keep s s'"
proof -
  obtain found s1 where f: "FindMembership fault p s = Inr (found, s1)"
    using assms by (auto simp: advance_membership_def split: sum.splits)
  have r1: "paydays_keep s s1" using pay.run [OF reads_keep(2) f] by (rule paydays_keep_same)
  show ?thesis
  proof (cases "found = None \<or> mb_Level (the found) = LevelNone \<or> mb_ExpiresAt (the found) = None")
    case True
    then have "s' = s1" using assms f by (auto simp: advance_membership_def split: option.splits if_splits)
    with r1 show ?thesis by simp
  next
    case False
    then obtain m where m: "found = Some m" "mb_Level m \<noteq> LevelNone" "mb_ExpiresAt m \<noteq> None" by auto
    obtain m1 created s2 where r: "recordDuePaydays fault op now (accrueMembership now m) s1 = Some (Inr ((m1, created), s2))"
        "chain (expire_tier fault now m1) (\<lambda>(m2, expired).
           chain (UpsertMembership fault m2) (\<lambda>_. give (Some (m2, expired, created)))) s2 = Inr (z, s')"
      using assms f m by (auto simp: advance_membership_def split: option.splits sum.splits if_splits)
    have "keeps same_paydays (chain (expire_tier fault now m1) (\<lambda>(m2, expired).
           chain (UpsertMembership fault m2) (\<lambda>_. give (Some (m2, expired, created)))))"
      by (auto intro!: pay.rules subscription_keeps_paydays upsert_keeps split: prod.splits)
    from pay.run [OF this r(2)] pok.paydays [OF record_payday_keeps(1) r(1)] r1 show ?thesis
      by (meson paydays_keep_same pok.trans)
  qed
qed

subsection \<open>Club gifts\<close>

definition claims_of :: "subscription_store \<Rightarrow> ident \<Rightarrow> int list" where
  "claims_of s p = map (\<lambda>(q, t, i). t) (filter (\<lambda>(q, t, i). q = p) (ss_giftClaims s))"

text \<open>The number of gifts is a 32 bit word: what follows is about less than \<open>2 ^ 31\<close> periods. (Of the code it speaks for the first
  292 years of a membership, as \<open>gift_period\<close> does.)\<close>

definition countable_tenure :: "membership \<Rightarrow> bool" where
  "countable_tenure m \<longleftrightarrow> mb_LifetimeActiveSeconds m < 2 ^ 31 * ClubGiftPeriodSeconds"

definition gift_dates :: "membership \<Rightarrow> int list" where
  "gift_dates m = map (\<lambda>k. the (mb_StartedAt m) + int k * ClubGiftPeriodSeconds * second) [0..<nat (sint (mb_GiftsClaimed m))]"

definition gifts_backed :: "subscription_store \<Rightarrow> membership \<Rightarrow> bool" where
  "gifts_backed s m \<longleftrightarrow> 0 \<le> sint (mb_GiftsClaimed m) \<and> sint (mb_GiftsClaimed m) * ClubGiftPeriodSeconds \<le> mb_LifetimeActiveSeconds m \<and>
     claims_of s (mb_PlayerID m) = gift_dates m"

definition gifts_ok :: "subscription_store \<Rightarrow> bool" where
  "gifts_ok s \<longleftrightarrow> (\<forall>p. case map_of (ss_memberships s) p of
     None \<Rightarrow> claims_of s p = []
   | Some m \<Rightarrow> mb_PlayerID m = p \<and> mb_StartedAt m \<noteq> None \<and> 0 \<le> mb_LifetimeActiveSeconds m \<and>
       (countable_tenure m \<longrightarrow> gifts_backed s m))"

lemma gifts_okD:
  assumes "gifts_ok s" "map_of (ss_memberships s) p = Some m"
  shows "mb_PlayerID m = p" "mb_StartedAt m \<noteq> None" "0 \<le> mb_LifetimeActiveSeconds m" "countable_tenure m \<Longrightarrow> gifts_backed s m"
  using assms unfolding gifts_ok_def by (auto split: option.splits dest: spec [of _ p])

lemma gifts_ok_None: "gifts_ok s \<Longrightarrow> map_of (ss_memberships s) p = None \<Longrightarrow> claims_of s p = []"
  unfolding gifts_ok_def by (auto split: option.splits dest: spec [of _ p])

lemma gifts_ok_same:
  assumes "same_members s s'" "gifts_ok s"
  shows "gifts_ok s'"
proof -
  have c: "claims_of s' = claims_of s" "ss_memberships s' = ss_memberships s"
    using assms(1) by (auto simp: same_members_def claims_of_def fun_eq_iff)
  have b: "gifts_backed s' = gifts_backed s" by (simp add: gifts_backed_def c fun_eq_iff)
  show ?thesis using assms(2) unfolding gifts_ok_def c b .
qed

text \<open>A row that is written over the stored one: nothing is claimed by it, and no time is taken away.\<close>

definition grows :: "membership option \<Rightarrow> membership \<Rightarrow> bool" where
  "grows stored m \<longleftrightarrow> (case stored of
     None \<Rightarrow> mb_StartedAt m \<noteq> None \<and> 0 \<le> mb_LifetimeActiveSeconds m \<and> mb_GiftsClaimed m = 0
   | Some x \<Rightarrow> mb_GiftsClaimed m = mb_GiftsClaimed x \<and> mb_LifetimeActiveSeconds x \<le> mb_LifetimeActiveSeconds m)"

lemma UpsertMembership_Inr:
  "UpsertMembership fault m s = Inr (u, s') \<longleftrightarrow> 0 \<le> mb_Level m \<and> mb_Level m \<le> 2 \<and> \<not> fault (calls s) \<and>
    s' = (count_call s)\<lparr>ss_memberships :=
      AList.update (mb_PlayerID m) (merged (map_of (ss_memberships s) (mb_PlayerID m)) m) (ss_memberships s)\<rparr>"
  by (auto simp: UpsertMembership_def split: if_splits)

lemma upsert_gifts:
  assumes "UpsertMembership fault m s = Inr (u, s')" "gifts_ok s" "grows (map_of (ss_memberships s) (mb_PlayerID m)) m"
  shows "gifts_ok s'"
proof -
  let ?p = "mb_PlayerID m" and ?row = "merged (map_of (ss_memberships s) (mb_PlayerID m)) m"
  have s': "map_of (ss_memberships s') q = (if q = ?p then Some ?row else map_of (ss_memberships s) q)" "claims_of s' q = claims_of s q" for q
    using assms(1) by (auto simp: UpsertMembership_Inr update_conv' claims_of_def)
  have row: "mb_PlayerID ?row = ?p \<and> mb_StartedAt ?row \<noteq> None \<and> 0 \<le> mb_LifetimeActiveSeconds ?row \<and>
      (countable_tenure ?row \<longrightarrow> gifts_backed s' ?row)"
  proof (cases "map_of (ss_memberships s) ?p")
    case None
    note gifts_ok_None [OF assms(2) None]
    with None assms(3) show ?thesis by (simp add: grows_def merged_def gifts_backed_def gift_dates_def s'(2))
  next
    case (Some x)
    note X = gifts_okD [OF assms(2) Some]
    have g: "mb_GiftsClaimed m = mb_GiftsClaimed x" "mb_LifetimeActiveSeconds x \<le> mb_LifetimeActiveSeconds m"
      using assms(3) Some by (simp_all add: grows_def)
    obtain t where t: "mb_StartedAt x = Some t" using X(2) by auto
    have "gifts_backed s' ?row" if "countable_tenure ?row"
      using X(1,4) that g t by (auto simp: Some merged_def gifts_backed_def gift_dates_def countable_tenure_def s'(2))
    with Some X(3) g t show ?thesis by (simp add: merged_def)
  qed
  show ?thesis unfolding gifts_ok_def
  proof
    fix q
    show "case map_of (ss_memberships s') q of None \<Rightarrow> claims_of s' q = []
      | Some m \<Rightarrow> mb_PlayerID m = q \<and> mb_StartedAt m \<noteq> None \<and> 0 \<le> mb_LifetimeActiveSeconds m \<and> (countable_tenure m \<longrightarrow> gifts_backed s' m)"
    proof (cases "q = ?p")
      case True
      then show ?thesis using row by (simp add: s'(1))
    next
      case False
      have b: "gifts_backed s' = gifts_backed s" by (simp add: gifts_backed_def s'(2) fun_eq_iff)
      show ?thesis using False assms(2) [unfolded gifts_ok_def, rule_format, of q] by (simp add: s' b split: option.splits)
    qed
  qed
qed

lemma FindMembership_Inr: "FindMembership fault p s = Inr (found, s') \<longleftrightarrow> \<not> fault (calls s) \<and> found = map_of (ss_memberships s) p \<and> s' = count_call s"
  by (auto simp: FindMembership_def)

lemma sdiv_nonneg: "0 \<le> a \<Longrightarrow> 0 < b \<Longrightarrow> (a :: int) sdiv b = a div b"
  by (cases "a = 0") (auto simp: signed_divide_int_def)

lemma accrue_fields:
  "mb_PlayerID (accrueMembership now m) = mb_PlayerID m" "mb_StartedAt (accrueMembership now m) = mb_StartedAt m"
  "mb_GiftsClaimed (accrueMembership now m) = mb_GiftsClaimed m" "mb_Level (accrueMembership now m) = mb_Level m"
  "mb_ExpiresAt (accrueMembership now m) = mb_ExpiresAt m" "mb_LastPaydayAt (accrueMembership now m) = mb_LastPaydayAt m"
  "mb_StreakStartedAt (accrueMembership now m) = mb_StreakStartedAt m"
  "mb_LastAccruedAt (accrueMembership now m) = Some (accrual_end now m)"
  by (simp_all add: accrueMembership_def Let_def)

lemma accrue_lifetime:
  "mb_LifetimeActiveSeconds (accrueMembership now m) = mb_LifetimeActiveSeconds m +
     (case accrual_start m of None \<Rightarrow> 0 | Some t \<Rightarrow> if t < accrual_end now m then (accrual_end now m - t) div second else 0)"
  by (simp add: accrueMembership_def Let_def sdiv_nonneg split: option.splits)

lemma accrue_grows: "mb_LifetimeActiveSeconds m \<le> mb_LifetimeActiveSeconds (accrueMembership now m)"
  unfolding accrue_lifetime by (auto split: option.splits simp: pos_imp_zdiv_nonneg_iff)

text \<open>What a subscription commits.\<close>

lemma renewed_new: "renewed now p level duration None = (\<lparr>mb_PlayerID = p, mb_Level = level, mb_StartedAt = Some now,
     mb_StreakStartedAt = Some now, mb_ExpiresAt = Some (now + duration), mb_LastPaydayAt = Some now, mb_LastAccruedAt = Some now,
     mb_LifetimeActiveSeconds = 0, mb_LifetimeVIPSeconds = 0, mb_GiftsEarned = 0, mb_GiftsClaimed = 0, mb_Version = 0\<rparr>, True)"
  by (simp add: renewed_def zero_membership_def Let_def)

lemma renewed_active:
  assumes "activeMembership now x" "mb_StartedAt x \<noteq> None" "renewed now p level duration (Some x) = (m, created)"
  shows "\<not> created" "mb_PlayerID m = mb_PlayerID x" "mb_GiftsClaimed m = mb_GiftsClaimed x" "mb_StartedAt m = mb_StartedAt x"
    "mb_LifetimeActiveSeconds m = mb_LifetimeActiveSeconds (accrueMembership now x)"
    "mb_ExpiresAt m = Some (the (mb_ExpiresAt x) + duration)" "mb_Level m = max level (mb_Level x)"
  using assms by (auto simp: renewed_def Let_def accrue_fields split: option.splits if_splits)

lemma renewed_lapsed:
  assumes "\<not> activeMembership now x" "mb_StartedAt x \<noteq> None"
  shows "renewed now p level duration (Some x) = (x\<lparr>mb_Level := level, mb_StreakStartedAt := Some now, mb_LastAccruedAt := Some now,
     mb_LastPaydayAt := Some now, mb_ExpiresAt := Some (now + duration)\<rparr>, False)"
  using assms by (auto simp: renewed_def Let_def)

lemma applySubscription_Inr:
  assumes "applySubscription fault now p level duration s = Inr ((m, created), s')"
  shows "\<exists>s2. renewed now p level duration (map_of (ss_memberships s) p) = (m, created) \<and>
    UpsertMembership fault m (count_call s) = Inr ((), s2) \<and>
    SetClub fault p \<lparr>cb_Level = mb_Level m, cb_ExpiresAt = mb_ExpiresAt m\<rparr> s2 = Inr ((), s')"
  using assms by (auto simp: applySubscription_def Let_def FindMembership_Inr split: prod.splits)

lemma renewed_grows:
  assumes "gifts_ok s" "renewed now p level duration (map_of (ss_memberships s) p) = (m, created)"
  shows "mb_PlayerID m = p \<and> grows (map_of (ss_memberships s) p) m"
proof (cases "map_of (ss_memberships s) p")
  case None
  then show ?thesis using assms(2) by (auto simp: renewed_new grows_def)
next
  case (Some x)
  note X = gifts_okD [OF assms(1) Some]
  show ?thesis
  proof (cases "activeMembership now x")
    case True
    with renewed_active [OF True X(2), of p level duration m created] X(1) assms(2) Some accrue_grows [of x now] show ?thesis
      by (simp add: grows_def)
  next
    case False
    with renewed_lapsed [OF False X(2)] X(1) assms(2) Some show ?thesis by (auto simp: grows_def)
  qed
qed

lemma applySubscription_gifts:
  assumes "applySubscription fault now p level duration s = Inr (z, s')" "gifts_ok s"
  shows "gifts_ok s'"
proof -
  obtain m created where z: "z = (m, created)" by (cases z) auto
  from applySubscription_Inr [OF assms(1) [unfolded z]] obtain s2 where
      r: "renewed now p level duration (map_of (ss_memberships s) p) = (m, created)" and
      u: "UpsertMembership fault m (count_call s) = Inr ((), s2)"
        "SetClub fault p \<lparr>cb_Level = mb_Level m, cb_ExpiresAt = mb_ExpiresAt m\<rparr> s2 = Inr ((), s')"
    by blast
  from renewed_grows [OF assms(2) r] upsert_gifts [OF u(1) gifts_ok_same [OF mem.counted assms(2)]] have "gifts_ok s2" by simp
  then show ?thesis by (rule gifts_ok_same [OF mem.run [OF reads_keep(3) u(2)]])
qed

lemma buy_membership_gifts:
  assumes "buy_membership fault co now buyer recipient x amount s = Inr (z, s')" "gifts_ok s"
  shows "gifts_ok s'"
proof -
  obtain credits points where pr: "purchasePrices x amount = Inr (credits, points)"
    using assms(1) by (auto simp: buy_membership_def split: sum.splits)
  obtain a s1 b s2 where st: "(if credits > 0 then club_Grant fault co now buyer CreditsType (- credits) ''club_subscription'' ActorPlayer else give 0) s = Inr (a, s1)"
      "(if points > 0 then club_Grant fault co now buyer (cl_PointsType x) (- points) ''club_subscription'' ActorPlayer else give 0) s1 = Inr (b, s2)"
      "applySubscription fault now (if recipient = 0 then buyer else recipient) (if cl_VIP x then LevelVIP else LevelHC)
           (sint (cl_DayCount x) * sint amount * a_day) s2 = Inr (z, s')"
    using assms(1) by (simp add: buy_membership_def pr) blast
  have k: "keeps same_members (if b then club_Grant fault co now buyer t amount reason actor else give 0)" for b t amount reason actor
    by (intro mem.rules)
  have "same_members s s1" "same_members s1 s2" using mem.run [OF k st(1)] mem.run [OF k st(2)] .
  then have "gifts_ok s2" using assms(2) gifts_ok_same by blast
  with applySubscription_gifts [OF st(3)] show ?thesis by blast
qed

lemma revoke_gifts:
  assumes "revoke_membership fault now p s = Inr (z, s')" "gifts_ok s"
  shows "gifts_ok s'"
proof (cases "map_of (ss_memberships s) p")
  case None
  then have "s' = count_call s" using assms(1) by (auto simp: revoke_membership_def FindMembership_Inr)
  then show ?thesis using gifts_ok_same [OF mem.counted assms(2)] by simp
next
  case (Some x)
  let ?m = "(accrueMembership now x)\<lparr>mb_Level := LevelNone, mb_ExpiresAt := None, mb_StreakStartedAt := None\<rparr>"
  obtain s2 where u: "UpsertMembership fault ?m (count_call s) = Inr ((), s2)" "SetClub fault p \<lparr>cb_Level = LevelNone, cb_ExpiresAt = None\<rparr> s2 = Inr ((), s')"
    using assms(1) Some by (auto simp: revoke_membership_def FindMembership_Inr Let_def)
  have "grows (map_of (ss_memberships (count_call s)) (mb_PlayerID ?m)) ?m"
    using gifts_okD(1) [OF assms(2) Some] Some accrue_grows [of x now] by (simp add: grows_def accrue_fields)
  with upsert_gifts [OF u(1) gifts_ok_same [OF mem.counted assms(2)]] have "gifts_ok s2" by blast
  then show ?thesis by (rule gifts_ok_same [OF mem.run [OF reads_keep(3) u(2)]])
qed

text \<open>What one pass of the cycle commits.\<close>

lemma recordDuePaydays_fields:
  assumes "recordDuePaydays fault op now m s = Some (Inr ((m1, created), s'))"
  shows "\<exists>t. m1 = m\<lparr>mb_LastPaydayAt := Some t\<rparr>" "same_members s s'"
proof -
  show "same_members s s'" by (rule mem.paydays [OF record_payday_keeps(2) assms])
  show "\<exists>t. m1 = m\<lparr>mb_LastPaydayAt := Some t\<rparr>"
  proof (cases "mb_LastPaydayAt m")
    case (Some prior)
    then obtain y where "payday_loop fault op m (accrual_end now m) prior False s = Some y"
        "map_sum id (\<lambda>((prior', created), s'). ((m\<lparr>mb_LastPaydayAt := Some prior'\<rparr>, created), s')) y = Inr ((m1, created), s')"
      using assms by (auto simp: recordDuePaydays_def)
    then show ?thesis by (cases y) (auto split: prod.splits)
  qed (use assms in \<open>auto simp: recordDuePaydays_def\<close>)
qed

lemma advance_Inr:
  assumes "advance_membership fault op now p s = Some (Inr (z, s'))"
  shows "case map_of (ss_memberships s) p of
      None \<Rightarrow> z = None \<and> s' = count_call s
    | Some x \<Rightarrow> if mb_Level x = LevelNone \<or> mb_ExpiresAt x = None then z = None \<and> s' = count_call s
        else \<exists>m created s1 s2 expired. recordDuePaydays fault op now (accrueMembership now x) (count_call s) = Some (Inr ((m, created), s1)) \<and>
          same_members s s1 \<and> same_members s1 s2 \<and> expired = (\<not> now < the (mb_ExpiresAt x)) \<and>
          z = Some (m\<lparr>mb_Level := (if expired then LevelNone else mb_Level x)\<rparr>, expired, created) \<and>
          UpsertMembership fault (m\<lparr>mb_Level := (if expired then LevelNone else mb_Level x)\<rparr>) s2 = Inr ((), s')"
proof (cases "map_of (ss_memberships s) p")
  case None
  then show ?thesis using assms by (auto simp: advance_membership_def FindMembership_def query_def split: if_splits)
next
  case (Some x)
  show ?thesis
  proof (cases "mb_Level x = LevelNone \<or> mb_ExpiresAt x = None")
    case True
    then show ?thesis using assms Some by (auto simp: advance_membership_def FindMembership_def query_def split: if_splits)
  next
    case False
    then obtain e where e: "mb_ExpiresAt x = Some e" "mb_Level x \<noteq> LevelNone" by auto
    obtain m created s1 where r: "recordDuePaydays fault op now (accrueMembership now x) (count_call s) = Some (Inr ((m, created), s1))"
        "chain (expire_tier fault now m) (\<lambda>(m2, expired).
           chain (UpsertMembership fault m2) (\<lambda>_. give (Some (m2, expired, created)))) s1 = Inr (z, s')"
      using assms Some e by (auto simp: advance_membership_def FindMembership_def query_def split: option.splits sum.splits if_splits)
    from recordDuePaydays_fields [OF r(1)] obtain t where t: "m = (accrueMembership now x)\<lparr>mb_LastPaydayAt := Some t\<rparr>"
        "same_members (count_call s) s1" by blast
    have m: "mb_ExpiresAt m = Some e" "mb_Level m = mb_Level x" "mb_PlayerID m = mb_PlayerID x" using e by (simp_all add: t accrue_fields)
    have same: "same_members s s1" using mem.trans [OF mem.counted t(2)] .
    obtain m2 expired s2 where x2: "expire_tier fault now m s1 = Inr ((m2, expired), s2)" "UpsertMembership fault m2 s2 = Inr ((), s')"
        "z = Some (m2, expired, created)"
      using r(2) by auto
    have k: "keeps same_members (expire_tier fault now m)" unfolding expire_tier_def by (intro reads_keep mem.rules)
    have "m2 = m\<lparr>mb_Level := (if expired then LevelNone else mb_Level x)\<rparr>" "expired = (\<not> now < e)"
      using x2(1) m by (auto simp: expire_tier_def split: if_splits)
    with x2 r(1) same mem.run [OF k x2(1)] Some e show ?thesis by auto
  qed
qed

lemma advance_gifts:
  assumes "advance_membership fault op now p s = Some (Inr (z, s'))" "gifts_ok s"
  shows "gifts_ok s'"
proof (cases "map_of (ss_memberships s) p")
  case None
  then show ?thesis using advance_Inr [OF assms(1)] gifts_ok_same [OF mem.counted assms(2)] by simp
next
  case (Some x)
  show ?thesis
  proof (cases "mb_Level x = LevelNone \<or> mb_ExpiresAt x = None")
    case True
    then show ?thesis using advance_Inr [OF assms(1)] Some gifts_ok_same [OF mem.counted assms(2)] by simp
  next
    case False
    with advance_Inr [OF assms(1)] Some obtain m created s1 s2 level where
      r: "recordDuePaydays fault op now (accrueMembership now x) (count_call s) = Some (Inr ((m, created), s1))" "same_members s s1"
        "same_members s1 s2" "UpsertMembership fault (m\<lparr>mb_Level := level\<rparr>) s2 = Inr ((), s')"
      by auto
    obtain t where t: "m = (accrueMembership now x)\<lparr>mb_LastPaydayAt := Some t\<rparr>" using recordDuePaydays_fields(1) [OF r(1)] by blast
    have rows: "ss_memberships s2 = ss_memberships s" using r(2,3) by (simp add: same_members_def)
    have ok: "gifts_ok s2" using gifts_ok_same r(2,3) assms(2) by blast
    have "grows (map_of (ss_memberships s2) (mb_PlayerID (m\<lparr>mb_Level := level\<rparr>))) (m\<lparr>mb_Level := level\<rparr>)"
      using gifts_okD(1) [OF assms(2) Some] Some accrue_grows [of x now] by (simp add: t rows grows_def accrue_fields)
    with upsert_gifts [OF r(4) ok] show ?thesis by blast
  qed
qed

text \<open>A claim takes the next period, which the tenure covers.\<close>

lemma ClubGiftPeriod_pos: "0 < ClubGiftPeriodSeconds" by (simp add: ClubGiftPeriodSeconds_def)

lemma remaining_covers:
  assumes "0 \<le> mb_LifetimeActiveSeconds m" "countable_tenure m" "0 \<le> sint (mb_GiftsClaimed m)" "0 < sint (RemainingClubGifts m)"
  shows "(sint (mb_GiftsClaimed m) + 1) * ClubGiftPeriodSeconds \<le> mb_LifetimeActiveSeconds m"
    "sint (mb_GiftsClaimed m + 1) = sint (mb_GiftsClaimed m) + 1"
proof -
  define earned where "earned = mb_LifetimeActiveSeconds m div ClubGiftPeriodSeconds"
  note P = ClubGiftPeriod_pos
  have e: "0 \<le> earned" "earned < 2 ^ 31"
    using assms(1,2) unfolding earned_def countable_tenure_def ClubGiftPeriodSeconds_def by linarith+
  have c: "sint (mb_GiftsClaimed m) < 2 ^ 31" using sint_lt [of "mb_GiftsClaimed m"] by simp
  have i: "sint (word_of_int earned :: i32) = earned" using e by (simp add: sint_sbintrunc' signed_take_bit_int_eq_self)
  have "RemainingClubGifts m = word_of_int earned - mb_GiftsClaimed m"
    using assms(1) by (simp add: RemainingClubGifts_def earned_def sdiv_nonneg ClubGiftPeriod_pos)
  then have "sint (RemainingClubGifts m) = earned - sint (mb_GiftsClaimed m)"
    using e c assms(3) by (simp add: sint_word_ariths(2) i signed_take_bit_int_eq_self)
  then have less: "sint (mb_GiftsClaimed m) + 1 \<le> earned" using assms(4) by simp
  have "(sint (mb_GiftsClaimed m) + 1) * ClubGiftPeriodSeconds \<le> earned * ClubGiftPeriodSeconds"
    using less P by (intro mult_right_mono) auto
  also have "\<dots> \<le> mb_LifetimeActiveSeconds m"
    unfolding earned_def using P by (simp add: div_mult_mod_eq [of _ ClubGiftPeriodSeconds, symmetric] minus_mod_eq_div_mult [symmetric])
  finally show "(sint (mb_GiftsClaimed m) + 1) * ClubGiftPeriodSeconds \<le> mb_LifetimeActiveSeconds m" .
  show "sint (mb_GiftsClaimed m + 1) = sint (mb_GiftsClaimed m) + 1"
    using sint_Suc [of "mb_GiftsClaimed m" "word_of_int earned"] less e
    by (simp add: sint_sbintrunc' signed_take_bit_int_eq_self)
qed

lemma claim_gift_Inr:
  assumes "claim_gift fault co c now p key s = Inr (r, s')"
  shows "\<exists>m start s1 s2. map_of (ss_memberships s) p = Some m \<and> mb_StartedAt m = Some start \<and> activeMembership now m \<and>
    0 < sint (RemainingClubGifts m) \<and> validateClubGift co c p key m = None \<and>
    InsertGiftClaim fault p (gift_period m start) key (count_call s) = Inr ((), s1) \<and>
    in_catalog now (PurchaseWithin fault co c (gift_order p key)) s1 = Inr (r, s2) \<and>
    UpsertMembership fault (m\<lparr>mb_GiftsClaimed := mb_GiftsClaimed m + 1\<rparr>) s2 = Inr ((), s')"
proof -
  from assms obtain m where m: "map_of (ss_memberships s) p = Some m"
    by (auto simp: claim_gift_def FindMembership_Inr split: option.splits)
  from assms m obtain start where st: "mb_StartedAt m = Some start"
    by (auto simp: claim_gift_def FindMembership_Inr split: option.splits)
  show ?thesis using assms m st
    by (auto simp: claim_gift_def FindMembership_Inr sx_case_Inr not_le split: if_splits option.splits)
qed

lemma claim_gift_gifts:
  assumes "claim_gift fault co c now p key s = Inr (r, s')" "gifts_ok s"
  shows "gifts_ok s'"
proof -
  from claim_gift_Inr [OF assms(1)] obtain m start s1 s2 where
    m: "map_of (ss_memberships s) p = Some m" "mb_StartedAt m = Some start" "0 < sint (RemainingClubGifts m)" and
    i: "InsertGiftClaim fault p (gift_period m start) key (count_call s) = Inr ((), s1)" and
    g: "in_catalog now (PurchaseWithin fault co c (gift_order p key)) s1 = Inr (r, s2)" and
    u: "UpsertMembership fault (m\<lparr>mb_GiftsClaimed := mb_GiftsClaimed m + 1\<rparr>) s2 = Inr ((), s')"
    by blast
  note M = gifts_okD [OF assms(2) m(1)]
  have s1: "ss_giftClaims s1 = ss_giftClaims s @ [(p, gift_period m start, key)]" "ss_memberships s1 = ss_memberships s"
    using i by (auto simp: InsertGiftClaim_def split: if_splits)
  have s2: "ss_giftClaims s2 = ss_giftClaims s1" "ss_memberships s2 = ss_memberships s1"
    using mem.run [OF mem.in_catalog g] by (simp_all add: same_members_def)
  define row where "row = merged (Some m) (m\<lparr>mb_GiftsClaimed := mb_GiftsClaimed m + 1\<rparr>)"
  have s': "map_of (ss_memberships s') q = (if q = p then Some row else map_of (ss_memberships s) q)"
      "claims_of s' q = claims_of s q @ (if q = p then [gift_period m start] else [])" for q
    using u M(1) m(1) by (auto simp: UpsertMembership_Inr s1 s2 row_def update_conv' claims_of_def)
  have row: "mb_PlayerID row = p" "mb_StartedAt row = Some start" "mb_LifetimeActiveSeconds row = mb_LifetimeActiveSeconds m"
      "mb_GiftsClaimed row = mb_GiftsClaimed m + 1"
    by (simp_all add: row_def merged_def M(1) m(2))
  have backed: "gifts_backed s' row" if "countable_tenure row"
  proof -
    have t: "countable_tenure m" using that row(3) by (simp add: countable_tenure_def)
    note b = M(4) [OF t, unfolded gifts_backed_def] and R = remaining_covers [OF M(3) t _ m(3)]
    have n: "nat (sint (mb_GiftsClaimed m) + 1) = Suc (nat (sint (mb_GiftsClaimed m)))" using b [THEN conjunct1] by linarith
    have "gift_dates row = gift_dates m @ [gift_period m start]"
      using R(2) b by (simp add: gift_dates_def row m(2) n gift_period_def)
    then show ?thesis using R b by (simp add: gifts_backed_def row s'(2) M(1))
  qed
  show ?thesis unfolding gifts_ok_def
  proof
    fix q
    show "case map_of (ss_memberships s') q of None \<Rightarrow> claims_of s' q = []
      | Some m \<Rightarrow> mb_PlayerID m = q \<and> mb_StartedAt m \<noteq> None \<and> 0 \<le> mb_LifetimeActiveSeconds m \<and> (countable_tenure m \<longrightarrow> gifts_backed s' m)"
    proof (cases "q = p")
      case True
      then show ?thesis using row M(3) backed by (simp add: s'(1))
    next
      case False
      have b: "gifts_backed s' x \<longleftrightarrow> gifts_backed s x" if "mb_PlayerID x = q" for x
        using that False by (simp add: gifts_backed_def s'(2))
      show ?thesis using False assms(2) [unfolded gifts_ok_def, rule_format, of q] by (simp add: s' b split: option.splits)
    qed
  qed
qed

subsection \<open>Runs of the service\<close>

lemma projected_store: "fst (projected work s) = s \<or> (\<exists>m created s'. work s = Inr ((m, created), s') \<and> fst (projected work s) = projectLive m s')"
  by (auto simp: projected_def split: sum.splits)

lemma live_same: "same_members s (projectLive m s)" "same_paydays s (projectLive m s)"
  by (simp_all add: same_members_def same_paydays_def)

lemma processMembership_store:
  assumes "processMembership fault1 fault2 co op now p s = Some (s', e)"
  shows "s' = s \<or> (\<exists>z s1. advance_membership fault1 op now p s = Some (Inr (z, s1)) \<and>
    (s' = s1 \<or> (\<exists>m s2. (s2 = s1 \<or> s2 = projectLive m s1) \<and> (s' = s2 \<or> s' = fst (ClaimPaydays fault2 co now p s2)))))"
proof (cases "advance_membership fault1 op now p s")
  case None
  then show ?thesis using assms by (simp add: processMembership_def)
next
  case (Some res)
  show ?thesis
  proof (cases res)
    case (Inl x)
    then show ?thesis using assms Some by (simp add: processMembership_def)
  next
    case (Inr w)
    obtain z s1 where w: "w = (z, s1)" by (cases w)
    show ?thesis
    proof (cases z)
      case None
      then show ?thesis using assms Some Inr w by (auto simp: processMembership_def)
    next
      case (Some y)
      obtain m expired created where y: "y = (m, expired, created)" by (cases y)
      define s2 where "s2 = (if expired then projectLive m s1 else s1)"
      have "s' = s2 \<or> s' = fst (ClaimPaydays fault2 co now p s2)"
        using assms \<open>advance_membership fault1 op now p s = Some res\<close> Inr w Some y
        by (auto simp: processMembership_def s2_def [symmetric] Let_def split: if_splits prod.splits sum.splits)
      then show ?thesis using \<open>advance_membership fault1 op now p s = Some res\<close> Inr w unfolding s2_def
        by (cases expired) auto
    qed
  qed
qed

lemma subscription_step_ok:
  assumes "subscription_step x s = Some s'" "gifts_ok s" "paydays_ok s"
  shows "gifts_ok s' \<and> paydays_ok s'"
proof -
  have keep: "gifts_ok t \<and> paydays_ok t" if "same_members s t" "same_paydays s t" for t
    using that gifts_ok_same assms(2,3) paydays_keep_same by (auto simp: paydays_keep_def)
  have paydays: "paydays_ok t" if "same_paydays s t" for t
    using that paydays_keep_same assms(3) by (auto simp: paydays_keep_def)
  have proj: "gifts_ok (fst (projected work s)) \<and> paydays_ok (fst (projected work s))"
    if "\<And>z t. work s = Inr (z, t) \<Longrightarrow> gifts_ok t" "keeps same_paydays work" for work
  proof (cases "fst (projected work s) = s")
    case False
    with projected_store [of work s] obtain m created t where t: "work s = Inr ((m, created), t)" "fst (projected work s) = projectLive m t"
      by auto
    have "paydays_ok t" by (rule paydays [OF pay.run [OF that(2) t(1)]])
    with that(1) [OF t(1)] show ?thesis unfolding t(2)
      using gifts_ok_same [OF live_same(1)] paydays_keep_same [OF live_same(2)] by (simp add: paydays_keep_def)
  qed (use assms(2,3) in simp)
  show ?thesis
  proof (cases x)
    case (SSubscribe fault now p level duration)
    show ?thesis
    proof (cases "p \<le> 0 \<or> level \<le> LevelNone \<or> level > LevelVIP \<or> duration \<le> 0")
      case False
      then have "s' = fst (projected (applySubscription fault now p level duration) s)"
        using assms(1) SSubscribe by (simp add: Subscribe_def)
      then show ?thesis using proj [of "applySubscription fault now p level duration"] subscription_keeps_paydays(1)
          applySubscription_gifts [OF _ assms(2)] by blast
    qed (use assms SSubscribe in \<open>simp add: Subscribe_def\<close>)
  next
    case (SBuy fault co now buyer recipient x amount)
    show ?thesis
    proof (cases "sint amount \<le> 0 \<or> sint amount > 100 \<or> \<not> club_amount_ok x amount")
      case False
      then have "s' = fst (projected (buy_membership fault co now buyer recipient x amount) s)"
        using assms(1) SBuy by simp
      then show ?thesis using proj [of "buy_membership fault co now buyer recipient x amount"] subscription_keeps_paydays(3)
          buy_membership_gifts [OF _ assms(2)] by blast
    qed (use assms SBuy in auto)
  next
    case (SRevoke fault now p)
    show ?thesis
    proof (cases "revoke_membership fault now p s")
      case (Inr z)
      then obtain m t where t: "revoke_membership fault now p s = Inr (m, t)" by (cases z) auto
      have "gifts_ok t" "paydays_ok t" using revoke_gifts [OF t assms(2)] paydays [OF pay.run [OF subscription_keeps_paydays(2) t]] .
      then show ?thesis using assms(1) SRevoke t gifts_ok_same [OF live_same(1)] paydays_keep_same [OF live_same(2)]
        by (auto simp: Revoke_def paydays_keep_def)
    qed (use assms SRevoke in \<open>simp add: Revoke_def\<close>)
  next
    case (SProcess fault1 fault2 co op now p)
    then obtain e where "processMembership fault1 fault2 co op now p s = Some (s', e)" using assms(1) by auto
    from processMembership_store [OF this] consider "s' = s" | z s1 m s2 where
        "advance_membership fault1 op now p s = Some (Inr (z, s1))" "s2 = s1 \<or> s2 = projectLive m s1" "s' = s2 \<or> s' = fst (ClaimPaydays fault2 co now p s2)"
      by blast
    then show ?thesis
    proof cases
      case 2
      have s1: "gifts_ok s1" "paydays_ok s1" using advance_gifts [OF 2(1) assms(2)] advance_paydays [OF 2(1)] assms(3) by (auto simp: paydays_keep_def)
      have s2: "gifts_ok s2" "paydays_ok s2" using 2(2) s1 gifts_ok_same [OF live_same(1)] paydays_keep_same [OF live_same(2)]
        by (auto simp: paydays_keep_def)
      have "same_members s2 s' \<and> paydays_keep s2 s'" using 2(3) mem.transacted [OF claim_paydays_keeps(2)] pok.transacted [OF claim_paydays_keeps(1)]
        by (auto simp: ClaimPaydays_def mem.refl pok.refl)
      with s2 gifts_ok_same show ?thesis by (auto simp: paydays_keep_def)
    qed (use assms in simp)
  next
    case (SClaimPaydays fault co now p)
    then have s': "s' = fst (transact (claim_paydays fault co now p) s)" using assms(1) by (simp add: ClaimPaydays_def)
    show ?thesis using gifts_ok_same [OF mem.transacted [OF claim_paydays_keeps(2)] assms(2)] pok.transacted [OF claim_paydays_keeps(1)] assms(3)
      unfolding s' paydays_keep_def by blast
  next
    case (SClaimGift fault co c now p key)
    show ?thesis
    proof (cases "claim_gift fault co c now p key s")
      case (Inr z)
      then obtain r where t: "claim_gift fault co c now p key s = Inr (r, s')"
        using assms(1) SClaimGift by (cases z) (auto simp: ClaimClubGift_def transact_def)
      show ?thesis using claim_gift_gifts [OF t assms(2)] paydays [OF pay.run [OF subscription_keeps_paydays(5) t]] by blast
    qed (use assms SClaimGift in \<open>simp add: ClaimClubGift_def transact_def\<close>)
  next
    case (SBuyTargeted fault co c now p y quantity)
    show ?thesis
    proof (cases "sint quantity \<le> 0 \<or> sint quantity > sint (tg_PurchaseLimit y - tg_PurchasesCount y)")
      case False
      then have "s' = fst (transact (buy_targeted fault co c now p y quantity) s)" using assms(1) SBuyTargeted by simp
      then show ?thesis using keep [OF mem.transacted [OF targeted_keeps(1)] pay.transacted [OF targeted_keeps(2)]] by simp
    qed (use assms SBuyTargeted in auto)
  qed (use assms(1) in \<open>auto intro!: keep mem.transacted pay.transacted saves_keep door_keeps mem.in_catalog pay.in_catalog
      SaveCampaign_keeps [THEN conjunct1] SaveCampaign_keeps [THEN conjunct2]\<close>)
qed

lemma subscription_run_ok:
  "subscription_run xs s = Some s' \<Longrightarrow> gifts_ok s \<Longrightarrow> paydays_ok s \<Longrightarrow> gifts_ok s' \<and> paydays_ok s'"
proof (induction xs arbitrary: s)
  case (Cons x xs)
  then obtain t where "subscription_step x s = Some t" "subscription_run xs t = Some s'" by (auto split: option.splits)
  with subscription_step_ok [OF this(1)] Cons show ?case by blast
qed simp

lemma no_members_ok: "gifts_ok (no_members c)" "paydays_ok (no_members c)"
  by (simp_all add: no_members_def gifts_ok_def claims_of_def paydays_ok_def)

text \<open>C37: After any run of the service that starts without members, a member has claimed at most one club gift for
  every complete period of 31 days of recorded active time, and the claims of the member are exactly those of the
  first periods since the first start, in their order and each of them once. (For less than \<open>2 ^ 31\<close> periods of tenure; the
  code's 64 bit product of a period and the gifts claimed is exact for the first 292 years.)\<close>

theorem club_gifts_within_tenure:
  assumes "subscription_run xs (no_members c) = Some s" "map_of (ss_memberships s) p = Some m" "countable_tenure m"
  shows "0 \<le> sint (mb_GiftsClaimed m) \<and> sint (mb_GiftsClaimed m) \<le> mb_LifetimeActiveSeconds m div ClubGiftPeriodSeconds \<and>
    claims_of s p = map (\<lambda>k. the (mb_StartedAt m) + int k * ClubGiftPeriodSeconds * second) [0..<nat (sint (mb_GiftsClaimed m))]"
proof -
  have "gifts_ok s" using subscription_run_ok [OF assms(1)] no_members_ok by blast
  note M = gifts_okD [OF this assms(2)]
  have g: "gifts_backed s m" by (rule M(4) [OF assms(3)])
  then have "sint (mb_GiftsClaimed m) \<le> mb_LifetimeActiveSeconds m div ClubGiftPeriodSeconds"
    unfolding gifts_backed_def ClubGiftPeriodSeconds_def by linarith
  with g M(1) show ?thesis by (simp add: gifts_backed_def gift_dates_def)
qed

subsection \<open>Paydays are paid once\<close>

definition payout :: "int \<Rightarrow> payday \<Rightarrow> int" where
  "payout t y = (if py_CurrencyType y = t then max 0 (py_TotalAwarded y) else 0)"

lemma claimed_again: "py_Claimed y \<Longrightarrow> y\<lparr>py_Claimed := True\<rparr> = y"
  by (cases y) simp

lemma mark_Inr:
  assumes "MarkPaydayClaimed fault key s = Inr (u, s')"
  shows "ss_paydays s' = map (\<lambda>y. if py_ID y = key then y\<lparr>py_Claimed := True\<rparr> else y) (ss_paydays s)"
    "balance_of (cs_db (ss_catalog s')) q t = balance_of (cs_db (ss_catalog s)) q t"
  using assms by (auto simp: MarkPaydayClaimed_def claimed_again)

lemma claim_all_Inr:
  assumes "claim_all fault co now p ys s = Inr (u, s')"
  shows "balance_of (cs_db (ss_catalog s')) q t = balance_of (cs_db (ss_catalog s)) q t + (if q = p then sum_list (map (payout t) ys) else 0) \<and>
    ss_paydays s' = map (\<lambda>y. if py_ID y \<in> py_ID ` set ys then y\<lparr>py_Claimed := True\<rparr> else y) (ss_paydays s)"
  using assms
proof (induction ys arbitrary: s)
  case (Cons y ys)
  obtain b s1 s2 where st: "(if py_TotalAwarded y > 0 then club_Grant fault co now p (py_CurrencyType y) (py_TotalAwarded y) ''hc_payday'' ActorSystem
        else give 0) s = Inr (b, s1)" "MarkPaydayClaimed fault (py_ID y) s1 = Inr ((), s2)" "claim_all fault co now p ys s2 = Inr (u, s')"
    using Cons.prems by auto
  have g: "balance_of (cs_db (ss_catalog s1)) q t = balance_of (cs_db (ss_catalog s)) q t + (if q = p then payout t y else 0)"
      "ss_paydays s1 = ss_paydays s"
  proof -
    have actor: "granted (co_infinite co) p (py_TotalAwarded y) ActorSystem = py_TotalAwarded y"
      by (simp add: granted_def infiniteBalance_def ActorSystem_def ActorPlayer_def split: option.splits)
    show "balance_of (cs_db (ss_catalog s1)) q t = balance_of (cs_db (ss_catalog s)) q t + (if q = p then payout t y else 0)"
      "ss_paydays s1 = ss_paydays s"
      using st(1) actor by (auto simp: payout_def sx_case_Inr club_Grant_Inr split: if_splits)
  qed
  have marked: "(if py_ID x \<in> py_ID ` set (y # ys) then x\<lparr>py_Claimed := True\<rparr> else x) =
      (let z = (if py_ID x = py_ID y then x\<lparr>py_Claimed := True\<rparr> else x) in if py_ID z \<in> py_ID ` set ys then z\<lparr>py_Claimed := True\<rparr> else z)" for x
    by (auto simp: Let_def)
  note ih = Cons.IH [OF st(3)]
  have "ss_paydays s' = map (\<lambda>x. if py_ID x \<in> py_ID ` set (y # ys) then x\<lparr>py_Claimed := True\<rparr> else x) (ss_paydays s)"
    unfolding ih [THEN conjunct2] mark_Inr(1) [OF st(2)] g(2) marked by (simp add: Let_def comp_def)
  with ih g(1) mark_Inr(2) [OF st(2), of q t] show ?case by simp
qed simp_all

lemma sum_list_sorted: "sum_list (map f (sort_key k xs)) = sum_list (map f xs :: int list)"
proof -
  have "mset (map f (sort_key k xs)) = mset (map f xs)" by simp
  then show ?thesis by (metis sum_mset_sum_list)
qed

text \<open>C36: Claiming the paydays of a player, after any run of the service that started without members: if it fails, nothing
  changes. If it commits, every reward of the player that was not claimed is paid in full in its own currency, nobody
  else's balance changes, and all rows of the player are marked and no others, so that no reward is paid a second time.\<close>

theorem paydays_paid_once:
  assumes "subscription_run xs (no_members c) = Some s"
  shows "case ClaimPaydays fault co now p s of
      (s', Inl e) \<Rightarrow> s' = s
    | (s', Inr ys) \<Rightarrow> set ys = {y \<in> set (ss_paydays s). unclaimed p y} \<and>
        (\<forall>q t. balance_of (cs_db (ss_catalog s')) q t = balance_of (cs_db (ss_catalog s)) q t +
          (if q = p then sum_list (map (payout t) (filter (unclaimed p) (ss_paydays s))) else 0)) \<and>
        ss_paydays s' = map (\<lambda>y. if py_PlayerID y = p then y\<lparr>py_Claimed := True\<rparr> else y) (ss_paydays s) \<and>
        filter (unclaimed p) (ss_paydays s') = []"
proof (cases "claim_paydays fault co now p s")
  case (Inl e)
  then show ?thesis by (simp add: ClaimPaydays_def transact_def)
next
  case (Inr z)
  then obtain ys s' where z: "claim_paydays fault co now p s = Inr (ys, s')" by (cases z) auto
  have ys: "ys = sort_key py_ID (filter (unclaimed p) (ss_paydays s))" "claim_all fault co now p ys (count_call s) = Inr ((), s')"
    using z by (auto simp: claim_paydays_def ListUnclaimedPaydays_def)
  note paid = conjunct1 [OF claim_all_Inr [OF ys(2)], unfolded count_call_fields] and
    marked = conjunct2 [OF claim_all_Inr [OF ys(2)], unfolded count_call_fields]
  have "paydays_ok s" using subscription_run_ok [OF assms] no_members_ok by blast
  then have inj: "inj_on py_ID (set (ss_paydays s))" by (simp add: paydays_ok_def distinct_map)
  have set_ys: "set ys = {y \<in> set (ss_paydays s). unclaimed p y}" by (simp add: ys(1))
  have "(if py_ID y \<in> py_ID ` set ys then y\<lparr>py_Claimed := True\<rparr> else y) = (if py_PlayerID y = p then y\<lparr>py_Claimed := True\<rparr> else y)"
    if y: "y \<in> set (ss_paydays s)" for y
  proof -
    have "py_ID y \<in> py_ID ` set ys \<longleftrightarrow> unclaimed p y"
      using y inj unfolding set_ys by (auto dest: inj_onD)
    then show ?thesis by (cases "py_Claimed y") (simp_all add: unclaimed_def claimed_again)
  qed
  then have rows: "ss_paydays s' = map (\<lambda>y. if py_PlayerID y = p then y\<lparr>py_Claimed := True\<rparr> else y) (ss_paydays s)"
    unfolding marked by (rule map_cong [OF refl])
  have none: "filter (unclaimed p) (ss_paydays s') = []" 
  proof -
    have "\<not> unclaimed p (if py_PlayerID y = p then y\<lparr>py_Claimed := True\<rparr> else y)" for y by (simp add: unclaimed_def)
    then show ?thesis unfolding rows by (simp only: filter_empty_conv set_map ball_simps) blast
  qed
  have total: "sum_list (map (payout t) ys) = sum_list (map (payout t) (filter (unclaimed p) (ss_paydays s)))" for t
    unfolding ys(1) by (rule sum_list_sorted)
  have "set ys = {y \<in> set (ss_paydays s). unclaimed p y} \<and>
        (\<forall>q t. balance_of (cs_db (ss_catalog s')) q t = balance_of (cs_db (ss_catalog s)) q t +
          (if q = p then sum_list (map (payout t) (filter (unclaimed p) (ss_paydays s))) else 0)) \<and>
        ss_paydays s' = map (\<lambda>y. if py_PlayerID y = p then y\<lparr>py_Claimed := True\<rparr> else y) (ss_paydays s) \<and>
        filter (unclaimed p) (ss_paydays s') = []"
    using set_ys rows none paid unfolding total by blast
  then show ?thesis unfolding ClaimPaydays_def transact_def z sum.case prod.case .
qed

subsection \<open>Time that is lost, and time that counts too much\<close>

lemma Subscribe_Inr:
  assumes "Subscribe fault now p level duration s = (s', Inr m)"
  shows "\<exists>created s2. renewed now p level duration (map_of (ss_memberships s) p) = (m, created) \<and>
    UpsertMembership fault m (count_call s) = Inr ((), s2) \<and> same_members s2 s' \<and> same_paydays s s'"
proof -
  obtain created t where t: "applySubscription fault now p level duration s = Inr ((m, created), t)" "s' = projectLive m t"
    using assms by (auto simp: Subscribe_def projected_def split: if_splits sum.splits)
  from applySubscription_Inr [OF t(1)] obtain s2 where
      r: "renewed now p level duration (map_of (ss_memberships s) p) = (m, created)" "UpsertMembership fault m (count_call s) = Inr ((), s2)"
        "SetClub fault p \<lparr>cb_Level = mb_Level m, cb_ExpiresAt = mb_ExpiresAt m\<rparr> s2 = Inr ((), t)"
    by blast
  have "same_members s2 s'" using mem.trans [OF mem.run [OF reads_keep(3) r(3)] live_same(1)] t(2) by simp
  moreover have "same_paydays s s'" using pay.trans [OF pay.run [OF subscription_keeps_paydays(1) t(1)] live_same(2)] t(2) by simp
  ultimately show ?thesis using r by blast
qed

lemma processMembership_ok:
  assumes "processMembership fault1 fault2 co op now p s = Some (s', None)"
  shows "\<exists>z s1. advance_membership fault1 op now p s = Some (Inr (z, s1)) \<and> same_members s1 s'"
proof -
  obtain z s1 where a: "advance_membership fault1 op now p s = Some (Inr (z, s1))"
    using assms by (auto simp: processMembership_def split: option.splits sum.splits)
  have c: "same_members t (fst (ClaimPaydays fault2 co now p t))" for t
    unfolding ClaimPaydays_def by (rule mem.transacted [OF claim_paydays_keeps(2)])
  show ?thesis
  proof (cases z)
    case None
    then show ?thesis using assms a by (auto simp: processMembership_def mem.refl)
  next
    case (Some y)
    obtain m expired created where y: "y = (m, expired, created)" by (cases y)
    define s2 where "s2 = (if expired then projectLive m s1 else s1)"
    have "s' = s2 \<or> s' = fst (ClaimPaydays fault2 co now p s2)"
      using assms a Some y by (auto simp: processMembership_def s2_def [symmetric] Let_def split: if_splits prod.splits sum.splits)
    moreover have "same_members s1 s2" by (simp add: s2_def live_same mem.refl)
    ultimately show ?thesis using a c [of s2] mem.trans by blast
  qed
qed

text \<open>A member whose tier has run out renews it. Before the cycle has processed the membership, the renewal starts to count anew from
  now: the active time since the last accrual is lost, and so are the cycles that were due for a payday. After
  the cycle has processed it, at the same moment, that time is in the record. How much the member keeps depends on who comes first.\<close>

theorem late_renewal_forgets_time:
  assumes "map_of (ss_memberships s) p = Some x" "mb_PlayerID x = p" "mb_StartedAt x \<noteq> None" "mb_Level x > LevelNone"
    "mb_ExpiresAt x = Some e" "e \<le> now" "mb_LastAccruedAt x = Some a" "a \<le> e"
    and "Subscribe fault now p level duration s = (s1, Inr m)"
    and "processMembership fault1 fault2 co op now p s = Some (t, None)" "Subscribe fault' now p level duration t = (t1, Inr m')"
  shows "mb_LifetimeActiveSeconds m = mb_LifetimeActiveSeconds x \<and> mb_LastAccruedAt m = Some now \<and> mb_LastPaydayAt m = Some now \<and>
    ss_paydays s1 = ss_paydays s \<and>
    mb_LifetimeActiveSeconds m' = mb_LifetimeActiveSeconds x + (e - a) div second \<and> mb_LastAccruedAt m' = Some now"
proof -
  have lapsed: "\<not> activeMembership now x" using assms(5,6) by (simp add: activeMembership_def)
  from Subscribe_Inr [OF assms(9)] renewed_lapsed [OF lapsed assms(3)] assms(1)
  have first: "m = x\<lparr>mb_Level := level, mb_StreakStartedAt := Some now, mb_LastAccruedAt := Some now, mb_LastPaydayAt := Some now,
      mb_ExpiresAt := Some (now + duration)\<rparr>" "same_paydays s s1"
    by auto
  obtain z t0 where adv: "advance_membership fault1 op now p s = Some (Inr (z, t0))" "same_members t0 t"
    using processMembership_ok [OF assms(10)] by blast
  have "mb_Level x \<noteq> LevelNone" "mb_ExpiresAt x \<noteq> None" using assms(4,5) by auto
  with advance_Inr [OF adv(1)] assms(1) obtain n created u1 u2 lev where
    r: "recordDuePaydays fault1 op now (accrueMembership now x) (count_call s) = Some (Inr ((n, created), u1))" "same_members s u1"
      "same_members u1 u2" "lev = (if \<not> now < the (mb_ExpiresAt x) then LevelNone else mb_Level x)"
      "UpsertMembership fault1 (n\<lparr>mb_Level := lev\<rparr>) u2 = Inr ((), t0)"
    by auto
  obtain k where n: "n = (accrueMembership now x)\<lparr>mb_LastPaydayAt := Some k\<rparr>" using recordDuePaydays_fields(1) [OF r(1)] by blast
  define y where "y = merged (Some x) (n\<lparr>mb_Level := LevelNone\<rparr>)"
  have "map_of (ss_memberships t) p = Some y"
    using r(2,3,4,5) adv(2) assms(1,2,5,6) by (auto simp: UpsertMembership_Inr same_members_def y_def n accrue_fields update_conv')
  moreover have y: "mb_LifetimeActiveSeconds y = mb_LifetimeActiveSeconds (accrueMembership now x)" "mb_StartedAt y \<noteq> None" "mb_Level y = LevelNone"
    using assms(3) by (auto simp: y_def merged_def n)
  moreover have "\<not> activeMembership now y" using y(3) by (simp add: activeMembership_def)
  ultimately have second: "mb_LifetimeActiveSeconds m' = mb_LifetimeActiveSeconds (accrueMembership now x)" "mb_LastAccruedAt m' = Some now"
    using Subscribe_Inr [OF assms(11)] renewed_lapsed [of now y p level duration] by auto
  have "mb_LifetimeActiveSeconds (accrueMembership now x) = mb_LifetimeActiveSeconds x + (e - a) div second"
    using assms(5,6,7,8) by (auto simp: accrue_lifetime accrual_start_def accrual_end_def)
  with first second show ?thesis by (simp add: same_paydays_def)
qed

lemma Revoke_Inr:
  assumes "Revoke fault now p s = (s', None)" "map_of (ss_memberships s) p = Some x" "mb_PlayerID x = p"
  shows "map_of (ss_memberships s') p =
    Some (merged (Some x) ((accrueMembership now x)\<lparr>mb_Level := LevelNone, mb_ExpiresAt := None, mb_StreakStartedAt := None\<rparr>))"
proof -
  let ?m = "(accrueMembership now x)\<lparr>mb_Level := LevelNone, mb_ExpiresAt := None, mb_StreakStartedAt := None\<rparr>"
  obtain t where t: "revoke_membership fault now p s = Inr (?m, t)" "s' = projectLive ?m t"
    using assms(1,2) by (auto simp: Revoke_def revoke_membership_def FindMembership_Inr Let_def split: sum.splits)
  obtain s2 where u: "UpsertMembership fault ?m (count_call s) = Inr ((), s2)" "SetClub fault p \<lparr>cb_Level = LevelNone, cb_ExpiresAt = None\<rparr> s2 = Inr ((), t)"
    using t(1) assms(2) by (auto simp: revoke_membership_def FindMembership_Inr Let_def)
  have "same_members s2 s'" using mem.trans [OF mem.run [OF reads_keep(3) u(2)] live_same(1)] t(2) by simp
  with u(1) assms(2,3) show ?thesis by (auto simp: UpsertMembership_Inr same_members_def accrue_fields update_conv')
qed

text \<open>A membership is revoked, and later revoked again. The row that the first revocation leaves has no tier and no expiry, and the second one
  takes that for a membership without an end: all the time in between, when the player was no member, is
  added to the active time, from which club gifts are earned.\<close>

theorem revoked_time_counts:
  assumes "map_of (ss_memberships s) p = Some x" "mb_PlayerID x = p" "Revoke fault now p s = (s1, None)" "Revoke fault' later p s1 = (s2, None)"
    "now \<le> later"
  shows "\<exists>m1 m2. map_of (ss_memberships s1) p = Some m1 \<and> mb_Level m1 = LevelNone \<and> mb_ExpiresAt m1 = None \<and>
    map_of (ss_memberships s2) p = Some m2 \<and>
    mb_LifetimeActiveSeconds m2 = mb_LifetimeActiveSeconds m1 + (later - accrual_end now x) div second \<and>
    mb_GiftsEarned m2 = word_of_int (mb_LifetimeActiveSeconds m2 sdiv ClubGiftPeriodSeconds)"
proof -
  let ?r = "\<lambda>at m. merged (Some m) ((accrueMembership at m)\<lparr>mb_Level := LevelNone, mb_ExpiresAt := None, mb_StreakStartedAt := None\<rparr>)"
  note one = Revoke_Inr [OF assms(3,1,2)]
  have p1: "mb_PlayerID (?r now x) = p" by (simp add: merged_def accrue_fields assms(2))
  note two = Revoke_Inr [OF assms(4) one p1]
  have e: "accrual_end now x \<le> later" using assms(5) by (auto simp: accrual_end_def split: option.splits)
  have start: "accrual_start (?r now x) = Some (accrual_end now x)" "accrual_end later (?r now x) = later"
    by (simp_all add: accrual_start_def accrual_end_def merged_def accrue_fields)
  have "mb_LifetimeActiveSeconds (accrueMembership later (?r now x)) = mb_LifetimeActiveSeconds (?r now x) + (later - accrual_end now x) div second"
    unfolding accrue_lifetime start using e by auto
  moreover have "mb_GiftsEarned (accrueMembership later (?r now x)) =
      word_of_int (mb_LifetimeActiveSeconds (accrueMembership later (?r now x)) sdiv ClubGiftPeriodSeconds)"
    by (simp add: accrueMembership_def Let_def)
  ultimately show ?thesis using one two by (auto simp: merged_def)
qed

subsection \<open>The calendar\<close>

lemma sdiv_neg: "a \<le> 0 \<Longrightarrow> 0 < b \<Longrightarrow> (a :: int) sdiv b = - ((- a) div b)"
  by (cases "a = 0") (auto simp: signed_divide_int_def)

lemma currentDay_int:
  assumes "\<bar>now - cm_StartDate x\<bar> < 2 ^ 31 * a_day"
  shows "sint (currentDay now x) = (now - cm_StartDate x) sdiv a_day"
proof -
  let ?d = "now - cm_StartDate x"
  have "- (2 ^ 31) \<le> ?d sdiv a_day \<and> ?d sdiv a_day < 2 ^ 31"
  proof (cases "0 \<le> ?d")
    case True
    then have "?d sdiv a_day = ?d div a_day" by (simp add: sdiv_nonneg)
    with True assms show ?thesis by (simp add: div_int_pos_iff) linarith
  next
    case False
    then have "?d sdiv a_day = - ((- ?d) div a_day)" by (intro sdiv_neg) simp_all
    with False assms show ?thesis by (simp add: div_int_pos_iff) linarith
  qed
  then show ?thesis by (simp add: currentDay_def sint_sbintrunc' signed_take_bit_int_eq_self)
qed

lemma door_open_iff:
  assumes "\<bar>now - cm_StartDate x\<bar> < 2 ^ 31 * a_day"
  shows "door_open now x n False \<longleftrightarrow> 0 \<le> sint n \<and> sint n < sint (cm_DayCount x) \<and>
    (cm_StartDate x + sint n * a_day \<le> now \<or> sint n = 0 \<and> cm_StartDate x - a_day < now)"
proof (cases "0 \<le> now - cm_StartDate x")
  case True
  then have "sint (currentDay now x) = (now - cm_StartDate x) div a_day" using currentDay_int [OF assms] by (simp add: sdiv_nonneg)
  then have "sint n \<le> sint (currentDay now x) \<longleftrightarrow> cm_StartDate x + sint n * a_day \<le> now" by linarith
  with True show ?thesis by (auto simp: door_open_def)
next
  case False
  then have "sint (currentDay now x) = - ((cm_StartDate x - now) div a_day)" using currentDay_int [OF assms] by (simp add: sdiv_neg)
  moreover have "0 \<le> (cm_StartDate x - now) div a_day" using False by (simp add: pos_imp_zdiv_nonneg_iff)
  moreover have "(cm_StartDate x - now) div a_day = 0 \<longleftrightarrow> cm_StartDate x - a_day < now" using False by linarith
  ultimately have "0 \<le> sint n \<and> sint n \<le> sint (currentDay now x) \<longleftrightarrow> sint n = 0 \<and> cm_StartDate x - a_day < now" by linarith
  moreover have "\<not> cm_StartDate x + sint n * a_day \<le> now" if "0 \<le> sint n" using False that by linarith
  ultimately show ?thesis by (auto simp: door_open_def)
qed

text \<open>What a grant of money leaves alone: furniture, its columns and the next id.\<close>

lemma club_Grant_goods:
  assumes "club_Grant fault co now p t amount reason actor s = Inr (b, s')"
  shows "db_items (cs_db (ss_catalog s')) = db_items (cs_db (ss_catalog s))" "cs_columns (ss_catalog s') = cs_columns (ss_catalog s)"
    "cs_nextItem (ss_catalog s') = cs_nextItem (ss_catalog s)"
proof -
  obtain c where c: "in_economy (Grant fault (co_types co) (co_infinite co) p t amount reason actor) (ss_catalog s) = Inr (b, c)" "ss_catalog s' = c"
    using assms by (auto simp: club_Grant_def in_catalog_Inr)
  have "c = (ss_catalog s)\<lparr>cs_db := cs_db c\<rparr>" "same_goods (cs_db (ss_catalog s)) (cs_db c)"
    using Grant_pays(1) [OF c(1)] by (simp_all add: pays_def)
  then show "db_items (cs_db (ss_catalog s')) = db_items (cs_db (ss_catalog s))" "cs_columns (ss_catalog s') = cs_columns (ss_catalog s)"
    "cs_nextItem (ss_catalog s') = cs_nextItem (ss_catalog s)"
    by (simp_all add: c(2) same_goods_def) (metis catalog_store.select_convs catalog_store.surjective catalog_store.update_convs(1))+
qed

text \<open>A grant of one item adds one row with the next id, and its columns.\<close>

definition new_item :: "ident \<Rightarrow> ident \<Rightarrow> ident \<Rightarrow> furniture_row" where
  "new_item key defn owner = \<lparr>fr_ID = key, fr_DefinitionID = defn, fr_Owner = owner, fr_RoomID = None, fr_Reserved = False\<rparr>"

lemma door_furniture_granted:
  assumes "furniture_Grant fault (door_furniture p defn) c = Inr (rows, c')"
  shows "db_items (cs_db c') = (db_items (cs_db c))(cs_nextItem c \<mapsto> new_item (cs_nextItem c) defn p)"
    "cs_columns c' = (cs_columns c)(cs_nextItem c \<mapsto> \<lparr>ic_ExtraData = ''0'', ic_LimitedEditionNumber = None, ic_Gift = None\<rparr>)"
  using assms
  by (auto simp: furniture_Grant_def door_furniture_def find_definition_def cx_case_Inr create_rows_def new_item_def Let_def split: if_splits)

text \<open>The furniture of a door: none, or one item of the player.\<close>

definition door_items :: "ident \<Rightarrow> campaign_day \<Rightarrow> ident \<Rightarrow> (ident \<rightharpoonup> furniture_row) \<Rightarrow> (ident \<rightharpoonup> furniture_row)" where
  "door_items p d key items = (case cd_ProductDefinitionID d of None \<Rightarrow> items | Some defn \<Rightarrow> items(key \<mapsto> new_item key defn p))"

definition door_columns :: "campaign_day \<Rightarrow> ident \<Rightarrow> (ident \<rightharpoonup> item_columns) \<Rightarrow> (ident \<rightharpoonup> item_columns)" where
  "door_columns d key cols = (case cd_ProductDefinitionID d of None \<Rightarrow> cols
     | Some _ \<Rightarrow> cols(key \<mapsto> \<lparr>ic_ExtraData = ''0'', ic_LimitedEditionNumber = None, ic_Gift = None\<rparr>))"

lemma claim_door_Inr:
  assumes "claim_door fault co now p key n d s = Inr (u, s')"
  shows "(key, p, n) \<notin> set (ss_doors s) \<and> ss_doors s' = ss_doors s @ [(key, p, n)] \<and>
    balance_of (cs_db (ss_catalog s')) q t = balance_of (cs_db (ss_catalog s)) q t +
      (if q = p then (if t = CreditsType then max 0 (cd_CreditsReward d) else 0) + (if t = cd_PointsType d then max 0 (cd_PointsReward d) else 0) else 0) \<and>
    db_items (cs_db (ss_catalog s')) = door_items p d (cs_nextItem (ss_catalog s)) (db_items (cs_db (ss_catalog s))) \<and>
    cs_columns (ss_catalog s') = door_columns d (cs_nextItem (ss_catalog s)) (cs_columns (ss_catalog s))"
proof -
  have actor: "granted (co_infinite co) p amount ActorSystem = amount" for amount
    by (simp add: granted_def infiniteBalance_def ActorSystem_def ActorPlayer_def split: option.splits)
  obtain s1 a s2 b s3 where st: "InsertDoorClaim fault key p n s = Inr ((), s1)"
      "(if cd_CreditsReward d > 0 then club_Grant fault co now p CreditsType (cd_CreditsReward d) ''calendar_door'' ActorSystem else give 0) s1 = Inr (a, s2)"
      "(if cd_PointsReward d > 0 then club_Grant fault co now p (cd_PointsType d) (cd_PointsReward d) ''calendar_door'' ActorSystem else give 0) s2 = Inr (b, s3)"
      "(case cd_ProductDefinitionID d of None \<Rightarrow> give ()
        | Some defn \<Rightarrow> chain (in_catalog now (furniture_Grant fault (door_furniture p defn))) (\<lambda>_. give ())) s3 = Inr (u, s')"
    using assms by (auto simp: claim_door_def split: sum.splits)
  have 1: "(key, p, n) \<notin> set (ss_doors s)" "ss_doors s1 = ss_doors s @ [(key, p, n)]"
      "balance_of (cs_db (ss_catalog s1)) q t = balance_of (cs_db (ss_catalog s)) q t"
    using st(1) by (auto simp: InsertDoorClaim_def split: if_splits)
  have doors: "ss_doors x' = ss_doors x" if "club_Grant fault co now p t amount reason actor x = Inr (z, x')" for t amount reason actor x z x'
    using that by (auto simp: club_Grant_def in_catalog_Inr)
  have 2: "ss_doors s2 = ss_doors s1" "balance_of (cs_db (ss_catalog s2)) q t = balance_of (cs_db (ss_catalog s1)) q t +
      (if q = p \<and> t = CreditsType then max 0 (cd_CreditsReward d) else 0)"
    using st(2) doors by (auto simp: sx_case_Inr club_Grant_Inr actor split: if_splits)
  have 3: "ss_doors s3 = ss_doors s2" "balance_of (cs_db (ss_catalog s3)) q t = balance_of (cs_db (ss_catalog s2)) q t +
      (if q = p \<and> t = cd_PointsType d then max 0 (cd_PointsReward d) else 0)"
    using st(3) doors by (auto simp: sx_case_Inr club_Grant_Inr actor split: if_splits)
  let ?goods = "\<lambda>s. (db_items (cs_db (ss_catalog s)), cs_columns (ss_catalog s), cs_nextItem (ss_catalog s))"
  have goods: "?goods s1 = ?goods s" "?goods s2 = ?goods s1" "?goods s3 = ?goods s2"
    using st(1-3) club_Grant_goods by (auto simp: InsertDoorClaim_def query_def count_call_def split: if_splits)
  have items: "db_items (cs_db (ss_catalog s')) = door_items p d (cs_nextItem (ss_catalog s3)) (db_items (cs_db (ss_catalog s3))) \<and>
    cs_columns (ss_catalog s') = door_columns d (cs_nextItem (ss_catalog s3)) (cs_columns (ss_catalog s3))"
    using st(4) by (auto simp: door_items_def door_columns_def in_catalog_Inr sx_Inr split: option.splits dest: door_furniture_granted)
  have 4: "ss_doors s' = ss_doors s3 \<and> balance_of (cs_db (ss_catalog s')) q t = balance_of (cs_db (ss_catalog s3)) q t"
  proof (cases "cd_ProductDefinitionID d")
    case (Some defn)
    then obtain rows c where c: "furniture_Grant fault (door_furniture p defn) (ss_catalog s3) = Inr (rows, c)" "ss_catalog s' = c" "ss_doors s' = ss_doors s3"
      using st(4) by (auto simp: in_catalog_Inr)
    from furniture_Grant_adds [OF c(1)] c(2,3) show ?thesis by (auto dest: adds_same(10))
  qed (use st(4) in simp)
  show ?thesis using 1 2 3 4 items goods by simp
qed

text \<open>C38: A door of the calendar that opens belongs to an enabled campaign, is one of its doors and was not opened by the player before, and the
  player gets its rewards, which is all that changes of balances and furniture: its credits and points where they are positive and, where
  the door names a furniture definition, one new item with the next id, of this definition, owned by the player, in the
  inventory, with extra data 0 and neither an edition nor a wrapping. A door that does not open changes no balance, no furniture and no claim.
  Without staff rights a door opens from
  its own day on, except that the first door opens up to a day before the campaign starts, because the quotient that gives the
  current day is rounded toward zero.\<close>

theorem calendar_door_opens_once:
  assumes "\<forall>x \<in> set (ss_campaigns s). \<bar>now - cm_StartDate x\<bar> < 2 ^ 31 * a_day"
  shows "case OpenCalendarDoor fault0 fault1 fault2 co now p name n staff s of
      (s', Inl e) \<Rightarrow> ss_doors s' = ss_doors s \<and> (\<forall>q t. balance_of (cs_db (ss_catalog s')) q t = balance_of (cs_db (ss_catalog s)) q t) \<and>
        db_items (cs_db (ss_catalog s')) = db_items (cs_db (ss_catalog s)) \<and> cs_columns (ss_catalog s') = cs_columns (ss_catalog s)
    | (s', Inr d) \<Rightarrow> \<exists>x \<in> set (ss_campaigns s). cm_Name x = name \<and> cm_Enabled x \<and>
        d \<in> set (ss_days s) \<and> cd_CampaignID d = cm_ID x \<and> cd_DayNumber d = n \<and> 0 \<le> sint n \<and> sint n < sint (cm_DayCount x) \<and>
        (staff \<or> cm_StartDate x + sint n * a_day \<le> now \<or> sint n = 0 \<and> cm_StartDate x - a_day < now) \<and>
        (cm_ID x, p, n) \<notin> set (ss_doors s) \<and> ss_doors s' = ss_doors s @ [(cm_ID x, p, n)] \<and>
        (\<forall>q t. balance_of (cs_db (ss_catalog s')) q t = balance_of (cs_db (ss_catalog s)) q t +
           (if q = p then (if t = CreditsType then max 0 (cd_CreditsReward d) else 0) + (if t = cd_PointsType d then max 0 (cd_PointsReward d) else 0)
            else 0)) \<and>
        (case cd_ProductDefinitionID d of
           None \<Rightarrow> db_items (cs_db (ss_catalog s')) = db_items (cs_db (ss_catalog s)) \<and> cs_columns (ss_catalog s') = cs_columns (ss_catalog s)
         | Some defn \<Rightarrow> (let key = cs_nextItem (ss_catalog s) in
             db_items (cs_db (ss_catalog s')) = (db_items (cs_db (ss_catalog s)))
               (key \<mapsto> \<lparr>fr_ID = key, fr_DefinitionID = defn, fr_Owner = p, fr_RoomID = None, fr_Reserved = False\<rparr>) \<and>
             cs_columns (ss_catalog s') = (cs_columns (ss_catalog s))
               (key \<mapsto> \<lparr>ic_ExtraData = ''0'', ic_LimitedEditionNumber = None, ic_Gift = None\<rparr>)))"
proof (cases "OpenCalendarDoor fault0 fault1 fault2 co now p name n staff s")
  case (Pair s' res)
  show ?thesis
  proof (cases res)
    case (Inl e)
    have "s' = s \<or> s' = count_call s \<or> s' = count_call (count_call s)" using Pair Inl
      by (auto simp: OpenCalendarDoor_def FindCampaign_def FindCampaignDay_def query_def transact_def
          split: sum.splits option.splits if_splits prod.splits)
    then show ?thesis using Pair Inl by (auto simp: count_call_def)
  next
    case (Inr d)
    obtain x s1 where x: "FindCampaign fault0 name s = Inr (Some x, s1)" "door_open now x n staff"
      using Pair Inr by (auto simp: OpenCalendarDoor_def split: sum.splits option.splits if_splits prod.splits)
    obtain s2 where s2: "FindCampaignDay fault1 (cm_ID x) n s1 = Inr (Some d, s2)" "transact (claim_door fault2 co now p (cm_ID x) n d) s2 = (s', Inr ())"
      using Pair Inr x by (auto simp: OpenCalendarDoor_def split: sum.splits option.splits if_splits prod.splits)
    have f: "List.find (\<lambda>x. cm_Name x = name \<and> cm_Enabled x) (ss_campaigns s) = Some x" "s1 = count_call s"
        "List.find (\<lambda>d. cd_CampaignID d = cm_ID x \<and> cd_DayNumber d = n) (ss_days s) = Some d" "s2 = count_call s1"
      using x(1) s2(1) by (auto simp: FindCampaign_def FindCampaignDay_def count_call_def)
    have F: "x \<in> set (ss_campaigns s)" "cm_Name x = name" "cm_Enabled x" "d \<in> set (ss_days s)" "cd_CampaignID d = cm_ID x" "cd_DayNumber d = n"
      using f(1,3) by (auto simp: find_Some_iff)
    have c: "claim_door fault2 co now p (cm_ID x) n d s2 = Inr ((), s')" using s2(2) by (auto simp: transact_def split: sum.splits)
    have range: "0 \<le> sint n" "sint n < sint (cm_DayCount x)" using x(2) by (auto simp: door_open_def)
    have "staff \<or> cm_StartDate x + sint n * a_day \<le> now \<or> sint n = 0 \<and> cm_StartDate x - a_day < now"
    proof (cases staff)
      case False
      then have "door_open now x n False" using x(2) by simp
      with door_open_iff [of now x n] assms F(1) show ?thesis by blast
    qed simp
    with F range claim_door_Inr [OF c] Pair Inr f(2,4) show ?thesis
      by (auto simp: door_items_def door_columns_def new_item_def Let_def count_call_def split: option.splits intro!: bexI [of _ x])
  qed
qed

subsection \<open>Sample members\<close>

text \<open>A shop with a chair and a gift page, a player who is a member for 100 days and spends credits in two cycles.\<close>

definition gift_page :: page where "gift_page = (sample_page 2 None None)\<lparr>pg_Layout := ''club_gifts''\<rparr>"
definition club_gift :: offer where "club_gift = sample_offer\<lparr>of_ID := 20, of_PageID := 2, of_ExtraData := ''31''\<rparr>"

definition club_shop :: catalog_store where
  "club_shop = shop_store\<lparr>cs_pages := [sample_page 1 None None, gift_page], cs_offers := [sample_offer, club_gift]\<rparr>"

definition club_cache :: cache_snapshot where
  "club_cache = cache_replace (cs_pages club_shop) (cs_offers club_shop) [] []"

definition monthly :: subscription_options where
  "monthly = \<lparr>sop_PaydayInterval = 31 * a_day, sop_Kickback = (\<lambda>x. x div 2), sop_PaydayCurrencyType = -1,
     sop_BonusRareCurrencyType = 5, sop_BonusRareThreshold = 120, sop_BonusRareProductID = 0\<rparr>"

definition spending_member :: "subscription_op list" where
  "spending_member = [SSubscribe calm 0 1 LevelHC (100 * a_day),
     SPurchase calm shop_services club_cache (5 * a_day) (order_by 1 10 2), SPurchase calm shop_services club_cache (40 * a_day) (order_by 1 10 4)]"

definition gift_member :: "subscription_op list" where
  "gift_member = spending_member @ [SProcess calm calm shop_services monthly (70 * a_day) 1, SClaimGift calm shop_services club_cache (71 * a_day) 1 20]"

declare payday_loop.simps [code]

lemma gift_member_run:
  "case subscription_run gift_member (no_members club_shop) of None \<Rightarrow> False
   | Some s \<Rightarrow> (case map_of (ss_memberships s) 1 of None \<Rightarrow> False
      | Some m \<Rightarrow> mb_GiftsClaimed m = 1 \<and> mb_LifetimeActiveSeconds m = 6048000 \<and> mb_StartedAt m = Some 0)"
  by code_simp

theorem club_gifts_within_tenure_witness:
  "\<exists>s m. subscription_run gift_member (no_members club_shop) = Some s \<and> map_of (ss_memberships s) 1 = Some m \<and>
     mb_GiftsClaimed m = 1 \<and> claims_of s 1 = [0]"
proof -
  obtain s m where s: "subscription_run gift_member (no_members club_shop) = Some s" "map_of (ss_memberships s) 1 = Some m"
      "mb_GiftsClaimed m = 1" "mb_LifetimeActiveSeconds m = 6048000" "mb_StartedAt m = Some 0"
    using gift_member_run by (auto split: option.splits)
  have "countable_tenure m" by (simp add: countable_tenure_def s(4) ClubGiftPeriodSeconds_def)
  from club_gifts_within_tenure [OF s(1,2) this] s show ?thesis by simp
qed

lemma spending_member_run:
  "case subscription_run (spending_member @ [SProcess calm calm shop_services monthly (70 * a_day) 1]) (no_members club_shop) of None \<Rightarrow> False
   | Some s \<Rightarrow> (case ClaimPaydays calm shop_services (71 * a_day) 1 s of (s', Inl e) \<Rightarrow> False | (s', Inr ys) \<Rightarrow> True) \<and>
       balance_of (cs_db (ss_catalog s)) 1 (-1) = 82 \<and> sum_list (map (payout (-1)) (filter (unclaimed 1) (ss_paydays s))) = 34"
  by code_simp

theorem paydays_paid_once_witness:
  "\<exists>s s' ys. subscription_run (spending_member @ [SProcess calm calm shop_services monthly (70 * a_day) 1]) (no_members club_shop) = Some s \<and>
     ClaimPaydays calm shop_services (71 * a_day) 1 s = (s', Inr ys) \<and> balance_of (cs_db (ss_catalog s')) 1 (-1) = 82 + 34 \<and>
     filter (unclaimed 1) (ss_paydays s') = []"
proof -
  obtain s s' ys where s: "subscription_run (spending_member @ [SProcess calm calm shop_services monthly (70 * a_day) 1]) (no_members club_shop) = Some s"
      "ClaimPaydays calm shop_services (71 * a_day) 1 s = (s', Inr ys)" "balance_of (cs_db (ss_catalog s)) 1 (-1) = 82"
      "sum_list (map (payout (-1)) (filter (unclaimed 1) (ss_paydays s))) = 34"
    using spending_member_run by (auto split: option.splits prod.splits sum.splits)
  note paid = paydays_paid_once [OF s(1), where fault = calm and co = shop_services and now = "71 * a_day" and p = 1,
      unfolded s(2) prod.case sum.case]
  have "balance_of (cs_db (ss_catalog s')) 1 (-1) = balance_of (cs_db (ss_catalog s)) 1 (-1) +
      (if (1 :: ident) = 1 then sum_list (map (payout (-1)) (filter (unclaimed 1) (ss_paydays s))) else 0)"
    "filter (unclaimed 1) (ss_paydays s') = []"
    using paid by blast+
  with s show ?thesis by auto
qed

definition hc_row :: membership where
  "hc_row = fst (renewed 0 1 LevelHC (100 * a_day) None)"

definition two_purchases :: subscription_store where
  "two_purchases = (case subscription_run spending_member (no_members club_shop) of None \<Rightarrow> no_members club_shop | Some s \<Rightarrow> s)"

theorem paydays_exact_witness:
  "\<exists>m created s. recordDuePaydays calm monthly (70 * a_day) hc_row two_purchases = Some (Inr ((m, created), s)) \<and> created \<and>
     mb_LastPaydayAt m = Some (62 * a_day) \<and> sum_list (map py_CreditsSpent (ss_paydays s)) = 18"
proof -
  have op: "0 < sop_PaydayInterval monthly" "mb_LastPaydayAt hc_row = Some 0" "sop_PaydayInterval monthly = 31 * a_day"
      "accrual_end (70 * a_day) hc_row = 70 * a_day"
    by (simp_all add: monthly_def hc_row_def renewed_new accrual_end_def)
  have run: "case recordDuePaydays calm monthly (70 * a_day) hc_row two_purchases of Some (Inr _) \<Rightarrow> True | _ \<Rightarrow> False"
      "spent two_purchases (mb_PlayerID hc_row) (\<lambda>t. 0 < t \<and> t \<le> 62 * a_day) = 18" "ss_paydays two_purchases = []"
    by code_simp+
  then obtain m created s where s: "recordDuePaydays calm monthly (70 * a_day) hc_row two_purchases = Some (Inr ((m, created), s))"
    by (auto split: option.splits sum.splits)
  from paydays_exact [OF op(1,2), where fault = calm and now = "70 * a_day" and s = two_purchases] s op(3,4) run(2,3) show ?thesis
    by (auto simp: recorded_def)
qed

definition month_member :: subscription_store where
  "month_member = fst (Subscribe calm 0 1 LevelHC (30 * a_day) (no_members club_shop))"

definition month_row :: membership where
  "month_row = \<lparr>mb_PlayerID = 1, mb_Level = LevelHC, mb_StartedAt = Some 0, mb_StreakStartedAt = Some 0, mb_ExpiresAt = Some (30 * a_day),
     mb_LastPaydayAt = Some 0, mb_LastAccruedAt = Some 0, mb_LifetimeActiveSeconds = 0, mb_LifetimeVIPSeconds = 0, mb_GiftsEarned = 0,
     mb_GiftsClaimed = 0, mb_Version = 1\<rparr>"

lemma month_member_row: "map_of (ss_memberships month_member) 1 = Some month_row"
  by code_simp

theorem late_renewal_forgets_time_witness:
  "\<exists>s1 m t t1 m'. Subscribe calm (30 * a_day + second) 1 LevelHC (30 * a_day) month_member = (s1, Inr m) \<and>
     processMembership calm calm shop_services monthly (30 * a_day + second) 1 month_member = Some (t, None) \<and>
     Subscribe calm (30 * a_day + second) 1 LevelHC (30 * a_day) t = (t1, Inr m') \<and>
     mb_LifetimeActiveSeconds m = 0 \<and> mb_LifetimeActiveSeconds m' = 2592000"
proof -
  let ?now = "30 * a_day + second"
  have run: "case Subscribe calm ?now 1 LevelHC (30 * a_day) month_member of (s1, Inl e) \<Rightarrow> False | (s1, Inr m) \<Rightarrow> True"
    "case processMembership calm calm shop_services monthly ?now 1 month_member of Some (t, None) \<Rightarrow>
        (case Subscribe calm ?now 1 LevelHC (30 * a_day) t of (t1, Inl e) \<Rightarrow> False | (t1, Inr m) \<Rightarrow> True) | _ \<Rightarrow> False"
    by code_simp+
  obtain s1 m where 1: "Subscribe calm ?now 1 LevelHC (30 * a_day) month_member = (s1, Inr m)"
    using run(1) by (cases "Subscribe calm ?now 1 LevelHC (30 * a_day) month_member") (auto split: sum.splits)
  obtain t where t: "processMembership calm calm shop_services monthly ?now 1 month_member = Some (t, None)"
      "case Subscribe calm ?now 1 LevelHC (30 * a_day) t of (t1, Inl e) \<Rightarrow> False | (t1, Inr m) \<Rightarrow> True"
    using run(2) by (auto split: option.splits prod.splits)
  obtain t1 m' where 2: "Subscribe calm ?now 1 LevelHC (30 * a_day) t = (t1, Inr m')"
    using t(2) by (cases "Subscribe calm ?now 1 LevelHC (30 * a_day) t") (auto split: sum.splits)
  have row: "mb_PlayerID month_row = 1" "mb_StartedAt month_row \<noteq> None" "LevelNone < mb_Level month_row" "mb_ExpiresAt month_row = Some (30 * a_day)"
      "30 * a_day \<le> ?now" "mb_LastAccruedAt month_row = Some 0" "0 \<le> 30 * a_day" "mb_LifetimeActiveSeconds month_row = 0"
    by (simp_all add: month_row_def LevelHC_def LevelNone_def)
  from late_renewal_forgets_time [OF month_member_row row(1-7) 1 t(1) 2] row(8)
  have "mb_LifetimeActiveSeconds m = 0 \<and> mb_LifetimeActiveSeconds m' = 2592000" by simp
  with 1 t(1) 2 show ?thesis by blast
qed

theorem revoked_time_counts_witness:
  "\<exists>s1 s2 m1 m2. Revoke calm (10 * a_day) 1 month_member = (s1, None) \<and> Revoke calm (41 * a_day) 1 s1 = (s2, None) \<and>
     map_of (ss_memberships s1) 1 = Some m1 \<and> map_of (ss_memberships s2) 1 = Some m2 \<and>
     mb_LifetimeActiveSeconds m2 = mb_LifetimeActiveSeconds m1 + 2678400"
proof -
  have run: "case Revoke calm (10 * a_day) 1 month_member of (s1, e) \<Rightarrow> e = None \<and> snd (Revoke calm (41 * a_day) 1 s1) = None"
    by code_simp
  obtain s1 s2 where r: "Revoke calm (10 * a_day) 1 month_member = (s1, None)" "Revoke calm (41 * a_day) 1 s1 = (s2, None)"
  proof -
    obtain s1 e where e: "Revoke calm (10 * a_day) 1 month_member = (s1, e)" by (rule prod.exhaust)
    obtain s2 e2 where e2: "Revoke calm (41 * a_day) 1 s1 = (s2, e2)" by (rule prod.exhaust)
    show thesis using that [of s1 s2] run e e2 by simp
  qed
  have "mb_PlayerID month_row = 1" "10 * a_day \<le> 41 * a_day" "accrual_end (10 * a_day) month_row = 10 * a_day"
    by (simp_all add: month_row_def accrual_end_def)
  with revoked_time_counts [OF month_member_row _ r] r show ?thesis by fastforce
qed

text \<open>A calendar that starts on day 100, whose first door holds five credits and a chair, and an offer for eight credits and no points.\<close>

definition advent :: subscription_store where
  "advent = (no_members club_shop)\<lparr>
     ss_campaigns := [\<lparr>cm_ID = 1, cm_Name = ''advent'', cm_Image = [], cm_StartDate = 100 * a_day, cm_DayCount = 24, cm_Enabled = True\<rparr>],
     ss_days := [\<lparr>cd_CampaignID = 1, cd_DayNumber = 0, cd_ProductDefinitionID = Some 7, cd_CustomImage = [], cd_CreditsReward = 5,
       cd_PointsReward = 0, cd_PointsType = -1\<rparr>],
     ss_targeted := [\<lparr>tg_ID = 1, tg_CatalogItemID = 10, tg_PriceCredits = 8, tg_PricePoints = 0, tg_PointsType = -1, tg_PurchaseLimit = 3,
       tg_TitleKey = ''t'', tg_DescriptionKey = ''d'', tg_ImageURL = ''i'', tg_IconURL = ''i'', tg_ExpiresAt = Some (200 * a_day),
       tg_OrderNum = 0, tg_Enabled = True, tg_PurchasesCount = 0, tg_Dismissed = False\<rparr>]\<rparr>"

theorem calendar_door_opens_once_witness:
  "\<exists>s' d. OpenCalendarDoor calm calm calm shop_services (100 * a_day - 3600 * second) 1 ''advent'' 0 False advent = (s', Inr d) \<and>
     ss_doors s' = [(1, 1, 0)] \<and> balance_of (cs_db (ss_catalog s')) 1 (-1) = 105 \<and>
     map_option fr_DefinitionID (db_items (cs_db (ss_catalog s')) 1) = Some 7"
proof -
  let ?now = "100 * a_day - 3600 * second"
  have near: "\<forall>x \<in> set (ss_campaigns advent). \<bar>?now - cm_StartDate x\<bar> < 2 ^ 31 * a_day" by (simp add: advent_def)
  have run: "case OpenCalendarDoor calm calm calm shop_services ?now 1 ''advent'' 0 False advent of (s', Inl e) \<Rightarrow> False
      | (s', Inr d) \<Rightarrow> cd_CampaignID d = 1 \<and> cd_CreditsReward d = 5 \<and> cd_PointsReward d = 0 \<and> cd_ProductDefinitionID d = Some 7"
    "balance_of (cs_db (ss_catalog advent)) 1 (-1) = 100" "ss_doors advent = []" "cs_nextItem (ss_catalog advent) = 1"
    by code_simp+
  obtain s' d where o: "OpenCalendarDoor calm calm calm shop_services ?now 1 ''advent'' 0 False advent = (s', Inr d)"
      "cd_CampaignID d = 1" "cd_CreditsReward d = 5" "cd_PointsReward d = 0" "cd_ProductDefinitionID d = Some 7"
    using run(1) by (cases "OpenCalendarDoor calm calm calm shop_services ?now 1 ''advent'' 0 False advent") (auto split: sum.splits)
  from calendar_door_opens_once [OF near, where ?fault0.0 = calm and ?fault1.0 = calm and ?fault2.0 = calm and co = shop_services and p = 1
      and name = "''advent''" and n = 0 and staff = False, unfolded o(1) prod.case sum.case]
  have "ss_doors s' = ss_doors advent @ [(1, 1, 0)] \<and> balance_of (cs_db (ss_catalog s')) 1 (-1) = balance_of (cs_db (ss_catalog advent)) 1 (-1) + 5 \<and>
      map_option fr_DefinitionID (db_items (cs_db (ss_catalog s')) (cs_nextItem (ss_catalog advent))) = Some 7"
    using o(2-5) by (auto simp: CreditsType_def Let_def)
  with o(1) run(2-4) show ?thesis by simp
qed

lemma credits_offer_is_free:
  "case PurchaseTargetedOffer calm calm shop_services club_cache (100 * a_day) 1 1 2 advent of (s', Inl e) \<Rightarrow> False
   | (s', Inr r) \<Rightarrow> length (px_GrantedItems r) = 2 \<and> px_ChargedCredits r = 0 \<and> balance_of (cs_db (ss_catalog s')) 1 (-1) = 100"
  by code_simp

end
