(* ===== verification/Trade.thy ===== *)
theory Trade
  imports Economy
begin

text \<open>
  Direct trading (\<^verbatim>\<open>internal/realm/trade\<close>): live sessions and the registry of \<^verbatim>\<open>runtime\<close>, the offers and the
  settlement of \<^verbatim>\<open>core\<close>. Sessions are shared between the registry and the goroutines that found them, so
  they live at addresses; an operation that holds a session may run after it was removed.
\<close>

subsection \<open>Sessions\<close>

record participant =
  pt_PlayerID :: ident
  pt_UnitID :: int
  pt_Username :: string
  pt_IP :: string
  pt_Items :: "ident list"
  pt_Accepted :: bool
  pt_Confirmed :: bool

record session =
  sn_RoomID :: ident
  sn_First :: participant
  sn_Second :: participant
  sn_settling :: bool
  sn_closed :: bool

definition session_Participant :: "session \<Rightarrow> ident \<Rightarrow> participant option" where
  "session_Participant s p =
     (if pt_PlayerID (sn_First s) = p then Some (sn_First s)
      else if pt_PlayerID (sn_Second s) = p then Some (sn_Second s) else None)"

definition session_Other :: "session \<Rightarrow> ident \<Rightarrow> participant option" where
  "session_Other s p =
     (if pt_PlayerID (sn_First s) = p then Some (sn_Second s)
      else if pt_PlayerID (sn_Second s) = p then Some (sn_First s) else None)"

text \<open>Updates through the pointers that \<^verbatim>\<open>mutable\<close> and \<^verbatim>\<open>otherMutable\<close> return.\<close>

definition mutable :: "ident \<Rightarrow> (participant \<Rightarrow> participant) \<Rightarrow> session \<Rightarrow> session option" where
  "mutable p f s =
     (if pt_PlayerID (sn_First s) = p then Some (s\<lparr>sn_First := f (sn_First s)\<rparr>)
      else if pt_PlayerID (sn_Second s) = p then Some (s\<lparr>sn_Second := f (sn_Second s)\<rparr>) else None)"

definition otherMutable :: "ident \<Rightarrow> (participant \<Rightarrow> participant) \<Rightarrow> session \<Rightarrow> session option" where
  "otherMutable p f s =
     (if pt_PlayerID (sn_First s) = p then Some (s\<lparr>sn_Second := f (sn_Second s)\<rparr>)
      else if pt_PlayerID (sn_Second s) = p then Some (s\<lparr>sn_First := f (sn_First s)\<rparr>) else None)"

definition SetIP :: "ident \<Rightarrow> string \<Rightarrow> session \<Rightarrow> session \<times> bool" where
  "SetIP p ip s = (case mutable p (\<lambda>t. t\<lparr>pt_IP := ip\<rparr>) s of None \<Rightarrow> (s, False) | Some s' \<Rightarrow> (s', True))"

definition session_reset :: "session \<Rightarrow> session" where
  "session_reset s = s\<lparr>sn_First := (sn_First s)\<lparr>pt_Accepted := False, pt_Confirmed := False\<rparr>,
     sn_Second := (sn_Second s)\<lparr>pt_Accepted := False, pt_Confirmed := False\<rparr>, sn_settling := False\<rparr>"

definition AddItems :: "ident \<Rightarrow> ident list \<Rightarrow> session \<Rightarrow> session \<times> bool" where
  "AddItems p ids s = (case session_Participant s p of
     None \<Rightarrow> (s, False)
   | Some t \<Rightarrow>
       if sn_closed s \<or> sn_settling s \<or> ids = [] then (s, False)
       else if list_ex (\<lambda>k. ids ! k \<in> set (pt_Items t) \<or> ids ! k \<in> set (take k ids)) [0..<length ids]
       then (s, False)
       else (case mutable p (\<lambda>t. t\<lparr>pt_Items := pt_Items t @ ids\<rparr>) s of
           None \<Rightarrow> (s, False) | Some s' \<Rightarrow> (session_reset s', True)))"

definition AddItem :: "ident \<Rightarrow> ident \<Rightarrow> session \<Rightarrow> session \<times> bool" where
  "AddItem p i s = AddItems p [i] s"

definition RemoveItem :: "ident \<Rightarrow> ident \<Rightarrow> session \<Rightarrow> session \<times> bool" where
  "RemoveItem p i s = (case session_Participant s p of
     None \<Rightarrow> (s, False)
   | Some t \<Rightarrow>
       if sn_closed s \<or> sn_settling s \<or> i \<notin> set (pt_Items t) then (s, False)
       else (case mutable p (\<lambda>t. t\<lparr>pt_Items := remove1 i (pt_Items t)\<rparr>) s of
           None \<Rightarrow> (s, False) | Some s' \<Rightarrow> (session_reset s', True)))"

definition SetAccepted :: "ident \<Rightarrow> bool \<Rightarrow> session \<Rightarrow> session \<times> bool \<times> bool" where
  "SetAccepted p accepted s =
     (if sn_closed s \<or> sn_settling s then (s, False, False)
      else (case mutable p (\<lambda>t. t\<lparr>pt_Accepted := accepted, pt_Confirmed := False\<rparr>) s of
          None \<Rightarrow> (s, False, False)
        | Some s1 \<Rightarrow>
            (let s2 = (if accepted then s1
                 else (case otherMutable p (\<lambda>t. t\<lparr>pt_Confirmed := False\<rparr>) s1 of None \<Rightarrow> s1 | Some s2 \<Rightarrow> s2))
             in (s2, pt_Accepted (sn_First s2) \<and> pt_Accepted (sn_Second s2), True))))"

definition session_Confirm :: "ident \<Rightarrow> session \<Rightarrow> session \<times> bool \<times> bool" where
  "session_Confirm p s =
     (if session_Participant s p = None \<or> sn_closed s \<or> \<not> pt_Accepted (sn_First s) \<or> \<not> pt_Accepted (sn_Second s)
      then (s, False, False)
      else (case mutable p (\<lambda>t. t\<lparr>pt_Confirmed := True\<rparr>) s of
          None \<Rightarrow> (s, False, False)
        | Some s1 \<Rightarrow>
            if \<not> (pt_Confirmed (sn_First s1) \<and> pt_Confirmed (sn_Second s1)) \<or> sn_settling s1
            then (s1, False, True)
            else (s1\<lparr>sn_settling := True\<rparr>, True, True)))"

definition TryCancel :: "session \<Rightarrow> session \<times> bool" where
  "TryCancel s = (if sn_closed s \<or> sn_settling s then (s, False) else (s\<lparr>sn_closed := True\<rparr>, True))"

definition CompleteSettlement :: "session \<Rightarrow> session" where
  "CompleteSettlement s = s\<lparr>sn_closed := True, sn_settling := False\<rparr>"

definition FailSettlement :: "session \<Rightarrow> session" where
  "FailSettlement s = s\<lparr>sn_First := (sn_First s)\<lparr>pt_Confirmed := False\<rparr>,
     sn_Second := (sn_Second s)\<lparr>pt_Confirmed := False\<rparr>, sn_settling := False\<rparr>"

subsection \<open>The registry\<close>

text \<open>\<open>rg_staged\<close> reads 0 for an absent key, as a Go map of integers does.\<close>

record registry =
  rg_sessions :: "nat \<Rightarrow> session"
  rg_next :: nat
  rg_byPlayer :: "ident \<rightharpoonup> nat"
  rg_staged :: "ident \<Rightarrow> ident"

definition no_session :: session where
  "no_session = \<lparr>sn_RoomID = 0,
     sn_First = \<lparr>pt_PlayerID = 0, pt_UnitID = 0, pt_Username = [], pt_IP = [], pt_Items = [], pt_Accepted = False, pt_Confirmed = False\<rparr>,
     sn_Second = \<lparr>pt_PlayerID = 0, pt_UnitID = 0, pt_Username = [], pt_IP = [], pt_Items = [], pt_Accepted = False, pt_Confirmed = False\<rparr>,
     sn_settling = False, sn_closed = False\<rparr>"

definition NewRegistry :: registry where
  "NewRegistry = \<lparr>rg_sessions = (\<lambda>_. no_session), rg_next = 0, rg_byPlayer = Map.empty, rg_staged = (\<lambda>_. 0)\<rparr>"

definition session_at :: "registry \<Rightarrow> nat \<Rightarrow> session" where
  "session_at r a = rg_sessions r a"

definition put_session :: "nat \<Rightarrow> session \<Rightarrow> registry \<Rightarrow> registry" where
  "put_session a s r = r\<lparr>rg_sessions := (rg_sessions r)(a := s)\<rparr>"

text \<open>The caller allocates the session; it is garbage when the registry refuses it.\<close>

definition registry_Start :: "session \<Rightarrow> registry \<Rightarrow> registry \<times> bool" where
  "registry_Start s r =
     (let p = pt_PlayerID (sn_First s); q = pt_PlayerID (sn_Second s) in
      if p \<le> 0 \<or> q \<le> 0 \<or> p = q then (r, False)
      else if rg_byPlayer r p \<noteq> None \<or> rg_byPlayer r q \<noteq> None then (r, False)
      else (r\<lparr>rg_sessions := (rg_sessions r)(rg_next r := s), rg_next := Suc (rg_next r),
              rg_byPlayer := (rg_byPlayer r)(p \<mapsto> rg_next r, q \<mapsto> rg_next r)\<rparr>, True))"

definition registry_Find :: "ident \<Rightarrow> registry \<Rightarrow> nat option" where
  "registry_Find p r = rg_byPlayer r p"

definition StageMany :: "ident \<Rightarrow> ident list \<Rightarrow> registry \<Rightarrow> registry \<times> bool" where
  "StageMany p ids r = (case rg_byPlayer r p of
     None \<Rightarrow> (r, False)
   | Some a \<Rightarrow>
       if ids = [] then (r, False)
       else if list_ex (\<lambda>i. rg_staged r i \<noteq> 0) ids then (r, False)
       else (case AddItems p ids (session_at r a) of
           (s, False) \<Rightarrow> (put_session a s r, False)
         | (s, True) \<Rightarrow>
             (put_session a s r\<lparr>rg_staged := fold (\<lambda>i m. m(i := p)) ids (rg_staged r)\<rparr>, True)))"

definition Stage :: "ident \<Rightarrow> ident \<Rightarrow> registry \<Rightarrow> registry \<times> bool" where
  "Stage p i r = StageMany p [i] r"

definition Unstage :: "ident \<Rightarrow> ident \<Rightarrow> registry \<Rightarrow> registry \<times> bool" where
  "Unstage p i r = (case rg_byPlayer r p of
     None \<Rightarrow> (r, False)
   | Some a \<Rightarrow>
       if rg_staged r i \<noteq> p then (r, False)
       else (case RemoveItem p i (session_at r a) of
           (s, False) \<Rightarrow> (put_session a s r, False)
         | (s, True) \<Rightarrow> (put_session a s r\<lparr>rg_staged := (rg_staged r)(i := 0)\<rparr>, True)))"

definition Contains :: "registry \<Rightarrow> ident \<Rightarrow> bool" where
  "Contains r i \<longleftrightarrow> rg_staged r i \<noteq> 0"

definition registry_remove :: "nat \<Rightarrow> registry \<Rightarrow> registry" where
  "registry_remove a r =
     (let s = session_at r a;
          drop_all = fold (\<lambda>i m. m(i := 0))
      in r\<lparr>rg_byPlayer := (rg_byPlayer r)(pt_PlayerID (sn_First s) := None, pt_PlayerID (sn_Second s) := None),
           rg_staged := drop_all (pt_Items (sn_Second s)) (drop_all (pt_Items (sn_First s)) (rg_staged r))\<rparr>)"

definition registry_Close :: "ident \<Rightarrow> registry \<Rightarrow> registry \<times> nat option" where
  "registry_Close p r = (case rg_byPlayer r p of
     None \<Rightarrow> (r, None)
   | Some a \<Rightarrow> (case TryCancel (session_at r a) of
       (s, False) \<Rightarrow> (put_session a s r, None)
     | (s, True) \<Rightarrow> (registry_remove a (put_session a s r), Some a)))"

definition registry_Complete :: "ident \<Rightarrow> registry \<Rightarrow> registry \<times> nat option" where
  "registry_Complete p r = (case rg_byPlayer r p of
     None \<Rightarrow> (r, None)
   | Some a \<Rightarrow> (registry_remove a (put_session a (CompleteSettlement (session_at r a)) r), Some a))"

subsection \<open>Offers and agreement\<close>

definition MaximumItems_ok :: "int \<Rightarrow> participant \<Rightarrow> ident list \<Rightarrow> bool" where
  "MaximumItems_ok maximum t ids \<longleftrightarrow> int (length (pt_Items t)) + int (length ids) \<le> maximum"

fun check_offer :: "(nat \<Rightarrow> bool) \<Rightarrow> ident \<Rightarrow> ident list \<Rightarrow> unit tx" where
  "check_offer fault p [] = ret ()"
| "check_offer fault p (i # is) =
     and_then (FindItemByID fault i) (\<lambda>found.
       case found of None \<Rightarrow> fail ErrItemUnavailable
       | Some r \<Rightarrow>
           if \<not> available p r then fail ErrItemUnavailable
           else and_then (FindDefinitionByID fault (fr_DefinitionID r)) (\<lambda>kind.
             case kind of None \<Rightarrow> fail ErrItemUnavailable
             | Some k \<Rightarrow> if \<not> fk_AllowTrade k then fail ErrItemUnavailable else check_offer fault p is))"

text \<open>The reads of an offer see the store \<open>d\<close>; the result is the registry and an error.\<close>

definition Offer ::
  "(nat \<Rightarrow> bool) \<Rightarrow> int \<Rightarrow> db \<Rightarrow> ident \<Rightarrow> ident list \<Rightarrow> registry \<Rightarrow> registry \<times> economy_error option" where
  "Offer fault maximum d p ids r = (case registry_Find p r of
     None \<Rightarrow> (r, Some ErrUnavailable)
   | Some a \<Rightarrow>
       (let t = (case session_Participant (session_at r a) p of None \<Rightarrow> sn_First no_session | Some t \<Rightarrow> t) in
        if \<not> MaximumItems_ok maximum t ids then (r, Some ErrMaximumItems)
        else (case check_offer fault p ids d of
            Inl e \<Rightarrow> (r, Some e)
          | Inr _ \<Rightarrow> (case StageMany p ids r of
              (r', True) \<Rightarrow> (r', None) | (r', False) \<Rightarrow> (r', Some ErrItemUnavailable)))))"

definition trade_Remove :: "ident \<Rightarrow> ident \<Rightarrow> registry \<Rightarrow> registry \<times> economy_error option" where
  "trade_Remove p i r = (case registry_Find p r of
     None \<Rightarrow> (r, Some ErrUnavailable)
   | Some a \<Rightarrow> (case session_Participant (session_at r a) p of
       None \<Rightarrow> (r, Some ErrUnavailable)
     | Some t \<Rightarrow>
         if pt_Accepted t then (r, Some ErrAccepted)
         else (case Unstage p i r of (r', True) \<Rightarrow> (r', None) | (r', False) \<Rightarrow> (r', Some ErrItemUnavailable))))"

definition trade_Accept :: "ident \<Rightarrow> bool \<Rightarrow> registry \<Rightarrow> registry \<times> (economy_error + bool)" where
  "trade_Accept p accepted r = (case registry_Find p r of
     None \<Rightarrow> (r, Inl ErrUnavailable)
   | Some a \<Rightarrow> (case SetAccepted p accepted (session_at r a) of
       (s, both, updated) \<Rightarrow>
         (put_session a s r, if updated then Inr both else Inl ErrUnavailable)))"

subsection \<open>Settlement\<close>

definition creditsType :: int where "creditsType = -1"

type_synonym settlement_item = "furniture_row \<times> furniture_kind"

fun validate_items :: "(nat \<Rightarrow> bool) \<Rightarrow> ident \<Rightarrow> ident list \<Rightarrow> (settlement_item list \<times> int) tx" where
  "validate_items fault p [] = ret ([], 0)"
| "validate_items fault p (i # is) =
     and_then (FindItemByID fault i) (\<lambda>found.
       case found of None \<Rightarrow> fail ErrItemUnavailable
       | Some r \<Rightarrow>
           if \<not> available p r then fail ErrItemUnavailable
           else and_then (FindDefinitionByID fault (fr_DefinitionID r)) (\<lambda>kind.
             case kind of None \<Rightarrow> fail ErrItemUnavailable
             | Some k \<Rightarrow>
                 if \<not> fk_AllowTrade k then fail ErrItemUnavailable
                 else and_then (validate_items fault p is) (\<lambda>(items, credits).
                   ret ((r, k) # items, fk_RedeemableCredits k + credits))))"

definition validateOffer :: "(nat \<Rightarrow> bool) \<Rightarrow> participant \<Rightarrow> (settlement_item list \<times> int) tx" where
  "validateOffer fault t = validate_items fault (pt_PlayerID t) (pt_Items t)"

fun transfer :: "(nat \<Rightarrow> bool) \<Rightarrow> settlement_item list \<Rightarrow> ident \<Rightarrow> ident \<Rightarrow> unit tx" where
  "transfer fault [] src dst = ret ()"
| "transfer fault ((r, k) # items) src dst =
     and_then (if fk_RedeemableCredits k > 0 then DeleteInventoryItem fault (fr_ID r) src
       else TransferInventoryItem fault (fr_ID r) src dst) (\<lambda>_. transfer fault items src dst)"

definition InsertAudit :: "(nat \<Rightarrow> bool) \<Rightarrow> trade_audit \<Rightarrow> unit tx" where
  "InsertAudit fault a = statement fault (\<lambda>d. ((), d\<lparr>db_audits := db_audits d @ [a]\<rparr>))"

definition grant_credits ::
  "(nat \<Rightarrow> bool) \<Rightarrow> catalog \<Rightarrow> checker option \<Rightarrow> ident \<Rightarrow> int \<Rightarrow> unit tx" where
  "grant_credits fault types permissions p credits =
     (if credits > 0
      then and_then (Grant fault types permissions p creditsType credits ''trade_redeemable'' ActorPlayer) (\<lambda>_. ret ())
      else ret ())"

definition settle ::
  "(nat \<Rightarrow> bool) \<Rightarrow> catalog \<Rightarrow> checker option \<Rightarrow> bool \<Rightarrow> session \<Rightarrow> unit tx" where
  "settle fault types permissions audit s =
     (let first = sn_First s; second = sn_Second s; p = pt_PlayerID first; q = pt_PlayerID second in
      and_then (validateOffer fault first) (\<lambda>(firstItems, firstCredits).
      and_then (validateOffer fault second) (\<lambda>(secondItems, secondCredits).
      and_then (transfer fault firstItems p q) (\<lambda>_.
      and_then (transfer fault secondItems q p) (\<lambda>_.
      and_then (grant_credits fault types permissions q firstCredits) (\<lambda>_.
      and_then (grant_credits fault types permissions p secondCredits) (\<lambda>_.
        if \<not> audit then ret ()
        else InsertAudit fault \<lparr>ta_RoomID = sn_RoomID s, ta_FirstPlayerID = p, ta_SecondPlayerID = q,
          ta_FirstIP = pt_IP first, ta_SecondIP = pt_IP second, ta_FirstItemIDs = pt_Items first,
          ta_SecondItemIDs = pt_Items second, ta_FirstCredits = firstCredits,
          ta_SecondCredits = secondCredits\<rparr>)))))))"

subsection \<open>The live trades as a transition system\<close>

text \<open>What the goroutines do to the registry, in any order. \<open>TAccept\<close> and \<open>TConfirm\<close> hold a session that they
  found before, which may be gone by now. The goroutine whose \<open>TConfirm\<close> set \<open>sn_settling\<close> runs the
  settlement and ends it with \<open>TCommit\<close>, or with \<open>TAbort\<close> followed by \<open>TClose\<close>.\<close>

datatype trade_op =
    TStart session | TStage ident "ident list" | TUnstage ident ident | TAccept nat ident bool
  | TConfirm nat ident | TClose ident | TCommit nat | TAbort nat | TSetIP nat ident string

definition fresh_participant :: "participant \<Rightarrow> bool" where
  "fresh_participant t \<longleftrightarrow> pt_Items t = [] \<and> \<not> pt_Accepted t \<and> \<not> pt_Confirmed t"

definition fresh_session :: "session \<Rightarrow> bool" where
  "fresh_session s \<longleftrightarrow> fresh_participant (sn_First s) \<and> fresh_participant (sn_Second s) \<and>
     \<not> sn_settling s \<and> \<not> sn_closed s"

inductive trade_step :: "registry \<Rightarrow> trade_op \<Rightarrow> registry \<Rightarrow> bool" where
  start: "fresh_session s \<Longrightarrow> trade_step r (TStart s) (fst (registry_Start s r))"
| stage: "trade_step r (TStage p ids) (fst (StageMany p ids r))"
| unstage: "trade_step r (TUnstage p i) (fst (Unstage p i r))"
| accept: "a < rg_next r \<Longrightarrow> trade_step r (TAccept a p b) (put_session a (fst (SetAccepted p b (session_at r a))) r)"
| confirm: "a < rg_next r \<Longrightarrow> trade_step r (TConfirm a p) (put_session a (fst (session_Confirm p (session_at r a))) r)"
| set_ip: "a < rg_next r \<Longrightarrow> trade_step r (TSetIP a p ip) (put_session a (fst (SetIP p ip (session_at r a))) r)"
| close: "trade_step r (TClose p) (fst (registry_Close p r))"
| commit: "a < rg_next r \<Longrightarrow> sn_settling (session_at r a) \<Longrightarrow>
    trade_step r (TCommit a) (fst (registry_Complete (pt_PlayerID (sn_First (session_at r a))) r))"
| abort: "a < rg_next r \<Longrightarrow> sn_settling (session_at r a) \<Longrightarrow>
    trade_step r (TAbort a) (put_session a (FailSettlement (session_at r a)) r)"

inductive_cases trade_stepE: "trade_step r op r'"

inductive trade_reachable :: "registry \<Rightarrow> bool" where
  init: "trade_reachable NewRegistry"
| step: "trade_reachable r \<Longrightarrow> trade_step r op r' \<Longrightarrow> trade_reachable r'"

definition offer_of :: "registry \<Rightarrow> ident \<Rightarrow> ident list" where
  "offer_of r q = (case rg_byPlayer r q of None \<Rightarrow> []
     | Some a \<Rightarrow> (case session_Participant (session_at r a) q of None \<Rightarrow> [] | Some t \<Rightarrow> pt_Items t))"

definition members :: "session \<Rightarrow> ident set" where
  "members s = {pt_PlayerID (sn_First s), pt_PlayerID (sn_Second s)}"

definition session_inv :: "session \<Rightarrow> bool" where
  "session_inv s \<longleftrightarrow> (pt_Confirmed (sn_First s) \<or> pt_Confirmed (sn_Second s) \<longrightarrow>
       pt_Accepted (sn_First s) \<and> pt_Accepted (sn_Second s)) \<and>
     (sn_settling s \<longrightarrow> \<not> sn_closed s \<and> pt_Confirmed (sn_First s) \<and> pt_Confirmed (sn_Second s)) \<and>
     pt_PlayerID (sn_First s) \<noteq> pt_PlayerID (sn_Second s)"

definition live_ok :: "registry \<Rightarrow> bool" where
  "live_ok r \<longleftrightarrow> (\<forall>q a. rg_byPlayer r q = Some a \<longrightarrow>
     a < rg_next r \<and> 0 < q \<and> q \<in> members (session_at r a) \<and> \<not> sn_closed (session_at r a))"

definition heap_ok :: "registry \<Rightarrow> bool" where
  "heap_ok r \<longleftrightarrow> (\<forall>a<rg_next r. session_inv (session_at r a) \<and>
     (\<not> sn_closed (session_at r a) \<longrightarrow> (\<forall>p\<in>members (session_at r a). rg_byPlayer r p = Some a)))"

definition staged_ok :: "registry \<Rightarrow> bool" where
  "staged_ok r \<longleftrightarrow> (\<forall>q. distinct (offer_of r q) \<and>
     (q \<noteq> 0 \<longrightarrow> (\<forall>i. rg_staged r i = q \<longleftrightarrow> i \<in> set (offer_of r q))))"

definition trade_inv :: "registry \<Rightarrow> bool" where
  "trade_inv r \<longleftrightarrow> live_ok r \<and> heap_ok r \<and> staged_ok r"

lemma session_at_put [simp]: "session_at (put_session a s r) b = (if b = a then s else session_at r b)"
  "rg_next (put_session a s r) = rg_next r" "rg_byPlayer (put_session a s r) = rg_byPlayer r"
  "rg_staged (put_session a s r) = rg_staged r"
  by (simp_all add: put_session_def session_at_def)

lemma put_same [simp]: "put_session a (session_at r a) r = r"
  by (simp add: put_session_def session_at_def)

text \<open>A change of a session that keeps its members and what they offer.\<close>

definition same_offers :: "session \<Rightarrow> session \<Rightarrow> bool" where
  "same_offers s s' \<longleftrightarrow> pt_PlayerID (sn_First s') = pt_PlayerID (sn_First s) \<and>
     pt_PlayerID (sn_Second s') = pt_PlayerID (sn_Second s) \<and>
     pt_Items (sn_First s') = pt_Items (sn_First s) \<and> pt_Items (sn_Second s') = pt_Items (sn_Second s)"

lemma same_offers_offer_of:
  "same_offers (session_at r a) s \<Longrightarrow> offer_of (put_session a s r) = offer_of r"
  by (auto simp: offer_of_def same_offers_def session_Participant_def split: option.splits)

lemma flags_inv:
  assumes "trade_inv r" and "a < rg_next r" and "same_offers (session_at r a) s"
    and "session_inv s" and "sn_closed s = sn_closed (session_at r a)"
  shows "trade_inv (put_session a s r)"
proof -
  have m: "members s = members (session_at r a)" using assms(3) by (simp add: members_def same_offers_def)
  have "staged_ok (put_session a s r)"
    using assms(1) by (simp add: trade_inv_def staged_ok_def same_offers_offer_of [OF assms(3)])
  moreover have "live_ok (put_session a s r)"
    using assms(1,5) m by (simp add: trade_inv_def live_ok_def)
  moreover have "heap_ok (put_session a s r)"
    using assms(1,4,5) m by (simp add: trade_inv_def heap_ok_def)
  ultimately show ?thesis by (simp add: trade_inv_def)
qed

lemma SetAccepted_effect:
  assumes "session_inv s"
  shows "same_offers s (fst (SetAccepted p b s)) \<and> session_inv (fst (SetAccepted p b s)) \<and>
    sn_closed (fst (SetAccepted p b s)) = sn_closed s \<and> sn_settling (fst (SetAccepted p b s)) = sn_settling s \<and>
    (sn_settling s \<longrightarrow> fst (SetAccepted p b s) = s)"
  using assms
  by (auto simp: SetAccepted_def mutable_def otherMutable_def same_offers_def session_inv_def Let_def
      split: option.splits if_splits)

lemma SetIP_effect:
  assumes "session_inv s"
  shows "same_offers s (fst (SetIP p ip s)) \<and> session_inv (fst (SetIP p ip s)) \<and>
    sn_closed (fst (SetIP p ip s)) = sn_closed s \<and> sn_settling (fst (SetIP p ip s)) = sn_settling s"
  using assms by (auto simp: SetIP_def mutable_def same_offers_def session_inv_def split: option.splits if_splits)

lemma Confirm_effect:
  assumes "session_inv s"
  shows "same_offers s (fst (session_Confirm p s)) \<and> session_inv (fst (session_Confirm p s)) \<and>
    sn_closed (fst (session_Confirm p s)) = sn_closed s \<and>
    (sn_closed s \<longrightarrow> fst (session_Confirm p s) = s) \<and>
    (sn_settling s \<longrightarrow> fst (session_Confirm p s) = s)"
  using assms
  by (auto simp: session_Confirm_def mutable_def same_offers_def session_inv_def session_Participant_def Let_def
      split: option.splits if_splits)

lemma byPlayer_member:
  assumes "trade_inv r" and "rg_byPlayer r p = Some a"
  shows "a < rg_next r" "0 < p" "p \<in> members (session_at r a)" "\<not> sn_closed (session_at r a)"
    "session_inv (session_at r a)" "\<And>q. q \<in> members (session_at r a) \<Longrightarrow> rg_byPlayer r q = Some a"
proof -
  show live: "a < rg_next r" "0 < p" "p \<in> members (session_at r a)" "\<not> sn_closed (session_at r a)"
    using assms unfolding trade_inv_def live_ok_def by blast+
  then show "session_inv (session_at r a)" "\<And>q. q \<in> members (session_at r a) \<Longrightarrow> rg_byPlayer r q = Some a"
    using assms(1) unfolding trade_inv_def heap_ok_def by blast+
qed

text \<open>The item list of one side replaced and the agreement reset.\<close>

definition with_items :: "ident \<Rightarrow> ident list \<Rightarrow> session \<Rightarrow> session" where
  "with_items p xs s = session_reset
     (if pt_PlayerID (sn_First s) = p then s\<lparr>sn_First := (sn_First s)\<lparr>pt_Items := xs\<rparr>\<rparr>
      else s\<lparr>sn_Second := (sn_Second s)\<lparr>pt_Items := xs\<rparr>\<rparr>)"

lemma with_items_inv: "session_inv s \<Longrightarrow> session_inv (with_items p xs s)"
  and with_items_members [simp]: "members (with_items p xs s) = members s"
  and with_items_closed [simp]: "sn_closed (with_items p xs s) = sn_closed s"
  by (simp_all add: session_inv_def with_items_def session_reset_def members_def)

lemma offer_with_items:
  assumes "trade_inv r" and "rg_byPlayer r p = Some a"
  shows "offer_of (put_session a (with_items p xs (session_at r a)) r) q = (if q = p then xs else offer_of r q)"
proof (cases "rg_byPlayer r q = Some a")
  case True
  then show ?thesis
    using byPlayer_member(3) [OF assms(1) True] byPlayer_member(3,5) [OF assms]
    by (auto simp: offer_of_def with_items_def session_reset_def session_Participant_def members_def session_inv_def)
next
  case False
  with assms(2) show ?thesis by (auto simp: offer_of_def split: option.splits)
qed

lemma AddItems_effect:
  assumes "trade_inv r" and "rg_byPlayer r p = Some a" and "s = session_at r a"
  shows "AddItems p ids s = (s, False) \<or>
    (AddItems p ids s = (with_items p (offer_of r p @ ids) s, True) \<and> distinct ids \<and>
      set ids \<inter> set (offer_of r p) = {} \<and> \<not> sn_settling s)"
proof -
  have p: "p \<in> members s" using byPlayer_member(3) [OF assms(1,2)] assms(3) by simp
  have "distinct ids" if "\<not> list_ex (\<lambda>k. ids ! k \<in> X \<or> ids ! k \<in> set (take k ids)) [0..<length ids]" for X
    using that by (auto simp: list_ex_iff distinct_conv_nth in_set_conv_nth Ball_def nat_neq_iff) metis+
  moreover have "set ids \<inter> X = {}" if "\<not> list_ex (\<lambda>k. ids ! k \<in> X \<or> ids ! k \<in> set (take k ids)) [0..<length ids]" for X
    using that by (auto simp: list_ex_iff in_set_conv_nth)
  ultimately show ?thesis
    using p assms(2,3)
    by (auto simp: AddItems_def session_Participant_def mutable_def with_items_def offer_of_def members_def)
qed

lemma RemoveItem_effect:
  assumes "trade_inv r" and "rg_byPlayer r p = Some a" and "s = session_at r a"
  shows "RemoveItem p i s = (s, False) \<or>
    (RemoveItem p i s = (with_items p (remove1 i (offer_of r p)) s, True) \<and> \<not> sn_settling s)"
proof -
  have p: "p \<in> members s" using byPlayer_member(3) [OF assms(1,2)] assms(3) by simp
  then show ?thesis
    using assms(2,3)
    by (auto simp: RemoveItem_def session_Participant_def mutable_def with_items_def offer_of_def members_def)
qed

lemma offer_of_staged [simp]: "offer_of (r\<lparr>rg_staged := m\<rparr>) = offer_of r"
  by (simp add: fun_eq_iff offer_of_def session_at_def cong: option.case_cong)

lemma fold_stage: "fold (\<lambda>i m. m(i := v)) ids m i = (if i \<in> set ids then v else m i)"
  by (induction ids arbitrary: m) auto

lemma items_inv:
  assumes inv: "trade_inv r" and p: "rg_byPlayer r p = Some a" and d: "distinct xs"
    and m: "\<And>i. m i = (if i \<in> set xs then p else if rg_staged r i = p then 0 else rg_staged r i)"
    and free: "\<And>i q. i \<in> set xs \<Longrightarrow> q \<noteq> 0 \<Longrightarrow> q \<noteq> p \<Longrightarrow> i \<notin> set (offer_of r q)"
  shows "trade_inv (put_session a (with_items p xs (session_at r a)) r\<lparr>rg_staged := m\<rparr>)" (is "trade_inv ?r")
proof -
  note member = byPlayer_member [OF inv p]
  have at: "session_at ?r b = (if b = a then with_items p xs (session_at r a) else session_at r b)"
    "rg_next ?r = rg_next r" "rg_byPlayer ?r = rg_byPlayer r" for b
    by (simp_all add: put_session_def session_at_def)
  have "live_ok ?r" using inv by (auto simp: trade_inv_def live_ok_def at)
  moreover have "heap_ok ?r"
    unfolding heap_ok_def
  proof (intro allI impI)
    fix b assume b: "b < rg_next ?r"
    show "session_inv (session_at ?r b) \<and>
        (\<not> sn_closed (session_at ?r b) \<longrightarrow> (\<forall>q\<in>members (session_at ?r b). rg_byPlayer ?r q = Some b))"
      using inv b member(5,6) with_items_inv by (cases "b = a") (auto simp: at trade_inv_def heap_ok_def)
  qed
  moreover have "staged_ok ?r"
    unfolding staged_ok_def
  proof (intro allI conjI impI)
    fix q
    have off: "offer_of (put_session a (with_items p xs (session_at r a)) r) q = (if q = p then xs else offer_of r q)"
      by (rule offer_with_items [OF inv p])
    show "distinct (offer_of ?r q)" using off d inv by (simp add: trade_inv_def staged_ok_def)
    fix i assume q: "q \<noteq> 0"
    have st: "rg_staged r i = q \<longleftrightarrow> i \<in> set (offer_of r q)" using inv q by (simp add: trade_inv_def staged_ok_def)
    show "rg_staged ?r i = q \<longleftrightarrow> i \<in> set (offer_of ?r q)"
      using st q free [of i q] member(2) by (auto simp: off m)
  qed
  ultimately show ?thesis by (simp add: trade_inv_def)
qed

lemma StageMany_inv:
  assumes "trade_inv r" shows "trade_inv (fst (StageMany p ids r))"
proof (cases "rg_byPlayer r p")
  case (Some a)
  have st: "q \<noteq> 0 \<Longrightarrow> rg_staged r i = q \<longleftrightarrow> i \<in> set (offer_of r q)" for i q
    using assms by (simp add: trade_inv_def staged_ok_def)
  consider "StageMany p ids r = (r, False)"
    | "AddItems p ids (session_at r a) = (with_items p (offer_of r p @ ids) (session_at r a), True)"
      "distinct ids" "set ids \<inter> set (offer_of r p) = {}" "\<forall>i\<in>set ids. rg_staged r i = 0"
  proof (cases "ids = [] \<or> list_ex (\<lambda>i. rg_staged r i \<noteq> 0) ids")
    case True
    then have "StageMany p ids r = (r, False)" using Some by (auto simp: StageMany_def)
    then show ?thesis using that(1) by blast
  next
    case False
    then have free: "\<forall>i\<in>set ids. rg_staged r i = 0" by (simp add: list_ex_iff)
    show ?thesis
    proof (cases "snd (AddItems p ids (session_at r a))")
      case True
      with AddItems_effect [OF assms Some refl, of ids] free show ?thesis
        by (intro that(2)) auto
    next
      case False
      with AddItems_effect [OF assms Some refl, of ids] have "AddItems p ids (session_at r a) = (session_at r a, False)"
        by auto
      then have "StageMany p ids r = (r, False)" using Some by (simp add: StageMany_def)
      then show ?thesis using that(1) by blast
    qed
  qed
  then show ?thesis
  proof cases
    case 2
    then have eq: "fst (StageMany p ids r) \<in> {r, put_session a (with_items p (offer_of r p @ ids) (session_at r a)) r
        \<lparr>rg_staged := fold (\<lambda>i m. m(i := p)) ids (rg_staged r)\<rparr>}"
      using Some by (auto simp: StageMany_def)
    have p0: "p \<noteq> 0" using byPlayer_member(2) [OF assms Some] by simp
    have "trade_inv (put_session a (with_items p (offer_of r p @ ids) (session_at r a)) r
        \<lparr>rg_staged := fold (\<lambda>i m. m(i := p)) ids (rg_staged r)\<rparr>)"
    proof (rule items_inv [OF assms Some])
      show "distinct (offer_of r p @ ids)" using 2(2,3) assms by (auto simp: trade_inv_def staged_ok_def)
      show "fold (\<lambda>i m. m(i := p)) ids (rg_staged r) i =
          (if i \<in> set (offer_of r p @ ids) then p else if rg_staged r i = p then 0 else rg_staged r i)" for i
        using st [OF p0, of i] by (auto simp: fold_stage)
      show "i \<notin> set (offer_of r q)" if "i \<in> set (offer_of r p @ ids)" "q \<noteq> 0" "q \<noteq> p" for i q
        using that st [OF p0, of i] st [OF that(2), of i] 2(4) by auto
    qed
    with eq assms show ?thesis by (elim insertE) simp_all
  qed (simp add: assms)
qed (simp add: StageMany_def assms)

lemma Unstage_inv:
  assumes "trade_inv r" shows "trade_inv (fst (Unstage p i r))"
proof (cases "rg_byPlayer r p")
  case (Some a)
  have st: "q \<noteq> 0 \<Longrightarrow> rg_staged r i = q \<longleftrightarrow> i \<in> set (offer_of r q)" for i q
    using assms by (simp add: trade_inv_def staged_ok_def)
  have p0: "p \<noteq> 0" using byPlayer_member(2) [OF assms Some] by simp
  have d: "distinct (offer_of r p)" using assms by (simp add: trade_inv_def staged_ok_def)
  have eq: "fst (Unstage p i r) = r \<or> (rg_staged r i = p \<and> fst (Unstage p i r) =
      put_session a (with_items p (remove1 i (offer_of r p)) (session_at r a)) r\<lparr>rg_staged := (rg_staged r)(i := 0)\<rparr>)"
    using RemoveItem_effect [OF assms Some refl, of i] Some by (auto simp: Unstage_def)
  have "trade_inv (put_session a (with_items p (remove1 i (offer_of r p)) (session_at r a)) r
      \<lparr>rg_staged := (rg_staged r)(i := 0)\<rparr>)" if "rg_staged r i = p"
  proof (rule items_inv [OF assms Some])
    show "distinct (remove1 i (offer_of r p))" using d by simp
    show "((rg_staged r)(i := 0)) j =
        (if j \<in> set (remove1 i (offer_of r p)) then p else if rg_staged r j = p then 0 else rg_staged r j)" for j
      using st [OF p0, of j] that d by auto
    show "j \<notin> set (offer_of r q)" if "j \<in> set (remove1 i (offer_of r p))" "q \<noteq> 0" "q \<noteq> p" for j q
      using that st [OF p0, of j] st [OF that(2), of j] d by auto
  qed
  then show ?thesis using eq assms by auto
qed (simp add: Unstage_def assms)

lemma remove_inv:
  assumes inv: "trade_inv r" and p: "rg_byPlayer r p = Some a"
    and s: "same_offers (session_at r a) s" "session_inv s" "sn_closed s"
  shows "trade_inv (registry_remove a (put_session a s r))" (is "trade_inv ?r")
proof -
  note member = byPlayer_member [OF inv p]
  define M where "M = members (session_at r a)"
  have M: "M = {pt_PlayerID (sn_First s), pt_PlayerID (sn_Second s)}"
    using s(1) by (auto simp: M_def members_def same_offers_def)
  have at: "session_at ?r b = (if b = a then s else session_at r b)" "rg_next ?r = rg_next r" for b
    by (simp_all add: registry_remove_def put_session_def session_at_def Let_def)
  have bp: "rg_byPlayer ?r q = (if q \<in> M then None else rg_byPlayer r q)" for q
    by (simp add: registry_remove_def put_session_def session_at_def Let_def M)
  have other: "rg_byPlayer r q = Some b \<Longrightarrow> q \<notin> M \<Longrightarrow> b \<noteq> a" for q b
    using byPlayer_member(3) [OF inv] by (auto simp: M_def)
  have off: "offer_of ?r q = (if q \<in> M then [] else offer_of r q)" for q
    using other [of q] by (auto simp: offer_of_def bp at split: option.splits)
  have "live_ok ?r"
    unfolding live_ok_def
  proof (intro allI impI)
    fix q b assume "rg_byPlayer ?r q = Some b"
    then have q: "rg_byPlayer r q = Some b" "q \<notin> M" by (auto simp: bp split: if_splits)
    then show "b < rg_next ?r \<and> 0 < q \<and> q \<in> members (session_at ?r b) \<and> \<not> sn_closed (session_at ?r b)"
      using byPlayer_member(1-4) [OF inv q(1)] other by (simp add: at)
  qed
  moreover have "heap_ok ?r"
    unfolding heap_ok_def
  proof (intro allI impI)
    fix b assume b: "b < rg_next ?r"
    show "session_inv (session_at ?r b) \<and>
        (\<not> sn_closed (session_at ?r b) \<longrightarrow> (\<forall>q\<in>members (session_at ?r b). rg_byPlayer ?r q = Some b))"
    proof (cases "b = a")
      case True
      then show ?thesis using s by (simp add: at)
    next
      case False
      have "q \<notin> M" if "q \<in> members (session_at r b)" "\<not> sn_closed (session_at r b)" for q
        using that inv b False member(6) [of q] by (auto simp: trade_inv_def heap_ok_def at M_def)
      then show ?thesis using inv b False by (simp add: trade_inv_def heap_ok_def at bp)
    qed
  qed
  moreover have "staged_ok ?r"
    unfolding staged_ok_def
  proof (intro allI conjI impI)
    fix q
    show "distinct (offer_of ?r q)" using inv by (simp add: off trade_inv_def staged_ok_def)
    fix i assume q: "q \<noteq> 0"
    have st: "q' \<noteq> 0 \<Longrightarrow> rg_staged r i = q' \<longleftrightarrow> i \<in> set (offer_of r q')" for q'
      using inv by (simp add: trade_inv_def staged_ok_def)
    have mine: "i \<in> set (pt_Items (sn_First s)) \<union> set (pt_Items (sn_Second s)) \<longleftrightarrow> (\<exists>q'\<in>M. i \<in> set (offer_of r q'))"
      using s(1) member(5) member(6) [unfolded M_def [symmetric]]
      by (auto simp: M offer_of_def session_Participant_def same_offers_def session_inv_def)
    have pos: "q' \<noteq> 0" if "q' \<in> M" for q'
      using byPlayer_member(2) [OF inv member(6)] that by (fastforce simp: M_def)
    have stage: "rg_staged ?r i = (if i \<in> set (pt_Items (sn_First s)) \<union> set (pt_Items (sn_Second s)) then 0 else rg_staged r i)"
      by (simp add: registry_remove_def put_session_def session_at_def Let_def fold_stage)
    show "rg_staged ?r i = q \<longleftrightarrow> i \<in> set (offer_of ?r q)"
      unfolding stage mine using st pos q by (auto simp: off)
  qed
  ultimately show ?thesis by (simp add: trade_inv_def)
qed

lemma Close_inv:
  assumes "trade_inv r" shows "trade_inv (fst (registry_Close p r))"
proof (cases "rg_byPlayer r p")
  case (Some a)
  show ?thesis
  proof (cases "sn_closed (session_at r a) \<or> sn_settling (session_at r a)")
    case True
    then show ?thesis using Some assms by (simp add: registry_Close_def TryCancel_def)
  next
    case False
    let ?s = "session_at r a\<lparr>sn_closed := True\<rparr>"
    have "trade_inv (registry_remove a (put_session a ?s r))"
      using byPlayer_member(5) [OF assms Some] False
      by (intro remove_inv [OF assms Some]) (simp_all add: same_offers_def session_inv_def)
    then show ?thesis using Some False by (simp add: registry_Close_def TryCancel_def)
  qed
qed (simp add: registry_Close_def assms)

lemma Complete_inv:
  assumes "trade_inv r" shows "trade_inv (fst (registry_Complete p r))"
proof (cases "rg_byPlayer r p")
  case (Some a)
  then show ?thesis
    using byPlayer_member(5) [OF assms Some]
    by (simp add: registry_Complete_def)
      (intro remove_inv [OF assms Some], simp_all add: same_offers_def session_inv_def CompleteSettlement_def)
qed (simp add: registry_Complete_def assms)

lemma Start_inv:
  assumes "trade_inv r" and "fresh_session s"
  shows "trade_inv (fst (registry_Start s r))"
proof (cases "snd (registry_Start s r)")
  case False
  then show ?thesis using assms(1) by (auto simp: registry_Start_def Let_def split: if_splits)
next
  case True
  let ?p = "pt_PlayerID (sn_First s)" and ?q = "pt_PlayerID (sn_Second s)" and ?a = "rg_next r"
  have pq: "0 < ?p" "0 < ?q" "?p \<noteq> ?q" "rg_byPlayer r ?p = None" "rg_byPlayer r ?q = None"
    using True by (auto simp: registry_Start_def Let_def split: if_splits)
  let ?r = "r\<lparr>rg_sessions := (rg_sessions r)(?a := s), rg_next := Suc ?a, rg_byPlayer := (rg_byPlayer r)(?p \<mapsto> ?a, ?q \<mapsto> ?a)\<rparr>"
  have eq: "fst (registry_Start s r) = ?r" using pq by (simp add: registry_Start_def Let_def)
  have at: "session_at ?r b = (if b = ?a then s else session_at r b)" for b by (simp add: session_at_def)
  have s: "session_inv s" "\<not> sn_closed s" "pt_Items (sn_First s) = []" "pt_Items (sn_Second s) = []"
    using assms(2) pq(3) by (simp_all add: fresh_session_def fresh_participant_def session_inv_def)
  have off: "offer_of ?r q = (if q \<in> members s then [] else offer_of r q)" for q
  proof (cases "q \<in> members s")
    case True
    then show ?thesis using s(3,4) by (auto simp: offer_of_def at session_Participant_def members_def)
  next
    case False
    then have "rg_byPlayer ?r q = rg_byPlayer r q" by (simp add: members_def)
    moreover have "session_at ?r b = session_at r b" if "rg_byPlayer r q = Some b" for b
      using byPlayer_member(1) [OF assms(1) that] by (simp add: at)
    ultimately show ?thesis using False by (simp add: offer_of_def split: option.split)
  qed
  have none: "offer_of r q = []" if "q \<in> members s" for q
    using that pq(4,5) by (auto simp: offer_of_def members_def)
  have "live_ok ?r"
    unfolding live_ok_def
  proof (intro allI impI)
    fix q b assume b: "rg_byPlayer ?r q = Some b"
    show "b < rg_next ?r \<and> 0 < q \<and> q \<in> members (session_at ?r b) \<and> \<not> sn_closed (session_at ?r b)"
    proof (cases "q \<in> members s")
      case True
      then have "b = ?a" using b by (auto simp: members_def split: if_splits)
      then show ?thesis using True pq(1,2) s(2) by (auto simp: at members_def)
    next
      case False
      then have "rg_byPlayer r q = Some b" using b by (auto simp: members_def split: if_splits)
      from byPlayer_member(1-4) [OF assms(1) this] show ?thesis by (simp add: at)
    qed
  qed
  moreover have "heap_ok ?r"
    unfolding heap_ok_def
  proof (intro allI impI)
    fix b assume b: "b < rg_next ?r"
    show "session_inv (session_at ?r b) \<and>
        (\<not> sn_closed (session_at ?r b) \<longrightarrow> (\<forall>q\<in>members (session_at ?r b). rg_byPlayer ?r q = Some b))"
    proof (cases "b = ?a")
      case True
      then show ?thesis using s by (simp add: at members_def)
    next
      case False
      then have "b < rg_next r" using b by simp
      then have h: "session_inv (session_at r b)"
        "\<not> sn_closed (session_at r b) \<Longrightarrow> q \<in> members (session_at r b) \<Longrightarrow> rg_byPlayer r q = Some b" for q
        using assms(1) by (auto simp: trade_inv_def heap_ok_def)
      then show ?thesis using pq(4,5) False by (fastforce simp: at)
    qed
  qed
  moreover have "staged_ok ?r"
    using assms(1) none by (simp add: trade_inv_def staged_ok_def off)
  ultimately show ?thesis by (simp add: eq trade_inv_def)
qed

lemma trade_step_inv:
  assumes "trade_step r op r'" and inv: "trade_inv r" shows "trade_inv r'"
proof -
  have s: "session_inv (session_at r a)" if "a < rg_next r" for a
    using inv that by (simp add: trade_inv_def heap_ok_def)
  show ?thesis
    using assms(1)
  proof cases
    case (accept a p b)
    then show ?thesis using SetAccepted_effect [OF s] flags_inv [OF inv] by blast
  next
    case (confirm a p)
    then show ?thesis using Confirm_effect [OF s] flags_inv [OF inv] by blast
  next
    case (set_ip a p ip)
    then show ?thesis using SetIP_effect [OF s] flags_inv [OF inv] by blast
  next
    case (abort a)
    have "trade_inv (put_session a (FailSettlement (session_at r a)) r)"
      using s [OF abort(3)] abort(4)
      by (intro flags_inv [OF inv abort(3)]) (simp_all add: FailSettlement_def same_offers_def session_inv_def)
    then show ?thesis using abort by simp
  qed (use inv StageMany_inv Unstage_inv Close_inv Complete_inv Start_inv in simp_all)
qed

lemma trade_reachable_inv: "trade_reachable r \<Longrightarrow> trade_inv r"
proof (induction rule: trade_reachable.induct)
  case init
  show ?case
    by (simp add: trade_inv_def live_ok_def heap_ok_def staged_ok_def offer_of_def NewRegistry_def)
qed (simp add: trade_step_inv)

subsection \<open>Staged items and agreed offers\<close>

text \<open>C16: In every reachable state of the live trades an item is staged exactly when it is on the table of
  some live trade, and then of one player only and once: no item can be offered in two trades, and
  none stays locked after its trade is gone.\<close>

theorem staged_items_exclusive:
  assumes "trade_reachable r"
  shows "(Contains r i \<longleftrightarrow> (\<exists>q. i \<in> set (offer_of r q))) \<and> distinct (offer_of r p) \<and>
    (i \<in> set (offer_of r p) \<longrightarrow> i \<in> set (offer_of r q) \<longrightarrow> p = q)"
proof -
  have inv: "trade_inv r" by (rule trade_reachable_inv [OF assms])
  have zero: "offer_of r 0 = []"
    using byPlayer_member(2) [OF inv, of 0] by (auto simp: offer_of_def split: option.splits)
  have st: "q \<noteq> 0 \<Longrightarrow> rg_staged r i = q \<longleftrightarrow> i \<in> set (offer_of r q)" for q
    using inv by (simp add: trade_inv_def staged_ok_def)
  have "Contains r i \<longleftrightarrow> (\<exists>q. i \<in> set (offer_of r q))"
    using st zero unfolding Contains_def by (metis empty_iff list.set(1))
  moreover have "p = q" if "i \<in> set (offer_of r p)" "i \<in> set (offer_of r q)"
    using that st [of p] st [of q] zero by (metis empty_iff list.set(1))
  moreover have "distinct (offer_of r p)" using inv by (simp add: trade_inv_def staged_ok_def)
  ultimately show ?thesis by blast
qed

inductive trade_runs :: "registry \<Rightarrow> trade_op list \<Rightarrow> registry \<Rightarrow> bool" where
  runs_Nil: "trade_runs r [] r"
| runs_Cons: "trade_step r op r1 \<Longrightarrow> trade_runs r1 ops r2 \<Longrightarrow> trade_runs r (op # ops) r2"

text \<open>What both sides agreed to: who trades, what, and the two phases of the agreement.\<close>

definition agreement :: "session \<Rightarrow> (ident \<times> ident list \<times> bool \<times> bool) \<times> (ident \<times> ident list \<times> bool \<times> bool)" where
  "agreement s =
     ((pt_PlayerID (sn_First s), pt_Items (sn_First s), pt_Accepted (sn_First s), pt_Confirmed (sn_First s)),
      (pt_PlayerID (sn_Second s), pt_Items (sn_Second s), pt_Accepted (sn_Second s), pt_Confirmed (sn_Second s)))"

lemma session_at_remove [simp]:
  "session_at (registry_remove b r) a = session_at r a" "rg_next (registry_remove b r) = rg_next r"
  by (simp_all add: registry_remove_def session_at_def Let_def)

lemma frozen_step:
  assumes inv: "trade_inv r" and a: "a < rg_next r" and s: "sn_settling (session_at r a)"
    and step: "trade_step r op r'" and op: "op \<noteq> TCommit a" "op \<noteq> TAbort a"
  shows "agreement (session_at r' a) = agreement (session_at r a) \<and> sn_settling (session_at r' a) \<and> a < rg_next r'"
proof -
  have ok: "session_inv (session_at r b)" if "b < rg_next r" for b
    using inv that by (simp add: trade_inv_def heap_ok_def)
  show ?thesis
    using step
  proof cases
    case (start s')
    then show ?thesis using a s by (auto simp: registry_Start_def Let_def session_at_def)
  next
    case (stage p ids)
    show ?thesis
    proof (cases "rg_byPlayer r p")
      case (Some b)
      then show ?thesis
        using stage a s AddItems_effect [OF inv Some refl, of ids]
        by (auto simp: StageMany_def session_at_def put_session_def split: if_splits)
    qed (use stage a s in \<open>simp add: StageMany_def\<close>)
  next
    case (unstage p i)
    show ?thesis
    proof (cases "rg_byPlayer r p")
      case (Some b)
      then show ?thesis
        using unstage a s RemoveItem_effect [OF inv Some refl, of i]
        by (auto simp: Unstage_def session_at_def put_session_def split: if_splits)
    qed (use unstage a s in \<open>simp add: Unstage_def\<close>)
  next
    case (accept b p v)
    then show ?thesis using SetAccepted_effect [OF ok, of b p v] a s by auto
  next
    case (confirm b p)
    then show ?thesis using Confirm_effect [OF ok, of b p] a s by auto
  next
    case (set_ip b p ip)
    then show ?thesis using a s by (auto simp: SetIP_def mutable_def agreement_def split: option.splits)
  next
    case (close p)
    then show ?thesis using a s by (auto simp: registry_Close_def TryCancel_def split: option.splits)
  next
    case (commit b)
    have "rg_byPlayer r (pt_PlayerID (sn_First (session_at r b))) = Some b"
      using inv commit(3,4) ok [OF commit(3)]
      by (auto simp: trade_inv_def heap_ok_def members_def session_inv_def)
    then show ?thesis using commit op(1) a s by (auto simp: registry_Complete_def)
  next
    case (abort b)
    then show ?thesis using op(2) a s by auto
  qed
qed

text \<open>C17: What is settled is what both players confirmed. Once the confirmation of one of them has claimed
  the settlement, both sides have accepted and confirmed, and whatever other goroutines do until the
  settlement commits or aborts, neither the offers nor the agreement change and the trade cannot be
  cancelled: both players still find this session.\<close>

theorem settlement_is_frozen:
  assumes "trade_reachable r" and "a < rg_next r" and "sn_settling (session_at r a)"
    and "trade_runs r ops r'" and "TCommit a \<notin> set ops" and "TAbort a \<notin> set ops"
  shows "agreement (session_at r' a) = agreement (session_at r a) \<and>
    pt_Accepted (sn_First (session_at r' a)) \<and> pt_Accepted (sn_Second (session_at r' a)) \<and>
    pt_Confirmed (sn_First (session_at r' a)) \<and> pt_Confirmed (sn_Second (session_at r' a)) \<and>
    (\<forall>p\<in>members (session_at r' a). registry_Find p r' = Some a)"
proof -
  have "trade_inv r' \<and> agreement (session_at r' a) = agreement (session_at r a) \<and>
      sn_settling (session_at r' a) \<and> a < rg_next r'"
    using assms(4) trade_reachable_inv [OF assms(1)] assms(2,3,5,6)
  proof (induction rule: trade_runs.induct)
    case (runs_Cons r op r1 ops r2)
    then show ?case using frozen_step [of r a op r1] trade_step_inv [of r op r1] by auto
  qed simp
  then show ?thesis by (auto simp: trade_inv_def heap_ok_def session_inv_def registry_Find_def)
qed

subsection \<open>Settlements\<close>

definition rows_ok :: "db \<Rightarrow> bool" where
  "rows_ok d \<longleftrightarrow> (\<forall>i r. db_items d i = Some r \<longrightarrow> fr_ID r = i)"

definition tradable :: "db \<Rightarrow> ident \<Rightarrow> settlement_item \<Rightarrow> bool" where
  "tradable d p rk \<longleftrightarrow> (case rk of (r, k) \<Rightarrow> db_items d (fr_ID r) = Some r \<and> available p r \<and>
     db_kinds d (fr_DefinitionID r) = Some k \<and> fk_AllowTrade k)"

definition item_ids :: "settlement_item list \<Rightarrow> ident list" where
  "item_ids items = map (fr_ID \<circ> fst) items"

definition item_credits :: "settlement_item list \<Rightarrow> int" where
  "item_credits items = sum_list (map (fk_RedeemableCredits \<circ> snd) items)"

lemma tradable_calls [simp]: "tradable (d\<lparr>db_calls := n\<rparr>) p = tradable d p"
  by (simp add: tradable_def fun_eq_iff)

lemma validate_items_Inr:
  "validate_items fault p ids d = Inr ((items, credits), d') \<Longrightarrow> rows_ok d \<Longrightarrow>
     (\<exists>n. d' = d\<lparr>db_calls := n\<rparr>) \<and> item_ids items = ids \<and> list_all (tradable d p) items \<and>
     credits = item_credits items"
proof (induction ids arbitrary: d items credits)
  case Nil
  moreover have "\<exists>n. d = d\<lparr>db_calls := n\<rparr>" by (rule exI [of _ "db_calls d"]) simp
  ultimately show ?case by (simp add: item_ids_def item_credits_def)
next
  case (Cons i ids)
  from Cons.prems(1) obtain r k its cr n where r: "db_items d i = Some r" "available p r"
    "db_kinds d (fr_DefinitionID r) = Some k" "fk_AllowTrade k"
    "validate_items fault p ids (d\<lparr>db_calls := n\<rparr>) = Inr ((its, cr), d')"
    "items = (r, k) # its" "credits = fk_RedeemableCredits k + cr"
    by (auto simp: FindItemByID_def FindDefinitionByID_def split: if_splits option.splits)
  have ok: "rows_ok (d\<lparr>db_calls := n\<rparr>)" using Cons.prems(2) by (simp add: rows_ok_def)
  have "fr_ID r = i" using r(1) Cons.prems(2) by (simp add: rows_ok_def)
  then show ?case
    using Cons.IH [OF r(5) ok] r by (auto simp: item_ids_def item_credits_def tradable_def)
qed

text \<open>One side's items handed over: redeemable furniture is consumed, the rest changes its owner.\<close>

definition handed_over :: "settlement_item list \<Rightarrow> ident \<Rightarrow> db \<Rightarrow> ident \<Rightarrow> furniture_row option" where
  "handed_over items dst d i =
     (case map_of (map (\<lambda>(r, k). (fr_ID r, k)) items) i of
        None \<Rightarrow> db_items d i
      | Some k \<Rightarrow> if fk_RedeemableCredits k > 0 then None else map_option (fr_Owner_update (\<lambda>_. dst)) (db_items d i))"

lemma transfer_Inr:
  "transfer fault items src dst d = Inr ((), d') \<Longrightarrow> src \<noteq> dst \<Longrightarrow>
     same_money d d' \<and> distinct (item_ids items) \<and> db_items d' = handed_over items dst d \<and>
     (\<forall>i\<in>set (item_ids items). \<exists>row. db_items d i = Some row \<and> available src row)"
proof (induction items arbitrary: d)
  case Nil
  then show ?case by (auto simp: same_money_def item_ids_def handed_over_def)
next
  case (Cons it items)
  obtain r k where it: "it = (r, k)" by (cases it)
  let ?new = "\<lambda>row. if fk_RedeemableCredits k > 0 then None else Some (row\<lparr>fr_Owner := dst\<rparr>)"
  from Cons.prems(1) obtain row n where row: "db_items d (fr_ID r) = Some row" "available src row"
    "transfer fault items src dst (d\<lparr>db_calls := n, db_items := (db_items d)(fr_ID r := ?new row)\<rparr>) = Inr ((), d')"
    by (auto simp: it DeleteInventoryItem_def TransferInventoryItem_def update_Inr split: if_splits)
  note IH = Cons.IH [OF row(3) Cons.prems(2)]
  have notin: "fr_ID r \<notin> set (item_ids items)"
    using IH Cons.prems(2) by (auto simp: available_def split: if_splits)
  then have m: "map_of (map (\<lambda>(r, k). (fr_ID r, k)) items) (fr_ID r) = None"
    by (force simp: item_ids_def map_of_eq_None_iff)
  have "db_items d' = handed_over (it # items) dst d"
  proof
    fix i
    show "db_items d' i = handed_over (it # items) dst d i"
      using IH row(1) m by (cases "i = fr_ID r") (auto simp: handed_over_def it split: option.splits)
  qed
  moreover have "\<exists>row. db_items d i = Some row \<and> available src row" if "i \<in> set (item_ids (it # items))" for i
    using IH row that notin by (cases "i = fr_ID r") (auto simp: item_ids_def it)
  ultimately show ?case
    using IH notin by (auto simp: same_money_def item_ids_def it)
qed

lemma grant_credits_Inr:
  assumes "grant_credits fault types permissions p credits d = Inr ((), d')"
  shows "same_goods d d' \<and> (\<forall>u t. balance_of d' u t = balance_of d u t +
    (if u = p \<and> t = creditsType then max 0 credits else 0))"
proof (cases "credits > 0")
  case True
  with assms obtain b where g: "Grant fault types permissions p creditsType credits ''trade_redeemable'' ActorPlayer d = Inr (b, d')"
    by (auto simp: grant_credits_def)
  have "infiniteBalance permissions p credits ActorPlayer = Inr False"
    using True by (simp add: infiniteBalance_def split: option.splits)
  then show ?thesis using True Grant_Inr [OF g] by (simp add: granted_def)
next
  case False
  with assms show ?thesis by (auto simp: grant_credits_def same_goods_def)
qed

lemma settle_outcome:
  assumes "WithinTransaction (settle fault types permissions audit s) d = (d', res)"
    and "rows_ok d" and "pt_PlayerID (sn_First s) = p" and "pt_PlayerID (sn_Second s) = q" and "p \<noteq> q"
  shows "case res of Inl e \<Rightarrow> d' = d
    | Inr _ \<Rightarrow> \<exists>firsts seconds.
        item_ids firsts = pt_Items (sn_First s) \<and> list_all (tradable d p) firsts \<and>
        item_ids seconds = pt_Items (sn_Second s) \<and> list_all (tradable d q) seconds \<and>
        (\<forall>i\<in>set (item_ids firsts). db_items d' i = handed_over firsts q d i) \<and>
        (\<forall>i\<in>set (item_ids seconds). db_items d' i = handed_over seconds p d i) \<and>
        (\<forall>i. i \<notin> set (item_ids firsts) \<union> set (item_ids seconds) \<longrightarrow> db_items d' i = db_items d i) \<and>
        (\<forall>u t. balance_of d' u t = balance_of d u t +
           (if t = creditsType \<and> u = q then max 0 (item_credits firsts) else 0) +
           (if t = creditsType \<and> u = p then max 0 (item_credits seconds) else 0))"
proof (cases res)
  case (Inl e)
  then show ?thesis using assms(1) by (auto simp: WithinTransaction_def split: sum.splits)
next
  case (Inr u)
  with assms(1) have "settle fault types permissions audit s d = Inr ((), d')"
    by (auto simp: WithinTransaction_def split: sum.splits)
  then obtain firsts c1 d1 seconds c2 d2 d3 d4 d5 d6 where
    v1: "validate_items fault p (pt_Items (sn_First s)) d = Inr ((firsts, c1), d1)" and
    v2: "validate_items fault q (pt_Items (sn_Second s)) d1 = Inr ((seconds, c2), d2)" and
    t1: "transfer fault firsts p q d2 = Inr ((), d3)" and
    t2: "transfer fault seconds q p d3 = Inr ((), d4)" and
    g1: "grant_credits fault types permissions q c1 d4 = Inr ((), d5)" and
    g2: "grant_credits fault types permissions p c2 d5 = Inr ((), d6)" and
    d': "same_goods d6 d6" "db_items d' = db_items d6" "db_balances d' = db_balances d6"
    by (auto simp: settle_def Let_def validateOffer_def assms(3,4) InsertAudit_def same_goods_def split: if_splits)
  from validate_items_Inr [OF v1 assms(2)] obtain n where
    f: "d1 = d\<lparr>db_calls := n\<rparr>" "item_ids firsts = pt_Items (sn_First s)" "list_all (tradable d p) firsts"
    "c1 = item_credits firsts" by blast
  have ok: "rows_ok d1" using assms(2) by (simp add: rows_ok_def f(1))
  from validate_items_Inr [OF v2 ok] obtain n' where
    g: "d2 = d\<lparr>db_calls := n'\<rparr>" "item_ids seconds = pt_Items (sn_Second s)" "list_all (tradable d q) seconds"
    "c2 = item_credits seconds" by (auto simp: f(1))
  note T1 = transfer_Inr [OF t1 assms(5)] and T2 = transfer_Inr [OF t2 assms(5) [symmetric]]
  have disj: "set (item_ids firsts) \<inter> set (item_ids seconds) = {}"
  proof -
    have owner: "\<exists>r. db_items d i = Some r \<and> fr_Owner r = u"
      if "list_all (tradable d u) items" "i \<in> set (item_ids items)" for items u i
      using that by (fastforce simp: list_all_iff tradable_def item_ids_def available_def)
    show ?thesis using owner [OF f(3)] owner [OF g(3)] assms(5) by fastforce
  qed
  have out: "handed_over items x dd i = db_items dd i" if "i \<notin> set (item_ids items)" for items x dd i
  proof -
    have "map_of (map (\<lambda>(r, k). (fr_ID r, k)) items) i = None"
      using that by (force simp: item_ids_def map_of_eq_None_iff)
    then show ?thesis by (simp add: handed_over_def)
  qed
  have cong: "handed_over items x dd i = handed_over items x dd' i" if "db_items dd i = db_items dd' i" for items x dd dd' i
    using that by (simp add: handed_over_def split: option.splits)
  have items: "db_items d' i = handed_over seconds p d3 i" "db_items d3 i = handed_over firsts q d i" for i
    using T1 T2 grant_credits_Inr [OF g1] grant_credits_Inr [OF g2] d'(2) cong [of d2 i d]
    by (auto simp: same_goods_def g(1))
  have h1: "db_items d' i = handed_over firsts q d i" if "i \<in> set (item_ids firsts)" for i
  proof -
    have "i \<notin> set (item_ids seconds)" using that disj by blast
    then show ?thesis using items out by simp
  qed
  have h2: "db_items d' i = handed_over seconds p d i" if "i \<in> set (item_ids seconds)" for i
  proof -
    have "i \<notin> set (item_ids firsts)" using that disj by blast
    then show ?thesis using items out cong [of d3 i d] by simp
  qed
  have h3: "db_items d' i = db_items d i" if "i \<notin> set (item_ids firsts) \<union> set (item_ids seconds)" for i
    using that items out by auto
  have h4: "balance_of d' u t = balance_of d u t +
      (if t = creditsType \<and> u = q then max 0 (item_credits firsts) else 0) +
      (if t = creditsType \<and> u = p then max 0 (item_credits seconds) else 0)" for u t
  proof -
    have "balance_of d' u t = balance_of d6 u t" "balance_of d4 u t = balance_of d u t"
      using T1 T2 d'(3) by (simp_all add: balance_of_def same_money_def g(1))
    then show ?thesis
      using grant_credits_Inr [OF g1] grant_credits_Inr [OF g2] by (auto simp: f(4) g(4))
  qed
  show ?thesis
    unfolding Inr sum.case
    by (intro exI [of _ firsts] exI [of _ seconds] conjI ballI allI impI) (fact f(2,3) g(2,3) h4 | erule h1 h2 h3)+
qed

lemma settle_listings:
  assumes "settle fault types permissions audit s d = Inr (u, d')" and "rows_ok d"
    and "pt_PlayerID (sn_First s) \<noteq> pt_PlayerID (sn_Second s)"
  shows "db_listings d' = db_listings d \<and> db_nextListing d' = db_nextListing d"
proof -
  let ?p = "pt_PlayerID (sn_First s)" and ?q = "pt_PlayerID (sn_Second s)"
  obtain firsts c1 d1 seconds c2 d2 d3 d4 d5 d6 where
    v1: "validate_items fault ?p (pt_Items (sn_First s)) d = Inr ((firsts, c1), d1)" and
    v2: "validate_items fault ?q (pt_Items (sn_Second s)) d1 = Inr ((seconds, c2), d2)" and
    t1: "transfer fault firsts ?p ?q d2 = Inr ((), d3)" and
    t2: "transfer fault seconds ?q ?p d3 = Inr ((), d4)" and
    g1: "grant_credits fault types permissions ?q c1 d4 = Inr ((), d5)" and
    g2: "grant_credits fault types permissions ?p c2 d5 = Inr ((), d6)" and
    d': "db_listings d' = db_listings d6" "db_nextListing d' = db_nextListing d6"
    using assms(1) by (auto simp: settle_def Let_def validateOffer_def InsertAudit_def split: if_splits)
  obtain n where d1: "d1 = d\<lparr>db_calls := n\<rparr>" using validate_items_Inr [OF v1 assms(2)] by blast
  have "rows_ok d1" using assms(2) by (simp add: rows_ok_def d1)
  from validate_items_Inr [OF v2 this] obtain n' where d2: "d2 = d\<lparr>db_calls := n'\<rparr>" by (auto simp: d1)
  show ?thesis
    using transfer_Inr [OF t1 assms(3)] transfer_Inr [OF t2 assms(3) [symmetric]] grant_credits_Inr [OF g1]
      grant_credits_Inr [OF g2] d'
    by (simp add: d2 same_money_def same_goods_def)
qed

text \<open>C18: A settlement swaps the two offers and nothing else. If it commits, every item on the table was
  tradable inventory of the player who offered it; redeemable furniture of one side is consumed and its
  value credited to the other, all other offered items change owner, and no other item and no other
  balance changes. If it fails, at whatever statement, the store is unchanged.\<close>

theorem settle_swaps_offers:
  assumes "WithinTransaction (settle fault types permissions audit s) d = (d', res)"
    and "rows_ok d" and "pt_PlayerID (sn_First s) = p" and "pt_PlayerID (sn_Second s) = q" and "p \<noteq> q"
  shows "case res of Inl e \<Rightarrow> d' = d
    | Inr _ \<Rightarrow> \<exists>firsts seconds.
        item_ids firsts = pt_Items (sn_First s) \<and> list_all (tradable d p) firsts \<and>
        item_ids seconds = pt_Items (sn_Second s) \<and> list_all (tradable d q) seconds \<and>
        (\<forall>i\<in>set (item_ids firsts). db_items d' i = handed_over firsts q d i) \<and>
        (\<forall>i\<in>set (item_ids seconds). db_items d' i = handed_over seconds p d i) \<and>
        (\<forall>i. i \<notin> set (item_ids firsts) \<union> set (item_ids seconds) \<longrightarrow> db_items d' i = db_items d i) \<and>
        (\<forall>u t. balance_of d' u t = balance_of d u t +
           (if t = creditsType \<and> u = q then max 0 (item_credits firsts) else 0) +
           (if t = creditsType \<and> u = p then max 0 (item_credits seconds) else 0))"
  by (rule settle_outcome [OF assms])

subsection \<open>A sample trade\<close>

text \<open>Player 1 offers the chair 10, player 2 the voucher 11; both accept and confirm.\<close>

definition trader :: "ident \<Rightarrow> participant" where
  "trader p = \<lparr>pt_PlayerID = p, pt_UnitID = p, pt_Username = ''u'', pt_IP = [], pt_Items = [],
     pt_Accepted = False, pt_Confirmed = False\<rparr>"

definition sample_session :: session where
  "sample_session = \<lparr>sn_RoomID = 5, sn_First = trader 1, sn_Second = trader 2, sn_settling = False, sn_closed = False\<rparr>"

definition at_first :: "(session \<Rightarrow> session) \<Rightarrow> registry \<Rightarrow> registry" where
  "at_first f r = put_session 0 (f (session_at r 0)) r"

definition offered_trade :: registry where
  "offered_trade = fst (StageMany 2 [11] (fst (StageMany 1 [10] (fst (registry_Start sample_session NewRegistry)))))"

definition confirmed_trade :: registry where
  "confirmed_trade = at_first (\<lambda>s. fst (session_Confirm 2 s)) (at_first (\<lambda>s. fst (session_Confirm 1 s))
     (at_first (\<lambda>s. fst (SetAccepted 2 True s)) (at_first (\<lambda>s. fst (SetAccepted 1 True s)) offered_trade)))"

lemmas reach_start = trade_reachable.step [OF _ trade_step.start]
  and reach_stage = trade_reachable.step [OF _ trade_step.stage]
  and reach_accept = trade_reachable.step [OF _ trade_step.accept]
  and reach_confirm = trade_reachable.step [OF _ trade_step.confirm]

lemma offered_trade_next: "rg_next offered_trade = 1"
  by code_simp

lemma offered_trade_reachable: "trade_reachable offered_trade"
  unfolding offered_trade_def
  by (rule reach_stage, rule reach_stage, rule reach_start, rule trade_reachable.init)
    (simp add: sample_session_def trader_def fresh_session_def fresh_participant_def)

lemma confirmed_trade_reachable: "trade_reachable confirmed_trade"
proof -
  have next_at: "rg_next (at_first f r) = rg_next r" for f r by (simp add: at_first_def)
  have acc: "trade_reachable r \<Longrightarrow> 0 < rg_next r \<Longrightarrow> trade_reachable (at_first (\<lambda>s. fst (SetAccepted p b s)) r)" for r p b
    unfolding at_first_def by (rule reach_accept)
  have con: "trade_reachable r \<Longrightarrow> 0 < rg_next r \<Longrightarrow> trade_reachable (at_first (\<lambda>s. fst (session_Confirm p s)) r)" for r p
    unfolding at_first_def by (rule reach_confirm)
  show ?thesis
    unfolding confirmed_trade_def
    by (intro con acc offered_trade_reachable) (simp_all add: next_at offered_trade_next)
qed

theorem staged_items_exclusive_witness:
  "Contains offered_trade 10 \<and> 10 \<notin> set (offer_of offered_trade 2)"
proof -
  have off: "10 \<in> set (offer_of offered_trade 1)" by code_simp
  then show ?thesis
    using staged_items_exclusive [OF offered_trade_reachable, of 10 1 2]
      staged_items_exclusive [OF offered_trade_reachable, of 10 1 1] by auto
qed

text \<open>A late offer, a revoked acceptance and a cancellation come in during the settlement.\<close>

definition late_trade :: registry where
  "late_trade = fst (registry_Close 2 (at_first (\<lambda>s. fst (SetAccepted 1 False s)) (fst (StageMany 1 [12] confirmed_trade))))"

theorem settlement_is_frozen_witness:
  "agreement (session_at late_trade 0) = ((1, [10], True, True), (2, [11], True, True)) \<and>
   registry_Find 1 late_trade = Some 0 \<and> registry_Find 2 late_trade = Some 0"
proof -
  have s: "0 < rg_next confirmed_trade" "sn_settling (session_at confirmed_trade 0)"
    "agreement (session_at confirmed_trade 0) = ((1, [10], True, True), (2, [11], True, True))"
    by code_simp+
  have n: "0 < rg_next (fst (StageMany 1 [12] confirmed_trade))" by code_simp
  have run: "trade_runs confirmed_trade [TStage 1 [12], TAccept 0 1 False, TClose 2] late_trade"
    unfolding late_trade_def at_first_def
    by (rule runs_Cons [OF trade_step.stage runs_Cons [OF trade_step.accept [OF n] runs_Cons [OF trade_step.close runs_Nil]]])
  show ?thesis
    using settlement_is_frozen [OF confirmed_trade_reachable s(1,2) run] s(3)
    by (auto simp: agreement_def members_def)
qed

definition trade_db :: db where
  "trade_db = empty_db
     \<lparr>db_items := [10 \<mapsto> \<lparr>fr_ID = 10, fr_DefinitionID = 3, fr_Owner = 1, fr_RoomID = None, fr_Reserved = False\<rparr>,
        11 \<mapsto> \<lparr>fr_ID = 11, fr_DefinitionID = 4, fr_Owner = 2, fr_RoomID = None, fr_Reserved = False\<rparr>],
      db_kinds := [3 \<mapsto> \<lparr>fk_ID = 3, fk_AllowTrade = True, fk_AllowMarketplaceSale = True, fk_RedeemableCredits = 0\<rparr>,
        4 \<mapsto> \<lparr>fk_ID = 4, fk_AllowTrade = True, fk_AllowMarketplaceSale = False, fk_RedeemableCredits = 25\<rparr>]\<rparr>"

definition settled_db :: db where
  "settled_db = fst (WithinTransaction (settle (\<lambda>_. False) [-1 \<mapsto> True] None True (session_at confirmed_trade 0)) trade_db)"

theorem settle_swaps_offers_witness:
  "map_option fr_Owner (db_items settled_db 10) = Some 2 \<and> db_items settled_db 11 = None \<and>
   (\<exists>seconds. item_ids seconds = [11] \<and> balance_of settled_db 1 creditsType = max 0 (item_credits seconds))"
proof -
  have rows: "rows_ok trade_db" by (auto simp: rows_ok_def trade_db_def split: if_splits)
  have ids: "pt_PlayerID (sn_First (session_at confirmed_trade 0)) = 1"
    "pt_PlayerID (sn_Second (session_at confirmed_trade 0)) = 2"
    "pt_Items (sn_Second (session_at confirmed_trade 0)) = [11]" by code_simp+
  have res: "snd (WithinTransaction (settle (\<lambda>_. False) [-1 \<mapsto> True] None True (session_at confirmed_trade 0)) trade_db) = Inr ()"
    "map_option fr_Owner (db_items settled_db 10) = Some 2" "db_items settled_db 11 = None" "balance_of trade_db 1 creditsType = 0"
    by code_simp+
  have "WithinTransaction (settle (\<lambda>_. False) [-1 \<mapsto> True] None True (session_at confirmed_trade 0)) trade_db = (settled_db, Inr ())"
    using res(1) by (simp add: settled_db_def prod_eq_iff)
  from settle_swaps_offers [OF this rows ids(1,2)] ids(3) res show ?thesis by force
qed

subsection \<open>The service\<close>

text \<open>\<open>Confirm\<close> without interleaving: the agreement, the settlement, and the end of the trade.\<close>

definition trade_Confirm ::
  "(nat \<Rightarrow> bool) \<Rightarrow> catalog \<Rightarrow> checker option \<Rightarrow> bool \<Rightarrow> ident \<Rightarrow> registry \<Rightarrow> db \<Rightarrow> registry \<times> db \<times> (economy_error + bool)" where
  "trade_Confirm fault types permissions audit p r d = (case registry_Find p r of
     None \<Rightarrow> (r, d, Inl ErrUnavailable)
   | Some a \<Rightarrow> (case session_Confirm p (session_at r a) of (s, both, updated) \<Rightarrow>
       (let r1 = put_session a s r in
        if \<not> updated then (r1, d, Inl ErrNotAccepted)
        else if \<not> both then (r1, d, Inr False)
        else (case WithinTransaction (settle fault types permissions audit s) d of
            (d', Inl e) \<Rightarrow> (fst (registry_Close p (put_session a (FailSettlement s) r1)), d', Inl e)
          | (d', Inr _) \<Rightarrow> (fst (registry_Complete (pt_PlayerID (sn_First s)) r1), d', Inr True)))))"

lemma both_settles: "session_Confirm p s = (s', True, u) \<Longrightarrow> sn_settling s' \<and> u"
  by (auto simp: session_Confirm_def Let_def split: if_splits option.splits)

lemma trade_Confirm_reachable:
  assumes "trade_reachable r" shows "trade_reachable (fst (trade_Confirm fault types permissions audit p r d))"
proof (cases "rg_byPlayer r p")
  case (Some a)
  obtain s both updated where c: "session_Confirm p (session_at r a) = (s, both, updated)" by (cases "session_Confirm p (session_at r a)")
  have a: "a < rg_next r" using byPlayer_member(1) [OF trade_reachable_inv [OF assms] Some] .
  have r1: "trade_reachable (put_session a s r)"
    using trade_reachable.step [OF assms trade_step.confirm [OF a]] c by (metis fst_conv)
  show ?thesis
  proof (cases both)
    case True
    then have s: "sn_settling s" "updated" using both_settles c by auto
    have abort: "trade_reachable (put_session a (FailSettlement s) (put_session a s r))"
      using trade_reachable.step [OF r1 trade_step.abort [of a]] a s(1) by simp
    have commit: "trade_reachable (fst (registry_Complete (pt_PlayerID (sn_First s)) (put_session a s r)))"
      using trade_reachable.step [OF r1 trade_step.commit [of a]] a s(1) by simp
    show ?thesis
      using Some c True s commit trade_reachable.step [OF abort trade_step.close]
      by (auto simp: trade_Confirm_def registry_Find_def Let_def split: prod.splits sum.splits)
  qed (use Some c r1 in \<open>simp add: trade_Confirm_def registry_Find_def Let_def\<close>)
qed (simp add: trade_Confirm_def registry_Find_def assms)

text \<open>What \<open>Start\<close> reads from the rest of the server: live players, the actor's room, permissions.\<close>

record live_player =
  lp_Username :: string
  lp_AllowTrade :: bool
  lp_TradeLocked :: bool
  lp_Ignores :: "ident \<Rightarrow> bool"

record trade_room =
  tr_ID :: ident
  tr_TradeMode :: int
  tr_OwnerPlayerID :: ident
  tr_UnitByID :: "int \<rightharpoonup> ident"
  tr_Unit :: "ident \<rightharpoonup> int"

record trade_env =
  te_throttle :: "(economy_error + bool) option"
  te_players :: "ident \<rightharpoonup> live_player"
  te_roomOf :: "ident \<rightharpoonup> trade_room"
  te_bypass :: "economy_error + bool"
  te_enabled :: bool
  te_perkRequired :: bool
  te_perk :: "ident \<Rightarrow> economy_error + bool"

definition perk_check :: "trade_env \<Rightarrow> ident \<Rightarrow> ident \<Rightarrow> economy_error option" where
  "perk_check env actor target = (case te_perk env actor of
     Inl e \<Rightarrow> Some e
   | Inr False \<Rightarrow> Some ErrActorNotAllowed
   | Inr True \<Rightarrow> (case te_perk env target of
       Inl e \<Rightarrow> Some e | Inr False \<Rightarrow> Some ErrTargetNotAllowed | Inr True \<Rightarrow> None))"

definition throttle_check :: "trade_env \<Rightarrow> economy_error option" where
  "throttle_check env = (case te_throttle env of
     None \<Rightarrow> None | Some (Inl e) \<Rightarrow> Some e | Some (Inr allowed) \<Rightarrow> if allowed then None else Some ErrThrottled)"

text \<open>A failed permission read counts as no bypass, as the code discards the error.\<close>

definition trade_Start :: "trade_env \<Rightarrow> ident \<Rightarrow> int \<Rightarrow> string \<Rightarrow> registry \<Rightarrow> registry \<times> economy_error option" where
  "trade_Start env actorID unitID ip r = (case throttle_check env of
     Some e \<Rightarrow> (r, Some e)
   | None \<Rightarrow> (case (te_players env actorID, te_roomOf env actorID) of
       (Some actor, Some room) \<Rightarrow> (case tr_UnitByID room unitID of
           None \<Rightarrow> (r, Some ErrUnavailable)
         | Some targetID \<Rightarrow>
             if targetID = actorID then (r, Some ErrUnavailable)
             else (case te_players env targetID of
               None \<Rightarrow> (r, Some ErrUnavailable)
             | Some target \<Rightarrow>
                 (let bypass = (te_bypass env = Inr True) in
                  if \<not> te_enabled env \<and> \<not> bypass then (r, Some ErrDisabled)
                  else if te_perkRequired env \<and> \<not> bypass \<and> perk_check env actorID targetID \<noteq> None
                  then (r, perk_check env actorID targetID)
                  else if \<not> bypass \<and> (tr_TradeMode room = 0 \<or> tr_TradeMode room = 1 \<and> tr_OwnerPlayerID room \<noteq> actorID)
                  then (r, Some ErrRoomPolicy)
                  else if lp_Ignores target actorID then (r, Some ErrIgnored)
                  else if registry_Find actorID r \<noteq> None then (r, Some ErrUnavailable)
                  else if \<not> lp_AllowTrade actor \<or> lp_TradeLocked actor then (r, Some ErrActorNotAllowed)
                  else if registry_Find targetID r \<noteq> None then (r, Some ErrUnavailable)
                  else if \<not> lp_AllowTrade target \<or> lp_TradeLocked target then (r, Some ErrTargetNotAllowed)
                  else (case tr_Unit room actorID of
                      None \<Rightarrow> (r, Some ErrUnavailable)
                    | Some actorUnit \<Rightarrow>
                        (case registry_Start \<lparr>sn_RoomID = tr_ID room,
                            sn_First = \<lparr>pt_PlayerID = actorID, pt_UnitID = actorUnit, pt_Username = lp_Username actor,
                              pt_IP = ip, pt_Items = [], pt_Accepted = False, pt_Confirmed = False\<rparr>,
                            sn_Second = \<lparr>pt_PlayerID = targetID, pt_UnitID = unitID, pt_Username = lp_Username target,
                              pt_IP = [], pt_Items = [], pt_Accepted = False, pt_Confirmed = False\<rparr>,
                            sn_settling = False, sn_closed = False\<rparr> r of
                           (r', True) \<Rightarrow> (r', None) | (r', False) \<Rightarrow> (r', Some ErrUnavailable))))))
     | _ \<Rightarrow> (r, Some ErrUnavailable)))"

lemma trade_Start_reachable:
  assumes "trade_reachable r" shows "trade_reachable (fst (trade_Start env p u ip r))"
proof -
  have "trade_reachable (fst (registry_Start s r))" if "fresh_session s" for s
    using assms that by (rule reach_start)
  from this [unfolded fresh_session_def fresh_participant_def] assms show ?thesis
    by (auto simp: trade_Start_def Let_def split: option.splits bool.splits prod.splits)
      (metis (no_types, lifting) fst_conv participant.select_convs session.select_convs)+
qed

end
