(* ===== verification/Marketplace.thy ===== *)
theory Marketplace
  imports Trade
begin

text \<open>
  The marketplace (\<^verbatim>\<open>internal/realm/marketplace\<close>): listings, tokens, purchases and redemptions over the
  durable store, as \<^verbatim>\<open>core/service.go\<close>, \<^verbatim>\<open>core/expiry.go\<close> and the statements of \<^verbatim>\<open>database\<close> have them. The
  clock is an argument; the store's \<^verbatim>\<open>now()\<close> and the service's clock agree.
\<close>

subsection \<open>Configuration\<close>

definition MaxInt32 :: int where "MaxInt32 = 2 ^ 31 - 1"

record market_config =
  mc_Enabled :: bool
  mc_CommissionPercent :: int
  mc_TokenCost :: int
  mc_TokenPackageSize :: int
  mc_AdvertisementCost :: int
  mc_MinimumPrice :: int
  mc_MaximumPrice :: int
  mc_OfferDuration :: int
  mc_DisplayDuration :: int
  mc_SearchCacheTTL :: int
  mc_ExpiryInterval :: int

text \<open>The checks of \<^verbatim>\<open>LoadConfig\<close> on the values it read; a duration is in seconds.\<close>

definition clamp_config :: "market_config \<Rightarrow> market_config" where
  "clamp_config c =
     (let size = (if mc_TokenPackageSize c < 1 \<or> mc_TokenPackageSize c > MaxInt32 then 5 else mc_TokenPackageSize c);
          pct0 = (if mc_CommissionPercent c < 0 then 0 else mc_CommissionPercent c);
          pct = (if pct0 > 100 then 100 else pct0);
          cost = (if mc_TokenCost c < 1 \<or> mc_TokenCost c > MaxInt32 then 1 else mc_TokenCost c);
          ad = (if mc_AdvertisementCost c < 0 \<or> mc_AdvertisementCost c > MaxInt32 then 0 else mc_AdvertisementCost c);
          maximumRaw = MaxInt32 * 100 div (100 + pct);
          mn = (if mc_MinimumPrice c < 1 \<or> mc_MinimumPrice c > maximumRaw then 1 else mc_MinimumPrice c);
          mx = (if mc_MaximumPrice c < mn \<or> mc_MaximumPrice c > maximumRaw then maximumRaw else mc_MaximumPrice c)
      in c\<lparr>mc_TokenPackageSize := size, mc_CommissionPercent := pct, mc_TokenCost := cost, mc_AdvertisementCost := ad,
           mc_MinimumPrice := mn, mc_MaximumPrice := mx,
           mc_OfferDuration := (if mc_OfferDuration c \<le> 0 then 172800 else mc_OfferDuration c),
           mc_DisplayDuration := (if mc_DisplayDuration c \<le> 0 then 604800 else mc_DisplayDuration c),
           mc_SearchCacheTTL := (if mc_SearchCacheTTL c \<le> 0 then 30 else mc_SearchCacheTTL c),
           mc_ExpiryInterval := (if mc_ExpiryInterval c \<le> 0 then 60 else mc_ExpiryInterval c)\<rparr>)"

text \<open>The environment as parsed by \<^verbatim>\<open>strconv\<close> and \<^verbatim>\<open>time\<close>: \<open>None\<close> for a missing or malformed value.\<close>

definition envInt64 :: "(string \<Rightarrow> int option) \<Rightarrow> string \<Rightarrow> int \<Rightarrow> int" where
  "envInt64 ints key fallback = (case ints key of None \<Rightarrow> fallback | Some v \<Rightarrow> v)"

definition envBool :: "(string \<Rightarrow> bool option) \<Rightarrow> string \<Rightarrow> bool \<Rightarrow> bool" where
  "envBool bools key fallback = (case bools key of None \<Rightarrow> fallback | Some v \<Rightarrow> v)"

definition envDuration :: "(string \<Rightarrow> int option) \<Rightarrow> string \<Rightarrow> int \<Rightarrow> int" where
  "envDuration durations key fallback = (case durations key of None \<Rightarrow> fallback | Some v \<Rightarrow> v)"

definition LoadConfig ::
  "(string \<Rightarrow> int option) \<Rightarrow> (string \<Rightarrow> bool option) \<Rightarrow> (string \<Rightarrow> int option) \<Rightarrow> market_config" where
  "LoadConfig ints bools durations = clamp_config
     \<lparr>mc_Enabled = envBool bools ''PIXELS_MARKETPLACE_ENABLED'' True,
      mc_CommissionPercent = envInt64 ints ''PIXELS_MARKETPLACE_COMMISSION_PERCENT'' 1,
      mc_TokenCost = envInt64 ints ''PIXELS_MARKETPLACE_TOKEN_COST'' 1,
      mc_TokenPackageSize = envInt64 ints ''PIXELS_MARKETPLACE_TOKEN_PACKAGE_SIZE'' 5,
      mc_AdvertisementCost = envInt64 ints ''PIXELS_MARKETPLACE_ADVERTISEMENT_COST'' 0,
      mc_MinimumPrice = envInt64 ints ''PIXELS_MARKETPLACE_MIN_PRICE'' 1,
      mc_MaximumPrice = envInt64 ints ''PIXELS_MARKETPLACE_MAX_PRICE'' 1000000,
      mc_OfferDuration = envDuration durations ''PIXELS_MARKETPLACE_OFFER_DURATION'' 172800,
      mc_DisplayDuration = envDuration durations ''PIXELS_MARKETPLACE_DISPLAY_DURATION'' 604800,
      mc_SearchCacheTTL = envDuration durations ''PIXELS_MARKETPLACE_SEARCH_CACHE_TTL'' 30,
      mc_ExpiryInterval = envDuration durations ''PIXELS_MARKETPLACE_EXPIRY_INTERVAL'' 60\<rparr>"

text \<open>Go's division truncates; the dividend is never negative for a clamped configuration.\<close>

definition BuyerPrice :: "market_config \<Rightarrow> int \<Rightarrow> int" where
  "BuyerPrice c raw = raw + (raw * mc_CommissionPercent c + 99) div 100"

subsection \<open>Statements\<close>

definition TokenBalance :: "(nat \<Rightarrow> bool) \<Rightarrow> ident \<Rightarrow> int tx" where
  "TokenBalance fault p = statement fault (\<lambda>d. (case db_tokens d p of None \<Rightarrow> 0 | Some n \<Rightarrow> n, d))"

text \<open>The column is a 32 bit integer, so the store refuses a larger sum.\<close>

definition AddTokens :: "(nat \<Rightarrow> bool) \<Rightarrow> ident \<Rightarrow> int \<Rightarrow> int tx" where
  "AddTokens fault p n =
     and_then (statement fault (\<lambda>d. (case db_tokens d p of None \<Rightarrow> n | Some m \<Rightarrow> m + n, d))) (\<lambda>total d.
       if total > MaxInt32 then Inl StoreError else Inr (total, d\<lparr>db_tokens := (db_tokens d)(p \<mapsto> total)\<rparr>))"

definition SpendToken :: "(nat \<Rightarrow> bool) \<Rightarrow> ident \<Rightarrow> bool tx" where
  "SpendToken fault p = statement fault (\<lambda>d. (case db_tokens d p of
     None \<Rightarrow> (False, d)
   | Some n \<Rightarrow> if n > 0 then (True, d\<lparr>db_tokens := (db_tokens d)(p \<mapsto> n - 1)\<rparr>) else (False, d)))"

definition open_at :: "db \<Rightarrow> ident \<Rightarrow> bool" where
  "open_at d i \<longleftrightarrow> list_ex (\<lambda>l. ls_Item l = i \<and> ls_State l = StateOpen) (db_listings d)"

text \<open>The table checks that the price is positive and that the item has no other open listing.\<close>

definition CreateListing :: "(nat \<Rightarrow> bool) \<Rightarrow> ident \<Rightarrow> ident \<Rightarrow> ident \<Rightarrow> int \<Rightarrow> int \<Rightarrow> listing tx" where
  "CreateListing fault seller i kind price expires =
     and_then (statement fault (\<lambda>d. ((), d))) (\<lambda>_ d.
       if price \<le> 0 \<or> open_at d i then Inl StoreError
       else (let l = \<lparr>ls_ID = db_nextListing d, ls_Seller = seller, ls_Buyer = None, ls_Item = i,
               ls_Definition = kind, ls_RawPrice = price, ls_State = StateOpen, ls_ExpiresAt = expires,
               ls_SoldAt = None, ls_RedeemedAt = None\<rparr>
             in Inr (l, d\<lparr>db_listings := db_listings d @ [l], db_nextListing := db_nextListing d + 1\<rparr>)))"

definition FindListingForUpdate :: "(nat \<Rightarrow> bool) \<Rightarrow> ident \<Rightarrow> listing option tx" where
  "FindListingForUpdate fault i = statement fault (\<lambda>d. (find (\<lambda>l. ls_ID l = i) (db_listings d), d))"

text \<open>An update of the rows that satisfy a condition; it returns the new rows.\<close>

definition update_listings :: "(listing \<Rightarrow> bool) \<Rightarrow> (listing \<Rightarrow> listing) \<Rightarrow> db \<Rightarrow> listing list \<times> db" where
  "update_listings cond upd d =
     (map upd (filter cond (db_listings d)),
      d\<lparr>db_listings := map (\<lambda>l. if cond l then upd l else l) (db_listings d)\<rparr>)"

definition record_sale :: "int \<Rightarrow> listing \<Rightarrow> db \<Rightarrow> db" where
  "record_sale now l d =
     (let key = (ls_Definition l, now div 86400)
      in d\<lparr>db_stats := (db_stats d)(key \<mapsto> (case db_stats d key of
            None \<Rightarrow> (ls_RawPrice l, 1)
          | Some (avg, n) \<Rightarrow> ((avg * n + ls_RawPrice l) div (n + 1), n + 1)))\<rparr>)"

definition MarkSold :: "(nat \<Rightarrow> bool) \<Rightarrow> int \<Rightarrow> ident \<Rightarrow> ident \<Rightarrow> bool tx" where
  "MarkSold fault now i buyer = statement fault (\<lambda>d.
     (case update_listings (\<lambda>l. ls_ID l = i \<and> ls_State l = StateOpen \<and> ls_ExpiresAt l > now)
         (\<lambda>l. l\<lparr>ls_State := StateSold, ls_Buyer := Some buyer, ls_SoldAt := Some now\<rparr>) d of
        (sold, d') \<Rightarrow> (length sold = 1, fold (record_sale now) sold d')))"

definition CloseListing :: "(nat \<Rightarrow> bool) \<Rightarrow> ident \<Rightarrow> ident \<Rightarrow> bool \<Rightarrow> listing option tx" where
  "CloseListing fault i seller force = statement fault (\<lambda>d.
     (case update_listings (\<lambda>l. ls_ID l = i \<and> ls_State l = StateOpen \<and> (force \<or> ls_Seller l = seller))
         (\<lambda>l. l\<lparr>ls_State := StateClosed\<rparr>) d of
        (closed, d') \<Rightarrow> (case closed of [] \<Rightarrow> None | l # _ \<Rightarrow> Some l, d')))"

definition unredeemed :: "listing \<Rightarrow> bool" where
  "unredeemed l \<longleftrightarrow> ls_State l = StateSold \<and> ls_RedeemedAt l = None"

definition RedeemSold :: "(nat \<Rightarrow> bool) \<Rightarrow> int \<Rightarrow> ident \<Rightarrow> (int \<times> int) tx" where
  "RedeemSold fault now seller = statement fault (\<lambda>d.
     (case update_listings (\<lambda>l. ls_Seller l = seller \<and> unredeemed l) (\<lambda>l. l\<lparr>ls_RedeemedAt := Some now\<rparr>) d of
        (redeemed, d') \<Rightarrow> ((sum_list (map ls_RawPrice redeemed), int (length redeemed)), d')))"

definition expired_at :: "int \<Rightarrow> listing \<Rightarrow> bool" where
  "expired_at now l \<longleftrightarrow> ls_State l = StateOpen \<and> ls_ExpiresAt l \<le> now"

definition ExpireListings :: "(nat \<Rightarrow> bool) \<Rightarrow> int \<Rightarrow> nat \<Rightarrow> listing list tx" where
  "ExpireListings fault now limit = statement fault (\<lambda>d.
     (let ids = map ls_ID (take limit (sort_key ls_ExpiresAt (filter (expired_at now) (db_listings d))))
      in update_listings (\<lambda>l. ls_ID l \<in> set ids) (\<lambda>l. l\<lparr>ls_State := StateClosed\<rparr>) d))"

subsection \<open>The service\<close>

definition BuyTokens ::
  "(nat \<Rightarrow> bool) \<Rightarrow> catalog \<Rightarrow> checker option \<Rightarrow> market_config \<Rightarrow> ident \<Rightarrow> db \<Rightarrow> db \<times> (economy_error + int)" where
  "BuyTokens fault types permissions c p d =
     (if \<not> mc_Enabled c then (d, Inl ErrDisabled)
      else WithinTransaction
        (and_then (Grant fault types permissions p creditsType (- mc_TokenCost c) ''marketplace_tokens'' ActorPlayer) (\<lambda>_.
           AddTokens fault p (mc_TokenPackageSize c))) d)"

definition market_List ::
  "(nat \<Rightarrow> bool) \<Rightarrow> (ident \<Rightarrow> bool) \<Rightarrow> market_config \<Rightarrow> int \<Rightarrow> ident \<Rightarrow> ident \<Rightarrow> int \<Rightarrow> db \<Rightarrow> db \<times> (economy_error + listing)" where
  "market_List fault staged c now p i price d =
     (if \<not> mc_Enabled c then (d, Inl ErrDisabled)
      else if price < mc_MinimumPrice c \<or> price > mc_MaximumPrice c then (d, Inl ErrInvalidPrice)
      else WithinTransaction
        (and_then (SpendToken fault p) (\<lambda>spent.
           if \<not> spent then fail ErrNoToken
           else and_then (ReserveForMarketplace fault staged i p) (\<lambda>(r, k).
             CreateListing fault p (fr_ID r) (fk_ID k) price (now + mc_OfferDuration c)))) d)"

definition Buy ::
  "(nat \<Rightarrow> bool) \<Rightarrow> catalog \<Rightarrow> checker option \<Rightarrow> market_config \<Rightarrow> int \<Rightarrow> ident \<Rightarrow> ident \<Rightarrow> db \<Rightarrow> db \<times> (economy_error + listing)" where
  "Buy fault types permissions c now buyer i d =
     (if \<not> mc_Enabled c then (d, Inl ErrDisabled)
      else WithinTransaction
        (and_then (FindListingForUpdate fault i) (\<lambda>found.
           case found of None \<Rightarrow> fail ErrListingUnavailable
           | Some l \<Rightarrow>
               if ls_State l \<noteq> StateOpen \<or> \<not> ls_ExpiresAt l > now then fail ErrListingUnavailable
               else if ls_Seller l = buyer then fail ErrOwnListing
               else and_then (Grant fault types permissions buyer creditsType (- BuyerPrice c (ls_RawPrice l))
                      ''marketplace_purchase'' ActorPlayer) (\<lambda>_.
                    and_then (TransferFromMarketplace fault (ls_Item l) (ls_Seller l) buyer) (\<lambda>_.
                    and_then (MarkSold fault now (ls_ID l) buyer) (\<lambda>updated.
                      if \<not> updated then fail ErrListingUnavailable else ret l))))) d)"

definition market_Close :: "(nat \<Rightarrow> bool) \<Rightarrow> ident \<Rightarrow> ident \<Rightarrow> bool \<Rightarrow> db \<Rightarrow> db \<times> (economy_error + unit)" where
  "market_Close fault i seller force =
     WithinTransaction (and_then (CloseListing fault i seller force) (\<lambda>closed.
       case closed of None \<Rightarrow> fail ErrListingUnavailable
       | Some l \<Rightarrow> ReleaseFromMarketplace fault (ls_Item l) (ls_Seller l)))"

definition Redeem ::
  "(nat \<Rightarrow> bool) \<Rightarrow> catalog \<Rightarrow> checker option \<Rightarrow> int \<Rightarrow> ident \<Rightarrow> db \<Rightarrow> db \<times> (economy_error + int \<times> int)" where
  "Redeem fault types permissions now seller =
     WithinTransaction (and_then (RedeemSold fault now seller) (\<lambda>(total, n).
       if total = 0 then ret (total, n)
       else and_then (Grant fault types permissions seller creditsType total ''marketplace_redeem'' ActorPlayer) (\<lambda>_.
         ret (total, n))))"

fun release_all :: "(nat \<Rightarrow> bool) \<Rightarrow> listing list \<Rightarrow> unit tx" where
  "release_all fault [] = ret ()"
| "release_all fault (l # ls) =
     and_then (ReleaseFromMarketplace fault (ls_Item l) (ls_Seller l)) (\<lambda>_. release_all fault ls)"

definition expire_batch :: "(nat \<Rightarrow> bool) \<Rightarrow> int \<Rightarrow> db \<Rightarrow> db \<times> (economy_error + nat)" where
  "expire_batch fault now =
     WithinTransaction (and_then (ExpireListings fault now 100) (\<lambda>ls.
       and_then (release_all fault ls) (\<lambda>_. ret (length ls))))"

subsection \<open>Expiry ends\<close>

definition open_count :: "db \<Rightarrow> nat" where
  "open_count d = length (filter (\<lambda>l. ls_State l = StateOpen) (db_listings d))"

lemma release_all_Inr:
  "release_all fault ls d = Inr ((), d') \<Longrightarrow>
     same_money d d' \<and> (\<forall>l\<in>set ls. \<exists>row. db_items d (ls_Item l) = Some row \<and> fr_Reserved row) \<and>
     db_items d' = (\<lambda>i. if i \<in> ls_Item ` set ls then map_option (fr_Reserved_update (\<lambda>_. False)) (db_items d i)
       else db_items d i)"
proof (induction ls arbitrary: d)
  case Nil
  then show ?case by (auto simp: same_money_def)
next
  case (Cons l ls)
  from Cons.prems obtain row n where row: "db_items d (ls_Item l) = Some row" "held_for (ls_Seller l) row"
    "release_all fault ls (d\<lparr>db_calls := n, db_items := (db_items d)(ls_Item l \<mapsto> row\<lparr>fr_Reserved := False\<rparr>)\<rparr>) = Inr ((), d')"
    by (auto simp: ReleaseFromMarketplace_def update_Inr)
  note IH = Cons.IH [OF row(3)]
  have "ls_Item l \<notin> ls_Item ` set ls" using IH by (auto split: if_splits)
  then show ?case
    using IH row(1,2) by (auto simp: same_money_def held_for_def fun_eq_iff split: if_splits)
qed

lemma close_some:
  assumes "\<forall>l. ls_State (upd l) \<noteq> StateOpen" and "l \<in> set ls" and "cond l" and "ls_State l = StateOpen"
  shows "length (filter (\<lambda>l. ls_State l = StateOpen) (map (\<lambda>l. if cond l then upd l else l) ls)) <
    length (filter (\<lambda>l. ls_State l = StateOpen) ls)"
proof -
  have le: "length (filter (\<lambda>l. ls_State l = StateOpen) (map (\<lambda>l. if cond l then upd l else l) xs)) \<le>
      length (filter (\<lambda>l. ls_State l = StateOpen) xs)" for xs
    using assms(1) by (induction xs) auto
  show ?thesis
    using assms(2)
  proof (induction ls)
    case (Cons x xs)
    then show ?case using assms(1,3,4) le [of xs] by (cases "l = x") (auto simp: less_Suc_eq_le)
  qed simp
qed

lemma expire_batch_Inr:
  assumes "expire_batch fault now d = (d', Inr n)"
  obtains ids ls where "ids = map ls_ID (take 100 (sort_key ls_ExpiresAt (filter (expired_at now) (db_listings d))))"
    "ls = filter (\<lambda>l. ls_ID l \<in> set ids) (db_listings d)" "n = length ls"
    "db_listings d' = map (\<lambda>l. if ls_ID l \<in> set ids then l\<lparr>ls_State := StateClosed\<rparr> else l) (db_listings d)"
    "db_nextListing d' = db_nextListing d" "db_balances d' = db_balances d"
    "db_items d' = (\<lambda>i. if i \<in> ls_Item ` set ls then map_option (fr_Reserved_update (\<lambda>_. False)) (db_items d i)
       else db_items d i)"
proof -
  let ?ids = "map ls_ID (take 100 (sort_key ls_ExpiresAt (filter (expired_at now) (db_listings d))))"
  let ?ls = "filter (\<lambda>l. ls_ID l \<in> set ?ids) (db_listings d)"
  let ?d = "d\<lparr>db_calls := Suc (db_calls d), db_listings := map (\<lambda>l. if ls_ID l \<in> set ?ids then l\<lparr>ls_State := StateClosed\<rparr> else l) (db_listings d)\<rparr>"
  from assms have r: "release_all fault (map (ls_State_update (\<lambda>_. StateClosed)) ?ls) ?d = Inr ((), d')" "n = length ?ls"
    by (auto simp: expire_batch_def WithinTransaction_def ExpireListings_def update_listings_def Let_def
        split: sum.splits)
  have img: "ls_Item ` set (map (ls_State_update (\<lambda>_. StateClosed)) ?ls) = ls_Item ` set ?ls"
    by (simp add: image_image)
  show ?thesis
    using release_all_Inr [OF r(1)] r(2) unfolding img by (intro that [OF refl refl]) (auto simp: same_money_def)
qed

lemma expire_batch_progress:
  assumes "expire_batch fault now d = (d', Inr n)" and "\<not> n < 100"
  shows "open_count d' < open_count d"
proof -
  define batch where "batch = take 100 (sort_key ls_ExpiresAt (filter (expired_at now) (db_listings d)))"
  obtain ids ls where ids: "ids = map ls_ID batch"
    and ls: "ls = filter (\<lambda>l. ls_ID l \<in> set ids) (db_listings d)" "n = length ls"
    and d': "db_listings d' = map (\<lambda>l. if ls_ID l \<in> set ids then l\<lparr>ls_State := StateClosed\<rparr> else l) (db_listings d)"
    by (rule expire_batch_Inr [OF assms(1), folded batch_def])
  from ls assms(2) have "batch \<noteq> []" unfolding ids by (cases batch) auto
  then obtain l where l: "l \<in> set batch" by (cases batch) auto
  then have "l \<in> set (db_listings d)" "ls_State l = StateOpen" "ls_ID l \<in> set ids"
    unfolding ids batch_def by (auto dest!: in_set_takeD simp: expired_at_def)
  then show ?thesis
    unfolding open_count_def d' by (intro close_some) simp_all
qed

text \<open>The loop of \<^verbatim>\<open>Expire\<close>: full batches go on, so every further turn closes a listing.\<close>

function market_Expire :: "(nat \<Rightarrow> bool) \<Rightarrow> int \<Rightarrow> nat \<Rightarrow> db \<Rightarrow> db \<times> nat \<times> economy_error option" where
  "market_Expire fault now n d = (case expire_batch fault now d of
     (d', Inl e) \<Rightarrow> (d', n, Some e)
   | (d', Inr b) \<Rightarrow> if b < 100 then (d', n + b, None) else market_Expire fault now (n + b) d')"
  by pat_completeness auto
termination
  by (relation "measure (\<lambda>(fault, now, n, d). open_count d)")
    (simp_all, metis expire_batch_progress)

declare market_Expire.simps [simp del]

subsection \<open>Reserved furniture and open listings\<close>

definition opens :: "db \<Rightarrow> ident \<Rightarrow> listing list" where
  "opens d i = filter (\<lambda>l. ls_Item l = i \<and> ls_State l = StateOpen) (db_listings d)"

text \<open>Either nothing is on sale and the item is not reserved, or one listing holds it for its seller.\<close>

definition shelf_ok :: "db \<Rightarrow> ident \<Rightarrow> bool" where
  "shelf_ok d i \<longleftrightarrow> (opens d i = [] \<and> (\<forall>row. db_items d i = Some row \<longrightarrow> \<not> fr_Reserved row)) \<or>
     (\<exists>l row. opens d i = [l] \<and> db_items d i = Some row \<and> held_for (ls_Seller l) row)"

definition market_inv :: "db \<Rightarrow> bool" where
  "market_inv d \<longleftrightarrow> rows_ok d \<and> distinct (map ls_ID (db_listings d)) \<and>
     (\<forall>l\<in>set (db_listings d). ls_ID l < db_nextListing d) \<and> (\<forall>i. shelf_ok d i)"

lemma opens_mem: "l \<in> set (opens d i) \<longleftrightarrow> l \<in> set (db_listings d) \<and> ls_Item l = i \<and> ls_State l = StateOpen"
  by (auto simp: opens_def)

lemma opens_map:
  assumes "\<forall>l. cond l \<longrightarrow> ls_State (upd l) \<noteq> StateOpen"
    and "db_listings d' = map (\<lambda>l. if cond l then upd l else l) (db_listings d)"
  shows "opens d' i = filter (\<lambda>l. \<not> cond l) (opens d i)"
proof -
  have "filter (\<lambda>l. ls_Item l = i \<and> ls_State l = StateOpen) (map (\<lambda>l. if cond l then upd l else l) xs) =
      filter (\<lambda>l. \<not> cond l) (filter (\<lambda>l. ls_Item l = i \<and> ls_State l = StateOpen) xs)" for xs
    using assms(1) by (induction xs) auto
  then show ?thesis by (simp add: opens_def assms(2))
qed

text \<open>The shared step of buying, closing and expiring: some open listings end and their items are released.\<close>

lemma end_listings_inv:
  assumes inv: "market_inv d"
    and upd: "\<forall>l. cond l \<longrightarrow> ls_State (upd l) \<noteq> StateOpen" "\<forall>l. ls_ID (upd l) = ls_ID l"
    and d': "db_listings d' = map (\<lambda>l. if cond l then upd l else l) (db_listings d)"
      "db_nextListing d' = db_nextListing d" "rows_ok d'"
    and out: "\<And>i. i \<notin> ls_Item ` {l \<in> set (db_listings d). cond l} \<Longrightarrow> db_items d' i = db_items d i"
    and inn: "\<And>i row. i \<in> ls_Item ` {l \<in> set (db_listings d). cond l} \<Longrightarrow> db_items d' i = Some row \<Longrightarrow> \<not> fr_Reserved row"
    and open_cond: "\<And>l. l \<in> set (db_listings d) \<Longrightarrow> cond l \<Longrightarrow> ls_State l = StateOpen"
  shows "market_inv d'"
proof -
  have "map ls_ID (db_listings d') = map ls_ID (db_listings d)" using upd(2) d'(1) by simp
  then have "distinct (map ls_ID (db_listings d'))" using inv by (metis market_inv_def)
  moreover have "\<forall>l\<in>set (db_listings d'). ls_ID l < db_nextListing d'"
    using inv d' upd(2) by (auto simp: market_inv_def)
  ultimately have ids: "distinct (map ls_ID (db_listings d'))" "\<forall>l\<in>set (db_listings d'). ls_ID l < db_nextListing d'"
    by blast+
  note op = opens_map [OF upd(1) d'(1)]
  have "shelf_ok d' i" for i
  proof (cases "i \<in> ls_Item ` {l \<in> set (db_listings d). cond l}")
    case True
    then obtain l where l: "l \<in> set (db_listings d)" "cond l" "ls_Item l = i" by auto
    then have "l \<in> set (opens d i)" using open_cond by (simp add: opens_mem)
    moreover have "shelf_ok d i" using inv by (simp add: market_inv_def)
    ultimately have "opens d i = [l]" by (auto simp: shelf_ok_def)
    then have "opens d' i = []" using l(2) op by simp
    then show ?thesis using inn [OF True] by (auto simp: shelf_ok_def)
  next
    case False
    then have "\<not> cond l" if "l \<in> set (opens d i)" for l
      using that by (auto simp: opens_mem)
    then have "opens d' i = opens d i" by (simp add: op filter_id_conv)
    then show ?thesis using inv out [OF False] by (simp add: market_inv_def shelf_ok_def)
  qed
  with ids d'(3) show ?thesis by (simp add: market_inv_def)
qed

lemma market_inv_goods: "market_inv d \<Longrightarrow> same_goods d d' \<Longrightarrow> market_inv d'"
  by (simp add: market_inv_def same_goods_def rows_ok_def shelf_ok_def opens_def)

lemma market_inv_frame:
  "market_inv d \<Longrightarrow> db_items d' = db_items d \<Longrightarrow> db_listings d' = db_listings d \<Longrightarrow>
     db_nextListing d' = db_nextListing d \<Longrightarrow> market_inv d'"
  by (simp add: market_inv_def rows_ok_def shelf_ok_def opens_def)

lemma tx_cases:
  assumes "WithinTransaction f d = (d', res)"
  obtains "d' = d" | x where "f d = Inr (x, d')" "res = Inr x"
  using assms by (auto simp: WithinTransaction_def split: sum.splits)

lemma AddTokens_Inr: "AddTokens fault p n d = Inr (t, d') \<Longrightarrow>
    db_items d' = db_items d \<and> db_listings d' = db_listings d \<and> db_nextListing d' = db_nextListing d \<and>
    db_balances d' = db_balances d"
  by (auto simp: AddTokens_def split: if_splits)

lemma BuyTokens_inv:
  assumes inv: "market_inv d" shows "market_inv (fst (BuyTokens fault types permissions c p d))"
proof -
  obtain d' res where r: "BuyTokens fault types permissions c p d = (d', res)" by (metis surj_pair)
  show ?thesis
  proof (cases "d' = d")
    case False
    with r have "WithinTransaction (and_then (Grant fault types permissions p creditsType (- mc_TokenCost c)
        ''marketplace_tokens'' ActorPlayer) (\<lambda>_. AddTokens fault p (mc_TokenPackageSize c))) d = (d', res)"
      by (simp add: BuyTokens_def split: if_splits)
    then obtain b d1 t where "Grant fault types permissions p creditsType (- mc_TokenCost c)
        ''marketplace_tokens'' ActorPlayer d = Inr (b, d1)" "AddTokens fault p (mc_TokenPackageSize c) d1 = Inr (t, d')"
      by (rule tx_cases) (use False in auto)
    then have "market_inv d1" "market_inv d1 \<Longrightarrow> market_inv d'"
      using Grant_Inr market_inv_goods [OF inv] AddTokens_Inr market_inv_frame [of d1 d'] by blast+
    then show ?thesis using r by simp
  qed (use inv r in simp)
qed

lemma List_inv:
  assumes inv: "market_inv d" shows "market_inv (fst (market_List fault staged c now p i price d))"
proof -
  obtain d' res where r: "market_List fault staged c now p i price d = (d', res)" by (metis surj_pair)
  show ?thesis
  proof (cases "d' = d")
    case False
    then obtain l where "and_then (SpendToken fault p) (\<lambda>spent. if \<not> spent then fail ErrNoToken
        else and_then (ReserveForMarketplace fault staged i p) (\<lambda>(r, k).
          CreateListing fault p (fr_ID r) (fk_ID k) price (now + mc_OfferDuration c))) d = Inr (l, d')"
      using r by (auto simp: market_List_def split: if_splits elim!: tx_cases)
    then obtain spent d1 where sp: "SpendToken fault p d = Inr (spent, d1)" and
      rest: "(if \<not> spent then fail ErrNoToken else and_then (ReserveForMarketplace fault staged i p) (\<lambda>(r, k).
          CreateListing fault p (fr_ID r) (fk_ID k) price (now + mc_OfferDuration c))) d1 = Inr (l, d')"
      by auto
    from sp have d1: "db_items d1 = db_items d" "db_listings d1 = db_listings d" "db_nextListing d1 = db_nextListing d"
      by (auto simp: SpendToken_def split: option.splits if_splits)
    from rest obtain row k d2 where res: "ReserveForMarketplace fault staged i p d1 = Inr ((row, k), d2)"
      and cre: "CreateListing fault p (fr_ID row) (fk_ID k) price (now + mc_OfferDuration c) d2 = Inr (l, d')"
      by (auto split: if_splits)
    note R = ReserveForMarketplace_Inr [OF res]
    have row: "fr_ID row = i" "db_items d i = Some row" using inv R d1 by (auto simp: market_inv_def rows_ok_def)
    from cre obtain n where no: "\<not> open_at d2 i" and
      l: "l = \<lparr>ls_ID = db_nextListing d2, ls_Seller = p, ls_Buyer = None, ls_Item = i, ls_Definition = fk_ID k,
        ls_RawPrice = price, ls_State = StateOpen, ls_ExpiresAt = now + mc_OfferDuration c, ls_SoldAt = None, ls_RedeemedAt = None\<rparr>"
      and d': "d' = d2\<lparr>db_calls := n, db_listings := db_listings d2 @ [l], db_nextListing := db_nextListing d2 + 1\<rparr>"
      by (auto simp: CreateListing_def Let_def row open_at_def split: if_splits)
    have ls: "db_listings d' = db_listings d @ [l]" "db_nextListing d' = db_nextListing d + 1" "ls_ID l = db_nextListing d"
      "db_items d' = (db_items d)(i \<mapsto> row\<lparr>fr_Reserved := True\<rparr>)"
      using R d1 d' l by (auto simp: same_money_def)
    have none: "opens d i = []"
      using no R d1 by (auto simp: open_at_def list_ex_iff opens_def same_money_def filter_empty_conv)
    have "shelf_ok d' j" for j
    proof (cases "j = i")
      case True
      have "opens d' i = [l]" using none l by (simp add: opens_def ls)
      then show ?thesis using True R row l by (auto simp: shelf_ok_def ls held_for_def available_def)
    next
      case False
      then have "opens d' j = opens d j" using l by (simp add: opens_def ls)
      then show ?thesis using False inv by (simp add: market_inv_def shelf_ok_def ls)
    qed
    moreover have "rows_ok d'" using inv row by (auto simp: market_inv_def rows_ok_def ls)
    ultimately show ?thesis using inv r by (force simp: market_inv_def ls)
  qed (use inv r in simp)
qed

text \<open>A purchase: what the buyer pays, which listing ends and where the item goes.\<close>

lemma same_listing:
  "distinct (map ls_ID ls) \<Longrightarrow> x \<in> set ls \<Longrightarrow> l \<in> set ls \<Longrightarrow> ls_ID x = ls_ID l \<Longrightarrow> x = l"
  by (auto dest: inj_onD simp: distinct_map)

definition sold_to :: "int \<Rightarrow> ident \<Rightarrow> listing \<Rightarrow> listing" where
  "sold_to now buyer l = l\<lparr>ls_State := StateSold, ls_Buyer := Some buyer, ls_SoldAt := Some now\<rparr>"

lemma record_sales_frame [simp]:
  "db_items (fold (record_sale now) ls d) = db_items d" "db_listings (fold (record_sale now) ls d) = db_listings d"
  "db_nextListing (fold (record_sale now) ls d) = db_nextListing d"
  "db_balances (fold (record_sale now) ls d) = db_balances d"
  by (induction ls arbitrary: d) (simp_all add: record_sale_def Let_def)

lemma Buy_Inr:
  assumes "Buy fault types permissions c now buyer i d = (d', Inr l)"
  shows "mc_Enabled c \<and> l \<in> set (db_listings d) \<and> ls_ID l = i \<and> ls_State l = StateOpen \<and> ls_ExpiresAt l > now \<and>
    ls_Seller l \<noteq> buyer \<and> BuyerPrice c (ls_RawPrice l) \<noteq> 0 \<and>
    (\<exists>row. db_items d (ls_Item l) = Some row \<and> held_for (ls_Seller l) row \<and>
      db_items d' = (db_items d)(ls_Item l \<mapsto> row\<lparr>fr_Owner := buyer, fr_Reserved := False\<rparr>)) \<and>
    db_listings d' = map (\<lambda>l. if ls_ID l = i \<and> ls_State l = StateOpen \<and> ls_ExpiresAt l > now then sold_to now buyer l else l)
      (db_listings d) \<and> db_nextListing d' = db_nextListing d \<and>
    (\<forall>q s. balance_of d' q s = balance_of d q s + (if q = buyer \<and> s = creditsType
       then granted permissions buyer (- BuyerPrice c (ls_RawPrice l)) ActorPlayer else 0))"
proof -
  have en: "mc_Enabled c" using assms by (auto simp: Buy_def split: if_splits)
  then obtain n b d1 d2 d3 where find: "find (\<lambda>l. ls_ID l = i) (db_listings d) = Some l"
    and ok: "ls_State l = StateOpen" "ls_ExpiresAt l > now" "ls_Seller l \<noteq> buyer"
    and g: "Grant fault types permissions buyer creditsType (- BuyerPrice c (ls_RawPrice l)) ''marketplace_purchase''
      ActorPlayer (d\<lparr>db_calls := n\<rparr>) = Inr (b, d1)"
    and t: "TransferFromMarketplace fault (ls_Item l) (ls_Seller l) buyer d1 = Inr ((), d2)"
    and m: "MarkSold fault now (ls_ID l) buyer d2 = Inr (True, d')"
    using assms
    by (auto simp: Buy_def WithinTransaction_def FindListingForUpdate_def split: sum.splits option.splits if_splits)
  have l: "l \<in> set (db_listings d)" "ls_ID l = i" using find by (auto simp: find_Some_iff)
  note G = Grant_Inr [OF g]
  from t obtain row n2 where row: "db_items d (ls_Item l) = Some row" "held_for (ls_Seller l) row"
    "d2 = d1\<lparr>db_calls := n2, db_items := (db_items d1)(ls_Item l \<mapsto> row\<lparr>fr_Owner := buyer, fr_Reserved := False\<rparr>)\<rparr>"
    using G by (auto simp: TransferFromMarketplace_def update_Inr same_goods_def)
  have upd: "(\<lambda>l. if ls_ID l = i \<and> ls_State l = StateOpen \<and> ls_ExpiresAt l > now
        then l\<lparr>ls_State := StateSold, ls_Buyer := Some buyer, ls_SoldAt := Some now\<rparr> else l) =
      (\<lambda>l. if ls_ID l = i \<and> ls_State l = StateOpen \<and> ls_ExpiresAt l > now then sold_to now buyer l else l)"
    by (auto simp: sold_to_def fun_eq_iff)
  from m have d': "db_items d' = db_items d2" "db_nextListing d' = db_nextListing d2" "db_balances d' = db_balances d2"
    "db_listings d' = map (\<lambda>l. if ls_ID l = i \<and> ls_State l = StateOpen \<and> ls_ExpiresAt l > now then sold_to now buyer l else l)
       (db_listings d2)"
    unfolding l(2) by (auto simp: MarkSold_def update_listings_def upd)
  have "balance_of d' q s = balance_of d1 q s" for q s by (simp add: balance_of_def d'(3) row(3))
  with G show ?thesis using en l ok row d' by (auto simp: same_goods_def)
qed

lemma Buy_inv:
  assumes inv: "market_inv d" shows "market_inv (fst (Buy fault types permissions c now buyer i d))"
proof -
  obtain d' res where r: "Buy fault types permissions c now buyer i d = (d', res)" by (metis surj_pair)
  show ?thesis
  proof (cases res)
    case (Inl e)
    then show ?thesis using r inv by (auto simp: Buy_def WithinTransaction_def split: if_splits sum.splits)
  next
    case (Inr l)
    note B = Buy_Inr [OF r [unfolded Inr]]
    then obtain row where row: "db_items d (ls_Item l) = Some row"
      "db_items d' = (db_items d)(ls_Item l \<mapsto> row\<lparr>fr_Owner := buyer, fr_Reserved := False\<rparr>)" by blast
    let ?cond = "\<lambda>l. ls_ID l = i \<and> ls_State l = StateOpen \<and> ls_ExpiresAt l > now"
    have dist: "distinct (map ls_ID (db_listings d))" using inv by (simp add: market_inv_def)
    have only: "x = l" if "x \<in> set (db_listings d)" "?cond x" for x
      using dist that B same_listing [of "db_listings d" x l] by simp
    then have img: "ls_Item ` {x \<in> set (db_listings d). ?cond x} = {ls_Item l}" using B by auto
    have "market_inv d'"
    proof (rule end_listings_inv [OF inv, where cond = ?cond and upd = "sold_to now buyer"])
      show "db_listings d' = map (\<lambda>l. if ?cond l then sold_to now buyer l else l) (db_listings d)" using B by blast
      show "rows_ok d'" using inv row by (auto simp: market_inv_def rows_ok_def)
    qed (use B row in \<open>auto simp: sold_to_def img\<close>)
    then show ?thesis using r by simp
  qed
qed

lemma Close_Inr:
  assumes "market_Close fault i seller force d = (d', Inr u)"
  obtains l row where "l \<in> set (db_listings d)" "ls_ID l = i" "ls_State l = StateOpen" "force \<or> ls_Seller l = seller"
    "db_items d (ls_Item l) = Some row" "db_items d' = (db_items d)(ls_Item l \<mapsto> row\<lparr>fr_Reserved := False\<rparr>)"
    "db_listings d' = map (\<lambda>l. if ls_ID l = i \<and> ls_State l = StateOpen \<and> (force \<or> ls_Seller l = seller)
       then l\<lparr>ls_State := StateClosed\<rparr> else l) (db_listings d)"
    "db_nextListing d' = db_nextListing d" "db_balances d' = db_balances d"
proof -
  let ?cond = "\<lambda>l. ls_ID l = i \<and> ls_State l = StateOpen \<and> (force \<or> ls_Seller l = seller)"
  let ?d = "d\<lparr>db_calls := Suc (db_calls d), db_listings := map (\<lambda>l. if ?cond l then l\<lparr>ls_State := StateClosed\<rparr> else l) (db_listings d)\<rparr>"
  from assms obtain x xs where x: "filter ?cond (db_listings d) = x # xs"
    "ReleaseFromMarketplace fault (ls_Item x) (ls_Seller x) ?d = Inr ((), d')"
    by (auto simp: market_Close_def WithinTransaction_def CloseListing_def update_listings_def
        split: sum.splits list.splits)
  from x(1) have "x \<in> set (filter ?cond (db_listings d))" by simp
  then show ?thesis
    using x(2) by (auto simp: ReleaseFromMarketplace_def update_Inr intro!: that)
qed

lemma market_Close_inv:
  assumes inv: "market_inv d" shows "market_inv (fst (market_Close fault i seller force d))"
proof -
  obtain d' res where r: "market_Close fault i seller force d = (d', res)" by (metis surj_pair)
  show ?thesis
  proof (cases res)
    case (Inl e)
    then show ?thesis using r inv by (auto simp: market_Close_def WithinTransaction_def split: sum.splits)
  next
    case (Inr u)
    let ?cond = "\<lambda>l. ls_ID l = i \<and> ls_State l = StateOpen \<and> (force \<or> ls_Seller l = seller)"
    obtain l row where
      l: "l \<in> set (db_listings d)" "ls_ID l = i" "ls_State l = StateOpen" "force \<or> ls_Seller l = seller"
      and row: "db_items d (ls_Item l) = Some row"
      "db_items d' = (db_items d)(ls_Item l \<mapsto> row\<lparr>fr_Reserved := False\<rparr>)"
      and d': "db_listings d' = map (\<lambda>l. if ?cond l then l\<lparr>ls_State := StateClosed\<rparr> else l) (db_listings d)"
      "db_nextListing d' = db_nextListing d" "db_balances d' = db_balances d"
      by (rule Close_Inr [OF r [unfolded Inr]])
    have dist: "distinct (map ls_ID (db_listings d))" using inv by (simp add: market_inv_def)
    have only: "x = l" if "x \<in> set (db_listings d)" "?cond x" for x
      using dist that l same_listing [of "db_listings d" x l] by simp
    have "{x \<in> set (db_listings d). ?cond x} = {l}" using only l by blast
    then have img: "ls_Item ` {x \<in> set (db_listings d). ?cond x} = {ls_Item l}" by simp
    have "market_inv d'"
    proof (rule end_listings_inv [OF inv, where cond = ?cond and upd = "ls_State_update (\<lambda>_. StateClosed)"])
      show "rows_ok d'" using inv row by (auto simp: market_inv_def rows_ok_def)
    qed (use d' row in \<open>auto simp: img\<close>)
    then show ?thesis using r by simp
  qed
qed

lemma expire_batch_inv:
  assumes inv: "market_inv d" shows "market_inv (fst (expire_batch fault now d))"
proof -
  obtain d' res where r: "expire_batch fault now d = (d', res)" by (metis surj_pair)
  show ?thesis
  proof (cases res)
    case (Inl e)
    then show ?thesis using r inv by (auto simp: expire_batch_def WithinTransaction_def split: sum.splits)
  next
    case (Inr n)
    define batch where "batch = take 100 (sort_key ls_ExpiresAt (filter (expired_at now) (db_listings d)))"
    obtain ids ls where ids: "ids = map ls_ID batch" and ls: "ls = filter (\<lambda>l. ls_ID l \<in> set ids) (db_listings d)"
      and d': "db_listings d' = map (\<lambda>l. if ls_ID l \<in> set ids then l\<lparr>ls_State := StateClosed\<rparr> else l) (db_listings d)"
      "db_nextListing d' = db_nextListing d"
      "db_items d' = (\<lambda>i. if i \<in> ls_Item ` set ls then map_option (fr_Reserved_update (\<lambda>_. False)) (db_items d i)
         else db_items d i)"
      by (rule expire_batch_Inr [OF r [unfolded Inr], folded batch_def])
    have batch: "x \<in> set (db_listings d) \<and> ls_State x = StateOpen" if "x \<in> set batch" for x
      using that unfolding batch_def by (auto dest!: in_set_takeD simp: expired_at_def)
    have "distinct (map ls_ID (db_listings d))" using inv by (simp add: market_inv_def)
    then have "x \<in> set batch" if "x \<in> set (db_listings d)" "ls_ID x \<in> set ids" for x
      using that batch unfolding ids by (auto dest: inj_onD simp: distinct_map)
    then have op: "ls_State x = StateOpen" if "x \<in> set (db_listings d)" "ls_ID x \<in> set ids" for x
      using that batch by blast
    have "market_inv d'"
    proof (rule end_listings_inv [OF inv, where cond = "\<lambda>l. ls_ID l \<in> set ids" and upd = "ls_State_update (\<lambda>_. StateClosed)"])
      show "rows_ok d'" using inv by (auto simp: market_inv_def rows_ok_def d'(3))
    qed (use d' op in \<open>auto simp: ls split: if_splits\<close>)
    then show ?thesis using r by simp
  qed
qed

lemma Redeem_Inr:
  assumes "Redeem fault types permissions now seller d = (d', Inr (paid, n))"
  shows "db_items d' = db_items d \<and> db_nextListing d' = db_nextListing d \<and>
    paid = sum_list (map ls_RawPrice (filter (\<lambda>l. ls_Seller l = seller \<and> unredeemed l) (db_listings d))) \<and>
    db_listings d' = map (\<lambda>l. if ls_Seller l = seller \<and> unredeemed l then l\<lparr>ls_RedeemedAt := Some now\<rparr> else l) (db_listings d) \<and>
    (\<forall>q s. balance_of d' q s = balance_of d q s + (if q = seller \<and> s = creditsType
       then granted permissions seller paid ActorPlayer else 0))"
proof -
  let ?d = "d\<lparr>db_calls := Suc (db_calls d), db_listings := map (\<lambda>l. if ls_Seller l = seller \<and> unredeemed l then l\<lparr>ls_RedeemedAt := Some now\<rparr> else l) (db_listings d)\<rparr>"
  have sum: "sum_list (map ls_RawPrice (map (ls_RedeemedAt_update (\<lambda>_. Some now)) xs)) = sum_list (map ls_RawPrice xs)" for xs
    by (induction xs) simp_all
  from assms have "paid = sum_list (map ls_RawPrice (filter (\<lambda>l. ls_Seller l = seller \<and> unredeemed l) (db_listings d)))"
    by (auto simp: Redeem_def WithinTransaction_def RedeemSold_def update_listings_def comp_def
        split: sum.splits if_splits)
  moreover have "(paid = 0 \<and> d' = ?d) \<or>
      (\<exists>b. Grant fault types permissions seller creditsType paid ''marketplace_redeem'' ActorPlayer ?d = Inr (b, d'))"
    using assms by (auto simp: Redeem_def WithinTransaction_def RedeemSold_def update_listings_def
        split: sum.splits if_splits)
  moreover have "granted permissions seller 0 ActorPlayer = 0" by (simp add: granted_def)
  ultimately show ?thesis by (auto dest!: Grant_Inr simp: same_goods_def)
qed

lemma Redeem_inv:
  assumes inv: "market_inv d" shows "market_inv (fst (Redeem fault types permissions now seller d))"
proof -
  obtain d' res where r: "Redeem fault types permissions now seller d = (d', res)" by (metis surj_pair)
  show ?thesis
  proof (cases res)
    case (Inl e)
    then show ?thesis using r inv by (auto simp: Redeem_def WithinTransaction_def split: sum.splits)
  next
    case (Inr tn)
    obtain paid n where "tn = (paid, n)" by (cases tn)
    note R = Redeem_Inr [OF r [unfolded Inr this]]
    let ?cond = "\<lambda>l. ls_Seller l = seller \<and> unredeemed l"
    have "filter (\<lambda>l. ls_Item l = i \<and> ls_State l = StateOpen)
          (map (\<lambda>l. if ?cond l then l\<lparr>ls_RedeemedAt := Some now\<rparr> else l) xs) =
        filter (\<lambda>l. ls_Item l = i \<and> ls_State l = StateOpen) xs" for xs i
      by (induction xs) (auto simp: unredeemed_def)
    then have opens: "opens d' i = opens d i" for i using R by (simp add: opens_def)
    have ids: "map ls_ID (map (\<lambda>l. if ?cond l then l\<lparr>ls_RedeemedAt := Some now\<rparr> else l) xs) = map ls_ID xs" for xs
      by (induction xs) auto
    have "db_listings d' = map (\<lambda>l. if ?cond l then l\<lparr>ls_RedeemedAt := Some now\<rparr> else l) (db_listings d)"
      using R by blast
    then have map_ids: "map ls_ID (db_listings d') = map ls_ID (db_listings d)" by (simp only: ids)
    then have ids_ok: "distinct (map ls_ID (db_listings d'))" "\<forall>x\<in>set (map ls_ID (db_listings d')). x < db_nextListing d'"
      using inv R by (simp_all only: market_inv_def) auto
    have "shelf_ok d' i" for i
    proof -
      have "shelf_ok d i" using inv by (simp add: market_inv_def)
      then show ?thesis using opens R unfolding shelf_ok_def by simp
    qed
    moreover have "rows_ok d'" using inv R by (simp add: market_inv_def rows_ok_def)
    ultimately have "market_inv d'" using ids_ok by (simp only: market_inv_def) auto
    then show ?thesis using r by simp
  qed
qed

text \<open>A trade's settlement cannot touch what is on sale.\<close>

lemma settle_inv:
  assumes inv: "market_inv d" and "pt_PlayerID (sn_First s) \<noteq> pt_PlayerID (sn_Second s)"
  shows "market_inv (fst (WithinTransaction (settle fault types permissions audit s) d))"
proof -
  obtain d' res where r: "WithinTransaction (settle fault types permissions audit s) d = (d', res)" by (metis surj_pair)
  have ok: "rows_ok d" using inv by (simp add: market_inv_def)
  show ?thesis
  proof (cases res)
    case (Inl e)
    then show ?thesis using settle_outcome [OF r ok refl refl assms(2)] inv r by simp
  next
    case (Inr u)
    then have ls: "db_listings d' = db_listings d" "db_nextListing d' = db_nextListing d"
      using r settle_listings [OF _ ok assms(2)] by (auto simp: WithinTransaction_def split: sum.splits)
    obtain firsts seconds where
      t: "list_all (tradable d (pt_PlayerID (sn_First s))) firsts" "list_all (tradable d (pt_PlayerID (sn_Second s))) seconds"
      "\<forall>i\<in>set (item_ids firsts). db_items d' i = handed_over firsts (pt_PlayerID (sn_Second s)) d i"
      "\<forall>i\<in>set (item_ids seconds). db_items d' i = handed_over seconds (pt_PlayerID (sn_First s)) d i"
      "\<forall>i. i \<notin> set (item_ids firsts) \<union> set (item_ids seconds) \<longrightarrow> db_items d' i = db_items d i"
      using settle_outcome [OF r ok refl refl assms(2)] Inr by (simp only: sum.case) blast
    have keep: "(\<exists>r. db_items d i = Some r \<and> \<not> fr_Reserved r) \<and>
        (\<forall>row. handed_over items x d i = Some row \<longrightarrow> \<not> fr_Reserved row \<and> fr_ID row = i)"
      if "list_all (tradable d p) items" "i \<in> set (item_ids items)" for items p x i
    proof -
      from that obtain r k where "(r, k) \<in> set items" "fr_ID r = i" by (auto simp: item_ids_def)
      with that(1) have "db_items d i = Some r" "\<not> fr_Reserved r" by (auto simp: list_all_iff tradable_def available_def)
      then show ?thesis using \<open>fr_ID r = i\<close> by (auto simp: handed_over_def split: option.splits if_splits)
    qed
    have touched: "(\<exists>r. db_items d i = Some r \<and> \<not> fr_Reserved r) \<and>
        (\<forall>row. db_items d' i = Some row \<longrightarrow> \<not> fr_Reserved row \<and> fr_ID row = i)"
      if "i \<in> set (item_ids firsts) \<union> set (item_ids seconds)" for i
      using that t(3,4) keep [OF t(1)] keep [OF t(2)] by auto
    have "shelf_ok d' i" for i
    proof (cases "i \<in> set (item_ids firsts) \<union> set (item_ids seconds)")
      case True
      moreover have "shelf_ok d i" using inv by (simp add: market_inv_def)
      ultimately show ?thesis
        using touched [OF True] by (auto simp: shelf_ok_def opens_def ls held_for_def)
    next
      case False
      then show ?thesis using inv t(5) by (simp add: market_inv_def shelf_ok_def opens_def ls)
    qed
    moreover have "rows_ok d'"
      unfolding rows_ok_def
    proof (intro allI impI)
      fix i row assume "db_items d' i = Some row"
      then show "fr_ID row = i"
        using touched [of i] t(5) ok by (cases "i \<in> set (item_ids firsts) \<union> set (item_ids seconds)") (auto simp: rows_ok_def)
    qed
    ultimately have "market_inv d'" using inv by (simp add: market_inv_def ls)
    then show ?thesis using r by simp
  qed
qed

subsection \<open>The service next to the live trades\<close>

text \<open>The operations of the marketplace, each in its own transaction; \<open>MExpire\<close> is one batch, so a run of them
  covers \<^verbatim>\<open>Expire\<close> interleaved with anything else.\<close>

datatype market_op =
    MBuyTokens "nat \<Rightarrow> bool" ident
  | MList "nat \<Rightarrow> bool" int ident ident int
  | MBuy "nat \<Rightarrow> bool" int ident ident
  | MClose "nat \<Rightarrow> bool" ident ident bool
  | MRedeem "nat \<Rightarrow> bool" int ident
  | MExpire "nat \<Rightarrow> bool" int

definition market_step ::
  "catalog \<Rightarrow> checker option \<Rightarrow> market_config \<Rightarrow> (ident \<Rightarrow> bool) \<Rightarrow> market_op \<Rightarrow> db \<Rightarrow> db" where
  "market_step types permissions c staged op d = (case op of
     MBuyTokens fault p \<Rightarrow> fst (BuyTokens fault types permissions c p d)
   | MList fault now p i price \<Rightarrow> fst (market_List fault staged c now p i price d)
   | MBuy fault now p i \<Rightarrow> fst (Buy fault types permissions c now p i d)
   | MClose fault i p force \<Rightarrow> fst (market_Close fault i p force d)
   | MRedeem fault now p \<Rightarrow> fst (Redeem fault types permissions now p d)
   | MExpire fault now \<Rightarrow> fst (expire_batch fault now d))"

lemma market_step_inv: "market_inv d \<Longrightarrow> market_inv (market_step types permissions c staged op d)"
  by (simp add: market_step_def BuyTokens_inv List_inv Buy_inv market_Close_inv Redeem_inv expire_batch_inv
      split: market_op.split)

text \<open>The store under the marketplace and the trades, interleaved: a listing looks up the live trades, and a
  trade that both players confirmed is settled by the goroutine that claimed it.\<close>

inductive market_reachable :: "catalog \<Rightarrow> checker option \<Rightarrow> market_config \<Rightarrow> registry \<Rightarrow> db \<Rightarrow> bool"
  for types permissions c where
  boot: "rows_ok d \<Longrightarrow> db_listings d = [] \<Longrightarrow> \<forall>i row. db_items d i = Some row \<longrightarrow> \<not> fr_Reserved row \<Longrightarrow>
    market_reachable types permissions c NewRegistry d"
| trade: "market_reachable types permissions c r d \<Longrightarrow> trade_step r op r' \<Longrightarrow> market_reachable types permissions c r' d"
| settle: "market_reachable types permissions c r d \<Longrightarrow> a < rg_next r \<Longrightarrow> sn_settling (session_at r a) \<Longrightarrow>
    market_reachable types permissions c r
      (fst (WithinTransaction (settle fault types permissions audit (session_at r a)) d))"
| market: "market_reachable types permissions c r d \<Longrightarrow>
    market_reachable types permissions c r (market_step types permissions c (Contains r) op d)"

lemma market_reachable_inv:
  "market_reachable types permissions c r d \<Longrightarrow> trade_reachable r \<and> market_inv d"
proof (induction rule: market_reachable.induct)
  case (boot d)
  then show ?case by (simp add: market_inv_def shelf_ok_def opens_def trade_reachable.init)
next
  case (trade r d op r')
  then show ?case using trade_reachable.step by blast
next
  case (settle r d a fault audit)
  then have "session_inv (session_at r a)"
    using trade_reachable_inv by (auto simp: trade_inv_def heap_ok_def)
  then show ?case using settle by (auto simp: session_inv_def intro: settle_inv)
next
  case (market r d op)
  then show ?case by (simp add: market_step_inv)
qed

text \<open>C20: What is reserved is what is on sale. Whatever listings, purchases, closures, redemptions and expiries
  the players and the clock cause, in any order, with whatever failures of the store, and next to whatever
  trades are negotiated and settled, an item row is reserved exactly when an open listing offers it; the
  listing is the only one and its seller still owns the item.\<close>

theorem reserved_items_are_listed:
  assumes "market_reachable types permissions c r d"
  shows "(db_items d i = Some row \<and> fr_Reserved row \<longrightarrow> opens d i \<noteq> []) \<and>
    (l \<in> set (opens d i) \<longrightarrow> opens d i = [l] \<and>
      (\<exists>row. db_items d i = Some row \<and> fr_Reserved row \<and> fr_Owner row = ls_Seller l))"
proof -
  have "shelf_ok d i" using market_reachable_inv [OF assms] by (simp add: market_inv_def)
  then show ?thesis by (auto simp: shelf_ok_def held_for_def)
qed

subsection \<open>Money\<close>

definition credit_total :: "db \<Rightarrow> int" where
  "credit_total d = sum_list (map snd (filter (\<lambda>((p, t), a). t = creditsType) (db_balances d)))"

text \<open>What the hotel owes to sellers: the raw prices of sold listings that nobody redeemed yet.\<close>

definition owed :: "db \<Rightarrow> int" where
  "owed d = sum_list (map ls_RawPrice (filter unredeemed (db_listings d)))"

definition wealth :: "db \<Rightarrow> int" where "wealth d = credit_total d + owed d"

definition money_inv :: "db \<Rightarrow> bool" where
  "money_inv d \<longleftrightarrow> market_inv d \<and> distinct (map fst (db_balances d)) \<and> (\<forall>l\<in>set (db_listings d). 0 < ls_RawPrice l)"

definition no_infinite :: "checker option \<Rightarrow> bool" where
  "no_infinite permissions \<longleftrightarrow> (\<forall>has p. permissions = Some has \<longrightarrow> has p \<noteq> Inr True)"

lemma granted_all [simp]: "no_infinite permissions \<Longrightarrow> granted permissions p amount actor = amount"
  by (auto simp: granted_def no_infinite_def infiniteBalance_def split: option.splits if_splits)

lemma Grant_distinct:
  assumes "Grant fault types permissions p t amount reason actor d = Inr (b, d')" "distinct (map fst (db_balances d))"
  shows "distinct (map fst (db_balances d'))"
proof -
  obtain ledger inf where v: "validateMutation types p t amount actor False = Inr ledger"
    "infiniteBalance permissions p amount actor = Inr inf"
    using assms(1) by (auto simp: Grant_def split: sum.splits)
  show ?thesis
  proof (cases inf)
    case True
    then show ?thesis using assms v by (auto simp: Grant_def findBalance_def)
  next
    case False
    with assms(1) v obtain m delta where "mutate_balance fault m False d = Inr ((b, delta), d')"
      by (auto simp: Grant_def Grant_error_def split: sum.splits economy_error.splits prod.splits)
    then show ?thesis using mutate_balance_Inr assms(2) by (metis distinct_update)
  qed
qed

lemma credit_sum:
  fixes bs :: balances
  assumes "distinct (map fst bs)" and "finite S" and "{p. (p, creditsType) \<in> fst ` set bs} \<subseteq> S"
  shows "sum_list (map snd (filter (\<lambda>((p, t), a). t = creditsType) bs)) =
    (\<Sum>p\<in>S. case map_of bs (p, creditsType) of None \<Rightarrow> 0 | Some a \<Rightarrow> a)"
  using assms
proof (induction bs)
  case (Cons e bs)
  obtain p t a where e: "e = ((p, t), a)" by (metis surj_pair)
  have IH: "sum_list (map snd (filter (\<lambda>((p, t), a). t = creditsType) bs)) =
      (\<Sum>q\<in>S. case map_of bs (q, creditsType) of None \<Rightarrow> 0 | Some a \<Rightarrow> a)"
    using Cons by auto
  have new: "map_of bs (p, t) = None" using Cons.prems(1) by (auto simp: e map_of_eq_None_iff)
  show ?case
  proof (cases "t = creditsType")
    case True
    then have "p \<in> S" using Cons.prems(3) by (auto simp: e)
    then have split: "(\<Sum>q\<in>S. f q) = f p + (\<Sum>q\<in>S - {p}. f q)" for f :: "int \<Rightarrow> int"
      using \<open>finite S\<close> by (rule sum.remove [rotated])
    have "(\<Sum>q\<in>S - {p}. case map_of (e # bs) (q, creditsType) of None \<Rightarrow> 0 | Some a \<Rightarrow> a) =
        (\<Sum>q\<in>S - {p}. case map_of bs (q, creditsType) of None \<Rightarrow> 0 | Some a \<Rightarrow> a)"
      by (intro sum.cong) (auto simp: e)
    then show ?thesis using True IH new split by (simp add: e)
  next
    case False
    then show ?thesis using IH by (simp add: e)
  qed
qed simp

lemma credit_total_change:
  assumes "distinct (map fst (db_balances d))" and "distinct (map fst (db_balances d'))"
    and "\<And>q. balance_of d' q creditsType = balance_of d q creditsType + (if q = p then n else 0)"
  shows "credit_total d' = credit_total d + n"
proof -
  define S where "S = insert p {q. (q, creditsType) \<in> fst ` set (db_balances d) \<union> fst ` set (db_balances d')}"
  have "S \<subseteq> insert p (fst ` (fst ` set (db_balances d) \<union> fst ` set (db_balances d')))"
    unfolding S_def by force
  then have fin: "finite S" by (rule finite_subset) simp
  have tot: "credit_total x = (\<Sum>q\<in>S. balance_of x q creditsType)" if "x = d \<or> x = d'" for x
    using that assms(1,2) fin unfolding credit_total_def balance_of_def by (intro credit_sum) (auto simp: S_def)
  have "(\<Sum>q\<in>S. balance_of d' q creditsType) = (\<Sum>q\<in>S. balance_of d q creditsType) + (\<Sum>q\<in>S. if q = p then n else 0)"
    by (simp add: assms(3) sum.distrib)
  also have "(\<Sum>q\<in>S. if q = p then n else 0) = n" using fin by (simp add: S_def)
  finally show ?thesis by (simp add: tot)
qed

lemma Grant_credit_total:
  assumes "Grant fault types permissions p creditsType n reason actor d = Inr (b, d')"
    and "distinct (map fst (db_balances d))" and "no_infinite permissions"
  shows "credit_total d' = credit_total d + n"
  using assms Grant_Inr [OF assms(1)] Grant_distinct [OF assms(1,2)] by (intro credit_total_change [of d d' p]) simp_all

lemma owed_sold:
  assumes "l \<in> set ls" "distinct ls" "\<And>x. x \<in> set ls \<Longrightarrow> cond x \<longleftrightarrow> x = l" "\<not> unredeemed l" "0 < ls_RawPrice l" "ls_RawPrice (u l) = ls_RawPrice l"
  shows "sum_list (map ls_RawPrice (filter unredeemed (map (\<lambda>x. if cond x then u x else x) ls))) \<le>
    sum_list (map ls_RawPrice (filter unredeemed ls)) + ls_RawPrice l"
  using assms(1-3)
proof (induction ls)
  case (Cons y ys)
  show ?case
  proof (cases "y = l")
    case True
    have "map (\<lambda>x. if cond x then u x else x) ys = ys"
      using Cons.prems True by (intro map_idI) auto
    then show ?thesis using True Cons.prems(3) [of l] assms(4-6) by simp
  next
    case False
    then show ?thesis using Cons by simp
  qed
qed simp

lemma owed_closed:
  assumes "\<And>x. \<not> unredeemed (u x)" and "\<And>x. x \<in> set ls \<Longrightarrow> 0 < ls_RawPrice x"
  shows "sum_list (map ls_RawPrice (filter unredeemed (map (\<lambda>x. if cond x then u x else x) ls))) \<le>
    sum_list (map ls_RawPrice (filter unredeemed ls))"
  using assms by (induction ls) (auto simp: add_increasing2 order_less_imp_le intro: add_increasing)

lemma owed_redeemed:
  "sum_list (map ls_RawPrice (filter unredeemed (map (\<lambda>l. if ls_Seller l = p \<and> unredeemed l
       then l\<lparr>ls_RedeemedAt := Some now\<rparr> else l) ls))) =
    sum_list (map ls_RawPrice (filter unredeemed ls)) -
    sum_list (map ls_RawPrice (filter (\<lambda>l. ls_Seller l = p \<and> unredeemed l) ls))"
  by (induction ls) (auto simp: unredeemed_def)

definition charges :: "market_config \<Rightarrow> bool" where
  "charges c \<longleftrightarrow> 0 < mc_TokenCost c \<and> 0 \<le> mc_CommissionPercent c"

lemma clamp_charges: "charges (clamp_config c)"
  by (simp add: charges_def clamp_config_def Let_def)

lemma BuyerPrice_ge: "charges c \<Longrightarrow> 0 \<le> raw \<Longrightarrow> raw \<le> BuyerPrice c raw"
  by (simp add: BuyerPrice_def charges_def pos_imp_zdiv_nonneg_iff)

text \<open>One operation keeps the money invariant and does not raise the wealth.\<close>

definition no_richer :: "db \<Rightarrow> db \<Rightarrow> bool" where
  "no_richer d d' \<longleftrightarrow> distinct (map fst (db_balances d')) \<and> (\<forall>l\<in>set (db_listings d'). 0 < ls_RawPrice l) \<and> wealth d' \<le> wealth d"

lemma no_richer_refl: "money_inv d \<Longrightarrow> no_richer d d"
  by (simp add: money_inv_def no_richer_def)

lemma BuyTokens_no_richer:
  assumes inv: "money_inv d" and c: "charges c" "no_infinite permissions"
  shows "no_richer d (fst (BuyTokens fault types permissions c p d))"
proof -
  obtain d' res where r: "BuyTokens fault types permissions c p d = (d', res)" by (metis surj_pair)
  show ?thesis
  proof (cases "d' = d")
    case False
    with r have "WithinTransaction (and_then (Grant fault types permissions p creditsType (- mc_TokenCost c)
        ''marketplace_tokens'' ActorPlayer) (\<lambda>_. AddTokens fault p (mc_TokenPackageSize c))) d = (d', res)"
      by (simp add: BuyTokens_def split: if_splits)
    then obtain b d1 t where g: "Grant fault types permissions p creditsType (- mc_TokenCost c)
        ''marketplace_tokens'' ActorPlayer d = Inr (b, d1)" and a: "AddTokens fault p (mc_TokenPackageSize c) d1 = Inr (t, d')"
      by (rule tx_cases) (use False in auto)
    have dist: "distinct (map fst (db_balances d))" using inv by (simp add: money_inv_def)
    note G = Grant_Inr [OF g] Grant_distinct [OF g dist] Grant_credit_total [OF g dist c(2)]
    have d': "db_listings d' = db_listings d" "db_balances d' = db_balances d1"
      using AddTokens_Inr [OF a] G(1) by (auto simp: same_goods_def)
    then have "credit_total d' = credit_total d - mc_TokenCost c" "owed d' = owed d"
      using G(3) by (simp_all add: credit_total_def owed_def)
    then show ?thesis using inv r c(1) d' G(2) by (simp add: no_richer_def wealth_def money_inv_def charges_def)
  qed (use inv r no_richer_refl in simp)
qed

lemma List_no_richer:
  assumes inv: "money_inv d" shows "no_richer d (fst (market_List fault staged c now p i price d))"
proof -
  obtain d' res where r: "market_List fault staged c now p i price d = (d', res)" by (metis surj_pair)
  show ?thesis
  proof (cases "d' = d")
    case False
    then obtain l where "and_then (SpendToken fault p) (\<lambda>spent. if \<not> spent then fail ErrNoToken
        else and_then (ReserveForMarketplace fault staged i p) (\<lambda>(r, k).
          CreateListing fault p (fr_ID r) (fk_ID k) price (now + mc_OfferDuration c))) d = Inr (l, d')"
      using r by (auto simp: market_List_def split: if_splits elim!: tx_cases)
    then obtain spent d1 row k d2 where sp: "SpendToken fault p d = Inr (spent, d1)" and
      res: "ReserveForMarketplace fault staged i p d1 = Inr ((row, k), d2)" and
      cre: "CreateListing fault p (fr_ID row) (fk_ID k) price (now + mc_OfferDuration c) d2 = Inr (l, d')"
      by (auto split: if_splits)
    have d1: "db_listings d1 = db_listings d" "db_balances d1 = db_balances d"
      using sp by (auto simp: SpendToken_def split: option.splits if_splits)
    have d2: "db_listings d2 = db_listings d" "db_balances d2 = db_balances d"
      using ReserveForMarketplace_Inr [OF res] d1 by (auto simp: same_money_def)
    have "ls_State l = StateOpen" "0 < ls_RawPrice l" "db_listings d' = db_listings d @ [l]" "db_balances d' = db_balances d"
      using cre d2 by (auto simp: CreateListing_def Let_def open_at_def split: if_splits)
    then show ?thesis
      using inv r by (auto simp: no_richer_def wealth_def money_inv_def credit_total_def owed_def unredeemed_def)
  qed (use inv r no_richer_refl in simp)
qed

lemma Buy_distinct:
  assumes "Buy fault types permissions c now p i d = (d', Inr l)" and "distinct (map fst (db_balances d))"
  shows "distinct (map fst (db_balances d'))"
  using assms
  by (auto simp: Buy_def WithinTransaction_def FindListingForUpdate_def TransferFromMarketplace_def update_Inr
      MarkSold_def update_listings_def split: sum.splits option.splits if_splits dest!: Grant_distinct)

lemma Redeem_distinct:
  assumes "Redeem fault types permissions now p d = (d', Inr (paid, n))" and "distinct (map fst (db_balances d))"
  shows "distinct (map fst (db_balances d'))"
  using assms
  by (auto simp: Redeem_def WithinTransaction_def RedeemSold_def update_listings_def
      split: sum.splits if_splits dest!: Grant_distinct)

lemma Buy_no_richer:
  assumes inv: "money_inv d" and c: "charges c" "no_infinite permissions"
  shows "no_richer d (fst (Buy fault types permissions c now p i d))"
proof -
  obtain d' res where r: "Buy fault types permissions c now p i d = (d', res)" by (metis surj_pair)
  show ?thesis
  proof (cases res)
    case (Inl e)
    then have "d' = d" using r by (auto simp: Buy_def WithinTransaction_def split: if_splits sum.splits)
    then show ?thesis using r inv no_richer_refl by simp
  next
    case (Inr l)
    note B = Buy_Inr [OF r [unfolded Inr]]
    let ?cond = "\<lambda>l. ls_ID l = i \<and> ls_State l = StateOpen \<and> ls_ExpiresAt l > now"
    have dist: "distinct (map ls_ID (db_listings d))" "distinct (map fst (db_balances d))" "0 < ls_RawPrice l"
      using inv B by (auto simp: money_inv_def market_inv_def)
    have "?cond x \<longleftrightarrow> x = l" if "x \<in> set (db_listings d)" for x
    proof -
      have "l \<in> set (db_listings d)" "?cond l" using B by blast+
      then show ?thesis using that same_listing [OF dist(1), of x l] by auto
    qed
    then have "sum_list (map ls_RawPrice (filter unredeemed (map (\<lambda>l. if ?cond l then sold_to now p l else l) (db_listings d)))) \<le>
        sum_list (map ls_RawPrice (filter unredeemed (db_listings d))) + ls_RawPrice l"
      using B dist by (intro owed_sold) (simp_all add: distinct_map unredeemed_def sold_to_def)
    moreover have "db_listings d' = map (\<lambda>l. if ?cond l then sold_to now p l else l) (db_listings d)" using B by blast
    ultimately have owed: "owed d' \<le> owed d + ls_RawPrice l" by (simp only: owed_def)
    have dist': "distinct (map fst (db_balances d'))" using Buy_distinct [OF r [unfolded Inr] dist(2)] .
    have "credit_total d' = credit_total d + - BuyerPrice c (ls_RawPrice l)"
      using B c(2) by (intro credit_total_change [OF dist(2) dist', of p]) simp
    then have "wealth d' \<le> wealth d" using owed BuyerPrice_ge [OF c(1), of "ls_RawPrice l"] dist(3) by (simp add: wealth_def)
    then show ?thesis using B dist' inv r by (auto simp: no_richer_def money_inv_def sold_to_def)
  qed
qed

lemma Close_no_richer:
  assumes inv: "money_inv d" shows "no_richer d (fst (market_Close fault i p force d))"
proof -
  obtain d' res where r: "market_Close fault i p force d = (d', res)" by (metis surj_pair)
  show ?thesis
  proof (cases res)
    case (Inl e)
    then have "d' = d" using r by (auto simp: market_Close_def WithinTransaction_def split: sum.splits)
    then show ?thesis using r inv no_richer_refl by simp
  next
    case (Inr u)
    let ?cond = "\<lambda>l. ls_ID l = i \<and> ls_State l = StateOpen \<and> (force \<or> ls_Seller l = p)"
    have d': "db_listings d' = map (\<lambda>l. if ?cond l then l\<lparr>ls_State := StateClosed\<rparr> else l) (db_listings d)"
      "db_balances d' = db_balances d" by (rule Close_Inr [OF r [unfolded Inr]]; simp)+
    have "owed d' \<le> owed d" unfolding owed_def d'
      using inv by (intro owed_closed) (auto simp: unredeemed_def money_inv_def)
    then show ?thesis using inv r d' by (auto simp: no_richer_def wealth_def money_inv_def credit_total_def)
  qed
qed

lemma Redeem_no_richer:
  assumes inv: "money_inv d" and c: "no_infinite permissions"
  shows "no_richer d (fst (Redeem fault types permissions now p d))"
proof -
  obtain d' res where r: "Redeem fault types permissions now p d = (d', res)" by (metis surj_pair)
  show ?thesis
  proof (cases res)
    case (Inl e)
    then have "d' = d" using r by (auto simp: Redeem_def WithinTransaction_def split: sum.splits)
    then show ?thesis using r inv no_richer_refl by simp
  next
    case (Inr tn)
    obtain paid n where tn: "tn = (paid, n)" by (cases tn)
    note R = Redeem_Inr [OF r [unfolded Inr tn]]
    have dist: "distinct (map fst (db_balances d))" using inv by (simp add: money_inv_def)
    have dist': "distinct (map fst (db_balances d'))" using Redeem_distinct [OF r [unfolded Inr tn] dist] .
    have "credit_total d' = credit_total d + paid"
      using R c by (intro credit_total_change [OF dist dist', of p]) simp
    moreover have "owed d' = owed d - paid" using R owed_redeemed [of p now "db_listings d"] by (simp add: owed_def)
    moreover have "\<forall>l\<in>set (db_listings d'). 0 < ls_RawPrice l" using R inv by (auto simp: money_inv_def)
    ultimately show ?thesis using dist' r by (simp add: no_richer_def wealth_def)
  qed
qed

lemma expire_no_richer:
  assumes inv: "money_inv d" shows "no_richer d (fst (expire_batch fault now d))"
proof -
  obtain d' res where r: "expire_batch fault now d = (d', res)" by (metis surj_pair)
  show ?thesis
  proof (cases res)
    case (Inl e)
    then have "d' = d" using r by (auto simp: expire_batch_def WithinTransaction_def split: sum.splits)
    then show ?thesis using r inv no_richer_refl by simp
  next
    case (Inr n)
    obtain ids where
      d': "db_listings d' = map (\<lambda>l. if ls_ID l \<in> set ids then l\<lparr>ls_State := StateClosed\<rparr> else l) (db_listings d)"
      "db_balances d' = db_balances d" by (rule expire_batch_Inr [OF r [unfolded Inr]])
    have "owed d' \<le> owed d" unfolding owed_def d'
      using inv by (intro owed_closed) (auto simp: unredeemed_def money_inv_def)
    then show ?thesis using inv r d' by (auto simp: no_richer_def wealth_def money_inv_def credit_total_def)
  qed
qed

lemma market_step_no_richer:
  assumes "money_inv d" and "charges c" and "no_infinite permissions"
  shows "no_richer d (market_step types permissions c staged op d)"
  using assms
  by (simp add: market_step_def BuyTokens_no_richer List_no_richer Buy_no_richer Close_no_richer Redeem_no_richer
      expire_no_richer split: market_op.split)

lemma market_step_money_inv:
  assumes "money_inv d" and "charges c" and "no_infinite permissions"
  shows "money_inv (market_step types permissions c staged op d)"
  using market_step_no_richer [OF assms] market_step_inv assms(1) by (auto simp: money_inv_def no_richer_def)

text \<open>C21: The marketplace never creates money. For any loaded configuration, and players
  without an infinite balance, no sequence of marketplace operations - token purchases, listings, purchases,
  closures, redemptions, expiries, committed or rolled back - raises the sum of all credit balances and of
  the sales that sellers have not redeemed yet.\<close>

theorem marketplace_never_creates_money:
  assumes "money_inv d" and "no_infinite permissions"
  shows "wealth (fold (market_step types permissions (LoadConfig ints bools durations) staged) ops d) \<le> wealth d"
proof -
  obtain c where c: "LoadConfig ints bools durations = clamp_config c" by (simp add: LoadConfig_def)
  have "money_inv d' \<Longrightarrow> money_inv (fold (market_step types permissions (clamp_config c) staged) ops d') \<and>
      wealth (fold (market_step types permissions (clamp_config c) staged) ops d') \<le> wealth d'" for d'
  proof (induction ops arbitrary: d')
    case (Cons op ops)
    note step = market_step_no_richer [OF Cons.prems clamp_charges assms(2), of types c staged op]
      and inv = market_step_money_inv [OF Cons.prems clamp_charges assms(2), of types c staged op]
    show ?case using Cons.IH [OF inv] step by (simp add: no_richer_def)
  qed simp
  then show ?thesis using assms(1) c by simp
qed

text \<open>Prices fit the protocol. A price that \<open>List\<close> accepts under a loaded configuration is positive, and what
  the buyer pays for it, commission included, is at least the price and fits a 32 bit integer.\<close>

theorem buyer_price_in_range:
  assumes "market_List fault staged (LoadConfig ints bools durations) now p i price d = (d', Inr l)"
  shows "0 < price \<and> ls_RawPrice l = price \<and> price \<le> BuyerPrice (LoadConfig ints bools durations) price \<and>
    BuyerPrice (LoadConfig ints bools durations) price \<le> MaxInt32"
proof -
  obtain c where c: "LoadConfig ints bools durations = clamp_config c" by (simp add: LoadConfig_def)
  let ?c = "clamp_config c"
  have range: "mc_MinimumPrice ?c \<le> price" "price \<le> mc_MaximumPrice ?c" and raw: "ls_RawPrice l = price"
    using assms c by (auto simp: market_List_def WithinTransaction_def CreateListing_def Let_def
        split: if_splits sum.splits)
  have pct: "0 \<le> mc_CommissionPercent ?c" "mc_CommissionPercent ?c \<le> 100"
    by (simp_all add: clamp_config_def Let_def)
  have mx: "mc_MaximumPrice ?c \<le> MaxInt32 * 100 div (100 + mc_CommissionPercent ?c)"
    by (simp add: clamp_config_def Let_def)
  have mn: "1 \<le> mc_MinimumPrice ?c" by (simp add: clamp_config_def Let_def)
  define q where "q = mc_CommissionPercent ?c"
  have "price * (100 + q) \<le> MaxInt32 * 100 div (100 + q) * (100 + q)"
    using range mx pct by (intro mult_right_mono) (simp_all add: q_def)
  also have "\<dots> \<le> MaxInt32 * 100"
    using pct minus_mod_eq_div_mult [of "MaxInt32 * 100" "100 + q", symmetric] pos_mod_sign [of "100 + q" "MaxInt32 * 100"]
    by (simp add: q_def)
  finally have "price * q \<le> (MaxInt32 - price) * 100" by (simp add: algebra_simps)
  then have "(price * q + 99) div 100 \<le> ((MaxInt32 - price) * 100 + 99) div 100"
    by (intro zdiv_mono1) simp_all
  also have "\<dots> = MaxInt32 - price" by simp
  finally have "BuyerPrice ?c price \<le> MaxInt32" by (simp add: BuyerPrice_def q_def)
  then show ?thesis
    using mn range raw c BuyerPrice_ge [OF clamp_charges, of price c] by auto
qed

lemma expire_batch_closes:
  assumes "expire_batch fault now d = (d', Inr n)" and "market_inv d"
  shows "\<forall>l\<in>set (db_listings d'). ls_State l = StateOpen \<longrightarrow> l \<in> set (db_listings d)"
    and "n < 100 \<Longrightarrow> \<forall>l\<in>set (db_listings d'). \<not> expired_at now l"
proof -
  define batch where "batch = take 100 (sort_key ls_ExpiresAt (filter (expired_at now) (db_listings d)))"
  obtain ids ls where ids: "ids = map ls_ID batch" and ls: "ls = filter (\<lambda>l. ls_ID l \<in> set ids) (db_listings d)" "n = length ls"
    and d': "db_listings d' = map (\<lambda>l. if ls_ID l \<in> set ids then l\<lparr>ls_State := StateClosed\<rparr> else l) (db_listings d)"
    by (rule expire_batch_Inr [OF assms(1), folded batch_def])
  show "\<forall>l\<in>set (db_listings d'). ls_State l = StateOpen \<longrightarrow> l \<in> set (db_listings d)" by (auto simp: d')
  assume "n < 100"
  have dist: "distinct (map ls_ID (db_listings d))" using assms(2) by (simp add: market_inv_def)
  have dl: "distinct (filter (expired_at now) (db_listings d))" using dist by (simp add: distinct_map)
  have "set batch \<subseteq> set (db_listings d)" by (auto simp: batch_def dest!: in_set_takeD)
  then have "set batch \<subseteq> set ls" by (auto simp: ls ids)
  then have "card (set batch) \<le> length ls" using card_mono [of "set ls"] card_length [of ls] by (meson List.finite_set le_trans)
  moreover have "distinct batch" using dl by (simp add: batch_def)
  ultimately have "length batch < 100" using \<open>n < 100\<close> ls(2) by (simp add: distinct_card)
  then have "batch = sort_key ls_ExpiresAt (filter (expired_at now) (db_listings d))"
    by (simp add: batch_def min_def split: if_splits)
  then have "ids = map ls_ID (sort_key ls_ExpiresAt (filter (expired_at now) (db_listings d)))" by (simp only: ids)
  then show "\<forall>l\<in>set (db_listings d'). \<not> expired_at now l"
    unfolding d' by (auto simp: expired_at_def)
qed

lemma expire_batch_keeps:
  assumes "expire_batch fault now d = (d', Inr n)" and "market_inv d"
    and l: "l \<in> set (db_listings d)" "ls_State l = StateOpen" "ls_ExpiresAt l > now"
  shows "l \<in> set (db_listings d')"
proof -
  obtain ids where
    ids: "ids = map ls_ID (take 100 (sort_key ls_ExpiresAt (filter (expired_at now) (db_listings d))))"
    and d': "db_listings d' = map (\<lambda>l. if ls_ID l \<in> set ids then l\<lparr>ls_State := StateClosed\<rparr> else l) (db_listings d)"
    by (rule expire_batch_Inr [OF assms(1)])
  have dist: "distinct (map ls_ID (db_listings d))" using assms(2) by (simp add: market_inv_def)
  have "ls_ID l \<notin> set ids"
  proof
    assume "ls_ID l \<in> set ids"
    then obtain x where x: "x \<in> set (db_listings d)" "expired_at now x" "ls_ID x = ls_ID l"
      unfolding ids by (auto dest!: in_set_takeD)
    from same_listing [OF dist x(1) l(1) x(3)] x(2) l(3) show False by (simp add: expired_at_def)
  qed
  then show ?thesis using l(1) by (auto simp: d' image_iff intro!: bexI [of _ l])
qed

lemma Expire_closes:
  assumes "market_inv d" and "market_Expire fault now n d = (d', m, None)"
  shows "n \<le> m \<and> (\<forall>l\<in>set (db_listings d'). \<not> expired_at now l) \<and>
    (\<forall>l\<in>set (db_listings d). ls_State l = StateOpen \<and> ls_ExpiresAt l > now \<longrightarrow> l \<in> set (db_listings d'))"
  using assms
proof (induction fault now n d rule: market_Expire.induct)
  case (1 fault now n d)
  obtain d1 b where e: "expire_batch fault now d = (d1, Inr b)"
    using "1.prems"(2) by (cases "expire_batch fault now d") (auto simp: market_Expire.simps [of fault now n d] split: sum.splits)
  have inv: "market_inv d1" using expire_batch_inv [OF "1.prems"(1), of fault now] e by simp
  have keep: "l \<in> set (db_listings d1)" if "l \<in> set (db_listings d)" "ls_State l = StateOpen" "ls_ExpiresAt l > now" for l
    using expire_batch_keeps [OF e "1.prems"(1) that] .
  show ?case
  proof (cases "b < 100")
    case True
    then have "d' = d1" "m = n + b" using "1.prems"(2) e by (simp_all add: market_Expire.simps [of fault now n d])
    then show ?thesis using expire_batch_closes(2) [OF e "1.prems"(1) True] keep by simp
  next
    case False
    then have "market_Expire fault now (n + b) d1 = (d', m, None)"
      using "1.prems"(2) e by (simp add: market_Expire.simps [of fault now n d])
    from "1.IH" [OF e [symmetric] refl False inv this] keep show ?thesis by auto
  qed
qed

lemma release_all_total:
  assumes "\<And>n. \<not> fault n" and "distinct (map ls_Item ls)"
    and "\<forall>l\<in>set ls. \<exists>row. db_items d (ls_Item l) = Some row \<and> held_for (ls_Seller l) row"
  shows "\<exists>d'. release_all fault ls d = Inr ((), d')"
  using assms(2,3)
proof (induction ls arbitrary: d)
  case (Cons l ls)
  then obtain row where "db_items d (ls_Item l) = Some row" "held_for (ls_Seller l) row" by auto
  then have step: "ReleaseFromMarketplace fault (ls_Item l) (ls_Seller l) d = Inr ((), d\<lparr>db_calls := Suc (db_calls d),
      db_items := (db_items d)(ls_Item l \<mapsto> row\<lparr>fr_Reserved := False\<rparr>)\<rparr>)"
    by (simp add: ReleaseFromMarketplace_def update_Inr assms(1))
  have "ls_Item x \<noteq> ls_Item l" if "x \<in> set ls" for x using Cons.prems(1) imageI [OF that, of ls_Item] by auto
  with Cons.prems have "\<exists>d'. release_all fault ls (d\<lparr>db_calls := Suc (db_calls d),
      db_items := (db_items d)(ls_Item l \<mapsto> row\<lparr>fr_Reserved := False\<rparr>)\<rparr>) = Inr ((), d')"
    by (intro Cons.IH) simp_all
  with step show ?case by (auto simp: and_then_def)
qed (simp add: ret_def)

lemma expire_batch_total:
  assumes fault: "\<And>n. \<not> fault n" and inv: "market_inv d"
  shows "\<exists>d' n. expire_batch fault now d = (d', Inr n)"
proof -
  define ids where "ids = map ls_ID (take 100 (sort_key ls_ExpiresAt (filter (expired_at now) (db_listings d))))"
  define ls where "ls = map (ls_State_update (\<lambda>_. StateClosed)) (filter (\<lambda>l. ls_ID l \<in> set ids) (db_listings d))"
  define d1 where "d1 = d\<lparr>db_calls := Suc (db_calls d),
     db_listings := map (\<lambda>l. if ls_ID l \<in> set ids then l\<lparr>ls_State := StateClosed\<rparr> else l) (db_listings d)\<rparr>"
  have ex: "ExpireListings fault now 100 d = Inr (ls, d1)"
    by (simp add: ExpireListings_def fault update_listings_def Let_def ids_def ls_def d1_def)
  have dist: "distinct (map ls_ID (db_listings d))" using inv by (simp add: market_inv_def)
  have op: "ls_State l = StateOpen" if l: "l \<in> set (db_listings d)" "ls_ID l \<in> set ids" for l
  proof -
    obtain x where "x \<in> set (db_listings d)" "expired_at now x" "ls_ID x = ls_ID l"
      using l(2) unfolding ids_def by (auto dest!: in_set_takeD)
    then show ?thesis using same_listing [OF dist _ l(1)] by (auto simp: expired_at_def)
  qed
  have shelf: "opens d (ls_Item l) = [l] \<and> (\<exists>row. db_items d (ls_Item l) = Some row \<and> held_for (ls_Seller l) row)"
    if "l \<in> set (db_listings d)" "ls_ID l \<in> set ids" for l
  proof -
    have "l \<in> set (opens d (ls_Item l))" using that op by (simp add: opens_mem)
    moreover have "shelf_ok d (ls_Item l)" using inv by (simp add: market_inv_def)
    ultimately show ?thesis by (auto simp: shelf_ok_def)
  qed
  have "inj_on ls_Item {l \<in> set (db_listings d). ls_ID l \<in> set ids}"
    using shelf by (auto intro!: inj_onI) (metis list.inject)
  then have "distinct (map ls_Item (filter (\<lambda>l. ls_ID l \<in> set ids) (db_listings d)))"
    using dist by (simp add: distinct_map)
  then have "distinct (map ls_Item ls)" by (simp add: ls_def comp_def)
  moreover have "\<forall>l\<in>set ls. \<exists>row. db_items d1 (ls_Item l) = Some row \<and> held_for (ls_Seller l) row"
    using shelf by (auto simp: ls_def d1_def)
  ultimately obtain d2 where "release_all fault ls d1 = Inr ((), d2)" using release_all_total fault by blast
  then show ?thesis using ex by (simp add: expire_batch_def WithinTransaction_def and_then_def ret_def)
qed

lemma Expire_returns:
  assumes "\<And>n. \<not> fault n" and "market_inv d"
  shows "\<exists>d' m. market_Expire fault now n d = (d', m, None)"
  using assms
proof (induction fault now n d rule: market_Expire.induct)
  case (1 fault now n d)
  obtain d1 b where e: "expire_batch fault now d = (d1, Inr b)" using expire_batch_total "1.prems" by blast
  have inv: "market_inv d1" using expire_batch_inv [OF "1.prems"(2), of fault now] e by simp
  show ?case
    using "1.IH" [OF e [symmetric] refl _ "1.prems"(1) inv] e by (simp add: market_Expire.simps [of fault now n d])
qed

text \<open>C22: The expiry run closes what is due. As long as the store does not fail, \<open>Expire\<close> returns without an
  error, after it no open listing has reached its deadline, and it left alone every open listing that had not.\<close>

theorem expire_leaves_none_due:
  assumes "\<And>n. \<not> fault n" and "market_inv d"
  shows "\<exists>d' m. market_Expire fault now 0 d = (d', m, None) \<and>
    (\<forall>l\<in>set (db_listings d'). ls_State l = StateOpen \<longrightarrow> ls_ExpiresAt l > now) \<and>
    (\<forall>l\<in>set (db_listings d). ls_State l = StateOpen \<and> ls_ExpiresAt l > now \<longrightarrow> l \<in> set (db_listings d'))"
proof -
  obtain d' m where e: "market_Expire fault now 0 d = (d', m, None)" using Expire_returns [where fault = fault] assms by blast
  have "\<not> expired_at now l \<Longrightarrow> ls_State l = StateOpen \<longrightarrow> ls_ExpiresAt l > now" for l by (auto simp: expired_at_def)
  with Expire_closes [OF assms(2) e] e show ?thesis by blast
qed

subsection \<open>A small market\<close>

text \<open>Player 1 buys tokens, lists the chair 10 and the voucher 11 cannot be listed; player 2 buys the chair.\<close>

definition market_conf :: market_config where
  "market_conf = \<lparr>mc_Enabled = True, mc_CommissionPercent = 1, mc_TokenCost = 1, mc_TokenPackageSize = 5,
     mc_AdvertisementCost = 0, mc_MinimumPrice = 1, mc_MaximumPrice = 1000000, mc_OfferDuration = 100,
     mc_DisplayDuration = 100, mc_SearchCacheTTL = 100, mc_ExpiryInterval = 100\<rparr>"

text \<open>What \<^verbatim>\<open>LoadConfig\<close> returns when the environment sets only the durations.\<close>

lemma market_conf_loaded: "LoadConfig (\<lambda>_. None) (\<lambda>_. None) (\<lambda>_. Some 100) = market_conf"
  by (simp add: LoadConfig_def clamp_config_def envInt64_def envBool_def envDuration_def market_conf_def Let_def MaxInt32_def)

definition market_db :: db where
  "market_db = trade_db\<lparr>db_balances := [((1, creditsType), 10), ((2, creditsType), 60)]\<rparr>"

definition stock_ops :: "market_op list" where
  "stock_ops = [MBuyTokens (\<lambda>_. False) 1, MList (\<lambda>_. False) 1000 1 10 50, MList (\<lambda>_. False) 1001 1 11 5]"

abbreviation run_market :: "market_op list \<Rightarrow> db \<Rightarrow> db" where
  "run_market \<equiv> fold (market_step [-1 \<mapsto> True] None market_conf (Contains NewRegistry))"

definition stocked_db :: db where "stocked_db = run_market stock_ops market_db"

lemma market_db_ok: "rows_ok market_db" "db_listings market_db = []"
  "\<forall>i row. db_items market_db i = Some row \<longrightarrow> \<not> fr_Reserved row"
  by (auto simp: rows_ok_def market_db_def trade_db_def empty_db_def split: if_splits)

lemma run_market_reachable:
  "market_reachable types permissions c r d \<Longrightarrow>
     market_reachable types permissions c r (fold (market_step types permissions c (Contains r)) ops d)"
  by (induction ops arbitrary: d) (simp_all add: market_reachable.market)

lemma stocked_db_reachable: "market_reachable [-1 \<mapsto> True] None market_conf NewRegistry stocked_db"
  unfolding stocked_db_def by (intro run_market_reachable market_reachable.boot market_db_ok)

theorem reserved_items_are_listed_witness:
  "opens stocked_db 10 = [hd (db_listings stocked_db)] \<and> map_option fr_Reserved (db_items stocked_db 10) = Some True \<and>
   map_option fr_Reserved (db_items stocked_db 11) = Some False"
proof -
  have "map_option fr_Reserved (db_items stocked_db 10) = Some True" "map_option fr_Reserved (db_items stocked_db 11) = Some False"
    "db_listings stocked_db = [hd (db_listings stocked_db)]"
    by code_simp+
  moreover from this(1) have "opens stocked_db 10 \<noteq> []"
    using reserved_items_are_listed [OF stocked_db_reachable, of 10] by auto
  then obtain l where "l \<in> set (opens stocked_db 10)" by (cases "opens stocked_db 10") auto
  moreover from this have "opens stocked_db 10 = [l]" using reserved_items_are_listed [OF stocked_db_reachable, of 10 _ l] by blast
  ultimately show ?thesis by (metis empty_iff empty_set opens_mem set_ConsD)
qed

lemma market_db_money: "money_inv market_db"
  using market_reachable_inv [OF market_reachable.boot [OF market_db_ok]]
  by (simp add: money_inv_def market_db_ok) (simp add: market_db_def)

definition sale_ops :: "market_op list" where
  "sale_ops = stock_ops @ [MBuy (\<lambda>_. False) 1002 2 1, MBuy (\<lambda>_. False) 1003 2 1, MRedeem (\<lambda>_. False) 1004 1]"

theorem marketplace_never_creates_money_witness:
  "wealth (run_market sale_ops market_db) = 68 \<and> wealth (run_market sale_ops market_db) \<le> wealth market_db"
proof
  show "wealth (run_market sale_ops market_db) = 68" by code_simp
  show "wealth (run_market sale_ops market_db) \<le> wealth market_db"
    using marketplace_never_creates_money [OF market_db_money, of None] market_conf_loaded
    by (simp add: no_infinite_def) metis
qed

definition tokens_db :: db where "tokens_db = run_market [MBuyTokens (\<lambda>_. False) 1] market_db"

theorem buyer_price_in_range_witness:
  "BuyerPrice market_conf 50 = 51 \<and> (50 :: int) \<le> 51 \<and> (51 :: int) \<le> MaxInt32"
proof -
  have "snd (market_List (\<lambda>_. False) (\<lambda>_. False) market_conf 1000 1 10 50 tokens_db) =
      Inr (hd (db_listings (fst (market_List (\<lambda>_. False) (\<lambda>_. False) market_conf 1000 1 10 50 tokens_db))))"
    by code_simp
  then have "market_List (\<lambda>_. False) (\<lambda>_. False) market_conf 1000 1 10 50 tokens_db =
      (fst (market_List (\<lambda>_. False) (\<lambda>_. False) market_conf 1000 1 10 50 tokens_db),
       Inr (hd (db_listings (fst (market_List (\<lambda>_. False) (\<lambda>_. False) market_conf 1000 1 10 50 tokens_db)))))"
    by (simp add: prod_eq_iff)
  moreover have "BuyerPrice market_conf 50 = 51" by code_simp
  ultimately show ?thesis using buyer_price_in_range market_conf_loaded by metis
qed

theorem expire_leaves_none_due_witness:
  "\<exists>d' m. market_Expire (\<lambda>_. False) 1100 0 stocked_db = (d', m, None) \<and>
     (\<forall>l\<in>set (db_listings d'). ls_State l = StateOpen \<longrightarrow> ls_ExpiresAt l > 1100)"
proof -
  have inv: "market_inv stocked_db" using market_reachable_inv [OF stocked_db_reachable] by blast
  show ?thesis using expire_leaves_none_due [OF _ inv, of "\<lambda>_. False" 1100] by blast
qed

end
