(* ===== verification/Permission.thy ===== *)
theory Permission
  imports Grid "HOL-Library.List_Lexorder" "HOL-Library.Char_ord" "HOL-Library.Product_Lexorder" "HOL-Library.Sublist"
begin

text \<open>
  Permissions (\<^verbatim>\<open>internal/permission\<close>): dotted nodes and wildcards, the registry of nodes, groups with their inheritance,
  grants, the tables behind them, the two layers of the cache and the service that resolves a player's permission and
  changes the tables. A call is a function from the store, that is the tables and the cache, to the store and an error or
  a value; the value \<open>None\<close> is a call that does not return. The clock, failing statements and failing calls
  to Redis are in the environment of a call.
\<close>

section \<open>Nodes\<close>

definition Wildcard :: string where "Wildcard = ''*''"

definition node_char :: "char \<Rightarrow> bool" where
  "node_char c \<longleftrightarrow> CHR ''a'' \<le> c \<and> c \<le> CHR ''z'' \<or> CHR ''0'' \<le> c \<and> c \<le> CHR ''9'' \<or> c = CHR ''_'' \<or> c = CHR ''-''"

definition validSegment :: "string \<Rightarrow> nat \<Rightarrow> nat \<Rightarrow> bool \<Rightarrow> bool" where
  "validSegment v start end at_end =
     (if start = end then False
      else if end - start = 1 \<and> v ! start = CHR ''*'' then at_end
      else list_all (\<lambda>i. node_char (v ! i)) [start..<end])"

text \<open>The scan of \<^verbatim>\<open>Valid\<close> from an index, with the start of the segment it is in.\<close>

function valid_from :: "string \<Rightarrow> nat \<Rightarrow> nat \<Rightarrow> bool" where
  "valid_from v start i =
     (if i > length v then True
      else if i < length v \<and> v ! i \<noteq> CHR ''.'' then valid_from v start (Suc i)
      else if \<not> validSegment v start i (i = length v) then False
      else valid_from v (Suc i) (Suc i))"
  by pat_completeness auto
termination by (relation "measure (\<lambda>(v, start, i). Suc (length v) - i)") auto

declare valid_from.simps [simp del]

definition Valid :: "string \<Rightarrow> bool" where
  "Valid v =
     (if v = Wildcard then True
      else if v = [] \<or> hd v = CHR ''.'' \<or> last v = CHR ''.'' then False
      else valid_from v 0 0)"

definition Concrete :: "string \<Rightarrow> bool" where
  "Concrete v \<longleftrightarrow> Valid v \<and> CHR ''*'' \<notin> set v"

definition TrimSuffix :: "string \<Rightarrow> string \<Rightarrow> string" where
  "TrimSuffix v suf = (if suffix suf v then take (length v - length suf) v else v)"

definition Matches :: "string \<Rightarrow> string \<Rightarrow> bool" where
  "Matches node query =
     (if \<not> Valid node \<or> \<not> Concrete query then False
      else if node = Wildcard \<or> node = query then True
      else (let p = TrimSuffix node (''.'' @ Wildcard) in p \<noteq> node \<and> prefix (p @ ''.'') query))"

definition Specificity :: "string \<Rightarrow> string \<Rightarrow> int" where
  "Specificity node query =
     (if \<not> Matches node query then -1
      else if node = Wildcard then 0
      else int (count_list (TrimSuffix node (''.'' @ Wildcard)) (CHR ''.'')) + 1)"

subsection \<open>Nodes as lists of segments\<close>

fun segments :: "string \<Rightarrow> string list" where
  "segments [] = [[]]"
| "segments (c # cs) = (if c = CHR ''.'' then [] # segments cs else (case segments cs of s # ss \<Rightarrow> (c # s) # ss | [] \<Rightarrow> [[c]]))"

definition plain :: "string \<Rightarrow> bool" where "plain s \<longleftrightarrow> s \<noteq> [] \<and> (\<forall>c \<in> set s. node_char c)"

definition well_formed :: "string list \<Rightarrow> bool" where
  "well_formed ss \<longleftrightarrow> (\<forall>s \<in> set (butlast ss). plain s) \<and> (last ss = ''*'' \<or> plain (last ss))"

definition covers :: "string list \<Rightarrow> string list \<Rightarrow> bool" where
  "covers gs qs \<longleftrightarrow> gs = qs \<or> last gs = ''*'' \<and> strict_prefix (butlast gs) qs"

lemma node_char_not [simp]: "\<not> node_char (CHR ''.'')" "\<not> node_char (CHR ''*'')"
  by (simp_all add: node_char_def)

lemma segments_nonempty [simp]: "segments s \<noteq> []"
  by (induction s) (auto split: list.splits)

lemma segments_plain: "CHR ''.'' \<notin> set s \<Longrightarrow> segments s = [s]"
  by (induction s) auto

lemma segments_append: "segments (s @ CHR ''.'' # t) = segments s @ segments t"
proof (induction s)
  case (Cons c s)
  then show ?case by (cases "segments s") auto
qed simp

lemma join_segments: "join (CHR ''.'') (segments s) = s"
proof (induction s)
  case (Cons c s)
  show ?case
  proof (cases "segments s")
    case (Cons x xs)
    with Cons.IH show ?thesis by (cases xs) auto
  qed simp
qed simp

lemma segments_inj: "segments s = segments t \<longleftrightarrow> s = t"
  by (metis join_segments)

lemma join_append: "xs \<noteq> [] \<Longrightarrow> ys \<noteq> [] \<Longrightarrow> join d (xs @ ys) = join d xs @ d # join d ys"
  by (induction xs rule: join.induct) (auto simp: join_Cons)

text \<open>A prefix that ends with a dot is a proper prefix of the list of segments.\<close>

lemma prefix_dot: "prefix (p @ ''.'') q \<longleftrightarrow> strict_prefix (segments p) (segments q)"
proof
  assume "prefix (p @ ''.'') q"
  then obtain r where "q = p @ CHR ''.'' # r" by (auto simp: prefix_def)
  then show "strict_prefix (segments p) (segments q)" by (auto simp: segments_append strict_prefix_def)
next
  assume "strict_prefix (segments p) (segments q)"
  then obtain rs where rs: "segments q = segments p @ rs" "rs \<noteq> []" by (auto simp: strict_prefix_def prefix_def)
  have "q = join (CHR ''.'') (segments p @ rs)" using rs(1) join_segments [of q] by simp
  also have "\<dots> = p @ CHR ''.'' # join (CHR ''.'') rs" using rs(2) by (simp add: join_append join_segments)
  finally show "prefix (p @ ''.'') q" by (auto simp: prefix_def)
qed

lemma count_segments: "int (count_list s (CHR ''.'')) + 1 = int (length (segments s))"
proof (induction s)
  case (Cons c s)
  then show ?case by (cases "segments s") auto
qed simp

text \<open>What the scan accepts, by the segment it is in.\<close>

lemma valid_from_segment:
  assumes "start \<le> i" and "i \<le> length v" and "\<forall>j \<in> {start..<i}. v ! j \<noteq> CHR ''.''"
  shows "valid_from v start i \<longleftrightarrow> well_formed (segments (drop start v))"
  using assms
proof (induction v start i rule: valid_from.induct)
  case (1 v start i)
  show ?case
  proof (cases "i < length v \<and> v ! i \<noteq> CHR ''.''")
    case True
    have "\<forall>j \<in> {start..<Suc i}. v ! j \<noteq> CHR ''.''" using 1(5) True by (auto simp: less_Suc_eq)
    with 1 True show ?thesis by (subst valid_from.simps) simp
  next
    case stop: False
    define s where "s = take (i - start) (drop start v)"
    have "\<And>j. j < length s \<Longrightarrow> s ! j \<noteq> CHR ''.''" using 1(3-5) by (auto simp: s_def)
    then have nodot: "CHR ''.'' \<notin> set s" by (metis in_set_conv_nth)
    have len: "length s = i - start" using 1(3,4) by (simp add: s_def)
    have all: "list_all (\<lambda>j. node_char (v ! j)) [start..<i] \<longleftrightarrow> (\<forall>c \<in> set s. node_char c)"
    proof -
      have "map (\<lambda>j. v ! j) [start..<i] = s"
        using 1(3,4) by (intro nth_equalityI) (auto simp: s_def)
      then have "set s = (\<lambda>j. v ! j) ` {start..<i}" by (metis set_map set_upt)
      then show ?thesis by (auto simp: list_all_iff)
    qed
    have star: "i - start = 1 \<and> v ! start = CHR ''*'' \<longleftrightarrow> s = ''*''"
    proof (cases "i - start = 1")
      case True
      then have "start < length v" using 1(4) by linarith
      then have "s = [v ! start]" using True by (simp add: s_def take_Suc_conv_app_nth hd_drop_conv_nth take_Suc)
      with True show ?thesis by simp
    next
      case False
      then show ?thesis using len by auto
    qed
    have seg: "validSegment v start i lst \<longleftrightarrow> (if s = ''*'' then lst else plain s)" for lst
      using 1(3) len star all by (auto simp: validSegment_def plain_def)
    show ?thesis
    proof (cases "i = length v")
      case True
      then have "drop start v = s" using 1(3) by (simp add: s_def)
      then have "segments (drop start v) = [s]" using nodot segments_plain by simp
      then show ?thesis using True seg
        by (subst valid_from.simps) (auto simp: well_formed_def plain_def valid_from.simps [of _ _ "Suc (length v)"])
    next
      case False
      then have lt: "i < length v" and dot: "v ! i = CHR ''.''" using 1(4) stop by auto
      have "drop start v = s @ drop i v"
        using append_take_drop_id [of "i - start" "drop start v"] 1(3) by (simp add: s_def)
      also have "drop i v = CHR ''.'' # drop (Suc i) v" using lt dot Cons_nth_drop_Suc [OF lt] by simp
      finally have sg: "segments (drop start v) = s # segments (drop (Suc i) v)"
        using nodot by (simp add: segments_append segments_plain)
      have wf: "well_formed (s # segments (drop (Suc i) v)) \<longleftrightarrow> plain s \<and> well_formed (segments (drop (Suc i) v))"
        by (simp add: well_formed_def)
      show ?thesis
      proof (cases "s = ''*'' \<or> \<not> plain s")
        case True
        then show ?thesis using seg stop False lt sg wf
          by (subst valid_from.simps) (auto simp: plain_def)
      next
        case ok: False
        have "valid_from v (Suc i) (Suc i) \<longleftrightarrow> well_formed (segments (drop (Suc i) v))"
          using 1(2) stop lt seg ok False by auto
        then show ?thesis using seg stop False lt sg wf ok
          by (subst valid_from.simps) auto
      qed
    qed
  qed
qed

lemma hd_dot: "s = [] \<or> hd s = CHR ''.'' \<longleftrightarrow> hd (segments s) = []"
  by (cases s) (auto split: list.splits)

lemma last_dot: "s = [] \<or> last s = CHR ''.'' \<longleftrightarrow> last (segments s) = []"
proof (induction s)
  case (Cons c s)
  show ?case
  proof (cases s)
    case Nil
    then show ?thesis by simp
  next
    case (Cons d t)
    obtain x xs where x: "segments s = x # xs" using segments_nonempty by (meson list.exhaust)
    have "xs = [] \<Longrightarrow> x \<noteq> []" using x segments_inj [of s "[]"] Cons by auto
    then show ?thesis using Cons.IH x Cons by auto
  qed
qed simp

lemma Valid_segments: "Valid v \<longleftrightarrow> well_formed (segments v)"
proof (cases "v = ''*'' \<or> v = []")
  case True
  then show ?thesis by (auto simp: Valid_def Wildcard_def well_formed_def plain_def)
next
  case False
  have all: "valid_from v 0 0 \<longleftrightarrow> well_formed (segments v)" using valid_from_segment [of 0 0 v] by simp
  have "\<not> well_formed (segments v)" if "hd v = CHR ''.'' \<or> last v = CHR ''.''"
  proof -
    have e: "hd (segments v) = [] \<or> last (segments v) = []" using that hd_dot [of v] last_dot [of v] by blast
    show ?thesis
    proof (cases "hd (segments v) = []")
      case True
      then have "(case segments v of [s] \<Rightarrow> s = [] | s # ss \<Rightarrow> s = [])" by (cases "segments v") (auto split: list.splits)
      then show ?thesis by (auto simp: well_formed_def plain_def split: list.splits)
    next
      case False
      with e show ?thesis by (auto simp: well_formed_def plain_def)
    qed
  qed
  then show ?thesis using False all by (auto simp: Valid_def Wildcard_def)
qed

lemma plain_no_star: "plain s \<Longrightarrow> CHR ''*'' \<notin> set s" by (auto simp: plain_def)

lemma set_segments: "set s - {CHR ''.''} = \<Union> (set ` set (segments s))"
proof (induction s)
  case (Cons c s)
  then show ?case by (cases "segments s") auto
qed simp

lemma set_last_butlast: "xs \<noteq> [] \<Longrightarrow> set xs = insert (last xs) (set (butlast xs))"
  by (induction xs) auto

lemma Concrete_segments: "Concrete q \<longleftrightarrow> (\<forall>s \<in> set (segments q). plain s)"
proof -
  have star: "CHR ''*'' \<notin> set q \<longleftrightarrow> (\<forall>s \<in> set (segments q). CHR ''*'' \<notin> set s)"
  proof -
    have "CHR ''*'' \<in> set q \<longleftrightarrow> CHR ''*'' \<in> set q - {CHR ''.''}" by simp
    then show ?thesis unfolding set_segments by blast
  qed
  have sp: "set (segments q) = insert (last (segments q)) (set (butlast (segments q)))"
    by (rule set_last_butlast) simp
  show ?thesis
  proof
    assume "Concrete q"
    then have w: "well_formed (segments q)" and n: "\<forall>s \<in> set (segments q). CHR ''*'' \<notin> set s"
      using star by (simp_all add: Concrete_def Valid_segments)
    have "last (segments q) \<in> set (segments q)" by (rule last_in_set) simp
    with n have "CHR ''*'' \<notin> set (last (segments q))" by blast
    then have "last (segments q) \<noteq> ''*''" by (metis list.set_intros(1))
    with w show "\<forall>s \<in> set (segments q). plain s" unfolding sp well_formed_def by blast
  next
    assume a: "\<forall>s \<in> set (segments q). plain s"
    then have "well_formed (segments q)" unfolding sp well_formed_def by blast
    moreover have "CHR ''*'' \<notin> set q" unfolding star using a plain_no_star by blast
    ultimately show "Concrete q" by (simp add: Concrete_def Valid_segments)
  qed
qed

lemma suffix_star: "suffix ''.*'' v \<longleftrightarrow> (\<exists>p. v = p @ ''.*'')" by (auto simp: suffix_def)

lemma TrimSuffix_star:
  "TrimSuffix (p @ ''.*'') ''.*'' = p"
  "\<not> suffix ''.*'' v \<Longrightarrow> TrimSuffix v ''.*'' = v"
  by (auto simp: TrimSuffix_def suffix_def)

lemma segments_star: "segments (p @ ''.*'') = segments p @ [''*'']"
  using segments_append [of p "''*''"] by simp

lemma last_star: "last (segments v) = ''*'' \<longleftrightarrow> v = ''*'' \<or> (\<exists>p. v = p @ ''.*'')"
proof
  assume l: "last (segments v) = ''*''"
  have d: "segments v = butlast (segments v) @ [''*'']" using l by (metis append_butlast_last_id segments_nonempty)
  show "v = ''*'' \<or> (\<exists>p. v = p @ ''.*'')"
  proof (cases "butlast (segments v) = []")
    case True
    then have "segments v = segments ''*''" using d by simp
    then show ?thesis using segments_inj by blast
  next
    case False
    have "v = join (CHR ''.'') (butlast (segments v) @ [''*''])" using d join_segments [of v] by simp
    then show ?thesis using False by (metis append_Cons append_Nil join.simps(2) join_snoc)
  qed
qed (auto simp: segments_star)

text \<open>C31: A node covers a query exactly when both are well formed, the query has no wildcard, and, read as lists of segments, the node is
  the query or ends in a wildcard whose fixed segments are a proper prefix of the query. The specificity is then the number of fixed segments,
  and -1 otherwise.\<close>

theorem node_matching_by_segments:
  "Matches node query = (well_formed (segments node) \<and> list_all plain (segments query) \<and> covers (segments node) (segments query)) \<and>
   Specificity node query = (if Matches node query then int (length (filter (\<lambda>s. s \<noteq> ''*'') (segments node))) else -1)"
proof -
  have dw: "''.'' @ Wildcard = ''.*''" by (simp add: Wildcard_def)
  have wf: "Valid node \<longleftrightarrow> well_formed (segments node)" by (rule Valid_segments)
  have co: "Concrete query \<longleftrightarrow> list_all plain (segments query)" by (simp add: Concrete_segments list_all_iff)
  have cv: "covers (segments node) (segments query) \<longleftrightarrow>
      node = Wildcard \<or> node = query \<or> (let p = TrimSuffix node ''.*'' in p \<noteq> node \<and> prefix (p @ ''.'') query)"
  proof (cases "\<exists>p. node = p @ ''.*''")
    case True
    then obtain p where p: "node = p @ ''.*''" by blast
    then show ?thesis
      by (auto simp: covers_def TrimSuffix_star segments_star prefix_dot segments_inj Wildcard_def Let_def)
        (metis segments_inj segments_star)+
  next
    case False
    then have "\<not> suffix ''.*'' node" by (simp add: suffix_star)
    then show ?thesis using False last_star [of node]
      by (auto simp: covers_def TrimSuffix_star segments_inj Wildcard_def Let_def strict_prefix_def dest: sym)
  qed
  have m: "Matches node query \<longleftrightarrow> well_formed (segments node) \<and> list_all plain (segments query) \<and> covers (segments node) (segments query)"
    unfolding Matches_def dw wf co cv by auto
  have "Specificity node query = int (length (filter (\<lambda>s. s \<noteq> ''*'') (segments node)))" if mm: "Matches node query"
  proof (cases "\<exists>p. node = p @ ''.*''")
    case True
    then obtain p where p: "node = p @ ''.*''" by blast
    have "\<forall>s \<in> set (segments p). s \<noteq> ''*''"
      using mm m p by (auto simp: well_formed_def segments_star plain_def)
    then have "filter (\<lambda>s. s \<noteq> ''*'') (segments node) = segments p" using p by (simp add: segments_star)
    then show ?thesis using mm p count_segments [of p] by (simp add: Specificity_def dw TrimSuffix_star Wildcard_def)
  next
    case False
    show ?thesis
    proof (cases "node = Wildcard")
      case True
      then show ?thesis using mm by (simp add: Specificity_def Wildcard_def)
    next
      case nw: False
      then have nl: "last (segments node) \<noteq> ''*''" using False last_star [of node] by (simp add: Wildcard_def)
      have "\<forall>s \<in> set (segments node). s \<noteq> ''*''"
      proof
        fix s assume "s \<in> set (segments node)"
        then have "s = last (segments node) \<or> s \<in> set (butlast (segments node))"
          using set_last_butlast [OF segments_nonempty] by blast
        then show "s \<noteq> ''*''" using nl mm m by (auto simp: well_formed_def plain_def)
      qed
      then have "filter (\<lambda>s. s \<noteq> ''*'') (segments node) = segments node" by simp
      moreover have "\<not> suffix ''.*'' node" using False by (simp add: suffix_star)
      ultimately show ?thesis using mm nw count_segments [of node] TrimSuffix_star(2) [of node] by (simp add: Specificity_def Wildcard_def)
    qed
  qed
  then show ?thesis using m by (simp add: Specificity_def)
qed

section \<open>The registry of nodes\<close>

record registration =
  rg_Node :: string
  rg_PerkName :: string
  rg_Package :: string
  rg_Description :: string

datatype registration_error = ErrInvalidRegistration | ErrDuplicateRegistration

definition Registered :: "registration list \<Rightarrow> string \<Rightarrow> bool" where
  "Registered rs node = list_ex (\<lambda>r. rg_Node r = node) rs"

text \<open>A panic is \<open>None\<close>; the package of the caller is an argument.\<close>

definition RegisterNode :: "string \<Rightarrow> string \<Rightarrow> string \<Rightarrow> registration list \<Rightarrow> (string \<times> registration list) option" where
  "RegisterNode package node perkName rs =
     (if \<not> Valid node then None
      else if Registered rs node then None
      else Some (node, rs @ [\<lparr>rg_Node = node, rg_PerkName = TrimSpace perkName, rg_Package = package, rg_Description = []\<rparr>]))"

definition RegisterPluginNode :: "string \<Rightarrow> string \<Rightarrow> registration list \<Rightarrow> registration_error + registration list" where
  "RegisterPluginNode node description rs =
     (if \<not> Concrete node \<or> \<not> prefix ''plugin.'' node \<or> TrimSpace description = [] then Inl ErrInvalidRegistration
      else if Registered rs node then Inl ErrDuplicateRegistration
      else Inr (rs @ [\<lparr>rg_Node = node, rg_PerkName = [], rg_Package = ''plugin'', rg_Description = TrimSpace description\<rparr>]))"

definition RegisteredNodes :: "registration list \<Rightarrow> registration list" where
  "RegisteredNodes rs = sort_key rg_Node rs"

definition AllNodes :: "registration list \<Rightarrow> string list" where
  "AllNodes rs = map rg_Node (RegisteredNodes rs)"

definition validGrantNode :: "registration list \<Rightarrow> string \<Rightarrow> bool" where
  "validGrantNode rs node =
     (if \<not> Valid node then False
      else if node = Wildcard \<or> Registered rs node then True
      else if \<not> suffix (''.'' @ Wildcard) node then False
      else list_ex (Matches node) (AllNodes rs))"

section \<open>Tables and cache\<close>

record permission_group =
  gr_ID :: ident
  gr_Version :: int
  gr_DeletedAt :: "int option"
  gr_Name :: string
  gr_Weight :: i32
  gr_Prefix :: string
  gr_PrefixColor :: string
  gr_BadgeURL :: string
  gr_RoomEffectID :: "i32 option"
  gr_ParentGroupID :: "ident option"

record node_grant =
  gt_Node :: string
  gt_Allowed :: bool

text \<open>The table of players belongs to another component; here it is the set of ids that it has.\<close>

record permission_tables =
  pt_groups :: "permission_group list"
  pt_nextGroup :: ident
  pt_groupNodes :: "(ident \<times> node_grant) list"
  pt_playerGroups :: "(ident \<times> ident) list"
  pt_playerNodes :: "(ident \<times> node_grant) list"
  pt_players :: "ident \<Rightarrow> bool"
  pt_calls :: nat

datatype keyKind = playerNodesKind | playerGroupsKind | groupKind | groupNodesKind

type_synonym cacheKey = "keyKind \<times> ident"

text \<open>A cached value has one of the three types that the keys are used with; the one of a group says whether it was found.\<close>

datatype cache_value = Nodes "node_grant list" | Groups "permission_group list" | GroupValue "permission_group option"

text \<open>The time after which Redis drops a key is not kept: a key may go at any time. A missing Redis client is \<open>None\<close>.\<close>

record permission_cache =
  ca_local :: "cacheKey \<rightharpoonup> cache_value \<times> int"
  ca_writes :: nat
  ca_shared :: "(string \<rightharpoonup> cache_value) option"
  ca_localTTL :: int
  ca_calls :: nat

record permission_store =
  ps_tables :: permission_tables
  ps_cache :: permission_cache

datatype permission_error =
    ErrInvalidPlayerID | ErrInvalidGroupID | ErrInvalidGroup | ErrInvalidNode | ErrPermissionGroupNotFound
  | ErrPermissionConflict | ErrInheritanceCycle | ErrPermissionStore

datatype redis_call = RedisFind | RedisSet | RedisDelete

text \<open>What surrounds a call: the clock, the statements and the calls to Redis that fail, the registry, and the scheme and host that
  \<^verbatim>\<open>url.ParseRequestURI\<close> finds in a text.\<close>

record permission_env =
  pe_now :: int
  pe_fault :: "nat \<Rightarrow> bool"
  pe_down :: "redis_call \<Rightarrow> nat \<Rightarrow> bool"
  pe_registered :: "registration list"
  pe_url :: "string \<Rightarrow> (string \<times> string) option"

type_synonym 'a px = "permission_store \<Rightarrow> (permission_store \<times> (permission_error + 'a)) option"

definition pgive :: "'a \<Rightarrow> 'a px" where "pgive x s = Some (s, Inr x)"
definition pfail :: "permission_error \<Rightarrow> 'a px" where "pfail err s = Some (s, Inl err)"

definition pbind :: "'a px \<Rightarrow> ('a \<Rightarrow> 'b px) \<Rightarrow> 'b px" where
  "pbind m g s = (case m s of None \<Rightarrow> None | Some (s', Inl err) \<Rightarrow> Some (s', Inl err) | Some (s', Inr x) \<Rightarrow> g x s')"

subsection \<open>Statements\<close>

definition statement :: "permission_env \<Rightarrow> (permission_tables \<Rightarrow> (permission_error + 'a \<times> permission_tables) option) \<Rightarrow> 'a px" where
  "statement e f s =
     (let t = (ps_tables s)\<lparr>pt_calls := Suc (pt_calls (ps_tables s))\<rparr>; s1 = s\<lparr>ps_tables := t\<rparr>
      in if pe_fault e (pt_calls (ps_tables s)) then Some (s1, Inl ErrPermissionStore)
         else (case f t of
             None \<Rightarrow> None
           | Some (Inl err) \<Rightarrow> Some (s1, Inl err)
           | Some (Inr (x, t')) \<Rightarrow> Some (s\<lparr>ps_tables := t'\<rparr>, Inr x)))"

definition reading :: "(permission_tables \<Rightarrow> 'a) \<Rightarrow> permission_tables \<Rightarrow> (permission_error + 'a \<times> permission_tables) option" where
  "reading f t = Some (Inr (f t, t))"

definition active_groups :: "permission_tables \<Rightarrow> permission_group list" where
  "active_groups t = filter (\<lambda>g. gr_DeletedAt g = None) (pt_groups t)"

definition by_weight :: "permission_group \<Rightarrow> int \<times> ident" where
  "by_weight g = (- sint (gr_Weight g), gr_ID g)"

definition group_by_id :: "permission_tables \<Rightarrow> ident \<Rightarrow> permission_group option" where
  "group_by_id t key = List.find (\<lambda>g. gr_ID g = key) (active_groups t)"

definition group_by_name :: "permission_tables \<Rightarrow> string \<Rightarrow> permission_group option" where
  "group_by_name t name = List.find (\<lambda>g. gr_Name g = name) (active_groups t)"

definition grants_of :: "(ident \<times> node_grant) list \<Rightarrow> ident \<Rightarrow> node_grant list" where
  "grants_of rows key = sort_key gt_Node (map snd (filter (\<lambda>r. fst r = key) rows))"

definition groups_of :: "permission_tables \<Rightarrow> ident \<Rightarrow> permission_group list" where
  "groups_of t p = sort_key by_weight (filter (\<lambda>g. (p, gr_ID g) \<in> set (pt_playerGroups t)) (active_groups t))"

definition ListGroups :: "permission_env \<Rightarrow> permission_group list px" where
  "ListGroups e = statement e (reading (\<lambda>t. sort_key by_weight (active_groups t)))"

definition ListGroupsByPlayer :: "permission_env \<Rightarrow> ident \<Rightarrow> permission_group list px" where
  "ListGroupsByPlayer e p = statement e (reading (\<lambda>t. groups_of t p))"

definition FindGroupByID :: "permission_env \<Rightarrow> ident \<Rightarrow> permission_group option px" where
  "FindGroupByID e key = statement e (reading (\<lambda>t. group_by_id t key))"

definition FindGroupByName :: "permission_env \<Rightarrow> string \<Rightarrow> permission_group option px" where
  "FindGroupByName e name = statement e (reading (\<lambda>t. group_by_name t name))"

definition ListGroupNodes :: "permission_env \<Rightarrow> ident \<Rightarrow> node_grant list px" where
  "ListGroupNodes e key = statement e (reading (\<lambda>t. grants_of (pt_groupNodes t) key))"

definition ListPlayerNodes :: "permission_env \<Rightarrow> ident \<Rightarrow> node_grant list px" where
  "ListPlayerNodes e p = statement e (reading (\<lambda>t. grants_of (pt_playerNodes t) p))"

text \<open>The recursive query for the descendants of a group: every round joins the rows that the last round found, and \<open>union all\<close> keeps
  duplicates, so that the query ends when a round finds nothing. \<open>None\<close> is a query that does not end.\<close>

definition children :: "permission_group list \<Rightarrow> ident list \<Rightarrow> ident list" where
  "children gs work = map gr_ID (concat (map (\<lambda>w. filter (\<lambda>g. gr_ParentGroupID g = Some w) gs) work))"

partial_function (option) descend :: "permission_group list \<Rightarrow> ident list \<Rightarrow> ident list \<Rightarrow> ident list option" where
  "descend gs work found = (if work = [] then Some found else descend gs (children gs work) (found @ work))"

declare descend.simps [code]

definition affected :: "permission_tables \<Rightarrow> ident \<Rightarrow> ident list option" where
  "affected t key = (case descend (active_groups t) (map gr_ID (filter (\<lambda>g. gr_ID g = key) (active_groups t))) [] of
     None \<Rightarrow> None
   | Some ids \<Rightarrow> Some (sort (remdups (map fst (filter (\<lambda>r. snd r \<in> set ids) (pt_playerGroups t))))))"

definition ListAffectedPlayerIDs :: "permission_env \<Rightarrow> ident \<Rightarrow> ident list px" where
  "ListAffectedPlayerIDs e key = statement e (\<lambda>t. case affected t key of None \<Rightarrow> None | Some ps \<Rightarrow> Some (Inr (ps, t)))"

text \<open>The constraints of the table that validation does not cover: the name of an active group is unique and the parent is a row.\<close>

definition row_ok :: "permission_tables \<Rightarrow> permission_group \<Rightarrow> bool" where
  "row_ok t g \<longleftrightarrow> list_all (\<lambda>h. gr_ID h \<noteq> gr_ID g \<longrightarrow> gr_Name h \<noteq> gr_Name g) (active_groups t) \<and>
     (case gr_ParentGroupID g of None \<Rightarrow> True | Some p \<Rightarrow> p \<noteq> gr_ID g \<and> list_ex (\<lambda>h. gr_ID h = p) (pt_groups t))"

definition sql_CreateGroup :: "permission_env \<Rightarrow> permission_group \<Rightarrow> permission_group px" where
  "sql_CreateGroup e g = statement e (\<lambda>t.
     (let row = g\<lparr>gr_ID := pt_nextGroup t, gr_Version := 1, gr_DeletedAt := None\<rparr>
      in if \<not> row_ok t row then Some (Inl ErrPermissionStore)
         else Some (Inr (row, t\<lparr>pt_groups := pt_groups t @ [row], pt_nextGroup := pt_nextGroup t + 1\<rparr>))))"

definition sql_UpdateGroup :: "permission_env \<Rightarrow> permission_group \<Rightarrow> permission_group option px" where
  "sql_UpdateGroup e g = statement e (\<lambda>t.
     (case List.find (\<lambda>h. gr_ID h = gr_ID g \<and> gr_Version h = gr_Version g) (active_groups t) of
        None \<Rightarrow> Some (Inr (None, t))
      | Some h \<Rightarrow>
          (let row = g\<lparr>gr_Version := gr_Version h + 1, gr_DeletedAt := None\<rparr>
           in if \<not> row_ok t row then Some (Inl ErrPermissionStore)
              else Some (Inr (Some row, t\<lparr>pt_groups := map (\<lambda>x. if gr_ID x = gr_ID g then row else x) (pt_groups t)\<rparr>)))))"

definition upsert_grant :: "ident \<Rightarrow> node_grant \<Rightarrow> (ident \<times> node_grant) list \<Rightarrow> (ident \<times> node_grant) list" where
  "upsert_grant key x rows =
     (if list_ex (\<lambda>r. fst r = key \<and> gt_Node (snd r) = gt_Node x) rows
      then map (\<lambda>r. if fst r = key \<and> gt_Node (snd r) = gt_Node x then (key, x) else r) rows
      else rows @ [(key, x)])"

definition delete_grant :: "ident \<Rightarrow> string \<Rightarrow> (ident \<times> node_grant) list \<Rightarrow> (ident \<times> node_grant) list" where
  "delete_grant key node rows = filter (\<lambda>r. \<not> (fst r = key \<and> gt_Node (snd r) = node)) rows"

definition node_length_ok :: "string \<Rightarrow> bool" where "node_length_ok node \<longleftrightarrow> 1 \<le> length node \<and> length node \<le> 160"

definition UpsertGroupNode :: "permission_env \<Rightarrow> ident \<Rightarrow> string \<Rightarrow> bool \<Rightarrow> unit px" where
  "UpsertGroupNode e key node allowed = statement e (\<lambda>t.
     if \<not> node_length_ok node \<or> \<not> list_ex (\<lambda>h. gr_ID h = key) (pt_groups t) then Some (Inl ErrPermissionStore)
     else Some (Inr ((), t\<lparr>pt_groupNodes := upsert_grant key \<lparr>gt_Node = node, gt_Allowed = allowed\<rparr> (pt_groupNodes t)\<rparr>)))"

definition DeleteGroupNode :: "permission_env \<Rightarrow> ident \<Rightarrow> string \<Rightarrow> unit px" where
  "DeleteGroupNode e key node = statement e (\<lambda>t. Some (Inr ((), t\<lparr>pt_groupNodes := delete_grant key node (pt_groupNodes t)\<rparr>)))"

definition sql_AddPlayerToGroup :: "permission_env \<Rightarrow> ident \<Rightarrow> ident \<Rightarrow> unit px" where
  "sql_AddPlayerToGroup e p key = statement e (\<lambda>t.
     if (p, key) \<in> set (pt_playerGroups t) then Some (Inr ((), t))
     else if \<not> pt_players t p \<or> \<not> list_ex (\<lambda>h. gr_ID h = key) (pt_groups t) then Some (Inl ErrPermissionStore)
     else Some (Inr ((), t\<lparr>pt_playerGroups := pt_playerGroups t @ [(p, key)]\<rparr>)))"

definition sql_RemovePlayerFromGroup :: "permission_env \<Rightarrow> ident \<Rightarrow> ident \<Rightarrow> unit px" where
  "sql_RemovePlayerFromGroup e p key = statement e (\<lambda>t.
     Some (Inr ((), t\<lparr>pt_playerGroups := filter (\<lambda>r. r \<noteq> (p, key)) (pt_playerGroups t)\<rparr>)))"

definition UpsertPlayerNode :: "permission_env \<Rightarrow> ident \<Rightarrow> string \<Rightarrow> bool \<Rightarrow> unit px" where
  "UpsertPlayerNode e p node allowed = statement e (\<lambda>t.
     if \<not> node_length_ok node \<or> \<not> pt_players t p then Some (Inl ErrPermissionStore)
     else Some (Inr ((), t\<lparr>pt_playerNodes := upsert_grant p \<lparr>gt_Node = node, gt_Allowed = allowed\<rparr> (pt_playerNodes t)\<rparr>)))"

definition DeletePlayerNode :: "permission_env \<Rightarrow> ident \<Rightarrow> string \<Rightarrow> unit px" where
  "DeletePlayerNode e p node = statement e (\<lambda>t. Some (Inr ((), t\<lparr>pt_playerNodes := delete_grant p node (pt_playerNodes t)\<rparr>)))"

subsection \<open>The cache\<close>

definition localSweepInterval :: nat where "localSweepInterval = 256"
definition DefaultLocalTTL :: int where "DefaultLocalTTL = 5000000000"

definition playerNodesKey :: "ident \<Rightarrow> cacheKey" where "playerNodesKey p = (playerNodesKind, p)"
definition playerGroupsKey :: "ident \<Rightarrow> cacheKey" where "playerGroupsKey p = (playerGroupsKind, p)"
definition groupKey :: "ident \<Rightarrow> cacheKey" where "groupKey g = (groupKind, g)"
definition groupNodesKey :: "ident \<Rightarrow> cacheKey" where "groupNodesKey g = (groupNodesKind, g)"

definition shared_key :: "cacheKey \<Rightarrow> string" where
  "shared_key key = (case fst key of
     playerNodesKind \<Rightarrow> ''permission:player:'' @ int_dec (snd key) @ '':nodes''
   | playerGroupsKind \<Rightarrow> ''permission:player:'' @ int_dec (snd key) @ '':groups''
   | groupKind \<Rightarrow> ''permission:group:'' @ int_dec (snd key)
   | groupNodesKind \<Rightarrow> ''permission:group:'' @ int_dec (snd key) @ '':nodes'')"

definition NewWithTTL :: "(string \<rightharpoonup> cache_value) option \<Rightarrow> int \<Rightarrow> permission_cache" where
  "NewWithTTL redis ttl =
     \<lparr>ca_local = Map.empty, ca_writes = 0, ca_shared = redis, ca_localTTL = (if ttl \<le> 0 then DefaultLocalTTL else ttl), ca_calls = 0\<rparr>"

text \<open>Whether a value has the type that the callers of a key read it with, in memory and as JSON.\<close>

definition typed :: "keyKind \<Rightarrow> cache_value \<Rightarrow> bool" where
  "typed k v = (case (k, v) of
     (playerNodesKind, Nodes _) \<Rightarrow> True | (groupNodesKind, Nodes _) \<Rightarrow> True
   | (playerGroupsKind, Groups _) \<Rightarrow> True | (groupKind, GroupValue _) \<Rightarrow> True | _ \<Rightarrow> False)"

definition removeLocal :: "cacheKey \<Rightarrow> permission_cache \<Rightarrow> permission_cache" where
  "removeLocal key c = c\<lparr>ca_local := (ca_local c)(key := None)\<rparr>"

definition findLocal :: "int \<Rightarrow> cacheKey \<Rightarrow> permission_cache \<Rightarrow> cache_value option \<times> permission_cache" where
  "findLocal now key c = (case ca_local c key of
     None \<Rightarrow> (None, c)
   | Some (v, expiresAt) \<Rightarrow>
       if \<not> now < expiresAt then (None, removeLocal key c)
       else if \<not> typed (fst key) v then (None, removeLocal key c)
       else (Some v, c))"

definition sweepExpired :: "int \<Rightarrow> permission_cache \<Rightarrow> permission_cache" where
  "sweepExpired now c = c\<lparr>ca_local := (\<lambda>k. case ca_local c k of
     None \<Rightarrow> None | Some (v, expiresAt) \<Rightarrow> if \<not> now < expiresAt then None else Some (v, expiresAt))\<rparr>"

definition storeLocal :: "int \<Rightarrow> cacheKey \<Rightarrow> cache_value \<Rightarrow> permission_cache \<Rightarrow> permission_cache" where
  "storeLocal now key v c =
     (let c' = c\<lparr>ca_local := (ca_local c)(key \<mapsto> (v, now + ca_localTTL c)), ca_writes := Suc (ca_writes c)\<rparr>
      in if ca_writes c' mod localSweepInterval = 0 then sweepExpired now c' else c')"

text \<open>A call to Redis that fails finds, writes or removes nothing.\<close>

definition redis_step :: "permission_env \<Rightarrow> redis_call \<Rightarrow> permission_cache \<Rightarrow> bool \<times> permission_cache" where
  "redis_step e call c = (\<not> pe_down e call (ca_calls c), c\<lparr>ca_calls := Suc (ca_calls c)\<rparr>)"

definition findShared :: "permission_env \<Rightarrow> cacheKey \<Rightarrow> permission_cache \<Rightarrow> cache_value option \<times> permission_cache" where
  "findShared e key c = (case ca_shared c of
     None \<Rightarrow> (None, c)
   | Some m \<Rightarrow> (let (up, c') = redis_step e RedisFind c in (if up then m (shared_key key) else None, c')))"

definition cache_store :: "permission_env \<Rightarrow> cacheKey \<Rightarrow> cache_value \<Rightarrow> permission_cache \<Rightarrow> permission_cache" where
  "cache_store e key v c =
     (let c1 = storeLocal (pe_now e) key v c
      in case ca_shared c1 of
           None \<Rightarrow> c1
         | Some m \<Rightarrow> (let (up, c2) = redis_step e RedisSet c1 in if up then c2\<lparr>ca_shared := Some (m(shared_key key \<mapsto> v))\<rparr> else c2))"

definition cache_delete :: "permission_env \<Rightarrow> cacheKey \<Rightarrow> permission_cache \<Rightarrow> permission_cache" where
  "cache_delete e key c =
     (let c1 = removeLocal key c
      in case ca_shared c1 of
           None \<Rightarrow> c1
         | Some m \<Rightarrow> (let (up, c2) = redis_step e RedisDelete c1 in if up then c2\<lparr>ca_shared := Some (m(shared_key key := None))\<rparr> else c2))"

definition loadMiss :: "permission_env \<Rightarrow> cacheKey \<Rightarrow> cache_value px \<Rightarrow> cache_value px" where
  "loadMiss e key loader s =
     (let (data, c) = findShared e key (ps_cache s); s1 = s\<lparr>ps_cache := c\<rparr>;
          miss = (case loader s1 of
             None \<Rightarrow> None
           | Some (s2, Inl err) \<Rightarrow> Some (s2, Inl err)
           | Some (s2, Inr v) \<Rightarrow> Some (s2\<lparr>ps_cache := cache_store e key v (ps_cache s2)\<rparr>, Inr v))
      in case data of
           None \<Rightarrow> miss
         | Some v \<Rightarrow> if typed (fst key) v then Some (s1\<lparr>ps_cache := storeLocal (pe_now e) key v c\<rparr>, Inr v) else miss)"

definition load :: "permission_env \<Rightarrow> cacheKey \<Rightarrow> cache_value px \<Rightarrow> cache_value px" where
  "load e key loader s = (case findLocal (pe_now e) key (ps_cache s) of
     (Some v, c) \<Rightarrow> Some (s\<lparr>ps_cache := c\<rparr>, Inr v)
   | (None, c) \<Rightarrow> loadMiss e key loader (s\<lparr>ps_cache := c\<rparr>))"

definition PlayerNodes :: "permission_env \<Rightarrow> ident \<Rightarrow> node_grant list px \<Rightarrow> node_grant list px" where
  "PlayerNodes e p loader = pbind (load e (playerNodesKey p) (pbind loader (\<lambda>xs. pgive (Nodes xs))))
     (\<lambda>v. case v of Nodes xs \<Rightarrow> pgive xs | _ \<Rightarrow> pgive [])"

definition PlayerGroups :: "permission_env \<Rightarrow> ident \<Rightarrow> permission_group list px \<Rightarrow> permission_group list px" where
  "PlayerGroups e p loader = pbind (load e (playerGroupsKey p) (pbind loader (\<lambda>xs. pgive (Groups xs))))
     (\<lambda>v. case v of Groups xs \<Rightarrow> pgive xs | _ \<Rightarrow> pgive [])"

definition CachedGroup :: "permission_env \<Rightarrow> ident \<Rightarrow> permission_group option px \<Rightarrow> permission_group option px" where
  "CachedGroup e key loader = pbind (load e (groupKey key) (pbind loader (\<lambda>x. pgive (GroupValue x))))
     (\<lambda>v. case v of GroupValue x \<Rightarrow> pgive x | _ \<Rightarrow> pgive None)"

definition GroupNodes :: "permission_env \<Rightarrow> ident \<Rightarrow> node_grant list px \<Rightarrow> node_grant list px" where
  "GroupNodes e key loader = pbind (load e (groupNodesKey key) (pbind loader (\<lambda>xs. pgive (Nodes xs))))
     (\<lambda>v. case v of Nodes xs \<Rightarrow> pgive xs | _ \<Rightarrow> pgive [])"

definition cache_call :: "(permission_cache \<Rightarrow> permission_cache) \<Rightarrow> unit px" where
  "cache_call f s = Some (s\<lparr>ps_cache := f (ps_cache s)\<rparr>, Inr ())"

definition InvalidatePlayerNodes :: "permission_env \<Rightarrow> ident \<Rightarrow> unit px" where
  "InvalidatePlayerNodes e p = cache_call (cache_delete e (playerNodesKey p))"

definition InvalidatePlayerGroups :: "permission_env \<Rightarrow> ident \<Rightarrow> unit px" where
  "InvalidatePlayerGroups e p = cache_call (cache_delete e (playerGroupsKey p))"

definition InvalidateGroup :: "permission_env \<Rightarrow> ident \<Rightarrow> unit px" where
  "InvalidateGroup e key = cache_call (\<lambda>c. cache_delete e (groupNodesKey key) (cache_delete e (groupKey key) c))"

section \<open>Resolution\<close>

record decision =
  dc_found :: bool
  dc_allowed :: bool
  dc_specificity :: int
  dc_depth :: nat
  dc_source :: string

definition zero_decision :: decision where
  "zero_decision = \<lparr>dc_found = False, dc_allowed = False, dc_specificity = 0, dc_depth = 0, dc_source = []\<rparr>"

definition preferable :: "decision \<Rightarrow> decision \<Rightarrow> decision" where
  "preferable l r =
     (if \<not> dc_found l then r
      else if \<not> dc_found r then l
      else if dc_specificity l \<noteq> dc_specificity r then (if dc_specificity l > dc_specificity r then l else r)
      else if dc_depth l \<noteq> dc_depth r then (if dc_depth l < dc_depth r then l else r)
      else if \<not> dc_allowed l then l else r)"

definition bestGrant :: "node_grant list \<Rightarrow> string \<Rightarrow> nat \<Rightarrow> string \<Rightarrow> decision" where
  "bestGrant grants node depth source = foldl (\<lambda>best x.
     (let sp = Specificity (gt_Node x) node
      in if sp < 0 then best
         else preferable best \<lparr>dc_found = True, dc_allowed = gt_Allowed x, dc_specificity = sp, dc_depth = depth, dc_source = source\<rparr>))
     (zero_decision\<lparr>dc_specificity := -1\<rparr>) grants"

definition playerNodes :: "permission_env \<Rightarrow> ident \<Rightarrow> node_grant list px" where
  "playerNodes e p = PlayerNodes e p (ListPlayerNodes e p)"

definition playerGroups :: "permission_env \<Rightarrow> ident \<Rightarrow> permission_group list px" where
  "playerGroups e p = PlayerGroups e p (pbind (ListGroupsByPlayer e p) (\<lambda>gs. pgive (sort_key by_weight gs)))"

definition cached_group :: "permission_env \<Rightarrow> ident \<Rightarrow> permission_group option px" where
  "cached_group e key = CachedGroup e key (FindGroupByID e key)"

definition groupNodes :: "permission_env \<Rightarrow> ident \<Rightarrow> node_grant list px" where
  "groupNodes e key = GroupNodes e key (ListGroupNodes e key)"

text \<open>The walk from a group to its ancestors. \<open>None\<close> is a walk that does not end.\<close>

partial_function (option) resolve_chain ::
  "permission_env \<Rightarrow> string \<Rightarrow> permission_group \<Rightarrow> ident list \<Rightarrow> nat \<Rightarrow> decision \<Rightarrow> permission_store \<Rightarrow>
     (permission_store \<times> (permission_error + decision)) option" where
  "resolve_chain e node g visited depth best s =
     (if gr_ID g \<in> set visited then Some (s, Inl ErrInheritanceCycle)
      else (case groupNodes e (gr_ID g) s of
          None \<Rightarrow> None
        | Some (s1, Inl err) \<Rightarrow> Some (s1, Inl err)
        | Some (s1, Inr grants) \<Rightarrow>
            (let best1 = preferable best (bestGrant grants node depth (gr_Name g))
             in case gr_ParentGroupID g of
                  None \<Rightarrow> Some (s1, Inr best1)
                | Some p \<Rightarrow> (case cached_group e p s1 of
                      None \<Rightarrow> None
                    | Some (s2, Inl err) \<Rightarrow> Some (s2, Inl err)
                    | Some (s2, Inr None) \<Rightarrow> Some (s2, Inl ErrPermissionGroupNotFound)
                    | Some (s2, Inr (Some parent)) \<Rightarrow> resolve_chain e node parent (visited @ [gr_ID g]) (Suc depth) best1 s2))))"

declare resolve_chain.simps [code]

definition resolveGroup :: "permission_env \<Rightarrow> permission_group \<Rightarrow> string \<Rightarrow> decision px" where
  "resolveGroup e g node = resolve_chain e node g [] 0 (zero_decision\<lparr>dc_specificity := -1\<rparr>)"

fun resolve_groups :: "permission_env \<Rightarrow> string \<Rightarrow> permission_group list \<Rightarrow> decision px" where
  "resolve_groups e node [] = pgive zero_decision"
| "resolve_groups e node (g # gs) = pbind (resolveGroup e g node) (\<lambda>d.
     if dc_found d then pgive (d\<lparr>dc_source := gr_Name g\<rparr>) else resolve_groups e node gs)"

definition resolve :: "permission_env \<Rightarrow> ident \<Rightarrow> string \<Rightarrow> decision px" where
  "resolve e p node =
     (if p \<le> 0 then pfail ErrInvalidPlayerID
      else if \<not> Concrete node then pfail ErrInvalidNode
      else pbind (playerNodes e p) (\<lambda>direct.
        let d = bestGrant direct node 0 ''player''
        in if dc_found d then pgive d
           else pbind (playerGroups e p) (resolve_groups e node)))"

definition HasPermission :: "permission_env \<Rightarrow> ident \<Rightarrow> string \<Rightarrow> bool px" where
  "HasPermission e p node = pbind (resolve e p node) (\<lambda>d. pgive (dc_found d \<and> dc_allowed d))"

definition PrimaryGroup :: "permission_env \<Rightarrow> ident \<Rightarrow> permission_group option px" where
  "PrimaryGroup e p = pbind (playerGroups e p) (\<lambda>gs. pgive (case gs of [] \<Rightarrow> None | g # _ \<Rightarrow> Some g))"

record resolved_node =
  rn_Node :: string
  rn_Allowed :: bool
  rn_Source :: string

fun effective_nodes :: "permission_env \<Rightarrow> ident \<Rightarrow> string list \<Rightarrow> resolved_node list px" where
  "effective_nodes e p [] = pgive []"
| "effective_nodes e p (node # nodes) = pbind (resolve e p node) (\<lambda>d. pbind (effective_nodes e p nodes) (\<lambda>rest.
     pgive (if dc_found d then \<lparr>rn_Node = node, rn_Allowed = dc_allowed d, rn_Source = dc_source d\<rparr> # rest else rest)))"

definition EffectiveNodes :: "permission_env \<Rightarrow> ident \<Rightarrow> resolved_node list px" where
  "EffectiveNodes e p = (if p \<le> 0 then pfail ErrInvalidPlayerID else effective_nodes e p (AllNodes (pe_registered e)))"

fun effective_perks :: "permission_env \<Rightarrow> ident \<Rightarrow> registration list \<Rightarrow> string list px" where
  "effective_perks e p [] = pgive []"
| "effective_perks e p (r # rs) =
     (if rg_PerkName r = [] then effective_perks e p rs
      else pbind (HasPermission e p (rg_Node r)) (\<lambda>allowed. pbind (effective_perks e p rs) (\<lambda>rest.
        pgive (if allowed then rg_PerkName r # rest else rest))))"

definition EffectivePerks :: "permission_env \<Rightarrow> ident \<Rightarrow> string list px" where
  "EffectivePerks e p = pbind (effective_perks e p (RegisteredNodes (pe_registered e))) (\<lambda>perks. pgive (sort perks))"

definition AffectedPlayerIDs :: "permission_env \<Rightarrow> ident \<Rightarrow> ident list px" where
  "AffectedPlayerIDs e key = (if key \<le> 0 then pfail ErrInvalidGroupID else ListAffectedPlayerIDs e key)"

section \<open>Changes\<close>

definition validBadgeURL :: "permission_env \<Rightarrow> string \<Rightarrow> bool" where
  "validBadgeURL e value =
     (if value = [] then True
      else (case pe_url e value of None \<Rightarrow> False
        | Some (scheme, host) \<Rightarrow> host \<noteq> [] \<and> (scheme = ''http'' \<or> scheme = ''https'')))"

text \<open>The walk over the ancestors that a group would have.\<close>

partial_function (option) validate_parents ::
  "permission_env \<Rightarrow> ident list \<Rightarrow> ident option \<Rightarrow> permission_store \<Rightarrow> (permission_store \<times> (permission_error + unit)) option" where
  "validate_parents e visited parent s = (case parent of
     None \<Rightarrow> Some (s, Inr ())
   | Some p \<Rightarrow>
       if p \<in> set visited then Some (s, Inl ErrInheritanceCycle)
       else (case FindGroupByID e p s of
           None \<Rightarrow> None
         | Some (s1, Inl err) \<Rightarrow> Some (s1, Inl err)
         | Some (s1, Inr None) \<Rightarrow> Some (s1, Inl ErrPermissionGroupNotFound)
         | Some (s1, Inr (Some g)) \<Rightarrow> validate_parents e (p # visited) (gr_ParentGroupID g) s1))"

declare validate_parents.simps [code]

definition validateGroup :: "permission_env \<Rightarrow> permission_group \<Rightarrow> ident \<Rightarrow> unit px" where
  "validateGroup e g key =
     (if length (gr_Name g) < 1 \<or> length (gr_Name g) > 40 \<or> length (gr_Prefix g) > 80 \<or> length (gr_PrefixColor g) > 32 \<or>
         length (gr_BadgeURL g) > 2048 \<or> \<not> validBadgeURL e (gr_BadgeURL g) \<or>
         (case gr_RoomEffectID g of None \<Rightarrow> False | Some x \<Rightarrow> sint x \<le> 0)
      then pfail ErrInvalidGroup
      else pbind (FindGroupByName e (gr_Name g)) (\<lambda>existing.
        if (case existing of None \<Rightarrow> False | Some h \<Rightarrow> gr_ID h \<noteq> key) then pfail ErrPermissionConflict
        else (case gr_ParentGroupID g of
            None \<Rightarrow> pgive ()
          | Some p \<Rightarrow> if p \<le> 0 \<or> p = key then pfail ErrInheritanceCycle else validate_parents e [key] (Some p))))"

definition found_group :: "permission_env \<Rightarrow> ident \<Rightarrow> unit px" where
  "found_group e key = pbind (FindGroupByID e key) (\<lambda>found. case found of None \<Rightarrow> pfail ErrPermissionGroupNotFound | Some _ \<Rightarrow> pgive ())"

definition validateGroupNode :: "permission_env \<Rightarrow> ident \<Rightarrow> string \<Rightarrow> unit px" where
  "validateGroupNode e key node =
     (if key \<le> 0 then pfail ErrInvalidGroupID
      else if \<not> validGrantNode (pe_registered e) node then pfail ErrInvalidNode
      else found_group e key)"

definition validateMembership :: "permission_env \<Rightarrow> ident \<Rightarrow> ident \<Rightarrow> unit px" where
  "validateMembership e p key =
     (if p \<le> 0 then pfail ErrInvalidPlayerID else if key \<le> 0 then pfail ErrInvalidGroupID else found_group e key)"

definition validatePlayerNode :: "permission_env \<Rightarrow> ident \<Rightarrow> string \<Rightarrow> unit px" where
  "validatePlayerNode e p node =
     (if p \<le> 0 then pfail ErrInvalidPlayerID
      else if \<not> validGrantNode (pe_registered e) node then pfail ErrInvalidNode else pgive ())"

record create_group_params =
  cg_Name :: string
  cg_Weight :: i32
  cg_Prefix :: string
  cg_PrefixColor :: string
  cg_BadgeURL :: string
  cg_RoomEffectID :: "i32 option"
  cg_ParentGroupID :: "ident option"

text \<open>A field that replaces an optional one is an option of an option.\<close>

record update_group_params =
  ug_Name :: "string option"
  ug_Weight :: "i32 option"
  ug_Prefix :: "string option"
  ug_PrefixColor :: "string option"
  ug_BadgeURL :: "string option"
  ug_RoomEffectID :: "i32 option option"
  ug_ParentGroupID :: "ident option option"

definition applyGroupUpdate :: "permission_group \<Rightarrow> update_group_params \<Rightarrow> permission_group" where
  "applyGroupUpdate g up = g\<lparr>
     gr_Name := (case ug_Name up of None \<Rightarrow> gr_Name g | Some v \<Rightarrow> TrimSpace v),
     gr_Weight := (case ug_Weight up of None \<Rightarrow> gr_Weight g | Some v \<Rightarrow> v),
     gr_Prefix := (case ug_Prefix up of None \<Rightarrow> gr_Prefix g | Some v \<Rightarrow> TrimSpace v),
     gr_PrefixColor := (case ug_PrefixColor up of None \<Rightarrow> gr_PrefixColor g | Some v \<Rightarrow> TrimSpace v),
     gr_BadgeURL := (case ug_BadgeURL up of None \<Rightarrow> gr_BadgeURL g | Some v \<Rightarrow> TrimSpace v),
     gr_RoomEffectID := (case ug_RoomEffectID up of None \<Rightarrow> gr_RoomEffectID g | Some v \<Rightarrow> v),
     gr_ParentGroupID := (case ug_ParentGroupID up of None \<Rightarrow> gr_ParentGroupID g | Some v \<Rightarrow> v)\<rparr>"

definition new_group :: "create_group_params \<Rightarrow> permission_group" where
  "new_group cp = \<lparr>gr_ID = 0, gr_Version = 0, gr_DeletedAt = None, gr_Name = TrimSpace (cg_Name cp), gr_Weight = cg_Weight cp,
     gr_Prefix = TrimSpace (cg_Prefix cp), gr_PrefixColor = TrimSpace (cg_PrefixColor cp), gr_BadgeURL = TrimSpace (cg_BadgeURL cp),
     gr_RoomEffectID = cg_RoomEffectID cp, gr_ParentGroupID = cg_ParentGroupID cp\<rparr>"

definition CreateGroup :: "permission_env \<Rightarrow> create_group_params \<Rightarrow> permission_group px" where
  "CreateGroup e cp = pbind (validateGroup e (new_group cp) 0) (\<lambda>_. sql_CreateGroup e (new_group cp))"

fun invalidate_players :: "permission_env \<Rightarrow> ident list \<Rightarrow> unit px" where
  "invalidate_players e [] = pgive ()"
| "invalidate_players e (p # ps) = pbind (InvalidatePlayerGroups e p) (\<lambda>_. invalidate_players e ps)"

text \<open>What \<^verbatim>\<open>UpdateGroup\<close> does after its checks.\<close>

definition write_group :: "permission_env \<Rightarrow> ident \<Rightarrow> permission_group \<Rightarrow> permission_group px" where
  "write_group e key g = pbind (ListAffectedPlayerIDs e key) (\<lambda>ps. pbind (sql_UpdateGroup e g) (\<lambda>changed. case changed of
     None \<Rightarrow> pfail ErrPermissionConflict
   | Some row \<Rightarrow> pbind (InvalidateGroup e key) (\<lambda>_. pbind (invalidate_players e ps) (\<lambda>_. pgive row))))"

definition UpdateGroup :: "permission_env \<Rightarrow> ident \<Rightarrow> update_group_params \<Rightarrow> permission_group px" where
  "UpdateGroup e key up = pbind (FindGroupByID e key) (\<lambda>found. case found of
     None \<Rightarrow> pfail ErrPermissionGroupNotFound
   | Some g0 \<Rightarrow> pbind (validateGroup e (applyGroupUpdate g0 up) key) (\<lambda>_. write_group e key (applyGroupUpdate g0 up)))"

definition GrantGroupNode :: "permission_env \<Rightarrow> ident \<Rightarrow> string \<Rightarrow> bool \<Rightarrow> unit px" where
  "GrantGroupNode e key node allowed = pbind (validateGroupNode e key node) (\<lambda>_.
     pbind (UpsertGroupNode e key node allowed) (\<lambda>_. InvalidateGroup e key))"

definition RevokeGroupNode :: "permission_env \<Rightarrow> ident \<Rightarrow> string \<Rightarrow> unit px" where
  "RevokeGroupNode e key node = pbind (validateGroupNode e key node) (\<lambda>_.
     pbind (DeleteGroupNode e key node) (\<lambda>_. InvalidateGroup e key))"

definition AddPlayerToGroup :: "permission_env \<Rightarrow> ident \<Rightarrow> ident \<Rightarrow> unit px" where
  "AddPlayerToGroup e p key = pbind (validateMembership e p key) (\<lambda>_.
     pbind (sql_AddPlayerToGroup e p key) (\<lambda>_. InvalidatePlayerGroups e p))"

definition RemovePlayerFromGroup :: "permission_env \<Rightarrow> ident \<Rightarrow> ident \<Rightarrow> unit px" where
  "RemovePlayerFromGroup e p key = pbind (validateMembership e p key) (\<lambda>_.
     pbind (sql_RemovePlayerFromGroup e p key) (\<lambda>_. InvalidatePlayerGroups e p))"

definition GrantPlayerNode :: "permission_env \<Rightarrow> ident \<Rightarrow> string \<Rightarrow> bool \<Rightarrow> unit px" where
  "GrantPlayerNode e p node allowed = pbind (validatePlayerNode e p node) (\<lambda>_.
     pbind (UpsertPlayerNode e p node allowed) (\<lambda>_. InvalidatePlayerNodes e p))"

definition RevokePlayerNode :: "permission_env \<Rightarrow> ident \<Rightarrow> string \<Rightarrow> unit px" where
  "RevokePlayerNode e p node = pbind (validatePlayerNode e p node) (\<lambda>_.
     pbind (DeletePlayerNode e p node) (\<lambda>_. InvalidatePlayerNodes e p))"

definition defaultGroupName :: string where "defaultGroupName = ''member''"

definition AssignDefaultGroup :: "permission_env \<Rightarrow> ident \<Rightarrow> unit px" where
  "AssignDefaultGroup e p =
     (if p \<le> 0 then pfail ErrInvalidPlayerID
      else pbind (FindGroupByName e defaultGroupName) (\<lambda>found. case found of
          None \<Rightarrow> pfail ErrPermissionGroupNotFound | Some g \<Rightarrow> AddPlayerToGroup e p (gr_ID g)))"

text \<open>One call of the service; \<open>Evict\<close> is Redis that drops a key when it expires or when memory runs out.\<close>

datatype permission_op =
    OpHas permission_env ident string
  | OpPrimary permission_env ident
  | OpCreate permission_env create_group_params
  | OpUpdate permission_env ident update_group_params
  | OpGrantGroup permission_env ident string bool
  | OpRevokeGroup permission_env ident string
  | OpAdd permission_env ident ident
  | OpRemove permission_env ident ident
  | OpGrantPlayer permission_env ident string bool
  | OpRevokePlayer permission_env ident string
  | OpDefault permission_env ident
  | OpEffective permission_env ident
  | OpPerks permission_env ident
  | OpAffected permission_env ident
  | OpEvict string

fun op_env :: "permission_op \<Rightarrow> permission_env option" where
  "op_env (OpHas e _ _) = Some e" | "op_env (OpPrimary e _) = Some e" | "op_env (OpCreate e _) = Some e"
| "op_env (OpUpdate e _ _) = Some e" | "op_env (OpGrantGroup e _ _ _) = Some e" | "op_env (OpRevokeGroup e _ _) = Some e"
| "op_env (OpAdd e _ _) = Some e" | "op_env (OpRemove e _ _) = Some e" | "op_env (OpGrantPlayer e _ _ _) = Some e"
| "op_env (OpRevokePlayer e _ _) = Some e" | "op_env (OpDefault e _) = Some e" | "op_env (OpEffective e _) = Some e"
| "op_env (OpPerks e _) = Some e" | "op_env (OpAffected e _) = Some e" | "op_env (OpEvict _) = None"

definition after :: "'a px \<Rightarrow> permission_store \<Rightarrow> permission_store option" where
  "after m s = map_option fst (m s)"

definition evict :: "string \<Rightarrow> permission_store \<Rightarrow> permission_store" where
  "evict k s = s\<lparr>ps_cache := (ps_cache s)\<lparr>ca_shared := map_option (\<lambda>m. m(k := None)) (ca_shared (ps_cache s))\<rparr>\<rparr>"

fun permission_step :: "permission_op \<Rightarrow> permission_store \<Rightarrow> permission_store option" where
  "permission_step (OpHas e p node) s = after (HasPermission e p node) s"
| "permission_step (OpPrimary e p) s = after (PrimaryGroup e p) s"
| "permission_step (OpCreate e cp) s = after (CreateGroup e cp) s"
| "permission_step (OpUpdate e key up) s = after (UpdateGroup e key up) s"
| "permission_step (OpGrantGroup e key node a) s = after (GrantGroupNode e key node a) s"
| "permission_step (OpRevokeGroup e key node) s = after (RevokeGroupNode e key node) s"
| "permission_step (OpAdd e p key) s = after (AddPlayerToGroup e p key) s"
| "permission_step (OpRemove e p key) s = after (RemovePlayerFromGroup e p key) s"
| "permission_step (OpGrantPlayer e p node a) s = after (GrantPlayerNode e p node a) s"
| "permission_step (OpRevokePlayer e p node) s = after (RevokePlayerNode e p node) s"
| "permission_step (OpDefault e p) s = after (AssignDefaultGroup e p) s"
| "permission_step (OpEffective e p) s = after (EffectiveNodes e p) s"
| "permission_step (OpPerks e p) s = after (EffectivePerks e p) s"
| "permission_step (OpAffected e key) s = after (AffectedPlayerIDs e key) s"
| "permission_step (OpEvict k) s = Some (evict k s)"

fun permission_run :: "permission_op list \<Rightarrow> permission_store \<Rightarrow> permission_store option" where
  "permission_run [] s = Some s"
| "permission_run (x # xs) s = Option.bind (permission_step x s) (permission_run xs)"

section \<open>What a sound store is\<close>

definition parent_edges :: "permission_tables \<Rightarrow> (ident \<times> ident) set" where
  "parent_edges t = {(gr_ID g, p) | g p. g \<in> set (active_groups t) \<and> gr_ParentGroupID g = Some p}"

definition tables_ok :: "permission_tables \<Rightarrow> bool" where
  "tables_ok t \<longleftrightarrow> distinct (map gr_ID (pt_groups t)) \<and> 0 < pt_nextGroup t \<and>
     (\<forall>g \<in> set (pt_groups t). 0 < gr_ID g \<and> gr_ID g < pt_nextGroup t) \<and>
     (\<forall>r \<in> set (pt_groupNodes t). fst r < pt_nextGroup t) \<and> (\<forall>r \<in> set (pt_playerGroups t). snd r < pt_nextGroup t) \<and>
     snd ` parent_edges t \<subseteq> gr_ID ` set (active_groups t) \<and> acyclic (parent_edges t)"

text \<open>What the tables say about a key of the cache.\<close>

definition fragment :: "permission_tables \<Rightarrow> cacheKey \<Rightarrow> cache_value" where
  "fragment t key = (case fst key of
     playerNodesKind \<Rightarrow> Nodes (grants_of (pt_playerNodes t) (snd key))
   | playerGroupsKind \<Rightarrow> Groups (groups_of t (snd key))
   | groupKind \<Rightarrow> GroupValue (group_by_id t (snd key))
   | groupNodesKind \<Rightarrow> Nodes (grants_of (pt_groupNodes t) (snd key)))"

definition legit :: "permission_tables \<Rightarrow> cacheKey \<Rightarrow> bool" where
  "legit t key \<longleftrightarrow> (fst key = groupKind \<longrightarrow> snd key < pt_nextGroup t)"

definition cached_at :: "permission_cache \<Rightarrow> cacheKey \<Rightarrow> cache_value set" where
  "cached_at c key = {v. (\<exists>x. ca_local c key = Some (v, x)) \<or> (\<exists>m. ca_shared c = Some m \<and> m (shared_key key) = Some v)}"

text \<open>Outside a set of keys the cache holds what the tables say.\<close>

definition sound_but :: "cacheKey set \<Rightarrow> permission_store \<Rightarrow> bool" where
  "sound_but K s \<longleftrightarrow> tables_ok (ps_tables s) \<and>
     (\<forall>key. key \<notin> K \<longrightarrow> (\<forall>v \<in> cached_at (ps_cache s) key. v = fragment (ps_tables s) key \<and> legit (ps_tables s) key))"

abbreviation sound :: "permission_store \<Rightarrow> bool" where "sound \<equiv> sound_but {}"

text \<open>Redis does not lose an invalidation.\<close>

definition invalidates :: "permission_env \<Rightarrow> bool" where
  "invalidates e \<longleftrightarrow> (\<forall>n. \<not> pe_down e RedisDelete n)"

subsection \<open>Keys\<close>

lemma nat_dec_chars: "CHR '':'' \<notin> set (nat_dec n)" "CHR ''-'' \<notin> set (nat_dec n)"
proof -
  have *: "of_char c \<in> {48..<58::nat}" if "c \<in> set (nat_dec n)" for c
    using nat_dec_digits [OF that] of_char_digit by auto
  show "CHR '':'' \<notin> set (nat_dec n)" using * [of "CHR '':''"] by auto
  show "CHR ''-'' \<notin> set (nat_dec n)" using * [of "CHR ''-''"] by auto
qed

lemma int_dec_no_colon: "CHR '':'' \<notin> set (int_dec i)"
  by (simp add: int_dec_def nat_dec_chars)

lemma int_dec_inj: "int_dec i = int_dec j \<longleftrightarrow> i = j"
proof
  assume e: "int_dec i = int_dec j"
  have "i < 0 \<longleftrightarrow> j < 0"
    using e nat_dec_chars(2) by (auto simp: int_dec_def split: if_splits) (metis list.set_intros(1))+
  with e show "i = j" by (auto simp: int_dec_def nat_dec_inj split: if_splits)
qed simp

lemma colon_split:
  assumes "x @ r = y @ r'" and "CHR '':'' \<notin> set x" and "CHR '':'' \<notin> set y"
    and "r = [] \<or> hd r = CHR '':''" and "r' = [] \<or> hd r' = CHR '':''"
  shows "x = y \<and> r = r'"
proof -
  have take: "takeWhile (\<lambda>c. c \<noteq> CHR '':'') (z @ q) = z" if "CHR '':'' \<notin> set z" "q = [] \<or> hd q = CHR '':''" for z q
    using that by (subst takeWhile_append2; cases q; auto)
  from assms(1) have "takeWhile (\<lambda>c. c \<noteq> CHR '':'') (x @ r) = takeWhile (\<lambda>c. c \<noteq> CHR '':'') (y @ r')" by simp
  then have "x = y" using take assms(2-) by simp
  with assms(1) show ?thesis by simp
qed

lemma shared_key_inj: "shared_key a = shared_key b \<longleftrightarrow> a = b"
proof
  assume e: "shared_key a = shared_key b"
  obtain k i where a: "a = (k, i)" by (cases a)
  obtain l j where b: "b = (l, j)" by (cases b)
  define rest where "rest = (\<lambda>k. case k of playerNodesKind \<Rightarrow> '':nodes'' | playerGroupsKind \<Rightarrow> '':groups'' | groupKind \<Rightarrow> [] | groupNodesKind \<Rightarrow> '':nodes'')"
  define start where "start = (\<lambda>k. case k of playerNodesKind \<Rightarrow> ''permission:player:'' | playerGroupsKind \<Rightarrow> ''permission:player:''
    | groupKind \<Rightarrow> ''permission:group:'' | groupNodesKind \<Rightarrow> ''permission:group:'')"
  have sk: "shared_key (k, i) = start k @ int_dec i @ rest k" for k i
    by (cases k) (simp_all add: shared_key_def start_def rest_def)
  have st: "start k = start l \<and> int_dec i @ rest k = int_dec j @ rest l"
    using e unfolding a b sk by (cases k; cases l) (simp_all add: start_def)
  have colon: "rest k = [] \<or> hd (rest k) = CHR '':''" for k by (cases k) (simp_all add: rest_def)
  have "int_dec i = int_dec j \<and> rest k = rest l"
    by (rule colon_split [OF conjunct2 [OF st] int_dec_no_colon int_dec_no_colon colon colon])
  with st show "a = b" unfolding a b by (cases k; cases l) (simp_all add: start_def rest_def int_dec_inj)
qed simp

subsection \<open>What the cache does to its contents\<close>

lemma cached_removeLocal: "cached_at (removeLocal key c) k \<subseteq> cached_at c k"
  by (auto simp: cached_at_def removeLocal_def split: if_splits)

lemma cached_findLocal: "cached_at (snd (findLocal now key c)) k \<subseteq> cached_at c k"
  using cached_removeLocal [of key c k] by (auto simp: findLocal_def split: option.splits prod.splits)

lemma findLocal_found: "fst (findLocal now key c) = Some v \<Longrightarrow> v \<in> cached_at c key"
  by (auto simp: findLocal_def cached_at_def split: option.splits prod.splits if_splits)

lemma cached_storeLocal: "cached_at (storeLocal now key v c) k \<subseteq> cached_at c k \<union> (if k = key then {v} else {})"
  by (auto simp: cached_at_def storeLocal_def sweepExpired_def Let_def split: if_splits option.splits prod.splits)

lemma storeLocal_shared [simp]: "ca_shared (storeLocal now key v c) = ca_shared c"
  by (simp add: storeLocal_def sweepExpired_def Let_def)

lemma cached_findShared: "cached_at (snd (findShared e key c)) k = cached_at c k"
  by (auto simp: findShared_def redis_step_def cached_at_def Let_def split: option.splits)

lemma findShared_found: "fst (findShared e key c) = Some v \<Longrightarrow> v \<in> cached_at c key"
  by (auto simp: findShared_def redis_step_def cached_at_def Let_def split: option.splits if_splits)

lemma cached_calls [simp]: "cached_at (c\<lparr>ca_calls := n\<rparr>) k = cached_at c k"
  by (simp add: cached_at_def)

lemma cached_cache_store: "cached_at (cache_store e key v c) k \<subseteq> cached_at c k \<union> (if k = key then {v} else {})"
proof (cases "ca_shared c")
  case None
  then show ?thesis using cached_storeLocal [of "pe_now e" key v c k] by (simp add: cache_store_def Let_def)
next
  case (Some m)
  let ?c = "storeLocal (pe_now e) key v c"
  have "cached_at (?c\<lparr>ca_calls := n, ca_shared := Some (m(shared_key key \<mapsto> v))\<rparr>) k \<subseteq> cached_at ?c k \<union> (if k = key then {v} else {})" for n
    using Some by (auto simp: cached_at_def shared_key_inj split: if_splits)
  moreover have "cache_store e key v c =
      (if pe_down e RedisSet (ca_calls ?c) then ?c\<lparr>ca_calls := Suc (ca_calls ?c)\<rparr>
       else ?c\<lparr>ca_calls := Suc (ca_calls ?c), ca_shared := Some (m(shared_key key \<mapsto> v))\<rparr>)"
    using Some by (simp add: cache_store_def redis_step_def Let_def)
  ultimately have "cached_at (cache_store e key v c) k \<subseteq> cached_at ?c k \<union> (if k = key then {v} else {})"
    by (metis Un_upper1 cached_calls)
  then show ?thesis using cached_storeLocal [of "pe_now e" key v c k] by blast
qed

lemma cached_cache_delete:
  assumes "invalidates e"
  shows "cached_at (cache_delete e key c) k \<subseteq> (if k = key then {} else cached_at c k)"
  using assms
  by (cases "ca_shared c") (auto simp: cache_delete_def redis_step_def removeLocal_def cached_at_def invalidates_def shared_key_inj Let_def split: if_splits)

lemma cached_evict: "cached_at (ps_cache (evict x s)) k \<subseteq> cached_at (ps_cache s) k"
  by (auto simp: evict_def cached_at_def map_option_case split: option.splits if_splits)

lemma typed_fragment [simp]: "typed (fst key) (fragment t key)"
  by (cases key; cases "fst key") (auto simp: typed_def fragment_def)

subsection \<open>Reading\<close>

text \<open>The counter of statements is not part of what the tables say.\<close>

definition same_tables :: "permission_store \<Rightarrow> permission_store \<Rightarrow> bool" where
  "same_tables s s' \<longleftrightarrow> (\<exists>n. ps_tables s' = (ps_tables s)\<lparr>pt_calls := n\<rparr>)"

lemma same_refl [simp]: "same_tables s s"
  unfolding same_tables_def by (rule exI [of _ "pt_calls (ps_tables s)"]) simp

lemma same_trans: "same_tables s1 s2 \<Longrightarrow> same_tables s2 s3 \<Longrightarrow> same_tables s1 s3"
  by (auto simp: same_tables_def)

lemma same_cache [simp]: "same_tables s (s'\<lparr>ps_cache := c\<rparr>) = same_tables s s'"
  by (simp add: same_tables_def)

lemma calls_free [simp]:
  "active_groups (t\<lparr>pt_calls := n\<rparr>) = active_groups t"
  "group_by_id (t\<lparr>pt_calls := n\<rparr>) = group_by_id t"
  "group_by_name (t\<lparr>pt_calls := n\<rparr>) = group_by_name t"
  "groups_of (t\<lparr>pt_calls := n\<rparr>) = groups_of t"
  "parent_edges (t\<lparr>pt_calls := n\<rparr>) = parent_edges t"
  "affected (t\<lparr>pt_calls := n\<rparr>) = affected t"
  "tables_ok (t\<lparr>pt_calls := n\<rparr>) = tables_ok t"
  "fragment (t\<lparr>pt_calls := n\<rparr>) = fragment t"
  "legit (t\<lparr>pt_calls := n\<rparr>) = legit t"
  by (auto simp: active_groups_def group_by_id_def group_by_name_def groups_of_def parent_edges_def affected_def tables_ok_def
      fragment_def legit_def fun_eq_iff split: keyKind.splits option.splits)

text \<open>A call that answers: it returns, leaves the tables as they are and the store sound, and its outcome is the given one unless a
  statement failed.\<close>

definition answers :: "permission_env \<Rightarrow> 'a px \<Rightarrow> permission_error + 'a \<Rightarrow> permission_store \<Rightarrow> bool" where
  "answers e m v s \<longleftrightarrow> (sound s \<longrightarrow> (\<exists>s' r. m s = Some (s', r) \<and> sound s' \<and> same_tables s s' \<and>
     (r = v \<or> r = Inl ErrPermissionStore \<and> (\<exists>n. pe_fault e n))))"

lemma answers_give [intro]: "answers e (pgive x) (Inr x) s"
  by (simp add: answers_def pgive_def)

lemma answers_fail [intro]: "answers e (pfail err) (Inl err) s"
  by (simp add: answers_def pfail_def)

lemma answers_bind:
  assumes "answers e m (Inr x) s" and "\<And>s'. same_tables s s' \<Longrightarrow> answers e (g x) v s'"
  shows "answers e (pbind m g) v s"
  unfolding answers_def
proof
  assume s: "sound s"
  then obtain s1 r1 where 1: "m s = Some (s1, r1)" "sound s1" "same_tables s s1"
      "r1 = Inr x \<or> r1 = Inl ErrPermissionStore \<and> (\<exists>n. pe_fault e n)"
    using assms(1) by (auto simp: answers_def)
  show "\<exists>s' r. pbind m g s = Some (s', r) \<and> sound s' \<and> same_tables s s' \<and> (r = v \<or> r = Inl ErrPermissionStore \<and> (\<exists>n. pe_fault e n))"
  proof (cases "r1 = Inr x")
    case True
    with assms(2) [OF 1(3)] 1 show ?thesis by (auto simp: answers_def pbind_def intro: same_trans)
  next
    case False
    with 1 show ?thesis by (auto simp: pbind_def)
  qed
qed

lemma answers_bind_error: "answers e m (Inl err) s \<Longrightarrow> answers e (pbind m g) (Inl err) s"
  by (auto simp: answers_def pbind_def)

lemma sound_calls: "sound_but K (s\<lparr>ps_tables := (ps_tables s)\<lparr>pt_calls := n\<rparr>\<rparr>) = sound_but K s"
  by (simp add: sound_but_def)

lemma answers_reading:
  assumes "\<And>n. f ((ps_tables s)\<lparr>pt_calls := n\<rparr>) = f (ps_tables s)"
  shows "answers e (statement e (reading f)) (Inr (f (ps_tables s))) s"
  using assms sound_calls [where K = "{}" and s = s] by (auto simp: answers_def statement_def reading_def same_tables_def Let_def)

lemma answers_FindGroupByID: "answers e (FindGroupByID e key) (Inr (group_by_id (ps_tables s) key)) s"
  unfolding FindGroupByID_def by (rule answers_reading) simp

lemma answers_FindGroupByName: "answers e (FindGroupByName e name) (Inr (group_by_name (ps_tables s) name)) s"
  unfolding FindGroupByName_def by (rule answers_reading) simp

lemma answers_ListGroupNodes: "answers e (ListGroupNodes e key) (Inr (grants_of (pt_groupNodes (ps_tables s)) key)) s"
  unfolding ListGroupNodes_def by (rule answers_reading) simp

lemma answers_ListPlayerNodes: "answers e (ListPlayerNodes e p) (Inr (grants_of (pt_playerNodes (ps_tables s)) p)) s"
  unfolding ListPlayerNodes_def by (rule answers_reading) simp

lemma answers_ListGroupsByPlayer: "answers e (ListGroupsByPlayer e p) (Inr (groups_of (ps_tables s) p)) s"
  unfolding ListGroupsByPlayer_def by (rule answers_reading) simp

text \<open>A cache with the tables behind it answers what the tables say.\<close>

lemma sound_cached: "sound_but K s \<Longrightarrow> key \<notin> K \<Longrightarrow> v \<in> cached_at (ps_cache s) key \<Longrightarrow> v = fragment (ps_tables s) key \<and> legit (ps_tables s) key"
  unfolding sound_but_def by blast

lemma sound_cache:
  assumes "sound_but K s" and "\<And>k. k \<notin> L \<Longrightarrow> cached_at c k \<subseteq> cached_at (ps_cache s) k \<union> (if k = key \<and> legit (ps_tables s) key then {fragment (ps_tables s) key} else {})"
    and "K \<subseteq> L"
  shows "sound_but L (s\<lparr>ps_cache := c\<rparr>)"
  using assms unfolding sound_but_def by (fastforce split: if_splits)

lemma sound_store:
  assumes "sound s" and "legit (ps_tables s) key"
    and "\<And>k. cached_at c k \<subseteq> cached_at (ps_cache s) k \<union> (if k = key then {fragment (ps_tables s) key} else {})"
  shows "sound (s\<lparr>ps_cache := c\<rparr>)"
  by (rule sound_cache [OF assms(1), where key = key]) (use assms(2,3) in auto)

lemma answers_load:
  assumes loader: "\<And>s'. same_tables s s' \<Longrightarrow> answers e loader (Inr (fragment (ps_tables s) key)) s'" and legit: "legit (ps_tables s) key"
  shows "answers e (load e key loader) (Inr (fragment (ps_tables s) key)) s"
  unfolding answers_def
proof
  assume s: "sound s"
  obtain d c where f: "findLocal (pe_now e) key (ps_cache s) = (d, c)" by (cases "findLocal (pe_now e) key (ps_cache s)")
  have c: "cached_at c k \<subseteq> cached_at (ps_cache s) k" for k using cached_findLocal [of "pe_now e" key "ps_cache s" k] f by simp
  let ?s = "s\<lparr>ps_cache := c\<rparr>"
  have s1: "sound ?s" by (rule sound_cache [OF s, where key = key]) (use c in auto)
  show "\<exists>s' r. load e key loader s = Some (s', r) \<and> sound s' \<and> same_tables s s' \<and>
      (r = Inr (fragment (ps_tables s) key) \<or> r = Inl ErrPermissionStore \<and> (\<exists>n. pe_fault e n))"
  proof (cases d)
    case (Some v)
    then have "v \<in> cached_at (ps_cache s) key" using findLocal_found f by (metis fst_conv)
    then have "v = fragment (ps_tables s) key" using sound_cached [OF s] by simp
    then show ?thesis using Some f s1 by (simp add: load_def)
  next
    case None
    obtain d2 c2 where f2: "findShared e key c = (d2, c2)" by (cases "findShared e key c")
    have c2: "cached_at c2 k = cached_at c k" for k using cached_findShared [of e key c k] f2 by simp
    let ?s2 = "s\<lparr>ps_cache := c2\<rparr>"
    have s2: "sound ?s2" by (rule sound_cache [OF s, where key = key]) (use c c2 in auto)
    have same2: "same_tables s ?s2" by simp
    obtain s3 r3 where 3: "loader ?s2 = Some (s3, r3)" "sound s3" "same_tables s s3"
        "r3 = Inr (fragment (ps_tables s) key) \<or> r3 = Inl ErrPermissionStore \<and> (\<exists>n. pe_fault e n)"
      using loader [OF same2] s2 same_trans [OF same2] by (auto simp: answers_def)
    have fr: "fragment (ps_tables s3) key = fragment (ps_tables s) key" "legit (ps_tables s3) key"
      using 3(3) legit by (auto simp: same_tables_def)
    have st: "sound (s3\<lparr>ps_cache := cache_store e key (fragment (ps_tables s) key) (ps_cache s3)\<rparr>)"
      by (rule sound_store [OF 3(2) fr(2)]) (use cached_cache_store in \<open>simp only: fr\<close>)
    have miss: "\<exists>s' r. (case loader ?s2 of None \<Rightarrow> None | Some (s2, Inl err) \<Rightarrow> Some (s2, Inl err)
         | Some (s2, Inr v) \<Rightarrow> Some (s2\<lparr>ps_cache := cache_store e key v (ps_cache s2)\<rparr>, Inr v)) = Some (s', r) \<and> sound s' \<and> same_tables s s' \<and>
      (r = Inr (fragment (ps_tables s) key) \<or> r = Inl ErrPermissionStore \<and> (\<exists>n. pe_fault e n))"
      using 3 st by (cases r3) auto
    show ?thesis
    proof (cases "\<exists>v. d2 = Some v \<and> typed (fst key) v")
      case True
      then obtain v where v: "d2 = Some v" "typed (fst key) v" by blast
      then have "v \<in> cached_at (ps_cache s) key" using findShared_found f2 c by (metis fst_conv subsetD)
      then have vf: "v = fragment (ps_tables s) key" using sound_cached [OF s] by simp
      have "sound (s\<lparr>ps_cache := storeLocal (pe_now e) key v c2\<rparr>)"
      proof (rule sound_store [OF s legit])
        show "cached_at (storeLocal (pe_now e) key v c2) k \<subseteq> cached_at (ps_cache s) k \<union> (if k = key then {fragment (ps_tables s) key} else {})" for k
          using cached_storeLocal [of "pe_now e" key v c2 k] c [of k] c2 [of k] vf by (simp split: if_splits) blast+
      qed
      then show ?thesis using v vf f f2 None by (simp add: load_def loadMiss_def)
    next
      case False
      then show ?thesis using miss f f2 None by (cases d2) (simp_all add: load_def loadMiss_def Let_def)
    qed
  qed
qed

text \<open>What the four families of fragments share: a typed value that is packed into the cache and read back.\<close>

locale cached_fragment =
  fixes key :: "ident \<Rightarrow> cacheKey" and wrap :: "'v \<Rightarrow> cache_value" and unwrap :: "cache_value \<Rightarrow> 'v px"
    and contents :: "permission_tables \<Rightarrow> ident \<Rightarrow> 'v"
  assumes fragment: "fragment t (key i) = wrap (contents t i)"
    and unwrap: "unwrap (wrap x) = pgive x"
begin

lemma cached:
  assumes "\<And>s'. same_tables s s' \<Longrightarrow> answers e loader (Inr (contents (ps_tables s) i)) s'"
    and "legit (ps_tables s) (key i)"
  shows "answers e (pbind (load e (key i) (pbind loader (\<lambda>x. pgive (wrap x)))) unwrap) (Inr (contents (ps_tables s) i)) s"
proof (rule answers_bind)
  show "answers e (load e (key i) (pbind loader (\<lambda>x. pgive (wrap x)))) (Inr (wrap (contents (ps_tables s) i))) s"
    unfolding fragment [symmetric]
    by (rule answers_load [OF answers_bind [OF assms(1)] assms(2)]) (simp_all add: fragment answers_give)
  show "answers e (unwrap (wrap (contents (ps_tables s) i))) (Inr (contents (ps_tables s) i)) s'" for s'
    by (simp add: unwrap answers_give)
qed

end

interpretation direct_nodes: cached_fragment playerNodesKey Nodes "\<lambda>v. case v of Nodes xs \<Rightarrow> pgive xs | _ \<Rightarrow> pgive []"
    "\<lambda>t p. grants_of (pt_playerNodes t) p"
  by unfold_locales (simp_all add: fragment_def playerNodesKey_def)

interpretation memberships: cached_fragment playerGroupsKey Groups "\<lambda>v. case v of Groups xs \<Rightarrow> pgive xs | _ \<Rightarrow> pgive []" groups_of
  by unfold_locales (simp_all add: fragment_def playerGroupsKey_def)

interpretation group_row: cached_fragment groupKey GroupValue "\<lambda>v. case v of GroupValue x \<Rightarrow> pgive x | _ \<Rightarrow> pgive None" group_by_id
  by unfold_locales (simp_all add: fragment_def groupKey_def)

interpretation group_grants: cached_fragment groupNodesKey Nodes "\<lambda>v. case v of Nodes xs \<Rightarrow> pgive xs | _ \<Rightarrow> pgive []"
    "\<lambda>t key. grants_of (pt_groupNodes t) key"
  by unfold_locales (simp_all add: fragment_def groupNodesKey_def)

lemma same_contents:
  assumes "same_tables s s'"
  shows "grants_of (pt_playerNodes (ps_tables s')) = grants_of (pt_playerNodes (ps_tables s))"
    "grants_of (pt_groupNodes (ps_tables s')) = grants_of (pt_groupNodes (ps_tables s))"
    "groups_of (ps_tables s') = groups_of (ps_tables s)" "group_by_id (ps_tables s') = group_by_id (ps_tables s)"
    "pt_nextGroup (ps_tables s') = pt_nextGroup (ps_tables s)"
  using assms by (auto simp: same_tables_def)

lemma groups_of_sorted: "sort_key by_weight (groups_of t p) = groups_of t p"
  by (simp add: groups_of_def sort_key_id_if_sorted sorted_sort_key)

lemma answers_playerNodes: "answers e (playerNodes e p) (Inr (grants_of (pt_playerNodes (ps_tables s)) p)) s"
  unfolding playerNodes_def PlayerNodes_def
  by (rule direct_nodes.cached) (metis answers_ListPlayerNodes same_contents(1), simp add: legit_def playerNodesKey_def)

lemma answers_playerGroups: "answers e (playerGroups e p) (Inr (groups_of (ps_tables s) p)) s"
  unfolding playerGroups_def PlayerGroups_def
proof (rule memberships.cached)
  show "answers e (pbind (ListGroupsByPlayer e p) (\<lambda>gs. pgive (sort_key by_weight gs))) (Inr (groups_of (ps_tables s) p)) s'"
    if "same_tables s s'" for s'
    by (rule answers_bind [where x = "groups_of (ps_tables s) p"])
      (metis answers_ListGroupsByPlayer same_contents(3) that, metis groups_of_sorted answers_give)
qed (simp add: legit_def playerGroupsKey_def)

lemma answers_groupNodes: "answers e (groupNodes e key) (Inr (grants_of (pt_groupNodes (ps_tables s)) key)) s"
  unfolding groupNodes_def GroupNodes_def
  by (rule group_grants.cached) (metis answers_ListGroupNodes same_contents(2), simp add: legit_def groupNodesKey_def)

lemma answers_cached_group:
  "key < pt_nextGroup (ps_tables s) \<Longrightarrow> answers e (cached_group e key) (Inr (group_by_id (ps_tables s) key)) s"
  unfolding cached_group_def CachedGroup_def
  by (rule group_row.cached) (metis answers_FindGroupByID same_contents(4), simp add: legit_def groupKey_def)

section \<open>What a player may do\<close>

text \<open>The reference. A candidate is a grant that covers the node, with its specificity, the distance of its group and its decision. The
  strongest candidates decide, by specificity, then by distance; one of them that denies wins.\<close>

inductive ancestor :: "permission_tables \<Rightarrow> permission_group \<Rightarrow> nat \<Rightarrow> permission_group \<Rightarrow> bool" for t where
  itself: "ancestor t g 0 g"
| parent: "gr_ParentGroupID g = Some p \<Longrightarrow> group_by_id t p = Some k \<Longrightarrow> ancestor t k n h \<Longrightarrow> ancestor t g (Suc n) h"

inductive_cases ancestorE: "ancestor t g n h"

type_synonym candidate = "int \<times> nat \<times> bool"

definition at_least :: "candidate \<Rightarrow> candidate \<Rightarrow> bool" where
  "at_least c c' \<longleftrightarrow> (case (c, c') of ((sp, d, a), (sp', d', a')) \<Rightarrow> sp' < sp \<or> sp' = sp \<and> (d < d' \<or> d = d' \<and> (a \<longrightarrow> a')))"

definition allowed_by :: "candidate set \<Rightarrow> bool" where
  "allowed_by C \<longleftrightarrow> (\<exists>c \<in> C. snd (snd c) \<and> (\<forall>c' \<in> C. at_least c c'))"

definition grant_candidates :: "node_grant set \<Rightarrow> string \<Rightarrow> nat \<Rightarrow> candidate set" where
  "grant_candidates xs node depth = {(Specificity (gt_Node x) node, depth, gt_Allowed x) | x. x \<in> xs \<and> Matches (gt_Node x) node}"

definition player_candidates :: "permission_tables \<Rightarrow> ident \<Rightarrow> string \<Rightarrow> candidate set" where
  "player_candidates t p node = grant_candidates {x. (p, x) \<in> set (pt_playerNodes t)} node 0"

definition chain_candidates :: "permission_tables \<Rightarrow> permission_group \<Rightarrow> string \<Rightarrow> nat \<Rightarrow> candidate set" where
  "chain_candidates t g node depth =
     {c. \<exists>n h. ancestor t g n h \<and> c \<in> grant_candidates {x. (gr_ID h, x) \<in> set (pt_groupNodes t)} node (depth + n)}"

text \<open>Grants of the player decide before those of groups, and among the groups the first one that says anything, by weight and then id.\<close>

definition permitted :: "permission_tables \<Rightarrow> ident \<Rightarrow> string \<Rightarrow> bool" where
  "permitted t p node =
     (if player_candidates t p node \<noteq> {} then allowed_by (player_candidates t p node)
      else (case List.find (\<lambda>g. chain_candidates t g node 0 \<noteq> {}) (groups_of t p) of
          None \<Rightarrow> False | Some g \<Rightarrow> allowed_by (chain_candidates t g node 0)))"

definition sums :: "decision \<Rightarrow> candidate set \<Rightarrow> bool" where
  "sums d C \<longleftrightarrow> (if dc_found d then (dc_specificity d, dc_depth d, dc_allowed d) \<in> C \<and>
       (\<forall>c \<in> C. at_least (dc_specificity d, dc_depth d, dc_allowed d) c) else C = {})"

lemma at_least_trans: "at_least a b \<Longrightarrow> at_least b c \<Longrightarrow> at_least a c"
  by (cases a; cases b; cases c) (auto simp: at_least_def)

lemma sums_allowed:
  assumes "sums d C"
  shows "dc_found d \<and> dc_allowed d \<longleftrightarrow> allowed_by C"
proof (cases "dc_found d")
  case True
  let ?d = "(dc_specificity d, dc_depth d, dc_allowed d)"
  have d: "?d \<in> C" "\<And>c. c \<in> C \<Longrightarrow> at_least ?d c" using assms True by (auto simp: sums_def)
  show ?thesis
  proof
    assume "allowed_by C"
    then obtain c where c: "c \<in> C" "snd (snd c)" "at_least c ?d" using d(1) by (auto simp: allowed_by_def)
    have "at_least ?d c" using d(2) c(1) by blast
    with c True show "dc_found d \<and> dc_allowed d" by (cases c) (auto simp: at_least_def)
  qed (use d True in \<open>auto simp: allowed_by_def intro!: bexI [of _ ?d]\<close>)
next
  case False
  then show ?thesis using assms by (simp add: sums_def allowed_by_def)
qed

lemma sums_preferable:
  assumes "sums l C" and "sums r D"
  shows "sums (preferable l r) (C \<union> D)"
proof (cases "dc_found l \<and> dc_found r")
  case True
  let ?l = "(dc_specificity l, dc_depth l, dc_allowed l)" and ?r = "(dc_specificity r, dc_depth r, dc_allowed r)"
  have "preferable l r = l \<and> at_least ?l ?r \<or> preferable l r = r \<and> at_least ?r ?l"
    using True by (auto simp: preferable_def at_least_def)
  with True assms show ?thesis
    unfolding sums_def by (auto intro: at_least_trans)
next
  case False
  with assms show ?thesis by (auto simp: sums_def preferable_def)
qed

lemma sums_none: "\<not> dc_found d \<Longrightarrow> sums d {}" by (simp add: sums_def)

lemma Specificity_negative: "Specificity n q < 0 \<longleftrightarrow> \<not> Matches n q"
  by (simp add: Specificity_def)

lemma sums_fold:
  assumes "sums b C"
  shows "sums (foldl (\<lambda>best x. (let sp = Specificity (gt_Node x) node
      in if sp < 0 then best
         else preferable best \<lparr>dc_found = True, dc_allowed = gt_Allowed x, dc_specificity = sp, dc_depth = depth, dc_source = source\<rparr>)) b xs)
    (C \<union> grant_candidates (set xs) node depth)"
  using assms
proof (induction xs arbitrary: b C)
  case Nil
  then show ?case by (simp add: grant_candidates_def)
next
  case (Cons x xs)
  let ?d = "\<lparr>dc_found = True, dc_allowed = gt_Allowed x, dc_specificity = Specificity (gt_Node x) node, dc_depth = depth, dc_source = source\<rparr>"
  show ?case
  proof (cases "Matches (gt_Node x) node")
    case True
    have "sums ?d {(Specificity (gt_Node x) node, depth, gt_Allowed x)}" by (simp add: sums_def at_least_def)
    from Cons.IH [OF sums_preferable [OF Cons.prems this]] True show ?thesis
      by (simp add: Specificity_negative Let_def grant_candidates_def)
        (erule back_subst [where P = "sums _"], auto)
  next
    case False
    from Cons.IH [OF Cons.prems] False show ?thesis
      by (simp add: Specificity_negative Let_def grant_candidates_def)
        (erule back_subst [where P = "sums _"], auto)
  qed
qed

lemma sums_bestGrant: "sums (bestGrant xs node depth source) (grant_candidates (set xs) node depth)"
  using sums_fold [OF sums_none [of "zero_decision\<lparr>dc_specificity := -1\<rparr>"], of node depth source xs]
  by (simp add: bestGrant_def zero_decision_def)

lemma set_grants_of [simp]: "set (grants_of rows key) = {x. (key, x) \<in> set rows}"
  by (force simp: grants_of_def)

subsection \<open>Walking up\<close>

lemma chain_candidates_unfold:
  "chain_candidates t g node depth = grant_candidates {x. (gr_ID g, x) \<in> set (pt_groupNodes t)} node depth \<union>
     (case gr_ParentGroupID g of None \<Rightarrow> {} | Some p \<Rightarrow> (case group_by_id t p of None \<Rightarrow> {} | Some k \<Rightarrow> chain_candidates t k node (Suc depth)))"
  (is "?C = ?own \<union> ?up")
proof
  show "?C \<subseteq> ?own \<union> ?up"
  proof
    fix c assume "c \<in> ?C"
    then obtain n h where "ancestor t g n h" and c: "c \<in> grant_candidates {x. (gr_ID h, x) \<in> set (pt_groupNodes t)} node (depth + n)"
      by (auto simp: chain_candidates_def)
    then show "c \<in> ?own \<union> ?up"
    proof (cases rule: ancestor.cases)
      case (parent p k n')
      with c show ?thesis by (auto simp: chain_candidates_def intro!: exI [of _ n'] exI [of _ h])
    qed (use c in auto)
  qed
  show "?own \<union> ?up \<subseteq> ?C"
  proof
    fix c assume "c \<in> ?own \<union> ?up"
    then show "c \<in> ?C"
    proof
      assume "c \<in> ?own"
      then show ?thesis using ancestor.itself [of t g] by (auto simp: chain_candidates_def intro!: exI [of _ 0] exI [of _ g])
    next
      assume "c \<in> ?up"
      then obtain p k n h where "gr_ParentGroupID g = Some p" "group_by_id t p = Some k" "ancestor t k n h"
          "c \<in> grant_candidates {x. (gr_ID h, x) \<in> set (pt_groupNodes t)} node (Suc depth + n)"
        by (auto simp: chain_candidates_def split: option.splits)
      then show ?thesis using ancestor.parent by (auto simp: chain_candidates_def intro!: exI [of _ "Suc n"] exI [of _ h])
    qed
  qed
qed

lemma group_by_id_some: "group_by_id t i = Some g \<Longrightarrow> g \<in> set (active_groups t) \<and> gr_ID g = i"
  by (auto simp: group_by_id_def find_Some_iff)

lemma active_row: "g \<in> set (active_groups t) \<Longrightarrow> g \<in> set (pt_groups t)"
  by (simp add: active_groups_def)

lemma group_by_id_active:
  assumes "tables_ok t" and "g \<in> set (active_groups t)"
  shows "group_by_id t (gr_ID g) = Some g"
proof -
  have "\<exists>k. group_by_id t (gr_ID g) = Some k"
    using assms(2) by (cases "group_by_id t (gr_ID g)") (auto simp: group_by_id_def find_None_iff)
  then obtain k where k: "group_by_id t (gr_ID g) = Some k" by blast
  moreover have "inj_on gr_ID (set (pt_groups t))" using assms(1) by (simp add: tables_ok_def distinct_map)
  ultimately have "k = g" using group_by_id_some [OF k] assms(2) active_row by (auto dest: inj_onD)
  with k show ?thesis by simp
qed

lemma parent_row:
  assumes "tables_ok t" and "g \<in> set (active_groups t)" and "gr_ParentGroupID g = Some p"
  obtains k where "group_by_id t p = Some k" "k \<in> set (active_groups t)" "gr_ID k = p" "p < pt_nextGroup t" "(gr_ID g, p) \<in> parent_edges t"
proof -
  have e: "(gr_ID g, p) \<in> parent_edges t" using assms(2,3) by (auto simp: parent_edges_def)
  then have "p \<in> gr_ID ` set (active_groups t)" using assms(1) unfolding tables_ok_def by force
  then obtain k where k: "k \<in> set (active_groups t)" "gr_ID k = p" by auto
  moreover have "p < pt_nextGroup t" using assms(1) active_row k by (auto simp: tables_ok_def)
  ultimately show ?thesis using that group_by_id_active [OF assms(1)] e by auto
qed

lemma finite_edges: "finite (parent_edges t)"
proof -
  have "parent_edges t \<subseteq> (\<lambda>g. (gr_ID g, the (gr_ParentGroupID g))) ` set (active_groups t)" by (force simp: parent_edges_def)
  then show ?thesis using finite_subset by blast
qed

lemma wf_up: "tables_ok t \<Longrightarrow> wf ((parent_edges t)\<inverse>)"
  by (rule finite_acyclic_wf_converse) (simp_all add: finite_edges tables_ok_def)

lemma wf_down: "tables_ok t \<Longrightarrow> wf (parent_edges t)"
  by (rule finite_acyclic_wf) (simp_all add: finite_edges tables_ok_def)

lemma resolve_chain_unfold:
  "resolve_chain e node g visited depth best =
     (if gr_ID g \<in> set visited then pfail ErrInheritanceCycle
      else pbind (groupNodes e (gr_ID g)) (\<lambda>grants.
        case gr_ParentGroupID g of
          None \<Rightarrow> pgive (preferable best (bestGrant grants node depth (gr_Name g)))
        | Some p \<Rightarrow> pbind (cached_group e p) (\<lambda>found. case found of
              None \<Rightarrow> pfail ErrPermissionGroupNotFound
            | Some parent \<Rightarrow> resolve_chain e node parent (visited @ [gr_ID g]) (Suc depth)
                (preferable best (bestGrant grants node depth (gr_Name g))))))"
  by (rule ext, subst resolve_chain.simps)
    (simp add: pbind_def pfail_def pgive_def Let_def split: option.split sum.split prod.split)

definition shows_tables :: "permission_tables \<Rightarrow> permission_store \<Rightarrow> bool" where
  "shows_tables t s \<longleftrightarrow> (\<exists>n. ps_tables s = t\<lparr>pt_calls := n\<rparr>)"

lemma shows_same: "shows_tables t s \<Longrightarrow> same_tables s s' \<Longrightarrow> shows_tables t s'"
  by (auto simp: shows_tables_def same_tables_def)

lemma shows_self: "shows_tables (ps_tables s) s"
  unfolding shows_tables_def by (rule exI [of _ "pt_calls (ps_tables s)"]) simp

lemma shows_contents:
  assumes "shows_tables t s"
  shows "grants_of (pt_playerNodes (ps_tables s)) = grants_of (pt_playerNodes t)" "grants_of (pt_groupNodes (ps_tables s)) = grants_of (pt_groupNodes t)"
    "groups_of (ps_tables s) = groups_of t" "group_by_id (ps_tables s) = group_by_id t" "pt_nextGroup (ps_tables s) = pt_nextGroup t"
  using assms by (auto simp: shows_tables_def)

lemma answers_chain:
  assumes ok: "tables_ok t"
  shows "g \<in> set (active_groups t) \<Longrightarrow> \<forall>x \<in> set visited. (x, gr_ID g) \<in> (parent_edges t)\<^sup>+ \<Longrightarrow> sums best C \<Longrightarrow>
    \<exists>d. sums d (C \<union> chain_candidates t g node depth) \<and>
      (\<forall>s. shows_tables t s \<longrightarrow> answers e (resolve_chain e node g visited depth best) (Inr d) s)"
proof (induction "gr_ID g" arbitrary: g visited depth best C rule: wf_induct_rule [OF wf_up [OF ok]])
  case 1
  let ?own = "{x. (gr_ID g, x) \<in> set (pt_groupNodes t)}"
  let ?best = "preferable best (bestGrant (grants_of (pt_groupNodes t) (gr_ID g)) node depth (gr_Name g))"
  have fresh: "gr_ID g \<notin> set visited" using 1(3) ok by (auto simp: tables_ok_def acyclic_def)
  have best: "sums ?best (C \<union> grant_candidates ?own node depth)"
    using sums_preferable [OF 1(4) sums_bestGrant [of "grants_of (pt_groupNodes t) (gr_ID g)" node depth "gr_Name g"]] by simp
  have grants: "answers e (groupNodes e (gr_ID g)) (Inr (grants_of (pt_groupNodes t) (gr_ID g))) s" if "shows_tables t s" for s
    using answers_groupNodes [of e "gr_ID g" s] shows_contents [OF that] by simp
  show ?case
  proof (cases "gr_ParentGroupID g")
    case None
    have "answers e (resolve_chain e node g visited depth best) (Inr ?best) s" if "shows_tables t s" for s
      by (subst resolve_chain_unfold) (use fresh None in \<open>auto intro!: answers_bind [OF grants [OF that]] answers_give\<close>)
    then show ?thesis using best None by (subst chain_candidates_unfold) auto
  next
    case (Some p)
    obtain k where k: "group_by_id t p = Some k" "k \<in> set (active_groups t)" "gr_ID k = p" "p < pt_nextGroup t" "(gr_ID g, p) \<in> parent_edges t"
      using parent_row [OF ok 1(2) Some] .
    have "\<forall>x \<in> set (visited @ [gr_ID g]). (x, gr_ID k) \<in> (parent_edges t)\<^sup>+"
      using 1(3) k(3,5) by (auto intro: trancl_into_trancl)
    from 1(1) [OF _ k(2) this best, of "Suc depth"] k obtain d where
      d: "sums d (C \<union> grant_candidates ?own node depth \<union> chain_candidates t k node (Suc depth))"
        "\<And>s. shows_tables t s \<Longrightarrow> answers e (resolve_chain e node k (visited @ [gr_ID g]) (Suc depth) ?best) (Inr d) s"
      by auto
    have up: "answers e (cached_group e p) (Inr (Some k)) s" if "shows_tables t s" for s
      using answers_cached_group [of p s e] shows_contents [OF that] k by simp
    have "answers e (resolve_chain e node g visited depth best) (Inr d) s" if s: "shows_tables t s" for s
    proof -
      have "answers e (pbind (cached_group e p) (\<lambda>found. case found of None \<Rightarrow> pfail ErrPermissionGroupNotFound
            | Some parent \<Rightarrow> resolve_chain e node parent (visited @ [gr_ID g]) (Suc depth) ?best)) (Inr d) s'" if "same_tables s s'" for s'
        by (rule answers_bind [OF up [OF shows_same [OF s that]]])
          (use d(2) shows_same [OF shows_same [OF s that]] in simp)
      then show ?thesis
        by (subst resolve_chain_unfold) (use fresh Some in \<open>auto intro!: answers_bind [OF grants [OF s]]\<close>)
    qed
    moreover have "C \<union> chain_candidates t g node depth = C \<union> grant_candidates ?own node depth \<union> chain_candidates t k node (Suc depth)"
      by (subst chain_candidates_unfold) (simp add: Some k(1) Un_assoc)
    ultimately show ?thesis using d(1) by auto
  qed
qed

lemma answers_resolveGroup:
  assumes "tables_ok t" and "g \<in> set (active_groups t)"
  shows "\<exists>d. sums d (chain_candidates t g node 0) \<and> (\<forall>s. shows_tables t s \<longrightarrow> answers e (resolveGroup e g node) (Inr d) s)"
  using answers_chain [OF assms, of "[]" "zero_decision\<lparr>dc_specificity := -1\<rparr>" "{}" node 0 e]
  by (simp add: resolveGroup_def sums_def zero_decision_def)

lemma answers_resolve_groups:
  assumes ok: "tables_ok t" and "set gs \<subseteq> set (active_groups t)"
  shows "\<exists>d. (case List.find (\<lambda>g. chain_candidates t g node 0 \<noteq> {}) gs of None \<Rightarrow> sums d {} | Some g \<Rightarrow> sums d (chain_candidates t g node 0)) \<and>
    (\<forall>s. shows_tables t s \<longrightarrow> answers e (resolve_groups e node gs) (Inr d) s)"
  using assms(2)
proof (induction gs)
  case Nil
  then show ?case by (auto simp: sums_def zero_decision_def intro!: exI [of _ zero_decision] answers_give)
next
  case (Cons g gs)
  obtain d where d: "sums d (chain_candidates t g node 0)" "\<And>s. shows_tables t s \<Longrightarrow> answers e (resolveGroup e g node) (Inr d) s"
    using answers_resolveGroup [OF ok, of g node e] Cons.prems by auto
  show ?case
  proof (cases "dc_found d")
    case True
    then have ne: "chain_candidates t g node 0 \<noteq> {}" using d(1) by (auto simp: sums_def)
    have "sums (d\<lparr>dc_source := gr_Name g\<rparr>) (chain_candidates t g node 0)" using d(1) by (simp add: sums_def)
    moreover have "answers e (resolve_groups e node (g # gs)) (Inr (d\<lparr>dc_source := gr_Name g\<rparr>)) s" if "shows_tables t s" for s
      using True by (auto intro!: answers_bind [OF d(2) [OF that]] answers_give)
    ultimately show ?thesis using ne by auto
  next
    case False
    then have none: "chain_candidates t g node 0 = {}" using d(1) by (simp add: sums_def)
    obtain d' where d': "case List.find (\<lambda>g. chain_candidates t g node 0 \<noteq> {}) gs of None \<Rightarrow> sums d' {} | Some g \<Rightarrow> sums d' (chain_candidates t g node 0)"
        "\<And>s. shows_tables t s \<Longrightarrow> answers e (resolve_groups e node gs) (Inr d') s"
      using Cons by auto
    have "answers e (resolve_groups e node (g # gs)) (Inr d') s" if s: "shows_tables t s" for s
      using False by (auto intro!: answers_bind [OF d(2) [OF s]] d'(2) shows_same [OF s])
    then show ?thesis using d'(1) none by auto
  qed
qed

lemma groups_of_active: "set (groups_of t p) \<subseteq> set (active_groups t)" by (auto simp: groups_of_def)

lemma answers_resolve:
  assumes ok: "tables_ok t" and "0 < p" and "Concrete node"
  shows "\<exists>d. (dc_found d \<and> dc_allowed d \<longleftrightarrow> permitted t p node) \<and> (\<forall>s. shows_tables t s \<longrightarrow> answers e (resolve e p node) (Inr d) s)"
proof -
  let ?direct = "bestGrant (grants_of (pt_playerNodes t) p) node 0 ''player''"
  have direct: "sums ?direct (player_candidates t p node)"
    using sums_bestGrant [of "grants_of (pt_playerNodes t) p"] by (simp add: player_candidates_def)
  have nodes: "answers e (playerNodes e p) (Inr (grants_of (pt_playerNodes t) p)) s" if "shows_tables t s" for s
    using answers_playerNodes [of e p s] shows_contents [OF that] by simp
  have groups: "answers e (playerGroups e p) (Inr (groups_of t p)) s" if "shows_tables t s" for s
    using answers_playerGroups [of e p s] shows_contents [OF that] by simp
  show ?thesis
  proof (cases "dc_found ?direct")
    case True
    then have "permitted t p node \<longleftrightarrow> dc_found ?direct \<and> dc_allowed ?direct"
      using direct sums_allowed [OF direct] by (auto simp: permitted_def sums_def)
    moreover have "answers e (resolve e p node) (Inr ?direct) s" if "shows_tables t s" for s
      using True assms(2,3) by (auto simp: resolve_def Let_def intro!: answers_bind [OF nodes [OF that]] answers_give)
    ultimately show ?thesis by blast
  next
    case False
    then have none: "player_candidates t p node = {}" using direct by (simp add: sums_def)
    obtain d where d: "case List.find (\<lambda>g. chain_candidates t g node 0 \<noteq> {}) (groups_of t p) of None \<Rightarrow> sums d {} | Some g \<Rightarrow> sums d (chain_candidates t g node 0)"
        "\<And>s. shows_tables t s \<Longrightarrow> answers e (resolve_groups e node (groups_of t p)) (Inr d) s"
      using answers_resolve_groups [OF ok groups_of_active] by blast
    have "permitted t p node \<longleftrightarrow> dc_found d \<and> dc_allowed d"
      using d(1) none sums_allowed [of d] by (auto simp: permitted_def allowed_by_def split: option.splits)
    moreover have "answers e (resolve e p node) (Inr d) s" if s: "shows_tables t s" for s
      using False assms(2,3)
      by (auto simp: resolve_def Let_def intro!: answers_bind [OF nodes [OF s]] answers_bind [OF groups] d(2)
          intro: shows_same [OF s] shows_same [OF shows_same [OF s]])
    ultimately show ?thesis by blast
  qed
qed

lemma answers_HasPermission:
  assumes ok: "tables_ok (ps_tables s)" and "0 < p" and "Concrete node"
  shows "answers e (HasPermission e p node) (Inr (permitted (ps_tables s) p node)) s"
proof -
  obtain d where d: "dc_found d \<and> dc_allowed d \<longleftrightarrow> permitted (ps_tables s) p node" "answers e (resolve e p node) (Inr d) s"
    using answers_resolve [OF assms] shows_self by blast
  show ?thesis unfolding HasPermission_def
    by (rule answers_bind [OF d(2)]) (simp add: d(1) answers_give)
qed

section \<open>Calls keep the store sound\<close>

definition safe :: "'a px \<Rightarrow> bool" where
  "safe m \<longleftrightarrow> (\<forall>s. sound s \<longrightarrow> (\<exists>s' r. m s = Some (s', r) \<and> sound s'))"

text \<open>A call that removes what a change of the tables made stale.\<close>

definition clears :: "cacheKey set \<Rightarrow> 'a px \<Rightarrow> bool" where
  "clears K m \<longleftrightarrow> (\<forall>s. sound_but K s \<longrightarrow> (\<exists>s' r. m s = Some (s', r) \<and> sound s'))"

definition changes_only :: "cacheKey set \<Rightarrow> permission_tables \<Rightarrow> permission_tables \<Rightarrow> bool" where
  "changes_only K t t' \<longleftrightarrow> tables_ok t' \<and>
     (\<forall>key. key \<notin> K \<and> legit t key \<longrightarrow> fragment t' key = fragment t key \<and> legit t' key)"

lemma answers_safe: "(\<And>s. sound s \<Longrightarrow> answers e m (v s) s) \<Longrightarrow> safe m"
  unfolding safe_def answers_def by blast

lemma safe_give: "safe (pgive x)" and safe_fail: "safe (pfail err)"
  by (simp_all add: safe_def pgive_def pfail_def)

lemma safe_bind:
  assumes "safe m" and "\<And>x. safe (g x)"
  shows "safe (pbind m g)"
  unfolding safe_def
proof (intro allI impI)
  fix s assume "sound s"
  then obtain s1 r1 where 1: "m s = Some (s1, r1)" "sound s1" using assms(1) by (auto simp: safe_def)
  then show "\<exists>s' r. pbind m g s = Some (s', r) \<and> sound s'"
    using assms(2) by (cases r1) (auto simp: pbind_def safe_def)
qed

lemma sound_mono: "sound_but K s \<Longrightarrow> K \<subseteq> L \<Longrightarrow> sound_but L s"
  unfolding sound_but_def by blast

lemma sound_change:
  assumes "sound s" and "changes_only K (ps_tables s) t'"
  shows "sound_but K (s\<lparr>ps_tables := t'\<rparr>)"
  unfolding sound_but_def
proof (intro conjI allI impI ballI)
  fix key v assume k: "key \<notin> K" and v: "v \<in> cached_at (ps_cache (s\<lparr>ps_tables := t'\<rparr>)) key"
  have "v = fragment (ps_tables s) key \<and> legit (ps_tables s) key" using sound_cached [OF assms(1)] v by simp
  moreover have "key \<notin> K \<and> legit (ps_tables s) key \<longrightarrow> fragment t' key = fragment (ps_tables s) key \<and> legit t' key"
    using assms(2) unfolding changes_only_def by blast
  ultimately show "v = fragment (ps_tables (s\<lparr>ps_tables := t'\<rparr>)) key" "legit (ps_tables (s\<lparr>ps_tables := t'\<rparr>)) key"
    using k by simp_all
qed (use assms(2) in \<open>simp add: changes_only_def\<close>)

definition ends :: "'a px \<Rightarrow> permission_store \<Rightarrow> bool" where
  "ends m s \<longleftrightarrow> (\<exists>s' r. m s = Some (s', r) \<and> sound s')"

lemma safe_ends: "safe m \<longleftrightarrow> (\<forall>s. sound s \<longrightarrow> ends m s)"
  by (simp add: safe_def ends_def)

lemma ends_statement:
  assumes s: "sound s"
    and ret: "\<And>n. f ((ps_tables s)\<lparr>pt_calls := n\<rparr>) \<noteq> None"
    and change: "\<And>n x t'. f ((ps_tables s)\<lparr>pt_calls := n\<rparr>) = Some (Inr (x, t')) \<Longrightarrow>
      \<exists>K. changes_only K ((ps_tables s)\<lparr>pt_calls := n\<rparr>) t' \<and> clears K (g x)"
  shows "ends (pbind (statement e f) g) s"
proof -
  let ?t = "(ps_tables s)\<lparr>pt_calls := Suc (pt_calls (ps_tables s))\<rparr>"
  have s1: "sound (s\<lparr>ps_tables := ?t\<rparr>)" using s sound_calls by blast
  show ?thesis
  proof (cases "pe_fault e (pt_calls (ps_tables s))")
    case True
    then show ?thesis using s1 by (simp add: ends_def statement_def pbind_def Let_def)
  next
    case False
    obtain r where r: "f ?t = Some r" using ret by blast
    show ?thesis
    proof (cases r)
      case (Inl err)
      then show ?thesis using False r s1 by (simp add: ends_def statement_def pbind_def Let_def)
    next
      case (Inr xt)
      obtain x t' where xt: "xt = (x, t')" by (cases xt)
      obtain K where c: "changes_only K ?t t' \<and> clears K (g x)" using change r Inr xt by blast
      from sound_change [OF s1, simplified, OF conjunct1 [OF c]] have "sound_but K (s\<lparr>ps_tables := t'\<rparr>)" by simp
      then show ?thesis using c False r Inr xt by (auto simp: ends_def clears_def statement_def pbind_def Let_def)
    qed
  qed
qed

lemma safe_statement:
  assumes "\<And>t. tables_ok t \<Longrightarrow> f t \<noteq> None"
    and "\<And>t x t'. tables_ok t \<Longrightarrow> f t = Some (Inr (x, t')) \<Longrightarrow> changes_only K t t'"
    and "\<And>x. clears K (g x)"
  shows "safe (pbind (statement e f) g)"
  unfolding safe_ends
proof (intro allI impI)
  fix s assume s: "sound s"
  then have "tables_ok ((ps_tables s)\<lparr>pt_calls := n\<rparr>)" for n by (simp add: sound_but_def)
  then show "ends (pbind (statement e f) g) s"
    by (intro ends_statement [OF s]) (use assms in blast)+
qed

lemma delete_sound:
  assumes "invalidates e" and "sound_but K s"
  shows "sound_but (K - {key}) (s\<lparr>ps_cache := cache_delete e key (ps_cache s)\<rparr>)"
proof -
  have "cached_at (cache_delete e key (ps_cache s)) k \<subseteq> (if k = key then {} else cached_at (ps_cache s) k)" for k
    by (rule cached_cache_delete [OF assms(1)])
  then show ?thesis using assms(2) unfolding sound_but_def by (fastforce split: if_splits)
qed

lemma clears_give: "clears {} (pgive x)" by (simp add: clears_def pgive_def)

lemma clears_fail: "clears {} (pfail err)" by (simp add: clears_def pfail_def)

lemma clears_less: "clears K m \<Longrightarrow> L \<subseteq> K \<Longrightarrow> clears L m"
  unfolding clears_def using sound_mono by blast

lemma clears_group:
  assumes "invalidates e" and "clears (K - {groupKey key, groupNodesKey key}) (g ())"
  shows "clears K (pbind (InvalidateGroup e key) g)"
  unfolding clears_def
proof (intro allI impI)
  fix s assume "sound_but K s"
  from delete_sound [OF assms(1) delete_sound [OF assms(1) this, of "groupKey key"], of "groupNodesKey key"]
  have "sound_but (K - {groupKey key, groupNodesKey key}) (s\<lparr>ps_cache := cache_delete e (groupNodesKey key) (cache_delete e (groupKey key) (ps_cache s))\<rparr>)"
    by (simp add: Diff_insert [symmetric] insert_commute)
  then show "\<exists>s' r. pbind (InvalidateGroup e key) g s = Some (s', r) \<and> sound s'"
    using assms(2) by (auto simp: clears_def pbind_def InvalidateGroup_def cache_call_def)
qed

lemma clears_call:
  assumes "invalidates e" and "clears (K - {key}) (g ())"
  shows "clears K (pbind (cache_call (cache_delete e key)) g)"
  using assms(2) delete_sound [OF assms(1)] unfolding clears_def by (fastforce simp: pbind_def cache_call_def)

lemma pbind_give: "pbind m pgive = m"
  by (rule ext) (simp add: pbind_def pgive_def split: option.split sum.split prod.split)

lemma pbind_unit: "pbind m (\<lambda>_. pgive ()) = m"
proof -
  have "(\<lambda>_. pgive ()) = (pgive :: unit \<Rightarrow> unit px)" by (rule ext) simp
  then show ?thesis using pbind_give [of m] by simp
qed

lemma clears_InvalidateGroup: "invalidates e \<Longrightarrow> clears {groupKey key, groupNodesKey key} (InvalidateGroup e key)"
  using clears_group [of e "{groupKey key, groupNodesKey key}" key "\<lambda>_. pgive ()"] clears_give [of "()"] by (simp add: pbind_unit pbind_give)

lemma clears_one: "invalidates e \<Longrightarrow> clears {key} (cache_call (cache_delete e key))"
  using clears_call [of e "{key}" key "\<lambda>_. pgive ()"] clears_give [of "()"] by (simp add: pbind_unit pbind_give)

lemma clears_players:
  assumes "invalidates e"
  shows "K \<subseteq> playerGroupsKey ` set ps \<Longrightarrow> clears K (pbind (invalidate_players e ps) (\<lambda>_. pgive x))"
proof (induction ps arbitrary: K)
  case Nil
  then show ?case using clears_give [of x] by (simp add: clears_def pbind_def pgive_def)
next
  case (Cons p ps)
  have assoc: "pbind (invalidate_players e (p # ps)) (\<lambda>_. pgive x) =
      pbind (cache_call (cache_delete e (playerGroupsKey p))) (\<lambda>_. pbind (invalidate_players e ps) (\<lambda>_. pgive x))"
    by (rule ext) (simp add: pbind_def InvalidatePlayerGroups_def cache_call_def)
  have "K - {playerGroupsKey p} \<subseteq> playerGroupsKey ` set ps" using Cons.prems by auto
  from Cons.IH [OF this] show ?case unfolding assoc by (rule clears_call [OF assms])
qed

subsection \<open>Changes of single tables\<close>

lemma grants_of_upsert: "k \<noteq> key \<Longrightarrow> grants_of (upsert_grant key x rows) k = grants_of rows k"
proof -
  assume k: "k \<noteq> key"
  have "filter (\<lambda>r. fst r = k) (map (\<lambda>r. if fst r = key \<and> gt_Node (snd r) = gt_Node x then (key, x) else r) rows) = filter (\<lambda>r. fst r = k) rows"
    using k by (induction rows) auto
  then show ?thesis using k by (simp add: grants_of_def upsert_grant_def)
qed

lemma grants_of_delete: "k \<noteq> key \<Longrightarrow> grants_of (delete_grant key node rows) k = grants_of rows k"
proof -
  assume "k \<noteq> key"
  then have "filter (\<lambda>r. fst r = k) (delete_grant key node rows) = filter (\<lambda>r. fst r = k) rows"
    unfolding delete_grant_def filter_filter by (intro filter_cong) auto
  then show ?thesis by (simp add: grants_of_def)
qed

lemma fst_upsert: "r \<in> set (upsert_grant key x rows) \<Longrightarrow> fst r = key \<or> r \<in> set rows"
  by (auto simp: upsert_grant_def split: if_splits)

lemma tables_ok_free [simp]:
  "parent_edges (t\<lparr>pt_groupNodes := xs\<rparr>) = parent_edges t" "active_groups (t\<lparr>pt_groupNodes := xs\<rparr>) = active_groups t"
  "parent_edges (t\<lparr>pt_playerNodes := xs\<rparr>) = parent_edges t" "active_groups (t\<lparr>pt_playerNodes := xs\<rparr>) = active_groups t"
  "parent_edges (t\<lparr>pt_playerGroups := ys\<rparr>) = parent_edges t" "active_groups (t\<lparr>pt_playerGroups := ys\<rparr>) = active_groups t"
  by (simp_all add: parent_edges_def active_groups_def)

lemma change_groupNodes:
  assumes "tables_ok t" and "\<And>k. k \<noteq> key \<Longrightarrow> grants_of xs k = grants_of (pt_groupNodes t) k" and "\<forall>r \<in> set xs. fst r < pt_nextGroup t"
  shows "changes_only {groupKey key, groupNodesKey key} t (t\<lparr>pt_groupNodes := xs\<rparr>)"
  using assms by (auto simp: changes_only_def tables_ok_def fragment_def legit_def groupKey_def groupNodesKey_def groups_of_def group_by_id_def
      split: keyKind.splits)

lemma change_playerNodes:
  assumes "tables_ok t" and "\<And>k. k \<noteq> p \<Longrightarrow> grants_of xs k = grants_of (pt_playerNodes t) k"
  shows "changes_only {playerNodesKey p} t (t\<lparr>pt_playerNodes := xs\<rparr>)"
  using assms by (auto simp: changes_only_def tables_ok_def fragment_def legit_def playerNodesKey_def groups_of_def group_by_id_def
      split: keyKind.splits)

lemma change_playerGroups:
  assumes "tables_ok t" and "\<And>q key. q \<noteq> p \<Longrightarrow> (q, key) \<in> set ys \<longleftrightarrow> (q, key) \<in> set (pt_playerGroups t)" and "\<forall>r \<in> set ys. snd r < pt_nextGroup t"
  shows "changes_only {playerGroupsKey p} t (t\<lparr>pt_playerGroups := ys\<rparr>)"
  using assms by (auto simp: changes_only_def tables_ok_def fragment_def legit_def playerGroupsKey_def groups_of_def group_by_id_def
      split: keyKind.splits)

lemma no_change: "tables_ok t \<Longrightarrow> changes_only K t t"
  by (simp add: changes_only_def)

lemma row_next: "tables_ok t \<Longrightarrow> list_ex (\<lambda>h. gr_ID h = key) (pt_groups t) \<Longrightarrow> key < pt_nextGroup t"
  by (auto simp: tables_ok_def list_ex_iff)

lemma ok_rows: "tables_ok t \<Longrightarrow> r \<in> set (pt_groupNodes t) \<Longrightarrow> fst r < pt_nextGroup t" "tables_ok t \<Longrightarrow> q \<in> set (pt_playerGroups t) \<Longrightarrow> snd q < pt_nextGroup t"
  by (auto simp: tables_ok_def)

lemma ok_pair: "tables_ok t \<Longrightarrow> (a, b) \<in> set (pt_playerGroups t) \<Longrightarrow> b < pt_nextGroup t"
  using ok_rows(2) [of t "(a, b)"] by simp

lemma set_delete: "r \<in> set (delete_grant key node rows) \<Longrightarrow> r \<in> set rows" by (auto simp: delete_grant_def)

lemma safe_UpsertGroupNode: "(\<And>x. clears {groupKey key, groupNodesKey key} (g x)) \<Longrightarrow> safe (pbind (UpsertGroupNode e key node a) g)"
  unfolding UpsertGroupNode_def
  by (rule safe_statement [where K = "{groupKey key, groupNodesKey key}"])
    (auto split: if_splits intro!: change_groupNodes grants_of_upsert dest!: fst_upsert dest: row_next ok_rows(1))

lemma safe_DeleteGroupNode: "(\<And>x. clears {groupKey key, groupNodesKey key} (g x)) \<Longrightarrow> safe (pbind (DeleteGroupNode e key node) g)"
  unfolding DeleteGroupNode_def
  by (rule safe_statement [where K = "{groupKey key, groupNodesKey key}"])
    (auto intro!: change_groupNodes grants_of_delete ok_rows(1) dest: set_delete)

lemma safe_UpsertPlayerNode: "(\<And>x. clears {playerNodesKey p} (g x)) \<Longrightarrow> safe (pbind (UpsertPlayerNode e p node a) g)"
  unfolding UpsertPlayerNode_def
  by (rule safe_statement [where K = "{playerNodesKey p}"])
    (auto split: if_splits intro!: change_playerNodes grants_of_upsert)

lemma safe_DeletePlayerNode: "(\<And>x. clears {playerNodesKey p} (g x)) \<Longrightarrow> safe (pbind (DeletePlayerNode e p node) g)"
  unfolding DeletePlayerNode_def
  by (rule safe_statement [where K = "{playerNodesKey p}"])
    (auto intro!: change_playerNodes grants_of_delete)

lemma safe_AddPlayer: "(\<And>x. clears {playerGroupsKey p} (g x)) \<Longrightarrow> safe (pbind (sql_AddPlayerToGroup e p key) g)"
  unfolding sql_AddPlayerToGroup_def
  by (rule safe_statement [where K = "{playerGroupsKey p}"])
    (auto split: if_splits intro!: change_playerGroups no_change intro: row_next ok_pair)

lemma safe_RemovePlayer: "(\<And>x. clears {playerGroupsKey p} (g x)) \<Longrightarrow> safe (pbind (sql_RemovePlayerFromGroup e p key) g)"
  unfolding sql_RemovePlayerFromGroup_def
  by (rule safe_statement [where K = "{playerGroupsKey p}"])
    (auto intro!: change_playerGroups dest: ok_rows(2))

subsection \<open>Inheritance\<close>

text \<open>Whether a group may have the parent that a row names: the parent is an active group that does not inherit from the group.\<close>

definition parent_ok :: "permission_tables \<Rightarrow> ident option \<Rightarrow> ident list \<Rightarrow> bool" where
  "parent_ok t parent visited \<longleftrightarrow> (\<forall>p. parent = Some p \<longrightarrow>
     p \<in> gr_ID ` set (active_groups t) \<and> (\<forall>x. (p, x) \<in> (parent_edges t)\<^sup>* \<longrightarrow> x \<notin> set visited))"

definition passes :: "'a px \<Rightarrow> permission_store \<Rightarrow> ('a \<Rightarrow> bool) \<Rightarrow> bool" where
  "passes m s Q \<longleftrightarrow> (\<exists>s' r. m s = Some (s', r) \<and> sound s' \<and> same_tables s s' \<and> (\<forall>x. r = Inr x \<longrightarrow> Q x))"

lemma passes_answers: "sound s \<Longrightarrow> answers e m (Inr v) s \<Longrightarrow> Q v \<Longrightarrow> passes m s Q"
  unfolding passes_def answers_def by fastforce

lemma passes_bind:
  assumes "passes m s P" and "\<And>x s'. P x \<Longrightarrow> sound s' \<Longrightarrow> same_tables s s' \<Longrightarrow> passes (g x) s' Q"
  shows "passes (pbind m g) s Q"
proof -
  obtain s1 r1 where 1: "m s = Some (s1, r1)" "sound s1" "same_tables s s1" "\<forall>x. r1 = Inr x \<longrightarrow> P x"
    using assms(1) by (auto simp: passes_def)
  show ?thesis
  proof (cases r1)
    case (Inl err)
    then show ?thesis using 1 by (auto simp: passes_def pbind_def)
  next
    case (Inr x)
    then have "passes (g x) s1 Q" using assms(2) 1 by blast
    then show ?thesis using 1 Inr by (auto simp: passes_def pbind_def intro: same_trans)
  qed
qed

lemma passes_give: "sound s \<Longrightarrow> Q x \<Longrightarrow> passes (pgive x) s Q" by (simp add: passes_def pgive_def)
lemma passes_fail: "sound s \<Longrightarrow> passes (pfail err) s Q" by (simp add: passes_def pfail_def)

lemma validate_parents_unfold:
  "validate_parents e visited parent = (case parent of
     None \<Rightarrow> pgive ()
   | Some p \<Rightarrow> if p \<in> set visited then pfail ErrInheritanceCycle
       else pbind (FindGroupByID e p) (\<lambda>found. case found of
           None \<Rightarrow> pfail ErrPermissionGroupNotFound | Some g \<Rightarrow> validate_parents e (p # visited) (gr_ParentGroupID g)))"
  by (rule ext, subst validate_parents.simps)
    (simp add: pbind_def pfail_def pgive_def split: option.split sum.split prod.split)

lemma edge_from:
  assumes "tables_ok t" and "g \<in> set (active_groups t)"
  shows "(gr_ID g, q) \<in> parent_edges t \<longleftrightarrow> gr_ParentGroupID g = Some q"
proof
  assume "(gr_ID g, q) \<in> parent_edges t"
  then obtain h where "h \<in> set (active_groups t)" "gr_ID h = gr_ID g" "gr_ParentGroupID h = Some q" by (auto simp: parent_edges_def)
  with assms show "gr_ParentGroupID g = Some q" by (metis group_by_id_active option.inject)
qed (use assms in \<open>auto simp: parent_edges_def\<close>)

lemma passes_validate_parents:
  assumes ok: "tables_ok t"
  shows "sound s \<Longrightarrow> shows_tables t s \<Longrightarrow> passes (validate_parents e visited parent) s (\<lambda>_. parent_ok t parent visited)"
proof (cases parent)
  case None
  then show "sound s \<Longrightarrow> ?thesis" by (subst validate_parents_unfold) (auto simp: parent_ok_def intro: passes_give)
next
  case (Some p)
  have "sound s \<Longrightarrow> shows_tables t s \<Longrightarrow> passes (validate_parents e visited (Some p)) s (\<lambda>_. parent_ok t (Some p) visited)"
  proof (induction p arbitrary: visited s rule: wf_induct_rule [OF wf_up [OF ok]])
    case (1 p)
    have find: "passes (FindGroupByID e p) s (\<lambda>found. found = group_by_id t p)"
      by (rule passes_answers [OF 1(2) answers_FindGroupByID]) (simp add: shows_contents [OF 1(3)])
    show ?case
    proof (subst validate_parents_unfold, simp only: option.case, cases "p \<in> set visited")
      case True
      then show "passes (if p \<in> set visited then pfail ErrInheritanceCycle else pbind (FindGroupByID e p) (\<lambda>found. case found of
           None \<Rightarrow> pfail ErrPermissionGroupNotFound | Some g \<Rightarrow> validate_parents e (p # visited) (gr_ParentGroupID g))) s (\<lambda>_. parent_ok t (Some p) visited)"
        using passes_fail [OF 1(2)] by simp
    next
      case False
      have "passes (case group_by_id t p of None \<Rightarrow> pfail ErrPermissionGroupNotFound | Some g \<Rightarrow> validate_parents e (p # visited) (gr_ParentGroupID g)) s'
          (\<lambda>_. parent_ok t (Some p) visited)" if s': "sound s'" "same_tables s s'" for s'
      proof (cases "group_by_id t p")
        case None
        then show ?thesis using passes_fail [OF s'(1)] by simp
      next
        case (Some g)
        have g: "g \<in> set (active_groups t)" "gr_ID g = p" using group_by_id_some [OF Some] by auto
        note sh = shows_same [OF 1(3) s'(2)]
        have here: "parent_ok t (gr_ParentGroupID g) (p # visited) \<Longrightarrow> parent_ok t (Some p) visited"
          unfolding parent_ok_def
        proof (intro allI impI conjI)
          fix q x assume up: "\<forall>q. gr_ParentGroupID g = Some q \<longrightarrow> q \<in> gr_ID ` set (active_groups t) \<and>
              (\<forall>x. (q, x) \<in> (parent_edges t)\<^sup>* \<longrightarrow> x \<notin> set (p # visited))" and q: "Some p = Some q"
          show "q \<in> gr_ID ` set (active_groups t)" using g q by auto
          assume "(q, x) \<in> (parent_edges t)\<^sup>*"
          then show "x \<notin> set visited"
          proof (cases rule: converse_rtranclE)
            case base
            then show ?thesis using False q by simp
          next
            case (step y)
            then have "gr_ParentGroupID g = Some y" using edge_from [OF ok g(1)] g(2) q by simp
            with up step(2) show ?thesis by auto
          qed
        qed
        show ?thesis
        proof (cases "gr_ParentGroupID g")
          case None
          then have "parent_ok t (Some p) visited" by (intro here) (simp add: parent_ok_def)
          then show ?thesis using Some None by (subst validate_parents_unfold) (auto intro: passes_give [OF s'(1)])
        next
          case (Some q)
          have "(q, p) \<in> (parent_edges t)\<inverse>" using edge_from [OF ok g(1)] Some g(2) by simp
          from 1(1) [OF this s'(1) sh, of "p # visited"] here show ?thesis
            using \<open>group_by_id t p = Some g\<close> Some by (auto simp: passes_def)
        qed
      qed
      then have "passes (pbind (FindGroupByID e p) (\<lambda>found. case found of
           None \<Rightarrow> pfail ErrPermissionGroupNotFound | Some g \<Rightarrow> validate_parents e (p # visited) (gr_ParentGroupID g))) s (\<lambda>_. parent_ok t (Some p) visited)"
        by (intro passes_bind [OF find]) simp
      then show "passes (if p \<in> set visited then pfail ErrInheritanceCycle else pbind (FindGroupByID e p) (\<lambda>found. case found of
           None \<Rightarrow> pfail ErrPermissionGroupNotFound | Some g \<Rightarrow> validate_parents e (p # visited) (gr_ParentGroupID g))) s (\<lambda>_. parent_ok t (Some p) visited)"
        using False by simp
    qed
  qed
  then show "sound s \<Longrightarrow> shows_tables t s \<Longrightarrow> ?thesis" using Some by simp
qed

lemma passes_validateGroup:
  assumes "sound s"
  shows "passes (validateGroup e g key) s (\<lambda>_. parent_ok (ps_tables s) (gr_ParentGroupID g) [key])"
proof -
  have ok: "tables_ok (ps_tables s)" using assms by (simp add: sound_but_def)
  let ?Q = "\<lambda>_::unit. parent_ok (ps_tables s) (gr_ParentGroupID g) [key]"
  have name: "passes (FindGroupByName e (gr_Name g)) s (\<lambda>_. True)" by (rule passes_answers [OF assms answers_FindGroupByName]) simp
  have "passes (if (case existing of None \<Rightarrow> False | Some h \<Rightarrow> gr_ID h \<noteq> key) then pfail ErrPermissionConflict
        else (case gr_ParentGroupID g of None \<Rightarrow> pgive ()
          | Some p \<Rightarrow> if p \<le> 0 \<or> p = key then pfail ErrInheritanceCycle else validate_parents e [key] (Some p))) s' ?Q"
    if s': "sound s'" "same_tables s s'" for existing s'
  proof -
    have "passes (validate_parents e [key] (gr_ParentGroupID g)) s' ?Q"
      by (rule passes_validate_parents [OF ok s'(1) shows_same [OF shows_self s'(2)]])
    then show ?thesis using passes_fail [OF s'(1)] passes_give [OF s'(1), of ?Q]
      by (auto simp: parent_ok_def split: option.split)
  qed
  then show ?thesis unfolding validateGroup_def using passes_fail [OF assms]
    by (auto intro!: passes_bind [OF name])
qed

text \<open>The recursive query ends on an acyclic relation, since every round replaces groups by their children.\<close>

lemma set_children: "set (children gs work) = {gr_ID g | g w. g \<in> set gs \<and> w \<in> set work \<and> gr_ParentGroupID g = Some w}"
  by (auto simp: children_def)

lemma descend_ends:
  assumes ok: "tables_ok t"
  shows "\<exists>ids. descend (active_groups t) work found = Some ids \<and> set found \<union> {x. \<exists>w \<in> set work. (x, w) \<in> (parent_edges t)\<^sup>*} = set ids"
proof (induction "mset work" arbitrary: work found rule: wf_induct_rule [OF wf_mult [OF wf_down [OF ok]]])
  case 1
  show ?case
  proof (cases "work = []")
    case True
    then show ?thesis by (subst descend.simps) simp
  next
    case False
    let ?next = "children (active_groups t) work"
    have edge: "x \<in> set ?next \<longleftrightarrow> (\<exists>w \<in> set work. (x, w) \<in> parent_edges t)" for x
      by (auto simp: set_children parent_edges_def)
    have "(mset ?next, mset work) \<in> mult (parent_edges t)"
      using one_step_implies_mult [of "mset work" "mset ?next" "parent_edges t" "{#}"] False edge by auto
    from 1 [OF this, of "found @ work"] obtain ids where
      ids: "descend (active_groups t) ?next (found @ work) = Some ids"
        "set (found @ work) \<union> {x. \<exists>w \<in> set ?next. (x, w) \<in> (parent_edges t)\<^sup>*} = set ids" by auto
    have "set work \<union> {x. \<exists>w \<in> set ?next. (x, w) \<in> (parent_edges t)\<^sup>*} = {x. \<exists>w \<in> set work. (x, w) \<in> (parent_edges t)\<^sup>*}"
      (is "?L = ?R")
    proof
      show "?L \<subseteq> ?R" using edge by (auto intro: rtrancl_into_rtrancl)
      show "?R \<subseteq> ?L"
      proof
        fix x assume "x \<in> ?R"
        then obtain w where w: "w \<in> set work" "(x, w) \<in> (parent_edges t)\<^sup>*" by blast
        from w(2) show "x \<in> ?L"
        proof (cases rule: rtranclE)
          case base
          then show ?thesis using w(1) by simp
        next
          case (step y)
          then have "y \<in> set ?next" using edge w(1) by blast
          then show ?thesis using step(1) by blast
        qed
      qed
    qed
    then have "set found \<union> {x. \<exists>w \<in> set work. (x, w) \<in> (parent_edges t)\<^sup>*} = set ids" using ids(2) by auto
    then show ?thesis using ids(1) False by (subst descend.simps) simp
  qed
qed

lemma affected_members:
  assumes ok: "tables_ok t"
  shows "\<exists>ps. affected t key = Some ps \<and> set ps = {p. \<exists>g \<in> set (active_groups t). gr_ID g = key \<and> (\<exists>x. (x, key) \<in> (parent_edges t)\<^sup>* \<and> (p, x) \<in> set (pt_playerGroups t))}"
proof -
  obtain ids where ids: "descend (active_groups t) (map gr_ID (filter (\<lambda>g. gr_ID g = key) (active_groups t))) [] = Some ids"
      "set ids = {x. \<exists>w \<in> set (map gr_ID (filter (\<lambda>g. gr_ID g = key) (active_groups t))). (x, w) \<in> (parent_edges t)\<^sup>*}"
    using descend_ends [OF ok, of "map gr_ID (filter (\<lambda>g. gr_ID g = key) (active_groups t))" "[]"] by auto
  let ?ps = "sort (remdups (map fst (filter (\<lambda>r. snd r \<in> set ids) (pt_playerGroups t))))"
  have "set ?ps = {p. \<exists>x \<in> set ids. (p, x) \<in> set (pt_playerGroups t)}" by force
  also have "\<dots> = {p. \<exists>g \<in> set (active_groups t). gr_ID g = key \<and> (\<exists>x. (x, key) \<in> (parent_edges t)\<^sup>* \<and> (p, x) \<in> set (pt_playerGroups t))}"
    unfolding ids(2) by auto
  finally show ?thesis using ids(1) by (simp add: affected_def)
qed

lemma ends_bind:
  assumes "passes m s P" and "\<And>x s'. P x \<Longrightarrow> sound s' \<Longrightarrow> same_tables s s' \<Longrightarrow> ends (g x) s'"
  shows "ends (pbind m g) s"
proof -
  obtain s1 r1 where 1: "m s = Some (s1, r1)" "sound s1" "same_tables s s1" "\<forall>x. r1 = Inr x \<longrightarrow> P x"
    using assms(1) by (auto simp: passes_def)
  then show ?thesis using assms(2) [OF _ 1(2,3)] by (cases r1) (auto simp: ends_def pbind_def)
qed

lemma ends_fail: "sound s \<Longrightarrow> ends (pfail err) s" by (simp add: ends_def pfail_def)

lemma ends_clears: "sound s \<Longrightarrow> clears K m \<Longrightarrow> ends m s"
  unfolding ends_def clears_def using sound_mono [of "{}"] by blast

lemma parent_ok_calls [simp]: "parent_ok (t\<lparr>pt_calls := n\<rparr>) = parent_ok t"
  by (simp add: parent_ok_def fun_eq_iff)

lemma parent_ok_same: "same_tables s s' \<Longrightarrow> parent_ok (ps_tables s') = parent_ok (ps_tables s)"
  by (auto simp: same_tables_def)

text \<open>A new row, with an id that nothing mentions yet.\<close>

lemma change_create:
  assumes ok: "tables_ok t" and row: "gr_ID row = pt_nextGroup t" "gr_DeletedAt row = None" and par: "parent_ok t (gr_ParentGroupID row) vs"
  shows "changes_only {} t (t\<lparr>pt_groups := pt_groups t @ [row], pt_nextGroup := pt_nextGroup t + 1\<rparr>)" (is "changes_only {} t ?t")
proof -
  let ?n = "pt_nextGroup t"
  have old: "gr_ID g < ?n" if "g \<in> set (pt_groups t)" for g using ok that by (simp add: tables_ok_def)
  have act: "active_groups ?t = active_groups t @ [row]" using row by (simp add: active_groups_def)
  have up: "gr_ID row \<notin> gr_ID ` set (active_groups t)" using old row active_row by fastforce
  have edges: "parent_edges ?t = parent_edges t \<union> {(?n, p) | p. gr_ParentGroupID row = Some p}"
    using row by (auto simp: parent_edges_def act) metis
  have snd: "snd ` parent_edges t \<subseteq> gr_ID ` set (active_groups t)" using ok by (simp add: tables_ok_def)
  have acyc: "acyclic (parent_edges ?t)"
  proof (cases "gr_ParentGroupID row")
    case None
    then show ?thesis using ok by (simp add: edges tables_ok_def)
  next
    case (Some p)
    then have p: "p \<in> gr_ID ` set (active_groups t)" using par by (simp add: parent_ok_def)
    have "(p, ?n) \<notin> (parent_edges t)\<^sup>*"
    proof
      assume "(p, ?n) \<in> (parent_edges t)\<^sup>*"
      then show False
      proof (cases rule: rtranclE)
        case base
        then show ?thesis using p up row by simp
      next
        case (step y)
        then have "?n \<in> gr_ID ` set (active_groups t)" using snd by force
        then show ?thesis using up row by simp
      qed
    qed
    then show ?thesis using ok Some by (simp add: edges tables_ok_def)
  qed
  have par': "gr_ParentGroupID row = Some p \<Longrightarrow> p \<in> gr_ID ` set (active_groups t)" for p using par by (simp add: parent_ok_def)
  have dist: "distinct (map gr_ID (pt_groups ?t))" using ok old row by (force simp: tables_ok_def)
  have tok: "tables_ok ?t"
    unfolding tables_ok_def
    using ok row acyc snd par' dist by (auto simp: tables_ok_def edges act)
  have mem: "(p, ?n) \<notin> set (pt_playerGroups t)" for p using ok by (auto simp: tables_ok_def)
  have groups: "groups_of ?t p = groups_of t p" for p by (simp add: groups_of_def act row mem)
  have find: "group_by_id ?t i = group_by_id t i" if "i < ?n" for i
  proof -
    have "List.find (\<lambda>g. gr_ID g = i) (xs @ [row]) = List.find (\<lambda>g. gr_ID g = i) xs" for xs
      using that row(1) by (induction xs) auto
    then show ?thesis by (simp add: group_by_id_def act)
  qed
  show ?thesis using tok groups find by (auto simp: changes_only_def fragment_def legit_def split: keyKind.splits)
qed

lemma safe_CreateGroup: "safe (CreateGroup e cp)"
  unfolding safe_ends
proof (intro allI impI)
  fix s assume s: "sound s"
  let ?g = "new_group cp"
  show "ends (CreateGroup e cp) s"
    unfolding CreateGroup_def
  proof (rule ends_bind [OF passes_validateGroup [OF s, of e ?g 0]])
    fix s' assume par: "parent_ok (ps_tables s) (gr_ParentGroupID ?g) [0]" and s': "sound s'" "same_tables s s'"
    have par': "parent_ok (ps_tables s') (gr_ParentGroupID ?g) [0]" using par parent_ok_same [OF s'(2)] by simp
    have ok: "tables_ok ((ps_tables s')\<lparr>pt_calls := n\<rparr>)" for n using s'(1) by (simp add: sound_but_def)
    have "ends (pbind (sql_CreateGroup e ?g) pgive) s'"
      unfolding sql_CreateGroup_def
    proof (rule ends_statement [OF s'(1)])
      fix n x t'
      let ?t = "(ps_tables s')\<lparr>pt_calls := n\<rparr>"
      let ?row = "?g\<lparr>gr_ID := pt_nextGroup ?t, gr_Version := 1, gr_DeletedAt := None\<rparr>"
      assume "(let row = ?g\<lparr>gr_ID := pt_nextGroup ?t, gr_Version := 1, gr_DeletedAt := None\<rparr>
        in if \<not> row_ok ?t row then Some (Inl ErrPermissionStore)
           else Some (Inr (row, ?t\<lparr>pt_groups := pt_groups ?t @ [row], pt_nextGroup := pt_nextGroup ?t + 1\<rparr>))) = Some (Inr (x, t'))"
      then have "t' = ?t\<lparr>pt_groups := pt_groups ?t @ [?row], pt_nextGroup := pt_nextGroup ?t + 1\<rparr>"
        by (auto simp: Let_def split: if_splits)
      then show "\<exists>K. changes_only K ?t t' \<and> clears K (pgive x)"
        using change_create [OF ok [of n], of ?row "[0]"] par' clears_give [of x] by auto
    qed (simp add: Let_def)
    then show "ends (sql_CreateGroup e ?g) s'" by (simp add: pbind_give)
  qed
qed

text \<open>A row that replaces the one of a group: its record and the lists of its members are stale.\<close>

lemma change_update:
  assumes ok: "tables_ok t" and h: "h \<in> set (active_groups t)" "gr_ID h = key" and row: "gr_ID row = key" "gr_DeletedAt row = None"
    and par: "parent_ok t (gr_ParentGroupID row) [key]"
    and K: "groupKey key \<in> K" "\<And>p. (p, key) \<in> set (pt_playerGroups t) \<Longrightarrow> playerGroupsKey p \<in> K"
  shows "changes_only K t (t\<lparr>pt_groups := map (\<lambda>x. if gr_ID x = key then row else x) (pt_groups t)\<rparr>)" (is "changes_only K t ?t")
proof -
  let ?f = "\<lambda>x. if gr_ID x = key then row else x"
  have inj: "inj_on gr_ID (set (pt_groups t))" using ok by (simp add: tables_ok_def distinct_map)
  have only: "x = h" if "x \<in> set (pt_groups t)" "gr_ID x = key" for x
    using inj that h active_row by (auto dest: inj_onD)
  have ids: "map gr_ID (pt_groups ?t) = map gr_ID (pt_groups t)" using row by simp
  have hact: "gr_DeletedAt h = None" using h(1) by (simp add: active_groups_def)
  have act: "active_groups ?t = map ?f (active_groups t)"
  proof -
    have "filter (\<lambda>g. gr_DeletedAt g = None) (map ?f xs) = map ?f (filter (\<lambda>g. gr_DeletedAt g = None) xs)"
      if "\<forall>x \<in> set xs. gr_ID x = key \<longrightarrow> x = h" for xs
      using that row(2) hact by (induction xs) auto
    then show ?thesis using only by (simp add: active_groups_def)
  qed
  have idact: "gr_ID ` set (active_groups ?t) = gr_ID ` set (active_groups t)" 
  proof -
    have "map gr_ID (active_groups ?t) = map gr_ID (active_groups t)" unfolding act using row(1) by simp
    then show ?thesis by (metis set_map)
  qed
  have edges: "parent_edges ?t \<subseteq> parent_edges t \<union> {(key, p) | p. gr_ParentGroupID row = Some p}"
    using row(1) by (auto simp: parent_edges_def act split: if_splits)
  have acyc: "acyclic (parent_edges ?t)"
  proof (cases "gr_ParentGroupID row")
    case None
    then have "parent_edges ?t \<subseteq> parent_edges t" using edges by auto
    then show ?thesis using ok acyclic_subset by (auto simp: tables_ok_def)
  next
    case (Some p)
    then have "(p, key) \<notin> (parent_edges t)\<^sup>*" using par by (auto simp: parent_ok_def)
    then have "acyclic (insert (key, p) (parent_edges t))" using ok by (simp add: tables_ok_def)
    moreover have "parent_edges ?t \<subseteq> insert (key, p) (parent_edges t)" using edges Some by auto
    ultimately show ?thesis using acyclic_subset by blast
  qed
  have snd: "snd ` parent_edges ?t \<subseteq> gr_ID ` set (active_groups ?t)"
  proof
    fix q assume "q \<in> snd ` parent_edges ?t"
    then have "q \<in> snd ` parent_edges t \<or> gr_ParentGroupID row = Some q" using edges by force
    then show "q \<in> gr_ID ` set (active_groups ?t)"
    proof
      assume "q \<in> snd ` parent_edges t"
      then show ?thesis using ok unfolding idact tables_ok_def by blast
    next
      assume "gr_ParentGroupID row = Some q"
      then show ?thesis using par unfolding idact parent_ok_def by blast
    qed
  qed
  have rows: "\<forall>g \<in> set (pt_groups ?t). 0 < gr_ID g \<and> gr_ID g < pt_nextGroup t"
  proof
    fix g assume "g \<in> set (pt_groups ?t)"
    then have "gr_ID g \<in> gr_ID ` set (pt_groups ?t)" by (rule imageI)
    moreover have "gr_ID ` set (pt_groups ?t) = gr_ID ` set (pt_groups t)" using arg_cong [OF ids, of set] by (simp only: set_map)
    ultimately obtain h where h: "h \<in> set (pt_groups t)" "gr_ID g = gr_ID h" by blast
    have "0 < gr_ID h \<and> gr_ID h < pt_nextGroup t" using ok h(1) unfolding tables_ok_def by blast
    then show "0 < gr_ID g \<and> gr_ID g < pt_nextGroup t" unfolding h(2) .
  qed
  have tok: "tables_ok ?t"
    unfolding tables_ok_def ids
  proof (intro conjI)
    show "\<forall>g \<in> set (pt_groups ?t). 0 < gr_ID g \<and> gr_ID g < pt_nextGroup ?t" using rows by simp
    show "snd ` parent_edges ?t \<subseteq> gr_ID ` set (active_groups ?t)" by (rule snd)
  qed (use ok acyc in \<open>simp_all add: tables_ok_def\<close>)
  have groups: "groups_of ?t p = groups_of t p" if "(p, key) \<notin> set (pt_playerGroups t)" for p
  proof -
    have "filter (\<lambda>g. (p, gr_ID g) \<in> set (pt_playerGroups t)) (map ?f xs) = filter (\<lambda>g. (p, gr_ID g) \<in> set (pt_playerGroups t)) xs" for xs
      using that row(1) by (induction xs) auto
    then show ?thesis by (simp add: groups_of_def act)
  qed
  have find: "group_by_id ?t i = group_by_id t i" if "i \<noteq> key" for i
  proof -
    have "List.find (\<lambda>g. gr_ID g = i) (map ?f xs) = List.find (\<lambda>g. gr_ID g = i) xs" for xs
      using that row(1) by (induction xs) auto
    then show ?thesis by (simp add: group_by_id_def act)
  qed
  have keys: "fst k = groupKind \<Longrightarrow> k \<notin> K \<Longrightarrow> snd k \<noteq> key" "fst k = playerGroupsKind \<Longrightarrow> k \<notin> K \<Longrightarrow> (snd k, key) \<notin> set (pt_playerGroups t)" for k
    using K by (cases k; auto simp: groupKey_def playerGroupsKey_def)+
  show ?thesis unfolding changes_only_def
  proof (intro conjI allI impI)
    fix k assume "k \<notin> K \<and> legit t k"
    then show "fragment ?t k = fragment t k" "legit ?t k"
      using groups find keys [of k] by (auto simp: fragment_def legit_def split: keyKind.splits)
  qed (rule tok)
qed

lemma ends_write_group:
  assumes s: "sound s" and e: "invalidates e" and g: "gr_ID g = key" "gr_DeletedAt g = None" and par: "parent_ok (ps_tables s) (gr_ParentGroupID g) [key]"
  shows "ends (write_group e key g) s"
proof -
  have ok: "tables_ok (ps_tables s)" using s by (simp add: sound_but_def)
  obtain ps where ps: "affected (ps_tables s) key = Some ps"
      "set ps = {p. \<exists>g \<in> set (active_groups (ps_tables s)). gr_ID g = key \<and>
         (\<exists>x. (x, key) \<in> (parent_edges (ps_tables s))\<^sup>* \<and> (p, x) \<in> set (pt_playerGroups (ps_tables s)))}"
    using affected_members [OF ok] by blast
  have aff: "passes (ListAffectedPlayerIDs e key) s (\<lambda>qs. qs = ps)"
    using sound_calls [where K = "{}" and s = s] s ps(1)
    by (auto simp: passes_def ListAffectedPlayerIDs_def statement_def same_tables_def Let_def)
  show ?thesis unfolding write_group_def
  proof (rule ends_bind [OF aff])
    fix qs s' assume qs: "qs = ps" and s': "sound s'" "same_tables s s'"
    let ?K = "{groupKey key} \<union> playerGroupsKey ` set ps"
    show "ends (pbind (sql_UpdateGroup e g) (\<lambda>changed. case changed of None \<Rightarrow> pfail ErrPermissionConflict
        | Some row \<Rightarrow> pbind (InvalidateGroup e key) (\<lambda>_. pbind (invalidate_players e qs) (\<lambda>_. pgive row)))) s'"
      unfolding sql_UpdateGroup_def
    proof (rule ends_statement [OF s'(1)])
      fix n x t'
      let ?t = "(ps_tables s')\<lparr>pt_calls := n\<rparr>"
      assume r: "(case List.find (\<lambda>h. gr_ID h = gr_ID g \<and> gr_Version h = gr_Version g) (active_groups ?t) of
          None \<Rightarrow> Some (Inr (None, ?t))
        | Some h \<Rightarrow> (let row = g\<lparr>gr_Version := gr_Version h + 1, gr_DeletedAt := None\<rparr>
             in if \<not> row_ok ?t row then Some (Inl ErrPermissionStore)
                else Some (Inr (Some row, ?t\<lparr>pt_groups := map (\<lambda>x. if gr_ID x = gr_ID g then row else x) (pt_groups ?t)\<rparr>)))) = Some (Inr (x, t'))"
      have okt: "tables_ok ?t" using s'(1) by (simp add: sound_but_def)
      have sh: "active_groups ?t = active_groups (ps_tables s)" "pt_playerGroups ?t = pt_playerGroups (ps_tables s)" "parent_ok ?t = parent_ok (ps_tables s)"
        using s'(2) by (auto simp: same_tables_def)
      show "\<exists>K. changes_only K ?t t' \<and> clears K (case x of None \<Rightarrow> pfail ErrPermissionConflict
          | Some row \<Rightarrow> pbind (InvalidateGroup e key) (\<lambda>_. pbind (invalidate_players e qs) (\<lambda>_. pgive row)))"
      proof (cases "List.find (\<lambda>h. gr_ID h = gr_ID g \<and> gr_Version h = gr_Version g) (active_groups ?t)")
        case None
        then show ?thesis using r no_change [OF okt] clears_fail by auto
      next
        case (Some h)
        then have h: "h \<in> set (active_groups ?t)" "gr_ID h = key" using g(1) by (auto simp: find_Some_iff)
        let ?row = "g\<lparr>gr_Version := gr_Version h + 1, gr_DeletedAt := None\<rparr>"
        have t': "t' = ?t\<lparr>pt_groups := map (\<lambda>x. if gr_ID x = key then ?row else x) (pt_groups ?t)\<rparr>" and x: "x = Some ?row"
          using r Some g(1) by (auto simp: Let_def split: if_splits)
        have "changes_only ?K ?t t'" unfolding t'
        proof (rule change_update [OF okt h])
          fix p assume "(p, key) \<in> set (pt_playerGroups ?t)"
          then have "p \<in> set ps" using h sh ps(2) by auto
          then show "playerGroupsKey p \<in> ?K" by simp
        qed (use g par sh in simp_all)
        moreover have "clears ?K (pbind (InvalidateGroup e key) (\<lambda>_. pbind (invalidate_players e qs) (\<lambda>_. pgive ?row)))"
          by (rule clears_group [OF e], rule clears_players [OF e]) (auto simp: qs)
        ultimately show ?thesis using x by auto
      qed
    qed (simp add: Let_def split: option.split)
  qed
qed

lemma safe_UpdateGroup:
  assumes e: "invalidates e"
  shows "safe (UpdateGroup e key up)"
  unfolding safe_ends
proof (intro allI impI)
  fix s assume s: "sound s"
  have find: "passes (FindGroupByID e key) s (\<lambda>found. found = group_by_id (ps_tables s) key)"
    by (rule passes_answers [OF s answers_FindGroupByID]) simp
  show "ends (UpdateGroup e key up) s"
    unfolding UpdateGroup_def
  proof (rule ends_bind [OF find])
    fix found s1 assume f: "found = group_by_id (ps_tables s) key" and s1: "sound s1" "same_tables s s1"
    show "ends (case found of None \<Rightarrow> pfail ErrPermissionGroupNotFound
        | Some g0 \<Rightarrow> pbind (validateGroup e (applyGroupUpdate g0 up) key) (\<lambda>_. write_group e key (applyGroupUpdate g0 up))) s1"
    proof (cases found)
      case None
      then show ?thesis using ends_fail [OF s1(1)] by simp
    next
      case (Some g0)
      let ?g = "applyGroupUpdate g0 up"
      have g0: "g0 \<in> set (active_groups (ps_tables s))" "gr_ID g0 = key" using f Some group_by_id_some by metis+
      have g: "gr_ID ?g = key" "gr_DeletedAt ?g = None"
        using g0 by (simp_all add: applyGroupUpdate_def active_groups_def)
      have "ends (pbind (validateGroup e ?g key) (\<lambda>_. write_group e key ?g)) s1"
      proof (rule ends_bind [OF passes_validateGroup [OF s1(1)]])
        fix s2 assume "parent_ok (ps_tables s1) (gr_ParentGroupID ?g) [key]" "sound s2" "same_tables s1 s2"
        then show "ends (write_group e key ?g) s2"
          using ends_write_group [OF _ e g] parent_ok_same by metis
      qed
      then show ?thesis using Some by simp
    qed
  qed
qed

lemma safe_found: "safe (found_group e key)"
  unfolding found_group_def
  by (rule safe_bind [OF answers_safe [OF answers_FindGroupByID]]) (auto split: option.split intro: safe_give safe_fail)

lemma safe_validate:
  "safe (validateGroupNode e key node)" "safe (validateMembership e p key)" "safe (validatePlayerNode e p node)"
  by (auto simp: validateGroupNode_def validateMembership_def validatePlayerNode_def intro: safe_found safe_give safe_fail)

lemma safe_GrantGroupNode: "invalidates e \<Longrightarrow> safe (GrantGroupNode e key node a)"
  unfolding GrantGroupNode_def by (intro safe_bind safe_validate safe_UpsertGroupNode clears_InvalidateGroup)

lemma safe_RevokeGroupNode: "invalidates e \<Longrightarrow> safe (RevokeGroupNode e key node)"
  unfolding RevokeGroupNode_def by (intro safe_bind safe_validate safe_DeleteGroupNode clears_InvalidateGroup)

lemma safe_GrantPlayerNode: "invalidates e \<Longrightarrow> safe (GrantPlayerNode e p node a)"
  unfolding GrantPlayerNode_def InvalidatePlayerNodes_def by (intro safe_bind safe_validate safe_UpsertPlayerNode clears_one)

lemma safe_RevokePlayerNode: "invalidates e \<Longrightarrow> safe (RevokePlayerNode e p node)"
  unfolding RevokePlayerNode_def InvalidatePlayerNodes_def by (intro safe_bind safe_validate safe_DeletePlayerNode clears_one)

lemma safe_AddPlayerToGroup: "invalidates e \<Longrightarrow> safe (AddPlayerToGroup e p key)"
  unfolding AddPlayerToGroup_def InvalidatePlayerGroups_def by (intro safe_bind safe_validate safe_AddPlayer clears_one)

lemma safe_RemovePlayerFromGroup: "invalidates e \<Longrightarrow> safe (RemovePlayerFromGroup e p key)"
  unfolding RemovePlayerFromGroup_def InvalidatePlayerGroups_def by (intro safe_bind safe_validate safe_RemovePlayer clears_one)

lemma safe_AssignDefaultGroup: "invalidates e \<Longrightarrow> safe (AssignDefaultGroup e p)"
  unfolding AssignDefaultGroup_def
  by (auto intro!: safe_bind [OF answers_safe [OF answers_FindGroupByName]] safe_fail safe_AddPlayerToGroup split: option.split)

lemma safe_resolve: "safe (resolve e p node)"
proof (cases "0 < p \<and> Concrete node")
  case True
  show ?thesis unfolding safe_ends
  proof (intro allI impI)
    fix s assume s: "sound s"
    then have "tables_ok (ps_tables s)" by (simp add: sound_but_def)
    from answers_resolve [OF this, of p node e] True obtain d where "answers e (resolve e p node) (Inr d) s" using shows_self by blast
    then show "ends (resolve e p node) s" using s by (auto simp: answers_def ends_def)
  qed
next
  case False
  then have "resolve e p node = pfail ErrInvalidPlayerID \<or> resolve e p node = pfail ErrInvalidNode"
    by (auto simp: resolve_def)
  then show ?thesis by (elim disjE) (simp_all add: safe_fail)
qed

lemma safe_HasPermission: "safe (HasPermission e p node)"
  unfolding HasPermission_def by (intro safe_bind safe_resolve safe_give)

lemma safe_PrimaryGroup: "safe (PrimaryGroup e p)"
  unfolding PrimaryGroup_def by (intro safe_bind safe_give answers_safe [OF answers_playerGroups])

lemma safe_effective_nodes: "safe (effective_nodes e p nodes)"
  by (induction nodes) (auto intro!: safe_bind safe_resolve safe_give)

lemma safe_EffectiveNodes: "safe (EffectiveNodes e p)"
  by (simp add: EffectiveNodes_def safe_fail safe_effective_nodes)

lemma safe_effective_perks: "safe (effective_perks e p rs)"
  by (induction rs) (auto intro!: safe_bind safe_HasPermission safe_give)

lemma safe_EffectivePerks: "safe (EffectivePerks e p)"
  unfolding EffectivePerks_def by (intro safe_bind safe_effective_perks safe_give)

lemma safe_AffectedPlayerIDs: "safe (AffectedPlayerIDs e key)"
proof -
  have "safe (pbind (ListAffectedPlayerIDs e key) pgive)"
    unfolding ListAffectedPlayerIDs_def
  proof (rule safe_statement [where K = "{}"])
    show "(case affected t key of None \<Rightarrow> None | Some ps \<Rightarrow> Some (Inr (ps, t))) \<noteq> None" if "tables_ok t" for t
      using affected_members [OF that, of key] by auto
  qed (auto split: option.splits intro: no_change clears_give)
  then show ?thesis by (simp add: AffectedPlayerIDs_def safe_fail pbind_give)
qed

subsection \<open>Runs\<close>

definition reliable :: "permission_op \<Rightarrow> bool" where
  "reliable x \<longleftrightarrow> (case op_env x of None \<Rightarrow> True | Some e \<Rightarrow> invalidates e)"

lemma after_safe: "safe m \<Longrightarrow> sound s \<Longrightarrow> \<exists>s'. after m s = Some s' \<and> sound s'"
  by (auto simp: safe_def after_def)

lemmas safe_calls = safe_HasPermission safe_PrimaryGroup safe_CreateGroup safe_UpdateGroup safe_GrantGroupNode safe_RevokeGroupNode
  safe_AddPlayerToGroup safe_RemovePlayerFromGroup safe_GrantPlayerNode safe_RevokePlayerNode safe_AssignDefaultGroup safe_EffectiveNodes
  safe_EffectivePerks safe_AffectedPlayerIDs

lemma step_sound: "sound s \<Longrightarrow> reliable x \<Longrightarrow> \<exists>s'. permission_step x s = Some s' \<and> sound s'"
proof (cases x)
  case (OpEvict k)
  assume s: "sound s"
  have "sound (evict k s)" unfolding sound_but_def
  proof (intro conjI allI impI ballI)
    fix key v assume "v \<in> cached_at (ps_cache (evict k s)) key"
    then have "v \<in> cached_at (ps_cache s) key" using cached_evict by blast
    from sound_cached [OF s _ this] show "v = fragment (ps_tables (evict k s)) key" "legit (ps_tables (evict k s)) key"
      by (simp_all add: evict_def)
  qed (use s in \<open>simp add: sound_but_def evict_def\<close>)
  then show ?thesis using OpEvict by simp
qed (auto simp: reliable_def intro!: after_safe safe_calls)

lemma run_sound: "sound s \<Longrightarrow> list_all reliable xs \<Longrightarrow> \<exists>s'. permission_run xs s = Some s' \<and> sound s'"
proof (induction xs arbitrary: s)
  case (Cons x xs)
  then have "reliable x" "list_all reliable xs" by simp_all
  moreover obtain s1 where "permission_step x s = Some s1" "sound s1" using step_sound [OF Cons.prems(1) \<open>reliable x\<close>] by blast
  ultimately show ?case using Cons.IH by simp
qed simp

text \<open>A service that starts over some tables, with nothing cached; Redis may be there or not.\<close>

definition fresh_service :: "permission_tables \<Rightarrow> bool \<Rightarrow> int \<Rightarrow> permission_store" where
  "fresh_service t redis ttl = \<lparr>ps_tables = t, ps_cache = NewWithTTL (if redis then Some Map.empty else None) ttl\<rparr>"

lemma fresh_sound: "tables_ok t \<Longrightarrow> sound (fresh_service t redis ttl)"
  by (auto simp: sound_but_def fresh_service_def NewWithTTL_def cached_at_def)

text \<open>C29: After any run of calls of the service, one after the other, in which Redis loses no invalidation, a check of a valid player and a
  concrete node answers what the reference reads off the tables, whatever the two layers of the cache hold: direct grants decide before groups, the first group
  in order of weight and id that says anything decides, and within it the most specific, nearest, denying grant. Only a failing statement gives an
  error instead. (Calls that overlap are not covered: a load that began before a change can store what the change made stale,
  lemma \<open>revoked_grant_stays_cached\<close>.)\<close>

theorem permission_follows_tables:
  assumes "tables_ok t" and "list_all reliable xs" and "permission_run xs (fresh_service t redis ttl) = Some s"
    and "0 < p" and "Concrete node"
  shows "\<exists>s' r. HasPermission e p node s = Some (s', r) \<and>
    (r = Inr (permitted (ps_tables s) p node) \<or> r = Inl ErrPermissionStore \<and> (\<exists>n. pe_fault e n))"
proof -
  have s: "sound s" using run_sound [OF fresh_sound [OF assms(1), of redis ttl] assms(2)] assms(3) by auto
  then have "tables_ok (ps_tables s)" by (simp add: sound_but_def)
  from answers_HasPermission [OF this assms(4,5), of e] s show ?thesis by (auto simp: answers_def)
qed

lemma HasPermission_invalid:
  "p \<le> 0 \<or> \<not> Concrete node \<Longrightarrow> HasPermission e p node s = Some (s, Inl (if p \<le> 0 then ErrInvalidPlayerID else ErrInvalidNode))"
  by (auto simp: HasPermission_def resolve_def pbind_def pfail_def)

lemma HasPermission_never_cycles:
  assumes "sound s"
  shows "\<exists>s' r. HasPermission e p node s = Some (s', r) \<and> r \<noteq> Inl ErrInheritanceCycle \<and> r \<noteq> Inl ErrPermissionGroupNotFound"
proof (cases "p \<le> 0 \<or> \<not> Concrete node")
  case True
  then show ?thesis by (simp add: HasPermission_invalid)
next
  case False
  have "tables_ok (ps_tables s)" using assms by (simp add: sound_but_def)
  from answers_HasPermission [OF this, of p node e] False assms show ?thesis by (force simp: answers_def)
qed

text \<open>C30: Every run of calls, one after the other, in which Redis loses no invalidation returns, whatever statements fail. The inheritance of
  groups stays acyclic; every check that follows returns, and never because the walk to the ancestors of a group met a cycle or a
  missing parent; and the recursive query for the players that a group affects ends, with the members
  of the group and of its descendants.\<close>

theorem permission_calls_return:
  assumes "tables_ok t" and "list_all reliable xs"
  shows "\<exists>s. permission_run xs (fresh_service t redis ttl) = Some s \<and> acyclic (parent_edges (ps_tables s)) \<and>
    (\<forall>e p node. \<exists>s' r. HasPermission e p node s = Some (s', r) \<and> r \<noteq> Inl ErrInheritanceCycle \<and> r \<noteq> Inl ErrPermissionGroupNotFound) \<and>
    (\<forall>key. \<exists>ps. affected (ps_tables s) key = Some ps \<and>
       set ps = {p. \<exists>g \<in> set (active_groups (ps_tables s)). gr_ID g = key \<and>
         (\<exists>x. (x, key) \<in> (parent_edges (ps_tables s))\<^sup>* \<and> (p, x) \<in> set (pt_playerGroups (ps_tables s)))})"
proof -
  obtain s where s: "permission_run xs (fresh_service t redis ttl) = Some s" "sound s"
    using run_sound [OF fresh_sound [OF assms(1)] assms(2)] by blast
  then have "tables_ok (ps_tables s)" by (simp add: sound_but_def)
  then show ?thesis using s(1) affected_members HasPermission_never_cycles [OF s(2)] by (auto simp: tables_ok_def)
qed

subsection \<open>Examples\<close>

definition plain_group :: "ident \<Rightarrow> string \<Rightarrow> i32 \<Rightarrow> ident option \<Rightarrow> permission_group" where
  "plain_group key name weight parent = \<lparr>gr_ID = key, gr_Version = 1, gr_DeletedAt = None, gr_Name = name, gr_Weight = weight,
     gr_Prefix = [], gr_PrefixColor = [], gr_BadgeURL = [], gr_RoomEffectID = None, gr_ParentGroupID = parent\<rparr>"

definition staff_tables :: permission_tables where
  "staff_tables = \<lparr>pt_groups = [plain_group 1 ''member'' 0 None, plain_group 2 ''admin'' 100 (Some 1)], pt_nextGroup = 3,
     pt_groupNodes = [(1, \<lparr>gt_Node = ''room.mute'', gt_Allowed = False\<rparr>), (2, \<lparr>gt_Node = ''*'', gt_Allowed = True\<rparr>)],
     pt_playerGroups = [(7, 1), (7, 2)], pt_playerNodes = [], pt_players = (\<lambda>_. True), pt_calls = 0\<rparr>"

definition calm :: permission_env where
  "calm = \<lparr>pe_now = 0, pe_fault = (\<lambda>_. False), pe_down = (\<lambda>_ _. False),
     pe_registered = [\<lparr>rg_Node = ''room.mute'', rg_PerkName = [], rg_Package = [], rg_Description = []\<rparr>], pe_url = (\<lambda>_. None)\<rparr>"

definition staff_calls :: "permission_op list" where
  "staff_calls = [OpHas calm 7 ''room.mute'', OpGrantGroup calm 2 ''room.mute'' True, OpDefault calm 8, OpRevokeGroup calm 1 ''room.mute'',
     OpUpdate calm 1 \<lparr>ug_Name = None, ug_Weight = Some 5, ug_Prefix = None, ug_PrefixColor = None, ug_BadgeURL = None,
       ug_RoomEffectID = None, ug_ParentGroupID = None\<rparr>, OpEvict (shared_key (groupKey 1))]"

lemma parent_edges_map: "parent_edges t = {(a, b). (a, Some b) \<in> set (map (\<lambda>g. (gr_ID g, gr_ParentGroupID g)) (active_groups t))}"
  by (auto simp: parent_edges_def)

lemma staff_ok: "tables_ok staff_tables"
proof -
  have "map (\<lambda>g. (gr_ID g, gr_ParentGroupID g)) (active_groups staff_tables) = [(1, None), (2, Some 1)]" by code_simp
  then have "parent_edges staff_tables = {(2, 1)}" unfolding parent_edges_map by auto
  moreover have "acyclic {(2, 1) :: ident \<times> ident}"
  proof (rule acyclicI_order [of _ "\<lambda>i. i"])
    show "b < a" if "(a, b) \<in> {(2, 1 :: int)}" for a b :: ident using that by auto
  qed
  ultimately show ?thesis unfolding tables_ok_def by (simp only:, simp add: staff_tables_def plain_group_def active_groups_def)
qed

lemma calm_invalidates: "invalidates calm" by (simp add: invalidates_def calm_def)

lemma staff_reliable: "list_all reliable staff_calls" by (simp add: staff_calls_def reliable_def calm_invalidates)

lemma mute_concrete: "Concrete ''room.mute''" by code_simp

theorem permission_follows_tables_witness:
  "\<exists>s s' r. permission_run staff_calls (fresh_service staff_tables True 0) = Some s \<and>
     HasPermission calm 7 ''room.mute'' s = Some (s', r) \<and> r = Inr (permitted (ps_tables s) 7 ''room.mute'')"
proof -
  obtain s where s: "permission_run staff_calls (fresh_service staff_tables True 0) = Some s"
    using run_sound [OF fresh_sound [OF staff_ok] staff_reliable] by blast
  from permission_follows_tables [OF staff_ok staff_reliable this _ mute_concrete, of 7 calm] s show ?thesis
    by (auto simp: calm_def)
qed

theorem permission_calls_return_witness:
  "\<exists>s. permission_run staff_calls (fresh_service staff_tables True 0) = Some s \<and> acyclic (parent_edges (ps_tables s))"
  using permission_calls_return [OF staff_ok staff_reliable, of True 0] by blast

text \<open>The administrator inherits a denial and holds a wildcard: the more specific denial of the parent decides.\<close>

lemma specific_parent_decides:
  "map_option snd (HasPermission calm 7 ''room.mute'' (fresh_service staff_tables True 0)) = Some (Inr False)"
  "map_option snd (HasPermission calm 7 ''room.kick'' (fresh_service staff_tables True 0)) = Some (Inr True)"
  by code_simp+

text \<open>Two updates that run at the same time: both are validated against the tables without a cycle, then both are written.\<close>

definition two_roots :: permission_tables where
  "two_roots = staff_tables\<lparr>pt_groups := [plain_group 1 ''member'' 0 None, plain_group 2 ''admin'' 100 None]\<rparr>"

definition raced :: "permission_store option" where
  "raced =
     (let g1 = plain_group 1 ''member'' 0 (Some 2); g2 = plain_group 2 ''admin'' 100 (Some 1)
      in Option.bind (validateGroup calm g1 1 (fresh_service two_roots False 0)) (\<lambda>(s1, r1).
         Option.bind (validateGroup calm g2 2 s1) (\<lambda>(s2, r2).
         Option.bind (write_group calm 1 g1 s2) (\<lambda>(s3, r3).
         Option.bind (write_group calm 2 g2 s3) (\<lambda>(s4, r4).
           if isl r1 \<or> isl r2 \<or> isl r3 \<or> isl r4 then None else Some s4)))))"

lemma descend_never_ends:
  assumes "\<forall>w \<in> A. \<exists>g \<in> set gs. gr_ParentGroupID g = Some w \<and> gr_ID g \<in> A" and "set work \<inter> A \<noteq> {}"
  shows "descend gs work found = None"
proof -
  let ?P = "\<lambda>gs work. (\<forall>w \<in> A. \<exists>g \<in> set gs. gr_ParentGroupID g = Some w \<and> gr_ID g \<in> A) \<longrightarrow> set work \<inter> A = {}"
  have "?P gs work" if "descend gs work found = Some ids" for ids
  proof (rule descend.raw_induct [where P = "\<lambda>gs work found ids. ?P gs work", OF _ that], intro impI)
    fix rec :: "permission_group list \<Rightarrow> ident list \<Rightarrow> ident list \<Rightarrow> ident list option" and gs work found ids
    assume IH: "\<And>gs work found ids. rec gs work found = Some ids \<Longrightarrow> ?P gs work"
      and step: "(if work = [] then Some found else rec gs (children gs work) (found @ work)) = Some ids"
      and cyc: "\<forall>w \<in> A. \<exists>g \<in> set gs. gr_ParentGroupID g = Some w \<and> gr_ID g \<in> A"
    show "set work \<inter> A = {}"
    proof (cases "work = []")
      case False
      with step have "rec gs (children gs work) (found @ work) = Some ids" by simp
      from IH [OF this] cyc have none: "set (children gs work) \<inter> A = {}" by blast
      show ?thesis
      proof (rule ccontr)
        assume "set work \<inter> A \<noteq> {}"
        then obtain w g where "w \<in> set work" "g \<in> set gs" "gr_ParentGroupID g = Some w" "gr_ID g \<in> A" using cyc by blast
        then show False using none by (auto simp: set_children)
      qed
    qed simp
  qed
  with assms show ?thesis by (cases "descend gs work found") auto
qed

lemma updates_race_to_a_cycle:
  "map_option (\<lambda>s. map (\<lambda>g. (gr_ID g, gr_ParentGroupID g)) (active_groups (ps_tables s))) raced = Some [(1, Some 2), (2, Some 1)]"
  "map_option (\<lambda>s. map_option snd (HasPermission calm 8 ''room.mute'' s)) (map_option (\<lambda>s. s\<lparr>ps_tables := (ps_tables s)\<lparr>pt_playerGroups := [(8, 1)]\<rparr>\<rparr>) raced)
     = Some (Some (Inl ErrInheritanceCycle))"
  by code_simp+

text \<open>After the race the query for the affected players of either group does not return, and so no update can repair it.\<close>

lemma cycle_cannot_be_repaired:
  assumes "raced = Some s" and "key \<in> {1, 2}"
  shows "affected (ps_tables s) key = None"
proof -
  have m: "map (\<lambda>g. (gr_ID g, gr_ParentGroupID g)) (active_groups (ps_tables s)) = [(1, Some 2), (2, Some 1)]"
    using updates_race_to_a_cycle(1) unfolding assms(1) by simp
  then obtain g h where gh: "active_groups (ps_tables s) = [g, h]" "gr_ID g = 1" "gr_ParentGroupID g = Some 2" "gr_ID h = 2" "gr_ParentGroupID h = Some 1"
    by (auto simp: map_eq_Cons_conv)
  have "descend [g, h] (map gr_ID (filter (\<lambda>g. gr_ID g = key) [g, h])) [] = None"
    by (rule descend_never_ends [where A = "{1, 2}"]) (use gh assms(2) in auto)
  then show ?thesis by (simp add: affected_def gh(1))
qed

text \<open>A check that reads the grants before they are revoked and stores them afterwards: an hour later Redis still gives them away.\<close>

lemma revoked_grant_stays_cached:
  "(let t = staff_tables\<lparr>pt_playerNodes := [(8, \<lparr>gt_Node = ''room.mute'', gt_Allowed = True\<rparr>)]\<rparr>; key = playerNodesKey 8
    in Option.bind (RevokePlayerNode calm 8 ''room.mute'' (fresh_service t True 0)) (\<lambda>(s, r).
       map_option (\<lambda>(s', r'). (r', pt_playerNodes (ps_tables s')))
         (HasPermission (calm\<lparr>pe_now := 360000000000\<rparr>) 8 ''room.mute'' (s\<lparr>ps_cache := cache_store calm key (fragment t key) (ps_cache s)\<rparr>))))
   = Some (Inr True, [])"
  by code_simp

end
