(* ===== verification/Spec2Isabelle.thy ===== *)
theory Spec2Isabelle
  imports Codec Login Room_Registry Subscription Marketplace Permission
begin

text \<open>
  A verification library for the room server \<^emph>\<open>pixels\<close>, a Go program. It models the
  network layer, from the packet codec and the key agreement to sessions, handlers, the websocket
  transport and the admission of players, the world of an active room, from the heightmap of its floor up to the tick
  that moves the units in it, and the economy: currencies, trades, the marketplace, the catalog and the club over the
  durable store, and the permissions of players, as the code under \<^verbatim>\<open>src/\<close> has them.

  \<^bold>\<open>Parts and theories.\<close> Every theory follows one Go package or a group of its files; names of
  definitions are those of the Go functions (with a prefix where two packages share a name).

    \<^item> \<^verbatim>\<open>Pixels_Prelude\<close>: machine integers, decimal printing, generic lemmas, fact collections.
    \<^item> \<^verbatim>\<open>Codec\<close> (\<^verbatim>\<open>networking/codec\<close>): values and fields, payloads, packets, frames; the stream decoder.
    \<^item> \<^verbatim>\<open>Diffie\<close> (\<^verbatim>\<open>networking/crypto/diffie\<close>): RC4 as a state machine on its table, padded RSA over natural
      numbers, the key agreement and the channel with its states; a client is modelled for the round trip.
    \<^item> \<^verbatim>\<open>Connection\<close> (\<^verbatim>\<open>networking/connection\<close>): the lifecycle of a session, its security, handler policies,
      interceptors and the registries of handlers and connections.
    \<^item> \<^verbatim>\<open>Websocket\<close> (\<^verbatim>\<open>pkg/http/websocket\<close>): the read buffer with the payloads that point into it, the write
      queue, its single writer, the activation item that switches encryption on, and disposal.
    \<^item> \<^verbatim>\<open>Login\<close> (\<^verbatim>\<open>internal/auth/sso\<close>, \<^verbatim>\<open>internal/realm/session/binding\<close>, \<^verbatim>\<open>player/live\<close>,
      \<^verbatim>\<open>connection/handlers/security\<close>): tickets, the registries of live players and of bindings, and the ticket
      handler as goroutines that interleave, each with a program counter from arrival to the end of its connection.
    \<^item> \<^verbatim>\<open>Grid\<close> (\<^verbatim>\<open>internal/realm/room/world/grid\<close>): heights in quarters, points, the heightmap parser
      and encoder.
    \<^item> \<^verbatim>\<open>Surface\<close> (\<^verbatim>\<open>world/surface\<close>): sections, columns with their inline and overflow storage, fixtures
      and the resolver with its version counter for each tile.
    \<^item> \<^verbatim>\<open>Path_Heap\<close>, \<^verbatim>\<open>Path_Finder\<close>, \<^verbatim>\<open>Path_Correct\<close> (\<^verbatim>\<open>world/path\<close>): the open set, the A* search with its
      caches as explicit state, and its correctness in the locales \<^verbatim>\<open>tile_world\<close>, \<^verbatim>\<open>level_world\<close> and
      \<^verbatim>\<open>versioned_world\<close>, interpreted on the resolver.
    \<^item> \<^verbatim>\<open>Room_Unit\<close> (\<^verbatim>\<open>world/unit\<close>): one unit, its statuses, path and control.
    \<^item> \<^verbatim>\<open>Furniture\<close> (\<^verbatim>\<open>world/furniture\<close>, \<^verbatim>\<open>world/runtime/furnitureindex\<close>): footprints, slots, fixtures and
      the indexes built from a list of items.
    \<^item> \<^verbatim>\<open>Room_World\<close> (\<^verbatim>\<open>world/runtime\<close>, \<^verbatim>\<open>world/runtime/mount\<close>): the record \<^verbatim>\<open>world_state\<close> is the Go struct
      \<^verbatim>\<open>World\<close>; every exported operation is a function from the state to the state and its results.
    \<^item> \<^verbatim>\<open>World_Invariant\<close>: the invariant of the world (unit ids, slot reservations, riding links) and its
      preservation by each operation; \<^verbatim>\<open>world_step\<close> runs one operation.
    \<^item> \<^verbatim>\<open>World_Correct\<close>: the properties of reachable worlds, ticks, plans, placement and indexes.
    \<^item> \<^verbatim>\<open>Room_Live\<close> (\<^verbatim>\<open>internal/realm/room/runtime/live\<close>, \<^verbatim>\<open>live/task\<close>, \<^verbatim>\<open>access/doorbell\<close>,
      \<^verbatim>\<open>control/rights/state\<close>): one active room around its world, with occupants, spectators, doorbell requests, rights,
      mutes, tasks and cooldowns; the wrappers of the world's operations; movement planned outside the lock.
    \<^item> \<^verbatim>\<open>Room_Registry\<close> (\<^verbatim>\<open>live/registry.go\<close>, \<^verbatim>\<open>access/commands/enter/runtime.go\<close>): active rooms in a heap, the
      index of players, entering with its fallbacks, leaving and closing; the invariant that ties index,
      occupants and units together, kept by every call and every operation through a room pointer.
    \<^item> \<^verbatim>\<open>Economy\<close> (\<^verbatim>\<open>internal/realm/inventory/currency\<close>, \<^verbatim>\<open>internal/realm/furniture\<close>): the store, its
      statements and transactions; grants, corrections and the ledger; the guarded updates of furniture rows.
    \<^item> \<^verbatim>\<open>Trade\<close> (\<^verbatim>\<open>internal/realm/trade\<close>): sessions, the registry of live trades with its staged items, offers,
      the two-phase agreement as a step relation, and the settlement.
    \<^item> \<^verbatim>\<open>Marketplace\<close> (\<^verbatim>\<open>internal/realm/marketplace\<close>): configuration, prices, tokens, listings, purchases,
      redemptions, the expiry run; its properties hold next to trades that are negotiated and settled.
    \<^item> \<^verbatim>\<open>Catalog\<close> (\<^verbatim>\<open>internal/realm/catalog\<close>: \<^verbatim>\<open>model\<close>, \<^verbatim>\<open>service/cache.go\<close>, \<^verbatim>\<open>service/service.go\<close>): offers and pages, the
      cache of one generation, access to a page through the chain of its parents, quantities and discounts.
    \<^item> \<^verbatim>\<open>Catalog_Purchase\<close> (\<^verbatim>\<open>service/purchase.go\<close>, \<^verbatim>\<open>service/reward.go\<close>, \<^verbatim>\<open>repository\<close>, \<^verbatim>\<open>admin\<close>): the tables of the catalog, the
      transaction of a purchase with limited editions, gifts and vouchers, and the administration of offers, pages and
      vouchers. A relation between stores that every transaction keeps is stated as the locale \<^verbatim>\<open>store_relation\<close> and
      interpreted on the invariant of limited editions. The reading and the writing part of an edit or of a
      redemption are separate steps. Pets, room bundles, groups, effects, trophies and teleports answer a request or refuse it.
    \<^item> \<^verbatim>\<open>Subscription\<close> (\<^verbatim>\<open>internal/realm/subscription\<close>: \<^verbatim>\<open>core\<close>, \<^verbatim>\<open>record\<close>, \<^verbatim>\<open>database\<close>, \<^verbatim>\<open>admin\<close>): club memberships
      and the time they accrue, the cycle that records paydays and ends tiers, club gifts, targeted offers, the calendar
      and the bonus rare, over the store of the catalog. The record \<^verbatim>\<open>subscription_store\<close> holds the tables and the catalog
      below them; \<^verbatim>\<open>subscription_step\<close> runs one call of the service. A relation that every step keeps is stated in the
      locale \<^verbatim>\<open>club_relation\<close>, interpreted on unchanged memberships, on unchanged paydays and on a log
      of paydays that stays well-formed. Times are nanoseconds; the clock, what the kickback percentage makes of an amount and the
      generation of the catalog cache are arguments.
    \<^item> \<^verbatim>\<open>Permission\<close> (\<^verbatim>\<open>internal/permission\<close>): nodes with wildcards and their meaning on segments, the registry of nodes, the
      tables of groups and grants, the two layers of the cache, and the service that resolves a permission and changes the
      tables. The store is sound when the cache holds what the tables say and inheritance is acyclic; every call keeps it sound, so
      that the cached resolution agrees with the reference \<^verbatim>\<open>permitted\<close>. The locale \<^verbatim>\<open>cached_fragment\<close> is what the four families
      of cache keys share, interpreted on each of them. Two lemmas show what calls that overlap can break.

  \<^bold>\<open>Conventions.\<close> A \<^verbatim>\<open>uint16\<close> is a 16 bit word, a height (Go \<^verbatim>\<open>int16\<close>) a 16 bit word that is compared by
  \<open>sint\<close> and so wraps as in Go; Go's \<^verbatim>\<open>int\<close> and the 64 bit ids are mathematical integers, which no
  operation here brings near their limits. A pair of a result and an error is a sum, or a tuple with
  an error option where the code returns both. Maps are functions to \<open>option\<close>, or association lists with
  distinct keys where the code iterates over them; the order of the list stands for the order of one
  iteration, and no property depends on it. Pointers to units are reached through their key only, so
  an update of a unit is an update of the list of units. A time is an integer, 0 the zero time.

  \<^bold>\<open>The store.\<close> A statement is a function on the record \<open>db\<close> that its SQL text describes, or fails when
  \<open>fault\<close> says so at the statement counter; a transaction commits all its statements or none and
  runs as one step, since PostgreSQL serialises the rows it locks. Sessions of live trades are shared by
  pointers, so the registry holds them in a heap and the steps of several goroutines interleave.

  \<^bold>\<open>The network.\<close> What the random source delivers, whether a context is done and whether a write fails are
  arguments. A secure channel is held by a session as its contents and an identity, which stands for the
  pointer that the code compares. Handlers are functions on an arbitrary state, so the chain of interceptors
  is checked for every handler. The writer takes one item in a turn, and the turns of the writer
  between two actions of other goroutines are an argument of the operations that wait for it. In \<^verbatim>\<open>Login\<close> every
  call that takes a lock or goes to Redis or the database is one step of its goroutine; identifiers of
  connections, the digest of tickets, the clock, player rows, bans and failing calls are arguments.

  \<^bold>\<open>Termination.\<close> Loops are structural recursions or functions with a measure. Some loops end only for a
  reason that structure does not give: the search loop is bounded by \<^verbatim>\<open>MaxVisited\<close> and the length
  of the open list, and walking the \<^verbatim>\<open>cameFrom\<close> chain is a \<^verbatim>\<open>partial_function\<close> whose value \<open>None\<close> would be
  a run that never ends; the property \<^verbatim>\<open>Find_always_returns\<close> excludes it. The expiry run of the marketplace
  ends because a full batch closes an open listing. The loop over the due paydays of a membership is a \<^verbatim>\<open>partial_function\<close> too:
  with an interval that is not positive it never ends, and \<^verbatim>\<open>Normalize\<close> excludes one; \<^verbatim>\<open>paydays_exact\<close>
  contains that it returns, \<^verbatim>\<open>cycle_always_returns\<close> that the whole cycle does. The walks over the
  parents of a permission group and the recursive query for its descendants are \<^verbatim>\<open>partial_function\<close>s as well, and
  \<^verbatim>\<open>permission_calls_return\<close> shows that they end. No fuel is used.

  \<^bold>\<open>What is not modelled.\<close> The rooms and realms other than those above, packet
  definitions and the handlers that adapt packets to operations, the HTTP side other than the websocket
  session; of connections, loggers, observers, timers and the upgrade; in the economy, published events, packets, the search of listings and its cache; the conversions of heights from and to floating point numbers, of
  which the parsing of decimal heights is a parameter (\<^verbatim>\<open>units\<close>) of the operations that need it;
  locks, since the world is used under the lock of its room.
\<close>

end
